(* ===== verification/Prelude.thy ===== *)
theory Prelude
  imports Complex_Main "HOL-Library.AList" "HOL-Library.Product_Lexorder"
    "HOL-Library.Multiset" "HOL-Library.Word"
begin

text \<open>
  What every component of the model shares.

  \<^item> Python code that raises and mutates is a function of type \<open>('s, 'a) py\<close>: from the state
    to the exception or the value, and the state that is left behind. The state survives an
    exception, as it does in Python, so a handler (\<open>catch\<close>) sees the partial mutation.
    Exception messages are not modelled, only the class.
  \<^item> \<open>wp m Q E s\<close> says that running \<open>m\<close> from \<open>s\<close> either returns a value and state that satisfy
    \<open>Q\<close> or raises an exception and leaves a state that satisfy \<open>E\<close>. The collection \<open>wp_simps\<close>
    computes it through the combinators.
  \<^item> A dict or OrderedDict is an association list in insertion order: \<open>AList.update\<close> replaces in
    place or appends at the end, \<open>AList.delete\<close> pops, \<open>map_of\<close> looks up; a deque is a list.
  \<^item> A \<open>while\<close> loop over a queue is \<open>loop\<close>, which is given a bound on its rounds; \<open>OutOfFuel\<close> is not a
    class of Python but the sign that the bound was too small, and \<open>wp_loop\<close> excludes it by a measure.
  \<^item> bytes are lists of 8-bit words, Python ints are \<open>int\<close>, and a float that is only stored and
    compared (a timestamp) is a \<open>rat\<close>.
\<close>

section \<open>Exceptions and the state-exception monad\<close>

datatype exn =
    ValueError | RuntimeError | AssertionError | KeyError | IndexError | TypeError
  | NoFreeBlocksError | NotImplementedError | RecursionError | StructError | ZeroDivisionError
  | OverflowError | StopIteration | AttributeError | Exception | OutOfFuel

type_synonym ('s, 'a) py = "'s \<Rightarrow> (exn + 'a) \<times> 's"

type_synonym bytes = "8 word list"

definition return :: "'a \<Rightarrow> ('s, 'a) py" where
  "return x = (\<lambda>s. (Inr x, s))"

definition raise :: "exn \<Rightarrow> ('s, 'a) py" where
  "raise e = (\<lambda>s. (Inl e, s))"

definition bind :: "('s, 'a) py \<Rightarrow> ('a \<Rightarrow> ('s, 'b) py) \<Rightarrow> ('s, 'b) py" where
  "bind m f = (\<lambda>s. case m s of (Inl e, t) \<Rightarrow> (Inl e, t) | (Inr x, t) \<Rightarrow> f x t)"

definition andthen :: "('s, 'a) py \<Rightarrow> ('s, 'b) py \<Rightarrow> ('s, 'b) py" where
  "andthen m k = bind m (\<lambda>_. k)"

definition gets :: "('s \<Rightarrow> 'a) \<Rightarrow> ('s, 'a) py" where
  "gets f = (\<lambda>s. (Inr (f s), s))"

definition modify :: "('s \<Rightarrow> 's) \<Rightarrow> ('s, unit) py" where
  "modify f = (\<lambda>s. (Inr (), f s))"

text \<open>\<open>guard e b\<close> is Python's \<open>if not b: raise e\<close>; an \<open>assert\<close> is \<open>guard AssertionError\<close>.\<close>

definition guard :: "exn \<Rightarrow> bool \<Rightarrow> ('s, unit) py" where
  "guard e b = (if b then return () else raise e)"

definition catch :: "('s, 'a) py \<Rightarrow> (exn \<Rightarrow> ('s, 'a) py) \<Rightarrow> ('s, 'a) py" where
  "catch m h = (\<lambda>s. case m s of (Inl e, t) \<Rightarrow> h e t | (Inr x, t) \<Rightarrow> (Inr x, t))"

definition from_option :: "exn \<Rightarrow> 'a option \<Rightarrow> ('s, 'a) py" where
  "from_option e x = (case x of None \<Rightarrow> raise e | Some y \<Rightarrow> return y)"

definition lift_sum :: "exn + 'a \<Rightarrow> ('s, 'a) py" where
  "lift_sum r = (case r of Inl e \<Rightarrow> raise e | Inr x \<Rightarrow> return x)"

text \<open>Run an operation of a sub-object: \<open>g\<close> reads the sub-object, \<open>p\<close> writes it back.\<close>

definition zoom :: "('s \<Rightarrow> 't) \<Rightarrow> ('t \<Rightarrow> 's \<Rightarrow> 's) \<Rightarrow> ('t, 'a) py \<Rightarrow> ('s, 'a) py" where
  "zoom g p m = (\<lambda>s. case m (g s) of (r, t) \<Rightarrow> (r, p t s))"

fun for_each :: "'a list \<Rightarrow> ('a \<Rightarrow> ('s, unit) py) \<Rightarrow> ('s, unit) py" where
  "for_each [] f = return ()"
| "for_each (x # xs) f = andthen (f x) (for_each xs f)"

lemmas py_defs = return_def raise_def bind_def andthen_def gets_def modify_def guard_def
  catch_def from_option_def zoom_def

subsection \<open>Weakest preconditions\<close>

definition wp :: "('s, 'a) py \<Rightarrow> ('a \<Rightarrow> 's \<Rightarrow> bool) \<Rightarrow> (exn \<Rightarrow> 's \<Rightarrow> bool) \<Rightarrow> 's \<Rightarrow> bool" where
  "wp m Q E s = (case m s of (Inl e, t) \<Rightarrow> E e t | (Inr x, t) \<Rightarrow> Q x t)"

named_theorems wp_simps \<open>weakest preconditions of the combinators\<close>

lemma wp_return [wp_simps]: "wp (return x) Q E s = Q x s"
  by (simp add: wp_def return_def)

lemma wp_return_fun [wp_simps]: "wp (return x) Q E = Q x"
  by (simp add: fun_eq_iff wp_return)

lemma wp_raise [wp_simps]: "wp (raise e) Q E s = E e s"
  by (simp add: wp_def raise_def)

lemma wp_bind [wp_simps]: "wp (bind m f) Q E s = wp m (\<lambda>x. wp (f x) Q E) E s"
  by (simp add: wp_def bind_def split: prod.splits sum.splits)

lemma wp_andthen [wp_simps]: "wp (andthen m k) Q E s = wp m (\<lambda>_. wp k Q E) E s"
  by (simp add: andthen_def wp_bind)

lemma wp_gets [wp_simps]: "wp (gets f) Q E s = Q (f s) s"
  by (simp add: wp_def gets_def)

lemma wp_modify [wp_simps]: "wp (modify f) Q E s = Q () (f s)"
  by (simp add: wp_def modify_def)

lemma wp_guard [wp_simps]: "wp (guard e b) Q E s = (if b then Q () s else E e s)"
  by (simp add: guard_def wp_return wp_raise)

lemma wp_catch [wp_simps]: "wp (catch m h) Q E s = wp m Q (\<lambda>e. wp (h e) Q E) s"
  by (simp add: wp_def catch_def split: prod.splits sum.splits)

lemma wp_from_option [wp_simps]:
  "wp (from_option e x) Q E s = (case x of None \<Rightarrow> E e s | Some y \<Rightarrow> Q y s)"
  by (simp add: from_option_def wp_return wp_raise split: option.splits)

lemma wp_lift_sum [wp_simps]:
  "wp (lift_sum r) Q E s = (case r of Inl e \<Rightarrow> E e s | Inr x \<Rightarrow> Q x s)"
  by (simp add: lift_sum_def wp_return wp_raise split: sum.split)

lemma wp_zoom [wp_simps]:
  "wp (zoom g p m) Q E s = wp m (\<lambda>x t. Q x (p t s)) (\<lambda>e t. E e (p t s)) (g s)"
  by (simp add: wp_def zoom_def split: prod.splits sum.splits)

lemma wp_if [wp_simps]: "wp (if b then m else k) Q E s = (if b then wp m Q E s else wp k Q E s)"
  by simp

lemma wp_case_option [wp_simps]:
  "wp (case x of None \<Rightarrow> m | Some y \<Rightarrow> k y) Q E s =
     (case x of None \<Rightarrow> wp m Q E s | Some y \<Rightarrow> wp (k y) Q E s)"
  by (simp split: option.splits)

lemma wp_case_prod [wp_simps]:
  "wp (case x of (a, b) \<Rightarrow> k a b) Q E s = (case x of (a, b) \<Rightarrow> wp (k a b) Q E s)"
  by (simp split: prod.splits)

lemma wp_Let [wp_simps]: "wp (let x = t in k x) Q E s = (let x = t in wp (k x) Q E s)"
  by simp

lemma wp_conj:
  "wp m Q E s \<Longrightarrow> wp m Q' E' s \<Longrightarrow> wp m (\<lambda>x t. Q x t \<and> Q' x t) (\<lambda>e t. E e t \<and> E' e t) s"
  by (simp add: wp_def split: prod.splits sum.splits)

lemma wp_mono:
  "wp m Q E s \<Longrightarrow> (\<And>x t. Q x t \<Longrightarrow> Q' x t) \<Longrightarrow> (\<And>e t. E e t \<Longrightarrow> E' e t) \<Longrightarrow> wp m Q' E' s"
  by (simp add: wp_def split: prod.splits sum.splits)

lemma wp_returns: "wp m Q E s \<Longrightarrow> m s = (Inr x, t) \<Longrightarrow> Q x t"
  by (simp add: wp_def)

lemma wp_raises: "wp m Q E s \<Longrightarrow> m s = (Inl e, t) \<Longrightarrow> E e t"
  by (simp add: wp_def)

lemma wp_total: "wp m Q (\<lambda>_ _. False) s \<Longrightarrow> \<exists>x t. m s = (Inr x, t) \<and> Q x t"
  by (cases "m s") (auto simp: wp_def split: sum.splits)

lemma wpI: "m s = (Inr x, t) \<Longrightarrow> Q x t \<Longrightarrow> wp m Q E s"
  by (simp add: wp_def)

lemma wp_for_each:
  assumes step: "\<And>x t. x \<in> set xs \<Longrightarrow> I t \<Longrightarrow> wp (f x) (\<lambda>_. I) E t"
    and init: "I s"
  shows "wp (for_each xs f) (\<lambda>_. I) E s"
  using assms
proof (induction xs arbitrary: s)
  case Nil
  then show ?case by (simp add: wp_return)
next
  case (Cons x xs)
  have "wp (f x) (\<lambda>_. I) E s" using Cons.prems by simp
  then show ?case
    unfolding for_each.simps wp_andthen
    by (rule wp_mono) (use Cons in auto)
qed

lemma wp_state: "wp m (\<lambda>_. I) (\<lambda>_. I) s \<Longrightarrow> I (snd (m s))"
  by (simp add: wp_def split: prod.splits sum.splits)

lemma fold_invariant_step: "I s \<Longrightarrow> (\<And>c s. I s \<Longrightarrow> I (f c s)) \<Longrightarrow> I (fold f cs s)"
  by (induction cs arbitrary: s) auto

lemma run_pair: "fst (f s) = r \<Longrightarrow> f s = (r, snd (f s))"
  by (cases "f s") simp

subsection \<open>Loops\<close>

text \<open>
  A round of a loop leaves it with \<open>Some x\<close> and goes on with \<open>None\<close>. \<open>rounds\<close> is \<open>None\<close> when the loop
  has neither been left nor raised an exception within \<open>n\<close> rounds.
\<close>

fun rounds :: "nat \<Rightarrow> ('s, 'a option) py \<Rightarrow> 's \<Rightarrow> ((exn + 'a) \<times> 's) option" where
  "rounds 0 body s = None"
| "rounds (Suc n) body s = (case body s of
     (Inl e, t) \<Rightarrow> Some (Inl e, t)
   | (Inr (Some x), t) \<Rightarrow> Some (Inr x, t)
   | (Inr None, t) \<Rightarrow> rounds n body t)"

definition loop :: "nat \<Rightarrow> ('s, 'a option) py \<Rightarrow> ('s, 'a) py" where
  "loop n body = (\<lambda>s. case rounds n body s of None \<Rightarrow> (Inl OutOfFuel, s) | Some r \<Rightarrow> r)"

lemma rounds_end:
  assumes body: "\<And>t. I t \<Longrightarrow> wp body (\<lambda>r u. case r of None \<Rightarrow> I u \<and> f u < f t | Some x \<Rightarrow> Q x u) E t"
    and init: "I s" "f s < n"
  shows "\<exists>r t. rounds n body s = Some (r, t) \<and> (case r of Inl e \<Rightarrow> E e t | Inr x \<Rightarrow> Q x t)"
  using init
proof (induction n arbitrary: s)
  case (Suc n)
  obtain r t where r: "body s = (r, t)" by fastforce
  show ?case
  proof (cases "r = Inr None")
    case True
    then have "I t" "f t < n" using body [OF Suc.prems(1)] Suc.prems(2) by (auto simp: wp_def r)
    from Suc.IH [OF this] show ?thesis by (simp add: r True)
  next
    case False
    then show ?thesis
      using body [OF Suc.prems(1)] by (auto simp: wp_def r split: sum.splits option.splits)
  qed
qed simp

lemma wp_loop:
  assumes "\<And>t. I t \<Longrightarrow> wp body (\<lambda>r u. case r of None \<Rightarrow> I u \<and> f u < f t | Some x \<Rightarrow> Q x u) E t"
    and "I s" "f s < n"
  shows "wp (loop n body) Q E s"
proof -
  obtain r t where "rounds n body s = Some (r, t)" "case r of Inl e \<Rightarrow> E e t | Inr x \<Rightarrow> Q x t"
    using rounds_end [where I = I and f = f and Q = Q and E = E, OF assms] by blast
  then show ?thesis by (cases r) (simp_all add: loop_def wp_def)
qed

subsection \<open>Functions that raise but keep no state\<close>

definition ebind :: "exn + 'a \<Rightarrow> ('a \<Rightarrow> exn + 'b) \<Rightarrow> exn + 'b" where
  "ebind m f = (case m of Inl e \<Rightarrow> Inl e | Inr x \<Rightarrow> f x)"

definition echeck :: "exn \<Rightarrow> bool \<Rightarrow> exn + 'b \<Rightarrow> exn + 'b" where
  "echeck e b k = (if b then k else Inl e)"

lemma ebind_simps [simp]: "ebind (Inl e) f = Inl e" "ebind (Inr x) f = f x"
  by (simp_all add: ebind_def)

lemma ebind_Inr_iff: "ebind m f = Inr y \<longleftrightarrow> (\<exists>x. m = Inr x \<and> f x = Inr y)"
  by (cases m) simp_all

lemma echeck_simps [simp]: "echeck e True k = k" "echeck e False k = Inl e"
  by (simp_all add: echeck_def)

lemma echeck_Inr_iff [simp]: "echeck e b k = Inr y \<longleftrightarrow> b \<and> k = Inr y"
  by (simp add: echeck_def)

section \<open>Dicts, deques and heaps\<close>

type_synonym ('k, 'v) dict = "('k \<times> 'v) list"

abbreviation keys_of :: "('k, 'v) dict \<Rightarrow> 'k set" where
  "keys_of d \<equiv> fst ` set d"

definition wf_dict :: "('k, 'v) dict \<Rightarrow> bool" where
  "wf_dict d \<longleftrightarrow> distinct (map fst d)"

text \<open>\<open>OrderedDict.move_to_end\<close> and \<open>d.pop(k, None); d[k] = v\<close>: \<open>k\<close> becomes the newest entry.\<close>

definition move_to_end :: "'k \<Rightarrow> 'v \<Rightarrow> ('k, 'v) dict \<Rightarrow> ('k, 'v) dict" where
  "move_to_end k v d = AList.delete k d @ [(k, v)]"

lemma wf_dict_Nil [simp]: "wf_dict []"
  by (simp add: wf_dict_def)

lemma wf_dict_update [simp]: "wf_dict d \<Longrightarrow> wf_dict (AList.update k v d)"
  by (simp add: wf_dict_def distinct_update)

lemma wf_dict_delete [simp]: "wf_dict d \<Longrightarrow> wf_dict (AList.delete k d)"
  by (simp add: wf_dict_def distinct_delete)

lemma wf_dict_move_to_end [simp]: "wf_dict d \<Longrightarrow> wf_dict (move_to_end k v d)"
  using delete_notin_dom [of k d]
  by (auto simp: wf_dict_def move_to_end_def distinct_delete)

lemma map_of_move_to_end [simp]:
  "map_of (move_to_end k v d) = (map_of d)(k \<mapsto> v)"
  by (auto simp: move_to_end_def delete_conv' map_add_def split: option.splits)

lemmas dict_simps = update_conv' delete_conv'

lemma length_dict: "wf_dict d \<Longrightarrow> length d = card (dom (map_of d))"
  using distinct_card [of "map fst d"]
  by (simp add: wf_dict_def dom_map_of_conv_image_fst)

lemma wf_dict_map_of: "wf_dict d \<Longrightarrow> (k, v) \<in> set d \<longleftrightarrow> map_of d k = Some v"
  by (simp add: wf_dict_def map_of_eq_Some_iff)

lemma dict_vals: "wf_dict d \<Longrightarrow> snd ` set d = ran (map_of d)"
  by (simp add: wf_dict_def ran_distinct)

lemma dict_keys: "fst ` set d = dom (map_of d)"
  by (simp add: dom_map_of_conv_image_fst)

lemma dict_append: "k \<notin> fst ` set d \<Longrightarrow> AList.update k v d = d @ [(k, v)]"
  by (induction d) auto

lemma dict_delete_keys: "fst ` set (AList.delete k d) = fst ` set d - {k}"
  by (induction d) auto

lemma dict_delete_appended: "k \<notin> fst ` set d \<Longrightarrow> AList.delete k (d @ [(k, v)]) = d"
  by (induction d) auto

lemma dict_append_sum:
  "k \<notin> fst ` set d \<Longrightarrow> sum_list (map snd (AList.update k n d)) = sum_list (map snd d) + n"
  by (simp add: dict_append)

lemma dict_delete_sum:
  "wf_dict d \<Longrightarrow> map_of d k = Some n \<Longrightarrow>
   sum_list (map snd (AList.delete k d)) = sum_list (map snd d) - (n :: int)"
proof (induction d)
  case (Cons p d)
  obtain k' v where p: "p = (k', v)" by (cases p)
  show ?case
  proof (cases "k' = k")
    case True
    then have "k \<notin> fst ` set d" using Cons.prems(1) p by (simp add: wf_dict_def)
    then have "AList.delete k d = d" by (simp add: delete_id)
    with True p Cons.prems show ?thesis by simp
  next
    case False
    with p Cons show ?thesis by (simp add: wf_dict_def)
  qed
qed simp

lemma map_of_Nil_iff: "dom (map_of d) = {} \<longleftrightarrow> d = []"
  by (simp add: dom_map_of_conv_image_fst)

lemma finite_dom_dict [simp]: "finite (dom (map_of d))"
  by (rule finite_dom_map_of)

subsection \<open>heapq\<close>

text \<open>
  A \<open>heapq\<close> heap is kept as the sorted list of its elements: only the order in which elements
  are popped and the number of elements can be observed by the code, never the array layout.
\<close>

definition heappush :: "'a::linorder \<Rightarrow> 'a list \<Rightarrow> 'a list" where
  "heappush x h = insort x h"

definition heappop :: "('a list, 'a) py" where
  "heappop = (\<lambda>h. case h of [] \<Rightarrow> (Inl IndexError, h) | x # h' \<Rightarrow> (Inr x, h'))"

definition heapify :: "'a::linorder list \<Rightarrow> 'a list" where
  "heapify xs = sort xs"

locale heap_queue =
  fixes push :: "'a::linorder \<Rightarrow> 'q \<Rightarrow> 'q"
    and pop :: "('q, 'a) py"
    and build :: "'a list \<Rightarrow> 'q"
    and elems :: "'q \<Rightarrow> 'a multiset"
    and invar :: "'q \<Rightarrow> bool"
  assumes build_invar: "invar (build xs)"
    and build_elems: "elems (build xs) = mset xs"
    and push_invar: "invar q \<Longrightarrow> invar (push x q)"
    and push_elems: "invar q \<Longrightarrow> elems (push x q) = add_mset x (elems q)"
    and pop_empty: "invar q \<Longrightarrow> elems q = {#} \<Longrightarrow> pop q = (Inl IndexError, q)"
    and pop_min: "invar q \<Longrightarrow> elems q \<noteq> {#} \<Longrightarrow>
      \<exists>x q'. pop q = (Inr x, q') \<and> invar q' \<and> elems q = add_mset x (elems q') \<and>
             (\<forall>y \<in># elems q'. x \<le> y)"
begin

lemma pop_pushed_min:
  assumes "invar q" "\<forall>y \<in># elems q. x \<le> y"
  shows "\<exists>q'. pop (push x q) = (Inr x, q') \<and> invar q' \<and> elems q' = elems q"
proof -
  have i: "invar (push x q)" and e: "elems (push x q) = add_mset x (elems q)"
    using assms by (simp_all add: push_invar push_elems)
  then have "elems (push x q) \<noteq> {#}" by simp
  then obtain y q' where p: "pop (push x q) = (Inr y, q')" "invar q'"
      "elems (push x q) = add_mset y (elems q')" "\<forall>z \<in># elems q'. y \<le> z"
    using pop_min [OF i] by auto
  have "y = x"
  proof (rule ccontr)
    assume ne: "y \<noteq> x"
    with p(3) e have "x \<in># elems q'" and "y \<in># elems q"
      by (metis insert_noteq_member)+
    then have "y \<le> x" "x \<le> y" using p(4) assms(2) by auto
    with ne show False by simp
  qed
  with p e show ?thesis by auto
qed

end

interpretation heapq: heap_queue heappush heappop heapify mset sorted
proof unfold_locales
  show "sorted (heapify xs)" for xs :: "'a list" by (simp add: heapify_def)
  show "mset (heapify xs) = mset xs" for xs :: "'a list" by (simp add: heapify_def)
  show "sorted q \<Longrightarrow> sorted (heappush x q)" for q and x :: 'a
    by (simp add: heappush_def sorted_insort)
  show "mset (heappush x q) = add_mset x (mset q)" for q and x :: 'a
    by (simp add: heappush_def)
  show "mset q = {#} \<Longrightarrow> heappop q = (Inl IndexError, q)" for q :: "'a list"
    by (simp add: heappop_def)
  show "\<exists>x q'. heappop q = (Inr x, q') \<and> sorted q' \<and> mset q = add_mset x (mset q') \<and>
             (\<forall>y \<in># mset q'. x \<le> y)" if "sorted q" "mset q \<noteq> {#}" for q :: "'a list"
    using that by (cases q) (auto simp: heappop_def)
qed

section \<open>Strings\<close>

text \<open>
  \<open>str.strip()\<close> and \<open>str.lower()\<close> on the code points below 256, which are the values of HOL's
  \<open>char\<close>: the white space of the C0 and Latin-1 ranges, and the letters A to Z and those from
  U+00C0 to U+00DE (without the multiplication sign U+00D7).
\<close>

definition py_isspace :: "char \<Rightarrow> bool" where
  "py_isspace c \<longleftrightarrow> (let n = of_char c :: nat in
     9 \<le> n \<and> n \<le> 13 \<or> 28 \<le> n \<and> n \<le> 32 \<or> n = 133 \<or> n = 160)"

definition py_strip :: "string \<Rightarrow> string" where
  "py_strip s = rev (dropWhile py_isspace (rev (dropWhile py_isspace s)))"

definition py_lower_char :: "char \<Rightarrow> char" where
  "py_lower_char c = (let n = of_char c :: nat in
     if 65 \<le> n \<and> n \<le> 90 \<or> 192 \<le> n \<and> n \<le> 222 \<and> n \<noteq> 215 then char_of (n + 32) else c)"

definition py_lower :: "string \<Rightarrow> string" where
  "py_lower s = map py_lower_char s"

section \<open>Repeating an operation\<close>

fun repeat_py :: "nat \<Rightarrow> ('s, 'a) py \<Rightarrow> ('s, 'a list) py" where
  "repeat_py 0 m = return []"
| "repeat_py (Suc n) m = bind m (\<lambda>x. bind (repeat_py n m) (\<lambda>xs. return (x # xs)))"

section \<open>bytes\<close>

type_synonym content_hash = bytes

text \<open>The 32-byte check of \<open>_validate_content_hash\<close> and \<open>_validate_hash\<close>.\<close>

definition is_digest :: "bytes \<Rightarrow> bool" where
  "is_digest h \<longleftrightarrow> length h = 32"

end
