(* ===== verification/Evictor.thy ===== *)
theory Evictor
  imports Prelude
begin

text \<open>
  \<^verbatim>\<open>vllm/core/evictor_v2.py\<close>: the evictors that choose which freed, still cached block is given
  up. The \<open>Evictor\<close> base class is the locale \<open>evictor_interface\<close>; \<open>LRUEvictor\<close> and
  \<open>FrequencyAwareEvictor\<close> are the two implementations, and \<open>evictor\<close> is the object that
  \<open>make_evictor\<close> returns, on which the calls are dispatched. All three interpret the locale.
\<close>

section \<open>Policies and block metadata\<close>

datatype eviction_policy = LRU | FREQUENCY_AWARE

record block_meta_data =
  bm_content_hash :: content_hash
  bm_num_hashed_tokens :: int
  bm_last_accessed :: rat

definition new_block_meta_data :: "content_hash \<Rightarrow> int \<Rightarrow> rat \<Rightarrow> block_meta_data" where
  "new_block_meta_data h n t =
     \<lparr>bm_content_hash = h, bm_num_hashed_tokens = n, bm_last_accessed = t\<rparr>"

section \<open>LRUEvictor\<close>

type_synonym lru_evictor = "(int, block_meta_data) dict"

definition lru_init :: lru_evictor where
  "lru_init = []"

definition lru_contains :: "int \<Rightarrow> lru_evictor \<Rightarrow> bool" where
  "lru_contains b ft \<longleftrightarrow> b \<in> fst ` set ft"

text \<open>The \<open>for\<close> loop of \<open>evict\<close> after its first iteration; the first branch is the \<open>break\<close>.\<close>

fun lru_scan :: "int \<times> block_meta_data \<Rightarrow> (int \<times> block_meta_data) list
    \<Rightarrow> int \<times> block_meta_data" where
  "lru_scan (eid, e) [] = (eid, e)"
| "lru_scan (eid, e) ((i, b) # rest) =
     (if bm_last_accessed e < bm_last_accessed b then (eid, e)
      else if bm_num_hashed_tokens e < bm_num_hashed_tokens b then lru_scan (i, b) rest
      else lru_scan (eid, e) rest)"

definition lru_evict :: "(lru_evictor, int \<times> content_hash) py" where
  "lru_evict =
     bind (gets id) (\<lambda>ft. case ft of [] \<Rightarrow> raise ValueError
       | x # rest \<Rightarrow> (case lru_scan x rest of (i, b) \<Rightarrow>
           andthen (modify (AList.delete i)) (return (i, bm_content_hash b))))"

definition lru_add :: "int \<Rightarrow> content_hash \<Rightarrow> int \<Rightarrow> rat \<Rightarrow> (lru_evictor, unit) py" where
  "lru_add b h n t = modify (AList.update b (new_block_meta_data h n t))"

definition lru_update :: "int \<Rightarrow> rat \<Rightarrow> (lru_evictor, unit) py" where
  "lru_update b t =
     bind (gets (\<lambda>ft. map_of ft b)) (\<lambda>m.
     bind (from_option KeyError m) (\<lambda>d.
     modify (AList.update b (d\<lparr>bm_last_accessed := t\<rparr>))))"

definition lru_remove :: "int \<Rightarrow> (lru_evictor, unit) py" where
  "lru_remove b =
     bind (gets (lru_contains b)) (\<lambda>c.
     andthen (guard ValueError c) (modify (AList.delete b)))"

definition lru_num_blocks :: "lru_evictor \<Rightarrow> nat" where
  "lru_num_blocks ft = length ft"

section \<open>FrequencyAwareEvictor\<close>

type_synonym heap_entry = "int \<times> rat \<times> int \<times> int \<times> int"

record freq_evictor =
  fe_free_table :: "(int, block_meta_data) dict"
  fe_frequency_by_hash :: "(content_hash, int) dict"
  fe_heap :: "heap_entry list"
  fe_generations :: "(int, int) dict"
  fe_next_generation :: int

definition COMPACTION_FACTOR :: nat where "COMPACTION_FACTOR = 2"
definition COMPACTION_SLACK :: nat where "COMPACTION_SLACK = 1"

definition fe_init :: freq_evictor where
  "fe_init = \<lparr>fe_free_table = [], fe_frequency_by_hash = [], fe_heap = [],
     fe_generations = [], fe_next_generation = 0\<rparr>"

definition fe_contains :: "int \<Rightarrow> freq_evictor \<Rightarrow> bool" where
  "fe_contains b s \<longleftrightarrow> b \<in> fst ` set (fe_free_table s)"

definition fe_heap_key :: "int \<Rightarrow> block_meta_data \<Rightarrow> int \<Rightarrow> (freq_evictor, heap_entry) py" where
  "fe_heap_key b m g =
     bind (gets (\<lambda>s. map_of (fe_frequency_by_hash s) (bm_content_hash m))) (\<lambda>f.
     bind (from_option KeyError f) (\<lambda>f.
     return (f, bm_last_accessed m, - bm_num_hashed_tokens m, b, g)))"

definition fe_push :: "int \<Rightarrow> (freq_evictor, unit) py" where
  "fe_push b =
     andthen (modify (\<lambda>s. s\<lparr>fe_next_generation := fe_next_generation s + 1\<rparr>))
     (bind (gets fe_next_generation) (\<lambda>g.
      andthen (modify (\<lambda>s. s\<lparr>fe_generations := AList.update b g (fe_generations s)\<rparr>))
     (bind (gets (\<lambda>s. map_of (fe_free_table s) b)) (\<lambda>m.
      bind (from_option KeyError m) (\<lambda>m.
      bind (fe_heap_key b m g) (\<lambda>k.
      modify (\<lambda>s. s\<lparr>fe_heap := heappush k (fe_heap s)\<rparr>)))))))"

text \<open>The list comprehension of \<open>_compact_if_needed\<close>.\<close>

fun fe_all_keys :: "(int, block_meta_data) dict \<Rightarrow> (freq_evictor, heap_entry list) py" where
  "fe_all_keys [] = return []"
| "fe_all_keys ((b, m) # rest) =
     bind (gets (\<lambda>s. map_of (fe_generations s) b)) (\<lambda>g.
     bind (from_option KeyError g) (\<lambda>g.
     bind (fe_heap_key b m g) (\<lambda>k.
     bind (fe_all_keys rest) (\<lambda>ks. return (k # ks)))))"

definition fe_compact_if_needed :: "(freq_evictor, unit) py" where
  "fe_compact_if_needed =
     bind (gets (\<lambda>s. COMPACTION_FACTOR * length (fe_free_table s) + COMPACTION_SLACK)) (\<lambda>limit.
     bind (gets (\<lambda>s. length (fe_heap s))) (\<lambda>n.
     if n \<le> limit then return ()
     else bind (gets fe_free_table) (\<lambda>ft.
          bind (fe_all_keys ft) (\<lambda>ks.
          modify (\<lambda>s. s\<lparr>fe_heap := heapify ks\<rparr>)))))"

text \<open>
  The \<open>while\<close> loop of \<open>evict\<close>. Each iteration pops the least entry; an entry of a block that has
  left or was pushed again is dropped, an entry with an outdated frequency is pushed back with the
  current one. A pushed-back entry is never outdated again, which bounds the loop.
\<close>

definition fe_outdated :: "(int, block_meta_data) dict \<Rightarrow> (content_hash, int) dict
    \<Rightarrow> heap_entry \<Rightarrow> bool" where
  "fe_outdated ft fq e = (case e of (f, _, _, b, _) \<Rightarrow>
     (case map_of ft b of None \<Rightarrow> False
      | Some m \<Rightarrow> map_of fq (bm_content_hash m) \<noteq> Some f))"

lemma length_filter_heappush [simp]:
  "length (filter P (heappush x h)) = (if P x then 1 else 0) + length (filter P h)"
  by (induction h) (auto simp: heappush_def)

lemma length_heappush [simp]: "length (heappush x h) = Suc (length h)"
  by (simp add: heappush_def)

function fe_evict_loop :: "(freq_evictor, int \<times> content_hash) py" where
  "fe_evict_loop s =
     (case fe_heap s of
        [] \<Rightarrow> (Inl RuntimeError, s)
      | (f, la, nt, b, g) # h \<Rightarrow>
          (let s1 = s\<lparr>fe_heap := h\<rparr> in
           case map_of (fe_free_table s1) b of
             None \<Rightarrow> fe_evict_loop s1
           | Some m \<Rightarrow>
               if map_of (fe_generations s1) b \<noteq> Some g then fe_evict_loop s1
               else (case map_of (fe_frequency_by_hash s1) (bm_content_hash m) of
                  None \<Rightarrow> (Inl KeyError, s1)
                | Some f' \<Rightarrow>
                    if f' \<noteq> f then
                      fe_evict_loop (s1\<lparr>fe_heap := heappush
                        (f', bm_last_accessed m, - bm_num_hashed_tokens m, b, g) h\<rparr>)
                    else
                      andthen (modify (\<lambda>s. s\<lparr>fe_free_table := AList.delete b (fe_free_table s),
                                 fe_generations := AList.delete b (fe_generations s)\<rparr>))
                     (andthen fe_compact_if_needed (return (b, bm_content_hash m))) s1)))"
  by pat_completeness auto
termination
  by (relation "measures [\<lambda>s. length (filter
          (fe_outdated (fe_free_table s) (fe_frequency_by_hash s)) (fe_heap s)),
        \<lambda>s. length (fe_heap s)]")
    (auto simp: fe_outdated_def)

declare fe_evict_loop.simps [simp del]

definition fe_evict :: "(freq_evictor, int \<times> content_hash) py" where
  "fe_evict =
     bind (gets fe_free_table) (\<lambda>ft. if ft = [] then raise ValueError else fe_evict_loop)"

definition fe_add :: "int \<Rightarrow> content_hash \<Rightarrow> int \<Rightarrow> rat \<Rightarrow> (freq_evictor, unit) py" where
  "fe_add b h n t =
     andthen (guard ValueError (is_digest h))
     (andthen (modify (\<lambda>s. s\<lparr>fe_frequency_by_hash := AList.update h
         ((case map_of (fe_frequency_by_hash s) h of None \<Rightarrow> 0 | Some f \<Rightarrow> f) + 1)
         (fe_frequency_by_hash s)\<rparr>))
     (andthen (modify (\<lambda>s. s\<lparr>fe_free_table :=
         AList.update b (new_block_meta_data h n t) (fe_free_table s)\<rparr>))
     (andthen (fe_push b) fe_compact_if_needed)))"

definition fe_update :: "int \<Rightarrow> rat \<Rightarrow> (freq_evictor, unit) py" where
  "fe_update b t =
     bind (gets (\<lambda>s. map_of (fe_free_table s) b)) (\<lambda>m.
     bind (from_option KeyError m) (\<lambda>m.
     andthen (modify (\<lambda>s. s\<lparr>fe_free_table :=
         AList.update b (m\<lparr>bm_last_accessed := t\<rparr>) (fe_free_table s)\<rparr>))
     (andthen (fe_push b) fe_compact_if_needed)))"

definition fe_remove :: "int \<Rightarrow> (freq_evictor, unit) py" where
  "fe_remove b =
     bind (gets (fe_contains b)) (\<lambda>c.
     andthen (guard ValueError c)
     (andthen (modify (\<lambda>s. s\<lparr>fe_free_table := AList.delete b (fe_free_table s)\<rparr>))
     (bind (gets (\<lambda>s. map_of (fe_generations s) b)) (\<lambda>g.
      andthen (guard KeyError (g \<noteq> None))
     (andthen (modify (\<lambda>s. s\<lparr>fe_generations := AList.delete b (fe_generations s)\<rparr>))
      fe_compact_if_needed)))))"

definition fe_num_blocks :: "freq_evictor \<Rightarrow> nat" where
  "fe_num_blocks s = length (fe_free_table s)"

section \<open>The policy and the evictor it selects\<close>

definition eviction_policy_from_env :: "(string, string) dict \<Rightarrow> (string, string) dict option
    \<Rightarrow> exn + eviction_policy" where
  "eviction_policy_from_env os_environ environ =
     (let source = (case environ of None \<Rightarrow> os_environ | Some e \<Rightarrow> e);
          value = py_lower (py_strip (case map_of source ''BI100_KV_EVICTION_POLICY'' of
                     None \<Rightarrow> ''lru'' | Some v \<Rightarrow> v));
          policies = [(''lru'', LRU), (''frequency'', FREQUENCY_AWARE)]
      in case map_of policies value of None \<Rightarrow> Inl ValueError | Some p \<Rightarrow> Inr p)"

datatype evictor = EvLRU lru_evictor | EvFreq freq_evictor

definition make_evictor :: "eviction_policy \<Rightarrow> evictor" where
  "make_evictor p = (case p of LRU \<Rightarrow> EvLRU lru_init | FREQUENCY_AWARE \<Rightarrow> EvFreq fe_init)"

text \<open>A method call on the object, dispatched on its class.\<close>

definition ev_dispatch :: "(lru_evictor, 'a) py \<Rightarrow> (freq_evictor, 'a) py \<Rightarrow> (evictor, 'a) py" where
  "ev_dispatch p q = (\<lambda>e. case e of
       EvLRU l \<Rightarrow> (case p l of (r, l') \<Rightarrow> (r, EvLRU l'))
     | EvFreq s \<Rightarrow> (case q s of (r, s') \<Rightarrow> (r, EvFreq s')))"

definition ev_contains :: "int \<Rightarrow> evictor \<Rightarrow> bool" where
  "ev_contains b e = (case e of EvLRU l \<Rightarrow> lru_contains b l | EvFreq s \<Rightarrow> fe_contains b s)"

definition ev_evict :: "(evictor, int \<times> content_hash) py" where
  "ev_evict = ev_dispatch lru_evict fe_evict"

definition ev_add :: "int \<Rightarrow> content_hash \<Rightarrow> int \<Rightarrow> rat \<Rightarrow> (evictor, unit) py" where
  "ev_add b h n t = ev_dispatch (lru_add b h n t) (fe_add b h n t)"

definition ev_update :: "int \<Rightarrow> rat \<Rightarrow> (evictor, unit) py" where
  "ev_update b t = ev_dispatch (lru_update b t) (fe_update b t)"

definition ev_remove :: "int \<Rightarrow> (evictor, unit) py" where
  "ev_remove b = ev_dispatch (lru_remove b) (fe_remove b)"

definition ev_num_blocks :: "evictor \<Rightarrow> nat" where
  "ev_num_blocks e = (case e of EvLRU l \<Rightarrow> lru_num_blocks l | EvFreq s \<Rightarrow> fe_num_blocks s)"

section \<open>The interface\<close>

text \<open>
  What the block allocator relies on, whatever the policy: an evictor is a finite map from block
  ids to metadata; \<open>evict\<close> removes and returns some entry and fails only when there is none.
\<close>

locale evictor_interface =
  fixes invar :: "'e \<Rightarrow> bool"
    and meta :: "'e \<Rightarrow> int \<rightharpoonup> block_meta_data"
    and contains :: "int \<Rightarrow> 'e \<Rightarrow> bool"
    and evict :: "('e, int \<times> content_hash) py"
    and add :: "int \<Rightarrow> content_hash \<Rightarrow> int \<Rightarrow> rat \<Rightarrow> ('e, unit) py"
    and touch :: "int \<Rightarrow> rat \<Rightarrow> ('e, unit) py"
    and remove :: "int \<Rightarrow> ('e, unit) py"
    and num :: "'e \<Rightarrow> nat"
  assumes finite_meta: "finite (dom (meta e))"
    and contains_iff: "contains b e \<longleftrightarrow> b \<in> dom (meta e)"
    and num_eq: "invar e \<Longrightarrow> num e = card (dom (meta e))"
    and evict_empty: "invar e \<Longrightarrow> meta e = Map.empty \<Longrightarrow> evict e = (Inl ValueError, e)"
    and evict_some: "invar e \<Longrightarrow> meta e \<noteq> Map.empty \<Longrightarrow>
      \<exists>b m e'. evict e = (Inr (b, bm_content_hash m), e') \<and> invar e' \<and> meta e b = Some m \<and>
               meta e' = (meta e)(b := None)"
    and add_run: "invar e \<Longrightarrow> is_digest h \<Longrightarrow>
      \<exists>e'. add b h n t e = (Inr (), e') \<and> invar e' \<and>
           meta e' = (meta e)(b \<mapsto> new_block_meta_data h n t)"
    and touch_run: "invar e \<Longrightarrow> meta e b = Some m \<Longrightarrow>
      \<exists>e'. touch b t e = (Inr (), e') \<and> invar e' \<and>
           meta e' = (meta e)(b \<mapsto> m\<lparr>bm_last_accessed := t\<rparr>)"
    and touch_missing: "meta e b = None \<Longrightarrow> touch b t e = (Inl KeyError, e)"
    and remove_run: "invar e \<Longrightarrow> meta e b = Some m \<Longrightarrow>
      \<exists>e'. remove b e = (Inr (), e') \<and> invar e' \<and> meta e' = (meta e)(b := None)"
    and remove_missing: "meta e b = None \<Longrightarrow> remove b e = (Inl ValueError, e)"
begin

lemma num_zero_iff: "invar e \<Longrightarrow> num e = 0 \<longleftrightarrow> meta e = Map.empty"
  using finite_meta [of e] by (simp add: num_eq)

lemma evict_num:
  assumes "invar e" "num e = Suc n"
  shows "\<exists>b m e'. evict e = (Inr (b, bm_content_hash m), e') \<and> invar e' \<and> num e' = n \<and>
    meta e b = Some m \<and> meta e' = (meta e)(b := None)"
proof -
  have "meta e \<noteq> Map.empty" using assms num_zero_iff by fastforce
  then obtain b m e' where r: "evict e = (Inr (b, bm_content_hash m), e')" "invar e'"
      "meta e b = Some m" "meta e' = (meta e)(b := None)"
    using evict_some assms(1) by blast
  have "b \<in> dom (meta e)" using r(3) by auto
  then have "num e' = n"
    using assms r num_eq finite_meta [of e] by (simp add: card_Diff_singleton)
  with r show ?thesis by blast
qed

text \<open>Evicting as often as there are blocks gives up every block exactly once.\<close>

lemma drain:
  assumes "invar e" "num e = n"
  shows "\<exists>bhs e'. repeat_py n evict e = (Inr bhs, e') \<and> invar e' \<and> num e' = 0 \<and>
    distinct (map fst bhs) \<and> fst ` set bhs = dom (meta e) \<and>
    (\<forall>(b, h) \<in> set bhs. \<exists>m. meta e b = Some m \<and> bm_content_hash m = h)"
  using assms
proof (induction n arbitrary: e)
  case 0
  then show ?case using num_zero_iff by (simp add: return_def)
next
  case (Suc n)
  obtain b m e' where r: "evict e = (Inr (b, bm_content_hash m), e')" "invar e'" "num e' = n"
      "meta e b = Some m" "meta e' = (meta e)(b := None)"
    using evict_num [OF Suc.prems] by blast
  obtain bhs e'' where IH: "repeat_py n evict e' = (Inr bhs, e'')" "invar e''" "num e'' = 0"
      "distinct (map fst bhs)" "fst ` set bhs = dom (meta e')"
      "\<forall>(b, h) \<in> set bhs. \<exists>m. meta e' b = Some m \<and> bm_content_hash m = h"
    using Suc.IH [OF r(2,3)] by blast
  have "b \<notin> fst ` set bhs" using IH(5) r(5) by simp
  moreover have "\<exists>m. meta e c = Some m \<and> bm_content_hash m = h" if "(c, h) \<in> set bhs" for c h
    using IH(6) that r(5) by (fastforce split: if_splits)
  moreover have "insert b (fst ` set bhs) = dom (meta e)" using IH(5) r(4,5) by auto
  ultimately show ?case
    using r IH(1-4)
    by (intro exI [of _ "(b, bm_content_hash m) # bhs"] exI [of _ e''])
      (auto simp: bind_def return_def)
qed

end

section \<open>Correctness of LRUEvictor\<close>

lemma lru_scan_in: "lru_scan x xs \<in> set (x # xs)"
  by (induction x xs rule: lru_scan.induct) auto

definition lru_ordered :: "lru_evictor \<Rightarrow> bool" where
  "lru_ordered ft \<longleftrightarrow> sorted (map (\<lambda>(_, m). bm_last_accessed m) ft)"

lemma lru_scan_least:
  assumes "lru_ordered (x # xs)" "lru_scan x xs = (i, b)" "(j, c) \<in> set (x # xs)"
  shows "bm_last_accessed b = bm_last_accessed (snd x) \<and> bm_last_accessed b \<le> bm_last_accessed c \<and>
    bm_num_hashed_tokens (snd x) \<le> bm_num_hashed_tokens b \<and>
    (bm_last_accessed c = bm_last_accessed b \<longrightarrow> bm_num_hashed_tokens c \<le> bm_num_hashed_tokens b)"
  using assms
proof (induction x xs arbitrary: j c rule: lru_scan.induct)
  case (1 eid e)
  then show ?case by auto
next
  case (2 eid e k d rest)
  have ord: "lru_ordered ((k, d) # rest)" "lru_ordered ((eid, e) # rest)"
    and le: "bm_last_accessed e \<le> bm_last_accessed d"
    and all: "\<forall>(j, c) \<in> set rest. bm_last_accessed d \<le> bm_last_accessed c"
    using "2.prems"(1) by (auto simp: lru_ordered_def)
  show ?case
  proof (cases "bm_last_accessed e < bm_last_accessed d")
    case True
    with "2.prems" all show ?thesis by fastforce
  next
    case False
    with le have eq: "bm_last_accessed e = bm_last_accessed d" by simp
    show ?thesis
    proof (cases "bm_num_hashed_tokens e < bm_num_hashed_tokens d")
      case True
      with False "2.prems" have r: "lru_scan (k, d) rest = (i, b)" by simp
      note IH = "2.IH"(1) [OF False True ord(1) r]
      show ?thesis
        using "2.prems"(3) IH [of k d] IH [of j c] eq True by auto
    next
      case False': False
      with False "2.prems" have r: "lru_scan (eid, e) rest = (i, b)" by simp
      note IH = "2.IH"(2) [OF False False' ord(2) r]
      show ?thesis
        using "2.prems"(3) IH [of eid e] IH [of j c] eq False' by auto
    qed
  qed
qed

text \<open>
  The block to give up: least recently accessed, and among those the one that ends the longest
  hashed prefix.
\<close>

definition is_lru_victim :: "lru_evictor \<Rightarrow> int \<Rightarrow> block_meta_data \<Rightarrow> bool" where
  "is_lru_victim ft i b \<longleftrightarrow> (i, b) \<in> set ft \<and>
     (\<forall>(j, c) \<in> set ft. bm_last_accessed b \<le> bm_last_accessed c \<and>
        (bm_last_accessed c = bm_last_accessed b \<longrightarrow>
           bm_num_hashed_tokens c \<le> bm_num_hashed_tokens b))"

lemma lru_evict_run:
  assumes "ft \<noteq> []"
  obtains i b where "lru_evict ft = (Inr (i, bm_content_hash b), AList.delete i ft)"
    and "(i, b) \<in> set ft" and "lru_ordered ft \<Longrightarrow> is_lru_victim ft i b"
proof -
  obtain x rest where ft: "ft = x # rest" using assms by (cases ft) auto
  obtain i b where scan: "lru_scan x rest = (i, b)" by (cases "lru_scan x rest")
  have run: "lru_evict ft = (Inr (i, bm_content_hash b), AList.delete i ft)"
    by (simp add: ft scan lru_evict_def py_defs)
  moreover have mem: "(i, b) \<in> set ft"
    using lru_scan_in [of x rest] by (simp add: ft scan)
  moreover have "is_lru_victim ft i b" if o: "lru_ordered ft"
  proof -
    have "bm_last_accessed b \<le> bm_last_accessed c \<and> (bm_last_accessed c = bm_last_accessed b \<longrightarrow>
        bm_num_hashed_tokens c \<le> bm_num_hashed_tokens b)" if "(j, c) \<in> set ft" for j c
      using lru_scan_least [OF o [unfolded ft] scan that [unfolded ft]] by simp
    with mem show ?thesis by (auto simp: is_lru_victim_def)
  qed
  ultimately show thesis by (rule that)
qed

section \<open>Correctness of FrequencyAwareEvictor\<close>

text \<open>
  The invariant of the lazily invalidated heap, with a set \<open>X\<close> of blocks it does not yet hold for
  (a block between its entry in \<open>free_table\<close> and its push):
  \<^item> \<open>fe_dicts\<close>: the blocks with a generation are the free ones, and generations never exceed the
    counter, so the next push is newer than every entry in the heap;
  \<^item> \<open>fe_sound\<close>: an entry whose generation is current describes its block, with a frequency that
    can only be too low;
  \<^item> \<open>fe_complete\<close>: every free block has an entry of its current generation.
\<close>

definition fe_dicts :: "freq_evictor \<Rightarrow> bool" where
  "fe_dicts s \<longleftrightarrow> wf_dict (fe_free_table s) \<and> sorted (fe_heap s) \<and>
     (\<forall>b g. map_of (fe_generations s) b = Some g \<longrightarrow> g \<le> fe_next_generation s) \<and>
     (\<forall>b m. map_of (fe_free_table s) b = Some m \<longrightarrow>
        is_digest (bm_content_hash m) \<and>
        (\<exists>f. map_of (fe_frequency_by_hash s) (bm_content_hash m) = Some f))"

definition fe_entry_ok :: "int set \<Rightarrow> freq_evictor \<Rightarrow> heap_entry \<Rightarrow> bool" where
  "fe_entry_ok X s e = (case e of (f, la, nt, b, g) \<Rightarrow> g \<le> fe_next_generation s \<and>
     (\<forall>m. b \<notin> X \<longrightarrow> map_of (fe_free_table s) b = Some m \<longrightarrow>
        map_of (fe_generations s) b = Some g \<longrightarrow>
        la = bm_last_accessed m \<and> nt = - bm_num_hashed_tokens m \<and>
        f \<le> the (map_of (fe_frequency_by_hash s) (bm_content_hash m))))"

definition fe_sound :: "int set \<Rightarrow> freq_evictor \<Rightarrow> bool" where
  "fe_sound X s \<longleftrightarrow> (\<forall>e \<in> set (fe_heap s). fe_entry_ok X s e)"

definition fe_complete :: "int set \<Rightarrow> freq_evictor \<Rightarrow> bool" where
  "fe_complete X s \<longleftrightarrow> (\<forall>b m. b \<notin> X \<longrightarrow> map_of (fe_free_table s) b = Some m \<longrightarrow>
     (\<exists>f g. map_of (fe_generations s) b = Some g \<and>
        (f, bm_last_accessed m, - bm_num_hashed_tokens m, b, g) \<in> set (fe_heap s)))"

definition fe_core :: "int set \<Rightarrow> freq_evictor \<Rightarrow> bool" where
  "fe_core X s \<longleftrightarrow> fe_dicts s \<and> fe_sound X s \<and> fe_complete X s \<and>
     dom (map_of (fe_generations s)) \<union> X = dom (map_of (fe_free_table s)) \<union> X"

definition fe_bounded :: "freq_evictor \<Rightarrow> bool" where
  "fe_bounded s \<longleftrightarrow> length (fe_heap s) \<le> 2 * length (fe_free_table s) + 1"

definition fe_inv :: "freq_evictor \<Rightarrow> bool" where
  "fe_inv s \<longleftrightarrow> fe_core {} s \<and> fe_bounded s"

lemmas fe_core_defs = fe_core_def fe_dicts_def fe_sound_def fe_complete_def

lemma fe_entry_ok_heap [simp]: "fe_entry_ok X (s\<lparr>fe_heap := h\<rparr>) e = fe_entry_ok X s e"
  by (simp add: fe_entry_ok_def)

definition fe_cur_key :: "freq_evictor \<Rightarrow> int \<Rightarrow> block_meta_data \<Rightarrow> heap_entry" where
  "fe_cur_key s b m = (the (map_of (fe_frequency_by_hash s) (bm_content_hash m)),
     bm_last_accessed m, - bm_num_hashed_tokens m, b, the (map_of (fe_generations s) b))"

lemma fe_inv_init: "fe_inv fe_init"
  by (simp add: fe_inv_def fe_bounded_def fe_core_defs fe_init_def)

lemma set_heappush [simp]: "set (heappush x h) = insert x (set h)"
  by (simp add: heappush_def set_insort_key)

lemma fe_all_keys_run:
  assumes "\<forall>(b, m) \<in> set l. map_of (fe_generations s) b \<noteq> None \<and>
    map_of (fe_frequency_by_hash s) (bm_content_hash m) \<noteq> None"
  shows "fe_all_keys l s = (Inr (map (\<lambda>(b, m). fe_cur_key s b m) l), s)"
  using assms by (induction l) (auto simp: py_defs fe_heap_key_def fe_cur_key_def)

lemma fe_soundD:
  assumes "fe_core X s" "(f, la, nt, b, g) \<in> set (fe_heap s)"
  shows "g \<le> fe_next_generation s"
    and "b \<notin> X \<Longrightarrow> map_of (fe_free_table s) b = Some m \<Longrightarrow> map_of (fe_generations s) b = Some g \<Longrightarrow>
      la = bm_last_accessed m \<and> nt = - bm_num_hashed_tokens m \<and>
      f \<le> the (map_of (fe_frequency_by_hash s) (bm_content_hash m))"
proof -
  have ok: "fe_entry_ok X s (f, la, nt, b, g)" using assms by (simp add: fe_core_def fe_sound_def)
  then show "g \<le> fe_next_generation s" by (simp add: fe_entry_ok_def)
  show "la = bm_last_accessed m \<and> nt = - bm_num_hashed_tokens m \<and>
      f \<le> the (map_of (fe_frequency_by_hash s) (bm_content_hash m))"
    if "b \<notin> X" "map_of (fe_free_table s) b = Some m" "map_of (fe_generations s) b = Some g"
    using ok that by (simp add: fe_entry_ok_def)
qed

lemma fe_core_block:
  assumes core: "fe_core X s" and m: "map_of (fe_free_table s) b = Some m" and X: "b \<notin> X"
  obtains f g f' where "map_of (fe_generations s) b = Some g" "g \<le> fe_next_generation s"
    "map_of (fe_frequency_by_hash s) (bm_content_hash m) = Some f" "f' \<le> f"
    "(f', bm_last_accessed m, - bm_num_hashed_tokens m, b, g) \<in> set (fe_heap s)"
proof -
  obtain f' g where g: "map_of (fe_generations s) b = Some g"
    and e: "(f', bm_last_accessed m, - bm_num_hashed_tokens m, b, g) \<in> set (fe_heap s)"
    using assms unfolding fe_core_def fe_complete_def by blast
  obtain f where f: "map_of (fe_frequency_by_hash s) (bm_content_hash m) = Some f"
    using assms unfolding fe_core_def fe_dicts_def by blast
  have "f' \<le> f" using fe_soundD(2) [OF core e X m g] f by simp
  with that g f e fe_soundD(1) [OF core e] show thesis by blast
qed

lemma fe_core_mem:
  assumes "fe_core X s"
  shows "(b, m) \<in> set (fe_free_table s) \<longleftrightarrow> map_of (fe_free_table s) b = Some m"
  using assms by (simp add: fe_core_defs wf_dict_map_of)

lemma fe_heap_replaced_by_current:
  assumes core: "fe_core {} s"
  shows "fe_core {} (s\<lparr>fe_heap :=
    heapify (map (\<lambda>(b, m). fe_cur_key s b m) (fe_free_table s))\<rparr>)" (is "fe_core _ ?t")
proof -
  have mem: "e \<in> set (fe_heap ?t) \<longleftrightarrow>
      (\<exists>b m. map_of (fe_free_table s) b = Some m \<and> e = fe_cur_key s b m)" for e
    using fe_core_mem [OF core] by (auto simp: heapify_def)
  have "fe_sound {} ?t"
    unfolding fe_sound_def
  proof
    fix e assume "e \<in> set (fe_heap ?t)"
    then obtain b m where m: "map_of (fe_free_table s) b = Some m" and e: "e = fe_cur_key s b m"
      using mem by blast
    obtain g where "map_of (fe_generations s) b = Some g" "g \<le> fe_next_generation s"
      by (rule fe_core_block [OF core m]) simp_all
    with e m show "fe_entry_ok {} ?t e" by (simp add: fe_cur_key_def fe_entry_ok_def)
  qed
  moreover have "fe_complete {} ?t"
    unfolding fe_complete_def
  proof (intro allI impI)
    fix b m assume "map_of (fe_free_table ?t) b = Some m"
    then have m: "map_of (fe_free_table s) b = Some m" by simp
    obtain g where "map_of (fe_generations s) b = Some g"
      by (rule fe_core_block [OF core m]) simp_all
    moreover have "fe_cur_key s b m \<in> set (fe_heap ?t)" using m mem by blast
    ultimately show "\<exists>f g. map_of (fe_generations ?t) b = Some g \<and>
        (f, bm_last_accessed m, - bm_num_hashed_tokens m, b, g) \<in> set (fe_heap ?t)"
      unfolding fe_cur_key_def by simp blast
  qed
  ultimately show ?thesis
    using core by (simp add: fe_core_def fe_dicts_def heapify_def)
qed

lemma fe_compact_run:
  assumes "fe_core {} s"
  obtains h where "fe_compact_if_needed s = (Inr (), s\<lparr>fe_heap := h\<rparr>)"
    and "fe_inv (s\<lparr>fe_heap := h\<rparr>)"
proof (cases "length (fe_heap s) \<le> 2 * length (fe_free_table s) + 1")
  case True
  then have "fe_compact_if_needed s = (Inr (), s\<lparr>fe_heap := fe_heap s\<rparr>)"
    by (simp add: fe_compact_if_needed_def py_defs COMPACTION_FACTOR_def COMPACTION_SLACK_def)
  moreover have "fe_inv (s\<lparr>fe_heap := fe_heap s\<rparr>)"
    using assms True by (simp add: fe_inv_def fe_bounded_def)
  ultimately show thesis by (rule that)
next
  case False
  let ?ks = "map (\<lambda>(b, m). fe_cur_key s b m) (fe_free_table s)"
  have "fe_all_keys (fe_free_table s) s = (Inr ?ks, s)"
  proof (intro fe_all_keys_run ballI, clarify)
    fix b m assume "(b, m) \<in> set (fe_free_table s)"
    then have m: "map_of (fe_free_table s) b = Some m" using fe_core_mem [OF assms] by simp
    show "map_of (fe_generations s) b \<noteq> None \<and>
        map_of (fe_frequency_by_hash s) (bm_content_hash m) \<noteq> None"
      by (rule fe_core_block [OF assms m]) simp_all
  qed
  with False have "fe_compact_if_needed s = (Inr (), s\<lparr>fe_heap := heapify ?ks\<rparr>)"
    by (simp add: fe_compact_if_needed_def py_defs COMPACTION_FACTOR_def COMPACTION_SLACK_def)
  moreover have "fe_inv (s\<lparr>fe_heap := heapify ?ks\<rparr>)"
    using fe_heap_replaced_by_current [OF assms]
    by (simp add: fe_inv_def fe_bounded_def heapify_def)
  ultimately show thesis by (rule that)
qed

lemma fe_core_drop:
  assumes core: "fe_core {} s" and heap: "fe_heap s = (f, la, nt, b, g) # h"
    and dead: "map_of (fe_free_table s) b = None \<or> map_of (fe_generations s) b \<noteq> Some g"
  shows "fe_core {} (s\<lparr>fe_heap := h\<rparr>)"
proof -
  have "fe_sound {} (s\<lparr>fe_heap := h\<rparr>)"
    using core heap by (simp add: fe_core_def fe_sound_def)
  moreover have "fe_complete {} (s\<lparr>fe_heap := h\<rparr>)"
    unfolding fe_complete_def
  proof (intro allI impI)
    fix c m assume "map_of (fe_free_table (s\<lparr>fe_heap := h\<rparr>)) c = Some m"
    then have m: "map_of (fe_free_table s) c = Some m" by simp
    obtain g' f' where g': "map_of (fe_generations s) c = Some g'"
      and e: "(f', bm_last_accessed m, - bm_num_hashed_tokens m, c, g') \<in> set (fe_heap s)"
      by (rule fe_core_block [OF core m]) simp_all
    have "c \<noteq> b \<or> g' \<noteq> g" using dead m g' by auto
    with e heap have "(f', bm_last_accessed m, - bm_num_hashed_tokens m, c, g') \<in> set h" by auto
    with g' show "\<exists>f g. map_of (fe_generations (s\<lparr>fe_heap := h\<rparr>)) c = Some g \<and>
        (f, bm_last_accessed m, - bm_num_hashed_tokens m, c, g) \<in> set (fe_heap (s\<lparr>fe_heap := h\<rparr>))"
      by simp blast
  qed
  ultimately show ?thesis using core heap by (simp add: fe_core_def fe_dicts_def)
qed

lemma fe_core_refresh:
  assumes core: "fe_core {} s" and heap: "fe_heap s = (f, la, nt, b, g) # h"
    and m: "map_of (fe_free_table s) b = Some m" and g: "map_of (fe_generations s) b = Some g"
    and f': "map_of (fe_frequency_by_hash s) (bm_content_hash m) = Some f'"
  shows "fe_core {} (s\<lparr>fe_heap :=
    heappush (f', bm_last_accessed m, - bm_num_hashed_tokens m, b, g) h\<rparr>)" (is "fe_core _ ?t")
proof -
  have "g \<le> fe_next_generation s"
    by (rule fe_soundD(1) [OF core, of f la nt b g]) (simp add: heap)
  with m f' have "fe_entry_ok {} s (f', bm_last_accessed m, - bm_num_hashed_tokens m, b, g)"
    by (simp add: fe_entry_ok_def)
  then have "fe_sound {} ?t"
    using core heap by (simp add: fe_core_def fe_sound_def)
  moreover have "fe_complete {} ?t"
    unfolding fe_complete_def
  proof (intro allI impI)
    fix c n assume "map_of (fe_free_table ?t) c = Some n"
    then have n: "map_of (fe_free_table s) c = Some n" by simp
    obtain g' e where g': "map_of (fe_generations s) c = Some g'"
      and e: "(e, bm_last_accessed n, - bm_num_hashed_tokens n, c, g') \<in> set (fe_heap s)"
      by (rule fe_core_block [OF core n]) simp_all
    show "\<exists>f g. map_of (fe_generations ?t) c = Some g \<and>
        (f, bm_last_accessed n, - bm_num_hashed_tokens n, c, g) \<in> set (fe_heap ?t)"
    proof (cases "c = b")
      case True
      with m n g show ?thesis by auto
    next
      case False
      with e g' heap show ?thesis by (intro exI [of _ e] exI [of _ g']) simp
    qed
  qed
  ultimately show ?thesis
    using core heap by (simp add: fe_core_def fe_dicts_def heappush_def sorted_insort)
qed

text \<open>The block to give up: the least frequency, then access time, then the longest prefix.\<close>

definition fe_rank :: "freq_evictor \<Rightarrow> int \<Rightarrow> block_meta_data \<Rightarrow> int \<times> rat \<times> int \<times> int" where
  "fe_rank s b m = (the (map_of (fe_frequency_by_hash s) (bm_content_hash m)),
     bm_last_accessed m, - bm_num_hashed_tokens m, b)"

definition is_fe_victim :: "freq_evictor \<Rightarrow> int \<Rightarrow> block_meta_data \<Rightarrow> bool" where
  "is_fe_victim s b m \<longleftrightarrow> map_of (fe_free_table s) b = Some m \<and>
     (\<forall>b' m'. map_of (fe_free_table s) b' = Some m' \<longrightarrow> fe_rank s b m \<le> fe_rank s b' m')"

lemma is_fe_victim_heap [simp]: "is_fe_victim (s\<lparr>fe_heap := h\<rparr>) b m = is_fe_victim s b m"
  by (simp add: is_fe_victim_def fe_rank_def)

lemma fe_top_is_victim:
  assumes core: "fe_core {} s" and heap: "fe_heap s = (f, la, nt, b, g) # h"
    and m: "map_of (fe_free_table s) b = Some m" and g: "map_of (fe_generations s) b = Some g"
    and f: "map_of (fe_frequency_by_hash s) (bm_content_hash m) = Some f"
  shows "is_fe_victim s b m"
  unfolding is_fe_victim_def
proof (intro conjI allI impI m)
  fix c n assume n: "map_of (fe_free_table s) c = Some n"
  obtain g' fc f' where fc: "map_of (fe_frequency_by_hash s) (bm_content_hash n) = Some fc" "f' \<le> fc"
    and e: "(f', bm_last_accessed n, - bm_num_hashed_tokens n, c, g') \<in> set (fe_heap s)"
    by (rule fe_core_block [OF core n]) simp_all
  have top: "la = bm_last_accessed m \<and> nt = - bm_num_hashed_tokens m"
    using fe_soundD(2) [OF core _ _ m g, of f la nt] heap by simp
  have "sorted (fe_heap s)" using core by (simp add: fe_core_defs)
  with heap e have "(f, la, nt, b, g) \<le> (f', bm_last_accessed n, - bm_num_hashed_tokens n, c, g')"
    by auto
  with fc f top show "fe_rank s b m \<le> fe_rank s c n"
    by (auto simp: fe_rank_def less_eq_prod_def)
qed

lemma fe_core_delete:
  assumes core: "fe_core {} s" and h: "set h \<subseteq> set (fe_heap s)" "sorted h"
    and rest: "\<And>f la nt c g. (f, la, nt, c, g) \<in> set (fe_heap s) \<Longrightarrow> c \<noteq> b \<Longrightarrow>
      (f, la, nt, c, g) \<in> set h"
  shows "fe_core {} (s\<lparr>fe_heap := h, fe_free_table := AList.delete b (fe_free_table s),
    fe_generations := AList.delete b (fe_generations s)\<rparr>)" (is "fe_core _ ?t")
proof -
  have "fe_sound {} ?t"
    unfolding fe_sound_def
  proof
    fix e assume "e \<in> set (fe_heap ?t)"
    then have "fe_entry_ok {} s e" using h(1) core by (auto simp: fe_core_def fe_sound_def)
    then show "fe_entry_ok {} ?t e" by (simp add: fe_entry_ok_def dict_simps split: prod.splits)
  qed
  moreover have "fe_complete {} ?t"
    unfolding fe_complete_def
  proof (intro allI impI)
    fix c n assume "map_of (fe_free_table ?t) c = Some n"
    then have n: "map_of (fe_free_table s) c = Some n" and c: "c \<noteq> b"
      by (simp_all add: dict_simps split: if_splits)
    obtain g' e where g': "map_of (fe_generations s) c = Some g'"
      and e: "(e, bm_last_accessed n, - bm_num_hashed_tokens n, c, g') \<in> set (fe_heap s)"
      by (rule fe_core_block [OF core n]) simp_all
    show "\<exists>f g. map_of (fe_generations ?t) c = Some g \<and>
        (f, bm_last_accessed n, - bm_num_hashed_tokens n, c, g) \<in> set (fe_heap ?t)"
      using rest [OF e c] g' c by (intro exI [of _ e] exI [of _ g']) (simp add: dict_simps)
  qed
  ultimately show ?thesis
    using core h(2) by (simp add: fe_core_def fe_dicts_def dict_simps)
qed

lemma fe_evict_loop_run:
  assumes "fe_core {} s" and "map_of (fe_free_table s) c = Some n"
  obtains b m h where "is_fe_victim s b m"
    and "fe_evict_loop s = (Inr (b, bm_content_hash m), s\<lparr>fe_heap := h,
      fe_free_table := AList.delete b (fe_free_table s),
      fe_generations := AList.delete b (fe_generations s)\<rparr>)"
    and "fe_inv (s\<lparr>fe_heap := h, fe_free_table := AList.delete b (fe_free_table s),
      fe_generations := AList.delete b (fe_generations s)\<rparr>)"
  using assms
proof (induction s arbitrary: thesis rule: fe_evict_loop.induct)
  case (1 s)
  note core = "1.prems"(2) and cn = "1.prems"(3)
  obtain g0 f0 where "(f0, bm_last_accessed n, - bm_num_hashed_tokens n, c, g0) \<in> set (fe_heap s)"
    by (rule fe_core_block [OF core cn]) simp_all
  then obtain f la nt b g h where heap: "fe_heap s = (f, la, nt, b, g) # h"
    by (cases "fe_heap s") auto
  show ?case
  proof (cases "map_of (fe_free_table s) b = None \<or> map_of (fe_generations s) b \<noteq> Some g")
    case True
    have core': "fe_core {} (s\<lparr>fe_heap := h\<rparr>)" by (rule fe_core_drop [OF core heap True])
    have run: "fe_evict_loop s = fe_evict_loop (s\<lparr>fe_heap := h\<rparr>)"
      using True heap
      by (subst fe_evict_loop.simps) (cases "map_of (fe_free_table s) b"; simp add: Let_def)
    have cn': "map_of (fe_free_table (s\<lparr>fe_heap := h\<rparr>)) c = Some n" using cn by simp
    obtain b' m' h' where r: "is_fe_victim (s\<lparr>fe_heap := h\<rparr>) b' m'"
      "fe_evict_loop (s\<lparr>fe_heap := h\<rparr>) = (Inr (b', bm_content_hash m'), s\<lparr>fe_heap := h,
         fe_heap := h', fe_free_table := AList.delete b' (fe_free_table s),
         fe_generations := AList.delete b' (fe_generations s)\<rparr>)"
      "fe_inv (s\<lparr>fe_heap := h, fe_heap := h', fe_free_table := AList.delete b' (fe_free_table s),
         fe_generations := AList.delete b' (fe_generations s)\<rparr>)"
    proof (cases "map_of (fe_free_table s) b")
      case None
      show thesis
        by (rule "1.IH"(1) [OF heap refl refl refl refl refl _ _ core' cn', simplified])
          (use None that in auto)
    next
      case (Some m)
      show thesis
        by (rule "1.IH"(2) [OF heap refl refl refl refl refl _ _ _ core' cn', simplified])
          (use Some True that in auto)
    qed
    then show ?thesis using run by (intro "1.prems"(1) [of b' m' h']) simp_all
  next
    case False
    then obtain m where m: "map_of (fe_free_table s) b = Some m"
      and g: "map_of (fe_generations s) b = Some g" by auto
    obtain f' where f': "map_of (fe_frequency_by_hash s) (bm_content_hash m) = Some f'"
      by (rule fe_core_block [OF core m]) simp_all
    show ?thesis
    proof (cases "f' = f")
      case False
      let ?h = "heappush (f', bm_last_accessed m, - bm_num_hashed_tokens m, b, g) h"
      have core': "fe_core {} (s\<lparr>fe_heap := h, fe_heap := ?h\<rparr>)"
        using fe_core_refresh [OF core heap m g f'] by simp
      have run: "fe_evict_loop s = fe_evict_loop (s\<lparr>fe_heap := ?h\<rparr>)"
        using m g f' False heap by (subst fe_evict_loop.simps) simp
      have cn': "map_of (fe_free_table (s\<lparr>fe_heap := ?h\<rparr>)) c = Some n" using cn by simp
      obtain b' m' h' where r: "is_fe_victim (s\<lparr>fe_heap := ?h\<rparr>) b' m'"
        "fe_evict_loop (s\<lparr>fe_heap := ?h\<rparr>) = (Inr (b', bm_content_hash m'), s\<lparr>fe_heap := ?h,
           fe_heap := h', fe_free_table := AList.delete b' (fe_free_table s),
           fe_generations := AList.delete b' (fe_generations s)\<rparr>)"
        "fe_inv (s\<lparr>fe_heap := ?h, fe_heap := h',
           fe_free_table := AList.delete b' (fe_free_table s),
           fe_generations := AList.delete b' (fe_generations s)\<rparr>)"
        by (rule "1.IH"(3) [OF heap refl refl refl refl refl _ _ _ _ _ core', simplified])
          (use m g f' False cn in auto)
      then show ?thesis using run by (intro "1.prems"(1) [of b' m' h']) simp_all
    next
      case True
      have vic: "is_fe_victim s b m"
        by (rule fe_top_is_victim [OF core heap m g]) (simp add: f' True)
      let ?s = "s\<lparr>fe_heap := h, fe_free_table := AList.delete b (fe_free_table s),
        fe_generations := AList.delete b (fe_generations s)\<rparr>"
      have "sorted (fe_heap s)" using core by (simp add: fe_core_defs)
      with heap have c: "fe_core {} ?s" by (intro fe_core_delete [OF core]) auto
      obtain h' where run': "fe_compact_if_needed ?s = (Inr (), ?s\<lparr>fe_heap := h'\<rparr>)"
        and inv: "fe_inv (?s\<lparr>fe_heap := h'\<rparr>)"
        by (rule fe_compact_run [OF c])
      have "fe_evict_loop s = (Inr (b, bm_content_hash m), ?s\<lparr>fe_heap := h'\<rparr>)"
        using m g f' True heap run' by (subst fe_evict_loop.simps) (simp add: py_defs)
      moreover have eq: "?s\<lparr>fe_heap := h'\<rparr> = s\<lparr>fe_heap := h',
          fe_free_table := AList.delete b (fe_free_table s),
          fe_generations := AList.delete b (fe_generations s)\<rparr>" by simp
      ultimately show ?thesis
        using vic inv unfolding eq by (intro "1.prems"(1) [of b m h'])
    qed
  qed
qed

lemma fe_evict_run:
  assumes "fe_inv s" and "fe_free_table s \<noteq> []"
  obtains b m h where "is_fe_victim s b m"
    and "fe_evict s = (Inr (b, bm_content_hash m), s\<lparr>fe_heap := h,
      fe_free_table := AList.delete b (fe_free_table s),
      fe_generations := AList.delete b (fe_generations s)\<rparr>)"
    and "fe_inv (s\<lparr>fe_heap := h, fe_free_table := AList.delete b (fe_free_table s),
      fe_generations := AList.delete b (fe_generations s)\<rparr>)"
proof -
  have core: "fe_core {} s" using assms by (simp add: fe_inv_def)
  obtain c n where "map_of (fe_free_table s) c = Some n"
    using assms(2) fe_core_mem [OF core] by (cases "fe_free_table s") auto
  then show thesis
    by (rule fe_evict_loop_run [OF core], intro that) (simp_all add: fe_evict_def py_defs assms)
qed

lemma fe_push_run:
  assumes core: "fe_core {b} s" and m: "map_of (fe_free_table s) b = Some m"
  obtains t where "fe_push b s = (Inr (), t)" and "fe_core {} t"
    and "fe_free_table t = fe_free_table s" "fe_frequency_by_hash t = fe_frequency_by_hash s"
proof -
  let ?g = "fe_next_generation s + 1"
  obtain f where f: "map_of (fe_frequency_by_hash s) (bm_content_hash m) = Some f"
    using core m unfolding fe_core_def fe_dicts_def by blast
  let ?k = "(f, bm_last_accessed m, - bm_num_hashed_tokens m, b, ?g)"
  let ?t = "s\<lparr>fe_next_generation := ?g, fe_generations := AList.update b ?g (fe_generations s),
    fe_heap := heappush ?k (fe_heap s)\<rparr>"
  have run: "fe_push b s = (Inr (), ?t)"
    by (simp add: fe_push_def fe_heap_key_def py_defs m f)
  have "fe_entry_ok {} ?t e" if "e \<in> set (fe_heap ?t)" for e
  proof (cases "e = ?k")
    case True
    with m f show ?thesis by (simp add: fe_entry_ok_def)
  next
    case False
    with that core have "fe_entry_ok {b} s e" by (auto simp: fe_core_def fe_sound_def)
    then show ?thesis by (auto simp: fe_entry_ok_def dict_simps split: prod.splits)
  qed
  then have "fe_sound {} ?t" by (simp add: fe_sound_def)
  moreover have "fe_complete {} ?t"
    unfolding fe_complete_def
  proof (intro allI impI)
    fix c n assume n: "map_of (fe_free_table ?t) c = Some n"
    show "\<exists>f g. map_of (fe_generations ?t) c = Some g \<and>
        (f, bm_last_accessed n, - bm_num_hashed_tokens n, c, g) \<in> set (fe_heap ?t)"
    proof (cases "c = b")
      case True
      with m n show ?thesis by (auto simp: dict_simps)
    next
      case False
      have n': "map_of (fe_free_table s) c = Some n" using n by simp
      obtain g' e where "map_of (fe_generations s) c = Some g'"
        "(e, bm_last_accessed n, - bm_num_hashed_tokens n, c, g') \<in> set (fe_heap s)"
        by (rule fe_core_block [OF core n']) (simp_all add: False)
      with False show ?thesis by (intro exI [of _ e] exI [of _ g']) (simp add: dict_simps)
    qed
  qed
  moreover have "fe_dicts ?t"
  proof -
    have "g \<le> fe_next_generation s + 1" if "map_of (fe_generations s) c = Some g" for c g
      using core that unfolding fe_core_def fe_dicts_def by (metis add_increasing2 zero_le_one)
    with core show ?thesis
      by (simp add: fe_core_def fe_dicts_def heappush_def sorted_insort dict_simps)
  qed
  ultimately have "fe_core {} ?t"
    using core m by (auto simp: fe_core_def dict_simps)
  with run show thesis by (intro that [of ?t]) simp_all
qed

text \<open>The metadata of a block, as the interface sees it.\<close>

lemma fe_add_run:
  assumes inv: "fe_inv s" and h: "is_digest h"
  obtains t where "fe_add b h n a s = (Inr (), t)" and "fe_inv t"
    and "map_of (fe_free_table t) = (map_of (fe_free_table s))(b \<mapsto> new_block_meta_data h n a)"
    and "map_of (fe_frequency_by_hash t) = (map_of (fe_frequency_by_hash s))(h \<mapsto>
      (case map_of (fe_frequency_by_hash s) h of None \<Rightarrow> 0 | Some f \<Rightarrow> f) + 1)"
proof -
  let ?f = "(case map_of (fe_frequency_by_hash s) h of None \<Rightarrow> 0 | Some f \<Rightarrow> f) + 1"
  let ?m = "new_block_meta_data h n a"
  let ?s = "s\<lparr>fe_frequency_by_hash := AList.update h ?f (fe_frequency_by_hash s),
    fe_free_table := AList.update b ?m (fe_free_table s)\<rparr>"
  have core: "fe_core {} s" using inv by (simp add: fe_inv_def)
  have "fe_entry_ok {b} ?s e" if "e \<in> set (fe_heap s)" for e
  proof -
    have ok: "fe_entry_ok {} s e" using that core by (simp add: fe_core_def fe_sound_def)
    obtain f la nt c g where e: "e = (f, la, nt, c, g)" by (cases e)
    have "f \<le> the (map_of (AList.update h ?f (fe_frequency_by_hash s)) (bm_content_hash m'))"
      if "f \<le> the (map_of (fe_frequency_by_hash s) (bm_content_hash m'))"
        "map_of (fe_free_table s) c = Some m'" for m'
    proof -
      note free = that(2)
      obtain fm where "map_of (fe_frequency_by_hash s) (bm_content_hash m') = Some fm"
        using core free unfolding fe_core_def fe_dicts_def by blast
      with that(1) show ?thesis by (auto simp: dict_simps)
    qed
    with ok show ?thesis unfolding e fe_entry_ok_def by (simp add: dict_simps)
  qed
  then have "fe_sound {b} ?s" by (simp add: fe_sound_def)
  moreover have "fe_complete {b} ?s"
    using core unfolding fe_core_def fe_complete_def by (simp add: dict_simps)
  moreover have "fe_dicts ?s"
    using core h by (auto simp: fe_core_def fe_dicts_def dict_simps new_block_meta_data_def)
  ultimately have core': "fe_core {b} ?s"
    using core by (auto simp: fe_core_def dict_simps)
  obtain u where push: "fe_push b ?s = (Inr (), u)" and u: "fe_core {} u"
    and eqs: "fe_free_table u = fe_free_table ?s"
      "fe_frequency_by_hash u = fe_frequency_by_hash ?s"
    by (rule fe_push_run [OF core', of ?m]) (simp_all add: dict_simps)
  obtain hp where "fe_compact_if_needed u = (Inr (), u\<lparr>fe_heap := hp\<rparr>)"
    and "fe_inv (u\<lparr>fe_heap := hp\<rparr>)"
    by (rule fe_compact_run [OF u])
  with push eqs show thesis
    by (intro that [of "u\<lparr>fe_heap := hp\<rparr>"]) (simp_all add: fe_add_def py_defs h dict_simps)
qed

lemma fe_update_run:
  assumes inv: "fe_inv s" and m: "map_of (fe_free_table s) b = Some m"
  obtains t where "fe_update b a s = (Inr (), t)" and "fe_inv t"
    and "map_of (fe_free_table t) = (map_of (fe_free_table s))(b \<mapsto> m\<lparr>bm_last_accessed := a\<rparr>)"
    and "fe_frequency_by_hash t = fe_frequency_by_hash s"
proof -
  let ?s = "s\<lparr>fe_free_table := AList.update b (m\<lparr>bm_last_accessed := a\<rparr>) (fe_free_table s)\<rparr>"
  have core: "fe_core {} s" using inv by (simp add: fe_inv_def)
  have "fe_entry_ok {b} ?s e" if "e \<in> set (fe_heap s)" for e
    using that core
    by (cases e) (auto simp: fe_core_def fe_sound_def fe_entry_ok_def dict_simps)
  then have "fe_sound {b} ?s" by (simp add: fe_sound_def)
  moreover have "fe_complete {b} ?s"
    using core unfolding fe_core_def fe_complete_def by (simp add: dict_simps)
  moreover have "fe_dicts ?s"
    using core m unfolding fe_core_def fe_dicts_def by (simp add: dict_simps)
  ultimately have core': "fe_core {b} ?s"
    using core by (auto simp: fe_core_def dict_simps)
  obtain u where push: "fe_push b ?s = (Inr (), u)" and u: "fe_core {} u"
    and eqs: "fe_free_table u = fe_free_table ?s"
      "fe_frequency_by_hash u = fe_frequency_by_hash ?s"
    by (rule fe_push_run [OF core', of "m\<lparr>bm_last_accessed := a\<rparr>"]) (simp_all add: dict_simps)
  obtain hp where "fe_compact_if_needed u = (Inr (), u\<lparr>fe_heap := hp\<rparr>)"
    and "fe_inv (u\<lparr>fe_heap := hp\<rparr>)"
    by (rule fe_compact_run [OF u])
  with push eqs show thesis
    by (intro that [of "u\<lparr>fe_heap := hp\<rparr>"]) (simp_all add: fe_update_def py_defs m dict_simps)
qed

lemma fe_remove_run:
  assumes inv: "fe_inv s" and m: "map_of (fe_free_table s) b = Some m"
  obtains t where "fe_remove b s = (Inr (), t)" and "fe_inv t"
    and "map_of (fe_free_table t) = (map_of (fe_free_table s))(b := None)"
    and "fe_frequency_by_hash t = fe_frequency_by_hash s"
proof -
  let ?s = "s\<lparr>fe_free_table := AList.delete b (fe_free_table s),
    fe_generations := AList.delete b (fe_generations s)\<rparr>"
  have core: "fe_core {} s" using inv by (simp add: fe_inv_def)
  have "sorted (fe_heap s)" using core by (simp add: fe_core_defs)
  then have "fe_core {} (s\<lparr>fe_heap := fe_heap s, fe_free_table := AList.delete b (fe_free_table s),
      fe_generations := AList.delete b (fe_generations s)\<rparr>)"
    by (intro fe_core_delete [OF core]) auto
  then have core': "fe_core {} ?s" by simp
  obtain hp where "fe_compact_if_needed ?s = (Inr (), ?s\<lparr>fe_heap := hp\<rparr>)"
    and "fe_inv (?s\<lparr>fe_heap := hp\<rparr>)"
    by (rule fe_compact_run [OF core'])
  moreover have "b \<in> fst ` set (fe_free_table s)" using m by (force dest: map_of_SomeD)
  moreover obtain g where "map_of (fe_generations s) b = Some g"
    by (rule fe_core_block [OF core m]) simp_all
  ultimately show thesis
    by (intro that [of "?s\<lparr>fe_heap := hp\<rparr>"])
      (simp_all add: fe_remove_def fe_contains_def py_defs dict_simps)
qed

section \<open>The three evictors implement the interface\<close>

lemma dict_empty_iff: "map_of d = Map.empty \<longleftrightarrow> d = []"
  using map_of_Nil_iff [of d] by simp

interpretation lru: evictor_interface wf_dict map_of lru_contains lru_evict lru_add lru_update
  lru_remove lru_num_blocks
proof unfold_locales
  fix e :: lru_evictor and b n t h m
  show "finite (dom (map_of e))" by simp
  show "lru_contains b e = (b \<in> dom (map_of e))"
    by (simp add: lru_contains_def dict_keys)
  show "wf_dict e \<Longrightarrow> lru_num_blocks e = card (dom (map_of e))"
    by (simp add: lru_num_blocks_def length_dict)
  show "map_of e = Map.empty \<Longrightarrow> lru_evict e = (Inl ValueError, e)"
    by (simp add: dict_empty_iff lru_evict_def py_defs)
  show "\<exists>b m e'. lru_evict e = (Inr (b, bm_content_hash m), e') \<and> wf_dict e' \<and>
      map_of e b = Some m \<and> map_of e' = (map_of e)(b := None)"
    if wf: "wf_dict e" and ne: "map_of e \<noteq> Map.empty"
  proof -
    obtain i b where "lru_evict e = (Inr (i, bm_content_hash b), AList.delete i e)" "(i, b) \<in> set e"
      by (rule lru_evict_run [of e]) (use ne in \<open>auto simp: dict_empty_iff\<close>)
    with wf show ?thesis
      by (intro exI [of _ i] exI [of _ b] exI [of _ "AList.delete i e"])
        (simp add: wf_dict_map_of dict_simps)
  qed
  show "wf_dict e \<Longrightarrow> \<exists>e'. lru_add b h n t e = (Inr (), e') \<and> wf_dict e' \<and>
      map_of e' = (map_of e)(b \<mapsto> new_block_meta_data h n t)"
    by (simp add: lru_add_def py_defs dict_simps)
  show "wf_dict e \<Longrightarrow> map_of e b = Some m \<Longrightarrow> \<exists>e'. lru_update b t e = (Inr (), e') \<and> wf_dict e' \<and>
      map_of e' = (map_of e)(b \<mapsto> m\<lparr>bm_last_accessed := t\<rparr>)"
    by (simp add: lru_update_def py_defs dict_simps)
  show "map_of e b = None \<Longrightarrow> lru_update b t e = (Inl KeyError, e)"
    by (simp add: lru_update_def py_defs)
  show "wf_dict e \<Longrightarrow> map_of e b = Some m \<Longrightarrow> \<exists>e'. lru_remove b e = (Inr (), e') \<and> wf_dict e' \<and>
      map_of e' = (map_of e)(b := None)"
    by (auto simp: lru_remove_def lru_contains_def dict_keys py_defs dict_simps)
  show "map_of e b = None \<Longrightarrow> lru_remove b e = (Inl ValueError, e)"
    by (auto simp: lru_remove_def lru_contains_def dict_keys py_defs)
qed

abbreviation fe_meta :: "freq_evictor \<Rightarrow> int \<rightharpoonup> block_meta_data" where
  "fe_meta s \<equiv> map_of (fe_free_table s)"

lemma fe_inv_wf: "fe_inv s \<Longrightarrow> wf_dict (fe_free_table s)"
  by (simp add: fe_inv_def fe_core_def fe_dicts_def)

interpretation freq: evictor_interface fe_inv fe_meta fe_contains fe_evict fe_add fe_update
  fe_remove fe_num_blocks
proof unfold_locales
  fix e :: freq_evictor and b n t h m
  show "finite (dom (fe_meta e))" by simp
  show "fe_contains b e = (b \<in> dom (fe_meta e))"
    by (simp add: fe_contains_def dict_keys)
  show "fe_inv e \<Longrightarrow> fe_num_blocks e = card (dom (fe_meta e))"
    by (simp add: fe_num_blocks_def length_dict fe_inv_wf)
  show "fe_meta e = Map.empty \<Longrightarrow> fe_evict e = (Inl ValueError, e)"
    by (simp add: dict_empty_iff fe_evict_def py_defs)
  show "\<exists>b m e'. fe_evict e = (Inr (b, bm_content_hash m), e') \<and> fe_inv e' \<and>
      fe_meta e b = Some m \<and> fe_meta e' = (fe_meta e)(b := None)"
    if inv: "fe_inv e" and ne: "fe_meta e \<noteq> Map.empty"
  proof (rule fe_evict_run [OF inv])
    show "fe_free_table e \<noteq> []" using ne by auto
  next
    fix b m hp assume "is_fe_victim e b m"
      and "fe_evict e = (Inr (b, bm_content_hash m), e\<lparr>fe_heap := hp,
        fe_free_table := AList.delete b (fe_free_table e),
        fe_generations := AList.delete b (fe_generations e)\<rparr>)"
      and "fe_inv (e\<lparr>fe_heap := hp, fe_free_table := AList.delete b (fe_free_table e),
        fe_generations := AList.delete b (fe_generations e)\<rparr>)"
    then show ?thesis
      by (intro exI [of _ b] exI [of _ m]) (simp add: is_fe_victim_def dict_simps)
  qed
  show "\<exists>e'. fe_add b h n t e = (Inr (), e') \<and> fe_inv e' \<and>
      fe_meta e' = (fe_meta e)(b \<mapsto> new_block_meta_data h n t)" if "fe_inv e" "is_digest h"
    by (rule fe_add_run [OF that, of b n t]) blast
  show "\<exists>e'. fe_update b t e = (Inr (), e') \<and> fe_inv e' \<and>
      fe_meta e' = (fe_meta e)(b \<mapsto> m\<lparr>bm_last_accessed := t\<rparr>)" if "fe_inv e" "fe_meta e b = Some m"
    by (rule fe_update_run [OF that, of t]) blast
  show "fe_meta e b = None \<Longrightarrow> fe_update b t e = (Inl KeyError, e)"
    by (simp add: fe_update_def py_defs)
  show "\<exists>e'. fe_remove b e = (Inr (), e') \<and> fe_inv e' \<and> fe_meta e' = (fe_meta e)(b := None)"
    if "fe_inv e" "fe_meta e b = Some m"
    by (rule fe_remove_run [OF that]) blast
  show "fe_meta e b = None \<Longrightarrow> fe_remove b e = (Inl ValueError, e)"
    by (auto simp: fe_remove_def fe_contains_def dict_keys py_defs)
qed

fun ev_inv :: "evictor \<Rightarrow> bool" where
  "ev_inv (EvLRU l) = wf_dict l"
| "ev_inv (EvFreq s) = fe_inv s"

fun ev_meta :: "evictor \<Rightarrow> int \<rightharpoonup> block_meta_data" where
  "ev_meta (EvLRU l) = map_of l"
| "ev_meta (EvFreq s) = fe_meta s"

lemmas ev_defs = ev_contains_def ev_evict_def ev_add_def ev_update_def ev_remove_def
  ev_num_blocks_def

lemma ev_dispatch_simps [simp]:
  "ev_dispatch p q (EvLRU l) = (case p l of (r, l') \<Rightarrow> (r, EvLRU l'))"
  "ev_dispatch p q (EvFreq s) = (case q s of (r, s') \<Rightarrow> (r, EvFreq s'))"
  by (simp_all add: ev_dispatch_def)

lemma ev_ex_LRU:
  assumes "\<exists>l'. p l = (r, l') \<and> wf_dict l' \<and> map_of l' = m"
  shows "\<exists>e'. (case p l of (r, l') \<Rightarrow> (r, EvLRU l')) = (r, e') \<and> ev_inv e' \<and> ev_meta e' = m"
proof -
  obtain l' where "p l = (r, l')" "wf_dict l'" "map_of l' = m" using assms by blast
  then show ?thesis by (intro exI [of _ "EvLRU l'"]) simp
qed

lemma ev_ex_Freq:
  assumes "\<exists>l'. p l = (r, l') \<and> fe_inv l' \<and> fe_meta l' = m"
  shows "\<exists>e'. (case p l of (r, l') \<Rightarrow> (r, EvFreq l')) = (r, e') \<and> ev_inv e' \<and> ev_meta e' = m"
proof -
  obtain l' where "p l = (r, l')" "fe_inv l'" "fe_meta l' = m" using assms by blast
  then show ?thesis by (intro exI [of _ "EvFreq l'"]) simp
qed

interpretation ev: evictor_interface ev_inv ev_meta ev_contains ev_evict ev_add ev_update
  ev_remove ev_num_blocks
proof unfold_locales
  fix e :: evictor and b n t h m
  show "finite (dom (ev_meta e))" by (cases e) simp_all
  show "ev_contains b e = (b \<in> dom (ev_meta e))"
    by (cases e) (simp_all add: ev_defs lru.contains_iff freq.contains_iff)
  show "ev_inv e \<Longrightarrow> ev_num_blocks e = card (dom (ev_meta e))"
    by (cases e) (simp_all add: ev_defs lru.num_eq freq.num_eq)
  show "ev_inv e \<Longrightarrow> ev_meta e = Map.empty \<Longrightarrow> ev_evict e = (Inl ValueError, e)"
    by (cases e) (simp_all add: ev_defs lru.evict_empty freq.evict_empty del: map_of_eq_empty_iff)
  show "\<exists>b m e'. ev_evict e = (Inr (b, bm_content_hash m), e') \<and> ev_inv e' \<and>
      ev_meta e b = Some m \<and> ev_meta e' = (ev_meta e)(b := None)"
    if inv: "ev_inv e" and ne: "ev_meta e \<noteq> Map.empty"
  proof (cases e)
    case (EvLRU l)
    then obtain b m l' where "lru_evict l = (Inr (b, bm_content_hash m), l')" "wf_dict l'"
      "map_of l b = Some m" "map_of l' = (map_of l)(b := None)"
      using lru.evict_some [of l] inv ne by auto
    with EvLRU show ?thesis
      by (intro exI [of _ b] exI [of _ m] exI [of _ "EvLRU l'"]) (simp add: ev_defs)
  next
    case (EvFreq s)
    then obtain b m s' where "fe_evict s = (Inr (b, bm_content_hash m), s')" "fe_inv s'"
      "fe_meta s b = Some m" "fe_meta s' = (fe_meta s)(b := None)"
      using freq.evict_some [of s] inv ne by auto
    with EvFreq show ?thesis
      by (intro exI [of _ b] exI [of _ m] exI [of _ "EvFreq s'"]) (simp add: ev_defs)
  qed
  show "\<exists>e'. ev_add b h n t e = (Inr (), e') \<and> ev_inv e' \<and>
      ev_meta e' = (ev_meta e)(b \<mapsto> new_block_meta_data h n t)" if "ev_inv e" "is_digest h"
    using that ev_ex_LRU [where p = "lru_add b h n t", OF lru.add_run] 
      ev_ex_Freq [where p = "fe_add b h n t", OF freq.add_run]
    by (cases e) (simp_all add: ev_defs)
  show "\<exists>e'. ev_update b t e = (Inr (), e') \<and> ev_inv e' \<and>
      ev_meta e' = (ev_meta e)(b \<mapsto> m\<lparr>bm_last_accessed := t\<rparr>)" if "ev_inv e" "ev_meta e b = Some m"
    using that ev_ex_LRU [where p = "lru_update b t", OF lru.touch_run] 
      ev_ex_Freq [where p = "fe_update b t", OF freq.touch_run]
    by (cases e) (simp_all add: ev_defs)
  show "ev_meta e b = None \<Longrightarrow> ev_update b t e = (Inl KeyError, e)"
    by (cases e) (simp_all add: ev_defs lru.touch_missing freq.touch_missing)
  show "\<exists>e'. ev_remove b e = (Inr (), e') \<and> ev_inv e' \<and> ev_meta e' = (ev_meta e)(b := None)"
    if "ev_inv e" "ev_meta e b = Some m"
    using that ev_ex_LRU [where p = "lru_remove b", OF lru.remove_run] 
      ev_ex_Freq [where p = "fe_remove b", OF freq.remove_run]
    by (cases e) (simp_all add: ev_defs)
  show "ev_meta e b = None \<Longrightarrow> ev_remove b e = (Inl ValueError, e)"
    by (cases e) (simp_all add: ev_defs lru.remove_missing freq.remove_missing)
qed

lemma ev_make [simp]: "ev_inv (make_evictor p)" "ev_meta (make_evictor p) = Map.empty"
proof -
  have "fe_meta fe_init = Map.empty" by (simp add: fe_init_def)
  then show "ev_inv (make_evictor p)" "ev_meta (make_evictor p) = Map.empty"
    by (cases p; simp add: make_evictor_def lru_init_def fe_inv_init)+
qed

section \<open>Histories of calls\<close>

text \<open>
  What a caller can do to an evictor, an exception leaving the state it was raised in. \<open>fe_call\<close>
  and \<open>ev_call\<close> run one call, \<open>fold\<close> runs a history.
\<close>

datatype evictor_call = CallAdd int content_hash int rat | CallUpdate int rat | CallRemove int
  | CallEvict

fun fe_call :: "evictor_call \<Rightarrow> freq_evictor \<Rightarrow> freq_evictor" where
  "fe_call (CallAdd b h n t) s = snd (fe_add b h n t s)"
| "fe_call (CallUpdate b t) s = snd (fe_update b t s)"
| "fe_call (CallRemove b) s = snd (fe_remove b s)"
| "fe_call CallEvict s = snd (fe_evict s)"

fun ev_call :: "evictor_call \<Rightarrow> evictor \<Rightarrow> evictor" where
  "ev_call (CallAdd b h n t) e = snd (ev_add b h n t e)"
| "ev_call (CallUpdate b t) e = snd (ev_update b t e)"
| "ev_call (CallRemove b) e = snd (ev_remove b e)"
| "ev_call CallEvict e = snd (ev_evict e)"

lemma fe_add_reject: "\<not> is_digest h \<Longrightarrow> fe_add b h n t s = (Inl ValueError, s)"
  by (simp add: fe_add_def py_defs)

lemma fe_call_inv:
  assumes "fe_inv s"
  shows "fe_inv (fe_call c s)"
proof (cases c)
  case (CallAdd b h n t)
  then show ?thesis
    using freq.add_run [OF assms, of h b n t] fe_add_reject [of h b n t s] assms
    by (cases "is_digest h") auto
next
  case (CallUpdate b t)
  then show ?thesis
    using freq.touch_run [OF assms, of b _ t] freq.touch_missing [of s b t] assms
    by (cases "fe_meta s b") fastforce+
next
  case (CallRemove b)
  then show ?thesis
    using freq.remove_run [OF assms, of b] freq.remove_missing [of s b] assms
    by (cases "fe_meta s b") fastforce+
next
  case CallEvict
  then show ?thesis
    using freq.evict_some [OF assms] freq.evict_empty [OF assms] assms
    by (cases "fe_meta s = Map.empty") fastforce+
qed

lemma fe_history_inv: "fe_inv (fold fe_call cs fe_init)"
  by (rule fold_invariant_step) (simp_all add: fe_inv_init fe_call_inv)

lemma lru_evict_wf: "wf_dict l \<Longrightarrow> wf_dict (snd (lru_evict l))"
  by (cases "l = []") (auto elim: lru_evict_run [of l] simp: lru_evict_def py_defs)

lemma ev_call_inv: "ev_inv e \<Longrightarrow> ev_inv (ev_call c e)"
proof (cases e)
  case (EvFreq s)
  moreover have "ev_call c (EvFreq s) = EvFreq (fe_call c s)"
    by (cases c) (simp_all add: ev_defs split: prod.splits)
  ultimately show "ev_inv e \<Longrightarrow> ev_inv (ev_call c e)" by (simp add: fe_call_inv)
next
  case (EvLRU l)
  moreover assume "ev_inv e"
  ultimately show "ev_inv (ev_call c e)"
    using lru_evict_wf [of l]
    by (cases c) (auto simp: ev_defs lru_add_def lru_update_def lru_remove_def
        py_defs split: prod.splits option.splits)
qed

lemma ev_history_inv: "ev_inv (fold ev_call cs (make_evictor p))"
  by (rule fold_invariant_step) (simp_all add: ev_call_inv)

section \<open>Properties\<close>

text \<open>
  C5: \<open>FrequencyAwareEvictor.evict\<close> on a non-empty evictor never reaches the \<open>RuntimeError\<close> after
  its loop: it returns the free block with the least current content frequency, then the oldest
  access, then the longest prefix, then the least id; exactly that block leaves the free table, the
  frequencies are kept and the heap invariant holds again.
\<close>

theorem freq_evict_least:
  assumes "fe_inv s" and "fe_free_table s \<noteq> []"
  shows "\<exists>b m t. fe_evict s = (Inr (b, bm_content_hash m), t) \<and> is_fe_victim s b m \<and> fe_inv t \<and>
    fe_free_table t = AList.delete b (fe_free_table s) \<and>
    fe_frequency_by_hash t = fe_frequency_by_hash s"
proof (rule fe_evict_run [OF assms])
  fix b m h
  assume "is_fe_victim s b m" and "fe_evict s = (Inr (b, bm_content_hash m), s\<lparr>fe_heap := h,
      fe_free_table := AList.delete b (fe_free_table s),
      fe_generations := AList.delete b (fe_generations s)\<rparr>)"
    and "fe_inv (s\<lparr>fe_heap := h, fe_free_table := AList.delete b (fe_free_table s),
      fe_generations := AList.delete b (fe_generations s)\<rparr>)"
  then show ?thesis by (intro exI [of _ b] exI [of _ m]) simp
qed

definition example_history :: "evictor_call list" where
  "example_history = [CallAdd 1 (replicate 32 7) 16 3, CallAdd 2 (replicate 32 9) 32 1,
     CallRemove 1, CallAdd 1 (replicate 32 7) 16 2, CallUpdate 2 5]"

lemma freq_evict_least_witness:
  "\<exists>b m t. fe_evict (fold fe_call example_history fe_init) = (Inr (b, bm_content_hash m), t) \<and>
     is_fe_victim (fold fe_call example_history fe_init) b m \<and> fe_inv t \<and>
     fe_free_table t = AList.delete b (fe_free_table (fold fe_call example_history fe_init)) \<and>
     fe_frequency_by_hash t = fe_frequency_by_hash (fold fe_call example_history fe_init)"
proof (rule freq_evict_least)
  show "fe_inv (fold fe_call example_history fe_init)" by (rule fe_history_inv)
  show "fe_free_table (fold fe_call example_history fe_init) \<noteq> []" by code_simp
qed

text \<open>
  Whatever is called on a \<open>FrequencyAwareEvictor\<close>, in whatever order and with whatever
  arguments, the heap never holds more than twice the free blocks plus one entries
  (\<open>_COMPACTION_FACTOR\<close> and \<open>_COMPACTION_SLACK\<close>), and it covers every free block.
\<close>

theorem freq_heap_bounded:
  "length (fe_heap (fold fe_call cs fe_init)) \<le>
     COMPACTION_FACTOR * fe_num_blocks (fold fe_call cs fe_init) + COMPACTION_SLACK \<and>
   fe_complete {} (fold fe_call cs fe_init)"
  using fe_history_inv [of cs]
  by (simp add: fe_inv_def fe_bounded_def fe_core_def fe_num_blocks_def COMPACTION_FACTOR_def
      COMPACTION_SLACK_def)

text \<open>
  C6: \<open>LRUEvictor.evict\<close> gives up a least recently accessed block, with the most hashed tokens among
  those, as long as the free table is ordered by access time.
\<close>

theorem lru_evict_least_recent:
  assumes "ft \<noteq> []" and "lru_ordered ft"
  shows "\<exists>b m. lru_evict ft = (Inr (b, bm_content_hash m), AList.delete b ft) \<and> is_lru_victim ft b m"
  by (rule lru_evict_run [OF assms(1)]) (use assms(2) in blast)

lemma lru_evict_least_recent_witness:
  "let ft = [(4, \<lparr>bm_content_hash = replicate 32 1, bm_num_hashed_tokens = 16, bm_last_accessed = 2\<rparr>),
             (9, \<lparr>bm_content_hash = replicate 32 2, bm_num_hashed_tokens = 48, bm_last_accessed = 2\<rparr>),
             (5, \<lparr>bm_content_hash = replicate 32 3, bm_num_hashed_tokens = 64, bm_last_accessed = 3\<rparr>)]
   in \<exists>b m. lru_evict ft = (Inr (b, bm_content_hash m), AList.delete b ft) \<and> is_lru_victim ft b m"
  unfolding Let_def by (rule lru_evict_least_recent) (simp_all add: lru_ordered_def)

text \<open>
  The order that \<open>evict\<close> relies on is not kept by \<open>LRUEvictor.update\<close>, which changes the access
  time of an entry where it stands, nor by \<open>LRUEvictor.add\<close> of a block that was accessed before the
  newest free block: in both histories below \<open>evict\<close> gives up a block that is not least recently used.
\<close>

theorem lru_order_can_break:
  "let touched = snd (lru_update 1 9 (snd (lru_add 2 (replicate 32 2) 16 5
                   (snd (lru_add 1 (replicate 32 1) 16 4 lru_init)))));
       late = snd (lru_add 2 (replicate 32 2) 16 4 (snd (lru_add 1 (replicate 32 1) 16 5 lru_init)))
   in fst (lru_evict touched) = Inr (1, replicate 32 1) \<and> \<not> is_lru_victim touched 1
        (new_block_meta_data (replicate 32 1) 16 9) \<and>
      fst (lru_evict late) = Inr (1, replicate 32 1) \<and> \<not> is_lru_victim late 1
        (new_block_meta_data (replicate 32 1) 16 5)"
  by code_simp

text \<open>
  C7: for either policy and after any history of calls, evicting \<open>num_blocks\<close> times succeeds each
  time and gives up every block of the evictor exactly once, with the content hash it was added with,
  and leaves the evictor empty.
\<close>

theorem evictor_drains:
  "\<exists>bhs e'. repeat_py (ev_num_blocks (fold ev_call cs (make_evictor p))) ev_evict
       (fold ev_call cs (make_evictor p)) = (Inr bhs, e') \<and> ev_num_blocks e' = 0 \<and>
     distinct (map fst bhs) \<and>
     fst ` set bhs = {b. ev_contains b (fold ev_call cs (make_evictor p))} \<and>
     (\<forall>bh \<in> set bhs. \<exists>m. ev_meta (fold ev_call cs (make_evictor p)) (fst bh) = Some m \<and>
        bm_content_hash m = snd bh)"
proof -
  let ?e = "fold ev_call cs (make_evictor p)"
  obtain bhs e' where "repeat_py (ev_num_blocks ?e) ev_evict ?e = (Inr bhs, e')"
      "ev_num_blocks e' = 0" "distinct (map fst bhs)" "fst ` set bhs = dom (ev_meta ?e)"
      "\<forall>(b, h) \<in> set bhs. \<exists>m. ev_meta ?e b = Some m \<and> bm_content_hash m = h"
    using ev.drain [OF ev_history_inv refl] by blast
  then show ?thesis
    by (intro exI [of _ bhs] exI [of _ e']) (auto simp: ev.contains_iff)
qed

lemma evictor_drains_witness:
  "\<exists>bhs e'. repeat_py 2 ev_evict (fold ev_call example_history (make_evictor FREQUENCY_AWARE)) =
     (Inr bhs, e') \<and> ev_num_blocks e' = 0 \<and> distinct (map fst bhs)"
proof -
  have two: "ev_num_blocks (fold ev_call example_history (make_evictor FREQUENCY_AWARE)) = 2"
    by code_simp
  show ?thesis
    using evictor_drains [of example_history FREQUENCY_AWARE] unfolding two by blast
qed

text \<open>
  \<open>eviction_policy_from_env\<close> accepts exactly the values that are \<open>lru\<close> or \<open>frequency\<close> up to
  surrounding white space and letter case, takes an unset variable as \<open>lru\<close>, and raises
  \<open>ValueError\<close> on every other value.
\<close>

theorem eviction_policy_from_env_spec:
  "eviction_policy_from_env os_environ environ =
     (case map_of (case environ of None \<Rightarrow> os_environ | Some e \<Rightarrow> e) ''BI100_KV_EVICTION_POLICY'' of
        None \<Rightarrow> Inr LRU
      | Some v \<Rightarrow> if py_lower (py_strip v) = ''lru'' then Inr LRU
                  else if py_lower (py_strip v) = ''frequency'' then Inr FREQUENCY_AWARE
                  else Inl ValueError)"
proof -
  have "py_lower (py_strip ''lru'') = ''lru''" by code_simp
  then show ?thesis by (auto simp: eviction_policy_from_env_def Let_def split: option.splits)
qed

end
