(* ===== verification/CpuKvContentCache.thy ===== *)
theory CpuKvContentCache
  imports Prelude
begin

text \<open>
  \<^verbatim>\<open>vllm/core/block/cpu_kv_content_cache.py\<close>: the scheduler's index of the CPU tier of the KV
  cache. Within one scheduler step it hands out H2D loads and D2H stores, which the workers execute
  at the end of the step; \<open>worker_transfer\<close> models that execution in the order that
  \<^verbatim>\<open>patch_worker_cache_transfer_order.py\<close> installs. The main results are that every history of
  calls keeps the index consistent, and that the two maps of a step move the right contents.
\<close>

section \<open>State\<close>

definition cpu_kv_offload_enabled :: "(string, string) dict \<Rightarrow> (string, string) dict option
    \<Rightarrow> exn + bool" where
  "cpu_kv_offload_enabled os_environ environ =
     (let source = (case environ of None \<Rightarrow> os_environ | Some e \<Rightarrow> e);
          value = (case map_of source ''BI100_CPU_KV_OFFLOAD'' of None \<Rightarrow> ''0'' | Some v \<Rightarrow> v)
      in if value = ''0'' then Inr False else if value = ''1'' then Inr True else Inl RuntimeError)"

record cpu_kv =
  ck_capacity :: int
  ck_hash_to_slot :: "(content_hash, int) dict"
  ck_slot_to_hash :: "(int, content_hash) dict"
  ck_ready_slots :: "int set"
  ck_lru :: "(int, unit) dict"
  ck_free_slots :: "int list"
  ck_step_slots_in_use :: "int set"
  ck_step_load_slots :: "int set"
  ck_step_h2d :: "(int, int) dict"
  ck_step_d2h :: "(int, int) dict"
  ck_deferred_d2h :: "(int, content_hash) dict"
  ck_deferred_hashes :: "content_hash set"
  ck_pending_ready_slots :: "int set"
  ck_hits :: int
  ck_misses :: int
  ck_stores :: int
  ck_deduplicated_stores :: int
  ck_evictions :: int
  ck_skipped_stores :: int

definition ck_init :: "int \<Rightarrow> exn + cpu_kv" where
  "ck_init capacity = (if capacity \<le> 0 then Inl ValueError else Inr
     \<lparr>ck_capacity = capacity, ck_hash_to_slot = [], ck_slot_to_hash = [], ck_ready_slots = {},
      ck_lru = [], ck_free_slots = heapify [0..capacity - 1], ck_step_slots_in_use = {},
      ck_step_load_slots = {}, ck_step_h2d = [], ck_step_d2h = [], ck_deferred_d2h = [],
      ck_deferred_hashes = {}, ck_pending_ready_slots = {}, ck_hits = 0, ck_misses = 0,
      ck_stores = 0, ck_deduplicated_stores = 0, ck_evictions = 0, ck_skipped_stores = 0\<rparr>)"

section \<open>Operations\<close>

definition ck_validate_hash :: "content_hash \<Rightarrow> (cpu_kv, unit) py" where
  "ck_validate_hash h = guard ValueError (is_digest h)"

definition ck_validate_block_id :: "int \<Rightarrow> (cpu_kv, unit) py" where
  "ck_validate_block_id b = guard ValueError (0 \<le> b)"

definition ck_touch :: "int \<Rightarrow> (cpu_kv, unit) py" where
  "ck_touch slot = modify (\<lambda>s. s\<lparr>ck_lru := move_to_end slot () (ck_lru s)\<rparr>)"

definition ck_pop_free :: "(cpu_kv, int) py" where
  "ck_pop_free = zoom ck_free_slots (\<lambda>h s. s\<lparr>ck_free_slots := h\<rparr>) heappop"

definition ck_select_store_slot :: "(cpu_kv, int option) py" where
  "ck_select_store_slot =
     bind (gets ck_free_slots) (\<lambda>free.
     if free \<noteq> [] then bind ck_pop_free (\<lambda>slot. return (Some slot))
     else gets (\<lambda>s. find (\<lambda>slot. slot \<notin> ck_step_slots_in_use s) (map fst (ck_lru s))))"

definition ck_commit_store :: "content_hash \<Rightarrow> int \<Rightarrow> int \<Rightarrow> (cpu_kv, unit) py" where
  "ck_commit_store h gpu_block slot =
     bind (gets (\<lambda>s. map_of (ck_slot_to_hash s) slot)) (\<lambda>old_hash.
     andthen (case old_hash of
         None \<Rightarrow> return ()
       | Some old \<Rightarrow>
           bind (gets ck_step_slots_in_use) (\<lambda>used.
           andthen (guard RuntimeError (slot \<notin> used))
          (bind (gets (\<lambda>s. map_of (ck_hash_to_slot s) old)) (\<lambda>x.
           andthen (guard KeyError (x \<noteq> None))
           (modify (\<lambda>s. s\<lparr>ck_hash_to_slot := AList.delete old (ck_hash_to_slot s),
              ck_ready_slots := ck_ready_slots s - {slot},
              ck_evictions := ck_evictions s + 1\<rparr>))))))
    (bind (gets ck_step_h2d) (\<lambda>h2d.
     andthen (guard RuntimeError (slot \<notin> fst ` set h2d))
    (bind (gets ck_step_d2h) (\<lambda>d2h.
     andthen (guard RuntimeError (slot \<notin> snd ` set d2h))
    (andthen (modify (\<lambda>s. s\<lparr>ck_hash_to_slot := AList.update h slot (ck_hash_to_slot s),
        ck_slot_to_hash := AList.update slot h (ck_slot_to_hash s),
        ck_ready_slots := ck_ready_slots s - {slot},
        ck_step_slots_in_use := insert slot (ck_step_slots_in_use s),
        ck_step_d2h := AList.update gpu_block slot (ck_step_d2h s)\<rparr>))
    (andthen (ck_touch slot)
     (modify (\<lambda>s. s\<lparr>ck_stores := ck_stores s + 1\<rparr>)))))))))"

definition ck_begin_step :: "(cpu_kv, unit) py" where
  "ck_begin_step =
     bind (gets (\<lambda>s. ck_step_slots_in_use s \<noteq> {} \<or> ck_step_h2d s \<noteq> [] \<or> ck_step_d2h s \<noteq> [] \<or>
       ck_deferred_d2h s \<noteq> [] \<or> ck_deferred_hashes s \<noteq> {})) (\<lambda>dirty.
     andthen (guard RuntimeError (\<not> dirty))
     (modify (\<lambda>s. s\<lparr>ck_ready_slots := ck_ready_slots s \<union> ck_pending_ready_slots s,
        ck_pending_ready_slots := {}\<rparr>)))"

definition ck_require_step_started :: "(cpu_kv, unit) py" where
  "ck_require_step_started =
     bind (gets ck_pending_ready_slots) (\<lambda>p. guard RuntimeError (p = {}))"

definition ck_claim_load :: "content_hash \<Rightarrow> (cpu_kv, int option) py" where
  "ck_claim_load h =
     andthen (ck_validate_hash h)
    (andthen ck_require_step_started
    (bind (gets (\<lambda>s. map_of (ck_hash_to_slot s) h)) (\<lambda>slot.
     bind (gets ck_ready_slots) (\<lambda>ready.
     bind (gets ck_step_slots_in_use) (\<lambda>used.
     case slot of
       None \<Rightarrow> andthen (modify (\<lambda>s. s\<lparr>ck_misses := ck_misses s + 1\<rparr>)) (return None)
     | Some slot \<Rightarrow>
         if slot \<notin> ready
         then andthen (modify (\<lambda>s. s\<lparr>ck_misses := ck_misses s + 1\<rparr>)) (return None)
         else andthen (guard RuntimeError (slot \<notin> used))
             (andthen (modify (\<lambda>s. s\<lparr>ck_step_slots_in_use := insert slot (ck_step_slots_in_use s),
                ck_step_load_slots := insert slot (ck_step_load_slots s)\<rparr>))
             (andthen (ck_touch slot)
             (andthen (modify (\<lambda>s. s\<lparr>ck_hits := ck_hits s + 1\<rparr>))
             (return (Some slot))))))))))"

definition ck_cancel_load :: "content_hash \<Rightarrow> int \<Rightarrow> (cpu_kv, unit) py" where
  "ck_cancel_load h cpu_slot =
     andthen (ck_validate_hash h)
    (andthen (ck_validate_block_id cpu_slot)
    (bind (gets (\<lambda>s. map_of (ck_hash_to_slot s) h)) (\<lambda>slot.
     andthen (guard RuntimeError (slot = Some cpu_slot))
    (bind (gets ck_step_h2d) (\<lambda>h2d.
     andthen (guard RuntimeError (cpu_slot \<notin> fst ` set h2d))
    (bind (gets ck_step_slots_in_use) (\<lambda>used.
     andthen (guard RuntimeError (cpu_slot \<in> used))
    (andthen (modify (\<lambda>s. s\<lparr>ck_step_slots_in_use := ck_step_slots_in_use s - {cpu_slot}\<rparr>))
    (bind (gets ck_step_load_slots) (\<lambda>loads.
     andthen (guard KeyError (cpu_slot \<in> loads))
     (modify (\<lambda>s. s\<lparr>ck_step_load_slots := ck_step_load_slots s - {cpu_slot}\<rparr>))))))))))))"

definition ck_stage_load :: "content_hash \<Rightarrow> int \<Rightarrow> int \<Rightarrow> (cpu_kv, unit) py" where
  "ck_stage_load h cpu_slot gpu_block =
     andthen (ck_validate_hash h)
    (andthen (ck_validate_block_id cpu_slot)
    (andthen (ck_validate_block_id gpu_block)
    (bind (gets id) (\<lambda>s.
     andthen (guard RuntimeError (map_of (ck_hash_to_slot s) h = Some cpu_slot))
    (andthen (guard RuntimeError (cpu_slot \<in> ck_ready_slots s))
    (andthen (guard RuntimeError (cpu_slot \<in> ck_step_slots_in_use s))
    (andthen (guard RuntimeError (cpu_slot \<notin> fst ` set (ck_step_h2d s)))
    (andthen (guard RuntimeError (gpu_block \<notin> snd ` set (ck_step_h2d s)))
    (andthen (guard RuntimeError (cpu_slot \<notin> snd ` set (ck_step_d2h s)))
     (modify (\<lambda>s. s\<lparr>ck_step_h2d := AList.update cpu_slot gpu_block (ck_step_h2d s)\<rparr>)))))))))))"

definition ck_stage_store :: "content_hash \<Rightarrow> int \<Rightarrow> (cpu_kv, bool) py" where
  "ck_stage_store h gpu_block =
     andthen (ck_validate_hash h)
    (andthen (ck_validate_block_id gpu_block)
    (andthen ck_require_step_started
    (bind (gets id) (\<lambda>s.
     if h \<in> fst ` set (ck_hash_to_slot s) \<or> h \<in> ck_deferred_hashes s
     then andthen (case map_of (ck_hash_to_slot s) h of None \<Rightarrow> return () | Some slot \<Rightarrow> ck_touch slot)
         (andthen (modify (\<lambda>s. s\<lparr>ck_deduplicated_stores := ck_deduplicated_stores s + 1\<rparr>))
          (return False))
     else andthen (guard RuntimeError (\<not> (gpu_block \<in> fst ` set (ck_step_d2h s) \<or>
              gpu_block \<in> fst ` set (ck_deferred_d2h s))))
         (if ck_free_slots s \<noteq> []
          then bind ck_pop_free (\<lambda>slot.
               andthen (ck_commit_store h gpu_block slot) (return True))
          else andthen (modify (\<lambda>s. s\<lparr>ck_deferred_d2h := AList.update gpu_block h (ck_deferred_d2h s),
                 ck_deferred_hashes := insert h (ck_deferred_hashes s)\<rparr>))
               (return True))))))"

definition ck_resolve_one :: "int \<times> content_hash \<Rightarrow> (cpu_kv, unit) py" where
  "ck_resolve_one = (\<lambda>(gpu_block, h).
     bind ck_select_store_slot (\<lambda>slot. case slot of
         None \<Rightarrow> modify (\<lambda>s. s\<lparr>ck_skipped_stores := ck_skipped_stores s + 1\<rparr>)
       | Some slot \<Rightarrow> ck_commit_store h gpu_block slot))"

definition ck_resolve_deferred_stores :: "(cpu_kv, unit) py" where
  "ck_resolve_deferred_stores =
     bind (gets ck_step_load_slots) (\<lambda>loads.
     bind (gets ck_deferred_d2h) (\<lambda>deferred.
     andthen (if loads \<noteq> {}
         then modify (\<lambda>s. s\<lparr>ck_skipped_stores := ck_skipped_stores s + int (length deferred)\<rparr>)
         else for_each deferred ck_resolve_one)
     (modify (\<lambda>s. s\<lparr>ck_deferred_d2h := [], ck_deferred_hashes := {}\<rparr>))))"

definition ck_drain_step :: "(cpu_kv, (int \<times> int) list \<times> (int \<times> int) list) py" where
  "ck_drain_step =
     andthen ck_resolve_deferred_stores
    (bind (gets id) (\<lambda>s.
     andthen (guard RuntimeError
       (fst ` set (ck_step_h2d s) \<union> snd ` set (ck_step_d2h s) = ck_step_slots_in_use s))
    (andthen (guard RuntimeError (fst ` set (ck_step_h2d s) \<inter> snd ` set (ck_step_d2h s) = {}))
    (andthen (guard RuntimeError (fst ` set (ck_step_h2d s) = ck_step_load_slots s))
    (andthen (modify (\<lambda>s. s\<lparr>ck_pending_ready_slots :=
          ck_pending_ready_slots s \<union> snd ` set (ck_step_d2h s),
        ck_step_h2d := [], ck_step_d2h := [], ck_step_slots_in_use := {},
        ck_step_load_slots := {}\<rparr>))
     (return (sort (ck_step_h2d s), sort (ck_step_d2h s))))))))"

definition ck_resident_slot :: "content_hash \<Rightarrow> (cpu_kv, int option) py" where
  "ck_resident_slot h =
     andthen (ck_validate_hash h) (gets (\<lambda>s. map_of (ck_hash_to_slot s) h))"

definition ck_is_ready :: "content_hash \<Rightarrow> (cpu_kv, bool) py" where
  "ck_is_ready h =
     andthen (ck_validate_hash h)
    (gets (\<lambda>s. case map_of (ck_hash_to_slot s) h of None \<Rightarrow> False
        | Some slot \<Rightarrow> slot \<in> ck_ready_slots s))"

definition ck_resident_count :: "cpu_kv \<Rightarrow> nat" where
  "ck_resident_count s = length (ck_hash_to_slot s)"

section \<open>The worker's side of a step\<close>

text \<open>
  The contents of the GPU and CPU caches, by slot: \<open>swap_blocks\<close> copies along a list of pairs.
  \<open>worker_transfer\<close> is the patched \<open>execute_worker\<close>, every D2H copy before any H2D copy;
  \<open>worker_transfer_unpatched\<close> is the order of the file the patch replaces.
\<close>

type_synonym kv_mem = "int \<Rightarrow> content_hash option"

definition swap_blocks :: "kv_mem \<Rightarrow> (int \<times> int) list \<Rightarrow> kv_mem \<Rightarrow> kv_mem" where
  "swap_blocks src = fold (\<lambda>(i, j) dst. dst(j := src i))"

definition worker_transfer :: "(int \<times> int) list \<Rightarrow> (int \<times> int) list \<Rightarrow> kv_mem \<times> kv_mem
    \<Rightarrow> kv_mem \<times> kv_mem" where
  "worker_transfer swap_in swap_out = (\<lambda>(gpu, cpu).
     let cpu' = swap_blocks gpu swap_out cpu; gpu' = swap_blocks cpu' swap_in gpu in (gpu', cpu'))"

definition worker_transfer_unpatched :: "(int \<times> int) list \<Rightarrow> (int \<times> int) list
    \<Rightarrow> kv_mem \<times> kv_mem \<Rightarrow> kv_mem \<times> kv_mem" where
  "worker_transfer_unpatched swap_in swap_out = (\<lambda>(gpu, cpu).
     let gpu' = swap_blocks cpu swap_in gpu; cpu' = swap_blocks gpu' swap_out cpu in (gpu', cpu'))"

section \<open>The invariant\<close>

text \<open>
  The invariant is stated over the contents of the fields, so that each step is a fact about sets
  and maps:
  \<^item> \<open>index_ok\<close>: the two dicts are inverse to each other, the used and the free slots partition
    the capacity, the LRU order covers the used slots;
  \<^item> \<open>phase_ok\<close>: every used slot is ready, or published at the next \<open>begin_step\<close>, or the
    destination of a store of this step; the slots in use are the claimed ones, which are ready,
    and the store destinations;
  \<^item> \<open>deferrable\<close>: stores are deferred only when no slot is free, each for a GPU block and a
    content that no other store of the step has.
\<close>

definition inverse_maps :: "('a \<rightharpoonup> 'b) \<Rightarrow> ('b \<rightharpoonup> 'a) \<Rightarrow> bool" where
  "inverse_maps a b \<longleftrightarrow> (\<forall>h x. a h = Some x \<longleftrightarrow> b x = Some h)"

definition inj_map :: "('a \<rightharpoonup> 'b) \<Rightarrow> bool" where
  "inj_map m \<longleftrightarrow> (\<forall>x y g. m x = Some g \<longrightarrow> m y = Some g \<longrightarrow> x = y)"

lemma inverse_mapsD: "inverse_maps a b \<Longrightarrow> a h = Some x \<longleftrightarrow> b x = Some h"
  by (simp add: inverse_maps_def)

lemma inverse_maps_upd:
  assumes "inverse_maps a b" "a h = None" "b x = None"
  shows "inverse_maps (a(h \<mapsto> x)) (b(x \<mapsto> h))"
proof -
  have "b y \<noteq> Some h" for y using inverse_mapsD [OF assms(1), of h y] assms(2) by simp
  with assms show ?thesis by (auto simp: inverse_maps_def)
qed

lemma inverse_maps_replace:
  assumes inv: "inverse_maps a b" and "a h = None" and b: "b x = Some old"
  shows "inverse_maps (a(old := None, h \<mapsto> x)) (b(x \<mapsto> h))"
proof -
  have "a old = Some x" using inverse_mapsD [OF inv] b by simp
  then have "y \<noteq> x \<Longrightarrow> b y \<noteq> Some old" for y using inverse_mapsD [OF inv, of old y] by simp
  moreover have "b y \<noteq> Some h" for y using inverse_mapsD [OF inv, of h y] assms(2) by simp
  moreover have "h \<noteq> old" using \<open>a old = Some x\<close> assms(2) by auto
  ultimately show ?thesis
    unfolding inverse_maps_def
  proof (intro allI)
    fix k y
    assume "h \<noteq> old" "\<And>y. y \<noteq> x \<Longrightarrow> b y \<noteq> Some old" "\<And>y. b y \<noteq> Some h"
    then show "(a(old := None, h \<mapsto> x)) k = Some y \<longleftrightarrow> (b(x \<mapsto> h)) y = Some k"
      using inverse_mapsD [OF inv, of k y] b
      by (cases "k = h"; cases "k = old"; cases "y = x") auto
  qed
qed

lemma inj_map_upd: "inj_map m \<Longrightarrow> g \<notin> ran m \<Longrightarrow> inj_map (m(x \<mapsto> g))"
  by (auto simp: inj_map_def ran_def)

lemma empty_maps [simp]: "inj_map Map.empty" "inverse_maps Map.empty Map.empty"
  by (simp_all add: inj_map_def inverse_maps_def)

definition index_ok :: "int \<Rightarrow> int list \<Rightarrow> (content_hash \<rightharpoonup> int) \<Rightarrow> (int \<rightharpoonup> content_hash) \<Rightarrow> int set
    \<Rightarrow> bool" where
  "index_ok cap free a b keys \<longleftrightarrow> inverse_maps a b \<and>
     sorted free \<and> distinct free \<and> set free \<inter> keys = {} \<and> set free \<union> keys = {0..<cap} \<and>
     keys = dom b"

definition phase_ok :: "int set \<Rightarrow> int set \<Rightarrow> int set \<Rightarrow> int set \<Rightarrow> int set \<Rightarrow> (int \<rightharpoonup> int)
    \<Rightarrow> (int \<rightharpoonup> int) \<Rightarrow> bool" where
  "phase_ok D ready pending used loads h2d d2h \<longleftrightarrow>
     D = ready \<union> pending \<union> ran d2h \<and> used = loads \<union> ran d2h \<and>
     ready \<inter> pending = {} \<and> ready \<inter> ran d2h = {} \<and> loads \<subseteq> ready \<and> dom h2d \<subseteq> loads \<and>
     (pending \<noteq> {} \<longrightarrow> used = {}) \<and>
     inj_map h2d \<and> inj_map d2h"

definition deferrable :: "(int, content_hash) dict \<Rightarrow> content_hash set \<Rightarrow> int set \<Rightarrow> int list
    \<Rightarrow> int set \<Rightarrow> bool" where
  "deferrable d resident sources free pending \<longleftrightarrow> wf_dict d \<and> distinct (map snd d) \<and>
     snd ` set d \<inter> resident = {} \<and> fst ` set d \<inter> sources = {} \<and>
     (d \<noteq> [] \<longrightarrow> free = [] \<and> pending = {})"

definition ck_dicts :: "cpu_kv \<Rightarrow> bool" where
  "ck_dicts s \<longleftrightarrow> wf_dict (ck_hash_to_slot s) \<and> wf_dict (ck_slot_to_hash s) \<and>
     wf_dict (ck_lru s) \<and> wf_dict (ck_step_h2d s) \<and> wf_dict (ck_step_d2h s) \<and>
     dom (map_of (ck_lru s)) = dom (map_of (ck_slot_to_hash s))"

definition ck_core :: "cpu_kv \<Rightarrow> bool" where
  "ck_core s \<longleftrightarrow> ck_dicts s \<and>
     index_ok (ck_capacity s) (ck_free_slots s) (map_of (ck_hash_to_slot s))
       (map_of (ck_slot_to_hash s)) (dom (map_of (ck_slot_to_hash s))) \<and>
     phase_ok (dom (map_of (ck_slot_to_hash s))) (ck_ready_slots s) (ck_pending_ready_slots s)
       (ck_step_slots_in_use s) (ck_step_load_slots s) (map_of (ck_step_h2d s))
       (map_of (ck_step_d2h s))"

definition ck_deferrable :: "(int, content_hash) dict \<Rightarrow> cpu_kv \<Rightarrow> bool" where
  "ck_deferrable d s \<longleftrightarrow> deferrable d (dom (map_of (ck_hash_to_slot s)))
     (dom (map_of (ck_step_d2h s))) (ck_free_slots s) (ck_pending_ready_slots s)"

definition ck_inv :: "cpu_kv \<Rightarrow> bool" where
  "ck_inv s \<longleftrightarrow> ck_core s \<and> ck_deferrable (ck_deferred_d2h s) s \<and>
     ck_deferred_hashes s = snd ` set (ck_deferred_d2h s)"

lemmas ck_inv_defs = ck_inv_def ck_core_def ck_dicts_def ck_deferrable_def

lemma ck_inv_init: "ck_init c = Inr s \<Longrightarrow> ck_inv s"
  by (auto simp: ck_init_def ck_inv_defs index_ok_def phase_ok_def deferrable_def heapify_def
      sorted_sort_id split: if_splits)

subsection \<open>Steps on sets and maps\<close>

lemma phase_begin: "phase_ok D R P U L m n \<Longrightarrow> U = {} \<Longrightarrow> phase_ok D (R \<union> P) {} U L m n"
  unfolding phase_ok_def by blast

lemma phase_claim:
  "phase_ok D R P U L m n \<Longrightarrow> x \<in> R \<Longrightarrow> P = {} \<Longrightarrow> phase_ok D R P (insert x U) (insert x L) m n"
  unfolding phase_ok_def by blast

lemma phase_cancel:
  "phase_ok D R P U L m n \<Longrightarrow> x \<in> L \<Longrightarrow> x \<notin> dom m \<Longrightarrow> phase_ok D R P (U - {x}) (L - {x}) m n"
  unfolding phase_ok_def by blast

lemma phase_load:
  assumes "phase_ok D R P U L m n" "x \<in> U" "x \<in> R" "g \<notin> ran m"
  shows "phase_ok D R P U L (m(x \<mapsto> g)) n"
proof -
  have "x \<in> L" using assms unfolding phase_ok_def by blast
  with assms show ?thesis unfolding phase_ok_def by (simp add: inj_map_upd) blast
qed

lemma phase_store:
  assumes "phase_ok D R P U L m n" "P = {}" "x \<notin> U" "n g = None"
  shows "phase_ok (insert x D) (R - {x}) P (insert x U) L m (n(g \<mapsto> x))"
proof -
  have ran: "ran (n(g \<mapsto> x)) = insert x (ran n)" using assms(4) by simp
  have x: "x \<notin> ran n" "x \<notin> L" using assms(1,3) unfolding phase_ok_def by blast+
  have "inj_map (n(g \<mapsto> x))" using assms(1) x(1) by (simp add: phase_ok_def inj_map_upd)
  with assms(1,2) x show ?thesis unfolding phase_ok_def ran by blast
qed

lemma phase_drain:
  "phase_ok D R P U L m n \<Longrightarrow> phase_ok D R (P \<union> ran n) {} {} Map.empty Map.empty"
  unfolding phase_ok_def by simp blast

lemma index_take_free:
  assumes ok: "index_ok c (x # F) a b K" and h: "a h = None"
  shows "index_ok c F (a(h \<mapsto> x)) (b(x \<mapsto> h)) (insert x K)"
proof -
  have "b x = None" using ok by (auto simp: index_ok_def)
  then have "inverse_maps (a(h \<mapsto> x)) (b(x \<mapsto> h))"
    using ok h by (simp add: index_ok_def inverse_maps_upd)
  moreover have "dom (b(x \<mapsto> h)) = insert x (dom b)" by simp
  moreover have "distinct F" "sorted F" "x \<notin> set F" "x \<notin> K" "set F \<inter> K = {}" "K = dom b"
    using ok by (auto simp: index_ok_def)
  moreover have "set F \<union> insert x K = {0..<c}" using ok by (auto simp: index_ok_def)
  ultimately show ?thesis unfolding index_ok_def by blast
qed

lemma index_replace:
  assumes ok: "index_ok c F a b K" and b: "b x = Some old" and h: "a h = None"
  shows "index_ok c F (a(old := None, h \<mapsto> x)) (b(x \<mapsto> h)) (insert x K)"
proof -
  have "insert x K = K" using ok b by (auto simp: index_ok_def)
  moreover have "dom (b(x \<mapsto> h)) = insert x (dom b)" by simp
  moreover have "inverse_maps (a(old := None, h \<mapsto> x)) (b(x \<mapsto> h))"
    using ok b h by (intro inverse_maps_replace) (simp_all add: index_ok_def)
  ultimately show ?thesis using ok unfolding index_ok_def by metis
qed

lemma deferrable_snoc:
  "deferrable d R S [] {} \<Longrightarrow> h \<notin> snd ` set d \<Longrightarrow> h \<notin> R \<Longrightarrow> g \<notin> fst ` set d \<Longrightarrow> g \<notin> S \<Longrightarrow>
   deferrable (d @ [(g, h)]) R S [] {}"
  by (simp add: deferrable_def wf_dict_def)

lemma deferrable_tail:
  "deferrable ((g, h) # r) R S F P \<Longrightarrow> R' \<subseteq> insert h R \<Longrightarrow> S' = insert g S \<Longrightarrow>
   deferrable r R' S' F P"
proof -
  assume d: "deferrable ((g, h) # r) R S F P" and sub: "R' \<subseteq> insert h R" "S' = insert g S"
  have "snd ` set r \<inter> R = {}" "h \<notin> snd ` set r" "fst ` set r \<inter> S = {}" "g \<notin> fst ` set r"
    using d by (auto simp: deferrable_def wf_dict_def)
  then have "snd ` set r \<inter> R' = {}" "fst ` set r \<inter> S' = {}" using sub by blast+
  then show ?thesis using d by (simp add: deferrable_def wf_dict_def)
qed

subsection \<open>Every operation keeps the invariant\<close>

lemma ck_begin_inv:
  assumes inv: "ck_inv s"
  shows "wp ck_begin_step (\<lambda>_. ck_inv) (\<lambda>_. ck_inv) s"
proof -
  have "ck_inv (s\<lparr>ck_ready_slots := ck_ready_slots s \<union> ck_pending_ready_slots s,
      ck_pending_ready_slots := {}\<rparr>)" if u: "ck_step_slots_in_use s = {}" "ck_deferred_d2h s = []"
    using inv phase_begin [OF _ u(1)] u(2) by (simp add: ck_inv_defs deferrable_def)
  with inv show ?thesis by (simp add: ck_begin_step_def wp_simps)
qed

lemma ck_claim_inv:
  assumes inv: "ck_inv s"
  shows "wp (ck_claim_load h) (\<lambda>_. ck_inv) (\<lambda>_. ck_inv) s"
proof -
  have ok: "ck_inv (s\<lparr>ck_step_slots_in_use := insert x (ck_step_slots_in_use s),
      ck_step_load_slots := insert x (ck_step_load_slots s),
      ck_lru := move_to_end x () (ck_lru s), ck_hits := n\<rparr>)"
    if x: "x \<in> ck_ready_slots s" and p: "ck_pending_ready_slots s = {}" for x n
  proof -
    have "x \<in> dom (map_of (ck_slot_to_hash s))"
      using inv x by (simp add: ck_inv_defs phase_ok_def)
    then have "insert x (dom (map_of (ck_slot_to_hash s))) = dom (map_of (ck_slot_to_hash s))"
      by blast
    with inv x p show ?thesis by (simp add: ck_inv_defs phase_claim)
  qed
  have miss: "ck_inv (s\<lparr>ck_misses := n\<rparr>)" for n
    using inv by (simp add: ck_inv_defs)
  show ?thesis
    using inv ok miss
    by (simp add: ck_claim_load_def ck_validate_hash_def ck_require_step_started_def ck_touch_def
        wp_simps split: option.splits)
qed

lemma ck_cancel_inv:
  assumes inv: "ck_inv s" and claimed: "x \<in> ck_step_load_slots s"
  shows "wp (ck_cancel_load h x) (\<lambda>_. ck_inv) (\<lambda>_. ck_inv) s"
proof -
  have "ck_inv (s\<lparr>ck_step_slots_in_use := ck_step_slots_in_use s - {x},
      ck_step_load_slots := ck_step_load_slots s - {x}\<rparr>)" if "x \<notin> dom (map_of (ck_step_h2d s))"
    using inv that claimed by (simp add: ck_inv_defs phase_cancel)
  then show ?thesis
    using inv claimed
    by (simp add: ck_cancel_load_def ck_validate_hash_def ck_validate_block_id_def wp_simps dict_keys)
qed

lemma ck_stage_load_inv:
  assumes inv: "ck_inv s"
  shows "wp (ck_stage_load h x g) (\<lambda>_. ck_inv) (\<lambda>_. ck_inv) s"
proof -
  have wf: "wf_dict (ck_step_h2d s)" "wf_dict (ck_step_d2h s)"
    using inv by (simp_all add: ck_inv_defs)
  have "ck_inv (s\<lparr>ck_step_h2d := AList.update x g (ck_step_h2d s)\<rparr>)"
    if "x \<in> ck_step_slots_in_use s" "x \<in> ck_ready_slots s" "g \<notin> ran (map_of (ck_step_h2d s))"
      "x \<notin> dom (map_of (ck_step_h2d s))"
    using inv that by (simp add: ck_inv_defs dict_simps phase_load)
  then show ?thesis
    using inv
    by (simp add: ck_stage_load_def ck_validate_hash_def ck_validate_block_id_def wp_simps
        dict_vals [OF wf(1)] dict_keys)
qed

lemma ck_commit_run:
  assumes "case map_of (ck_slot_to_hash s) x of None \<Rightarrow> d = ck_hash_to_slot s \<and> n = ck_evictions s
      | Some old \<Rightarrow> d = AList.delete old (ck_hash_to_slot s) \<and> n = ck_evictions s + 1 \<and>
          x \<notin> ck_step_slots_in_use s \<and> map_of (ck_hash_to_slot s) old \<noteq> None"
    and "x \<notin> dom (map_of (ck_step_h2d s))" "x \<notin> snd ` set (ck_step_d2h s)"
  shows "ck_commit_store h g x s = (Inr (), s\<lparr>ck_hash_to_slot := AList.update h x d,
    ck_evictions := n, ck_slot_to_hash := AList.update x h (ck_slot_to_hash s),
    ck_ready_slots := ck_ready_slots s - {x},
    ck_step_slots_in_use := insert x (ck_step_slots_in_use s),
    ck_step_d2h := AList.update g x (ck_step_d2h s), ck_lru := move_to_end x () (ck_lru s),
    ck_stores := ck_stores s + 1\<rparr>)"
  using assms
  by (cases "map_of (ck_slot_to_hash s) x")
    (simp_all add: ck_commit_store_def ck_touch_def py_defs dict_keys)

text \<open>What a committed store leaves: the frame that the callers need.\<close>

definition ck_committed :: "content_hash \<Rightarrow> int \<Rightarrow> int \<Rightarrow> cpu_kv \<Rightarrow> cpu_kv \<Rightarrow> bool" where
  "ck_committed h g x s t \<longleftrightarrow> ck_core t \<and>
     map_of (ck_hash_to_slot t) =
       (case map_of (ck_slot_to_hash s) x of None \<Rightarrow> map_of (ck_hash_to_slot s)
        | Some old \<Rightarrow> (map_of (ck_hash_to_slot s))(old := None))(h \<mapsto> x) \<and>
     map_of (ck_slot_to_hash t) = (map_of (ck_slot_to_hash s))(x \<mapsto> h) \<and>
     map_of (ck_step_d2h t) = (map_of (ck_step_d2h s))(g \<mapsto> x) \<and>
     ck_ready_slots t = ck_ready_slots s - {x} \<and> ck_step_h2d t = ck_step_h2d s \<and>
     ck_free_slots t = ck_free_slots s \<and> ck_pending_ready_slots t = ck_pending_ready_slots s \<and>
     ck_step_load_slots t = ck_step_load_slots s \<and> ck_deferred_d2h t = ck_deferred_d2h s \<and>
     ck_deferred_hashes t = ck_deferred_hashes s \<and> ck_capacity t = ck_capacity s"

lemma ck_commit_free:
  assumes core: "ck_core s" and free: "ck_free_slots s = x # F"
    and h: "map_of (ck_hash_to_slot s) h = None" and g: "map_of (ck_step_d2h s) g = None"
    and p: "ck_pending_ready_slots s = {}"
  obtains t where "ck_commit_store h g x (s\<lparr>ck_free_slots := F\<rparr>) = (Inr (), t)"
    and "ck_committed h g x (s\<lparr>ck_free_slots := F\<rparr>) t"
proof -
  have fresh: "map_of (ck_slot_to_hash s) x = None"
    using core free by (auto simp: ck_core_def index_ok_def)
  have ph: "phase_ok (dom (map_of (ck_slot_to_hash s))) (ck_ready_slots s) (ck_pending_ready_slots s)
       (ck_step_slots_in_use s) (ck_step_load_slots s) (map_of (ck_step_h2d s))
       (map_of (ck_step_d2h s))" using core by (simp add: ck_core_def)
  then have used: "x \<notin> ck_step_slots_in_use s" and h2d: "x \<notin> dom (map_of (ck_step_h2d s))"
    and d2h: "x \<notin> ran (map_of (ck_step_d2h s))"
    using fresh unfolding phase_ok_def by blast+
  let ?s = "s\<lparr>ck_free_slots := F\<rparr>"
  note run = ck_commit_run [where s = ?s and x = x and d = "ck_hash_to_slot s" and n = "ck_evictions s"]
  have wf: "wf_dict (ck_step_d2h s)" using core by (simp add: ck_core_def ck_dicts_def)
  show thesis
  proof (rule that, rule run)
    show "case map_of (ck_slot_to_hash ?s) x of
        None \<Rightarrow> ck_hash_to_slot s = ck_hash_to_slot ?s \<and> ck_evictions s = ck_evictions ?s
      | Some old \<Rightarrow> ck_hash_to_slot s = AList.delete old (ck_hash_to_slot ?s) \<and>
          ck_evictions s = ck_evictions ?s + 1 \<and> x \<notin> ck_step_slots_in_use ?s \<and>
          map_of (ck_hash_to_slot ?s) old \<noteq> None"
      using fresh by simp
    show "x \<notin> dom (map_of (ck_step_h2d ?s))" "x \<notin> snd ` set (ck_step_d2h ?s)"
      using h2d d2h by (simp_all add: dict_vals [OF wf])
    show "ck_committed h g x ?s (?s\<lparr>ck_hash_to_slot := AList.update h x (ck_hash_to_slot s),
        ck_evictions := ck_evictions s, ck_slot_to_hash := AList.update x h (ck_slot_to_hash ?s),
        ck_ready_slots := ck_ready_slots ?s - {x},
        ck_step_slots_in_use := insert x (ck_step_slots_in_use ?s),
        ck_step_d2h := AList.update g x (ck_step_d2h ?s),
        ck_lru := move_to_end x () (ck_lru ?s), ck_stores := ck_stores ?s + 1\<rparr>)"
      using core free phase_store [OF ph p used g] index_take_free [of "ck_capacity s" x F _ _ _ h] h
        fresh
      by (simp add: ck_committed_def ck_core_def ck_dicts_def dict_simps)
  qed
qed

lemma ck_commit_evict:
  assumes core: "ck_core s" and old: "map_of (ck_slot_to_hash s) x = Some old"
    and used: "x \<notin> ck_step_slots_in_use s"
    and h: "map_of (ck_hash_to_slot s) h = None" and g: "map_of (ck_step_d2h s) g = None"
    and p: "ck_pending_ready_slots s = {}"
  obtains t where "ck_commit_store h g x s = (Inr (), t)" and "ck_committed h g x s t"
proof -
  have ph: "phase_ok (dom (map_of (ck_slot_to_hash s))) (ck_ready_slots s) (ck_pending_ready_slots s)
       (ck_step_slots_in_use s) (ck_step_load_slots s) (map_of (ck_step_h2d s))
       (map_of (ck_step_d2h s))" using core by (simp add: ck_core_def)
  then have h2d: "x \<notin> dom (map_of (ck_step_h2d s))" and d2h: "x \<notin> ran (map_of (ck_step_d2h s))"
    using used unfolding phase_ok_def by blast+
  have wf: "wf_dict (ck_step_d2h s)" using core by (simp add: ck_core_def ck_dicts_def)
  have ix: "index_ok (ck_capacity s) (ck_free_slots s) (map_of (ck_hash_to_slot s))
       (map_of (ck_slot_to_hash s)) (dom (map_of (ck_slot_to_hash s)))"
    using core by (simp add: ck_core_def)
  have "map_of (ck_hash_to_slot s) old = Some x"
    using ix old inverse_mapsD [of "map_of (ck_hash_to_slot s)" "map_of (ck_slot_to_hash s)" old x]
    by (simp add: index_ok_def)
  note run = ck_commit_run [where s = s and x = x and d = "AList.delete old (ck_hash_to_slot s)"
    and n = "ck_evictions s + 1"]
  show thesis
  proof (rule that, rule run)
    show "case map_of (ck_slot_to_hash s) x of
        None \<Rightarrow> AList.delete old (ck_hash_to_slot s) = ck_hash_to_slot s \<and>
          ck_evictions s + 1 = ck_evictions s
      | Some old' \<Rightarrow> AList.delete old (ck_hash_to_slot s) = AList.delete old' (ck_hash_to_slot s) \<and>
          ck_evictions s + 1 = ck_evictions s + 1 \<and> x \<notin> ck_step_slots_in_use s \<and>
          map_of (ck_hash_to_slot s) old' \<noteq> None"
      using old used \<open>map_of (ck_hash_to_slot s) old = Some x\<close> by simp
    show "x \<notin> dom (map_of (ck_step_h2d s))" "x \<notin> snd ` set (ck_step_d2h s)"
      using h2d d2h by (simp_all add: dict_vals [OF wf])
    show "ck_committed h g x s (s\<lparr>ck_hash_to_slot :=
          AList.update h x (AList.delete old (ck_hash_to_slot s)),
        ck_evictions := ck_evictions s + 1,
        ck_slot_to_hash := AList.update x h (ck_slot_to_hash s),
        ck_ready_slots := ck_ready_slots s - {x},
        ck_step_slots_in_use := insert x (ck_step_slots_in_use s),
        ck_step_d2h := AList.update g x (ck_step_d2h s),
        ck_lru := move_to_end x () (ck_lru s), ck_stores := ck_stores s + 1\<rparr>)"
      using core phase_store [OF ph p used g] index_replace [OF ix old h] old
      by (simp add: ck_committed_def ck_core_def ck_dicts_def dict_simps)
  qed
qed

lemma ck_stage_store_run:
  assumes inv: "ck_inv s" and h: "is_digest h" and g: "0 \<le> g"
    and p: "ck_pending_ready_slots s = {}"
    and new: "map_of (ck_hash_to_slot s) h = None" "h \<notin> ck_deferred_hashes s"
    and src: "map_of (ck_step_d2h s) g = None" "g \<notin> fst ` set (ck_deferred_d2h s)"
  obtains (stored) x F t where "ck_free_slots s = x # F"
      and "ck_stage_store h g s = (Inr True, t)" and "ck_inv t"
      and "ck_committed h g x (s\<lparr>ck_free_slots := F\<rparr>) t"
    | (deferred) t where "ck_free_slots s = []" and "ck_stage_store h g s = (Inr True, t)"
      and "ck_inv t" and "t = s\<lparr>ck_deferred_d2h := AList.update g h (ck_deferred_d2h s),
                 ck_deferred_hashes := insert h (ck_deferred_hashes s)\<rparr>"
proof (cases "ck_free_slots s")
  case (Cons x F)
  have core: "ck_core s" using inv by (simp add: ck_inv_def)
  obtain t where run: "ck_commit_store h g x (s\<lparr>ck_free_slots := F\<rparr>) = (Inr (), t)"
    and t: "ck_committed h g x (s\<lparr>ck_free_slots := F\<rparr>) t"
    by (rule ck_commit_free [OF core Cons new(1) src(1) p])
  have fresh: "map_of (ck_slot_to_hash s) x = None"
    using core Cons by (auto simp: ck_core_def index_ok_def)
  have empty: "ck_deferred_d2h s = []"
    using inv Cons by (auto simp: ck_inv_def ck_deferrable_def deferrable_def)
  then have "ck_inv t"
    using t inv by (simp add: ck_committed_def ck_inv_def ck_deferrable_def deferrable_def)
  moreover have "ck_stage_store h g s = (Inr True, t)"
    using run new src h g p Cons
    by (simp add: ck_stage_store_def ck_validate_hash_def ck_validate_block_id_def
        ck_require_step_started_def ck_pop_free_def heappop_def py_defs dict_keys empty
        domIff [symmetric] domIff)
  ultimately show thesis using stored Cons t by blast
next
  case Nil
  let ?t = "s\<lparr>ck_deferred_d2h := AList.update g h (ck_deferred_d2h s),
                 ck_deferred_hashes := insert h (ck_deferred_hashes s)\<rparr>"
  have def': "AList.update g h (ck_deferred_d2h s) = ck_deferred_d2h s @ [(g, h)]"
    using src(2) by (rule dict_append)
  have "h \<notin> snd ` set (ck_deferred_d2h s)" using inv new(2) by (simp add: ck_inv_def)
  then have "deferrable (ck_deferred_d2h s @ [(g, h)]) (dom (map_of (ck_hash_to_slot s)))
      (dom (map_of (ck_step_d2h s))) [] {}"
    using inv src new p Nil
    by (intro deferrable_snoc) (simp_all add: ck_inv_def ck_deferrable_def domIff)
  then have "ck_inv ?t"
    using inv p Nil by (simp add: ck_inv_defs def')
  moreover have "ck_stage_store h g s = (Inr True, ?t)"
    using new src h g p Nil
    by (simp add: ck_stage_store_def ck_validate_hash_def ck_validate_block_id_def
        ck_require_step_started_def py_defs dict_keys domIff)
  ultimately show thesis using deferred Nil by blast
qed

subsection \<open>Physical contents\<close>

text \<open>
  \<open>ck_data s gpu cpu\<close>: the CPU cache holds under every ready or pending slot the content that the
  index names, and every GPU block with a store of this step holds the content to be stored.
\<close>

definition ck_data :: "cpu_kv \<Rightarrow> kv_mem \<Rightarrow> kv_mem \<Rightarrow> bool" where
  "ck_data s gpu cpu \<longleftrightarrow>
     (\<forall>x \<in> ck_ready_slots s \<union> ck_pending_ready_slots s. cpu x = map_of (ck_slot_to_hash s) x) \<and>
     (\<forall>g x. map_of (ck_step_d2h s) g = Some x \<longrightarrow> gpu g = map_of (ck_slot_to_hash s) x)"

definition ck_data_deferred :: "cpu_kv \<Rightarrow> kv_mem \<Rightarrow> bool" where
  "ck_data_deferred s gpu \<longleftrightarrow> (\<forall>(g, h) \<in> set (ck_deferred_d2h s). gpu g = Some h)"

lemma ck_committed_data:
  assumes core: "ck_core s" and c: "ck_committed h g x s t" and p: "ck_pending_ready_slots s = {}"
    and data: "ck_data s gpu cpu" and g: "gpu g = Some h"
  shows "ck_data t gpu cpu"
proof -
  have inj: "inj_map (map_of (ck_step_d2h t))"
  proof -
    have "ck_core t" using c by (simp add: ck_committed_def)
    then show ?thesis by (simp add: ck_core_def phase_ok_def)
  qed
  have "gpu k = map_of (ck_slot_to_hash t) y" if k: "map_of (ck_step_d2h t) k = Some y" for k y
  proof (cases "k = g")
    case True
    with k c g show ?thesis by (simp add: ck_committed_def)
  next
    case False
    have "map_of (ck_step_d2h t) g = Some x" using c by (simp add: ck_committed_def)
    with inj k False have "y \<noteq> x" unfolding inj_map_def by blast
    with False k c data show ?thesis by (simp add: ck_committed_def ck_data_def)
  qed
  moreover have "cpu y = map_of (ck_slot_to_hash t) y"
    if "y \<in> ck_ready_slots t \<union> ck_pending_ready_slots t" for y
    using that c data p by (simp add: ck_committed_def ck_data_def)
  ultimately show ?thesis unfolding ck_data_def by blast
qed

text \<open>What the end of a step leaves alone: the claims, the staged loads and the pinned slots.\<close>

definition ck_step_frame :: "cpu_kv \<Rightarrow> cpu_kv \<Rightarrow> bool" where
  "ck_step_frame s t \<longleftrightarrow> ck_step_h2d t = ck_step_h2d s \<and>
     ck_step_load_slots t = ck_step_load_slots s \<and>
     ck_pending_ready_slots t = ck_pending_ready_slots s \<and> ck_capacity t = ck_capacity s \<and>
     ck_step_slots_in_use s \<subseteq> ck_step_slots_in_use t \<and>
     (\<forall>x \<in> ck_step_slots_in_use s.
        map_of (ck_slot_to_hash t) x = map_of (ck_slot_to_hash s) x) \<and>
     (\<forall>x \<in> ck_step_slots_in_use s. x \<in> ck_ready_slots t \<longleftrightarrow> x \<in> ck_ready_slots s)"

lemma ck_step_frame_refl: "ck_step_frame s s"
  by (simp add: ck_step_frame_def)

lemma ck_step_frame_trans: "ck_step_frame s t \<Longrightarrow> ck_step_frame t u \<Longrightarrow> ck_step_frame s u"
  unfolding ck_step_frame_def by (metis subset_iff)

lemma ck_resolve_one_run:
  assumes core: "ck_core s" and d: "ck_deferrable ((g, h) # r) s"
  obtains t where "ck_resolve_one (g, h) s = (Inr (), t)" and "ck_core t" and "ck_deferrable r t"
    and "ck_step_frame s t"
    and "\<And>gpu cpu. ck_data s gpu cpu \<Longrightarrow> gpu g = Some h \<Longrightarrow> ck_data t gpu cpu"
proof -
  have free: "ck_free_slots s = []" and p: "ck_pending_ready_slots s = {}"
    and h: "map_of (ck_hash_to_slot s) h = None" and g: "map_of (ck_step_d2h s) g = None"
    using d by (simp_all add: ck_deferrable_def deferrable_def domIff)
  show thesis
  proof (cases "find (\<lambda>slot. slot \<notin> ck_step_slots_in_use s) (map fst (ck_lru s))")
    case None
    let ?t = "s\<lparr>ck_skipped_stores := ck_skipped_stores s + 1\<rparr>"
    show thesis
    proof (rule that)
      show "ck_resolve_one (g, h) s = (Inr (), ?t)"
        using free None by (simp add: ck_resolve_one_def ck_select_store_slot_def py_defs)
      show "ck_core ?t" using core by (simp add: ck_core_def ck_dicts_def)
      show "ck_deferrable r ?t" using d by (simp add: ck_deferrable_def deferrable_def wf_dict_def)
      show "ck_step_frame s ?t" by (simp add: ck_step_frame_def)
      show "ck_data s gpu cpu \<Longrightarrow> ck_data ?t gpu cpu" for gpu cpu by (simp add: ck_data_def)
    qed
  next
    case (Some x)
    then have used: "x \<notin> ck_step_slots_in_use s" and "x \<in> fst ` set (ck_lru s)"
      by (auto simp: find_Some_iff intro: nth_mem)
    then have "x \<in> dom (map_of (ck_slot_to_hash s))"
      using core by (simp add: ck_core_def ck_dicts_def dict_keys)
    then obtain old where old: "map_of (ck_slot_to_hash s) x = Some old" by blast
    obtain t where run: "ck_commit_store h g x s = (Inr (), t)" and t: "ck_committed h g x s t"
      by (rule ck_commit_evict [OF core old used h g p])
    have sub: "dom (map_of (ck_hash_to_slot t)) \<subseteq> insert h (dom (map_of (ck_hash_to_slot s)))"
      "dom (map_of (ck_step_d2h t)) = insert g (dom (map_of (ck_step_d2h s)))"
      using t old by (auto simp: ck_committed_def)
    show thesis
    proof (rule that)
      show "ck_resolve_one (g, h) s = (Inr (), t)"
        using free Some run by (simp add: ck_resolve_one_def ck_select_store_slot_def py_defs)
      show core_t: "ck_core t" using t by (simp add: ck_committed_def)
      show "ck_deferrable r t"
        using deferrable_tail [OF d [unfolded ck_deferrable_def] sub] t
        by (simp add: ck_committed_def ck_deferrable_def)
      have "phase_ok (dom (map_of (ck_slot_to_hash t))) (ck_ready_slots t) (ck_pending_ready_slots t)
       (ck_step_slots_in_use t) (ck_step_load_slots t) (map_of (ck_step_h2d t))
       (map_of (ck_step_d2h t))" using core_t by (simp add: ck_core_def)
      moreover have "phase_ok (dom (map_of (ck_slot_to_hash s))) (ck_ready_slots s)
        (ck_pending_ready_slots s) (ck_step_slots_in_use s) (ck_step_load_slots s)
        (map_of (ck_step_h2d s)) (map_of (ck_step_d2h s))" using core by (simp add: ck_core_def)
      moreover have "ran (map_of (ck_step_d2h t)) = insert x (ran (map_of (ck_step_d2h s)))"
        using t g by (simp add: ck_committed_def)
      ultimately have "ck_step_slots_in_use t = insert x (ck_step_slots_in_use s)"
        using t by (simp add: phase_ok_def ck_committed_def)
      then show "ck_step_frame s t"
        using t used by (auto simp: ck_step_frame_def ck_committed_def)
      show "ck_data s gpu cpu \<Longrightarrow> gpu g = Some h \<Longrightarrow> ck_data t gpu cpu" for gpu cpu
        by (rule ck_committed_data [OF core t p])
    qed
  qed
qed

lemma ck_resolve_list_run:
  assumes "ck_core s" and "ck_deferrable d s"
  shows "\<exists>t. for_each d ck_resolve_one s = (Inr (), t) \<and> ck_core t \<and> ck_step_frame s t \<and>
    (\<forall>gpu cpu. ck_data s gpu cpu \<and> (\<forall>(g, h) \<in> set d. gpu g = Some h) \<longrightarrow> ck_data t gpu cpu)"
  using assms
proof (induction d arbitrary: s)
  case Nil
  then show ?case by (simp add: return_def ck_step_frame_refl)
next
  case (Cons gh d)
  obtain g h where gh: "gh = (g, h)" by (cases gh)
  obtain t where t: "ck_resolve_one (g, h) s = (Inr (), t)" "ck_core t" "ck_deferrable d t"
      "ck_step_frame s t"
      "\<And>gpu cpu. ck_data s gpu cpu \<Longrightarrow> gpu g = Some h \<Longrightarrow> ck_data t gpu cpu"
    using ck_resolve_one_run [OF Cons.prems(1)] Cons.prems(2) gh by metis
  obtain u where "for_each d ck_resolve_one t = (Inr (), u)" "ck_core u" "ck_step_frame t u"
      "\<forall>gpu cpu. ck_data t gpu cpu \<and> (\<forall>(g, h) \<in> set d. gpu g = Some h) \<longrightarrow> ck_data u gpu cpu"
    using Cons.IH [OF t(2,3)] by blast
  with t gh show ?case
    by (intro exI [of _ u]) (auto simp: bind_def andthen_def intro: ck_step_frame_trans)
qed

lemma ck_resolve_run:
  assumes inv: "ck_inv s"
  obtains t where "ck_resolve_deferred_stores s = (Inr (), t)" and "ck_inv t"
    and "ck_step_frame s t" and "ck_deferred_d2h t = []" and "ck_deferred_hashes t = {}"
    and "\<forall>gpu cpu. ck_data s gpu cpu \<longrightarrow> ck_data_deferred s gpu \<longrightarrow> ck_data t gpu cpu"
proof -
  have core: "ck_core s" and d: "ck_deferrable (ck_deferred_d2h s) s"
    using inv by (simp_all add: ck_inv_def)
  let ?clear = "\<lambda>u. u\<lparr>ck_deferred_d2h := [], ck_deferred_hashes := {}\<rparr>"
  have clear: "ck_inv (?clear u)" if "ck_core u" for u
    using that by (simp add: ck_inv_defs deferrable_def)
  show thesis
  proof (cases "ck_step_load_slots s = {}")
    case True
    obtain u where u: "for_each (ck_deferred_d2h s) ck_resolve_one s = (Inr (), u)" "ck_core u"
        "ck_step_frame s u" "\<forall>gpu cpu. ck_data s gpu cpu \<and>
          (\<forall>(g, h) \<in> set (ck_deferred_d2h s). gpu g = Some h) \<longrightarrow> ck_data u gpu cpu"
      using ck_resolve_list_run [OF core d] by blast
    show thesis
    proof (rule that [of "?clear u"])
      show "ck_resolve_deferred_stores s = (Inr (), ?clear u)"
        using u(1) True by (simp add: ck_resolve_deferred_stores_def py_defs)
      show "ck_inv (?clear u)" using clear u(2) .
      show "ck_step_frame s (?clear u)" using u(3) by (simp add: ck_step_frame_def)
      have "ck_data (?clear u) gpu cpu = ck_data u gpu cpu" for gpu cpu by (simp add: ck_data_def)
      then show "\<forall>gpu cpu. ck_data s gpu cpu \<longrightarrow> ck_data_deferred s gpu \<longrightarrow>
          ck_data (?clear u) gpu cpu"
        using u(4) by (simp add: ck_data_deferred_def)
    qed simp_all
  next
    case False
    let ?u = "s\<lparr>ck_skipped_stores := ck_skipped_stores s + int (length (ck_deferred_d2h s))\<rparr>"
    show thesis
    proof (rule that [of "?clear ?u"])
      show "ck_resolve_deferred_stores s = (Inr (), ?clear ?u)"
        using False by (simp add: ck_resolve_deferred_stores_def py_defs)
      show "ck_inv (?clear ?u)" using core by (intro clear) (simp add: ck_core_def ck_dicts_def)
      show "ck_step_frame s (?clear ?u)" by (simp add: ck_step_frame_def)
      show "\<forall>gpu cpu. ck_data s gpu cpu \<longrightarrow> ck_data_deferred s gpu \<longrightarrow>
          ck_data (?clear ?u) gpu cpu"
        by (simp add: ck_data_def)
    qed simp_all
  qed
qed

abbreviation ck_end_step :: "cpu_kv \<Rightarrow> cpu_kv" where
  "ck_end_step t \<equiv> t\<lparr>ck_pending_ready_slots :=
      ck_pending_ready_slots t \<union> snd ` set (ck_step_d2h t),
    ck_step_h2d := [], ck_step_d2h := [], ck_step_slots_in_use := {}, ck_step_load_slots := {}\<rparr>"

text \<open>\<open>drain_step\<close> fails exactly when a claimed slot has no staged load.\<close>

lemma ck_drain_run:
  assumes inv: "ck_inv s"
  obtains t where "ck_inv t" and "ck_step_frame s t" and "ck_deferred_d2h t = []"
    and "\<forall>gpu cpu. ck_data s gpu cpu \<longrightarrow> ck_data_deferred s gpu \<longrightarrow> ck_data t gpu cpu"
    and "ck_drain_step s =
      (if dom (map_of (ck_step_h2d s)) = ck_step_load_slots s
       then (Inr (sort (ck_step_h2d t), sort (ck_step_d2h t)), ck_end_step t)
       else (Inl RuntimeError, t))"
    and "ck_inv (ck_end_step t)"
proof -
  obtain t where run: "ck_resolve_deferred_stores s = (Inr (), t)" and t: "ck_inv t"
      and frame: "ck_step_frame s t" and def: "ck_deferred_d2h t = []" "ck_deferred_hashes t = {}"
      and data: "\<forall>gpu cpu. ck_data s gpu cpu \<longrightarrow> ck_data_deferred s gpu \<longrightarrow> ck_data t gpu cpu"
    by (rule ck_resolve_run [OF inv])
  have ph: "phase_ok (dom (map_of (ck_slot_to_hash t))) (ck_ready_slots t) (ck_pending_ready_slots t)
       (ck_step_slots_in_use t) (ck_step_load_slots t) (map_of (ck_step_h2d t))
       (map_of (ck_step_d2h t))" using t by (simp add: ck_inv_def ck_core_def)
  have vals: "snd ` set (ck_step_d2h t) = ran (map_of (ck_step_d2h t))"
    using t by (intro dict_vals) (simp add: ck_inv_defs)
  have same: "ck_step_h2d t = ck_step_h2d s" "ck_step_load_slots t = ck_step_load_slots s"
    using frame by (simp_all add: ck_step_frame_def)
  let ?m = "dom (map_of (ck_step_h2d t))" and ?n = "ran (map_of (ck_step_d2h t))"
  have covers: "?m \<union> ?n = ck_step_slots_in_use t \<longleftrightarrow> ?m = ck_step_load_slots t"
    and disj: "?m \<inter> ?n = {}"
    using ph unfolding phase_ok_def by blast+
  have "ck_drain_step s =
      (if ?m = ck_step_load_slots t
       then (Inr (sort (ck_step_h2d t), sort (ck_step_d2h t)), ck_end_step t)
       else (Inl RuntimeError, t))"
    using covers disj run
    by (cases "?m = ck_step_load_slots t") (simp_all add: ck_drain_step_def py_defs vals dict_keys)
  moreover have "ck_inv (ck_end_step t)"
    using t phase_drain [OF ph] def by (simp add: ck_inv_defs vals deferrable_def)
  ultimately show thesis using that [OF t frame def(1) data] unfolding same by blast
qed

lemma ck_drain_inv: "ck_inv s \<Longrightarrow> wp ck_drain_step (\<lambda>_. ck_inv) (\<lambda>_. ck_inv) s"
  by (rule ck_drain_run [of s]) (simp_all add: wp_def)

lemma ck_stage_store_inv:
  assumes inv: "ck_inv s"
  shows "wp (ck_stage_store h g) (\<lambda>_. ck_inv) (\<lambda>_. ck_inv) s"
proof (cases "is_digest h \<and> 0 \<le> g \<and> ck_pending_ready_slots s = {} \<and>
    map_of (ck_hash_to_slot s) h = None \<and> h \<notin> ck_deferred_hashes s \<and>
    map_of (ck_step_d2h s) g = None \<and> g \<notin> fst ` set (ck_deferred_d2h s)")
  case True
  then have "\<exists>t. ck_stage_store h g s = (Inr True, t) \<and> ck_inv t"
    by (elim conjE) (rule ck_stage_store_run [OF inv, of h g]; (assumption | blast))
  then show ?thesis by (auto simp: wp_def)
next
  case False
  have dedup: "ck_inv (s\<lparr>ck_lru := move_to_end x () (ck_lru s), ck_deduplicated_stores := n\<rparr>)"
    if "map_of (ck_hash_to_slot s) h = Some x" for x n
  proof -
    have "map_of (ck_slot_to_hash s) x = Some h"
      using inv that inverse_mapsD [of "map_of (ck_hash_to_slot s)" "map_of (ck_slot_to_hash s)" h x]
      by (simp add: ck_inv_def ck_core_def index_ok_def)
    then have "insert x (dom (map_of (ck_slot_to_hash s))) = dom (map_of (ck_slot_to_hash s))" by blast
    with inv show ?thesis by (simp add: ck_inv_defs)
  qed
  have dedup': "ck_inv (s\<lparr>ck_deduplicated_stores := n\<rparr>)" for n
    using inv by (simp add: ck_inv_defs)
  show ?thesis
  proof (cases "is_digest h \<and> 0 \<le> g \<and> ck_pending_ready_slots s = {} \<and>
      (h \<in> fst ` set (ck_hash_to_slot s) \<or> h \<in> ck_deferred_hashes s)")
    case True
    with inv dedup dedup' show ?thesis
      by (simp add: ck_stage_store_def ck_validate_hash_def ck_validate_block_id_def
          ck_require_step_started_def ck_touch_def wp_simps split: option.splits)
  next
    case False': False
    then have "wp (ck_stage_store h g) (\<lambda>_. ck_inv) (\<lambda>_ t. t = s) s"
      using False by (auto simp: ck_stage_store_def ck_validate_hash_def ck_validate_block_id_def
          ck_require_step_started_def wp_guard wp_andthen wp_bind wp_gets dict_keys domIff)
    then show ?thesis by (rule wp_mono) (simp_all add: inv)
  qed
qed

section \<open>Histories of calls\<close>

datatype ck_call = CkBegin | CkClaim content_hash | CkCancel content_hash int
  | CkStageLoad content_hash int int | CkStageStore content_hash int | CkDrain

fun ck_step :: "ck_call \<Rightarrow> cpu_kv \<Rightarrow> cpu_kv" where
  "ck_step CkBegin s = snd (ck_begin_step s)"
| "ck_step (CkClaim h) s = snd (ck_claim_load h s)"
| "ck_step (CkCancel h x) s = snd (ck_cancel_load h x s)"
| "ck_step (CkStageLoad h x g) s = snd (ck_stage_load h x g s)"
| "ck_step (CkStageStore h g) s = snd (ck_stage_store h g s)"
| "ck_step CkDrain s = snd (ck_drain_step s)"

text \<open>A client cancels only what it has claimed; every other call is unrestricted.\<close>

fun ck_client_ok :: "ck_call list \<Rightarrow> cpu_kv \<Rightarrow> bool" where
  "ck_client_ok [] s = True"
| "ck_client_ok (c # cs) s =
     ((case c of CkCancel h x \<Rightarrow> x \<in> ck_step_load_slots s | _ \<Rightarrow> True) \<and> ck_client_ok cs (ck_step c s))"

lemma ck_history_inv: "ck_inv s \<Longrightarrow> ck_client_ok cs s \<Longrightarrow> ck_inv (fold ck_step cs s)"
proof (induction cs arbitrary: s)
  case (Cons c cs)
  have "ck_inv (ck_step c s)"
    using Cons.prems
    by (cases c) (simp_all add: wp_state ck_begin_inv ck_claim_inv ck_cancel_inv ck_stage_load_inv
        ck_stage_store_inv ck_drain_inv)
  with Cons show ?case by simp
qed simp

section \<open>Moving the data of a step\<close>

lemma swap_blocks_other: "x \<notin> snd ` set l \<Longrightarrow> swap_blocks src l dst x = dst x"
  by (induction l arbitrary: dst) (auto simp: swap_blocks_def)

lemma swap_blocks_in:
  "(i, x) \<in> set l \<Longrightarrow> inj_on snd (set l) \<Longrightarrow> swap_blocks src l dst x = src i"
proof (induction l arbitrary: dst)
  case (Cons ij l)
  have upd: "swap_blocks src (ij # l) dst = swap_blocks src l (dst(snd ij := src (fst ij)))"
    by (simp add: swap_blocks_def split_beta)
  show ?case
  proof (cases "(i, x) \<in> set l")
    case True
    with Cons show ?thesis by (simp add: upd inj_on_def)
  next
    case False
    then have ij: "ij = (i, x)" using Cons.prems(1) by simp
    have "x \<notin> snd ` set l" using Cons.prems(2) False ij by (auto simp: inj_on_def)
    with swap_blocks_other [of x l src "dst(x := src i)"] upd ij show ?thesis by simp
  qed
qed simp

lemma inj_map_vals: "wf_dict d \<Longrightarrow> inj_map (map_of d) \<Longrightarrow> inj_on snd (set d)"
  unfolding inj_on_def inj_map_def by (metis wf_dict_map_of prod.collapse)

lemma ck_transfer:
  assumes inv: "ck_inv t" and data: "ck_data t gpu cpu"
    and staged: "dom (map_of (ck_step_h2d t)) = ck_step_load_slots t"
  defines "mem \<equiv> worker_transfer (sort (ck_step_h2d t)) (sort (ck_step_d2h t)) (gpu, cpu)"
  shows "ck_data (ck_end_step t) (fst mem) (snd mem)"
    and "(c, g) \<in> set (ck_step_h2d t) \<Longrightarrow> fst mem g = map_of (ck_slot_to_hash t) c \<and> c \<in> ck_ready_slots t"
proof -
  have wf: "wf_dict (ck_step_h2d t)" "wf_dict (ck_step_d2h t)"
    and ph: "phase_ok (dom (map_of (ck_slot_to_hash t))) (ck_ready_slots t) (ck_pending_ready_slots t)
       (ck_step_slots_in_use t) (ck_step_load_slots t) (map_of (ck_step_h2d t))
       (map_of (ck_step_d2h t))" using inv by (simp_all add: ck_inv_defs)
  have inj: "inj_on snd (set (ck_step_h2d t))" "inj_on snd (set (ck_step_d2h t))"
    using ph wf by (simp_all add: phase_ok_def inj_map_vals)
  define cpu' where "cpu' = swap_blocks gpu (sort (ck_step_d2h t)) cpu"
  have mem: "mem = (swap_blocks cpu' (sort (ck_step_h2d t)) gpu, cpu')"
    by (simp add: mem_def worker_transfer_def cpu'_def Let_def)
  have old: "cpu' x = map_of (ck_slot_to_hash t) x"
    if "x \<in> ck_ready_slots t \<union> ck_pending_ready_slots t" for x
  proof -
    have "x \<notin> ran (map_of (ck_step_d2h t))" using that ph unfolding phase_ok_def by blast
    then have "cpu' x = cpu x"
      by (simp add: cpu'_def swap_blocks_other dict_vals [OF wf(2)])
    with that data show ?thesis by (simp add: ck_data_def)
  qed
  have new: "cpu' x = map_of (ck_slot_to_hash t) x" if "x \<in> snd ` set (ck_step_d2h t)" for x
  proof -
    obtain g where g: "(g, x) \<in> set (ck_step_d2h t)" using \<open>x \<in> snd ` set _\<close> by auto
    then have "cpu' x = gpu g"
      unfolding cpu'_def by (intro swap_blocks_in) (simp_all add: inj)
    with g data show ?thesis by (simp add: ck_data_def wf_dict_map_of [OF wf(2)])
  qed
  show "ck_data (ck_end_step t) (fst mem) (snd mem)"
    using old new by (auto simp: ck_data_def mem)
  show "fst mem g = map_of (ck_slot_to_hash t) c \<and> c \<in> ck_ready_slots t"
    if m: "(c, g) \<in> set (ck_step_h2d t)"
  proof -
    have "c \<in> dom (map_of (ck_step_h2d t))" using m wf by (auto simp: wf_dict_map_of)
    then have "c \<in> ck_ready_slots t" using ph unfolding phase_ok_def by blast
    moreover have "fst mem g = cpu' c"
      unfolding mem fst_conv by (rule swap_blocks_in) (simp_all add: m inj)
    ultimately show ?thesis using old by simp
  qed
qed

section \<open>A pinned slot that is lost\<close>

text \<open>
  A step whose store destination \<open>x\<close> has lost its mark runs like the original step, as long as \<open>x\<close> is not taken
  for a deferred store; when it is, the commit refuses the second store to one slot.
\<close>

definition ck_unpin :: "int \<Rightarrow> cpu_kv \<Rightarrow> cpu_kv" where
  "ck_unpin x s = s\<lparr>ck_step_slots_in_use := ck_step_slots_in_use s - {x}\<rparr>"

lemma find_narrower:
  "find P xs = Some y \<Longrightarrow> Q y \<Longrightarrow> (\<And>z. Q z \<Longrightarrow> P z) \<Longrightarrow> find Q xs = Some y"
  by (induction xs) (auto split: if_splits)

lemma ck_store_slot_inv:
  assumes "ck_core s" and "x \<in> ck_step_slots_in_use s" and "x \<notin> ck_step_load_slots s"
  shows "x \<in> snd ` set (ck_step_d2h s)" and "\<exists>old. map_of (ck_slot_to_hash s) x = Some old \<and>
    map_of (ck_hash_to_slot s) old = Some x" and "x \<notin> fst ` set (ck_step_h2d s)"
proof -
  have ph: "phase_ok (dom (map_of (ck_slot_to_hash s))) (ck_ready_slots s) (ck_pending_ready_slots s)
       (ck_step_slots_in_use s) (ck_step_load_slots s) (map_of (ck_step_h2d s))
       (map_of (ck_step_d2h s))"
    and wf: "wf_dict (ck_step_d2h s)"
    and ix: "inverse_maps (map_of (ck_hash_to_slot s)) (map_of (ck_slot_to_hash s))"
    using assms(1) by (simp_all add: ck_core_def ck_dicts_def index_ok_def)
  have ran: "x \<in> ran (map_of (ck_step_d2h s))" using ph assms(2,3) unfolding phase_ok_def by blast
  then show "x \<in> snd ` set (ck_step_d2h s)" by (simp add: dict_vals [OF wf])
  show "x \<notin> fst ` set (ck_step_h2d s)" using ph assms(3) unfolding phase_ok_def dict_keys by blast
  have "x \<in> dom (map_of (ck_slot_to_hash s))" using ph ran unfolding phase_ok_def by blast
  then obtain old where "map_of (ck_slot_to_hash s) x = Some old" by blast
  with inverse_mapsD [OF ix] show "\<exists>old. map_of (ck_slot_to_hash s) x = Some old \<and>
    map_of (ck_hash_to_slot s) old = Some x" by blast
qed

lemma ck_resolve_one_unpinned:
  assumes core: "ck_core s" and d: "ck_deferrable ((g, h) # r) s"
    and x: "x \<in> ck_step_slots_in_use s" "x \<notin> ck_step_load_slots s"
  shows "fst (ck_resolve_one (g, h) (ck_unpin x s)) = Inl RuntimeError \<or>
    (\<exists>t. ck_resolve_one (g, h) s = (Inr (), t) \<and>
      ck_resolve_one (g, h) (ck_unpin x s) = (Inr (), ck_unpin x t))"
proof -
  have free: "ck_free_slots s = []" using d by (simp add: ck_deferrable_def deferrable_def)
  note x' = ck_store_slot_inv [OF core x]
  let ?pick = "find (\<lambda>slot. slot \<notin> ck_step_slots_in_use (ck_unpin x s)) (map fst (ck_lru s))"
  show ?thesis
  proof (cases ?pick)
    case None
    then have "find (\<lambda>slot. slot \<notin> ck_step_slots_in_use s) (map fst (ck_lru s)) = None"
      by (auto simp: find_None_iff ck_unpin_def)
    with None free show ?thesis
      by (simp add: ck_resolve_one_def ck_select_store_slot_def py_defs ck_unpin_def)
  next
    case (Some y)
    then have pick: "y \<notin> ck_step_slots_in_use (ck_unpin x s)" by (auto simp: find_Some_iff)
    have run: "ck_resolve_one (g, h) (ck_unpin x s) = ck_commit_store h g y (ck_unpin x s)"
      using Some free by (simp add: ck_resolve_one_def ck_select_store_slot_def py_defs ck_unpin_def)
    show ?thesis
    proof (cases "y = x")
      case True
      obtain old where "map_of (ck_slot_to_hash s) x = Some old" "map_of (ck_hash_to_slot s) old = Some x"
        using x'(2) by blast
      with True x'(1,3) have "fst (ck_commit_store h g y (ck_unpin x s)) = Inl RuntimeError"
        by (simp add: ck_commit_store_def ck_unpin_def py_defs)
      with run show ?thesis by simp
    next
      case False
      then have used: "y \<notin> ck_step_slots_in_use s" using pick by (simp add: ck_unpin_def)
      have some: "find (\<lambda>slot. slot \<notin> ck_step_slots_in_use s) (map fst (ck_lru s)) = Some y"
        using find_narrower [OF Some, where Q = "\<lambda>slot. slot \<notin> ck_step_slots_in_use s"] used by (simp add: ck_unpin_def)
      then have "ck_resolve_one (g, h) s = ck_commit_store h g y s"
        using free by (simp add: ck_resolve_one_def ck_select_store_slot_def py_defs)
      moreover obtain t where "ck_resolve_one (g, h) s = (Inr (), t)"
        by (rule ck_resolve_one_run [OF core d])
      ultimately have ok: "ck_commit_store h g y s = (Inr (), t)"
        and one: "ck_resolve_one (g, h) s = (Inr (), t)" by simp_all
      have "ck_commit_store h g y (ck_unpin x s) = (Inr (), ck_unpin x t)"
        using ok False used
        by (cases "map_of (ck_slot_to_hash s) y")
          (auto simp: ck_commit_store_def ck_touch_def py_defs ck_unpin_def insert_Diff_if
            intro!: cpu_kv.equality split: if_splits)
      with run one show ?thesis by simp
    qed
  qed
qed

lemma ck_resolve_list_unpinned:
  assumes "ck_core s" and "ck_deferrable d s"
    and "x \<in> ck_step_slots_in_use s" and "x \<notin> ck_step_load_slots s"
  shows "fst (for_each d ck_resolve_one (ck_unpin x s)) = Inl RuntimeError \<or>
    (\<exists>t. for_each d ck_resolve_one (ck_unpin x s) = (Inr (), ck_unpin x t) \<and> ck_core t \<and>
      x \<in> ck_step_slots_in_use t \<and> x \<notin> ck_step_load_slots t)"
  using assms
proof (induction d arbitrary: s)
  case Nil
  then show ?case by (auto simp: return_def)
next
  case (Cons gh d)
  obtain g h where gh: "gh = (g, h)" by (cases gh)
  obtain t where t: "ck_resolve_one (g, h) s = (Inr (), t)" "ck_core t" "ck_deferrable d t"
      "ck_step_frame s t"
    using ck_resolve_one_run [OF Cons.prems(1)] Cons.prems(2) gh by metis
  then have x: "x \<in> ck_step_slots_in_use t" "x \<notin> ck_step_load_slots t"
    using Cons.prems(3,4) by (auto simp: ck_step_frame_def)
  from ck_resolve_one_unpinned [OF Cons.prems(1) _ Cons.prems(3,4), of g h d] Cons.prems(2) gh
  consider "fst (ck_resolve_one (g, h) (ck_unpin x s)) = Inl RuntimeError"
    | "ck_resolve_one (g, h) (ck_unpin x s) = (Inr (), ck_unpin x t)"
    using t(1) by auto
  then show ?case
  proof cases
    case 1
    then show ?thesis using gh
      by (cases "ck_resolve_one (g, h) (ck_unpin x s)") (simp add: andthen_def bind_def)
  next
    case 2
    then show ?thesis using Cons.IH [OF t(2,3) x] gh by (simp add: andthen_def bind_def)
  qed
qed

lemma ck_drain_unpinned:
  assumes inv: "ck_inv s" and x: "x \<in> ck_step_slots_in_use s" "x \<notin> ck_step_load_slots s"
  shows "fst (ck_drain_step (ck_unpin x s)) = Inl RuntimeError"
proof -
  have core: "ck_core s" and d: "ck_deferrable (ck_deferred_d2h s) s"
    using inv by (simp_all add: ck_inv_def)
  have guard: "fst ` set (ck_step_h2d t) \<union> snd ` set (ck_step_d2h t) \<noteq> ck_step_slots_in_use t - {x}"
    if "ck_core t" "x \<in> ck_step_slots_in_use t" "x \<notin> ck_step_load_slots t" for t
    using ck_store_slot_inv(1) [OF that] by blast
  show ?thesis
  proof (cases "ck_step_load_slots s = {}")
    case True
    from ck_resolve_list_unpinned [OF core d x] guard show ?thesis
    proof (elim disjE exE conjE)
      assume "fst (for_each (ck_deferred_d2h s) ck_resolve_one (ck_unpin x s)) = Inl RuntimeError"
      with True show ?thesis
        by (cases "for_each (ck_deferred_d2h s) ck_resolve_one (ck_unpin x s)")
          (simp add: ck_drain_step_def ck_resolve_deferred_stores_def py_defs ck_unpin_def)
    next
      fix t
      assume t: "for_each (ck_deferred_d2h s) ck_resolve_one (ck_unpin x s) = (Inr (), ck_unpin x t)"
        "ck_core t" "x \<in> ck_step_slots_in_use t" "x \<notin> ck_step_load_slots t"
      with guard [OF t(2-4)] True show ?thesis
        by (simp add: ck_drain_step_def ck_resolve_deferred_stores_def py_defs ck_unpin_def)
    qed
  next
    case False
    with guard [OF core x] show ?thesis
      by (simp add: ck_drain_step_def ck_resolve_deferred_stores_def py_defs ck_unpin_def)
  qed
qed

section \<open>Properties\<close>

text \<open>
  C8: every history of calls in which claims are only cancelled by their owner keeps the index
  consistent, exceptions included: hash and slot dicts are inverse, free and used slots partition
  the capacity, a used slot is exactly one of ready, pending and being stored to, no slot in use is
  replaced, and no slot is source and destination of one step.
\<close>

theorem cpu_cache_history_inv:
  assumes "ck_init capacity = Inr s" and "ck_client_ok cs s"
  shows "ck_inv (fold ck_step cs s)"
  using assms by (simp add: ck_history_inv ck_inv_init)

definition example_cache :: cpu_kv where
  "example_cache = (case ck_init 3 of Inr s \<Rightarrow> s)"

definition example_calls :: "ck_call list" where
  "example_calls = [CkStageStore (replicate 32 1) 7, CkStageStore (replicate 32 2) 8, CkDrain, CkBegin,
     CkClaim (replicate 32 1), CkCancel (replicate 32 1) 0, CkClaim (replicate 32 2),
     CkStageLoad (replicate 32 2) 1 5, CkStageStore (replicate 32 3) 5]"

lemma example_cache_init: "ck_init 3 = Inr example_cache"
  by (simp add: example_cache_def ck_init_def)

lemma example_calls_ok: "ck_client_ok example_calls example_cache"
  by code_simp

lemma cpu_cache_history_inv_witness:
  "ck_inv (fold ck_step example_calls example_cache)"
  by (rule cpu_cache_history_inv [OF example_cache_init example_calls_ok])

text \<open>
  C9: the maps that \<open>drain_step\<close> returns, executed by the patched worker (every D2H copy before any
  H2D copy), move the right contents. If the CPU cache held what the index says and the GPU blocks
  held the contents staged for storing, then afterwards it holds what the index says for the ready
  slots and for the slots that the next step publishes, and every GPU destination of a load holds
  the content of its ready source slot, also when that GPU block was itself saved in the same step.
\<close>

theorem cpu_cache_step_moves_contents:
  assumes "ck_inv s" and "ck_data s gpu cpu" and "ck_data_deferred s gpu"
    and "ck_drain_step s = (Inr (swap_in, swap_out), t)"
    and "worker_transfer swap_in swap_out (gpu, cpu) = (gpu', cpu')"
  shows "ck_inv t \<and> ck_data t gpu' cpu' \<and> ck_deferred_d2h t = [] \<and>
    (\<forall>(c, g) \<in> set swap_in. c \<in> ck_ready_slots t \<and> gpu' g = map_of (ck_slot_to_hash t) c)"
proof (rule ck_drain_run [OF assms(1)])
  fix u
  assume u: "ck_inv u" "ck_step_frame s u" "ck_deferred_d2h u = []"
      "\<forall>gpu cpu. ck_data s gpu cpu \<longrightarrow> ck_data_deferred s gpu \<longrightarrow> ck_data u gpu cpu"
    and run: "ck_drain_step s =
      (if dom (map_of (ck_step_h2d s)) = ck_step_load_slots s
       then (Inr (sort (ck_step_h2d u), sort (ck_step_d2h u)), ck_end_step u)
       else (Inl RuntimeError, u))"
    and inv: "ck_inv (ck_end_step u)"
  have staged: "dom (map_of (ck_step_h2d u)) = ck_step_load_slots u"
    and t: "t = ck_end_step u" "swap_in = sort (ck_step_h2d u)" "swap_out = sort (ck_step_d2h u)"
    using run assms(4) u(2) by (simp_all add: ck_step_frame_def split: if_splits)
  have data: "ck_data u gpu cpu" using u(4) assms(2,3) by blast
  note mem = ck_transfer [OF u(1) data staged, folded t(2,3), unfolded assms(5) fst_conv snd_conv]
  show ?thesis using mem inv u(3) by (auto simp: t)
qed

definition example_step :: cpu_kv where
  "example_step = fold ck_step example_calls example_cache"

text \<open>In the example step, GPU block 5 is saved to slot 2 and then refilled from slot 1.\<close>

lemma example_step_fields:
  "ck_ready_slots example_step = {0, 1}" "ck_pending_ready_slots example_step = {}"
  "ck_slot_to_hash example_step = [(0, replicate 32 1), (1, replicate 32 2), (2, replicate 32 3)]"
  "ck_step_d2h example_step = [(5, 2)]" "ck_deferred_d2h example_step = []"
  "fst (ck_drain_step example_step) = Inr ([(1, 5)], [(5, 2)])"
  by code_simp+

definition example_gpu :: kv_mem where
  "example_gpu = [5 \<mapsto> replicate 32 3]"

definition example_cpu :: kv_mem where
  "example_cpu = [0 \<mapsto> replicate 32 1, 1 \<mapsto> replicate 32 2]"

lemma example_step_data:
  "ck_inv example_step" "ck_data example_step example_gpu example_cpu"
  "ck_data_deferred example_step example_gpu"
  using ck_history_inv [OF ck_inv_init [OF example_cache_init] example_calls_ok]
  by (simp_all add: example_step_def [symmetric] ck_data_def ck_data_deferred_def
      example_step_fields example_gpu_def example_cpu_def)

lemma cpu_cache_step_moves_contents_witness:
  "\<exists>t gpu' cpu'. ck_drain_step example_step = (Inr ([(1, 5)], [(5, 2)]), t) \<and>
     worker_transfer [(1, 5)] [(5, 2)] (example_gpu, example_cpu) = (gpu', cpu') \<and>
     ck_inv t \<and> ck_data t gpu' cpu' \<and> ck_deferred_d2h t = [] \<and>
     (\<forall>(c, g) \<in> set [(1, 5)]. c \<in> ck_ready_slots t \<and> gpu' g = map_of (ck_slot_to_hash t) c)"
proof -
  obtain t where t: "ck_drain_step example_step = (Inr ([(1, 5)], [(5, 2)]), t)"
    using example_step_fields(6) by (cases "ck_drain_step example_step") simp
  obtain gpu' cpu' where m: "worker_transfer [(1, 5)] [(5, 2)] (example_gpu, example_cpu) = (gpu', cpu')"
    by (cases "worker_transfer [(1, 5)] [(5, 2)] (example_gpu, example_cpu)")
  show ?thesis
    using cpu_cache_step_moves_contents [OF example_step_data t m] t m by blast
qed

text \<open>
  With the worker order before the patch (every H2D copy before any D2H copy) the same step
  corrupts the cache: slot 2, which the index publishes for the saved content, receives the content
  that was just loaded over it.
\<close>

theorem unpatched_worker_order_corrupts:
  "let (gpu', cpu') = worker_transfer_unpatched [(1, 5)] [(5, 2)] (example_gpu, example_cpu);
       t = snd (ck_drain_step example_step)
   in cpu' 2 = Some (replicate 32 2) \<and> map_of (ck_slot_to_hash t) 2 = Some (replicate 32 3) \<and>
      2 \<in> ck_pending_ready_slots t"
  by code_simp

text \<open>
  C10: a content stored while a slot is free can be loaded from the next step on: after the step is
  drained and the next one begun, \<open>is_ready\<close> holds and \<open>claim_load\<close> returns its slot.
\<close>

theorem stored_content_is_claimable:
  assumes "ck_inv s" and "ck_free_slots s \<noteq> []" and "ck_stage_store h g s = (Inr True, t)"
    and "ck_drain_step t = (Inr maps, u)" and "ck_begin_step u = (Inr (), v)"
  shows "fst (ck_is_ready h v) = Inr True \<and>
    (\<exists>x w. ck_claim_load h v = (Inr (Some x), w) \<and> map_of (ck_slot_to_hash w) x = Some h)"
proof -
  have pre: "is_digest h" "0 \<le> g" "ck_pending_ready_slots s = {}"
      "map_of (ck_hash_to_slot s) h = None" "h \<notin> ck_deferred_hashes s"
      "map_of (ck_step_d2h s) g = None" "g \<notin> fst ` set (ck_deferred_d2h s)"
    using assms(3)
    by (auto simp: ck_stage_store_def ck_validate_hash_def ck_validate_block_id_def
        ck_require_step_started_def ck_touch_def py_defs dict_keys split: if_splits option.splits)
  obtain x F where t: "ck_inv t" "ck_committed h g x (s\<lparr>ck_free_slots := F\<rparr>) t"
    using ck_stage_store_run [OF assms(1) pre] assms(2,3) by (metis Pair_inject)
  then have x: "map_of (ck_slot_to_hash t) x = Some h" "map_of (ck_step_d2h t) g = Some x"
    by (simp_all add: ck_committed_def)
  obtain t' where t': "ck_inv t'" "ck_step_frame t t'" and u: "u = ck_end_step t'" "ck_inv u"
    using ck_drain_run [OF t(1)] assms(4) by (metis Pair_inject sum.distinct(1))
  have "x \<in> ck_step_slots_in_use t"
    using t(1) x(2) ranI [of "map_of (ck_step_d2h t)" g x]
    by (simp add: ck_inv_def ck_core_def phase_ok_def)
  with t' x(1) have x': "map_of (ck_slot_to_hash t') x = Some h"
    and "x \<in> ck_step_slots_in_use t'" "x \<in> ck_ready_slots t' \<longleftrightarrow> x \<in> ck_ready_slots t"
    by (auto simp: ck_step_frame_def)
  moreover have "x \<in> ck_ready_slots t' \<union> ck_pending_ready_slots t' \<union> ran (map_of (ck_step_d2h t'))"
    using t'(1) x' by (auto simp: ck_inv_def ck_core_def phase_ok_def)
  moreover have "snd ` set (ck_step_d2h t') = ran (map_of (ck_step_d2h t'))"
    using t'(1) by (intro dict_vals) (simp add: ck_inv_defs)
  ultimately have ready: "x \<in> ck_ready_slots v" "ck_pending_ready_slots v = {}"
      "ck_step_slots_in_use v = {}" "map_of (ck_slot_to_hash v) x = Some h"
      "ck_hash_to_slot v = ck_hash_to_slot u"
    using assms(5) u by (auto simp: ck_begin_step_def py_defs split: if_splits)
  moreover have "map_of (ck_hash_to_slot u) h = Some x"
    using u x' inverse_mapsD [of "map_of (ck_hash_to_slot u)" "map_of (ck_slot_to_hash u)" h x]
    by (simp add: ck_inv_def ck_core_def index_ok_def)
  ultimately show ?thesis
    using pre(1)
    by (simp add: ck_is_ready_def ck_claim_load_def ck_validate_hash_def ck_require_step_started_def
        ck_touch_def py_defs)
qed

lemma stored_content_is_claimable_witness:
  "let t = snd (ck_stage_store (replicate 32 9) 4 example_cache); u = snd (ck_drain_step t);
       v = snd (ck_begin_step u)
   in fst (ck_is_ready (replicate 32 9) v) = Inr True \<and>
     (\<exists>x w. ck_claim_load (replicate 32 9) v = (Inr (Some x), w) \<and>
        map_of (ck_slot_to_hash w) x = Some (replicate 32 9))"
proof -
  let ?t = "snd (ck_stage_store (replicate 32 9) 4 example_cache)"
  let ?u = "snd (ck_drain_step ?t)"
  have "ck_stage_store (replicate 32 9) 4 example_cache = (Inr True, ?t)"
    by (rule run_pair) code_simp
  moreover have "ck_drain_step ?t = (Inr ([], [(4, 0)]), ?u)" by (rule run_pair) code_simp
  moreover have "ck_begin_step ?u = (Inr (), snd (ck_begin_step ?u))" by (rule run_pair) code_simp
  moreover have "ck_free_slots example_cache \<noteq> []" by code_simp
  ultimately show ?thesis
    unfolding Let_def
    by (intro stored_content_is_claimable [OF ck_inv_init [OF example_cache_init]])
qed

text \<open>
  Cancelling a claim gives back exactly what \<open>claim_load\<close> took: the slot is neither in use nor
  claimed any more, and apart from the LRU order and the hit counter the index is as before.
\<close>

theorem claim_cancel_roundtrip:
  assumes "ck_inv s" and "ck_claim_load h s = (Inr (Some x), t)"
  shows "ck_cancel_load h x t =
    (Inr (), s\<lparr>ck_lru := move_to_end x () (ck_lru s), ck_hits := ck_hits s + 1\<rparr>)"
proof -
  have h: "is_digest h" and x: "map_of (ck_hash_to_slot s) h = Some x" "x \<notin> ck_step_slots_in_use s"
    and t: "t = s\<lparr>ck_step_slots_in_use := insert x (ck_step_slots_in_use s),
      ck_step_load_slots := insert x (ck_step_load_slots s),
      ck_lru := move_to_end x () (ck_lru s), ck_hits := ck_hits s + 1\<rparr>"
    using assms(2)
    by (auto simp: ck_claim_load_def ck_validate_hash_def ck_require_step_started_def ck_touch_def
        py_defs split: if_splits option.splits)
  have ph: "phase_ok (dom (map_of (ck_slot_to_hash s))) (ck_ready_slots s) (ck_pending_ready_slots s)
       (ck_step_slots_in_use s) (ck_step_load_slots s) (map_of (ck_step_h2d s))
       (map_of (ck_step_d2h s))"
    and ix: "index_ok (ck_capacity s) (ck_free_slots s) (map_of (ck_hash_to_slot s))
       (map_of (ck_slot_to_hash s)) (dom (map_of (ck_slot_to_hash s)))"
    using assms(1) by (simp_all add: ck_inv_def ck_core_def)
  have notin: "x \<notin> ck_step_load_slots s" "x \<notin> dom (map_of (ck_step_h2d s))"
    using ph x(2) unfolding phase_ok_def by blast+
  have "map_of (ck_slot_to_hash s) x = Some h"
    using ix x(1) inverse_mapsD [of "map_of (ck_hash_to_slot s)" "map_of (ck_slot_to_hash s)" h x]
    by (simp add: index_ok_def)
  then have "x \<in> {0..<ck_capacity s}" using ix by (auto simp: index_ok_def)
  with h x notin show ?thesis
    by (simp add: t ck_cancel_load_def ck_validate_hash_def ck_validate_block_id_def py_defs
        dict_keys)
qed

lemma claim_cancel_roundtrip_witness:
  "let s = fold ck_step (take 4 example_calls) example_cache;
       t = snd (ck_claim_load (replicate 32 1) s)
   in ck_cancel_load (replicate 32 1) 0 t =
     (Inr (), s\<lparr>ck_lru := move_to_end 0 () (ck_lru s), ck_hits := ck_hits s + 1\<rparr>)"
  unfolding Let_def
proof (rule claim_cancel_roundtrip)
  have "ck_client_ok (take 4 example_calls) example_cache" by code_simp
  then show "ck_inv (fold ck_step (take 4 example_calls) example_cache)"
    by (rule ck_history_inv [OF ck_inv_init [OF example_cache_init]])
  have "fst (ck_claim_load (replicate 32 1) (fold ck_step (take 4 example_calls) example_cache)) =
      Inr (Some 0)" by code_simp
  then show "ck_claim_load (replicate 32 1) (fold ck_step (take 4 example_calls) example_cache) =
      (Inr (Some 0),
       snd (ck_claim_load (replicate 32 1) (fold ck_step (take 4 example_calls) example_cache)))"
    by (metis prod.collapse)
qed

text \<open>
  C11: cancelling a slot that is not a claim but the destination of a store of this step does damage before it is
  refused. In every consistent state, for every content hash whose slot is the destination of a store staged in
  this step (such a slot is in use and not claimed), \<open>cancel_load\<close> passes its own guards, unpins the slot and then
  raises a bare \<open>KeyError\<close> instead of one of its errors, and from there \<open>drain_step\<close> raises \<open>RuntimeError\<close>, also
  when deferred stores are still to be resolved: the stores of the step are never returned.
\<close>

theorem cancel_of_store_breaks_step:
  assumes "ck_inv s" and "map_of (ck_hash_to_slot s) h = Some x" and "is_digest h"
    and "x \<in> snd ` set (ck_step_d2h s)"
  shows "x \<in> ck_step_slots_in_use s \<and> x \<notin> ck_step_load_slots s \<and>
    ck_cancel_load h x s =
      (Inl KeyError, s\<lparr>ck_step_slots_in_use := ck_step_slots_in_use s - {x}\<rparr>) \<and>
    fst (ck_drain_step (snd (ck_cancel_load h x s))) = Inl RuntimeError"
proof -
  have core: "ck_core s" using assms(1) by (simp add: ck_inv_def)
  then have ph: "phase_ok (dom (map_of (ck_slot_to_hash s))) (ck_ready_slots s)
       (ck_pending_ready_slots s) (ck_step_slots_in_use s) (ck_step_load_slots s)
       (map_of (ck_step_h2d s)) (map_of (ck_step_d2h s))"
    and wf: "wf_dict (ck_step_d2h s)" and ix: "index_ok (ck_capacity s) (ck_free_slots s)
      (map_of (ck_hash_to_slot s)) (map_of (ck_slot_to_hash s)) (dom (map_of (ck_slot_to_hash s)))"
    by (simp_all add: ck_core_def ck_dicts_def)
  have x: "x \<in> ck_step_slots_in_use s" "x \<notin> ck_step_load_slots s"
    using ph assms(4) unfolding phase_ok_def dict_vals [OF wf] by blast+
  have "map_of (ck_slot_to_hash s) x = Some h"
    using ix assms(2) inverse_mapsD by (simp add: index_ok_def inverse_maps_def)
  then have "x \<in> {0..<ck_capacity s}" using ix by (auto simp: index_ok_def)
  then have cancel: "ck_cancel_load h x s = (Inl KeyError, ck_unpin x s)"
    using assms(2,3) x ck_store_slot_inv(3) [OF core x]
    by (simp add: ck_cancel_load_def ck_validate_hash_def ck_validate_block_id_def py_defs ck_unpin_def)
  with ck_drain_unpinned [OF assms(1) x] x show ?thesis by (simp add: ck_unpin_def)
qed

lemma cancel_of_store_breaks_step_witness:
  "let s = snd (ck_stage_store (replicate 32 9) 4 example_cache)
   in fst (ck_cancel_load (replicate 32 9) 0 s) = Inl KeyError \<and>
      fst (ck_drain_step (snd (ck_cancel_load (replicate 32 9) 0 s))) = Inl RuntimeError"
proof -
  let ?s = "fold ck_step [CkStageStore (replicate 32 9) 4] example_cache"
  have "ck_inv ?s"
    by (rule ck_history_inv [OF ck_inv_init [OF example_cache_init]]) simp
  moreover have "map_of (ck_hash_to_slot ?s) (replicate 32 9) = Some 0" by code_simp
  moreover have "is_digest (replicate 32 9)" by code_simp
  moreover have "0 \<in> snd ` set (ck_step_d2h ?s)" by code_simp
  ultimately have *: "0 \<in> ck_step_slots_in_use ?s \<and> 0 \<notin> ck_step_load_slots ?s \<and>
    ck_cancel_load (replicate 32 9) 0 ?s =
      (Inl KeyError, ?s\<lparr>ck_step_slots_in_use := ck_step_slots_in_use ?s - {0}\<rparr>) \<and>
    fst (ck_drain_step (snd (ck_cancel_load (replicate 32 9) 0 ?s))) = Inl RuntimeError"
    by (rule cancel_of_store_breaks_step)
  then have "fst (ck_cancel_load (replicate 32 9) 0 ?s) = Inl KeyError" by simp
  moreover have "fst (ck_drain_step (snd (ck_cancel_load (replicate 32 9) 0 ?s))) = Inl RuntimeError"
    using * by (elim conjE)
  ultimately show ?thesis by (simp add: Let_def)
qed

end
