(* ===== verification/GdnPrefix.thy ===== *)
theory GdnPrefix
  imports Prelude
begin

text \<open>
  \<^verbatim>\<open>qwen3_6_scripts/gdn_prefix.py\<close>: which recurrent (GDN) states of a prompt are captured, kept and
  restored. A state is named by the number of complete blocks of the prefix and the digest of its
  last block. Modes and policies are the strings of the source. \<open>GdnPrefixStatePolicy\<close> is the
  record \<open>gdn_policy\<close>.
\<close>

section \<open>Keys, policies and restore modes\<close>

type_synonym gdn_prefix_key = "int \<times> bytes"
type_synonym gdn_capture_point = "int \<times> gdn_prefix_key"

definition VALID_POLICIES :: "string list" where
  "VALID_POLICIES = [''fine32'', ''admission64'', ''off'']"

definition GDN_KERNEL_CHUNK_TOKENS :: int where "GDN_KERNEL_CHUNK_TOKENS = 64"
definition GDN_DIRECT_MIN_REPLAY_TOKENS :: int where "GDN_DIRECT_MIN_REPLAY_TOKENS = 2"

definition VALID_RESTORE_MODES :: "string list" where
  "VALID_RESTORE_MODES = [''direct'', ''hybrid64'', ''chunk64'', ''aligned'']"

definition env_choice :: "(string, string) dict \<Rightarrow> string \<Rightarrow> string \<Rightarrow> string list \<Rightarrow> exn + string" where
  "env_choice os_environ name dflt choices =
     (let value = py_lower (py_strip (case map_of os_environ name of None \<Rightarrow> dflt | Some v \<Rightarrow> v))
      in if value \<notin> set choices then Inl RuntimeError else Inr value)"

definition gdn_cache_policy_from_env :: "(string, string) dict \<Rightarrow> exn + string" where
  "gdn_cache_policy_from_env env =
     env_choice env ''BI100_GDN_CACHE_POLICY'' ''fine32'' VALID_POLICIES"

definition gdn_restore_mode_from_env :: "(string, string) dict \<Rightarrow> exn + string" where
  "gdn_restore_mode_from_env env =
     env_choice env ''BI100_GDN_RESTORE_MODE'' ''direct'' VALID_RESTORE_MODES"

definition gdn_restore_alignment :: "string \<Rightarrow> int \<Rightarrow> int \<Rightarrow> exn + int" where
  "gdn_restore_alignment restore_mode block_size scheduler_chunk_tokens =
     echeck ValueError (0 < block_size)
     (if restore_mode = ''direct'' then Inr block_size
      else ebind
        (if restore_mode \<in> {''hybrid64'', ''chunk64''} then Inr GDN_KERNEL_CHUNK_TOKENS
         else if restore_mode = ''aligned'' then Inr scheduler_chunk_tokens
         else Inl ValueError)
        (\<lambda>alignment. if alignment \<le> 0 \<or> alignment mod block_size \<noteq> 0 then Inl ValueError
                     else Inr alignment))"

definition make_prefix_key :: "int \<Rightarrow> bytes \<Rightarrow> exn + gdn_prefix_key" where
  "make_prefix_key block_count digest =
     (if block_count \<le> 0 then Inl ValueError
      else if \<not> is_digest digest then Inl ValueError
      else Inr (block_count, digest))"

fun keys_from_block_hashes_at :: "int \<Rightarrow> bytes list \<Rightarrow> exn + gdn_prefix_key list" where
  "keys_from_block_hashes_at i [] = Inr []"
| "keys_from_block_hashes_at i (d # ds) =
     ebind (make_prefix_key (i + 1) d) (\<lambda>k.
     ebind (keys_from_block_hashes_at (i + 1) ds) (\<lambda>ks. Inr (k # ks)))"

definition keys_from_block_hashes :: "bytes list \<Rightarrow> exn + gdn_prefix_key list" where
  "keys_from_block_hashes block_hashes = keys_from_block_hashes_at 0 block_hashes"

definition strict_prefix_block_count :: "int \<Rightarrow> int \<Rightarrow> exn + int" where
  "strict_prefix_block_count token_count block_size =
     (if block_size \<le> 0 then Inl ValueError
      else if token_count \<le> 1 then Inr 0
      else Inr ((token_count - 1) div block_size))"

definition key_of_block :: "bytes list \<Rightarrow> int \<Rightarrow> exn + gdn_prefix_key option" where
  "key_of_block block_hashes block_count =
     (if block_count \<le> 0 then Inr None
      else ebind (make_prefix_key block_count (block_hashes ! nat (block_count - 1)))
             (\<lambda>k. Inr (Some k)))"

definition key_at_strict_boundary :: "bytes list \<Rightarrow> int \<Rightarrow> int \<Rightarrow> exn + gdn_prefix_key option" where
  "key_at_strict_boundary block_hashes token_count block_size =
     ebind (strict_prefix_block_count token_count block_size) (\<lambda>n.
     key_of_block block_hashes (min (int (length block_hashes)) n))"

definition final_capture_key :: "bytes list \<Rightarrow> int \<Rightarrow> int \<Rightarrow> string \<Rightarrow> int
    \<Rightarrow> exn + gdn_prefix_key option" where
  "final_capture_key block_hashes prompt_tokens block_size restore_mode replay_alignment =
     (if restore_mode \<in> {''direct'', ''hybrid64''} then
        ebind (strict_prefix_block_count prompt_tokens block_size) (\<lambda>n.
        let block_count = min (int (length block_hashes)) n;
            block_count = (if 0 < block_count \<and>
                prompt_tokens - block_count * block_size < GDN_DIRECT_MIN_REPLAY_TOKENS
              then block_count - 1 else block_count)
        in key_of_block block_hashes block_count)
      else if restore_mode \<notin> {''chunk64'', ''aligned''} then Inl ValueError
      else if replay_alignment \<le> 0 then Inr None
      else if block_size = 0 then Inl ZeroDivisionError
      else if replay_alignment mod block_size \<noteq> 0 \<or> prompt_tokens \<le> 1 then Inr None
      else let boundary_tokens = (prompt_tokens - 1) div replay_alignment * replay_alignment;
               block_count = min (int (length block_hashes)) (boundary_tokens div block_size)
           in key_of_block block_hashes block_count)"

definition restore_key_is_eligible :: "gdn_prefix_key \<Rightarrow> int \<Rightarrow> int \<Rightarrow> string \<Rightarrow> int
    \<Rightarrow> gdn_prefix_key option \<Rightarrow> exn + bool" where
  "restore_key_is_eligible key prompt_tokens block_size restore_mode replay_alignment
     direct_final_key =
     ebind (make_prefix_key (fst key) (snd key)) (\<lambda>_.
     echeck ValueError (0 < block_size)
     (let boundary_tokens = fst key * block_size;
          remaining_tokens = prompt_tokens - boundary_tokens
      in if remaining_tokens \<le> 0 then Inr False
         else if restore_mode = ''direct''
         then Inr (remaining_tokens \<ge> GDN_DIRECT_MIN_REPLAY_TOKENS)
         else if restore_mode = ''hybrid64''
         then ebind (case direct_final_key of None \<Rightarrow> Inr ()
                | Some k \<Rightarrow> ebind (make_prefix_key (fst k) (snd k)) (\<lambda>_. Inr ())) (\<lambda>_.
              Inr (remaining_tokens \<ge> GDN_DIRECT_MIN_REPLAY_TOKENS \<and> 0 < replay_alignment \<and>
                (boundary_tokens mod replay_alignment = 0 \<or> Some key = direct_final_key)))
         else if restore_mode \<notin> {''chunk64'', ''aligned''} then Inl ValueError
         else Inr (0 < replay_alignment \<and> boundary_tokens mod replay_alignment = 0)))"

section \<open>Capture points of a step\<close>

fun select_targets :: "gdn_prefix_key list \<Rightarrow> int \<Rightarrow> int \<Rightarrow> int
    \<Rightarrow> (int, gdn_prefix_key) dict \<Rightarrow> exn + (int, gdn_prefix_key) dict" where
  "select_targets [] ctx logical_end block_size selected = Inr selected"
| "select_targets (key # targets) ctx logical_end block_size selected =
     ebind (make_prefix_key (fst key) (snd key)) (\<lambda>_.
     let boundary_tokens = fst key * block_size in
     select_targets targets ctx logical_end block_size
       (if ctx < boundary_tokens \<and> boundary_tokens \<le> logical_end
        then AList.update (boundary_tokens - ctx) key selected else selected))"

text \<open>\<open>sorted(selected.items())\<close>: the offsets are different, so they decide the order.\<close>

definition capture_points_for_step :: "gdn_prefix_key list \<Rightarrow> int \<Rightarrow> int \<Rightarrow> int
    \<Rightarrow> exn + gdn_capture_point list" where
  "capture_points_for_step targets physical_context_tokens logical_end_tokens block_size =
     echeck ValueError (0 \<le> physical_context_tokens \<and> 0 \<le> logical_end_tokens)
     (if logical_end_tokens \<le> physical_context_tokens then Inr []
      else ebind (select_targets targets physical_context_tokens logical_end_tokens block_size [])
        (\<lambda>selected. let points = sort_key fst selected in
           if length points > 2 then Inl ValueError else Inr points))"

fun cap_loop :: "gdn_prefix_key list \<Rightarrow> int \<Rightarrow> int \<Rightarrow> int \<Rightarrow> exn + int" where
  "cap_loop [] start block_size capped_end = Inr capped_end"
| "cap_loop (key # targets) start block_size capped_end =
     ebind (make_prefix_key (fst key) (snd key)) (\<lambda>_.
     let boundary_tokens = fst key * block_size in
     cap_loop targets start block_size
       (if start < boundary_tokens \<and> boundary_tokens < capped_end then boundary_tokens
        else capped_end))"

definition cap_prefill_end_at_capture_boundary :: "int \<Rightarrow> int \<Rightarrow> gdn_prefix_key list \<Rightarrow> int
    \<Rightarrow> exn + int" where
  "cap_prefill_end_at_capture_boundary logical_start_tokens logical_end_tokens targets block_size =
     echeck ValueError (0 \<le> logical_start_tokens \<and> 0 \<le> logical_end_tokens)
     (echeck ValueError (logical_start_tokens \<le> logical_end_tokens)
     (echeck ValueError (0 < block_size)
     (cap_loop targets logical_start_tokens block_size logical_end_tokens)))"

text \<open>\<open>range(start, stop, step)\<close> for a positive step.\<close>

function py_range :: "int \<Rightarrow> int \<Rightarrow> int \<Rightarrow> int list" where
  "py_range start stop step =
     (if 0 < step \<and> start < stop then start # py_range (start + step) stop step else [])"
  by pat_completeness auto
termination by (relation "measure (\<lambda>(start, stop, step). nat (stop - start))") auto

declare py_range.simps [simp del]

fun segment_boundaries :: "bytes list \<Rightarrow> int \<Rightarrow> int list \<Rightarrow> int set \<Rightarrow> exn + int set" where
  "segment_boundaries block_hashes block_size [] boundaries = Inr boundaries"
| "segment_boundaries block_hashes block_size (step_end # ends) boundaries =
     ebind (final_capture_key block_hashes step_end block_size ''direct'' block_size) (\<lambda>key.
     segment_boundaries block_hashes block_size ends
       (case key of None \<Rightarrow> boundaries | Some k \<Rightarrow> insert (fst k * block_size) boundaries))"

definition canonical_direct_segment_offsets :: "bytes list \<Rightarrow> int \<Rightarrow> int \<Rightarrow> int \<Rightarrow> int
    \<Rightarrow> exn + int list" where
  "canonical_direct_segment_offsets block_hashes physical_context_tokens logical_end_tokens
     block_size scheduler_chunk_tokens =
     echeck ValueError (0 \<le> physical_context_tokens \<and> 0 \<le> logical_end_tokens)
     (echeck ValueError (0 < block_size \<and> 0 < scheduler_chunk_tokens)
     (echeck ValueError (scheduler_chunk_tokens mod block_size = 0)
     (if logical_end_tokens \<le> physical_context_tokens then Inr []
      else let step_ends = py_range scheduler_chunk_tokens logical_end_tokens scheduler_chunk_tokens
        in ebind (segment_boundaries block_hashes block_size (step_ends @ [logical_end_tokens]) {})
        (\<lambda>boundaries. Inr
          (map (\<lambda>boundary. boundary - physical_context_tokens)
          (filter (\<lambda>boundary. physical_context_tokens < boundary \<and> boundary < logical_end_tokens)
             (sorted_list_of_set (boundaries \<union> set step_ends))))))))"

section \<open>GdnPrefixStatePolicy\<close>

record gdn_cache_plan =
  plan_restore_key :: "gdn_prefix_key option"
  plan_capture_points :: "gdn_capture_point list"
  plan_evict_keys :: "gdn_prefix_key list"

text \<open>\<open>_resident\<close> is an \<open>OrderedDict\<close> with no values: the list of its keys, oldest first.\<close>

record gdn_policy =
  gp_policy :: string
  gp_capacity :: nat
  gp_resident :: "gdn_prefix_key list"

definition gdn_policy_init :: "string \<Rightarrow> exn + gdn_policy" where
  "gdn_policy_init policy =
     (if policy \<notin> set VALID_POLICIES then Inl ValueError
      else case map_of [(''fine32'', 32), (''admission64'', 64), (''off'', 0)] policy of
          None \<Rightarrow> Inl KeyError
        | Some c \<Rightarrow> Inr \<lparr>gp_policy = policy, gp_capacity = c, gp_resident = []\<rparr>)"

definition gp_len :: "gdn_policy \<Rightarrow> nat" where
  "gp_len s = length (gp_resident s)"

definition gp_resident_keys :: "gdn_policy \<Rightarrow> gdn_prefix_key list" where
  "gp_resident_keys s = gp_resident s"

definition gp_contains :: "gdn_prefix_key \<Rightarrow> gdn_policy \<Rightarrow> bool" where
  "gp_contains key s \<longleftrightarrow> key \<in> set (gp_resident s)"

definition gp_should_capture_final :: "gdn_prefix_key \<Rightarrow> gdn_policy \<Rightarrow> exn + bool" where
  "gp_should_capture_final key s =
     ebind (make_prefix_key (fst key) (snd key)) (\<lambda>_.
     if gp_policy s = ''off'' then Inr False
     else if gp_policy s = ''admission64'' then Inr (key \<notin> set (gp_resident s))
     else Inr True)"

definition touch_key :: "'k \<Rightarrow> 'k list \<Rightarrow> 'k list" where
  "touch_key key l = removeAll key l @ [key]"

definition gp_select_restore :: "gdn_prefix_key list \<Rightarrow> int
    \<Rightarrow> (gdn_policy, gdn_prefix_key option) py" where
  "gp_select_restore live_prefix_keys max_blocks =
     bind (gets id) (\<lambda>s.
     if gp_capacity s = 0 \<or> max_blocks \<le> 0 then return None
     else let best = fold (\<lambda>key best. if key \<in> set (gp_resident s) then Some key else best)
                       (take (nat max_blocks) live_prefix_keys) None
          in andthen (case best of None \<Rightarrow> return ()
               | Some key \<Rightarrow> modify (\<lambda>s. s\<lparr>gp_resident := touch_key key (gp_resident s)\<rparr>))
             (return best))"

definition gp_repeated_branch_candidate :: "gdn_prefix_key list \<Rightarrow> int \<Rightarrow> gdn_policy
    \<Rightarrow> gdn_prefix_key option" where
  "gp_repeated_branch_candidate live_prefix_keys max_blocks s =
     (if gp_policy s \<noteq> ''admission64'' \<or> max_blocks \<le> 0 \<or> live_prefix_keys = [] then None
      else let candidate = live_prefix_keys !
             nat (min (int (length live_prefix_keys)) max_blocks - 1)
           in if candidate \<in> set (gp_resident s) then None else Some candidate)"

text \<open>The inner \<open>while\<close> of \<open>admit\<close>: \<open>popitem(last=False)\<close> until the capacity holds.\<close>

fun shrink_to :: "nat \<Rightarrow> 'k list \<Rightarrow> 'k list \<times> 'k list" where
  "shrink_to capacity [] = ([], [])"
| "shrink_to capacity (k # l) =
     (if length (k # l) > capacity
      then (case shrink_to capacity l of (evicted, rest) \<Rightarrow> (k # evicted, rest))
      else ([], k # l))"

fun gp_admit_loop :: "gdn_prefix_key list \<Rightarrow> (gdn_policy, gdn_prefix_key list) py" where
  "gp_admit_loop [] = return []"
| "gp_admit_loop (key # keys) =
     bind (gets id) (\<lambda>_. case make_prefix_key (fst key) (snd key) of
         Inl e \<Rightarrow> raise e
       | Inr _ \<Rightarrow>
         andthen (modify (\<lambda>s. s\<lparr>gp_resident := (if key \<in> set (gp_resident s)
             then touch_key key (gp_resident s) else gp_resident s @ [key])\<rparr>))
        (bind (gets (\<lambda>s. shrink_to (gp_capacity s) (gp_resident s))) (\<lambda>(evicted, rest).
         andthen (modify (\<lambda>s. s\<lparr>gp_resident := rest\<rparr>))
        (bind (gp_admit_loop keys) (\<lambda>more. return (evicted @ more))))))"

definition gp_admit :: "gdn_prefix_key list \<Rightarrow> (gdn_policy, gdn_prefix_key list) py" where
  "gp_admit keys =
     bind (gets gp_capacity) (\<lambda>c. if c = 0 then return [] else gp_admit_loop keys)"

definition gp_forget :: "gdn_prefix_key list \<Rightarrow> (gdn_policy, unit) py" where
  "gp_forget keys =
     for_each keys (\<lambda>key. modify (\<lambda>s. s\<lparr>gp_resident := removeAll key (gp_resident s)\<rparr>))"

section \<open>Lemmas on keys and boundaries\<close>

definition key_ok :: "gdn_prefix_key \<Rightarrow> bool" where
  "key_ok k \<longleftrightarrow> 0 < fst k \<and> is_digest (snd k)"

lemma make_prefix_key_eq:
  "make_prefix_key n d = (if key_ok (n, d) then Inr (n, d) else Inl ValueError)"
  by (simp add: make_prefix_key_def key_ok_def)

lemma make_prefix_key_key [simp]:
  "make_prefix_key (fst k) (snd k) = (if key_ok k then Inr k else Inl ValueError)"
  by (simp add: make_prefix_key_eq)

definition in_step :: "int \<Rightarrow> int \<Rightarrow> int \<Rightarrow> gdn_prefix_key \<Rightarrow> bool" where
  "in_step ctx e bs k \<longleftrightarrow> ctx < fst k * bs \<and> fst k * bs \<le> e"

lemma image_cons: "{f y | y. y \<in> set (x # xs) \<and> P y} =
    (if P x then {f x} else {}) \<union> {f y | y. y \<in> set xs \<and> P y}"
  by auto

lemma select_targets_run:
  assumes "\<forall>k \<in> set ts. key_ok k" "wf_dict sel"
  shows "\<exists>sel'. select_targets ts ctx e bs sel = Inr sel' \<and> wf_dict sel' \<and>
    dom (map_of sel') = dom (map_of sel) \<union> {fst k * bs - ctx | k. k \<in> set ts \<and> in_step ctx e bs k} \<and>
    (\<forall>x k. map_of sel' x = Some k \<longrightarrow> map_of sel x = Some k \<or>
       k \<in> set ts \<and> in_step ctx e bs k \<and> x = fst k * bs - ctx)"
  using assms
proof (induction ts arbitrary: sel)
  case (Cons k ts)
  let ?sel = "if in_step ctx e bs k then AList.update (fst k * bs - ctx) k sel else sel"
  have run: "select_targets (k # ts) ctx e bs sel = select_targets ts ctx e bs ?sel"
    using Cons.prems(1) by (simp add: in_step_def Let_def)
  have "wf_dict ?sel" using Cons.prems(2) by simp
  then obtain sel' where sel': "select_targets ts ctx e bs ?sel = Inr sel'" "wf_dict sel'"
      "dom (map_of sel') = dom (map_of ?sel) \<union>
         {fst k * bs - ctx | k. k \<in> set ts \<and> in_step ctx e bs k}"
      "\<forall>x k. map_of sel' x = Some k \<longrightarrow> map_of ?sel x = Some k \<or>
         k \<in> set ts \<and> in_step ctx e bs k \<and> x = fst k * bs - ctx"
    using Cons.IH [of ?sel] Cons.prems(1) by auto
  have "dom (map_of sel') = dom (map_of sel) \<union>
      {fst k' * bs - ctx | k'. k' \<in> set (k # ts) \<and> in_step ctx e bs k'}"
    unfolding sel'(3) image_cons by (simp add: dict_simps)
  moreover have "\<forall>x k'. map_of sel' x = Some k' \<longrightarrow> map_of sel x = Some k' \<or>
      k' \<in> set (k # ts) \<and> in_step ctx e bs k' \<and> x = fst k' * bs - ctx"
  proof (intro allI impI)
    fix x k' assume "map_of sel' x = Some k'"
    then have "map_of ?sel x = Some k' \<or> k' \<in> set ts \<and> in_step ctx e bs k' \<and> x = fst k' * bs - ctx"
      using sel'(4) by blast
    then show "map_of sel x = Some k' \<or>
        k' \<in> set (k # ts) \<and> in_step ctx e bs k' \<and> x = fst k' * bs - ctx"
      by (cases "in_step ctx e bs k"; cases "x = fst k * bs - ctx") (auto simp add: dict_simps)
  qed
  ultimately show ?case using run sel'(1,2) by (intro exI [of _ sel'] conjI) simp_all
qed simp

lemma cap_loop_run:
  assumes "\<forall>k \<in> set ts. key_ok k" "s \<le> e"
  shows "\<exists>r. cap_loop ts s bs e = Inr r \<and> s \<le> r \<and> r \<le> e \<and> (s < e \<longrightarrow> s < r) \<and>
    (r = e \<or> (\<exists>k \<in> set ts. r = fst k * bs)) \<and>
    (\<forall>k \<in> set ts. \<not> (s < fst k * bs \<and> fst k * bs < r))"
  using assms
proof (induction ts arbitrary: e)
  case (Cons k ts)
  let ?e = "if s < fst k * bs \<and> fst k * bs < e then fst k * bs else e"
  have "cap_loop (k # ts) s bs e = cap_loop ts s bs ?e"
    using Cons.prems(1) by (simp add: Let_def)
  moreover have "\<forall>k \<in> set ts. key_ok k" "s \<le> ?e" using Cons.prems by simp_all
  then obtain r where "cap_loop ts s bs ?e = Inr r" "s \<le> r" "r \<le> ?e" "s < ?e \<longrightarrow> s < r"
      "r = ?e \<or> (\<exists>k \<in> set ts. r = fst k * bs)"
      "\<forall>k \<in> set ts. \<not> (s < fst k * bs \<and> fst k * bs < r)"
    using Cons.IH by blast
  ultimately show ?case by (intro exI [of _ r]) (auto split: if_splits)
qed simp

lemma key_of_block_run:
  assumes "\<forall>d \<in> set hs. is_digest d" "n \<le> int (length hs)"
  shows "key_of_block hs n = Inr (if n \<le> 0 then None else Some (n, hs ! nat (n - 1)))"
    and "0 < n \<Longrightarrow> key_ok (n, hs ! nat (n - 1))"
proof -
  have "0 < n \<Longrightarrow> is_digest (hs ! nat (n - 1))" using assms by (intro assms(1) [rule_format]) simp
  then show "key_of_block hs n = Inr (if n \<le> 0 then None else Some (n, hs ! nat (n - 1)))"
    "0 < n \<Longrightarrow> key_ok (n, hs ! nat (n - 1))"
    by (simp_all add: key_of_block_def make_prefix_key_def key_ok_def)
qed

lemma strict_count_bounds:
  assumes "0 < (bs :: int)" "1 < n"
  shows "(n - 1) div bs * bs < n" "n \<le> ((n - 1) div bs + 1) * bs"
proof -
  have eq: "(n - 1) div bs * bs + (n - 1) mod bs = n - 1" by (rule div_mult_mod_eq)
  moreover have "0 \<le> (n - 1) mod bs" "(n - 1) mod bs < bs" using assms by simp_all
  ultimately show "(n - 1) div bs * bs < n" by linarith
  show "n \<le> ((n - 1) div bs + 1) * bs"
    using eq \<open>(n - 1) mod bs < bs\<close> unfolding distrib_right mult_1 by linarith
qed

text \<open>The final key of a prompt, in each mode.\<close>

lemma final_capture_key_direct:
  assumes "\<forall>d \<in> set hs. is_digest d" "0 < bs" "restore_mode \<in> {''direct'', ''hybrid64''}"
    and "final_capture_key hs n bs restore_mode a = Inr (Some key)"
  shows "key_ok key \<and> n - fst key * bs \<ge> 2 \<and> fst key \<le> int (length hs) \<and>
    snd key = hs ! nat (fst key - 1)"
proof -
  define c where "c = min (int (length hs)) (if n \<le> 1 then 0 else (n - 1) div bs)"
  define c' where "c' = (if 0 < c \<and> n - c * bs < GDN_DIRECT_MIN_REPLAY_TOKENS then c - 1 else c)"
  have "c \<le> int (length hs)" by (simp add: c_def)
  then have le: "c' \<le> int (length hs)" by (simp add: c'_def)
  have "final_capture_key hs n bs restore_mode a = key_of_block hs c'"
    using assms(2,3) by (auto simp: final_capture_key_def strict_prefix_block_count_def Let_def
        c'_def c_def)
  with assms(4) key_of_block_run [OF assms(1) le] have pos: "0 < c'"
    and key: "key = (c', hs ! nat (c' - 1))" "key_ok key"
    by (auto split: if_splits)
  have "0 < c" using pos by (simp add: c'_def split: if_splits)
  then have n: "1 < n" by (simp add: c_def split: if_splits)
  have "c * bs \<le> (n - 1) div bs * bs"
    using assms(2) n by (intro mult_right_mono) (simp_all add: c_def)
  then have less: "c * bs < n" using strict_count_bounds(1) [OF assms(2) n] by simp
  have "n - c' * bs \<ge> 2"
  proof (cases "n - c * bs < 2")
    case True
    then have "c' = c - 1" using \<open>0 < c\<close> by (simp add: c'_def GDN_DIRECT_MIN_REPLAY_TOKENS_def)
    with less assms(2) show ?thesis by (simp add: left_diff_distrib)
  next
    case False
    then show ?thesis by (simp add: c'_def GDN_DIRECT_MIN_REPLAY_TOKENS_def)
  qed
  with key le show ?thesis by simp
qed

lemma final_capture_key_aligned:
  assumes "\<forall>d \<in> set hs. is_digest d" "0 < bs" "restore_mode \<in> {''chunk64'', ''aligned''}"
    and "final_capture_key hs n bs restore_mode a = Inr (Some key)"
  shows "key_ok key \<and> fst key * bs < n \<and> 0 < a \<and> a mod bs = 0 \<and>
    fst key = min (int (length hs)) ((n - 1) div a * a div bs)"
proof -
  define c where "c = min (int (length hs)) ((n - 1) div a * a div bs)"
  have le: "c \<le> int (length hs)" by (simp add: c_def)
  have a: "0 < a" "a mod bs = 0" "1 < n" and "final_capture_key hs n bs restore_mode a = key_of_block hs c"
    using assms(2,3,4) by (auto simp: final_capture_key_def Let_def c_def split: if_splits)
  with assms(4) key_of_block_run [OF assms(1) le] have key: "key = (c, hs ! nat (c - 1))" "key_ok key"
    by (auto split: if_splits)
  have "c * bs \<le> (n - 1) div a * a div bs * bs"
    using assms(2) by (intro mult_right_mono) (simp_all add: c_def)
  also have "\<dots> \<le> (n - 1) div a * a"
    using assms(2) by (simp add: minus_mod_eq_div_mult [symmetric])
  also have "\<dots> < n" by (rule strict_count_bounds(1) [OF a(1,3)])
  finally show ?thesis using key a by (simp add: c_def)
qed

section \<open>Lemmas on the resident list\<close>

definition take_last :: "nat \<Rightarrow> 'a list \<Rightarrow> 'a list" where
  "take_last n l = drop (length l - n) l"

lemma shrink_to_eq:
  "shrink_to c l = (take (length l - c) l, take_last c l)"
proof (induction l)
  case (Cons k l)
  then show ?case by (cases "length (k # l) > c") (auto simp: take_last_def Suc_diff_le)
qed (simp add: take_last_def)

lemma take_last_append: "n \<le> length b \<Longrightarrow> take_last n (a @ b) = take_last n b"
  by (simp add: take_last_def)

lemma distinct_take_last [simp]: "distinct l \<Longrightarrow> distinct (take_last n l)"
  by (simp add: take_last_def)

lemma length_take_last [simp]: "length (take_last n l) = min n (length l)"
  by (simp add: take_last_def)

lemma take_last_short [simp]: "length l \<le> n \<Longrightarrow> take_last n l = l"
  by (simp add: take_last_def)

lemma set_take_last_subset: "set (take_last n l) \<subseteq> set l"
  by (simp add: take_last_def set_drop_subset)

lemma touch_or_append:
  "(if k \<in> set l then touch_key k l else l @ [k]) = touch_key k l"
  by (simp add: touch_key_def)

lemma take_last_touch:
  assumes "distinct l" "0 < n"
  shows "take_last n (touch_key k (take_last n l)) = take_last n (touch_key k l)"
proof -
  define a b where "a = take (length l - n) l" and "b = take_last n l"
  have l: "l = a @ b" by (simp add: a_def b_def take_last_def)
  have len: "length b = min n (length l)" by (simp add: b_def)
  have eq: "touch_key k l = removeAll k a @ touch_key k b" by (simp add: l touch_key_def)
  show ?thesis
  proof (cases "length b < n")
    case True
    then have "a = []" using len by (simp add: a_def)
    then show ?thesis using eq by (simp add: b_def [symmetric] touch_key_def)
  next
    case False
    then have lb: "length b = n" using len by simp
    have "distinct b" using assms(1) by (simp add: b_def)
    then have "length (touch_key k b) \<ge> n"
      using lb by (simp add: touch_key_def distinct_remove1_removeAll [symmetric] length_remove1) arith
    then show ?thesis by (simp add: eq take_last_append b_def [symmetric])
  qed
qed

lemma remdups_snoc: "remdups (l @ [k]) = touch_key k (remdups l)"
  by (induction l) (auto simp: touch_key_def)

lemma remdups_append_left: "remdups (remdups xs @ ys) = remdups (xs @ ys)"
  by (induction xs) auto

lemma gp_admit_loop_run:
  assumes "\<forall>k \<in> set ks. key_ok k" "0 < gp_capacity s" "distinct done'"
    "gp_resident s = take_last (gp_capacity s) done'"
  shows "\<exists>evicted t. gp_admit_loop ks s = (Inr evicted, t) \<and> gp_policy t = gp_policy s \<and>
    gp_capacity t = gp_capacity s \<and>
    gp_resident t = take_last (gp_capacity s) (remdups (done' @ ks)) \<and>
    set evicted \<union> set (gp_resident t) = set (gp_resident s) \<union> set ks \<and>
    set evicted \<inter> (set (gp_resident t) - set ks) = {}"
  using assms
proof (induction ks arbitrary: s done')
  case Nil
  then show ?case by (simp add: return_def distinct_remdups_id)
next
  case (Cons k ks)
  let ?l = "touch_key k (gp_resident s)" and ?c = "gp_capacity s"
  let ?t = "s\<lparr>gp_resident := take_last ?c ?l\<rparr>"
  have step: "gp_admit_loop (k # ks) s =
      (case gp_admit_loop ks ?t of (Inl e, u) \<Rightarrow> (Inl e, u)
       | (Inr ev, u) \<Rightarrow> (Inr (take (length ?l - ?c) ?l @ ev), u))"
    using Cons.prems(1)
    by (simp add: py_defs touch_or_append shrink_to_eq split: sum.splits prod.splits)
  have res: "gp_resident ?t = take_last (gp_capacity ?t) (touch_key k done')"
    using take_last_touch [OF Cons.prems(3,2)] Cons.prems(4) by simp
  have dist: "distinct (touch_key k done')"
    using Cons.prems(3) by (simp add: touch_key_def distinct_removeAll)
  obtain ev u where u: "gp_admit_loop ks ?t = (Inr ev, u)" "gp_policy u = gp_policy ?t"
      "gp_capacity u = gp_capacity ?t"
      "gp_resident u = take_last (gp_capacity ?t) (remdups (touch_key k done' @ ks))"
      "set ev \<union> set (gp_resident u) = set (gp_resident ?t) \<union> set ks"
      "set ev \<inter> (set (gp_resident u) - set ks) = {}"
    using Cons.IH [of ?t, OF _ _ dist res] Cons.prems(1,2) by auto
  have "remdups (done' @ k # ks) = remdups (touch_key k done' @ ks)"
  proof -
    have "remdups (done' @ k # ks) = remdups (remdups (done' @ [k]) @ ks)"
      using remdups_append_left [of "done' @ [k]" ks] by simp
    then show ?thesis
      using Cons.prems(3) by (simp add: remdups_snoc distinct_remdups_id)
  qed
  moreover have "set (take (length ?l - ?c) ?l @ ev) \<union> set (gp_resident u) =
      set (gp_resident s) \<union> set (k # ks)"
  proof -
    have "set (take (length ?l - ?c) ?l) \<union> set (take_last ?c ?l) = set ?l"
      unfolding take_last_def by (metis append_take_drop_id set_append)
    moreover have "set ?l = insert k (set (gp_resident s))" by (auto simp: touch_key_def)
    moreover have "set ev \<union> set (gp_resident u) = set (take_last ?c ?l) \<union> set ks"
      using u(5) by simp
    ultimately show ?thesis unfolding set_append list.set by blast
  qed
  moreover have "set (take (length ?l - ?c) ?l @ ev) \<inter> (set (gp_resident u) - set (k # ks)) = {}"
  proof -
    have "distinct ?l"
      using Cons.prems(3,4) by (simp add: touch_key_def distinct_removeAll)
    then have "set (take (length ?l - ?c) ?l) \<inter> set (take_last ?c ?l) = {}"
      unfolding take_last_def by (intro set_take_disj_set_drop_if_distinct) simp_all
    moreover have "set (gp_resident u) \<subseteq> set (take_last ?c ?l) \<union> set ks" using u(5) by auto
    ultimately show ?thesis using u(6) unfolding set_append list.set by blast
  qed
  moreover have "gp_admit_loop (k # ks) s = (Inr (take (length ?l - ?c) ?l @ ev), u)"
    by (simp only: step u(1) prod.case sum.case)
  ultimately show ?case
    using u(2-4) by (intro exI [of _ "take (length ?l - ?c) ?l @ ev"] exI [of _ u]) simp
qed

section \<open>The worker's copy of the states\<close>

text \<open>
  \<^verbatim>\<open>qwen3_6_scripts/qwen3_5.py\<close>, \<open>forward\<close>: the worker executes the actions of a step on its own
  cache from keys to saved states, evictions first, then the restore, then (after the forward pass)
  the captures. \<open>state_at\<close> stands for the recurrent state that the forward pass has at an offset.
\<close>

definition wg_validate_key :: "gdn_prefix_key \<Rightarrow> exn + gdn_prefix_key" where
  "wg_validate_key key = echeck RuntimeError (0 < fst key)
     (echeck RuntimeError (is_digest (snd key)) (Inr key))"

fun wg_evict :: "gdn_prefix_key list \<Rightarrow> (gdn_prefix_key, 'st) dict
    \<Rightarrow> exn + (gdn_prefix_key, 'st) dict" where
  "wg_evict [] cache = Inr cache"
| "wg_evict (k # ks) cache = ebind (wg_validate_key k) (\<lambda>k. wg_evict ks (AList.delete k cache))"

definition wg_restore :: "gdn_prefix_key option \<Rightarrow> (gdn_prefix_key, 'st) dict
    \<Rightarrow> exn + 'st option" where
  "wg_restore gdn_restore_key cache = (case gdn_restore_key of None \<Rightarrow> Inr None
     | Some key \<Rightarrow> ebind (wg_validate_key key) (\<lambda>key.
         case map_of cache key of None \<Rightarrow> Inl RuntimeError | Some st \<Rightarrow> Inr (Some st)))"

fun wg_capture_keys :: "gdn_capture_point list \<Rightarrow> int \<Rightarrow> (int, gdn_prefix_key) dict
    \<Rightarrow> exn + (int, gdn_prefix_key) dict" where
  "wg_capture_keys [] query_len capture_keys =
     (if length capture_keys > 2 then Inl RuntimeError else Inr capture_keys)"
| "wg_capture_keys ((offset, key) # points) query_len capture_keys =
     (if offset \<le> 0 \<or> offset > query_len \<or> offset \<in> fst ` set capture_keys then Inl RuntimeError
      else ebind (wg_validate_key key) (\<lambda>key.
           wg_capture_keys points query_len (AList.update offset key capture_keys)))"

definition wg_save :: "(int \<Rightarrow> 'st) \<Rightarrow> (int, gdn_prefix_key) dict \<Rightarrow> (gdn_prefix_key, 'st) dict
    \<Rightarrow> (gdn_prefix_key, 'st) dict" where
  "wg_save state_at capture_keys cache =
     fold (\<lambda>(offset, key) cache. AList.update key (state_at offset) cache) capture_keys cache"

definition wg_step :: "(int \<Rightarrow> 'st) \<Rightarrow> gdn_prefix_key list \<Rightarrow> gdn_prefix_key option
    \<Rightarrow> gdn_capture_point list \<Rightarrow> int \<Rightarrow> (gdn_prefix_key, 'st) dict
    \<Rightarrow> exn + 'st option \<times> (gdn_prefix_key, 'st) dict" where
  "wg_step state_at evict_keys restore_key capture_points query_len cache =
     ebind (wg_evict evict_keys cache) (\<lambda>cache.
     ebind (wg_restore restore_key cache) (\<lambda>st.
     ebind (wg_capture_keys capture_points query_len []) (\<lambda>capture_keys.
     Inr (st, wg_save state_at capture_keys cache))))"

text \<open>
  The whole of the actions around the forward pass: they are refused unless the step is the prefill of a single
  sequence (\<open>single\<close>), and the offsets at which the pass is to be cut are checked before it is run.
\<close>

fun wg_segments :: "int list \<Rightarrow> int \<Rightarrow> int set \<Rightarrow> exn + int list" where
  "wg_segments [] query_len segment_offsets =
     (if 128 < card segment_offsets then Inl RuntimeError else Inr (sorted_list_of_set segment_offsets))"
| "wg_segments (offset # offsets) query_len segment_offsets =
     (if offset \<le> 0 \<or> query_len \<le> offset then Inl RuntimeError
      else wg_segments offsets query_len (insert offset segment_offsets))"

definition wg_forward :: "(int \<Rightarrow> 'st) \<Rightarrow> bool \<Rightarrow> int \<Rightarrow> gdn_prefix_key list \<Rightarrow> gdn_prefix_key option
    \<Rightarrow> gdn_capture_point list \<Rightarrow> int list \<Rightarrow> (gdn_prefix_key, 'st) dict
    \<Rightarrow> exn + 'st option \<times> int list \<times> (gdn_prefix_key, 'st) dict" where
  "wg_forward state_at single num_prefill_tokens evict_keys restore_key capture_points segment_offsets cache =
     (if (restore_key \<noteq> None \<or> capture_points \<noteq> [] \<or> evict_keys \<noteq> [] \<or> segment_offsets \<noteq> []) \<and> \<not> single
      then Inl RuntimeError
      else
        ebind (wg_evict evict_keys cache) (\<lambda>cache.
        ebind (wg_restore restore_key cache) (\<lambda>st.
        let query_len = (if single then num_prefill_tokens else 0) in
        ebind (wg_capture_keys capture_points query_len []) (\<lambda>capture_keys.
        ebind (wg_segments segment_offsets query_len {}) (\<lambda>segments.
        Inr (st, segments, wg_save state_at capture_keys cache))))))"

lemma wg_segments_run:
  assumes "\<forall>x \<in> set offsets. 0 < x \<and> x < query_len" "finite A" "card (A \<union> set offsets) \<le> 128"
  shows "wg_segments offsets query_len A = Inr (sorted_list_of_set (A \<union> set offsets))"
  using assms by (induction offsets arbitrary: A) auto

text \<open>What \<open>wg_step\<close> does is what a prefill of a single sequence does; otherwise no action is executed.\<close>

lemma wg_forward_step:
  assumes "wg_step state_at evict_keys restore_key capture_points query_len cache = Inr (st, cache')"
    and "wg_segments offsets query_len {} = Inr segments"
  shows "wg_forward state_at True query_len evict_keys restore_key capture_points offsets cache = Inr (st, segments, cache')"
  using assms by (auto simp: wg_step_def wg_forward_def ebind_Inr_iff)

lemma wg_forward_batch:
  "wg_forward state_at False n evict_keys restore_key capture_points offsets cache = Inr r \<longleftrightarrow>
    evict_keys = [] \<and> restore_key = None \<and> capture_points = [] \<and> offsets = [] \<and> r = (None, [], cache)"
  by (cases restore_key) (auto simp: wg_forward_def wg_restore_def wg_save_def)

lemma wg_validate_ok [simp]: "key_ok k \<Longrightarrow> wg_validate_key k = Inr k"
  by (simp add: wg_validate_key_def key_ok_def)

lemma wg_evict_run:
  "\<forall>k \<in> set ks. key_ok k \<Longrightarrow> \<exists>c. wg_evict ks cache = Inr c \<and>
     map_of c = (\<lambda>k. if k \<in> set ks then None else map_of cache k)"
  by (induction ks arbitrary: cache) (fastforce simp: dict_simps)+

lemma wg_capture_keys_run:
  assumes "\<forall>p \<in> set ps. key_ok (snd p) \<and> 0 < fst p \<and> fst p \<le> q"
    and "distinct (map fst (acc @ ps))" and "length (acc @ ps) \<le> 2"
  shows "wg_capture_keys ps q acc = Inr (acc @ ps)"
  using assms
proof (induction ps arbitrary: acc)
  case (Cons p ps)
  obtain x k where p: "p = (x, k)" by (cases p)
  have x: "x \<notin> fst ` set acc" using Cons.prems(2) p by auto
  have "AList.update x k acc = acc @ [(x, k)]" using x by (induction acc) auto
  with x p Cons.prems Cons.IH [of "acc @ [(x, k)]"] show ?case by simp
qed simp

lemma wg_save_keys:
  "dom (map_of (wg_save state_at cks cache)) = dom (map_of cache) \<union> snd ` set cks"
  unfolding wg_save_def
  by (induction cks arbitrary: cache) (auto simp: dict_simps)

lemma last_filter_index:
  "filter P l \<noteq> [] \<Longrightarrow> \<exists>i < length l. l ! i = last (filter P l) \<and> P (l ! i) \<and>
     (\<forall>j < length l. i < j \<longrightarrow> \<not> P (l ! j))"
proof (induction l rule: rev_induct)
  case (snoc x l)
  show ?case
  proof (cases "P x")
    case True
    then show ?thesis by (intro exI [of _ "length l"]) auto
  next
    case False
    with snoc obtain i where "i < length l" "l ! i = last (filter P l)" "P (l ! i)"
      "\<forall>j < length l. i < j \<longrightarrow> \<not> P (l ! j)" by auto
    with False show ?thesis by (intro exI [of _ i]) (auto simp: nth_append less_Suc_eq)
  qed
qed simp

lemma remdups_split:
  "remdups (xs @ ys) = remdups (filter (\<lambda>x. x \<notin> set ys) xs) @ remdups ys"
  by (induction xs) auto

lemma set_drop_append: "length b \<le> n \<Longrightarrow> x \<in> set b \<Longrightarrow> x \<in> set (drop (length (a @ b) - n) (a @ b))"
  by simp

section \<open>Histories of calls\<close>

definition gp_inv :: "gdn_policy \<Rightarrow> bool" where
  "gp_inv s \<longleftrightarrow> distinct (gp_resident s) \<and> length (gp_resident s) \<le> gp_capacity s"

lemma gp_inv_init: "gdn_policy_init p = Inr s \<Longrightarrow> gp_inv s"
  by (auto simp: gdn_policy_init_def gp_inv_def split: if_splits option.splits)

lemma gp_inv_touch: "gp_inv s \<Longrightarrow> k \<in> set (gp_resident s) \<Longrightarrow>
   gp_inv (s\<lparr>gp_resident := touch_key k (gp_resident s)\<rparr>)"
  by (auto simp: gp_inv_def touch_key_def distinct_removeAll
      distinct_remove1_removeAll [symmetric] length_remove1 dest: length_pos_if_in_set)

lemma fold_best:
  "fold (\<lambda>key best. if P key then Some key else best) l b =
     (case filter P l of [] \<Rightarrow> b | _ \<Rightarrow> Some (last (filter P l)))"
  by (induction l arbitrary: b) (auto split: list.splits)

lemma gp_select_inv: "gp_inv s \<Longrightarrow> wp (gp_select_restore l m) (\<lambda>_. gp_inv) (\<lambda>_. gp_inv) s"
proof -
  assume inv: "gp_inv s"
  have "k \<in> set (gp_resident s)"
    if "fold (\<lambda>key best. if key \<in> set (gp_resident s) then Some key else best) (take (nat m) l) None =
      Some k" for k
    using that last_in_set [of "filter (\<lambda>k. k \<in> set (gp_resident s)) (take (nat m) l)"]
    by (auto simp: fold_best simp del: last_in_set split: list.splits)
  then show ?thesis
    using inv gp_inv_touch [OF inv]
    by (simp add: gp_select_restore_def wp_simps Let_def split: option.splits)
qed

lemma gp_admit_loop_inv:
  "gp_inv s \<Longrightarrow> wp (gp_admit_loop ks) (\<lambda>_. gp_inv) (\<lambda>_. gp_inv) s"
proof (induction ks arbitrary: s)
  case (Cons k ks)
  let ?t = "s\<lparr>gp_resident := take_last (gp_capacity s) (touch_key k (gp_resident s))\<rparr>"
  have "gp_inv ?t" using Cons.prems by (simp add: gp_inv_def touch_key_def distinct_removeAll)
  then have "wp (gp_admit_loop ks) (\<lambda>_. gp_inv) (\<lambda>_. gp_inv) ?t" by (rule Cons.IH)
  with Cons.prems show ?case
    by (simp add: wp_simps touch_or_append shrink_to_eq)
qed (simp add: wp_simps)

lemma gp_admit_inv: "gp_inv s \<Longrightarrow> wp (gp_admit ks) (\<lambda>_. gp_inv) (\<lambda>_. gp_inv) s"
  by (simp add: gp_admit_def wp_simps gp_admit_loop_inv)

lemma gp_forget_inv: "gp_inv s \<Longrightarrow> wp (gp_forget ks) (\<lambda>_. gp_inv) (\<lambda>_. gp_inv) s"
  unfolding gp_forget_def
  by (rule wp_for_each) (auto simp: wp_simps gp_inv_def distinct_removeAll
      intro: order_trans [OF length_removeAll_less_eq])

datatype gp_call = GpSelect "gdn_prefix_key list" int | GpAdmit "gdn_prefix_key list"
  | GpForget "gdn_prefix_key list"

fun gp_step :: "gp_call \<Rightarrow> gdn_policy \<Rightarrow> gdn_policy" where
  "gp_step (GpSelect l m) s = snd (gp_select_restore l m s)"
| "gp_step (GpAdmit ks) s = snd (gp_admit ks s)"
| "gp_step (GpForget ks) s = snd (gp_forget ks s)"

lemma gp_step_inv: "gp_inv s \<Longrightarrow> gp_inv (gp_step c s)"
proof (cases c)
  case (GpSelect l m)
  then show "gp_inv s \<Longrightarrow> ?thesis" using gp_select_inv [of s l m] by (simp add: wp_state)
next
  case (GpAdmit ks)
  then show "gp_inv s \<Longrightarrow> ?thesis" using gp_admit_inv [of s ks] by (simp add: wp_state)
next
  case (GpForget ks)
  then show "gp_inv s \<Longrightarrow> ?thesis" using gp_forget_inv [of s ks] by (simp add: wp_state)
qed

lemma gp_admit_loop_capacity:
  "gp_capacity s = c \<Longrightarrow>
   wp (gp_admit_loop ks) (\<lambda>_ t. gp_capacity t = c) (\<lambda>_ t. gp_capacity t = c) s"
  by (induction ks arbitrary: s) (simp_all add: wp_simps shrink_to_eq split: if_splits)

lemma gp_step_capacity:
  "gp_capacity (snd (gp_select_restore l m s)) = gp_capacity s"
  "gp_capacity (snd (gp_admit ks s)) = gp_capacity s"
  "gp_capacity (snd (gp_forget ks s)) = gp_capacity s"
proof -
  show "gp_capacity (snd (gp_select_restore l m s)) = gp_capacity s"
    by (simp add: gp_select_restore_def py_defs Let_def split: option.splits)
  show "gp_capacity (snd (gp_admit ks s)) = gp_capacity s"
    using wp_state [OF gp_admit_loop_capacity [of s _ ks, OF refl]] by (simp add: gp_admit_def py_defs)
  have "wp (gp_forget ks) (\<lambda>_ t. gp_capacity t = gp_capacity s) (\<lambda>_ t. gp_capacity t = gp_capacity s) s"
    unfolding gp_forget_def by (rule wp_for_each) (simp_all add: wp_simps)
  then show "gp_capacity (snd (gp_forget ks s)) = gp_capacity s" by (rule wp_state)
qed

section \<open>Properties\<close>

text \<open>
  C12: whatever is called on a \<open>GdnPrefixStatePolicy\<close>, in whatever order (also with invalid keys,
  where \<open>admit\<close> raises half-way), it never holds a key twice nor more keys than the capacity of its
  policy: 32 for \<open>fine32\<close>, 64 for \<open>admission64\<close>, none for \<open>off\<close>.
\<close>

theorem gdn_policy_capacity:
  assumes "gdn_policy_init policy = Inr s"
  shows "distinct (gp_resident_keys (fold gp_step cs s)) \<and>
    gp_len (fold gp_step cs s) \<le>
      (if policy = ''fine32'' then 32 else if policy = ''admission64'' then 64 else 0)"
proof -
  have inv: "gp_inv (fold gp_step cs s)"
    by (rule fold_invariant_step [where I = gp_inv]) (simp_all add: gp_inv_init [OF assms] gp_step_inv)
  have cap: "gp_capacity (gp_step c u) = gp_capacity u" for c u
    by (cases c) (simp_all add: gp_step_capacity)
  have "gp_capacity (fold gp_step cs s) = gp_capacity s"
    by (rule fold_invariant_step [where I = "\<lambda>u. gp_capacity u = gp_capacity s"]) (simp_all add: cap)
  moreover have "gp_capacity s =
      (if policy = ''fine32'' then 32 else if policy = ''admission64'' then 64 else 0)"
    using assms by (auto simp: gdn_policy_init_def VALID_POLICIES_def split: if_splits)
  ultimately show ?thesis using inv by (simp add: gp_inv_def gp_resident_keys_def gp_len_def)
qed

definition example_gp_calls :: "gp_call list" where
  "example_gp_calls = [GpAdmit [(1, replicate 32 1), (2, replicate 32 2)],
     GpSelect [(1, replicate 32 1)] 4, GpForget [(2, replicate 32 2)]]"

lemma gdn_policy_capacity_witness:
  "\<exists>s. gdn_policy_init ''fine32'' = Inr s \<and>
    distinct (gp_resident_keys (fold gp_step example_gp_calls s)) \<and>
    gp_len (fold gp_step example_gp_calls s) \<le> 32"
proof -
  let ?s = "\<lparr>gp_policy = ''fine32'', gp_capacity = 32, gp_resident = []\<rparr>"
  have init: "gdn_policy_init ''fine32'' = Inr ?s"
    by (simp add: gdn_policy_init_def VALID_POLICIES_def)
  show ?thesis
    using gdn_policy_capacity [OF init, of example_gp_calls] init by (intro exI [of _ ?s]) simp
qed


definition example_policy :: gdn_policy where
  "example_policy = \<lparr>gp_policy = ''fine32'', gp_capacity = 2,
     gp_resident = [(1, replicate 32 1), (2, replicate 32 2)]\<rparr>"


text \<open>
  C14: scheduler and worker agree on the saved states. If the worker holds a state for exactly the
  resident keys, and the step's at most two capture points are valid, then executing the evictions
  that \<open>admit\<close> returned, the restore of a resident key that was not just evicted, and the captures
  raises nothing, restores the state saved under the restore key, and leaves a state for exactly the
  keys that are resident afterwards.
\<close>

theorem worker_follows_policy:
  assumes "gp_inv s" and "2 \<le> gp_capacity s" and "\<forall>k \<in> set (gp_resident s). key_ok k"
    and "dom (map_of cache) = set (gp_resident s)"
    and "length points \<le> 2" and "distinct (map fst points)"
    and "\<forall>p \<in> set points. key_ok (snd p) \<and> 0 < fst p \<and> fst p \<le> query_len"
    and "gp_admit (map snd points) s = (Inr evicted, t)"
    and "\<forall>r. restore_key = Some r \<longrightarrow> r \<in> set (gp_resident s) - set evicted"
  shows "\<exists>cache'. wg_step state_at evicted restore_key points query_len cache =
      Inr (case restore_key of None \<Rightarrow> None | Some r \<Rightarrow> map_of cache r, cache') \<and>
    dom (map_of cache') = set (gp_resident t)"
proof -
  let ?ks = "map snd points"
  have res: "gp_resident s = take_last (gp_capacity s) (gp_resident s)"
    and "distinct (gp_resident s)" and cap: "0 < gp_capacity s" and ks: "\<forall>k \<in> set ?ks. key_ok k"
    using assms(1,2,7) by (auto simp: gp_inv_def)
  then obtain e u where run: "gp_admit_loop ?ks s = (Inr e, u)"
      "gp_resident u = take_last (gp_capacity s) (remdups (gp_resident s @ ?ks))"
      "set e \<union> set (gp_resident u) = set (gp_resident s) \<union> set ?ks"
      "set e \<inter> (set (gp_resident u) - set ?ks) = {}"
    using gp_admit_loop_run [OF ks cap _ res] by blast
  have t: "e = evicted" "u = t" using run(1) assms(2,8) by (simp_all add: gp_admit_def py_defs)
  have "length (remdups ?ks) \<le> gp_capacity s"
    using length_remdups_leq [of ?ks] assms(2,5) by simp
  then have "set ?ks \<subseteq> set (gp_resident u)"
    using set_drop_append [of "remdups ?ks"]
    unfolding run(2) remdups_split [of "gp_resident s"] take_last_def by (simp add: subset_iff)
  with run(3,4) have final: "set (gp_resident t) = (set (gp_resident s) - set evicted) \<union> set ?ks"
    unfolding t by blast
  have "\<forall>k \<in> set evicted. key_ok k" using run(3) ks assms(3) unfolding t by blast
  then obtain c where c: "wg_evict evicted cache = Inr c"
      "map_of c = (\<lambda>k. if k \<in> set evicted then None else map_of cache k)"
    using wg_evict_run by blast
  have "wg_restore restore_key c =
      Inr (case restore_key of None \<Rightarrow> None | Some r \<Rightarrow> map_of cache r)"
  proof (cases restore_key)
    case (Some r)
    with assms(3,4,9) c obtain st where "key_ok r" "map_of cache r = Some st" "map_of c r = Some st"
      by fastforce
    with Some show ?thesis by (simp add: wg_restore_def)
  qed (simp add: wg_restore_def)
  moreover have "wg_capture_keys points query_len [] = Inr points"
    using wg_capture_keys_run [of points query_len "[]"] assms(5,6,7) by simp
  moreover have "dom (map_of c) = set (gp_resident s) - set evicted"
    using assms(4) by (auto simp: c(2) dom_def split: if_splits)
  ultimately show ?thesis
    using c(1) final by (simp add: wg_step_def wg_save_keys)
qed

definition example_states :: "(gdn_prefix_key, int) dict" where
  "example_states = [((1, replicate 32 1), 7), ((2, replicate 32 2), 8)]"

definition example_restore :: gdn_prefix_key where
  "example_restore = (2, replicate 32 2)"

definition example_points :: "gdn_capture_point list" where
  "example_points = [(16, (3, replicate 32 3))]"

lemma worker_follows_policy_witness:
  "\<exists>evicted t cache'. gp_admit (map snd example_points) example_policy = (Inr evicted, t) \<and>
    wg_step (\<lambda>n. n + 100) evicted (Some example_restore) example_points 20 example_states =
      Inr (case Some example_restore of None \<Rightarrow> None | Some r \<Rightarrow> map_of example_states r, cache') \<and>
    dom (map_of cache') = set (gp_resident t)"
proof -
  have "fst (gp_admit (map snd example_points) example_policy) = Inr [(1, replicate 32 1)]"
    by code_simp
  then have run: "gp_admit (map snd example_points) example_policy =
      (Inr [(1, replicate 32 1)], snd (gp_admit (map snd example_points) example_policy))"
    by (rule run_pair)
  have "\<exists>cache'. wg_step (\<lambda>n. n + 100) [(1, replicate 32 1)] (Some example_restore) example_points 20
      example_states =
      Inr (case Some example_restore of None \<Rightarrow> None | Some r \<Rightarrow> map_of example_states r, cache') \<and>
    dom (map_of cache') = set (gp_resident (snd (gp_admit (map snd example_points) example_policy)))"
    by (rule worker_follows_policy [OF _ _ _ _ _ _ _ run])
      (auto simp: gp_inv_def example_policy_def key_ok_def is_digest_def example_states_def
        example_restore_def example_points_def)
  then show ?thesis using run by blast
qed

text \<open>
  \<open>select_restore\<close> returns the longest live prefix within \<open>max_blocks\<close> whose state is resident,
  \<open>None\<close> exactly when there is none, and makes it the most recently used key.
\<close>

theorem select_restore_longest:
  assumes "gp_capacity s \<noteq> 0" and "0 < max_blocks" and "gp_select_restore live max_blocks s = (Inr best, t)"
  shows "case best of
      None \<Rightarrow> t = s \<and> (\<forall>i < length live. int i < max_blocks \<longrightarrow> live ! i \<notin> set (gp_resident s))
    | Some key \<Rightarrow> t = s\<lparr>gp_resident := touch_key key (gp_resident s)\<rparr> \<and>
        (\<exists>i < length live. int i < max_blocks \<and> live ! i = key \<and> key \<in> set (gp_resident s) \<and>
           (\<forall>j < length live. i < j \<and> int j < max_blocks \<longrightarrow> live ! j \<notin> set (gp_resident s)))"
proof -
  let ?l = "take (nat max_blocks) live" and ?P = "\<lambda>k. k \<in> set (gp_resident s)"
  have idx: "i < length ?l \<longleftrightarrow> i < length live \<and> int i < max_blocks" for i
    using assms(2) by auto
  have best: "best = fold (\<lambda>key best. if ?P key then Some key else best) ?l None"
    and t: "t = (case best of None \<Rightarrow> s | Some key \<Rightarrow> s\<lparr>gp_resident := touch_key key (gp_resident s)\<rparr>)"
    using assms by (auto simp: gp_select_restore_def py_defs Let_def split: option.splits)
  show ?thesis
  proof (cases "filter ?P ?l")
    case Nil
    then have "best = None" and none: "\<forall>k \<in> set ?l. \<not> ?P k"
      by (simp_all add: best fold_best filter_empty_conv)
    then show ?thesis using t idx none by (auto simp: all_set_conv_all_nth)
  next
    case (Cons x xs)
    then have b: "best = Some (last (filter ?P ?l))" by (simp add: best fold_best)
    have "\<exists>i < length ?l. ?l ! i = last (filter ?P ?l) \<and> ?P (?l ! i) \<and>
        (\<forall>j < length ?l. i < j \<longrightarrow> \<not> ?P (?l ! j))"
      by (rule last_filter_index) (simp add: Cons)
    then show ?thesis using t idx unfolding b by auto
  qed
qed

definition example_live :: "gdn_prefix_key list" where
  "example_live = [(1, replicate 32 1), (2, replicate 32 2), (3, replicate 32 3)]"

lemma select_restore_longest_witness:
  "\<exists>best t. gp_select_restore example_live 3 example_policy = (Inr best, t) \<and>
    (case best of
      None \<Rightarrow> t = example_policy \<and> (\<forall>i < length example_live. int i < 3 \<longrightarrow>
        example_live ! i \<notin> set (gp_resident example_policy))
    | Some key \<Rightarrow> t = example_policy\<lparr>gp_resident := touch_key key (gp_resident example_policy)\<rparr> \<and>
        (\<exists>i < length example_live. int i < 3 \<and> example_live ! i = key \<and>
           key \<in> set (gp_resident example_policy) \<and>
           (\<forall>j < length example_live. i < j \<and> int j < 3 \<longrightarrow>
              example_live ! j \<notin> set (gp_resident example_policy))))"
proof -
  have "fst (gp_select_restore example_live 3 example_policy) = Inr (Some (2, replicate 32 2))"
    by code_simp
  then have run: "gp_select_restore example_live 3 example_policy =
      (Inr (Some (2, replicate 32 2)), snd (gp_select_restore example_live 3 example_policy))"
    by (rule run_pair)
  have "gp_capacity example_policy \<noteq> 0" "(0::int) < 3" by (simp_all add: example_policy_def)
  from select_restore_longest [OF this run] run show ?thesis by blast
qed

text \<open>
  The final state of a prompt is captured at a boundary from which it may be restored: in each
  of the four restore modes, the key that \<open>final_capture_key\<close> returns for a prompt whose complete
  blocks are all hashed is accepted by \<open>restore_key_is_eligible\<close> for the same prompt and mode.
\<close>

theorem final_key_restorable:
  assumes "restore_mode \<in> set VALID_RESTORE_MODES" and "0 < block_size" and "0 < replay_alignment"
    and "\<forall>d \<in> set hashes. is_digest d" and "prompt_tokens div block_size \<le> int (length hashes)"
    and "final_capture_key hashes prompt_tokens block_size restore_mode replay_alignment = Inr (Some key)"
  shows "restore_key_is_eligible key prompt_tokens block_size restore_mode replay_alignment (Some key) =
    Inr True"
proof (cases "restore_mode \<in> {''direct'', ''hybrid64''}")
  case True
  have "key_ok key \<and> prompt_tokens - fst key * block_size \<ge> 2"
    using final_capture_key_direct [OF assms(4,2) True assms(6)] by blast
  then show ?thesis
    using True assms(2,3)
    by (auto simp: restore_key_is_eligible_def GDN_DIRECT_MIN_REPLAY_TOKENS_def Let_def)
next
  case False
  then have mode: "restore_mode \<in> {''chunk64'', ''aligned''}"
    using assms(1) by (auto simp: VALID_RESTORE_MODES_def)
  let ?n = "(prompt_tokens - 1) div replay_alignment * replay_alignment"
  have key: "key_ok key" "fst key * block_size < prompt_tokens" "replay_alignment mod block_size = 0"
    "fst key = min (int (length hashes)) (?n div block_size)"
    using final_capture_key_aligned [OF assms(4,2) mode assms(6)] by blast+
  have "?n \<le> prompt_tokens"
    using div_mult_mod_eq [of "prompt_tokens - 1" replay_alignment]
      pos_mod_sign [OF assms(3), of "prompt_tokens - 1"] by linarith
  then have "?n div block_size \<le> prompt_tokens div block_size"
    using assms(2) by (rule zdiv_mono1)
  with key(4) assms(5) have "fst key = ?n div block_size" by simp
  moreover have "?n mod block_size = 0" using key(3) by (simp add: mod_mult_right_eq [symmetric] dvd_mult mod_eq_0_iff_dvd)
  ultimately have "fst key * block_size = ?n" by (simp add: minus_mod_eq_div_mult [symmetric])
  then have "fst key * block_size mod replay_alignment = 0" by simp
  then show ?thesis
    using key(1,2) mode assms(2,3) by (auto simp: restore_key_is_eligible_def Let_def)
qed

lemma final_key_restorable_witness:
  "final_capture_key [replicate 32 1, replicate 32 2, replicate 32 3, replicate 32 4] 70 16
     ''chunk64'' 64 = Inr (Some (4, replicate 32 4)) \<and>
   restore_key_is_eligible (4, replicate 32 4) 70 16 ''chunk64'' 64 (Some (4, replicate 32 4)) = Inr True"
proof
  show key: "final_capture_key [replicate 32 1, replicate 32 2, replicate 32 3, replicate 32 4] 70 16
     ''chunk64'' 64 = Inr (Some (4, replicate 32 4))" by code_simp
  show "restore_key_is_eligible (4, replicate 32 4) 70 16 ''chunk64'' 64 (Some (4, replicate 32 4)) =
      Inr True"
    by (rule final_key_restorable [OF _ _ _ _ _ key]) (simp_all add: VALID_RESTORE_MODES_def is_digest_def)
qed

text \<open>
  Capping a prefill step at its earliest pending capture boundary leaves a non-empty step that
  contains no boundary in its interior, so that \<open>capture_points_for_step\<close> never raises on it and
  asks for at most one capture, at the very end of the step, and for exactly one if it was shortened.
\<close>

theorem capped_step_captures_at_end:
  assumes "\<forall>k \<in> set targets. key_ok k" and "0 < block_size" and "0 \<le> start" and "start < end"
  shows "\<exists>e points. cap_prefill_end_at_capture_boundary start end targets block_size = Inr e \<and>
    start < e \<and> e \<le> end \<and> capture_points_for_step targets start e block_size = Inr points \<and>
    (points = [] \<or> (\<exists>k \<in> set targets. points = [(e - start, k)] \<and> fst k * block_size = e)) \<and>
    (e < end \<longrightarrow> points \<noteq> [])"
proof -
  obtain e where e: "cap_loop targets start block_size end = Inr e" "start < e" "e \<le> end"
      "e = end \<or> (\<exists>k \<in> set targets. e = fst k * block_size)"
      "\<forall>k \<in> set targets. \<not> (start < fst k * block_size \<and> fst k * block_size < e)"
    using cap_loop_run [OF assms(1), of start "end" block_size] assms(4) by auto
  obtain sel where sel: "select_targets targets start e block_size [] = Inr sel" "wf_dict sel"
      "dom (map_of sel) = {fst k * block_size - start | k. k \<in> set targets \<and> in_step start e block_size k}"
      "\<forall>x k. map_of sel x = Some k \<longrightarrow> k \<in> set targets \<and> in_step start e block_size k \<and>
         x = fst k * block_size - start"
    using select_targets_run [OF assms(1), of "[]" start e block_size] by auto
  have at_end: "fst k * block_size = e" if "k \<in> set targets" "in_step start e block_size k" for k
    using that e(5) by (force simp: in_step_def)
  have entry: "x = e - start \<and> k \<in> set targets \<and> fst k * block_size = e" if "(x, k) \<in> set sel" for x k
  proof -
    have "map_of sel x = Some k" using that by (simp add: wf_dict_map_of [OF sel(2)])
    then have "k \<in> set targets" "in_step start e block_size k" "x = fst k * block_size - start"
      using sel(4) by blast+
    with at_end show ?thesis by simp
  qed
  have shape: "sel = [] \<or> (\<exists>k \<in> set targets. sel = [(e - start, k)] \<and> fst k * block_size = e)"
  proof (cases sel)
    case (Cons p rest)
    have "rest = []"
    proof (cases rest)
      case (Cons q rest')
      then have "fst p = fst q"
        using entry [of "fst p" "snd p"] entry [of "fst q" "snd q"] \<open>sel = p # rest\<close> by simp
      then show ?thesis using sel(2) \<open>sel = p # rest\<close> Cons by (simp add: wf_dict_def)
    qed simp
    moreover obtain x k where "p = (x, k)" by (cases p)
    ultimately show ?thesis using entry [of x k] Cons by auto
  qed simp
  then have sorted: "sort_key fst sel = sel" by auto
  have "sel \<noteq> []" if short: "e < end"
  proof -
    obtain k where k: "k \<in> set targets" "e = fst k * block_size" using e(4) short by auto
    then have "in_step start e block_size k" using e(2) by (simp add: in_step_def)
    with k(1) have "dom (map_of sel) \<noteq> {}" unfolding sel(3) by blast
    then show ?thesis by auto
  qed
  moreover have "capture_points_for_step targets start e block_size = Inr sel"
    using shape sel(1) e(2) assms(3) sorted
    by (auto simp: capture_points_for_step_def Let_def)
  moreover have "cap_prefill_end_at_capture_boundary start end targets block_size = Inr e"
    using e(1) assms by (simp add: cap_prefill_end_at_capture_boundary_def)
  ultimately show ?thesis using e(2,3) shape by blast
qed

lemma capped_step_captures_at_end_witness:
  "\<exists>e points. cap_prefill_end_at_capture_boundary 16 100 [(3, replicate 32 1), (5, replicate 32 2)] 16 =
      Inr e \<and> 16 < e \<and> e \<le> 100 \<and>
    capture_points_for_step [(3, replicate 32 1), (5, replicate 32 2)] 16 e 16 = Inr points \<and>
    (points = [] \<or> (\<exists>k \<in> set [(3, replicate 32 1), (5, replicate 32 2)].
       points = [(e - 16, k)] \<and> fst k * 16 = e)) \<and> (e < 100 \<longrightarrow> points \<noteq> [])"
  by (rule capped_step_captures_at_end) (simp_all add: key_ok_def is_digest_def)

text \<open>
  What a step that ends at \<open>step_end\<close> leaves behind: the last block boundary with a known hash behind which at
  least two tokens are left to be computed.
\<close>

definition replay_boundary :: "bytes list \<Rightarrow> int \<Rightarrow> int \<Rightarrow> int \<Rightarrow> bool" where
  "replay_boundary hashes block_size step_end boundary \<longleftrightarrow>
     (\<exists>k. 0 < k \<and> k \<le> int (length hashes) \<and> boundary = k * block_size \<and> boundary + 2 \<le> step_end \<and>
        (k = int (length hashes) \<or> step_end < boundary + block_size + 2))"

lemma key_of_block_ok:
  assumes "list_all is_digest hashes" "k \<le> int (length hashes)"
  shows "key_of_block hashes k = Inr (if 0 < k then Some (k, hashes ! nat (k - 1)) else None)"
  using assms by (simp add: key_of_block_def make_prefix_key_def list_all_length)

lemma replay_boundary_unique:
  assumes "0 < bs" "0 < k" "k \<le> int (length hashes)" "k * bs + 2 \<le> e" "k = int (length hashes) \<or> e < k * bs + bs + 2"
  shows "replay_boundary hashes bs e b \<longleftrightarrow> b = k * bs"
proof
  assume "replay_boundary hashes bs e b"
  then obtain j where j: "0 < j" "j \<le> int (length hashes)" "b = j * bs" "b + 2 \<le> e"
      "j = int (length hashes) \<or> e < b + bs + 2" by (auto simp: replay_boundary_def)
  have "\<not> j < k"
  proof
    assume "j < k"
    then have "(j + 1) * bs \<le> k * bs" using assms(1) by (intro mult_right_mono) simp_all
    then show False using j(3,5) \<open>j < k\<close> assms(3,4) by (simp add: distrib_right)
  qed
  moreover have "\<not> k < j"
  proof
    assume "k < j"
    then have "(k + 1) * bs \<le> j * bs" using assms(1) by (intro mult_right_mono) simp_all
    then show False using assms(5) \<open>k < j\<close> j(2-4) by (simp add: distrib_right)
  qed
  ultimately show "b = k * bs" using j(3) by simp
next
  assume "b = k * bs"
  then show "replay_boundary hashes bs e b" using assms by (auto simp: replay_boundary_def)
qed

lemma direct_capture_key:
  assumes "list_all is_digest hashes" "0 < bs"
  obtains key where "final_capture_key hashes e bs ''direct'' a = Inr key"
    and "\<And>b. replay_boundary hashes bs e b \<longleftrightarrow> (\<exists>k. key = Some k \<and> b = fst k * bs)"
proof -
  define n where "n = (if e \<le> 1 then 0 else (e - 1) div bs)"
  define m where "m = min (int (length hashes)) n"
  define c where "c = (if 0 < m \<and> e - m * bs < 2 then m - 1 else m)"
  have n: "0 \<le> n" using assms(2) by (simp add: n_def pos_imp_zdiv_nonneg_iff)
  have m: "0 \<le> m" "m \<le> n" "m \<le> int (length hashes)" "m = int (length hashes) \<or> m = n" using n by (auto simp: m_def)
  have c: "0 \<le> c" "c \<le> int (length hashes)" using m by (auto simp: c_def)
  have "strict_prefix_block_count e bs = Inr n" using assms(2) by (simp add: strict_prefix_block_count_def n_def)
  then have "final_capture_key hashes e bs ''direct'' a = key_of_block hashes c"
    by (simp add: final_capture_key_def GDN_DIRECT_MIN_REPLAY_TOKENS_def m_def c_def Let_def)
  then have run: "final_capture_key hashes e bs ''direct'' a = Inr (if 0 < c then Some (c, hashes ! nat (c - 1)) else None)"
    by (simp add: key_of_block_ok [OF assms(1) c(2)])
  have n_bound: "n * bs \<le> e - 1" "e - 1 < n * bs + bs" if "1 < e"
  proof -
    have "n * bs + (e - 1) mod bs = e - 1" using that by (simp add: n_def)
    moreover have "0 \<le> (e - 1) mod bs" "(e - 1) mod bs < bs" using assms(2) by simp_all
    ultimately show "n * bs \<le> e - 1" "e - 1 < n * bs + bs" by linarith+
  qed
  have m_bound: "m * bs \<le> e - 1" if "1 < e"
    using n_bound(1) [OF that] mult_right_mono [OF m(2), of bs] assms(2) by linarith
  have "replay_boundary hashes bs e b \<longleftrightarrow> 0 < c \<and> b = c * bs" for b
  proof (cases "0 < c")
    case True
    then have e: "1 < e" using m by (auto simp: c_def n_def split: if_splits)
    have "c * bs + 2 \<le> e"
      using m_bound [OF e] assms(2) True by (auto simp: c_def left_diff_distrib split: if_splits)
    moreover have "c = int (length hashes) \<or> e < c * bs + bs + 2"
      using m(4) n_bound(2) [OF e] m_bound [OF e] by (auto simp: c_def left_diff_distrib)
    ultimately show ?thesis using replay_boundary_unique [OF assms(2) True c(2)] True by simp
  next
    case False
    have "\<not> replay_boundary hashes bs e b"
    proof
      assume "replay_boundary hashes bs e b"
      then obtain k where k: "0 < k" "k \<le> int (length hashes)" "k * bs + 2 \<le> e" by (auto simp: replay_boundary_def)
      have "bs \<le> k * bs" using mult_right_mono [of 1 k bs] k(1) assms(2) by simp
      then have e: "1 < e" "bs \<le> e - 2" using k(3) assms(2) by linarith+
      then have "0 < n" using assms(2) by (simp add: n_def pos_imp_zdiv_pos_iff)
      then have "0 < m" using k(1,2) unfolding m_def by linarith
      then have "m = 1" "e - m * bs < 2" using False c(1) by (auto simp: c_def split: if_splits)
      then show False using e(2) by simp
    qed
    then show ?thesis using False by simp
  qed
  then show thesis using that [OF run] by (cases "0 < c") auto
qed

lemma segment_boundaries_run:
  assumes "list_all is_digest hashes" "0 < bs" "finite B"
  shows "\<exists>B'. segment_boundaries hashes bs ends B = Inr B' \<and> finite B' \<and>
    B' = B \<union> {b. \<exists>e \<in> set ends. replay_boundary hashes bs e b}"
  using assms(3)
proof (induction ends arbitrary: B)
  case (Cons e ends)
  obtain key where key: "final_capture_key hashes e bs ''direct'' bs = Inr key"
    "\<And>b. replay_boundary hashes bs e b \<longleftrightarrow> (\<exists>k. key = Some k \<and> b = fst k * bs)"
    by (rule direct_capture_key [OF assms(1,2), of e bs]) blast
  let ?B = "case key of None \<Rightarrow> B | Some k \<Rightarrow> insert (fst k * bs) B"
  have "?B = B \<union> {b. replay_boundary hashes bs e b}" "finite ?B"
    using Cons.prems by (auto simp: key(2) split: option.split)
  with Cons.IH [of ?B] key(1) show ?case by auto
qed simp

lemma py_range_multiples:
  assumes "0 < step" "step dvd start"
  shows "set (py_range start stop step) = {x. step dvd x \<and> start \<le> x \<and> x < stop}"
  using assms
proof (induction start stop step rule: py_range.induct)
  case (1 start stop step)
  show ?case
  proof (cases "start < stop")
    case True
    have next_multiple: "x = start \<or> start + step \<le> x" if "step dvd x" "start \<le> x" for x
    proof -
      obtain a where "x = step * a" using \<open>step dvd x\<close> by (rule dvdE)
      moreover obtain b where "start = step * b" using 1(3) by (rule dvdE)
      moreover have "step * (b + 1) \<le> step * a" if "b < a" using 1(2) that by (intro mult_left_mono) simp_all
      ultimately show ?thesis using that(2) 1(2) by (cases "b < a") (auto simp: distrib_left)
    qed
    have rest: "set (py_range (start + step) stop step) = {x. step dvd x \<and> start + step \<le> x \<and> x < stop}"
      using 1 True by simp
    have step: "py_range start stop step = start # py_range (start + step) stop step"
      using True 1(2) by (simp add: py_range.simps [of start])
    have "x \<in> set (py_range start stop step) \<longleftrightarrow> step dvd x \<and> start \<le> x \<and> x < stop" for x
    proof (cases "x = start")
      case False
      then have "x \<in> set (py_range start stop step) \<longleftrightarrow> step dvd x \<and> start + step \<le> x \<and> x < stop"
        by (simp add: step rest)
      also have "\<dots> \<longleftrightarrow> step dvd x \<and> start \<le> x \<and> x < stop" using next_multiple [of x] False 1(2) by linarith
      finally show ?thesis .
    qed (use True 1(3) in \<open>simp add: step\<close>)
    then show ?thesis by blast
  qed (subst py_range.simps, auto)
qed

lemma warm_is_shifted_cold:
  assumes "canonical_direct_segment_offsets hashes 0 logical_end block_size chunk = Inr cold"
    and "0 \<le> context_tokens"
  shows "canonical_direct_segment_offsets hashes context_tokens logical_end block_size chunk =
    Inr (map (\<lambda>boundary. boundary - context_tokens) (filter (\<lambda>boundary. context_tokens < boundary) cold))"
proof (cases "logical_end \<le> 0")
  case True
  then show ?thesis using assms by (simp add: canonical_direct_segment_offsets_def split: if_splits)
next
  case False
  let ?ends = "py_range chunk logical_end chunk"
  obtain B where B: "segment_boundaries hashes block_size (?ends @ [logical_end]) {} = Inr B"
    and cold: "cold = filter (\<lambda>b. 0 < b \<and> b < logical_end) (sorted_list_of_set (B \<union> set ?ends))"
    and pre: "0 < block_size" "0 < chunk" "chunk mod block_size = 0" "0 \<le> logical_end"
    using assms(1) False by (auto simp: canonical_direct_segment_offsets_def Let_def ebind_Inr_iff)
  show ?thesis
  proof (cases "logical_end \<le> context_tokens")
    case True
    then have "filter (\<lambda>b. context_tokens < b) cold = []" by (auto simp: cold filter_empty_conv)
    with True show ?thesis using pre assms(2) by (simp add: canonical_direct_segment_offsets_def)
  next
    case False
    have "filter (\<lambda>b. context_tokens < b) cold =
        filter (\<lambda>b. context_tokens < b \<and> b < logical_end) (sorted_list_of_set (B \<union> set ?ends))"
      using assms(2) by (simp add: cold) (rule filter_cong, auto)
    with False show ?thesis
      using pre assms(2) B by (simp add: canonical_direct_segment_offsets_def Let_def)
  qed
qed

text \<open>
  C15: the segments of a prefill, cold and after a fast-forward. For positive sizes, a chunk that is a multiple of
  the block and valid hashes, the boundaries of a cold run up to \<open>logical_end\<close> are, in ascending order and
  strictly inside, exactly the ends of the scheduler's chunks and, for each of these ends and for
  \<open>logical_end\<close> itself, the last block boundary with a hash behind which at least two tokens remain. After a
  fast-forward to \<open>context_tokens\<close> the boundaries are those beyond it, shifted: warm and cold prefills split the
  remaining tokens alike.
\<close>

theorem warm_segments_match_cold:
  assumes "list_all is_digest hashes" "0 < block_size" "0 < chunk" "chunk mod block_size = 0"
    and "0 \<le> context_tokens" "0 \<le> logical_end"
  shows "\<exists>cold. canonical_direct_segment_offsets hashes 0 logical_end block_size chunk = Inr cold \<and>
    sorted_wrt (<) cold \<and>
    set cold = {b. 0 < b \<and> b < logical_end \<and> (chunk dvd b \<or>
      (\<exists>step_end. (step_end = logical_end \<or> chunk dvd step_end \<and> 0 < step_end \<and> step_end < logical_end) \<and>
        replay_boundary hashes block_size step_end b))} \<and>
    canonical_direct_segment_offsets hashes context_tokens logical_end block_size chunk =
      Inr (map (\<lambda>boundary. boundary - context_tokens) (filter (\<lambda>boundary. context_tokens < boundary) cold))"
proof -
  let ?ends = "py_range chunk logical_end chunk"
  let ?inside = "{b. 0 < b \<and> b < logical_end \<and> (chunk dvd b \<or>
      (\<exists>step_end. (step_end = logical_end \<or> chunk dvd step_end \<and> 0 < step_end \<and> step_end < logical_end) \<and>
        replay_boundary hashes block_size step_end b))}"
  have "\<exists>cold. canonical_direct_segment_offsets hashes 0 logical_end block_size chunk = Inr cold \<and>
    sorted_wrt (<) cold \<and> set cold = ?inside"
  proof (cases "logical_end = 0")
    case True
    have "canonical_direct_segment_offsets hashes 0 logical_end block_size chunk = Inr []"
      using True assms by (simp add: canonical_direct_segment_offsets_def)
    then show ?thesis using True by auto
  next
    case False
    obtain B where B: "segment_boundaries hashes block_size (?ends @ [logical_end]) {} = Inr B" "finite B"
      "B = {} \<union> {b. \<exists>e \<in> set (?ends @ [logical_end]). replay_boundary hashes block_size e b}"
      using segment_boundaries_run [OF assms(1,2) finite.emptyI] by blast
    have "chunk \<le> x" if "chunk dvd x" "0 < x" for x using zdvd_imp_le [OF that] .
    then have ends: "set ?ends = {x. chunk dvd x \<and> 0 < x \<and> x < logical_end}"
      using py_range_multiples [OF assms(3) dvd_refl, of logical_end] assms(3) by auto
    let ?cold = "filter (\<lambda>b. 0 < b \<and> b < logical_end) (sorted_list_of_set (B \<union> set ?ends))"
    have "canonical_direct_segment_offsets hashes 0 logical_end block_size chunk = Inr ?cold"
      using assms False B(1) by (simp add: canonical_direct_segment_offsets_def Let_def)
    moreover have "sorted_wrt (<) ?cold" by (intro sorted_wrt_filter strict_sorted_list_of_set)
    moreover have "set ?cold = ?inside"
    proof -
      have "b \<in> B \<longleftrightarrow> (\<exists>step_end. (step_end = logical_end \<or> chunk dvd step_end \<and> 0 < step_end \<and> step_end < logical_end) \<and>
          replay_boundary hashes block_size step_end b)" for b
        unfolding B(3) set_append ends by auto
      moreover have "b \<in> set ?cold \<longleftrightarrow> 0 < b \<and> b < logical_end \<and> (b \<in> B \<or> b \<in> set ?ends)" for b
        using B(2) by auto
      moreover have "b \<in> set ?ends \<longleftrightarrow> chunk dvd b \<and> 0 < b \<and> b < logical_end" for b
        unfolding ends by simp
      ultimately have "b \<in> set ?cold \<longleftrightarrow> b \<in> ?inside" for b by (simp only: mem_Collect_eq) argo
      then show ?thesis by (rule set_eqI)
    qed
    ultimately show ?thesis by blast
  qed
  then show ?thesis using warm_is_shifted_cold assms(5) by blast
qed

text \<open>The worker accepts the segments that the scheduler sends it, up to its limit of 128.\<close>

lemma worker_accepts_segments:
  assumes "canonical_direct_segment_offsets hashes context_tokens logical_end block_size chunk = Inr offsets"
    and "length offsets \<le> 128"
  shows "wg_segments offsets (logical_end - context_tokens) {} = Inr offsets"
proof -
  obtain A where offsets: "offsets = [] \<or> offsets = map (\<lambda>b. b - context_tokens)
      (filter (\<lambda>b. context_tokens < b \<and> b < logical_end) (sorted_list_of_set A))"
    using assms(1) by (auto simp: canonical_direct_segment_offsets_def Let_def ebind_Inr_iff split: if_splits)
  have "sorted_wrt (<) offsets" "\<forall>x \<in> set offsets. 0 < x \<and> x < logical_end - context_tokens"
  proof -
    have "sorted_wrt (<) (filter (\<lambda>b. context_tokens < b \<and> b < logical_end) (sorted_list_of_set A))"
      by (intro sorted_wrt_filter strict_sorted_list_of_set)
    then show "sorted_wrt (<) offsets" using offsets by (auto simp: sorted_wrt_map)
  qed (use offsets in auto)
  moreover from this have "sorted_list_of_set (set offsets) = offsets" "card (set offsets) = length offsets"
    by (simp_all add: strict_sorted_iff distinct_card sorted_list_of_set.idem_if_sorted_distinct)
  ultimately show ?thesis using wg_segments_run [of offsets "logical_end - context_tokens" "{}"] assms(2) by simp
qed

definition example_hashes :: "bytes list" where
  "example_hashes = map (\<lambda>n. replicate 32 n) [1, 2, 3, 4, 5]"

lemma warm_segments_match_cold_witness:
  "\<exists>cold. canonical_direct_segment_offsets example_hashes 0 81 16 32 = Inr cold \<and> cold = [16, 32, 48, 64] \<and>
    set cold = {b. 0 < b \<and> b < 81 \<and> (32 dvd b \<or> (\<exists>step_end. (step_end = 81 \<or> 32 dvd step_end \<and> 0 < step_end \<and> step_end < 81) \<and>
      replay_boundary example_hashes 16 step_end b))} \<and>
    canonical_direct_segment_offsets example_hashes 32 81 16 32 = Inr [16, 32]"
proof -
  have h: "list_all is_digest example_hashes" by (simp add: example_hashes_def is_digest_def)
  have "canonical_direct_segment_offsets example_hashes 0 81 16 32 = Inr [16, 32, 48, 64]"
    by code_simp
  with warm_segments_match_cold [OF h, of 16 32 32 81] show ?thesis by auto
qed

end
