(* ===== verification/SchedulerCore.thy ===== *)
theory SchedulerCore
  imports GdnPrefix
begin

text \<open>
  \<^verbatim>\<open>qwen3_6_scripts/scheduler.py\<close>: the decisions of the scheduler that are functions of token counts.
  \<open>budget\<close> is \<open>SchedulingBudget\<close>; the planning of a GDN fast-forward, the capping of a step at a
  capture boundary, the chunking of a prefill and the delay of prompts follow. The queues of the
  scheduler, whose loops use these decisions, are in \<open>Scheduler\<close>.
\<close>

section \<open>SchedulingBudget\<close>

type_synonym req_id = string

record budget =
  bg_token_budget :: int
  bg_max_num_seqs :: int
  bg_ids_num_batched_tokens :: "req_id set"
  bg_ids_num_curr_seqs :: "req_id set"
  bg_num_batched_tokens :: int
  bg_num_scheduled_tokens :: int
  bg_request_num_scheduled_tokens :: "(req_id, int) dict"
  bg_num_curr_seqs :: int

definition new_budget :: "int \<Rightarrow> int \<Rightarrow> budget" where
  "new_budget token_budget max_num_seqs =
     \<lparr>bg_token_budget = token_budget, bg_max_num_seqs = max_num_seqs,
      bg_ids_num_batched_tokens = {}, bg_ids_num_curr_seqs = {}, bg_num_batched_tokens = 0,
      bg_num_scheduled_tokens = 0, bg_request_num_scheduled_tokens = [], bg_num_curr_seqs = 0\<rparr>"

definition bg_can_schedule :: "int \<Rightarrow> int \<Rightarrow> (budget, bool) py" where
  "bg_can_schedule num_new_tokens num_new_seqs =
     andthen (guard AssertionError (num_new_tokens \<noteq> 0))
    (andthen (guard AssertionError (num_new_seqs \<noteq> 0))
    (gets (\<lambda>s. bg_num_batched_tokens s + num_new_tokens \<le> bg_token_budget s \<and>
       bg_num_curr_seqs s + num_new_seqs \<le> bg_max_num_seqs s)))"

definition bg_remaining_token_budget :: "budget \<Rightarrow> int" where
  "bg_remaining_token_budget s = bg_token_budget s - bg_num_batched_tokens s"

definition bg_add_num_batched_tokens :: "req_id \<Rightarrow> int \<Rightarrow> int option \<Rightarrow> budget \<Rightarrow> budget" where
  "bg_add_num_batched_tokens r num_batched_tokens num_scheduled_tokens s =
     (if r \<in> bg_ids_num_batched_tokens s then s
      else let n = (case num_scheduled_tokens of None \<Rightarrow> num_batched_tokens | Some n \<Rightarrow> n) in
        s\<lparr>bg_ids_num_batched_tokens := insert r (bg_ids_num_batched_tokens s),
          bg_num_batched_tokens := bg_num_batched_tokens s + num_batched_tokens,
          bg_num_scheduled_tokens := bg_num_scheduled_tokens s + n,
          bg_request_num_scheduled_tokens :=
            AList.update r n (bg_request_num_scheduled_tokens s)\<rparr>)"

definition bg_subtract_num_batched_tokens :: "req_id \<Rightarrow> int \<Rightarrow> (budget, unit) py" where
  "bg_subtract_num_batched_tokens r num_batched_tokens =
     bind (gets (\<lambda>s. r \<in> bg_ids_num_batched_tokens s)) (\<lambda>known.
     if \<not> known then return ()
     else andthen (modify (\<lambda>s. s\<lparr>bg_ids_num_batched_tokens := bg_ids_num_batched_tokens s - {r},
              bg_num_batched_tokens := bg_num_batched_tokens s - num_batched_tokens\<rparr>))
         (bind (gets (\<lambda>s. map_of (bg_request_num_scheduled_tokens s) r)) (\<lambda>n.
          bind (from_option KeyError n) (\<lambda>n.
          modify (\<lambda>s. s\<lparr>bg_num_scheduled_tokens := bg_num_scheduled_tokens s - n,
            bg_request_num_scheduled_tokens :=
              AList.delete r (bg_request_num_scheduled_tokens s)\<rparr>)))))"

definition bg_add_num_seqs :: "req_id \<Rightarrow> int \<Rightarrow> budget \<Rightarrow> budget" where
  "bg_add_num_seqs r num_curr_seqs s =
     (if r \<in> bg_ids_num_curr_seqs s then s
      else s\<lparr>bg_ids_num_curr_seqs := insert r (bg_ids_num_curr_seqs s),
             bg_num_curr_seqs := bg_num_curr_seqs s + num_curr_seqs\<rparr>)"

definition bg_subtract_num_seqs :: "req_id \<Rightarrow> int \<Rightarrow> budget \<Rightarrow> budget" where
  "bg_subtract_num_seqs r num_curr_seqs s =
     (if r \<in> bg_ids_num_curr_seqs s
      then s\<lparr>bg_ids_num_curr_seqs := bg_ids_num_curr_seqs s - {r},
             bg_num_curr_seqs := bg_num_curr_seqs s - num_curr_seqs\<rparr>
      else s)"

section \<open>Prefix fast-forward\<close>

definition plan_gdn_prefix_fast_forward :: "gdn_prefix_key option \<Rightarrow> int \<Rightarrow> int \<Rightarrow> int \<Rightarrow> int \<Rightarrow> int
    \<Rightarrow> int option \<Rightarrow> exn + int \<times> int" where
  "plan_gdn_prefix_fast_forward restore_key num_computed_tokens prompt_len nominal_chunk_size
     remaining_token_budget block_size logical_chunk_alignment =
     (let fallback = (nominal_chunk_size, nominal_chunk_size) in
      case restore_key of None \<Rightarrow> Inr fallback
      | Some key \<Rightarrow>
        if num_computed_tokens \<noteq> 0 \<or> prompt_len \<le> 0 \<or> nominal_chunk_size \<le> 0 \<or>
           remaining_token_budget \<le> 0 \<or> block_size \<le> 0
        then Inr fallback
        else let checkpoint_tokens = fst key * block_size;
                 logical_limit = checkpoint_tokens + remaining_token_budget
          in ebind (case logical_chunk_alignment of
                None \<Rightarrow> Inr logical_limit
              | Some alignment \<Rightarrow>
                  if alignment \<le> 0 \<or> alignment mod block_size \<noteq> 0 then Inl ValueError
                  else Inr (min logical_limit ((checkpoint_tokens div alignment + 1) * alignment)))
             (\<lambda>logical_limit.
              let logical_chunk_size = min prompt_len logical_limit;
                  physical_query_tokens = logical_chunk_size - checkpoint_tokens
              in if physical_query_tokens \<le> 0 \<or> physical_query_tokens > remaining_token_budget
                 then Inr fallback
                 else if logical_chunk_size \<le> nominal_chunk_size \<and>
                     (logical_chunk_alignment = None \<or> physical_query_tokens \<ge> nominal_chunk_size)
                 then Inr fallback
                 else Inr (logical_chunk_size, physical_query_tokens)))"

text \<open>
  \<open>_cap_gdn_capture_boundary\<close>; what it reads of the scheduler and the sequence group: the policy,
  the capture targets of the request, the number of sequences, whether the group is in prefill, the
  computed tokens of its first sequence and the block size.
\<close>

definition cap_gdn_capture_boundary :: "string \<Rightarrow> gdn_prefix_key list \<Rightarrow> nat \<Rightarrow> bool \<Rightarrow> int \<Rightarrow> int
    \<Rightarrow> int \<Rightarrow> int \<Rightarrow> exn + int \<times> int" where
  "cap_gdn_capture_boundary policy targets num_seqs is_prefill num_computed_tokens block_size
     token_chunk_size physical_query_tokens =
     (if policy \<noteq> ''admission64'' \<or> targets = []
      then Inr (token_chunk_size, physical_query_tokens)
      else if token_chunk_size \<le> 0 \<or> physical_query_tokens \<le> 0 then Inl RuntimeError
      else if num_seqs \<noteq> 1 \<or> \<not> is_prefill then Inl RuntimeError
      else let logical_end_tokens = num_computed_tokens + token_chunk_size;
               logical_start_tokens = logical_end_tokens - physical_query_tokens
        in if logical_start_tokens < num_computed_tokens then Inl RuntimeError
           else ebind (cap_prefill_end_at_capture_boundary logical_start_tokens logical_end_tokens
                         targets block_size) (\<lambda>capped_end_tokens.
             if capped_end_tokens = logical_end_tokens
             then Inr (token_chunk_size, physical_query_tokens)
             else let capped_chunk_size = capped_end_tokens - num_computed_tokens;
                      capped_query_tokens = capped_end_tokens - logical_start_tokens
               in if capped_chunk_size \<le> 0 \<or> capped_query_tokens \<le> 0 then Inl RuntimeError
                  else Inr (capped_chunk_size, capped_query_tokens)))"

section \<open>Chunking, lookahead and delay\<close>

record scheduler_config =
  sc_max_num_batched_tokens :: int
  sc_max_num_seqs :: int
  sc_max_model_len :: int
  sc_chunked_prefill_enabled :: bool
  sc_is_multi_step :: bool
  sc_num_lookahead_slots :: int
  sc_delay_factor :: rat
  sc_enable_prefix_caching :: bool
  sc_block_size :: int

text \<open>\<open>long_lora\<close> is the fine-tuned length of the group's LoRA request when it has one.\<close>

definition get_prompt_limit :: "scheduler_config \<Rightarrow> int option \<Rightarrow> exn + int" where
  "get_prompt_limit c long_lora =
     (let prompt_limit =
        (if sc_chunked_prefill_enabled c \<and> \<not> sc_is_multi_step c then sc_max_model_len c
         else min (sc_max_model_len c) (sc_max_num_batched_tokens c))
      in case long_lora of
           Some n \<Rightarrow> if n \<noteq> 0 then echeck AssertionError (prompt_limit \<le> n) (Inr n) else Inr prompt_limit
         | None \<Rightarrow> Inr prompt_limit)"

definition get_num_lookahead_slots :: "scheduler_config \<Rightarrow> bool \<Rightarrow> bool \<Rightarrow> int" where
  "get_num_lookahead_slots c is_prefill enable_chunking =
     (if is_prefill then
        (if sc_is_multi_step c \<and> enable_chunking then sc_num_lookahead_slots c + 1 else 0)
      else sc_num_lookahead_slots c)"

text \<open>\<open>_get_num_new_tokens\<close>; \<open>new_tokens\<close> are the new tokens of the group's sequences in the status.\<close>

definition get_num_new_tokens :: "scheduler_config \<Rightarrow> int option \<Rightarrow> int list \<Rightarrow> bool \<Rightarrow> budget
    \<Rightarrow> exn + int" where
  "get_num_new_tokens c long_lora new_tokens enable_chunking budget =
     (let num_new_tokens = sum_list new_tokens in
      echeck AssertionError (0 < num_new_tokens)
      (if enable_chunking \<and> length new_tokens = 1 then
         let remaining = bg_remaining_token_budget budget in
         if sc_is_multi_step c then
           ebind (get_prompt_limit c long_lora) (\<lambda>limit.
             if num_new_tokens > limit then Inr num_new_tokens
             else Inr (if num_new_tokens > remaining then 0 else num_new_tokens))
         else if sc_enable_prefix_caching c then
           (if sc_block_size c = 0 then Inl ZeroDivisionError
            else if bg_token_budget budget mod sc_block_size c \<noteq> 0 then Inl ValueError
            else Inr (if remaining < num_new_tokens
                      then remaining div sc_block_size c * sc_block_size c else num_new_tokens))
         else Inr (min num_new_tokens remaining)
       else Inr num_new_tokens))"

record delay_state =
  ds_prev_time :: rat
  ds_prev_prompt :: bool
  ds_last_prompt_latency :: rat

text \<open>\<open>_passed_delay\<close>; the arrival times of the waiting groups and whether any group is running.\<close>

definition passed_delay :: "scheduler_config \<Rightarrow> rat \<Rightarrow> rat list \<Rightarrow> bool \<Rightarrow> (delay_state, bool) py" where
  "passed_delay c now arrivals running =
     andthen (modify (\<lambda>s. if ds_prev_prompt s
         then s\<lparr>ds_last_prompt_latency := now - ds_prev_time s\<rparr> else s))
    (andthen (modify (\<lambda>s. s\<lparr>ds_prev_time := now, ds_prev_prompt := False\<rparr>))
    (gets (\<lambda>s. if sc_delay_factor c > 0 \<and> arrivals \<noteq> [] then
         now - fold min (tl arrivals) (hd arrivals) > sc_delay_factor c * ds_last_prompt_latency s \<or>
         \<not> running
       else True)))"

section \<open>Properties\<close>

datatype budget_call = BgAdd req_id int "int option" | BgSubtract req_id int
  | BgAddSeqs req_id int | BgSubtractSeqs req_id int

fun bg_step :: "budget_call \<Rightarrow> budget \<Rightarrow> budget" where
  "bg_step (BgAdd r n m) s = bg_add_num_batched_tokens r n m s"
| "bg_step (BgSubtract r n) s = snd (bg_subtract_num_batched_tokens r n s)"
| "bg_step (BgAddSeqs r n) s = bg_add_num_seqs r n s"
| "bg_step (BgSubtractSeqs r n) s = bg_subtract_num_seqs r n s"

definition bg_inv :: "budget \<Rightarrow> bool" where
  "bg_inv s \<longleftrightarrow> wf_dict (bg_request_num_scheduled_tokens s) \<and>
     fst ` set (bg_request_num_scheduled_tokens s) = bg_ids_num_batched_tokens s \<and>
     bg_num_scheduled_tokens s = sum_list (map snd (bg_request_num_scheduled_tokens s))"

lemma bg_step_inv: "bg_inv s \<Longrightarrow> bg_inv (bg_step c s)"
proof (cases c)
  case (BgAdd r n m)
  then show "bg_inv s \<Longrightarrow> ?thesis"
    by (auto simp: bg_inv_def bg_add_num_batched_tokens_def Let_def dict_append_sum dom_update)
next
  case (BgSubtract r n)
  assume inv: "bg_inv s"
  show ?thesis
  proof (cases "r \<in> bg_ids_num_batched_tokens s")
    case True
    then have "r \<in> dom (map_of (bg_request_num_scheduled_tokens s))"
      using inv by (simp add: bg_inv_def dict_keys)
    then obtain k where k: "map_of (bg_request_num_scheduled_tokens s) r = Some k" by blast
    then show ?thesis
      using inv BgSubtract True dict_delete_sum [OF _ k]
      by (simp add: bg_inv_def bg_subtract_num_batched_tokens_def py_defs dict_delete_keys)
  next
    case False
    then show ?thesis using inv BgSubtract by (simp add: bg_subtract_num_batched_tokens_def py_defs)
  qed
qed (auto simp: bg_inv_def bg_add_num_seqs_def bg_subtract_num_seqs_def)

lemma bg_history_inv: "bg_inv (fold bg_step cs (new_budget n m))"
  by (rule fold_invariant_step) (simp_all add: bg_step_inv, simp add: bg_inv_def new_budget_def)

text \<open>
  C16: whatever the order and the arguments of the calls on a \<open>SchedulingBudget\<close>, the requests that
  it counts are exactly the keys of its dict of scheduled tokens, the number of scheduled tokens is
  the sum over that dict, and subtracting a request never raises.
\<close>

theorem budget_consistent:
  "fst ` set (bg_request_num_scheduled_tokens (fold bg_step cs (new_budget n m))) =
     bg_ids_num_batched_tokens (fold bg_step cs (new_budget n m)) \<and>
   bg_num_scheduled_tokens (fold bg_step cs (new_budget n m)) =
     sum_list (map snd (bg_request_num_scheduled_tokens (fold bg_step cs (new_budget n m)))) \<and>
   fst (bg_subtract_num_batched_tokens r k (fold bg_step cs (new_budget n m))) = Inr ()"
proof -
  let ?s = "fold bg_step cs (new_budget n m)"
  have inv: "bg_inv ?s" by (rule bg_history_inv)
  have "r \<in> bg_ids_num_batched_tokens ?s \<Longrightarrow> map_of (bg_request_num_scheduled_tokens ?s) r \<noteq> None"
    using inv by (auto simp: bg_inv_def dict_keys)
  then have "fst (bg_subtract_num_batched_tokens r k ?s) = Inr ()"
    by (auto simp: bg_subtract_num_batched_tokens_def py_defs)
  with inv show ?thesis by (simp add: bg_inv_def)
qed

text \<open>
  Adding a request's tokens is idempotent, and subtracting what was added gives the budget back
  (the dict of scheduled tokens included), so rejected groups leave no trace.
\<close>

theorem budget_add_subtract:
  assumes "r \<notin> bg_ids_num_batched_tokens s" and "fst ` set (bg_request_num_scheduled_tokens s) =
    bg_ids_num_batched_tokens s"
  shows "bg_add_num_batched_tokens r n' m' (bg_add_num_batched_tokens r n m s) =
      bg_add_num_batched_tokens r n m s \<and>
    bg_subtract_num_batched_tokens r n (bg_add_num_batched_tokens r n m s) = (Inr (), s)"
proof -
  have "AList.delete r (AList.update r k (bg_request_num_scheduled_tokens s)) =
      bg_request_num_scheduled_tokens s" for k
    using assms by (simp add: dict_append dict_delete_appended)
  with assms(1) show ?thesis
    by (simp add: bg_add_num_batched_tokens_def bg_subtract_num_batched_tokens_def py_defs Let_def
        dict_simps)
qed

lemma budget_add_subtract_witness:
  "bg_add_num_batched_tokens ''a'' 9 None (bg_add_num_batched_tokens ''a'' 5 (Some 70) (new_budget 64 8)) =
     bg_add_num_batched_tokens ''a'' 5 (Some 70) (new_budget 64 8) \<and>
   bg_subtract_num_batched_tokens ''a'' 5
     (bg_add_num_batched_tokens ''a'' 5 (Some 70) (new_budget 64 8)) = (Inr (), new_budget 64 8)"
  by (rule budget_add_subtract) (simp_all add: new_budget_def)

text \<open>
  A fast-forward never overdraws the budget and never skips work: \<open>_plan_gdn_prefix_fast_forward\<close>
  either leaves the nominal chunk, or returns a logical chunk within the prompt together with exactly
  the query tokens that follow the restored checkpoint, at least one and at most the remaining
  budget, and with an alignment no aligned boundary lies strictly inside the query. It raises only
  for an alignment that is not a positive multiple of the block size.
\<close>

theorem fast_forward_within_budget:
  assumes "\<forall>a. alignment = Some a \<longrightarrow> 0 < a \<and> a mod block_size = 0"
  shows "\<exists>logical physical. plan_gdn_prefix_fast_forward restore_key num_computed prompt_len nominal
      remaining block_size alignment = Inr (logical, physical) \<and>
    ((logical, physical) = (nominal, nominal) \<or>
     (\<exists>key. restore_key = Some key \<and> num_computed = 0 \<and> logical = fst key * block_size + physical \<and>
        0 < physical \<and> physical \<le> remaining \<and> logical \<le> prompt_len \<and>
        (\<forall>a k. alignment = Some a \<longrightarrow> fst key * block_size < k * a \<longrightarrow> logical \<le> k * a)))"
proof (cases restore_key)
  case (Some key)
  define cp where "cp = fst key * block_size"
  define limit where "limit = (case alignment of None \<Rightarrow> cp + remaining
      | Some a \<Rightarrow> min (cp + remaining) ((cp div a + 1) * a))"
  have lim: "(case alignment of None \<Rightarrow> Inr (cp + remaining)
      | Some a \<Rightarrow> if a \<le> 0 \<or> a mod block_size \<noteq> 0 then Inl ValueError
                  else Inr (min (cp + remaining) ((cp div a + 1) * a))) = Inr limit"
    using assms by (auto simp: limit_def split: option.splits)
  have next_boundary: "limit \<le> k * a" if "alignment = Some a" "cp < k * a" for a k
  proof -
    have a: "0 < a" using assms that(1) by simp
    have "cp div a < k"
    proof (rule ccontr)
      assume "\<not> cp div a < k"
      then have "k * a \<le> cp div a * a" using a by (intro mult_right_mono) simp_all
      also have "\<dots> \<le> cp" using div_mult_mod_eq [of cp a] pos_mod_sign [OF a, of cp] by linarith
      finally show False using that(2) by simp
    qed
    then have "(cp div a + 1) * a \<le> k * a" using a by (intro mult_right_mono) simp_all
    then show ?thesis using that(1) by (simp add: limit_def)
  qed
  show ?thesis
    using Some lim next_boundary
    by (simp add: plan_gdn_prefix_fast_forward_def Let_def cp_def [symmetric])
      (auto simp: min_le_iff_disj)
qed (simp add: plan_gdn_prefix_fast_forward_def)

lemma fast_forward_within_budget_witness:
  "\<exists>logical physical. plan_gdn_prefix_fast_forward (Some example_restore) 0 300 64 64 16 (Some 128) =
      Inr (logical, physical) \<and>
    ((logical, physical) = (64, 64) \<or>
     (\<exists>key. Some example_restore = Some key \<and> (0 :: int) = 0 \<and> logical = fst key * 16 + physical \<and>
        0 < physical \<and> physical \<le> 64 \<and> logical \<le> 300 \<and>
        (\<forall>a k. Some 128 = Some a \<longrightarrow> fst key * 16 < k * a \<longrightarrow> logical \<le> k * a)))"
  by (rule fast_forward_within_budget) simp

text \<open>
  \<open>_cap_gdn_capture_boundary\<close> never raises on a well-formed step of one prefill sequence: it
  shortens the chunk and the query by the same amount, so the query still starts where it did,
  leaves at least one token to compute, and under \<open>admission64\<close> no capture target lies strictly
  inside the query any more.
\<close>

theorem capture_boundary_keeps_start:
  assumes "\<forall>k \<in> set targets. key_ok k" and "0 < block_size" and "0 \<le> computed"
    and "0 < query" and "query \<le> chunk"
  shows "\<exists>chunk' query'. cap_gdn_capture_boundary policy targets 1 True computed block_size chunk query =
      Inr (chunk', query') \<and> chunk' - query' = chunk - query \<and> 0 < query' \<and> query' \<le> query \<and>
    (policy = ''admission64'' \<longrightarrow> (\<forall>k \<in> set targets.
       \<not> (computed + chunk' - query' < fst k * block_size \<and> fst k * block_size < computed + chunk')))"
proof (cases "policy \<noteq> ''admission64'' \<or> targets = []")
  case True
  then show ?thesis using assms by (auto simp: cap_gdn_capture_boundary_def)
next
  case False
  let ?start = "computed + chunk - query" and ?stop = "computed + chunk"
  obtain e where e: "cap_loop targets ?start block_size ?stop = Inr e" "?start < e" "e \<le> ?stop"
      "\<forall>k \<in> set targets. \<not> (?start < fst k * block_size \<and> fst k * block_size < e)"
    using cap_loop_run [OF assms(1), of ?start ?stop block_size] assms(4) by auto
  have run: "cap_prefill_end_at_capture_boundary ?start ?stop targets block_size = Inr e"
    using e(1) assms by (simp add: cap_prefill_end_at_capture_boundary_def)
  let ?c = "e - computed" and ?q = "e - ?start"
  have "cap_gdn_capture_boundary policy targets 1 True computed block_size chunk query = Inr (?c, ?q)"
    using False assms e(2,3) run by (auto simp: cap_gdn_capture_boundary_def Let_def)
  moreover have "?c - ?q = chunk - query" "computed + ?c - ?q = ?start" "computed + ?c = e" by simp_all
  ultimately show ?thesis
    using e by (intro exI [of _ ?c] exI [of _ ?q]) simp
qed

lemma capture_boundary_keeps_start_witness:
  "\<exists>chunk' query'. cap_gdn_capture_boundary ''admission64'' (map snd example_points) 1 True 0 16 90 60 =
      Inr (chunk', query') \<and> chunk' - query' = 90 - 60 \<and> 0 < query' \<and> query' \<le> 60 \<and>
    (\<forall>k \<in> set (map snd example_points).
       \<not> (0 + chunk' - query' < fst k * 16 \<and> fst k * 16 < 0 + chunk'))"
  using capture_boundary_keeps_start [where policy = "''admission64''" and targets = "map snd example_points" and block_size = 16 and computed = 0 and chunk = 90 and query = 60]
  by (simp add: example_points_def key_ok_def is_digest_def)

text \<open>
  With chunked prefill a single sequence is given at most the remaining token budget; with
  prefix caching the chunk is either everything the sequence still needs or a whole number of blocks,
  and then the part of the budget that is left over is less than a block.
\<close>

theorem chunk_fits_budget:
  assumes "0 < n" and "\<not> sc_is_multi_step c" and "0 < sc_block_size c"
    and "get_num_new_tokens c long_lora [n] True budget = Inr m"
  shows "m \<le> n \<and> (0 \<le> bg_remaining_token_budget budget \<longrightarrow> m \<le> bg_remaining_token_budget budget) \<and>
    (sc_enable_prefix_caching c \<and> m \<noteq> n \<longrightarrow>
       m mod sc_block_size c = 0 \<and> bg_remaining_token_budget budget - m < sc_block_size c)"
proof (cases "sc_enable_prefix_caching c")
  case True
  let ?r = "bg_remaining_token_budget budget" and ?b = "sc_block_size c"
  have m: "m = (if ?r < n then ?r div ?b * ?b else n)"
    using assms True by (auto simp: get_num_new_tokens_def Let_def split: if_splits)
  have "?r div ?b * ?b \<le> ?r" "?r - ?r div ?b * ?b < ?b"
    using div_mult_mod_eq [of ?r ?b] pos_mod_sign [OF assms(3), of ?r]
      pos_mod_bound [OF assms(3), of ?r] by linarith+
  then show ?thesis using m by auto
next
  case False
  then show ?thesis using assms by (auto simp: get_num_new_tokens_def Let_def)
qed

definition example_config :: scheduler_config where
  "example_config = \<lparr>sc_max_num_batched_tokens = 64, sc_max_num_seqs = 8, sc_max_model_len = 4096,
     sc_chunked_prefill_enabled = True, sc_is_multi_step = False, sc_num_lookahead_slots = 0,
     sc_delay_factor = 0, sc_enable_prefix_caching = True, sc_block_size = 16\<rparr>"

lemma chunk_fits_budget_witness:
  "\<exists>m. get_num_new_tokens example_config None [100] True
      (bg_add_num_batched_tokens ''a'' 5 None (new_budget 64 8)) = Inr m \<and>
    m \<le> 100 \<and> m \<le> 59 \<and> m mod 16 = 0 \<and> 59 - m < 16"
proof -
  let ?b = "bg_add_num_batched_tokens ''a'' 5 None (new_budget 64 8)"
  have run: "get_num_new_tokens example_config None [100] True ?b = Inr 48" by code_simp
  have "bg_remaining_token_budget ?b = 59" by code_simp
  with chunk_fits_budget [OF _ _ _ run] run show ?thesis by (auto simp: example_config_def)
qed

end
