(* ===== verification/BlockCommon.thy ===== *)
theory BlockCommon
  imports Prelude
begin

text \<open>
  \<^verbatim>\<open>vllm/core/block/common.py\<close> and the block objects that the allocators share.

  Block objects are mutable and linked (\<open>prev_block\<close>), and the same object is handed out again and
  again by \<open>BlockPool\<close>, so they live in an explicit store: \<open>nv_heap\<close> is the list of all objects and
  an address is an index into it. One record holds the attributes of every class; the class of an
  object decides which methods and attributes it has. A \<open>PrefixCachingBlock\<close> wraps a \<open>NaiveBlock\<close>,
  which is not shared with anybody else, so both are one object of the store: token ids, block size
  and block id are those of the inner block. The fields of an allocator that the two kinds of
  allocators share (the store, the pool, the reference counts, the free ids) are the record
  \<open>nv_state\<close>; the prefix-caching allocator extends it, because it shares its pool and its reference
  counts with the naive allocator it contains.
\<close>

section \<open>Block objects\<close>

type_synonym addr = nat
type_synonym block_id = int

datatype block_class = NaiveBlock | PrefixCachingBlock | NullBlock addr

record block =
  bl_class :: block_class
  bl_prev_block :: "addr option"
  bl_token_ids :: "int list"
  bl_block_size :: int
  bl_block_id :: "block_id option"
  bl_pool_id :: "nat option"
  bl_cached_content_hash :: "content_hash option"
  bl_cache_namespace :: bytes
  bl_cached_num_tokens_total :: int
  bl_computed :: bool

record nv_state =
  nv_heap :: "block list"
  nv_pool :: "addr list"
  nv_pool_size :: nat
  nv_pool_free_ids :: "nat list"
  nv_create_block :: block_class
  nv_block_size :: int
  nv_free_block_indices :: "block_id list"
  nv_all_block_indices :: "block_id list"
  nv_refcounts :: "(block_id, int) dict"
  nv_copy_on_writes :: "(block_id \<times> block_id) list"

definition obj :: "addr \<Rightarrow> ('x) nv_state_scheme \<Rightarrow> block" where
  "obj a s = nv_heap s ! a"

definition upd_obj :: "addr \<Rightarrow> (block \<Rightarrow> block) \<Rightarrow> 'x nv_state_scheme \<Rightarrow> 'x nv_state_scheme" where
  "upd_obj a f s = s\<lparr>nv_heap := (nv_heap s)[a := f (nv_heap s ! a)]\<rparr>"

text \<open>
  The attributes of a block object; those of a \<open>NullBlock\<close> are those of the block it wraps, and it
  refuses to be modified.
\<close>

definition deref :: "addr \<Rightarrow> 'x nv_state_scheme \<Rightarrow> block" where
  "deref a s = (case bl_class (obj a s) of NullBlock p \<Rightarrow> obj p s | _ \<Rightarrow> obj a s)"

definition block_id_of :: "addr \<Rightarrow> 'x nv_state_scheme \<Rightarrow> block_id option" where
  "block_id_of a s = bl_block_id (deref a s)"

definition set_block_id :: "addr \<Rightarrow> block_id option \<Rightarrow> ('x nv_state_scheme, unit) py" where
  "set_block_id a b =
     bind (gets (\<lambda>s. bl_class (obj a s))) (\<lambda>c.
     andthen (guard ValueError (case c of NullBlock p \<Rightarrow> False | _ \<Rightarrow> True))
       (modify (upd_obj a (\<lambda>x. x\<lparr>bl_block_id := b\<rparr>))))"

definition num_empty_slots :: "block \<Rightarrow> int" where
  "num_empty_slots b = bl_block_size b - int (length (bl_token_ids b))"

definition is_full :: "block \<Rightarrow> bool" where
  "is_full b \<longleftrightarrow> num_empty_slots b = 0"

section \<open>RefCounter\<close>

definition rc_init :: "block_id list \<Rightarrow> (block_id, int) dict" where
  "rc_init all_block_indices = map (\<lambda>i. (i, 0)) (remdups all_block_indices)"

definition rc_incr :: "block_id \<Rightarrow> ('x nv_state_scheme, int) py" where
  "rc_incr b =
     bind (gets (\<lambda>s. map_of (nv_refcounts s) b)) (\<lambda>n.
     bind (from_option AssertionError n) (\<lambda>pre_incr_refcount.
     andthen (guard AssertionError (0 \<le> pre_incr_refcount))
    (andthen (modify (\<lambda>s. s\<lparr>nv_refcounts := AList.update b (pre_incr_refcount + 1) (nv_refcounts s)\<rparr>))
             (return (pre_incr_refcount + 1)))))"

definition rc_decr :: "block_id \<Rightarrow> ('x nv_state_scheme, int) py" where
  "rc_decr b =
     bind (gets (\<lambda>s. map_of (nv_refcounts s) b)) (\<lambda>n.
     bind (from_option AssertionError n) (\<lambda>refcount.
     andthen (guard AssertionError (0 < refcount))
    (andthen (modify (\<lambda>s. s\<lparr>nv_refcounts := AList.update b (refcount - 1) (nv_refcounts s)\<rparr>))
             (return (refcount - 1)))))"

definition rc_get :: "block_id \<Rightarrow> ('x nv_state_scheme, int) py" where
  "rc_get b = bind (gets (\<lambda>s. map_of (nv_refcounts s) b)) (from_option AssertionError)"

section \<open>CopyOnWriteTracker\<close>

text \<open>
  \<open>is_appendable\<close> reads the shared reference counts through the read-only view. The pairs of a
  tracker are the list that the tracker's owner keeps.
\<close>

definition ct_is_appendable :: "addr \<Rightarrow> ('x nv_state_scheme, bool) py" where
  "ct_is_appendable a =
     bind (gets (block_id_of a)) (\<lambda>b.
     case b of None \<Rightarrow> return True
     | Some b \<Rightarrow> bind (rc_get b) (\<lambda>refcount. return (refcount \<le> 1)))"

definition ct_record_cow :: "((block_id \<times> block_id) list \<Rightarrow> 's \<Rightarrow> 's) \<Rightarrow> ('s \<Rightarrow> (block_id \<times> block_id) list)
    \<Rightarrow> block_id option \<Rightarrow> block_id option \<Rightarrow> ('s, unit) py" where
  "ct_record_cow put get src trg =
     bind (from_option AssertionError src) (\<lambda>src.
     bind (from_option AssertionError trg) (\<lambda>trg.
     modify (\<lambda>s. put (get s @ [(src, trg)]) s)))"

definition ct_clear_cows :: "((block_id \<times> block_id) list \<Rightarrow> 's \<Rightarrow> 's) \<Rightarrow> ('s \<Rightarrow> (block_id \<times> block_id) list)
    \<Rightarrow> ('s, (block_id \<times> block_id) list) py" where
  "ct_clear_cows put get = bind (gets get) (\<lambda>cows. andthen (modify (put [])) (return cows))"

section \<open>Constructing and re-initialising block objects\<close>

text \<open>\<open>NaiveBlock._append_token_ids_no_cow\<close>.\<close>

definition nb_append_no_cow :: "addr \<Rightarrow> int list \<Rightarrow> ('x nv_state_scheme, unit) py" where
  "nb_append_no_cow a token_ids =
     (if token_ids = [] then return ()
      else bind (gets (\<lambda>s. num_empty_slots (obj a s))) (\<lambda>empty.
           andthen (guard AssertionError (int (length token_ids) \<le> empty))
             (modify (upd_obj a (\<lambda>x. x\<lparr>bl_token_ids := bl_token_ids x @ token_ids\<rparr>)))))"

text \<open>
  \<open>NaiveBlock.__init__\<close>: every attribute is set anew, then the tokens are appended.
\<close>

definition nb_init :: "addr \<Rightarrow> addr option \<Rightarrow> int list \<Rightarrow> int \<Rightarrow> block_id option
    \<Rightarrow> ('x nv_state_scheme, unit) py" where
  "nb_init a prev_block token_ids block_size block_id =
     andthen (modify (upd_obj a (\<lambda>x. x\<lparr>bl_token_ids := [], bl_block_size := block_size,
         bl_prev_block := prev_block, bl_block_id := block_id\<rparr>)))
       (nb_append_no_cow a token_ids)"

text \<open>\<open>assert_prefix_caching_block_or_none\<close>\<close>

definition assert_prefix_caching_block_or_none :: "addr option \<Rightarrow> ('x nv_state_scheme, unit) py" where
  "assert_prefix_caching_block_or_none b = (case b of None \<Rightarrow> return ()
     | Some a \<Rightarrow> bind (gets (\<lambda>s. bl_class (obj a s))) (\<lambda>c. guard AssertionError (c = PrefixCachingBlock)))"

text \<open>\<open>PrefixCachingBlock._update_num_tokens_total\<close>\<close>

definition pb_update_num_tokens_total :: "addr \<Rightarrow> ('x nv_state_scheme, unit) py" where
  "pb_update_num_tokens_total a = modify (\<lambda>s.
     let prev = (case bl_prev_block (obj a s) of None \<Rightarrow> 0
                 | Some p \<Rightarrow> bl_cached_num_tokens_total (obj p s))
     in upd_obj a (\<lambda>x. x\<lparr>bl_cached_num_tokens_total := prev + int (length (bl_token_ids x))\<rparr>) s)"

text \<open>\<open>PrefixCachingBlock.__init__\<close>; the namespace given as \<open>None\<close> or empty is that of the
  previous block.\<close>

definition pb_init :: "addr \<Rightarrow> addr option \<Rightarrow> int list \<Rightarrow> int \<Rightarrow> block_id option \<Rightarrow> bool
    \<Rightarrow> bytes option \<Rightarrow> ('x nv_state_scheme, unit) py" where
  "pb_init a prev_block token_ids block_size block_id computed cache_namespace =
     andthen (assert_prefix_caching_block_or_none prev_block)
    (andthen (modify (\<lambda>s.
       let own = (case cache_namespace of None \<Rightarrow> [] | Some ns \<Rightarrow> ns);
           ns = (case prev_block of
                   Some p \<Rightarrow> if own = [] then bl_cache_namespace (obj p s) else own
                 | None \<Rightarrow> own)
       in upd_obj a (\<lambda>x. x\<lparr>bl_prev_block := prev_block, bl_cached_content_hash := None,
            bl_cache_namespace := ns, bl_cached_num_tokens_total := 0, bl_computed := computed\<rparr>) s))
    (andthen (nb_init a prev_block token_ids block_size block_id)
             (pb_update_num_tokens_total a)))"

text \<open>The call of \<open>__init__\<close> on a pooled object runs the method of the object's class.\<close>

definition block_init :: "addr \<Rightarrow> addr option \<Rightarrow> int list \<Rightarrow> int \<Rightarrow> block_id option
    \<Rightarrow> ('x nv_state_scheme, unit) py" where
  "block_init a prev_block token_ids block_size block_id =
     bind (gets (\<lambda>s. bl_class (obj a s))) (\<lambda>c. case c of
       NaiveBlock \<Rightarrow> nb_init a prev_block token_ids block_size block_id
     | PrefixCachingBlock \<Rightarrow> pb_init a prev_block token_ids block_size block_id False None
     | NullBlock p \<Rightarrow> raise TypeError)"

section \<open>BlockPool\<close>

text \<open>A fresh object of the pool: \<open>create_block(prev_block=None, token_ids=[], block_id=None)\<close>.\<close>

definition fresh_block :: "block_class \<Rightarrow> int \<Rightarrow> block" where
  "fresh_block c block_size = \<lparr>bl_class = c, bl_prev_block = None, bl_token_ids = [],
     bl_block_size = block_size, bl_block_id = None, bl_pool_id = None,
     bl_cached_content_hash = None, bl_cache_namespace = [], bl_cached_num_tokens_total = 0,
     bl_computed = False\<rparr>"

text \<open>
  Append \<open>n\<close> fresh objects to the store and to the pool. (A pool that grows inside \<open>_init_block\<close> gives
  its new objects the namespace of that call; \<open>__init__\<close> overwrites it before anything reads it.)
\<close>

definition pool_grow :: "nat \<Rightarrow> 'x nv_state_scheme \<Rightarrow> 'x nv_state_scheme" where
  "pool_grow n s = s\<lparr>nv_heap := nv_heap s @ replicate n (fresh_block (nv_create_block s) (nv_block_size s)),
     nv_pool := nv_pool s @ [length (nv_heap s) ..< length (nv_heap s) + n]\<rparr>"

definition increase_pool :: "('x nv_state_scheme, unit) py" where
  "increase_pool = modify (\<lambda>s.
     let cur_pool_size = nv_pool_size s; new_pool_size = cur_pool_size * 2
     in pool_grow (new_pool_size - cur_pool_size)
          (s\<lparr>nv_pool_size := new_pool_size,
             nv_pool_free_ids := nv_pool_free_ids s @ [cur_pool_size ..< new_pool_size]\<rparr>))"

text \<open>\<open>BlockPool.__init__\<close>, on an allocator that has no pool yet.\<close>

definition pool_init :: "nat \<Rightarrow> 'x nv_state_scheme \<Rightarrow> 'x nv_state_scheme" where
  "pool_init pool_size s =
     pool_grow pool_size (s\<lparr>nv_pool_size := pool_size, nv_pool_free_ids := [0 ..< pool_size]\<rparr>)"

definition init_block :: "addr option \<Rightarrow> int list \<Rightarrow> int \<Rightarrow> block_id option
    \<Rightarrow> ('x nv_state_scheme, addr) py" where
  "init_block prev_block token_ids block_size physical_block_id =
     bind (gets nv_pool_free_ids) (\<lambda>ids.
     andthen (if ids = []
        then andthen increase_pool (bind (gets nv_pool_free_ids) (\<lambda>ids. guard AssertionError (ids \<noteq> [])))
        else return ())
    (bind (gets (\<lambda>s. hd (nv_pool_free_ids s))) (\<lambda>pool_id.
     andthen (modify (\<lambda>s. s\<lparr>nv_pool_free_ids := tl (nv_pool_free_ids s)\<rparr>))
    (bind (gets (\<lambda>s. nv_pool s ! pool_id)) (\<lambda>a.
     andthen (block_init a prev_block token_ids block_size physical_block_id)
    (andthen (modify (upd_obj a (\<lambda>x. x\<lparr>bl_pool_id := Some pool_id\<rparr>)))
             (return a)))))))"

text \<open>An object that never left the pool has no attribute \<open>pool_id\<close>; reading it raises.\<close>

definition free_block :: "addr \<Rightarrow> ('x nv_state_scheme, unit) py" where
  "free_block a =
     bind (gets (\<lambda>s. bl_pool_id (obj a s))) (\<lambda>p.
     bind (from_option TypeError p) (\<lambda>pool_id.
     modify (\<lambda>s. s\<lparr>nv_pool_free_ids := pool_id # nv_pool_free_ids s\<rparr>)))"

section \<open>All blocks of a sequence\<close>

text \<open>
  \<open>get_all_blocks_recursively\<close>: Python bounds the recursion; here the number of objects bounds it,
  which an acyclic chain cannot exceed.
\<close>

fun chain_to :: "nat \<Rightarrow> addr \<Rightarrow> block list \<Rightarrow> addr list option" where
  "chain_to 0 a h = None"
| "chain_to (Suc n) a h = (case bl_prev_block (h ! a) of None \<Rightarrow> Some [a]
     | Some p \<Rightarrow> map_option (\<lambda>l. l @ [a]) (chain_to n p h))"

definition get_all_blocks_recursively :: "addr \<Rightarrow> ('x nv_state_scheme, addr list) py" where
  "get_all_blocks_recursively last_block =
     bind (gets (\<lambda>s. chain_to (length (nv_heap s)) last_block (nv_heap s)))
       (from_option RecursionError)"


section \<open>CacheMetricData\<close>

text \<open>The floating-point rates are rationals here; rounding is not modelled.\<close>

record cache_metric =
  cm_num_completed_blocks :: int
  cm_completed_block_cache_hit_rate :: rat
  cm_num_incompleted_block_queries :: int
  cm_num_incompleted_block_hit :: int
  cm_block_size :: int

definition cm_new :: "int \<Rightarrow> cache_metric" where
  "cm_new block_size = \<lparr>cm_num_completed_blocks = 0, cm_completed_block_cache_hit_rate = 0,
     cm_num_incompleted_block_queries = 0, cm_num_incompleted_block_hit = 0,
     cm_block_size = block_size\<rparr>"

definition cm_default :: cache_metric where
  "cm_default = cm_new 1000"

definition cm_query :: "bool \<Rightarrow> cache_metric \<Rightarrow> cache_metric" where
  "cm_query hit m =
     (let queries = cm_num_incompleted_block_queries m + 1;
          hits = cm_num_incompleted_block_hit m + (if hit then 1 else 0);
          m = m\<lparr>cm_num_incompleted_block_queries := queries, cm_num_incompleted_block_hit := hits\<rparr>
      in if queries = cm_block_size m then
           let hit_rate = of_int hits / of_int queries;
               n = of_int (cm_num_completed_blocks m) :: rat
           in m\<lparr>cm_completed_block_cache_hit_rate :=
                  (cm_completed_block_cache_hit_rate m * n + hit_rate) / (n + 1),
                cm_num_incompleted_block_queries := 0, cm_num_incompleted_block_hit := 0,
                cm_num_completed_blocks := cm_num_completed_blocks m + 1\<rparr>
         else m)"

definition cm_get_hit_rate :: "cache_metric \<Rightarrow> exn + rat" where
  "cm_get_hit_rate m =
     (if cm_block_size m = 0 then Inl ZeroDivisionError else
      let queries = of_int (cm_num_incompleted_block_queries m) :: rat;
          incomplete_ratio = queries / of_int (cm_block_size m);
          n = of_int (cm_num_completed_blocks m) :: rat;
          total_blocks = n + incomplete_ratio
      in if total_blocks = 0 then Inr 0 else
         let completed_block_hit =
               (if 0 < cm_num_completed_blocks m then cm_completed_block_cache_hit_rate m * n else 0);
             incompleted_block_hit =
               (if 0 < cm_num_incompleted_block_queries m
                then of_int (cm_num_incompleted_block_hit m) / queries * incomplete_ratio else 0)
         in Inr ((completed_block_hit + incompleted_block_hit) / total_blocks))"

section \<open>The pool\<close>

text \<open>
  An object is \<open>live\<close> when it has been taken out of the pool and not been given back. \<open>refmap\<close> is what
  an allocator is about: which live object holds which physical block.
\<close>

definition live :: "'x nv_state_scheme \<Rightarrow> addr \<Rightarrow> bool" where
  "live s a \<longleftrightarrow> a < nv_pool_size s \<and> a \<notin> set (nv_pool_free_ids s)"

definition refmap :: "'x nv_state_scheme \<Rightarrow> addr \<rightharpoonup> block_id" where
  "refmap s a = (if live s a then bl_block_id (obj a s) else None)"

definition prev_ok :: "'x nv_state_scheme \<Rightarrow> addr option \<Rightarrow> bool" where
  "prev_ok s prev = (case prev of None \<Rightarrow> True | Some p \<Rightarrow> live s p)"

definition pool_ok :: "'x nv_state_scheme \<Rightarrow> bool" where
  "pool_ok s \<longleftrightarrow> nv_pool s = [0 ..< nv_pool_size s] \<and> length (nv_heap s) = nv_pool_size s \<and>
     0 < nv_pool_size s \<and> distinct (nv_pool_free_ids s) \<and>
     set (nv_pool_free_ids s) \<subseteq> {..< nv_pool_size s} \<and>
     nv_create_block s \<in> {NaiveBlock, PrefixCachingBlock} \<and>
     (\<forall>a < nv_pool_size s. bl_class (obj a s) = nv_create_block s) \<and>
     (\<forall>a. live s a \<longrightarrow> bl_pool_id (obj a s) = Some a)"

text \<open>What \<open>__init__\<close> makes of an object, for a block of either class.\<close>

definition inited :: "'x nv_state_scheme \<Rightarrow> addr option \<Rightarrow> int list \<Rightarrow> int \<Rightarrow> block_id option
    \<Rightarrow> block \<Rightarrow> bool" where
  "inited s prev token_ids block_size block_id x \<longleftrightarrow>
     bl_class x = nv_create_block s \<and> bl_prev_block x = prev \<and> bl_token_ids x = token_ids \<and>
     bl_block_size x = block_size \<and> bl_block_id x = block_id \<and>
     (nv_create_block s = PrefixCachingBlock \<longrightarrow>
        bl_cached_content_hash x = None \<and> \<not> bl_computed x \<and>
        bl_cache_namespace x =
          (case prev of None \<Rightarrow> [] | Some p \<Rightarrow> bl_cache_namespace (obj p s)) \<and>
        bl_cached_num_tokens_total x =
          (case prev of None \<Rightarrow> 0 | Some p \<Rightarrow> bl_cached_num_tokens_total (obj p s)) +
          int (length token_ids))"

text \<open>Everything of the state but the store and the pool.\<close>

definition pool_frame :: "'x nv_state_scheme \<Rightarrow> 'x nv_state_scheme \<Rightarrow> bool" where
  "pool_frame s t \<longleftrightarrow> t = s\<lparr>nv_heap := nv_heap t, nv_pool := nv_pool t, nv_pool_size := nv_pool_size t,
     nv_pool_free_ids := nv_pool_free_ids t\<rparr>"

lemma pool_frame_refl [simp]: "pool_frame s s"
  by (simp add: pool_frame_def)

lemma pool_frame_trans: "pool_frame s t \<Longrightarrow> pool_frame t u \<Longrightarrow> pool_frame s u"
  by (cases s, cases t, cases u) (simp add: pool_frame_def)

lemma pool_frame_fields:
  assumes "pool_frame s t"
  shows "nv_create_block t = nv_create_block s" "nv_block_size t = nv_block_size s"
    "nv_free_block_indices t = nv_free_block_indices s"
    "nv_all_block_indices t = nv_all_block_indices s" "nv_refcounts t = nv_refcounts s"
    "nv_copy_on_writes t = nv_copy_on_writes s" "nv_state.more t = nv_state.more s"
  using assms by (cases s, cases t, simp add: pool_frame_def)+

lemma obj_upd [simp]:
  "a < length (nv_heap s) \<Longrightarrow> obj a (upd_obj a f s) = f (obj a s)"
  "a \<noteq> b \<Longrightarrow> obj b (upd_obj a f s) = obj b s"
  by (simp_all add: obj_def upd_obj_def)

lemma upd_obj_fields [simp]:
  "length (nv_heap (upd_obj a f s)) = length (nv_heap s)"
  "nv_pool (upd_obj a f s) = nv_pool s" "nv_pool_size (upd_obj a f s) = nv_pool_size s"
  "nv_pool_free_ids (upd_obj a f s) = nv_pool_free_ids s"
  "nv_create_block (upd_obj a f s) = nv_create_block s"
  "nv_block_size (upd_obj a f s) = nv_block_size s"
  "nv_free_block_indices (upd_obj a f s) = nv_free_block_indices s"
  "nv_all_block_indices (upd_obj a f s) = nv_all_block_indices s"
  "nv_refcounts (upd_obj a f s) = nv_refcounts s"
  "nv_copy_on_writes (upd_obj a f s) = nv_copy_on_writes s"
  "nv_state.more (upd_obj a f s) = nv_state.more s"
  by (simp_all add: upd_obj_def)

lemma live_upd [simp]: "live (upd_obj a f s) = live s"
  by (simp add: live_def fun_eq_iff)

lemma obj_other_fields [simp]:
  "obj a (s\<lparr>nv_free_block_indices := F\<rparr>) = obj a s" "obj a (s\<lparr>nv_refcounts := M\<rparr>) = obj a s"
  "obj a (s\<lparr>nv_pool_free_ids := l\<rparr>) = obj a s" "obj a (s\<lparr>nv_copy_on_writes := C\<rparr>) = obj a s"
  by (simp_all add: obj_def)

lemma pool_okD:
  assumes "pool_ok s"
  shows "a < nv_pool_size s \<Longrightarrow> nv_pool s ! a = a"
    and "length (nv_heap s) = nv_pool_size s"
    and "a < nv_pool_size s \<Longrightarrow> bl_class (obj a s) = nv_create_block s"
    and "live s a \<Longrightarrow> a < nv_pool_size s"
    and "live s a \<Longrightarrow> bl_pool_id (obj a s) = Some a"
    and "live s a \<Longrightarrow> deref a s = obj a s"
  using assms by (auto simp: pool_ok_def live_def deref_def)

lemma live_length: "pool_ok s \<Longrightarrow> live s a \<Longrightarrow> a < length (nv_heap s)"
  by (simp add: pool_okD)

lemma nb_init_run:
  assumes "a < length (nv_heap s)" "int (length ts) \<le> bs"
  shows "nb_init a prev ts bs b s = (Inr (), upd_obj a (\<lambda>x. x\<lparr>bl_token_ids := ts,
    bl_block_size := bs, bl_prev_block := prev, bl_block_id := b\<rparr>) s)"
  using assms
  by (cases "nv_heap s ! a")
    (simp add: nb_init_def nb_append_no_cow_def py_defs num_empty_slots_def obj_def upd_obj_def)

lemma block_init_run:
  assumes "pool_ok s" "a < nv_pool_size s" "int (length ts) \<le> bs" "prev_ok s prev" "prev \<noteq> Some a"
  shows "\<exists>x. block_init a prev ts bs b s = (Inr (), upd_obj a (\<lambda>_. x) s) \<and> inited s prev ts bs b x"
proof -
  have a: "a < length (nv_heap s)" "bl_class (obj a s) = nv_create_block s"
    using assms by (auto simp: pool_ok_def)
  have c: "nv_create_block s = NaiveBlock \<or> nv_create_block s = PrefixCachingBlock"
    using assms(1) by (auto simp: pool_ok_def)
  have p: "bl_class (obj p s) = nv_create_block s" if "prev = Some p" for p
    using assms(1,4) that by (auto simp: prev_ok_def pool_ok_def live_def)
  show ?thesis using c
  proof
    assume n: "nv_create_block s = NaiveBlock"
    have "block_init a prev ts bs b s = (Inr (), upd_obj a (\<lambda>_. (obj a s)\<lparr>bl_token_ids := ts,
        bl_block_size := bs, bl_prev_block := prev, bl_block_id := b\<rparr>) s)"
      using n a assms(3)
      by (simp add: block_init_def bind_def gets_def nb_init_run) (simp add: upd_obj_def obj_def)
    then show ?thesis using n a(2) by (intro exI conjI) (auto simp: inited_def)
  next
    assume n: "nv_create_block s = PrefixCachingBlock"
    define ns where "ns = (case prev of None \<Rightarrow> [] | Some p \<Rightarrow> bl_cache_namespace (obj p s))"
    define tot where "tot = (case prev of None \<Rightarrow> 0 | Some p \<Rightarrow> bl_cached_num_tokens_total (obj p s)) +
      int (length ts)"
    have np: "p \<noteq> a" if "prev = Some p" for p using assms(5) that by simp
    have "block_init a prev ts bs b s = (Inr (), upd_obj a (\<lambda>_. (obj a s)\<lparr>bl_token_ids := ts,
        bl_block_size := bs, bl_prev_block := prev, bl_block_id := b, bl_cached_content_hash := None,
        bl_cache_namespace := ns, bl_cached_num_tokens_total := tot, bl_computed := False\<rparr>) s)"
      using n a assms(3) p np
      by (cases prev; cases "nv_heap s ! a")
        (simp_all add: block_init_def pb_init_def assert_prefix_caching_block_or_none_def
          bind_def gets_def andthen_def modify_def guard_def return_def nb_init_run
          pb_update_num_tokens_total_def Let_def ns_def tot_def upd_obj_def obj_def)
    then show ?thesis using n a(2) by (intro exI conjI) (auto simp: inited_def ns_def tot_def)
  qed
qed

definition initialised :: "'x nv_state_scheme \<Rightarrow> addr option \<Rightarrow> int list \<Rightarrow> int \<Rightarrow> block_id option
    \<Rightarrow> addr \<Rightarrow> 'x nv_state_scheme \<Rightarrow> bool" where
  "initialised s prev ts bs b a t \<longleftrightarrow> pool_ok t \<and> pool_frame s t \<and> nv_pool_size s \<le> nv_pool_size t \<and>
     \<not> live s a \<and> (\<forall>x. live t x \<longleftrightarrow> live s x \<or> x = a) \<and>
     (\<forall>x < nv_pool_size s. x \<noteq> a \<longrightarrow> obj x t = obj x s) \<and>
     inited s prev ts bs b (obj a t)"

lemma init_block_direct:
  assumes "pool_ok s" "nv_pool_free_ids s = i # l" "int (length ts) \<le> bs" "prev_ok s prev"
  shows "\<exists>t. init_block prev ts bs b s = (Inr i, t) \<and> initialised s prev ts bs b i t"
proof -
  let ?s = "s\<lparr>nv_pool_free_ids := l\<rparr>"
  have i: "i < nv_pool_size s" "i \<notin> set l" "distinct l" "set l \<subseteq> {..< nv_pool_size s}"
    using assms(1,2) by (auto simp: pool_ok_def)
  have live': "live ?s x \<longleftrightarrow> live s x \<or> x = i" for x using i assms(2) by (auto simp: live_def)
  have ni: "\<not> live s i" using assms(2) by (simp add: live_def)
  have pi: "prev \<noteq> Some i" "prev_ok ?s prev"
    using assms(4) ni live' by (auto simp: prev_ok_def split: option.splits)
  have init: "inited ?s prev ts bs b = inited s prev ts bs b"
    by (simp add: inited_def fun_eq_iff obj_def split: option.splits)
  have a: "i < length (nv_heap ?s)" "nv_pool ?s ! i = i" "bl_class (obj i ?s) = nv_create_block s"
    using assms(1) i by (auto simp: pool_ok_def obj_def)
  have c: "nv_create_block s = NaiveBlock \<or> nv_create_block s = PrefixCachingBlock"
    using assms(1) by (auto simp: pool_ok_def)
  obtain x where x: "block_init i prev ts bs b ?s = (Inr (), upd_obj i (\<lambda>_. x) ?s)"
      "inited s prev ts bs b x"
  proof -
    let ?m = "?s\<lparr>nv_pool_free_ids := i # l\<rparr>"
    have ms: "?m = s" using assms(2) by (cases s) simp
    obtain x where "block_init i prev ts bs b s = (Inr (), upd_obj i (\<lambda>_. x) s)"
        "inited s prev ts bs b x"
      using block_init_run [OF assms(1) i(1) assms(3,4) pi(1)] by blast
    moreover have "block_init i prev ts bs b ?s = (fst (block_init i prev ts bs b s),
        (snd (block_init i prev ts bs b s))\<lparr>nv_pool_free_ids := l\<rparr>)"
      using c a(3) assms(3) \<open>i < length (nv_heap ?s)\<close>
      by (cases prev)
        (auto simp: block_init_def pb_init_def assert_prefix_caching_block_or_none_def
          bind_def gets_def andthen_def modify_def guard_def return_def raise_def nb_init_run
          pb_update_num_tokens_total_def Let_def upd_obj_def obj_def)
    ultimately show ?thesis
      by (intro that [of x]) (simp_all add: upd_obj_def)
  qed
  let ?t = "upd_obj i (\<lambda>x. x\<lparr>bl_pool_id := Some i\<rparr>) (upd_obj i (\<lambda>_. x) ?s)"
  have run: "init_block prev ts bs b s = (Inr i, ?t)"
    using assms(2) a x(1)
    by (simp add: init_block_def bind_def gets_def andthen_def modify_def return_def)
  have ot: "obj i ?t = x\<lparr>bl_pool_id := Some i\<rparr>" "y \<noteq> i \<Longrightarrow> obj y ?t = obj y s" for y
    using a(1) by (simp_all)
  have lt: "live ?t y \<longleftrightarrow> live s y \<or> y = i" for y by (simp add: live')
  have cls: "bl_class (obj y ?t) = nv_create_block s" if "y < nv_pool_size s" for y
    using assms(1) that x(2) ot by (cases "y = i") (auto simp: inited_def pool_ok_def)
  have pid: "bl_pool_id (obj y ?t) = Some y" if "live s y \<or> y = i" for y
    using assms(1) that ot by (cases "y = i") (auto simp: pool_ok_def)
  have "pool_ok ?t"
    unfolding pool_ok_def lt
    using assms(1) i(3,4) cls pid by (simp add: pool_ok_def)
  moreover have "pool_frame s ?t" by (simp add: pool_frame_def upd_obj_def)
  moreover have "inited s prev ts bs b (obj i ?t)" using x(2) ot by (simp add: inited_def)
  ultimately show ?thesis
    using run ni lt ot(2) by (auto simp: initialised_def)
qed

lemma increase_pool_run:
  assumes "pool_ok s" "nv_pool_free_ids s = []"
  shows "\<exists>t. increase_pool s = (Inr (), t) \<and> pool_ok t \<and> pool_frame s t \<and> live t = live s \<and>
    nv_pool_free_ids t = [nv_pool_size s ..< 2 * nv_pool_size s] \<and>
    nv_pool_size t = 2 * nv_pool_size s \<and> (\<forall>x < nv_pool_size s. obj x t = obj x s)"
proof -
  let ?n = "nv_pool_size s"
  let ?t = "pool_grow ?n (s\<lparr>nv_pool_size := ?n * 2, nv_pool_free_ids := [?n ..< ?n * 2]\<rparr>)"
  have len: "length (nv_heap s) = ?n" using assms(1) by (simp add: pool_ok_def)
  have old: "obj x ?t = obj x s" if "x < ?n" for x
    using that len by (simp add: obj_def pool_grow_def nth_append)
  have fresh: "bl_class (obj x ?t) = nv_create_block s" if "x < ?n * 2" "\<not> x < ?n" for x
    using that len by (simp add: obj_def pool_grow_def nth_append fresh_block_def)
  have lv: "live ?t x \<longleftrightarrow> live s x" for x
    using assms(2) by (auto simp: live_def pool_grow_def)
  have cls: "bl_class (obj x ?t) = nv_create_block s" if "x < ?n * 2" for x
    using assms(1) that old fresh by (cases "x < ?n") (auto simp: pool_ok_def)
  have pid: "bl_pool_id (obj x ?t) = Some x" if "live s x" for x
    using assms(1) that old by (auto simp: pool_ok_def live_def)
  have upt: "[0 ..< ?n] @ [?n ..< ?n + ?n] = [0 ..< ?n * 2]"
    using upt_add_eq_append [of 0 ?n ?n] by (simp add: mult_2_right)
  have "pool_ok ?t"
    using assms(1) len lv cls pid upt
    by (simp add: pool_ok_def pool_grow_def) auto
  moreover have "pool_frame s ?t" by (simp add: pool_frame_def pool_grow_def)
  ultimately show ?thesis
    using lv old
    by (intro exI [of _ ?t])
      (simp add: increase_pool_def modify_def Let_def pool_grow_def fun_eq_iff mult.commute assms(2))
qed

lemma inited_frame:
  "pool_frame s t \<Longrightarrow> \<forall>x < nv_pool_size s. obj x t = obj x s \<Longrightarrow> prev_ok s prev \<Longrightarrow>
   inited t prev ts bs b x = inited s prev ts bs b x"
  by (auto simp: inited_def pool_frame_fields prev_ok_def live_def split: option.splits)

lemma init_block_run:
  assumes "pool_ok s" "int (length ts) \<le> bs" "prev_ok s prev"
  shows "\<exists>a t. init_block prev ts bs b s = (Inr a, t) \<and> initialised s prev ts bs b a t"
proof (cases "nv_pool_free_ids s")
  case (Cons i l)
  then show ?thesis using init_block_direct [OF assms(1) Cons assms(2,3)] by blast
next
  case Nil
  obtain u where u: "increase_pool s = (Inr (), u)" "pool_ok u" "pool_frame s u" "live u = live s"
      "nv_pool_free_ids u = [nv_pool_size s ..< 2 * nv_pool_size s]"
      "nv_pool_size u = 2 * nv_pool_size s" "\<forall>x < nv_pool_size s. obj x u = obj x s"
    using increase_pool_run [OF assms(1) Nil] by blast
  have pos: "0 < nv_pool_size s" using assms(1) by (simp add: pool_ok_def)
  then have "nv_pool_free_ids u \<noteq> []" using u(5) by simp
  then obtain i l where il: "nv_pool_free_ids u = i # l" by (cases "nv_pool_free_ids u") auto
  have pu: "prev_ok u prev" using assms(3) u(4) by (simp add: prev_ok_def split: option.splits)
  obtain t where t: "init_block prev ts bs b u = (Inr i, t)" "initialised u prev ts bs b i t"
    using init_block_direct [OF u(2) il assms(2) pu] by blast
  have "init_block prev ts bs b s = init_block prev ts bs b u"
    using Nil il u(1) by (simp add: init_block_def bind_def gets_def andthen_def guard_def return_def)
  moreover have "initialised s prev ts bs b i t"
    using t(2) u(3,4,6,7) inited_frame [OF u(3,7) assms(3)] pool_frame_trans [OF u(3)]
    by (auto simp: initialised_def)
  ultimately show ?thesis using t(1) by auto
qed


abbreviation add_tokens :: "addr \<Rightarrow> int list \<Rightarrow> 'x nv_state_scheme \<Rightarrow> 'x nv_state_scheme" where
  "add_tokens a ts \<equiv> upd_obj a (\<lambda>x. x\<lparr>bl_token_ids := bl_token_ids x @ ts\<rparr>)"

lemma upd_obj_ident: "a < length (nv_heap s) \<Longrightarrow> f (obj a s) = obj a s \<Longrightarrow> upd_obj a f s = s"
  by (simp add: upd_obj_def obj_def list_update_same_conv)

lemma nb_append_no_cow_run:
  assumes "a < length (nv_heap s)" "int (length ts) \<le> num_empty_slots (obj a s)"
  shows "nb_append_no_cow a ts s = (Inr (), add_tokens a ts s)"
proof (cases "ts = []")
  case True
  then have "add_tokens a ts s = s" using assms(1) by (intro upd_obj_ident) auto
  with True show ?thesis by (simp add: nb_append_no_cow_def return_def)
next
  case False
  then show ?thesis
    using assms(2)
    by (simp add: nb_append_no_cow_def bind_def gets_def andthen_def guard_def return_def modify_def)
qed

lemma upd_keeps:
  assumes "\<And>x. bl_class (f x) = bl_class x" "\<And>x. bl_pool_id (f x) = bl_pool_id x"
    "\<And>x. bl_block_id (f x) = bl_block_id x" "a < length (nv_heap s)"
  shows "pool_ok (upd_obj a f s) = pool_ok s" "refmap (upd_obj a f s) = refmap s"
proof -
  have o: "obj y (upd_obj a f s) = (if y = a then f (obj y s) else obj y s)" for y
    using assms(4) by simp
  have "bl_class (obj y (upd_obj a f s)) = bl_class (obj y s)"
    "bl_pool_id (obj y (upd_obj a f s)) = bl_pool_id (obj y s)"
    "bl_block_id (obj y (upd_obj a f s)) = bl_block_id (obj y s)" for y
    by (simp_all add: o assms)
  then show "pool_ok (upd_obj a f s) = pool_ok s" "refmap (upd_obj a f s) = refmap s"
    by (simp_all add: pool_ok_def refmap_def fun_eq_iff)
qed

text \<open>\<open>free_block\<close> and the setting of a block id, on a live object.\<close>

lemma free_block_run:
  assumes "pool_ok s" "live s a"
  shows "free_block a s = (Inr (), s\<lparr>nv_pool_free_ids := a # nv_pool_free_ids s\<rparr>)"
    and "pool_ok (s\<lparr>nv_pool_free_ids := a # nv_pool_free_ids s\<rparr>)"
    and "live (s\<lparr>nv_pool_free_ids := a # nv_pool_free_ids s\<rparr>) x \<longleftrightarrow> live s x \<and> x \<noteq> a"
    and "refmap (s\<lparr>nv_pool_free_ids := a # nv_pool_free_ids s\<rparr>) = (refmap s)(a := None)"
proof -
  show l: "live (s\<lparr>nv_pool_free_ids := a # nv_pool_free_ids s\<rparr>) x \<longleftrightarrow> live s x \<and> x \<noteq> a" for x
    using assms(2) by (auto simp: live_def)
  show "free_block a s = (Inr (), s\<lparr>nv_pool_free_ids := a # nv_pool_free_ids s\<rparr>)"
    using assms pool_okD(5) [OF assms]
    by (simp add: free_block_def bind_def gets_def from_option_def return_def modify_def)
  show "pool_ok (s\<lparr>nv_pool_free_ids := a # nv_pool_free_ids s\<rparr>)"
    using assms unfolding pool_ok_def l by (auto simp: live_def)
  show "refmap (s\<lparr>nv_pool_free_ids := a # nv_pool_free_ids s\<rparr>) = (refmap s)(a := None)"
    by (auto simp: refmap_def l fun_eq_iff)
qed

lemma set_block_id_run:
  assumes "pool_ok s" "live s a"
  shows "set_block_id a b s = (Inr (), upd_obj a (\<lambda>x. x\<lparr>bl_block_id := b\<rparr>) s)"
    and "pool_ok (upd_obj a (\<lambda>x. x\<lparr>bl_block_id := b\<rparr>) s)"
    and "refmap (upd_obj a (\<lambda>x. x\<lparr>bl_block_id := b\<rparr>) s) = (refmap s)(a := b)"
proof -
  have a: "a < length (nv_heap s)" "bl_class (obj a s) \<in> {NaiveBlock, PrefixCachingBlock}"
    using assms by (auto simp: pool_ok_def live_def)
  show "set_block_id a b s = (Inr (), upd_obj a (\<lambda>x. x\<lparr>bl_block_id := b\<rparr>) s)"
    using a by (auto simp: set_block_id_def bind_def gets_def andthen_def guard_def return_def modify_def)
  have o: "obj y (upd_obj a (\<lambda>x. x\<lparr>bl_block_id := b\<rparr>) s) =
      (if y = a then (obj y s)\<lparr>bl_block_id := b\<rparr> else obj y s)" for y
    using a(1) by simp
  show "pool_ok (upd_obj a (\<lambda>x. x\<lparr>bl_block_id := b\<rparr>) s)"
    using assms(1) unfolding pool_ok_def live_upd o by simp
  show "refmap (upd_obj a (\<lambda>x. x\<lparr>bl_block_id := b\<rparr>) s) = (refmap s)(a := b)"
    using assms(2) by (auto simp: refmap_def o fun_eq_iff)
qed

lemma initialised_refmap:
  assumes "initialised s prev ts bs b a t" "pool_ok s"
  shows "refmap t = (refmap s)(a := b)" "live t a" "a < nv_pool_size t" "refmap s a = None"
    "live s x \<Longrightarrow> obj x t = obj x s"
proof -
  have a: "live t x \<longleftrightarrow> live s x \<or> x = a" "\<not> live s a" for x
    using assms(1) by (auto simp: initialised_def)
  show o: "obj x t = obj x s" if "live s x" for x
    using assms that a(2) by (auto simp: initialised_def live_def)
  show "refmap t = (refmap s)(a := b)"
    using assms(1) a o by (auto simp: refmap_def fun_eq_iff initialised_def inited_def)
  show "live t a" "refmap s a = None" using a by (simp_all add: refmap_def)
  then show "a < nv_pool_size t" by (simp add: live_def)
qed

lemma finite_refmap [simp]: "finite (dom (refmap s))"
  by (rule finite_subset [of _ "{..< nv_pool_size s}"]) (auto simp: refmap_def live_def split: if_splits)

section \<open>Reference counts\<close>

text \<open>
  \<open>ids_ok A Z M R\<close>: the reference counts \<open>M\<close> of the ids in \<open>A\<close> count the holders of each id in \<open>R\<close>,
  and \<open>Z\<close> is the set of the ids that nobody holds.
\<close>

definition rcount :: "(addr \<rightharpoonup> block_id) \<Rightarrow> block_id \<Rightarrow> int" where
  "rcount R b = int (card {a. R a = Some b})"

definition ids_ok :: "block_id set \<Rightarrow> block_id set \<Rightarrow> (block_id \<rightharpoonup> int) \<Rightarrow> (addr \<rightharpoonup> block_id) \<Rightarrow> bool" where
  "ids_ok A Z M R \<longleftrightarrow> finite A \<and> dom M = A \<and> finite (dom R) \<and> ran R \<subseteq> A \<and>
     (\<forall>b \<in> A. M b = Some (rcount R b)) \<and> Z = {b \<in> A. rcount R b = 0}"

lemma finite_holders [simp]: "finite (dom R) \<Longrightarrow> finite {a. R a = Some b}"
  by (rule finite_subset [of _ "dom R"]) auto

lemma rcount_upd:
  assumes "finite (dom R)"
  shows "rcount (R(a := x)) b = rcount R b - of_bool (R a = Some b) + of_bool (x = Some b)"
proof -
  have f: "finite {c. R c = Some b}" using assms by simp
  have e: "{c. (R(a := x)) c = Some b} =
      (if x = Some b then insert a {c. R c = Some b} else {c. R c = Some b} - {a})" by auto
  show ?thesis
  proof (cases "R a = Some b")
    case True
    then have a: "a \<in> {c. R c = Some b}" by simp
    have "card ({c. R c = Some b} - {a}) + 1 = card {c. R c = Some b}"
      using f a card.remove [OF f a] by simp
    then show ?thesis using True a unfolding rcount_def e by (auto simp: insert_absorb)
  next
    case False
    then show ?thesis using f unfolding rcount_def e by simp
  qed
qed

lemma rcount_pos: "finite (dom R) \<Longrightarrow> R a = Some b \<Longrightarrow> 0 < rcount R b"
  using finite_holders [of R b] by (auto simp: rcount_def card_gt_0_iff)

lemma rcount_zero: "finite (dom R) \<Longrightarrow> rcount R b = 0 \<longleftrightarrow> b \<notin> ran R"
  using finite_holders [of R b] by (auto simp: rcount_def ran_def)

lemma rcount_one:
  assumes "R a = Some b"
  shows "rcount R b = 1 \<longleftrightarrow> (\<forall>x. R x = Some b \<longrightarrow> x = a)"
proof
  assume "rcount R b = 1"
  then have "card {x. R x = Some b} = 1" by (simp add: rcount_def)
  then obtain y where y: "{x. R x = Some b} = {y}" using card_1_singletonE by blast
  then have all: "R x = Some b \<longleftrightarrow> x = y" for x by (simp add: set_eq_iff)
  then have "a = y" using assms by simp
  with all show "\<forall>x. R x = Some b \<longrightarrow> x = a" by simp
next
  assume "\<forall>x. R x = Some b \<longrightarrow> x = a"
  then have "{x. R x = Some b} = {a}" using assms by blast
  then show "rcount R b = 1" by (simp add: rcount_def)
qed

lemma rcount_nonneg [simp]: "0 \<le> rcount R b"
  by (simp add: rcount_def)

lemma rcount_plus_1 [simp]: "rcount R b + 1 \<noteq> 0"
  using rcount_nonneg [of R b] by linarith

lemma ids_ok_count: "ids_ok A Z M R \<Longrightarrow> b \<in> A \<Longrightarrow> M b = Some (rcount R b)"
  by (simp add: ids_ok_def)

lemma ids_ok_held:
  "ids_ok A Z M R \<Longrightarrow> R a = Some b \<Longrightarrow> b \<in> A \<and> M b = Some (rcount R b) \<and> 0 < rcount R b \<and> b \<notin> Z"
  using rcount_pos [of R a b] by (auto simp: ids_ok_def ran_def)

lemma ids_ok_unheld: "ids_ok A Z M R \<Longrightarrow> b \<in> Z \<longleftrightarrow> b \<in> A \<and> b \<notin> ran R"
  by (auto simp: ids_ok_def rcount_zero)

text \<open>An object takes a reference, and gives one up.\<close>

lemma ids_ok_take:
  assumes "ids_ok A Z M R" "b \<in> A" "R a = None"
  shows "ids_ok A (Z - {b}) (M(b \<mapsto> rcount R b + 1)) (R(a \<mapsto> b))"
  using assms by (auto simp: ids_ok_def rcount_upd)

lemma ids_ok_drop:
  assumes "ids_ok A Z M R" "R a = Some b"
  shows "ids_ok A (if rcount R b = 1 then insert b Z else Z) (M(b \<mapsto> rcount R b - 1)) (R(a := None))"
proof -
  have b: "b \<in> A" "0 < rcount R b" using ids_ok_held [OF assms] by auto
  have "ran (R(a := None)) \<subseteq> A" using assms(1) by (auto simp: ids_ok_def ran_def split: if_splits)
  with assms b show ?thesis by (auto simp: ids_ok_def rcount_upd)
qed

lemma ids_ok_conservation:
  assumes "ids_ok A Z M R"
  shows "card Z + card (ran R) = card A"
proof -
  have "A = Z \<union> ran R" "Z \<inter> ran R = {}" "finite A"
    using assms ids_ok_unheld [OF assms] by (auto simp: ids_ok_def)
  then show ?thesis by (simp add: card_Un_disjoint)
qed

lemma rc_incr_run:
  "map_of (nv_refcounts s) b = Some n \<Longrightarrow> 0 \<le> n \<Longrightarrow>
   rc_incr b s = (Inr (n + 1), s\<lparr>nv_refcounts := AList.update b (n + 1) (nv_refcounts s)\<rparr>)"
  by (simp add: rc_incr_def py_defs)

lemma rc_decr_run:
  "map_of (nv_refcounts s) b = Some n \<Longrightarrow> 0 < n \<Longrightarrow>
   rc_decr b s = (Inr (n - 1), s\<lparr>nv_refcounts := AList.update b (n - 1) (nv_refcounts s)\<rparr>)"
  by (simp add: rc_decr_def py_defs)

lemma rc_get_run: "map_of (nv_refcounts s) b = Some n \<Longrightarrow> rc_get b s = (Inr n, s)"
  by (simp add: rc_get_def py_defs)


lemma other_fields [simp]:
  "pool_ok (s\<lparr>nv_free_block_indices := F\<rparr>) = pool_ok s"
  "pool_ok (s\<lparr>nv_refcounts := M\<rparr>) = pool_ok s"
  "pool_ok (s\<lparr>nv_copy_on_writes := C\<rparr>) = pool_ok s"
  "live (s\<lparr>nv_free_block_indices := F\<rparr>) = live s"
  "live (s\<lparr>nv_refcounts := M\<rparr>) = live s"
  "live (s\<lparr>nv_copy_on_writes := C\<rparr>) = live s"
  "refmap (s\<lparr>nv_free_block_indices := F\<rparr>) = refmap s"
  "refmap (s\<lparr>nv_refcounts := M\<rparr>) = refmap s"
  "refmap (s\<lparr>nv_copy_on_writes := C\<rparr>) = refmap s"
  "prev_ok (s\<lparr>nv_free_block_indices := F\<rparr>) = prev_ok s"
  "prev_ok (s\<lparr>nv_refcounts := M\<rparr>) = prev_ok s"
  "prev_ok (s\<lparr>nv_copy_on_writes := C\<rparr>) = prev_ok s"
  by (auto simp: pool_ok_def live_def obj_def refmap_def prev_ok_def fun_eq_iff split: option.splits)

text \<open>The contents of the live objects: their size is that of the allocator, and they fit.\<close>

definition contents_ok :: "'x nv_state_scheme \<Rightarrow> bool" where
  "contents_ok s \<longleftrightarrow> (\<forall>a. live s a \<longrightarrow>
     bl_block_size (obj a s) = nv_block_size s \<and>
     int (length (bl_token_ids (obj a s))) \<le> nv_block_size s)"

lemma refmap_live: "refmap s a = Some b \<Longrightarrow> live s a \<and> bl_block_id (obj a s) = Some b"
  by (simp add: refmap_def split: if_splits)

lemma block_id_of_live: "pool_ok s \<Longrightarrow> live s a \<Longrightarrow> block_id_of a s = refmap s a"
  by (simp add: block_id_of_def pool_okD refmap_def)

section \<open>The interface of a block allocator\<close>

text \<open>
  What a client of an allocator may rely on, whatever the allocator does about cached contents: it is
  a finite map from the objects that are out to the blocks they hold; a block that is handed out is
  held by nobody else, and the free blocks are exactly those that nobody holds. Blocks can always be
  freed; they can be allocated in the states that are \<open>ready\<close> for it.
\<close>

locale block_allocator =
  fixes invar :: "'s \<Rightarrow> bool"
    and ready :: "'s \<Rightarrow> bool"
    and refs :: "'s \<Rightarrow> addr \<rightharpoonup> block_id"
    and num_free :: "'s \<Rightarrow> nat"
    and num_total :: "'s \<Rightarrow> nat"
    and alloc :: "addr option \<Rightarrow> ('s, addr) py"
    and free :: "addr \<Rightarrow> ('s, unit) py"
  assumes finite_refs: "invar s \<Longrightarrow> finite (dom (refs s))"
    and conservation: "invar s \<Longrightarrow> num_free s + card (ran (refs s)) = num_total s"
    and alloc_ok: "invar s \<Longrightarrow> ready s \<Longrightarrow> 0 < num_free s \<Longrightarrow>
      \<exists>a b t. alloc None s = (Inr a, t) \<and> invar t \<and> ready t \<and> refs s a = None \<and> b \<notin> ran (refs s) \<and>
        refs t = (refs s)(a \<mapsto> b) \<and> num_total t = num_total s"
    and alloc_full: "invar s \<Longrightarrow> ready s \<Longrightarrow> num_free s = 0 \<Longrightarrow>
      \<exists>t. alloc None s = (Inl NoFreeBlocksError, t) \<and> invar t \<and> refs t = refs s"
    and free_ok: "invar s \<Longrightarrow> refs s a = Some b \<Longrightarrow>
      \<exists>t. free a s = (Inr (), t) \<and> invar t \<and> refs t = (refs s)(a := None) \<and>
        num_total t = num_total s"
begin

lemma alloc_num_free:
  assumes "invar s" "ready s" "0 < num_free s"
  shows "\<exists>a b t. alloc None s = (Inr a, t) \<and> invar t \<and> ready t \<and> refs s a = None \<and> b \<notin> ran (refs s) \<and>
    refs t = (refs s)(a \<mapsto> b) \<and> num_free t + 1 = num_free s \<and> num_total t = num_total s"
proof -
  obtain a b t where t: "alloc None s = (Inr a, t)" "invar t" "refs s a = None" "b \<notin> ran (refs s)"
      "refs t = (refs s)(a \<mapsto> b)" "num_total t = num_total s" "ready t"
    using alloc_ok [OF assms] by blast
  have f: "finite (ran (refs s))" using finite_refs [OF assms(1)] by (rule finite_ran)
  have "card (ran (refs t)) = card (ran (refs s)) + 1" using t(3,4,5) f by simp
  then have "num_free t + 1 = num_free s"
    using conservation [OF assms(1)] conservation [OF t(2)] t(6) by simp
  with t show ?thesis by blast
qed

text \<open>Exactly \<open>num_free\<close> blocks can be allocated, with ids that nobody holds; then the allocator is full.\<close>

lemma alloc_many:
  assumes "invar s" "ready s" "n \<le> num_free s"
  shows "\<exists>xs t. repeat_py n (alloc None) s = (Inr xs, t) \<and> invar t \<and> ready t \<and> length xs = n \<and>
    num_free t + n = num_free s \<and> num_total t = num_total s \<and> distinct xs \<and>
    set xs \<inter> dom (refs s) = {} \<and> refs s \<subseteq>\<^sub>m refs t \<and> set xs \<subseteq> dom (refs t) \<and> inj_on (refs t) (set xs) \<and>
    (\<forall>x \<in> set xs. \<forall>b. refs t x = Some b \<longrightarrow> b \<notin> ran (refs s))"
  using assms
proof (induction n arbitrary: s)
  case 0
  then show ?case by (simp add: return_def)
next
  case (Suc n)
  then have "0 < num_free s" by simp
  then obtain a b u where u: "alloc None s = (Inr a, u)" "invar u" "refs s a = None"
      "b \<notin> ran (refs s)" "refs u = (refs s)(a \<mapsto> b)" "num_free u + 1 = num_free s"
      "num_total u = num_total s" "ready u"
    using alloc_num_free [OF Suc.prems(1,2)] by blast
  have "n \<le> num_free u" using Suc.prems(3) u(6) by simp
  from Suc.IH [OF u(2,8) this] obtain xs t where t: "repeat_py n (alloc None) u = (Inr xs, t)"
      "invar t" "length xs = n" "num_free t + n = num_free u" "num_total t = num_total u" "distinct xs"
      "set xs \<inter> dom (refs u) = {}" "refs u \<subseteq>\<^sub>m refs t" "set xs \<subseteq> dom (refs t)" "inj_on (refs t) (set xs)"
      "\<forall>x \<in> set xs. \<forall>b. refs t x = Some b \<longrightarrow> b \<notin> ran (refs u)" "ready t" by blast
  have "refs s \<subseteq>\<^sub>m refs u" using u(3,5) by (auto simp: map_le_def)
  then have le: "refs s \<subseteq>\<^sub>m refs t" using t(8) by (rule map_le_trans)
  have a: "refs t a = Some b" using t(8) u(5) by (auto simp: map_le_def)
  have r: "ran (refs u) = insert b (ran (refs s))" using u(3,5) by simp
  have new: "a \<notin> set xs" using t(7) u(5) by auto
  have nb: "refs t x \<noteq> refs t a" if "x \<in> set xs" for x
    using t(11) that r a by auto
  have inj: "inj_on (refs t) (set (a # xs))"
    unfolding list.set(2) inj_on_insert using t(10) nb by fastforce
  have fresh: "\<forall>x \<in> set (a # xs). \<forall>c. refs t x = Some c \<longrightarrow> c \<notin> ran (refs s)"
    using t(11) r a u(4) by simp
  have run: "repeat_py (Suc n) (alloc None) s = (Inr (a # xs), t)"
    using u(1) t(1) by (simp add: bind_def return_def)
  have dom: "set (a # xs) \<inter> dom (refs s) = {}" "set (a # xs) \<subseteq> dom (refs t)"
    using t(7,9) u(3,5) a by auto
  show ?case
    by (rule exI [of _ "a # xs"], rule exI [of _ t])
      (use u(6,7) t(2-6,12) le inj fresh run dom new in simp)
qed

text \<open>Freeing every object that is out gives back every block.\<close>

lemma free_all:
  assumes "invar s" "distinct xs" "set xs = dom (refs s)"
  shows "\<exists>t. for_each xs free s = (Inr (), t) \<and> invar t \<and> refs t = Map.empty \<and>
    num_free t = num_total s"
  using assms
proof (induction xs arbitrary: s)
  case Nil
  then have "refs s = Map.empty" by (metis dom_eq_empty_conv list.set(1))
  then show ?case using conservation [OF Nil.prems(1)] Nil.prems(1) by (auto simp: return_def)
next
  case (Cons x xs)
  then obtain b where b: "refs s x = Some b" by auto
  obtain t where t: "free x s = (Inr (), t)" "invar t" "refs t = (refs s)(x := None)"
      "num_total t = num_total s"
    using free_ok [OF Cons.prems(1) b] by blast
  have "set xs = dom (refs t)" using Cons.prems(2,3) t(3) by auto
  from Cons.IH [OF t(2) _ this] Cons.prems(2) t(1,4) show ?case
    by (auto simp: andthen_def bind_def)
qed

end


section \<open>The hit rate\<close>

text \<open>
  What the counters say after the queries \<open>hs\<close>: the completed blocks hold \<open>block_size\<close> queries each,
  and hits are neither lost nor counted twice.
\<close>

definition cm_inv :: "int \<Rightarrow> bool list \<Rightarrow> cache_metric \<Rightarrow> bool" where
  "cm_inv B hs m \<longleftrightarrow> cm_block_size m = B \<and> 0 \<le> cm_num_completed_blocks m \<and>
     0 \<le> cm_num_incompleted_block_queries m \<and> cm_num_incompleted_block_queries m < B \<and>
     (cm_num_incompleted_block_queries m = 0 \<longrightarrow> cm_num_incompleted_block_hit m = 0) \<and>
     int (length hs) = cm_num_completed_blocks m * B + cm_num_incompleted_block_queries m \<and>
     of_nat (length (filter id hs)) =
       cm_completed_block_cache_hit_rate m * of_int (cm_num_completed_blocks m) * of_int B +
       of_int (cm_num_incompleted_block_hit m)"

lemma rate_step:
  "n + 1 \<noteq> 0 \<Longrightarrow> (B :: rat) \<noteq> 0 \<Longrightarrow> (r * n + h / B) / (n + 1) * (n + 1) * B = r * n * B + h"
proof -
  assume "n + 1 \<noteq> 0" "B \<noteq> 0"
  then have "(r * n + h / B) / (n + 1) * (n + 1) = r * n + h / B" "h / B * B = h" by simp_all
  then show ?thesis by (simp only: distrib_right)
qed

lemma rate_total:
  "(B :: rat) \<noteq> 0 \<Longrightarrow> L \<noteq> 0 \<Longrightarrow> (r * n + h / B) / (L / B) = (r * n * B + h) / L"
  by (simp add: field_simps)

lemma cm_query_inv:
  assumes "cm_inv B hs m"
  shows "cm_inv B (hs @ [hit]) (cm_query hit m)"
proof -
  let ?n = "cm_num_completed_blocks m" and ?q = "cm_num_incompleted_block_queries m"
  let ?h = "cm_num_incompleted_block_hit m + (if hit then 1 else 0)"
  note m = assms [unfolded cm_inv_def]
  have B: "0 < B" using m by simp
  have hits: "(of_nat (length (filter id (hs @ [hit]))) :: rat) =
      cm_completed_block_cache_hit_rate m * of_int ?n * of_int B + of_int ?h"
    using m by simp
  show ?thesis
  proof (cases "?q + 1 = B")
    case True
    have n1: "(of_int ?n :: rat) + 1 \<noteq> 0" using m by linarith
    have "(cm_completed_block_cache_hit_rate m * of_int ?n + of_int ?h / of_int B) / (of_int ?n + 1) *
        (of_int ?n + 1) * of_int B = cm_completed_block_cache_hit_rate m * of_int ?n * of_int B + of_int ?h"
      by (rule rate_step) (use n1 B in simp_all)
    then show ?thesis
      using True m B hits
      by (auto simp: cm_inv_def cm_query_def Let_def algebra_simps simp del: filter_append)
  next
    case False
    then show ?thesis
      using m hits by (auto simp: cm_inv_def cm_query_def Let_def simp del: filter_append)
  qed
qed

lemma cm_queries_inv:
  assumes "0 < B"
  shows "cm_inv B hs (fold cm_query hs (cm_new B))"
proof (induction hs rule: rev_induct)
  case Nil
  then show ?case using assms by (simp add: cm_inv_def cm_new_def)
next
  case (snoc h hs)
  then show ?case using cm_query_inv [OF snoc, of h] by simp
qed

lemma cm_get_hit_rate_inv:
  assumes m: "cm_inv B hs m" and "hs \<noteq> []"
  shows "cm_get_hit_rate m = Inr (of_nat (length (filter id hs)) / of_nat (length hs))"
proof -
  let ?r = "cm_completed_block_cache_hit_rate m" and ?n = "of_int (cm_num_completed_blocks m) :: rat"
  let ?q = "of_int (cm_num_incompleted_block_queries m) :: rat" and ?B = "of_int B :: rat"
  let ?h = "of_int (cm_num_incompleted_block_hit m) :: rat" and ?L = "of_nat (length hs) :: rat"
  note m = m [unfolded cm_inv_def]
  have B: "?B \<noteq> 0" "B \<noteq> 0" using m by simp_all
  have L: "?L \<noteq> 0" using assms(2) by simp
  have "(of_int (int (length hs)) :: rat) = ?n * ?B + ?q" using m by (metis of_int_add of_int_mult)
  then have tot: "?n + ?q / ?B = ?L / ?B" using B by (simp add: field_simps)
  have c: "(if 0 < cm_num_completed_blocks m then ?r * ?n else 0) = ?r * ?n" using m by auto
  have i: "(if 0 < cm_num_incompleted_block_queries m then ?h / ?q * (?q / ?B) else 0) = ?h / ?B"
    using m by (cases "cm_num_incompleted_block_queries m = 0") auto
  have nz: "?L / ?B \<noteq> 0" using L B by simp
  have "cm_get_hit_rate m = Inr ((?r * ?n + ?h / ?B) / (?L / ?B))"
    using m B(2) nz unfolding cm_get_hit_rate_def Let_def by (simp only: c i tot if_False)
  also have "(?r * ?n + ?h / ?B) / (?L / ?B) = (?r * ?n * ?B + ?h) / ?L" by (rule rate_total [OF B(1) L])
  also have "?r * ?n * ?B + ?h = of_nat (length (filter id hs))" using m by simp
  finally show ?thesis .
qed

text \<open>
  \<open>get_hit_rate\<close> is exactly the fraction of the queries that were hits, however many queries are
  collapsed into completed blocks (in exact arithmetic).
\<close>

theorem hit_rate_exact:
  assumes "0 < block_size" "hs \<noteq> []"
  shows "cm_get_hit_rate (fold cm_query hs (cm_new block_size)) =
    Inr (of_nat (length (filter id hs)) / of_nat (length hs))"
  by (rule cm_get_hit_rate_inv [OF cm_queries_inv [OF assms(1)] assms(2)])

lemma hit_rate_exact_witness:
  "cm_get_hit_rate (fold cm_query [True, False, True, True, False] (cm_new 2)) = Inr (3 / 5)"
  using hit_rate_exact [of 2 "[True, False, True, True, False]"] by simp

end
