(* ===== verification/NaiveBlock.thy ===== *)
theory NaiveBlock
  imports BlockCommon
begin

text \<open>
  \<^verbatim>\<open>vllm/core/block/naive_block.py\<close>: blocks without prefix caching and their allocator. The
  operations work on every extension of \<open>nv_state\<close>, because the prefix-caching allocator runs some
  of them on the pool and reference counts that it shares with its naive allocator.
\<close>

section \<open>NaiveBlock\<close>

text \<open>
  \<open>append_token_ids\<close>; \<open>cow_block\<close> is the method \<open>cow_block_if_not_appendable\<close> of the block's
  allocator, which a naive block inside a prefix-caching block finds in the other allocator.
\<close>

definition nb_append_token_ids :: "(addr \<Rightarrow> ('x nv_state_scheme, block_id) py) \<Rightarrow> addr \<Rightarrow> int list
    \<Rightarrow> ('x nv_state_scheme, unit) py" where
  "nb_append_token_ids cow_block a token_ids =
     andthen (nb_append_no_cow a token_ids)
    (bind (gets (block_id_of a)) (\<lambda>b.
     if b = None then return ()
     else bind (cow_block a) (\<lambda>b. set_block_id a (Some b))))"

section \<open>NaiveBlockAllocator\<close>

definition nv_init_ids :: "int \<Rightarrow> block_id list \<Rightarrow> 'x nv_state_scheme \<Rightarrow> exn + 'x nv_state_scheme" where
  "nv_init_ids num_blocks block_ids s =
     echeck AssertionError (int (length (remdups block_ids)) = num_blocks)
       (Inr (s\<lparr>nv_free_block_indices := block_ids, nv_all_block_indices := remdups block_ids,
          nv_refcounts := rc_init block_ids, nv_copy_on_writes := []\<rparr>))"

definition nv_empty :: "block_class \<Rightarrow> int \<Rightarrow> nv_state" where
  "nv_empty create_block block_size = \<lparr>nv_heap = [], nv_pool = [], nv_pool_size = 0,
     nv_pool_free_ids = [], nv_create_block = create_block, nv_block_size = block_size,
     nv_free_block_indices = [], nv_all_block_indices = [], nv_refcounts = [],
     nv_copy_on_writes = []\<rparr>"

definition int_range :: "int \<Rightarrow> int list" where
  "int_range n = [0 .. n - 1]"

definition nv_init :: "int \<Rightarrow> int \<Rightarrow> block_id list option \<Rightarrow> exn + nv_state" where
  "nv_init num_blocks block_size block_ids =
     ebind (nv_init_ids num_blocks (case block_ids of None \<Rightarrow> int_range num_blocks | Some ids \<Rightarrow> ids)
              (nv_empty NaiveBlock block_size))
       (\<lambda>s. Inr (pool_init (nat (num_blocks * 4)) s))"

definition nv_allocate_block_id :: "('x nv_state_scheme, block_id) py" where
  "nv_allocate_block_id =
     bind (gets nv_free_block_indices) (\<lambda>free. case free of
       [] \<Rightarrow> raise NoFreeBlocksError
     | block_id # rest \<Rightarrow>
         andthen (modify (\<lambda>s. s\<lparr>nv_free_block_indices := rest\<rparr>))
        (andthen (bind (rc_incr block_id) (\<lambda>_. return ()))
                 (return block_id)))"

definition nv_free_block_id :: "addr \<Rightarrow> ('x nv_state_scheme, unit) py" where
  "nv_free_block_id a =
     bind (gets (block_id_of a)) (\<lambda>b.
     bind (from_option AssertionError b) (\<lambda>block_id.
     bind (rc_decr block_id) (\<lambda>refcount.
     andthen (if refcount = 0
        then modify (\<lambda>s. s\<lparr>nv_free_block_indices := block_id # nv_free_block_indices s\<rparr>)
        else return ())
       (set_block_id a None))))"

definition nv_free :: "addr \<Rightarrow> bool \<Rightarrow> ('x nv_state_scheme, unit) py" where
  "nv_free a keep_block_object =
     andthen (nv_free_block_id a) (if keep_block_object then return () else free_block a)"

definition nv_allocate_mutable_block :: "addr option \<Rightarrow> ('x nv_state_scheme, addr) py" where
  "nv_allocate_mutable_block prev_block =
     bind nv_allocate_block_id (\<lambda>block_id.
     bind (gets nv_block_size) (\<lambda>block_size.
     init_block prev_block [] block_size (Some block_id)))"

definition nv_cow_block_if_not_appendable :: "addr \<Rightarrow> ('x nv_state_scheme, block_id) py" where
  "nv_cow_block_if_not_appendable a =
     bind (gets (block_id_of a)) (\<lambda>src.
     bind (from_option AssertionError src) (\<lambda>src_block_id.
     bind (ct_is_appendable a) (\<lambda>appendable.
     if appendable then return src_block_id
     else andthen (nv_free_block_id a)
         (bind nv_allocate_block_id (\<lambda>trg_block_id.
          andthen (ct_record_cow (\<lambda>l s. s\<lparr>nv_copy_on_writes := l\<rparr>) nv_copy_on_writes
                     (Some src_block_id) (Some trg_block_id))
            (return trg_block_id))))))"

definition nv_clear_copy_on_writes :: "('x nv_state_scheme, (block_id \<times> block_id) list) py" where
  "nv_clear_copy_on_writes =
     ct_clear_cows (\<lambda>l s. s\<lparr>nv_copy_on_writes := l\<rparr>) nv_copy_on_writes"

definition nv_append_token_ids :: "addr \<Rightarrow> int list \<Rightarrow> ('x nv_state_scheme, unit) py" where
  "nv_append_token_ids = nb_append_token_ids nv_cow_block_if_not_appendable"

definition nv_allocate_immutable_block :: "addr option \<Rightarrow> int list \<Rightarrow> ('x nv_state_scheme, addr) py" where
  "nv_allocate_immutable_block prev_block token_ids =
     bind (nv_allocate_mutable_block prev_block) (\<lambda>a.
     andthen (nv_append_token_ids a token_ids) (return a))"

fun nv_init_blocks :: "addr option \<Rightarrow> (int list \<times> block_id) list \<Rightarrow> ('x nv_state_scheme, addr list) py" where
  "nv_init_blocks prev_block [] = return []"
| "nv_init_blocks prev_block ((token_ids, block_id) # rest) =
     bind (gets nv_block_size) (\<lambda>block_size.
     bind (init_block prev_block token_ids block_size (Some block_id)) (\<lambda>a.
     bind (nv_init_blocks (Some a) rest) (\<lambda>blocks. return (a # blocks))))"

definition nv_allocate_immutable_blocks :: "addr option \<Rightarrow> int list list
    \<Rightarrow> ('x nv_state_scheme, addr list) py" where
  "nv_allocate_immutable_blocks prev_block block_token_ids =
     bind (repeat_py (length block_token_ids) nv_allocate_block_id) (\<lambda>block_ids.
     nv_init_blocks prev_block (zip block_token_ids block_ids))"

fun nv_fork_blocks :: "addr option \<Rightarrow> addr list \<Rightarrow> ('x nv_state_scheme, addr list) py" where
  "nv_fork_blocks prev_block [] = return []"
| "nv_fork_blocks prev_block (a # rest) =
     bind (gets (block_id_of a)) (\<lambda>b.
     bind (from_option AssertionError b) (\<lambda>block_id.
     bind (rc_incr block_id) (\<lambda>refcount.
     andthen (guard AssertionError (refcount \<noteq> 1))
    (bind (gets (\<lambda>s. (bl_token_ids (deref a s), nv_block_size s))) (\<lambda>(token_ids, block_size).
     bind (init_block prev_block token_ids block_size (Some block_id)) (\<lambda>f.
     bind (nv_fork_blocks (Some f) rest) (\<lambda>blocks. return (f # blocks))))))))"

definition nv_fork :: "addr \<Rightarrow> ('x nv_state_scheme, addr list) py" where
  "nv_fork last_block = bind (get_all_blocks_recursively last_block) (nv_fork_blocks None)"

definition nv_get_num_free_blocks :: "'x nv_state_scheme \<Rightarrow> nat" where
  "nv_get_num_free_blocks s = length (nv_free_block_indices s)"

definition nv_get_num_total_blocks :: "'x nv_state_scheme \<Rightarrow> nat" where
  "nv_get_num_total_blocks s = length (nv_all_block_indices s)"

text \<open>\<open>list.index\<close>, and \<open>sorted(self._all_block_indices).index(absolute_id)\<close>.\<close>

fun list_index :: "'a \<Rightarrow> 'a list \<Rightarrow> exn + int" where
  "list_index x [] = Inl ValueError"
| "list_index x (y # ys) = (if x = y then Inr 0 else ebind (list_index x ys) (\<lambda>i. Inr (i + 1)))"

definition nv_get_physical_block_id :: "block_id \<Rightarrow> 'x nv_state_scheme \<Rightarrow> exn + int" where
  "nv_get_physical_block_id absolute_id s = list_index absolute_id (sort (nv_all_block_indices s))"

text \<open>A set of block objects, which are compared by identity.\<close>

definition nv_get_num_full_blocks_touched :: "addr list \<Rightarrow> 'x nv_state_scheme \<Rightarrow> nat" where
  "nv_get_num_full_blocks_touched blocks s =
     length (remdups (filter (\<lambda>a. is_full (deref a s)) blocks))"

definition nv_swap_out :: "addr list \<Rightarrow> ('x nv_state_scheme, unit) py" where
  "nv_swap_out blocks = for_each blocks nv_free_block_id"

definition nv_swap_in_block :: "addr \<Rightarrow> ('x nv_state_scheme, unit) py" where
  "nv_swap_in_block a =
     bind (gets (deref a)) (\<lambda>block.
     bind (if is_full block
           then nv_allocate_immutable_block (bl_prev_block block) (bl_token_ids block)
           else bind (nv_allocate_mutable_block (bl_prev_block block)) (\<lambda>tmp_block.
                andthen (nv_append_token_ids tmp_block (bl_token_ids block)) (return tmp_block)))
       (\<lambda>tmp_block.
     bind (gets (block_id_of tmp_block)) (\<lambda>block_id.
     andthen (set_block_id tmp_block None)
    (andthen (free_block tmp_block)
             (set_block_id a block_id)))))"

definition nv_swap_in :: "addr list \<Rightarrow> ('x nv_state_scheme, unit) py" where
  "nv_swap_in blocks = for_each blocks nv_swap_in_block"

text \<open>The operations that a naive allocator has only for the interface.\<close>

definition nv_mark_blocks_as_accessed :: "block_id list \<Rightarrow> rat \<Rightarrow> ('x nv_state_scheme, unit) py" where
  "nv_mark_blocks_as_accessed block_ids now = return ()"

definition nv_mark_blocks_as_computed :: "block_id list \<Rightarrow> ('x nv_state_scheme, unit) py" where
  "nv_mark_blocks_as_computed block_ids = return ()"

definition nv_get_computed_block_ids :: "block_id list \<Rightarrow> block_id list \<Rightarrow> bool \<Rightarrow> block_id list" where
  "nv_get_computed_block_ids prev_computed_block_ids block_ids skip_last_block_id = []"

definition nv_get_common_computed_block_ids :: "block_id list list \<Rightarrow> block_id list" where
  "nv_get_common_computed_block_ids computed_seq_block_ids = []"

definition nv_promote_to_immutable_block :: "addr \<Rightarrow> ('x nv_state_scheme, block_id) py" where
  "nv_promote_to_immutable_block a = raise NotImplementedError"

definition nv_get_prefix_cache_hit_rate :: rat where
  "nv_get_prefix_cache_hit_rate = -1"


section \<open>The invariant\<close>

text \<open>
  The reference count of every id is the number of live objects that hold it, and an id is in the
  free deque (once) exactly when nobody holds it.
\<close>

definition nv_inv :: "'x nv_state_scheme \<Rightarrow> bool" where
  "nv_inv s \<longleftrightarrow> pool_ok s \<and> 0 \<le> nv_block_size s \<and> distinct (nv_all_block_indices s) \<and>
     distinct (nv_free_block_indices s) \<and>
     ids_ok (set (nv_all_block_indices s)) (set (nv_free_block_indices s))
       (map_of (nv_refcounts s)) (refmap s) \<and> contents_ok s"

text \<open>What an operation on other objects leaves alone.\<close>

definition nv_frame :: "addr set \<Rightarrow> 'x nv_state_scheme \<Rightarrow> 'x nv_state_scheme \<Rightarrow> bool" where
  "nv_frame X s t \<longleftrightarrow> nv_all_block_indices t = nv_all_block_indices s \<and>
     nv_block_size t = nv_block_size s \<and> nv_create_block t = nv_create_block s \<and>
     (\<forall>a. a \<notin> X \<longrightarrow> live s a \<longrightarrow> live t a \<and> obj a t = obj a s)"

lemma nv_frame_refl [simp]: "nv_frame X s s"
  by (simp add: nv_frame_def)

lemma nv_frame_trans: "nv_frame X s t \<Longrightarrow> nv_frame X t u \<Longrightarrow> nv_frame X s u"
  by (auto simp: nv_frame_def)

lemma nv_invD:
  assumes "nv_inv s"
  shows "pool_ok s" "contents_ok s" "distinct (nv_free_block_indices s)"
    "ids_ok (set (nv_all_block_indices s)) (set (nv_free_block_indices s))
       (map_of (nv_refcounts s)) (refmap s)"
    "0 \<le> nv_block_size s"
  using assms by (simp_all add: nv_inv_def)

lemma contents_ok_initialised:
  assumes "contents_ok s" "initialised s prev ts (nv_block_size s) b a t" "pool_ok s"
    "int (length ts) \<le> nv_block_size s"
  shows "contents_ok t"
proof -
  have f: "nv_block_size t = nv_block_size s"
    using assms(2) by (simp add: initialised_def pool_frame_fields)
  have l: "live t x \<longleftrightarrow> live s x \<or> x = a" for x using assms(2) by (simp add: initialised_def)
  have i: "bl_token_ids (obj a t) = ts" "bl_block_size (obj a t) = nv_block_size s"
    using assms(2) by (simp_all add: initialised_def inited_def)
  show ?thesis
    using assms(1,4) i f unfolding contents_ok_def l
    by (auto simp: initialised_refmap(5) [OF assms(2,3)])
qed

lemma initialised_frame:
  assumes "initialised s prev ts bs b a t" "pool_ok s"
  shows "nv_frame {} s t" "nv_free_block_indices t = nv_free_block_indices s"
    "nv_refcounts t = nv_refcounts s" "nv_copy_on_writes t = nv_copy_on_writes s"
    "nv_state.more t = nv_state.more s"
  using assms initialised_refmap(5) [OF assms]
  by (auto simp: initialised_def nv_frame_def pool_frame_fields)

text \<open>\<open>_allocate_block_id\<close>, when the reference counts are those of the invariant.\<close>

lemma nv_allocate_block_id_run:
  assumes "ids_ok A (set (nv_free_block_indices s)) (map_of (nv_refcounts s)) R"
    and "nv_free_block_indices s = b # rest"
  shows "nv_allocate_block_id s = (Inr b, s\<lparr>nv_free_block_indices := rest,
    nv_refcounts := AList.update b 1 (nv_refcounts s)\<rparr>)"
proof -
  have z: "b \<in> set (nv_free_block_indices s)" using assms(2) by simp
  then have "rcount R b = 0" "b \<in> A" using assms(1) by (auto simp: ids_ok_def)
  then have "map_of (nv_refcounts s) b = Some 0" using ids_ok_count [OF assms(1)] by simp
  then show ?thesis
    using assms(2) by (simp add: nv_allocate_block_id_def py_defs rc_incr_run)
qed

lemma nv_allocate_mutable_run:
  assumes "nv_inv s" "prev_ok s prev" "nv_free_block_indices s = b # rest"
  shows "\<exists>a t. nv_allocate_mutable_block prev s = (Inr a, t) \<and> nv_inv t \<and> nv_frame {} s t \<and>
    refmap s a = None \<and> \<not> live s a \<and> live t a \<and> refmap t = (refmap s)(a \<mapsto> b) \<and>
    b \<notin> ran (refmap s) \<and> nv_free_block_indices t = rest \<and>
    inited s prev [] (nv_block_size s) (Some b) (obj a t) \<and>
    nv_copy_on_writes t = nv_copy_on_writes s \<and> nv_state.more t = nv_state.more s"
proof -
  note inv = nv_invD [OF assms(1)]
  let ?s = "s\<lparr>nv_free_block_indices := rest, nv_refcounts := AList.update b 1 (nv_refcounts s)\<rparr>"
  have run: "nv_allocate_block_id s = (Inr b, ?s)"
    by (rule nv_allocate_block_id_run [OF inv(4) assms(3)])
  have ps: "pool_ok ?s" "prev_ok ?s prev" using inv(1) assms(2) by simp_all
  obtain a t where t: "init_block prev [] (nv_block_size s) (Some b) ?s = (Inr a, t)"
      "initialised ?s prev [] (nv_block_size s) (Some b) a t"
    using init_block_run [OF ps(1) _ ps(2), of "[]" "nv_block_size s" "Some b"] inv(5) by auto
  note ini = initialised_refmap [OF t(2) ps(1)] and fr = initialised_frame [OF t(2) ps(1)]
  have "b \<in> set (nv_free_block_indices s)" using assms(3) by simp
  then have b: "b \<in> set (nv_all_block_indices s)" "b \<notin> ran (refmap s)" "rcount (refmap s) b = 0"
    using ids_ok_unheld [OF inv(4)] by (simp_all add: rcount_zero)
  have "ids_ok (set (nv_all_block_indices s)) (set (nv_free_block_indices s) - {b})
      ((map_of (nv_refcounts s))(b \<mapsto> 1)) ((refmap s)(a \<mapsto> b))"
    using ids_ok_take [OF inv(4) b(1), of a] ini(4) b(3) by simp
  moreover have "set (nv_free_block_indices s) - {b} = set rest" using assms(3) inv(3) by auto
  ultimately have ids: "ids_ok (set (nv_all_block_indices s)) (set rest)
      (map_of (nv_refcounts t)) (refmap t)"
    using ini(1) fr(3) by (simp add: dict_simps)
  have ct: "contents_ok ?s" using inv(2) by (simp add: contents_ok_def)
  have "contents_ok t"
    using contents_ok_initialised [OF ct _ ps(1), of prev "[]" "Some b" a t] t(2) inv(5) by simp
  with ids have "nv_inv t"
    using assms(1,3) fr t(2) by (simp add: nv_inv_def nv_frame_def initialised_def)
  moreover have "nv_frame {} s t" using fr(1) by (simp add: nv_frame_def)
  moreover have "\<not> live s a" using t(2) by (simp add: initialised_def)
  moreover have "inited s prev [] (nv_block_size s) (Some b) (obj a t)"
    using t(2) by (simp add: initialised_def inited_def split: option.splits)
  moreover have "nv_allocate_mutable_block prev s = (Inr a, t)"
    using run t(1) by (simp add: nv_allocate_mutable_block_def bind_def gets_def)
  ultimately show ?thesis
    using ini fr b by (intro exI [of _ a] exI [of _ t]) simp
qed

lemma nv_allocate_mutable_full:
  "nv_free_block_indices s = [] \<Longrightarrow> nv_allocate_mutable_block prev s = (Inl NoFreeBlocksError, s)"
  by (simp add: nv_allocate_mutable_block_def nv_allocate_block_id_def py_defs)

lemma nv_free_block_id_run:
  assumes "nv_inv s" "refmap s a = Some b"
  shows "\<exists>t. nv_free_block_id a s = (Inr (), t) \<and> nv_inv t \<and> nv_frame {a} s t \<and> live t = live s \<and>
    refmap t = (refmap s)(a := None) \<and>
    nv_free_block_indices t =
      (if rcount (refmap s) b = 1 then b # nv_free_block_indices s else nv_free_block_indices s) \<and>
    obj a t = (obj a s)\<lparr>bl_block_id := None\<rparr> \<and>
    nv_copy_on_writes t = nv_copy_on_writes s \<and> nv_state.more t = nv_state.more s"
proof -
  note inv = nv_invD [OF assms(1)]
  have la: "live s a" "bl_block_id (obj a s) = Some b" using refmap_live [OF assms(2)] by simp_all
  have held: "b \<in> set (nv_all_block_indices s)" "0 < rcount (refmap s) b"
      "map_of (nv_refcounts s) b = Some (rcount (refmap s) b)" "b \<notin> set (nv_free_block_indices s)"
    using ids_ok_held [OF inv(4) assms(2)] by auto
  define F where "F = (if rcount (refmap s) b = 1 then b # nv_free_block_indices s
    else nv_free_block_indices s)"
  let ?u = "s\<lparr>nv_refcounts := AList.update b (rcount (refmap s) b - 1) (nv_refcounts s),
    nv_free_block_indices := F\<rparr>"
  let ?t = "upd_obj a (\<lambda>x. x\<lparr>bl_block_id := None\<rparr>) ?u"
  have pu: "pool_ok ?u" "live ?u a" using inv(1) la(1) by simp_all
  note set = set_block_id_run [OF pu, of None]
  have run: "nv_free_block_id a s = (Inr (), ?t)"
  proof -
    have "s\<lparr>nv_refcounts := M, nv_free_block_indices := nv_free_block_indices s\<rparr> =
        s\<lparr>nv_refcounts := M\<rparr>" for M by (cases s) simp
    then show ?thesis
      using block_id_of_live [OF inv(1) la(1)] assms(2) rc_decr_run [OF held(3,2)] set(1)
      by (simp add: nv_free_block_id_def bind_def gets_def from_option_def andthen_def return_def
          modify_def F_def split: if_splits)
  qed
  have rt: "refmap ?t = (refmap s)(a := None)" using set(3) by simp
  have ids: "ids_ok (set (nv_all_block_indices ?t)) (set (nv_free_block_indices ?t))
      (map_of (nv_refcounts ?t)) (refmap ?t)"
    using ids_ok_drop [OF inv(4) assms(2)] rt by (simp add: dict_simps F_def split: if_splits)
  have al: "a < length (nv_heap ?u)" using inv(1) la(1) by (simp add: pool_ok_def live_def)
  have o: "obj y ?t = (if y = a then (obj a s)\<lparr>bl_block_id := None\<rparr> else obj y s)" for y
    using al by simp
  have "contents_ok ?t"
    using inv(2) unfolding contents_ok_def o by simp
  then have "nv_inv ?t"
    using ids set(2) assms(1) held(4) by (simp add: nv_inv_def F_def)
  moreover have "nv_frame {a} s ?t" unfolding nv_frame_def o by simp
  ultimately show ?thesis
    using run rt o by (intro exI [of _ ?t]) (simp add: F_def)
qed

lemma nv_free_run:
  assumes "nv_inv s" "refmap s a = Some b"
  shows "\<exists>t. nv_free a False s = (Inr (), t) \<and> nv_inv t \<and> nv_frame {a} s t \<and> \<not> live t a \<and>
    refmap t = (refmap s)(a := None) \<and>
    nv_free_block_indices t =
      (if rcount (refmap s) b = 1 then b # nv_free_block_indices s else nv_free_block_indices s)"
proof -
  obtain u where u: "nv_free_block_id a s = (Inr (), u)" "nv_inv u" "nv_frame {a} s u" "live u = live s"
      "refmap u = (refmap s)(a := None)" "nv_free_block_indices u =
      (if rcount (refmap s) b = 1 then b # nv_free_block_indices s else nv_free_block_indices s)"
    using nv_free_block_id_run [OF assms] by blast
  have la: "live u a" using refmap_live [OF assms(2)] u(4) by simp
  note fb = free_block_run [OF nv_invD(1) [OF u(2)] la]
  let ?t = "u\<lparr>nv_pool_free_ids := a # nv_pool_free_ids u\<rparr>"
  have r: "refmap ?t = refmap u" using fb(4) u(5) by simp
  have "nv_inv ?t"
    using u(2) fb(2) r unfolding nv_inv_def contents_ok_def fb(3) by simp
  moreover have "nv_frame {a} s ?t"
    using u(3) unfolding nv_frame_def fb(3) by simp
  ultimately show ?thesis
    using u fb(1) r fb(3) [of a]
    by (intro exI [of _ ?t]) (simp add: nv_free_def andthen_def bind_def)
qed


text \<open>An object that is out and holds nothing was swapped out; it cannot be freed again.\<close>

lemma nv_num_free:
  assumes "nv_inv s"
  shows "nv_get_num_free_blocks s = card (set (nv_free_block_indices s))"
  using nv_invD(3) [OF assms] by (simp add: nv_get_num_free_blocks_def distinct_card)

interpretation nv: block_allocator nv_inv "\<lambda>_. True" refmap nv_get_num_free_blocks
  nv_get_num_total_blocks nv_allocate_mutable_block "\<lambda>a. nv_free a False"
proof unfold_locales
  fix s :: "'a nv_state_scheme"
  assume i: "nv_inv s"
  show "nv_get_num_free_blocks s + card (ran (refmap s)) = nv_get_num_total_blocks s"
    using ids_ok_conservation [OF nv_invD(4) [OF i]] i
    by (simp add: nv_num_free nv_get_num_total_blocks_def nv_inv_def distinct_card)
  show "\<exists>a b t. nv_allocate_mutable_block None s = (Inr a, t) \<and> nv_inv t \<and> True \<and>
      refmap s a = None \<and> b \<notin> ran (refmap s) \<and> refmap t = (refmap s)(a \<mapsto> b) \<and>
      nv_get_num_total_blocks t = nv_get_num_total_blocks s" if f: "0 < nv_get_num_free_blocks s"
  proof -
    obtain b rest where fr: "nv_free_block_indices s = b # rest"
      using f by (cases "nv_free_block_indices s") (auto simp: nv_get_num_free_blocks_def)
    obtain a t where t: "nv_allocate_mutable_block None s = (Inr a, t)" "nv_inv t" "nv_frame {} s t"
        "refmap s a = None" "refmap t = (refmap s)(a \<mapsto> b)" "b \<notin> ran (refmap s)"
      using nv_allocate_mutable_run [OF i _ fr, of None] by (auto simp: prev_ok_def)
    then show ?thesis
      by (intro exI [of _ a] exI [of _ b] exI [of _ t])
        (simp add: nv_get_num_total_blocks_def nv_frame_def)
  qed
  show "\<exists>t. nv_allocate_mutable_block None s = (Inl NoFreeBlocksError, t) \<and> nv_inv t \<and>
      refmap t = refmap s" if "nv_get_num_free_blocks s = 0"
    using that i nv_allocate_mutable_full [of s None] by (simp add: nv_get_num_free_blocks_def)
  show "\<exists>t. nv_free a False s = (Inr (), t) \<and> nv_inv t \<and> refmap t = (refmap s)(a := None) \<and>
      nv_get_num_total_blocks t = nv_get_num_total_blocks s" if r: "refmap s a = Some b" for a b
    using nv_free_run [OF i r] by (auto simp: nv_get_num_total_blocks_def nv_frame_def)
qed simp

section \<open>Forking\<close>

text \<open>
  \<open>forked_from p a f\<close>: the object \<open>f\<close> was made from \<open>a\<close> and follows \<open>p\<close>: it holds the same block
  and has its own copy of the same tokens.
\<close>

definition forked_from :: "'x nv_state_scheme \<Rightarrow> 'x nv_state_scheme \<Rightarrow> addr option \<Rightarrow> addr \<Rightarrow> addr \<Rightarrow> bool" where
  "forked_from s t p a f \<longleftrightarrow> \<not> live s f \<and> live t f \<and> refmap t f = refmap s a \<and>
     bl_token_ids (obj f t) = bl_token_ids (obj a s) \<and> bl_prev_block (obj f t) = p"

fun forked_list :: "'x nv_state_scheme \<Rightarrow> 'x nv_state_scheme \<Rightarrow> addr option \<Rightarrow> addr list \<Rightarrow> addr list \<Rightarrow> bool" where
  "forked_list s t p [] [] \<longleftrightarrow> True"
| "forked_list s t p (a # as) (f # fs) \<longleftrightarrow> forked_from s t p a f \<and> f \<notin> set fs \<and>
     forked_list s t (Some f) as fs"
| "forked_list s t p _ _ \<longleftrightarrow> False"

lemma forked_list_mono:
  assumes "forked_list u t q as fs" "\<And>g. \<not> live u g \<Longrightarrow> \<not> live s g"
    and "\<And>x. x \<in> set as \<Longrightarrow> refmap u x = refmap s x \<and> obj x u = obj x s"
  shows "forked_list s t q as fs"
  using assms
proof (induction as arbitrary: q fs)
  case Nil
  then show ?case by (cases fs) auto
next
  case (Cons a as)
  then show ?case by (cases fs) (auto simp: forked_from_def)
qed

lemma nv_fork_blocks_run:
  assumes "nv_inv s" "prev_ok s p" "set as \<subseteq> dom (refmap s)"
  shows "\<exists>fs t. nv_fork_blocks p as s = (Inr fs, t) \<and> nv_inv t \<and> nv_frame {} s t \<and>
    forked_list s t p as fs \<and> (\<forall>x. live t x \<longleftrightarrow> live s x \<or> x \<in> set fs) \<and>
    nv_free_block_indices t = nv_free_block_indices s \<and>
    nv_copy_on_writes t = nv_copy_on_writes s"
  using assms
proof (induction as arbitrary: s p)
  case Nil
  then show ?case by (intro exI [of _ "[]"] exI [of _ s]) (simp add: return_def)
next
  case (Cons a as)
  note inv = nv_invD [OF Cons.prems(1)]
  obtain b where b: "refmap s a = Some b" using Cons.prems(3) by auto
  have la: "live s a" using refmap_live [OF b] by simp
  have held: "b \<in> set (nv_all_block_indices s)" "0 < rcount (refmap s) b"
      "map_of (nv_refcounts s) b = Some (rcount (refmap s) b)" "b \<notin> set (nv_free_block_indices s)"
    using ids_ok_held [OF inv(4) b] by auto
  let ?n = "rcount (refmap s) b + 1"
  let ?ts = "bl_token_ids (obj a s)"
  let ?s = "s\<lparr>nv_refcounts := AList.update b ?n (nv_refcounts s)\<rparr>"
  have rc: "rc_incr b s = (Inr ?n, ?s)" using rc_incr_run [OF held(3)] by simp
  have ps: "pool_ok ?s" "prev_ok ?s p" using inv(1) Cons.prems(2) by simp_all
  have da: "deref a ?s = obj a s" using pool_okD(6) [OF ps(1), of a] la by simp
  have len: "int (length ?ts) \<le> nv_block_size s" using inv(2) la by (simp add: contents_ok_def)
  obtain f u where u: "init_block p ?ts (nv_block_size s) (Some b) ?s = (Inr f, u)"
      "initialised ?s p ?ts (nv_block_size s) (Some b) f u"
    using init_block_run [OF ps(1) len ps(2), of "Some b"] by blast
  note ini = initialised_refmap [OF u(2) ps(1)] and fr = initialised_frame [OF u(2) ps(1)]
  have "ids_ok (set (nv_all_block_indices s)) (set (nv_free_block_indices s))
      ((map_of (nv_refcounts s))(b \<mapsto> ?n)) ((refmap s)(f \<mapsto> b))"
    using ids_ok_take [OF inv(4) held(1), of f] ini(4) held(4) by simp
  then have ids: "ids_ok (set (nv_all_block_indices u)) (set (nv_free_block_indices u))
      (map_of (nv_refcounts u)) (refmap u)"
    using ini(1) fr by (simp add: dict_simps nv_frame_def)
  have "contents_ok ?s" using inv(2) by (simp add: contents_ok_def)
  then have cu: "contents_ok u"
    using contents_ok_initialised [of ?s p ?ts "Some b" f u] u(2) ps(1) len by simp
  have iu: "nv_inv u"
    using Cons.prems(1) ids cu fr u(2) by (simp add: nv_inv_def nv_frame_def initialised_def)
  have lu: "live u x \<longleftrightarrow> live s x \<or> x = f" "\<not> live s f" for x
    using u(2) by (auto simp: initialised_def)
  have fu: "nv_frame {} s u" using fr(1) by (simp add: nv_frame_def)
  have nf: "f \<notin> set as" using Cons.prems(3) lu(2) refmap_live [of s f] by auto
  have "prev_ok u (Some f)" using lu by (simp add: prev_ok_def)
  moreover have sub: "set as \<subseteq> dom (refmap u)" using Cons.prems(3) ini(1) by auto
  ultimately obtain fs t where t: "nv_fork_blocks (Some f) as u = (Inr fs, t)" "nv_inv t"
      "nv_frame {} u t" "forked_list u t (Some f) as fs" "\<forall>x. live t x \<longleftrightarrow> live u x \<or> x \<in> set fs"
      "nv_free_block_indices t = nv_free_block_indices u" "nv_copy_on_writes t = nv_copy_on_writes u"
    using Cons.IH [OF iu] by blast
  have keep: "refmap u x = refmap s x \<and> obj x u = obj x s" if "x \<in> set as" for x
    using that nf Cons.prems(3) ini(1) refmap_live [of s x] fu by (auto simp: nv_frame_def)
  have lift: "forked_list s t (Some f) as fs"
    by (rule forked_list_mono [OF t(4)]) (use keep lu in auto)
  have ff: "forked_from s t p a f"
  proof -
    have "live t f" "obj f t = obj f u" using t(3) lu by (simp_all add: nv_frame_def)
    moreover have "bl_token_ids (obj f u) = ?ts" "bl_prev_block (obj f u) = p"
        "bl_block_id (obj f u) = Some b"
      using u(2) by (simp_all add: initialised_def inited_def)
    ultimately show ?thesis using lu b by (simp add: forked_from_def refmap_def)
  qed
  have fdistinct: "forked_list u t q as' fs' \<Longrightarrow> \<forall>g \<in> set fs'. \<not> live u g" for q as' fs'
    by (induction u t q as' fs' rule: forked_list.induct) (auto simp: forked_from_def)
  then have "f \<notin> set fs" using t(4) lu by auto
  with ff lift have fl: "forked_list s t p (a # as) (f # fs)" by simp
  have run: "nv_fork_blocks p (a # as) s = (Inr (f # fs), t)"
    using block_id_of_live [OF inv(1) la] b rc held(2) u(1) t(1) da
    by (simp add: bind_def gets_def from_option_def return_def andthen_def guard_def)
  show ?case
    using run t(2,5,6,7) fl nv_frame_trans [OF fu t(3)] lu fr
    by (intro exI [of _ "f # fs"] exI [of _ t]) auto
qed


section \<open>Appending and copy-on-write\<close>

lemma add_tokens_inv:
  assumes "nv_inv s" "live s a" "int (length ts) \<le> num_empty_slots (obj a s)"
  shows "nv_inv (add_tokens a ts s)" "refmap (add_tokens a ts s) = refmap s"
    "nv_frame {a} s (add_tokens a ts s)"
    "obj a (add_tokens a ts s) = (obj a s)\<lparr>bl_token_ids := bl_token_ids (obj a s) @ ts\<rparr>"
proof -
  have a: "a < length (nv_heap s)" using assms(1,2) by (simp add: nv_inv_def pool_ok_def live_def)
  have o: "obj y (add_tokens a ts s) = (if y = a
      then (obj a s)\<lparr>bl_token_ids := bl_token_ids (obj a s) @ ts\<rparr> else obj y s)" for y
    using a by simp
  show "obj a (add_tokens a ts s) = (obj a s)\<lparr>bl_token_ids := bl_token_ids (obj a s) @ ts\<rparr>"
    using o by simp
  have k: "pool_ok (add_tokens a ts s) = pool_ok s" "refmap (add_tokens a ts s) = refmap s"
    using upd_keeps [OF _ _ _ a, of "\<lambda>x. x\<lparr>bl_token_ids := bl_token_ids x @ ts\<rparr>"] by simp_all
  show "refmap (add_tokens a ts s) = refmap s" by (rule k(2))
  have "contents_ok (add_tokens a ts s)"
    using assms unfolding contents_ok_def o nv_inv_def num_empty_slots_def by auto
  then show "nv_inv (add_tokens a ts s)" using assms(1) k by (simp add: nv_inv_def)
  show "nv_frame {a} s (add_tokens a ts s)" unfolding nv_frame_def o by simp
qed

text \<open>A free id goes to an object that holds nothing (the end of a copy-on-write).\<close>

lemma nv_take_inv:
  assumes "nv_inv s" "live s a" "refmap s a = None" "nv_free_block_indices s = c # rest"
  shows "nv_inv (upd_obj a (\<lambda>x. x\<lparr>bl_block_id := Some c\<rparr>) (s\<lparr>nv_free_block_indices := rest,
      nv_refcounts := AList.update c 1 (nv_refcounts s), nv_copy_on_writes := C\<rparr>))"
    and "refmap (upd_obj a (\<lambda>x. x\<lparr>bl_block_id := Some c\<rparr>) (s\<lparr>nv_free_block_indices := rest,
      nv_refcounts := AList.update c 1 (nv_refcounts s), nv_copy_on_writes := C\<rparr>)) =
      (refmap s)(a \<mapsto> c)"
    and "c \<notin> ran (refmap s)"
proof -
  note inv = nv_invD [OF assms(1)]
  let ?u = "s\<lparr>nv_free_block_indices := rest, nv_refcounts := AList.update c 1 (nv_refcounts s),
    nv_copy_on_writes := C\<rparr>"
  let ?t = "upd_obj a (\<lambda>x. x\<lparr>bl_block_id := Some c\<rparr>) ?u"
  have pu: "pool_ok ?u" "live ?u a" using inv(1) assms(2) by simp_all
  note set = set_block_id_run [OF pu, of "Some c"]
  show r: "refmap ?t = (refmap s)(a \<mapsto> c)" using set(3) by simp
  have "c \<in> set (nv_free_block_indices s)" using assms(4) by simp
  then have c: "c \<in> set (nv_all_block_indices s)" "c \<notin> ran (refmap s)" "rcount (refmap s) c = 0"
    using ids_ok_unheld [OF inv(4)] by (simp_all add: rcount_zero)
  show "c \<notin> ran (refmap s)" by (rule c(2))
  have "set (nv_free_block_indices s) - {c} = set rest" using assms(4) inv(3) by auto
  then have ids: "ids_ok (set (nv_all_block_indices ?t)) (set (nv_free_block_indices ?t))
      (map_of (nv_refcounts ?t)) (refmap ?t)"
    using ids_ok_take [OF inv(4) c(1) assms(3)] c(3) r by (simp add: dict_simps)
  have al: "a < length (nv_heap ?u)" using inv(1) assms(2) by (simp add: pool_ok_def live_def)
  have o: "obj y ?t = (if y = a then (obj a s)\<lparr>bl_block_id := Some c\<rparr> else obj y s)" for y
    using al by simp
  have "contents_ok ?t" using inv(2) unfolding contents_ok_def o by simp
  then show "nv_inv ?t" using ids set(2) assms(1,4) by (simp add: nv_inv_def)
qed

lemma rcount_upd_None [simp]:
  "finite (dom R) \<Longrightarrow> rcount (R(a := None)) b = rcount R b - of_bool (R a = Some b)"
  by (simp add: rcount_upd)

text \<open>
  \<open>append_token_ids\<close> on a block that only this object holds appends in place; on a shared block it
  moves the object to a fresh block and records the copy; when there is no free block it raises, and
  the object has lost its block and keeps the appended tokens.
\<close>

lemma nv_append_run:
  assumes "nv_inv s" "refmap s a = Some b" "int (length ts) \<le> num_empty_slots (obj a s)"
  shows "\<exists>r t. nv_append_token_ids a ts s = (r, t) \<and> nv_inv t \<and> nv_frame {a} s t \<and> live t = live s \<and>
    bl_token_ids (obj a t) = bl_token_ids (obj a s) @ ts \<and>
    (if rcount (refmap s) b = 1
     then r = Inr () \<and> refmap t = refmap s \<and> nv_copy_on_writes t = nv_copy_on_writes s \<and>
       nv_free_block_indices t = nv_free_block_indices s
     else case nv_free_block_indices s of
       [] \<Rightarrow> r = Inl NoFreeBlocksError \<and> refmap t = (refmap s)(a := None)
     | c # rest \<Rightarrow> r = Inr () \<and> refmap t = (refmap s)(a \<mapsto> c) \<and> c \<notin> ran (refmap s) \<and>
         nv_free_block_indices t = rest \<and>
         nv_copy_on_writes t = nv_copy_on_writes s @ [(b, c)])"
proof -
  note inv = nv_invD [OF assms(1)]
  have la: "live s a" using refmap_live [OF assms(2)] by simp
  have al: "a < length (nv_heap s)" using inv(1) la by (simp add: pool_ok_def live_def)
  let ?u = "add_tokens a ts s"
  note u = add_tokens_inv [OF assms(1) la assms(3)]
  have ru: "refmap ?u a = Some b" using u(2) assms(2) by simp
  have lu: "live ?u a" using la by simp
  have pu: "pool_ok ?u" by (rule nv_invD(1) [OF u(1)])
  have bu: "block_id_of a ?u = Some b" using block_id_of_live [OF pu lu] ru by simp
  have held: "0 < rcount (refmap s) b" "map_of (nv_refcounts ?u) b = Some (rcount (refmap s) b)"
    using ids_ok_held [OF inv(4) assms(2)] by simp_all
  have app: "ct_is_appendable a ?u = (Inr (rcount (refmap s) b \<le> 1), ?u)"
    using bu rc_get_run [OF held(2)] by (simp add: ct_is_appendable_def bind_def gets_def return_def)
  have nc: "nb_append_no_cow a ts s = (Inr (), ?u)" by (rule nb_append_no_cow_run [OF al assms(3)])
  show ?thesis
  proof (cases "rcount (refmap s) b = 1")
    case True
    have bo: "bl_block_id (obj a ?u) = Some b" using refmap_live [OF ru] by simp
    have same: "set_block_id a (Some b) ?u = (Inr (), ?u)"
      using set_block_id_run(1) [OF pu lu] upd_obj_ident [of a ?u "\<lambda>x. x\<lparr>bl_block_id := Some b\<rparr>"]
        al bo by (cases "obj a ?u") simp
    have "nv_append_token_ids a ts s = (Inr (), ?u)"
      using nc bu app same True
      by (simp add: nv_append_token_ids_def nb_append_token_ids_def nv_cow_block_if_not_appendable_def
          bind_def gets_def andthen_def return_def from_option_def)
    then show ?thesis using True u by (intro exI [of _ "Inr ()"] exI [of _ ?u]) simp
  next
    case False
    then have gt: "\<not> rcount (refmap s) b \<le> 1" using held(1) by linarith
    obtain v where v: "nv_free_block_id a ?u = (Inr (), v)" "nv_inv v" "nv_frame {a} ?u v" "live v = live ?u"
        "refmap v = (refmap s)(a := None)" "nv_free_block_indices v = nv_free_block_indices s"
        "obj a v = (obj a ?u)\<lparr>bl_block_id := None\<rparr>" "nv_copy_on_writes v = nv_copy_on_writes s"
      using nv_free_block_id_run [OF u(1) ru] False u(2) by auto
    have fr: "nv_frame {a} s v" by (rule nv_frame_trans [OF u(3) v(3)])
    show ?thesis
    proof (cases "nv_free_block_indices s")
      case Nil
      have "nv_append_token_ids a ts s = (Inl NoFreeBlocksError, v)"
        using nc bu app gt v(1,6) Nil
        by (simp add: nv_append_token_ids_def nb_append_token_ids_def nv_cow_block_if_not_appendable_def
            nv_allocate_block_id_def bind_def gets_def andthen_def return_def from_option_def raise_def)
      then show ?thesis
        using False Nil v fr u(4) by (intro exI [of _ "Inl NoFreeBlocksError"] exI [of _ v]) simp
    next
      case (Cons c rest)
      have fv: "nv_free_block_indices v = c # rest" using v(6) Cons by simp
      have ta: "live v a" "refmap v a = None" using v(4,5) la by simp_all
      let ?w = "v\<lparr>nv_free_block_indices := rest, nv_refcounts := AList.update c 1 (nv_refcounts v),
        nv_copy_on_writes := nv_copy_on_writes s @ [(b, c)]\<rparr>"
      let ?t = "upd_obj a (\<lambda>x. x\<lparr>bl_block_id := Some c\<rparr>) ?w"
      note take = nv_take_inv(1,2) [OF v(2) ta fv, of "nv_copy_on_writes s @ [(b, c)]"]
      have pw: "pool_ok ?w" "live ?w a" using nv_invD(1) [OF v(2)] ta by simp_all
      have "nv_append_token_ids a ts s = (Inr (), ?t)"
        using nc bu app gt v(1,8) nv_allocate_block_id_run [OF nv_invD(4) [OF v(2)] fv]
          set_block_id_run(1) [OF pw]
        by (simp add: nv_append_token_ids_def nb_append_token_ids_def nv_cow_block_if_not_appendable_def
            ct_record_cow_def bind_def gets_def andthen_def return_def from_option_def modify_def)
      moreover have "c \<notin> ran (refmap s)"
      proof -
        have "c \<in> set (nv_free_block_indices s)" using Cons by simp
        then show ?thesis using ids_ok_unheld [OF inv(4)] by simp
      qed
      moreover have o: "obj y ?t = (if y = a then (obj a v)\<lparr>bl_block_id := Some c\<rparr> else obj y v)" for y
        using pool_okD(2) [OF pw(1)] pw(2) by (simp add: live_def)
      moreover have "nv_frame {a} s ?t"
        using fr unfolding nv_frame_def o by simp
      ultimately show ?thesis
        using False Cons take v u(4)
        by (intro exI [of _ "Inr ()"] exI [of _ ?t]) simp
    qed
  qed
qed


section \<open>Allocating several blocks at once\<close>

text \<open>
  \<open>allocate_immutable_blocks\<close> takes all ids before it makes the objects. In between the ids in \<open>L\<close>
  are counted once and held by nobody.
\<close>

definition reserved_counts :: "block_id list \<Rightarrow> (block_id, int) dict \<Rightarrow> (block_id \<rightharpoonup> int)" where
  "reserved_counts L d = (\<lambda>b. if b \<in> set L then Some 0 else map_of d b)"

definition nv_reserved :: "block_id list \<Rightarrow> 'x nv_state_scheme \<Rightarrow> bool" where
  "nv_reserved L s \<longleftrightarrow> pool_ok s \<and> 0 \<le> nv_block_size s \<and> distinct (nv_all_block_indices s) \<and>
     distinct (L @ nv_free_block_indices s) \<and> contents_ok s \<and>
     (\<forall>b \<in> set L. map_of (nv_refcounts s) b = Some 1) \<and>
     ids_ok (set (nv_all_block_indices s)) (set L \<union> set (nv_free_block_indices s))
       (reserved_counts L (nv_refcounts s)) (refmap s)"

lemma nv_reserved_Nil: "nv_reserved [] s = nv_inv s"
  by (auto simp: nv_reserved_def nv_inv_def reserved_counts_def)

lemma nv_reserve_run:
  assumes "nv_reserved L s" "nv_free_block_indices s = b # rest"
  shows "nv_allocate_block_id s = (Inr b, s\<lparr>nv_free_block_indices := rest,
      nv_refcounts := AList.update b 1 (nv_refcounts s)\<rparr>)"
    and "nv_reserved (L @ [b]) (s\<lparr>nv_free_block_indices := rest,
      nv_refcounts := AList.update b 1 (nv_refcounts s)\<rparr>)"
proof -
  let ?M = "reserved_counts L (nv_refcounts s)"
  have ids: "ids_ok (set (nv_all_block_indices s)) (set L \<union> set (nv_free_block_indices s)) ?M (refmap s)"
    using assms(1) by (simp add: nv_reserved_def)
  have nl: "b \<notin> set L" "b \<notin> set rest" using assms by (auto simp: nv_reserved_def)
  have "b \<in> set L \<union> set (nv_free_block_indices s)" using assms(2) by simp
  then have "rcount (refmap s) b = 0" "b \<in> set (nv_all_block_indices s)"
    using ids by (auto simp: ids_ok_def)
  then have m: "map_of (nv_refcounts s) b = Some 0" using ids_ok_count [OF ids, of b] nl by (simp add: reserved_counts_def)
  show "nv_allocate_block_id s = (Inr b, s\<lparr>nv_free_block_indices := rest,
      nv_refcounts := AList.update b 1 (nv_refcounts s)\<rparr>)"
    using assms(2) rc_incr_run [of "s\<lparr>nv_free_block_indices := rest\<rparr>" b 0] m
    by (simp add: nv_allocate_block_id_def py_defs)
  have eq: "reserved_counts (L @ [b]) (AList.update b 1 (nv_refcounts s)) = ?M"
    using m nl by (auto simp: reserved_counts_def dict_simps)
  have "set (L @ [b]) \<union> set rest = set L \<union> set (nv_free_block_indices s)" using assms(2) by auto
  then show "nv_reserved (L @ [b]) (s\<lparr>nv_free_block_indices := rest,
      nv_refcounts := AList.update b 1 (nv_refcounts s)\<rparr>)"
    using assms ids eq nl unfolding nv_reserved_def contents_ok_def
    by (simp add: dict_simps)
qed

lemma nv_reserve_many:
  "nv_reserved L s \<Longrightarrow> n \<le> length (nv_free_block_indices s) \<Longrightarrow>
   \<exists>t. repeat_py n nv_allocate_block_id s = (Inr (take n (nv_free_block_indices s)), t) \<and>
     nv_reserved (L @ take n (nv_free_block_indices s)) t \<and> nv_frame {} s t \<and>
     live t = live s \<and> refmap t = refmap s \<and>
     nv_free_block_indices t = drop n (nv_free_block_indices s)"
proof (induction n arbitrary: s L)
  case 0
  then show ?case by (intro exI [of _ s]) (simp add: return_def)
next
  case (Suc n)
  then obtain b rest where f: "nv_free_block_indices s = b # rest"
    by (cases "nv_free_block_indices s") auto
  let ?s = "s\<lparr>nv_free_block_indices := rest, nv_refcounts := AList.update b 1 (nv_refcounts s)\<rparr>"
  note r = nv_reserve_run [OF Suc.prems(1) f]
  have "n \<le> length (nv_free_block_indices ?s)" using Suc.prems(2) f by simp
  from Suc.IH [OF r(2) this] obtain t where
    "repeat_py n nv_allocate_block_id ?s = (Inr (take n rest), t)"
    "nv_reserved (L @ b # take n rest) t" "nv_frame {} ?s t" "live t = live s" "refmap t = refmap s"
    "nv_free_block_indices t = drop n rest" by auto
  then show ?case using r(1) f
    by (intro exI [of _ t]) (simp add: bind_def return_def nv_frame_def)
qed

lemma nv_reserve_fail:
  "nv_reserved L s \<Longrightarrow> length (nv_free_block_indices s) < n \<Longrightarrow>
   \<exists>t. repeat_py n nv_allocate_block_id s = (Inl NoFreeBlocksError, t) \<and>
     nv_reserved (L @ nv_free_block_indices s) t \<and> refmap t = refmap s \<and> nv_free_block_indices t = []"
proof (induction n arbitrary: s L)
  case (Suc n)
  show ?case
  proof (cases "nv_free_block_indices s")
    case Nil
    then show ?thesis using Suc.prems(1)
      by (intro exI [of _ s]) (simp add: bind_def nv_allocate_block_id_def gets_def raise_def)
  next
    case (Cons b rest)
    let ?s = "s\<lparr>nv_free_block_indices := rest, nv_refcounts := AList.update b 1 (nv_refcounts s)\<rparr>"
    note r = nv_reserve_run [OF Suc.prems(1) Cons]
    have "length (nv_free_block_indices ?s) < n" using Suc.prems(2) Cons by simp
    from Suc.IH [OF r(2) this] show ?thesis using r(1) Cons by (auto simp: bind_def)
  qed
qed simp

text \<open>An object that is made with a reserved id holds it.\<close>

lemma nv_hold_run:
  assumes "nv_reserved (b # L) s" "prev_ok s prev" "int (length ts) \<le> nv_block_size s"
  shows "\<exists>a t. init_block prev ts (nv_block_size s) (Some b) s = (Inr a, t) \<and> nv_reserved L t \<and>
    nv_frame {} s t \<and> \<not> live s a \<and> (\<forall>x. live t x \<longleftrightarrow> live s x \<or> x = a) \<and>
    refmap t = (refmap s)(a \<mapsto> b) \<and> b \<notin> ran (refmap s) \<and>
    nv_free_block_indices t = nv_free_block_indices s \<and>
    bl_token_ids (obj a t) = ts \<and> bl_prev_block (obj a t) = prev"
proof -
  let ?M = "\<lambda>L. reserved_counts L (nv_refcounts s)"
  have ps: "pool_ok s" "contents_ok s"
    and ids: "ids_ok (set (nv_all_block_indices s)) (set (b # L) \<union> set (nv_free_block_indices s))
      (?M (b # L)) (refmap s)"
    and d: "b \<notin> set L" "b \<notin> set (nv_free_block_indices s)"
    and one: "map_of (nv_refcounts s) b = Some 1"
    using assms(1) by (auto simp: nv_reserved_def)
  obtain a t where t: "init_block prev ts (nv_block_size s) (Some b) s = (Inr a, t)"
      "initialised s prev ts (nv_block_size s) (Some b) a t"
    using init_block_run [OF ps(1) assms(3,2), of "Some b"] by blast
  note ini = initialised_refmap [OF t(2) ps(1)] and fr = initialised_frame [OF t(2) ps(1)]
  have b: "b \<in> set (nv_all_block_indices s)" "b \<notin> ran (refmap s)" "rcount (refmap s) b = 0"
    using ids_ok_unheld [OF ids, of b] by (simp_all add: rcount_zero)
  have eq: "(?M (b # L))(b \<mapsto> rcount (refmap s) b + 1) = ?M L"
    using one d b(3) by (auto simp: fun_eq_iff reserved_counts_def)
  have z: "set (b # L) \<union> set (nv_free_block_indices s) - {b} = set L \<union> set (nv_free_block_indices s)"
    using d by auto
  have "ids_ok (set (nv_all_block_indices s)) (set L \<union> set (nv_free_block_indices s))
      (?M L) ((refmap s)(a \<mapsto> b))"
    using ids_ok_take [OF ids b(1), of a] ini(4) unfolding eq z by simp
  moreover have "contents_ok t"
    by (rule contents_ok_initialised [OF ps(2) t(2) ps(1) assms(3)])
  ultimately have "nv_reserved L t"
    using assms(1) fr t(2) ini(1) unfolding nv_reserved_def
    by (auto simp: nv_frame_def initialised_def)
  then show ?thesis
    using t ini fr b by (intro exI [of _ a] exI [of _ t]) (simp add: initialised_def inited_def)
qed

text \<open>\<open>chained t p as tss\<close>: the objects \<open>as\<close> hold the tokens \<open>tss\<close>, each linked to the one before.\<close>

fun chained :: "'x nv_state_scheme \<Rightarrow> addr option \<Rightarrow> addr list \<Rightarrow> int list list \<Rightarrow> bool" where
  "chained t p [] [] \<longleftrightarrow> True"
| "chained t p (a # as) (ts # tss) \<longleftrightarrow> live t a \<and> bl_token_ids (obj a t) = ts \<and>
     bl_prev_block (obj a t) = p \<and> chained t (Some a) as tss"
| "chained t p _ _ \<longleftrightarrow> False"

lemma nv_init_blocks_run:
  assumes "nv_reserved bs s" "prev_ok s prev" "length tss = length bs"
    "\<forall>ts \<in> set tss. int (length ts) \<le> nv_block_size s"
  shows "\<exists>as t. nv_init_blocks prev (zip tss bs) s = (Inr as, t) \<and> nv_inv t \<and> nv_frame {} s t \<and>
    chained t prev as tss \<and> distinct as \<and> (\<forall>a \<in> set as. \<not> live s a) \<and>
    (\<forall>x. live t x \<longleftrightarrow> live s x \<or> x \<in> set as) \<and> map (refmap t) as = map Some bs \<and>
    nv_free_block_indices t = nv_free_block_indices s"
  using assms
proof (induction bs arbitrary: tss s prev)
  case Nil
  then show ?case
    by (intro exI [of _ "[]"] exI [of _ s]) (simp add: return_def nv_reserved_Nil)
next
  case (Cons b bs)
  then obtain ts tss' where tss: "tss = ts # tss'" by (cases tss) auto
  obtain a u where u: "init_block prev ts (nv_block_size s) (Some b) s = (Inr a, u)" "nv_reserved bs u"
      "nv_frame {} s u" "\<not> live s a" "\<forall>x. live u x \<longleftrightarrow> live s x \<or> x = a"
      "refmap u = (refmap s)(a \<mapsto> b)" "nv_free_block_indices u = nv_free_block_indices s"
      "bl_token_ids (obj a u) = ts" "bl_prev_block (obj a u) = prev"
    using nv_hold_run [OF Cons.prems(1,2), of ts] Cons.prems(4) tss by auto
  have p: "prev_ok u (Some a)" "length tss' = length bs"
      "\<forall>ts \<in> set tss'. int (length ts) \<le> nv_block_size u"
    using u(3,5) Cons.prems(3,4) tss by (simp_all add: prev_ok_def nv_frame_def)
  obtain as t where t: "nv_init_blocks (Some a) (zip tss' bs) u = (Inr as, t)" "nv_inv t"
      "nv_frame {} u t" "chained t (Some a) as tss'" "distinct as" "\<forall>a \<in> set as. \<not> live u a"
      "\<forall>x. live t x \<longleftrightarrow> live u x \<or> x \<in> set as" "map (refmap t) as = map Some bs"
      "nv_free_block_indices t = nv_free_block_indices u"
    using Cons.IH [OF u(2) p] by blast
  have a: "a \<notin> set as" "live t a" "obj a t = obj a u" using t(3,6) u(5) by (auto simp: nv_frame_def)
  have "refmap t a = Some b"
  proof -
    have "bl_block_id (obj a u) = Some b" using refmap_live [of u a b] u(6) by simp
    then show ?thesis using a by (simp add: refmap_def)
  qed
  then show ?case
    using tss u t a nv_frame_trans [OF u(3) t(3)]
    by (intro exI [of _ "a # as"] exI [of _ t]) (auto simp: bind_def gets_def return_def)
qed

lemma nv_allocate_immutable_blocks_run:
  assumes "nv_inv s" "prev_ok s prev" "length tss \<le> nv_get_num_free_blocks s"
    "\<forall>ts \<in> set tss. int (length ts) \<le> nv_block_size s"
  shows "\<exists>as t. nv_allocate_immutable_blocks prev tss s = (Inr as, t) \<and> nv_inv t \<and> nv_frame {} s t \<and>
    chained t prev as tss \<and> distinct as \<and> (\<forall>a \<in> set as. \<not> live s a) \<and>
    (\<forall>x. live t x \<longleftrightarrow> live s x \<or> x \<in> set as) \<and>
    map (refmap t) as = map Some (take (length tss) (nv_free_block_indices s)) \<and>
    nv_free_block_indices t = drop (length tss) (nv_free_block_indices s)"
proof -
  let ?n = "length tss"
  let ?bs = "take ?n (nv_free_block_indices s)"
  obtain u where u: "repeat_py ?n nv_allocate_block_id s = (Inr ?bs, u)" "nv_reserved ?bs u"
      "nv_frame {} s u" "live u = live s" "nv_free_block_indices u = drop ?n (nv_free_block_indices s)"
    using nv_reserve_many [of "[]" s ?n] assms(1,3)
    by (auto simp: nv_reserved_Nil nv_get_num_free_blocks_def)
  have p: "prev_ok u prev" "length tss = length ?bs" "\<forall>ts \<in> set tss. int (length ts) \<le> nv_block_size u"
    using assms u(3,4)
    by (simp_all add: prev_ok_def nv_frame_def nv_get_num_free_blocks_def min_def split: option.splits)
  obtain as t where t: "nv_init_blocks prev (zip tss ?bs) u = (Inr as, t)" "nv_inv t" "nv_frame {} u t"
      "chained t prev as tss" "distinct as" "\<forall>a \<in> set as. \<not> live u a"
      "\<forall>x. live t x \<longleftrightarrow> live u x \<or> x \<in> set as" "map (refmap t) as = map Some ?bs"
      "nv_free_block_indices t = nv_free_block_indices u"
    using nv_init_blocks_run [OF u(2) p] by blast
  have "nv_allocate_immutable_blocks prev tss s = (Inr as, t)"
    using u(1) t(1) by (simp add: nv_allocate_immutable_blocks_def bind_def)
  then show ?thesis
    using t u(4,5) nv_frame_trans [OF u(3) t(3)] by (intro exI [of _ as] exI [of _ t]) simp
qed


section \<open>Swapping\<close>

lemma nv_swap_out_run:
  assumes "nv_inv s" "distinct as" "set as \<subseteq> dom (refmap s)"
  shows "\<exists>t. nv_swap_out as s = (Inr (), t) \<and> nv_inv t \<and> nv_frame (set as) s t \<and> live t = live s \<and>
    refmap t = (\<lambda>x. if x \<in> set as then None else refmap s x)"
  using assms unfolding nv_swap_out_def
proof (induction as arbitrary: s)
  case Nil
  then show ?case by (intro exI [of _ s]) (simp add: return_def)
next
  case (Cons a as)
  obtain b where b: "refmap s a = Some b" using Cons.prems(3) by auto
  obtain u where u: "nv_free_block_id a s = (Inr (), u)" "nv_inv u" "nv_frame {a} s u"
      "live u = live s" "refmap u = (refmap s)(a := None)"
    using nv_free_block_id_run [OF Cons.prems(1) b] by blast
  have "set as \<subseteq> dom (refmap u)" using Cons.prems(2,3) u(5) by auto
  with Cons.IH [OF u(2)] Cons.prems(2) obtain t where
    t: "for_each as nv_free_block_id u = (Inr (), t)" "nv_inv t" "nv_frame (set as) u t"
      "live t = live u" "refmap t = (\<lambda>x. if x \<in> set as then None else refmap u x)" by auto
  have "refmap t = (\<lambda>x. if x \<in> set (a # as) then None else refmap s x)"
    using t(5) u(5) by auto
  moreover have "nv_frame (set (a # as)) s t" using u(3) t(3) by (auto simp: nv_frame_def)
  ultimately show ?case using u(1,4) t by (intro exI [of _ t]) (simp add: andthen_def bind_def)
qed

lemma ids_ok_move:
  assumes "ids_ok A Z M (R(x \<mapsto> c))" "R x = None" "R a = None"
  shows "ids_ok A Z M (R(a \<mapsto> c))"
proof -
  have f: "finite (dom R)" using assms(1) by (simp add: ids_ok_def)
  have "rcount (R(a \<mapsto> c)) b = rcount (R(x \<mapsto> c)) b" for b using f assms(2,3) by (simp add: rcount_upd)
  moreover have "ran (R(a \<mapsto> c)) = ran (R(x \<mapsto> c))" using assms(2,3) by simp
  ultimately show ?thesis using assms(1) unfolding ids_ok_def by simp
qed

lemma nv_swap_in_block_run:
  assumes "nv_inv s" "live s a" "refmap s a = None" "prev_ok s (bl_prev_block (obj a s))"
    "nv_free_block_indices s = c # rest"
  shows "\<exists>t. nv_swap_in_block a s = (Inr (), t) \<and> nv_inv t \<and> nv_frame {a} s t \<and> live t = live s \<and>
    refmap t = (refmap s)(a \<mapsto> c) \<and> nv_free_block_indices t = rest \<and>
    obj a t = (obj a s)\<lparr>bl_block_id := Some c\<rparr>"
proof -
  note inv = nv_invD [OF assms(1)]
  let ?ts = "bl_token_ids (obj a s)" and ?p = "bl_prev_block (obj a s)"
  have fit: "int (length ?ts) \<le> nv_block_size s" using inv(2) assms(2) by (simp add: contents_ok_def)
  have da: "deref a s = obj a s" by (rule pool_okD(6) [OF inv(1) assms(2)])
  obtain x u where u: "nv_allocate_mutable_block ?p s = (Inr x, u)" "nv_inv u" "nv_frame {} s u"
      "\<not> live s x" "live u x" "refmap u = (refmap s)(x \<mapsto> c)" "c \<notin> ran (refmap s)"
      "nv_free_block_indices u = rest" "inited s ?p [] (nv_block_size s) (Some c) (obj x u)"
      "refmap s x = None"
    using nv_allocate_mutable_run [OF assms(1,4,5)] by blast
  have lu: "live u y \<longleftrightarrow> live s y \<or> y = x" for y
  proof -
    let ?s = "s\<lparr>nv_free_block_indices := rest, nv_refcounts := AList.update c 1 (nv_refcounts s)\<rparr>"
    have "init_block ?p [] (nv_block_size s) (Some c) ?s = (Inr x, u)"
      using u(1) nv_allocate_block_id_run [OF inv(4) assms(5)]
      by (simp add: nv_allocate_mutable_block_def bind_def gets_def)
    moreover have "pool_ok ?s" "prev_ok ?s ?p" using inv(1) assms(4) by simp_all
    ultimately have "initialised ?s ?p [] (nv_block_size s) (Some c) x u"
      using init_block_run [of ?s "[]" "nv_block_size s" ?p "Some c"] inv(5) by auto
    then show ?thesis by (simp add: initialised_def)
  qed
  have xa: "x \<noteq> a" using u(4) assms(2) by auto
  have one: "rcount (refmap u) c = 1" using u(6,7,10) by (simp add: rcount_upd rcount_zero)
  have "int (length ?ts) \<le> num_empty_slots (obj x u)"
    using u(9) fit by (simp add: inited_def num_empty_slots_def)
  then obtain v where v: "nv_append_token_ids x ?ts u = (Inr (), v)" "nv_inv v" "nv_frame {x} u v"
      "live v = live u" "refmap v = refmap u" "nv_free_block_indices v = rest"
    using nv_append_run [OF u(2) _, of x c ?ts] u(6,8) one by auto
  have pv: "pool_ok v" "live v x" using nv_invD(1) [OF v(2)] v(4) u(5) by simp_all
  let ?w = "upd_obj x (\<lambda>y. y\<lparr>bl_block_id := None\<rparr>) v"
  note w = set_block_id_run [OF pv, of None]
  have lw: "live ?w x" using pv by simp
  let ?z = "?w\<lparr>nv_pool_free_ids := x # nv_pool_free_ids ?w\<rparr>"
  note z = free_block_run [OF w(2) lw]
  have lz: "live ?z y \<longleftrightarrow> live s y" for y using z(3) [of y] v(4) lu u(4) by auto
  let ?t = "upd_obj a (\<lambda>y. y\<lparr>bl_block_id := Some c\<rparr>) ?z"
  have la: "live ?z a" using lz assms(2) by simp
  note t = set_block_id_run [OF z(2) la, of "Some c"]
  have bx: "block_id_of x v = Some c" using block_id_of_live [OF pv] v(5) u(6) by simp
  have al: "a < length (nv_heap v)" "x < length (nv_heap v)"
    using live_length [OF pv(1)] pv(2) v(4) lu assms(2) by simp_all
  have ov: "obj y v = obj y s" if "live s y" for y
  proof -
    have "y \<noteq> x" using that u(4) by auto
    then show ?thesis using that u(3) v(3) lu by (simp add: nv_frame_def)
  qed
  have ot: "obj y ?t = (if y = a then (obj a s)\<lparr>bl_block_id := Some c\<rparr> else obj y s)" if "live s y" for y
  proof -
    have "y \<noteq> x" using that u(4) by auto
    then show ?thesis using al xa ov [OF that] ov [OF assms(2)] by (cases "y = a") simp_all
  qed
  have "nv_swap_in_block a s = (Inr (), ?t)"
    using da u(1) v(1) bx w(1) z(1) t(1)
    by (simp add: nv_swap_in_block_def nv_allocate_immutable_block_def bind_def gets_def andthen_def
        return_def)
  moreover have rt: "refmap ?t = (refmap s)(a \<mapsto> c)"
    using t(3) z(4) w(3) v(5) u(6,10) by (auto simp: fun_eq_iff)
  moreover have "nv_inv ?t"
  proof -
    have "ids_ok (set (nv_all_block_indices v)) (set (nv_free_block_indices v)) (map_of (nv_refcounts v))
        ((refmap s)(x \<mapsto> c))"
      using nv_invD(4) [OF v(2)] v(5) u(6) by simp
    from ids_ok_move [OF this u(10) assms(3)]
    have "ids_ok (set (nv_all_block_indices ?t)) (set (nv_free_block_indices ?t))
        (map_of (nv_refcounts ?t)) (refmap ?t)" using rt by simp
    moreover have "contents_ok ?t"
      using inv(2) ot u(3) v(3) assms(2) unfolding contents_ok_def live_upd lz
      by (auto simp: nv_frame_def)
    ultimately show ?thesis using v(2) t(2) by (simp add: nv_inv_def)
  qed
  moreover have "live ?t = live s" using lz by (simp add: fun_eq_iff)
  moreover have "nv_frame {a} s ?t"
  proof -
    have "obj y ?t = obj y s" if "live s y" "y \<notin> {a}" for y using ot [OF that(1)] that(2) by simp
    then show ?thesis
      using u(3) v(3) lz unfolding nv_frame_def live_upd by (simp del: obj_upd)
  qed
  ultimately show ?thesis
    using ot [OF assms(2)] v(6) by (intro exI [of _ ?t]) simp
qed


section \<open>Reachable states\<close>

text \<open>
  The calls a client makes: a new block follows nothing or a block that is out, only blocks that are
  out are handed in, blocks are swapped out that hold an id and swapped in that hold none. Calls that
  raise are steps, too, except an allocation of several blocks that fails half way.
\<close>

inductive nv_step :: "nv_state \<Rightarrow> nv_state \<Rightarrow> bool" where
  allocate: "prev_ok s prev \<Longrightarrow> nv_allocate_mutable_block prev s = (r, t) \<Longrightarrow> nv_step s t"
| allocate_many: "prev_ok s prev \<Longrightarrow> \<forall>ts \<in> set tss. int (length ts) \<le> nv_block_size s \<Longrightarrow>
    length tss \<le> nv_get_num_free_blocks s \<Longrightarrow>
    nv_allocate_immutable_blocks prev tss s = (r, t) \<Longrightarrow> nv_step s t"
| append: "live s a \<Longrightarrow> nv_append_token_ids a ts s = (r, t) \<Longrightarrow> nv_step s t"
| free: "live s a \<Longrightarrow> nv_free a False s = (r, t) \<Longrightarrow> nv_step s t"
| fork: "get_all_blocks_recursively a s = (Inr as, s) \<Longrightarrow> set as \<subseteq> dom (refmap s) \<Longrightarrow>
    nv_fork a s = (r, t) \<Longrightarrow> nv_step s t"
| swap_out: "distinct as \<Longrightarrow> set as \<subseteq> dom (refmap s) \<Longrightarrow> nv_swap_out as s = (r, t) \<Longrightarrow> nv_step s t"
| swap_in: "live s a \<Longrightarrow> refmap s a = None \<Longrightarrow> prev_ok s (bl_prev_block (obj a s)) \<Longrightarrow>
    0 < nv_get_num_free_blocks s \<Longrightarrow> nv_swap_in [a] s = (r, t) \<Longrightarrow> nv_step s t"
| clear_cows: "nv_clear_copy_on_writes s = (r, t) \<Longrightarrow> nv_step s t"

inductive nv_reachable :: "int \<Rightarrow> int \<Rightarrow> nv_state \<Rightarrow> bool" for num_blocks block_size where
  init: "nv_init num_blocks block_size None = Inr s \<Longrightarrow> nv_reachable num_blocks block_size s"
| step: "nv_reachable num_blocks block_size s \<Longrightarrow> nv_step s t \<Longrightarrow> nv_reachable num_blocks block_size t"

lemma nv_init_inv:
  assumes "nv_init num_blocks block_size None = Inr s" "0 < num_blocks" "0 \<le> block_size"
  shows "nv_inv s" "nv_get_num_total_blocks s = nat num_blocks" "refmap s = Map.empty"
proof -
  let ?ids = "int_range num_blocks"
  let ?n = "nat (num_blocks * 4)"
  have s: "s = pool_init ?n ((nv_empty NaiveBlock block_size)\<lparr>nv_free_block_indices := ?ids,
      nv_all_block_indices := remdups ?ids, nv_refcounts := rc_init ?ids, nv_copy_on_writes := []\<rparr>)"
    using assms(1) by (simp add: nv_init_def nv_init_ids_def echeck_def split: if_splits)
  have n: "0 < ?n" using assms(2) by simp
  have lv: "\<not> live s a" for a
    by (simp add: s live_def pool_init_def pool_grow_def)
  then show r: "refmap s = Map.empty" by (simp add: refmap_def fun_eq_iff)
  have o: "obj a s = fresh_block NaiveBlock block_size" if "a < ?n" for a
    using that by (simp add: s obj_def pool_init_def pool_grow_def nv_empty_def)
  have "pool_ok s"
    unfolding pool_ok_def using n lv o
    by (auto simp: s pool_init_def pool_grow_def nv_empty_def fresh_block_def obj_def)
  moreover have ids: "distinct ?ids" "set ?ids = {0 ..< num_blocks}" "remdups ?ids = ?ids"
    by (auto simp: int_range_def distinct_remdups_id)
  have "map_of (rc_init ?ids) = (\<lambda>b. if b \<in> set ?ids then Some 0 else None)"
    unfolding rc_init_def ids(3) by (rule map_of_map_restrict [THEN trans]) (auto simp: restrict_map_def)
  then have "ids_ok (set ?ids) (set ?ids) (map_of (rc_init ?ids)) Map.empty"
    by (auto simp: ids_ok_def rcount_def dom_def)
  moreover have "contents_ok s" using lv by (simp add: contents_ok_def)
  moreover have "nv_all_block_indices s = ?ids" "nv_free_block_indices s = ?ids"
    "nv_refcounts s = rc_init ?ids" "nv_block_size s = block_size"
    using ids by (simp_all add: s pool_init_def pool_grow_def nv_empty_def)
  ultimately show "nv_inv s"
    using r assms(3) ids(1) by (simp add: nv_inv_def)
  show "nv_get_num_total_blocks s = nat num_blocks"
  proof -
    have "nv_all_block_indices s = int_range num_blocks"
      unfolding s pool_init_def pool_grow_def by (simp add: ids(3) nv_empty_def)
    then show ?thesis by (simp add: nv_get_num_total_blocks_def int_range_def)
  qed
qed

lemma nv_append_none:
  assumes "nv_inv s" "live s a" "refmap s a = None \<or> \<not> int (length ts) \<le> num_empty_slots (obj a s)"
    "nv_append_token_ids a ts s = (r, t)"
  shows "nv_inv t"
proof (cases "int (length ts) \<le> num_empty_slots (obj a s)")
  case True
  note u = add_tokens_inv [OF assms(1,2) True]
  have l: "live (add_tokens a ts s) a" using assms(2) by simp
  have "block_id_of a (add_tokens a ts s) = None"
    using block_id_of_live [OF nv_invD(1) [OF u(1)] l] u(2) assms(3) True by simp
  then have "t = add_tokens a ts s"
    using assms(4) nb_append_no_cow_run [OF live_length [OF nv_invD(1) [OF assms(1)] assms(2)] True]
    by (simp add: nv_append_token_ids_def nb_append_token_ids_def bind_def gets_def andthen_def return_def)
  with u(1) show ?thesis by simp
next
  case False
  show ?thesis
  proof (cases "ts = []")
    case True
    then have le: "int (length ts) = 0" by simp
    have fit: "0 \<le> num_empty_slots (obj a s)"
      using nv_invD(2) [OF assms(1)] assms(2) by (simp add: contents_ok_def num_empty_slots_def)
    with False le show ?thesis by simp
  next
    case ne: False
    then have "t = s"
      using assms(4) False
      by (simp add: nv_append_token_ids_def nb_append_token_ids_def nb_append_no_cow_def bind_def
          gets_def andthen_def guard_def raise_def split: if_splits)
    with assms(1) show ?thesis by simp
  qed
qed

lemma nv_free_none:
  assumes "nv_inv s" "live s a" "refmap s a = None" "nv_free a keep s = (r, t)"
  shows "t = s"
  using assms(4) block_id_of_live [OF nv_invD(1) [OF assms(1)] assms(2)] assms(3)
  by (simp add: nv_free_def nv_free_block_id_def bind_def gets_def andthen_def from_option_def raise_def)

lemma nv_step_inv: "nv_step s t \<Longrightarrow> nv_inv s \<Longrightarrow> nv_inv t"
proof (induction rule: nv_step.induct)
  case (allocate s prev r t)
  then show ?case
    using nv_allocate_mutable_run [of s prev] nv_allocate_mutable_full [of s prev]
    by (cases "nv_free_block_indices s") force+
next
  case (allocate_many s prev tss r t)
  then show ?case using nv_allocate_immutable_blocks_run [of s prev tss] by force
next
  case (append s a ts r t)
  show ?case
  proof (cases "refmap s a = None \<or> \<not> int (length ts) \<le> num_empty_slots (obj a s)")
    case True
    then show ?thesis using nv_append_none append by blast
  next
    case False
    then obtain b where "refmap s a = Some b" by auto
    then show ?thesis using nv_append_run [of s a b ts] False append by force
  qed
next
  case (free s a r t)
  show ?case
  proof (cases "refmap s a")
    case None
    then show ?thesis using nv_free_none free by blast
  next
    case (Some b)
    then show ?thesis using nv_free_run [of s a b] free by force
  qed
next
  case (fork a s as r t)
  then show ?case
    using nv_fork_blocks_run [of s None as] by (force simp: nv_fork_def bind_def prev_ok_def)
next
  case (swap_out as s r t)
  then show ?case using nv_swap_out_run [of s as] by force
next
  case (swap_in s a r t)
  then obtain c rest where "nv_free_block_indices s = c # rest"
    by (cases "nv_free_block_indices s") (auto simp: nv_get_num_free_blocks_def)
  then show ?case
    using nv_swap_in_block_run [of s a c rest] swap_in
    by (force simp: nv_swap_in_def andthen_def bind_def return_def)
next
  case (clear_cows s r t)
  then have "t = s\<lparr>nv_copy_on_writes := []\<rparr>"
    by (simp add: nv_clear_copy_on_writes_def ct_clear_cows_def bind_def gets_def andthen_def
        modify_def return_def)
  then show ?case using clear_cows.prems by (simp add: nv_inv_def contents_ok_def)
qed

lemma nv_reachable_inv:
  "nv_reachable num_blocks block_size s \<Longrightarrow> 0 < num_blocks \<Longrightarrow> 0 \<le> block_size \<Longrightarrow> nv_inv s"
  by (induction rule: nv_reachable.induct) (auto intro: nv_init_inv nv_step_inv)


section \<open>Properties\<close>

text \<open>
  C17: in every state that a \<open>NaiveBlockAllocator\<close> with at least one block reaches by the calls of \<open>nv_step\<close>, the
  reference count of each block is the number of block objects that hold it, the free deque holds each unheld
  block exactly once and no held one, and free and held blocks add up to all blocks. The calls are allocation,
  appends, frees, forks, swaps out and in and the clearing of copies, raising or not, on objects that the client
  holds (a fork of a chain whose blocks are all held, a swap in of one object while a block is free), and bulk allocation
  only of chunks that fit a block and when the free blocks suffice: a bulk allocation that runs out of blocks is
  left out, because it leaks blocks and breaks the claim (\<open>naive_failed_allocation_leaks\<close>).
\<close>

theorem naive_refcounts_count_holders:
  assumes "nv_reachable num_blocks block_size s" "0 < num_blocks" "0 \<le> block_size"
  shows "(\<forall>b \<in> set (nv_all_block_indices s). map_of (nv_refcounts s) b =
      Some (int (card {a. live s a \<and> block_id_of a s = Some b}))) \<and>
    distinct (nv_free_block_indices s) \<and>
    set (nv_free_block_indices s) =
      {b \<in> set (nv_all_block_indices s). \<forall>a. live s a \<longrightarrow> block_id_of a s \<noteq> Some b} \<and>
    nv_get_num_free_blocks s + card (ran (refmap s)) = nv_get_num_total_blocks s"
proof -
  have i: "nv_inv s" by (rule nv_reachable_inv [OF assms])
  note inv = nv_invD [OF i]
  have e: "{a. live s a \<and> block_id_of a s = Some b} = {a. refmap s a = Some b}" for b
    using block_id_of_live [OF inv(1)] refmap_live [of s] by auto
  have n: "(\<forall>a. live s a \<longrightarrow> block_id_of a s \<noteq> Some b) \<longleftrightarrow> b \<notin> ran (refmap s)" for b
    using e [of b] by (auto simp: ran_def)
  show ?thesis
    using inv nv.conservation [OF i] unfolding e n ids_ok_def rcount_def [symmetric]
    by (auto simp: rcount_zero)
qed

definition example_naive :: nv_state where
  "example_naive = (case nv_init 3 4 None of Inr s \<Rightarrow> s)"

definition example_filled :: nv_state where
  "example_filled = snd (nv_append_token_ids 0 [7, 8] (snd (nv_allocate_mutable_block None example_naive)))"

definition example_forked :: nv_state where
  "example_forked = snd (nv_fork 0 example_filled)"

lemma example_forked_reachable: "nv_reachable 3 4 example_forked"
proof -
  have "nv_init 3 4 None = Inr example_naive" by code_simp
  then have "nv_reachable 3 4 example_naive" by (rule nv_reachable.init)
  moreover have "nv_step example_naive (snd (nv_allocate_mutable_block None example_naive))"
    by (rule nv_step.allocate [of _ None, OF _ prod.collapse [symmetric]]) (simp add: prev_ok_def)
  moreover have "live (snd (nv_allocate_mutable_block None example_naive)) 0" by code_simp
  then have "nv_step (snd (nv_allocate_mutable_block None example_naive)) example_filled"
    unfolding example_filled_def by (rule nv_step.append [OF _ prod.collapse [symmetric]])
  moreover have "nv_step example_filled example_forked"
  proof (rule nv_step.fork [of 0 _ "[0]"])
    show "get_all_blocks_recursively 0 example_filled = (Inr [0], example_filled)" by code_simp
    have "refmap example_filled 0 = Some 0" by code_simp
    then show "set [0] \<subseteq> dom (refmap example_filled)" by auto
    show "nv_fork 0 example_filled = (fst (nv_fork 0 example_filled), example_forked)"
      by (simp add: example_forked_def)
  qed
  ultimately show ?thesis by (blast intro: nv_reachable.step)
qed

lemma naive_refcounts_count_holders_witness:
  "distinct (nv_free_block_indices example_forked) \<and> set (nv_free_block_indices example_forked) = {1, 2} \<and>
   nv_get_num_free_blocks example_forked + card (ran (refmap example_forked)) = 3"
proof -
  have "set (nv_free_block_indices example_forked) = {1, 2}" "nv_get_num_total_blocks example_forked = 3"
    by code_simp+
  then show ?thesis using naive_refcounts_count_holders [OF example_forked_reachable] by simp
qed

text \<open>
  C18: appending to a block never disturbs another holder. After \<open>append_token_ids\<close> returns, the object
  is the only holder of its block and has the tokens appended; every other object holds what it held,
  with its tokens unchanged; if the block was shared the object has moved to a fresh one and exactly
  that copy is recorded, otherwise it stayed where it was.
\<close>

theorem naive_append_isolates:
  assumes "nv_inv s" "refmap s a = Some b" "int (length ts) \<le> num_empty_slots (obj a s)"
    and "nv_append_token_ids a ts s = (Inr (), t)"
  shows "\<exists>c. refmap t a = Some c \<and> (\<forall>x. refmap t x = Some c \<longleftrightarrow> x = a) \<and>
    bl_token_ids (obj a t) = bl_token_ids (obj a s) @ ts \<and>
    (\<forall>x. x = a \<or> refmap t x = refmap s x \<and> (\<not> live s x \<or> obj x t = obj x s)) \<and>
    (if \<exists>x. x \<noteq> a \<and> refmap s x = Some b
     then c \<notin> ran (refmap s) \<and> nv_copy_on_writes t = nv_copy_on_writes s @ [(b, c)]
     else c = b \<and> nv_copy_on_writes t = nv_copy_on_writes s)"
proof -
  obtain r t' where run: "nv_append_token_ids a ts s = (r, t')" "nv_frame {a} s t'"
      "bl_token_ids (obj a t') = bl_token_ids (obj a s) @ ts"
      "if rcount (refmap s) b = 1
       then r = Inr () \<and> refmap t' = refmap s \<and> nv_copy_on_writes t' = nv_copy_on_writes s \<and>
         nv_free_block_indices t' = nv_free_block_indices s
       else case nv_free_block_indices s of
         [] \<Rightarrow> r = Inl NoFreeBlocksError \<and> refmap t' = (refmap s)(a := None)
       | c # rest \<Rightarrow> r = Inr () \<and> refmap t' = (refmap s)(a \<mapsto> c) \<and> c \<notin> ran (refmap s) \<and>
           nv_free_block_indices t' = rest \<and> nv_copy_on_writes t' = nv_copy_on_writes s @ [(b, c)]"
    using nv_append_run [OF assms(1,2,3)] by blast
  then have t: "t' = t" "r = Inr ()" using assms(4) by simp_all
  have one: "rcount (refmap s) b = 1 \<longleftrightarrow> \<not> (\<exists>x. x \<noteq> a \<and> refmap s x = Some b)"
    using rcount_one [of "refmap s", OF assms(2)] by blast
  have frame: "\<not> live s x \<or> obj x t = obj x s" if "x \<noteq> a" for x
    using run(2) that t by (auto simp: nv_frame_def)
  show ?thesis
  proof (cases "rcount (refmap s) b = 1")
    case True
    then have "refmap t = refmap s" "nv_copy_on_writes t = nv_copy_on_writes s" using run(4) t by simp_all
    then show ?thesis
      using True one assms(2) run(3) t frame by (intro exI [of _ b]) auto
  next
    case False
    then obtain c rest where "nv_free_block_indices s = c # rest" "refmap t = (refmap s)(a \<mapsto> c)"
        "c \<notin> ran (refmap s)" "nv_copy_on_writes t = nv_copy_on_writes s @ [(b, c)]"
      using run(4) t by (auto split: list.splits)
    moreover from this(3) have "\<forall>x. refmap s x \<noteq> Some c" by (auto simp: ran_def)
    ultimately show ?thesis
      using False one run(3) t frame by (intro exI [of _ c]) auto
  qed
qed

lemma naive_append_isolates_witness:
  "\<exists>c t. nv_append_token_ids 1 [9] example_forked = (Inr (), t) \<and> refmap t 1 = Some c \<and>
     (\<forall>x. refmap t x = Some c \<longleftrightarrow> x = 1) \<and> bl_token_ids (obj 1 t) = [7, 8, 9] \<and>
     bl_token_ids (obj 0 t) = [7, 8] \<and> nv_copy_on_writes t = [(0, c)]"
proof -
  have i: "nv_inv example_forked" by (rule nv_reachable_inv [OF example_forked_reachable]) simp_all
  have f: "refmap example_forked 1 = Some 0" "refmap example_forked 0 = Some 0" "live example_forked 0"
      "int (length [9::int]) \<le> num_empty_slots (obj 1 example_forked)"
      "bl_token_ids (obj 1 example_forked) = [7, 8]" "bl_token_ids (obj 0 example_forked) = [7, 8]"
      "nv_copy_on_writes example_forked = []"
      "fst (nv_append_token_ids 1 [9] example_forked) = Inr ()" by code_simp+
  let ?t = "snd (nv_append_token_ids 1 [9] example_forked)"
  have run: "nv_append_token_ids 1 [9] example_forked = (Inr (), ?t)" using f(8) by (rule run_pair)
  obtain c where c: "refmap ?t 1 = Some c" "\<forall>x. refmap ?t x = Some c \<longleftrightarrow> x = 1"
      "bl_token_ids (obj 1 ?t) = [7, 8] @ [9]"
      "\<forall>x. x = 1 \<or> refmap ?t x = refmap example_forked x \<and>
        (\<not> live example_forked x \<or> obj x ?t = obj x example_forked)"
      "if \<exists>x. x \<noteq> 1 \<and> refmap example_forked x = Some 0
       then c \<notin> ran (refmap example_forked) \<and> nv_copy_on_writes ?t = [] @ [(0, c)]
       else c = 0 \<and> nv_copy_on_writes ?t = []"
    using naive_append_isolates [OF i f(1,4) run] unfolding f(5,7) by blast
  have "\<exists>x. x \<noteq> 1 \<and> refmap example_forked x = Some 0" using f(2) by (intro exI [of _ 0]) simp
  moreover have "obj 0 ?t = obj 0 example_forked" using c(4) f(3) by (metis zero_neq_one)
  ultimately show ?thesis using run c f(6) by (intro exI [of _ c] exI [of _ ?t]) simp
qed


text \<open>
  Forking a sequence allocates no block: the new objects hold the blocks of the old ones in the
  same order, with copies of their tokens and linked among themselves, the old objects are untouched,
  and the free blocks stay the same.
\<close>

theorem naive_fork_shares:
  assumes "nv_inv s" "get_all_blocks_recursively last_block s = (Inr as, s)" "set as \<subseteq> dom (refmap s)"
  shows "\<exists>fs t. nv_fork last_block s = (Inr fs, t) \<and> nv_inv t \<and> forked_list s t None as fs \<and>
    (\<forall>x. live t x \<longleftrightarrow> live s x \<or> x \<in> set fs) \<and> (\<forall>x. \<not> live s x \<or> obj x t = obj x s) \<and>
    nv_free_block_indices t = nv_free_block_indices s"
proof -
  obtain fs t where "nv_fork_blocks None as s = (Inr fs, t)" "nv_inv t" "nv_frame {} s t"
      "forked_list s t None as fs" "\<forall>x. live t x \<longleftrightarrow> live s x \<or> x \<in> set fs"
      "nv_free_block_indices t = nv_free_block_indices s"
    using nv_fork_blocks_run [OF assms(1) _ assms(3), of None] by (auto simp: prev_ok_def)
  then show ?thesis
    using assms(2) by (intro exI [of _ fs] exI [of _ t]) (auto simp: nv_fork_def bind_def nv_frame_def)
qed

lemma naive_fork_shares_witness:
  "\<exists>fs t. nv_fork 1 example_forked = (Inr fs, t) \<and> nv_inv t \<and> forked_list example_forked t None [1] fs"
proof -
  have i: "nv_inv example_forked" by (rule nv_reachable_inv [OF example_forked_reachable]) simp_all
  have g: "get_all_blocks_recursively 1 example_forked = (Inr [1], example_forked)" by code_simp
  have "refmap example_forked 1 = Some 0" by code_simp
  then have "set [1] \<subseteq> dom (refmap example_forked)" by auto
  from naive_fork_shares [OF i g this] show ?thesis by blast
qed

text \<open>
  Exactly \<open>get_num_free_blocks\<close> further blocks can be allocated, to distinct objects with distinct
  blocks that nobody held; the next allocation raises \<open>NoFreeBlocksError\<close>. Freeing every object that
  holds a block never raises and makes all blocks free again.
\<close>

theorem naive_fill_and_drain:
  assumes "nv_reachable num_blocks block_size s" "0 < num_blocks" "0 \<le> block_size"
  shows "\<exists>xs t. repeat_py (nv_get_num_free_blocks s) (nv_allocate_mutable_block None) s = (Inr xs, t) \<and>
    length xs = nv_get_num_free_blocks s \<and> distinct xs \<and> inj_on (refmap t) (set xs) \<and>
    set xs \<inter> dom (refmap s) = {} \<and> refmap s \<subseteq>\<^sub>m refmap t \<and> nv_get_num_free_blocks t = 0 \<and>
    fst (nv_allocate_mutable_block None t) = Inl NoFreeBlocksError \<and>
    (\<exists>u. for_each (sorted_list_of_set (dom (refmap t))) (\<lambda>a. nv_free a False) t = (Inr (), u) \<and>
       nv_get_num_free_blocks u = nv_get_num_total_blocks s)"
proof -
  have i: "nv_inv s" by (rule nv_reachable_inv [OF assms])
  obtain xs t where t: "repeat_py (nv_get_num_free_blocks s) (nv_allocate_mutable_block None) s = (Inr xs, t)"
      "nv_inv t" "length xs = nv_get_num_free_blocks s" "nv_get_num_free_blocks t = 0"
      "nv_get_num_total_blocks t = nv_get_num_total_blocks s" "distinct xs"
      "set xs \<inter> dom (refmap s) = {}" "refmap s \<subseteq>\<^sub>m refmap t" "inj_on (refmap t) (set xs)"
    using nv.alloc_many [OF i, of "nv_get_num_free_blocks s"] by auto
  have "fst (nv_allocate_mutable_block None t) = Inl NoFreeBlocksError"
    using nv.alloc_full [OF t(2)] t(4) by auto
  moreover obtain u where "for_each (sorted_list_of_set (dom (refmap t))) (\<lambda>a. nv_free a False) t = (Inr (), u)"
      "nv_get_num_free_blocks u = nv_get_num_total_blocks t"
    using nv.free_all [OF t(2), of "sorted_list_of_set (dom (refmap t))"] by auto
  ultimately show ?thesis using t by (intro exI [of _ xs] exI [of _ t]) auto
qed

lemma naive_fill_and_drain_witness:
  "\<exists>xs t u. repeat_py 2 (nv_allocate_mutable_block None) example_forked = (Inr xs, t) \<and> distinct xs \<and>
    fst (nv_allocate_mutable_block None t) = Inl NoFreeBlocksError \<and>
    for_each (sorted_list_of_set (dom (refmap t))) (\<lambda>a. nv_free a False) t = (Inr (), u) \<and>
    nv_get_num_free_blocks u = 3"
proof -
  have n: "nv_get_num_free_blocks example_forked = 2" "nv_get_num_total_blocks example_forked = 3"
    by code_simp+
  show ?thesis using naive_fill_and_drain [OF example_forked_reachable] unfolding n by auto
qed

text \<open>
  C19: \<open>allocate_immutable_blocks\<close> is not atomic: when more blocks are asked for than are free, it
  raises \<open>NoFreeBlocksError\<close> after taking the free blocks one by one, and no object holds them
  afterwards: nothing is free any more although nobody holds more than before, so the blocks are lost.
\<close>

theorem naive_failed_allocation_leaks:
  assumes "nv_inv s" "nv_get_num_free_blocks s < length tss"
  shows "\<exists>t. nv_allocate_immutable_blocks prev tss s = (Inl NoFreeBlocksError, t) \<and>
    refmap t = refmap s \<and> nv_get_num_free_blocks t = 0 \<and>
    (\<forall>b \<in> set (nv_free_block_indices s). map_of (nv_refcounts t) b = Some 1)"
proof -
  obtain t where t: "repeat_py (length tss) nv_allocate_block_id s = (Inl NoFreeBlocksError, t)"
      "nv_reserved ([] @ nv_free_block_indices s) t" "refmap t = refmap s" "nv_free_block_indices t = []"
    using nv_reserve_fail [of "[]" s "length tss"] assms
    by (auto simp: nv_reserved_Nil nv_get_num_free_blocks_def)
  have "nv_allocate_immutable_blocks prev tss s = (Inl NoFreeBlocksError, t)"
    using t(1) by (simp add: nv_allocate_immutable_blocks_def bind_def)
  then show ?thesis using t by (auto simp: nv_get_num_free_blocks_def nv_reserved_def)
qed

lemma naive_failed_allocation_leaks_witness:
  "\<exists>t. nv_allocate_immutable_blocks None [[1], [2], [3]] example_forked = (Inl NoFreeBlocksError, t) \<and>
    refmap t = refmap example_forked \<and> nv_get_num_free_blocks t = 0"
proof -
  have i: "nv_inv example_forked" by (rule nv_reachable_inv [OF example_forked_reachable]) simp_all
  have "nv_get_num_free_blocks example_forked < length [[1], [2], [3::int]]" by code_simp
  from naive_failed_allocation_leaks [OF i this] show ?thesis by blast
qed

end
