(* ===== verification/PrefixHash.thy ===== *)
theory PrefixHash
  imports BlockCommon
begin

text \<open>
  \<open>PrefixCachingBlock.hash_block_tokens\<close> and \<open>content_hash\<close> of
  \<^verbatim>\<open>vllm/core/block/prefix_caching_block.py\<close>. The digest function of hashlib is a parameter
  \<open>sha\<close> of every definition that hashes; what is fed to it is modelled byte by byte.
\<close>

section \<open>The message that is hashed\<close>

definition ascii :: "string \<Rightarrow> bytes" where
  "ascii s = map (\<lambda>c. word_of_nat (of_char c)) s"

text \<open>\<open>struct.pack("!q", x)\<close>: eight bytes, the most significant one first.\<close>

definition pack_q :: "int \<Rightarrow> exn + bytes" where
  "pack_q x = echeck StructError (- (2 ^ 63) \<le> x \<and> x < 2 ^ 63)
     (Inr (map (\<lambda>i. word_of_int (x div 256 ^ (7 - i))) [0 ..< 8]))"

fun pack_qs :: "int list \<Rightarrow> exn + bytes" where
  "pack_qs [] = Inr []"
| "pack_qs (x # xs) = ebind (pack_q x) (\<lambda>b. ebind (pack_qs xs) (\<lambda>bs. Inr (b @ bs)))"

definition hash_block_tokens :: "(bytes \<Rightarrow> bytes) \<Rightarrow> bool \<Rightarrow> bytes option \<Rightarrow> int list \<Rightarrow> bytes option
    \<Rightarrow> exn + bytes" where
  "hash_block_tokens sha is_first_block prev_block_hash cur_block_token_ids cache_namespace =
     echeck AssertionError ((prev_block_hash = None) = is_first_block)
       (let start = (case prev_block_hash of
               None \<Rightarrow> (case cache_namespace of None \<Rightarrow> [] | Some ns \<Rightarrow> ns)
             | Some h \<Rightarrow> h)
        in ebind (pack_qs cur_block_token_ids) (\<lambda>tokens.
           Inr (sha (ascii ''vllm-prefix-cache-v2'' @ start @ tokens))))"

section \<open>content_hash\<close>

text \<open>
  The hash is computed once and kept in the object. The recursion over \<open>prev_block\<close> is bounded by the
  number of objects of the store, as in \<open>get_all_blocks_recursively\<close>.
\<close>

definition store_hash :: "(bytes \<Rightarrow> bytes) \<Rightarrow> addr \<Rightarrow> bytes option
    \<Rightarrow> ('x nv_state_scheme, content_hash option) py" where
  "store_hash sha a prev_block_hash =
     bind (gets (obj a)) (\<lambda>block.
     case hash_block_tokens sha (prev_block_hash = None) prev_block_hash (bl_token_ids block)
            (Some (bl_cache_namespace block)) of
       Inl e \<Rightarrow> raise e
     | Inr h \<Rightarrow> andthen (modify (upd_obj a (\<lambda>x. x\<lparr>bl_cached_content_hash := Some h\<rparr>)))
                  (return (Some h)))"

fun content_hash_rec :: "(bytes \<Rightarrow> bytes) \<Rightarrow> nat \<Rightarrow> addr \<Rightarrow> ('x nv_state_scheme, content_hash option) py" where
  "content_hash_rec sha 0 a = raise RecursionError"
| "content_hash_rec sha (Suc n) a =
     bind (gets (obj a)) (\<lambda>block.
     case bl_cached_content_hash block of
       Some h \<Rightarrow> return (Some h)
     | None \<Rightarrow>
         if \<not> is_full block then return None
         else (case bl_prev_block block of
                 None \<Rightarrow> store_hash sha a None
               | Some p \<Rightarrow> bind (content_hash_rec sha n p) (\<lambda>h. case h of
                     None \<Rightarrow> return None
                   | Some h \<Rightarrow> store_hash sha a (Some h))))"

definition content_hash :: "(bytes \<Rightarrow> bytes) \<Rightarrow> addr \<Rightarrow> ('x nv_state_scheme, content_hash option) py" where
  "content_hash sha a = bind (gets (\<lambda>s. length (nv_heap s))) (\<lambda>n. content_hash_rec sha n a)"

section \<open>What the hash of a chain is\<close>

text \<open>
  \<open>chain_hash sha ns tss\<close>: the hash of a block whose namespace is \<open>ns\<close>, where \<open>tss\<close> holds the tokens
  of the block, of the block before it, and so on back to the first block of the sequence.
  \<open>chain_messages\<close> are the messages that are hashed for it.
\<close>

definition block_message :: "bytes \<Rightarrow> bytes option \<Rightarrow> bytes \<Rightarrow> bytes" where
  "block_message ns prev tokens =
     ascii ''vllm-prefix-cache-v2'' @ (case prev of None \<Rightarrow> ns | Some h \<Rightarrow> h) @ tokens"

fun chain_hash :: "(bytes \<Rightarrow> bytes) \<Rightarrow> bytes \<Rightarrow> int list list \<Rightarrow> exn + bytes option" where
  "chain_hash sha ns [] = Inr None"
| "chain_hash sha ns (ts # tss) = ebind (chain_hash sha ns tss) (\<lambda>prev.
     ebind (hash_block_tokens sha (prev = None) prev ts (Some ns)) (\<lambda>h. Inr (Some h)))"

fun chain_messages :: "(bytes \<Rightarrow> bytes) \<Rightarrow> bytes \<Rightarrow> int list list \<Rightarrow> bytes set" where
  "chain_messages sha ns [] = {}"
| "chain_messages sha ns (ts # tss) = chain_messages sha ns tss \<union>
     (case (chain_hash sha ns tss, pack_qs ts) of
        (Inr prev, Inr tokens) \<Rightarrow> {block_message ns prev tokens} | _ \<Rightarrow> {})"

lemma hash_block_tokens_eq:
  "hash_block_tokens sha (prev = None) prev ts (Some ns) =
     ebind (pack_qs ts) (\<lambda>tokens. Inr (sha (block_message ns prev tokens)))"
  by (cases prev) (simp_all add: hash_block_tokens_def block_message_def Let_def)

lemma chain_hash_Some:
  assumes "chain_hash sha ns tss = Inr (Some h)"
  shows "\<exists>ts r prev tokens. tss = ts # r \<and> chain_hash sha ns r = Inr prev \<and> pack_qs ts = Inr tokens \<and>
    h = sha (block_message ns prev tokens) \<and> block_message ns prev tokens \<in> chain_messages sha ns tss \<and>
    chain_messages sha ns r \<subseteq> chain_messages sha ns tss \<and> (prev = None \<longleftrightarrow> r = [])"
proof (cases tss)
  case (Cons ts r)
  obtain prev where prev: "chain_hash sha ns r = Inr prev"
    using assms Cons by (cases "chain_hash sha ns r") auto
  obtain tokens where tokens: "pack_qs ts = Inr tokens" "h = sha (block_message ns prev tokens)"
    using assms Cons prev by (cases "pack_qs ts") (auto simp: hash_block_tokens_eq)
  have "prev = None \<longleftrightarrow> r = []"
    using prev by (cases r) (auto simp: ebind_Inr_iff)
  then show ?thesis using Cons prev tokens by auto
qed (use assms in simp)

text \<open>Eight bytes determine a signed 64-bit number, and the packing of a list determines the list.\<close>

lemma div_mod_256:
  "\<forall>k < n. (x :: int) div 256 ^ k mod 256 = y div 256 ^ k mod 256 \<Longrightarrow> x mod 256 ^ n = y mod 256 ^ n"
proof (induction n)
  case (Suc n)
  have "x mod (256 ^ n * 256) = 256 ^ n * (x div 256 ^ n mod 256) + x mod 256 ^ n" for x :: int
    by (rule zmod_zmult2_eq [of 256 x "256 ^ n"]) simp
  then show ?case using Suc by (simp add: mult.commute)
qed simp

lemma pack_q_inj:
  assumes "pack_q x = Inr b" "pack_q y = Inr b"
  shows "x = y"
proof -
  have range: "- (2 ^ 63) \<le> x" "x < 2 ^ 63" "- (2 ^ 63) \<le> y" "y < 2 ^ 63"
    using assms by (simp_all add: pack_q_def)
  have eq: "map (\<lambda>i. word_of_int (x div 256 ^ (7 - i)) :: 8 word) [0 ..< 8] =
      map (\<lambda>i. word_of_int (y div 256 ^ (7 - i))) [0 ..< 8]"
    using assms by (simp add: pack_q_def)
  have "x div 256 ^ k mod 256 = y div 256 ^ k mod 256" if k: "k < 8" for k
  proof -
    have i: "7 - k \<in> set [0 ..< 8]" "7 - (7 - k) = k" using k by auto
    have "(word_of_int (x div 256 ^ (7 - (7 - k))) :: 8 word) = word_of_int (y div 256 ^ (7 - (7 - k)))"
      using map_eq_conv [THEN iffD1, OF eq] i(1) by blast
    then have "uint (word_of_int (x div 256 ^ k) :: 8 word) = uint (word_of_int (y div 256 ^ k) :: 8 word)"
      unfolding i(2) by simp
    then show ?thesis by (simp add: uint_word_of_int)
  qed
  then have "x mod 256 ^ 8 = y mod 256 ^ 8" by (intro div_mod_256) simp
  then have "(x - y) mod 256 ^ 8 = 0" by (metis mod_eq_dvd_iff dvd_imp_mod_0)
  then obtain d where d: "x - y = 256 ^ 8 * d" by (metis mod_0_imp_dvd dvdE)
  then have "d = 0" using range by (simp add: algebra_simps)
  with d show ?thesis by simp
qed

lemma pack_q_length: "pack_q x = Inr b \<Longrightarrow> length b = 8"
  by (auto simp: pack_q_def)

lemma pack_qs_inj: "pack_qs xs = Inr b \<Longrightarrow> pack_qs ys = Inr b \<Longrightarrow> xs = ys"
proof (induction xs arbitrary: ys b)
  case Nil
  then show ?case by (cases ys) (auto simp: ebind_Inr_iff dest: pack_q_length)
next
  case (Cons x xs)
  obtain c d where c: "pack_q x = Inr c" "pack_qs xs = Inr d" "b = c @ d"
    using Cons.prems(1) by (auto simp: ebind_Inr_iff)
  have "b \<noteq> []" using c(1,3) pack_q_length by fastforce
  then obtain y ys' where ys: "ys = y # ys'" using Cons.prems(2) by (cases ys) auto
  obtain c' d' where c': "pack_q y = Inr c'" "pack_qs ys' = Inr d'" "b = c' @ d'"
    using Cons.prems(2) ys by (auto simp: ebind_Inr_iff)
  have "c = c'" "d = d'" using c(1,3) c'(1,3) pack_q_length by (metis append_eq_append_conv)+
  then show ?case using Cons.IH [OF c(2)] c c' ys pack_q_inj by blast
qed

lemma chain_hash_inj:
  assumes "chain_hash sha ns tss = Inr (Some h)" "chain_hash sha ns' tss' = Inr (Some h)"
    and "chain_messages sha ns tss \<union> chain_messages sha ns' tss' \<subseteq> M" "inj_on sha M"
    and "\<forall>m \<in> M. length (sha m) = 32" "length ns = 32" "length ns' = 32" "{ns, ns'} \<inter> sha ` M = {}"
  shows "ns = ns' \<and> tss = tss'"
  using assms
proof (induction tss arbitrary: h tss')
  case (Cons ts r)
  obtain prev tokens where 1: "chain_hash sha ns r = Inr prev" "pack_qs ts = Inr tokens"
      "h = sha (block_message ns prev tokens)" "block_message ns prev tokens \<in> M"
      "chain_messages sha ns r \<subseteq> M" "prev = None \<longleftrightarrow> r = []"
    using chain_hash_Some [OF Cons.prems(1)] Cons.prems(3) by auto
  obtain ts' r' prev' tokens' where 2: "tss' = ts' # r'" "chain_hash sha ns' r' = Inr prev'"
      "pack_qs ts' = Inr tokens'" "h = sha (block_message ns' prev' tokens')"
      "block_message ns' prev' tokens' \<in> M" "chain_messages sha ns' r' \<subseteq> M" "prev' = None \<longleftrightarrow> r' = []"
    using chain_hash_Some [OF Cons.prems(2)] Cons.prems(3) by auto
  have "block_message ns prev tokens = block_message ns' prev' tokens'"
    using Cons.prems(4) 1(3,4) 2(4,5) by (simp add: inj_on_def)
  then have msg: "(case prev of None \<Rightarrow> ns | Some h \<Rightarrow> h) @ tokens =
      (case prev' of None \<Rightarrow> ns' | Some h \<Rightarrow> h) @ tokens'"
    by (simp add: block_message_def)
  have img: "p \<in> sha ` M" if "chain_hash sha n q = Inr (Some p)" "chain_messages sha n q \<subseteq> M" for n q p
    using chain_hash_Some [OF that(1)] that(2) by auto
  have len: "length p = 32" if "p \<in> sha ` M" for p using that Cons.prems(5) by auto
  have l: "length (case prev of None \<Rightarrow> ns | Some h \<Rightarrow> h) = 32"
      "length (case prev' of None \<Rightarrow> ns' | Some h \<Rightarrow> h) = 32"
    using 1(1,5) 2(2,6) img len Cons.prems(6,7) by (auto split: option.splits)
  then have start: "(case prev of None \<Rightarrow> ns | Some h \<Rightarrow> h) = (case prev' of None \<Rightarrow> ns' | Some h \<Rightarrow> h)"
    and "tokens = tokens'"
    using msg by (auto simp: append_eq_append_conv)
  then have ts: "ts = ts'" using pack_qs_inj 1(2) 2(3) by simp
  show ?case
  proof (cases prev)
    case None
    then have "prev' = None"
      using start img [OF _ 2(6)] 2(2) Cons.prems(8) by (cases prev') auto
    then show ?thesis using None start 1(6) 2(1,7) ts by simp
  next
    case (Some p)
    then obtain p' where "prev' = Some p'"
      using start img [OF _ 1(5)] 1(1) Cons.prems(8) by (cases prev') auto
    then have "p = p'" using start Some by simp
    with Cons.IH [of p r'] Some \<open>prev' = Some p'\<close> 1(1,5) 2(2,6) Cons.prems(4-8)
    have "ns = ns' \<and> r = r'" by simp
    then show ?thesis using 2(1) ts by simp
  qed
qed simp


section \<open>The hash of a block object\<close>

text \<open>
  \<open>hash_path sha h a x p\<close>: in the store \<open>h\<close> the hash of object \<open>a\<close> is defined and is \<open>x\<close>, and \<open>p\<close>
  lists the objects that have to be visited for it. A path visits no object twice.
\<close>

inductive hash_path :: "(bytes \<Rightarrow> bytes) \<Rightarrow> block list \<Rightarrow> addr \<Rightarrow> content_hash \<Rightarrow> addr list \<Rightarrow> bool"
  for sha h where
  cached: "bl_cached_content_hash (h ! a) = Some x \<Longrightarrow> hash_path sha h a x [a]"
| first: "bl_cached_content_hash (h ! a) = None \<Longrightarrow> is_full (h ! a) \<Longrightarrow> bl_prev_block (h ! a) = None \<Longrightarrow>
    hash_block_tokens sha True None (bl_token_ids (h ! a)) (Some (bl_cache_namespace (h ! a))) = Inr x \<Longrightarrow>
    hash_path sha h a x [a]"
| follow: "bl_cached_content_hash (h ! a) = None \<Longrightarrow> is_full (h ! a) \<Longrightarrow> bl_prev_block (h ! a) = Some q \<Longrightarrow>
    hash_path sha h q y p \<Longrightarrow>
    hash_block_tokens sha False (Some y) (bl_token_ids (h ! a)) (Some (bl_cache_namespace (h ! a))) = Inr x \<Longrightarrow>
    hash_path sha h a x (a # p)"

inductive_cases hash_pathE: "hash_path sha h a x p"

definition hash_is :: "(bytes \<Rightarrow> bytes) \<Rightarrow> 'x nv_state_scheme \<Rightarrow> addr \<Rightarrow> content_hash \<Rightarrow> bool" where
  "hash_is sha s a x \<longleftrightarrow> (\<exists>p. hash_path sha (nv_heap s) a x p)"

lemma hash_path_det: "hash_path sha h a x p \<Longrightarrow> hash_path sha h a x' p' \<Longrightarrow> x = x' \<and> p = p'"
proof (induction arbitrary: x' p' rule: hash_path.induct)
  case (cached a x)
  then show ?case by (auto elim: hash_pathE)
next
  case (first a x)
  then show ?case by (auto elim: hash_pathE)
next
  case (follow a q y p x)
  from follow.prems show ?case
  proof (cases rule: hash_path.cases)
    case (follow q' y' p'')
    then show ?thesis using follow.IH [of y' p''] follow.hyps by auto
  qed (use follow.hyps in auto)
qed

lemma hash_is_det: "hash_is sha s a x \<Longrightarrow> hash_is sha s a y \<Longrightarrow> x = y"
  using hash_path_det unfolding hash_is_def by blast

lemma hash_path_inside:
  "hash_path sha h a x p \<Longrightarrow> b \<in> set p \<Longrightarrow> \<exists>y q. hash_path sha h b y q \<and> length q \<le> length p"
proof (induction rule: hash_path.induct)
  case (follow a q y p x)
  show ?case
  proof (cases "b = a")
    case True
    then show ?thesis using hash_path.follow [OF follow.hyps] by (intro exI conjI) auto
  next
    case False
    then show ?thesis using follow by force
  qed
next
  case (cached a x)
  then show ?case
    using hash_path.cached [of h a x sha] by (intro exI [of _ x] exI [of _ "[a]"]) simp
next
  case (first a x)
  then show ?case
    using hash_path.first [OF first(1-4)] by (intro exI [of _ x] exI [of _ "[a]"]) simp
qed

lemma hash_path_distinct: "hash_path sha h a x p \<Longrightarrow> distinct p"
proof (induction rule: hash_path.induct)
  case (follow a q y p x)
  have "a \<notin> set p"
  proof
    assume "a \<in> set p"
    then obtain y' q' where q': "hash_path sha h a y' q'" "length q' \<le> length p"
      using hash_path_inside [OF follow.hyps(4)] by blast
    have "hash_path sha h a x (a # p)" by (rule hash_path.follow [OF follow.hyps])
    then have "q' = a # p" using hash_path_det q'(1) by blast
    with q'(2) show False by simp
  qed
  with follow.IH show ?case by simp
qed simp_all

definition prevs_ok :: "block list \<Rightarrow> bool" where
  "prevs_ok h \<longleftrightarrow> (\<forall>a < length h. \<forall>p. bl_prev_block (h ! a) = Some p \<longrightarrow> p < length h)"

lemma hash_path_bounded:
  "hash_path sha h a x p \<Longrightarrow> prevs_ok h \<Longrightarrow> a < length h \<Longrightarrow> set p \<subseteq> {..< length h}"
  by (induction rule: hash_path.induct) (auto simp: prevs_ok_def)

lemma hash_path_length:
  assumes "hash_path sha h a x p" "prevs_ok h" "a < length h"
  shows "length p \<le> length h"
  using card_mono [OF finite_lessThan hash_path_bounded [OF assms]]
    distinct_card [OF hash_path_distinct [OF assms(1)]] by simp

text \<open>Computing hashes changes nothing but what is remembered, and remembers only what is true.\<close>

definition hash_kept :: "(bytes \<Rightarrow> bytes) \<Rightarrow> 'x nv_state_scheme \<Rightarrow> 'x nv_state_scheme \<Rightarrow> bool" where
  "hash_kept sha s t \<longleftrightarrow> t = s\<lparr>nv_heap := nv_heap t\<rparr> \<and> length (nv_heap t) = length (nv_heap s) \<and>
     (\<forall>b < length (nv_heap s). \<exists>c. nv_heap t ! b = (nv_heap s ! b)\<lparr>bl_cached_content_hash := c\<rparr> \<and>
        (c = bl_cached_content_hash (nv_heap s ! b) \<or>
         (bl_cached_content_hash (nv_heap s ! b) = None \<and> (\<exists>y. c = Some y \<and> hash_is sha s b y))))"

lemma hash_kept_refl: "hash_kept sha s s"
proof -
  have e: "x\<lparr>bl_cached_content_hash := bl_cached_content_hash x\<rparr> = x" for x :: block
    by (cases x) simp
  have "\<exists>c. nv_heap s ! b = (nv_heap s ! b)\<lparr>bl_cached_content_hash := c\<rparr> \<and>
        (c = bl_cached_content_hash (nv_heap s ! b) \<or>
         (bl_cached_content_hash (nv_heap s ! b) = None \<and> (\<exists>y. c = Some y \<and> hash_is sha s b y)))" for b
    by (rule exI [of _ "bl_cached_content_hash (nv_heap s ! b)"]) (simp add: e)
  then show ?thesis unfolding hash_kept_def by simp
qed

lemma hash_path_kept:
  assumes "hash_kept sha s t" "prevs_ok (nv_heap s)"
  shows "hash_path sha (nv_heap s) b y p \<Longrightarrow> b < length (nv_heap s) \<Longrightarrow> hash_is sha t b y"
proof (induction rule: hash_path.induct)
  case (cached a x)
  then show ?case
    using assms(1) hash_path.cached [of "nv_heap t" a x sha]
    unfolding hash_kept_def hash_is_def by fastforce
next
  case (first a x)
  have h: "hash_is sha s a x" using hash_path.first [OF first(1-4)] by (auto simp: hash_is_def)
  obtain c where c: "nv_heap t ! a = (nv_heap s ! a)\<lparr>bl_cached_content_hash := c\<rparr>"
      "c = None \<or> (\<exists>y. c = Some y \<and> hash_is sha s a y)"
    using assms(1) first unfolding hash_kept_def by fastforce
  show ?case
  proof (cases c)
    case None
    then show ?thesis using first c hash_path.first [of "nv_heap t" a sha x]
      by (auto simp: hash_is_def is_full_def num_empty_slots_def)
  next
    case (Some y)
    then have "y = x" using c(2) hash_is_det [OF h] by auto
    then show ?thesis using Some c(1) hash_path.cached [of "nv_heap t" a x sha] by (auto simp: hash_is_def)
  qed
next
  case (follow a q y p x)
  have h: "hash_is sha s a x" using hash_path.follow [OF follow.hyps] by (auto simp: hash_is_def)
  have "q < length (nv_heap s)" using assms(2) follow.hyps(3) follow.prems by (auto simp: prevs_ok_def)
  then obtain p' where p': "hash_path sha (nv_heap t) q y p'" using follow.IH by (auto simp: hash_is_def)
  obtain c where c: "nv_heap t ! a = (nv_heap s ! a)\<lparr>bl_cached_content_hash := c\<rparr>"
      "c = None \<or> (\<exists>y. c = Some y \<and> hash_is sha s a y)"
    using assms(1) follow.hyps follow.prems unfolding hash_kept_def by fastforce
  show ?case
  proof (cases c)
    case None
    then show ?thesis using follow.hyps c p' hash_path.follow [of "nv_heap t" a q sha y p' x]
      by (auto simp: hash_is_def is_full_def num_empty_slots_def)
  next
    case (Some z)
    then have "z = x" using c(2) hash_is_det [OF h] by auto
    then show ?thesis using Some c(1) hash_path.cached [of "nv_heap t" a x sha] by (auto simp: hash_is_def)
  qed
qed

lemma hash_is_kept:
  "hash_kept sha s t \<Longrightarrow> prevs_ok (nv_heap s) \<Longrightarrow> b < length (nv_heap s) \<Longrightarrow> hash_is sha s b y \<Longrightarrow>
   hash_is sha t b y"
  using hash_path_kept unfolding hash_is_def [of sha s] by blast


lemma hash_kept_upd:
  assumes "hash_is sha s a x" "bl_cached_content_hash (obj a s) = None" "a < length (nv_heap s)"
  shows "hash_kept sha s (upd_obj a (\<lambda>o'. o'\<lparr>bl_cached_content_hash := Some x\<rparr>) s)"
proof -
  have e: "x\<lparr>bl_cached_content_hash := bl_cached_content_hash x\<rparr> = x" for x :: block
    by (cases x) simp
  have "\<exists>c. nv_heap (upd_obj a (\<lambda>o'. o'\<lparr>bl_cached_content_hash := Some x\<rparr>) s) ! b =
        (nv_heap s ! b)\<lparr>bl_cached_content_hash := c\<rparr> \<and>
        (c = bl_cached_content_hash (nv_heap s ! b) \<or>
         (bl_cached_content_hash (nv_heap s ! b) = None \<and> (\<exists>y. c = Some y \<and> hash_is sha s b y)))"
    if "b < length (nv_heap s)" for b
  proof (cases "b = a")
    case True
    then show ?thesis using assms
      by (intro exI [of _ "Some x"]) (simp add: upd_obj_def obj_def)
  next
    case False
    then show ?thesis
      by (intro exI [of _ "bl_cached_content_hash (nv_heap s ! b)"]) (simp add: upd_obj_def e)
  qed
  then show ?thesis by (simp add: hash_kept_def upd_obj_def)
qed

lemma hash_kept_sym_is:
  assumes "hash_kept sha s t" "prevs_ok (nv_heap s)"
  shows "hash_path sha (nv_heap t) b y p \<Longrightarrow> b < length (nv_heap s) \<Longrightarrow> hash_is sha s b y"
proof (induction rule: hash_path.induct)
  case (cached a x)
  then obtain c where c: "nv_heap t ! a = (nv_heap s ! a)\<lparr>bl_cached_content_hash := c\<rparr>"
      "c = bl_cached_content_hash (nv_heap s ! a) \<or>
         (bl_cached_content_hash (nv_heap s ! a) = None \<and> (\<exists>y. c = Some y \<and> hash_is sha s a y))"
    using assms(1) unfolding hash_kept_def by blast
  have "c = Some x" using cached(1) c(1) by simp
  with c(2) show ?case using hash_path.cached [of "nv_heap s" a x sha] by (auto simp: hash_is_def)
next
  case (first a x)
  then obtain c where c: "nv_heap t ! a = (nv_heap s ! a)\<lparr>bl_cached_content_hash := c\<rparr>"
      "c = bl_cached_content_hash (nv_heap s ! a) \<or> (\<exists>y. c = Some y)"
    using assms(1) unfolding hash_kept_def by blast
  then show ?case
    using first hash_path.first [of "nv_heap s" a sha x]
    by (auto simp: hash_is_def is_full_def num_empty_slots_def)
next
  case (follow a q y p x)
  then obtain c where c: "nv_heap t ! a = (nv_heap s ! a)\<lparr>bl_cached_content_hash := c\<rparr>"
      "c = bl_cached_content_hash (nv_heap s ! a) \<or> (\<exists>y. c = Some y)"
    using assms(1) unfolding hash_kept_def by blast
  have q: "bl_prev_block (nv_heap s ! a) = Some q" using follow.hyps(3) c(1) by simp
  have "q < length (nv_heap s)"
    using assms(2) q follow.prems by (auto simp: prevs_ok_def)
  then obtain p' where "hash_path sha (nv_heap s) q y p'" using follow.IH by (auto simp: hash_is_def)
  then show ?case
    using follow.hyps c q hash_path.follow [of "nv_heap s" a q sha y p' x]
    by (auto simp: hash_is_def is_full_def num_empty_slots_def)
qed

lemma hash_kept_iff:
  assumes "hash_kept sha s t" "prevs_ok (nv_heap s)" "b < length (nv_heap s)"
  shows "hash_is sha t b y \<longleftrightarrow> hash_is sha s b y"
  using hash_is_kept [OF assms] hash_kept_sym_is [OF assms(1,2) _ assms(3)]
  unfolding hash_is_def [of sha t] by blast

lemma hash_kept_prevs: "hash_kept sha s t \<Longrightarrow> prevs_ok (nv_heap t) = prevs_ok (nv_heap s)"
proof -
  assume k: "hash_kept sha s t"
  then have "bl_prev_block (nv_heap t ! b) = bl_prev_block (nv_heap s ! b)" if "b < length (nv_heap s)" for b
    using that unfolding hash_kept_def by fastforce
  then show ?thesis using k by (auto simp: prevs_ok_def hash_kept_def)
qed

lemma hash_kept_trans:
  assumes "hash_kept sha s t" "hash_kept sha t u" "prevs_ok (nv_heap s)"
  shows "hash_kept sha s u"
proof -
  have l: "length (nv_heap t) = length (nv_heap s)" using assms(1) by (simp add: hash_kept_def)
  have "\<exists>c. nv_heap u ! b = (nv_heap s ! b)\<lparr>bl_cached_content_hash := c\<rparr> \<and>
        (c = bl_cached_content_hash (nv_heap s ! b) \<or>
         (bl_cached_content_hash (nv_heap s ! b) = None \<and> (\<exists>y. c = Some y \<and> hash_is sha s b y)))"
    if b: "b < length (nv_heap s)" for b
  proof -
    obtain c where c: "nv_heap t ! b = (nv_heap s ! b)\<lparr>bl_cached_content_hash := c\<rparr>"
        "c = bl_cached_content_hash (nv_heap s ! b) \<or>
         (bl_cached_content_hash (nv_heap s ! b) = None \<and> (\<exists>y. c = Some y \<and> hash_is sha s b y))"
      using assms(1) b unfolding hash_kept_def by blast
    obtain d where d: "nv_heap u ! b = (nv_heap t ! b)\<lparr>bl_cached_content_hash := d\<rparr>"
        "d = bl_cached_content_hash (nv_heap t ! b) \<or>
         (bl_cached_content_hash (nv_heap t ! b) = None \<and> (\<exists>y. d = Some y \<and> hash_is sha t b y))"
      using assms(2) b l unfolding hash_kept_def by force
    show ?thesis
      by (rule exI [of _ d]) (use c d hash_kept_iff [OF assms(1,3) b] in auto)
  qed
  moreover have "u = s\<lparr>nv_heap := nv_heap u\<rparr>"
    using assms(1,2) by (cases s, cases t, cases u) (simp add: hash_kept_def)
  ultimately show ?thesis using assms(2) l by (simp add: hash_kept_def)
qed

lemma store_hash_run:
  assumes "hash_block_tokens sha (prev = None) prev (bl_token_ids (obj a s))
      (Some (bl_cache_namespace (obj a s))) = Inr x"
  shows "store_hash sha a prev s =
    (Inr (Some x), upd_obj a (\<lambda>o'. o'\<lparr>bl_cached_content_hash := Some x\<rparr>) s)"
  using assms by (simp add: store_hash_def bind_def gets_def andthen_def modify_def return_def)

lemma content_hash_rec_run:
  "hash_path sha (nv_heap s) a x p \<Longrightarrow> prevs_ok (nv_heap s) \<Longrightarrow> a < length (nv_heap s) \<Longrightarrow>
   length p \<le> n \<Longrightarrow> \<exists>t. content_hash_rec sha n a s = (Inr (Some x), t) \<and> hash_kept sha s t"
proof (induction arbitrary: n rule: hash_path.induct)
  case (cached a x)
  then obtain m where "n = Suc m" by (cases n) auto
  then show ?case using cached
    by (intro exI [of _ s]) (simp add: bind_def gets_def return_def obj_def hash_kept_refl)
next
  case (first a x)
  then obtain m where n: "n = Suc m" by (cases n) auto
  have "hash_is sha s a x" using hash_path.first [OF first(1-4)] by (auto simp: hash_is_def)
  then have "hash_kept sha s (upd_obj a (\<lambda>o'. o'\<lparr>bl_cached_content_hash := Some x\<rparr>) s)"
    using hash_kept_upd [of sha s a x] first by (simp add: obj_def)
  then show ?case using n first store_hash_run [of sha None a s x]
    by (simp add: bind_def gets_def return_def obj_def)
next
  case (follow a q y p x)
  then obtain m where n: "n = Suc m" "length p \<le> m" by (cases n) auto
  have q: "q < length (nv_heap s)" using follow.prems(1,2) follow.hyps(3) by (auto simp: prevs_ok_def)
  obtain u where u: "content_hash_rec sha m q s = (Inr (Some y), u)" "hash_kept sha s u"
    using follow.IH [OF follow.prems(1) q n(2)] by blast
  have h: "hash_is sha s a x" using hash_path.follow [OF follow.hyps] by (auto simp: hash_is_def)
  have a: "a < length (nv_heap u)" using u(2) follow.prems(2) by (simp add: hash_kept_def)
  have same: "bl_token_ids (obj a u) = bl_token_ids (obj a s)"
      "bl_cache_namespace (obj a u) = bl_cache_namespace (obj a s)"
    using u(2) follow.prems(2) unfolding hash_kept_def obj_def by fastforce+
  let ?t = "upd_obj a (\<lambda>o'. o'\<lparr>bl_cached_content_hash := Some x\<rparr>) u"
  have "content_hash_rec sha n a s = (Inr (Some x), ?t)"
    using n follow.hyps u(1) store_hash_run [of sha "Some y" a u x] same
    by (simp add: bind_def gets_def obj_def)
  moreover have "hash_kept sha s ?t"
  proof (cases "bl_cached_content_hash (obj a u)")
    case None
    have "hash_is sha u a x" using hash_kept_iff [OF u(2) follow.prems(1,2)] h by simp
    then have "hash_kept sha u ?t" by (rule hash_kept_upd [OF _ None a])
    then show ?thesis using hash_kept_trans [OF u(2) _ follow.prems(1)] by blast
  next
    case (Some z)
    have "hash_is sha u a z" using hash_path.cached [of "nv_heap u" a z sha] Some
      by (auto simp: hash_is_def obj_def)
    then have "z = x" using hash_kept_iff [OF u(2) follow.prems(1,2)] h hash_is_det by blast
    then have "?t = u" using Some upd_obj_ident [OF a] by (cases "obj a u") simp
    then show ?thesis using u(2) by simp
  qed
  ultimately show ?case by blast
qed

lemma content_hash_run:
  assumes "hash_is sha s a x" "prevs_ok (nv_heap s)" "a < length (nv_heap s)"
  shows "\<exists>t. content_hash sha a s = (Inr (Some x), t) \<and> hash_kept sha s t"
proof -
  obtain p where "hash_path sha (nv_heap s) a x p" using assms(1) by (auto simp: hash_is_def)
  then show ?thesis
    using content_hash_rec_run [OF _ assms(2,3) hash_path_length [OF _ assms(2,3)]]
    by (simp add: content_hash_def bind_def gets_def)
qed

lemma content_hash_none:
  assumes "bl_cached_content_hash (obj a s) = None" "\<not> is_full (obj a s)" "nv_heap s \<noteq> []"
  shows "content_hash sha a s = (Inr None, s)"
proof -
  obtain m where "length (nv_heap s) = Suc m" using assms(3) by (cases "nv_heap s") auto
  then show ?thesis using assms(1,2) by (simp add: content_hash_def bind_def gets_def return_def)
qed


text \<open>On objects that remember nothing yet, the recursion computes the hash of the chain of their tokens.\<close>

lemma hash_path_chain:
  "hash_path sha h a x p \<Longrightarrow> \<forall>b \<in> set p. bl_cached_content_hash (h ! b) = None \<Longrightarrow>
   chain_hash sha (bl_cache_namespace (h ! last p)) (map (\<lambda>b. bl_token_ids (h ! b)) p) = Inr (Some x)"
proof (induction rule: hash_path.induct)
  case (first a x)
  then show ?case by simp
next
  case (follow a q y p x)
  have "p \<noteq> []" using follow.hyps(4) by (auto elim: hash_pathE)
  moreover have "hash_block_tokens sha False (Some y) (bl_token_ids (h ! a))
      (Some (bl_cache_namespace (h ! last p))) = Inr x"
    using follow.hyps(5) by (simp add: hash_block_tokens_def)
  ultimately show ?case using follow by simp
qed simp

section \<open>The property\<close>

text \<open>
  C20: the content hash of a block identifies the whole prefix. If two chains of blocks have the same
  hash, and the digest has no collision among the messages of the two chains and gives 32 bytes, and
  the 32-byte namespaces are not themselves digests of such messages, then the namespaces are equal
  and the chains hold the same tokens, block by block: the first block's namespace cannot be mistaken
  for a previous hash, and the packing of the tokens is injective.
\<close>

theorem prefix_hash_identifies:
  assumes "chain_hash sha ns tss = Inr (Some x)" "chain_hash sha ns' tss' = Inr (Some x)"
    and "inj_on sha (chain_messages sha ns tss \<union> chain_messages sha ns' tss')"
    and "\<forall>m \<in> chain_messages sha ns tss \<union> chain_messages sha ns' tss'. length (sha m) = 32"
    and "length ns = 32" "length ns' = 32"
    and "{ns, ns'} \<inter> sha ` (chain_messages sha ns tss \<union> chain_messages sha ns' tss') = {}"
  shows "ns = ns' \<and> tss = tss'"
  by (rule chain_hash_inj [OF assms(1,2) subset_refl assms(3-7)])

definition example_sha :: "bytes \<Rightarrow> bytes" where
  "example_sha m = drop (length m - 32) m"

definition example_namespace :: bytes where
  "example_namespace = replicate 32 1"

lemma prefix_hash_identifies_witness:
  "\<exists>x. chain_hash example_sha example_namespace [[6], [5]] = Inr (Some x) \<and>
     (example_namespace, [[6], [5]]) = (example_namespace, [[6], [5 :: int]])"
proof -
  let ?M = "chain_messages example_sha example_namespace [[6], [5]]"
  obtain x where x: "chain_hash example_sha example_namespace [[6], [5]] = Inr (Some x)"
  proof
    show "chain_hash example_sha example_namespace [[6], [5]] =
      Inr (Some (replicate 16 1 @ [0, 0, 0, 0, 0, 0, 0, 5] @ [0, 0, 0, 0, 0, 0, 0, 6]))" by code_simp
  qed
  have "inj_on example_sha (?M \<union> ?M)" "\<forall>m \<in> ?M \<union> ?M. length (example_sha m) = 32"
    "length example_namespace = 32"
    "{example_namespace, example_namespace} \<inter> example_sha ` (?M \<union> ?M) = {}" by code_simp+
  with prefix_hash_identifies [OF x x] x show ?thesis by blast
qed

end
