(* ===== verification/PrefixCaching.thy ===== *)
theory PrefixCaching
  imports NaiveBlock PrefixHash Evictor CpuKvContentCache
begin

text \<open>
  \<^verbatim>\<open>vllm/core/block/prefix_caching_block.py\<close>: blocks with a content hash and the allocator that
  reuses them. The state extends the naive allocator's, whose pool, free ids and reference counts the
  prefix-caching allocator shares; its own part is the index from hashes to blocks, the trackers, the
  evictor and, when the CPU tier is attached, the CPU cache that the external callbacks of
  \<^verbatim>\<open>cpu_gpu_block_allocator.py\<close> lead to.
\<close>

section \<open>State\<close>

record block_tracker =
  tr_active :: bool
  tr_last_accessed :: rat
  tr_computed :: bool

definition DEFAULT_LAST_ACCESSED_TIME :: rat where
  "DEFAULT_LAST_ACCESSED_TIME = -1"

definition tr_new :: block_tracker where
  "tr_new = \<lparr>tr_active = False, tr_last_accessed = DEFAULT_LAST_ACCESSED_TIME, tr_computed = False\<rparr>"

definition tr_reset :: "block_tracker \<Rightarrow> block_tracker" where
  "tr_reset t = t\<lparr>tr_last_accessed := DEFAULT_LAST_ACCESSED_TIME, tr_computed := False\<rparr>"

definition tr_enable :: "(block_tracker, unit) py" where
  "tr_enable = andthen (bind (gets tr_active) (\<lambda>a. guard AssertionError (\<not> a)))
     (modify (\<lambda>t. tr_reset (t\<lparr>tr_active := True\<rparr>)))"

definition tr_disable :: "(block_tracker, unit) py" where
  "tr_disable = andthen (bind (gets tr_active) (guard AssertionError))
     (modify (\<lambda>t. tr_reset (t\<lparr>tr_active := False\<rparr>)))"

record pc_state = nv_state +
  pc_cached_blocks :: "(content_hash, block_id) dict"
  pc_touched_blocks :: "block_id set"
  pc_block_tracker :: "(block_id, block_tracker) dict"
  pc_evictor :: evictor
  pc_copy_on_writes :: "(block_id \<times> block_id) list"
  pc_metric_data :: cache_metric
  pc_cpu_cache :: "cpu_kv option"

definition pc_init :: "(string, string) dict \<Rightarrow> int \<Rightarrow> int \<Rightarrow> block_id list option
    \<Rightarrow> eviction_policy option \<Rightarrow> exn + pc_state" where
  "pc_init os_environ num_blocks block_size block_ids eviction_policy =
     (let ids = (case block_ids of None \<Rightarrow> int_range num_blocks | Some ids \<Rightarrow> ids);
          s = pool_init (nat (num_blocks * 4)) (nv_empty PrefixCachingBlock block_size)
      in ebind (nv_init_ids num_blocks ids s) (\<lambda>s.
         ebind (case eviction_policy of None \<Rightarrow> eviction_policy_from_env os_environ None
                | Some p \<Rightarrow> Inr p) (\<lambda>policy.
         Inr (nv_state.extend s
           \<lparr>pc_cached_blocks = [], pc_touched_blocks = {},
            pc_block_tracker = map (\<lambda>b. (b, tr_new)) (remdups ids), pc_evictor = make_evictor policy,
            pc_copy_on_writes = [], pc_metric_data = cm_default, pc_cpu_cache = None\<rparr>))))"

section \<open>The CPU tier\<close>

text \<open>
  \<open>_claim_cpu_content\<close>, \<open>_cancel_cpu_claim\<close>, \<open>_stage_cpu_to_gpu\<close> and \<open>_stage_gpu_to_cpu\<close> of the
  CPU-GPU allocator, which are the callbacks of the GPU allocator when the tier is enabled.
\<close>

definition on_cpu_cache :: "(cpu_kv, 'a) py \<Rightarrow> (pc_state, 'a) py" where
  "on_cpu_cache m = (\<lambda>s. case pc_cpu_cache s of None \<Rightarrow> (Inl AssertionError, s)
     | Some c \<Rightarrow> (case m c of (r, c') \<Rightarrow> (r, s\<lparr>pc_cpu_cache := Some c'\<rparr>)))"

definition pc_get_physical_block_id :: "block_id \<Rightarrow> (pc_state, int) py" where
  "pc_get_physical_block_id b = bind (gets (nv_get_physical_block_id b)) (\<lambda>r. case r of
     Inl e \<Rightarrow> raise e | Inr i \<Rightarrow> return i)"

definition claim_cpu_content :: "content_hash \<Rightarrow> (pc_state, int option) py" where
  "claim_cpu_content h = on_cpu_cache (ck_claim_load h)"

definition cancel_cpu_claim :: "content_hash \<Rightarrow> int \<Rightarrow> (pc_state, unit) py" where
  "cancel_cpu_claim h cpu_slot = on_cpu_cache (ck_cancel_load h cpu_slot)"

definition stage_cpu_to_gpu :: "content_hash \<Rightarrow> int \<Rightarrow> block_id \<Rightarrow> (pc_state, unit) py" where
  "stage_cpu_to_gpu h cpu_slot gpu_block_id =
     bind (pc_get_physical_block_id gpu_block_id) (\<lambda>gpu_slot.
     on_cpu_cache (ck_stage_load h cpu_slot gpu_slot))"

definition stage_gpu_to_cpu :: "content_hash \<Rightarrow> block_id \<Rightarrow> (pc_state, bool) py" where
  "stage_gpu_to_cpu h gpu_block_id =
     bind (pc_get_physical_block_id gpu_block_id) (\<lambda>gpu_slot.
     on_cpu_cache (ck_stage_store h gpu_slot))"

section \<open>Tracking of physical blocks\<close>

definition on_tracker :: "block_id \<Rightarrow> (block_tracker, 'a) py \<Rightarrow> (pc_state, 'a) py" where
  "on_tracker b m = (\<lambda>s. case map_of (pc_block_tracker s) b of None \<Rightarrow> (Inl KeyError, s)
     | Some t \<Rightarrow> (case m t of (r, t') \<Rightarrow>
         (r, s\<lparr>pc_block_tracker := AList.update b t' (pc_block_tracker s)\<rparr>)))"

definition on_evictor :: "(evictor, 'a) py \<Rightarrow> (pc_state, 'a) py" where
  "on_evictor = zoom pc_evictor (\<lambda>e s. s\<lparr>pc_evictor := e\<rparr>)"

definition track_block_id :: "block_id option \<Rightarrow> bool \<Rightarrow> (pc_state, unit) py" where
  "track_block_id b computed =
     bind (from_option AssertionError b) (\<lambda>block_id.
     andthen (on_tracker block_id tr_enable)
       (on_tracker block_id (modify (\<lambda>t. t\<lparr>tr_computed := computed\<rparr>))))"

definition untrack_block_id :: "block_id option \<Rightarrow> (pc_state, unit) py" where
  "untrack_block_id b =
     bind (from_option AssertionError b) (\<lambda>block_id. on_tracker block_id tr_disable)"

definition block_is_computed :: "block_id \<Rightarrow> (pc_state, bool) py" where
  "block_is_computed b =
     bind (on_tracker b (gets id)) (\<lambda>t.
     if tr_active t then return (tr_computed t)
     else gets (\<lambda>s. ev_contains b (pc_evictor s)))"

section \<open>Reference counts of cached and hashless blocks\<close>

definition set_computed :: "addr \<Rightarrow> bool \<Rightarrow> ('x nv_state_scheme, unit) py" where
  "set_computed a c = modify (upd_obj a (\<lambda>x. x\<lparr>bl_computed := c\<rparr>))"

definition incr_refcount_cached_block :: "addr \<Rightarrow> (pc_state, unit) py" where
  "incr_refcount_cached_block a =
     andthen (set_computed a True)
    (bind (gets (block_id_of a)) (\<lambda>b.
     bind (from_option AssertionError b) (\<lambda>block_id.
     bind (rc_incr block_id) (\<lambda>refcount.
     if refcount = 1 then
       andthen (bind (gets (\<lambda>s. ev_contains block_id (pc_evictor s))) (\<lambda>c.
                if c then on_evictor (ev_remove block_id) else return ()))
         (track_block_id (Some block_id) True)
     else return ()))))"

definition decr_refcount_cached_block :: "(bytes \<Rightarrow> bytes) \<Rightarrow> addr \<Rightarrow> (pc_state, unit) py" where
  "decr_refcount_cached_block sha a =
     bind (content_hash sha a) (\<lambda>h.
     bind (from_option AssertionError h) (\<lambda>h.
     bind (gets (block_id_of a)) (\<lambda>b.
     bind (from_option AssertionError b) (\<lambda>block_id.
     bind (rc_decr block_id) (\<lambda>refcount.
     if 0 < refcount then set_block_id a None
     else andthen (guard AssertionError (refcount = 0))
         (andthen (bind (gets (\<lambda>s. map_of (pc_cached_blocks s) h)) (\<lambda>c. guard AssertionError (c \<noteq> None)))
         (bind (gets (\<lambda>s. bl_cached_num_tokens_total (deref a s))) (\<lambda>num_tokens_total.
          bind (on_tracker block_id (gets tr_last_accessed)) (\<lambda>last_accessed.
          andthen (on_evictor (ev_add block_id h num_tokens_total last_accessed))
         (andthen (untrack_block_id (Some block_id))
                  (set_block_id a None))))))))))) "

definition decr_refcount_hashless_block :: "addr \<Rightarrow> (pc_state, unit) py" where
  "decr_refcount_hashless_block a =
     bind (gets (block_id_of a)) (\<lambda>b.
     bind (from_option AssertionError b) (\<lambda>block_id.
     bind (rc_get block_id) (\<lambda>refcount.
     andthen (if refcount = 1 then untrack_block_id (Some block_id) else return ())
       (nv_free a True))))"

section \<open>Allocating and freeing block ids\<close>

definition maybe_allocate_hashless_block_id :: "(pc_state, block_id option) py" where
  "maybe_allocate_hashless_block_id =
     catch (bind (nv_allocate_mutable_block None) (\<lambda>a.
            bind (gets (block_id_of a)) (\<lambda>block_id.
            andthen (free_block a)
           (andthen (track_block_id block_id False)
                    (return block_id)))))
       (\<lambda>e. if e = NoFreeBlocksError then return None else raise e)"

definition maybe_allocate_evicted_block_id :: "(pc_state, block_id option) py" where
  "maybe_allocate_evicted_block_id =
     bind (gets (\<lambda>s. ev_num_blocks (pc_evictor s))) (\<lambda>n.
     if n = 0 then return None
     else bind (on_evictor ev_evict) (\<lambda>(block_id, content_hash_to_evict).
          bind (gets (\<lambda>s. map_of (pc_cached_blocks s) content_hash_to_evict)) (\<lambda>c.
          bind (from_option AssertionError c) (\<lambda>cached_id.
          bind (rc_get cached_id) (\<lambda>refcount.
          andthen (guard AssertionError (refcount = 0))
         (andthen (guard AssertionError (cached_id = block_id))
         (bind (gets pc_cpu_cache) (\<lambda>tier.
          andthen (if tier = None then return ()
                   else bind (stage_gpu_to_cpu content_hash_to_evict block_id) (\<lambda>_. return ()))
         (andthen (modify (\<lambda>s. s\<lparr>pc_cached_blocks :=
                     AList.delete content_hash_to_evict (pc_cached_blocks s)\<rparr>))
         (andthen (bind (rc_incr block_id) (\<lambda>_. return ()))
         (andthen (track_block_id (Some block_id) False)
                  (return (Some block_id)))))))))))))"

definition pc_allocate_block_id :: "(pc_state, block_id) py" where
  "pc_allocate_block_id =
     bind maybe_allocate_hashless_block_id (\<lambda>hashless_block_id.
     case hashless_block_id of Some b \<Rightarrow> return b
     | None \<Rightarrow> bind maybe_allocate_evicted_block_id (\<lambda>evicted_block_id.
         case evicted_block_id of Some b \<Rightarrow> return b | None \<Rightarrow> raise NoFreeBlocksError))"

text \<open>
  \<open>_free_block_id\<close>; \<open>hash\<close> reads the attribute \<open>content_hash\<close> of the object that is handed in: of the
  block itself, or of the naive block inside it, which has none.
\<close>

definition pc_free_block_id_by :: "(pc_state, content_hash option) py \<Rightarrow> (bytes \<Rightarrow> bytes) \<Rightarrow> addr
    \<Rightarrow> (pc_state, unit) py" where
  "pc_free_block_id_by hash sha a =
     bind (gets (block_id_of a)) (\<lambda>b.
     andthen (guard AssertionError (b \<noteq> None))
    (bind hash (\<lambda>h.
     andthen (if h \<noteq> None then decr_refcount_cached_block sha a else decr_refcount_hashless_block a)
       (bind (gets (block_id_of a)) (\<lambda>b. guard AssertionError (b = None))))))"

definition pc_free_block_id :: "(bytes \<Rightarrow> bytes) \<Rightarrow> addr \<Rightarrow> (pc_state, unit) py" where
  "pc_free_block_id sha a = pc_free_block_id_by (content_hash sha a) sha a"

definition pc_free :: "(bytes \<Rightarrow> bytes) \<Rightarrow> addr \<Rightarrow> bool \<Rightarrow> (pc_state, unit) py" where
  "pc_free sha a keep_block_object =
     andthen (pc_free_block_id sha a) (if keep_block_object then return () else free_block a)"

section \<open>Copy-on-write and promotion\<close>

text \<open>
  \<open>cow_block_if_not_appendable\<close> as the naive block inside a prefix-caching block calls it, with itself
  as the argument.
\<close>

definition pc_cow_block_if_not_appendable :: "(bytes \<Rightarrow> bytes) \<Rightarrow> addr \<Rightarrow> (pc_state, block_id) py" where
  "pc_cow_block_if_not_appendable sha a =
     bind (gets (block_id_of a)) (\<lambda>src.
     bind (from_option AssertionError src) (\<lambda>src_block_id.
     bind (ct_is_appendable a) (\<lambda>appendable.
     if appendable then return src_block_id
     else andthen (pc_free_block_id_by (return None) sha a)
         (bind pc_allocate_block_id (\<lambda>trg_block_id.
          andthen (ct_record_cow (\<lambda>l s. s\<lparr>pc_copy_on_writes := l\<rparr>) pc_copy_on_writes
                     (Some src_block_id) (Some trg_block_id))
            (return trg_block_id))))))"

definition pc_clear_copy_on_writes :: "(pc_state, (block_id \<times> block_id) list) py" where
  "pc_clear_copy_on_writes =
     ct_clear_cows (\<lambda>l s. s\<lparr>pc_copy_on_writes := l\<rparr>) pc_copy_on_writes"

definition promote_to_immutable_block :: "(bytes \<Rightarrow> bytes) \<Rightarrow> addr \<Rightarrow> (pc_state, block_id) py" where
  "promote_to_immutable_block sha a =
     bind (content_hash sha a) (\<lambda>h.
     bind (from_option AssertionError h) (\<lambda>h.
     bind (gets (block_id_of a)) (\<lambda>b.
     bind (from_option AssertionError b) (\<lambda>block_id.
     bind (rc_get block_id) (\<lambda>refcount.
     andthen (guard AssertionError (0 < refcount))
    (bind (gets (\<lambda>s. map_of (pc_cached_blocks s) h)) (\<lambda>c. case c of
       None \<Rightarrow>
         andthen (modify (\<lambda>s. s\<lparr>pc_cached_blocks := AList.update h block_id (pc_cached_blocks s),
                    pc_touched_blocks := insert block_id (pc_touched_blocks s)\<rparr>))
           (return block_id)
     | Some _ \<Rightarrow>
         andthen (decr_refcount_hashless_block a)
        (bind (gets (\<lambda>s. map_of (pc_cached_blocks s) h)) (\<lambda>c.
         bind (from_option KeyError c) (\<lambda>cached_id.
         andthen (set_block_id a (Some cached_id))
        (andthen (incr_refcount_cached_block a)
                 (return cached_id)))))))))))) "

text \<open>\<open>PrefixCachingBlock.append_token_ids\<close>\<close>

definition pb_append_token_ids :: "(bytes \<Rightarrow> bytes) \<Rightarrow> addr \<Rightarrow> int list \<Rightarrow> (pc_state, unit) py" where
  "pb_append_token_ids sha a token_ids =
     bind (content_hash sha a) (\<lambda>h.
     andthen (guard AssertionError (h = None))
    (bind (gets (\<lambda>s. bl_computed (obj a s))) (\<lambda>computed.
     andthen (guard AssertionError (\<not> computed))
    (if token_ids = [] then return ()
     else andthen (nb_append_token_ids (pc_cow_block_if_not_appendable sha) a token_ids)
         (andthen (pb_update_num_tokens_total a)
         (bind (content_hash sha a) (\<lambda>h.
          if h = None then return ()
          else bind (promote_to_immutable_block sha a) (\<lambda>b. set_block_id a (Some b))))))))) "

section \<open>Allocating blocks\<close>

text \<open>
  \<open>_init_block\<close>. The allocator's field \<open>_cache_namespace\<close> is set for the time of the call and only
  read for objects the pool creates, which are initialised again before they are used.
\<close>

definition pc_init_block :: "addr option \<Rightarrow> int list \<Rightarrow> block_id option \<Rightarrow> bytes option
    \<Rightarrow> (pc_state, addr) py" where
  "pc_init_block prev_block token_ids physical_block_id cache_namespace =
     bind (gets nv_block_size) (\<lambda>block_size.
     bind (init_block prev_block token_ids block_size physical_block_id) (\<lambda>a.
     bind (gets (\<lambda>s.
       let ns = (case cache_namespace of None \<Rightarrow> [] | Some ns \<Rightarrow> ns)
       in case prev_block of Some p \<Rightarrow> if ns = [] then bl_cache_namespace (obj p s) else ns
          | None \<Rightarrow> ns)) (\<lambda>resolved_namespace.
     bind (gets (\<lambda>s. bl_cached_content_hash (obj a s))) (\<lambda>h.
     andthen (guard RuntimeError (h = None))
    (andthen (modify (upd_obj a (\<lambda>x. x\<lparr>bl_cache_namespace := resolved_namespace\<rparr>)))
             (return a))))))"

text \<open>\<open>allocate_mutable_block_with_cache_namespace\<close>; without a namespace it is \<open>allocate_mutable_block\<close>.\<close>

definition pc_allocate_mutable_block :: "(bytes \<Rightarrow> bytes) \<Rightarrow> addr option \<Rightarrow> bytes option \<Rightarrow> (pc_state, addr) py" where
  "pc_allocate_mutable_block sha prev_block cache_namespace =
     andthen (assert_prefix_caching_block_or_none prev_block)
    (bind pc_allocate_block_id (\<lambda>block_id.
     bind (pc_init_block prev_block [] (Some block_id) cache_namespace) (\<lambda>a.
     bind (gets (\<lambda>s. bl_computed (obj a s))) (\<lambda>computed.
     andthen (guard AssertionError (\<not> computed))
    (bind (content_hash sha a) (\<lambda>h.
     andthen (guard AssertionError (h = None))
       (return a)))))))"

definition maybe_restore_external_cached_block :: "(bytes \<Rightarrow> bytes) \<Rightarrow> addr \<Rightarrow> (pc_state, bool) py" where
  "maybe_restore_external_cached_block sha a =
     bind (gets pc_cpu_cache) (\<lambda>tier.
     if tier = None then return False
     else
       bind (content_hash sha a) (\<lambda>h.
       bind (from_option AssertionError h) (\<lambda>h.
       bind (gets (block_id_of a)) (\<lambda>b.
       andthen (guard AssertionError (b = None))
      (bind (claim_cpu_content h) (\<lambda>slot. case slot of
         None \<Rightarrow> return False
       | Some cpu_slot \<Rightarrow>
           bind (catch pc_allocate_block_id
                  (\<lambda>e. andthen (cancel_cpu_claim h cpu_slot) (raise e))) (\<lambda>block_id.
           andthen (set_block_id a (Some block_id))
          (andthen (catch (stage_cpu_to_gpu h cpu_slot block_id)
                  (\<lambda>e. andthen (decr_refcount_hashless_block a)
                      (andthen (cancel_cpu_claim h cpu_slot)
                      (andthen (free_block a) (raise e)))))
          (bind (gets (\<lambda>s. map_of (pc_cached_blocks s) h)) (\<lambda>c.
           andthen (guard RuntimeError (c = None))
          (andthen (modify (\<lambda>s. s\<lparr>pc_cached_blocks := AList.update h block_id (pc_cached_blocks s)\<rparr>))
          (andthen (set_computed a True)
          (andthen (on_tracker block_id (modify (\<lambda>t. t\<lparr>tr_computed := True\<rparr>)))
                   (return True))))))))))))))"

definition query_metric :: "bool \<Rightarrow> (pc_state, unit) py" where
  "query_metric hit = modify (\<lambda>s. s\<lparr>pc_metric_data := cm_query hit (pc_metric_data s)\<rparr>)"

text \<open>
  \<open>allocate_immutable_block_with_cache_namespace\<close>; \<open>allocate_immutable_block\<close> calls it with an empty
  namespace.
\<close>

definition pc_allocate_immutable_block :: "(bytes \<Rightarrow> bytes) \<Rightarrow> addr option \<Rightarrow> int list \<Rightarrow> bytes
    \<Rightarrow> (pc_state, addr) py" where
  "pc_allocate_immutable_block sha prev_block token_ids cache_namespace =
     andthen (assert_prefix_caching_block_or_none prev_block)
    (bind (pc_init_block prev_block token_ids None (Some cache_namespace)) (\<lambda>a.
     bind (content_hash sha a) (\<lambda>h.
     bind (from_option AssertionError h) (\<lambda>h.
     bind (gets (\<lambda>s. map_of (pc_cached_blocks s) h)) (\<lambda>c. case c of
       Some cached_block_id \<Rightarrow>
         andthen (query_metric True)
        (andthen (set_block_id a (Some cached_block_id))
        (andthen (incr_refcount_cached_block a)
                 (return a)))
     | None \<Rightarrow>
         bind (maybe_restore_external_cached_block sha a) (\<lambda>restored.
         if restored then andthen (query_metric True) (return a)
         else
           andthen (query_metric False)
          (andthen (free_block a)
          (bind (pc_allocate_mutable_block sha prev_block (Some cache_namespace)) (\<lambda>a.
           andthen (pb_append_token_ids sha a token_ids)
                   (return a)))))))))) "

fun pc_allocate_immutable_blocks :: "(bytes \<Rightarrow> bytes) \<Rightarrow> addr option \<Rightarrow> int list list \<Rightarrow> bytes
    \<Rightarrow> (pc_state, addr list) py" where
  "pc_allocate_immutable_blocks sha prev_block [] cache_namespace = return []"
| "pc_allocate_immutable_blocks sha prev_block (token_ids # rest) cache_namespace =
     bind (pc_allocate_immutable_block sha prev_block token_ids cache_namespace) (\<lambda>a.
     bind (pc_allocate_immutable_blocks sha (Some a) rest cache_namespace) (\<lambda>blocks.
     return (a # blocks)))"

section \<open>Forking\<close>

fun pc_fork_blocks :: "addr option \<Rightarrow> addr list \<Rightarrow> (pc_state, addr list) py" where
  "pc_fork_blocks prev_block [] = return []"
| "pc_fork_blocks prev_block (a # rest) =
     bind (gets (block_id_of a)) (\<lambda>b.
     bind (from_option AssertionError b) (\<lambda>block_id.
     bind (rc_incr block_id) (\<lambda>refcount.
     andthen (guard AssertionError (refcount \<noteq> 1))
    (bind (gets (obj a)) (\<lambda>block.
     bind (pc_init_block prev_block (bl_token_ids block) (Some block_id)
             (Some (bl_cache_namespace block))) (\<lambda>f.
     bind (pc_fork_blocks (Some f) rest) (\<lambda>blocks. return (f # blocks))))))))"

definition pc_fork :: "addr \<Rightarrow> (pc_state, addr list) py" where
  "pc_fork last_block = bind (get_all_blocks_recursively last_block) (pc_fork_blocks None)"

section \<open>Queries and marks\<close>

definition pc_get_num_free_blocks :: "pc_state \<Rightarrow> nat" where
  "pc_get_num_free_blocks s = nv_get_num_free_blocks s + ev_num_blocks (pc_evictor s)"

definition pc_get_num_total_blocks :: "pc_state \<Rightarrow> nat" where
  "pc_get_num_total_blocks s = nv_get_num_total_blocks s"

definition pc_get_prefix_cache_hit_rate :: "pc_state \<Rightarrow> exn + rat" where
  "pc_get_prefix_cache_hit_rate s = cm_get_hit_rate (pc_metric_data s)"

definition is_block_cached :: "(bytes \<Rightarrow> bytes) \<Rightarrow> addr \<Rightarrow> (pc_state, bool) py" where
  "is_block_cached sha a =
     bind (content_hash sha a) (\<lambda>h.
     bind (from_option AssertionError h) (\<lambda>h.
     gets (\<lambda>s. map_of (pc_cached_blocks s) h \<noteq> None)))"

definition mark_block_as_accessed :: "rat \<Rightarrow> block_id \<Rightarrow> (pc_state, unit) py" where
  "mark_block_as_accessed now b =
     bind (on_tracker b (gets tr_active)) (\<lambda>active.
     if active then on_tracker b (modify (\<lambda>t. t\<lparr>tr_last_accessed := now\<rparr>))
     else bind (gets (\<lambda>s. ev_contains b (pc_evictor s))) (\<lambda>c.
       if c then on_evictor (ev_update b now) else raise ValueError))"

definition pc_mark_blocks_as_accessed :: "block_id list \<Rightarrow> rat \<Rightarrow> (pc_state, unit) py" where
  "pc_mark_blocks_as_accessed block_ids now = for_each block_ids (mark_block_as_accessed now)"

text \<open>The trackers of all touched blocks are marked, in any order; a touched block has a tracker.\<close>

definition pc_mark_blocks_as_computed :: "block_id list \<Rightarrow> (pc_state, unit) py" where
  "pc_mark_blocks_as_computed block_ids =
     bind (gets pc_touched_blocks) (\<lambda>touched.
     bind (gets (\<lambda>s. fst ` set (pc_block_tracker s))) (\<lambda>tracked.
     andthen (guard KeyError (touched \<subseteq> tracked))
       (modify (\<lambda>s. s\<lparr>pc_block_tracker := map (\<lambda>(b, t).
            (b, if b \<in> touched then t\<lparr>tr_computed := True\<rparr> else t)) (pc_block_tracker s),
          pc_touched_blocks := {}\<rparr>))))"

fun extend_computed :: "block_id list \<Rightarrow> (pc_state, block_id list) py" where
  "extend_computed [] = return []"
| "extend_computed (b # bs) =
     bind (block_is_computed b) (\<lambda>c.
     if c then bind (extend_computed bs) (\<lambda>r. return (b # r)) else return [])"

definition pc_get_computed_block_ids :: "block_id list \<Rightarrow> block_id list \<Rightarrow> bool
    \<Rightarrow> (pc_state, block_id list) py" where
  "pc_get_computed_block_ids prev_computed_block_ids block_ids skip_last_block_id =
     (let prev_prefix_size = int (length prev_computed_block_ids);
          cur_size = int (length block_ids) - (if skip_last_block_id then 1 else 0)
      in andthen (guard AssertionError (0 \<le> cur_size))
        (andthen (guard AssertionError (prev_prefix_size \<le> cur_size))
        (bind (extend_computed (drop (nat prev_prefix_size) (take (nat cur_size) block_ids))) (\<lambda>r.
         return (prev_computed_block_ids @ r)))))"

text \<open>\<open>os.path.commonprefix\<close>, on lists.\<close>

fun common_prefix2 :: "'a list \<Rightarrow> 'a list \<Rightarrow> 'a list" where
  "common_prefix2 (x # xs) (y # ys) = (if x = y then x # common_prefix2 xs ys else [])"
| "common_prefix2 _ _ = []"

fun common_prefix :: "'a list list \<Rightarrow> 'a list" where
  "common_prefix [] = []"
| "common_prefix [xs] = xs"
| "common_prefix (xs # xss) = common_prefix2 xs (common_prefix xss)"

definition pc_get_common_computed_block_ids :: "block_id list list \<Rightarrow> block_id list" where
  "pc_get_common_computed_block_ids computed_seq_block_ids =
     (case computed_seq_block_ids of [ids] \<Rightarrow> ids
      | _ \<Rightarrow> common_prefix (filter (\<lambda>ids. ids \<noteq> []) computed_seq_block_ids))"

fun pc_get_num_full_blocks_touched :: "(bytes \<Rightarrow> bytes) \<Rightarrow> addr list \<Rightarrow> (pc_state, nat) py" where
  "pc_get_num_full_blocks_touched sha [] = return 0"
| "pc_get_num_full_blocks_touched sha (a # as) =
     bind (gets (\<lambda>s. is_full (deref a s))) (\<lambda>full.
     bind (if \<not> full then return False
           else bind (is_block_cached sha a) (\<lambda>cached.
             if \<not> cached then return True
             else bind (content_hash sha a) (\<lambda>h.
                  bind (from_option AssertionError h) (\<lambda>h.
                  gets (\<lambda>s. case map_of (pc_cached_blocks s) h of None \<Rightarrow> False
                    | Some b \<Rightarrow> ev_contains b (pc_evictor s))))))
       (\<lambda>touched.
     bind (pc_get_num_full_blocks_touched sha as) (\<lambda>n. return (if touched then n + 1 else n))))"

section \<open>Swapping\<close>

definition pc_swap_out :: "(bytes \<Rightarrow> bytes) \<Rightarrow> addr list \<Rightarrow> (pc_state, unit) py" where
  "pc_swap_out sha blocks = for_each blocks (pc_free_block_id sha)"

definition pc_swap_in_block :: "(bytes \<Rightarrow> bytes) \<Rightarrow> addr \<Rightarrow> (pc_state, unit) py" where
  "pc_swap_in_block sha a =
     bind (gets (obj a)) (\<lambda>block.
     bind (if is_full block
           then pc_allocate_immutable_block sha (bl_prev_block block) (bl_token_ids block)
                  (bl_cache_namespace block)
           else bind (pc_allocate_mutable_block sha (bl_prev_block block)
                        (Some (bl_cache_namespace block))) (\<lambda>tmp_block.
                andthen (pb_append_token_ids sha tmp_block (bl_token_ids block)) (return tmp_block)))
       (\<lambda>tmp_block.
     bind (gets (block_id_of tmp_block)) (\<lambda>block_id.
     andthen (free_block tmp_block)
             (set_block_id a block_id))))"

definition pc_swap_in :: "(bytes \<Rightarrow> bytes) \<Rightarrow> addr list \<Rightarrow> (pc_state, unit) py" where
  "pc_swap_in sha blocks = for_each blocks (pc_swap_in_block sha)"

end
