(* ===== verification/PrefixIndex.thy ===== *)
theory PrefixIndex
  imports PrefixCaching
begin

text \<open>
  What the prefix-caching allocator keeps about physical blocks, seen as maps: which blocks are free,
  which are in the evictor, who holds which block, which content is cached where, and which content
  an object holds. \<open>idx_ok\<close> is the invariant that ties them together, and each lemma is one of the
  moves the allocator makes: hand out a free or an evicted block, share a cached one, give a block
  back, and enter a block into the cache.
\<close>

section \<open>The invariant of the maps\<close>

definition idx_ok :: "block_id set \<Rightarrow> block_id set \<Rightarrow> (block_id \<rightharpoonup> block_meta_data) \<Rightarrow> (block_id \<rightharpoonup> int)
    \<Rightarrow> (content_hash \<rightharpoonup> block_id) \<Rightarrow> (block_id \<rightharpoonup> bool) \<Rightarrow> (addr \<rightharpoonup> block_id)
    \<Rightarrow> (addr \<rightharpoonup> content_hash) \<Rightarrow> bool" where
  "idx_ok A F E M C T R H \<longleftrightarrow>
     ids_ok A (F \<union> dom E) M R \<and> F \<inter> dom E = {} \<and>
     dom T = A \<and> (\<forall>b \<in> A. T b = Some (b \<notin> F \<union> dom E)) \<and>
     inj_on C (dom C) \<and> ran C \<subseteq> A - F \<and>
     (\<forall>b m. E b = Some m \<longrightarrow> C (bm_content_hash m) = Some b) \<and>
     (\<forall>a b. R a = Some b \<longrightarrow> (case H a of Some h \<Rightarrow> C h = Some b | None \<Rightarrow> b \<notin> ran C))"

lemma idx_okD:
  assumes "idx_ok A F E M C T R H"
  shows "ids_ok A (F \<union> dom E) M R" "F \<inter> dom E = {}" "dom T = A" "inj_on C (dom C)" "ran C \<subseteq> A - F"
    and "b \<in> A \<Longrightarrow> T b = Some (b \<notin> F \<union> dom E)"
    and "E b = Some m \<Longrightarrow> C (bm_content_hash m) = Some b"
    and "R a = Some b \<Longrightarrow> H a = Some h \<Longrightarrow> C h = Some b"
    and "R a = Some b \<Longrightarrow> H a = None \<Longrightarrow> b \<notin> ran C"
proof -
  have d: "R a = Some b \<longrightarrow> (case H a of Some h \<Rightarrow> C h = Some b | None \<Rightarrow> b \<notin> ran C)"
    using assms unfolding idx_ok_def by blast
  show "R a = Some b \<Longrightarrow> H a = Some h \<Longrightarrow> C h = Some b" "R a = Some b \<Longrightarrow> H a = None \<Longrightarrow> b \<notin> ran C"
    using d by simp_all
qed (use assms in \<open>simp_all add: idx_ok_def\<close>)

lemma idx_okI:
  assumes "ids_ok A (F \<union> dom E) M R" "F \<inter> dom E = {}" "dom T = A"
    and "\<And>b. b \<in> A \<Longrightarrow> T b = Some (b \<notin> F \<union> dom E)" "inj_on C (dom C)" "ran C \<subseteq> A - F"
    and "\<And>b m. E b = Some m \<Longrightarrow> C (bm_content_hash m) = Some b"
    and "\<And>a b. R a = Some b \<Longrightarrow> case H a of Some h \<Rightarrow> C h = Some b | None \<Rightarrow> b \<notin> ran C"
  shows "idx_ok A F E M C T R H"
  using assms unfolding idx_ok_def by blast

text \<open>A content is cached in one place only.\<close>

lemma idx_cached_unique: "idx_ok A F E M C T R H \<Longrightarrow> C h = Some b \<Longrightarrow> C h' = Some b \<Longrightarrow> h' = h"
  using idx_okD(4) unfolding inj_on_def by (metis domI)

text \<open>Every block is free, in the evictor or held, and only one of the three.\<close>

lemma idx_unheld: "idx_ok A F E M C T R H \<Longrightarrow> b \<in> F \<union> dom E \<longleftrightarrow> b \<in> A \<and> b \<notin> ran R"
  by (rule ids_ok_unheld [OF idx_okD(1)])

lemma idx_held:
  assumes "idx_ok A F E M C T R H" "R a = Some b"
  shows "b \<in> A" "M b = Some (rcount R b)" "0 < rcount R b" "b \<notin> F" "E b = None" "T b = Some True"
  using ids_ok_held [OF idx_okD(1) [OF assms(1)] assms(2)] idx_okD(6) [OF assms(1), of b] by auto

lemma idx_free:
  assumes "idx_ok A F E M C T R H" "b \<in> F"
  shows "b \<in> A" "b \<notin> ran R" "M b = Some 0" "rcount R b = 0" "E b = None" "b \<notin> ran C" "T b = Some False"
proof -
  show b: "b \<in> A" "b \<notin> ran R" using idx_unheld [OF assms(1), of b] assms(2) by auto
  show "rcount R b = 0" using assms idx_okD(1) [OF assms(1)] by (auto simp: ids_ok_def)
  then show "M b = Some 0" using ids_ok_count [OF idx_okD(1) [OF assms(1)] b(1)] by simp
  show "E b = None" "b \<notin> ran C" using idx_okD(2,5) [OF assms(1)] assms(2) by auto
  show "T b = Some False" using idx_okD(6) [OF assms(1) b(1)] assms(2) by simp
qed

lemma idx_evictable:
  assumes "idx_ok A F E M C T R H" "E b = Some m"
  shows "b \<in> A" "b \<notin> ran R" "M b = Some 0" "rcount R b = 0" "b \<notin> F" "C (bm_content_hash m) = Some b"
    "T b = Some False"
proof -
  show b: "b \<in> A" "b \<notin> ran R" using idx_unheld [OF assms(1), of b] assms(2) by auto
  have "b \<in> F \<union> dom E" using assms(2) by auto
  then show "rcount R b = 0" using idx_okD(1) [OF assms(1)] unfolding ids_ok_def by blast
  then show "M b = Some 0" using ids_ok_count [OF idx_okD(1) [OF assms(1)] b(1)] by simp
  show "b \<notin> F" using idx_okD(2) [OF assms(1)] assms(2) by auto
  show "C (bm_content_hash m) = Some b" by (rule idx_okD(7) [OF assms])
  show "T b = Some False" using idx_okD(6) [OF assms(1) b(1)] assms(2) by auto
qed

lemma idx_hash_irrelevant:
  "idx_ok A F E M C T R H \<Longrightarrow> (\<And>a b. R a = Some b \<Longrightarrow> H' a = H a) \<Longrightarrow> idx_ok A F E M C T R H'"
  unfolding idx_ok_def by metis

section \<open>The moves\<close>

lemma idx_take_free:
  assumes i: "idx_ok A F E M C T R H" and b: "b \<in> F" and a: "R a = None" and h: "H a = None"
  shows "idx_ok A (F - {b}) E (M(b \<mapsto> 1)) C (T(b \<mapsto> True)) (R(a \<mapsto> b)) H"
proof -
  note f = idx_free [OF i b]
  have "ids_ok A ((F \<union> dom E) - {b}) (M(b \<mapsto> 1)) (R(a \<mapsto> b))"
    using ids_ok_take [OF idx_okD(1) [OF i] f(1) a] f(4) by simp
  moreover have "(F \<union> dom E) - {b} = (F - {b}) \<union> dom E" using f(5) by auto
  ultimately have ids: "ids_ok A ((F - {b}) \<union> dom E) (M(b \<mapsto> 1)) (R(a \<mapsto> b))" by simp
  have t: "dom (T(b \<mapsto> True)) = A" using idx_okD(3) [OF i] f(1) by auto
  have t': "(T(b \<mapsto> True)) c = Some (c \<notin> (F - {b}) \<union> dom E)" if "c \<in> A" for c
    using that idx_okD(6) [OF i that] f(5) by auto
  have r: "case H x of Some g \<Rightarrow> C g = Some c | None \<Rightarrow> c \<notin> ran C" if "(R(a \<mapsto> b)) x = Some c" for x c
    using that h f(6) idx_okD(8,9) [OF i, of x c] by (cases "x = a") (auto split: option.splits)
  show ?thesis
    by (rule idx_okI [OF ids _ t t' idx_okD(4) [OF i]]) (use idx_okD(2,5,7) [OF i] r in auto)
qed

lemma idx_take_evicted:
  assumes i: "idx_ok A F E M C T R H" and b: "E b = Some m" and a: "R a = None" and h: "H a = None"
  shows "idx_ok A F (E(b := None)) (M(b \<mapsto> 1)) (C(bm_content_hash m := None)) (T(b \<mapsto> True))
    (R(a \<mapsto> b)) H"
proof -
  let ?g = "bm_content_hash m" and ?E = "E(b := None)"
  let ?C = "C(?g := None)"
  note e = idx_evictable [OF i b]
  have "ids_ok A ((F \<union> dom E) - {b}) (M(b \<mapsto> 1)) (R(a \<mapsto> b))"
    using ids_ok_take [OF idx_okD(1) [OF i] e(1) a] e(4) by simp
  moreover have "(F \<union> dom E) - {b} = F \<union> dom ?E" using e(5) by auto
  ultimately have ids: "ids_ok A (F \<union> dom ?E) (M(b \<mapsto> 1)) (R(a \<mapsto> b))" by simp
  have t: "dom (T(b \<mapsto> True)) = A" using idx_okD(3) [OF i] e(1) by auto
  have t': "(T(b \<mapsto> True)) c = Some (c \<notin> F \<union> dom ?E)" if "c \<in> A" for c
    using that idx_okD(6) [OF i that] e(5) by auto
  have other: "g \<noteq> ?g \<longleftrightarrow> c \<noteq> b" if "C g = Some c" for g c
    using that e(6) idx_cached_unique [OF i] by auto
  have nb: "b \<notin> ran ?C" using other by (auto simp: ran_def)
  have ran: "ran ?C \<subseteq> A - F" using idx_okD(5) [OF i] by (auto simp: ran_def)
  have inj: "inj_on ?C (dom ?C)" using idx_okD(4) [OF i] by (auto simp: inj_on_def)
  have m: "?C (bm_content_hash n) = Some c" if "?E c = Some n" for c n
    using that idx_okD(7) [OF i, of c n] other by (auto split: if_splits)
  have r: "case H x of Some g \<Rightarrow> ?C g = Some c | None \<Rightarrow> c \<notin> ran ?C" if x: "(R(a \<mapsto> b)) x = Some c" for x c
  proof (cases "x = a")
    case True
    then show ?thesis using x h nb by simp
  next
    case False
    then have x: "R x = Some c" using x by simp
    then have "c \<noteq> b" using e(2) by (auto simp: ran_def)
    then show ?thesis
      using idx_okD(8,9) [OF i x] other by (auto simp: ran_def split: option.splits)
  qed
  show ?thesis
    by (rule idx_okI [OF ids _ t t' inj ran m r]) (use idx_okD(2) [OF i] in auto)
qed

text \<open>An object joins the holders of the block that caches its content.\<close>

lemma idx_share:
  assumes i: "idx_ok A F E M C T R H" and h: "H a = Some h" "C h = Some b" and a: "R a = None"
  shows "idx_ok A F (E(b := None)) (M(b \<mapsto> rcount R b + 1)) C (T(b \<mapsto> True)) (R(a \<mapsto> b)) H"
    and "b \<in> A" "M b = Some (rcount R b)" "rcount R b = 0 \<longleftrightarrow> E b \<noteq> None"
    and "T b = Some (E b = None)"
proof -
  have b: "b \<in> A" "b \<notin> F" using idx_okD(5) [OF i] h(2) by (auto simp: ran_def)
  show "b \<in> A" "M b = Some (rcount R b)" using b ids_ok_count [OF idx_okD(1) [OF i]] by auto
  have z: "rcount R b = 0 \<longleftrightarrow> b \<in> F \<union> dom E" using idx_okD(1) [OF i] b(1) by (auto simp: ids_ok_def)
  then show "rcount R b = 0 \<longleftrightarrow> E b \<noteq> None" using b(2) by auto
  show "T b = Some (E b = None)" using idx_okD(6) [OF i b(1)] b(2) by auto
  have "ids_ok A ((F \<union> dom E) - {b}) (M(b \<mapsto> rcount R b + 1)) (R(a \<mapsto> b))"
    by (rule ids_ok_take [OF idx_okD(1) [OF i] b(1) a])
  moreover have "(F \<union> dom E) - {b} = F \<union> dom (E(b := None))" using b(2) by auto
  ultimately have ids: "ids_ok A (F \<union> dom (E(b := None))) (M(b \<mapsto> rcount R b + 1)) (R(a \<mapsto> b))" by simp
  have t: "dom (T(b \<mapsto> True)) = A" using idx_okD(3) [OF i] b by auto
  have t': "(T(b \<mapsto> True)) c = Some (c \<notin> F \<union> dom (E(b := None)))" if "c \<in> A" for c
    using that idx_okD(6) [OF i that] b(2) by auto
  have m: "C (bm_content_hash n) = Some c" if "(E(b := None)) c = Some n" for c n
    using that idx_okD(7) [OF i, of c n] by (auto split: if_splits)
  have r: "case H x of Some g \<Rightarrow> C g = Some c | None \<Rightarrow> c \<notin> ran C" if "(R(a \<mapsto> b)) x = Some c" for x c
    using that h idx_okD(8,9) [OF i, of x c] by (cases "x = a") (auto split: option.splits)
  have d: "F \<inter> dom (E(b := None)) = {}" using idx_okD(2) [OF i] by auto
  show "idx_ok A F (E(b := None)) (M(b \<mapsto> rcount R b + 1)) C (T(b \<mapsto> True)) (R(a \<mapsto> b)) H"
    by (rule idx_okI [OF ids d t t' idx_okD(4,5) [OF i] m r])
qed

text \<open>A holder gives its block back: the last holder frees it, or leaves it to the evictor.\<close>

lemma idx_drop_shared:
  assumes i: "idx_ok A F E M C T R H" and a: "R a = Some b" and n: "rcount R b \<noteq> 1"
  shows "idx_ok A F E (M(b \<mapsto> rcount R b - 1)) C T (R(a := None)) H"
proof -
  have ids: "ids_ok A (F \<union> dom E) (M(b \<mapsto> rcount R b - 1)) (R(a := None))"
    using ids_ok_drop [OF idx_okD(1) [OF i] a] n by simp
  have r: "case H x of Some g \<Rightarrow> C g = Some c | None \<Rightarrow> c \<notin> ran C" if "(R(a := None)) x = Some c" for x c
    using that idx_okD(8,9) [OF i, of x c] by (cases "x = a") (auto split: option.splits)
  show ?thesis by (rule idx_okI [OF ids idx_okD(2,3,6,4,5,7) [OF i] r])
qed

lemma idx_drop_hashless:
  assumes i: "idx_ok A F E M C T R H" and a: "R a = Some b" "H a = None" and n: "rcount R b = 1"
  shows "idx_ok A (insert b F) E (M(b \<mapsto> 0)) C (T(b \<mapsto> False)) (R(a := None)) H"
proof -
  note held = idx_held [OF i a(1)]
  have "ids_ok A (insert b (F \<union> dom E)) (M(b \<mapsto> 0)) (R(a := None))"
    using ids_ok_drop [OF idx_okD(1) [OF i] a(1)] n by simp
  then have ids: "ids_ok A (insert b F \<union> dom E) (M(b \<mapsto> 0)) (R(a := None))" by simp
  have r: "case H x of Some g \<Rightarrow> C g = Some c | None \<Rightarrow> c \<notin> ran C" if "(R(a := None)) x = Some c" for x c
    using that idx_okD(8,9) [OF i, of x c] by (cases "x = a") (auto split: option.splits)
  have t: "dom (T(b \<mapsto> False)) = A" using idx_okD(3) [OF i] held(1) by auto
  have t': "(T(b \<mapsto> False)) c = Some (c \<notin> insert b F \<union> dom E)" if "c \<in> A" for c
    using that idx_okD(6) [OF i that] by auto
  have d: "insert b F \<inter> dom E = {}" using idx_okD(2) [OF i] held(5) by auto
  have ran: "ran C \<subseteq> A - insert b F" using idx_okD(5) [OF i] idx_okD(9) [OF i a] by auto
  show ?thesis
    by (rule idx_okI [OF ids d t t' idx_okD(4) [OF i] ran idx_okD(7) [OF i] r])
qed

lemma idx_drop_cached:
  assumes i: "idx_ok A F E M C T R H" and a: "R a = Some b" "H a = Some (bm_content_hash m)"
    and n: "rcount R b = 1"
  shows "idx_ok A F (E(b \<mapsto> m)) (M(b \<mapsto> 0)) C (T(b \<mapsto> False)) (R(a := None)) H"
proof -
  note held = idx_held [OF i a(1)]
  have "ids_ok A (insert b (F \<union> dom E)) (M(b \<mapsto> 0)) (R(a := None))"
    using ids_ok_drop [OF idx_okD(1) [OF i] a(1)] n by simp
  then have ids: "ids_ok A (F \<union> dom (E(b \<mapsto> m))) (M(b \<mapsto> 0)) (R(a := None))" by simp
  have r: "case H x of Some g \<Rightarrow> C g = Some c | None \<Rightarrow> c \<notin> ran C" if "(R(a := None)) x = Some c" for x c
    using that idx_okD(8,9) [OF i, of x c] by (cases "x = a") (auto split: option.splits)
  have t: "dom (T(b \<mapsto> False)) = A" using idx_okD(3) [OF i] held(1) by auto
  have t': "(T(b \<mapsto> False)) c = Some (c \<notin> F \<union> dom (E(b \<mapsto> m)))" if "c \<in> A" for c
    using that idx_okD(6) [OF i that] by auto
  have d: "F \<inter> dom (E(b \<mapsto> m)) = {}" using idx_okD(2) [OF i] held(4) by auto
  have e: "C (bm_content_hash n) = Some c" if "(E(b \<mapsto> m)) c = Some n" for c n
    using that idx_okD(7) [OF i, of c n] idx_okD(8) [OF i a] by (auto split: if_splits)
  show ?thesis
    by (rule idx_okI [OF ids d t t' idx_okD(4,5) [OF i] e r])
qed

text \<open>The only holder of an uncached block enters it into the cache.\<close>

lemma idx_enter:
  assumes i: "idx_ok A F E M C T R H" and a: "R a = Some b" "H a = None" and n: "rcount R b = 1"
    and h: "C h = None"
  shows "idx_ok A F E M (C(h \<mapsto> b)) T R (H(a \<mapsto> h))"
proof -
  note held = idx_held [OF i a(1)] and nb = idx_okD(9) [OF i a]
  have only: "x = a" if "R x = Some b" for x using rcount_one [of R, OF a(1)] n that by simp
  have inj: "inj_on (C(h \<mapsto> b)) (dom (C(h \<mapsto> b)))"
    using idx_okD(4) [OF i] nb by (auto simp: inj_on_def ran_def)
  have ran: "ran (C(h \<mapsto> b)) \<subseteq> A - F" using idx_okD(5) [OF i] held h by simp
  have e: "(C(h \<mapsto> b)) (bm_content_hash m) = Some c" if "E c = Some m" for c m
    using idx_okD(7) [OF i that] h by auto
  have r: "case (H(a \<mapsto> h)) x of Some g \<Rightarrow> (C(h \<mapsto> b)) g = Some c | None \<Rightarrow> c \<notin> ran (C(h \<mapsto> b))"
    if x: "R x = Some c" for x c
  proof (cases "x = a")
    case True
    then show ?thesis using x a by simp
  next
    case False
    then have "c \<noteq> b" using only x by auto
    then show ?thesis
      using False h idx_okD(8,9) [OF i x] by (auto split: option.splits)
  qed
  show ?thesis
    by (rule idx_okI [OF idx_okD(1,2,3,6) [OF i] inj ran e r])
qed

lemma idx_fork:
  assumes i: "idx_ok A F E M C T R H" and a: "R a = Some b" and f: "R f = None" "H f = H a"
  shows "idx_ok A F E (M(b \<mapsto> rcount R b + 1)) C T (R(f \<mapsto> b)) H"
proof -
  note held = idx_held [OF i a]
  have "ids_ok A ((F \<union> dom E) - {b}) (M(b \<mapsto> rcount R b + 1)) (R(f \<mapsto> b))"
    by (rule ids_ok_take [OF idx_okD(1) [OF i] held(1) f(1)])
  moreover have "(F \<union> dom E) - {b} = F \<union> dom E" using held(4,5) by auto
  ultimately have ids: "ids_ok A (F \<union> dom E) (M(b \<mapsto> rcount R b + 1)) (R(f \<mapsto> b))" by simp
  have r: "case H x of Some g \<Rightarrow> C g = Some c | None \<Rightarrow> c \<notin> ran C" if "(R(f \<mapsto> b)) x = Some c" for x c
    using that f a idx_okD(8,9) [OF i, of x c] idx_okD(8,9) [OF i, of a c]
    by (cases "x = f") (auto split: option.splits)
  show ?thesis by (rule idx_okI [OF ids idx_okD(2,3,6,4,5,7) [OF i] r])
qed

text \<open>The number of blocks that can still be handed out.\<close>

lemma idx_conservation:
  assumes "idx_ok A F E M C T R H"
  shows "card F + card (dom E) + card (ran R) = card A"
proof -
  have "finite (F \<union> dom E)" using idx_okD(1) [OF assms] by (auto simp: ids_ok_def)
  then have "card (F \<union> dom E) = card F + card (dom E)"
    using idx_okD(2) [OF assms] by (simp add: card_Un_disjoint)
  then show ?thesis using ids_ok_conservation [OF idx_okD(1) [OF assms]] by simp
qed

end
