(* ===== verification/PrefixObjects.thy ===== *)
theory PrefixObjects
  imports PrefixIndex
begin

text \<open>
  The block objects of the prefix-caching allocator: which content an object has, when its hash can be
  computed, and what a change of one object means for the hashes of the others.
\<close>

section \<open>States with the same objects\<close>

definition same_objs :: "'x nv_state_scheme \<Rightarrow> 'y nv_state_scheme \<Rightarrow> bool" where
  "same_objs s t \<longleftrightarrow> nv_heap t = nv_heap s \<and> nv_pool t = nv_pool s \<and>
     nv_pool_size t = nv_pool_size s \<and> nv_pool_free_ids t = nv_pool_free_ids s \<and>
     nv_create_block t = nv_create_block s \<and> nv_block_size t = nv_block_size s"

lemma same_objsD:
  assumes "same_objs s t"
  shows "obj a t = obj a s" "live t = live s" "refmap t = refmap s" "pool_ok t = pool_ok s"
    "contents_ok t = contents_ok s" "nv_heap t = nv_heap s" "nv_block_size t = nv_block_size s"
    "nv_create_block t = nv_create_block s"
proof -
  note e = assms [unfolded same_objs_def]
  show o: "obj a t = obj a s" for a using e by (simp add: obj_def)
  show l: "live t = live s" using e by (simp add: live_def fun_eq_iff)
  show "refmap t = refmap s" by (simp add: refmap_def fun_eq_iff o l)
  show "pool_ok t = pool_ok s" using e by (simp add: pool_ok_def o l)
  show "contents_ok t = contents_ok s" using e by (simp add: contents_ok_def o l)
  show "nv_heap t = nv_heap s" "nv_block_size t = nv_block_size s" "nv_create_block t = nv_create_block s"
    using e by simp_all
qed

lemma same_objs_refl [simp]: "same_objs s s"
  by (simp add: same_objs_def)

lemma same_objs_trans: "same_objs s t \<Longrightarrow> same_objs t u \<Longrightarrow> same_objs s u"
  by (simp add: same_objs_def)

lemma same_objs_upd: "same_objs s t \<Longrightarrow> same_objs (upd_obj a f s) (upd_obj a f t)"
  by (simp add: same_objs_def upd_obj_def)

section \<open>The hash of an object\<close>

definition hashes :: "(bytes \<Rightarrow> bytes) \<Rightarrow> 'x nv_state_scheme \<Rightarrow> addr \<rightharpoonup> content_hash" where
  "hashes sha s a = (if \<exists>h. hash_is sha s a h then Some (THE h. hash_is sha s a h) else None)"

lemma hashes_Some: "hashes sha s a = Some h \<longleftrightarrow> hash_is sha s a h"
proof -
  have "(THE h. hash_is sha s a h) = g" if "hash_is sha s a g" for g
    using that hash_is_det by blast
  then show ?thesis by (auto simp: hashes_def)
qed

lemma hashes_None: "hashes sha s a = None \<longleftrightarrow> (\<forall>h. \<not> hash_is sha s a h)"
  by (simp add: hashes_def)

lemma hashes_eqI: "(\<And>h. hash_is sha t a h \<longleftrightarrow> hash_is sha s b h) \<Longrightarrow> hashes sha t a = hashes sha s b"
proof -
  assume "\<And>h. hash_is sha t a h \<longleftrightarrow> hash_is sha s b h"
  then have "hash_is sha t a = hash_is sha s b" by (simp add: fun_eq_iff)
  then show ?thesis by (simp add: hashes_def)
qed

lemma hash_is_heap: "nv_heap t = nv_heap s \<Longrightarrow> hash_is sha t a = hash_is sha s a"
  by (simp add: hash_is_def fun_eq_iff)

lemma hashes_heap: "nv_heap t = nv_heap s \<Longrightarrow> hashes sha t = hashes sha s"
proof -
  assume "nv_heap t = nv_heap s"
  then have e: "hash_is sha t a = hash_is sha s a" for a by (rule hash_is_heap)
  show ?thesis unfolding hashes_def e ..
qed

definition packable :: "int \<Rightarrow> bool" where
  "packable x \<longleftrightarrow> - (2 ^ 63) \<le> x \<and> x < 2 ^ 63"

lemma pack_qs_packable: "list_all packable xs \<Longrightarrow> \<exists>b. pack_qs xs = Inr b"
  by (induction xs) (auto simp: packable_def pack_q_def)

lemma hash_block_tokens_packable:
  "list_all packable ts \<Longrightarrow> \<exists>m. hash_block_tokens sha (prev = None) prev ts (Some ns) = Inr (sha m)"
  using pack_qs_packable [of ts] by (auto simp: hash_block_tokens_eq)

text \<open>What the hash of an object is computed from.\<close>

definition hash_view :: "block \<Rightarrow> content_hash option \<times> addr option \<times> int list \<times> int \<times> bytes" where
  "hash_view x = (bl_cached_content_hash x, bl_prev_block x, bl_token_ids x, bl_block_size x,
     bl_cache_namespace x)"

lemma hash_view_full: "hash_view x = hash_view y \<Longrightarrow> is_full x = is_full y"
  by (simp add: hash_view_def is_full_def num_empty_slots_def)

lemma hash_path_other:
  "hash_path sha h b x p \<Longrightarrow> (\<And>c. c \<in> set p \<Longrightarrow> hash_view (h' ! c) = hash_view (h ! c)) \<Longrightarrow>
   hash_path sha h' b x p"
proof (induction rule: hash_path.induct)
  case (cached a x)
  then show ?case by (intro hash_path.cached) (simp add: hash_view_def)
next
  case (first a x)
  have "hash_view (h' ! a) = hash_view (h ! a)" using first.prems by simp
  then show ?case using first hash_view_full [of "h' ! a" "h ! a"]
    by (intro hash_path.first) (simp_all add: hash_view_def)
next
  case (follow a q y p x)
  have v: "hash_view (h' ! a) = hash_view (h ! a)" using follow.prems by simp
  have "hash_path sha h' q y p" using follow.IH follow.prems by simp
  then show ?case using v follow.hyps hash_view_full [OF v]
    by (intro hash_path.follow) (simp_all add: hash_view_def)
qed

section \<open>The invariant of the objects\<close>

text \<open>
  A live full object has a hash, and an object that is not full has none and is not computed. The
  chains are closed (\<open>chains_closed\<close>) when no live object without a stored hash follows an object
  that was given back, and tokens are only behind full blocks: allocations reuse objects, so they are
  only sound then.
\<close>

definition obj_ok :: "(bytes \<Rightarrow> bytes) \<Rightarrow> 'x nv_state_scheme \<Rightarrow> addr \<Rightarrow> bool" where
  "obj_ok sha s a \<longleftrightarrow> list_all packable (bl_token_ids (obj a s)) \<and>
     (if is_full (obj a s) then \<exists>h. hash_is sha s a h \<and> is_digest h
      else bl_cached_content_hash (obj a s) = None \<and> \<not> bl_computed (obj a s))"

definition pc_objs :: "(bytes \<Rightarrow> bytes) \<Rightarrow> 'x nv_state_scheme \<Rightarrow> bool" where
  "pc_objs sha s \<longleftrightarrow> pool_ok s \<and> nv_create_block s = PrefixCachingBlock \<and> 0 < nv_block_size s \<and>
     contents_ok s \<and> prevs_ok (nv_heap s) \<and> (\<forall>a. live s a \<longrightarrow> obj_ok sha s a)"

definition chains_closed :: "'x nv_state_scheme \<Rightarrow> bool" where
  "chains_closed s \<longleftrightarrow> (\<forall>a p. live s a \<longrightarrow> bl_cached_content_hash (obj a s) = None \<longrightarrow>
     bl_prev_block (obj a s) = Some p \<longrightarrow>
     live s p \<and> (bl_token_ids (obj a s) \<noteq> [] \<longrightarrow> is_full (obj p s)))"

lemma pc_objsD:
  assumes "pc_objs sha s"
  shows "pool_ok s" "nv_create_block s = PrefixCachingBlock" "0 < nv_block_size s" "contents_ok s"
    "prevs_ok (nv_heap s)" "live s a \<Longrightarrow> obj_ok sha s a" "live s a \<Longrightarrow> a < length (nv_heap s)"
    "live s a \<Longrightarrow> bl_class (obj a s) = PrefixCachingBlock"
  using assms live_length [of s a] by (auto simp: pc_objs_def pool_ok_def live_def)

lemma not_full_no_hash:
  assumes "\<not> is_full (obj a s)" "bl_cached_content_hash (obj a s) = None"
  shows "\<not> hash_is sha s a h"
  using assms by (auto simp: hash_is_def obj_def elim: hash_pathE)

lemma live_hash:
  assumes "pc_objs sha s" "live s a"
  shows "hashes sha s a = None \<longleftrightarrow> \<not> is_full (obj a s)"
    and "hashes sha s a = Some h \<Longrightarrow> is_digest h"
proof -
  have o: "obj_ok sha s a" by (rule pc_objsD(6) [OF assms])
  show "hashes sha s a = None \<longleftrightarrow> \<not> is_full (obj a s)"
    using o not_full_no_hash [of a s sha] by (auto simp: obj_ok_def hashes_None split: if_splits)
  show "is_digest h" if h: "hashes sha s a = Some h"
  proof -
    have i: "hash_is sha s a h" using h by (simp add: hashes_Some)
    then have "is_full (obj a s)" using o not_full_no_hash [of a s sha h] by (auto simp: obj_ok_def)
    then obtain g where "hash_is sha s a g" "is_digest g" using o by (auto simp: obj_ok_def)
    with i show ?thesis using hash_is_det by metis
  qed
qed

lemma same_objs_keep:
  assumes "same_objs s t"
  shows "pc_objs sha t = pc_objs sha s" "chains_closed t = chains_closed s" "hashes sha t = hashes sha s"
proof -
  note e = same_objsD [OF assms]
  have h: "hash_is sha t a = hash_is sha s a" for a by (rule hash_is_heap [OF e(6)])
  show "pc_objs sha t = pc_objs sha s" by (simp add: pc_objs_def obj_ok_def h e)
  show "chains_closed t = chains_closed s" by (simp add: chains_closed_def e)
  show "hashes sha t = hashes sha s" by (rule hashes_heap [OF e(6)])
qed

section \<open>Reading a hash\<close>

lemma kept_obj:
  assumes "hash_kept sha s t" "a < length (nv_heap s)"
  shows "\<exists>c. obj a t = (obj a s)\<lparr>bl_cached_content_hash := c\<rparr> \<and>
    (c = bl_cached_content_hash (obj a s) \<or> (\<exists>y. c = Some y \<and> hash_is sha s a y))"
  using assms unfolding hash_kept_def obj_def by blast

lemma kept_fields:
  assumes "hash_kept sha s t"
  shows "live t = live s" "length (nv_heap t) = length (nv_heap s)" "nv_block_size t = nv_block_size s"
    "nv_create_block t = nv_create_block s" "nv_pool t = nv_pool s" "nv_pool_size t = nv_pool_size s"
    "nv_pool_free_ids t = nv_pool_free_ids s" "nv_refcounts t = nv_refcounts s"
    "nv_free_block_indices t = nv_free_block_indices s" "nv_all_block_indices t = nv_all_block_indices s"
    "nv_state.more t = nv_state.more s"
proof -
  have t: "t = s\<lparr>nv_heap := nv_heap t\<rparr>" "length (nv_heap t) = length (nv_heap s)"
    using assms by (simp_all add: hash_kept_def)
  show "length (nv_heap t) = length (nv_heap s)" by (rule t(2))
  show "nv_block_size t = nv_block_size s" "nv_create_block t = nv_create_block s" "nv_pool t = nv_pool s"
    "nv_refcounts t = nv_refcounts s" "nv_free_block_indices t = nv_free_block_indices s"
    "nv_all_block_indices t = nv_all_block_indices s" "nv_state.more t = nv_state.more s"
    by (subst t(1), simp)+
  show p: "nv_pool_size t = nv_pool_size s" "nv_pool_free_ids t = nv_pool_free_ids s"
    by (subst t(1), simp)+
  show "live t = live s" by (simp add: live_def p fun_eq_iff)
qed

lemma kept_same:
  assumes "hash_kept sha s t" "pc_objs sha s" "live s a"
  shows "hashes sha t a = hashes sha s a" "is_full (obj a t) = is_full (obj a s)"
    "bl_block_id (obj a t) = bl_block_id (obj a s)" "bl_prev_block (obj a t) = bl_prev_block (obj a s)"
    "bl_token_ids (obj a t) = bl_token_ids (obj a s)" "bl_computed (obj a t) = bl_computed (obj a s)"
    "bl_cached_num_tokens_total (obj a t) = bl_cached_num_tokens_total (obj a s)"
    "bl_cached_content_hash (obj a t) = None \<Longrightarrow> bl_cached_content_hash (obj a s) = None"
proof -
  have a: "a < length (nv_heap s)" by (rule pc_objsD(7) [OF assms(2,3)])
  show "hashes sha t a = hashes sha s a"
    by (rule hashes_eqI) (rule hash_kept_iff [OF assms(1) pc_objsD(5) [OF assms(2)] a])
  obtain c where c: "obj a t = (obj a s)\<lparr>bl_cached_content_hash := c\<rparr>"
      "c = bl_cached_content_hash (obj a s) \<or> (\<exists>y. c = Some y \<and> hash_is sha s a y)"
    using kept_obj [OF assms(1) a] by blast
  show "is_full (obj a t) = is_full (obj a s)"
    "bl_block_id (obj a t) = bl_block_id (obj a s)" "bl_prev_block (obj a t) = bl_prev_block (obj a s)"
    "bl_token_ids (obj a t) = bl_token_ids (obj a s)" "bl_computed (obj a t) = bl_computed (obj a s)"
    "bl_cached_num_tokens_total (obj a t) = bl_cached_num_tokens_total (obj a s)"
    using c(1) by (simp_all add: is_full_def num_empty_slots_def)
  show "bl_cached_content_hash (obj a s) = None" if "bl_cached_content_hash (obj a t) = None"
    using c that by auto
qed

lemma kept_pc_objs:
  assumes "hash_kept sha s t" "pc_objs sha s"
  shows "pc_objs sha t" "refmap t = refmap s" "chains_closed s \<Longrightarrow> chains_closed t"
proof -
  note f = kept_fields [OF assms(1)]
  have o: "\<exists>c. obj a t = (obj a s)\<lparr>bl_cached_content_hash := c\<rparr>" if "a < nv_pool_size s" for a
    using kept_obj [OF assms(1), of a] that assms(2) by (auto simp: pc_objs_def pool_ok_def)
  have same: "bl_class (obj a t) = bl_class (obj a s)" "bl_pool_id (obj a t) = bl_pool_id (obj a s)"
    "bl_block_size (obj a t) = bl_block_size (obj a s)" "bl_token_ids (obj a t) = bl_token_ids (obj a s)"
    "bl_block_id (obj a t) = bl_block_id (obj a s)"
    if "a < nv_pool_size s" for a using o [OF that] by auto
  have lt: "a < nv_pool_size s" if "live s a" for a using that by (simp add: live_def)
  have "pool_ok t"
    using pc_objsD(1) [OF assms(2)] same lt unfolding pool_ok_def f by simp
  moreover have "contents_ok t"
    using pc_objsD(4) [OF assms(2)] same lt unfolding contents_ok_def f by simp
  moreover have "prevs_ok (nv_heap t)" using hash_kept_prevs [OF assms(1)] pc_objsD(5) [OF assms(2)] by simp
  moreover have "obj_ok sha t a" if l: "live s a" for a
  proof -
    note k = kept_same [OF assms l] and ok = pc_objsD(6) [OF assms(2) l]
    show ?thesis
    proof (cases "is_full (obj a s)")
      case True
      then obtain h where "hash_is sha s a h" "is_digest h" using ok by (auto simp: obj_ok_def)
      then show ?thesis using True ok k by (auto simp: obj_ok_def hashes_Some [symmetric])
    next
      case False
      then have "hashes sha s a = None" using live_hash(1) [OF assms(2) l] by simp
      then have "\<forall>y. \<not> hash_is sha s a y" by (simp add: hashes_None)
      then have "bl_cached_content_hash (obj a t) = bl_cached_content_hash (obj a s)"
        using kept_obj [OF assms(1) pc_objsD(7) [OF assms(2) l]] by auto
      then show ?thesis using False ok k by (simp add: obj_ok_def)
    qed
  qed
  ultimately show "pc_objs sha t"
    using assms(2) by (simp add: pc_objs_def f)
  show "refmap t = refmap s" using same lt by (auto simp: refmap_def f fun_eq_iff)
  show "chains_closed t" if c: "chains_closed s"
    unfolding chains_closed_def f
  proof (intro allI impI)
    fix a p
    assume l: "live s a" and n: "bl_cached_content_hash (obj a t) = None" "bl_prev_block (obj a t) = Some p"
    then have "live s p \<and> (bl_token_ids (obj a t) \<noteq> [] \<longrightarrow> is_full (obj p s))"
      using c kept_same(4,5,8) [OF assms l] by (auto simp: chains_closed_def)
    then show "live s p \<and> (bl_token_ids (obj a t) \<noteq> [] \<longrightarrow> is_full (obj p t))"
      using kept_same(2) [OF assms] by blast
  qed
qed

lemma content_hash_live:
  assumes "pc_objs sha s" "live s a"
  shows "\<exists>t. content_hash sha a s = (Inr (hashes sha s a), t) \<and> hash_kept sha s t"
proof (cases "hashes sha s a")
  case None
  then have "\<not> is_full (obj a s)" using live_hash(1) [OF assms] by simp
  moreover from this have "bl_cached_content_hash (obj a s) = None"
    using pc_objsD(6) [OF assms] by (simp add: obj_ok_def)
  ultimately show ?thesis
    using content_hash_none [of a s sha] pc_objsD(7) [OF assms] None hash_kept_refl [of sha s] by fastforce
next
  case (Some h)
  then have "hash_is sha s a h" by (simp add: hashes_Some)
  from content_hash_run [OF this pc_objsD(5) [OF assms(1)] pc_objsD(7) [OF assms]] show ?thesis
    unfolding Some .
qed

section \<open>Changing one object\<close>

text \<open>
  In closed chains the hash of a live object is computed from live full objects; so a change of an
  object that is not full, or not live, leaves the hashes of the others alone.
\<close>

lemma path_live_full:
  "hash_path sha (nv_heap s) b x p \<Longrightarrow> pc_objs sha s \<Longrightarrow> chains_closed s \<Longrightarrow> live s b \<Longrightarrow>
   \<forall>c \<in> set p. live s c \<and> is_full (obj c s)"
proof (induction rule: hash_path.induct)
  case (cached a x)
  then have "bl_cached_content_hash (obj a s) = Some x" by (simp add: obj_def)
  moreover have "obj_ok sha s a" using cached by (intro pc_objsD(6))
  ultimately have "is_full (obj a s)" by (auto simp: obj_ok_def split: if_splits)
  then show ?case using cached by simp
next
  case (first a x)
  then show ?case by (simp add: obj_def)
next
  case (follow a q y p x)
  have n: "bl_cached_content_hash (obj a s) = None" "bl_prev_block (obj a s) = Some q"
    using follow.hyps by (simp_all add: obj_def)
  have "live s q" using follow.prems(2,3) n unfolding chains_closed_def by blast
  then have "\<forall>c \<in> set p. live s c \<and> is_full (obj c s)" by (rule follow.IH [OF follow.prems(1,2)])
  moreover have "is_full (obj a s)" using follow.hyps by (simp add: obj_def)
  ultimately show ?case using follow.prems(3) by simp
qed

lemma hashes_keep:
  assumes "pc_objs sha s" "chains_closed s" "live s b" "b \<noteq> a"
    and "\<And>c. live s c \<Longrightarrow> c \<noteq> a \<Longrightarrow> hash_view (obj c t) = hash_view (obj c s)"
    and "\<not> live s a \<or> \<not> is_full (obj a s)"
  shows "hashes sha t b = hashes sha s b"
proof (cases "hashes sha s b")
  case None
  have v: "hash_view (obj b t) = hash_view (obj b s)" using assms(3,4,5) by simp
  have "\<not> is_full (obj b s)" using live_hash(1) [OF assms(1,3)] None by simp
  then have "\<not> is_full (obj b t)" "bl_cached_content_hash (obj b t) = None"
    using pc_objsD(6) [OF assms(1,3)] v hash_view_full [OF v] by (auto simp: obj_ok_def hash_view_def)
  then have "hashes sha t b = None" using not_full_no_hash [of b t sha] by (simp add: hashes_None)
  then show ?thesis using None by simp
next
  case (Some h)
  then obtain p where p: "hash_path sha (nv_heap s) b h p" by (auto simp: hashes_Some hash_is_def)
  have "hash_view (nv_heap t ! c) = hash_view (nv_heap s ! c)" if "c \<in> set p" for c
    using path_live_full [OF p assms(1-3)] that assms(5) [of c] assms(6) by (auto simp: obj_def)
  from hash_path_other [OF p this] have "hash_is sha t b h" by (auto simp: hash_is_def)
  then have "hashes sha t b = Some h" by (simp add: hashes_Some)
  then show ?thesis using Some by simp
qed

text \<open>A full object behind a full one, or at the start, has a hash.\<close>

lemma full_has_hash:
  assumes "is_full (obj a s)" "list_all packable (bl_token_ids (obj a s))" "\<And>m. is_digest (sha m)"
    and "bl_cached_content_hash (obj a s) = None"
    and "\<And>p. bl_prev_block (obj a s) = Some p \<Longrightarrow> hashes sha s p \<noteq> None"
  shows "\<exists>h. hash_is sha s a h \<and> is_digest h"
proof (cases "bl_prev_block (obj a s)")
  case None
  obtain m where "hash_block_tokens sha (None = (None :: bytes option)) None (bl_token_ids (obj a s))
      (Some (bl_cache_namespace (obj a s))) = Inr (sha m)"
    using hash_block_tokens_packable [OF assms(2)] by blast
  then have "hash_is sha s a (sha m)"
    using assms None unfolding hash_is_def obj_def
    by (intro exI [of _ "[a]"] hash_path.first) simp_all
  then show ?thesis using assms(3) by blast
next
  case (Some p)
  then obtain y where "hashes sha s p = Some y" using assms(5) by auto
  then obtain q where q: "hash_path sha (nv_heap s) p y q" by (auto simp: hashes_Some hash_is_def)
  obtain m where "hash_block_tokens sha (Some y = None) (Some y) (bl_token_ids (obj a s))
      (Some (bl_cache_namespace (obj a s))) = Inr (sha m)"
    using hash_block_tokens_packable [OF assms(2)] by blast
  then have "hash_is sha s a (sha m)"
    using assms Some q unfolding hash_is_def obj_def
    by (intro exI [of _ "a # q"] hash_path.follow [of _ _ p]) simp_all
  then show ?thesis using assms(3) by blast
qed

end
