(* ===== verification/PrefixAlloc.thy ===== *)
theory PrefixAlloc
  imports PrefixObjects
begin

text \<open>
  What the operations of the prefix-caching allocator do to its index: handing out, sharing and giving
  back block ids. \<open>pc_core\<close> is the invariant of the index for given holders and contents; while an
  operation is under way these differ from what the objects say.
\<close>

lemma exI2: "P x y \<Longrightarrow> \<exists>x y. P x y"
  by blast

section \<open>Changes beside the objects\<close>

lemma block_id_of_heap: "nv_heap t = nv_heap s \<Longrightarrow> block_id_of a t = block_id_of a s"
  by (simp add: block_id_of_def deref_def obj_def split: block_class.split)

lemma same_objs_beside [simp]:
  "same_objs s (s\<lparr>pc_block_tracker := T\<rparr>)" "same_objs s (s\<lparr>pc_evictor := e\<rparr>)"
  "same_objs s (s\<lparr>pc_cached_blocks := c\<rparr>)" "same_objs s (s\<lparr>pc_touched_blocks := x\<rparr>)"
  "same_objs s (s\<lparr>pc_copy_on_writes := w\<rparr>)" "same_objs s (s\<lparr>pc_metric_data := m\<rparr>)"
  "same_objs s (s\<lparr>nv_refcounts := n\<rparr>)" "same_objs s (s\<lparr>nv_free_block_indices := l\<rparr>)"
  by (simp_all add: same_objs_def)

lemmas beside [simp] =
  same_objsD(1,2,3,4) [OF same_objs_beside(1)] block_id_of_heap [OF same_objsD(6) [OF same_objs_beside(1)]]
  same_objsD(1,2,3,4) [OF same_objs_beside(2)] block_id_of_heap [OF same_objsD(6) [OF same_objs_beside(2)]]
  same_objsD(1,2,3,4) [OF same_objs_beside(3)] block_id_of_heap [OF same_objsD(6) [OF same_objs_beside(3)]]
  same_objsD(1,2,3,4) [OF same_objs_beside(4)] block_id_of_heap [OF same_objsD(6) [OF same_objs_beside(4)]]
  same_objsD(1,2,3,4) [OF same_objs_beside(5)] block_id_of_heap [OF same_objsD(6) [OF same_objs_beside(5)]]
  same_objsD(1,2,3,4) [OF same_objs_beside(6)] block_id_of_heap [OF same_objsD(6) [OF same_objs_beside(6)]]
  same_objsD(1,2,3,4) [OF same_objs_beside(7)] block_id_of_heap [OF same_objsD(6) [OF same_objs_beside(7)]]
  same_objsD(1,2,3,4) [OF same_objs_beside(8)] block_id_of_heap [OF same_objsD(6) [OF same_objs_beside(8)]]

lemma upd_obj_pc_fields [simp]:
  "pc_block_tracker (upd_obj a f s) = pc_block_tracker s" "pc_evictor (upd_obj a f s) = pc_evictor s"
  "pc_cached_blocks (upd_obj a f s) = pc_cached_blocks s"
  "pc_touched_blocks (upd_obj a f s) = pc_touched_blocks s"
  "pc_copy_on_writes (upd_obj a f s) = pc_copy_on_writes s"
  "pc_metric_data (upd_obj a f s) = pc_metric_data s" "pc_cpu_cache (upd_obj a f s) = pc_cpu_cache s"
  by (simp_all add: upd_obj_def)

section \<open>The index\<close>

definition acts :: "pc_state \<Rightarrow> block_id \<rightharpoonup> bool" where
  "acts s b = map_option tr_active (map_of (pc_block_tracker s) b)"

lemma acts_other [simp]:
  "acts (s\<lparr>nv_heap := h\<rparr>) = acts s" "acts (s\<lparr>nv_pool_free_ids := l\<rparr>) = acts s"
  "acts (s\<lparr>nv_refcounts := m\<rparr>) = acts s" "acts (s\<lparr>nv_free_block_indices := l'\<rparr>) = acts s"
  "acts (s\<lparr>pc_metric_data := cm\<rparr>) = acts s" "acts (s\<lparr>pc_evictor := e\<rparr>) = acts s"
  "acts (s\<lparr>pc_cached_blocks := c\<rparr>) = acts s" "acts (s\<lparr>pc_touched_blocks := x\<rparr>) = acts s"
  "acts (s\<lparr>pc_copy_on_writes := w\<rparr>) = acts s"
  by (simp_all add: acts_def fun_eq_iff)

lemma acts_upd_obj [simp]: "acts (upd_obj a f s) = acts s"
  by (simp add: upd_obj_def)

definition pc_core :: "pc_state \<Rightarrow> (addr \<rightharpoonup> block_id) \<Rightarrow> (addr \<rightharpoonup> content_hash) \<Rightarrow> bool" where
  "pc_core s R H \<longleftrightarrow> distinct (nv_all_block_indices s) \<and> distinct (nv_free_block_indices s) \<and>
     ev_inv (pc_evictor s) \<and> pc_cpu_cache s = None \<and>
     idx_ok (set (nv_all_block_indices s)) (set (nv_free_block_indices s)) (ev_meta (pc_evictor s))
       (map_of (nv_refcounts s)) (map_of (pc_cached_blocks s)) (acts s) R H"

definition pc_frame :: "pc_state \<Rightarrow> pc_state \<Rightarrow> bool" where
  "pc_frame s t \<longleftrightarrow> nv_all_block_indices t = nv_all_block_indices s \<and> nv_block_size t = nv_block_size s \<and>
     nv_create_block t = nv_create_block s \<and> pc_metric_data t = pc_metric_data s \<and>
     pc_cpu_cache t = pc_cpu_cache s"

lemma pc_frame_refl [simp]: "pc_frame s s"
  by (simp add: pc_frame_def)

lemma pc_frame_trans: "pc_frame s t \<Longrightarrow> pc_frame t u \<Longrightarrow> pc_frame s u"
  by (simp add: pc_frame_def)

lemma pc_coreD:
  assumes "pc_core s R H"
  shows "distinct (nv_all_block_indices s)" "distinct (nv_free_block_indices s)" "ev_inv (pc_evictor s)"
    "pc_cpu_cache s = None"
    "idx_ok (set (nv_all_block_indices s)) (set (nv_free_block_indices s)) (ev_meta (pc_evictor s))
       (map_of (nv_refcounts s)) (map_of (pc_cached_blocks s)) (acts s) R H"
  using assms by (simp_all add: pc_core_def)

lemma pc_core_hash: "pc_core s R H \<Longrightarrow> (\<And>a b. R a = Some b \<Longrightarrow> H' a = H a) \<Longrightarrow> pc_core s R H'"
  using idx_hash_irrelevant unfolding pc_core_def by metis

lemma pc_core_heap [simp]: "pc_core (s\<lparr>nv_heap := h\<rparr>) R H = pc_core s R H"
  by (simp add: pc_core_def)

lemma pc_core_upd_obj [simp]: "pc_core (upd_obj a f s) R H = pc_core s R H"
  by (simp add: upd_obj_def)

lemma pc_core_pool [simp]: "pc_core (s\<lparr>nv_pool_free_ids := l\<rparr>) R H = pc_core s R H"
  by (simp add: pc_core_def)

lemma pc_core_metric [simp]: "pc_core (s\<lparr>pc_metric_data := m\<rparr>) R H = pc_core s R H"
  by (simp add: pc_core_def)

lemma pc_frame_upds [simp]:
  "pc_frame s (upd_obj a f t) = pc_frame s t" "pc_frame s (t\<lparr>nv_pool_free_ids := l\<rparr>) = pc_frame s t"
  by (simp_all add: pc_frame_def upd_obj_def)

section \<open>Trackers\<close>

lemma on_tracker_run:
  "map_of (pc_block_tracker s) b = Some x \<Longrightarrow> m x = (r, y) \<Longrightarrow>
   on_tracker b m s = (r, s\<lparr>pc_block_tracker := AList.update b y (pc_block_tracker s)\<rparr>)"
  by (simp add: on_tracker_def)

lemma acts_upd: "acts (s\<lparr>pc_block_tracker := AList.update b y (pc_block_tracker s)\<rparr>) =
  (acts s)(b \<mapsto> tr_active y)"
  by (simp add: acts_def fun_eq_iff dict_simps)

definition tracked :: "bool \<Rightarrow> bool \<Rightarrow> block_tracker" where
  "tracked active computed =
     \<lparr>tr_active = active, tr_last_accessed = DEFAULT_LAST_ACCESSED_TIME, tr_computed = computed\<rparr>"

lemma track_run:
  assumes "acts s b = Some False"
  shows "\<exists>T. track_block_id (Some b) c s = (Inr (), s\<lparr>pc_block_tracker := T\<rparr>) \<and>
    map_of T = (map_of (pc_block_tracker s))(b \<mapsto> tracked True c) \<and>
    acts (s\<lparr>pc_block_tracker := T\<rparr>) = (acts s)(b \<mapsto> True)"
proof -
  obtain x where x: "map_of (pc_block_tracker s) b = Some x" "\<not> tr_active x"
    using assms by (auto simp: acts_def)
  let ?d = "pc_block_tracker s" and ?y = "tracked True False"
  let ?T = "AList.update b (tracked True c) (AList.update b ?y ?d)"
  have e: "tr_enable x = (Inr (), ?y)"
    using x(2) by (cases x) (simp add: tr_enable_def tr_reset_def py_defs tracked_def)
  have m: "map_of (AList.update b ?y ?d) b = Some ?y" by (simp add: dict_simps)
  have "track_block_id (Some b) c s = (Inr (), s\<lparr>pc_block_tracker := ?T\<rparr>)"
    using on_tracker_run [where m = tr_enable, OF x(1) e]
      on_tracker_run [of "s\<lparr>pc_block_tracker := AList.update b ?y ?d\<rparr>" b ?y "modify (\<lambda>t. t\<lparr>tr_computed := c\<rparr>)"] m
    by (simp add: track_block_id_def from_option_def andthen_def bind_def return_def modify_def tracked_def)
  moreover have "map_of ?T = (map_of ?d)(b \<mapsto> tracked True c)" by (simp add: dict_simps)
  moreover from this have "acts (s\<lparr>pc_block_tracker := ?T\<rparr>) = (acts s)(b \<mapsto> True)"
    by (simp add: acts_def fun_eq_iff tracked_def)
  ultimately show ?thesis by blast
qed

lemma untrack_run:
  assumes "acts s b = Some True"
  shows "\<exists>T. untrack_block_id (Some b) s = (Inr (), s\<lparr>pc_block_tracker := T\<rparr>) \<and>
    map_of T = (map_of (pc_block_tracker s))(b \<mapsto> tracked False False) \<and>
    acts (s\<lparr>pc_block_tracker := T\<rparr>) = (acts s)(b \<mapsto> False)"
proof -
  obtain x where x: "map_of (pc_block_tracker s) b = Some x" "tr_active x"
    using assms by (auto simp: acts_def)
  let ?T = "AList.update b (tracked False False) (pc_block_tracker s)"
  have e: "tr_disable x = (Inr (), tracked False False)"
    using x(2) by (cases x) (simp add: tr_disable_def tr_reset_def py_defs tracked_def)
  have "untrack_block_id (Some b) s = (Inr (), s\<lparr>pc_block_tracker := ?T\<rparr>)"
    using on_tracker_run [where m = tr_disable, OF x(1) e] by (simp add: untrack_block_id_def from_option_def bind_def return_def)
  moreover have "acts (s\<lparr>pc_block_tracker := ?T\<rparr>) = (acts s)(b \<mapsto> False)"
    by (simp add: acts_upd tracked_def)
  ultimately show ?thesis by (metis update_conv')
qed

section \<open>Giving a block back\<close>

lemma same_objs_id:
  assumes "pool_ok s" "live s a" "same_objs (upd_obj a (\<lambda>x. x\<lparr>bl_block_id := b\<rparr>) s) t"
  shows "pool_ok t" "refmap t = (refmap s)(a := b)" "live t = live s"
    "obj x t = (if x = a then (obj a s)\<lparr>bl_block_id := b\<rparr> else obj x s)"
proof -
  note e = same_objsD [OF assms(3)] and r = set_block_id_run [OF assms(1,2), of b]
  have al: "a < length (nv_heap s)" by (rule live_length [OF assms(1,2)])
  show "pool_ok t" "refmap t = (refmap s)(a := b)" "live t = live s" using e r by simp_all
  show "obj x t = (if x = a then (obj a s)\<lparr>bl_block_id := b\<rparr> else obj x s)" using e(1) al by simp
qed

lemma decr_hashless_run:
  assumes c: "pc_core s R H" and o: "pool_ok s" "live s a" "block_id_of a s = Some b"
    and a: "R a = Some b" "H a = None"
  shows "\<exists>t. decr_refcount_hashless_block a s = (Inr (), t) \<and> pc_core t (R(a := None)) H \<and>
    same_objs (upd_obj a (\<lambda>x. x\<lparr>bl_block_id := None\<rparr>) s) t \<and> pc_frame s t \<and>
    pc_cached_blocks t = pc_cached_blocks s \<and> pc_evictor t = pc_evictor s \<and>
    pc_touched_blocks t = pc_touched_blocks s \<and> pc_copy_on_writes t = pc_copy_on_writes s \<and>
    nv_free_block_indices t =
      (if rcount R b = 1 then b # nv_free_block_indices s else nv_free_block_indices s)"
proof -
  note core = pc_coreD [OF c]
  note held = idx_held [OF core(5) a(1)]
  let ?n = "rcount R b" and ?f = "\<lambda>x. x\<lparr>bl_block_id := None\<rparr>"
  have g: "rc_get b s = (Inr ?n, s)" by (rule rc_get_run [OF held(2)])
  show ?thesis
  proof (cases "?n = 1")
    case True
    obtain T where T: "untrack_block_id (Some b) s = (Inr (), s\<lparr>pc_block_tracker := T\<rparr>)"
        "acts (s\<lparr>pc_block_tracker := T\<rparr>) = (acts s)(b \<mapsto> False)"
      using untrack_run [OF held(6)] by blast
    let ?u = "s\<lparr>pc_block_tracker := T\<rparr>"
    let ?v = "?u\<lparr>nv_refcounts := AList.update b 0 (nv_refcounts s)\<rparr>"
    let ?w = "?v\<lparr>nv_free_block_indices := b # nv_free_block_indices s\<rparr>"
    have u: "block_id_of a ?u = Some b" "map_of (nv_refcounts ?u) b = Some ?n"
      using o(3) held(2) by simp_all
    have d: "rc_decr b ?u = (Inr 0, ?v)" using rc_decr_run [OF u(2)] True by simp
    have w: "pool_ok ?w" "live ?w a"
      using o by simp_all
    let ?t = "upd_obj a ?f ?w"
    have run: "decr_refcount_hashless_block a s = (Inr (), ?t)"
      using o(3) g T(1) u(1) d set_block_id_run(1) [OF w, of None] True
      by (simp add: decr_refcount_hashless_block_def nv_free_def nv_free_block_id_def bind_def gets_def
          from_option_def andthen_def return_def modify_def)
    have "idx_ok (set (nv_all_block_indices s)) (insert b (set (nv_free_block_indices s)))
        (ev_meta (pc_evictor s)) ((map_of (nv_refcounts s))(b \<mapsto> 0)) (map_of (pc_cached_blocks s))
        ((acts s)(b \<mapsto> False)) (R(a := None)) H"
      by (rule idx_drop_hashless [OF core(5) a True])
    then have "pc_core ?t (R(a := None)) H"
      using core held(4) T(2) by (simp add: pc_core_def dict_simps)
    moreover have "same_objs (upd_obj a ?f s) ?t" by (simp add: same_objs_def upd_obj_def)
    ultimately show ?thesis
      using run True by (intro exI [of _ ?t]) (simp add: pc_frame_def upd_obj_def)
  next
    case False
    let ?v = "s\<lparr>nv_refcounts := AList.update b (?n - 1) (nv_refcounts s)\<rparr>"
    have d: "rc_decr b s = (Inr (?n - 1), ?v)" by (rule rc_decr_run [OF held(2,3)])
    have w: "pool_ok ?v" "live ?v a" using o by simp_all
    let ?t = "upd_obj a ?f ?v"
    have run: "decr_refcount_hashless_block a s = (Inr (), ?t)"
      using o(3) g d set_block_id_run(1) [OF w, of None] False
      by (simp add: decr_refcount_hashless_block_def nv_free_def nv_free_block_id_def bind_def gets_def
          from_option_def andthen_def return_def modify_def)
    have "pc_core ?t (R(a := None)) H"
      using core idx_drop_shared [OF core(5) a(1) False] by (simp add: pc_core_def dict_simps)
    moreover have "same_objs (upd_obj a ?f s) ?t" by (simp add: same_objs_def upd_obj_def)
    ultimately show ?thesis
      using run False by (intro exI [of _ ?t]) (simp add: pc_frame_def upd_obj_def)
  qed
qed

lemma kept_pc:
  assumes "hash_kept sha s u"
  shows "pc_frame s u" "pc_core u R H = pc_core s R H" "pc_cached_blocks u = pc_cached_blocks s"
    "pc_evictor u = pc_evictor s" "pc_touched_blocks u = pc_touched_blocks s"
    "pc_copy_on_writes u = pc_copy_on_writes s" "nv_free_block_indices u = nv_free_block_indices s"
    "pc_block_tracker u = pc_block_tracker s" "nv_refcounts u = nv_refcounts s"
proof -
  have u: "u = s\<lparr>nv_heap := nv_heap u\<rparr>" using assms by (simp add: hash_kept_def)
  show "pc_core u R H = pc_core s R H" by (subst u) simp
  show "pc_frame s u" by (subst u) (simp add: pc_frame_def)
  show "pc_cached_blocks u = pc_cached_blocks s" "pc_evictor u = pc_evictor s"
    "pc_touched_blocks u = pc_touched_blocks s" "pc_copy_on_writes u = pc_copy_on_writes s"
    "nv_free_block_indices u = nv_free_block_indices s" "pc_block_tracker u = pc_block_tracker s"
    "nv_refcounts u = nv_refcounts s" by (subst u, simp)+
qed

lemma decr_cached_run:
  assumes c: "pc_core s R H" and o: "pc_objs sha s" "refmap s a = Some b" "hashes sha s a = Some h"
    and a: "R a = Some b" "H a = Some h"
  shows "\<exists>u t. decr_refcount_cached_block sha a s = (Inr (), t) \<and> hash_kept sha s u \<and>
    pc_core t (R(a := None)) H \<and> same_objs (upd_obj a (\<lambda>x. x\<lparr>bl_block_id := None\<rparr>) u) t \<and>
    pc_frame s t \<and> pc_cached_blocks t = pc_cached_blocks s \<and>
    pc_touched_blocks t = pc_touched_blocks s \<and> pc_copy_on_writes t = pc_copy_on_writes s \<and>
    nv_free_block_indices t = nv_free_block_indices s \<and>
    (if rcount R b = 1
     then \<exists>m. bm_content_hash m = h \<and> ev_meta (pc_evictor t) = (ev_meta (pc_evictor s))(b \<mapsto> m)
     else pc_evictor t = pc_evictor s)"
proof -
  note l = refmap_live [OF o(2)]
  obtain u where u: "content_hash sha a s = (Inr (Some h), u)" "hash_kept sha s u"
    using content_hash_live [OF o(1), of a] l o(3) by auto
  note k = kept_pc [OF u(2)] and ko = kept_pc_objs [OF u(2) o(1)]
  have cu: "pc_core u R H" using c k(2) by simp
  note core = pc_coreD [OF cu]
  note held = idx_held [OF core(5) a(1)]
  let ?n = "rcount R b" and ?f = "\<lambda>x. x\<lparr>bl_block_id := None\<rparr>"
  have pu: "pool_ok u" "live u a" using pc_objsD(1) [OF ko(1)] kept_fields(1) [OF u(2)] l by simp_all
  have bu: "block_id_of a u = Some b" using block_id_of_live [OF pu] ko(2) o(2) by simp
  let ?v = "u\<lparr>nv_refcounts := AList.update b (?n - 1) (nv_refcounts u)\<rparr>"
  have d: "rc_decr b u = (Inr (?n - 1), ?v)" by (rule rc_decr_run [OF held(2,3)])
  have head: "decr_refcount_cached_block sha a s =
      (if 0 < ?n - 1 then set_block_id a None
       else andthen (guard AssertionError (?n - 1 = 0))
         (andthen (bind (gets (\<lambda>s. map_of (pc_cached_blocks s) h)) (\<lambda>c. guard AssertionError (c \<noteq> None)))
         (bind (gets (\<lambda>s. bl_cached_num_tokens_total (deref a s))) (\<lambda>num_tokens_total.
          bind (on_tracker b (gets tr_last_accessed)) (\<lambda>last_accessed.
          andthen (on_evictor (ev_add b h num_tokens_total last_accessed))
         (andthen (untrack_block_id (Some b)) (set_block_id a None))))))) ?v"
    using u(1) bu d by (simp add: decr_refcount_cached_block_def bind_def gets_def from_option_def return_def)
  show ?thesis
  proof (cases "?n = 1")
    case True
    have cached: "map_of (pc_cached_blocks u) h = Some b" by (rule idx_okD(8) [OF core(5) a])
    obtain x where x: "map_of (pc_block_tracker u) b = Some x" using held(6) by (auto simp: acts_def)
    let ?v2 = "?v\<lparr>pc_block_tracker := AList.update b x (pc_block_tracker u)\<rparr>"
    let ?nt = "bl_cached_num_tokens_total (deref a ?v)" and ?la = "tr_last_accessed x"
    have tr: "on_tracker b (gets tr_last_accessed) ?v = (Inr ?la, ?v2)"
      using on_tracker_run [where m = "gets tr_last_accessed" and s = ?v, of b x] x by (simp add: gets_def)
    have "is_digest h" by (rule live_hash(2) [OF o(1) _ o(3)]) (use l in simp)
    then obtain e where e: "ev_add b h ?nt ?la (pc_evictor u) = (Inr (), e)" "ev_inv e"
        "ev_meta e = (ev_meta (pc_evictor u))(b \<mapsto> new_block_meta_data h ?nt ?la)"
      using ev.add_run [OF core(3)] by blast
    let ?v3 = "?v2\<lparr>pc_evictor := e\<rparr>"
    have a3: "acts ?v3 = acts u" using x by (auto simp: acts_def fun_eq_iff dict_simps)
    then have "acts ?v3 b = Some True" using held(6) by simp
    from untrack_run [OF this] obtain T where T: "untrack_block_id (Some b) ?v3 = (Inr (), ?v3\<lparr>pc_block_tracker := T\<rparr>)"
        "acts (?v3\<lparr>pc_block_tracker := T\<rparr>) = (acts u)(b \<mapsto> False)" unfolding a3 by blast
    let ?w = "?v3\<lparr>pc_block_tracker := T\<rparr>"
    have w: "pool_ok ?w" "live ?w a" using pu by simp_all
    let ?t = "upd_obj a ?f ?w" and ?m = "new_block_meta_data h ?nt ?la"
    have run: "decr_refcount_cached_block sha a s = (Inr (), ?t)"
      unfolding head using True cached tr e(1) T(1) set_block_id_run(1) [OF w, of None]
      by (simp add: andthen_def bind_def guard_def return_def gets_def on_evictor_def zoom_def)
    have m: "bm_content_hash ?m = h" by (simp add: new_block_meta_data_def)
    have "idx_ok (set (nv_all_block_indices u)) (set (nv_free_block_indices u))
        ((ev_meta (pc_evictor u))(b \<mapsto> ?m)) ((map_of (nv_refcounts u))(b \<mapsto> 0))
        (map_of (pc_cached_blocks u)) ((acts u)(b \<mapsto> False)) (R(a := None)) H"
      by (rule idx_drop_cached [OF core(5) a(1) _ True]) (simp add: m a(2))
    then have "pc_core ?t (R(a := None)) H"
      using core e(2,3) T(2) True by (simp add: pc_core_def dict_simps)
    moreover have "same_objs (upd_obj a ?f u) ?t" by (simp add: same_objs_def upd_obj_def)
    moreover have "pc_frame s ?t" using k(1) by (simp add: pc_frame_def)
    ultimately show ?thesis
      using run True u(2) k e(3) m by (intro exI2 [of _ u ?t] conjI) auto
  next
    case False
    then have p: "0 < ?n - 1" using held(3) by simp
    have w: "pool_ok ?v" "live ?v a" using pu by simp_all
    let ?t = "upd_obj a ?f ?v"
    have run: "decr_refcount_cached_block sha a s = (Inr (), ?t)"
      unfolding head using p set_block_id_run(1) [OF w, of None] by simp
    have "pc_core ?t (R(a := None)) H"
      using core idx_drop_shared [OF core(5) a(1) False] by (simp add: pc_core_def dict_simps)
    moreover have "same_objs (upd_obj a ?f u) ?t" by (simp add: same_objs_def upd_obj_def)
    moreover have "pc_frame s ?t" using k(1) by (simp add: pc_frame_def)
    ultimately show ?thesis
      using run False u(2) k by (intro exI2 [of _ u ?t] conjI) simp_all
  qed
qed

section \<open>Freeing\<close>

text \<open>What an object holds, apart from the block id and the stored hash.\<close>

definition bare :: "block \<Rightarrow> block" where
  "bare x = x\<lparr>bl_block_id := None, bl_cached_content_hash := None\<rparr>"

lemma bareD:
  assumes "bare x = bare y"
  shows "bl_token_ids x = bl_token_ids y" "bl_prev_block x = bl_prev_block y" "is_full x = is_full y"
    "bl_computed x = bl_computed y" "bl_cache_namespace x = bl_cache_namespace y"
    "bl_cached_num_tokens_total x = bl_cached_num_tokens_total y"
  using assms by (cases x, cases y, simp add: bare_def is_full_def num_empty_slots_def)+

lemma bare_upd [simp]: "bare (x\<lparr>bl_block_id := b\<rparr>) = bare x" "bare (x\<lparr>bl_cached_content_hash := c\<rparr>) = bare x"
  by (simp_all add: bare_def)

definition pc_inv :: "(bytes \<Rightarrow> bytes) \<Rightarrow> pc_state \<Rightarrow> bool" where
  "pc_inv sha s \<longleftrightarrow> pc_objs sha s \<and> pc_core s (refmap s) (hashes sha s)"

lemma pc_invD:
  assumes "pc_inv sha s"
  shows "pc_objs sha s" "pc_core s (refmap s) (hashes sha s)" "pool_ok s"
  using assms pc_objsD(1) by (auto simp: pc_inv_def)

lemma hashes_views:
  assumes "\<And>c. hash_view (nv_heap t ! c) = hash_view (nv_heap s ! c)"
  shows "hashes sha t = hashes sha s"
proof
  fix b
  have "hash_is sha t b h \<longleftrightarrow> hash_is sha s b h" for h
    unfolding hash_is_def using hash_path_other assms by metis
  then show "hashes sha t b = hashes sha s b" by (rule hashes_eqI)
qed

lemma set_id_keep:
  assumes "pc_objs sha s" "live s a" "same_objs (upd_obj a (\<lambda>x. x\<lparr>bl_block_id := b\<rparr>) s) t"
  shows "pc_objs sha t" "hashes sha t = hashes sha s" "chains_closed t = chains_closed s"
    "refmap t = (refmap s)(a := b)" "live t = live s" "bare (obj x t) = bare (obj x s)"
proof -
  note p = pc_objsD(1) [OF assms(1)] and i = same_objs_id [OF pc_objsD(1) [OF assms(1)] assms(2,3)]
  let ?u = "upd_obj a (\<lambda>x. x\<lparr>bl_block_id := b\<rparr>) s"
  note e = same_objsD [OF assms(3)]
  have al: "a < length (nv_heap s)" by (rule live_length [OF p assms(2)])
  have v: "hash_view (nv_heap t ! c) = hash_view (nv_heap s ! c)" for c
    using e(6) al by (cases "c = a") (simp_all add: upd_obj_def hash_view_def)
  show h: "hashes sha t = hashes sha s" by (rule hashes_views) (rule v)
  then have hi: "hash_is sha t c y \<longleftrightarrow> hash_is sha s c y" for c y by (simp add: hashes_Some [symmetric])
  have o: "obj c t = (if c = a then (obj a s)\<lparr>bl_block_id := b\<rparr> else obj c s)" for c by (rule i(4))
  have f: "is_full (obj c t) = is_full (obj c s)" for c
    by (simp add: o is_full_def num_empty_slots_def)
  have fl: "bl_token_ids (obj c t) = bl_token_ids (obj c s)" "bl_prev_block (obj c t) = bl_prev_block (obj c s)"
    "bl_cached_content_hash (obj c t) = bl_cached_content_hash (obj c s)"
    "bl_computed (obj c t) = bl_computed (obj c s)" "bl_block_size (obj c t) = bl_block_size (obj c s)" for c
    by (simp_all add: o)
  have "prevs_ok (nv_heap t)"
    using pc_objsD(5) [OF assms(1)] e(6) fl(2) unfolding prevs_ok_def obj_def by simp
  then show "pc_objs sha t"
    using pc_objsD(2,3,4,6) [OF assms(1)] i(1,3) e(7,8)
    unfolding pc_objs_def obj_ok_def contents_ok_def hi f fl by simp
  show "chains_closed t = chains_closed s" by (simp add: chains_closed_def f fl i(3))
  show "refmap t = (refmap s)(a := b)" "live t = live s" by (rule i(2), rule i(3))
  show "bare (obj x t) = bare (obj x s)" by (simp add: o)
qed

lemma kept_bare:
  assumes "hash_kept sha s u" "pc_objs sha s" "live s x"
  shows "bare (obj x u) = bare (obj x s)"
  using kept_obj [OF assms(1) pc_objsD(7) [OF assms(2,3)]] by auto

lemma kept_core:
  assumes "hash_kept sha s u" "pc_inv sha s"
  shows "pc_inv sha u"
proof -
  note i = pc_invD [OF assms(2)]
  have "pc_core u (refmap s) (hashes sha s)" using i(2) kept_pc(2) [OF assms(1)] by simp
  then have "pc_core u (refmap s) (hashes sha u)"
    by (rule pc_core_hash) (use kept_same(1) [OF assms(1) i(1)] refmap_live in blast)
  then show ?thesis using kept_pc_objs [OF assms(1) i(1)] by (simp add: pc_inv_def)
qed

text \<open>A holder gives its block back: \<open>gives_back\<close> says where the block goes.\<close>

definition gives_back :: "(bytes \<Rightarrow> bytes) \<Rightarrow> addr \<Rightarrow> block_id \<Rightarrow> pc_state \<Rightarrow> pc_state \<Rightarrow> bool" where
  "gives_back sha a b s t \<longleftrightarrow> pc_frame s t \<and> pc_cached_blocks t = pc_cached_blocks s \<and>
     pc_touched_blocks t = pc_touched_blocks s \<and> pc_copy_on_writes t = pc_copy_on_writes s \<and>
     refmap t = (refmap s)(a := None) \<and> (\<forall>x. live s x \<longrightarrow> bare (obj x t) = bare (obj x s)) \<and>
     (\<forall>x. live s x \<longrightarrow> hashes sha t x = hashes sha s x) \<and>
     nv_free_block_indices t = (if rcount (refmap s) b = 1 \<and> hashes sha s a = None
       then b # nv_free_block_indices s else nv_free_block_indices s) \<and>
     (if rcount (refmap s) b = 1 \<and> hashes sha s a \<noteq> None
      then \<exists>m. Some (bm_content_hash m) = hashes sha s a \<and>
        ev_meta (pc_evictor t) = (ev_meta (pc_evictor s))(b \<mapsto> m)
      else pc_evictor t = pc_evictor s)"

lemma pc_free_block_id_run:
  assumes "pc_inv sha s" "refmap s a = Some b"
  shows "\<exists>t. pc_free_block_id sha a s = (Inr (), t) \<and> pc_inv sha t \<and> live t = live s \<and>
    (chains_closed s \<longrightarrow> chains_closed t) \<and> gives_back sha a b s t"
proof -
  note i = pc_invD [OF assms(1)] and l = refmap_live [OF assms(2)]
  let ?h = "hashes sha s a"
  have la: "live s a" using l by simp
  obtain u where u: "content_hash sha a s = (Inr ?h, u)" "hash_kept sha s u"
    using content_hash_live [OF i(1) la] by blast
  have iu: "pc_inv sha u" by (rule kept_core [OF u(2) assms(1)])
  note k = kept_pc [OF u(2)] and ko = kept_pc_objs [OF u(2) i(1)] and j = pc_invD [OF iu]
  have ru: "refmap u a = Some b" and lu: "live u = live s" using assms(2) ko(2) kept_fields(1) [OF u(2)] by simp_all
  have hu: "hashes sha u a = ?h" by (rule kept_same(1) [OF u(2) i(1) la])
  have bi: "block_id_of a s = Some b" "block_id_of a u = Some b"
    using block_id_of_live [OF i(3) la] block_id_of_live [OF j(3), of a] lu la assms(2) ru by simp_all
  have done': "pc_free_block_id sha a s = (Inr (), t)"
    if "(if ?h \<noteq> None then decr_refcount_cached_block sha a else decr_refcount_hashless_block a) u = (Inr (), t)"
      "pool_ok t" "live t a" "refmap t a = None" for t
    using that bi(1) u(1) block_id_of_live [OF that(2,3)]
    by (simp add: pc_free_block_id_def pc_free_block_id_by_def bind_def gets_def andthen_def guard_def return_def)
  show ?thesis
  proof (cases ?h)
    case None
    obtain t where t: "decr_refcount_hashless_block a u = (Inr (), t)" "pc_core t ((refmap u)(a := None)) (hashes sha u)"
        "same_objs (upd_obj a (\<lambda>x. x\<lparr>bl_block_id := None\<rparr>) u) t" "pc_frame u t"
        "pc_cached_blocks t = pc_cached_blocks u" "pc_evictor t = pc_evictor u"
        "pc_touched_blocks t = pc_touched_blocks u" "pc_copy_on_writes t = pc_copy_on_writes u"
        "nv_free_block_indices t =
          (if rcount (refmap u) b = 1 then b # nv_free_block_indices u else nv_free_block_indices u)"
      using decr_hashless_run [OF j(2,3) _ bi(2) ru] lu la hu None by auto
    have lua: "live u a" using lu la by simp
    note s' = set_id_keep [OF j(1) lua t(3)]
    have "pc_inv sha t" using s'(1,2,4) t(2) by (simp add: pc_inv_def)
    moreover have "gives_back sha a b s t"
      using t k s' ko(2) None kept_bare [OF u(2) i(1)] kept_same(1) [OF u(2) i(1)] by (auto simp: gives_back_def intro: pc_frame_trans)
    moreover have "pc_free_block_id sha a s = (Inr (), t)"
      by (rule done') (use t(1) None s' lua pc_objsD(1) [OF s'(1)] in simp_all)
    ultimately show ?thesis using s' ko(3) lu by auto
  next
    case (Some h)
    obtain v t where t: "decr_refcount_cached_block sha a u = (Inr (), t)" "hash_kept sha u v"
        "pc_core t ((refmap u)(a := None)) (hashes sha u)" "same_objs (upd_obj a (\<lambda>x. x\<lparr>bl_block_id := None\<rparr>) v) t"
        "pc_frame u t" "pc_cached_blocks t = pc_cached_blocks u"
        "pc_touched_blocks t = pc_touched_blocks u" "pc_copy_on_writes t = pc_copy_on_writes u"
        "nv_free_block_indices t = nv_free_block_indices u"
        "if rcount (refmap u) b = 1
         then \<exists>m. bm_content_hash m = h \<and> ev_meta (pc_evictor t) = (ev_meta (pc_evictor u))(b \<mapsto> m)
         else pc_evictor t = pc_evictor u"
      using decr_cached_run [OF j(2,1) ru _ ru, of h] hu Some by auto
    note kv = kept_pc_objs [OF t(2) j(1)]
    have lv: "live v = live s" "live v a" using kept_fields(1) [OF t(2)] lu la by simp_all
    note s' = set_id_keep [OF kv(1) lv(2) t(4)]
    have "pc_core t (refmap t) (hashes sha t)"
      unfolding s'(2,4) kv(2)
      by (rule pc_core_hash [OF t(3)])
        (use kept_same(1) [OF t(2) j(1)] refmap_live [of u] in \<open>auto split: if_splits\<close>)
    then have "pc_inv sha t" using s'(1) by (simp add: pc_inv_def)
    moreover have "gives_back sha a b s t"
      using t k s' ko(2) kv(2) Some kept_bare [OF u(2) i(1)] kept_bare [OF t(2) j(1)] lu
        kept_same(1) [OF u(2) i(1)] kept_same(1) [OF t(2) j(1)]
      by (auto simp: gives_back_def intro: pc_frame_trans split: if_splits)
    moreover have "pc_free_block_id sha a s = (Inr (), t)"
      by (rule done') (use t(1) Some s' lv pc_objsD(1) [OF s'(1)] in simp_all)
    ultimately show ?thesis using s' ko(3) kv(3) lv by auto
  qed
qed

lemma free_block_keep:
  assumes "pc_objs sha s" "live s a"
  shows "pc_objs sha (s\<lparr>nv_pool_free_ids := a # nv_pool_free_ids s\<rparr>)"
    "hashes sha (s\<lparr>nv_pool_free_ids := a # nv_pool_free_ids s\<rparr>) = hashes sha s"
proof -
  let ?t = "s\<lparr>nv_pool_free_ids := a # nv_pool_free_ids s\<rparr>"
  note f = free_block_run [OF pc_objsD(1) [OF assms(1)] assms(2)]
  have h: "hash_is sha ?t c y = hash_is sha s c y" for c y by (simp add: hash_is_def)
  show "hashes sha ?t = hashes sha s" by (rule hashes_heap) simp
  show "pc_objs sha ?t"
    using assms(1) f(2) unfolding pc_objs_def contents_ok_def obj_ok_def h f(3) by simp
qed

text \<open>Giving back an object that nobody follows keeps the chains closed.\<close>

lemma free_block_closed:
  assumes "pool_ok s" "live s a" "chains_closed s"
    and "\<And>x. live s x \<Longrightarrow> x \<noteq> a \<Longrightarrow> bl_cached_content_hash (obj x s) = None \<Longrightarrow>
      bl_prev_block (obj x s) \<noteq> Some a"
  shows "chains_closed (s\<lparr>nv_pool_free_ids := a # nv_pool_free_ids s\<rparr>)"
  using assms(3,4) unfolding chains_closed_def free_block_run(3) [OF assms(1,2)] by auto

lemma pc_free_run:
  assumes "pc_inv sha s" "refmap s a = Some b"
  shows "\<exists>t. pc_free sha a False s = (Inr (), t) \<and> pc_inv sha t \<and> (\<forall>x. live t x \<longleftrightarrow> live s x \<and> x \<noteq> a) \<and>
    (chains_closed s \<longrightarrow> (\<forall>x. live s x \<longrightarrow> x \<noteq> a \<longrightarrow> bl_prev_block (obj x s) \<noteq> Some a) \<longrightarrow> chains_closed t) \<and>
    gives_back sha a b s t"
proof -
  obtain u where u: "pc_free_block_id sha a s = (Inr (), u)" "pc_inv sha u" "live u = live s"
      "chains_closed s \<longrightarrow> chains_closed u" "gives_back sha a b s u"
    using pc_free_block_id_run [OF assms] by blast
  let ?t = "u\<lparr>nv_pool_free_ids := a # nv_pool_free_ids u\<rparr>"
  note i = pc_invD [OF u(2)]
  have la: "live u a" using u(3) refmap_live [OF assms(2)] by simp
  note f = free_block_run [OF i(3) la] and k = free_block_keep [OF i(1) la]
  have ru: "refmap u a = None" "refmap ?t = refmap u" using u(5) f(4) by (simp_all add: gives_back_def)
  have "pc_inv sha ?t" using i(2) k ru(2) by (simp add: pc_inv_def)
  moreover have "pc_free sha a False s = (Inr (), ?t)"
    using u(1) f(1) by (simp add: pc_free_def andthen_def bind_def)
  moreover have "gives_back sha a b s ?t"
    using u(5) ru(2) hashes_heap [of ?t u sha] by (simp add: gives_back_def)
  moreover have "chains_closed ?t" if c: "chains_closed s"
    and n: "\<forall>x. live s x \<longrightarrow> x \<noteq> a \<longrightarrow> bl_prev_block (obj x s) \<noteq> Some a"
  proof (rule free_block_closed [OF i(3) la])
    show "chains_closed u" using u(4) c by simp
    show "bl_prev_block (obj x u) \<noteq> Some a" if "live u x" "x \<noteq> a" for x
      using n that u(3,5) bareD(2) [of "obj x u" "obj x s"] by (simp add: gives_back_def)
  qed
  ultimately show ?thesis using f(3) u(3) by (intro exI [of _ ?t]) simp
qed

section \<open>Handing out block ids\<close>

text \<open>\<open>objs_kept\<close>: the live objects are the same; the pool may have grown and dead objects changed.\<close>

definition objs_kept :: "pc_state \<Rightarrow> pc_state \<Rightarrow> bool" where
  "objs_kept s t \<longleftrightarrow> pool_ok t \<and> prevs_ok (nv_heap t) \<and> nv_block_size t = nv_block_size s \<and>
     nv_create_block t = nv_create_block s \<and> live t = live s \<and> (\<forall>a. live s a \<longrightarrow> obj a t = obj a s)"

lemma objs_kept_trans: "objs_kept s t \<Longrightarrow> objs_kept t u \<Longrightarrow> objs_kept s u"
  by (simp add: objs_kept_def)

lemma objs_kept_refl: "pc_objs sha s \<Longrightarrow> objs_kept s s"
  using pc_objsD(1,5) by (auto simp: objs_kept_def)

lemma objs_kept_same: "objs_kept s t \<Longrightarrow> same_objs t u \<Longrightarrow> objs_kept s u"
  using same_objsD [of t u] by (simp add: objs_kept_def)

lemma objs_kept_keep:
  assumes "pc_objs sha s" "chains_closed s" "objs_kept s t"
  shows "pc_objs sha t" "chains_closed t" "refmap t = refmap s" "live s a \<Longrightarrow> hashes sha t a = hashes sha s a"
proof -
  note k = assms(3) [unfolded objs_kept_def]
  have h: "hashes sha t b = hashes sha s b" if l: "live s b" for b
  proof (cases "hashes sha s b")
    case None
    then have "\<not> is_full (obj b t)" "bl_cached_content_hash (obj b t) = None"
      using live_hash(1) [OF assms(1) l] pc_objsD(6) [OF assms(1) l] k l by (auto simp: obj_ok_def)
    then have "hashes sha t b = None" using not_full_no_hash [of b t sha] by (simp add: hashes_None)
    then show ?thesis using None by simp
  next
    case (Some h)
    then obtain p where p: "hash_path sha (nv_heap s) b h p" by (auto simp: hashes_Some hash_is_def)
    have "hash_view (nv_heap t ! c) = hash_view (nv_heap s ! c)" if "c \<in> set p" for c
      using path_live_full [OF p assms(1,2) l] that k by (simp add: obj_def)
    from hash_path_other [OF p this] have "hash_is sha t b h" by (auto simp: hash_is_def)
    then have "hashes sha t b = Some h" by (simp add: hashes_Some)
    then show ?thesis using Some by simp
  qed
  then show "live s a \<Longrightarrow> hashes sha t a = hashes sha s a" .
  have hi: "hash_is sha t b y \<longleftrightarrow> hash_is sha s b y" if "live s b" for b y
    using h [OF that] by (simp add: hashes_Some [symmetric])
  have "obj_ok sha t b" if "live s b" for b
    using pc_objsD(6) [OF assms(1) that] that k hi [OF that] by (simp add: obj_ok_def)
  then show "pc_objs sha t"
    using pc_objsD(2,3,4) [OF assms(1)] k by (simp add: pc_objs_def contents_ok_def)
  show "chains_closed t" using assms(2) k unfolding chains_closed_def by metis
  show "refmap t = refmap s" using k by (simp add: refmap_def fun_eq_iff)
qed

text \<open>Making an object keeps every reference inside the store.\<close>

definition prevs_in :: "addr option \<Rightarrow> 'x nv_state_scheme \<Rightarrow> bool" where
  "prevs_in prev s \<longleftrightarrow> prevs_ok (nv_heap s) \<and> (\<forall>p. prev = Some p \<longrightarrow> p < length (nv_heap s))"

lemma prevs_in_upd:
  "prevs_in prev s \<Longrightarrow> bl_prev_block (f (obj a s)) \<in> {prev, bl_prev_block (obj a s)} \<Longrightarrow> prevs_in prev (upd_obj a f s)"
  by (cases "a < length (nv_heap s)")
    (auto simp: prevs_in_def prevs_ok_def upd_obj_def obj_def nth_list_update split: if_splits)

lemma prevs_in_grow:
  assumes "prevs_in prev s"
  shows "prevs_in prev (pool_grow n (s\<lparr>nv_pool_size := k, nv_pool_free_ids := l\<rparr>))"
proof -
  have "bl_prev_block ((nv_heap s @ replicate n (fresh_block c b)) ! x) = Some p \<Longrightarrow>
      x < length (nv_heap s) + n \<Longrightarrow> p < length (nv_heap s) + n" for x p c b
    using assms by (cases "x < length (nv_heap s)")
      (auto simp: nth_append fresh_block_def prevs_in_def prevs_ok_def intro: trans_less_add1)
  then show ?thesis using assms by (auto simp: prevs_in_def prevs_ok_def pool_grow_def)
qed

lemma prevs_in_free_ids [simp]: "prevs_in prev (s\<lparr>nv_pool_free_ids := l\<rparr>) = prevs_in prev s"
  by (simp add: prevs_in_def)

lemma nb_init_prevs:
  "prevs_in prev s \<Longrightarrow> wp (nb_init a prev ts bs b) (\<lambda>_. prevs_in prev) (\<lambda>_. prevs_in prev) s"
  by (auto simp: nb_init_def nb_append_no_cow_def wp_simps intro!: prevs_in_upd)

lemma block_init_prevs:
  assumes "prevs_in prev s"
  shows "wp (block_init a prev ts bs b) (\<lambda>_. prevs_in prev) (\<lambda>_. prevs_in prev) s"
proof -
  have "wp (pb_init a prev ts bs b c ns) (\<lambda>_. prevs_in prev) (\<lambda>_. prevs_in prev) s" for c ns
    using assms unfolding pb_init_def assert_prefix_caching_block_or_none_def wp_simps
    by (auto simp: wp_simps pb_update_num_tokens_total_def Let_def split: option.splits
        intro!: prevs_in_upd wp_mono [OF nb_init_prevs])
  then show ?thesis
    using nb_init_prevs [OF assms] assms
    by (simp add: block_init_def wp_simps split: block_class.split)
qed

lemma init_block_prevs:
  assumes "prevs_in prev s"
  shows "wp (init_block prev ts bs b) (\<lambda>_. prevs_in prev) (\<lambda>_. prevs_in prev) s"
  using assms unfolding init_block_def increase_pool_def
  by (auto simp: wp_simps Let_def intro!: wp_mono [OF block_init_prevs] prevs_in_upd prevs_in_grow)

text \<open>
  \<open>takes_id b s t\<close>: \<open>b\<close> was handed out, the next hashless block or, only when there is none, the block
  that the evictor gave up, whose content is forgotten.
\<close>

definition takes_id :: "block_id \<Rightarrow> pc_state \<Rightarrow> pc_state \<Rightarrow> bool" where
  "takes_id b s t \<longleftrightarrow> pc_frame s t \<and> pc_touched_blocks t = pc_touched_blocks s \<and>
     pc_copy_on_writes t = pc_copy_on_writes s \<and>
     map_of (pc_block_tracker t) = (map_of (pc_block_tracker s))(b \<mapsto> tracked True False) \<and>
     (case nv_free_block_indices s of
        c # rest \<Rightarrow> b = c \<and> nv_free_block_indices t = rest \<and> pc_cached_blocks t = pc_cached_blocks s \<and>
          pc_evictor t = pc_evictor s
      | [] \<Rightarrow> nv_free_block_indices t = [] \<and> (\<exists>m. ev_meta (pc_evictor s) b = Some m \<and>
          ev_evict (pc_evictor s) = (Inr (b, bm_content_hash m), pc_evictor t) \<and>
          ev_meta (pc_evictor t) = (ev_meta (pc_evictor s))(b := None) \<and>
          map_of (pc_cached_blocks t) = (map_of (pc_cached_blocks s))(bm_content_hash m := None)))"

lemma takes_id_cached: "takes_id b s t \<Longrightarrow> map_of (pc_cached_blocks t) \<subseteq>\<^sub>m map_of (pc_cached_blocks s)"
  by (auto simp: takes_id_def map_le_def split: list.splits if_splits)

lemma hashless_run:
  assumes c: "pc_core s R H" and o: "pool_ok s" "prevs_ok (nv_heap s)" "0 < nv_block_size s"
    and f: "nv_free_block_indices s = b # rest" and a: "R a = None"
  shows "\<exists>t. maybe_allocate_hashless_block_id s = (Inr (Some b), t) \<and> objs_kept s t \<and>
    pc_core t (R(a \<mapsto> b)) (H(a := None)) \<and> takes_id b s t"
proof -
  have c': "pc_core s R (H(a := None))" by (rule pc_core_hash [OF c]) (use a in auto)
  note core = pc_coreD [OF c']
  have "b \<in> set (nv_free_block_indices s)" using f by simp
  note fr = idx_free [OF core(5) this] and idx = idx_take_free [OF core(5) this a, simplified]
  let ?s = "s\<lparr>nv_free_block_indices := rest, nv_refcounts := AList.update b 1 (nv_refcounts s)\<rparr>"
  have ab: "nv_allocate_block_id s = (Inr b, ?s)"
    using f rc_incr_run [of "s\<lparr>nv_free_block_indices := rest\<rparr>" b 0] fr(3)
    by (simp add: nv_allocate_block_id_def py_defs)
  have ps: "pool_ok ?s" "prev_ok ?s None" using o(1) by (simp_all add: prev_ok_def)
  obtain x u where u: "init_block None [] (nv_block_size s) (Some b) ?s = (Inr x, u)"
      "initialised ?s None [] (nv_block_size s) (Some b) x u"
    using init_block_run [OF ps(1) _ ps(2), of "[]" "nv_block_size s" "Some b"] o(3) by auto
  note ini = initialised_refmap [OF u(2) ps(1)]
    and pf = pool_frame_fields [OF u(2) [unfolded initialised_def, THEN conjunct2, THEN conjunct1]]
  have pu: "pool_ok u" using u(2) by (simp add: initialised_def)
  have bx: "block_id_of x u = Some b" using block_id_of_live [OF pu ini(2)] ini(1) by simp
  note fb = free_block_run [OF pu ini(2)]
  let ?v = "u\<lparr>nv_pool_free_ids := x # nv_pool_free_ids u\<rparr>"
  have more: "pc_block_tracker ?v = pc_block_tracker s" "pc_cached_blocks ?v = pc_cached_blocks s"
    "pc_evictor ?v = pc_evictor s" "pc_touched_blocks ?v = pc_touched_blocks s"
    "pc_copy_on_writes ?v = pc_copy_on_writes s" "pc_metric_data ?v = pc_metric_data s"
    "pc_cpu_cache ?v = pc_cpu_cache s"
    using pf(7) by (cases u, cases s, simp)+
  have av: "acts ?v = acts s" using more(1) by (simp add: acts_def fun_eq_iff)
  have "acts ?v b = Some False" using av fr(7) by simp
  from track_run [OF this, of False] obtain T where
      T: "track_block_id (Some b) False ?v = (Inr (), ?v\<lparr>pc_block_tracker := T\<rparr>)"
        "map_of T = (map_of (pc_block_tracker s))(b \<mapsto> tracked True False)"
        "acts (?v\<lparr>pc_block_tracker := T\<rparr>) = (acts s)(b \<mapsto> True)" unfolding av more(1) by blast
  let ?t = "?v\<lparr>pc_block_tracker := T\<rparr>"
  have run: "maybe_allocate_hashless_block_id s = (Inr (Some b), ?t)"
    using ab u(1) bx fb(1) T(1)
    by (simp add: maybe_allocate_hashless_block_id_def nv_allocate_mutable_block_def catch_def bind_def
        gets_def andthen_def return_def)
  have pr: "prevs_ok (nv_heap ?t)"
    using init_block_prevs [of None ?s "[]" "nv_block_size s" "Some b"] u(1) o(2)
    by (auto simp: prevs_in_def wp_def)
  have lv: "live ?t = live s"
    using fb(3) u(2) by (auto simp: fun_eq_iff initialised_def)
  have "objs_kept s ?t"
    using fb(2) pr lv pf(1,2) ini(5) by (simp add: objs_kept_def)
  moreover have "pc_core ?t (R(a \<mapsto> b)) (H(a := None))"
    using core idx pf f more T(3) by (simp add: pc_core_def dict_simps)
  moreover have "takes_id b s ?t"
    using pf f more T(2) by (simp add: takes_id_def pc_frame_def)
  ultimately show ?thesis using run by blast
qed

lemma hashless_none:
  "nv_free_block_indices s = [] \<Longrightarrow> maybe_allocate_hashless_block_id s = (Inr None, s)"
  by (simp add: maybe_allocate_hashless_block_id_def catch_def bind_def nv_allocate_mutable_full return_def)

lemma evicted_run:
  assumes c: "pc_core s R H" and f: "nv_free_block_indices s = []" "ev_num_blocks (pc_evictor s) \<noteq> 0"
    and a: "R a = None"
  shows "\<exists>b t. maybe_allocate_evicted_block_id s = (Inr (Some b), t) \<and> same_objs s t \<and>
    pc_core t (R(a \<mapsto> b)) (H(a := None)) \<and> takes_id b s t"
proof -
  have c': "pc_core s R (H(a := None))" by (rule pc_core_hash [OF c]) (use a in auto)
  note core = pc_coreD [OF c']
  have "ev_meta (pc_evictor s) \<noteq> Map.empty" using f(2) ev.num_zero_iff [OF core(3)] by simp
  then obtain b m e where e: "ev_evict (pc_evictor s) = (Inr (b, bm_content_hash m), e)" "ev_inv e"
      "ev_meta (pc_evictor s) b = Some m" "ev_meta e = (ev_meta (pc_evictor s))(b := None)"
    using ev.evict_some [OF core(3)] by blast
  note ev = idx_evictable [OF core(5) e(3)] and idx = idx_take_evicted [OF core(5) e(3) a, simplified]
  let ?h = "bm_content_hash m"
  let ?u = "s\<lparr>pc_evictor := e, pc_cached_blocks := AList.delete ?h (pc_cached_blocks s),
    nv_refcounts := AList.update b 1 (nv_refcounts s)\<rparr>"
  have au: "acts ?u = acts s" by simp
  have "acts ?u b = Some False" using au ev(7) by simp
  from track_run [OF this, of False] obtain T where
      T: "track_block_id (Some b) False ?u = (Inr (), ?u\<lparr>pc_block_tracker := T\<rparr>)"
        "map_of T = (map_of (pc_block_tracker s))(b \<mapsto> tracked True False)"
        "acts (?u\<lparr>pc_block_tracker := T\<rparr>) = (acts s)(b \<mapsto> True)" unfolding au by auto
  let ?t = "?u\<lparr>pc_block_tracker := T\<rparr>"
  have g: "rc_get b (s\<lparr>pc_evictor := e\<rparr>) = (Inr 0, s\<lparr>pc_evictor := e\<rparr>)"
    by (rule rc_get_run) (use ev(3) in simp)
  have i: "rc_incr b (s\<lparr>pc_evictor := e, pc_cached_blocks := AList.delete ?h (pc_cached_blocks s)\<rparr>) = (Inr 1, ?u)"
    using rc_incr_run [of "s\<lparr>pc_evictor := e, pc_cached_blocks := AList.delete ?h (pc_cached_blocks s)\<rparr>" b 0] ev(3)
    by simp
  have run: "maybe_allocate_evicted_block_id s = (Inr (Some b), ?t)"
    using f(2) e(1) ev(6) g i T(1) core(4)
    by (simp add: maybe_allocate_evicted_block_id_def bind_def gets_def andthen_def return_def on_evictor_def
        zoom_def from_option_def guard_def modify_def)
  have "same_objs s ?t" by (simp add: same_objs_def)
  moreover have "pc_core ?t (R(a \<mapsto> b)) (H(a := None))"
    using core idx e(2,4) T(3) by (simp add: pc_core_def dict_simps)
  moreover have "takes_id b s ?t"
    using f e(1,3,4) T(2) by (auto simp: takes_id_def pc_frame_def dict_simps)
  ultimately show ?thesis using run by blast
qed

lemma evicted_none:
  "ev_num_blocks (pc_evictor s) = 0 \<Longrightarrow> maybe_allocate_evicted_block_id s = (Inr None, s)"
  by (simp add: maybe_allocate_evicted_block_id_def bind_def gets_def return_def)

lemma pc_allocate_block_id_run:
  assumes c: "pc_core s R H" and o: "pc_objs sha s" and f: "0 < pc_get_num_free_blocks s" and a: "R a = None"
  shows "\<exists>b t. pc_allocate_block_id s = (Inr b, t) \<and> objs_kept s t \<and>
    pc_core t (R(a \<mapsto> b)) (H(a := None)) \<and> takes_id b s t \<and> b \<notin> ran R"
proof (cases "nv_free_block_indices s")
  case (Cons b rest)
  obtain t where t: "maybe_allocate_hashless_block_id s = (Inr (Some b), t)" "objs_kept s t"
      "pc_core t (R(a \<mapsto> b)) (H(a := None))" "takes_id b s t"
    using hashless_run [OF c pc_objsD(1,5,3) [OF o] Cons a] by blast
  have "b \<notin> ran R" using idx_free(2) [OF pc_coreD(5) [OF c], of b] Cons by simp
  then show ?thesis using t by (simp add: pc_allocate_block_id_def bind_def return_def)
next
  case Nil
  then have n: "ev_num_blocks (pc_evictor s) \<noteq> 0"
    using f by (simp add: pc_get_num_free_blocks_def nv_get_num_free_blocks_def)
  obtain b t where t: "maybe_allocate_evicted_block_id s = (Inr (Some b), t)" "same_objs s t"
      "pc_core t (R(a \<mapsto> b)) (H(a := None))" "takes_id b s t"
    using evicted_run [OF c Nil n a] by blast
  obtain m where "ev_meta (pc_evictor s) b = Some m" using t(4) Nil by (auto simp: takes_id_def)
  then have "b \<notin> ran R" by (rule idx_evictable(2) [OF pc_coreD(5) [OF c]])
  moreover have "objs_kept s t" by (rule objs_kept_same [OF objs_kept_refl [OF o] t(2)])
  ultimately show ?thesis
    using t hashless_none [OF Nil] by (simp add: pc_allocate_block_id_def bind_def return_def)
qed

lemma pc_allocate_block_id_full:
  "pc_get_num_free_blocks s = 0 \<Longrightarrow> pc_allocate_block_id s = (Inl NoFreeBlocksError, s)"
  by (simp add: pc_allocate_block_id_def bind_def hashless_none evicted_none raise_def
      pc_get_num_free_blocks_def nv_get_num_free_blocks_def)

end
