(* ===== verification/PrefixOps.thy ===== *)
theory PrefixOps
  imports PrefixAlloc
begin

text \<open>
  The operations of the prefix-caching allocator on block objects: making, filling, promoting and
  sharing them, and the invariant \<open>pc_inv\<close> that they keep.
\<close>

section \<open>Making an object\<close>

lemma pool_frame_pc:
  assumes "pool_frame s (t :: pc_state)"
  shows "pc_frame s t" "pc_core t R H = pc_core s R H" "pc_cached_blocks t = pc_cached_blocks s"
    "pc_evictor t = pc_evictor s" "pc_touched_blocks t = pc_touched_blocks s"
    "pc_copy_on_writes t = pc_copy_on_writes s" "nv_free_block_indices t = nv_free_block_indices s"
    "pc_block_tracker t = pc_block_tracker s" "pc_metric_data t = pc_metric_data s"
proof -
  note f = pool_frame_fields [OF assms]
  show m: "pc_cached_blocks t = pc_cached_blocks s" "pc_evictor t = pc_evictor s"
    "pc_touched_blocks t = pc_touched_blocks s" "pc_copy_on_writes t = pc_copy_on_writes s"
    "pc_block_tracker t = pc_block_tracker s" "pc_metric_data t = pc_metric_data s"
    using f(7) by (cases t, cases s, simp)+
  have c: "pc_cpu_cache t = pc_cpu_cache s" using f(7) by (cases t, cases s, simp)
  show "nv_free_block_indices t = nv_free_block_indices s" by (rule f(3))
  show "pc_frame s t" using f m c by (simp add: pc_frame_def)
  have "acts t = acts s" using m(5) by (simp add: acts_def fun_eq_iff)
  then show "pc_core t R H = pc_core s R H" using f m c by (simp add: pc_core_def)
qed

definition namespace_of :: "addr option \<Rightarrow> bytes option \<Rightarrow> pc_state \<Rightarrow> bytes" where
  "namespace_of prev ns s = (let own = (case ns of None \<Rightarrow> [] | Some n \<Rightarrow> n)
     in case prev of Some p \<Rightarrow> if own = [] then bl_cache_namespace (obj p s) else own | None \<Rightarrow> own)"

text \<open>What the content of a full block with these tokens behind \<open>prev\<close> hashes to.\<close>

definition prefix_hash :: "(bytes \<Rightarrow> bytes) \<Rightarrow> pc_state \<Rightarrow> addr option \<Rightarrow> int list \<Rightarrow> bytes \<Rightarrow> exn + content_hash" where
  "prefix_hash sha s prev ts ns =
     (let ph = (case prev of None \<Rightarrow> None | Some p \<Rightarrow> hashes sha s p)
      in hash_block_tokens sha (prev = None) ph ts (Some ns))"

lemma full_hash:
  assumes "bl_cached_content_hash (obj a s) = None" "is_full (obj a s)"
    and "\<And>p. bl_prev_block (obj a s) = Some p \<Longrightarrow> hashes sha s p \<noteq> None"
  shows "hashes sha s a = Some h \<longleftrightarrow> prefix_hash sha s (bl_prev_block (obj a s))
    (bl_token_ids (obj a s)) (bl_cache_namespace (obj a s)) = Inr h"
proof -
  note step = hash_path.simps [of sha "nv_heap s" a h]
  show ?thesis
  proof (cases "bl_prev_block (obj a s)")
    case None
    have "hash_is sha s a h \<longleftrightarrow> hash_block_tokens sha True None (bl_token_ids (obj a s))
        (Some (bl_cache_namespace (obj a s))) = Inr h"
      unfolding hash_is_def step using assms(1,2) None by (simp add: obj_def)
    then show ?thesis using None by (simp add: hashes_Some prefix_hash_def)
  next
    case (Some p)
    obtain y where y: "hashes sha s p = Some y" using assms(3) [OF Some] by auto
    then obtain q where q: "hash_path sha (nv_heap s) p y q" by (auto simp: hashes_Some hash_is_def)
    have only: "y' = y" if "hash_path sha (nv_heap s) p y' q'" for y' q'
      using hash_path_det [OF that q] by simp
    have "hash_is sha s a h \<longleftrightarrow> (\<exists>y' q'. hash_path sha (nv_heap s) p y' q' \<and>
        hash_block_tokens sha False (Some y') (bl_token_ids (obj a s))
          (Some (bl_cache_namespace (obj a s))) = Inr h)"
      unfolding hash_is_def step using assms(1,2) Some by (simp add: obj_def)
    also have "\<dots> \<longleftrightarrow> hash_block_tokens sha False (Some y) (bl_token_ids (obj a s))
        (Some (bl_cache_namespace (obj a s))) = Inr h"
      using q only by blast
    finally have "hash_is sha s a h \<longleftrightarrow> hash_block_tokens sha False (Some y) (bl_token_ids (obj a s))
        (Some (bl_cache_namespace (obj a s))) = Inr h" .
    then show ?thesis unfolding hashes_Some [of sha s a] prefix_hash_def Some option.case y Let_def by simp
  qed
qed

lemma obj_ok_hashes:
  "obj_ok sha s a \<longleftrightarrow> list_all packable (bl_token_ids (obj a s)) \<and>
     (if is_full (obj a s) then \<exists>h. hashes sha s a = Some h \<and> is_digest h
      else bl_cached_content_hash (obj a s) = None \<and> \<not> bl_computed (obj a s))"
  by (simp add: obj_ok_def hashes_Some)

lemma full_tokens:
  "contents_ok s \<Longrightarrow> live s a \<Longrightarrow> is_full (obj a s) \<longleftrightarrow> int (length (bl_token_ids (obj a s))) = nv_block_size s"
  by (auto simp: contents_ok_def is_full_def num_empty_slots_def)

lemma pc_init_run:
  assumes o: "pc_objs sha s" "chains_closed s" and p: "prev_ok s prev"
    and ts: "int (length ts) \<le> nv_block_size s" "list_all packable ts"
    and full: "\<And>p. prev = Some p \<Longrightarrow> ts \<noteq> [] \<Longrightarrow> is_full (obj p s)" and dig: "\<And>m. is_digest (sha m)"
  shows "\<exists>a t. pc_init_block prev ts bid ns s = (Inr a, t) \<and> pool_frame s t \<and> pc_objs sha t \<and>
    chains_closed t \<and> \<not> live s a \<and> (\<forall>x. live t x \<longleftrightarrow> live s x \<or> x = a) \<and> (\<forall>x. live s x \<longrightarrow> obj x t = obj x s) \<and>
    (\<forall>x. live s x \<longrightarrow> hashes sha t x = hashes sha s x) \<and> refmap t = (refmap s)(a := bid) \<and>
    bl_prev_block (obj a t) = prev \<and> bl_token_ids (obj a t) = ts \<and> \<not> bl_computed (obj a t) \<and>
    bl_cached_content_hash (obj a t) = None \<and> bl_cache_namespace (obj a t) = namespace_of prev ns s"
proof -
  let ?bs = "nv_block_size s"
  obtain a u where u: "init_block prev ts ?bs bid s = (Inr a, u)" "initialised s prev ts ?bs bid a u"
    using init_block_run [OF pc_objsD(1) [OF o(1)] ts(1) p] by blast
  note ini = initialised_refmap [OF u(2) pc_objsD(1) [OF o(1)]] and u' = u(2) [unfolded initialised_def]
  have cl: "nv_create_block s = PrefixCachingBlock" by (rule pc_objsD(2) [OF o(1)])
  let ?ns = "namespace_of prev ns s"
  let ?f = "\<lambda>x. x\<lparr>bl_cache_namespace := ?ns\<rparr>"
  let ?t = "upd_obj a ?f u"
  have prev_same: "obj p u = obj p s" "live s p" "p \<noteq> a" if "prev = Some p" for p
    using p that ini(5) u' by (auto simp: prev_ok_def)
  have al: "a < length (nv_heap u)" using ini(3) u' by (simp add: pool_ok_def)
  have x: "bl_prev_block (obj a u) = prev" "bl_token_ids (obj a u) = ts" "bl_block_size (obj a u) = ?bs"
      "\<not> bl_computed (obj a u)" "bl_cached_content_hash (obj a u) = None"
    using u' cl by (simp_all add: inited_def)
  have n: "namespace_of prev ns u = ?ns" using prev_same(1) by (simp add: namespace_of_def split: option.split)
  have run: "pc_init_block prev ts bid ns s = (Inr a, ?t)"
    using u(1) x(5) n by (simp add: pc_init_block_def bind_def gets_def andthen_def guard_def return_def
        modify_def namespace_of_def Let_def)
  have oa: "obj a ?t = (obj a u)\<lparr>bl_cache_namespace := ?ns\<rparr>" using al by simp
  have ox: "obj y ?t = obj y s" if "live s y" for y using ini(5) [OF that] u' that by (cases "y = a") auto
  have pf: "pool_frame s ?t" using u' by (cases u) (auto simp: pool_frame_def upd_obj_def)
  note nf = pool_frame_fields [OF pf]
  have lv: "live ?t y \<longleftrightarrow> live s y \<or> y = a" for y using u' by simp
  have na: "\<not> live s a" using u' by simp
  have pt: "pool_ok ?t" "refmap ?t = (refmap s)(a := bid)"
    using upd_keeps [of ?f a u] al u' ini(1) by simp_all
  have h: "hashes sha ?t y = hashes sha s y" if l: "live s y" for y
    by (rule hashes_keep [OF o l, of a]) (use na l in \<open>auto simp del: obj_upd simp: ox\<close>)
  have fa: "is_full (obj a ?t) \<longleftrightarrow> int (length ts) = ?bs"
    using oa x(2,3) by (auto simp: is_full_def num_empty_slots_def)
  have prevh: "hashes sha ?t p \<noteq> None" if "bl_prev_block (obj a ?t) = Some p" "ts \<noteq> []" for p
    using that oa x(1) h full live_hash(1) [OF o(1)] prev_same by auto
  have ne: "ts \<noteq> []" if "is_full (obj a ?t)" using that fa pc_objsD(3) [OF o(1)] by auto
  have oka: "obj_ok sha ?t a"
  proof (cases "is_full (obj a ?t)")
    case True
    have "\<exists>h. hash_is sha ?t a h \<and> is_digest h"
      by (rule full_has_hash [OF True]) (use dig oa x ts prevh ne [OF True] in auto)
    then show ?thesis using True oa x(2) ts(2) by (simp add: obj_ok_def)
  next
    case False
    then show ?thesis using oa x ts(2) by (simp add: obj_ok_def)
  qed
  have okx: "obj_ok sha ?t y" if l: "live s y" for y
    using pc_objsD(6) [OF o(1) l] unfolding obj_ok_hashes ox [OF l] h [OF l] .
  have "contents_ok ?t"
    using pc_objsD(4) [OF o(1)] ox lv oa x ts(1) nf(2) unfolding contents_ok_def by auto
  moreover have "prevs_ok (nv_heap ?t)"
  proof -
    have "prevs_in prev s" using pc_objsD(5,7) [OF o(1)] prev_same(2) by (auto simp: prevs_in_def)
    then have "prevs_in prev u"
      using init_block_prevs [of prev s ts ?bs bid] u(1) by (simp add: wp_def)
    then have "prevs_in prev ?t" by (rule prevs_in_upd) simp
    then show ?thesis by (simp add: prevs_in_def)
  qed
  moreover have "obj_ok sha ?t y" if "live ?t y" for y using oka okx lv that by auto
  ultimately have "pc_objs sha ?t"
    using pt(1) nf(1,2) cl pc_objsD(3) [OF o(1)] by (simp add: pc_objs_def)
  moreover have "chains_closed ?t"
    unfolding chains_closed_def
  proof (intro allI impI)
    fix y q
    assume y: "live ?t y" "bl_cached_content_hash (obj y ?t) = None" "bl_prev_block (obj y ?t) = Some q"
    show "live ?t q \<and> (bl_token_ids (obj y ?t) \<noteq> [] \<longrightarrow> is_full (obj q ?t))"
    proof (cases "y = a")
      case True
      then show ?thesis using y oa x(1,2) prev_same full ox lv by auto
    next
      case False
      then have l: "live s y" using y(1) lv by simp
      then show ?thesis using y o(2) ox lv unfolding chains_closed_def by metis
    qed
  qed
  ultimately show ?thesis
    using run pf na lv ox h pt(2) oa x
    by (intro exI2 [of _ a ?t]) simp
qed

section \<open>Allocating a mutable block\<close>

lemma pc_core_unheld: "pc_core s R H \<Longrightarrow> \<exists>a. R a = None"
  using ex_new_if_finite [of "dom R"] idx_okD(1) [OF pc_coreD(5)] by (force simp: ids_ok_def)

lemma pc_take_id:
  assumes "pc_core s R H" "pc_objs sha s" "0 < pc_get_num_free_blocks s"
  shows "\<exists>b t. pc_allocate_block_id s = (Inr b, t) \<and> objs_kept s t \<and> takes_id b s t \<and> b \<notin> ran R \<and>
    (\<forall>a. R a = None \<longrightarrow> pc_core t (R(a \<mapsto> b)) (H(a := None)))"
proof -
  obtain a where a: "R a = None" using pc_core_unheld [OF assms(1)] by blast
  obtain b t where t: "pc_allocate_block_id s = (Inr b, t)" "objs_kept s t" "takes_id b s t" "b \<notin> ran R"
    using pc_allocate_block_id_run [OF assms a] by blast
  have "pc_core t (R(c \<mapsto> b)) (H(c := None))" if c: "R c = None" for c
    using pc_allocate_block_id_run [OF assms c] t(1) by auto
  then show ?thesis using t by blast
qed

text \<open>\<open>made\<close>: the object \<open>a\<close> is new, the other live objects hold what they held.\<close>

definition made :: "(bytes \<Rightarrow> bytes) \<Rightarrow> addr \<Rightarrow> addr option \<Rightarrow> int list \<Rightarrow> bytes \<Rightarrow> pc_state \<Rightarrow> pc_state \<Rightarrow> bool" where
  "made sha a prev ts ns s t \<longleftrightarrow> \<not> live s a \<and> (\<forall>x. live t x \<longleftrightarrow> live s x \<or> x = a) \<and>
     (\<forall>x. live s x \<longrightarrow> bare (obj x t) = bare (obj x s) \<and> hashes sha t x = hashes sha s x) \<and>
     bl_prev_block (obj a t) = prev \<and> bl_token_ids (obj a t) = ts \<and> bl_cache_namespace (obj a t) = ns"

lemma takes_id_pool: "takes_id b s t \<Longrightarrow> pool_frame t u \<Longrightarrow> takes_id b s u"
  using pool_frame_pc [of t u] by (auto simp: takes_id_def intro: pc_frame_trans split: list.splits)

lemma namespace_of_kept: "objs_kept s t \<Longrightarrow> prev_ok s prev \<Longrightarrow> namespace_of prev ns t = namespace_of prev ns s"
  by (auto simp: namespace_of_def objs_kept_def prev_ok_def split: option.splits)

lemma assert_prev_run:
  assumes "pc_objs sha s" "prev_ok s prev"
  shows "assert_prefix_caching_block_or_none prev s = (Inr (), s)"
  using assms(2) pc_objsD(8) [OF assms(1)]
  by (auto simp: assert_prefix_caching_block_or_none_def prev_ok_def py_defs split: option.split)

lemma pc_allocate_mutable_run:
  assumes i: "pc_inv sha s" "chains_closed s" and p: "prev_ok s prev"
    and f: "0 < pc_get_num_free_blocks s" and dig: "\<And>m. is_digest (sha m)"
  shows "\<exists>a b t. pc_allocate_mutable_block sha prev ns s = (Inr a, t) \<and> pc_inv sha t \<and> chains_closed t \<and>
    made sha a prev [] (namespace_of prev ns s) s t \<and> refmap t = (refmap s)(a \<mapsto> b) \<and>
    b \<notin> ran (refmap s) \<and> takes_id b s t"
proof -
  note j = pc_invD [OF i(1)]
  obtain b u where u: "pc_allocate_block_id s = (Inr b, u)" "objs_kept s u" "takes_id b s u" "b \<notin> ran (refmap s)"
      "\<forall>a. refmap s a = None \<longrightarrow> pc_core u ((refmap s)(a \<mapsto> b)) ((hashes sha s)(a := None))"
    using pc_take_id [OF j(2,1) f] by blast
  note k = objs_kept_keep [OF j(1) i(2) u(2)] and k' = u(2) [unfolded objs_kept_def]
  have pu: "prev_ok u prev" using p k' by (simp add: prev_ok_def split: option.splits)
  obtain a t where t: "pc_init_block prev [] (Some b) ns u = (Inr a, t)" "pool_frame u t" "pc_objs sha t"
      "chains_closed t" "\<not> live u a" "\<forall>x. live t x \<longleftrightarrow> live u x \<or> x = a" "\<forall>x. live u x \<longrightarrow> obj x t = obj x u"
      "\<forall>x. live u x \<longrightarrow> hashes sha t x = hashes sha u x" "refmap t = (refmap u)(a \<mapsto> b)"
      "bl_prev_block (obj a t) = prev" "bl_token_ids (obj a t) = []" "\<not> bl_computed (obj a t)"
      "bl_cached_content_hash (obj a t) = None" "bl_cache_namespace (obj a t) = namespace_of prev ns u"
    using pc_init_run [OF k(1,2) pu _ _ _ dig, of "[]" "Some b" ns] k' pc_objsD(3) [OF j(1)]
    by auto
  have na: "refmap s a = None" using t(5) k' by (simp add: refmap_def)
  have lt: "live t a" using t(6) by simp
  have nf: "\<not> is_full (obj a t)"
    using full_tokens [OF pc_objsD(4) [OF t(3)] lt] t(11) pc_objsD(3) [OF t(3)] by simp
  have ha: "hashes sha t a = None" using live_hash(1) [OF t(3) lt] nf by simp
  have "pc_core t ((refmap s)(a \<mapsto> b)) ((hashes sha s)(a := None))"
    using u(5) na pool_frame_pc(2) [OF t(2)] by simp
  then have "pc_core t (refmap t) (hashes sha t)"
    unfolding t(9) k(3)
    by (rule pc_core_hash) (use ha t(8) k' k(4) refmap_live [of s] in \<open>auto split: if_splits\<close>)
  then have "pc_inv sha t" using t(3) by (simp add: pc_inv_def)
  moreover have "made sha a prev [] (namespace_of prev ns s) s t"
    using t(5-8,10,11,14) k' k(4) namespace_of_kept [OF u(2) p] by (simp add: made_def)
  moreover have "pc_allocate_mutable_block sha prev ns s = (Inr a, t)"
    using assert_prev_run [OF j(1) p] u(1) t(1,12)
      content_hash_none [OF t(13) nf, of sha] pc_objsD(7) [OF t(3) lt]
    by (cases "nv_heap t") (simp_all add: pc_allocate_mutable_block_def andthen_def bind_def gets_def guard_def return_def)
  moreover have "refmap t = (refmap s)(a \<mapsto> b)" using t(9) k(3) by simp
  ultimately show ?thesis using t(4) u(4) takes_id_pool [OF u(3) t(2)] by blast
qed

lemma pc_allocate_mutable_full:
  assumes "pc_inv sha s" "prev_ok s prev" "pc_get_num_free_blocks s = 0"
  shows "pc_allocate_mutable_block sha prev ns s = (Inl NoFreeBlocksError, s)"
  using assert_prev_run [OF pc_invD(1) [OF assms(1)] assms(2)] pc_allocate_block_id_full [OF assms(3)]
  by (simp add: pc_allocate_mutable_block_def andthen_def bind_def)

section \<open>Changing an object in place\<close>

lemma upd_view_keep:
  assumes o: "pc_objs sha s" and a: "live s a"
    and f: "\<And>x. hash_view (f x) = hash_view x" "\<And>x. bl_class (f x) = bl_class x"
      "\<And>x. bl_pool_id (f x) = bl_pool_id x" "\<And>x. bl_block_id (f x) = bl_block_id x"
    and c: "bl_computed (f (obj a s)) \<Longrightarrow> is_full (obj a s) \<or> bl_computed (obj a s)"
  shows "pc_objs sha (upd_obj a f s)" "hashes sha (upd_obj a f s) = hashes sha s"
    "chains_closed (upd_obj a f s) = chains_closed s" "refmap (upd_obj a f s) = refmap s"
proof -
  let ?t = "upd_obj a f s"
  have al: "a < length (nv_heap s)" by (rule pc_objsD(7) [OF o a])
  have v: "hash_view (obj x ?t) = hash_view (obj x s)" for x using al f(1) by (cases "x = a") simp_all
  show h: "hashes sha ?t = hashes sha s" by (rule hashes_views) (use v in \<open>simp add: obj_def\<close>)
  have full: "is_full (obj x ?t) = is_full (obj x s)" for x by (rule hash_view_full [OF v])
  have fl: "bl_token_ids (obj x ?t) = bl_token_ids (obj x s)" "bl_prev_block (obj x ?t) = bl_prev_block (obj x s)"
    "bl_cached_content_hash (obj x ?t) = bl_cached_content_hash (obj x s)"
    "bl_block_size (obj x ?t) = bl_block_size (obj x s)" for x using v [of x] by (simp_all add: hash_view_def)
  have comp: "bl_computed (obj x ?t) \<Longrightarrow> is_full (obj x s) \<or> bl_computed (obj x s)" for x
    using c al by (cases "x = a") simp_all
  note k = upd_keeps [of f a s, OF f(2,3,4) al]
  show "refmap ?t = refmap s" by (rule k(2))
  have "prevs_ok (nv_heap ?t)" using pc_objsD(5) [OF o] fl(2) unfolding prevs_ok_def obj_def by simp
  moreover have "obj_ok sha ?t x" if "live s x" for x
    using pc_objsD(6) [OF o that] comp [of x] unfolding obj_ok_hashes h full fl by (auto split: if_splits)
  moreover have "contents_ok ?t" using pc_objsD(4) [OF o] unfolding contents_ok_def fl by simp
  ultimately show "pc_objs sha ?t" using pc_objsD(1,2,3) [OF o] k(1) by (simp add: pc_objs_def)
  show "chains_closed ?t = chains_closed s" by (simp only: chains_closed_def fl full live_upd)
qed

lemma add_tokens_keep:
  assumes o: "pc_objs sha s" "chains_closed s" and a: "live s a" "\<not> is_full (obj a s)"
    and ts: "int (length ts) \<le> num_empty_slots (obj a s)" "list_all packable ts" "ts \<noteq> []"
    and p: "\<And>q. bl_prev_block (obj a s) = Some q \<Longrightarrow> is_full (obj q s)" and dig: "\<And>m. is_digest (sha m)"
  shows "pc_objs sha (add_tokens a ts s)" "chains_closed (add_tokens a ts s)"
    "refmap (add_tokens a ts s) = refmap s"
    "live s x \<Longrightarrow> x \<noteq> a \<Longrightarrow> hashes sha (add_tokens a ts s) x = hashes sha s x"
    "obj a (add_tokens a ts s) = (obj a s)\<lparr>bl_token_ids := bl_token_ids (obj a s) @ ts\<rparr>"
proof -
  let ?t = "add_tokens a ts s"
  have al: "a < length (nv_heap s)" by (rule pc_objsD(7) [OF o(1) a(1)])
  show oa: "obj a ?t = (obj a s)\<lparr>bl_token_ids := bl_token_ids (obj a s) @ ts\<rparr>" using al by simp
  have ox: "obj x ?t = obj x s" if "x \<noteq> a" for x using that by simp
  note ok = pc_objsD(6) [OF o(1)] and oka = pc_objsD(6) [OF o(1) a(1), unfolded obj_ok_def]
  have na: "bl_cached_content_hash (obj a s) = None" "\<not> bl_computed (obj a s)" using oka a(2) by simp_all
  show h: "hashes sha ?t x = hashes sha s x" if "live s x" "x \<noteq> a" for x
    by (rule hashes_keep [OF o that]) (use a(2) ox in auto)
  have pl: "live s q" "q \<noteq> a" "is_full (obj q s)" if "bl_prev_block (obj a s) = Some q" for q
    using that o(2) a p na(1) unfolding chains_closed_def by auto
  note k = upd_keeps [of "\<lambda>x. x\<lparr>bl_token_ids := bl_token_ids x @ ts\<rparr>" a s]
  show "refmap ?t = refmap s" using k(2) al by simp
  have oka: "obj_ok sha ?t a"
  proof (cases "is_full (obj a ?t)")
    case True
    have "\<exists>h. hash_is sha ?t a h \<and> is_digest h"
      by (rule full_has_hash [OF True])
        (use dig oa na oka ts(2) pl h live_hash(1) [OF o(1)] in auto)
    then show ?thesis using True oa oka ts(2) by (simp add: obj_ok_def)
  next
    case False
    then show ?thesis using oa na oka ts(2) by (simp add: obj_ok_def)
  qed
  have "obj_ok sha ?t x" if "live s x" for x
    using oka ok [OF that] h [OF that] ox [of x] unfolding obj_ok_hashes by (cases "x = a") auto
  moreover have "contents_ok ?t"
  proof -
    have "bl_block_size (obj x ?t) = nv_block_size s \<and>
        int (length (bl_token_ids (obj x ?t))) \<le> nv_block_size s" if "live s x" for x
      using pc_objsD(4) [OF o(1)] that oa ox [of x] ts(1)
      by (cases "x = a") (auto simp: contents_ok_def num_empty_slots_def)
    then show ?thesis by (simp add: contents_ok_def)
  qed
  moreover have "prevs_ok (nv_heap ?t)"
  proof -
    have "bl_prev_block (obj x ?t) = bl_prev_block (obj x s)" for x using oa ox by (cases "x = a") simp_all
    then show ?thesis using pc_objsD(5) [OF o(1)] by (simp add: prevs_ok_def obj_def)
  qed
  ultimately show "pc_objs sha ?t" using pc_objsD(1,2,3) [OF o(1)] k(1) al by (simp add: pc_objs_def)
  show "chains_closed ?t"
    unfolding chains_closed_def live_upd
  proof (intro allI impI)
    fix x q
    assume x: "live s x" "bl_cached_content_hash (obj x ?t) = None" "bl_prev_block (obj x ?t) = Some q"
    show "live s q \<and> (bl_token_ids (obj x ?t) \<noteq> [] \<longrightarrow> is_full (obj q ?t))"
    proof (cases "x = a")
      case True
      then show ?thesis using x(3) oa pl ox by auto
    next
      case False
      then have "live s q \<and> (bl_token_ids (obj x s) \<noteq> [] \<longrightarrow> is_full (obj q s))"
        using x o(2) ox unfolding chains_closed_def by auto
      moreover have "is_full (obj q s) \<Longrightarrow> is_full (obj q ?t)" using a(2) ox by (cases "q = a") auto
      ultimately show ?thesis using ox False by auto
    qed
  qed
qed

section \<open>Joining the holders of a cached block\<close>

lemma incr_cached_run:
  assumes c: "pc_core s R H" and o: "pool_ok s" "live s a" "block_id_of a s = Some b"
    and h: "H a = Some h" "map_of (pc_cached_blocks s) h = Some b" and a: "R a = None"
  shows "\<exists>t. incr_refcount_cached_block a s = (Inr (), t) \<and> pc_core t (R(a \<mapsto> b)) H \<and>
    same_objs (upd_obj a (\<lambda>x. x\<lparr>bl_computed := True\<rparr>) s) t \<and> pc_frame s t \<and>
    pc_cached_blocks t = pc_cached_blocks s \<and> pc_touched_blocks t = pc_touched_blocks s \<and>
    pc_copy_on_writes t = pc_copy_on_writes s \<and> nv_free_block_indices t = nv_free_block_indices s \<and>
    ev_meta (pc_evictor t) = (ev_meta (pc_evictor s))(b := None)"
proof -
  let ?f = "\<lambda>x. x\<lparr>bl_computed := True\<rparr>" and ?n = "rcount R b"
  note core = pc_coreD [OF c]
  note sh = idx_share [OF core(5) h a]
  let ?u = "upd_obj a ?f s"
  have al: "a < length (nv_heap s)" by (rule live_length [OF o(1,2)])
  have pu: "pool_ok ?u" "refmap ?u = refmap s" using upd_keeps [of ?f a s] al o(1) by simp_all
  have bu: "block_id_of a ?u = Some b"
    using block_id_of_live [OF pu(1), of a] block_id_of_live [OF o(1,2)] o(2,3) pu(2) by simp
  let ?v = "?u\<lparr>nv_refcounts := AList.update b (?n + 1) (nv_refcounts s)\<rparr>"
  have i: "rc_incr b ?u = (Inr (?n + 1), ?v)" using rc_incr_run [of ?u b ?n] sh(3) by simp
  have head: "incr_refcount_cached_block a s =
      (if ?n = 0 then andthen (bind (gets (\<lambda>s. ev_contains b (pc_evictor s))) (\<lambda>c.
           if c then on_evictor (ev_remove b) else return ())) (track_block_id (Some b) True)
       else return ()) ?v"
    using bu i by (simp add: incr_refcount_cached_block_def set_computed_def andthen_def bind_def gets_def
        modify_def from_option_def return_def)
  have same: "same_objs ?u ?v" by (simp add: same_objs_def)
  show ?thesis
  proof (cases "?n = 0")
    case True
    then obtain m where m: "ev_meta (pc_evictor s) b = Some m" using sh(4) by auto
    obtain e where e: "ev_remove b (pc_evictor s) = (Inr (), e)" "ev_inv e"
        "ev_meta e = (ev_meta (pc_evictor s))(b := None)"
      using ev.remove_run [OF core(3) m] by blast
    have con: "ev_contains b (pc_evictor s)" using m ev.contains_iff by auto
    let ?w = "?v\<lparr>pc_evictor := e\<rparr>"
    have aw: "acts ?w = acts s" by simp
    have "acts ?w b = Some False" using aw sh(5) m by simp
    from track_run [OF this, of True] obtain T where
        T: "track_block_id (Some b) True ?w = (Inr (), ?w\<lparr>pc_block_tracker := T\<rparr>)"
          "acts (?w\<lparr>pc_block_tracker := T\<rparr>) = (acts s)(b \<mapsto> True)" unfolding aw by blast
    let ?t = "?w\<lparr>pc_block_tracker := T\<rparr>"
    have "incr_refcount_cached_block a s = (Inr (), ?t)"
      unfolding head using True con e(1) T(1)
      by (simp add: andthen_def bind_def gets_def on_evictor_def zoom_def)
    moreover have "pc_core ?t (R(a \<mapsto> b)) H"
      using core sh(1) e(2,3) T(2) True by (simp add: pc_core_def dict_simps)
    moreover have "same_objs ?u ?t" by (simp add: same_objs_def)
    ultimately show ?thesis using e(3) by (intro exI [of _ ?t]) (simp add: pc_frame_def)
  next
    case False
    have eb: "ev_meta (pc_evictor s) b = None" using sh(4) False by simp
    then have e: "(ev_meta (pc_evictor s))(b := None) = ev_meta (pc_evictor s)" by auto
    have "(acts s)(b \<mapsto> True) = acts s" using sh(5) eb by auto
    then have "pc_core ?v (R(a \<mapsto> b)) H" using core sh(1) e by (simp add: pc_core_def dict_simps)
    then show ?thesis
      using head False same e by (intro exI [of _ ?v]) (simp add: pc_frame_def return_def)
  qed
qed

section \<open>Copy-on-write\<close>

lemma pc_cow_shared:
  assumes c: "pc_core s (refmap s) H" and o: "pc_objs sha s" "refmap s a = Some b" "H a = None"
    and n: "rcount (refmap s) b \<noteq> 1"
  shows "\<exists>v. pc_cow_block_if_not_appendable sha a s =
      bind pc_allocate_block_id (\<lambda>trg_block_id.
        andthen (ct_record_cow (\<lambda>l s. s\<lparr>pc_copy_on_writes := l\<rparr>) pc_copy_on_writes
           (Some b) (Some trg_block_id)) (return trg_block_id)) v \<and>
    same_objs (upd_obj a (\<lambda>x. x\<lparr>bl_block_id := None\<rparr>) s) v \<and> pc_core v ((refmap s)(a := None)) H \<and>
    pc_frame s v \<and> pc_touched_blocks v = pc_touched_blocks s \<and> pc_copy_on_writes v = pc_copy_on_writes s \<and>
    pc_cached_blocks v = pc_cached_blocks s \<and> pc_get_num_free_blocks v = pc_get_num_free_blocks s"
proof -
  note l = refmap_live [OF o(2)] and p = pc_objsD(1) [OF o(1)]
  have la: "live s a" using l by simp
  have bi: "block_id_of a s = Some b" using block_id_of_live [OF p la] o(2) by simp
  note held = idx_held [OF pc_coreD(5) [OF c] o(2)]
  have g: "rc_get b s = (Inr (rcount (refmap s) b), s)" by (rule rc_get_run [OF held(2)])
  obtain v where v: "decr_refcount_hashless_block a s = (Inr (), v)" "pc_core v ((refmap s)(a := None)) H"
      "same_objs (upd_obj a (\<lambda>x. x\<lparr>bl_block_id := None\<rparr>) s) v" "pc_frame s v"
      "pc_evictor v = pc_evictor s" "pc_cached_blocks v = pc_cached_blocks s" "pc_touched_blocks v = pc_touched_blocks s"
      "pc_copy_on_writes v = pc_copy_on_writes s" "nv_free_block_indices v = nv_free_block_indices s"
    using decr_hashless_run [OF c p la bi o(2,3)] n by auto
  note k = set_id_keep [OF o(1) la v(3)]
  have bv: "block_id_of a v = None"
    using block_id_of_live [OF pc_objsD(1) [OF k(1)], of a] k(4,5) la by simp
  have "pc_cow_block_if_not_appendable sha a s =
      bind pc_allocate_block_id (\<lambda>trg_block_id.
        andthen (ct_record_cow (\<lambda>l s. s\<lparr>pc_copy_on_writes := l\<rparr>) pc_copy_on_writes
           (Some b) (Some trg_block_id)) (return trg_block_id)) v"
    using bi g v(1) bv n held(3)
    by (simp add: pc_cow_block_if_not_appendable_def ct_is_appendable_def pc_free_block_id_by_def bind_def gets_def
        from_option_def return_def andthen_def guard_def)
  then show ?thesis
    using v by (intro exI [of _ v]) (simp add: pc_get_num_free_blocks_def nv_get_num_free_blocks_def)
qed

lemma pc_cow_alone:
  assumes c: "pc_core s (refmap s) H" and o: "pc_objs sha s" "refmap s a = Some b"
    and n: "rcount (refmap s) b = 1"
  shows "pc_cow_block_if_not_appendable sha a s = (Inr b, s)"
proof -
  have "block_id_of a s = Some b" using block_id_of_live [OF pc_objsD(1) [OF o(1)]] refmap_live [OF o(2)] o(2) by simp
  moreover have "rc_get b s = (Inr 1, s)" using rc_get_run [OF idx_held(2) [OF pc_coreD(5) [OF c] o(2)]] n by simp
  ultimately show ?thesis
    by (simp add: pc_cow_block_if_not_appendable_def ct_is_appendable_def bind_def gets_def from_option_def
        return_def)
qed

lemma cow_set_run:
  assumes c: "pc_core s (refmap s) H" and o: "pc_objs sha s" "chains_closed s" "refmap s a = Some b" "H a = None"
    and f: "rcount (refmap s) b = 1 \<or> 0 < pc_get_num_free_blocks s"
  shows "\<exists>c t. bind (pc_cow_block_if_not_appendable sha a) (\<lambda>b. set_block_id a (Some b)) s = (Inr (), t) \<and>
    pc_objs sha t \<and> chains_closed t \<and> refmap t = (refmap s)(a \<mapsto> c) \<and> pc_core t (refmap t) H \<and>
    rcount (refmap t) c = 1 \<and> live t = live s \<and> (\<forall>x. live s x \<longrightarrow> bare (obj x t) = bare (obj x s)) \<and>
    (\<forall>x. live s x \<longrightarrow> hashes sha t x = hashes sha s x) \<and> pc_frame s t \<and>
    pc_touched_blocks t = pc_touched_blocks s \<and>
    map_of (pc_cached_blocks t) \<subseteq>\<^sub>m map_of (pc_cached_blocks s) \<and>
    (if rcount (refmap s) b = 1 then c = b \<and> pc_copy_on_writes t = pc_copy_on_writes s
     else c \<notin> ran (refmap s) \<and> pc_copy_on_writes t = pc_copy_on_writes s @ [(b, c)])"
proof (cases "rcount (refmap s) b = 1")
  case True
  note l = refmap_live [OF o(3)]
  have la: "live s a" using l by simp
  have "upd_obj a (\<lambda>x. x\<lparr>bl_block_id := Some b\<rparr>) s = s"
    by (rule upd_obj_ident [OF pc_objsD(7) [OF o(1) la]]) (use l in \<open>cases "obj a s", simp\<close>)
  then have "bind (pc_cow_block_if_not_appendable sha a) (\<lambda>b. set_block_id a (Some b)) s = (Inr (), s)"
    using pc_cow_alone [OF c o(1,3) True] set_block_id_run(1) [OF pc_objsD(1) [OF o(1)] la, of "Some b"]
    by (simp add: bind_def)
  moreover have "(refmap s)(a \<mapsto> b) = refmap s" using o(3) by auto
  ultimately show ?thesis using True c o by (intro exI2 [of _ b s]) simp
next
  case False
  note l = refmap_live [OF o(3)]
  have la: "live s a" using l by simp
  obtain v where v: "pc_cow_block_if_not_appendable sha a s =
      bind pc_allocate_block_id (\<lambda>trg_block_id.
        andthen (ct_record_cow (\<lambda>l s. s\<lparr>pc_copy_on_writes := l\<rparr>) pc_copy_on_writes
           (Some b) (Some trg_block_id)) (return trg_block_id)) v"
      "same_objs (upd_obj a (\<lambda>x. x\<lparr>bl_block_id := None\<rparr>) s) v" "pc_core v ((refmap s)(a := None)) H"
      "pc_frame s v" "pc_touched_blocks v = pc_touched_blocks s" "pc_copy_on_writes v = pc_copy_on_writes s"
      "pc_get_num_free_blocks v = pc_get_num_free_blocks s" "pc_cached_blocks v = pc_cached_blocks s"
    using pc_cow_shared [OF c o(1,3,4) False] by blast
  note k = set_id_keep [OF o(1) la v(2)]
  have f': "0 < pc_get_num_free_blocks v" using f False v(7) by simp
  obtain d u where u: "pc_allocate_block_id v = (Inr d, u)" "objs_kept v u"
      "pc_core u ((refmap s)(a := None, a \<mapsto> d)) (H(a := None))" "takes_id d v u" "d \<notin> ran ((refmap s)(a := None))"
    using pc_allocate_block_id_run [OF v(3) k(1) f', of a] by auto
  have H: "H(a := None) = H" using o(4) by auto
  note ku = objs_kept_keep [OF k(1) _ u(2)] and u' = u(2) [unfolded objs_kept_def]
  have cv: "chains_closed v" using k(3) o(2) by simp
  let ?w = "u\<lparr>pc_copy_on_writes := pc_copy_on_writes s @ [(b, d)]\<rparr>"
  have cow: "pc_cow_block_if_not_appendable sha a s = (Inr d, ?w)"
    using v(1,6) u(1,4) by (simp add: bind_def andthen_def ct_record_cow_def from_option_def return_def
        modify_def takes_id_def)
  have so: "same_objs u ?w" by simp
  note sk = same_objs_keep [OF so]
  have lw: "live ?w a" using u' k(5) la by simp
  have pw: "pc_objs sha ?w" using sk(1) ku(1) cv by simp
  let ?t = "upd_obj a (\<lambda>x. x\<lparr>bl_block_id := Some d\<rparr>) ?w"
  note kt = set_id_keep [where b = "Some d", OF pw lw same_objs_refl]
  have run: "bind (pc_cow_block_if_not_appendable sha a) (\<lambda>b. set_block_id a (Some b)) s = (Inr (), ?t)"
    using cow set_block_id_run(1) [OF pc_objsD(1) [OF pw] lw, of "Some d"] by (simp add: bind_def)
  have rw: "refmap ?w = (refmap s)(a := None)" using ku(3) cv k(4) by simp
  have rt: "refmap ?t = (refmap s)(a \<mapsto> d)" using kt(4) rw by simp
  have dn: "d \<notin> ran (refmap s)"
  proof
    assume "d \<in> ran (refmap s)"
    then obtain x where x: "refmap s x = Some d" by (auto simp: ran_def)
    then have "x = a" using u(5) by (auto simp: ran_def split: if_splits)
    then have db: "d = b" using x o(3) by simp
    have "y = a" if "refmap s y = Some b" for y
    proof (rule ccontr)
      assume "y \<noteq> a"
      then have "((refmap s)(a := None)) y = Some d" using that db by simp
      then show False using u(5) ranI by metis
    qed
    then have "\<forall>y. refmap s y = Some b \<longrightarrow> y = a" by blast
    then show False using False rcount_one [of "refmap s", OF o(3)] by blast
  qed
  have one: "rcount (refmap ?t) d = 1"
  proof -
    have "rcount (refmap s) d = 0" using rcount_zero [of "refmap s" d] dn by simp
    moreover have "refmap s a \<noteq> Some d" using dn ranI by metis
    ultimately show ?thesis unfolding rt using rcount_upd [of "refmap s" a "Some d" d] by simp
  qed
  have core: "pc_core ?t (refmap ?t) H"
  proof -
    have "pc_core u ((refmap s)(a \<mapsto> d)) H" using u(3) H by simp
    then have "pc_core ?w ((refmap s)(a \<mapsto> d)) H" by (simp add: pc_core_def)
    then show ?thesis unfolding rt by simp
  qed
  have "pc_frame s ?t" using v(4) u(4) by (auto simp: takes_id_def pc_frame_def)
  moreover have "bare (obj x ?t) = bare (obj x s)" if "live s x" for x
    using kt(6) k(6) u' k(5) that by simp
  moreover have "hashes sha ?t x = hashes sha s x" if "live s x" for x
    using kt(2) sk(3) ku(4) cv k(2,5) that by simp
  moreover have "live ?t = live s" using kt(5) u' k(5) by simp
  moreover have "chains_closed ?t" using kt(3) sk(2) ku(2) cv by simp
  moreover have "pc_touched_blocks ?t = pc_touched_blocks s" using u(4) v(5) by (simp add: takes_id_def)
  moreover have "map_of (pc_cached_blocks ?t) \<subseteq>\<^sub>m map_of (pc_cached_blocks s)"
    using takes_id_cached [OF u(4)] v(8) by simp
  ultimately show ?thesis
    using run kt(1) rt core one False dn by (intro exI2 [of _ d ?t]) simp
qed

section \<open>Promotion\<close>

lemma set_same_id:
  assumes "pc_objs sha s" "refmap s a = Some b"
  shows "set_block_id a (Some b) s = (Inr (), s)"
proof -
  note l = refmap_live [OF assms(2)]
  have la: "live s a" using l by simp
  have "upd_obj a (\<lambda>x. x\<lparr>bl_block_id := Some b\<rparr>) s = s"
    by (rule upd_obj_ident [OF pc_objsD(7) [OF assms(1) la]]) (use l in \<open>cases "obj a s", simp\<close>)
  then show ?thesis using set_block_id_run(1) [OF pc_objsD(1) [OF assms(1)] la, of "Some b"] by simp
qed

text \<open>\<open>same_content\<close>: what an object means to its followers and readers.\<close>

definition same_content :: "block \<Rightarrow> block \<Rightarrow> bool" where
  "same_content x y \<longleftrightarrow> bl_token_ids x = bl_token_ids y \<and> bl_prev_block x = bl_prev_block y \<and>
     is_full x = is_full y \<and> bl_cache_namespace x = bl_cache_namespace y \<and>
     bl_cached_num_tokens_total x = bl_cached_num_tokens_total y"

lemma same_content_bare: "bare x = bare y \<Longrightarrow> same_content x y"
  using bareD [of x y] by (simp add: same_content_def)

lemma same_content_trans: "same_content x y \<Longrightarrow> same_content y z \<Longrightarrow> same_content x z"
  by (simp add: same_content_def)

lemma same_content_refl [simp]: "same_content x x"
  by (simp add: same_content_def)

lemma set_computed_keep:
  assumes o: "pc_objs sha s" "live s a" "is_full (obj a s)"
    and t: "same_objs (upd_obj a (\<lambda>x. x\<lparr>bl_computed := True\<rparr>) s) t"
  shows "pc_objs sha t" "hashes sha t = hashes sha s" "chains_closed t = chains_closed s"
    "refmap t = refmap s" "live t = live s" "same_content (obj x t) (obj x s)"
    "x \<noteq> a \<Longrightarrow> obj x t = obj x s" "bl_computed (obj a t)"
proof -
  let ?f = "\<lambda>x. x\<lparr>bl_computed := True\<rparr>"
  note k = upd_view_keep [OF o(1,2), of ?f] and e = same_objs_keep [OF t] and d = same_objsD [OF t]
  have al: "a < length (nv_heap s)" by (rule pc_objsD(7) [OF o(1,2)])
  show "pc_objs sha t" "hashes sha t = hashes sha s" "chains_closed t = chains_closed s"
    "refmap t = refmap s" "live t = live s"
    using k o(3) e d(2,3) by (simp_all add: hash_view_def)
  show ox: "x \<noteq> a \<Longrightarrow> obj x t = obj x s" for x using d(1) by simp
  have oa: "obj a t = ?f (obj a s)" using d(1) al by simp
  show "bl_computed (obj a t)" using oa by simp
  show "same_content (obj x t) (obj x s)"
    using ox [of x] oa by (cases "x = a") (simp_all add: same_content_def is_full_def num_empty_slots_def)
qed

lemma promote_run:
  assumes o: "pc_objs sha s" "chains_closed s" "refmap s a = Some b" and n: "rcount (refmap s) b = 1"
    and h: "hashes sha s a = Some h" and c: "pc_core s (refmap s) ((hashes sha s)(a := None))"
  shows "\<exists>d t. bind (promote_to_immutable_block sha a) (\<lambda>b. set_block_id a (Some b)) s = (Inr (), t) \<and>
    pc_inv sha t \<and> chains_closed t \<and> live t = live s \<and> refmap t = (refmap s)(a \<mapsto> d) \<and>
    (\<forall>x. live s x \<longrightarrow> same_content (obj x t) (obj x s)) \<and>
    (\<forall>x. live s x \<longrightarrow> hashes sha t x = hashes sha s x) \<and> pc_frame s t \<and>
    pc_copy_on_writes t = pc_copy_on_writes s \<and> map_of (pc_cached_blocks t) h = Some d \<and>
    (case map_of (pc_cached_blocks s) h of
       None \<Rightarrow> d = b \<and> pc_touched_blocks t = insert b (pc_touched_blocks s)
     | Some e \<Rightarrow> d = e \<and> pc_touched_blocks t = pc_touched_blocks s)"
proof -
  note l = refmap_live [OF o(3)]
  have la: "live s a" using l by simp
  obtain u where u: "content_hash sha a s = (Inr (Some h), u)" "hash_kept sha s u"
    using content_hash_live [OF o(1) la] h by auto
  note k = kept_pc [OF u(2)] and ko = kept_pc_objs [OF u(2) o(1)] and kf = kept_fields [OF u(2)]
    and kb = kept_bare [OF u(2) o(1)] and kh = kept_same(1) [OF u(2) o(1)]
  let ?H = "(hashes sha s)(a := None)"
  have cu: "pc_core u (refmap u) ?H" using c k(2) ko(2) by simp
  have lu: "live u a" and ru: "refmap u a = Some b" using kf(1) la ko(2) o(3) by simp_all
  have bu: "block_id_of a u = Some b" using block_id_of_live [OF pc_objsD(1) [OF ko(1)] lu] ru by simp
  have g: "rc_get b u = (Inr 1, u)"
    using rc_get_run [OF idx_held(2) [OF pc_coreD(5) [OF cu] ru]] ko(2) n by simp
  have fu: "is_full (obj a u)" using live_hash(1) [OF ko(1) lu] kh [OF la] h by simp
  show ?thesis
  proof (cases "map_of (pc_cached_blocks s) h")
    case None
    let ?t = "u\<lparr>pc_cached_blocks := AList.update h b (pc_cached_blocks u),
      pc_touched_blocks := insert b (pc_touched_blocks u)\<rparr>"
    have so: "same_objs u ?t" by (simp add: same_objs_def)
    note sk = same_objs_keep [OF so] and sd = same_objsD [OF so]
    have pt: "pc_objs sha ?t" using sk(1) ko(1) by simp
    have run: "bind (promote_to_immutable_block sha a) (\<lambda>b. set_block_id a (Some b)) s = (Inr (), ?t)"
      using u(1) bu g None k(3) set_same_id [OF pt, of a b] sd(3) ru
      by (simp add: promote_to_immutable_block_def bind_def from_option_def return_def gets_def andthen_def
          guard_def modify_def)
    have "idx_ok (set (nv_all_block_indices u)) (set (nv_free_block_indices u)) (ev_meta (pc_evictor u))
        (map_of (nv_refcounts u)) ((map_of (pc_cached_blocks u))(h \<mapsto> b)) (acts u) (refmap u) (?H(a \<mapsto> h))"
      by (rule idx_enter [OF pc_coreD(5) [OF cu] ru]) (use n ko(2) None k(3) in simp_all)
    then have "pc_core ?t (refmap u) (?H(a \<mapsto> h))"
      using pc_coreD [OF cu] by (simp add: pc_core_def dict_simps)
    then have "pc_core ?t (refmap ?t) (hashes sha ?t)"
      unfolding sd(3) sk(3)
      by (rule pc_core_hash) (use kh h refmap_live [of u] kf(1) in \<open>auto split: if_splits\<close>)
    then have "pc_inv sha ?t" using pt by (simp add: pc_inv_def)
    moreover have "(refmap s)(a \<mapsto> b) = refmap s" using o(3) by auto
    moreover have "pc_frame s ?t" using k(1) by (simp add: pc_frame_def)
    ultimately show ?thesis
      using run sd(1,2,3) sk(2,3) ko(2,3) o(2) kf(1) kb kh None k(3,5,6) same_content_bare
      by (intro exI2 [of _ b ?t]) (simp add: dict_simps)
  next
    case (Some d)
    obtain v where v: "decr_refcount_hashless_block a u = (Inr (), v)" "pc_core v ((refmap u)(a := None)) ?H"
        "same_objs (upd_obj a (\<lambda>x. x\<lparr>bl_block_id := None\<rparr>) u) v" "pc_frame u v"
        "pc_cached_blocks v = pc_cached_blocks u" "pc_touched_blocks v = pc_touched_blocks u"
        "pc_copy_on_writes v = pc_copy_on_writes u"
      using decr_hashless_run [OF cu pc_objsD(1) [OF ko(1)] lu bu ru] by auto
    note kv = set_id_keep [OF ko(1) lu v(3)]
    have lv: "live v a" using kv(5) lu by simp
    let ?w = "upd_obj a (\<lambda>x. x\<lparr>bl_block_id := Some d\<rparr>) v"
    note kw = set_id_keep [where b = "Some d", OF kv(1) lv same_objs_refl]
    have lw: "live ?w a" using lv by simp
    have rw: "refmap ?w = (refmap s)(a \<mapsto> d)" using kw(4) kv(4) ko(2) by simp
    have hw: "hashes sha ?w = hashes sha u" using kw(2) kv(2) by simp
    have fw: "is_full (obj a ?w)" using live_hash(1) [OF kw(1) lw] hw kh [OF la] h by simp
    have cw: "pc_core ?w ((refmap u)(a := None)) (hashes sha u)"
    proof -
      have "pc_core v ((refmap u)(a := None)) (hashes sha u)"
        by (rule pc_core_hash [OF v(2)]) (use kh refmap_live [of u] kf(1) in \<open>auto split: if_splits\<close>)
      then show ?thesis by simp
    qed
    have bw: "block_id_of a ?w = Some d"
      using block_id_of_live [OF pc_objsD(1) [OF kw(1)] lw] rw by simp
    obtain t where t: "incr_refcount_cached_block a ?w = (Inr (), t)"
        "pc_core t ((refmap u)(a := None, a \<mapsto> d)) (hashes sha u)"
        "same_objs (upd_obj a (\<lambda>x. x\<lparr>bl_computed := True\<rparr>) ?w) t" "pc_frame ?w t"
        "pc_cached_blocks t = pc_cached_blocks ?w" "pc_touched_blocks t = pc_touched_blocks ?w"
        "pc_copy_on_writes t = pc_copy_on_writes ?w"
      using incr_cached_run [OF cw pc_objsD(1) [OF kw(1)] lw bw, of h] kh [OF la] h Some v(5) k(3) by auto
    note kt = set_computed_keep [OF kw(1) lw fw t(3)]
    have rt: "refmap t = (refmap s)(a \<mapsto> d)" using kt(4) rw by simp
    have "pc_core t (refmap t) (hashes sha t)" using t(2) rt kt(2) hw ko(2) by simp
    then have it: "pc_inv sha t" using kt(1) by (simp add: pc_inv_def)
    have "promote_to_immutable_block sha a s = (Inr d, t)"
      using u(1) bu g Some k(3) v(1,5) t(1) set_block_id_run(1) [OF pc_objsD(1) [OF kv(1)] lv, of "Some d"]
      by (simp add: promote_to_immutable_block_def bind_def from_option_def return_def gets_def andthen_def
          guard_def)
    then have run: "bind (promote_to_immutable_block sha a) (\<lambda>b. set_block_id a (Some b)) s = (Inr (), t)"
      using set_same_id [OF kt(1), of a d] rt by (simp add: bind_def)
    have "same_content (obj x t) (obj x s)" if "live s x" for x
      using same_content_trans [OF kt(6) [of x] same_content_bare [OF kw(6) [of x]]] kv(6) [of x] kb [OF that]
        same_content_trans same_content_bare by metis
    moreover have "hashes sha t x = hashes sha s x" if "live s x" for x using kt(2) hw kh that by simp
    moreover have "pc_frame s t" using k(1) v(4) t(4) by (auto simp: pc_frame_def)
    moreover have "chains_closed t" using kt(3) kw(3) kv(3) ko(3) o(2) by simp
    moreover have "live t = live s" using kt(5) kv(5) kf(1) by simp
    ultimately show ?thesis
      using run it rt Some v(5-7) t(5-7) k(3,5,6) by (intro exI2 [of _ d t]) simp
  qed
qed

section \<open>Appending tokens\<close>

lemma num_free_upd_obj [simp]: "pc_get_num_free_blocks (upd_obj a f s) = pc_get_num_free_blocks s"
  by (simp add: pc_get_num_free_blocks_def nv_get_num_free_blocks_def)

text \<open>What appending to the object \<open>a\<close> did: \<open>d\<close> is the block it has now.\<close>

definition appended :: "(bytes \<Rightarrow> bytes) \<Rightarrow> addr \<Rightarrow> int list \<Rightarrow> block_id \<Rightarrow> block_id \<Rightarrow> pc_state \<Rightarrow> pc_state \<Rightarrow> bool" where
  "appended sha a ts b d s t \<longleftrightarrow> live t = live s \<and> refmap t = (refmap s)(a \<mapsto> d) \<and>
     bl_token_ids (obj a t) = bl_token_ids (obj a s) @ ts \<and> bl_prev_block (obj a t) = bl_prev_block (obj a s) \<and>
     bl_cache_namespace (obj a t) = bl_cache_namespace (obj a s) \<and>
     (\<forall>x. live s x \<longrightarrow> x \<noteq> a \<longrightarrow> same_content (obj x t) (obj x s) \<and> hashes sha t x = hashes sha s x) \<and>
     pc_frame s t \<and> hashes sha t a = hashes sha (add_tokens a ts s) a \<and>
     (\<exists>e. (if rcount (refmap s) b = 1 then e = b \<and> pc_copy_on_writes t = pc_copy_on_writes s
           else e \<notin> ran (refmap s) \<and> pc_copy_on_writes t = pc_copy_on_writes s @ [(b, e)]) \<and>
       (case hashes sha t a of None \<Rightarrow> d = e \<and> (\<forall>x. refmap t x = Some d \<longrightarrow> x = a)
        | Some h \<Rightarrow> map_of (pc_cached_blocks t) h = Some d \<and>
            (map_of (pc_cached_blocks s) h = None \<longrightarrow> d = e)))"

lemma pc_append_run:
  assumes i: "pc_inv sha s" "chains_closed s" and a: "refmap s a = Some b" "\<not> is_full (obj a s)"
    and ts: "int (length ts) \<le> num_empty_slots (obj a s)" "list_all packable ts" "ts \<noteq> []"
    and p: "\<And>q. bl_prev_block (obj a s) = Some q \<Longrightarrow> is_full (obj q s)" and dig: "\<And>m. is_digest (sha m)"
    and f: "rcount (refmap s) b = 1 \<or> 0 < pc_get_num_free_blocks s"
  shows "\<exists>d t. pb_append_token_ids sha a ts s = (Inr (), t) \<and> pc_inv sha t \<and> chains_closed t \<and>
    appended sha a ts b d s t"
proof -
  note j = pc_invD [OF i(1)] and l = refmap_live [OF a(1)]
  have la: "live s a" using l by simp
  have al: "a < length (nv_heap s)" by (rule pc_objsD(7) [OF j(1) la])
  have ok: "bl_cached_content_hash (obj a s) = None" "\<not> bl_computed (obj a s)"
    using pc_objsD(6) [OF j(1) la] a(2) by (simp_all add: obj_ok_def)
  have h0: "content_hash sha a s = (Inr None, s)" by (rule content_hash_none [OF ok(1) a(2)]) (use al in auto)
  have Ha: "hashes sha s a = None" using live_hash(1) [OF j(1) la] a(2) by simp
  let ?s1 = "add_tokens a ts s"
  note k1 = add_tokens_keep [OF j(1) i(2) la a(2) ts p dig]
  have ap: "nb_append_no_cow a ts s = (Inr (), ?s1)" by (rule nb_append_no_cow_run [OF al ts(1)])
  have r1: "refmap ?s1 a = Some b" "live ?s1 a" using k1(3) a(1) la by simp_all
  have b1: "block_id_of a ?s1 = Some b" using block_id_of_live [OF pc_objsD(1) [OF k1(1)] r1(2)] r1(1) by simp
  have c1: "pc_core ?s1 (refmap ?s1) (hashes sha s)" using j(2) k1(3) by simp
  have f1: "rcount (refmap ?s1) b = 1 \<or> 0 < pc_get_num_free_blocks ?s1" using f k1(3) by simp
  obtain e s2 where s2: "bind (pc_cow_block_if_not_appendable sha a) (\<lambda>b. set_block_id a (Some b)) ?s1 = (Inr (), s2)"
      "pc_objs sha s2" "chains_closed s2" "refmap s2 = (refmap ?s1)(a \<mapsto> e)" "pc_core s2 (refmap s2) (hashes sha s)"
      "rcount (refmap s2) e = 1" "live s2 = live ?s1" "\<forall>x. live ?s1 x \<longrightarrow> bare (obj x s2) = bare (obj x ?s1)"
      "\<forall>x. live ?s1 x \<longrightarrow> hashes sha s2 x = hashes sha ?s1 x" "pc_frame ?s1 s2" "map_of (pc_cached_blocks s2) \<subseteq>\<^sub>m map_of (pc_cached_blocks ?s1)"
      "if rcount (refmap ?s1) b = 1 then e = b \<and> pc_copy_on_writes s2 = pc_copy_on_writes ?s1
       else e \<notin> ran (refmap ?s1) \<and> pc_copy_on_writes s2 = pc_copy_on_writes ?s1 @ [(b, e)]"
    using cow_set_run [OF c1 k1(1,2) r1(1) Ha f1] by blast
  have s2_e: "if rcount (refmap s) b = 1 then e = b \<and> pc_copy_on_writes s2 = pc_copy_on_writes s
       else e \<notin> ran (refmap s) \<and> pc_copy_on_writes s2 = pc_copy_on_writes s @ [(b, e)]"
    using s2(12) k1(3) by (cases "rcount (refmap s) b = 1") simp_all
  note s2 = s2(1-10) [unfolded live_upd upd_obj_pc_fields] s2_e s2(11) [unfolded upd_obj_pc_fields]
  have r2: "refmap s2 = (refmap s)(a \<mapsto> e)" using s2(4) k1(3) by simp
  have nb: "nb_append_token_ids (pc_cow_block_if_not_appendable sha) a ts s = (Inr (), s2)"
    using ap b1 s2(1) by (simp add: nb_append_token_ids_def andthen_def bind_def gets_def)
  obtain g where g: "pb_update_num_tokens_total a s2 = (Inr (), upd_obj a (\<lambda>x. x\<lparr>bl_cached_num_tokens_total := g x\<rparr>) s2)"
    by (simp add: pb_update_num_tokens_total_def modify_def Let_def)
  let ?f = "\<lambda>x. x\<lparr>bl_cached_num_tokens_total := g x\<rparr>"
  let ?s3 = "upd_obj a ?f s2"
  have l2: "live s2 a" using s2(7) la by simp
  note k3 = upd_view_keep [OF s2(2) l2, of ?f]
  have k3: "pc_objs sha ?s3" "hashes sha ?s3 = hashes sha s2" "chains_closed ?s3" "refmap ?s3 = refmap s2"
    using k3 s2(3) by (simp_all add: hash_view_def)
  have o3: "same_content (obj x ?s3) (obj x s)" "hashes sha ?s3 x = hashes sha s x" if "live s x" "x \<noteq> a" for x
    using that s2(8,9) k1(4) k3(2) same_content_bare [of "obj x s2" "obj x s"] by simp_all
  have oa: "bl_token_ids (obj a ?s3) = bl_token_ids (obj a s) @ ts" "bl_prev_block (obj a ?s3) = bl_prev_block (obj a s)"
    "bl_cache_namespace (obj a ?s3) = bl_cache_namespace (obj a s)"
    using bareD [of "obj a s2" "obj a ?s1"] s2(8) la k1(5) pc_objsD(7) [OF s2(2) l2] by simp_all
  have c3: "pc_core ?s3 (refmap ?s3) ((hashes sha ?s3)(a := None))"
    using s2(5) unfolding k3(4) pc_core_upd_obj
    by (rule pc_core_hash) (use Ha o3(2) refmap_live [of s2] s2(7) in \<open>auto split: if_splits\<close>)
  have l3: "live ?s3 a" using l2 by simp
  obtain s4 where s4: "content_hash sha a ?s3 = (Inr (hashes sha ?s3 a), s4)" "hash_kept sha ?s3 s4"
    using content_hash_live [OF k3(1) l3] by blast
  note k4 = kept_pc [OF s4(2)] and q4 = kept_pc_objs [OF s4(2) k3(1)] and f4 = kept_fields [OF s4(2)]
    and h4 = kept_same(1) [OF s4(2) k3(1)]
  have lv: "live s4 = live s" using f4(1) s2(7) by simp
  have c4: "pc_core s4 (refmap s4) ((hashes sha s4)(a := None))"
    using c3 unfolding k4(2) q4(2)
    by (rule pc_core_hash) (use h4 refmap_live [of ?s3] in \<open>auto split: if_splits\<close>)
  have sc4: "same_content (obj x s4) (obj x ?s3)" if "live s x" for x
    using kept_bare [OF s4(2) k3(1)] that s2(7) same_content_bare by simp
  have o4: "same_content (obj x s4) (obj x s)" "hashes sha s4 x = hashes sha s x" if "live s x" "x \<noteq> a" for x
  proof -
    show "same_content (obj x s4) (obj x s)"
      by (rule same_content_trans [OF sc4 [OF that(1)] o3(1) [OF that]])
    show "hashes sha s4 x = hashes sha s x" using h4 [of x] o3(2) [OF that] s2(7) that(1) by simp
  qed
  note sa4 = sc4 [OF la, unfolded same_content_def]
  have ha4: "hashes sha s4 a = hashes sha ?s1 a" using h4 [of a] k3(2) s2(9) l3 la by simp
  have fr4: "pc_frame s s4" using s2(10) k4(1) by (auto simp: pc_frame_def)
  have run4: "pb_append_token_ids sha a ts s =
      (if hashes sha ?s3 a = None then (Inr (), s4)
       else bind (promote_to_immutable_block sha a) (\<lambda>b. set_block_id a (Some b)) s4)"
    using h0 ok(2) ts(3) nb g s4(1)
    by (simp add: pb_append_token_ids_def bind_def gets_def andthen_def guard_def return_def)
  show ?thesis
  proof (cases "hashes sha ?s3 a")
    case None
    have "pc_core s4 (refmap s4) (hashes sha s4)"
      by (rule pc_core_hash [OF c4]) (use None h4 l3 in auto)
    then have "pc_inv sha s4" using q4(1) by (simp add: pc_inv_def)
    moreover have "appended sha a ts b e s s4"
    proof -
      have "rcount (refmap s4) e = 1" "refmap s4 a = Some e" using r2 s2(6) q4(2) k3(4) by simp_all
      then have one: "\<forall>x. refmap s4 x = Some e \<longrightarrow> x = a" using rcount_one [of "refmap s4" a e] by blast
      have hn: "hashes sha s4 a = None" using h4 [OF l3] None by simp
      have c: "case hashes sha s4 a of None \<Rightarrow> e = e \<and> (\<forall>x. refmap s4 x = Some e \<longrightarrow> x = a)
          | Some h \<Rightarrow> map_of (pc_cached_blocks s4) h = Some e \<and> (map_of (pc_cached_blocks s) h = None \<longrightarrow> e = e)"
        unfolding hn option.case using one by blast
      show ?thesis
        unfolding appended_def
        by (intro conjI exI [of _ e] c) (use lv q4(2) k3(4) r2 s2(11) oa sa4 o4 fr4 k4(6) ha4 in simp_all)
    qed
    ultimately show ?thesis using run4 None q4(3) k3(3) by (intro exI2 [of _ e s4]) simp
  next
    case (Some h)
    have r4: "refmap s4 a = Some e" "rcount (refmap s4) e = 1" using q4(2) k3(4) r2 s2(6) by simp_all
    have hs4: "hashes sha s4 a = Some h" using h4 l3 Some by simp
    obtain d t where t: "bind (promote_to_immutable_block sha a) (\<lambda>b. set_block_id a (Some b)) s4 = (Inr (), t)"
        "pc_inv sha t" "chains_closed t" "live t = live s4" "refmap t = (refmap s4)(a \<mapsto> d)"
        "\<forall>x. live s4 x \<longrightarrow> same_content (obj x t) (obj x s4)" "\<forall>x. live s4 x \<longrightarrow> hashes sha t x = hashes sha s4 x"
        "pc_frame s4 t" "pc_copy_on_writes t = pc_copy_on_writes s4" "map_of (pc_cached_blocks t) h = Some d"
        "case map_of (pc_cached_blocks s4) h of
           None \<Rightarrow> d = e \<and> pc_touched_blocks t = insert e (pc_touched_blocks s4)
         | Some e' \<Rightarrow> d = e' \<and> pc_touched_blocks t = pc_touched_blocks s4"
      using promote_run [OF q4(1) q4(3) [OF k3(3)] r4 hs4 c4] by blast
    have fresh: "map_of (pc_cached_blocks s) h = None \<longrightarrow> d = e"
    proof
      assume n: "map_of (pc_cached_blocks s) h = None"
      have "map_of (pc_cached_blocks s2) h = None" using s2(12) n unfolding map_le_def by (metis domIff)
      then have "map_of (pc_cached_blocks s4) h = None" using k4(3) by simp
      then show "d = e" using t(11) by simp
    qed
    have "appended sha a ts b d s t"
    proof -
      have "same_content (obj x t) (obj x s) \<and> hashes sha t x = hashes sha s x" if "live s x" "x \<noteq> a" for x
        using t(6,7) that(1) lv same_content_trans [OF _ o4(1) [OF that]] o4(2) [OF that] by simp
      moreover have "bl_token_ids (obj a t) = bl_token_ids (obj a s4)" "bl_prev_block (obj a t) = bl_prev_block (obj a s4)"
        "bl_cache_namespace (obj a t) = bl_cache_namespace (obj a s4)"
        using t(6) la lv by (simp_all add: same_content_def)
      moreover have "refmap t = (refmap s)(a \<mapsto> d)" using t(5) q4(2) k3(4) r2 by simp
      moreover have ht: "hashes sha t a = Some h" using t(7) hs4 la lv by simp
      moreover have hta: "hashes sha t a = hashes sha ?s1 a" using ht hs4 ha4 by simp
      moreover have cse: "case hashes sha t a of None \<Rightarrow> d = e \<and> (\<forall>x. refmap t x = Some d \<longrightarrow> x = a)
          | Some h \<Rightarrow> map_of (pc_cached_blocks t) h = Some d \<and> (map_of (pc_cached_blocks s) h = None \<longrightarrow> d = e)"
        unfolding ht option.case using t(10) fresh by blast
      ultimately show ?thesis
        unfolding appended_def
        by (intro conjI exI [of _ e] cse hta)
          (use lv s2(11) oa sa4 t(4,8-9) k4(6) pc_frame_trans [OF fr4 t(8)] in simp_all)
    qed
    then show ?thesis using run4 Some t(1-3) by (intro exI2 [of _ d t]) simp
  qed
qed

section \<open>Allocating an immutable block\<close>

definition same_index :: "pc_state \<Rightarrow> pc_state \<Rightarrow> bool" where
  "same_index s t \<longleftrightarrow> pc_frame s t \<and> pc_cached_blocks t = pc_cached_blocks s \<and> pc_evictor t = pc_evictor s \<and>
     nv_free_block_indices t = nv_free_block_indices s \<and> pc_touched_blocks t = pc_touched_blocks s \<and>
     pc_copy_on_writes t = pc_copy_on_writes s \<and> pc_block_tracker t = pc_block_tracker s"

lemma same_index_trans: "same_index s t \<Longrightarrow> same_index t u \<Longrightarrow> same_index s u"
  by (auto simp: same_index_def intro: pc_frame_trans)

lemma pool_frame_index: "pool_frame s t \<Longrightarrow> same_index s t"
  using pool_frame_pc by (auto simp: same_index_def)

lemma kept_index: "hash_kept sha s t \<Longrightarrow> same_index s t"
  using kept_pc by (auto simp: same_index_def)

lemma prefix_hash_kept:
  "(\<And>p. prev = Some p \<Longrightarrow> hashes sha t p = hashes sha s p) \<Longrightarrow> prefix_hash sha t prev ts ns = prefix_hash sha s prev ts ns"
  by (simp add: prefix_hash_def split: option.split)

lemma probe_run:
  assumes i: "pc_inv sha s" "chains_closed s" and p: "prev_ok s prev" "\<And>q. prev = Some q \<Longrightarrow> is_full (obj q s)"
    and ts: "int (length ts) = nv_block_size s" "list_all packable ts" and dig: "\<And>m. is_digest (sha m)"
    and h: "prefix_hash sha s prev ts (namespace_of prev (Some ns) s) = Inr h"
  shows "\<exists>a u0 u. pc_init_block prev ts None (Some ns) s = (Inr a, u0) \<and> content_hash sha a u0 = (Inr (Some h), u) \<and>
    pc_inv sha u \<and> chains_closed u \<and> made sha a prev ts (namespace_of prev (Some ns) s) s u \<and>
    refmap u = refmap s \<and> same_index s u \<and> hashes sha u a = Some h \<and> is_full (obj a u) \<and>
    (\<forall>x. live s x \<longrightarrow> bl_cached_content_hash (obj x u) = None \<longrightarrow> bl_prev_block (obj x u) \<noteq> Some a)"
proof -
  note j = pc_invD [OF i(1)]
  let ?ns = "namespace_of prev (Some ns) s"
  obtain a u0 where u: "pc_init_block prev ts None (Some ns) s = (Inr a, u0)" "pool_frame s u0" "pc_objs sha u0"
      "chains_closed u0" "\<not> live s a" "\<forall>x. live u0 x \<longleftrightarrow> live s x \<or> x = a" "\<forall>x. live s x \<longrightarrow> obj x u0 = obj x s"
      "\<forall>x. live s x \<longrightarrow> hashes sha u0 x = hashes sha s x" "refmap u0 = (refmap s)(a := None)"
      "bl_prev_block (obj a u0) = prev" "bl_token_ids (obj a u0) = ts" "bl_cached_content_hash (obj a u0) = None"
      "bl_cache_namespace (obj a u0) = ?ns"
    using pc_init_run [OF j(1) i(2) p(1) _ ts(2) p(2) dig, of None "Some ns"] ts(1) by auto
  have la: "live u0 a" using u(6) by simp
  have pl: "live s q" if "prev = Some q" for q using p(1) that by (simp add: prev_ok_def)
  have fa: "is_full (obj a u0)"
    using full_tokens [OF pc_objsD(4) [OF u(3)] la] u(11) ts(1) pool_frame_fields(2) [OF u(2)] by simp
  have "hashes sha u0 a = Some h \<longleftrightarrow> prefix_hash sha u0 prev ts ?ns = Inr h"
  proof -
    have "hashes sha u0 q \<noteq> None" if "bl_prev_block (obj a u0) = Some q" for q
      using that u(8,10) pl [of q] p(2) [of q] live_hash(1) [OF j(1), of q] by simp
    from full_hash [OF u(12) fa this, of h] show ?thesis unfolding u(10,11,13) .
  qed
  moreover have "prefix_hash sha u0 prev ts ?ns = prefix_hash sha s prev ts ?ns"
    by (rule prefix_hash_kept) (use pl u(8) in blast)
  ultimately have ha: "hashes sha u0 a = Some h" using h by simp
  have ra: "refmap u0 = refmap s" using u(5,9) by (auto simp: refmap_def fun_eq_iff)
  have "pc_core u0 (refmap u0) (hashes sha u0)"
    unfolding ra pool_frame_pc(2) [OF u(2)]
    by (rule pc_core_hash [OF j(2)]) (use u(8) refmap_live [of s] in blast)
  then have iu: "pc_inv sha u0" using u(3) by (simp add: pc_inv_def)
  obtain v where v: "content_hash sha a u0 = (Inr (Some h), v)" "hash_kept sha u0 v"
    using content_hash_live [OF u(3) la] ha by auto
  note k = kept_pc_objs [OF v(2) u(3)] and ks = kept_same [OF v(2) u(3)] and kb = kept_bare [OF v(2) u(3)]
  have lv: "live v = live u0" using kept_fields(1) [OF v(2)] .
  have "made sha a prev ts ?ns s v"
    using u(5-8,10,11,13) lv ks kb la bareD [OF kb [OF la]] by (simp add: made_def)
  moreover have "bl_prev_block (obj x v) \<noteq> Some a" if "live s x" "bl_cached_content_hash (obj x v) = None" for x
  proof -
    have l: "live u0 x" using that(1) u(6) by simp
    have "bl_cached_content_hash (obj x s) = None" "bl_prev_block (obj x v) = bl_prev_block (obj x s)"
      using ks(4,8) [OF l] that u(7) by simp_all
    then show ?thesis using i(2) u(5) that(1) unfolding chains_closed_def by metis
  qed
  moreover have "same_index s v" by (rule same_index_trans [OF pool_frame_index [OF u(2)] kept_index [OF v(2)]])
  moreover have "chains_closed v" by (rule k(3) [OF u(4)])
  moreover have "refmap v = refmap s" using k(2) ra by simp
  moreover have "hashes sha v a = Some h" "is_full (obj a v)" using ks(1,2) [OF la] ha fa by simp_all
  ultimately show ?thesis using u(1) v(1) kept_core [OF v(2) iu] by blast
qed

lemma query_metric_keep:
  "same_objs s (s\<lparr>pc_metric_data := m\<rparr>)" "pc_inv sha (s\<lparr>pc_metric_data := m\<rparr>) = pc_inv sha s"
  "chains_closed (s\<lparr>pc_metric_data := m\<rparr>) = chains_closed s"
proof -
  show so: "same_objs s (s\<lparr>pc_metric_data := m\<rparr>)" by simp
  note k = same_objs_keep [OF so] and d = same_objsD(3) [OF so]
  show "pc_inv sha (s\<lparr>pc_metric_data := m\<rparr>) = pc_inv sha s"
    unfolding pc_inv_def k(1,3) d by simp
  show "chains_closed (s\<lparr>pc_metric_data := m\<rparr>) = chains_closed s" by (rule k(2))
qed

text \<open>The content is cached: the new object joins the holders of its block.\<close>

lemma pc_allocate_immutable_hit:
  assumes i: "pc_inv sha s" "chains_closed s" and p: "prev_ok s prev" "\<And>q. prev = Some q \<Longrightarrow> is_full (obj q s)"
    and ts: "int (length ts) = nv_block_size s" "list_all packable ts" and dig: "\<And>m. is_digest (sha m)"
    and h: "prefix_hash sha s prev ts (namespace_of prev (Some ns) s) = Inr h"
    and c: "map_of (pc_cached_blocks s) h = Some b"
  shows "\<exists>a t. pc_allocate_immutable_block sha prev ts ns s = (Inr a, t) \<and> pc_inv sha t \<and> chains_closed t \<and>
    made sha a prev ts (namespace_of prev (Some ns) s) s t \<and> refmap t = (refmap s)(a \<mapsto> b) \<and>
    hashes sha t a = Some h \<and> bl_computed (obj a t) \<and>
    pc_metric_data t = cm_query True (pc_metric_data s) \<and>
    nv_all_block_indices t = nv_all_block_indices s \<and> pc_cached_blocks t = pc_cached_blocks s \<and>
    pc_touched_blocks t = pc_touched_blocks s \<and> pc_copy_on_writes t = pc_copy_on_writes s \<and>
    nv_free_block_indices t = nv_free_block_indices s \<and>
    ev_meta (pc_evictor t) = (ev_meta (pc_evictor s))(b := None)"
proof -
  let ?ns = "namespace_of prev (Some ns) s"
  obtain a u0 u where u: "pc_init_block prev ts None (Some ns) s = (Inr a, u0)"
      "content_hash sha a u0 = (Inr (Some h), u)" "pc_inv sha u" "chains_closed u" "made sha a prev ts ?ns s u"
      "refmap u = refmap s" "same_index s u" "hashes sha u a = Some h" "is_full (obj a u)"
    using probe_run [OF i p ts dig h] by blast
  let ?m = "cm_query True (pc_metric_data u)"
  let ?v = "u\<lparr>pc_metric_data := ?m\<rparr>"
  note q = query_metric_keep [where s = u and m = ?m]
  have iv: "pc_inv sha ?v" using q(2) u(3) by simp
  note j = pc_invD [OF iv] and sv = same_objsD [OF q(1)] and skv = same_objs_keep [OF q(1)]
  have lv: "live ?v a" using u(5) sv(2) by (simp add: made_def)
  let ?w = "upd_obj a (\<lambda>x. x\<lparr>bl_block_id := Some b\<rparr>) ?v"
  note kw = set_id_keep [where b = "Some b", OF j(1) lv same_objs_refl]
  have lw: "live ?w a" using lv by simp
  have rw: "refmap ?w = (refmap s)(a \<mapsto> b)" using kw(4) sv(3) u(6) by simp
  have hw: "hashes sha ?w = hashes sha u" using kw(2) skv(3) by simp
  have fw: "is_full (obj a ?w)" using live_hash(1) [OF kw(1) lw] hw u(8) by simp
  have na: "refmap s a = None" using u(5) by (simp add: made_def refmap_def)
  have cw: "pc_core ?w (refmap s) (hashes sha u)"
    using pc_invD(2) [OF u(3)] u(6) by simp
  have bw: "block_id_of a ?w = Some b" using block_id_of_live [OF pc_objsD(1) [OF kw(1)] lw] rw by simp
  have cb: "map_of (pc_cached_blocks ?w) h = Some b" using c u(7) by (simp add: same_index_def)
  obtain t where t: "incr_refcount_cached_block a ?w = (Inr (), t)" "pc_core t ((refmap s)(a \<mapsto> b)) (hashes sha u)"
      "same_objs (upd_obj a (\<lambda>x. x\<lparr>bl_computed := True\<rparr>) ?w) t" "pc_frame ?w t"
      "pc_cached_blocks t = pc_cached_blocks ?w" "pc_touched_blocks t = pc_touched_blocks ?w"
      "pc_copy_on_writes t = pc_copy_on_writes ?w" "nv_free_block_indices t = nv_free_block_indices ?w"
      "ev_meta (pc_evictor t) = (ev_meta (pc_evictor ?w))(b := None)"
    using incr_cached_run [OF cw pc_objsD(1) [OF kw(1)] lw bw u(8) cb na] by blast
  note kt = set_computed_keep [OF kw(1) lw fw t(3)]
  have rt: "refmap t = (refmap s)(a \<mapsto> b)" using kt(4) rw by simp
  have ht: "hashes sha t = hashes sha u" using kt(2) hw by simp
  have it: "pc_inv sha t" using kt(1) t(2) rt ht by (simp add: pc_inv_def)
  have lt: "live t = live u" using kt(5) kw(5) sv(2) by simp
  have sc: "same_content (obj a t) (obj a u)"
    using same_content_trans [OF kt(6) [of a] same_content_bare [OF kw(6) [of a]]] sv(1) by simp
  have ob: "bare (obj x t) = bare (obj x u)" if "x \<noteq> a" for x
    using kt(7) [OF that] kw(6) [of x] sv(1) by simp
  have "bare (obj x t) = bare (obj x s)" if "live s x" for x
  proof -
    have "x \<noteq> a" using u(5) that by (auto simp: made_def)
    then show ?thesis using ob u(5) that by (simp add: made_def)
  qed
  then have "made sha a prev ts ?ns s t"
    using u(5) lt ht sc by (simp add: made_def same_content_def)
  moreover have "chains_closed t" using kt(3) kw(3) q(3) u(4) by simp
  moreover have "pc_allocate_immutable_block sha prev ts ns s = (Inr a, t)"
  proof -
    have "map_of (pc_cached_blocks u) h = Some b" using c u(7) by (simp add: same_index_def)
    then show ?thesis
      using assert_prev_run [OF pc_invD(1) [OF i(1)] p(1)] u(1,2) t(1)
        set_block_id_run(1) [OF pc_objsD(1) [OF j(1)] lv, of "Some b"]
      by (simp add: pc_allocate_immutable_block_def andthen_def bind_def from_option_def return_def gets_def
          query_metric_def modify_def)
  qed
  moreover have "pc_metric_data t = cm_query True (pc_metric_data s)"
    "nv_all_block_indices t = nv_all_block_indices s" "pc_cached_blocks t = pc_cached_blocks s"
    "pc_touched_blocks t = pc_touched_blocks s" "pc_copy_on_writes t = pc_copy_on_writes s"
    "nv_free_block_indices t = nv_free_block_indices s"
    "ev_meta (pc_evictor t) = (ev_meta (pc_evictor s))(b := None)"
    using t(4-9) u(7) by (simp_all add: pc_frame_def same_index_def)
  moreover have "hashes sha t a = Some h" using ht u(8) by simp
  ultimately show ?thesis using it rt kt(8) by blast
qed

text \<open>The content is not cached: a block is taken, filled and entered into the cache.\<close>

lemma pc_allocate_immutable_probe_miss:
  assumes i: "pc_inv sha s" "chains_closed s" and p: "prev_ok s prev" "\<And>q. prev = Some q \<Longrightarrow> is_full (obj q s)"
    and ts: "int (length ts) = nv_block_size s" "list_all packable ts" and dig: "\<And>m. is_digest (sha m)"
    and h: "prefix_hash sha s prev ts (namespace_of prev (Some ns) s) = Inr h"
    and c: "map_of (pc_cached_blocks s) h = None"
  shows "\<exists>w. pc_allocate_immutable_block sha prev ts ns s =
      bind (pc_allocate_mutable_block sha prev (Some ns)) (\<lambda>a.
        andthen (pb_append_token_ids sha a ts) (return a)) w \<and>
    pc_inv sha w \<and> chains_closed w \<and> live w = live s \<and> refmap w = refmap s \<and>
    (\<forall>x. live s x \<longrightarrow> bare (obj x w) = bare (obj x s) \<and> hashes sha w x = hashes sha s x) \<and>
    same_index (s\<lparr>pc_metric_data := cm_query False (pc_metric_data s)\<rparr>) w"
proof -
  let ?ns = "namespace_of prev (Some ns) s"
  obtain a u0 u where u: "pc_init_block prev ts None (Some ns) s = (Inr a, u0)"
      "content_hash sha a u0 = (Inr (Some h), u)" "pc_inv sha u" "chains_closed u" "made sha a prev ts ?ns s u"
      "refmap u = refmap s" "same_index s u" "hashes sha u a = Some h" "is_full (obj a u)"
      "\<forall>x. live s x \<longrightarrow> bl_cached_content_hash (obj x u) = None \<longrightarrow> bl_prev_block (obj x u) \<noteq> Some a"
    using probe_run [OF i p ts dig h] by blast
  let ?m = "cm_query False (pc_metric_data u)"
  let ?v = "u\<lparr>pc_metric_data := ?m\<rparr>"
  note q = query_metric_keep [where s = u and m = ?m]
  have iv: "pc_inv sha ?v" and cv: "chains_closed ?v" using q(2,3) u(3,4) by simp_all
  note j = pc_invD [OF iv] and sv = same_objsD [OF q(1)] and skv = same_objs_keep [OF q(1)]
  have lv: "live ?v a" using u(5) sv(2) by (simp add: made_def)
  let ?w = "?v\<lparr>nv_pool_free_ids := a # nv_pool_free_ids ?v\<rparr>"
  note f = free_block_run [OF j(3) lv] and k = free_block_keep [OF j(1) lv]
  have ms: "\<not> live s a" "\<forall>x. live u x \<longleftrightarrow> live s x \<or> x = a" using u(5) by (simp_all add: made_def)
  have na: "refmap s a = None" using ms(1) by (simp add: refmap_def)
  have rw: "refmap ?w = refmap s" using f(4) sv(3) u(6) na by auto
  have lw: "live ?w = live s" using f(3) sv(2) ms by (auto simp: fun_eq_iff)
  have "pc_core ?w (refmap ?w) (hashes sha ?w)"
    using j(2) rw u(6) sv(3) k(2) by simp
  then have iw: "pc_inv sha ?w" using k(1) by (simp add: pc_inv_def)
  have "chains_closed ?w"
    by (rule free_block_closed [OF j(3) lv cv]) (use u(10) sv(1,2) ms in auto)
  moreover have "bare (obj x ?w) = bare (obj x s) \<and> hashes sha ?w x = hashes sha s x" if "live s x" for x
    using u(5) that k(2) skv(3) sv(1) by (simp add: made_def)
  moreover have "pc_allocate_immutable_block sha prev ts ns s =
      bind (pc_allocate_mutable_block sha prev (Some ns)) (\<lambda>a.
        andthen (pb_append_token_ids sha a ts) (return a)) ?w"
  proof -
    have "map_of (pc_cached_blocks u) h = None" "pc_cpu_cache u = None"
      using c u(7) pc_coreD(4) [OF pc_invD(2) [OF u(3)]] by (simp_all add: same_index_def)
    then show ?thesis
      using assert_prev_run [OF pc_invD(1) [OF i(1)] p(1)] u(1,2) f(1)
      by (simp add: pc_allocate_immutable_block_def andthen_def bind_def from_option_def return_def gets_def
          query_metric_def modify_def maybe_restore_external_cached_block_def)
  qed
  moreover have "same_index (s\<lparr>pc_metric_data := cm_query False (pc_metric_data s)\<rparr>) ?w"
    using u(7) by (simp add: same_index_def pc_frame_def)
  ultimately show ?thesis using iw lw rw by blast
qed

lemma pc_allocate_immutable_miss:
  assumes i: "pc_inv sha s" "chains_closed s" and p: "prev_ok s prev" "\<And>q. prev = Some q \<Longrightarrow> is_full (obj q s)"
    and ts: "int (length ts) = nv_block_size s" "list_all packable ts" and dig: "\<And>m. is_digest (sha m)"
    and h: "prefix_hash sha s prev ts (namespace_of prev (Some ns) s) = Inr h"
    and c: "map_of (pc_cached_blocks s) h = None" and f: "0 < pc_get_num_free_blocks s"
  shows "\<exists>a b t. pc_allocate_immutable_block sha prev ts ns s = (Inr a, t) \<and> pc_inv sha t \<and> chains_closed t \<and>
    \<not> live s a \<and> (\<forall>x. live t x \<longleftrightarrow> live s x \<or> x = a) \<and> refmap t = (refmap s)(a \<mapsto> b) \<and> b \<notin> ran (refmap s) \<and>
    bl_prev_block (obj a t) = prev \<and> bl_token_ids (obj a t) = ts \<and>
    bl_cache_namespace (obj a t) = namespace_of prev (Some ns) s \<and> hashes sha t a = Some h \<and>
    (\<forall>x. live s x \<longrightarrow> same_content (obj x t) (obj x s) \<and> hashes sha t x = hashes sha s x) \<and>
    map_of (pc_cached_blocks t) h = Some b \<and> pc_copy_on_writes t = pc_copy_on_writes s \<and>
    nv_all_block_indices t = nv_all_block_indices s \<and> pc_metric_data t = cm_query False (pc_metric_data s)"
proof -
  let ?ns = "namespace_of prev (Some ns) s"
  obtain w where w: "pc_allocate_immutable_block sha prev ts ns s =
      bind (pc_allocate_mutable_block sha prev (Some ns)) (\<lambda>a.
        andthen (pb_append_token_ids sha a ts) (return a)) w"
      "pc_inv sha w" "chains_closed w" "live w = live s" "refmap w = refmap s"
      "\<forall>x. live s x \<longrightarrow> bare (obj x w) = bare (obj x s) \<and> hashes sha w x = hashes sha s x"
      "same_index (s\<lparr>pc_metric_data := cm_query False (pc_metric_data s)\<rparr>) w"
    using pc_allocate_immutable_probe_miss [OF i p ts dig h c] by blast
  have pw: "prev_ok w prev" using p(1) w(4) by (simp add: prev_ok_def split: option.splits)
  have pl: "live s q" if "prev = Some q" for q using p(1) that by (simp add: prev_ok_def)
  have nw: "namespace_of prev (Some ns) w = ?ns"
  proof -
    have "bl_cache_namespace (obj q w) = bl_cache_namespace (obj q s)" if "prev = Some q" for q
      using bareD(5) [of "obj q w" "obj q s"] w(6) pl [OF that] by blast
    then show ?thesis by (simp add: namespace_of_def split: option.split)
  qed
  have fw: "0 < pc_get_num_free_blocks w"
    using f w(7) by (simp add: same_index_def pc_get_num_free_blocks_def nv_get_num_free_blocks_def)
  obtain a b v where v: "pc_allocate_mutable_block sha prev (Some ns) w = (Inr a, v)" "pc_inv sha v" "chains_closed v"
      "made sha a prev [] ?ns w v" "refmap v = (refmap s)(a \<mapsto> b)" "b \<notin> ran (refmap s)" "takes_id b w v"
    using pc_allocate_mutable_run [OF w(2,3) pw fw dig, of "Some ns"] nw w(5) by auto
  note m = v(4) [unfolded made_def w(4)]
  note jv = pc_invD [OF v(2)]
  have bs: "nv_block_size v = nv_block_size s" using w(7) v(7) by (simp add: same_index_def takes_id_def pc_frame_def)
  have la: "live v a" using m by simp
  have co: "bl_block_size (obj a v) = nv_block_size s" "0 < nv_block_size s"
    using pc_objsD(3,4) [OF jv(1)] la bs by (simp_all add: contents_ok_def)
  have nf: "\<not> is_full (obj a v)" and es: "int (length ts) \<le> num_empty_slots (obj a v)"
    using m co ts(1) by (simp_all add: is_full_def num_empty_slots_def)
  have ne: "ts \<noteq> []" using ts(1) co(2) by auto
  have pf: "is_full (obj q v)" if "bl_prev_block (obj a v) = Some q" for q
  proof -
    have "bare (obj q v) = bare (obj q s)" using that m w(6) pl by simp
    then show ?thesis using bareD(3) p(2) that m by metis
  qed
  have ra: "refmap v a = Some b" using v(5) by simp
  have one: "rcount (refmap v) b = 1"
    unfolding rcount_one [of "refmap v", OF ra] using v(5,6) by (auto simp: ran_def)
  obtain d t where t: "pb_append_token_ids sha a ts v = (Inr (), t)" "pc_inv sha t" "chains_closed t"
      "appended sha a ts b d v t"
    using pc_append_run [OF v(2,3) ra nf es ts(2) ne pf dig] one by blast
  note ap = t(4) [unfolded appended_def]
  have ha: "hashes sha t a = Some h"
  proof -
    let ?x = "add_tokens a ts v"
    note k = add_tokens_keep [OF jv(1) v(3) la nf es ts(2) ne pf dig]
    have lx: "live ?x a" using la by simp
    have cn: "bl_cached_content_hash (obj a ?x) = None"
      using k(5) pc_objsD(6) [OF jv(1) la] nf by (simp add: obj_ok_def)
    have fx: "is_full (obj a ?x)" using k(5) m co(1) ts(1) by (simp add: is_full_def num_empty_slots_def)
    have hp: "hashes sha ?x q = hashes sha s q" if "prev = Some q" for q
    proof -
      have "live v q" "q \<noteq> a" using pl [OF that] m by auto
      then show ?thesis using k(4) [of q] m w(6) pl [OF that] by simp
    qed
    have "hashes sha ?x q \<noteq> None" if "bl_prev_block (obj a ?x) = Some q" for q
      using that k(5) m hp live_hash(1) [OF pc_invD(1) [OF i(1)]] pl p(2) by simp
    from full_hash [OF cn fx this, of h]
    have "hashes sha ?x a = Some h \<longleftrightarrow> prefix_hash sha ?x prev ts ?ns = Inr h" using k(5) m by simp
    moreover have "prefix_hash sha ?x prev ts ?ns = prefix_hash sha s prev ts ?ns"
      by (rule prefix_hash_kept) (rule hp)
    ultimately show ?thesis using h ap by simp
  qed
  have cv: "map_of (pc_cached_blocks v) h = None"
  proof -
    have "map_of (pc_cached_blocks w) h = None" using c w(7) by (simp add: same_index_def)
    then show ?thesis using takes_id_cached [OF v(7)] unfolding map_le_def by (metis domIff)
  qed
  have d: "d = b" "map_of (pc_cached_blocks t) h = Some d" "pc_copy_on_writes t = pc_copy_on_writes v"
    using ap ha cv one by auto
  have lx: "same_content (obj x t) (obj x s) \<and> hashes sha t x = hashes sha s x" if "live s x" for x
  proof -
    have "x \<noteq> a" using that m by auto
    then have "same_content (obj x t) (obj x v)" "hashes sha t x = hashes sha v x" using ap that m by auto
    moreover have "same_content (obj x v) (obj x s)" "hashes sha v x = hashes sha s x"
      using same_content_bare [of "obj x v" "obj x s"] m w(6) that by auto
    ultimately show ?thesis using same_content_trans by auto
  qed
  have "pc_allocate_immutable_block sha prev ts ns s = (Inr a, t)"
    using w(1) v(1) t(1) by (simp add: andthen_def bind_def return_def)
  moreover have "refmap t = (refmap s)(a \<mapsto> b)" using ap v(5) d(1) by simp
  moreover have "pc_copy_on_writes t = pc_copy_on_writes s" "nv_all_block_indices t = nv_all_block_indices s"
      "pc_metric_data t = cm_query False (pc_metric_data s)"
    using d(3) v(7) w(7) ap by (simp_all add: takes_id_def same_index_def pc_frame_def)
  moreover have "bl_prev_block (obj a t) = prev" "bl_token_ids (obj a t) = ts"
      "bl_cache_namespace (obj a t) = ?ns" "\<not> live s a" "\<forall>x. live t x \<longleftrightarrow> live s x \<or> x = a"
    using ap m by simp_all
  ultimately show ?thesis
    using t(2,3) v(6) ha d lx by (intro exI [of _ a] exI2 [of _ b t] conjI) simp_all
qed

end
