(* ===== verification/PrefixCorrect.thy ===== *)
theory PrefixCorrect
  imports PrefixOps
begin

text \<open>
  Correctness of the prefix-caching allocator: every state that its operations reach satisfies the
  invariant, and what the cache does for a client, a hit on a cached content, reuse of freed content,
  and eviction only when no other block is left.
\<close>

section \<open>Creation\<close>

lemma pc_init_inv:
  assumes "pc_init os_environ num_blocks block_size None policy = Inr s" "0 < num_blocks" "0 < block_size"
  shows "pc_inv sha s" "chains_closed s" "refmap s = Map.empty" "nv_get_num_total_blocks s = nat num_blocks"
    "nv_block_size s = block_size"
proof -
  let ?ids = "int_range num_blocks"
  let ?n = "nat (num_blocks * 4)"
  have ids: "distinct ?ids" "set ?ids = {0 ..< num_blocks}" "remdups ?ids = ?ids"
    by (auto simp: int_range_def distinct_remdups_id)
  obtain p where s: "s = nv_state.extend ((pool_init ?n (nv_empty PrefixCachingBlock block_size))
      \<lparr>nv_free_block_indices := ?ids, nv_all_block_indices := ?ids, nv_refcounts := rc_init ?ids, nv_copy_on_writes := []\<rparr>)
      \<lparr>pc_cached_blocks = [], pc_touched_blocks = {}, pc_block_tracker = map (\<lambda>b. (b, tr_new)) ?ids,
       pc_evictor = make_evictor p, pc_copy_on_writes = [], pc_metric_data = cm_default, pc_cpu_cache = None\<rparr>"
    using assms(1)
    by (auto simp: distinct_remdups_id [OF ids(1)] pc_init_def nv_init_ids_def echeck_def ebind_Inr_iff Let_def split: if_splits)
  have f: "nv_heap s = replicate ?n (fresh_block PrefixCachingBlock block_size)" "nv_pool s = [0 ..< ?n]"
    "nv_pool_size s = ?n" "nv_pool_free_ids s = [0 ..< ?n]" "nv_create_block s = PrefixCachingBlock"
    "nv_free_block_indices s = ?ids" "nv_all_block_indices s = ?ids" "nv_refcounts s = rc_init ?ids"
    "pc_cached_blocks s = []" "pc_block_tracker s = map (\<lambda>b. (b, tr_new)) ?ids" "pc_evictor s = make_evictor p"
    "pc_cpu_cache s = None"
    by (simp_all add: s nv_state.defs pool_init_def pool_grow_def nv_empty_def)
  show bs: "nv_block_size s = block_size"
    by (simp add: s nv_state.defs pool_init_def pool_grow_def nv_empty_def)
  have lv: "\<not> live s a" for a by (simp add: live_def f)
  then show r: "refmap s = Map.empty" by (simp add: refmap_def fun_eq_iff)
  show "chains_closed s" using lv by (simp add: chains_closed_def)
  have n: "0 < ?n" using assms(2) by simp
  have o: "obj a s = fresh_block PrefixCachingBlock block_size" if "a < ?n" for a
    using that by (simp add: obj_def f)
  have "pool_ok s" unfolding pool_ok_def using n lv o by (auto simp: f fresh_block_def)
  moreover have "prevs_ok (nv_heap s)" by (simp add: prevs_ok_def f fresh_block_def)
  ultimately have "pc_objs sha s"
    using lv bs assms(3) f(5) by (simp add: pc_objs_def contents_ok_def)
  moreover have "pc_core s (refmap s) (hashes sha s)"
  proof -
    have "map_of (rc_init ?ids) = (\<lambda>b. if b \<in> set ?ids then Some 0 else None)"
      unfolding rc_init_def ids(3) by (rule map_of_map_restrict [THEN trans]) (auto simp: restrict_map_def)
    then have "ids_ok (set ?ids) (set ?ids \<union> dom (Map.empty :: block_id \<rightharpoonup> block_meta_data)) (map_of (rc_init ?ids)) Map.empty"
      by (auto simp: ids_ok_def rcount_def dom_def)
    moreover have "acts s = (\<lambda>b. if b \<in> set ?ids then Some False else None)"
      unfolding acts_def f
      by (rule ext) (simp add: map_of_map_restrict restrict_map_def tr_new_def)
    ultimately have "idx_ok (set ?ids) (set ?ids) Map.empty (map_of (rc_init ?ids)) Map.empty (acts s)
        Map.empty (hashes sha s)"
      by (intro idx_okI) (auto split: if_splits)
    then show ?thesis unfolding pc_core_def r f using ids(1) by simp
  qed
  ultimately show "pc_inv sha s" by (simp add: pc_inv_def)
  show "nv_get_num_total_blocks s = nat num_blocks"
    by (simp add: nv_get_num_total_blocks_def f int_range_def)
qed

section \<open>Marks\<close>

lemma idx_touch:
  assumes i: "idx_ok A F E M C T R H" and m: "E b = Some m" "bm_content_hash m' = bm_content_hash m"
  shows "idx_ok A F (E(b \<mapsto> m')) M C T R H"
proof -
  have d: "dom (E(b \<mapsto> m')) = dom E" using m(1) by auto
  have e: "C (bm_content_hash n) = Some c" if "(E(b \<mapsto> m')) c = Some n" for c n
    using that idx_okD(7) [OF i, of c n] idx_okD(7) [OF i m(1)] m(2) by (auto split: if_splits)
  show ?thesis using i e unfolding idx_ok_def d by blast
qed

lemma pc_inv_tracker:
  assumes "pc_inv sha s" "acts (s\<lparr>pc_block_tracker := T\<rparr>) = acts s"
  shows "pc_inv sha (s\<lparr>pc_block_tracker := T\<rparr>)"
proof -
  have so: "same_objs s (s\<lparr>pc_block_tracker := T\<rparr>)" by simp
  note k = same_objs_keep [OF so] and d = same_objsD(3) [OF so]
  show ?thesis using assms unfolding pc_inv_def k(1,3) d pc_core_def by simp
qed

lemma on_tracker_keep:
  assumes "pc_inv sha s" "\<And>x. tr_active (snd (m x)) = tr_active x" "on_tracker b m s = (r, t)"
  shows "pc_inv sha t" "same_objs s t"
proof -
  consider "t = s" | x where "map_of (pc_block_tracker s) b = Some x"
      "t = s\<lparr>pc_block_tracker := AList.update b (snd (m x)) (pc_block_tracker s)\<rparr>"
    using assms(3) by (auto simp: on_tracker_def split: option.splits prod.splits)
  then have "pc_inv sha t \<and> same_objs s t"
  proof cases
    case (2 x)
    then have "acts t = acts s"
      using assms(2) [of x] by (auto simp: acts_def fun_eq_iff dict_simps)
    then show ?thesis using pc_inv_tracker [OF assms(1)] 2(2) by simp
  qed (use assms(1) in simp)
  then show "pc_inv sha t" "same_objs s t" by blast+
qed

lemma mark_accessed_keep:
  assumes "pc_inv sha s"
  shows "wp (mark_block_as_accessed now b) (\<lambda>_ t. pc_inv sha t \<and> same_objs s t)
    (\<lambda>_ t. pc_inv sha t \<and> same_objs s t) s"
proof -
  have t: "wp (on_tracker b m) (\<lambda>_ t. pc_inv sha t \<and> same_objs s t) (\<lambda>_ t. pc_inv sha t \<and> same_objs s t) u"
    if u: "pc_inv sha u" "same_objs s u" and m: "\<And>x. tr_active (snd (m x)) = tr_active x" for m u
  proof -
    obtain r v where r: "on_tracker b m u = (r, v)" by (cases "on_tracker b m u")
    show ?thesis
      using on_tracker_keep [OF u(1) m r] same_objs_trans [OF u(2)] unfolding wp_def r
      by (auto split: sum.split)
  qed
  have e: "wp (on_evictor (ev_update b now)) (\<lambda>_ t. pc_inv sha t \<and> same_objs s t)
      (\<lambda>_ t. pc_inv sha t \<and> same_objs s t) u" if u: "pc_inv sha u" "same_objs s u" for u
  proof (cases "ev_meta (pc_evictor u) b")
    case None
    then show ?thesis using ev.touch_missing u by (simp add: on_evictor_def wp_def zoom_def)
  next
    case (Some m)
    note c = pc_coreD [OF pc_invD(2) [OF u(1)]]
    obtain e where e: "ev_update b now (pc_evictor u) = (Inr (), e)" "ev_inv e"
        "ev_meta e = (ev_meta (pc_evictor u))(b \<mapsto> m\<lparr>bm_last_accessed := now\<rparr>)"
      using ev.touch_run [OF c(3) Some] by blast
    let ?t = "u\<lparr>pc_evictor := e\<rparr>"
    have so: "same_objs u ?t" by simp
    note k = same_objs_keep [OF so] and d = same_objsD(3) [OF so]
    have "pc_core ?t (refmap u) (hashes sha u)"
      using c idx_touch [OF c(5) Some, of "m\<lparr>bm_last_accessed := now\<rparr>"] e(2,3) by (simp add: pc_core_def)
    then have "pc_inv sha ?t" using pc_invD(1) [OF u(1)] unfolding pc_inv_def k(1,3) d by simp
    then show ?thesis
      using e(1) same_objs_trans [OF u(2) so] by (simp add: on_evictor_def wp_def zoom_def)
  qed
  have tg: "tr_active (snd (gets tr_active x)) = tr_active x" for x by (simp add: gets_def)
  have tm: "tr_active (snd (modify (\<lambda>t. t\<lparr>tr_last_accessed := now\<rparr>) x)) = tr_active x" for x
    by (simp add: modify_def)
  show ?thesis
    unfolding mark_block_as_accessed_def wp_bind
    by (rule wp_mono [OF t [OF assms same_objs_refl tg]]) (auto simp: wp_simps intro: e t [OF _ _ tm])
qed

lemma mark_computed_keep:
  assumes "pc_inv sha s" "pc_mark_blocks_as_computed ids s = (r, t)"
  shows "pc_inv sha t" "same_objs s t"
proof -
  let ?T = "map (\<lambda>(b, t). (b, if b \<in> pc_touched_blocks s then t\<lparr>tr_computed := True\<rparr> else t)) (pc_block_tracker s)"
  have t: "t = s \<or> t = s\<lparr>pc_block_tracker := ?T, pc_touched_blocks := {}\<rparr>"
    using assms(2) by (auto simp: pc_mark_blocks_as_computed_def py_defs split: if_splits)
  have m: "map_option tr_active (map_of (map (\<lambda>(b, t). (b, if b \<in> X then t\<lparr>tr_computed := True\<rparr> else t)) l) b) =
      map_option tr_active (map_of l b)" for b l and X :: "block_id set"
    by (induction l) (auto split: if_splits)
  have a: "acts (s\<lparr>pc_block_tracker := ?T\<rparr>) = acts s"
  proof
    fix b
    have e: "pc_block_tracker (s\<lparr>pc_block_tracker := ?T\<rparr>) = ?T" by simp
    show "acts (s\<lparr>pc_block_tracker := ?T\<rparr>) b = acts s b" unfolding acts_def e by (rule m)
  qed
  let ?u = "s\<lparr>pc_block_tracker := ?T\<rparr>"
  have so: "same_objs ?u (?u\<lparr>pc_touched_blocks := {}\<rparr>)" by simp
  note k = same_objs_keep [OF so] and d = same_objsD(3) [OF so]
  have u: "pc_inv sha ?u" by (rule pc_inv_tracker [OF assms(1) a])
  have "pc_inv sha (?u\<lparr>pc_touched_blocks := {}\<rparr>)"
    using u unfolding pc_inv_def k(1,3) d pc_core_def by simp
  then show "pc_inv sha t" using t assms(1) by auto
  show "same_objs s t" using t same_objs_trans [OF _ so, of s] by auto
qed

section \<open>The allocator as the client sees it\<close>

lemma pc_num_free:
  assumes "pc_core s R H"
  shows "pc_get_num_free_blocks s = card (set (nv_free_block_indices s)) + card (dom (ev_meta (pc_evictor s)))"
  using pc_coreD [OF assms] ev.num_eq by (simp add: pc_get_num_free_blocks_def nv_get_num_free_blocks_def distinct_card)

lemma pc_conservation:
  assumes "pc_core s R H"
  shows "pc_get_num_free_blocks s + card (ran R) = pc_get_num_total_blocks s"
  using idx_conservation [OF pc_coreD(5) [OF assms]] pc_coreD(1) [OF assms] pc_num_free [OF assms]
  by (simp add: pc_get_num_total_blocks_def nv_get_num_total_blocks_def distinct_card)

interpretation pc: block_allocator "\<lambda>s. pc_inv sha s \<and> (\<forall>m. is_digest (sha m))" chains_closed refmap
  pc_get_num_free_blocks pc_get_num_total_blocks "\<lambda>prev. pc_allocate_mutable_block sha prev None"
  "\<lambda>a. pc_free sha a False" for sha
proof unfold_locales
  fix s :: pc_state
  assume i: "pc_inv sha s \<and> (\<forall>m. is_digest (sha m))"
  then have inv: "pc_inv sha s" and dig: "\<And>m. is_digest (sha m)" by blast+
  show "pc_get_num_free_blocks s + card (ran (refmap s)) = pc_get_num_total_blocks s"
    by (rule pc_conservation [OF pc_invD(2) [OF inv]])
  have p: "prev_ok s None" by (simp add: prev_ok_def)
  show "\<exists>a b t. pc_allocate_mutable_block sha None None s = (Inr a, t) \<and>
      (pc_inv sha t \<and> (\<forall>m. is_digest (sha m))) \<and> chains_closed t \<and> refmap s a = None \<and>
      b \<notin> ran (refmap s) \<and> refmap t = (refmap s)(a \<mapsto> b) \<and>
      pc_get_num_total_blocks t = pc_get_num_total_blocks s"
    if c: "chains_closed s" and f: "0 < pc_get_num_free_blocks s"
  proof -
    obtain a b t where t: "pc_allocate_mutable_block sha None None s = (Inr a, t)" "pc_inv sha t" "chains_closed t"
        "made sha a None [] (namespace_of None None s) s t" "refmap t = (refmap s)(a \<mapsto> b)"
        "b \<notin> ran (refmap s)" "takes_id b s t"
      using pc_allocate_mutable_run [OF inv c p f dig, of None] by blast
    have "refmap s a = None" using t(4) by (simp add: made_def refmap_def)
    moreover have "pc_get_num_total_blocks t = pc_get_num_total_blocks s"
      using t(7) by (simp add: takes_id_def pc_frame_def pc_get_num_total_blocks_def nv_get_num_total_blocks_def)
    ultimately show ?thesis using t dig by blast
  qed
  show "\<exists>t. pc_allocate_mutable_block sha None None s = (Inl NoFreeBlocksError, t) \<and>
      (pc_inv sha t \<and> (\<forall>m. is_digest (sha m))) \<and> refmap t = refmap s"
    if "chains_closed s" "pc_get_num_free_blocks s = 0"
    using pc_allocate_mutable_full [OF inv p that(2)] inv dig by blast
  show "\<exists>t. pc_free sha a False s = (Inr (), t) \<and> (pc_inv sha t \<and> (\<forall>m. is_digest (sha m))) \<and>
      refmap t = (refmap s)(a := None) \<and> pc_get_num_total_blocks t = pc_get_num_total_blocks s"
    if r: "refmap s a = Some b" for a b
    using pc_free_run [OF inv r] dig
    by (auto simp: gives_back_def pc_frame_def pc_get_num_total_blocks_def nv_get_num_total_blocks_def)
qed simp

section \<open>Reachable states\<close>

text \<open>
  The calls of a client. Blocks are made while the chains are closed, and tokens are put behind full
  blocks only, as a block table does. Allocations that raise are steps too.
\<close>

inductive pc_step :: "(bytes \<Rightarrow> bytes) \<Rightarrow> pc_state \<Rightarrow> pc_state \<Rightarrow> bool" for sha where
  mutable: "chains_closed s \<Longrightarrow> prev_ok s prev \<Longrightarrow> pc_allocate_mutable_block sha prev ns s = (r, t) \<Longrightarrow>
    pc_step sha s t"
| immutable: "chains_closed s \<Longrightarrow> prev_ok s prev \<Longrightarrow> (\<And>q. prev = Some q \<Longrightarrow> is_full (obj q s)) \<Longrightarrow>
    int (length ts) = nv_block_size s \<Longrightarrow> list_all packable ts \<Longrightarrow>
    pc_allocate_immutable_block sha prev ts ns s = (r, t) \<Longrightarrow> pc_step sha s t"
| append: "chains_closed s \<Longrightarrow> refmap s a = Some b \<Longrightarrow>
    (\<And>q. bl_prev_block (obj a s) = Some q \<Longrightarrow> is_full (obj q s)) \<Longrightarrow> list_all packable ts \<Longrightarrow>
    pb_append_token_ids sha a ts s = (Inr (), t) \<Longrightarrow> pc_step sha s t"
| free: "refmap s a = Some b \<Longrightarrow> pc_free sha a False s = (r, t) \<Longrightarrow> pc_step sha s t"
| accessed: "pc_mark_blocks_as_accessed ids now s = (r, t) \<Longrightarrow> pc_step sha s t"
| computed: "pc_mark_blocks_as_computed ids s = (r, t) \<Longrightarrow> pc_step sha s t"
| clear_cows: "pc_clear_copy_on_writes s = (r, t) \<Longrightarrow> pc_step sha s t"

inductive pc_reachable :: "(bytes \<Rightarrow> bytes) \<Rightarrow> eviction_policy option \<Rightarrow> int \<Rightarrow> int \<Rightarrow> pc_state \<Rightarrow> bool"
  for sha policy num_blocks block_size where
  init: "pc_init os_environ num_blocks block_size None policy = Inr s \<Longrightarrow>
    pc_reachable sha policy num_blocks block_size s"
| step: "pc_reachable sha policy num_blocks block_size s \<Longrightarrow> pc_step sha s t \<Longrightarrow>
    pc_reachable sha policy num_blocks block_size t"

lemma prefix_hash_exists:
  assumes "pc_objs sha s" "prev_ok s prev" "\<And>q. prev = Some q \<Longrightarrow> is_full (obj q s)" "list_all packable ts"
  shows "\<exists>h. prefix_hash sha s prev ts ns = Inr h"
proof (cases prev)
  case None
  then show ?thesis
    using hash_block_tokens_packable [OF assms(4), of sha None ns] by (auto simp: prefix_hash_def)
next
  case (Some q)
  then have "hashes sha s q \<noteq> None"
    using assms(2,3) live_hash(1) [OF assms(1), of q] by (simp add: prev_ok_def)
  then show ?thesis
    using hash_block_tokens_packable [OF assms(4), of sha "hashes sha s q" ns] Some
    by (auto simp: prefix_hash_def)
qed

lemma pc_allocate_mutable_inv:
  assumes "pc_inv sha s" "chains_closed s" "prev_ok s prev" "\<And>m. is_digest (sha m)"
    "pc_allocate_mutable_block sha prev ns s = (r, t)"
  shows "pc_inv sha t"
proof (cases "pc_get_num_free_blocks s = 0")
  case True
  then show ?thesis using pc_allocate_mutable_full [OF assms(1,3) True] assms(1,5) by simp
next
  case False
  then have "0 < pc_get_num_free_blocks s" by simp
  from pc_allocate_mutable_run [OF assms(1-3) this assms(4), of ns] show ?thesis using assms(5) by auto
qed

lemma pc_allocate_immutable_inv:
  assumes i: "pc_inv sha s" "chains_closed s" and p: "prev_ok s prev" "\<And>q. prev = Some q \<Longrightarrow> is_full (obj q s)"
    and ts: "int (length ts) = nv_block_size s" "list_all packable ts" and dig: "\<And>m. is_digest (sha m)"
    and run: "pc_allocate_immutable_block sha prev ts ns s = (r, t)"
  shows "pc_inv sha t"
proof -
  obtain h where h: "prefix_hash sha s prev ts (namespace_of prev (Some ns) s) = Inr h"
    using prefix_hash_exists [OF pc_invD(1) [OF i(1)] p ts(2)] by blast
  show ?thesis
  proof (cases "map_of (pc_cached_blocks s) h")
    case (Some b)
    then show ?thesis using pc_allocate_immutable_hit [OF i p ts dig h] run by auto
  next
    case None
    obtain w where w: "pc_allocate_immutable_block sha prev ts ns s =
        bind (pc_allocate_mutable_block sha prev (Some ns)) (\<lambda>a.
          andthen (pb_append_token_ids sha a ts) (return a)) w" "pc_inv sha w" "live w = live s"
        "same_index (s\<lparr>pc_metric_data := cm_query False (pc_metric_data s)\<rparr>) w"
      using pc_allocate_immutable_probe_miss [OF i p ts dig h None] by blast
    show ?thesis
    proof (cases "pc_get_num_free_blocks s = 0")
      case True
      then have "pc_get_num_free_blocks w = 0"
        using w(4) by (simp add: same_index_def pc_get_num_free_blocks_def nv_get_num_free_blocks_def)
      moreover have "prev_ok w prev" using p(1) w(3) by (simp add: prev_ok_def split: option.splits)
      ultimately show ?thesis
        using pc_allocate_mutable_full [OF w(2)] w(1,2) run by (simp add: bind_def)
    next
      case False
      then show ?thesis using pc_allocate_immutable_miss [OF i p ts dig h None] run by auto
    qed
  qed
qed

lemma pc_append_returns:
  assumes i: "pc_inv sha s" "chains_closed s" and a: "refmap s a = Some b" and ts: "list_all packable ts" "ts \<noteq> []"
    and p: "\<And>q. bl_prev_block (obj a s) = Some q \<Longrightarrow> is_full (obj q s)" and dig: "\<And>m. is_digest (sha m)"
    and run: "pb_append_token_ids sha a ts s = (Inr (), t)"
  shows "\<not> is_full (obj a s)" "int (length ts) \<le> num_empty_slots (obj a s)"
    "rcount (refmap s) b = 1 \<or> 0 < pc_get_num_free_blocks s"
proof -
  note j = pc_invD [OF i(1)]
  have la: "live s a" using refmap_live [OF a] by simp
  obtain u where u: "content_hash sha a s = (Inr (hashes sha s a), u)" "hash_kept sha s u"
    using content_hash_live [OF j(1) la] by blast
  show nf: "\<not> is_full (obj a s)"
  proof
    assume "is_full (obj a s)"
    then have "hashes sha s a \<noteq> None" using live_hash(1) [OF j(1) la] by simp
    then obtain h where "content_hash sha a s = (Inr (Some h), u)" using u(1) by auto
    then show False using run
      by (simp add: pb_append_token_ids_def bind_def andthen_def guard_def raise_def)
  qed
  have ok: "bl_cached_content_hash (obj a s) = None" "\<not> bl_computed (obj a s)"
    using pc_objsD(6) [OF j(1) la] nf by (simp_all add: obj_ok_def)
  have h0: "content_hash sha a s = (Inr None, s)"
    by (rule content_hash_none [OF ok(1) nf]) (use pc_objsD(7) [OF j(1) la] in auto)
  show fits: "int (length ts) \<le> num_empty_slots (obj a s)"
  proof (rule ccontr)
    assume "\<not> int (length ts) \<le> num_empty_slots (obj a s)"
    then have "nb_append_no_cow a ts s = (Inl AssertionError, s)"
      using ts(2) by (simp add: nb_append_no_cow_def bind_def gets_def andthen_def guard_def raise_def)
    then show False
      using h0 ok(2) ts(2) run
      by (simp add: pb_append_token_ids_def nb_append_token_ids_def bind_def gets_def andthen_def guard_def return_def)
  qed
  show "rcount (refmap s) b = 1 \<or> 0 < pc_get_num_free_blocks s"
  proof (rule ccontr)
    assume n: "\<not> (rcount (refmap s) b = 1 \<or> 0 < pc_get_num_free_blocks s)"
    let ?s1 = "add_tokens a ts s"
    note k1 = add_tokens_keep [OF j(1) i(2) la nf fits ts p dig]
    have al: "a < length (nv_heap s)" by (rule pc_objsD(7) [OF j(1) la])
    have ap: "nb_append_no_cow a ts s = (Inr (), ?s1)" by (rule nb_append_no_cow_run [OF al fits])
    have r1: "refmap ?s1 a = Some b" "live ?s1 a" using k1(3) a la by simp_all
    have b1: "block_id_of a ?s1 = Some b" using block_id_of_live [OF pc_objsD(1) [OF k1(1)] r1(2)] r1(1) by simp
    have c1: "pc_core ?s1 (refmap ?s1) (hashes sha s)" using j(2) k1(3) by simp
    have Ha: "hashes sha s a = None" using live_hash(1) [OF j(1) la] nf by simp
    have n1: "rcount (refmap ?s1) b \<noteq> 1" "pc_get_num_free_blocks ?s1 = 0" using n k1(3) by simp_all
    obtain v where "pc_cow_block_if_not_appendable sha a ?s1 =
        bind pc_allocate_block_id (\<lambda>trg_block_id.
          andthen (ct_record_cow (\<lambda>l s. s\<lparr>pc_copy_on_writes := l\<rparr>) pc_copy_on_writes
             (Some b) (Some trg_block_id)) (return trg_block_id)) v"
        "pc_get_num_free_blocks v = 0"
      using pc_cow_shared [OF c1 k1(1) r1(1) Ha n1(1)] n1(2) by auto
    then have "pc_cow_block_if_not_appendable sha a ?s1 = (Inl NoFreeBlocksError, v)"
      using pc_allocate_block_id_full by (simp add: bind_def)
    then show False
      using h0 ok(2) ts(2) run ap b1
      by (simp add: pb_append_token_ids_def nb_append_token_ids_def bind_def gets_def andthen_def guard_def return_def)
  qed
qed

lemma pc_append_nil:
  assumes "pc_inv sha s" "live s a" "pb_append_token_ids sha a [] s = (Inr (), t)"
  shows "pc_inv sha t"
proof -
  obtain u where u: "content_hash sha a s = (Inr (hashes sha s a), u)" "hash_kept sha s u"
    using content_hash_live [OF pc_invD(1) [OF assms(1)] assms(2)] by blast
  have "t = u" using assms(3) u(1)
    by (auto simp: pb_append_token_ids_def bind_def gets_def andthen_def guard_def return_def raise_def split: if_splits)
  then show ?thesis using kept_core [OF u(2) assms(1)] by simp
qed

lemma pc_step_inv:
  assumes "pc_step sha s t" "pc_inv sha s" "\<And>m. is_digest (sha m)"
  shows "pc_inv sha t"
  using assms(1)
proof cases
  case (mutable prev ns r)
  then show ?thesis using pc_allocate_mutable_inv [OF assms(2) _ _ assms(3)] by blast
next
  case (immutable prev ts ns r)
  then show ?thesis using pc_allocate_immutable_inv [OF assms(2) _ _ _ _ _ assms(3)] by blast
next
  case (append a b ts)
  show ?thesis
  proof (cases "ts = []")
    case True
    then show ?thesis using pc_append_nil [OF assms(2)] append refmap_live by blast
  next
    case False
    note r = pc_append_returns [OF assms(2) append(1,2,4) False append(3) assms(3) append(5)]
    show ?thesis
      using pc_append_run [OF assms(2) append(1,2) r(1,2) append(4) False append(3) assms(3) r(3)] append(5) by auto
  qed
next
  case (free a b r)
  then show ?thesis using pc_free_run [OF assms(2), of a b] by auto
next
  case (accessed ids now r)
  have "wp (pc_mark_blocks_as_accessed ids now) (\<lambda>_. pc_inv sha) (\<lambda>_. pc_inv sha) s"
    unfolding pc_mark_blocks_as_accessed_def
    by (rule wp_for_each [where I = "pc_inv sha", OF _ assms(2)]) (rule wp_mono [OF mark_accessed_keep], auto)
  then show ?thesis using accessed wp_state by (metis snd_conv)
next
  case (computed ids r)
  then show ?thesis using mark_computed_keep(1) [OF assms(2)] by blast
next
  case (clear_cows r)
  then have t: "t = s\<lparr>pc_copy_on_writes := []\<rparr>"
    by (simp add: pc_clear_copy_on_writes_def ct_clear_cows_def py_defs)
  have so: "same_objs s t" by (simp add: t)
  note k = same_objs_keep [OF so] and d = same_objsD(3) [OF so]
  show ?thesis using assms(2) unfolding pc_inv_def k(1,3) d pc_core_def by (simp add: t)
qed

lemma pc_reachable_inv:
  assumes "pc_reachable sha policy num_blocks block_size s" "0 < num_blocks" "0 < block_size" "\<And>m. is_digest (sha m)"
  shows "pc_inv sha s"
  using assms(1) by induction (use pc_init_inv(1) assms(2,3) pc_step_inv assms(4) in blast)+

section \<open>Properties\<close>

text \<open>
  C24: the index of the prefix caching allocator is consistent in every state that it reaches by the calls of
  \<open>pc_step\<close>: allocation of mutable and immutable blocks, appends that return, frees, marking as accessed or computed
  and clearing of copies, where a predecessor whose hash is still needed is held and full (\<open>chains_closed\<close>),
  token ids can be packed and the digest gives 32 bytes. Forks, swaps, the CPU tier and appends that raise are not among them. The reference
  count of a block is the number of objects that hold it; the blocks that nobody holds are exactly the free and the
  evictable ones, and no block is both; an evictable block is the one under which its content is cached; a full
  object holds the block that caches its content, so two objects with the same content hash share one block; and the
  blocks that can be handed out and the held blocks add up to all.
\<close>

theorem prefix_index_consistent:
  assumes "pc_reachable sha policy num_blocks block_size s" "0 < num_blocks" "0 < block_size"
    and "\<forall>m. is_digest (sha m)"
  shows "(\<forall>b \<in> set (nv_all_block_indices s). map_of (nv_refcounts s) b =
      Some (int (card {a. live s a \<and> block_id_of a s = Some b}))) \<and>
    set (nv_free_block_indices s) \<inter> dom (ev_meta (pc_evictor s)) = {} \<and>
    set (nv_free_block_indices s) \<union> dom (ev_meta (pc_evictor s)) =
      {b \<in> set (nv_all_block_indices s). \<forall>a. live s a \<longrightarrow> block_id_of a s \<noteq> Some b} \<and>
    (\<forall>b m. ev_meta (pc_evictor s) b = Some m \<longrightarrow> map_of (pc_cached_blocks s) (bm_content_hash m) = Some b) \<and>
    (\<forall>a b h. refmap s a = Some b \<longrightarrow> hashes sha s a = Some h \<longrightarrow> map_of (pc_cached_blocks s) h = Some b) \<and>
    pc_get_num_free_blocks s + card (ran (refmap s)) = pc_get_num_total_blocks s"
proof -
  have i: "pc_inv sha s" by (rule pc_reachable_inv [OF assms(1-3)]) (use assms(4) in blast)
  note c = pc_invD(2) [OF i]
  note x = pc_coreD(5) [OF c]
  have ids: "block_id_of a s = Some b \<longleftrightarrow> refmap s a = Some b" if "live s a" for a b
    using block_id_of_live [OF pc_invD(3) [OF i] that] by simp
  have h: "{a. live s a \<and> block_id_of a s = Some b} = {a. refmap s a = Some b}" for b
    using ids refmap_live by blast
  have counts: "map_of (nv_refcounts s) b = Some (int (card {a. live s a \<and> block_id_of a s = Some b}))"
    if "b \<in> set (nv_all_block_indices s)" for b
    using ids_ok_count [OF idx_okD(1) [OF x] that] unfolding h rcount_def .
  have "b \<in> ran (refmap s) \<longleftrightarrow> (\<exists>a. live s a \<and> block_id_of a s = Some b)" for b
    using ids refmap_live unfolding ran_def by blast
  then have unheld: "set (nv_free_block_indices s) \<union> dom (ev_meta (pc_evictor s)) =
      {b \<in> set (nv_all_block_indices s). \<forall>a. live s a \<longrightarrow> block_id_of a s \<noteq> Some b}"
    using idx_unheld [OF x] by blast
  show ?thesis
    using counts idx_okD(2) [OF x] unheld idx_okD(7,8) [OF x] pc_conservation [OF c] by blast
qed

text \<open>An example: four blocks of two tokens; \<open>pad_sha\<close> is a digest of the right length.\<close>

definition pad_sha :: "bytes \<Rightarrow> bytes" where
  "pad_sha m = drop (length m) (replicate 32 0 @ m)"

lemma pad_sha_digest: "is_digest (pad_sha m)"
  by (simp add: is_digest_def pad_sha_def)

definition example_pc :: pc_state where
  "example_pc = (case pc_init [] 2 2 None (Some LRU) of Inr s \<Rightarrow> s)"

definition example_pc_block :: pc_state where
  "example_pc_block = snd (pc_allocate_immutable_block pad_sha None [5, 6] [] example_pc)"

lemma example_pc_init: "pc_init [] 2 2 None (Some LRU) = Inr example_pc"
  by (simp add: example_pc_def pc_init_def nv_init_ids_def int_range_def Let_def upto.simps)

lemma example_pc_no_chain: "chains_closed example_pc"
  using pc_init_inv(2) [OF example_pc_init] by simp

lemma example_pc_block_reachable: "pc_reachable pad_sha (Some LRU) 2 2 example_pc_block"
proof -
  have "pc_step pad_sha example_pc example_pc_block"
    unfolding example_pc_block_def
    by (rule pc_step.immutable [OF example_pc_no_chain _ _ _ _ prod.collapse [symmetric]])
      (use pc_init_inv(5) [OF example_pc_init] in \<open>simp_all add: prev_ok_def packable_def\<close>)
  then show ?thesis using pc_reachable.init [OF example_pc_init] pc_reachable.step by blast
qed

lemma prefix_index_consistent_witness:
  "set (nv_free_block_indices example_pc_block) = {1} \<and>
   pc_get_num_free_blocks example_pc_block + card (ran (refmap example_pc_block)) = 2 \<and>
   map_of (nv_refcounts example_pc_block) 0 =
     Some (int (card {a. live example_pc_block a \<and> block_id_of a example_pc_block = Some 0}))"
proof -
  have "set (nv_free_block_indices example_pc_block) = {1}" "set (nv_all_block_indices example_pc_block) = {0, 1}"
    "pc_get_num_total_blocks example_pc_block = 2" by code_simp+
  then show ?thesis
    using prefix_index_consistent [OF example_pc_block_reachable] pad_sha_digest by auto
qed

text \<open>
  A cached content costs nothing. When an immutable block is asked for whose content hash is in the
  cache, the new object shares the cached block and counts as computed, no object changes, nothing is
  dropped from the cache, and the blocks that can be handed out get fewer by one only if nobody held
  the cached block.
\<close>

theorem prefix_hit_shares:
  assumes "pc_reachable sha policy num_blocks block_size s" "0 < num_blocks" "0 < block_size"
    and "\<forall>m. is_digest (sha m)" "chains_closed s" "prev_ok s prev" "\<forall>q. prev = Some q \<longrightarrow> is_full (obj q s)"
    and "int (length ts) = nv_block_size s" "list_all packable ts"
    and "prefix_hash sha s prev ts (namespace_of prev (Some ns) s) = Inr h"
    and "map_of (pc_cached_blocks s) h = Some b"
  shows "\<exists>a t. pc_allocate_immutable_block sha prev ts ns s = (Inr a, t) \<and> \<not> live s a \<and>
    refmap t = (refmap s)(a \<mapsto> b) \<and> bl_token_ids (obj a t) = ts \<and> bl_computed (obj a t) \<and>
    (\<forall>x. \<not> live s x \<or> bl_token_ids (obj x t) = bl_token_ids (obj x s)) \<and>
    pc_cached_blocks t = pc_cached_blocks s \<and>
    pc_get_num_free_blocks t + (if b \<in> ran (refmap s) then 0 else 1) = pc_get_num_free_blocks s"
proof -
  have dig: "\<And>m. is_digest (sha m)" using assms(4) by blast
  have i: "pc_inv sha s" by (rule pc_reachable_inv [OF assms(1-3) dig])
  have p: "\<And>q. prev = Some q \<Longrightarrow> is_full (obj q s)" using assms(7) by blast
  obtain a t where t: "pc_allocate_immutable_block sha prev ts ns s = (Inr a, t)" "pc_inv sha t"
      "made sha a prev ts (namespace_of prev (Some ns) s) s t" "refmap t = (refmap s)(a \<mapsto> b)"
      "bl_computed (obj a t)" "pc_cached_blocks t = pc_cached_blocks s"
      "nv_free_block_indices t = nv_free_block_indices s"
      "ev_meta (pc_evictor t) = (ev_meta (pc_evictor s))(b := None)"
    using pc_allocate_immutable_hit [OF i assms(5,6) p assms(8,9) dig assms(10,11)] by blast
  note m = t(3) [unfolded made_def]
  note x = pc_coreD(5) [OF pc_invD(2) [OF i]]
  have b: "b \<in> set (nv_all_block_indices s)" "b \<notin> set (nv_free_block_indices s)"
    using idx_okD(5) [OF x] assms(11) by (auto simp: ran_def)
  have e: "b \<in> dom (ev_meta (pc_evictor s)) \<longleftrightarrow> b \<notin> ran (refmap s)" using idx_unheld [OF x, of b] b by blast
  have "finite (dom (ev_meta (pc_evictor s)))" by (rule ev.finite_meta)
  then have "card (dom ((ev_meta (pc_evictor s))(b := None))) + (if b \<in> ran (refmap s) then 0 else 1) =
      card (dom (ev_meta (pc_evictor s)))"
    using e card_Suc_Diff1 [of "dom (ev_meta (pc_evictor s))" b] by (auto simp: insert_absorb)
  then have "pc_get_num_free_blocks t + (if b \<in> ran (refmap s) then 0 else 1) = pc_get_num_free_blocks s"
    using pc_num_free [OF pc_invD(2) [OF i]] pc_num_free [OF pc_invD(2) [OF t(2)]] t(7,8) by simp
  moreover have "\<not> live s x \<or> bl_token_ids (obj x t) = bl_token_ids (obj x s)" for x
    using m bareD(1) [of "obj x t" "obj x s"] by blast
  ultimately show ?thesis using t m by blast
qed

lemma example_pc_block_facts:
  "\<exists>h. prefix_hash pad_sha example_pc_block None [5, 6] [] = Inr h \<and>
     map_of (pc_cached_blocks example_pc_block) h = Some 0"
proof -
  have "case hash_block_tokens pad_sha True None [5, 6] (Some []) of Inl e \<Rightarrow> False
      | Inr h \<Rightarrow> map_of (pc_cached_blocks example_pc_block) h = Some 0" by code_simp
  then show ?thesis by (auto simp: prefix_hash_def split: sum.splits)
qed

lemma example_pc_block_unfollowed:
  assumes "live example_pc_block a"
  shows "bl_prev_block (obj a example_pc_block) = None"
proof -
  have "nv_pool_size example_pc_block = 8" "nv_pool_free_ids example_pc_block = [1, 2, 3, 4, 5, 6, 7]"
    and prev: "bl_prev_block (obj 0 example_pc_block) = None" by code_simp+
  then have "a = 0" using assms by (auto simp: live_def numeral_eq_Suc less_Suc_eq)
  then show ?thesis using prev by simp
qed

lemma example_pc_block_first: "chains_closed example_pc_block"
  unfolding chains_closed_def using example_pc_block_unfollowed by (metis option.distinct(1))

lemma prefix_hit_shares_witness:
  "\<exists>a t. pc_allocate_immutable_block pad_sha None [5, 6] [] example_pc_block = (Inr a, t) \<and> refmap t a = Some 0 \<and>
     bl_computed (obj a t) \<and> pc_get_num_free_blocks t = 1"
proof -
  obtain h where h: "prefix_hash pad_sha example_pc_block None [5, 6] [] = Inr h"
      "map_of (pc_cached_blocks example_pc_block) h = Some 0" using example_pc_block_facts by blast
  have n: "namespace_of None (Some []) example_pc_block = []" by (simp add: namespace_of_def)
  have bs: "nv_block_size example_pc_block = 2" "pc_get_num_free_blocks example_pc_block = 1"
    "refmap example_pc_block 0 = Some 0" by code_simp+
  then have r: "0 \<in> ran (refmap example_pc_block)" by (auto simp: ran_def)
  show ?thesis
    using prefix_hit_shares [OF example_pc_block_reachable, of None "[5, 6]" "[]" h 0] h n bs r
      pad_sha_digest example_pc_block_first by (auto simp: prev_ok_def packable_def)
qed

text \<open>
  C25: freed content is found again. When an object that holds a full block is freed and no live object
  stands behind it, its content stays in the cache even if nobody else holds the block: asking for the
  same tokens behind the same block gives an object that shares the very block that was freed and that
  counts as computed.
\<close>

theorem freed_content_is_reused:
  assumes "pc_reachable sha policy num_blocks block_size s" "0 < num_blocks" "0 < block_size"
    and "\<forall>m. is_digest (sha m)" "chains_closed s" "prev_ok s prev" "\<forall>q. prev = Some q \<longrightarrow> is_full (obj q s)"
    and "int (length ts) = nv_block_size s" "list_all packable ts"
    and "refmap s a = Some b" "hashes sha s a = Some h"
    and "prefix_hash sha s prev ts (namespace_of prev (Some ns) s) = Inr h"
    and "prev \<noteq> Some a" "\<forall>x. live s x \<longrightarrow> bl_prev_block (obj x s) \<noteq> Some a"
  shows "\<exists>c t u. pc_free sha a False s = (Inr (), t) \<and>
    pc_allocate_immutable_block sha prev ts ns t = (Inr c, u) \<and>
    refmap u = (refmap s)(a := None, c \<mapsto> b) \<and> bl_token_ids (obj c u) = ts \<and> bl_computed (obj c u) \<and>
    pc_cached_blocks u = pc_cached_blocks s \<and> nv_free_block_indices u = nv_free_block_indices s"
proof -
  have dig: "\<And>m. is_digest (sha m)" using assms(4) by blast
  have i: "pc_inv sha s" by (rule pc_reachable_inv [OF assms(1-3) dig])
  obtain t where t: "pc_free sha a False s = (Inr (), t)" "pc_inv sha t" "\<forall>x. live t x \<longleftrightarrow> live s x \<and> x \<noteq> a"
      "chains_closed t" "gives_back sha a b s t"
    using pc_free_run [OF i assms(10)] assms(5,14) by blast
  note g = t(5) [unfolded gives_back_def]
  have size: "nv_block_size t = nv_block_size s" using g by (simp add: pc_frame_def)
  have prev: "prev_ok t prev" "\<And>q. prev = Some q \<Longrightarrow> is_full (obj q t)" "\<And>q. prev = Some q \<Longrightarrow> hashes sha t q = hashes sha s q"
    and ns: "namespace_of prev (Some ns) t = namespace_of prev (Some ns) s"
    using assms(6,7,13) t(3) g bareD(3,5) [of "obj _ t" "obj _ s"]
    by (auto simp: prev_ok_def namespace_of_def split: option.splits)
  have cached: "map_of (pc_cached_blocks t) h = Some b"
    using idx_okD(8) [OF pc_coreD(5) [OF pc_invD(2) [OF i]] assms(10,11)] g by simp
  have h: "prefix_hash sha t prev ts (namespace_of prev (Some ns) t) = Inr h"
    using prefix_hash_kept [of prev sha t s ts] prev(3) ns assms(12) by simp
  have free: "nv_free_block_indices t = nv_free_block_indices s" using g assms(11) by simp
  obtain c u where u: "pc_allocate_immutable_block sha prev ts ns t = (Inr c, u)" "refmap u = (refmap t)(c \<mapsto> b)"
      "bl_computed (obj c u)" "made sha c prev ts (namespace_of prev (Some ns) t) t u"
      "pc_cached_blocks u = pc_cached_blocks t" "nv_free_block_indices u = nv_free_block_indices t"
    using pc_allocate_immutable_hit [OF t(2,4) prev(1,2) _ assms(9) dig h cached] assms(8) size by auto
  have "refmap u = (refmap s)(a := None, c \<mapsto> b)" using u(2) g by simp
  moreover have "bl_token_ids (obj c u) = ts" using u(4) by (simp add: made_def)
  moreover have "pc_cached_blocks u = pc_cached_blocks s" using u(5) g by simp
  moreover have "nv_free_block_indices u = nv_free_block_indices s" using u(6) free by simp
  ultimately show ?thesis using t(1) u(1,3) by blast
qed

lemma example_pc_block_holder:
  "refmap example_pc_block 0 = Some 0 \<and> nv_block_size example_pc_block = 2 \<and>
   (\<exists>h. hashes pad_sha example_pc_block 0 = Some h \<and> prefix_hash pad_sha example_pc_block None [5, 6] [] = Inr h)"
proof -
  obtain h where h: "prefix_hash pad_sha example_pc_block None [5, 6] [] = Inr h"
    using example_pc_block_facts by blast
  have f: "refmap example_pc_block 0 = Some 0" "nv_block_size example_pc_block = 2"
    "bl_cached_content_hash (obj 0 example_pc_block) =
       (case hash_block_tokens pad_sha True None [5, 6] (Some []) of Inr h \<Rightarrow> Some h | Inl e \<Rightarrow> None)"
    by code_simp+
  then have "bl_cached_content_hash (obj 0 example_pc_block) = Some h" using h by (simp add: prefix_hash_def)
  then have "hashes pad_sha example_pc_block 0 = Some h"
    using hash_path.cached [of "nv_heap example_pc_block" 0 h pad_sha] by (auto simp: hashes_Some hash_is_def obj_def)
  then show ?thesis using f(1,2) h by blast
qed

lemma freed_content_is_reused_witness:
  "\<exists>c t u. pc_free pad_sha 0 False example_pc_block = (Inr (), t) \<and>
     pc_allocate_immutable_block pad_sha None [5, 6] [] t = (Inr c, u) \<and> refmap u c = Some 0 \<and> bl_computed (obj c u)"
proof -
  obtain h where h: "refmap example_pc_block 0 = Some 0" "nv_block_size example_pc_block = 2"
      "hashes pad_sha example_pc_block 0 = Some h" "prefix_hash pad_sha example_pc_block None [5, 6] [] = Inr h"
    using example_pc_block_holder by blast
  have n: "namespace_of None (Some []) example_pc_block = []" by (simp add: namespace_of_def)
  have "\<forall>x. live example_pc_block x \<longrightarrow> bl_prev_block (obj x example_pc_block) \<noteq> Some 0"
    using example_pc_block_unfollowed by simp
  then show ?thesis
    using freed_content_is_reused [OF example_pc_block_reachable, of None "[5, 6]" 0 0 h "[]"] h n
      pad_sha_digest example_pc_block_first by (auto simp: prev_ok_def packable_def)
qed

text \<open>
  C26: the order in which blocks are handed out. A mutable block takes the block at the head of the
  free list while there is one, and then the cache is untouched; when the free list is empty it takes
  the block that the evictor chooses, and the content of that block, and no other, leaves the cache;
  when nothing is free or evictable, the allocator raises and its state is unchanged.
\<close>

theorem prefix_allocation_order:
  assumes "pc_reachable sha policy num_blocks block_size s" "0 < num_blocks" "0 < block_size"
    and "\<forall>m. is_digest (sha m)" "chains_closed s" "prev_ok s prev"
  shows "if pc_get_num_free_blocks s = 0
    then pc_allocate_mutable_block sha prev ns s = (Inl NoFreeBlocksError, s)
    else \<exists>a b t. pc_allocate_mutable_block sha prev ns s = (Inr a, t) \<and> refmap t = (refmap s)(a \<mapsto> b) \<and>
      refmap s a = None \<and> b \<notin> ran (refmap s) \<and>
      (case nv_free_block_indices s of
         c # rest \<Rightarrow> b = c \<and> nv_free_block_indices t = rest \<and> pc_cached_blocks t = pc_cached_blocks s
       | [] \<Rightarrow> nv_free_block_indices t = [] \<and>
           (\<exists>h. ev_evict (pc_evictor s) = (Inr (b, h), pc_evictor t) \<and> map_of (pc_cached_blocks s) h = Some b \<and>
              map_of (pc_cached_blocks t) = (map_of (pc_cached_blocks s))(h := None)))"
proof (cases "pc_get_num_free_blocks s = 0")
  case True
  have i: "pc_inv sha s" by (rule pc_reachable_inv [OF assms(1-3)]) (use assms(4) in blast)
  show ?thesis using pc_allocate_mutable_full [OF i assms(6) True, of ns] True by simp
next
  case False
  have i: "pc_inv sha s" by (rule pc_reachable_inv [OF assms(1-3)]) (use assms(4) in blast)
  have "0 < pc_get_num_free_blocks s" using False by simp
  then obtain a b t where t: "pc_allocate_mutable_block sha prev ns s = (Inr a, t)"
      "made sha a prev [] (namespace_of prev ns s) s t" "refmap t = (refmap s)(a \<mapsto> b)"
      "b \<notin> ran (refmap s)" "takes_id b s t"
    using pc_allocate_mutable_run [OF i assms(5,6) _ assms(4) [rule_format], of ns] by blast
  have "refmap s a = None" using t(2) by (simp add: made_def refmap_def)
  moreover have "map_of (pc_cached_blocks s) (bm_content_hash m) = Some b" if "ev_meta (pc_evictor s) b = Some m" for m
    using idx_okD(7) [OF pc_coreD(5) [OF pc_invD(2) [OF i]] that] .
  ultimately show ?thesis
    using t False by (cases "nv_free_block_indices s") (auto simp: takes_id_def)
qed

text \<open>An example where the free list is empty: the one block of the pool holds freed content.\<close>

definition example_pc_one :: pc_state where
  "example_pc_one = (case pc_init [] 1 2 None (Some LRU) of Inr s \<Rightarrow> s)"

definition example_pc_freed :: pc_state where
  "example_pc_freed = snd (pc_free pad_sha 0 False (snd (pc_allocate_immutable_block pad_sha None [5, 6] [] example_pc_one)))"

lemma example_pc_one_init: "pc_init [] 1 2 None (Some LRU) = Inr example_pc_one"
  by (simp add: example_pc_one_def pc_init_def nv_init_ids_def int_range_def Let_def upto.simps)

lemma example_pc_freed_reachable: "pc_reachable pad_sha (Some LRU) 1 2 example_pc_freed"
proof -
  let ?s = "snd (pc_allocate_immutable_block pad_sha None [5, 6] [] example_pc_one)"
  have "pc_step pad_sha example_pc_one ?s"
    by (rule pc_step.immutable [OF pc_init_inv(2) [OF example_pc_one_init] _ _ _ _ prod.collapse [symmetric]])
      (use pc_init_inv(5) [OF example_pc_one_init] in \<open>simp_all add: prev_ok_def packable_def\<close>)
  moreover have "refmap ?s 0 = Some 0" by code_simp
  then have "pc_step pad_sha ?s example_pc_freed"
    unfolding example_pc_freed_def by (rule pc_step.free [OF _ prod.collapse [symmetric]])
  ultimately show ?thesis
    using pc_reachable.init [OF example_pc_one_init] pc_reachable.step by blast
qed

lemma example_pc_freed_empty: "\<not> live example_pc_freed a"
proof -
  have "nv_pool_size example_pc_freed = 4" "nv_pool_free_ids example_pc_freed = [0, 1, 2, 3]" by code_simp+
  then show ?thesis by (auto simp: live_def numeral_eq_Suc less_Suc_eq)
qed

lemma prefix_allocation_order_witness:
  "\<exists>a b t h. pc_allocate_mutable_block pad_sha None None example_pc_freed = (Inr a, t) \<and> refmap t a = Some b \<and>
     ev_evict (pc_evictor example_pc_freed) = (Inr (b, h), pc_evictor t) \<and>
     map_of (pc_cached_blocks example_pc_freed) h = Some b \<and> map_of (pc_cached_blocks t) h = None"
proof -
  have "pc_get_num_free_blocks example_pc_freed = 1" "nv_free_block_indices example_pc_freed = []" by code_simp+
  moreover have "chains_closed example_pc_freed" using example_pc_freed_empty by (simp add: chains_closed_def)
  ultimately show ?thesis
    using prefix_allocation_order [OF example_pc_freed_reachable, of None None] pad_sha_digest
    by (auto simp: prev_ok_def)
qed

end
