(* ===== verification/CpuGpuAllocator.thy ===== *)
theory CpuGpuAllocator
  imports PrefixCaching
begin

text \<open>
  \<^verbatim>\<open>vllm/core/block/cpu_gpu_block_allocator.py\<close>: one allocator per device behind one interface.

  Block objects travel between the devices: a swap gives an object a block id of the other device and
  leaves it in the pool it came from. So there is one store of objects, \<open>cg_heap\<close>, and \<open>on_device\<close>
  runs an operation of one allocator on it. The object of a \<open>CpuKvContentCache\<close> is kept in the state
  of the GPU allocator, whose callbacks are the only way to it besides the calls at the end.
\<close>

section \<open>State\<close>

datatype device = GPU | CPU

datatype allocator = NaiveAllocator nv_state | PrefixCachingAllocator pc_state

record cg_state =
  cg_heap :: "block list"
  cg_cpu :: allocator
  cg_gpu :: allocator
  cg_swap_mapping :: "(block_id, block_id) dict"
  cg_null_block :: "addr option"
  cg_block_ids_to_allocator :: "(block_id, device) dict"

definition cg_allocator :: "device \<Rightarrow> cg_state \<Rightarrow> allocator" where
  "cg_allocator d c = (case d of GPU \<Rightarrow> cg_gpu c | CPU \<Rightarrow> cg_cpu c)"

definition cg_put_allocator :: "device \<Rightarrow> allocator \<Rightarrow> cg_state \<Rightarrow> cg_state" where
  "cg_put_allocator d x c = (case d of GPU \<Rightarrow> c\<lparr>cg_gpu := x\<rparr> | CPU \<Rightarrow> c\<lparr>cg_cpu := x\<rparr>)"

text \<open>The call of a method of \<open>self._allocators[device]\<close>, which is of either class.\<close>

definition on_device :: "device \<Rightarrow> (nv_state, 'a) py \<Rightarrow> (pc_state, 'a) py \<Rightarrow> (cg_state, 'a) py" where
  "on_device d naive prefix = (\<lambda>c. case cg_allocator d c of
     NaiveAllocator s \<Rightarrow> (case naive (s\<lparr>nv_heap := cg_heap c\<rparr>) of (r, t) \<Rightarrow>
       (r, cg_put_allocator d (NaiveAllocator (t\<lparr>nv_heap := []\<rparr>)) (c\<lparr>cg_heap := nv_heap t\<rparr>)))
   | PrefixCachingAllocator s \<Rightarrow> (case prefix (s\<lparr>nv_heap := cg_heap c\<rparr>) of (r, t) \<Rightarrow>
       (r, cg_put_allocator d (PrefixCachingAllocator (t\<lparr>nv_heap := []\<rparr>)) (c\<lparr>cg_heap := nv_heap t\<rparr>))))"

fun allocator_pool :: "allocator \<Rightarrow> addr list" where
  "allocator_pool (NaiveAllocator s) = nv_pool s"
| "allocator_pool (PrefixCachingAllocator s) = nv_pool s"

fun allocator_block_ids :: "allocator \<Rightarrow> block_id list" where
  "allocator_block_ids (NaiveAllocator s) = nv_all_block_indices s"
| "allocator_block_ids (PrefixCachingAllocator s) = nv_all_block_indices s"

text \<open>\<open>block._allocator\<close>: the allocator whose pool made the object, also after a swap.\<close>

definition block_allocator_of :: "addr \<Rightarrow> cg_state \<Rightarrow> device" where
  "block_allocator_of a c = (if a \<in> set (allocator_pool (cg_gpu c)) then GPU else CPU)"

definition cg_obj :: "addr \<Rightarrow> cg_state \<Rightarrow> block" where
  "cg_obj a c = cg_heap c ! a"

definition cg_deref :: "addr \<Rightarrow> cg_state \<Rightarrow> block" where
  "cg_deref a c = (case bl_class (cg_obj a c) of NullBlock p \<Rightarrow> cg_obj p c | _ \<Rightarrow> cg_obj a c)"

definition cg_block_id_of :: "addr \<Rightarrow> cg_state \<Rightarrow> block_id option" where
  "cg_block_id_of a c = bl_block_id (cg_deref a c)"

definition is_null_block :: "block \<Rightarrow> bool" where
  "is_null_block x \<longleftrightarrow> (case bl_class x of NullBlock p \<Rightarrow> True | _ \<Rightarrow> False)"

section \<open>Creation\<close>

text \<open>
  The objects of an allocator that is made after another one come behind those of the first in the
  store.
\<close>

definition place_behind :: "nat \<Rightarrow> 'x nv_state_scheme \<Rightarrow> 'x nv_state_scheme" where
  "place_behind n s = s\<lparr>nv_heap := [], nv_pool := map (\<lambda>a. a + n) (nv_pool s)\<rparr>"

definition cg_init :: "block list \<Rightarrow> allocator \<Rightarrow> allocator \<Rightarrow> cpu_kv option \<Rightarrow> exn + cg_state" where
  "cg_init heap cpu_block_allocator gpu_block_allocator cpu_content_cache =
     (let cpu_ids = allocator_block_ids cpu_block_allocator;
          gpu_ids = allocator_block_ids gpu_block_allocator;
          state = (\<lambda>gpu. \<lparr>cg_heap = heap, cg_cpu = cpu_block_allocator, cg_gpu = gpu,
            cg_swap_mapping = [], cg_null_block = None,
            cg_block_ids_to_allocator = map (\<lambda>b. (b, CPU)) cpu_ids @ map (\<lambda>b. (b, GPU)) gpu_ids\<rparr>)
      in echeck AssertionError (set cpu_ids \<inter> set gpu_ids = {})
        (case cpu_content_cache of None \<Rightarrow> Inr (state gpu_block_allocator)
         | Some cache \<Rightarrow> (case gpu_block_allocator of
             NaiveAllocator _ \<Rightarrow> Inl RuntimeError
           | PrefixCachingAllocator s \<Rightarrow>
               echeck RuntimeError (ck_capacity cache = int (length cpu_ids))
                 (Inr (state (PrefixCachingAllocator (s\<lparr>pc_cpu_cache := Some cache\<rparr>)))))))"

definition cg_create :: "(string, string) dict \<Rightarrow> string \<Rightarrow> int \<Rightarrow> int \<Rightarrow> int \<Rightarrow> exn + cg_state" where
  "cg_create os_environ allocator_type num_gpu_blocks num_cpu_blocks block_size =
     ebind (cpu_kv_offload_enabled os_environ None) (\<lambda>content_offload.
     echeck RuntimeError (\<not> (content_offload \<and> allocator_type \<noteq> ''prefix_caching''))
    (echeck RuntimeError (\<not> (content_offload \<and> num_cpu_blocks \<le> 0))
    (let block_ids = int_range (num_gpu_blocks + num_cpu_blocks);
         gpu_block_ids = take (nat num_gpu_blocks) block_ids;
         cpu_block_ids = drop (nat num_gpu_blocks) block_ids
     in ebind
       (if allocator_type = ''naive'' then
          ebind (nv_init num_gpu_blocks block_size (Some gpu_block_ids)) (\<lambda>g.
          ebind (nv_init num_cpu_blocks block_size (Some cpu_block_ids)) (\<lambda>c.
          Inr (nv_heap g @ nv_heap c,
            NaiveAllocator (place_behind (length (nv_heap g)) c), NaiveAllocator (place_behind 0 g))))
        else if allocator_type = ''prefix_caching'' then
          ebind (pc_init os_environ num_gpu_blocks block_size (Some gpu_block_ids) None) (\<lambda>g.
          ebind (pc_init os_environ num_cpu_blocks block_size (Some cpu_block_ids) None) (\<lambda>c.
          Inr (nv_heap g @ nv_heap c,
            PrefixCachingAllocator (place_behind (length (nv_heap g)) c),
            PrefixCachingAllocator (place_behind 0 g))))
        else Inl ValueError) (\<lambda>(heap, cpu_allocator, gpu_allocator).
     ebind (if content_offload then ebind (ck_init num_cpu_blocks) (\<lambda>c. Inr (Some c)) else Inr None)
       (\<lambda>cache. cg_init heap cpu_allocator gpu_allocator cache))))) "

definition content_offload_enabled :: "cg_state \<Rightarrow> bool" where
  "content_offload_enabled c = (case cg_gpu c of NaiveAllocator _ \<Rightarrow> False
     | PrefixCachingAllocator s \<Rightarrow> pc_cpu_cache s \<noteq> None)"

section \<open>Allocation\<close>

text \<open>
  \<open>sha\<close> is the digest of the content hashes. With a namespace the calls are those that the block
  table makes on the device's allocator itself; a naive allocator has no such method.
\<close>

definition cg_allocate_mutable_block :: "(bytes \<Rightarrow> bytes) \<Rightarrow> addr option \<Rightarrow> bytes option \<Rightarrow> device
    \<Rightarrow> (cg_state, addr) py" where
  "cg_allocate_mutable_block sha prev_block cache_namespace d =
     on_device d (nv_allocate_mutable_block prev_block)
       (pc_allocate_mutable_block sha prev_block cache_namespace)"

definition cg_allocate_immutable_blocks :: "(bytes \<Rightarrow> bytes) \<Rightarrow> addr option \<Rightarrow> int list list
    \<Rightarrow> bytes option \<Rightarrow> device \<Rightarrow> (cg_state, addr list) py" where
  "cg_allocate_immutable_blocks sha prev_block block_token_ids cache_namespace d =
     on_device d (nv_allocate_immutable_blocks prev_block block_token_ids)
       (pc_allocate_immutable_blocks sha prev_block block_token_ids
         (case cache_namespace of None \<Rightarrow> [] | Some ns \<Rightarrow> ns))"

definition cg_allocate_immutable_block :: "(bytes \<Rightarrow> bytes) \<Rightarrow> addr option \<Rightarrow> int list \<Rightarrow> device
    \<Rightarrow> (cg_state, addr) py" where
  "cg_allocate_immutable_block sha prev_block token_ids d =
     on_device d (nv_allocate_immutable_block prev_block token_ids)
       (pc_allocate_immutable_block sha prev_block token_ids [])"

definition allocate_or_get_null_block :: "(bytes \<Rightarrow> bytes) \<Rightarrow> (cg_state, addr) py" where
  "allocate_or_get_null_block sha =
     bind (gets cg_null_block) (\<lambda>null_block. case null_block of
       Some a \<Rightarrow> return a
     | None \<Rightarrow>
         bind (cg_allocate_mutable_block sha None None GPU) (\<lambda>proxy.
         bind (gets (\<lambda>c. length (cg_heap c))) (\<lambda>a.
         andthen (modify (\<lambda>c. c\<lparr>cg_heap := cg_heap c @ [fresh_block (NullBlock proxy) 0],
                    cg_null_block := Some a\<rparr>))
           (return a))))"

section \<open>Operations on blocks\<close>

text \<open>\<open>block.append_token_ids\<close> and \<open>block.content_hash\<close>, by the class of the object.\<close>

definition cg_append_token_ids :: "(bytes \<Rightarrow> bytes) \<Rightarrow> addr \<Rightarrow> int list \<Rightarrow> (cg_state, unit) py" where
  "cg_append_token_ids sha a token_ids =
     bind (gets (\<lambda>c. (is_null_block (cg_obj a c), block_allocator_of a c))) (\<lambda>(null, d).
     if null then raise ValueError
     else on_device d (nv_append_token_ids a token_ids) (pb_append_token_ids sha a token_ids))"

definition cg_content_hash :: "(bytes \<Rightarrow> bytes) \<Rightarrow> addr \<Rightarrow> (cg_state, content_hash option) py" where
  "cg_content_hash sha a =
     bind (gets (\<lambda>c. case bl_class (cg_obj a c) of NullBlock p \<Rightarrow> p | _ \<Rightarrow> a)) (\<lambda>b.
     bind (gets (block_allocator_of b)) (\<lambda>d.
     on_device d (return None) (content_hash sha b)))"

definition allocator_of_id :: "block_id option \<Rightarrow> (cg_state, device) py" where
  "allocator_of_id b =
     bind (from_option AssertionError b) (\<lambda>block_id.
     bind (gets (\<lambda>c. map_of (cg_block_ids_to_allocator c) block_id)) (from_option KeyError))"

definition cg_free :: "(bytes \<Rightarrow> bytes) \<Rightarrow> addr \<Rightarrow> (cg_state, unit) py" where
  "cg_free sha a =
     bind (gets (\<lambda>c. is_null_block (cg_obj a c))) (\<lambda>null.
     if null then return ()
     else bind (gets (cg_block_id_of a)) (\<lambda>b.
          bind (allocator_of_id b) (\<lambda>d.
          on_device d (nv_free a False) (pc_free sha a False))))"

definition cg_fork :: "addr \<Rightarrow> (cg_state, addr list) py" where
  "cg_fork last_block =
     bind (gets (\<lambda>c. is_null_block (cg_obj last_block c))) (\<lambda>null.
     andthen (guard AssertionError (\<not> null))
    (bind (gets (cg_block_id_of last_block)) (\<lambda>b.
     bind (allocator_of_id b) (\<lambda>d.
     on_device d (nv_fork last_block) (pc_fork last_block)))))"

section \<open>Queries\<close>

definition cg_get_num_free_blocks :: "device \<Rightarrow> cg_state \<Rightarrow> nat" where
  "cg_get_num_free_blocks d c = (case cg_allocator d c of
     NaiveAllocator s \<Rightarrow> nv_get_num_free_blocks s | PrefixCachingAllocator s \<Rightarrow> pc_get_num_free_blocks s)"

definition cg_get_num_total_blocks :: "device \<Rightarrow> cg_state \<Rightarrow> nat" where
  "cg_get_num_total_blocks d c = (case cg_allocator d c of
     NaiveAllocator s \<Rightarrow> nv_get_num_total_blocks s | PrefixCachingAllocator s \<Rightarrow> pc_get_num_total_blocks s)"

definition cg_get_physical_block_id :: "device \<Rightarrow> block_id \<Rightarrow> (cg_state, int) py" where
  "cg_get_physical_block_id d absolute_id =
     on_device d (bind (gets (nv_get_physical_block_id absolute_id)) (\<lambda>r. case r of
         Inl e \<Rightarrow> raise e | Inr i \<Rightarrow> return i))
       (pc_get_physical_block_id absolute_id)"

definition cg_get_num_full_blocks_touched :: "(bytes \<Rightarrow> bytes) \<Rightarrow> addr list \<Rightarrow> device
    \<Rightarrow> (cg_state, nat) py" where
  "cg_get_num_full_blocks_touched sha blocks d =
     on_device d (gets (nv_get_num_full_blocks_touched blocks)) (pc_get_num_full_blocks_touched sha blocks)"

definition cg_get_prefix_cache_hit_rate :: "device \<Rightarrow> cg_state \<Rightarrow> exn + rat" where
  "cg_get_prefix_cache_hit_rate d c = (case cg_allocator d c of
     NaiveAllocator s \<Rightarrow> Inr nv_get_prefix_cache_hit_rate
   | PrefixCachingAllocator s \<Rightarrow> pc_get_prefix_cache_hit_rate s)"

definition cg_all_block_ids :: "cg_state \<Rightarrow> block_id set" where
  "cg_all_block_ids c = fst ` set (cg_block_ids_to_allocator c)"

section \<open>Swapping\<close>

definition cg_swap :: "(bytes \<Rightarrow> bytes) \<Rightarrow> addr list \<Rightarrow> device \<Rightarrow> device
    \<Rightarrow> (cg_state, (block_id, block_id) dict) py" where
  "cg_swap sha blocks src_device dst_device =
     bind (gets content_offload_enabled) (\<lambda>offload.
     andthen (guard RuntimeError (\<not> offload))
    (bind (gets (\<lambda>c. map (\<lambda>a. cg_block_id_of a c) blocks)) (\<lambda>src_block_ids.
     andthen (on_device src_device (nv_swap_out blocks) (pc_swap_out sha blocks))
    (andthen (on_device dst_device (nv_swap_in blocks) (pc_swap_in sha blocks))
    (bind (gets (\<lambda>c. map (\<lambda>a. cg_block_id_of a c) blocks)) (\<lambda>dst_block_ids.
     let moves = [(s, d). (Some s, Some d) \<leftarrow> zip src_block_ids dst_block_ids]
     in andthen (modify (\<lambda>c. c\<lparr>cg_swap_mapping :=
            fold (\<lambda>(s, d). AList.update s d) moves (cg_swap_mapping c)\<rparr>))
          (return (fold (\<lambda>(s, d). AList.update s d) moves []))))))))"

definition get_and_reset_swaps :: "(cg_state, (block_id \<times> block_id) list) py" where
  "get_and_reset_swaps = bind (gets cg_swap_mapping) (\<lambda>mapping.
     andthen (modify (\<lambda>c. c\<lparr>cg_swap_mapping := []\<rparr>)) (return mapping))"

section \<open>Calls that concern the GPU only\<close>

definition cg_clear_copy_on_writes :: "(cg_state, (block_id \<times> block_id) list) py" where
  "cg_clear_copy_on_writes = on_device GPU nv_clear_copy_on_writes pc_clear_copy_on_writes"

definition cg_mark_blocks_as_accessed :: "block_id list \<Rightarrow> rat \<Rightarrow> (cg_state, unit) py" where
  "cg_mark_blocks_as_accessed block_ids now =
     on_device GPU (nv_mark_blocks_as_accessed block_ids now) (pc_mark_blocks_as_accessed block_ids now)"

definition cg_mark_blocks_as_computed :: "block_id list \<Rightarrow> (cg_state, unit) py" where
  "cg_mark_blocks_as_computed block_ids =
     on_device GPU (nv_mark_blocks_as_computed block_ids) (pc_mark_blocks_as_computed block_ids)"

definition cg_get_computed_block_ids :: "block_id list \<Rightarrow> block_id list \<Rightarrow> bool
    \<Rightarrow> (cg_state, block_id list) py" where
  "cg_get_computed_block_ids prev_computed_block_ids block_ids skip_last_block_id =
     on_device GPU
       (return (nv_get_computed_block_ids prev_computed_block_ids block_ids skip_last_block_id))
       (pc_get_computed_block_ids prev_computed_block_ids block_ids skip_last_block_id)"

definition cg_get_common_computed_block_ids :: "block_id list list \<Rightarrow> cg_state \<Rightarrow> block_id list" where
  "cg_get_common_computed_block_ids computed_seq_block_ids c = (case cg_gpu c of
     NaiveAllocator _ \<Rightarrow> nv_get_common_computed_block_ids computed_seq_block_ids
   | PrefixCachingAllocator _ \<Rightarrow> pc_get_common_computed_block_ids computed_seq_block_ids)"

text \<open>The step protocol of the CPU tier; on a naive allocator there is no tier.\<close>

definition get_and_reset_prefix_swaps :: "(cg_state, (int \<times> int) list \<times> (int \<times> int) list) py" where
  "get_and_reset_prefix_swaps =
     bind (gets content_offload_enabled) (\<lambda>offload.
     if \<not> offload then return ([], [])
     else on_device GPU (return ([], [])) (on_cpu_cache ck_drain_step))"

definition begin_prefix_cache_step :: "(cg_state, unit) py" where
  "begin_prefix_cache_step =
     bind (gets content_offload_enabled) (\<lambda>offload.
     if offload then on_device GPU (return ()) (on_cpu_cache ck_begin_step) else return ())"

section \<open>A freed block that has been swapped\<close>

text \<open>
  \<open>free\<close> chooses the allocator by the block id, but the object goes back to the pool of that allocator,
  which need not be the pool it came from. Here two blocks are allocated on the GPU, one of them is
  swapped to the CPU and freed there. Its number in the GPU pool is now a free number of the CPU pool,
  a second time, and two new blocks of the CPU are one object.
\<close>

definition swap_and_free :: "(cg_state, addr list) py" where
  "swap_and_free =
     bind (cg_allocate_mutable_block id None None GPU) (\<lambda>a.
     bind (cg_allocate_mutable_block id None None GPU) (\<lambda>b.
     andthen (bind (cg_swap id [b] GPU CPU) (\<lambda>_. return ()))
    (andthen (cg_free id b)
    (bind (cg_allocate_mutable_block id None None CPU) (\<lambda>x.
     bind (cg_allocate_mutable_block id None None CPU) (\<lambda>y.
     bind (cg_allocate_mutable_block id None None CPU) (\<lambda>z. return [x, y, z])))))))"

lemma swapped_block_handed_out_twice:
  "\<exists>c x y. cg_create [] ''naive'' 2 3 4 = Inr c \<and> fst (swap_and_free c) = Inr [x, y, x]"
proof -
  have "case cg_create [] ''naive'' 2 3 4 of Inl e \<Rightarrow> False
      | Inr c \<Rightarrow> (case fst (swap_and_free c) of Inr [x, y, z] \<Rightarrow> x = z | _ \<Rightarrow> False)" by code_simp
  then show ?thesis by (auto split: sum.splits list.splits)
qed

end
