(* ===== verification/BlockTable.thy ===== *)
theory BlockTable
  imports CpuGpuAllocator
begin

text \<open>
  \<^verbatim>\<open>vllm/core/block/block_table.py\<close> and the class \<open>BlockList\<close> of \<^verbatim>\<open>vllm/core/block/common.py\<close>: the
  blocks that hold the tokens of one sequence. An operation works on the pair of the table and the
  allocator, both of which it changes. The configuration only admits positive block sizes; a zero
  raises as in Python, slices with negative bounds are not modelled.
\<close>

section \<open>Chunks\<close>

text \<open>\<open>cdiv\<close> and \<open>chunk_list\<close> of \<^verbatim>\<open>vllm/utils.py\<close>; \<open>range\<close> refuses a step of zero.\<close>

definition cdiv :: "int \<Rightarrow> int \<Rightarrow> exn + int" where
  "cdiv a b = echeck ZeroDivisionError (b \<noteq> 0) (Inr (- (a div (- b))))"

function chunks :: "nat \<Rightarrow> 'a list \<Rightarrow> 'a list list" where
  "chunks n xs = (if xs = [] \<or> n = 0 then [] else take n xs # chunks n (drop n xs))"
  by pat_completeness auto
termination by (relation "measure (\<lambda>(n, xs). length xs)") auto

declare chunks.simps [simp del]

definition chunk_list :: "'a list \<Rightarrow> int \<Rightarrow> exn + 'a list list" where
  "chunk_list lst chunk_size = echeck ValueError (chunk_size \<noteq> 0) (Inr (chunks (nat chunk_size) lst))"

text \<open>\<open>xs[i]\<close> for an index that is not negative.\<close>

definition nth_or_raise :: "'a list \<Rightarrow> int \<Rightarrow> exn + 'a" where
  "nth_or_raise xs i = (if 0 \<le> i \<and> i < int (length xs) then Inr (xs ! nat i) else Inl IndexError)"

section \<open>State\<close>

record block_table =
  bt_block_size :: int
  bt_cache_namespace :: "bytes option"
  bt_blocks :: "addr list"
  bt_block_ids :: "block_id list"
  bt_max_block_sliding_window :: "int option"
  bt_num_full_slots :: int

type_synonym 'a bt_py = "block_table \<times> cg_state \<Rightarrow> (exn + 'a) \<times> (block_table \<times> cg_state)"

definition on_cg :: "(cg_state, 'a) py \<Rightarrow> 'a bt_py" where
  "on_cg = zoom snd (\<lambda>c s. (fst s, c))"

definition tab :: "(block_table \<Rightarrow> 'a) \<Rightarrow> 'a bt_py" where
  "tab f = gets (\<lambda>s. f (fst s))"

definition put_tab :: "(block_table \<Rightarrow> block_table) \<Rightarrow> unit bt_py" where
  "put_tab f = modify (\<lambda>s. (f (fst s), snd s))"

section \<open>BlockList\<close>

definition blist_add_block_id :: "addr \<Rightarrow> unit bt_py" where
  "blist_add_block_id a =
     bind (gets (\<lambda>s. cg_block_id_of a (snd s))) (\<lambda>b.
     bind (from_option AssertionError b) (\<lambda>block_id.
     put_tab (\<lambda>t. t\<lparr>bt_block_ids := bt_block_ids t @ [block_id]\<rparr>)))"

definition blist_update_block_id :: "nat \<Rightarrow> block_id option \<Rightarrow> unit bt_py" where
  "blist_update_block_id i b =
     bind (from_option AssertionError b) (\<lambda>new_block_id.
     put_tab (\<lambda>t. t\<lparr>bt_block_ids := (bt_block_ids t)[i := new_block_id]\<rparr>))"

definition blist_update :: "addr list \<Rightarrow> unit bt_py" where
  "blist_update blocks =
     andthen (put_tab (\<lambda>t. t\<lparr>bt_blocks := blocks, bt_block_ids := []\<rparr>))
       (for_each blocks blist_add_block_id)"

definition blist_append_token_ids :: "(bytes \<Rightarrow> bytes) \<Rightarrow> int \<Rightarrow> int list \<Rightarrow> unit bt_py" where
  "blist_append_token_ids sha block_index token_ids =
     bind (tab bt_blocks) (\<lambda>blocks.
     bind (lift_sum (nth_or_raise blocks block_index)) (\<lambda>a.
     bind (on_cg (gets (cg_block_id_of a))) (\<lambda>prev_block_id.
     andthen (on_cg (cg_append_token_ids sha a token_ids))
    (bind (on_cg (gets (cg_block_id_of a))) (\<lambda>block_id.
     if prev_block_id \<noteq> block_id then blist_update_block_id (nat block_index) block_id
     else return ())))))"

definition blist_append :: "addr \<Rightarrow> unit bt_py" where
  "blist_append new_block =
     andthen (put_tab (\<lambda>t. t\<lparr>bt_blocks := bt_blocks t @ [new_block]\<rparr>)) (blist_add_block_id new_block)"

definition blist_setitem :: "int \<Rightarrow> addr \<Rightarrow> unit bt_py" where
  "blist_setitem block_index new_block =
     bind (tab bt_blocks) (\<lambda>blocks.
     bind (lift_sum (nth_or_raise blocks block_index)) (\<lambda>_.
     andthen (put_tab (\<lambda>t. t\<lparr>bt_blocks := (bt_blocks t)[nat block_index := new_block]\<rparr>))
    (bind (on_cg (gets (cg_block_id_of new_block))) (\<lambda>b.
     blist_update_block_id (nat block_index) b))))"

definition blist_reset :: "unit bt_py" where
  "blist_reset = put_tab (\<lambda>t. t\<lparr>bt_blocks := [], bt_block_ids := []\<rparr>)"

section \<open>BlockTable\<close>

definition bt_is_allocated :: "block_table \<Rightarrow> bool" where
  "bt_is_allocated t \<longleftrightarrow> 0 < length (bt_blocks t)"

definition bt_get_num_token_ids :: "block_table \<Rightarrow> cg_state \<Rightarrow> int" where
  "bt_get_num_token_ids t c = (\<Sum>a \<leftarrow> bt_blocks t. int (length (bl_token_ids (cg_deref a c))))"

definition bt_get_all_token_ids :: "block_table \<Rightarrow> cg_state \<Rightarrow> int list" where
  "bt_get_all_token_ids t c = concat (map (\<lambda>a. bl_token_ids (cg_deref a c)) (bt_blocks t))"

text \<open>The constructor: the blocks come from the allocator, which it only reads.\<close>

definition bt_new :: "int \<Rightarrow> addr list \<Rightarrow> int option \<Rightarrow> bytes option \<Rightarrow> (cg_state, block_table) py" where
  "bt_new block_size blocks max_block_sliding_window cache_namespace = (\<lambda>c.
     let t = \<lparr>bt_block_size = block_size, bt_cache_namespace = cache_namespace, bt_blocks = [],
       bt_block_ids = [], bt_max_block_sliding_window = max_block_sliding_window,
       bt_num_full_slots = 0\<rparr>
     in case blist_update blocks (t, c) of
       (Inl e, _, c') \<Rightarrow> (Inl e, c')
     | (Inr _, t', c') \<Rightarrow> (Inr (t'\<lparr>bt_num_full_slots := bt_get_num_token_ids t' c'\<rparr>), c'))"

definition get_num_required_blocks :: "int list \<Rightarrow> int \<Rightarrow> int \<Rightarrow> exn + int" where
  "get_num_required_blocks token_ids block_size num_lookahead_slots =
     cdiv (int (length token_ids) + num_lookahead_slots) block_size"

definition bt_allocate_blocks_for_token_ids :: "(bytes \<Rightarrow> bytes) \<Rightarrow> addr option \<Rightarrow> int list \<Rightarrow> device
    \<Rightarrow> addr list bt_py" where
  "bt_allocate_blocks_for_token_ids sha prev_block token_ids d =
     bind (tab bt_block_size) (\<lambda>block_size.
     bind (tab bt_cache_namespace) (\<lambda>cache_namespace.
     bind (lift_sum (chunk_list token_ids block_size)) (\<lambda>cs.
     let block_token_ids = filter (\<lambda>c. int (length c) = block_size) cs;
         tail_token_ids = filter (\<lambda>c. int (length c) \<noteq> block_size) cs
     in bind (if block_token_ids = [] then return []
              else on_cg (cg_allocate_immutable_blocks sha prev_block block_token_ids cache_namespace d))
          (\<lambda>blocks.
        case tail_token_ids of [] \<Rightarrow> return blocks
        | cur_token_ids # rest \<Rightarrow>
            andthen (guard AssertionError (rest = []))
           (bind (on_cg (cg_allocate_mutable_block sha
                    (if block_token_ids = [] then prev_block else Some (last blocks)) cache_namespace d))
             (\<lambda>a.
            andthen (on_cg (cg_append_token_ids sha a cur_token_ids))
              (return (blocks @ [a]))))))))"

definition bt_allocate :: "(bytes \<Rightarrow> bytes) \<Rightarrow> int list \<Rightarrow> device \<Rightarrow> unit bt_py" where
  "bt_allocate sha token_ids d =
     andthen (bind (tab bt_is_allocated) (\<lambda>alloc. guard AssertionError (\<not> alloc)))
    (andthen (guard AssertionError (token_ids \<noteq> []))
    (bind (bt_allocate_blocks_for_token_ids sha None token_ids d) (\<lambda>blocks.
     andthen (blist_update blocks)
       (put_tab (\<lambda>t. t\<lparr>bt_num_full_slots := int (length token_ids)\<rparr>)))))"

fun bt_collect_hashes :: "(bytes \<Rightarrow> bytes) \<Rightarrow> addr list \<Rightarrow> (cg_state, content_hash list) py" where
  "bt_collect_hashes sha [] = return []"
| "bt_collect_hashes sha (a # as) =
     bind (cg_content_hash sha a) (\<lambda>block_hash.
     bind (bt_collect_hashes sha as) (\<lambda>hs.
     return (case block_hash of None \<Rightarrow> hs | Some h \<Rightarrow> h # hs)))"

definition bt_get_content_hashes :: "(bytes \<Rightarrow> bytes) \<Rightarrow> content_hash list bt_py" where
  "bt_get_content_hashes sha = bind (tab bt_blocks) (\<lambda>blocks. on_cg (bt_collect_hashes sha blocks))"

text \<open>The loop of \<open>append_token_ids\<close> that drops the blocks before the sliding window.\<close>

definition bt_drop_block :: "(bytes \<Rightarrow> bytes) \<Rightarrow> addr \<Rightarrow> int \<Rightarrow> unit bt_py" where
  "bt_drop_block sha null_block idx =
     bind (tab bt_blocks) (\<lambda>blocks.
     bind (lift_sum (nth_or_raise blocks idx)) (\<lambda>b.
     if b \<noteq> null_block then andthen (on_cg (cg_free sha b)) (blist_setitem idx null_block)
     else return ()))"

definition bt_num_empty_slots :: "int bt_py" where
  "bt_num_empty_slots =
     andthen (bind (tab bt_is_allocated) (guard AssertionError))
       (tab (\<lambda>t. int (length (bt_blocks t)) * bt_block_size t - bt_num_full_slots t))"

definition bt_grow_one :: "(bytes \<Rightarrow> bytes) \<Rightarrow> unit bt_py" where
  "bt_grow_one sha =
     bind (tab bt_blocks) (\<lambda>blocks.
     andthen (guard AssertionError (0 < length blocks))
    (bind (on_cg (cg_allocate_mutable_block sha (Some (last blocks)) None GPU)) blist_append))"

definition ensure_num_empty_slots :: "(bytes \<Rightarrow> bytes) \<Rightarrow> int \<Rightarrow> unit bt_py" where
  "ensure_num_empty_slots sha needed =
     andthen (bind (tab bt_is_allocated) (guard AssertionError))
    (bind bt_num_empty_slots (\<lambda>empty.
     if needed \<le> empty then return ()
     else bind (tab bt_block_size) (\<lambda>block_size.
          bind (lift_sum (cdiv (needed - empty) block_size)) (\<lambda>blocks_to_allocate.
          for_each [0 ..< nat blocks_to_allocate] (\<lambda>_. bt_grow_one sha)))))"

definition chunk_token_blocks_for_append :: "int list \<Rightarrow> int list list bt_py" where
  "chunk_token_blocks_for_append token_ids =
     (if token_ids = [] then return []
      else bind (tab bt_block_size) (\<lambda>block_size.
           bind (tab bt_num_full_slots) (\<lambda>num_full_slots.
           andthen (guard ZeroDivisionError (block_size \<noteq> 0))
          (let first_chunk_size = nat (block_size - num_full_slots mod block_size)
           in bind (lift_sum (chunk_list (drop first_chunk_size token_ids) block_size)) (\<lambda>cs.
              return (take first_chunk_size token_ids # cs))))))"

fun bt_append_chunks :: "(bytes \<Rightarrow> bytes) \<Rightarrow> int \<Rightarrow> int list list \<Rightarrow> unit bt_py" where
  "bt_append_chunks sha i [] = return ()"
| "bt_append_chunks sha i (token_block # rest) =
     andthen (blist_append_token_ids sha i token_block) (bt_append_chunks sha (i + 1) rest)"

definition bt_append_token_ids :: "(bytes \<Rightarrow> bytes) \<Rightarrow> int list \<Rightarrow> int \<Rightarrow> int option \<Rightarrow> unit bt_py" where
  "bt_append_token_ids sha token_ids num_lookahead_slots num_computed_slots =
     andthen (bind (tab bt_is_allocated) (guard AssertionError))
    (bind (tab bt_block_size) (\<lambda>block_size.
     andthen (bind (tab bt_max_block_sliding_window) (\<lambda>window. case window of
         None \<Rightarrow> return ()
       | Some max_block_sliding_window \<Rightarrow>
           bind (on_cg (allocate_or_get_null_block sha)) (\<lambda>null_block.
           bind (from_option AssertionError num_computed_slots) (\<lambda>computed.
           andthen (guard ZeroDivisionError (block_size \<noteq> 0))
             (for_each (int_range (computed div block_size - max_block_sliding_window))
               (bt_drop_block sha null_block))))))
    (andthen (ensure_num_empty_slots sha (int (length token_ids) + num_lookahead_slots))
    (andthen (guard ZeroDivisionError (block_size \<noteq> 0))
    (bind (tab bt_num_full_slots) (\<lambda>num_full_slots.
     bind (chunk_token_blocks_for_append token_ids) (\<lambda>token_blocks.
     andthen (bt_append_chunks sha (num_full_slots div block_size) token_blocks)
       (put_tab (\<lambda>t. t\<lparr>bt_num_full_slots := bt_num_full_slots t + int (length token_ids)\<rparr>)))))))))"

definition bt_fork :: "block_table bt_py" where
  "bt_fork =
     andthen (bind (tab bt_is_allocated) (guard AssertionError))
    (bind (tab id) (\<lambda>t.
     on_cg (bind (cg_fork (last (bt_blocks t))) (\<lambda>forked_blocks.
       bt_new (bt_block_size t) forked_blocks (bt_max_block_sliding_window t) (bt_cache_namespace t)))))"

definition bt_free :: "(bytes \<Rightarrow> bytes) \<Rightarrow> unit bt_py" where
  "bt_free sha = bind (tab bt_blocks) (\<lambda>blocks.
     andthen (for_each blocks (\<lambda>a. on_cg (cg_free sha a))) blist_reset)"

definition get_unseen_token_ids :: "int list \<Rightarrow> block_table \<Rightarrow> int list" where
  "get_unseen_token_ids sequence_token_ids t = drop (nat (bt_num_full_slots t)) sequence_token_ids"

text \<open>The quotient is a float in the source; it is exact here, as it is there below 2^53.\<close>

definition get_num_blocks_touched_by_append_slots :: "int list \<Rightarrow> int \<Rightarrow> block_table \<Rightarrow> exn + int" where
  "get_num_blocks_touched_by_append_slots token_ids num_lookahead_slots t =
     echeck ZeroDivisionError (bt_block_size t \<noteq> 0)
       (let num_token_ids = int (length token_ids) + num_lookahead_slots;
            first_chunk_size = bt_block_size t - bt_num_full_slots t mod bt_block_size t
        in Inr (1 + \<lceil>(of_int (num_token_ids - first_chunk_size) :: rat) / of_int (bt_block_size t)\<rceil>))"

section \<open>Lemmas on chunks\<close>

lemma chunks_Nil [simp]: "chunks n [] = []"
  by (simp add: chunks.simps)

lemma chunks_step: "xs \<noteq> [] \<Longrightarrow> 0 < n \<Longrightarrow> chunks n xs = take n xs # chunks n (drop n xs)"
  by (simp add: chunks.simps)

lemma concat_chunks: "0 < n \<Longrightarrow> concat (chunks n xs) = xs"
proof (induction n xs rule: chunks.induct)
  case (1 n xs)
  then show ?case by (cases "xs = []") (simp_all add: chunks_step)
qed

lemma chunks_sizes: "0 < n \<Longrightarrow> c \<in> set (chunks n xs) \<Longrightarrow> c \<noteq> [] \<and> length c \<le> n"
proof (induction n xs rule: chunks.induct)
  case (1 n xs)
  then show ?case by (cases "xs = []") (auto simp: chunks_step)
qed

lemma chunks_full: "0 < n \<Longrightarrow> c \<in> set (butlast (chunks n xs)) \<Longrightarrow> length c = n"
proof (induction n xs rule: chunks.induct)
  case (1 n xs)
  show ?case
  proof (cases "length xs \<le> n")
    case True
    then have "butlast (chunks n xs) = []" using 1(2) by (cases "xs = []") (simp_all add: chunks_step)
    then show ?thesis using 1(3) by simp
  next
    case False
    then have ne: "xs \<noteq> []" "drop n xs \<noteq> []" by auto
    then have "chunks n (drop n xs) \<noteq> []" using 1(2) by (simp add: chunks_step)
    then show ?thesis using 1 ne False by (auto simp: chunks_step)
  qed
qed

lemma cdiv_step: "0 < b \<Longrightarrow> - (a div - b) = 1 + - ((a - b) div - (b :: int))"
proof -
  assume "0 < b"
  then have "a div - b = (a - b + b) div - b" by simp
  also have "\<dots> = (a - b) div - b - 1" using \<open>0 < b\<close> div_mult_self1 [of "- b" "a - b" "- 1"] by simp
  finally show ?thesis by simp
qed

lemma length_chunks: "0 < n \<Longrightarrow> int (length (chunks n xs)) = - (int (length xs) div - int n)"
proof (induction n xs rule: chunks.induct)
  case (1 n xs)
  show ?case
  proof (cases "xs = []")
    case False
    show ?thesis
    proof (cases "length xs \<le> n")
      case True
      have "0 < length xs" using False by simp
      have "int (length xs) div - int n = - 1"
        using True \<open>0 < length xs\<close> by (intro div_pos_neg_trivial) simp_all
      then show ?thesis using False True 1(2) by (simp add: chunks_step)
    next
      case False': False
      then have "int (length (drop n xs)) = int (length xs) - int n" by (simp add: of_nat_diff)
      then show ?thesis
        using 1 False cdiv_step [of "int n" "int (length xs)"] by (simp add: chunks_step)
    qed
  qed simp
qed

lemma length_concat_take_chunks:
  "0 < n \<Longrightarrow> i < length (chunks n xs) \<Longrightarrow> length (concat (take i (chunks n xs))) = i * n"
proof (induction n xs arbitrary: i rule: chunks.induct)
  case (1 n xs)
  have ne: "xs \<noteq> []" using 1(3) by auto
  show ?case
  proof (cases i)
    case (Suc k)
    then have k: "k < length (chunks n (drop n xs))" using 1(2,3) ne by (simp add: chunks_step)
    then have "drop n xs \<noteq> []" by auto
    then have "length (take n xs) = n" by simp
    then show ?thesis using 1(1) [of k] 1(2) ne k Suc by (simp add: chunks_step)
  qed simp
qed

lemma append_chunks_nonempty:
  assumes "0 < bt_block_size t" "0 \<le> bt_num_full_slots t" "token_ids \<noteq> []"
  shows "\<exists>cs. chunk_token_blocks_for_append token_ids (t, c) = (Inr cs, (t, c)) \<and> concat cs = token_ids \<and>
    (\<forall>x \<in> set cs. x \<noteq> [] \<and> int (length x) \<le> bt_block_size t) \<and>
    (\<forall>i. i < length cs \<longrightarrow> (let filled = bt_num_full_slots t mod bt_block_size t + int (length (concat (take (Suc i) cs)))
       in filled \<le> int (Suc i) * bt_block_size t \<and> (Suc i < length cs \<longrightarrow> filled = int (Suc i) * bt_block_size t))) \<and>
    get_num_blocks_touched_by_append_slots token_ids 0 t = Inr (int (length cs))"
proof -
  define n where "n = nat (bt_block_size t)"
  define f where "f = nat (bt_block_size t - bt_num_full_slots t mod bt_block_size t)"
  let ?rest = "chunks n (drop f token_ids)"
  let ?cs = "take f token_ids # ?rest"
  have n: "0 < n" "int n = bt_block_size t" using assms(1) by (simp_all add: n_def)
  have m: "0 \<le> bt_num_full_slots t mod bt_block_size t" "bt_num_full_slots t mod bt_block_size t < bt_block_size t"
    using assms(1) by simp_all
  then have f: "0 < f" "f \<le> n" "bt_num_full_slots t mod bt_block_size t = int n - int f"
    using n(2) by (simp_all add: f_def n_def)
  have "run": "chunk_token_blocks_for_append token_ids (t, c) = (Inr ?cs, (t, c))"
    using assms(1,3) by (simp add: chunk_token_blocks_for_append_def tab_def py_defs lift_sum_def chunk_list_def
      n_def f_def Let_def)
  have cat: "concat ?cs = token_ids" using n(1) by (simp add: concat_chunks)
  have sizes: "x \<noteq> [] \<and> int (length x) \<le> bt_block_size t" if "x \<in> set ?cs" for x
    using that chunks_sizes [OF n(1), of x "drop f token_ids"] assms(3) f(1,2) n(2) by auto
  have full: "length (concat (take (Suc i) ?cs)) = f + i * n" if "Suc i < length ?cs" for i
  proof -
    have "i < length ?rest" using that by simp
    moreover from this have "f < length token_ids" by (cases "length token_ids \<le> f") auto
    ultimately show ?thesis using length_concat_take_chunks [OF n(1), of i "drop f token_ids"] by simp
  qed
  have at_most: "length (concat (take (Suc i) ?cs)) \<le> f + i * n" if "i < length ?cs" for i
  proof (cases i)
    case (Suc k)
    then have k: "length (concat (take (Suc k) ?cs)) = f + k * n" using full that by simp
    have "k < length ?rest" using Suc that by simp
    then have "take (Suc i) ?cs = take (Suc k) ?cs @ [?rest ! k]" using Suc by (simp add: take_Suc_conv_app_nth)
    moreover have "length (?rest ! k) \<le> n" using chunks_sizes [OF n(1) nth_mem [OF \<open>k < length ?rest\<close>]] by simp
    ultimately show ?thesis using k Suc by simp
  qed simp
  have slots: "let filled = bt_num_full_slots t mod bt_block_size t + int (length (concat (take (Suc i) ?cs)))
      in filled \<le> int (Suc i) * bt_block_size t \<and> (Suc i < length ?cs \<longrightarrow> filled = int (Suc i) * bt_block_size t)"
    if "i < length ?cs" for i
  proof -
    define filled where "filled = length (concat (take (Suc i) ?cs))"
    have "filled \<le> f + i * n" "Suc i < length ?cs \<Longrightarrow> filled = f + i * n"
      using at_most [OF that] full [of i] unfolding filled_def by blast+
    moreover have "int (f + i * n) + (int n - int f) = int (Suc i) * int n" by (simp add: algebra_simps)
    moreover have "bt_num_full_slots t mod int n = int n - int f" using f(3) n(2) by simp
    ultimately show ?thesis
      unfolding Let_def n(2) [symmetric] filled_def [symmetric] by (intro conjI impI) linarith+
  qed
  have "- ((int f - int (length token_ids)) div int n) = int (length ?rest)"
  proof (cases "length token_ids \<le> f")
    case True
    moreover have "0 < length token_ids" using assms(3) by simp
    ultimately have "(int f - int (length token_ids)) div int n = 0" using f(2) by (intro div_pos_pos_trivial) linarith+
    then show ?thesis using True by simp
  next
    case False
    then have "int (length (drop f token_ids)) = int (length token_ids) - int f" by (simp add: of_nat_diff)
    then show ?thesis using length_chunks [OF n(1), of "drop f token_ids"] by (simp add: div_minus_right)
  qed
  then have "get_num_blocks_touched_by_append_slots token_ids 0 t = Inr (int (length ?cs))"
    using assms(1) f(3) n(2) unfolding get_num_blocks_touched_by_append_slots_def
    by (simp add: Let_def ceiling_divide_eq_div flip: of_int_diff)
  then show ?thesis using "run" cat sizes slots by blast
qed

text \<open>Without tokens and lookahead slots the formula counts the last block if it is partly full.\<close>

lemma touched_by_nothing:
  assumes "0 < bt_block_size t"
  shows "get_num_blocks_touched_by_append_slots [] 0 t =
    Inr (if bt_num_full_slots t mod bt_block_size t = 0 then 0 else 1)"
proof -
  let ?b = "bt_block_size t" and ?m = "bt_num_full_slots t mod bt_block_size t"
  have m: "0 \<le> ?m" "?m < ?b" using assms by simp_all
  have "(?b - ?m) div ?b = 0" if "?m \<noteq> 0"
    using m that by (intro div_pos_pos_trivial) linarith+
  then have "- ((?b - ?m) div ?b) = (if ?m = 0 then - 1 else 0)" using assms by simp
  then show ?thesis
    using assms unfolding get_num_blocks_touched_by_append_slots_def
    by (simp add: Let_def ceiling_divide_eq_div flip: of_int_diff)
qed

lemma touched_by_lookahead:
  "get_num_blocks_touched_by_append_slots token_ids (int k) t =
    get_num_blocks_touched_by_append_slots (token_ids @ replicate k x) 0 t"
  by (simp add: get_num_blocks_touched_by_append_slots_def Let_def)

lemma touched_mono:
  assumes "0 < bt_block_size t" "get_num_blocks_touched_by_append_slots xs 0 t = Inr m"
    and "get_num_blocks_touched_by_append_slots (xs @ ys) 0 t = Inr n"
  shows "m \<le> n"
proof -
  let ?q = "\<lambda>l. (of_int (l - (bt_block_size t - bt_num_full_slots t mod bt_block_size t)) :: rat) / of_int (bt_block_size t)"
  have "m = 1 + \<lceil>?q (int (length xs))\<rceil>" "n = 1 + \<lceil>?q (int (length xs + length ys))\<rceil>"
    using assms by (simp_all add: get_num_blocks_touched_by_append_slots_def Let_def)
  moreover have "?q (int (length xs)) \<le> ?q (int (length xs + length ys))"
    using assms(1) by (intro divide_right_mono) simp_all
  ultimately show ?thesis using ceiling_mono by auto
qed

section \<open>Properties\<close>

text \<open>
  C29: appended tokens go where there is room. For a table with a positive block size, the tokens of an append are
  cut into chunks without loss or reordering, the first chunk fits behind the slots that are full, every chunk but
  the last fills its block to the end, and none is empty or larger than a block. The number of blocks that the
  scheduler reserves beforehand, computed by a formula, is what the comment above the formula says for any number of
  lookahead slots: the number of chunks of the tokens followed by that many placeholders, so never less than the
  number of chunks that are appended. The one exception is an append of nothing behind a partly full block, for which
  one block is reserved although there is no chunk.
\<close>

theorem append_chunks_fill_blocks:
  assumes "0 < bt_block_size t" "0 \<le> bt_num_full_slots t"
  shows "\<exists>cs padded. chunk_token_blocks_for_append token_ids (t, c) = (Inr cs, (t, c)) \<and> concat cs = token_ids \<and>
    (\<forall>x \<in> set cs. x \<noteq> [] \<and> int (length x) \<le> bt_block_size t) \<and>
    (\<forall>i. i < length cs \<longrightarrow> (let filled = bt_num_full_slots t mod bt_block_size t + int (length (concat (take (Suc i) cs)))
       in filled \<le> int (Suc i) * bt_block_size t \<and> (Suc i < length cs \<longrightarrow> filled = int (Suc i) * bt_block_size t))) \<and>
    chunk_token_blocks_for_append (token_ids @ replicate num_lookahead_slots (-1)) (t, c) = (Inr padded, (t, c)) \<and>
    length cs \<le> length padded \<and>
    get_num_blocks_touched_by_append_slots token_ids (int num_lookahead_slots) t =
      Inr (if token_ids = [] \<and> num_lookahead_slots = 0 \<and> bt_num_full_slots t mod bt_block_size t \<noteq> 0
        then 1 else int (length padded))"
proof -
  let ?all = "token_ids @ replicate num_lookahead_slots (-1)"
  have none: "chunk_token_blocks_for_append [] (t, c) = (Inr [], (t, c))"
    by (simp add: chunk_token_blocks_for_append_def return_def)
  show ?thesis
  proof (cases "?all = []")
    case True
    then show ?thesis using none touched_by_nothing [OF assms(1)] by simp
  next
    case False
    obtain padded where p: "chunk_token_blocks_for_append ?all (t, c) = (Inr padded, (t, c))"
      "get_num_blocks_touched_by_append_slots ?all 0 t = Inr (int (length padded))"
      using append_chunks_nonempty [OF assms False] by blast
    have reserved: "get_num_blocks_touched_by_append_slots token_ids (int num_lookahead_slots) t = Inr (int (length padded))"
      using p(2) touched_by_lookahead by metis
    show ?thesis
    proof (cases "token_ids = []")
      case True
      then show ?thesis using none p reserved False by simp
    next
      case False
      from append_chunks_nonempty [OF assms False, of c]
      obtain cs where cs: "chunk_token_blocks_for_append token_ids (t, c) = (Inr cs, (t, c))" "concat cs = token_ids"
        "\<forall>x \<in> set cs. x \<noteq> [] \<and> int (length x) \<le> bt_block_size t"
        "\<forall>i. i < length cs \<longrightarrow> (let filled = bt_num_full_slots t mod bt_block_size t + int (length (concat (take (Suc i) cs)))
          in filled \<le> int (Suc i) * bt_block_size t \<and> (Suc i < length cs \<longrightarrow> filled = int (Suc i) * bt_block_size t))"
        "get_num_blocks_touched_by_append_slots token_ids 0 t = Inr (int (length cs))" by blast
      have "length cs \<le> length padded" using touched_mono [OF assms(1) cs(5) p(2)] by simp
      then show ?thesis using cs p(1) reserved False
        by (intro exI [of _ cs] exI [of _ padded] conjI) simp_all
    qed
  qed
qed

definition example_table :: block_table where
  "example_table = \<lparr>bt_block_size = 4, bt_cache_namespace = None, bt_blocks = [], bt_block_ids = [],
     bt_max_block_sliding_window = None, bt_num_full_slots = 5\<rparr>"

text \<open>Six tokens and three lookahead slots behind one full slot of a block: three blocks, two of them for the tokens.\<close>

lemma append_chunks_fill_blocks_witness:
  "\<forall>c. \<exists>cs (padded :: int list list). chunk_token_blocks_for_append [1, 2, 3, 4, 5, 6] (example_table, c) = (Inr cs, (example_table, c)) \<and>
     concat cs = [1, 2, 3, 4, 5, 6] \<and> length cs \<le> length padded \<and>
     get_num_blocks_touched_by_append_slots [1, 2, 3, 4, 5, 6] 3 example_table = Inr (int (length padded)) \<and> length padded = 3"
proof
  fix c
  have t: "0 < bt_block_size example_table" "0 \<le> bt_num_full_slots example_table"
    by (simp_all add: example_table_def)
  have "get_num_blocks_touched_by_append_slots [1, 2, 3, 4, 5, 6] (int 3) example_table = Inr 3"
  proof -
    have "\<lceil>6 / 4 :: rat\<rceil> = 2" by (rule ceiling_unique) simp_all
    then show ?thesis by (simp add: get_num_blocks_touched_by_append_slots_def example_table_def)
  qed
  from append_chunks_fill_blocks [OF t, of "[1, 2, 3, 4, 5, 6]" c 3]
  obtain cs and padded :: "int list list" where "chunk_token_blocks_for_append [1, 2, 3, 4, 5, 6] (example_table, c) = (Inr cs, (example_table, c))"
     "concat cs = [1, 2, 3, 4, 5, 6]" "length cs \<le> length padded"
     "get_num_blocks_touched_by_append_slots [1, 2, 3, 4, 5, 6] (int 3) example_table =
       Inr (if [1, 2, 3, 4, 5, 6] = ([] :: int list) \<and> (3 :: nat) = 0 \<and>
           bt_num_full_slots example_table mod bt_block_size example_table \<noteq> 0 then 1 else int (length padded))"
    by blast
  with \<open>get_num_blocks_touched_by_append_slots [1, 2, 3, 4, 5, 6] (int 3) example_table = Inr 3\<close> show "\<exists>cs (padded :: int list list). chunk_token_blocks_for_append [1, 2, 3, 4, 5, 6] (example_table, c) = (Inr cs, (example_table, c)) \<and>
     concat cs = [1, 2, 3, 4, 5, 6] \<and> length cs \<le> length padded \<and>
     get_num_blocks_touched_by_append_slots [1, 2, 3, 4, 5, 6] 3 example_table = Inr (int (length padded)) \<and> length padded = 3"
    by (intro exI [of _ cs] exI [of _ padded]) simp
qed

end
