(* ===== verification/Sequence.thy ===== *)
theory Sequence
  imports GdnPrefix
begin

text \<open>
  \<^verbatim>\<open>qwen3_6_scripts/sequence.py\<close>: the tokens of a sequence, the sequence itself, and the group of the
  sequences of one request. Log probabilities and times are rationals; an \<open>array("l")\<close> is a list of
  integers that fit into 64 bits. The objects of a group are kept by value in the group.
\<close>

section \<open>Status and stage\<close>

datatype sequence_status = WAITING | RUNNING | SWAPPED | FINISHED_STOPPED | FINISHED_LENGTH_CAPPED
  | FINISHED_ABORTED | FINISHED_IGNORED

fun status_value :: "sequence_status \<Rightarrow> int" where
  "status_value WAITING = 0"
| "status_value RUNNING = 1"
| "status_value SWAPPED = 2"
| "status_value FINISHED_STOPPED = 3"
| "status_value FINISHED_LENGTH_CAPPED = 4"
| "status_value FINISHED_ABORTED = 5"
| "status_value FINISHED_IGNORED = 6"

definition status_is_finished :: "sequence_status \<Rightarrow> bool" where
  "status_is_finished status \<longleftrightarrow> status_value SWAPPED < status_value status"

definition get_finished_reason :: "sequence_status \<Rightarrow> string option" where
  "get_finished_reason status =
     (if status = FINISHED_STOPPED then Some ''stop''
      else if status = FINISHED_LENGTH_CAPPED then Some ''length''
      else if status = FINISHED_ABORTED then Some ''abort''
      else if status = FINISHED_IGNORED then Some ''length''
      else None)"

datatype sequence_stage = PREFILL | DECODE

section \<open>SequenceData\<close>

record sequence_data_delta =
  sdd_new_output_token_ids :: "int list"
  sdd_new_cumulative_logprob :: rat
  sdd_new_num_computed_tokens :: int
  sdd_new_stage :: sequence_stage

record sequence_data =
  sd_prompt_token_ids :: "int list"
  sd_output_token_ids :: "int list"
  sd_cumulative_logprob :: rat
  sd_prompt_token_ids_tuple :: "int list"
  sd_num_computed_tokens :: int
  sd_stage :: sequence_stage
  sd_cached_all_token_ids :: "int list"
  sd_new_appended_tokens :: "int list"
  sd_mrope_position_delta :: "int option"

definition fits_l :: "int \<Rightarrow> bool" where
  "fits_l x \<longleftrightarrow> - (2 ^ 63) \<le> x \<and> x < 2 ^ 63"

definition array_l :: "int list \<Rightarrow> exn + int list" where
  "array_l xs = echeck OverflowError (list_all fits_l xs) (Inr xs)"

text \<open>The constructor, with \<open>__post_init__\<close>.\<close>

definition sd_make :: "int list \<Rightarrow> int list \<Rightarrow> sequence_data" where
  "sd_make prompt_token_ids output_token_ids =
     \<lparr>sd_prompt_token_ids = prompt_token_ids, sd_output_token_ids = output_token_ids,
      sd_cumulative_logprob = 0, sd_prompt_token_ids_tuple = prompt_token_ids,
      sd_num_computed_tokens = 0, sd_stage = PREFILL,
      sd_cached_all_token_ids = prompt_token_ids @ output_token_ids,
      sd_new_appended_tokens = [], sd_mrope_position_delta = None\<rparr>"

definition sd_from_seqs :: "int list \<Rightarrow> int list option \<Rightarrow> exn + sequence_data" where
  "sd_from_seqs prompt_token_ids output_token_ids =
     ebind (array_l prompt_token_ids) (\<lambda>prompt. case output_token_ids of
       None \<Rightarrow> Inr (sd_make prompt [])
     | Some output \<Rightarrow> ebind (array_l output) (\<lambda>output. Inr (sd_make prompt output)))"

fun token_count_arrays :: "(int \<times> int) list \<Rightarrow> exn + int list" where
  "token_count_arrays [] = Inr []"
| "token_count_arrays ((token_id, n) # rest) =
     ebind (array_l [token_id]) (\<lambda>_. ebind (token_count_arrays rest) (\<lambda>tokens.
     Inr (replicate (nat n) token_id @ tokens)))"

definition sd_from_token_counts :: "(int \<times> int) list \<Rightarrow> exn + sequence_data" where
  "sd_from_token_counts token_counts =
     (if token_counts = [] then sd_from_seqs [] None
      else ebind (token_count_arrays token_counts) (\<lambda>prompt. Inr (sd_make prompt [])))"

definition sd_set_output_token_ids :: "int list \<Rightarrow> (sequence_data, unit) py" where
  "sd_set_output_token_ids new_output_token_ids = (case array_l new_output_token_ids of
     Inl e \<Rightarrow> raise e
   | Inr xs \<Rightarrow> modify (\<lambda>d. d\<lparr>sd_output_token_ids := xs,
       sd_cached_all_token_ids := sd_prompt_token_ids d @ xs\<rparr>))"

definition sd_append_token_id :: "int \<Rightarrow> rat \<Rightarrow> (sequence_data, unit) py" where
  "sd_append_token_id token_id logprob =
     andthen (guard OverflowError (fits_l token_id))
       (modify (\<lambda>d. d\<lparr>sd_output_token_ids := sd_output_token_ids d @ [token_id],
          sd_new_appended_tokens := sd_new_appended_tokens d @ [token_id],
          sd_cached_all_token_ids := sd_cached_all_token_ids d @ [token_id],
          sd_cumulative_logprob := sd_cumulative_logprob d + logprob\<rparr>))"

definition sd_get_len :: "sequence_data \<Rightarrow> int" where
  "sd_get_len d = int (length (sd_output_token_ids d)) + int (length (sd_prompt_token_ids d))"

definition sd_get_prompt_len :: "sequence_data \<Rightarrow> int" where
  "sd_get_prompt_len d = int (length (sd_prompt_token_ids d))"

definition sd_get_output_len :: "sequence_data \<Rightarrow> int" where
  "sd_get_output_len d = int (length (sd_output_token_ids d))"

text \<open>\<open>xs[:n]\<close>, where a negative \<open>n\<close> counts from the end.\<close>

definition slice_to :: "'a list \<Rightarrow> int \<Rightarrow> 'a list" where
  "slice_to xs n = (if 0 \<le> n then take (nat n) xs else take (length xs - nat (- n)) xs)"

text \<open>\<open>xs[n:]\<close>\<close>

definition slice_from :: "'a list \<Rightarrow> int \<Rightarrow> 'a list" where
  "slice_from xs n = (if 0 \<le> n then drop (nat n) xs else drop (length xs - nat (- n)) xs)"

definition sd_get_prefix_token_ids :: "int \<Rightarrow> sequence_data \<Rightarrow> int list \<times> int list option" where
  "sd_get_prefix_token_ids num_tokens d =
     (let prompt_length = sd_get_prompt_len d
      in if prompt_length < num_tokens
         then (sd_prompt_token_ids_tuple d, Some (slice_to (sd_output_token_ids d) (num_tokens - prompt_length)))
         else (slice_to (sd_prompt_token_ids_tuple d) num_tokens, None))"

definition sd_get_num_uncomputed_tokens :: "sequence_data \<Rightarrow> int" where
  "sd_get_num_uncomputed_tokens d = sd_get_len d - sd_num_computed_tokens d"

definition sd_update_num_computed_tokens :: "int \<Rightarrow> (sequence_data, unit) py" where
  "sd_update_num_computed_tokens num_new_computed_tokens =
     andthen (modify (\<lambda>d. d\<lparr>sd_num_computed_tokens := sd_num_computed_tokens d + num_new_computed_tokens\<rparr>))
    (andthen (bind (gets (\<lambda>d. sd_num_computed_tokens d \<le> sd_get_len d)) (guard AssertionError))
    (bind (gets sd_get_num_uncomputed_tokens) (\<lambda>n.
     if n = 0 then modify (\<lambda>d. d\<lparr>sd_stage := DECODE\<rparr>) else return ())))"

definition sd_reset_state_for_recompute :: "sequence_data \<Rightarrow> sequence_data" where
  "sd_reset_state_for_recompute d = d\<lparr>sd_num_computed_tokens := 0, sd_stage := PREFILL,
     sd_new_appended_tokens := []\<rparr>"

definition sd_get_last_token_id :: "sequence_data \<Rightarrow> exn + int" where
  "sd_get_last_token_id d =
     (if sd_output_token_ids d = []
      then (if sd_prompt_token_ids d = [] then Inl IndexError else Inr (last (sd_prompt_token_ids d)))
      else Inr (last (sd_output_token_ids d)))"

definition sd_get_delta_and_reset :: "(sequence_data, sequence_data_delta) py" where
  "sd_get_delta_and_reset =
     bind (gets (\<lambda>d. \<lparr>sdd_new_output_token_ids = sd_new_appended_tokens d,
       sdd_new_cumulative_logprob = sd_cumulative_logprob d,
       sdd_new_num_computed_tokens = sd_num_computed_tokens d, sdd_new_stage = sd_stage d\<rparr>)) (\<lambda>delta.
     andthen (modify (\<lambda>d. d\<lparr>sd_new_appended_tokens := []\<rparr>)) (return delta))"

text \<open>The tokens of a delta come from another \<open>SequenceData\<close>, so they fit.\<close>

definition sd_apply_delta :: "sequence_data_delta \<Rightarrow> sequence_data \<Rightarrow> sequence_data" where
  "sd_apply_delta delta d = d\<lparr>sd_num_computed_tokens := sdd_new_num_computed_tokens delta,
     sd_cumulative_logprob := sdd_new_cumulative_logprob delta, sd_stage := sdd_new_stage delta,
     sd_output_token_ids := sd_output_token_ids d @ sdd_new_output_token_ids delta,
     sd_cached_all_token_ids := sd_cached_all_token_ids d @ sdd_new_output_token_ids delta\<rparr>"

section \<open>Sequence\<close>

text \<open>
  \<open>inputs\<close> is the dict of the request; of its two prompts, \<open>from_decoder_prompt\<close> selects one. The
  multimodal data are an opaque value here; an empty or missing entry is \<open>None\<close>.
\<close>

record 'mm llm_inputs =
  in_prompt_token_ids :: "int list"
  in_encoder_prompt_token_ids :: "int list option"
  in_multi_modal_data :: "'mm option"
  in_encoder_multi_modal_data :: "'mm option"

record logprob =
  lp_logprob :: rat
  lp_rank :: "int option"
  lp_decoded_token :: "string option"

datatype stop_reason = StopToken int | StopString string

record 'mm sequence =
  sq_seq_id :: int
  sq_inputs :: "'mm llm_inputs"
  sq_block_size :: int
  sq_eos_token_id :: "int option"
  sq_lora_int_id :: "int option"
  sq_from_decoder_prompt :: bool
  sq_data :: sequence_data
  sq_output_logprobs :: "(int, logprob) dict list"
  sq_output_text :: string
  sq_status :: sequence_status
  sq_stop_reason :: "stop_reason option"
  sq_last_output_token_ids_offset :: int
  sq_last_output_text_offset :: int
  sq_prefix_offset :: int
  sq_read_offset :: int
  sq_tokens :: "string option list option"

text \<open>A missing encoder prompt is the invalid input that the constructor refuses.\<close>

definition seq_init :: "int \<Rightarrow> 'mm llm_inputs \<Rightarrow> int \<Rightarrow> int option \<Rightarrow> int option \<Rightarrow> bool \<Rightarrow> exn + 'mm sequence" where
  "seq_init seq_id inputs block_size eos_token_id lora_int_id from_decoder_prompt =
     echeck ValueError (from_decoder_prompt \<or> in_encoder_prompt_token_ids inputs \<noteq> None)
       (ebind (sd_from_seqs (if from_decoder_prompt then in_prompt_token_ids inputs
                 else the (in_encoder_prompt_token_ids inputs)) None) (\<lambda>data.
        Inr \<lparr>sq_seq_id = seq_id, sq_inputs = inputs, sq_block_size = block_size, sq_eos_token_id = eos_token_id,
          sq_lora_int_id = lora_int_id, sq_from_decoder_prompt = from_decoder_prompt, sq_data = data,
          sq_output_logprobs = [], sq_output_text = [], sq_status = WAITING, sq_stop_reason = None,
          sq_last_output_token_ids_offset = 0, sq_last_output_text_offset = 0,
          sq_prefix_offset = 0, sq_read_offset = 0, sq_tokens = None\<rparr>))"

definition seq_get_len :: "'mm sequence \<Rightarrow> int" where
  "seq_get_len s = sd_get_len (sq_data s)"

definition n_blocks :: "'mm sequence \<Rightarrow> exn + int" where
  "n_blocks s = echeck ZeroDivisionError (sq_block_size s \<noteq> 0)
     (Inr ((seq_get_len s + sq_block_size s - 1) div sq_block_size s))"

definition seq_multi_modal_data :: "'mm sequence \<Rightarrow> exn + 'mm option" where
  "seq_multi_modal_data s =
     (let i = sq_inputs s in
      echeck ValueError (\<not> (in_multi_modal_data i \<noteq> None \<and> in_encoder_multi_modal_data i \<noteq> None))
        (Inr (case in_multi_modal_data i of Some m \<Rightarrow> Some m | None \<Rightarrow> in_encoder_multi_modal_data i)))"

definition seq_is_finished :: "'mm sequence \<Rightarrow> bool" where
  "seq_is_finished s = status_is_finished (sq_status s)"

definition get_output_text_to_return :: "int \<Rightarrow> bool \<Rightarrow> ('mm sequence, string) py" where
  "get_output_text_to_return buffer_length delta =
     bind (gets id) (\<lambda>s.
     let truncate = buffer_length \<noteq> 0 \<and> \<not> seq_is_finished s
     in if \<not> delta then
          return (if truncate then slice_to (sq_output_text s) (- buffer_length) else sq_output_text s)
        else
          let len = int (length (sq_output_text s)) - (if truncate then buffer_length else 0);
              last_offset = sq_last_output_text_offset s
          in if last_offset < len then
               andthen (modify (\<lambda>s. s\<lparr>sq_last_output_text_offset := len\<rparr>))
                 (return (slice_from (slice_to (sq_output_text s) len) last_offset))
             else return [])"

datatype token_ids_to_return = OneToken int | Tokens "int list"

definition get_output_token_ids_to_return :: "bool \<Rightarrow> ('mm sequence, token_ids_to_return) py" where
  "get_output_token_ids_to_return delta =
     (if \<not> delta then gets (\<lambda>s. Tokens (sd_output_token_ids (sq_data s)))
      else
        bind (gets (\<lambda>s. sd_get_output_len (sq_data s))) (\<lambda>output_len.
        bind (gets (\<lambda>s. output_len - sq_last_output_token_ids_offset s)) (\<lambda>num_new_tokens.
        andthen (modify (\<lambda>s. s\<lparr>sq_last_output_token_ids_offset := output_len\<rparr>))
       (bind (gets (\<lambda>s. sd_cached_all_token_ids (sq_data s))) (\<lambda>all_tokens.
        if num_new_tokens = 0 then return (Tokens [])
        else if num_new_tokens = 1 then
          (if all_tokens = [] then raise IndexError else return (OneToken (last all_tokens)))
        else return (Tokens (slice_from all_tokens (- num_new_tokens))))))))"

definition num_hashed_tokens_of_block :: "int \<Rightarrow> 'mm sequence \<Rightarrow> int" where
  "num_hashed_tokens_of_block logical_idx s = logical_idx * sq_block_size s + sq_block_size s"

definition on_data :: "(sequence_data, 'a) py \<Rightarrow> ('mm sequence, 'a) py" where
  "on_data = zoom sq_data (\<lambda>d s. s\<lparr>sq_data := d\<rparr>)"

definition seq_reset_state_for_recompute :: "'mm sequence \<Rightarrow> 'mm sequence" where
  "seq_reset_state_for_recompute s = s\<lparr>sq_data := sd_reset_state_for_recompute (sq_data s)\<rparr>"

definition seq_append_token_id :: "int \<Rightarrow> (int, logprob) dict \<Rightarrow> ('mm sequence, unit) py" where
  "seq_append_token_id token_id logprobs = (case map_of logprobs token_id of
     None \<Rightarrow> raise AssertionError
   | Some logprob \<Rightarrow>
       andthen (modify (\<lambda>s. s\<lparr>sq_output_logprobs := sq_output_logprobs s @ [logprobs]\<rparr>))
         (on_data (sd_append_token_id token_id (lp_logprob logprob))))"

definition seq_fork :: "int \<Rightarrow> 'mm sequence \<Rightarrow> 'mm sequence" where
  "seq_fork new_seq_id s = s\<lparr>sq_seq_id := new_seq_id\<rparr>"

definition seq_get_num_new_tokens :: "'mm sequence \<Rightarrow> int" where
  "seq_get_num_new_tokens s =
     (if sd_stage (sq_data s) = DECODE then 1 else sd_get_num_uncomputed_tokens (sq_data s))"

definition seq_is_prefill :: "'mm sequence \<Rightarrow> bool" where
  "seq_is_prefill s \<longleftrightarrow> sd_stage (sq_data s) = PREFILL"


section \<open>The invariant of SequenceData\<close>

text \<open>
  The list of all tokens and the tuple of the prompt are copies that must not drift from the two
  arrays; the tokens that were not sent yet are the newest ones.
\<close>

definition sd_inv :: "sequence_data \<Rightarrow> bool" where
  "sd_inv d \<longleftrightarrow> sd_cached_all_token_ids d = sd_prompt_token_ids d @ sd_output_token_ids d \<and>
     sd_prompt_token_ids_tuple d = sd_prompt_token_ids d \<and>
     list_all fits_l (sd_cached_all_token_ids d)"

lemma sd_inv_make: "list_all fits_l p \<Longrightarrow> list_all fits_l q \<Longrightarrow> sd_inv (sd_make p q)"
  by (simp add: sd_inv_def sd_make_def)

lemma sd_inv_from_seqs: "sd_from_seqs p q = Inr d \<Longrightarrow> sd_inv d"
  by (auto simp: sd_from_seqs_def array_l_def ebind_Inr_iff sd_inv_make split: option.splits)

lemma sd_inv_append: "sd_inv d \<Longrightarrow> sd_inv (snd (sd_append_token_id t lp d))"
  by (auto simp: sd_inv_def sd_append_token_id_def py_defs)

lemma sd_inv_set_output: "sd_inv d \<Longrightarrow> sd_inv (snd (sd_set_output_token_ids xs d))"
  by (auto simp: sd_inv_def sd_set_output_token_ids_def array_l_def echeck_def raise_def modify_def)

lemma sd_inv_computed [simp]:
  "sd_inv (d\<lparr>sd_num_computed_tokens := n\<rparr>) = sd_inv d" "sd_inv (d\<lparr>sd_stage := st\<rparr>) = sd_inv d"
  "sd_inv (d\<lparr>sd_new_appended_tokens := xs\<rparr>) = sd_inv d"
  unfolding sd_inv_def by simp_all

lemma sd_inv_update: "sd_inv d \<Longrightarrow> sd_inv (snd (sd_update_num_computed_tokens n d))"
  by (simp add: sd_update_num_computed_tokens_def py_defs split: if_splits)

lemma sd_inv_reset: "sd_inv d \<Longrightarrow> sd_inv (sd_reset_state_for_recompute d)"
  by (simp add: sd_reset_state_for_recompute_def)

section \<open>Sending deltas\<close>

datatype sd_op = AppendToken int rat | UpdateComputed int

fun sd_apply_op :: "sd_op \<Rightarrow> sequence_data \<Rightarrow> sequence_data" where
  "sd_apply_op (AppendToken t lp) d = snd (sd_append_token_id t lp d)"
| "sd_apply_op (UpdateComputed n) d = snd (sd_update_num_computed_tokens n d)"

text \<open>One step: the scheduler's data change, then a delta is taken and applied to the worker's copy.\<close>

definition sd_round :: "sd_op list \<Rightarrow> sequence_data \<times> sequence_data \<Rightarrow> sequence_data \<times> sequence_data" where
  "sd_round ops = (\<lambda>(s, w). case sd_get_delta_and_reset (fold sd_apply_op ops s) of
     (Inr delta, s') \<Rightarrow> (s', sd_apply_delta delta w) | (Inl e, s') \<Rightarrow> (s', w))"

definition sd_mirror :: "sequence_data \<Rightarrow> sequence_data \<Rightarrow> bool" where
  "sd_mirror s w \<longleftrightarrow> sd_new_appended_tokens s = [] \<and> w\<lparr>sd_new_appended_tokens := []\<rparr> = s"

text \<open>What the pending delta would make of the worker's copy is the scheduler's data.\<close>

definition sd_ahead :: "sequence_data \<Rightarrow> sequence_data \<Rightarrow> bool" where
  "sd_ahead w s \<longleftrightarrow> sd_apply_delta (case fst (sd_get_delta_and_reset s) of Inr delta \<Rightarrow> delta) w
     \<lparr>sd_new_appended_tokens := []\<rparr> = s\<lparr>sd_new_appended_tokens := []\<rparr>"

lemma sd_ahead_iff:
  "sd_ahead w s \<longleftrightarrow> sd_output_token_ids s = sd_output_token_ids w @ sd_new_appended_tokens s \<and>
     sd_cached_all_token_ids s = sd_cached_all_token_ids w @ sd_new_appended_tokens s \<and>
     sd_prompt_token_ids s = sd_prompt_token_ids w \<and>
     sd_prompt_token_ids_tuple s = sd_prompt_token_ids_tuple w \<and>
     sd_mrope_position_delta s = sd_mrope_position_delta w"
  by (cases w; cases s)
    (auto simp: sd_ahead_def sd_get_delta_and_reset_def py_defs sd_apply_delta_def)

lemma sd_ahead_op: "sd_ahead w s \<Longrightarrow> sd_ahead w (sd_apply_op op s)"
  by (cases op)
    (auto simp: sd_ahead_iff sd_append_token_id_def sd_update_num_computed_tokens_def py_defs)

lemma sd_ahead_ops: "sd_ahead w s \<Longrightarrow> sd_ahead w (fold sd_apply_op ops s)"
  by (induction ops arbitrary: s) (auto simp: sd_ahead_op)

lemma sd_mirror_ahead: "sd_mirror s w \<Longrightarrow> sd_ahead w s"
  by (auto simp: sd_mirror_def sd_ahead_iff)

lemma sd_round_mirror:
  assumes "sd_mirror s w"
  shows "case sd_round ops (s, w) of (s', w') \<Rightarrow> sd_mirror s' w' \<and>
    s' = (fold sd_apply_op ops s)\<lparr>sd_new_appended_tokens := []\<rparr>"
  using sd_ahead_ops [OF sd_mirror_ahead [OF assms], of ops]
  by (simp add: sd_round_def sd_ahead_def sd_mirror_def sd_get_delta_and_reset_def py_defs)

text \<open>
  C21: the delta protocol keeps the workers exact. When a worker holds a copy of the scheduler's
  \<open>SequenceData\<close> and the scheduler then appends tokens and advances the computed tokens, in any way
  and over any number of steps, sending one delta per step, the worker's copy is after each step the
  scheduler's data again: tokens, cached token list, log probability, computed tokens and stage.
\<close>

theorem delta_protocol_mirrors:
  assumes "sd_mirror s w"
  shows "case fold sd_round steps (s, w) of (s', w') \<Rightarrow> sd_mirror s' w' \<and>
    s' = (fold sd_apply_op (concat steps) s)\<lparr>sd_new_appended_tokens := []\<rparr>"
  using assms
proof (induction steps arbitrary: s w)
  case Nil
  then show ?case by (cases s) (simp add: sd_mirror_def)
next
  case (Cons ops steps)
  obtain s1 w1 where r: "sd_round ops (s, w) = (s1, w1)" by (cases "sd_round ops (s, w)")
  have "sd_mirror s1 w1 \<and> s1 = (fold sd_apply_op ops s)\<lparr>sd_new_appended_tokens := []\<rparr>"
    using sd_round_mirror [OF Cons.prems, of ops] unfolding r prod.case .
  then have m: "sd_mirror s1 w1" "s1 = (fold sd_apply_op ops s)\<lparr>sd_new_appended_tokens := []\<rparr>"
    by blast+
  have pending: "(fold sd_apply_op os (d\<lparr>sd_new_appended_tokens := []\<rparr>))\<lparr>sd_new_appended_tokens := []\<rparr> =
      (fold sd_apply_op os d)\<lparr>sd_new_appended_tokens := []\<rparr>" for os d
  proof (induction os arbitrary: d)
    case (Cons x os)
    have "(sd_apply_op x (d\<lparr>sd_new_appended_tokens := []\<rparr>))\<lparr>sd_new_appended_tokens := []\<rparr> =
        (sd_apply_op x d)\<lparr>sd_new_appended_tokens := []\<rparr>"
      by (cases x; cases d) (auto simp: sd_append_token_id_def sd_update_num_computed_tokens_def
          py_defs sd_get_num_uncomputed_tokens_def sd_get_len_def)
    then show ?case
      using Cons.IH [of "sd_apply_op x (d\<lparr>sd_new_appended_tokens := []\<rparr>)"] Cons.IH [of "sd_apply_op x d"]
      by simp
  qed simp
  show ?case using Cons.IH [OF m(1)] r m(2) by (simp add: pending)
qed

lemma delta_protocol_mirrors_witness:
  "case fold sd_round [[AppendToken 7 (-1), UpdateComputed 2], [UpdateComputed 1, AppendToken 9 (-2)]]
     (sd_make [5, 6] [], sd_make [5, 6] []) of (s, w) \<Rightarrow>
     sd_mirror s w \<and> sd_output_token_ids w = [7, 9] \<and> sd_num_computed_tokens w = 3 \<and> sd_stage w = DECODE"
proof -
  have m: "sd_mirror (sd_make [5, 6] []) (sd_make [5, 6] [])" by (simp add: sd_mirror_def sd_make_def)
  let ?steps = "[[AppendToken 7 (-1), UpdateComputed 2], [UpdateComputed 1, AppendToken 9 (-2)]]"
  have "case fold sd_round ?steps (sd_make [5, 6] [], sd_make [5, 6] []) of (s, w) \<Rightarrow>
      sd_output_token_ids w = [7, 9] \<and> sd_num_computed_tokens w = 3 \<and> sd_stage w = DECODE" by code_simp
  then show ?thesis using delta_protocol_mirrors [OF m, of ?steps] by (auto split: prod.splits)
qed

section \<open>Streaming the output\<close>

text \<open>
  What a client of a streamed request sees: the output grows, is polled for what is new, and is
  finished at some time.
\<close>

datatype stream_event = GrowText string | AppendOutput int "(int, logprob) dict" | PollText int | PollTokens
  | SetStatus sequence_status

fun tokens_of :: "token_ids_to_return \<Rightarrow> int list" where
  "tokens_of (OneToken t) = [t]"
| "tokens_of (Tokens ts) = ts"

text \<open>The sequence, the text and the tokens that the client has received.\<close>

fun stream_step :: "stream_event \<Rightarrow> 'mm sequence \<times> string \<times> int list \<Rightarrow> 'mm sequence \<times> string \<times> int list" where
  "stream_step (GrowText new) (s, seen, toks) = (s\<lparr>sq_output_text := sq_output_text s @ new\<rparr>, seen, toks)"
| "stream_step (AppendOutput t lps) (s, seen, toks) = (snd (seq_append_token_id t lps s), seen, toks)"
| "stream_step (PollText n) (s, seen, toks) = (case get_output_text_to_return n True s of
     (Inr new, s') \<Rightarrow> (s', seen @ new, toks) | (Inl e, s') \<Rightarrow> (s', seen, toks))"
| "stream_step PollTokens (s, seen, toks) = (case get_output_token_ids_to_return True s of
     (Inr new, s') \<Rightarrow> (s', seen, toks @ tokens_of new) | (Inl e, s') \<Rightarrow> (s', seen, toks))"
| "stream_step (SetStatus st) (s, seen, toks) = (s\<lparr>sq_status := st\<rparr>, seen, toks)"

fun buffer_ok :: "stream_event \<Rightarrow> bool" where
  "buffer_ok (PollText n) \<longleftrightarrow> 0 \<le> n"
| "buffer_ok _ \<longleftrightarrow> True"

definition stream_inv :: "'mm sequence \<times> string \<times> int list \<Rightarrow> bool" where
  "stream_inv = (\<lambda>(s, seen, toks). sd_inv (sq_data s) \<and>
     0 \<le> sq_last_output_text_offset s \<and> sq_last_output_text_offset s \<le> int (length (sq_output_text s)) \<and>
     seen = take (nat (sq_last_output_text_offset s)) (sq_output_text s) \<and>
     sq_last_output_token_ids_offset s = int (length toks) \<and>
     (\<exists>rest. sd_output_token_ids (sq_data s) = toks @ rest))"

lemma poll_text_run:
  assumes "0 \<le> n" "0 \<le> sq_last_output_text_offset s"
    and "sq_last_output_text_offset s \<le> int (length (sq_output_text s))"
    and "seen = take (nat (sq_last_output_text_offset s)) (sq_output_text s)"
  shows "\<exists>new k. get_output_text_to_return n True s = (Inr new, s\<lparr>sq_last_output_text_offset := k\<rparr>) \<and>
    0 \<le> k \<and> k \<le> int (length (sq_output_text s)) \<and> seen @ new = take (nat k) (sq_output_text s) \<and>
    (seq_is_finished s \<longrightarrow> k = int (length (sq_output_text s)))"
proof -
  let ?len = "int (length (sq_output_text s)) - (if n \<noteq> 0 \<and> \<not> seq_is_finished s then n else 0)"
  let ?off = "sq_last_output_text_offset s"
  show ?thesis
  proof (cases "?off < ?len")
    case True
    have b: "?len \<le> int (length (sq_output_text s))" using assms(1) by simp
    have "take (nat ?off) (sq_output_text s) @ drop (nat ?off) (take (nat ?len) (sq_output_text s)) =
        take (nat ?len) (sq_output_text s)"
      using append_take_drop_id [of "nat ?off" "take (nat ?len) (sq_output_text s)"] True assms(2)
      by (simp add: min_absorb1 nat_mono)
    then show ?thesis
      using True b assms
      by (intro exI [of _ "drop (nat ?off) (take (nat ?len) (sq_output_text s))"] exI [of _ ?len])
        (auto simp: get_output_text_to_return_def py_defs Let_def slice_from_def slice_to_def)
  next
    case False
    have "s\<lparr>sq_last_output_text_offset := ?off\<rparr> = s" by (cases s) simp
    then show ?thesis
      using False assms
      by (intro exI [of _ "[]"] exI [of _ ?off])
        (auto simp: get_output_text_to_return_def py_defs Let_def)
  qed
qed

lemma poll_tokens_run:
  assumes "sd_inv (sq_data s)" "sd_output_token_ids (sq_data s) = toks @ rest"
    and "sq_last_output_token_ids_offset s = int (length toks)"
  shows "\<exists>new. get_output_token_ids_to_return True s =
      (Inr new, s\<lparr>sq_last_output_token_ids_offset := int (length (toks @ rest))\<rparr>) \<and> tokens_of new = rest"
proof -
  let ?all = "sd_cached_all_token_ids (sq_data s)"
  have all: "?all = (sd_prompt_token_ids (sq_data s) @ toks) @ rest" using assms(1,2) by (simp add: sd_inv_def)
  have n: "sd_get_output_len (sq_data s) - sq_last_output_token_ids_offset s = int (length rest)"
    using assms(2,3) by (simp add: sd_get_output_len_def)
  have len: "sd_get_output_len (sq_data s) = int (length (toks @ rest))"
    using assms(2) by (simp add: sd_get_output_len_def)
  consider "rest = []" | t where "rest = [t]" | t u r where "rest = t # u # r"
    by (cases rest; cases "tl rest") auto
  then show ?thesis
  proof cases
    case 1
    then show ?thesis using n len
      by (intro exI [of _ "Tokens []"]) (simp add: get_output_token_ids_to_return_def py_defs)
  next
    case 2
    then show ?thesis using n len all
      by (intro exI [of _ "OneToken t"]) (simp add: get_output_token_ids_to_return_def py_defs)
  next
    case 3
    have "slice_from ?all (- int (length rest)) = rest"
      unfolding all by (simp add: slice_from_def 3)
    then show ?thesis using n len 3
      by (intro exI [of _ "Tokens rest"]) (simp add: get_output_token_ids_to_return_def py_defs)
  qed
qed

lemma stream_step_inv:
  assumes "stream_inv x" "buffer_ok e"
  shows "stream_inv (stream_step e x)"
proof -
  obtain s seen toks where x: "x = (s, seen, toks)" by (cases x)
  note i = assms(1) [unfolded stream_inv_def x prod.case]
  show ?thesis
  proof (cases e)
    case (GrowText new)
    then show ?thesis using i x by (auto simp: stream_inv_def)
  next
    case (AppendOutput t lps)
    then show ?thesis using i x sd_inv_append [of "sq_data s"]
      by (auto simp: stream_inv_def seq_append_token_id_def on_data_def py_defs sd_append_token_id_def
          sd_inv_def split: option.splits)
  next
    case (PollText n)
    then have "0 \<le> n" using assms(2) by simp
    then obtain new k where "get_output_text_to_return n True s = (Inr new, s\<lparr>sq_last_output_text_offset := k\<rparr>)"
        "0 \<le> k" "k \<le> int (length (sq_output_text s))" "seen @ new = take (nat k) (sq_output_text s)"
      using poll_text_run [of n s seen] i by blast
    then show ?thesis using i x PollText by (simp add: stream_inv_def)
  next
    case PollTokens
    obtain rest where rest: "sd_output_token_ids (sq_data s) = toks @ rest" using i by blast
    obtain new where "get_output_token_ids_to_return True s =
        (Inr new, s\<lparr>sq_last_output_token_ids_offset := int (length (toks @ rest))\<rparr>)" "tokens_of new = rest"
      using poll_tokens_run [OF _ rest] i by blast
    then show ?thesis using i x rest PollTokens by (simp add: stream_inv_def)
  next
    case (SetStatus st)
    then show ?thesis using i x by (simp add: stream_inv_def)
  qed
qed

lemma stream_history_inv:
  "stream_inv x \<Longrightarrow> list_all buffer_ok es \<Longrightarrow> stream_inv (fold stream_step es x)"
  by (induction es arbitrary: x) (auto simp: stream_step_inv)

text \<open>
  C22: streaming loses and repeats nothing. Whatever the order in which the output of a new sequence
  grows, is polled with a buffer for stop strings, and is finished, the text that was handed out is a
  prefix of the output text and the token ids that were handed out are a prefix of the output tokens;
  a poll of a finished sequence completes the text, and every poll of the tokens completes them.
\<close>

theorem streamed_output_complete:
  assumes "seq_init seq_id inputs block_size eos lora decoder = Inr s0" "list_all buffer_ok es"
    and "fold stream_step es (s0, [], []) = (s, seen, toks)"
  shows "(\<exists>rest. sq_output_text s = seen @ rest) \<and> (\<exists>rest. sd_output_token_ids (sq_data s) = toks @ rest) \<and>
    (seq_is_finished s \<longrightarrow> 0 \<le> n \<longrightarrow>
       (\<exists>s'. stream_step (PollText n) (s, seen, toks) = (s', sq_output_text s, toks))) \<and>
    (\<exists>s'. stream_step PollTokens (s, seen, toks) = (s', seen, sd_output_token_ids (sq_data s)))"
proof -
  have "sd_inv (sq_data s0)" "sq_last_output_text_offset s0 = 0" "sq_last_output_token_ids_offset s0 = 0"
    using assms(1) sd_inv_from_seqs by (auto simp: seq_init_def ebind_Inr_iff)
  then have "stream_inv (s0, [], [])" by (simp add: stream_inv_def)
  from stream_history_inv [OF this assms(2)] have i: "stream_inv (s, seen, toks)" unfolding assms(3) .
  note i' = i [unfolded stream_inv_def prod.case]
  obtain rest where rest: "sd_output_token_ids (sq_data s) = toks @ rest" using i' by blast
  have "\<exists>s'. stream_step (PollText n) (s, seen, toks) = (s', sq_output_text s, toks)"
    if f: "seq_is_finished s" and n: "0 \<le> n"
  proof -
    obtain new k where "get_output_text_to_return n True s = (Inr new, s\<lparr>sq_last_output_text_offset := k\<rparr>)"
        "seen @ new = take (nat k) (sq_output_text s)" "k = int (length (sq_output_text s))"
      using poll_text_run [OF n, of s seen] i' f by blast
    then show ?thesis by simp
  qed
  moreover obtain new where "get_output_token_ids_to_return True s =
      (Inr new, s\<lparr>sq_last_output_token_ids_offset := int (length (toks @ rest))\<rparr>)" "tokens_of new = rest"
    using poll_tokens_run [OF _ rest] i' by blast
  then have "\<exists>s'. stream_step PollTokens (s, seen, toks) = (s', seen, sd_output_token_ids (sq_data s))"
    using rest by simp
  moreover have "\<exists>rest. sq_output_text s = seen @ rest"
    using i' append_take_drop_id [of "nat (sq_last_output_text_offset s)" "sq_output_text s"] by metis
  ultimately show ?thesis using rest by blast
qed

definition example_inputs :: "unit llm_inputs" where
  "example_inputs = \<lparr>in_prompt_token_ids = [1, 2], in_encoder_prompt_token_ids = None,
     in_multi_modal_data = None, in_encoder_multi_modal_data = None\<rparr>"

definition example_logprob :: logprob where
  "example_logprob = \<lparr>lp_logprob = -1, lp_rank = None, lp_decoded_token = None\<rparr>"

definition example_stream :: "stream_event list" where
  "example_stream = [AppendOutput 5 [(5, example_logprob)], GrowText ''abcd'', PollText 3, PollTokens,
     AppendOutput 6 [(6, example_logprob)], GrowText ''e'', SetStatus FINISHED_STOPPED]"

lemma streamed_output_complete_witness:
  "\<exists>(s :: unit sequence) s'. fold stream_step example_stream (s, [], []) = (s', ''a'', [5]) \<and> seq_is_finished s' \<and>
    (\<exists>t. stream_step (PollText 3) (s', ''a'', [5]) = (t, ''abcde'', [5])) \<and>
    (\<exists>t. stream_step PollTokens (s', ''a'', [5]) = (t, ''a'', [5, 6]))"
proof -
  let ?r = "seq_init 0 example_inputs 4 None None True"
  let ?s = "case ?r of Inr s \<Rightarrow> s"
  have init: "?r = Inr ?s" by code_simp
  let ?t = "fold stream_step example_stream (?s, [], [])"
  have buf: "list_all buffer_ok example_stream" by code_simp
  have run: "?t = (fst ?t, ''a'', [5])" by code_simp
  have vals: "seq_is_finished (fst ?t)" "sq_output_text (fst ?t) = ''abcde''"
      "sd_output_token_ids (sq_data (fst ?t)) = [5, 6]" by code_simp+
  have "(\<exists>t. stream_step (PollText 3) (fst ?t, ''a'', [5]) = (t, ''abcde'', [5])) \<and>
      (\<exists>t. stream_step PollTokens (fst ?t, ''a'', [5]) = (t, ''a'', [5, 6]))"
    using streamed_output_complete [OF init buf run, of 3] vals by (simp del: stream_step.simps)
  with run vals(1) show ?thesis by blast
qed

end
