(* ===== verification/SequenceGroup.thy ===== *)
theory SequenceGroup
  imports Sequence
begin

text \<open>
  \<open>SequenceGroup\<close> and the metadata that the scheduler sends to the workers, of
  \<^verbatim>\<open>qwen3_6_scripts/sequence.py\<close>. The group keeps its sequences by value; \<open>seqs_dict\<close> is the list of
  its keys, because its values are the objects of \<open>seqs\<close>.
\<close>

section \<open>State\<close>

record sequence_group_state =
  gs_num_steps :: int
  gs_current_step :: int

definition remaining_steps :: "sequence_group_state \<Rightarrow> int" where
  "remaining_steps s = gs_num_steps s - gs_current_step s"

record request_metrics =
  rm_arrival_time :: rat
  rm_last_token_time :: rat
  rm_first_scheduled_time :: "rat option"
  rm_first_token_time :: "rat option"
  rm_time_in_queue :: "rat option"
  rm_finished_time :: "rat option"
  rm_scheduler_time :: "rat option"
  rm_num_cached_tokens :: "int option"

record 'mm sequence_group =
  sg_request_id :: string
  sg_seqs :: "'mm sequence list"
  sg_arrival_time :: rat
  sg_is_single_seq :: bool
  sg_seqs_dict :: "int list"
  sg_sampling_n :: "int option"
  sg_metrics :: request_metrics
  sg_lora_int_id :: "int option"
  sg_state :: sequence_group_state
  sg_encoder_seq :: "'mm sequence option"
  sg_priority :: int

definition sg_init :: "string \<Rightarrow> 'mm sequence list \<Rightarrow> rat \<Rightarrow> int option \<Rightarrow> int option
    \<Rightarrow> 'mm sequence option \<Rightarrow> int \<Rightarrow> 'mm sequence_group" where
  "sg_init request_id seqs arrival_time sampling_n lora_int_id encoder_seq priority =
     \<lparr>sg_request_id = request_id, sg_seqs = seqs, sg_arrival_time = arrival_time,
      sg_is_single_seq = (length seqs = 1), sg_seqs_dict = remdups (map sq_seq_id seqs),
      sg_sampling_n = sampling_n,
      sg_metrics = \<lparr>rm_arrival_time = arrival_time, rm_last_token_time = arrival_time,
        rm_first_scheduled_time = None, rm_first_token_time = None, rm_time_in_queue = None,
        rm_finished_time = None, rm_scheduler_time = None, rm_num_cached_tokens = None\<rparr>,
      sg_lora_int_id = lora_int_id, sg_state = \<lparr>gs_num_steps = 1, gs_current_step = 0\<rparr>,
      sg_encoder_seq = encoder_seq, sg_priority = priority\<rparr>"

text \<open>\<open>self.seqs[0]\<close>\<close>

definition first_seq :: "'mm sequence_group \<Rightarrow> exn + 'mm sequence" where
  "first_seq g = (case sg_seqs g of [] \<Rightarrow> Inl IndexError | s # _ \<Rightarrow> Inr s)"

definition sg_is_prefill :: "'mm sequence_group \<Rightarrow> exn + bool" where
  "sg_is_prefill g = ebind (first_seq g) (\<lambda>s. Inr (seq_is_prefill s))"

definition sg_is_encoder_decoder :: "'mm sequence_group \<Rightarrow> bool" where
  "sg_is_encoder_decoder g \<longleftrightarrow> sg_encoder_seq g \<noteq> None"

section \<open>Steps and times\<close>

definition init_multi_step :: "int \<Rightarrow> 'mm sequence_group \<Rightarrow> 'mm sequence_group" where
  "init_multi_step num_steps g =
     g\<lparr>sg_state := \<lparr>gs_num_steps = num_steps, gs_current_step = 0\<rparr>\<rparr>"

definition init_multi_step_from_lookahead_slots :: "int \<Rightarrow> int \<Rightarrow> bool \<Rightarrow> bool \<Rightarrow> 'mm sequence_group
    \<Rightarrow> exn + 'mm sequence_group" where
  "init_multi_step_from_lookahead_slots num_lookahead_slots num_scheduler_steps is_multi_step
     enable_chunking g =
     (if \<not> is_multi_step then Inr (init_multi_step num_scheduler_steps g)
      else ebind (sg_is_prefill g) (\<lambda>is_prefill.
        if is_prefill \<and> enable_chunking then
          echeck AssertionError (num_lookahead_slots = num_scheduler_steps)
            (Inr (init_multi_step num_lookahead_slots g))
        else
          echeck AssertionError (num_lookahead_slots = 0 \<or> \<not> is_prefill)
         (echeck AssertionError (num_lookahead_slots + 1 = num_scheduler_steps \<or> is_prefill)
            (Inr (init_multi_step (num_lookahead_slots + 1) g)))))"

definition get_last_latency :: "rat \<Rightarrow> ('mm sequence_group, rat) py" where
  "get_last_latency now =
     bind (gets sg_is_prefill) (\<lambda>r. case r of
       Inl e \<Rightarrow> raise e
     | Inr is_prefill \<Rightarrow>
         andthen (guard ValueError (\<not> is_prefill))
        (bind (gets (\<lambda>g. now - rm_last_token_time (sg_metrics g))) (\<lambda>latency.
         andthen (modify (\<lambda>g. g\<lparr>sg_metrics := (sg_metrics g)\<lparr>rm_last_token_time := now\<rparr>\<rparr>))
           (return latency))))"

definition maybe_set_first_token_time :: "rat \<Rightarrow> 'mm sequence_group \<Rightarrow> exn + 'mm sequence_group" where
  "maybe_set_first_token_time time g =
     (if rm_first_token_time (sg_metrics g) \<noteq> None then Inr g
      else ebind (first_seq g) (\<lambda>s.
        if sd_get_output_len (sq_data s) = 1
        then Inr (g\<lparr>sg_metrics := (sg_metrics g)\<lparr>rm_first_token_time := Some time\<rparr>\<rparr>) else Inr g))"

definition maybe_set_first_scheduled_time :: "rat \<Rightarrow> 'mm sequence_group \<Rightarrow> 'mm sequence_group" where
  "maybe_set_first_scheduled_time time g =
     (if rm_first_scheduled_time (sg_metrics g) = None
      then g\<lparr>sg_metrics := (sg_metrics g)\<lparr>rm_first_scheduled_time := Some time,
             rm_time_in_queue := Some (time - rm_arrival_time (sg_metrics g))\<rparr>\<rparr>
      else g)"

definition set_finished_time :: "rat option \<Rightarrow> 'mm sequence_group \<Rightarrow> 'mm sequence_group" where
  "set_finished_time time g = g\<lparr>sg_metrics := (sg_metrics g)\<lparr>rm_finished_time := time\<rparr>\<rparr>"

section \<open>The sequences of a group\<close>

definition sg_get_seqs :: "sequence_status option \<Rightarrow> 'mm sequence_group \<Rightarrow> exn + 'mm sequence list" where
  "sg_get_seqs status g = (case status of
     None \<Rightarrow> Inr (sg_seqs g)
   | Some st \<Rightarrow>
       if sg_is_single_seq g
       then ebind (first_seq g) (\<lambda>s. Inr (if sq_status s = st then sg_seqs g else []))
       else Inr (filter (\<lambda>s. sq_status s = st) (sg_seqs g)))"

definition sg_get_unfinished_seqs :: "'mm sequence_group \<Rightarrow> exn + 'mm sequence list" where
  "sg_get_unfinished_seqs g =
     (if sg_is_single_seq g
      then ebind (first_seq g) (\<lambda>s. Inr (if \<not> seq_is_finished s then sg_seqs g else []))
      else Inr (filter (\<lambda>s. \<not> seq_is_finished s) (sg_seqs g)))"

definition sg_get_finished_seqs :: "'mm sequence_group \<Rightarrow> exn + 'mm sequence list" where
  "sg_get_finished_seqs g =
     (if sg_is_single_seq g
      then ebind (first_seq g) (\<lambda>s. Inr (if seq_is_finished s then sg_seqs g else []))
      else Inr (filter seq_is_finished (sg_seqs g)))"

definition sg_num_seqs :: "sequence_status option \<Rightarrow> 'mm sequence_group \<Rightarrow> exn + int" where
  "sg_num_seqs status g = (case status of
     None \<Rightarrow> Inr (int (length (sg_seqs g)))
   | Some st \<Rightarrow>
       if sg_is_single_seq g
       then ebind (first_seq g) (\<lambda>s. Inr (if sq_status s = st then 1 else 0))
       else ebind (sg_get_seqs (Some st) g) (\<lambda>ss. Inr (int (length ss))))"

definition sg_num_unfinished_seqs :: "'mm sequence_group \<Rightarrow> exn + int" where
  "sg_num_unfinished_seqs g =
     (if sg_is_single_seq g
      then ebind (first_seq g) (\<lambda>s. Inr (if \<not> seq_is_finished s then 1 else 0))
      else ebind (sg_get_unfinished_seqs g) (\<lambda>ss. Inr (int (length ss))))"

definition sg_num_finished_seqs :: "'mm sequence_group \<Rightarrow> exn + int" where
  "sg_num_finished_seqs g =
     (if sg_is_single_seq g
      then ebind (first_seq g) (\<lambda>s. Inr (if seq_is_finished s then 1 else 0))
      else ebind (sg_get_finished_seqs g) (\<lambda>ss. Inr (int (length ss))))"

definition sg_is_finished :: "'mm sequence_group \<Rightarrow> exn + bool" where
  "sg_is_finished g =
     (if sg_is_single_seq g then ebind (first_seq g) (\<lambda>s. Inr (seq_is_finished s))
      else Inr (list_all seq_is_finished (sg_seqs g)))"

definition sg_get_max_num_running_seqs :: "'mm sequence_group \<Rightarrow> exn + int" where
  "sg_get_max_num_running_seqs g = (case sg_sampling_n g of
     None \<Rightarrow> sg_num_unfinished_seqs g
   | Some n \<Rightarrow> if int (length (sg_seqs g)) < n then Inr n else sg_num_unfinished_seqs g)"

text \<open>\<open>for seq in self.seqs: if not seq.is_finished(): ...\<close>; an exception leaves the later ones alone.\<close>

fun update_unfinished :: "int \<Rightarrow> 'mm sequence list \<Rightarrow> (exn + unit) \<times> 'mm sequence list" where
  "update_unfinished n [] = (Inr (), [])"
| "update_unfinished n (s # ss) =
     (if seq_is_finished s
      then (case update_unfinished n ss of (r, ss') \<Rightarrow> (r, s # ss'))
      else (case on_data (sd_update_num_computed_tokens n) s of
          (Inl e, s') \<Rightarrow> (Inl e, s' # ss)
        | (Inr _, s') \<Rightarrow> (case update_unfinished n ss of (r, ss') \<Rightarrow> (r, s' # ss'))))"

definition sg_update_num_computed_tokens :: "int \<Rightarrow> ('mm sequence_group, unit) py" where
  "sg_update_num_computed_tokens num_new_computed_tokens =
     zoom sg_seqs (\<lambda>ss g. g\<lparr>sg_seqs := ss\<rparr>) (update_unfinished num_new_computed_tokens)"

definition sg_get_num_uncomputed_tokens :: "'mm sequence_group \<Rightarrow> int" where
  "sg_get_num_uncomputed_tokens g =
     (\<Sum>s \<leftarrow> filter (\<lambda>s. \<not> seq_is_finished s) (sg_seqs g). sd_get_num_uncomputed_tokens (sq_data s))"

definition sg_find :: "int \<Rightarrow> 'mm sequence_group \<Rightarrow> exn + 'mm sequence" where
  "sg_find seq_id g =
     (if seq_id \<notin> set (sg_seqs_dict g) then Inl ValueError
      else (case map_of (rev (map (\<lambda>s. (sq_seq_id s, s)) (sg_seqs g))) seq_id of
              None \<Rightarrow> Inl KeyError | Some s \<Rightarrow> Inr s))"

definition sg_add :: "'mm sequence \<Rightarrow> ('mm sequence_group, unit) py" where
  "sg_add seq =
     andthen (bind (gets (\<lambda>g. sq_seq_id seq \<in> set (sg_seqs_dict g))) (\<lambda>b. guard ValueError (\<not> b)))
       (modify (\<lambda>g. g\<lparr>sg_seqs_dict := sg_seqs_dict g @ [sq_seq_id seq],
          sg_seqs := sg_seqs g @ [seq], sg_is_single_seq := (length (sg_seqs g @ [seq]) = 1)\<rparr>))"

fun remove_seq_by_id :: "int \<Rightarrow> 'mm sequence list \<Rightarrow> 'mm sequence list" where
  "remove_seq_by_id i [] = []"
| "remove_seq_by_id i (s # ss) = (if sq_seq_id s = i then ss else s # remove_seq_by_id i ss)"

text \<open>The ids of the sequences of a group are distinct, so the object is found by its id.\<close>

definition sg_remove :: "int \<Rightarrow> ('mm sequence_group, unit) py" where
  "sg_remove seq_id =
     andthen (bind (gets (\<lambda>g. seq_id \<in> set (sg_seqs_dict g))) (guard ValueError))
       (modify (\<lambda>g. g\<lparr>sg_seqs_dict := remove1 seq_id (sg_seqs_dict g),
          sg_seqs := remove_seq_by_id seq_id (sg_seqs g),
          sg_is_single_seq := (length (remove_seq_by_id seq_id (sg_seqs g)) = 1)\<rparr>))"

section \<open>SequenceGroupMetadata\<close>

record sequence_group_metadata_delta =
  gd_seq_data_delta :: "(int, sequence_data_delta) dict"
  gd_request_id :: string
  gd_block_tables :: "(int, int list) dict"
  gd_is_prompt :: bool
  gd_do_sample :: bool
  gd_token_chunk_size :: "int option"
  gd_computed_block_nums :: "int list option"
  gd_gdn_restore_key :: "gdn_prefix_key option"
  gd_gdn_capture_points :: "gdn_capture_point list option"
  gd_gdn_evict_keys :: "gdn_prefix_key list option"
  gd_gdn_segment_offsets :: "int list option"

record sequence_group_metadata =
  gm_request_id :: string
  gm_is_prompt :: bool
  gm_seq_data :: "(int, sequence_data) dict"
  gm_block_tables :: "(int, int list) dict"
  gm_do_sample :: bool
  gm_lora_int_id :: "int option"
  gm_computed_block_nums :: "int list option"
  gm_state :: "sequence_group_state option"
  gm_cross_block_table :: "int list option"
  gm_token_chunk_size :: "int option"
  gm_gdn_restore_key :: "gdn_prefix_key option"
  gm_gdn_capture_points :: "gdn_capture_point list option"
  gm_gdn_evict_keys :: "gdn_prefix_key list option"
  gm_gdn_segment_offsets :: "int list option"

text \<open>\<open>__post_init__\<close>, and the first key of \<open>seq_data\<close>.\<close>

definition gm_post_init :: "sequence_group_metadata \<Rightarrow> exn + sequence_group_metadata" where
  "gm_post_init m =
     (if gm_token_chunk_size m \<noteq> None then Inr m
      else if gm_is_prompt m then (case gm_seq_data m of
          [] \<Rightarrow> Inl StopIteration
        | (_, d) # _ \<Rightarrow> Inr (m\<lparr>gm_token_chunk_size := Some (sd_get_len d)\<rparr>))
      else Inr (m\<lparr>gm_token_chunk_size := Some 1\<rparr>))"

definition is_single_step_prompt :: "sequence_group_metadata \<Rightarrow> bool" where
  "is_single_step_prompt m \<longleftrightarrow> gm_is_prompt m \<and> gm_do_sample m"

definition get_first_seq_id :: "sequence_group_metadata \<Rightarrow> exn + int" where
  "get_first_seq_id m = (case gm_seq_data m of [] \<Rightarrow> Inl StopIteration | (i, _) # _ \<Rightarrow> Inr i)"

definition gm_apply_seq_delta :: "int \<times> sequence_data_delta \<Rightarrow> (sequence_group_metadata, unit) py" where
  "gm_apply_seq_delta x = (case x of (i, delta) \<Rightarrow>
     bind (gets (\<lambda>m. map_of (gm_seq_data m) i)) (\<lambda>d.
     bind (from_option KeyError d) (\<lambda>d.
     modify (\<lambda>m. m\<lparr>gm_seq_data := AList.update i (sd_apply_delta delta d) (gm_seq_data m)\<rparr>))))"

definition gm_apply_delta :: "sequence_group_metadata_delta \<Rightarrow> (sequence_group_metadata, unit) py" where
  "gm_apply_delta delta =
     andthen (for_each (gd_seq_data_delta delta) gm_apply_seq_delta)
    (andthen (bind (gets gm_request_id) (\<lambda>i. guard AssertionError (i = gd_request_id delta)))
       (modify (\<lambda>m. m\<lparr>gm_block_tables := gd_block_tables delta,
          gm_token_chunk_size := gd_token_chunk_size delta, gm_do_sample := gd_do_sample delta,
          gm_is_prompt := gd_is_prompt delta, gm_computed_block_nums := gd_computed_block_nums delta,
          gm_gdn_restore_key := gd_gdn_restore_key delta,
          gm_gdn_capture_points := gd_gdn_capture_points delta,
          gm_gdn_evict_keys := gd_gdn_evict_keys delta,
          gm_gdn_segment_offsets := gd_gdn_segment_offsets delta\<rparr>)))"

definition gm_finish_step :: "(sequence_group_metadata, unit) py" where
  "gm_finish_step =
     bind (gets gm_state) (\<lambda>s.
     bind (from_option AssertionError s) (\<lambda>s.
     andthen (guard AssertionError (gs_current_step s < gs_num_steps s))
       (modify (\<lambda>m. m\<lparr>gm_state := Some (s\<lparr>gs_current_step := gs_current_step s + 1\<rparr>)\<rparr>))))"

definition get_all_seq_ids :: "sequence_group_metadata list \<Rightarrow> int list" where
  "get_all_seq_ids ms = concat (map (\<lambda>m. map fst (gm_seq_data m)) ms)"

text \<open>\<open>seq_ids, request_id_seq_ids_mapping\<close>; the second is a \<open>defaultdict(set)\<close>.\<close>

definition get_all_seq_ids_and_request_ids :: "sequence_group_metadata list
    \<Rightarrow> int list \<times> (string, int set) dict" where
  "get_all_seq_ids_and_request_ids ms =
     fold (\<lambda>m acc. fold (\<lambda>i (ids, d). (ids @ [i], AList.update (gm_request_id m)
         (insert i (case map_of d (gm_request_id m) of None \<Rightarrow> {} | Some x \<Rightarrow> x)) d))
       (map fst (gm_seq_data m)) acc) ms ([], [])"


section \<open>The shortcut for one sequence\<close>

definition sg_inv :: "'mm sequence_group \<Rightarrow> bool" where
  "sg_inv g \<longleftrightarrow> (sg_is_single_seq g \<longleftrightarrow> length (sg_seqs g) = 1) \<and>
     sg_seqs_dict g = map sq_seq_id (sg_seqs g) \<and> distinct (map sq_seq_id (sg_seqs g))"

lemma sg_inv_init: "distinct (map sq_seq_id seqs) \<Longrightarrow> sg_inv (sg_init r seqs t n l e p)"
  by (simp add: sg_inv_def sg_init_def distinct_remdups_id)

lemma map_id_remove: "map sq_seq_id (remove_seq_by_id i ss) = remove1 i (map sq_seq_id ss)"
  by (induction ss) auto

lemma map_id_update: "map sq_seq_id (snd (update_unfinished n ss)) = map sq_seq_id ss"
  by (induction ss) (auto simp: on_data_def zoom_def split: prod.splits sum.splits)

datatype 'mm group_op = AddSeq "'mm sequence" | RemoveSeq int | Advance int | ChangeStatus int sequence_status

definition set_status :: "int \<Rightarrow> sequence_status \<Rightarrow> 'mm sequence \<Rightarrow> 'mm sequence" where
  "set_status i st s = (if sq_seq_id s = i then s\<lparr>sq_status := st\<rparr> else s)"

fun sg_apply_op :: "'mm group_op \<Rightarrow> 'mm sequence_group \<Rightarrow> 'mm sequence_group" where
  "sg_apply_op (AddSeq s) g = snd (sg_add s g)"
| "sg_apply_op (RemoveSeq i) g = snd (sg_remove i g)"
| "sg_apply_op (Advance n) g = snd (sg_update_num_computed_tokens n g)"
| "sg_apply_op (ChangeStatus i st) g = g\<lparr>sg_seqs := map (set_status i st) (sg_seqs g)\<rparr>"

lemma sg_apply_op_inv: "sg_inv g \<Longrightarrow> sg_inv (sg_apply_op op g)"
proof (cases op)
  case (AddSeq s)
  assume "sg_inv g"
  with AddSeq show ?thesis by (auto simp: sg_inv_def sg_add_def py_defs image_iff)
next
  case (RemoveSeq i)
  assume "sg_inv g"
  with RemoveSeq show ?thesis by (auto simp: sg_inv_def sg_remove_def py_defs map_id_remove)
next
  case (Advance n)
  have len: "length (snd (update_unfinished n (sg_seqs g))) = length (sg_seqs g)"
    using map_id_update [of n "sg_seqs g"] by (metis length_map)
  assume "sg_inv g"
  moreover have "sg_apply_op op g = g\<lparr>sg_seqs := snd (update_unfinished n (sg_seqs g))\<rparr>"
    using Advance by (simp add: sg_update_num_computed_tokens_def zoom_def split: prod.splits)
  ultimately show ?thesis using len by (simp add: sg_inv_def map_id_update)
next
  case (ChangeStatus i st)
  have "sq_seq_id (set_status i st s) = sq_seq_id s" for s :: "'a sequence" by (simp add: set_status_def)
  moreover assume "sg_inv g"
  ultimately show ?thesis using ChangeStatus by (simp add: sg_inv_def comp_def)
qed

lemma sg_history_inv: "sg_inv g \<Longrightarrow> sg_inv (fold sg_apply_op ops g)"
  by (induction ops arbitrary: g) (auto simp: sg_apply_op_inv)

lemma single_filter:
  assumes "sg_inv g" "sg_is_single_seq g"
  shows "\<exists>s. first_seq g = Inr s \<and> sg_seqs g = [s]"
  using assms by (auto simp: sg_inv_def first_seq_def length_Suc_conv split: list.splits)

lemma sg_get_seqs_eq: "sg_inv g \<Longrightarrow> sg_get_seqs (Some st) g = Inr (filter (\<lambda>s. sq_status s = st) (sg_seqs g))"
  using single_filter [of g] by (cases "sg_is_single_seq g") (auto simp: sg_get_seqs_def)

lemma sg_unfinished_eq: "sg_inv g \<Longrightarrow> sg_get_unfinished_seqs g = Inr (filter (\<lambda>s. \<not> seq_is_finished s) (sg_seqs g))"
  using single_filter [of g] by (cases "sg_is_single_seq g") (auto simp: sg_get_unfinished_seqs_def)

lemma sg_finished_eq: "sg_inv g \<Longrightarrow> sg_get_finished_seqs g = Inr (filter seq_is_finished (sg_seqs g))"
  using single_filter [of g] by (cases "sg_is_single_seq g") (auto simp: sg_get_finished_seqs_def)

lemma sg_num_eq:
  assumes "sg_inv g"
  shows "sg_num_seqs (Some st) g = Inr (int (length (filter (\<lambda>s. sq_status s = st) (sg_seqs g))))"
    "sg_num_unfinished_seqs g = Inr (int (length (filter (\<lambda>s. \<not> seq_is_finished s) (sg_seqs g))))"
    "sg_num_finished_seqs g = Inr (int (length (filter seq_is_finished (sg_seqs g))))"
    "sg_is_finished g = Inr (list_all seq_is_finished (sg_seqs g))"
  using assms single_filter [of g] sg_get_seqs_eq [of g] sg_unfinished_eq [of g] sg_finished_eq [of g]
  by (cases "sg_is_single_seq g",
      auto simp: sg_num_seqs_def sg_num_unfinished_seqs_def sg_num_finished_seqs_def sg_is_finished_def)+

lemma sg_find_eq:
  assumes "sg_inv g"
  shows "sg_find i g = Inr s \<longleftrightarrow> s \<in> set (sg_seqs g) \<and> sq_seq_id s = i"
proof -
  let ?d = "rev (map (\<lambda>s. (sq_seq_id s, s)) (sg_seqs g))"
  have "map fst ?d = rev (map sq_seq_id (sg_seqs g))" by (simp add: rev_map comp_def)
  then have d: "distinct (map fst ?d)" using assms by (simp add: sg_inv_def del: rev_map)
  have iff: "map_of ?d i = Some s \<longleftrightarrow> s \<in> set (sg_seqs g) \<and> sq_seq_id s = i" for s
    unfolding map_of_eq_Some_iff [OF d] by auto
  have "i \<in> set (sg_seqs_dict g) \<longleftrightarrow> map_of ?d i \<noteq> None"
    using assms iff by (auto simp: sg_inv_def)
  then have "sg_find i g = Inr s \<longleftrightarrow> map_of ?d i = Some s"
    unfolding sg_find_def by (cases "map_of ?d i") auto
  then show ?thesis unfolding iff .
qed

text \<open>
  C23: the shortcuts that a group takes when it has one sequence agree with the general definitions,
  whatever sequences were added, removed, advanced or changed in status: the sequences with a status,
  the unfinished and the finished ones are exactly the filtered lists, the counts are their lengths,
  finished and unfinished add up to all, the group is finished exactly when no unfinished sequence is
  left, and \<open>find\<close> returns the member with the id.
\<close>

theorem group_shortcuts_agree:
  assumes "distinct (map sq_seq_id seqs)" "g = fold sg_apply_op ops (sg_init r seqs t n l e p)"
  shows "sg_get_seqs (Some st) g = Inr (filter (\<lambda>s. sq_status s = st) (sg_seqs g)) \<and>
    sg_num_seqs (Some st) g = Inr (int (length (filter (\<lambda>s. sq_status s = st) (sg_seqs g)))) \<and>
    sg_get_unfinished_seqs g = Inr (filter (\<lambda>s. \<not> seq_is_finished s) (sg_seqs g)) \<and>
    sg_get_finished_seqs g = Inr (filter seq_is_finished (sg_seqs g)) \<and>
    (\<exists>u f. sg_num_unfinished_seqs g = Inr u \<and> sg_num_finished_seqs g = Inr f \<and>
       sg_num_seqs None g = Inr (u + f) \<and> sg_is_finished g = Inr (u = 0)) \<and>
    (sg_find i g = Inr s \<longleftrightarrow> s \<in> set (sg_seqs g) \<and> sq_seq_id s = i)"
proof -
  have i: "sg_inv g" using sg_history_inv [OF sg_inv_init [OF assms(1)]] assms(2) by simp
  have len: "length (filter (\<lambda>s. \<not> seq_is_finished s) (sg_seqs g)) +
      length (filter seq_is_finished (sg_seqs g)) = length (sg_seqs g)"
    using sum_length_filter_compl [of seq_is_finished "sg_seqs g"] by simp
  have none: "list_all seq_is_finished (sg_seqs g) \<longleftrightarrow>
      length (filter (\<lambda>s. \<not> seq_is_finished s) (sg_seqs g)) = 0"
    by (auto simp: list_all_iff filter_empty_conv)
  have all: "sg_num_seqs None g = Inr (int (length (filter (\<lambda>s. \<not> seq_is_finished s) (sg_seqs g))) +
      int (length (filter seq_is_finished (sg_seqs g))))"
    using len by (simp add: sg_num_seqs_def flip: of_nat_add)
  show ?thesis
    unfolding sg_get_seqs_eq [OF i] sg_num_eq [OF i] sg_unfinished_eq [OF i] sg_finished_eq [OF i]
      sg_find_eq [OF i] all none
    by simp
qed

definition example_seq :: "int \<Rightarrow> unit sequence" where
  "example_seq i = (case seq_init i example_inputs 4 None None True of Inr s \<Rightarrow> s)"

definition example_group :: "unit sequence_group" where
  "example_group = fold sg_apply_op [AddSeq (example_seq 8), ChangeStatus 7 FINISHED_STOPPED, RemoveSeq 8]
     (sg_init ''r'' [example_seq 7] 0 None None None 0)"

lemma group_shortcuts_agree_witness:
  "sg_is_single_seq example_group \<and> sg_is_finished example_group = Inr True \<and>
   sg_num_unfinished_seqs example_group = Inr 0"
proof -
  have d: "distinct (map sq_seq_id [example_seq 7])" by simp
  have n: "sg_is_single_seq example_group" "filter (\<lambda>s. \<not> seq_is_finished s) (sg_seqs example_group) = []"
    "sg_num_seqs None example_group = Inr 1" "sg_num_finished_seqs example_group = Inr 1"
    by code_simp+
  show ?thesis using group_shortcuts_agree [OF d example_group_def] n by auto
qed

end
