(* ===== verification/MambaCache.thy ===== *)
theory MambaCache
  imports Prelude
begin

text \<open>
  \<^verbatim>\<open>qwen3_6_scripts/mamba_cache.py\<close>: which slot of the recurrent-state tensors of the model worker
  belongs to which sequence.

  \<open>self.mamba_cache\<close> is a pair of tensors whose second dimension is the slot. The code moves, copies
  and clears whole slots only, so a tensor is the list of its slots, and what a slot holds (the state
  of every layer) is a value of the type variable; \<open>zero\<close> is the value of a cleared slot. Both tensors
  have the same number of slots. Slot indices come from \<open>enumerate\<close> and from the search for a free
  slot, so they are not negative.
\<close>

section \<open>State\<close>

record 'r mamba_cache =
  mb_conv :: "'r list"
  mb_temporal :: "'r list"
  mb_mapping :: "(string, (int, nat) dict) dict"

type_synonym pair = "string \<times> int"

text \<open>\<open>torch.empty\<close> leaves the first tensor with whatever was in memory.\<close>

definition mb_init :: "'r \<Rightarrow> 'r list \<Rightarrow> nat \<Rightarrow> 'r mamba_cache" where
  "mb_init zero memory max_batch_size =
     \<lparr>mb_conv = take max_batch_size memory, mb_temporal = replicate max_batch_size zero, mb_mapping = []\<rparr>"

definition mb_size :: "'r mamba_cache \<Rightarrow> nat" where
  "mb_size s = length (mb_conv s)"

definition get_all_occupied_indices :: "'r mamba_cache \<Rightarrow> nat list" where
  "get_all_occupied_indices s = concat (map (\<lambda>(_, m). map snd m) (mb_mapping s))"

section \<open>Moving slots\<close>

text \<open>An index that is out of range raises before the tensor changes.\<close>

definition on_tensors :: "nat list \<Rightarrow> ('r list \<Rightarrow> 'r list) \<Rightarrow> ('r mamba_cache, unit) py" where
  "on_tensors indices f =
     bind (gets mb_size) (\<lambda>n.
     andthen (guard IndexError (list_all (\<lambda>i. i < n) indices))
       (modify (\<lambda>s. s\<lparr>mb_conv := f (mb_conv s), mb_temporal := f (mb_temporal s)\<rparr>)))"

definition swap_mamba_cache :: "nat \<Rightarrow> nat \<Rightarrow> ('r mamba_cache, unit) py" where
  "swap_mamba_cache from_index to_index =
     on_tensors [from_index, to_index] (\<lambda>xs. xs[to_index := xs ! from_index, from_index := xs ! to_index])"

definition copy_mamba_cache :: "nat \<Rightarrow> nat \<Rightarrow> ('r mamba_cache, unit) py" where
  "copy_mamba_cache from_index to_index =
     on_tensors [from_index, to_index] (\<lambda>xs. xs[to_index := xs ! from_index])"

definition swap_index :: "nat \<Rightarrow> nat \<Rightarrow> nat \<Rightarrow> nat" where
  "swap_index from_index to_index i =
     (if from_index = i then to_index else if to_index = i then from_index else i)"

definition swap_mapping_index :: "nat \<Rightarrow> nat \<Rightarrow> ('r mamba_cache, unit) py" where
  "swap_mapping_index from_index to_index =
     modify (\<lambda>s. s\<lparr>mb_mapping := map (\<lambda>(r, m). (r, map (\<lambda>(q, i). (q, swap_index from_index to_index i)) m))
       (mb_mapping s)\<rparr>)"

text \<open>\<open>_update_mapping_index\<close> returns at the first entry that it changes.\<close>

fun update_in_request :: "nat \<Rightarrow> nat \<Rightarrow> (int, nat) dict \<Rightarrow> (int, nat) dict" where
  "update_in_request from_index to_index [] = []"
| "update_in_request from_index to_index ((q, i) # m) =
     (if from_index = i then (q, to_index) # m else (q, i) # update_in_request from_index to_index m)"

fun update_first :: "nat \<Rightarrow> nat \<Rightarrow> (string, (int, nat) dict) dict \<Rightarrow> (string, (int, nat) dict) dict" where
  "update_first from_index to_index [] = []"
| "update_first from_index to_index ((r, m) # d) =
     (if from_index \<in> snd ` set m then (r, update_in_request from_index to_index m) # d
      else (r, m) # update_first from_index to_index d)"

definition update_mapping_index :: "nat \<Rightarrow> nat \<Rightarrow> ('r mamba_cache, unit) py" where
  "update_mapping_index from_index to_index =
     modify (\<lambda>s. s\<lparr>mb_mapping := update_first from_index to_index (mb_mapping s)\<rparr>)"

definition move_cache_index_and_mappings :: "nat \<Rightarrow> nat \<Rightarrow> ('r mamba_cache, unit) py" where
  "move_cache_index_and_mappings from_index to_index =
     andthen (copy_mamba_cache from_index to_index) (update_mapping_index from_index to_index)"

definition swap_pair_indices_and_mappings :: "nat \<Rightarrow> nat \<Rightarrow> ('r mamba_cache, unit) py" where
  "swap_pair_indices_and_mappings from_index to_index =
     andthen (swap_mamba_cache from_index to_index) (swap_mapping_index from_index to_index)"

definition first_free_index_in_mamba_cache :: "nat list option \<Rightarrow> ('r mamba_cache, nat) py" where
  "first_free_index_in_mamba_cache indices_range =
     bind (gets (\<lambda>s. (mb_size s, get_all_occupied_indices s))) (\<lambda>(n, all_occupied_indices).
     let indices = (case indices_range of None \<Rightarrow> [0..<n] | Some r \<Rightarrow> r)
     in from_option Exception (find (\<lambda>i. i \<notin> set all_occupied_indices) indices))"

section \<open>Assigning slots\<close>

definition move_out_if_already_occupied :: "nat \<Rightarrow> nat list \<Rightarrow> ('r mamba_cache, unit) py" where
  "move_out_if_already_occupied index all_occupied_indices =
     (if index \<in> set all_occupied_indices then
        bind (first_free_index_in_mamba_cache None) (\<lambda>first_free_index.
        move_cache_index_and_mappings index first_free_index)
      else return ())"

definition assign_seq_id :: "'r \<Rightarrow> string \<Rightarrow> int \<Rightarrow> nat \<Rightarrow> ('r mamba_cache, unit) py" where
  "assign_seq_id zero cur_rid seq_id destination_index =
     bind (gets get_all_occupied_indices) (\<lambda>occupied.
     bind (gets (\<lambda>s. map_of (mb_mapping s) cur_rid)) (\<lambda>entry. case entry of
       None \<Rightarrow>
         andthen (move_out_if_already_occupied destination_index occupied)
        (andthen (on_tensors [destination_index] (\<lambda>xs. xs[destination_index := zero]))
          (modify (\<lambda>s. s\<lparr>mb_mapping := AList.update cur_rid [(seq_id, destination_index)] (mb_mapping s)\<rparr>)))
     | Some seq_ids2indices \<Rightarrow> (case map_of seq_ids2indices seq_id of
         None \<Rightarrow>
           andthen (move_out_if_already_occupied destination_index occupied)
          (bind (gets (\<lambda>s. case map_of (mb_mapping s) cur_rid of
               Some ((_, i) # _) \<Rightarrow> Some i | _ \<Rightarrow> None)) (\<lambda>first_value.
           bind (from_option IndexError first_value) (\<lambda>index_exists.
           andthen (copy_mamba_cache index_exists destination_index)
             (modify (\<lambda>s. s\<lparr>mb_mapping := AList.map_entry cur_rid
               (AList.update seq_id destination_index) (mb_mapping s)\<rparr>)))))
       | Some cache_index_already_exists \<Rightarrow>
           if cache_index_already_exists \<noteq> destination_index
           then swap_pair_indices_and_mappings cache_index_already_exists destination_index
           else return ())))"

text \<open>
  The branch of \<open>_clean_up_first_bs_blocks\<close> that moves a sequence out of the batch calls
  \<open>self._swap_indices\<close>, which no class defines.
\<close>

definition clean_up_first_bs_blocks :: "nat \<Rightarrow> nat list \<Rightarrow> ('r mamba_cache, unit) py" where
  "clean_up_first_bs_blocks batch_size indices_for_current_run =
     for_each [0..<batch_size] (\<lambda>destination_index.
       bind (gets get_all_occupied_indices) (\<lambda>occupied.
       if destination_index \<in> set occupied \<and> destination_index \<notin> set indices_for_current_run then
         bind (gets mb_size) (\<lambda>max_possible_batch_size.
         bind (first_free_index_in_mamba_cache (Some [batch_size..<max_possible_batch_size])) (\<lambda>_.
         raise AttributeError))
       else return ()))"

fun assign_batch :: "'r \<Rightarrow> string list \<Rightarrow> nat \<Rightarrow> pair list \<Rightarrow> ('r mamba_cache, nat list) py" where
  "assign_batch zero finished_requests_ids dest_index [] = return []"
| "assign_batch zero finished_requests_ids dest_index ((request_id, seq_id) # rest) =
     (if request_id \<in> set finished_requests_ids
      then assign_batch zero finished_requests_ids (Suc dest_index) rest
      else andthen (assign_seq_id zero request_id seq_id dest_index)
          (bind (assign_batch zero finished_requests_ids (Suc dest_index) rest) (\<lambda>running_indices.
           return (dest_index # running_indices))))"

definition flatten_batch :: "(string, int list) dict \<Rightarrow> pair list" where
  "flatten_batch request_ids_to_seq_ids =
     concat (map (\<lambda>(req_id, seq_ids). map (\<lambda>seq_id. (req_id, seq_id)) seq_ids) request_ids_to_seq_ids)"

definition prepare_current_run_mamba_cache :: "'r \<Rightarrow> (string, int list) dict \<Rightarrow> string list
    \<Rightarrow> ('r mamba_cache, 'r list \<times> 'r list) py" where
  "prepare_current_run_mamba_cache zero request_ids_to_seq_ids finished_requests_ids =
     (let batch = flatten_batch request_ids_to_seq_ids; batch_size = length batch
      in bind (assign_batch zero finished_requests_ids 0 batch) (\<lambda>running_indices.
         andthen (clean_up_first_bs_blocks batch_size running_indices)
           (gets (\<lambda>s. (take batch_size (mb_conv s), take batch_size (mb_temporal s))))))"

definition release_finished_requests :: "string list \<Rightarrow> ('r mamba_cache, unit) py" where
  "release_finished_requests finished_seq_groups_req_ids =
     for_each finished_seq_groups_req_ids (\<lambda>req_id.
       modify (\<lambda>s. s\<lparr>mb_mapping := AList.delete req_id (mb_mapping s)\<rparr>))"

definition current_run_tensors :: "'r \<Rightarrow> ('r list \<times> 'r list) option \<Rightarrow> (string, int list) dict \<Rightarrow> string list
    \<Rightarrow> ('r mamba_cache, 'r list \<times> 'r list) py" where
  "current_run_tensors zero seqlen_agnostic_capture_inputs request_ids_to_seq_ids finished_requests_ids =
     (case seqlen_agnostic_capture_inputs of
        None \<Rightarrow> andthen (release_finished_requests finished_requests_ids)
          (prepare_current_run_mamba_cache zero request_ids_to_seq_ids finished_requests_ids)
      | Some mamba_cache_tensors \<Rightarrow> return mamba_cache_tensors)"

definition copy_inputs_before_cuda_graphs :: "'r \<Rightarrow> (string, int list) dict \<Rightarrow> string list
    \<Rightarrow> ('r mamba_cache, unit) py" where
  "copy_inputs_before_cuda_graphs zero request_ids_to_seq_ids finished_requests_ids =
     andthen (release_finished_requests finished_requests_ids)
    (bind (prepare_current_run_mamba_cache zero request_ids_to_seq_ids finished_requests_ids) (\<lambda>_. return ()))"

definition get_seqlen_agnostic_capture_inputs :: "nat \<Rightarrow> 'r mamba_cache \<Rightarrow> 'r list \<times> 'r list" where
  "get_seqlen_agnostic_capture_inputs batch_size s = (take batch_size (mb_conv s), take batch_size (mb_temporal s))"

section \<open>The slot of a sequence and what it holds\<close>

definition slot :: "'r mamba_cache \<Rightarrow> pair \<rightharpoonup> nat" where
  "slot s p = (case map_of (mb_mapping s) (fst p) of None \<Rightarrow> None | Some m \<Rightarrow> map_of m (snd p))"

definition stored :: "'r mamba_cache \<Rightarrow> pair \<rightharpoonup> 'r \<times> 'r" where
  "stored s p = map_option (\<lambda>i. (mb_conv s ! i, mb_temporal s ! i)) (slot s p)"

text \<open>The sequence that a request had first; its state is what the siblings start from.\<close>

definition leader :: "'r mamba_cache \<Rightarrow> string \<rightharpoonup> int" where
  "leader s r = map_option (\<lambda>m. fst (hd m)) (map_of (mb_mapping s) r)"

definition start_state :: "'r \<Rightarrow> 'r mamba_cache \<Rightarrow> pair \<Rightarrow> 'r \<times> 'r" where
  "start_state zero s p = (case stored s p of Some c \<Rightarrow> c
     | None \<Rightarrow> (case leader s (fst p) of None \<Rightarrow> (zero, zero) | Some q \<Rightarrow> the (stored s (fst p, q))))"

definition mb_ok :: "'r mamba_cache \<Rightarrow> bool" where
  "mb_ok s \<longleftrightarrow> length (mb_temporal s) = mb_size s \<and> wf_dict (mb_mapping s) \<and>
     (\<forall>m \<in> snd ` set (mb_mapping s). wf_dict m \<and> m \<noteq> []) \<and>
     inj_on (slot s) (dom (slot s)) \<and> ran (slot s) \<subseteq> {..<mb_size s}"

lemma slot_Some: "slot s (r, q) = Some i \<longleftrightarrow> (\<exists>m. map_of (mb_mapping s) r = Some m \<and> map_of m q = Some i)"
  by (simp add: slot_def split: option.split)

lemma mb_okD:
  assumes "mb_ok s"
  shows "length (mb_temporal s) = mb_size s" "wf_dict (mb_mapping s)"
    "map_of (mb_mapping s) r = Some m \<Longrightarrow> wf_dict m" "map_of (mb_mapping s) r = Some m \<Longrightarrow> m \<noteq> []"
    "inj_on (slot s) (dom (slot s))" "slot s p = Some i \<Longrightarrow> i < mb_size s"
    "slot s p = Some i \<Longrightarrow> slot s p' = Some i \<Longrightarrow> p = p'"
proof -
  show "map_of (mb_mapping s) r = Some m \<Longrightarrow> wf_dict m" "map_of (mb_mapping s) r = Some m \<Longrightarrow> m \<noteq> []"
    using assms map_of_SomeD [of "mb_mapping s" r m] by (force simp: mb_ok_def)+
  show "slot s p = Some i \<Longrightarrow> slot s p' = Some i \<Longrightarrow> p = p'"
    using assms unfolding mb_ok_def by (metis domI inj_onD)
  show "slot s p = Some i \<Longrightarrow> i < mb_size s"
    using assms ranI [of "slot s" p i] unfolding mb_ok_def by blast
qed (use assms in \<open>simp_all add: mb_ok_def\<close>)

lemma dict_values: "wf_dict m \<Longrightarrow> snd ` set m = {v. \<exists>k. map_of m k = Some v}"
  by (simp add: dict_vals ran_def)

lemma occupied_slots:
  assumes "mb_ok s"
  shows "set (get_all_occupied_indices s) = ran (slot s)"
proof -
  have "i \<in> set (get_all_occupied_indices s) \<longleftrightarrow> (\<exists>r m. map_of (mb_mapping s) r = Some m \<and> i \<in> snd ` set m)" for i
    using wf_dict_map_of [OF mb_okD(2) [OF assms]] by (force simp: get_all_occupied_indices_def)
  also have "\<dots> i \<longleftrightarrow> (\<exists>r m q. map_of (mb_mapping s) r = Some m \<and> map_of m q = Some i)" for i
    using mb_okD(3) [OF assms] dict_values by blast
  also have "\<dots> i \<longleftrightarrow> i \<in> ran (slot s)" for i
    unfolding ran_def by (simp add: slot_Some) blast
  finally show ?thesis by blast
qed

lemma slot_finite [simp]: "finite (dom (slot s))"
proof -
  have "dom (slot s) \<subseteq> (\<Union>(r, m) \<in> set (mb_mapping s). (\<lambda>q. (r, q)) ` fst ` set m)"
  proof
    fix p assume "p \<in> dom (slot s)"
    then obtain m i where "map_of (mb_mapping s) (fst p) = Some m" "map_of m (snd p) = Some i"
      by (auto simp: slot_def split: option.splits)
    then have "(fst p, m) \<in> set (mb_mapping s)" "(snd p, i) \<in> set m" by (auto dest: map_of_SomeD)
    then show "p \<in> (\<Union>(r, m) \<in> set (mb_mapping s). (\<lambda>q. (r, q)) ` fst ` set m)" by (cases p) force
  qed
  then show ?thesis by (rule finite_subset) auto
qed

lemma stored_dom [simp]: "dom (stored s) = dom (slot s)"
  by (auto simp: stored_def)

lemma start_stored: "p \<in> dom (slot s) \<Longrightarrow> stored s p = Some (start_state zero s p)"
  by (auto simp: start_state_def stored_def)

section \<open>How the operations change the slots\<close>

lemma same_mapping_slot: "mb_mapping t = mb_mapping s \<Longrightarrow> slot t = slot s \<and> leader t = leader s"
  by (simp add: slot_def leader_def fun_eq_iff)

lemma map_of_map_dict: "map_of (map (\<lambda>(k, v). (k, f v)) d) = map_option f \<circ> map_of d"
  by (induction d) auto

lemma swap_mapping_slot:
  assumes "mb_mapping t = map (\<lambda>(r, m). (r, map (\<lambda>(q, i). (q, swap_index a b i)) m)) (mb_mapping s)"
  shows "slot t p = map_option (swap_index a b) (slot s p)" and "mb_ok s \<Longrightarrow> leader t = leader s"
    and "wf_dict (mb_mapping s) \<Longrightarrow> wf_dict (mb_mapping t)"
    and "\<forall>m \<in> snd ` set (mb_mapping s). wf_dict m \<and> m \<noteq> [] \<Longrightarrow> \<forall>m \<in> snd ` set (mb_mapping t). wf_dict m \<and> m \<noteq> []"
proof -
  show "slot t p = map_option (swap_index a b) (slot s p)"
    by (simp add: slot_def assms map_of_map_dict split: option.split)
  show "leader t = leader s" if "mb_ok s"
  proof
    fix r
    show "leader t r = leader s r"
    proof (cases "map_of (mb_mapping s) r")
      case (Some m)
      then have "m \<noteq> []" by (rule mb_okD(4) [OF that])
      then show ?thesis using Some by (cases m) (auto simp: leader_def assms map_of_map_dict)
    qed (simp add: leader_def assms map_of_map_dict)
  qed
  show "wf_dict (mb_mapping t)" if "wf_dict (mb_mapping s)"
    using that by (simp add: wf_dict_def assms comp_def case_prod_beta)
  show "\<forall>m \<in> snd ` set (mb_mapping t). wf_dict m \<and> m \<noteq> []"
    if "\<forall>m \<in> snd ` set (mb_mapping s). wf_dict m \<and> m \<noteq> []"
    using that by (fastforce simp: assms wf_dict_def comp_def case_prod_beta)
qed

lemma map_of_update_in_request:
  assumes "wf_dict m" "map_of m q = Some a" "\<And>q'. map_of m q' = Some a \<Longrightarrow> q' = q"
  shows "map_of (update_in_request a b m) = (map_of m)(q \<mapsto> b)"
  using assms
proof (induction m)
  case (Cons p m)
  obtain q1 i where p: "p = (q1, i)" by (cases p)
  have w: "wf_dict m" "q1 \<notin> dom (map_of m)"
    using Cons.prems(1) p by (auto simp: wf_dict_def dom_map_of_conv_image_fst)
  show ?case
  proof (cases "i = a")
    case True
    then have "q1 = q" using Cons.prems(3) [of q1] p by simp
    then show ?thesis using True p by auto
  next
    case False
    then have "q1 \<noteq> q" using Cons.prems(2) p by auto
    moreover have "map_of (update_in_request a b m) = (map_of m)(q \<mapsto> b)"
    proof (rule Cons.IH [OF w(1)])
      show "map_of m q = Some a" using Cons.prems(2) p \<open>q1 \<noteq> q\<close> by simp
      show "q' = q" if "map_of m q' = Some a" for q'
        using Cons.prems(3) [of q'] that w(2) p by (cases "q' = q1") auto
    qed
    ultimately show ?thesis using False p by auto
  qed
qed simp

lemma keys_update_in_request [simp]: "map fst (update_in_request a b m) = map fst m"
  by (induction a b m rule: update_in_request.induct) auto

lemma update_in_request_Nil [simp]: "update_in_request a b m = [] \<longleftrightarrow> m = []"
  by (cases m) (auto split: if_splits)

lemma keys_update_first [simp]: "map fst (update_first a b d) = map fst d"
  by (induction a b d rule: update_first.induct) auto

lemma map_of_update_first:
  assumes "wf_dict d" "map_of d r = Some m" "a \<in> snd ` set m"
    and "\<And>r' m'. map_of d r' = Some m' \<Longrightarrow> a \<in> snd ` set m' \<Longrightarrow> r' = r"
  shows "map_of (update_first a b d) = (map_of d)(r \<mapsto> update_in_request a b m)"
  using assms
proof (induction d)
  case (Cons p d)
  obtain r1 m1 where p: "p = (r1, m1)" by (cases p)
  have w: "wf_dict d" "r1 \<notin> dom (map_of d)"
    using Cons.prems(1) p by (auto simp: wf_dict_def dom_map_of_conv_image_fst)
  show ?case
  proof (cases "a \<in> snd ` set m1")
    case True
    then have "r1 = r" using Cons.prems(4) [of r1 m1] p by simp
    then show ?thesis using True p Cons.prems(2) by auto
  next
    case False
    then have "r1 \<noteq> r" using Cons.prems(2,3) p by auto
    moreover have "map_of (update_first a b d) = (map_of d)(r \<mapsto> update_in_request a b m)"
    proof (rule Cons.IH [OF w(1)])
      show "map_of d r = Some m" using Cons.prems(2) p \<open>r1 \<noteq> r\<close> by simp
      show "a \<in> snd ` set m" by (rule Cons.prems(3))
      show "r' = r" if "map_of d r' = Some m'" "a \<in> snd ` set m'" for r' m'
        using Cons.prems(4) [of r' m'] that w(2) p by (cases "r' = r1") auto
    qed
    ultimately show ?thesis using False p by auto
  qed
qed simp

lemma wf_dict_keys: "map fst d' = map fst d \<Longrightarrow> wf_dict d \<Longrightarrow> wf_dict d'"
  by (simp add: wf_dict_def)

lemma update_first_slot:
  assumes ok: "mb_ok s" and p: "slot s p = Some a" and t: "mb_mapping t = update_first a b (mb_mapping s)"
  shows "slot t = (slot s)(p \<mapsto> b)" "leader t = leader s" "wf_dict (mb_mapping t)"
    "\<forall>m \<in> snd ` set (mb_mapping t). wf_dict m \<and> m \<noteq> []"
proof -
  obtain r q where rq: "p = (r, q)" by (cases p)
  obtain m where m: "map_of (mb_mapping s) r = Some m" "map_of m q = Some a"
    using p unfolding rq slot_Some by blast
  have only: "q' = q" if "map_of m q' = Some a" for q'
    using mb_okD(7) [OF ok p, of "(r, q')"] m(1) that rq by (auto simp: slot_Some)
  have only_r: "r' = r" if m': "map_of (mb_mapping s) r' = Some m'" and a: "a \<in> snd ` set m'" for r' m'
  proof -
    obtain q' where "map_of m' q' = Some a" using a dict_values [OF mb_okD(3) [OF ok m']] by blast
    then show ?thesis using mb_okD(7) [OF ok p, of "(r', q')"] m' rq by (auto simp: slot_Some)
  qed
  have "a \<in> snd ` set m" using m(2) by (force dest: map_of_SomeD)
  then have d: "map_of (mb_mapping t) = (map_of (mb_mapping s))(r \<mapsto> update_in_request a b m)"
    unfolding t using map_of_update_first [OF mb_okD(2) [OF ok] m(1)] only_r by blast
  have m': "map_of (update_in_request a b m) = (map_of m)(q \<mapsto> b)"
    using map_of_update_in_request [OF mb_okD(3) [OF ok m(1)] m(2)] only by blast
  show "slot t = (slot s)(p \<mapsto> b)"
    using m(1) by (auto simp: slot_def d m' rq fun_eq_iff)
  have "fst (hd (update_in_request a b m)) = fst (hd m)"
    using mb_okD(4) [OF ok m(1)] by (cases m) auto
  then show "leader t = leader s" using m(1) by (auto simp: leader_def d fun_eq_iff)
  show "wf_dict (mb_mapping t)" using wf_dict_keys [OF keys_update_first mb_okD(2) [OF ok]] t by simp
  then show "\<forall>m \<in> snd ` set (mb_mapping t). wf_dict m \<and> m \<noteq> []"
    using wf_dict_map_of [of "mb_mapping t"] mb_okD(3,4) [OF ok] wf_dict_keys [of "update_in_request a b m" m] m(1)
    by (fastforce simp: d split: if_splits)
qed

lemma mb_okI:
  assumes "length (mb_temporal s) = mb_size s" "wf_dict (mb_mapping s)"
    "\<forall>m \<in> snd ` set (mb_mapping s). wf_dict m \<and> m \<noteq> []"
    "\<And>p i. slot s p = Some i \<Longrightarrow> i < mb_size s"
    "\<And>p p' i. slot s p = Some i \<Longrightarrow> slot s p' = Some i \<Longrightarrow> p = p'"
  shows "mb_ok s"
proof -
  have "inj_on (slot s) (dom (slot s))" using assms(5) by (fastforce intro: inj_onI)
  then show ?thesis using assms(1-4) unfolding mb_ok_def ran_def by blast
qed

lemma on_tensors_run:
  assumes "mb_ok s" "list_all (\<lambda>i. i < mb_size s) is"
  shows "on_tensors is f s = (Inr (), s\<lparr>mb_conv := f (mb_conv s), mb_temporal := f (mb_temporal s)\<rparr>)"
  using assms by (simp add: on_tensors_def py_defs)

lemma free_slot:
  assumes "mb_ok s" "card (dom (slot s)) < mb_size s"
  shows "\<exists>i. first_free_index_in_mamba_cache None s = (Inr i, s) \<and> i < mb_size s \<and> i \<notin> ran (slot s)"
proof -
  have "ran (slot s) = (\<lambda>p. the (slot s p)) ` dom (slot s)" by (force simp: ran_def)
  then have "card (ran (slot s)) < mb_size s" using card_image_le [OF slot_finite, of "\<lambda>p. the (slot s p)" s] assms(2) by simp
  then have "\<not> {..<mb_size s} \<subseteq> ran (slot s)"
    using card_mono [of "ran (slot s)" "{..<mb_size s}"] finite_ran [OF slot_finite] by auto
  then have "find (\<lambda>i. i \<notin> ran (slot s)) [0..<mb_size s] \<noteq> None" by (auto simp: find_None_iff)
  then obtain i where i: "find (\<lambda>i. i \<notin> ran (slot s)) [0..<mb_size s] = Some i" by blast
  then have "i < mb_size s" "i \<notin> ran (slot s)" by (auto simp: find_Some_iff)
  then show ?thesis
    using i by (simp add: first_free_index_in_mamba_cache_def py_defs occupied_slots [OF assms(1)])
qed

text \<open>Whoever is in the slot goes to a free one and keeps its state.\<close>

lemma move_out_run:
  assumes ok: "mb_ok s" and d: "d < mb_size s" and room: "card (dom (slot s)) < mb_size s"
  shows "\<exists>t. move_out_if_already_occupied d (get_all_occupied_indices s) s = (Inr (), t) \<and> mb_ok t \<and>
    mb_size t = mb_size s \<and> d \<notin> ran (slot t) \<and> dom (slot t) = dom (slot s) \<and> stored t = stored s \<and>
    leader t = leader s \<and> (\<forall>p. slot s p \<noteq> Some d \<longrightarrow> slot t p = slot s p)"
proof (cases "d \<in> ran (slot s)")
  case False
  then show ?thesis
    using ok by (simp add: move_out_if_already_occupied_def occupied_slots [OF ok] return_def)
next
  case True
  then obtain p where p: "slot s p = Some d" by (auto simp: ran_def)
  obtain f where f: "first_free_index_in_mamba_cache None s = (Inr f, s)" "f < mb_size s" "f \<notin> ran (slot s)"
    using free_slot [OF ok room] by blast
  have fd: "f \<noteq> d" using True f(3) by auto
  let ?u = "s\<lparr>mb_conv := (mb_conv s)[f := mb_conv s ! d], mb_temporal := (mb_temporal s)[f := mb_temporal s ! d]\<rparr>"
  let ?t = "?u\<lparr>mb_mapping := update_first d f (mb_mapping s)\<rparr>"
  have run: "move_out_if_already_occupied d (get_all_occupied_indices s) s = (Inr (), ?t)"
    using True f(1) on_tensors_run [OF ok, of "[d, f]" "\<lambda>xs. xs[f := xs ! d]"] d f(2)
    by (simp add: move_out_if_already_occupied_def occupied_slots [OF ok] bind_def andthen_def
      move_cache_index_and_mappings_def copy_mamba_cache_def update_mapping_index_def modify_def)
  note u = update_first_slot [OF ok p, of ?t f]
  have st: "slot ?t = (slot s)(p \<mapsto> f)" using u(1) by simp
  have size: "mb_size ?t = mb_size s" by (simp add: mb_size_def)
  have nf: "slot s p' \<noteq> Some f" for p' using f(3) by (auto intro: ranI)
  have ne: "slot s p' \<noteq> Some d" if "p' \<noteq> p" for p' using mb_okD(7) [OF ok p, of p'] that by blast
  have okt: "mb_ok ?t"
  proof (rule mb_okI)
    show "length (mb_temporal ?t) = mb_size ?t" using mb_okD(1) [OF ok] by (simp add: mb_size_def)
    show "i < mb_size ?t" if "slot ?t p' = Some i" for p' i
      using that mb_okD(6) [OF ok, of p' i] f(2) size unfolding st by (auto split: if_splits)
    show "p1 = p2" if "slot ?t p1 = Some i" "slot ?t p2 = Some i" for p1 p2 i
      using that mb_okD(7) [OF ok, of p1 i p2] nf unfolding st by (auto split: if_splits)
  qed (use u(3,4) in simp_all)
  have "stored ?t p' = stored s p'" for p'
  proof (cases "p' = p")
    case True
    then show ?thesis using p f(2) mb_okD(1) [OF ok] by (simp add: stored_def st mb_size_def)
  next
    case False
    then show ?thesis using nf [of p'] by (cases "slot s p'") (auto simp: stored_def st)
  qed
  then have "stored ?t = stored s" by blast
  moreover have "d \<notin> ran (slot ?t)" using ne fd by (auto simp: st ran_def)
  moreover have "dom (slot ?t) = dom (slot s)" using p by (auto simp: st)
  moreover have "leader ?t = leader s" using u(2) by simp
  moreover have "\<forall>p'. slot s p' \<noteq> Some d \<longrightarrow> slot ?t p' = slot s p'" using p by (auto simp: st)
  ultimately show ?thesis using run okt size by blast
qed

text \<open>A sequence that is in another slot changes places with whoever is in its slot.\<close>

lemma swap_index_inj: "swap_index a b i = swap_index a b j \<longleftrightarrow> i = j"
  by (auto simp: swap_index_def)

lemma swap_pair_run:
  assumes ok: "mb_ok s" and p: "slot s p = Some a" and d: "d < mb_size s" and ne: "a \<noteq> d"
  shows "\<exists>t. swap_pair_indices_and_mappings a d s = (Inr (), t) \<and> mb_ok t \<and> mb_size t = mb_size s \<and>
    slot t p = Some d \<and> dom (slot t) = dom (slot s) \<and> stored t = stored s \<and> leader t = leader s \<and>
    (\<forall>p'. p' \<noteq> p \<longrightarrow> slot s p' \<noteq> Some d \<longrightarrow> slot t p' = slot s p')"
proof -
  let ?w = "\<lambda>xs. xs[d := xs ! a, a := xs ! d]"
  let ?u = "s\<lparr>mb_conv := ?w (mb_conv s), mb_temporal := ?w (mb_temporal s)\<rparr>"
  let ?t = "?u\<lparr>mb_mapping := map (\<lambda>(r, m). (r, map (\<lambda>(q, i). (q, swap_index a d i)) m)) (mb_mapping s)\<rparr>"
  have a: "a < mb_size s" by (rule mb_okD(6) [OF ok p])
  have run: "swap_pair_indices_and_mappings a d s = (Inr (), ?t)"
    using on_tensors_run [OF ok, of "[a, d]" ?w] a d
    by (simp add: swap_pair_indices_and_mappings_def swap_mamba_cache_def swap_mapping_index_def andthen_def bind_def modify_def)
  have m: "mb_mapping ?t = map (\<lambda>(r, m). (r, map (\<lambda>(q, i). (q, swap_index a d i)) m)) (mb_mapping s)" by simp
  note w = swap_mapping_slot [OF m]
  have size: "mb_size ?t = mb_size s" by (simp add: mb_size_def)
  have okt: "mb_ok ?t"
  proof (rule mb_okI)
    show "length (mb_temporal ?t) = mb_size ?t" using mb_okD(1) [OF ok] by (simp add: mb_size_def)
    show "wf_dict (mb_mapping ?t)" by (rule w(3) [OF mb_okD(2) [OF ok]])
    show "\<forall>m \<in> snd ` set (mb_mapping ?t). wf_dict m \<and> m \<noteq> []" by (rule w(4)) (use ok in \<open>simp add: mb_ok_def\<close>)
    show "i < mb_size ?t" if "slot ?t p' = Some i" for p' i
    proof -
      obtain j where "slot s p' = Some j" "i = swap_index a d j" using \<open>slot ?t p' = Some i\<close> unfolding w(1) by blast
      then show ?thesis using mb_okD(6) [OF ok] a d size by (simp add: swap_index_def)
    qed
    show "p1 = p2" if "slot ?t p1 = Some i" "slot ?t p2 = Some i" for p1 p2 i
    proof -
      obtain i1 i2 where "slot s p1 = Some i1" "i = swap_index a d i1" "slot s p2 = Some i2" "i = swap_index a d i2"
        using \<open>slot ?t p1 = Some i\<close> \<open>slot ?t p2 = Some i\<close> unfolding w(1) by auto
      then show ?thesis using mb_okD(7) [OF ok, of p1 i1 p2] swap_index_inj [of a d i1 i2] by simp
    qed
  qed
  have row: "?w xs ! swap_index a d i = xs ! i" if "length xs = mb_size s" "i < mb_size s" for xs :: "'a list" and i
    using a d that by (simp add: swap_index_def nth_list_update)
  have "stored ?t p' = stored s p'" for p'
  proof (cases "slot s p'")
    case (Some i)
    have "i < mb_size s" by (rule mb_okD(6) [OF ok Some])
    then show ?thesis
      using Some row [of "mb_conv s" i] row [of "mb_temporal s" i] mb_okD(1) [OF ok]
      unfolding stored_def w(1) by (simp add: mb_size_def)
  qed (simp add: stored_def w(1))
  then have "stored ?t = stored s" by blast
  moreover have "\<forall>p'. p' \<noteq> p \<longrightarrow> slot s p' \<noteq> Some d \<longrightarrow> slot ?t p' = slot s p'"
  proof (intro allI impI)
    fix p' assume "p' \<noteq> p" "slot s p' \<noteq> Some d"
    then have "slot s p' \<noteq> Some a" using mb_okD(7) [OF ok p, of p'] by blast
    then show "slot ?t p' = slot s p'"
      using \<open>slot s p' \<noteq> Some d\<close> unfolding w(1) by (cases "slot s p'") (auto simp: swap_index_def)
  qed
  moreover have "slot ?t p = Some d" using p unfolding w(1) by (simp add: swap_index_def)
  moreover have "dom (slot ?t) = dom (slot s)" unfolding w(1) by auto
  ultimately show ?thesis using run okt size w(2) [OF ok] by blast
qed

text \<open>A new entry at a slot that nobody holds.\<close>

lemma new_entry:
  assumes ok: "mb_ok s" and d: "d < mb_size s" "d \<notin> ran (slot s)" and p: "slot s p = None"
    and t: "slot t = (slot s)(p \<mapsto> d)" "wf_dict (mb_mapping t)"
      "\<forall>m \<in> snd ` set (mb_mapping t). wf_dict m \<and> m \<noteq> []"
    and rows: "mb_conv t = (mb_conv s)[d := x]" "mb_temporal t = (mb_temporal s)[d := y]"
  shows "mb_ok t" "mb_size t = mb_size s" "stored t = (stored s)(p \<mapsto> (x, y))"
proof -
  show size: "mb_size t = mb_size s" using rows by (simp add: mb_size_def)
  show "mb_ok t"
  proof (rule mb_okI)
    show "length (mb_temporal t) = mb_size t" using mb_okD(1) [OF ok] rows by (simp add: mb_size_def)
    show "i < mb_size t" if "slot t p' = Some i" for p' i
      using that mb_okD(6) [OF ok, of p' i] d size unfolding t(1) by (auto split: if_splits)
    show "p1 = p2" if "slot t p1 = Some i" "slot t p2 = Some i" for p1 p2 i
      using that mb_okD(7) [OF ok, of p1 i p2] ranI [of "slot s" p1 d] ranI [of "slot s" p2 d] d(2)
      unfolding t(1) by (simp split: if_splits)
  qed (use t(2,3) in simp_all)
  have "stored t p' = ((stored s)(p \<mapsto> (x, y))) p'" for p'
  proof (cases "slot s p'")
    case (Some i)
    then have "i \<noteq> d" "p' \<noteq> p" using d(2) p ranI [of "slot s" p' i] by auto
    then show ?thesis using Some rows by (simp add: stored_def t(1))
  next
    case None
    then show ?thesis using d rows mb_okD(1) [OF ok] by (simp add: stored_def t(1) mb_size_def)
  qed
  then show "stored t = (stored s)(p \<mapsto> (x, y))" by blast
qed

lemma new_request_slot:
  assumes "mb_ok s" "map_of (mb_mapping s) r = None" "mb_mapping t = AList.update r [(q, d)] (mb_mapping s)"
  shows "slot t = (slot s)((r, q) \<mapsto> d)" "leader t = (leader s)(r \<mapsto> q)" "wf_dict (mb_mapping t)"
    "\<forall>m \<in> snd ` set (mb_mapping t). wf_dict m \<and> m \<noteq> []"
proof -
  show "slot t = (slot s)((r, q) \<mapsto> d)" "leader t = (leader s)(r \<mapsto> q)"
    using assms(2) by (auto simp: slot_def leader_def assms(3) update_conv' fun_eq_iff)
  show w: "wf_dict (mb_mapping t)" using mb_okD(2) [OF assms(1)] assms(3) by simp
  show "\<forall>m \<in> snd ` set (mb_mapping t). wf_dict m \<and> m \<noteq> []"
    using wf_dict_map_of [OF w] mb_okD(3,4) [OF assms(1)]
    by (fastforce simp: assms(3) update_conv' wf_dict_def split: if_splits)
qed

lemma new_sibling_slot:
  assumes "mb_ok s" "map_of (mb_mapping s) r = Some m" "map_of m q = None"
    "mb_mapping t = AList.map_entry r (AList.update q d) (mb_mapping s)"
  shows "slot t = (slot s)((r, q) \<mapsto> d)" "leader t = leader s" "wf_dict (mb_mapping t)"
    "\<forall>m \<in> snd ` set (mb_mapping t). wf_dict m \<and> m \<noteq> []"
proof -
  have d: "map_of (mb_mapping t) = (map_of (mb_mapping s))(r \<mapsto> AList.update q d m)"
    using assms(2) by (auto simp: assms(4) map_of_map_entry fun_eq_iff)
  show "slot t = (slot s)((r, q) \<mapsto> d)"
    using assms(2) by (auto simp: slot_def d update_conv' fun_eq_iff)
  have "m \<noteq> []" by (rule mb_okD(4) [OF assms(1,2)])
  then have "fst (hd (AList.update q d m)) = fst (hd m)" by (cases m) auto
  then show "leader t = leader s" using assms(2) by (auto simp: leader_def d fun_eq_iff)
  have "map fst (AList.map_entry r f d') = map fst d'" for f :: "(int, nat) dict \<Rightarrow> _" and d'
    by (induction d') auto
  then have "map fst (mb_mapping t) = map fst (mb_mapping s)" by (simp add: assms(4))
  then show w: "wf_dict (mb_mapping t)" using wf_dict_keys mb_okD(2) [OF assms(1)] by blast
  have "AList.update q d m \<noteq> []" by (cases m) auto
  then show "\<forall>m \<in> snd ` set (mb_mapping t). wf_dict m \<and> m \<noteq> []"
    using wf_dict_map_of [OF w] mb_okD(3,4) [OF assms(1)] mb_okD(3) [OF assms(1,2)]
    by (fastforce simp: d split: if_splits)
qed

section \<open>A whole batch\<close>

text \<open>
  What an assignment does: \<open>p\<close> is in slot \<open>d\<close>, sequences in other slots than \<open>d\<close> stay where they are,
  and what each sequence starts from is unchanged.
\<close>

definition assigned :: "'r \<Rightarrow> pair \<Rightarrow> nat \<Rightarrow> 'r mamba_cache \<Rightarrow> 'r mamba_cache \<Rightarrow> bool" where
  "assigned zero p d s t \<longleftrightarrow> mb_ok t \<and> mb_size t = mb_size s \<and> slot t p = Some d \<and>
     dom (slot t) = insert p (dom (slot s)) \<and> start_state zero t = start_state zero s \<and>
     (\<forall>p'. p' \<noteq> p \<longrightarrow> slot s p' \<noteq> Some d \<longrightarrow> slot t p' = slot s p')"

lemma leader_slot:
  assumes "mb_ok s" "leader s r = Some q"
  shows "(r, q) \<in> dom (slot s)"
proof -
  obtain m where m: "map_of (mb_mapping s) r = Some m" "q = fst (hd m)" using assms(2) by (auto simp: leader_def)
  then obtain i m' where "m = (q, i) # m'" using mb_okD(4) [OF assms(1) m(1)] by (cases m) auto
  then show ?thesis using m(1) by (auto simp: slot_def)
qed

lemma leader_None: "leader s r = None \<Longrightarrow> slot s (r, q) = None"
  by (simp add: leader_def slot_def)

lemma start_state_cong:
  assumes "stored t = stored s" "leader t = leader s"
  shows "start_state zero t = start_state zero s"
  by (rule ext) (simp only: start_state_def assms)

lemma start_state_new:
  assumes "mb_ok s" "stored s p = None" "stored t = (stored s)(p \<mapsto> start_state zero s p)"
    "leader t = leader s \<or> leader s (fst p) = None \<and> leader t = (leader s)(fst p \<mapsto> snd p)"
  shows "start_state zero t = start_state zero s"
proof
  fix x :: pair
  obtain r0 q0 where x0: "x = (r0, q0)" by (cases x)
  have in_dom: "stored s (r, q) \<noteq> None" if "leader s r = Some q" for r q
    using leader_slot [OF assms(1) that] stored_dom [of s] by blast
  show "start_state zero t x = start_state zero s x"
  proof (cases "leader s r0")
    case None
    then have n: "stored s (r0, q) = None" for q using leader_None [of s r0 q] by (simp add: stored_def)
    have x: "start_state zero s (r0, q) = (zero, zero)" for q by (simp add: start_state_def n None)
    have "start_state zero t (r0, q0) = (zero, zero)"
    proof (cases "fst p = r0")
      case True
      then have "p = (r0, snd p)" by (cases p) simp
      then have p: "stored t = (stored s)((r0, snd p) \<mapsto> (zero, zero))" using assms(3) x by metis
      have "leader t r0 = Some (snd p) \<or> leader t r0 = None" using assms(4) None True by auto
      then show ?thesis by (auto simp: start_state_def p n)
    next
      case False
      then have "leader t r0 = None" "stored t (r0, q0) = None"
        using assms(3,4) None n [of q0] by auto
      then show ?thesis by (simp add: start_state_def)
    qed
    then show ?thesis using x [of q0] x0 by simp
  next
    case (Some q)
    have "leader t r0 = Some q" using assms(4) Some by auto
    moreover have "stored t (r0, q) = stored s (r0, q)" using in_dom [OF Some] assms(2,3) by auto
    ultimately show ?thesis
      using Some assms(2,3) x0 by (auto simp: start_state_def split: option.split)
  qed
qed

lemma assign_new_request:
  assumes ok: "mb_ok s" and d: "d < mb_size s" and room: "card (dom (slot s)) < mb_size s"
    and r: "map_of (mb_mapping s) r = None"
  shows "\<exists>t. assign_seq_id zero r q d s = (Inr (), t) \<and> assigned zero (r, q) d s t"
proof -
  obtain u where u: "move_out_if_already_occupied d (get_all_occupied_indices s) s = (Inr (), u)" "mb_ok u"
      "mb_size u = mb_size s" "d \<notin> ran (slot u)" "dom (slot u) = dom (slot s)" "stored u = stored s"
      "leader u = leader s" "\<forall>p. slot s p \<noteq> Some d \<longrightarrow> slot u p = slot s p"
    using move_out_run [OF ok d room] by blast
  have ru: "map_of (mb_mapping u) r = None" using r u(7) by (auto simp: leader_def fun_eq_iff dest: spec [of _ r])
  have n: "slot u (r, q) = None" using ru by (simp add: slot_def)
  let ?z = "\<lambda>xs. xs[d := zero]"
  let ?t = "u\<lparr>mb_conv := ?z (mb_conv u), mb_temporal := ?z (mb_temporal u),
    mb_mapping := AList.update r [(q, d)] (mb_mapping u)\<rparr>"
  have run: "assign_seq_id zero r q d s = (Inr (), ?t)"
    using r u(1) on_tensors_run [OF u(2), of "[d]" ?z] d u(3)
    by (simp add: assign_seq_id_def bind_def andthen_def gets_def modify_def)
  have m: "mb_mapping ?t = AList.update r [(q, d)] (mb_mapping u)" by simp
  note k = new_request_slot [OF u(2) ru m]
  have du: "d < mb_size u" using d u(3) by simp
  note e = new_entry [OF u(2) du u(4) n k(1,3,4), of zero zero]
  have "start_state zero u (r, q) = (zero, zero)"
    using ru n by (simp add: start_state_def stored_def leader_def)
  then have "start_state zero ?t = start_state zero u"
    using start_state_new [OF u(2), of "(r, q)" ?t zero] n e(3) k(2) ru by (simp add: stored_def leader_def)
  then have "start_state zero ?t = start_state zero s" using start_state_cong [OF u(6,7)] by simp
  then have "assigned zero (r, q) d s ?t"
    using e(1,2) u(3,5,8) by (simp add: assigned_def k(1))
  then show ?thesis using run by blast
qed

lemma assign_new_sibling:
  assumes ok: "mb_ok s" and d: "d < mb_size s" and room: "card (dom (slot s)) < mb_size s"
    and r: "map_of (mb_mapping s) r = Some m0" "map_of m0 q = None"
  shows "\<exists>t. assign_seq_id zero r q d s = (Inr (), t) \<and> assigned zero (r, q) d s t"
proof -
  obtain u where u: "move_out_if_already_occupied d (get_all_occupied_indices s) s = (Inr (), u)" "mb_ok u"
      "mb_size u = mb_size s" "d \<notin> ran (slot u)" "dom (slot u) = dom (slot s)" "stored u = stored s"
      "leader u = leader s" "\<forall>p. slot s p \<noteq> Some d \<longrightarrow> slot u p = slot s p"
    using move_out_run [OF ok d room] by blast
  have "leader u r \<noteq> None" using r(1) u(7) by (simp add: leader_def)
  then obtain m where ru: "map_of (mb_mapping u) r = Some m" by (auto simp: leader_def)
  have "(r, q) \<notin> dom (slot s)" using r by (simp add: slot_def domIff)
  then have n: "slot u (r, q) = None" using u(5) by blast
  then have mq: "map_of m q = None" using ru by (simp add: slot_def)
  obtain l i m' where ml: "m = (l, i) # m'" using mb_okD(4) [OF u(2) ru] by (cases m) auto
  have li: "slot u (r, l) = Some i" "leader u r = Some l" using ru ml by (simp_all add: slot_def leader_def)
  have i: "i < mb_size u" by (rule mb_okD(6) [OF u(2) li(1)])
  let ?c = "\<lambda>xs. xs[d := xs ! i]"
  let ?t = "u\<lparr>mb_conv := ?c (mb_conv u), mb_temporal := ?c (mb_temporal u),
    mb_mapping := AList.map_entry r (AList.update q d) (mb_mapping u)\<rparr>"
  have run: "assign_seq_id zero r q d s = (Inr (), ?t)"
    using r u(1) on_tensors_run [OF u(2), of "[i, d]" ?c] d u(3) i ru ml
    by (simp add: assign_seq_id_def bind_def andthen_def gets_def modify_def copy_mamba_cache_def from_option_def return_def)
  have m: "mb_mapping ?t = AList.map_entry r (AList.update q d) (mb_mapping u)" by simp
  note k = new_sibling_slot [OF u(2) ru mq m]
  have du: "d < mb_size u" using d u(3) by simp
  note e = new_entry [OF u(2) du u(4) n k(1,3,4), of "mb_conv u ! i" "mb_temporal u ! i"]
  have "start_state zero u (r, q) = (mb_conv u ! i, mb_temporal u ! i)"
    using n li by (simp add: start_state_def stored_def)
  then have "start_state zero ?t = start_state zero u"
    using start_state_new [OF u(2), of "(r, q)" ?t zero] n e(3) k(2) by (simp add: stored_def)
  then have "start_state zero ?t = start_state zero s" using start_state_cong [OF u(6,7)] by simp
  then have "assigned zero (r, q) d s ?t"
    using e(1,2) u(3,5,8) by (simp add: assigned_def k(1))
  then show ?thesis using run by blast
qed

lemma assign_known:
  assumes ok: "mb_ok s" and d: "d < mb_size s" and r: "map_of (mb_mapping s) r = Some m" "map_of m q = Some a"
  shows "\<exists>t. assign_seq_id zero r q d s = (Inr (), t) \<and> assigned zero (r, q) d s t"
proof -
  have p: "slot s (r, q) = Some a" using r by (simp add: slot_def)
  have run: "assign_seq_id zero r q d s = (if a \<noteq> d then swap_pair_indices_and_mappings a d s else (Inr (), s))"
    using r by (simp add: assign_seq_id_def bind_def gets_def return_def)
  show ?thesis
  proof (cases "a = d")
    case True
    then have "assigned zero (r, q) d s s" using ok p by (auto simp: assigned_def)
    then show ?thesis using run True by simp
  next
    case False
    obtain t where t: "swap_pair_indices_and_mappings a d s = (Inr (), t)" "mb_ok t" "mb_size t = mb_size s"
        "slot t (r, q) = Some d" "dom (slot t) = dom (slot s)" "stored t = stored s" "leader t = leader s"
        "\<forall>p'. p' \<noteq> (r, q) \<longrightarrow> slot s p' \<noteq> Some d \<longrightarrow> slot t p' = slot s p'"
      using swap_pair_run [OF ok p d False] by blast
    have "insert (r, q) (dom (slot s)) = dom (slot s)" using p by blast
    then have "assigned zero (r, q) d s t"
      using t start_state_cong [OF t(6,7), of zero] by (simp add: assigned_def)
    then show ?thesis using run False t(1) by simp
  qed
qed

lemma assign_run:
  assumes ok: "mb_ok s" and d: "d < mb_size s" and room: "card (insert (r, q) (dom (slot s))) \<le> mb_size s"
  shows "\<exists>t. assign_seq_id zero r q d s = (Inr (), t) \<and> assigned zero (r, q) d s t"
proof (cases "slot s (r, q)")
  case None
  then have "card (dom (slot s)) < mb_size s" using room by (simp add: domIff)
  then show ?thesis
    using None assign_new_request [OF ok d] assign_new_sibling [OF ok d]
    by (cases "map_of (mb_mapping s) r") (auto simp: slot_def)
next
  case (Some a)
  then show ?thesis using assign_known [OF ok d] by (auto simp: slot_Some)
qed

text \<open>The sequences that were assigned before are \<open>prev\<close>; each keeps its slot.\<close>

lemma assign_batch_run:
  assumes "mb_ok s" "distinct (prev @ rest)" "\<forall>i < length prev. slot s (prev ! i) = Some i"
    and "\<forall>p \<in> set rest. fst p \<notin> set finished" "card (dom (slot s) \<union> set rest) \<le> mb_size s"
  shows "\<exists>t. assign_batch zero finished (length prev) rest s = (Inr [length prev ..< length (prev @ rest)], t) \<and>
    mb_ok t \<and> mb_size t = mb_size s \<and> dom (slot t) = dom (slot s) \<union> set rest \<and>
    start_state zero t = start_state zero s \<and> (\<forall>i < length (prev @ rest). slot t ((prev @ rest) ! i) = Some i)"
  using assms
proof (induction rest arbitrary: prev s)
  case Nil
  then show ?case by (simp add: return_def)
next
  case (Cons p rest)
  obtain r q where p: "p = (r, q)" by (cases p)
  note ok = Cons.prems(1)
  have fin: "finite (dom (slot s) \<union> set (p # rest))" by simp
  have prev: "set prev \<subseteq> dom (slot s)" using Cons.prems(3) by (fastforce simp: in_set_conv_nth)
  have "Suc (length prev) = card (set (prev @ [p]))" using Cons.prems(2) distinct_card [of "prev @ [p]"] by simp
  also have "\<dots> \<le> card (dom (slot s) \<union> set (p # rest))" by (rule card_mono [OF fin]) (use prev in auto)
  finally have d: "length prev < mb_size s" using Cons.prems(5) by simp
  have room: "card (insert (r, q) (dom (slot s))) \<le> mb_size s"
  proof -
    have "card (insert (r, q) (dom (slot s))) \<le> card (dom (slot s) \<union> set (p # rest))"
      by (rule card_mono [OF fin]) (use p in auto)
    then show ?thesis using Cons.prems(5) by simp
  qed
  obtain u where u: "assign_seq_id zero r q (length prev) s = (Inr (), u)" "assigned zero (r, q) (length prev) s u"
    using assign_run [OF ok d room] by blast
  note a = u(2) [unfolded assigned_def]
  have kept: "slot u ((prev @ [p]) ! i) = Some i" if "i < length (prev @ [p])" for i
  proof (cases "i = length prev")
    case True
    then show ?thesis using a p by simp
  next
    case False
    then have i: "i < length prev" using that by simp
    then have "prev ! i \<noteq> p" using Cons.prems(2) nth_mem [OF i] by auto
    moreover have "slot s (prev ! i) = Some i" using Cons.prems(3) i by blast
    moreover from this have "slot s (prev ! i) \<noteq> Some (length prev)" using i by simp
    ultimately have "slot u (prev ! i) = Some i" using a p by metis
    then show ?thesis using i by (simp add: nth_append)
  qed
  have dom: "dom (slot u) \<union> set rest = dom (slot s) \<union> set (p # rest)" using a p by auto
  obtain t where t: "assign_batch zero finished (length (prev @ [p])) rest u =
        (Inr [length (prev @ [p]) ..< length ((prev @ [p]) @ rest)], t)"
      "mb_ok t" "mb_size t = mb_size u" "dom (slot t) = dom (slot u) \<union> set rest"
      "start_state zero t = start_state zero u"
      "\<forall>i < length ((prev @ [p]) @ rest). slot t (((prev @ [p]) @ rest) ! i) = Some i"
    using Cons.IH [of u "prev @ [p]"] a Cons.prems(2,4,5) kept dom by auto
  have "assign_batch zero finished (length prev) (p # rest) s = (Inr [length prev ..< length (prev @ p # rest)], t)"
  proof -
    have "[length prev ..< length (prev @ p # rest)] =
        length prev # [length (prev @ [p]) ..< length ((prev @ [p]) @ rest)]"
      by (simp add: upt_conv_Cons del: upt_Suc)
    then show ?thesis
      using u(1) t(1) Cons.prems(4) p by (simp add: andthen_def bind_def return_def del: upt_Suc)
  qed
  then show ?case using t a dom by auto
qed

lemma for_each_stays: "(\<And>x. x \<in> set xs \<Longrightarrow> f x s = (Inr (), s)) \<Longrightarrow> for_each xs f s = (Inr (), s)"
  by (induction xs) (simp_all add: return_def andthen_def bind_def)

lemma clean_up_nothing:
  assumes "set (get_all_occupied_indices s) \<inter> {..<n} \<subseteq> set running"
  shows "clean_up_first_bs_blocks n running s = (Inr (), s)"
  unfolding clean_up_first_bs_blocks_def
  by (rule for_each_stays) (use assms in \<open>auto simp: bind_def gets_def return_def\<close>)

lemma release_run:
  assumes "mb_ok s"
  shows "\<exists>t. release_finished_requests rs s = (Inr (), t) \<and> mb_ok t \<and> mb_conv t = mb_conv s \<and>
    mb_temporal t = mb_temporal s \<and> map_of (mb_mapping t) = (map_of (mb_mapping s)) |` (- set rs)"
  using assms
proof (induction rs arbitrary: s)
  case Nil
  then show ?case by (simp add: release_finished_requests_def return_def)
next
  case (Cons r rs)
  let ?u = "s\<lparr>mb_mapping := AList.delete r (mb_mapping s)\<rparr>"
  note ok = Cons.prems
  have m: "map_of (mb_mapping ?u) = (map_of (mb_mapping s)) |` (- {r})"
    by (auto simp: delete_conv' restrict_map_def)
  have sub: "slot ?u p = Some i \<Longrightarrow> slot s p = Some i" for p i
    using m by (cases p) (auto simp: slot_Some restrict_map_def split: if_splits)
  have "mb_ok ?u"
  proof (rule mb_okI)
    show "length (mb_temporal ?u) = mb_size ?u" using mb_okD(1) [OF ok] by (simp add: mb_size_def)
    show w: "wf_dict (mb_mapping ?u)" using mb_okD(2) [OF ok] by simp
    have "set (mb_mapping ?u) \<subseteq> set (mb_mapping s)" by (auto simp: AList.delete_eq)
    then show "\<forall>m \<in> snd ` set (mb_mapping ?u). wf_dict m \<and> m \<noteq> []" using ok by (auto simp: mb_ok_def)
    show "i < mb_size ?u" if "slot ?u p = Some i" for p i
      using mb_okD(6) [OF ok sub [OF that]] by (simp add: mb_size_def)
    show "p = p'" if "slot ?u p = Some i" "slot ?u p' = Some i" for p p' i
      using mb_okD(7) [OF ok sub sub] that by blast
  qed
  then obtain t where t: "release_finished_requests rs ?u = (Inr (), t)" "mb_ok t" "mb_conv t = mb_conv ?u"
      "mb_temporal t = mb_temporal ?u" "map_of (mb_mapping t) = (map_of (mb_mapping ?u)) |` (- set rs)"
    using Cons.IH by blast
  have "map_of (mb_mapping t) = (map_of (mb_mapping s)) |` (- set (r # rs))"
    unfolding t(5) m by (auto simp: restrict_map_def fun_eq_iff)
  moreover have "release_finished_requests (r # rs) s = (Inr (), t)"
    using t(1) by (simp add: release_finished_requests_def andthen_def bind_def modify_def)
  ultimately show ?case using t(2-4) by auto
qed

lemma released_view:
  assumes "map_of (mb_mapping t) = (map_of (mb_mapping s)) |` (- set rs)" "mb_conv t = mb_conv s" "mb_temporal t = mb_temporal s"
  shows "slot t p = (if fst p \<in> set rs then None else slot s p)"
    "fst p \<notin> set rs \<Longrightarrow> stored t p = stored s p" "fst p \<notin> set rs \<Longrightarrow> start_state zero t p = start_state zero s p"
proof -
  show sl: "slot t p = (if fst p \<in> set rs then None else slot s p)" for p
    by (simp add: slot_def assms(1) restrict_map_def)
  show st: "stored t p = stored s p" if "fst p \<notin> set rs" for p
    using that by (simp add: stored_def sl assms(2,3))
  show "start_state zero t p = start_state zero s p" if "fst p \<notin> set rs"
  proof -
    have "leader t (fst p) = leader s (fst p)" using that by (simp add: leader_def assms(1))
    moreover have "stored t (fst p, q) = stored s (fst p, q)" for q by (rule st) (use that in simp)
    ultimately show ?thesis using st [OF that] by (simp add: start_state_def split: option.split)
  qed
qed

section \<open>Properties\<close>

text \<open>
  C27: the worker's state slots follow the sequences. Assumed: a consistent cache (\<open>mb_ok\<close>), a batch whose sequences
  are distinct and none of which belongs to a finished request, and slots that suffice for all sequences that are
  alive or in the batch. Then the step returns: the slots of finished requests are released, the k-th sequence of the batch is
  in slot k of the tensors that the model runs on, and it starts from its own state: what it had stored, or for a
  new sibling the state of the first sequence of its request, or for a new request zeros. Whoever had to make room
  keeps its state in another slot, and the cache stays consistent. Batches with sequences of
  finished requests are excluded; when a whole batch has just finished, the clean-up can raise
  (\<open>mamba_clean_up_fails\<close>).
\<close>

theorem mamba_step_assigns:
  assumes "mb_ok s" "distinct (flatten_batch reqs)" "\<forall>p \<in> set (flatten_batch reqs). fst p \<notin> set finished"
    and "card ({p \<in> dom (slot s). fst p \<notin> set finished} \<union> set (flatten_batch reqs)) \<le> mb_size s"
  shows "\<exists>t. current_run_tensors zero None reqs finished s =
      (Inr (map (fst \<circ> start_state zero s) (flatten_batch reqs), map (snd \<circ> start_state zero s) (flatten_batch reqs)), t) \<and>
    mb_ok t \<and> (\<forall>i < length (flatten_batch reqs). slot t (flatten_batch reqs ! i) = Some i) \<and>
    dom (slot t) = {p \<in> dom (slot s). fst p \<notin> set finished} \<union> set (flatten_batch reqs) \<and>
    (\<forall>p \<in> dom (slot s). fst p \<notin> set finished \<longrightarrow> stored t p = stored s p)"
proof -
  let ?b = "flatten_batch reqs"
  obtain u where u: "release_finished_requests finished s = (Inr (), u)" "mb_ok u" "mb_conv u = mb_conv s"
      "mb_temporal u = mb_temporal s" "map_of (mb_mapping u) = (map_of (mb_mapping s)) |` (- set finished)"
    using release_run [OF assms(1)] by blast
  note v = released_view [OF u(5,3,4)]
  have size: "mb_size u = mb_size s" using u(3) by (simp add: mb_size_def)
  have dom: "dom (slot u) = {p \<in> dom (slot s). fst p \<notin> set finished}"
    unfolding dom_def v(1) by (auto split: if_splits)
  obtain t where t: "assign_batch zero finished 0 ?b u = (Inr [0..<length ?b], t)" "mb_ok t" "mb_size t = mb_size u"
      "dom (slot t) = dom (slot u) \<union> set ?b" "start_state zero t = start_state zero u"
      "\<forall>i < length ?b. slot t (?b ! i) = Some i"
    using assign_batch_run [OF u(2), of "[]" ?b finished zero] assms(2-4) size dom by auto
  have clean: "clean_up_first_bs_blocks (length ?b) [0..<length ?b] t = (Inr (), t)"
    by (rule clean_up_nothing) auto
  have "run": "current_run_tensors zero None reqs finished s =
      (Inr (take (length ?b) (mb_conv t), take (length ?b) (mb_temporal t)), t)"
    using u(1) t(1) clean
    by (simp add: current_run_tensors_def prepare_current_run_mamba_cache_def Let_def andthen_def bind_def gets_def)
  have start: "start_state zero t p = start_state zero s p" if "fst p \<notin> set finished" for p
    using t(5) v(3) [OF that] by simp
  have row: "i < mb_size t" "(mb_conv t ! i, mb_temporal t ! i) = start_state zero s (?b ! i)" if "i < length ?b" for i
  proof -
    have sl: "slot t (?b ! i) = Some i" using t(6) that by blast
    then show "i < mb_size t" by (rule mb_okD(6) [OF t(2)])
    have "Some (mb_conv t ! i, mb_temporal t ! i) = Some (start_state zero t (?b ! i))"
      using start_stored [of "?b ! i" t zero] sl by (auto simp: stored_def)
    then show "(mb_conv t ! i, mb_temporal t ! i) = start_state zero s (?b ! i)"
      using start assms(3) nth_mem [OF that] by simp
  qed
  have fits: "length ?b \<le> mb_size t" using row(1) by (meson leI less_irrefl)
  have "take (length ?b) (mb_conv t) = map (fst \<circ> start_state zero s) ?b"
    by (rule nth_equalityI) (use fits row(2) in \<open>auto simp: mb_size_def simp flip: row(2)\<close>)
  moreover have "take (length ?b) (mb_temporal t) = map (snd \<circ> start_state zero s) ?b"
    by (rule nth_equalityI) (use fits row(2) mb_okD(1) [OF t(2)] in \<open>auto simp flip: row(2)\<close>)
  moreover have "stored t p = stored s p" if "p \<in> dom (slot s)" "fst p \<notin> set finished" for p
  proof -
    have "p \<in> dom (slot t)" "p \<in> dom (slot s)" using that t(4) dom by auto
    then show ?thesis using start_stored start that(2) by metis
  qed
  ultimately show ?thesis using run t(2,4,6) dom by auto
qed

lemma mb_init_ok: "length memory = n \<Longrightarrow> mb_ok (mb_init zero memory n)"
  by (rule mb_okI) (auto simp: mb_init_def mb_size_def slot_def)

text \<open>An example: three slots, sequence 0 of one request in the slot that sequence 7 of another needs.\<close>

definition example_mamba :: "int mamba_cache" where
  "example_mamba = \<lparr>mb_conv = [5, 6, 9], mb_temporal = [50, 60, 90],
     mb_mapping = [(''a'', [(0, 0)]), (''b'', [(7, 1)])]\<rparr>"

lemma example_mamba_ok: "mb_ok example_mamba"
proof (rule mb_okI)
  have s: "slot example_mamba p = (if p = (''a'', 0) then Some 0 else if p = (''b'', 7) then Some 1 else None)" for p
    by (cases p) (auto simp: slot_def example_mamba_def)
  show "i < mb_size example_mamba" if "slot example_mamba p = Some i" for p i
  proof -
    have "mb_size example_mamba = 3" by (simp add: example_mamba_def mb_size_def)
    then show ?thesis using that by (auto simp: s split: if_splits)
  qed
  show "p = p'" if "slot example_mamba p = Some i" "slot example_mamba p' = Some i" for p p' i
    using that by (auto simp: s split: if_splits)
qed (auto simp: example_mamba_def mb_size_def wf_dict_def)

lemma mamba_step_assigns_witness:
  "\<exists>t. current_run_tensors 0 None [(''b'', [7, 8])] [] example_mamba = (Inr ([6, 6], [60, 60]), t) \<and>
     slot t (''b'', 8) = Some 1 \<and> stored t (''a'', 0) = Some (5, 50)"
proof -
  have f: "flatten_batch [(''b'', [7, 8])] = [(''b'', 7), (''b'', 8)]" by (simp add: flatten_batch_def)
  have s: "start_state 0 example_mamba (''b'', 7) = (6, 60)" "start_state 0 example_mamba (''b'', 8) = (6, 60)"
    "stored example_mamba (''a'', 0) = Some (5, 50)" "mb_size example_mamba = 3"
    by (simp_all add: start_state_def stored_def slot_def leader_def example_mamba_def mb_size_def)
  have "dom (slot example_mamba) \<subseteq> {(''a'', 0), (''b'', 7)}"
    by (auto simp: slot_def example_mamba_def split: if_splits)
  then have "card ({p \<in> dom (slot example_mamba). fst p \<notin> set []} \<union> set [(''b'', 7), (''b'', 8)]) \<le>
      card {(''a'', 0), (''b'', 7), (''b'', 8 :: int)}"
    by (intro card_mono) auto
  also have "\<dots> = 3" by simp
  finally have c: "card ({p \<in> dom (slot example_mamba). fst p \<notin> set []} \<union> set [(''b'', 7), (''b'', 8)]) \<le> 3" .
  have a: "(''a'', 0) \<in> dom (slot example_mamba)" by (simp add: domIff slot_def) (simp add: example_mamba_def)
  obtain t where t: "current_run_tensors 0 None [(''b'', [7, 8])] [] example_mamba = (Inr ([6, 6], [60, 60]), t)"
      "\<forall>i < 2. slot t ([(''b'', 7), (''b'', 8)] ! i) = Some i"
      "\<forall>p \<in> dom (slot example_mamba). stored t p = stored example_mamba p"
    using mamba_step_assigns [OF example_mamba_ok, of "[(''b'', [7, 8])]" "[]" 0] c unfolding f s
    by (auto simp: s numeral_2_eq_2)
  then show ?thesis using spec [OF t(2), of 1] bspec [OF t(3) a] s(3) by simp
qed

lemma for_each_fails:
  "(\<And>x. x \<in> set xs \<Longrightarrow> f x s = (Inr (), s) \<or> fst (f x s) \<in> E) \<Longrightarrow> \<exists>x \<in> set xs. f x s \<noteq> (Inr (), s) \<Longrightarrow>
   E \<subseteq> range Inl \<Longrightarrow> fst (for_each xs f s) \<in> E"
proof (induction xs)
  case (Cons x xs)
  show ?case
  proof (cases "f x s = (Inr (), s)")
    case True
    then show ?thesis using Cons by (auto simp: andthen_def bind_def)
  next
    case False
    then have "fst (f x s) \<in> E" using Cons.prems(1) by auto
    moreover from this obtain e where "fst (f x s) = Inl e" using Cons.prems(3) by auto
    ultimately show ?thesis by (cases "f x s") (auto simp: andthen_def bind_def)
  qed
qed simp

text \<open>
  The path that moves a waiting sequence out of the batch cannot work. When a step runs only
  requests that have just finished, so that no slot is assigned, and a sequence of another request
  occupies one of the first slots, the clean-up wants to swap it away and raises instead: the method it
  calls does not exist (or, before that, no slot is free).
\<close>

theorem mamba_clean_up_fails:
  assumes "mb_ok s" "\<forall>p \<in> set (flatten_batch reqs). fst p \<in> set finished"
    and "slot s p = Some i" "fst p \<notin> set finished" "i < length (flatten_batch reqs)"
  shows "fst (current_run_tensors zero None reqs finished s) \<in> {Inl AttributeError, Inl Exception}"
proof -
  let ?b = "flatten_batch reqs"
  obtain u where u: "release_finished_requests finished s = (Inr (), u)" "mb_ok u" "mb_conv u = mb_conv s"
      "mb_temporal u = mb_temporal s" "map_of (mb_mapping u) = (map_of (mb_mapping s)) |` (- set finished)"
    using release_run [OF assms(1)] by blast
  have idle: "assign_batch zero finished k rest u = (Inr [], u)" if "\<forall>p \<in> set rest. fst p \<in> set finished" for k rest
    using that by (induction rest arbitrary: k) (auto simp: return_def)
  have "slot u p = Some i" using released_view(1) [OF u(5,3,4), of p] assms(3,4) by simp
  then have occ: "i \<in> set (get_all_occupied_indices u)" using occupied_slots [OF u(2)] by (auto intro: ranI)
  have "fst (clean_up_first_bs_blocks (length ?b) [] u) \<in> {Inl AttributeError, Inl Exception}"
    unfolding clean_up_first_bs_blocks_def
  proof (rule for_each_fails)
    show "\<exists>x \<in> set [0..<length ?b]. bind (gets get_all_occupied_indices) (\<lambda>occupied.
        if x \<in> set occupied \<and> x \<notin> set [] then bind (gets mb_size) (\<lambda>m.
          bind (first_free_index_in_mamba_cache (Some [length ?b..<m])) (\<lambda>_. raise AttributeError))
        else return ()) u \<noteq> (Inr (), u)"
      using occ assms(5) by (intro bexI [of _ i])
        (auto simp: py_defs first_free_index_in_mamba_cache_def split: option.split)
  qed (auto simp: py_defs first_free_index_in_mamba_cache_def split: option.split)
  then show ?thesis
    using u(1) idle [OF assms(2)]
    by (auto simp: current_run_tensors_def prepare_current_run_mamba_cache_def Let_def andthen_def bind_def
      split: prod.splits sum.splits)
qed

lemma mamba_clean_up_fails_witness:
  "fst (current_run_tensors 0 None [(''c'', [3])] [''c''] example_mamba) \<in> {Inl AttributeError, Inl Exception}"
  using mamba_clean_up_fails [OF example_mamba_ok, of "[(''c'', [3])]" "[''c'']" "(''a'', 0)" 0 0]
  by (simp add: flatten_batch_def slot_def example_mamba_def)

end
