(* ===== verification/PyStrings.thy ===== *)
theory PyStrings
  imports Prelude "HOL-Library.Sublist"
begin

text \<open>
  Python's operations on strings that search: \<open>find\<close>, \<open>index\<close>, \<open>in\<close>, \<open>partition\<close>, \<open>count\<close> and slices.
  They work on lists of any type; a slice \<open>xs[i:j]\<close> takes negative bounds from the end.
\<close>

fun sub_index :: "'a list \<Rightarrow> 'a list \<Rightarrow> nat option" where
  "sub_index sub [] = (if sub = [] then Some 0 else None)"
| "sub_index sub (x # xs) = (if prefix sub (x # xs) then Some 0 else map_option Suc (sub_index sub xs))"

definition py_in :: "'a list \<Rightarrow> 'a list \<Rightarrow> bool" where
  "py_in sub xs \<longleftrightarrow> sub_index sub xs \<noteq> None"

text \<open>\<open>xs.find(sub)\<close> and \<open>xs.find(sub, start)\<close> for a start that is not negative.\<close>

definition py_find :: "'a list \<Rightarrow> 'a list \<Rightarrow> int" where
  "py_find xs sub = (case sub_index sub xs of None \<Rightarrow> -1 | Some i \<Rightarrow> int i)"

definition py_find_from :: "'a list \<Rightarrow> 'a list \<Rightarrow> nat \<Rightarrow> int" where
  "py_find_from xs sub start = (if length xs < start then -1
     else case sub_index sub (drop start xs) of None \<Rightarrow> -1 | Some i \<Rightarrow> int (start + i))"

text \<open>\<open>xs.find(sub, start)\<close> where a negative start counts from the end.\<close>

definition py_find_start :: "'a list \<Rightarrow> 'a list \<Rightarrow> int \<Rightarrow> int" where
  "py_find_start xs sub start =
     py_find_from xs sub (nat (if start < 0 then int (length xs) + start else start))"

text \<open>The separator of \<open>partition\<close> is not empty where the code uses it.\<close>

definition py_partition :: "'a list \<Rightarrow> 'a list \<Rightarrow> 'a list \<times> 'a list \<times> 'a list" where
  "py_partition xs sep = (case sub_index sep xs of None \<Rightarrow> (xs, [], [])
     | Some i \<Rightarrow> (take i xs, sep, drop (i + length sep) xs))"

definition slice_bound :: "'a list \<Rightarrow> int \<Rightarrow> nat" where
  "slice_bound xs i = (if i < 0 then nat (int (length xs) + i) else min (nat i) (length xs))"

definition py_slice :: "'a list \<Rightarrow> int option \<Rightarrow> int option \<Rightarrow> 'a list" where
  "py_slice xs i j =
     (let a = (case i of None \<Rightarrow> 0 | Some i \<Rightarrow> slice_bound xs i);
          b = (case j of None \<Rightarrow> length xs | Some j \<Rightarrow> slice_bound xs j)
      in take (b - a) (drop a xs))"

section \<open>Where a substring is found\<close>

lemma sub_index_Some:
  "sub_index sub xs = Some i \<longleftrightarrow> i \<le> length xs \<and> prefix sub (drop i xs) \<and> (\<forall>j < i. \<not> prefix sub (drop j xs))"
proof (induction sub xs arbitrary: i rule: sub_index.induct)
  case (2 sub x xs)
  show ?case
  proof (cases "prefix sub (x # xs)")
    case True
    then show ?thesis by (cases i) auto
  next
    case False
    show ?thesis
    proof (cases i)
      case (Suc k)
      have "(\<forall>j < Suc k. \<not> prefix sub (drop j (x # xs))) \<longleftrightarrow> (\<forall>j < k. \<not> prefix sub (drop j xs))"
        using False by (auto simp: less_Suc_eq_0_disj)
      then show ?thesis using False Suc 2 by auto
    qed (use False in auto)
  qed
qed auto

lemma sub_index_split:
  assumes "sub_index sub xs = Some i"
  shows "xs = take i xs @ sub @ drop (i + length sub) xs"
proof -
  have "prefix sub (drop i xs)" using assms by (simp add: sub_index_Some)
  then obtain zs where "drop i xs = sub @ zs" by (auto simp: prefix_def)
  moreover from this have "drop (i + length sub) xs = zs" by (metis drop_drop add.commute append_eq_conv_conj)
  ultimately show ?thesis by (metis append_take_drop_id)
qed

lemma sub_index_bound: "sub_index sub xs = Some i \<Longrightarrow> i + length sub \<le> length xs"
  using prefix_length_le [of sub "drop i xs"] by (auto simp: sub_index_Some)

lemma py_in_sublist: "py_in sub xs \<longleftrightarrow> sublist sub xs"
  by (induction sub xs rule: sub_index.induct) (auto simp: py_in_def sublist_Cons_right)

lemma sub_index_mono:
  assumes "sub_index sub xs = Some i" "sub \<noteq> []"
  shows "sub_index sub (xs @ ys) = Some i"
proof -
  have le: "i \<le> length xs" and at: "prefix sub (drop i xs)" and first: "\<And>j. j < i \<Longrightarrow> \<not> prefix sub (drop j xs)"
    using assms(1) by (auto simp: sub_index_Some)
  have "i + length sub \<le> length xs" using prefix_length_le [OF at] le by simp
  have "\<not> prefix sub (drop j (xs @ ys))" if j: "j < i" for j
  proof
    assume "prefix sub (drop j (xs @ ys))"
    then have "prefix sub (drop j xs @ ys)" using j le by simp
    then have "prefix sub (drop j xs)"
      using \<open>i + length sub \<le> length xs\<close> j by (auto simp: prefix_def append_eq_append_conv2)
    then show False using first [OF j] by simp
  qed
  then show ?thesis using le at by (simp add: sub_index_Some prefix_order.trans)
qed

lemma sub_index_drop: "sub_index sub xs = Some i \<Longrightarrow> k \<le> i \<Longrightarrow> sub_index sub (drop k xs) = Some (i - k)"
  by (auto simp: sub_index_Some)

lemma sub_index_drop_None: "sub_index sub xs = None \<Longrightarrow> sub_index sub (drop k xs) = None"
  using sublist_order.order.trans [OF _ sublist_drop [of k xs], of sub]
  by (metis option.exhaust py_in_def py_in_sublist)

text \<open>An occurrence that is not in the old text ends in the new text.\<close>

lemma occurrence_ends_new:
  assumes "sub_index sub (old @ new) = Some i" "\<not> py_in sub old"
  shows "length old < i + length sub"
proof (rule ccontr)
  assume "\<not> length old < i + length sub"
  then have "take (length sub) (drop i (old @ new)) = take (length sub) (drop i old)" by simp
  moreover have "prefix sub (drop i (old @ new))" using assms(1) by (simp add: sub_index_Some)
  ultimately have "prefix sub (drop i old)" by (metis prefix_def append_eq_conv_conj take_is_prefix)
  then have "sublist sub old" by (meson prefix_imp_sublist sublist_drop sublist_order.order.trans)
  then show False using assms(2) by (simp add: py_in_sublist)
qed

text \<open>When the old text has no occurrence, a window that reaches back by the length of \<open>sub\<close> misses none.\<close>

lemma find_in_window:
  assumes "sub \<noteq> []" "\<not> py_in sub old"
  shows "py_find_start (old @ new) sub (- int (length new) - int (length sub)) = py_find (old @ new) sub"
proof -
  let ?start = "length old - length sub"
  have "nat (int (length (old @ new)) + (- int (length new) - int (length sub))) = ?start" by simp
  then have start: "py_find_start (old @ new) sub (- int (length new) - int (length sub)) =
      py_find_from (old @ new) sub ?start"
    unfolding py_find_start_def using assms(1) by (cases sub) (simp_all only: if_True, simp_all)
  show ?thesis
  proof (cases "sub_index sub (old @ new)")
    case None
    then show ?thesis using sub_index_drop_None [OF None, of ?start] assms(1)
      unfolding start by (simp add: py_find_from_def py_find_def)
  next
    case (Some i)
    have "?start \<le> i" using occurrence_ends_new [OF Some assms(2)] by simp
    then show ?thesis using sub_index_drop [OF Some, of ?start] Some assms(1)
      unfolding start by (simp add: py_find_from_def py_find_def)
  qed
qed

lemma py_find_Some: "sub_index sub xs = Some i \<Longrightarrow> py_find xs sub = int i"
  by (simp add: py_find_def)

lemma slice_from [simp]: "py_slice xs (Some (int i)) None = drop i xs"
  by (simp add: py_slice_def slice_bound_def min_def)

lemma slice_to [simp]: "py_slice xs None (Some (int j)) = take j xs"
  by (simp add: py_slice_def slice_bound_def min_def)

end
