(* ===== verification/ReasoningParser.thy ===== *)
theory ReasoningParser
  imports PyStrings "HOL-Library.Char_ord" "HOL-Library.List_Lexorder"
begin

text \<open>
  \<^verbatim>\<open>qwen3_6_scripts/reasoning/abs_reasoning_parsers.py\<close> and \<^verbatim>\<open>qwen3_reasoning_parser.py\<close>: splitting the
  output of the model into the reasoning between the think tags and the content after it, for a whole
  text and for a stream of deltas, and the registry of the parsers. The tokenizer is its vocabulary. A
  delta is the text that was added and the token ids that were added; the streaming parsers keep no
  state, they are given the ids before the delta.
\<close>

section \<open>Parsers\<close>

record reasoning_parser =
  rp_start_token :: string
  rp_end_token :: string
  rp_start_token_id :: int
  rp_end_token_id :: int
  rp_thinking_enabled :: bool

record delta_message =
  dm_reasoning_content :: "string option"
  dm_content :: "string option"

text \<open>\<open>x or None\<close> for a string.\<close>

definition or_none :: "string \<Rightarrow> string option" where
  "or_none x = (if x = [] then None else Some x)"

text \<open>
  The constructor; \<open>None\<close> is a tokenizer that was not passed. \<open>enable_thinking\<close> is the option of the
  chat template, which only the Qwen3 parser reads.
\<close>

definition base_parser :: "(string, int) dict option \<Rightarrow> string \<Rightarrow> string \<Rightarrow> bool \<Rightarrow> exn + reasoning_parser" where
  "base_parser tokenizer start_token end_token enable_thinking =
     (case tokenizer of None \<Rightarrow> Inl ValueError
      | Some vocab \<Rightarrow>
          echeck ValueError (start_token \<noteq> [] \<and> end_token \<noteq> [])
            (case (map_of vocab start_token, map_of vocab end_token) of
               (Some start_token_id, Some end_token_id) \<Rightarrow>
                 Inr \<lparr>rp_start_token = start_token, rp_end_token = end_token,
                   rp_start_token_id = start_token_id, rp_end_token_id = end_token_id,
                   rp_thinking_enabled = enable_thinking\<rparr>
             | _ \<Rightarrow> Inl RuntimeError))"

definition qwen3_parser :: "(string, int) dict option \<Rightarrow> bool option \<Rightarrow> exn + reasoning_parser" where
  "qwen3_parser tokenizer enable_thinking =
     base_parser tokenizer ''<think>'' ''</think>'' (case enable_thinking of None \<Rightarrow> True | Some b \<Rightarrow> b)"

section \<open>Token ids\<close>

fun scan_reasoning_end :: "reasoning_parser \<Rightarrow> int list \<Rightarrow> bool" where
  "scan_reasoning_end p [] = False"
| "scan_reasoning_end p (token_id # rest) =
     (if token_id = rp_start_token_id p then False
      else if token_id = rp_end_token_id p then True else scan_reasoning_end p rest)"

definition is_reasoning_end :: "reasoning_parser \<Rightarrow> int list \<Rightarrow> bool" where
  "is_reasoning_end p input_ids = scan_reasoning_end p (rev input_ids)"

definition is_reasoning_end_streaming :: "reasoning_parser \<Rightarrow> int list \<Rightarrow> int list \<Rightarrow> bool" where
  "is_reasoning_end_streaming p input_ids delta_ids \<longleftrightarrow> rp_end_token_id p \<in> set delta_ids"

text \<open>\<open>xs.index(x)\<close> for an \<open>x\<close> that is there.\<close>

definition index_of :: "'a \<Rightarrow> 'a list \<Rightarrow> nat" where
  "index_of x xs = length (takeWhile (\<lambda>y. y \<noteq> x) xs)"

definition extract_content_ids :: "reasoning_parser \<Rightarrow> int list \<Rightarrow> int list" where
  "extract_content_ids p input_ids =
     (if rp_end_token_id p \<notin> set (butlast input_ids) then []
      else drop (index_of (rp_end_token_id p) input_ids + 1) input_ids)"

fun count_between :: "reasoning_parser \<Rightarrow> nat \<Rightarrow> int list \<Rightarrow> nat" where
  "count_between p depth [] = 0"
| "count_between p depth (tid # rest) =
     (if tid = rp_start_token_id p then count_between p (Suc depth) rest
      else if tid = rp_end_token_id p then count_between p (depth - 1) rest
      else (if 0 < depth then 1 else 0) + count_between p depth rest)"

definition base_count_reasoning_tokens :: "reasoning_parser \<Rightarrow> int list \<Rightarrow> nat" where
  "base_count_reasoning_tokens p token_ids = count_between p 0 token_ids"

definition count_reasoning_tokens :: "reasoning_parser \<Rightarrow> int list \<Rightarrow> nat" where
  "count_reasoning_tokens p token_ids =
     (if rp_start_token_id p \<in> set token_ids then base_count_reasoning_tokens p token_ids
      else if rp_end_token_id p \<in> set token_ids then index_of (rp_end_token_id p) token_ids
      else if rp_thinking_enabled p then length token_ids else 0)"

section \<open>A whole text\<close>

definition strip_start :: "reasoning_parser \<Rightarrow> string \<Rightarrow> string" where
  "strip_start p model_output = (case py_partition model_output (rp_start_token p) of
     (before, sep, behind) \<Rightarrow> if sep \<noteq> [] then behind else before)"

definition base_extract_reasoning :: "reasoning_parser \<Rightarrow> string \<Rightarrow> string option \<times> string option" where
  "base_extract_reasoning p model_output =
     (let out = strip_start p model_output
      in if \<not> py_in (rp_end_token p) out then (Some out, None)
         else case py_partition out (rp_end_token p) of (reasoning, _, content) \<Rightarrow>
           (Some reasoning, or_none content))"

definition extract_reasoning :: "reasoning_parser \<Rightarrow> string \<Rightarrow> string option \<times> string option" where
  "extract_reasoning p model_output =
     (let out = strip_start p model_output
      in if \<not> rp_thinking_enabled p then
           (if py_in (rp_end_token p) out
            then (case py_partition out (rp_end_token p) of (_, _, content) \<Rightarrow> (None, Some content))
            else (None, Some out))
         else if \<not> py_in (rp_end_token p) out then (Some out, None)
         else case py_partition out (rp_end_token p) of (reasoning, _, content) \<Rightarrow>
           (Some reasoning, or_none content))"

section \<open>A stream\<close>

definition base_extract_reasoning_streaming :: "reasoning_parser \<Rightarrow> string \<Rightarrow> int list \<Rightarrow> int list
    \<Rightarrow> delta_message option" where
  "base_extract_reasoning_streaming p delta_text previous_token_ids delta_token_ids =
     (let start_in_prev = rp_start_token_id p \<in> set previous_token_ids;
          start_in_delta = rp_start_token_id p \<in> set delta_token_ids;
          end_in_prev = rp_end_token_id p \<in> set previous_token_ids;
          end_in_delta = rp_end_token_id p \<in> set delta_token_ids;
          start_idx = py_find delta_text (rp_start_token p);
          end_idx = py_find delta_text (rp_end_token p);
          len_start = int (length (rp_start_token p));
          len_end = int (length (rp_end_token p))
      in if length delta_token_ids = 1 \<and> hd delta_token_ids \<in> {rp_start_token_id p, rp_end_token_id p} then None
         else if start_in_prev then
           (if end_in_delta then
              Some \<lparr>dm_reasoning_content = or_none (if 0 \<le> end_idx then py_slice delta_text None (Some end_idx) else []),
                dm_content = (if 0 \<le> end_idx then or_none (py_slice delta_text (Some (end_idx + len_end)) None) else None)\<rparr>
            else if end_in_prev then Some \<lparr>dm_reasoning_content = None, dm_content = Some delta_text\<rparr>
            else Some \<lparr>dm_reasoning_content = Some delta_text, dm_content = None\<rparr>)
         else if start_in_delta then
           (if end_in_delta then
              Some \<lparr>dm_reasoning_content = or_none (py_slice delta_text (Some (start_idx + len_start)) (Some end_idx)),
                dm_content = or_none (py_slice delta_text (Some (end_idx + len_end)) None)\<rparr>
            else Some \<lparr>dm_reasoning_content = Some delta_text, dm_content = None\<rparr>)
         else Some \<lparr>dm_reasoning_content = None, dm_content = Some delta_text\<rparr>)"

definition extract_reasoning_streaming :: "reasoning_parser \<Rightarrow> string \<Rightarrow> int list \<Rightarrow> int list
    \<Rightarrow> delta_message option" where
  "extract_reasoning_streaming p delta_text previous_token_ids delta_token_ids =
     (if \<not> rp_thinking_enabled p then
        (if delta_text \<noteq> [] then Some \<lparr>dm_reasoning_content = None, dm_content = Some delta_text\<rparr> else None)
      else
        let start_idx = py_find delta_text (rp_start_token p);
            delta_text = (if rp_start_token_id p \<in> set delta_token_ids \<and> 0 \<le> start_idx
              then py_slice delta_text (Some (start_idx + int (length (rp_start_token p)))) None else delta_text);
            end_idx = py_find delta_text (rp_end_token p)
        in if rp_end_token_id p \<in> set delta_token_ids then
             (if 0 \<le> end_idx then
                let reasoning = py_slice delta_text None (Some end_idx);
                    content = py_slice delta_text (Some (end_idx + int (length (rp_end_token p)))) None
                in if reasoning = [] \<and> content = [] then None
                   else Some \<lparr>dm_reasoning_content = or_none reasoning, dm_content = or_none content\<rparr>
              else None)
           else if delta_text = [] then None
           else if rp_end_token_id p \<in> set previous_token_ids
           then Some \<lparr>dm_reasoning_content = None, dm_content = Some delta_text\<rparr>
           else Some \<lparr>dm_reasoning_content = Some delta_text, dm_content = None\<rparr>)"

section \<open>The registry\<close>

text \<open>
  A class is a value of the type variable; \<open>is_parser\<close> is \<open>issubclass(cls, ReasoningParser)\<close>, and
  \<open>load\<close> imports a module and looks up a class in it.
\<close>

record 'c parser_manager =
  pm_parsers :: "(string, 'c) dict"
  pm_lazy :: "(string, string \<times> string) dict"

definition register_module :: "('c \<Rightarrow> bool) \<Rightarrow> string \<Rightarrow> 'c \<Rightarrow> ('c parser_manager, unit) py" where
  "register_module is_parser name parser_cls =
     andthen (guard TypeError (is_parser parser_cls))
       (modify (\<lambda>m. m\<lparr>pm_parsers := AList.update name parser_cls (pm_parsers m)\<rparr>))"

definition register_lazy :: "string \<Rightarrow> string \<Rightarrow> string \<Rightarrow> ('c parser_manager, unit) py" where
  "register_lazy name module_path class_name =
     modify (\<lambda>m. m\<lparr>pm_lazy := AList.update name (module_path, class_name) (pm_lazy m)\<rparr>)"

definition get_reasoning_parser :: "(string \<Rightarrow> string \<Rightarrow> exn + 'c) \<Rightarrow> string \<Rightarrow> ('c parser_manager, 'c) py" where
  "get_reasoning_parser load name =
     bind (gets (\<lambda>m. (map_of (pm_parsers m) name, map_of (pm_lazy m) name))) (\<lambda>found. case found of
       (Some parser_cls, _) \<Rightarrow> return parser_cls
     | (None, Some (module_path, class_name)) \<Rightarrow> (case load module_path class_name of
         Inl e \<Rightarrow> raise e
       | Inr parser_cls \<Rightarrow>
           andthen (modify (\<lambda>m. m\<lparr>pm_parsers := AList.update name parser_cls (pm_parsers m)\<rparr>))
             (return parser_cls))
     | (None, None) \<Rightarrow> raise KeyError)"

definition list_registered :: "'c parser_manager \<Rightarrow> string list" where
  "list_registered m = sort (remdups (map fst (pm_parsers m) @ map fst (pm_lazy m)))"

section \<open>A stream against the whole text\<close>

text \<open>The messages of a stream, and the text that a client collects from one field of them.\<close>

fun stream_messages :: "reasoning_parser \<Rightarrow> int list \<Rightarrow> (string \<times> int list) list \<Rightarrow> delta_message list" where
  "stream_messages p previous_token_ids [] = []"
| "stream_messages p previous_token_ids ((delta_text, delta_token_ids) # ds) =
     (case extract_reasoning_streaming p delta_text previous_token_ids delta_token_ids of
        None \<Rightarrow> [] | Some m \<Rightarrow> [m]) @ stream_messages p (previous_token_ids @ delta_token_ids) ds"

definition text_of :: "string option \<Rightarrow> string" where
  "text_of x = (case x of None \<Rightarrow> [] | Some t \<Rightarrow> t)"

definition collect :: "(delta_message \<Rightarrow> string option) \<Rightarrow> delta_message list \<Rightarrow> string" where
  "collect field ms = concat (map (text_of \<circ> field) ms)"

text \<open>
  What the detokenizer guarantees for the tags, which are single tokens of the vocabulary: the end tag
  is part of the text of the delta that brings its id, whole, and it is in the output nowhere before.
  The start tag is in the prompt, not in the output.
\<close>

definition before_end :: "reasoning_parser \<Rightarrow> (string \<times> int list) list \<Rightarrow> (string \<times> int list) list" where
  "before_end p ds = takeWhile (\<lambda>d. rp_end_token_id p \<notin> set (snd d)) ds"

definition tags_aligned :: "reasoning_parser \<Rightarrow> (string \<times> int list) list \<Rightarrow> bool" where
  "tags_aligned p ds \<longleftrightarrow>
     list_all (\<lambda>d. rp_start_token_id p \<notin> set (snd d)) ds \<and>
     \<not> py_in (rp_start_token p) (concat (map fst ds)) \<and>
     (case drop (length (before_end p ds)) ds of
        [] \<Rightarrow> \<not> py_in (rp_end_token p) (concat (map fst ds))
      | (delta_text, _) # behind \<Rightarrow>
          list_all (\<lambda>d. rp_end_token_id p \<notin> set (snd d)) behind \<and>
          (case sub_index (rp_end_token p) delta_text of None \<Rightarrow> False
           | Some i \<Rightarrow> sub_index (rp_end_token p) (concat (map fst ds)) =
               Some (length (concat (map fst (before_end p ds))) + i)))"

lemma collect_simps [simp]:
  "collect f [] = []" "collect f (m # ms) = text_of (f m) @ collect f ms" "collect f (ms @ ns) = collect f ms @ collect f ns"
  by (simp_all add: collect_def)

lemma text_of_simps [simp]: "text_of None = []" "text_of (Some t) = t" "text_of (or_none t) = t"
  by (simp_all add: text_of_def or_none_def)

lemma stream_append:
  "stream_messages p prev (ds @ es) = stream_messages p prev ds @ stream_messages p (prev @ concat (map snd ds)) es"
  by (induction p prev ds rule: stream_messages.induct) simp_all

lemma streaming_plain:
  assumes "rp_thinking_enabled p" "rp_start_token_id p \<notin> set ids" "rp_end_token_id p \<notin> set ids"
  shows "extract_reasoning_streaming p t prev ids = (if t = [] then None
    else if rp_end_token_id p \<in> set prev then Some \<lparr>dm_reasoning_content = None, dm_content = Some t\<rparr>
    else Some \<lparr>dm_reasoning_content = Some t, dm_content = None\<rparr>)"
  using assms by (simp add: extract_reasoning_streaming_def)

lemma stream_without_tags:
  assumes "rp_thinking_enabled p" "list_all (\<lambda>d. rp_start_token_id p \<notin> set (snd d)) ds"
    and "list_all (\<lambda>d. rp_end_token_id p \<notin> set (snd d)) ds"
  shows "collect dm_reasoning_content (stream_messages p prev ds) =
      (if rp_end_token_id p \<in> set prev then [] else concat (map fst ds))" (is ?reasoning)
    and "collect dm_content (stream_messages p prev ds) =
      (if rp_end_token_id p \<in> set prev then concat (map fst ds) else [])" (is ?content)
proof -
  have "?reasoning \<and> ?content"
    using assms(2,3)
  proof (induction ds arbitrary: prev)
    case (Cons d ds)
    obtain t ids where d: "d = (t, ids)" by (cases d)
    have n: "rp_start_token_id p \<notin> set ids" "rp_end_token_id p \<notin> set ids" using Cons.prems d by simp_all
    then have "rp_end_token_id p \<in> set (prev @ ids) \<longleftrightarrow> rp_end_token_id p \<in> set prev" by simp
    then show ?case
      using Cons.IH [of "prev @ ids"] Cons.prems streaming_plain [OF assms(1) n, of t prev] d
      by (cases "t = []"; cases "rp_end_token_id p \<in> set prev") simp_all
  qed simp
  then show ?reasoning ?content by blast+
qed

lemma stream_end_tag:
  assumes "rp_thinking_enabled p" "rp_start_token_id p \<notin> set ids" "rp_end_token_id p \<in> set ids"
    and "sub_index (rp_end_token p) t = Some i"
  shows "collect dm_reasoning_content (stream_messages p prev [(t, ids)]) = take i t"
    and "collect dm_content (stream_messages p prev [(t, ids)]) = drop (i + length (rp_end_token p)) t"
proof -
  let ?x = "take i t" and ?y = "drop (i + length (rp_end_token p)) t"
  have rest: "py_slice t (Some (int i + int (length (rp_end_token p)))) None = ?y"
    using slice_from [of t "i + length (rp_end_token p)"] by simp
  then have "extract_reasoning_streaming p t prev ids = (if ?x = [] \<and> ?y = [] then None
      else Some \<lparr>dm_reasoning_content = or_none ?x, dm_content = or_none ?y\<rparr>)"
    using assms(1-3) py_find_Some [OF assms(4)]
    by (simp add: extract_reasoning_streaming_def rest)
  then show "collect dm_reasoning_content (stream_messages p prev [(t, ids)]) = ?x"
    "collect dm_content (stream_messages p prev [(t, ids)]) = ?y" by auto
qed

lemma strip_start_absent: "\<not> py_in (rp_start_token p) out \<Longrightarrow> strip_start p out = out"
  by (simp add: strip_start_def py_partition_def py_in_def)

lemma aligned_stream_matches_batch:
  assumes "rp_thinking_enabled p" "tags_aligned p ds"
  shows "collect dm_reasoning_content (stream_messages p [] ds) = text_of (fst (extract_reasoning p (concat (map fst ds)))) \<and>
    collect dm_content (stream_messages p [] ds) = text_of (snd (extract_reasoning p (concat (map fst ds))))"
proof -
  let ?full = "concat (map fst ds)" and ?pre = "before_end p ds"
  note a = assms(2) [unfolded tags_aligned_def]
  have start: "list_all (\<lambda>d. rp_start_token_id p \<notin> set (snd d)) ds" and strip: "strip_start p ?full = ?full"
    using a strip_start_absent by blast+
  have ends: "list_all (\<lambda>d. rp_end_token_id p \<notin> set (snd d)) ?pre"
    using set_takeWhileD by (fastforce simp: before_end_def list_all_iff)
  have split: "ds = ?pre @ drop (length ?pre) ds" by (simp add: before_end_def flip: dropWhile_eq_drop)
  have starts: "list_all (\<lambda>d. rp_start_token_id p \<notin> set (snd d)) ?pre"
    using start by (metis split list_all_append)
  show ?thesis
  proof (cases "drop (length ?pre) ds")
    case Nil
    then have "ds = ?pre" "\<not> py_in (rp_end_token p) ?full" using split a by auto
    then show ?thesis
      using stream_without_tags [OF assms(1) starts ends, of "[]"] strip assms(1) by (simp add: extract_reasoning_def)
  next
    case (Cons d behind)
    obtain t ids where d: "d = (t, ids)" by (cases d)
    obtain i where i: "sub_index (rp_end_token p) t = Some i"
        "sub_index (rp_end_token p) ?full = Some (length (concat (map fst ?pre)) + i)"
      using a Cons d by (auto split: option.splits)
    have ds: "ds = ?pre @ [(t, ids)] @ behind" using split Cons d by simp
    have "\<not> (\<lambda>d. rp_end_token_id p \<notin> set (snd d)) d"
      using Cons nth_length_takeWhile [of "\<lambda>d. rp_end_token_id p \<notin> set (snd d)" ds]
      by (metis before_end_def drop_eq_Nil linorder_not_le list.distinct(1) nth_via_drop)
    then have e: "rp_end_token_id p \<in> set ids" "rp_start_token_id p \<notin> set ids"
      "list_all (\<lambda>d. rp_end_token_id p \<notin> set (snd d)) behind" "list_all (\<lambda>d. rp_start_token_id p \<notin> set (snd d)) behind"
    proof -
      have "set ((t, ids) # behind) \<subseteq> set ds" using ds by (metis append.assoc append_Cons append_Nil set_append Un_upper2)
      then show "rp_start_token_id p \<notin> set ids" "list_all (\<lambda>d. rp_start_token_id p \<notin> set (snd d)) behind"
        using start unfolding list_all_iff by fastforce+
    qed (use a Cons d in auto)
    let ?run = "stream_messages p [] (?pre @ [(t, ids)] @ behind)"
    have "collect dm_reasoning_content ?run = concat (map fst ?pre) @ take i t"
      and "collect dm_content ?run = drop (i + length (rp_end_token p)) t @ concat (map fst behind)"
      unfolding stream_append collect_simps stream_without_tags [OF assms(1) starts ends]
        stream_end_tag [OF assms(1) e(2,1) i(1)] stream_without_tags [OF assms(1) e(4,3)]
      using e(1) ends by (auto simp: list_all_iff)
    moreover have "i + length (rp_end_token p) \<le> length t"
      by (rule sub_index_bound [OF i(1)])
    moreover have "?full = concat (map fst ?pre) @ t @ concat (map fst behind)"
      by (metis ds append_Cons append_Nil concat.simps(2) concat_append fst_conv list.map(2) map_append)
    ultimately show ?thesis
      using i(2) strip assms(1) ds
      by (simp add: extract_reasoning_def py_in_def py_partition_def)
  qed
qed

text \<open>
  The older templates: the output opens with the start tag, which the first delta brings. Of what came before, only
  the end tag matters to the stream.
\<close>

definition opens_with_start :: "reasoning_parser \<Rightarrow> (string \<times> int list) list \<Rightarrow> bool" where
  "opens_with_start p ds = (case ds of [] \<Rightarrow> False | (t, ids) # rest \<Rightarrow>
     take (length (rp_start_token p)) t = rp_start_token p \<and> ids \<noteq> [] \<and> hd ids = rp_start_token_id p \<and>
     rp_start_token_id p \<noteq> rp_end_token_id p \<and>
     tags_aligned p ((drop (length (rp_start_token p)) t, tl ids) # rest))"

text \<open>The outputs that both parsers are made for; without thinking those without a tag.\<close>

definition parsable :: "reasoning_parser \<Rightarrow> (string \<times> int list) list \<Rightarrow> bool" where
  "parsable p ds = (if rp_thinking_enabled p then tags_aligned p ds \<or> opens_with_start p ds
     else \<not> py_in (rp_start_token p) (concat (map fst ds)) \<and> \<not> py_in (rp_end_token p) (concat (map fst ds)))"

lemma stream_previous_ids:
  "(rp_end_token_id p \<in> set prev \<longleftrightarrow> rp_end_token_id p \<in> set prev') \<Longrightarrow> stream_messages p prev ds = stream_messages p prev' ds"
proof (induction ds arbitrary: prev prev')
  case (Cons d ds)
  obtain t ids where d: "d = (t, ids)" by (cases d)
  have "extract_reasoning_streaming p t prev ids = extract_reasoning_streaming p t prev' ids"
    using Cons.prems by (cases "rp_end_token_id p \<in> set prev") (simp_all add: extract_reasoning_streaming_def Let_def)
  moreover have "stream_messages p (prev @ ids) ds = stream_messages p (prev' @ ids) ds"
    using Cons.prems by (intro Cons.IH) simp
  ultimately show ?case by (simp add: d)
qed simp

lemma sub_index_front: "sub_index xs (xs @ ys) = Some 0"
  by (cases "xs @ ys") (simp_all, metis prefixI)

lemma streaming_start_tag:
  assumes "rp_start_token_id p \<notin> set ids" "rp_start_token_id p \<noteq> rp_end_token_id p" "rp_thinking_enabled p"
  shows "extract_reasoning_streaming p (rp_start_token p @ t) prev (rp_start_token_id p # ids) =
    extract_reasoning_streaming p t prev ids"
proof -
  have "py_slice (rp_start_token p @ t) (Some (int (length (rp_start_token p)))) None = t"
    using slice_from [of "rp_start_token p @ t" "length (rp_start_token p)"] by simp
  then show ?thesis
    using assms py_find_Some [OF sub_index_front [of "rp_start_token p" t]]
    by (simp add: extract_reasoning_streaming_def)
qed

lemma extract_strips_start:
  assumes "\<not> py_in (rp_start_token p) out"
  shows "extract_reasoning p (rp_start_token p @ out) = extract_reasoning p out"
proof -
  have "rp_start_token p \<noteq> []" using assms sub_index_front [of "[]" out] by (auto simp: py_in_def)
  then have "strip_start p (rp_start_token p @ out) = out"
    using sub_index_front [of "rp_start_token p" out]
    by (simp add: strip_start_def py_partition_def)
  then show ?thesis using strip_start_absent [OF assms] by (simp add: extract_reasoning_def)
qed

lemma opened_stream_matches_batch:
  assumes "rp_thinking_enabled p" "opens_with_start p ds"
  shows "collect dm_reasoning_content (stream_messages p [] ds) = text_of (fst (extract_reasoning p (concat (map fst ds)))) \<and>
    collect dm_content (stream_messages p [] ds) = text_of (snd (extract_reasoning p (concat (map fst ds))))"
proof -
  obtain t ids rest where ds: "ds = (rp_start_token p @ t, rp_start_token_id p # ids) # rest"
    and ne: "rp_start_token_id p \<noteq> rp_end_token_id p" and al: "tags_aligned p ((t, ids) # rest)"
  proof -
    obtain t0 ids0 rest where "ds = (t0, ids0) # rest" using assms(2) by (cases ds) (auto simp: opens_with_start_def)
    moreover from this have "take (length (rp_start_token p)) t0 = rp_start_token p" "ids0 \<noteq> []"
      "hd ids0 = rp_start_token_id p"
      using assms(2) by (simp_all add: opens_with_start_def)
    moreover from this have "t0 = rp_start_token p @ drop (length (rp_start_token p)) t0" "ids0 = rp_start_token_id p # tl ids0"
      by (metis append_take_drop_id, metis list.collapse)
    ultimately show thesis
      using assms(2) that [of "drop (length (rp_start_token p)) t0" "tl ids0" rest] by (simp add: opens_with_start_def)
  qed
  have start: "rp_start_token_id p \<notin> set ids" "\<not> py_in (rp_start_token p) (concat (map fst ((t, ids) # rest)))"
    using al by (simp_all add: tags_aligned_def)
  have "stream_messages p [] ds = stream_messages p [] ((t, ids) # rest)"
    using streaming_start_tag [OF start(1) ne assms(1)] ne
      stream_previous_ids [of p "rp_start_token_id p # ids" ids rest] by (simp add: ds)
  moreover have "extract_reasoning p (concat (map fst ds)) = extract_reasoning p (concat (map fst ((t, ids) # rest)))"
    using extract_strips_start [OF start(2)] by (simp add: ds)
  ultimately show ?thesis using aligned_stream_matches_batch [OF assms(1) al] by simp
qed

lemma plain_stream:
  assumes "\<not> rp_thinking_enabled p"
  shows "collect dm_reasoning_content (stream_messages p prev ds) = [] \<and>
    collect dm_content (stream_messages p prev ds) = concat (map fst ds)"
  using assms
  by (induction p prev ds rule: stream_messages.induct) (simp_all add: extract_reasoning_streaming_def)

section \<open>Properties\<close>

text \<open>
  C28: streaming and whole-text parsing agree in both styles of template. Let thinking be enabled and let the output
  contain the start tag and its token not at all, or, in the older style, exactly once, whole at the beginning of the
  first delta and with its token (another one than the end token) first; and let the end tag arrive whole with its token and at most
  once. Then, however the output is cut into
  deltas, the reasoning and the content that a client collects from the stream are those that the parser extracts
  from the whole output, also when the output stops before the end tag. With thinking disabled they agree on outputs
  without a tag. Both restrictions are needed: a start tag in the middle of the output, a second end tag, and an end tag
  with thinking disabled give different results.
\<close>

theorem streamed_reasoning_matches_batch:
  assumes "parsable p ds"
  shows "collect dm_reasoning_content (stream_messages p [] ds) = text_of (fst (extract_reasoning p (concat (map fst ds)))) \<and>
    collect dm_content (stream_messages p [] ds) = text_of (snd (extract_reasoning p (concat (map fst ds))))"
proof (cases "rp_thinking_enabled p")
  case True
  then show ?thesis
    using assms aligned_stream_matches_batch opened_stream_matches_batch by (auto simp: parsable_def)
next
  case False
  then have "extract_reasoning p (concat (map fst ds)) = (None, Some (concat (map fst ds)))"
    using assms strip_start_absent by (simp add: parsable_def extract_reasoning_def)
  then show ?thesis using plain_stream [OF False] by simp
qed

definition example_parser :: reasoning_parser where
  "example_parser = (case qwen3_parser (Some [(''<think>'', 1), (''</think>'', 2)]) None of Inr p \<Rightarrow> p)"

lemma streamed_reasoning_matches_batch_witness:
  "collect dm_content (stream_messages example_parser [] [(''a'', [5]), (''b</think>c'', [6, 2, 7]), (''d'', [8])]) = ''cd'' \<and>
   collect dm_reasoning_content (stream_messages example_parser [] [(''<think>'', [1]), (''a</think>c'', [5, 2, 7])]) = ''a''"
proof -
  let ?ds = "[(''a'', [5]), (''b</think>c'', [6, 2, 7]), (''d'', [8])] :: (string \<times> int list) list"
  let ?es = "[(''<think>'', [1]), (''a</think>c'', [5, 2, 7])] :: (string \<times> int list) list"
  have h: "parsable example_parser ?ds" "parsable example_parser ?es" by code_simp+
  have e: "extract_reasoning example_parser (concat (map fst ?ds)) = (Some ''ab'', Some ''cd'')"
    "extract_reasoning example_parser (concat (map fst ?es)) = (Some ''a'', Some ''c'')" by code_simp+
  show ?thesis
    using streamed_reasoning_matches_batch [OF h(1), unfolded e] streamed_reasoning_matches_batch [OF h(2), unfolded e]
    by (simp only: text_of_simps fst_conv snd_conv)
qed

text \<open>
  A start tag in the middle: the whole-text parser drops the text before it, the stream has sent it. With thinking
  disabled the whole-text parser drops what precedes an end tag, and the stream sends everything.
\<close>

lemma late_start_tag_differs:
  "extract_reasoning example_parser ''x<think>a</think>b'' = (Some ''a'', Some ''b'') \<and>
   collect dm_reasoning_content (stream_messages example_parser [] [(''x'', [5]), (''<think>'', [1]), (''a</think>b'', [6, 2, 7])]) = ''xa''"
  by code_simp

lemma disabled_thinking_differs:
  "let p = example_parser\<lparr>rp_thinking_enabled := False\<rparr> in
   extract_reasoning p ''a</think>b'' = (None, Some ''b'') \<and>
   collect dm_content (stream_messages p [] [(''a</think>b'', [5, 2, 6])]) = ''a</think>b''"
  by code_simp

text \<open>
  A second end tag splits the stream again. The whole-text parser cuts at the first end tag and
  leaves the rest alone, but the streaming parser looks for a tag in every delta, whether or not the
  reasoning has ended: here \<open>bc\<close> up to a second tag is content of the whole text, while the stream
  reports \<open>c\<close> as reasoning and drops the tag.
\<close>

lemma second_end_tag_splits_again:
  "extract_reasoning example_parser ''a</think>bc</think>d'' = (Some ''a'', Some ''bc</think>d'') \<and>
   collect dm_reasoning_content (stream_messages example_parser [] [(''a</think>b'', [5, 2, 6]), (''c</think>d'', [7, 2, 8])]) = ''ac'' \<and>
   collect dm_content (stream_messages example_parser [] [(''a</think>b'', [5, 2, 6]), (''c</think>d'', [7, 2, 8])]) = ''bd''"
  by code_simp

text \<open>The ids: what is counted as reasoning, the end tag and the content ids are the whole output.\<close>

lemma index_of_bound: "x \<in> set xs \<Longrightarrow> index_of x xs < length xs"
  unfolding index_of_def by (induction xs) auto

lemma reasoning_and_content_ids:
  assumes "rp_start_token_id p \<notin> set ids" "rp_end_token_id p \<in> set (butlast ids)"
  shows "count_reasoning_tokens p ids + 1 + length (extract_content_ids p ids) = length ids"
proof -
  have e: "rp_end_token_id p \<in> set ids" using assms(2) by (rule in_set_butlastD)
  then show ?thesis
    using assms index_of_bound [OF e] by (simp add: count_reasoning_tokens_def extract_content_ids_def)
qed

lemma count_between_bound: "count_between p depth ids \<le> length ids"
  by (induction p depth ids rule: count_between.induct) auto

lemma count_reasoning_bound: "count_reasoning_tokens p ids \<le> length ids"
  using index_of_bound [of "rp_end_token_id p" ids] count_between_bound [of p 0 ids]
  by (auto simp: count_reasoning_tokens_def base_count_reasoning_tokens_def)

end
