(* ===== verification/CacheNamespace.thy ===== *)
theory CacheNamespace
  imports PrefixHash "HOL-Library.Char_ord" "HOL-Library.List_Lexorder"
begin

text \<open>
  The cache namespaces of \<^verbatim>\<open>vllm/core/block_manager_v2.py\<close>: the bytes that go into the hash of the first
  block of a sequence, so that requests share cached blocks only if the model, the adapters and the
  multimodal input agree. \<open>sha\<close> is the digest, \<open>repr\<close> what Python's \<open>repr\<close> prints for a key.
\<close>

section \<open>Numbers and strings as bytes\<close>

text \<open>\<open>str(n)\<close> and \<open>int(s)\<close>; the strings have code points below 256, as in the prelude.\<close>

definition digit :: "nat \<Rightarrow> char" where
  "digit d = char_of (48 + d)"

fun nat_digits :: "nat \<Rightarrow> string" where
  "nat_digits n = (if n < 10 then [digit n] else nat_digits (n div 10) @ [digit (n mod 10)])"

declare nat_digits.simps [simp del]

definition str_int :: "int \<Rightarrow> string" where
  "str_int i = (if i < 0 then CHR ''-'' # nat_digits (nat (- i)) else nat_digits (nat i))"

definition is_digit :: "char \<Rightarrow> bool" where
  "is_digit c \<longleftrightarrow> (let n = of_char c :: nat in 48 \<le> n \<and> n \<le> 57)"

text \<open>\<open>prev\<close>: the character before was a digit, so an underscore may follow or the string may end.\<close>

fun parse_digits :: "nat \<Rightarrow> bool \<Rightarrow> string \<Rightarrow> nat option" where
  "parse_digits acc prev [] = (if prev then Some acc else None)"
| "parse_digits acc prev (c # cs) =
     (if is_digit c then parse_digits (10 * acc + (of_char c - 48)) True cs
      else if c = CHR ''_'' \<and> prev then parse_digits acc False cs else None)"

definition py_int :: "string \<Rightarrow> exn + int" where
  "py_int s = (case (case py_strip s of
       [] \<Rightarrow> None
     | c # cs \<Rightarrow> if c = CHR ''-'' then map_option (\<lambda>n. - int n) (parse_digits 0 False cs)
         else map_option int (parse_digits 0 False (if c = CHR ''+'' then cs else c # cs))) of
     None \<Rightarrow> Inl ValueError | Some i \<Rightarrow> Inr i)"

text \<open>\<open>encode("utf-8")\<close>\<close>

definition utf8_char :: "char \<Rightarrow> bytes" where
  "utf8_char c = (let n = of_char c :: nat in
     if n < 128 then [word_of_nat n] else [word_of_nat (192 + n div 64), word_of_nat (128 + n mod 64)])"

definition utf8 :: "string \<Rightarrow> bytes" where
  "utf8 s = concat (map utf8_char s)"

text \<open>\<open>struct.pack("!Q", n)\<close> and the two halves of \<open>struct.pack("!II", m, n)\<close>.\<close>

definition big_endian :: "nat \<Rightarrow> nat \<Rightarrow> bytes" where
  "big_endian k n = map (\<lambda>i. word_of_nat (n div 256 ^ (k - 1 - i))) [0..<k]"

definition pack_uint :: "nat \<Rightarrow> nat \<Rightarrow> exn + bytes" where
  "pack_uint k n = echeck StructError (n < 256 ^ k) (Inr (big_endian k n))"

definition pack_len :: "bytes \<Rightarrow> exn + bytes" where
  "pack_len b = ebind (pack_uint 8 (length b)) (\<lambda>n. Inr (n @ b))"

section \<open>Multimodal input\<close>

text \<open>
  The values that \<open>_hash_multi_modal_obj\<close> distinguishes, tested in this order. A dict is the list of
  its items; a float is its bit pattern; of a tensor the shape, the name of the dtype and the raw bytes
  count, of an image what the code reads. Anything else is refused.
\<close>

datatype mm_value =
    MMNone
  | MMMap "(mm_value \<times> mm_value) list"
  | MMList "mm_value list"
  | MMTuple "mm_value list"
  | MMStr string
  | MMBytes bytes
  | MMBytearray bytes
  | MMBool bool
  | MMInt int
  | MMFloat "64 word"
  | MMTensor "nat list" string bytes
  | MMImage string nat nat bytes mm_value mm_value mm_value
  | MMOther

fun collect_bytes :: "(exn + bytes) list \<Rightarrow> exn + bytes" where
  "collect_bytes [] = Inr []"
| "collect_bytes (x # xs) = ebind x (\<lambda>b. ebind (collect_bytes xs) (\<lambda>bs. Inr (b @ bs)))"

definition map_entry :: "exn + bytes \<Rightarrow> exn + bytes \<Rightarrow> exn + bytes" where
  "map_entry k v = ebind k (\<lambda>k. ebind v (\<lambda>v. Inr (ascii ''k|'' @ k @ ascii ''v|'' @ v)))"

text \<open>The items of a dict are visited in the order of the \<open>repr\<close> of their keys.\<close>

definition by_key :: "(string \<times> 'a) list \<Rightarrow> 'a list" where
  "by_key xs = map snd (sort_key fst xs)"

fun hash_multi_modal_obj :: "(mm_value \<Rightarrow> string) \<Rightarrow> mm_value \<Rightarrow> exn + bytes" where
  "hash_multi_modal_obj repr MMNone = Inr (ascii ''none|'')"
| "hash_multi_modal_obj repr (MMMap items) =
     ebind (pack_uint 8 (length items)) (\<lambda>n.
     ebind (collect_bytes (by_key (map (\<lambda>(k, v).
         (repr k, map_entry (hash_multi_modal_obj repr k) (hash_multi_modal_obj repr v))) items))) (\<lambda>b.
     Inr (ascii ''map|'' @ n @ b)))"
| "hash_multi_modal_obj repr (MMList xs) =
     ebind (pack_uint 8 (length xs)) (\<lambda>n. ebind (collect_bytes (map (hash_multi_modal_obj repr) xs)) (\<lambda>b.
     Inr (ascii ''list|'' @ n @ b)))"
| "hash_multi_modal_obj repr (MMTuple xs) =
     ebind (pack_uint 8 (length xs)) (\<lambda>n. ebind (collect_bytes (map (hash_multi_modal_obj repr) xs)) (\<lambda>b.
     Inr (ascii ''tuple|'' @ n @ b)))"
| "hash_multi_modal_obj repr (MMStr s) = ebind (pack_len (utf8 s)) (\<lambda>b. Inr (ascii ''str|'' @ b))"
| "hash_multi_modal_obj repr (MMBytes x) = ebind (pack_len x) (\<lambda>b. Inr (ascii ''bytes|'' @ b))"
| "hash_multi_modal_obj repr (MMBytearray x) = ebind (pack_len x) (\<lambda>b. Inr (ascii ''bytes|'' @ b))"
| "hash_multi_modal_obj repr (MMBool v) = Inr (ascii ''bool|'' @ ascii (if v then ''1'' else ''0''))"
| "hash_multi_modal_obj repr (MMInt i) = Inr (ascii ''int|'' @ ascii (str_int i))"
| "hash_multi_modal_obj repr (MMFloat w) = Inr (ascii ''float|'' @ big_endian 8 (unat w))"
| "hash_multi_modal_obj repr (MMTensor shape dtype tensor_bytes) =
     ebind (pack_uint 8 (length shape)) (\<lambda>n. ebind (collect_bytes (map (pack_uint 8) shape)) (\<lambda>dims.
     ebind (pack_len tensor_bytes) (\<lambda>b. Inr (ascii ''tensor|'' @ n @ dims @ utf8 dtype @ b))))"
| "hash_multi_modal_obj repr (MMImage mode width height image_bytes palette_mode palette transparency) =
     ebind (pack_uint 4 width) (\<lambda>w. ebind (pack_uint 4 height) (\<lambda>h. ebind (pack_len image_bytes) (\<lambda>b.
     ebind (hash_multi_modal_obj repr palette_mode) (\<lambda>pm. ebind (hash_multi_modal_obj repr palette) (\<lambda>p.
     ebind (hash_multi_modal_obj repr transparency) (\<lambda>t.
     Inr (ascii ''image|'' @ utf8 mode @ w @ h @ b @ ascii ''palette-mode|'' @ pm @ ascii ''palette|'' @ p @
       ascii ''transparency|'' @ t)))))))"
| "hash_multi_modal_obj repr MMOther = Inl TypeError"

definition hash_multi_modal_namespace :: "(bytes \<Rightarrow> bytes) \<Rightarrow> (mm_value \<Rightarrow> string) \<Rightarrow> mm_value \<Rightarrow> exn + bytes" where
  "hash_multi_modal_namespace sha repr mm_data = ebind (hash_multi_modal_obj repr mm_data) (\<lambda>m. Inr (sha m))"

definition has_multi_modal_payload :: "mm_value option \<Rightarrow> bool" where
  "has_multi_modal_payload multi_modal_data = (case multi_modal_data of
     None \<Rightarrow> False | Some MMNone \<Rightarrow> False | Some (MMMap items) \<Rightarrow> items \<noteq> [] | Some _ \<Rightarrow> True)"

section \<open>The runtime, the adapters, the request\<close>

definition getenv :: "(string, string) dict \<Rightarrow> string \<Rightarrow> string \<Rightarrow> string" where
  "getenv os_environ name default_value = (case map_of os_environ name of None \<Rightarrow> default_value | Some v \<Rightarrow> v)"

definition labelled :: "string \<Rightarrow> string \<Rightarrow> exn + bytes" where
  "labelled label value = ebind (pack_len (utf8 value)) (\<lambda>b. Inr (ascii label @ b))"

definition build_runtime_cache_namespace :: "(bytes \<Rightarrow> bytes) \<Rightarrow> (string, string) dict \<Rightarrow> int \<Rightarrow> exn + bytes" where
  "build_runtime_cache_namespace sha os_environ block_size =
     (case py_int (getenv os_environ ''BI100_PREFIX_TP_SIZE'' ''4'') of
        Inl _ \<Rightarrow> Inl RuntimeError
      | Inr tp_size \<Rightarrow> echeck RuntimeError (0 < tp_size)
          (ebind (collect_bytes
            [labelled ''model'' (getenv os_environ ''BI100_PREFIX_MODEL_FINGERPRINT'' ''Qwen3.6-35B-A3B''),
             labelled ''dtype'' (getenv os_environ ''BI100_PREFIX_DTYPE'' ''float16''),
             labelled ''tp'' (str_int tp_size), labelled ''block_size'' (str_int block_size)]) (\<lambda>b.
           Inr (sha (ascii ''bi100-runtime-prefix-identity-v1|'' @ b)))))"

text \<open>An adapter request is the function that gives \<open>str(getattr(adapter, field, ""))\<close>.\<close>

type_synonym adapter = "string \<Rightarrow> string"

definition lora_fields :: "string list" where
  "lora_fields = [''lora_name'', ''lora_int_id'', ''lora_path'', ''base_model_name'']"

definition prompt_fields :: "string list" where
  "prompt_fields = [''prompt_adapter_name'', ''prompt_adapter_id'', ''prompt_adapter_local_path'',
     ''prompt_adapter_num_virtual_tokens'']"

definition adapter_bytes :: "string \<Rightarrow> adapter option \<Rightarrow> string list \<Rightarrow> exn + bytes" where
  "adapter_bytes kind adapter attributes = (case adapter of
     None \<Rightarrow> Inr (ascii kind @ ascii ''none|'')
   | Some a \<Rightarrow> ebind (collect_bytes (map (\<lambda>field. labelled field (a field)) attributes)) (\<lambda>b. Inr (ascii kind @ b)))"

definition adapter_message :: "adapter option \<Rightarrow> adapter option \<Rightarrow> exn + bytes" where
  "adapter_message lora prompt_adapter =
     ebind (adapter_bytes ''lora'' lora lora_fields) (\<lambda>l.
     ebind (adapter_bytes ''prompt'' prompt_adapter prompt_fields) (\<lambda>p.
     Inr (ascii ''bi100-adapter-prefix-identity-v1|'' @ l @ p)))"

definition adapter_cache_namespace :: "(bytes \<Rightarrow> bytes) \<Rightarrow> adapter option \<Rightarrow> adapter option \<Rightarrow> exn + bytes" where
  "adapter_cache_namespace sha lora prompt_adapter = ebind (adapter_message lora prompt_adapter) (\<lambda>m. Inr (sha m))"

text \<open>
  What the block manager keeps for it. \<open>fresh\<close> are the 32 random bytes of \<open>os.urandom\<close>. The handler of
  \<open>_get_cache_namespace\<close> catches the exceptions that the encoder raises, all of them.
\<close>

record namespaces =
  ns_runtime :: bytes
  ns_request_local :: "(string, bytes) dict"
  ns_warned :: "string set"

definition request_local_fallback :: "(bytes \<Rightarrow> bytes) \<Rightarrow> bytes \<Rightarrow> string \<Rightarrow> (namespaces, bytes) py" where
  "request_local_fallback sha fresh request_id =
     bind (gets (\<lambda>n. map_of (ns_request_local n) request_id)) (\<lambda>found. case found of
       Some namespace \<Rightarrow> return namespace
     | None \<Rightarrow>
         bind (gets (\<lambda>n. sha (ascii ''multimodal-unsupported-request-local-v1|'' @ ns_runtime n @ fresh @ utf8 request_id)))
           (\<lambda>namespace.
         andthen (modify (\<lambda>n. n\<lparr>ns_request_local := AList.update request_id namespace (ns_request_local n)\<rparr>))
           (return namespace)))"

definition request_message :: "bytes \<Rightarrow> bytes \<Rightarrow> bytes option \<Rightarrow> bytes" where
  "request_message runtime adapters mm = ascii ''bi100-request-prefix-namespace-v1|'' @ runtime @ adapters @
     (case mm of None \<Rightarrow> ascii ''text|'' | Some ns \<Rightarrow> ascii ''mm|'' @ ns)"

definition get_cache_namespace :: "(bytes \<Rightarrow> bytes) \<Rightarrow> (mm_value \<Rightarrow> string) \<Rightarrow> bytes \<Rightarrow> mm_value option
    \<Rightarrow> string \<Rightarrow> adapter option \<Rightarrow> adapter option \<Rightarrow> (namespaces, bytes) py" where
  "get_cache_namespace sha repr fresh multi_modal_data request_id lora prompt_adapter =
     (case adapter_cache_namespace sha lora prompt_adapter of
        Inl e \<Rightarrow> raise e
      | Inr adapters \<Rightarrow>
          bind (if has_multi_modal_payload multi_modal_data then
                  (case hash_multi_modal_namespace sha repr (the multi_modal_data) of
                     Inr ns \<Rightarrow> return (Some ns)
                   | Inl _ \<Rightarrow>
                       andthen (modify (\<lambda>n. n\<lparr>ns_warned := insert request_id (ns_warned n)\<rparr>))
                         (bind (request_local_fallback sha fresh request_id) (\<lambda>ns. return (Some ns))))
                else return None) (\<lambda>mm.
          gets (\<lambda>n. sha (request_message (ns_runtime n) adapters mm))))"

definition release_request_cache_namespace :: "string \<Rightarrow> (namespaces, unit) py" where
  "release_request_cache_namespace request_id =
     modify (\<lambda>n. n\<lparr>ns_request_local := AList.delete request_id (ns_request_local n),
       ns_warned := ns_warned n - {request_id}\<rparr>)"

section \<open>The pieces can be told apart\<close>

lemma of_char_less [simp]: "(of_char c :: nat) < 256"
  using of_char_mod_256 [of c, where 'a = nat] by (metis mod_less_divisor zero_less_numeral)

lemma ascii_eq [simp]: "ascii s = ascii t \<longleftrightarrow> s = t"
proof -
  have "inj (\<lambda>c. word_of_nat (of_char c) :: 8 word)"
    by (rule injI) (simp add: word_of_nat_eq_iff take_bit_eq_mod)
  then show ?thesis by (simp add: ascii_def inj_map_eq_map)
qed

lemma ascii_append [simp]: "ascii (s @ t) = ascii s @ ascii t"
  by (simp add: ascii_def)

lemma ascii_Nil [simp]: "ascii [] = []" and ascii_Cons: "ascii (c # s) = word_of_nat (of_char c) # ascii s"
  by (simp_all add: ascii_def)

lemma length_ascii [simp]: "length (ascii s) = length s"
  by (simp add: ascii_def)

lemma same_length_append: "length a = length b \<Longrightarrow> a @ r = b @ r' \<longleftrightarrow> a = b \<and> r = r'"
  by simp

lemma big_endian_length [simp]: "length (big_endian k n) = k"
  by (simp add: big_endian_def)

lemma big_endian_inj:
  assumes "m < 256 ^ k" "n < 256 ^ k" "big_endian k m = big_endian k n"
  shows "m = n"
proof -
  have "int m div 256 ^ j mod 256 = int n div 256 ^ j mod 256" if j: "j < k" for j
  proof -
    have "big_endian k m ! (k - 1 - j) = big_endian k n ! (k - 1 - j)" using assms(3) by simp
    moreover have "k - 1 - j < k" "k - 1 - (k - 1 - j) = j" using j by auto
    ultimately have "(word_of_nat (m div 256 ^ j) :: 8 word) = word_of_nat (n div 256 ^ j)"
      by (simp add: big_endian_def)
    then have "m div 256 ^ j mod 256 = n div 256 ^ j mod 256"
      by (simp add: word_of_nat_eq_iff take_bit_eq_mod)
    then have "int (m div 256 ^ j mod 256) = int (n div 256 ^ j mod 256)" by simp
    then show ?thesis by (simp add: zdiv_int zmod_int)
  qed
  then have "int m mod 256 ^ k = int n mod 256 ^ k" using div_mod_256 [of k "int m" "int n"] by blast
  moreover have "int m < 256 ^ k" "int n < 256 ^ k" using assms(1,2) by (simp_all flip: of_nat_less_iff)
  ultimately show ?thesis by simp
qed

lemma pack_uint_split:
  assumes "pack_uint k m = Inr a" "pack_uint k n = Inr b" "a @ r = b @ r'"
  shows "m = n \<and> r = r'"
  using assms big_endian_inj [of m k n] by (auto simp: pack_uint_def)

lemma pack_len_split:
  assumes "pack_len a = Inr x" "pack_len b = Inr y" "x @ r = y @ r'"
  shows "a = b \<and> r = r'"
proof -
  obtain m n where "pack_uint 8 (length a) = Inr m" "x = m @ a" "pack_uint 8 (length b) = Inr n" "y = n @ b"
    using assms(1,2) by (auto simp: pack_len_def ebind_Inr_iff)
  with pack_uint_split [of 8 "length a" m "length b" n "a @ r" "b @ r'"] assms(3) show ?thesis by auto
qed

lemma unat_byte: "n < 256 \<Longrightarrow> unat (word_of_nat n :: 8 word) = n"
  by (simp add: unat_of_nat)

lemma byte_quotient: "(of_char c :: nat) div 64 < 4"
  using of_char_less [of c] by (intro less_mult_imp_div_less) simp

lemma byte_inj: "m < 256 \<Longrightarrow> n < 256 \<Longrightarrow> (word_of_nat m :: 8 word) = word_of_nat n \<longleftrightarrow> m = n"
  using unat_byte by metis

lemma utf8_char_split:
  assumes "utf8_char c @ x = utf8_char d @ y"
  shows "c = d \<and> x = y"
proof -
  let ?c = "of_char c :: nat" and ?d = "of_char d :: nat"
  define qc rc qd rd where q: "qc = ?c div 64" "rc = ?c mod 64" "qd = ?d div 64" "rd = ?d mod 64"
  have l: "?c < 256" "?d < 256" "qc < 4" "qd < 4" "rc < 64" "rd < 64" using byte_quotient by (simp_all add: q)
  have u: "utf8_char c = (if ?c < 128 then [word_of_nat ?c] else [word_of_nat (192 + qc), word_of_nat (128 + rc)])"
    "utf8_char d = (if ?d < 128 then [word_of_nat ?d] else [word_of_nat (192 + qd), word_of_nat (128 + rd)])"
    by (simp_all add: utf8_char_def Let_def q)
  have "?c = ?d \<and> x = y"
  proof (cases "?c < 128"; cases "?d < 128")
    assume "?c < 128" "?d < 128"
    then show ?thesis using assms u l by (simp add: byte_inj)
  next
    assume a: "?c < 128" "\<not> ?d < 128"
    then have "(word_of_nat ?c :: 8 word) = word_of_nat (192 + qd)" using assms u by (simp del: of_nat_add)
    then have "?c = 192 + qd" using l by (subst (asm) byte_inj) simp_all
    then show ?thesis using a by simp
  next
    assume a: "\<not> ?c < 128" "?d < 128"
    then have "(word_of_nat (192 + qc) :: 8 word) = word_of_nat ?d" using assms u by (simp del: of_nat_add)
    then have "192 + qc = ?d" using l by (subst (asm) byte_inj) simp_all
    then show ?thesis using a by simp
  next
    assume a: "\<not> ?c < 128" "\<not> ?d < 128"
    then have "(word_of_nat (192 + qc) :: 8 word) = word_of_nat (192 + qd)"
      "(word_of_nat (128 + rc) :: 8 word) = word_of_nat (128 + rd)" "x = y"
      using assms u by (simp_all del: of_nat_add)
    then have "192 + qc = 192 + qd" "128 + rc = 128 + rd" "x = y"
      using l by (simp_all add: byte_inj del: of_nat_add)
    then show ?thesis unfolding q by (metis add_left_cancel div_mult_mod_eq)
  qed
  then show ?thesis by (metis of_char_eq_iff)
qed

lemma utf8_eq [simp]: "utf8 s = utf8 t \<longleftrightarrow> s = t"
proof
  show "utf8 s = utf8 t \<Longrightarrow> s = t"
  proof (induction s arbitrary: t)
    case Nil
    then show ?case by (cases t) (auto simp: utf8_def utf8_char_def Let_def split: if_splits)
  next
    case (Cons c s)
    show ?case
    proof (cases t)
      case Nil
      then show ?thesis using Cons.prems by (auto simp: utf8_def utf8_char_def Let_def split: if_splits)
    next
      case c': (Cons d t')
      then show ?thesis
        using Cons utf8_char_split [of c "utf8 s" d "utf8 t'"] by (simp add: utf8_def)
    qed
  qed
qed simp

text \<open>A string without NUL in front of a zero byte.\<close>

definition no_nul :: "string \<Rightarrow> bool" where
  "no_nul s \<longleftrightarrow> list_all (\<lambda>c. c \<noteq> CHR 0x00) s"

lemma utf8_no_nul:
  assumes "no_nul s"
  shows "0 \<notin> set (utf8 s)"
proof -
  have "0 \<notin> set (utf8_char c)" if "c \<noteq> CHR 0x00" for c
  proof -
    have c: "(of_char c :: nat) \<noteq> 0"
    proof
      assume "(of_char c :: nat) = 0"
      then have "(of_char c :: nat) = of_char (CHR 0x00)" by simp
      with that show False by (simp only: of_char_eq_iff)
    qed
    have "(word_of_nat n :: 8 word) \<noteq> 0" if "0 < n" "n < 256" for n
      using unat_byte [OF that(2)] that(1) by (metis unat_0 less_irrefl)
    moreover have "128 + (of_char c :: nat) mod 64 < 256" "192 + (of_char c :: nat) div 64 < 256"
      using byte_quotient [of c] by simp_all
    ultimately show ?thesis using c by (simp add: utf8_char_def Let_def del: of_nat_add)
  qed
  then show ?thesis using assms by (auto simp: utf8_def no_nul_def list_all_iff)
qed

lemma until_zero: "0 \<notin> set a \<Longrightarrow> 0 \<notin> set b \<Longrightarrow> a @ 0 # x = b @ 0 # y \<Longrightarrow> a = b \<and> x = (y :: bytes)"
proof (induction a arbitrary: b)
  case Nil
  then show ?case by (cases b) auto
next
  case (Cons c a)
  then show ?case by (cases b) auto
qed

lemma utf8_split:
  assumes "no_nul s" "no_nul t" "utf8 s @ (0 # x) = utf8 t @ (0 # y)"
  shows "s = t \<and> x = y"
proof -
  have "utf8 s = utf8 t \<and> x = y" by (rule until_zero [OF utf8_no_nul [OF assms(1)] utf8_no_nul [OF assms(2)] assms(3)])
  then show ?thesis by simp
qed

lemma big_endian_zero: "n < 256 ^ k \<Longrightarrow> \<exists>b. big_endian (Suc k) n = 0 # b"
  by (simp add: big_endian_def upt_conv_Cons del: upt_Suc)

lemma pack_uint_zero:
  "n < 256 ^ 3 \<Longrightarrow> pack_uint 4 n = Inr a \<Longrightarrow> \<exists>b. a = 0 # b"
  "n < 256 ^ 7 \<Longrightarrow> pack_uint 8 n = Inr a \<Longrightarrow> \<exists>b. a = 0 # b"
  using big_endian_zero [of n 3] big_endian_zero [of n 7] by (auto simp: pack_uint_def)

subsection \<open>Decimal numbers\<close>

lemma of_char_digit: "d < 10 \<Longrightarrow> (of_char (digit d) :: nat) = 48 + d"
  by (simp add: digit_def)

lemma nat_digits_all: "list_all is_digit (nat_digits n) \<and> nat_digits n \<noteq> []"
proof (induction n rule: nat_digits.induct)
  case (1 n)
  have "is_digit (digit d)" if "d < 10" for d using of_char_digit [OF that] that by (simp add: is_digit_def)
  then show ?case using 1 by (cases "n < 10") (simp_all add: nat_digits.simps [of n])
qed

definition digits_value :: "string \<Rightarrow> nat" where
  "digits_value s = foldl (\<lambda>a c. 10 * a + (of_char c - 48)) 0 s"

lemma digits_value: "digits_value (nat_digits n) = n"
proof (induction n rule: nat_digits.induct)
  case (1 n)
  show ?case
  proof (cases "n < 10")
    case True
    then show ?thesis by (simp add: digits_value_def nat_digits.simps [of n] of_char_digit)
  next
    case False
    then show ?thesis using 1 by (simp add: digits_value_def nat_digits.simps [of n] of_char_digit)
  qed
qed

definition digit_byte :: "8 word \<Rightarrow> bool" where
  "digit_byte b \<longleftrightarrow> 48 \<le> unat b \<and> unat b \<le> 57"

text \<open>What may follow a number: nothing, or something that does not begin with a digit.\<close>

definition number_ends :: "bytes \<Rightarrow> bool" where
  "number_ends r \<longleftrightarrow> r = [] \<or> \<not> digit_byte (hd r)"

lemma ascii_digits: "list_all is_digit s \<Longrightarrow> list_all digit_byte (ascii s)"
  by (induction s) (auto simp: ascii_def is_digit_def digit_byte_def Let_def unat_byte)

lemma digits_split:
  assumes "list_all digit_byte a" "list_all digit_byte b" "number_ends r" "number_ends r'" "a @ r = b @ r'"
  shows "a = b \<and> r = r'"
proof -
  have "takeWhile digit_byte (a @ r) = a" "takeWhile digit_byte (b @ r') = b"
    using assms(1-4) by (cases r; cases r'; simp add: number_ends_def list_all_iff takeWhile_append2)+
  then show ?thesis using assms(5) by simp
qed

lemma str_int_split:
  assumes "number_ends r" "number_ends r'" "ascii (str_int i) @ r = ascii (str_int j) @ r'"
  shows "i = j \<and> r = r'"
proof -
  have d: "list_all digit_byte (ascii (nat_digits n))" "ascii (nat_digits n) \<noteq> []" for n
    using nat_digits_all [of n] ascii_digits by (auto simp: ascii_def)
  have minus: "\<not> digit_byte (hd (ascii (CHR ''-'' # s)))" for s by (simp add: ascii_Cons digit_byte_def)
  have first: "digit_byte (hd (ascii (nat_digits n) @ x))" for n x
    using d [of n] by (cases "ascii (nat_digits n)") auto
  have neg: "i < 0 \<longleftrightarrow> j < 0"
  proof -
    have "k < 0 \<longleftrightarrow> \<not> digit_byte (hd (ascii (str_int k) @ x))" for k x
      using minus [of "nat_digits (nat (- k))"] first [of "nat k" x] by (simp add: str_int_def ascii_Cons)
    then show ?thesis using assms(3) by metis
  qed
  have eq: "nat_digits m = nat_digits n \<Longrightarrow> m = n" for m n using digits_value by metis
  show ?thesis
  proof (cases "i < 0")
    case True
    then have "ascii (nat_digits (nat (- i))) @ r = ascii (nat_digits (nat (- j))) @ r'"
      using assms(3) neg by (simp add: str_int_def ascii_Cons)
    then have "nat_digits (nat (- i)) = nat_digits (nat (- j))" "r = r'"
      using digits_split [OF d(1) d(1) assms(1,2)] by simp_all
    then show ?thesis using eq True neg by force
  next
    case False
    then have "ascii (nat_digits (nat i)) @ r = ascii (nat_digits (nat j)) @ r'"
      using assms(3) neg by (simp add: str_int_def)
    then have "nat_digits (nat i) = nat_digits (nat j)" "r = r'"
      using digits_split [OF d(1) d(1) assms(1,2)] by simp_all
    then show ?thesis using eq False neg by force
  qed
qed

section \<open>The encoding of multimodal input\<close>

text \<open>
  What the encoding forgets: the order of the items of a dict, and that a bytearray is not bytes.
\<close>

fun mm_normal :: "(mm_value \<Rightarrow> string) \<Rightarrow> mm_value \<Rightarrow> mm_value" where
  "mm_normal repr (MMMap items) =
     MMMap (by_key (map (\<lambda>(k, v). (repr k, (mm_normal repr k, mm_normal repr v))) items))"
| "mm_normal repr (MMList xs) = MMList (map (mm_normal repr) xs)"
| "mm_normal repr (MMTuple xs) = MMTuple (map (mm_normal repr) xs)"
| "mm_normal repr (MMBytearray b) = MMBytes b"
| "mm_normal repr (MMImage mode w h b pm p t) = MMImage mode w h b (mm_normal repr pm) (mm_normal repr p) (mm_normal repr t)"
| "mm_normal repr v = v"

text \<open>
  The mode of an image and the dtype of a tensor carry no length; they are names without NUL, and the
  number that follows begins with a zero byte: an image is less than \<open>2^24\<close> pixels wide, and a
  tensor has less than \<open>2^56\<close> bytes.
\<close>

fun mm_ok :: "mm_value \<Rightarrow> bool" where
  "mm_ok (MMMap items) \<longleftrightarrow> list_all (\<lambda>(k, v). mm_ok k \<and> mm_ok v) items"
| "mm_ok (MMList xs) \<longleftrightarrow> list_all mm_ok xs"
| "mm_ok (MMTuple xs) \<longleftrightarrow> list_all mm_ok xs"
| "mm_ok (MMTensor shape dtype b) \<longleftrightarrow> no_nul dtype \<and> length b < 256 ^ 7"
| "mm_ok (MMImage mode w h b pm p t) \<longleftrightarrow> no_nul mode \<and> w < 256 ^ 3 \<and> mm_ok pm \<and> mm_ok p \<and> mm_ok t"
| "mm_ok v \<longleftrightarrow> True"

text \<open>The tag that an encoding begins with.\<close>

fun mm_tag :: "mm_value \<Rightarrow> string" where
  "mm_tag MMNone = ''none|''" | "mm_tag (MMMap _) = ''map|''" | "mm_tag (MMList _) = ''list|''"
| "mm_tag (MMTuple _) = ''tuple|''" | "mm_tag (MMStr _) = ''str|''" | "mm_tag (MMBytes _) = ''bytes|''"
| "mm_tag (MMBytearray _) = ''bytes|''" | "mm_tag (MMBool _) = ''bool|''" | "mm_tag (MMInt _) = ''int|''"
| "mm_tag (MMFloat _) = ''float|''" | "mm_tag (MMTensor _ _ _) = ''tensor|''"
| "mm_tag (MMImage _ _ _ _ _ _ _) = ''image|''" | "mm_tag MMOther = ''?''"

lemma mm_tag_prefix: "hash_multi_modal_obj repr v = Inr a \<Longrightarrow> \<exists>b. a = ascii (mm_tag v) @ b"
  by (cases v) (auto simp: ebind_Inr_iff simp del: append_assoc ascii_append)

lemma mm_tag_split:
  assumes "ascii (mm_tag u) @ x = ascii (mm_tag v) @ y"
  shows "mm_tag u = mm_tag v \<and> x = y"
proof -
  have "take 4 (ascii (mm_tag u) @ x) = take 4 (ascii (mm_tag v) @ y)" using assms by simp
  then have "mm_tag u = mm_tag v"
    by (cases u; cases v) (simp_all add: ascii_Cons split: list.splits)
  then show ?thesis using assms by simp
qed

lemma by_key_map: "by_key (map (\<lambda>x. (g x, f x)) xs) = map f (sort_key g xs)"
proof -
  have ins: "insort_key fst (g x, f x) (map (\<lambda>x. (g x, f x)) ys) = map (\<lambda>x. (g x, f x)) (insort_key g x ys)" for x ys
    by (induction ys) auto
  have "sort_key fst (map (\<lambda>x. (g x, f x)) xs) = map (\<lambda>x. (g x, f x)) (sort_key g xs)"
    by (induction xs) (simp_all add: ins)
  then show ?thesis by (simp add: by_key_def comp_def)
qed

lemma by_key_pairs: "by_key (map (\<lambda>(k, v). (g k, f k v)) xs) = map (\<lambda>(k, v). f k v) (sort_key (g \<circ> fst) xs)"
  unfolding case_prod_unfold comp_def by (rule by_key_map)

lemma collect_rest:
  assumes "collect_bytes (map f ws) = Inr x" "E q" "\<And>u c q. u \<in> set ws \<Longrightarrow> f u = Inr c \<Longrightarrow> E q \<Longrightarrow> E (c @ q)"
  shows "E (x @ q)"
  using assms
proof (induction ws arbitrary: x)
  case (Cons w ws)
  then obtain y z where y: "f w = Inr y" "collect_bytes (map f ws) = Inr z" "x = y @ z"
    by (auto simp: ebind_Inr_iff)
  have "E (z @ q)" by (rule Cons.IH [OF y(2) Cons.prems(2)]) (use Cons.prems(3) in auto)
  then show ?case using Cons.prems(3) [of w y "z @ q"] y by simp
qed simp

lemma collect_split:
  assumes "length us = length vs" "collect_bytes (map f us) = Inr a" "collect_bytes (map f vs) = Inr b" "a @ r = b @ r'"
    and "E r" "E r'"
    and "\<And>u v c d q q'. u \<in> set us \<Longrightarrow> v \<in> set vs \<Longrightarrow> f u = Inr c \<Longrightarrow> f v = Inr d \<Longrightarrow> c @ q = d @ q' \<Longrightarrow>
      E q \<Longrightarrow> E q' \<Longrightarrow> n u = n v \<and> q = q'"
    and "\<And>u c q. u \<in> set us \<union> set vs \<Longrightarrow> f u = Inr c \<Longrightarrow> E q \<Longrightarrow> E (c @ q)"
  shows "map n us = map n vs \<and> r = r'"
  using assms
proof (induction us vs arbitrary: a b rule: list_induct2)
  case (Cons u us v vs)
  obtain c a' where a: "f u = Inr c" "collect_bytes (map f us) = Inr a'" "a = c @ a'"
    using Cons.prems(1) by (auto simp: ebind_Inr_iff)
  obtain d b' where b: "f v = Inr d" "collect_bytes (map f vs) = Inr b'" "b = d @ b'"
    using Cons.prems(2) by (auto simp: ebind_Inr_iff)
  have "E (a' @ r)" by (rule collect_rest [where f = f and E = E and ws = us, OF a(2) Cons.prems(4)]) (use Cons.prems(7) in auto)
  moreover have "E (b' @ r')" by (rule collect_rest [where f = f and E = E and ws = vs, OF b(2) Cons.prems(5)]) (use Cons.prems(7) in auto)
  ultimately have n: "n u = n v" and eq: "a' @ r = b' @ r'"
    using Cons.prems(3) Cons.prems(6) [of u v c d "a' @ r" "b' @ r'"] a b by simp_all
  have "map n us = map n vs \<and> r = r'"
  proof (rule Cons.IH [OF a(2) b(2) eq Cons.prems(4,5)])
    show "n u' = n v' \<and> q = q'" if "u' \<in> set us" "v' \<in> set vs" "f u' = Inr c" "f v' = Inr d" "c @ q = d @ q'" "E q" "E q'"
      for u' v' c d q q'
      using Cons.prems(6) [of u' v' c d q q'] that by simp
    show "E (c @ q)" if "u' \<in> set us \<union> set vs" "f u' = Inr c" "E q" for u' c q
      using Cons.prems(7) [of u' c q] that by auto
  qed
  then show ?case using n by simp
qed simp

lemma number_ends_tag [simp]: "number_ends (ascii (CHR ''k'' # s) @ q)" "number_ends (ascii (CHR ''v'' # s) @ q)"
    "number_ends (ascii (CHR ''p'' # s) @ q)" "number_ends (ascii (CHR ''t'' # s) @ q)"
  by (simp_all add: number_ends_def ascii_Cons digit_byte_def)

lemma number_ends_mm: "hash_multi_modal_obj repr v = Inr a \<Longrightarrow> number_ends (a @ q)"
proof -
  assume "hash_multi_modal_obj repr v = Inr a"
  then obtain b where "a = ascii (mm_tag v) @ b" using mm_tag_prefix by blast
  then show ?thesis by (cases v) (simp_all add: number_ends_def ascii_Cons digit_byte_def)
qed

definition mm_splits :: "(mm_value \<Rightarrow> string) \<Rightarrow> mm_value \<Rightarrow> bool" where
  "mm_splits repr u \<longleftrightarrow> (\<forall>v a b r r'. mm_ok u \<longrightarrow> mm_ok v \<longrightarrow> hash_multi_modal_obj repr u = Inr a \<longrightarrow>
     hash_multi_modal_obj repr v = Inr b \<longrightarrow> number_ends r \<longrightarrow> number_ends r' \<longrightarrow> a @ r = b @ r' \<longrightarrow>
     mm_normal repr u = mm_normal repr v \<and> r = r')"

lemma mm_splitsD:
  assumes "mm_splits repr u" "mm_ok u" "mm_ok v" "hash_multi_modal_obj repr u = Inr a"
    "hash_multi_modal_obj repr v = Inr b" "number_ends r" "number_ends r'" "a @ r = b @ r'"
  shows "mm_normal repr u = mm_normal repr v" "r = r'"
  using assms unfolding mm_splits_def by blast+

text \<open>Each kind of value: the other value has the same tag, and the rest is taken apart piece by piece.\<close>

lemma mm_splitsI:
  assumes "\<And>v a b r r'. mm_ok u \<Longrightarrow> mm_ok v \<Longrightarrow> mm_tag u = mm_tag v \<Longrightarrow>
      hash_multi_modal_obj repr u = Inr (ascii (mm_tag u) @ a) \<Longrightarrow>
      hash_multi_modal_obj repr v = Inr (ascii (mm_tag u) @ b) \<Longrightarrow> number_ends r \<Longrightarrow> number_ends r' \<Longrightarrow> a @ r = b @ r' \<Longrightarrow>
      mm_normal repr u = mm_normal repr v \<and> r = r'"
  shows "mm_splits repr u"
  unfolding mm_splits_def
proof (intro allI impI)
  fix v a b r r'
  assume h: "mm_ok u" "mm_ok v" "hash_multi_modal_obj repr u = Inr a" "hash_multi_modal_obj repr v = Inr b"
    "number_ends r" "number_ends r'" "a @ r = b @ r'"
  obtain a' b' where ab: "a = ascii (mm_tag u) @ a'" "b = ascii (mm_tag v) @ b'"
    using mm_tag_prefix [OF h(3)] mm_tag_prefix [OF h(4)] by blast
  then have "mm_tag u = mm_tag v \<and> a' @ r = b' @ r'" using mm_tag_split [of u "a' @ r" v "b' @ r'"] h(7) by simp
  then show "mm_normal repr u = mm_normal repr v \<and> r = r'" using assms [of v a' b' r r'] h ab by simp
qed

lemma mm_list_splits:
  assumes "\<And>x. x \<in> set xs \<Longrightarrow> mm_splits repr x" "list_all mm_ok xs" "list_all mm_ok ys"
    and "ebind (pack_uint 8 (length xs)) (\<lambda>n. ebind (collect_bytes (map (hash_multi_modal_obj repr) xs)) (\<lambda>b. Inr (n @ b))) = Inr a"
    and "ebind (pack_uint 8 (length ys)) (\<lambda>n. ebind (collect_bytes (map (hash_multi_modal_obj repr) ys)) (\<lambda>b. Inr (n @ b))) = Inr b"
    and "number_ends r" "number_ends r'" "a @ r = b @ r'"
  shows "map (mm_normal repr) xs = map (mm_normal repr) ys \<and> r = r'"
proof -
  obtain m x n y where x: "pack_uint 8 (length xs) = Inr m" "collect_bytes (map (hash_multi_modal_obj repr) xs) = Inr x" "a = m @ x"
    and y: "pack_uint 8 (length ys) = Inr n" "collect_bytes (map (hash_multi_modal_obj repr) ys) = Inr y" "b = n @ y"
    using assms(4,5) by (auto simp: ebind_Inr_iff)
  have l: "length xs = length ys" "x @ r = y @ r'"
    using pack_uint_split [OF x(1) y(1), of "x @ r" "y @ r'"] assms(8) x(3) y(3) by simp_all
  show ?thesis
  proof (rule collect_split [where E = number_ends, OF l(1) x(2) y(2) l(2) assms(6,7)])
    fix u v c d q q'
    assume "u \<in> set xs" "v \<in> set ys" "hash_multi_modal_obj repr u = Inr c" "hash_multi_modal_obj repr v = Inr d"
      "c @ q = d @ q'" "number_ends q" "number_ends q'"
    then show "mm_normal repr u = mm_normal repr v \<and> q = q'"
      using mm_splitsD [OF assms(1), of u v c d q q'] assms(2,3) by (auto simp: list_all_iff)
  qed (rule number_ends_mm)
qed

lemma map_entry_Some:
  "map_entry k v = Inr c \<longleftrightarrow> (\<exists>x y. k = Inr x \<and> v = Inr y \<and> c = ascii ''k|'' @ x @ ascii ''v|'' @ y)"
  by (auto simp: map_entry_def ebind_Inr_iff)

lemma mm_map_splits:
  assumes "\<And>k v. (k, v) \<in> set xs \<Longrightarrow> mm_splits repr k \<and> mm_splits repr v"
    and ok: "list_all (\<lambda>(k, v). mm_ok k \<and> mm_ok v) xs" "list_all (\<lambda>(k, v). mm_ok k \<and> mm_ok v) ys"
    and "hash_multi_modal_obj repr (MMMap xs) = Inr (ascii ''map|'' @ a)"
      "hash_multi_modal_obj repr (MMMap ys) = Inr (ascii ''map|'' @ b)"
    and "number_ends r" "number_ends r'" "a @ r = b @ r'"
  shows "mm_normal repr (MMMap xs) = mm_normal repr (MMMap ys) \<and> r = r'"
proof -
  let ?e = "\<lambda>(k, v). map_entry (hash_multi_modal_obj repr k) (hash_multi_modal_obj repr v)"
  let ?n = "\<lambda>(k, v). (mm_normal repr k, mm_normal repr v)"
  let ?s = "sort_key (repr \<circ> fst)"
  obtain m x n y where x: "pack_uint 8 (length xs) = Inr m" "collect_bytes (map ?e (?s xs)) = Inr x" "a = m @ x"
    and y: "pack_uint 8 (length ys) = Inr n" "collect_bytes (map ?e (?s ys)) = Inr y" "b = n @ y"
    using assms(4,5) by (auto simp: ebind_Inr_iff by_key_pairs)
  have l: "length (?s xs) = length (?s ys)" "x @ r = y @ r'"
    using pack_uint_split [OF x(1) y(1), of "x @ r" "y @ r'"] assms(8) x(3) y(3) by simp_all
  have "map ?n (?s xs) = map ?n (?s ys) \<and> r = r'"
  proof (rule collect_split [where E = number_ends, OF l(1) x(2) y(2) l(2) assms(6,7)])
    fix u v c d q q'
    assume h: "u \<in> set (?s xs)" "v \<in> set (?s ys)" "?e u = Inr c" "?e v = Inr d" "c @ q = d @ q'" "number_ends q" "number_ends q'"
    obtain k w k' w' where kw: "u = (k, w)" "v = (k', w')" by (cases u; cases v)
    obtain ck cw where c: "hash_multi_modal_obj repr k = Inr ck" "hash_multi_modal_obj repr w = Inr cw"
        "c = ascii ''k|'' @ ck @ ascii ''v|'' @ cw" using h(3) kw(1) by (auto simp: map_entry_Some)
    obtain dk dw where d: "hash_multi_modal_obj repr k' = Inr dk" "hash_multi_modal_obj repr w' = Inr dw"
        "d = ascii ''k|'' @ dk @ ascii ''v|'' @ dw" using h(4) kw(2) by (auto simp: map_entry_Some)
    have s: "mm_splits repr k" "mm_splits repr w" using assms(1) h(1) kw(1) by auto
    have o: "mm_ok k" "mm_ok w" "mm_ok k'" "mm_ok w'" using ok h(1,2) kw by (auto simp: list_all_iff)
    have e: "ck @ ascii ''v|'' @ cw @ q = dk @ ascii ''v|'' @ dw @ q'" using h(5) c(3) d(3) by simp
    note one = mm_splitsD [OF s(1) o(1,3) c(1) d(1) number_ends_tag(2) number_ends_tag(2) e]
    then have "cw @ q = dw @ q'" by simp
    note two = mm_splitsD [OF s(2) o(2,4) c(2) d(2) h(6,7) this]
    show "?n u = ?n v \<and> q = q'" using one(1) two kw by simp
  qed (auto simp: map_entry_Some)
  then show ?thesis by (simp add: by_key_pairs)
qed

lemma mm_image_splits:
  assumes s: "mm_splits repr pm" "mm_splits repr p" "mm_splits repr t"
  shows "mm_splits repr (MMImage mode w h x pm p t)"
proof (rule mm_splitsI)
  fix v a b r r'
  assume ok: "mm_ok (MMImage mode w h x pm p t)" "mm_ok v" and tag: "mm_tag (MMImage mode w h x pm p t) = mm_tag v"
    and u: "hash_multi_modal_obj repr (MMImage mode w h x pm p t) = Inr (ascii (mm_tag (MMImage mode w h x pm p t)) @ a)"
    and v: "hash_multi_modal_obj repr v = Inr (ascii (mm_tag (MMImage mode w h x pm p t)) @ b)"
    and e: "number_ends r" "number_ends r'" "a @ r = b @ r'"
  obtain mode' w' h' x' pm' p' t' where v': "v = MMImage mode' w' h' x' pm' p' t'" using tag by (cases v) auto
  obtain w1 h1 x1 pm1 p1 t1 where 1: "pack_uint 4 w = Inr w1" "pack_uint 4 h = Inr h1" "pack_len x = Inr x1"
      "hash_multi_modal_obj repr pm = Inr pm1" "hash_multi_modal_obj repr p = Inr p1" "hash_multi_modal_obj repr t = Inr t1"
      "a = utf8 mode @ w1 @ h1 @ x1 @ ascii ''palette-mode|'' @ pm1 @ ascii ''palette|'' @ p1 @ ascii ''transparency|'' @ t1"
    using u by (auto simp: ebind_Inr_iff)
  obtain w2 h2 x2 pm2 p2 t2 where 2: "pack_uint 4 w' = Inr w2" "pack_uint 4 h' = Inr h2" "pack_len x' = Inr x2"
      "hash_multi_modal_obj repr pm' = Inr pm2" "hash_multi_modal_obj repr p' = Inr p2" "hash_multi_modal_obj repr t' = Inr t2"
      "b = utf8 mode' @ w2 @ h2 @ x2 @ ascii ''palette-mode|'' @ pm2 @ ascii ''palette|'' @ p2 @ ascii ''transparency|'' @ t2"
    using v unfolding v' by (auto simp: ebind_Inr_iff)
  have o: "no_nul mode" "w < 256 ^ 3" "no_nul mode'" "w' < 256 ^ 3" "mm_ok pm" "mm_ok pm'" "mm_ok p" "mm_ok p'" "mm_ok t" "mm_ok t'"
    using ok v' by simp_all
  obtain w3 w4 where z: "w1 = 0 # w3" "w2 = 0 # w4"
    using pack_uint_zero(1) [OF o(2) 1(1)] pack_uint_zero(1) [OF o(4) 2(1)] by blast
  let ?y1 = "ascii ''palette-mode|'' @ pm1 @ ascii ''palette|'' @ p1 @ ascii ''transparency|'' @ t1 @ r"
  let ?y2 = "ascii ''palette-mode|'' @ pm2 @ ascii ''palette|'' @ p2 @ ascii ''transparency|'' @ t2 @ r'"
  have eq: "utf8 mode @ w1 @ h1 @ x1 @ ?y1 = utf8 mode' @ w2 @ h2 @ x2 @ ?y2" using e(3) unfolding 1(7) 2(7) by simp
  then have mode: "mode = mode'" "w1 @ h1 @ x1 @ ?y1 = w2 @ h2 @ x2 @ ?y2"
    using utf8_split [OF o(1,3), of "w3 @ h1 @ x1 @ ?y1" "w4 @ h2 @ x2 @ ?y2"] z by simp_all
  have w: "w = w'" "h1 @ x1 @ ?y1 = h2 @ x2 @ ?y2" using pack_uint_split [OF 1(1) 2(1) mode(2)] by simp_all
  have h: "h = h'" "x1 @ ?y1 = x2 @ ?y2" using pack_uint_split [OF 1(2) 2(2) w(2)] by simp_all
  have x: "x = x'" "?y1 = ?y2" using pack_len_split [OF 1(3) 2(3) h(2)] by simp_all
  have pm: "pm1 @ ascii ''palette|'' @ p1 @ ascii ''transparency|'' @ t1 @ r = pm2 @ ascii ''palette|'' @ p2 @ ascii ''transparency|'' @ t2 @ r'"
    using x(2) by simp
  note m1 = mm_splitsD [OF s(1) o(5,6) 1(4) 2(4) number_ends_tag(3) number_ends_tag(3) pm]
  then have p: "p1 @ ascii ''transparency|'' @ t1 @ r = p2 @ ascii ''transparency|'' @ t2 @ r'" by simp
  note m2 = mm_splitsD [OF s(2) o(7,8) 1(5) 2(5) number_ends_tag(4) number_ends_tag(4) p]
  then have t: "t1 @ r = t2 @ r'" by simp
  note m3 = mm_splitsD [OF s(3) o(9,10) 1(6) 2(6) e(1,2) t]
  show "mm_normal repr (MMImage mode w h x pm p t) = mm_normal repr v \<and> r = r'"
    using mode(1) w(1) h(1) x(1) m1(1) m2(1) m3 v' by simp
qed

lemma mm_tensor_splits: "mm_splits repr (MMTensor shape dtype x)"
proof (rule mm_splitsI)
  fix v a b r r'
  assume ok: "mm_ok (MMTensor shape dtype x)" "mm_ok v" and tag: "mm_tag (MMTensor shape dtype x) = mm_tag v"
    and u: "hash_multi_modal_obj repr (MMTensor shape dtype x) = Inr (ascii (mm_tag (MMTensor shape dtype x)) @ a)"
    and v: "hash_multi_modal_obj repr v = Inr (ascii (mm_tag (MMTensor shape dtype x)) @ b)"
    and e: "a @ r = b @ r'"
  obtain shape' dtype' x' where v': "v = MMTensor shape' dtype' x'" using tag by (cases v) auto
  obtain n1 d1 l1 where 1: "pack_uint 8 (length shape) = Inr n1" "collect_bytes (map (pack_uint 8) shape) = Inr d1"
      "pack_uint 8 (length x) = Inr l1" "a = n1 @ d1 @ utf8 dtype @ l1 @ x"
    using u by (auto simp: ebind_Inr_iff pack_len_def)
  obtain n2 d2 l2 where 2: "pack_uint 8 (length shape') = Inr n2" "collect_bytes (map (pack_uint 8) shape') = Inr d2"
      "pack_uint 8 (length x') = Inr l2" "b = n2 @ d2 @ utf8 dtype' @ l2 @ x'"
    using v unfolding v' by (auto simp: ebind_Inr_iff pack_len_def)
  have o: "no_nul dtype" "length x < 256 ^ 7" "no_nul dtype'" "length x' < 256 ^ 7" using ok v' by simp_all
  obtain k1 k2 where z: "l1 = 0 # k1" "l2 = 0 # k2"
    using pack_uint_zero(2) [OF o(2) 1(3)] pack_uint_zero(2) [OF o(4) 2(3)] by blast
  have n: "length shape = length shape'" "d1 @ utf8 dtype @ l1 @ x @ r = d2 @ utf8 dtype' @ l2 @ x' @ r'"
    using pack_uint_split [OF 1(1) 2(1), of "d1 @ utf8 dtype @ l1 @ x @ r" "d2 @ utf8 dtype' @ l2 @ x' @ r'"] e 1(4) 2(4) by simp_all
  have "map id shape = map id shape' \<and> utf8 dtype @ l1 @ x @ r = utf8 dtype' @ l2 @ x' @ r'"
  proof (rule collect_split [where E = "\<lambda>_. True", OF n(1) 1(2) 2(2) n(2)])
    show "id m = id k \<and> q = q'" if "pack_uint 8 m = Inr c" "pack_uint 8 k = Inr d" "c @ q = d @ q'" for m k c d q q'
      using pack_uint_split [OF that] by simp
  qed simp_all
  then have d: "shape = shape'" "utf8 dtype @ 0 # k1 @ x @ r = utf8 dtype' @ 0 # k2 @ x' @ r'" using z by simp_all
  have "dtype = dtype'" "k1 @ x @ r = k2 @ x' @ r'" using utf8_split [OF o(1,3) d(2)] by simp_all
  then have "dtype = dtype'" "l1 @ x @ r = l2 @ x' @ r'" using z by simp_all
  moreover from this have "length x = length x'" "x @ r = x' @ r'" using pack_uint_split [OF 1(3) 2(3)] by blast+
  ultimately show "mm_normal repr (MMTensor shape dtype x) = mm_normal repr v \<and> r = r'" using d(1) v' by simp
qed

lemma mm_leaf_splits:
  "mm_splits repr MMNone" "mm_splits repr (MMStr s)" "mm_splits repr (MMBytes x)" "mm_splits repr (MMBytearray x)"
  "mm_splits repr (MMBool p)" "mm_splits repr (MMInt i)" "mm_splits repr (MMFloat w)" "mm_splits repr MMOther"
proof -
  show "mm_splits repr MMNone"
  proof (rule mm_splitsI)
    fix v a b r r'
    assume "mm_tag MMNone = mm_tag v" "hash_multi_modal_obj repr MMNone = Inr (ascii (mm_tag MMNone) @ a)"
      "hash_multi_modal_obj repr v = Inr (ascii (mm_tag MMNone) @ b)" "a @ r = b @ r'"
    then show "mm_normal repr MMNone = mm_normal repr v \<and> r = r'" by (cases v) auto
  qed
  show "mm_splits repr (MMStr s)"
  proof (rule mm_splitsI)
    fix v a b r r'
    assume "mm_tag (MMStr s) = mm_tag v" "hash_multi_modal_obj repr (MMStr s) = Inr (ascii (mm_tag (MMStr s)) @ a)"
      "hash_multi_modal_obj repr v = Inr (ascii (mm_tag (MMStr s)) @ b)" "a @ r = b @ r'"
    moreover from this obtain s' where "v = MMStr s'" by (cases v) auto
    ultimately show "mm_normal repr (MMStr s) = mm_normal repr v \<and> r = r'"
      using pack_len_split [of "utf8 s" a "utf8 s'" b r r'] by (auto simp: ebind_Inr_iff)
  qed
  have bytes: "mm_normal repr u = mm_normal repr v \<and> r = r'"
    if "u = MMBytes x \<or> u = MMBytearray x" "mm_tag u = mm_tag v" "hash_multi_modal_obj repr u = Inr (ascii (mm_tag u) @ a)"
      "hash_multi_modal_obj repr v = Inr (ascii (mm_tag u) @ b)" "a @ r = b @ r'" for u v a b r r'
  proof -
    note h = that
    obtain x' where "v = MMBytes x' \<or> v = MMBytearray x'" using h(1,2) by (cases v) auto
    then show ?thesis using h pack_len_split [of x a x' b r r'] by (auto simp: ebind_Inr_iff)
  qed
  show "mm_splits repr (MMBytes x)" "mm_splits repr (MMBytearray x)" by (rule mm_splitsI, rule bytes, auto)+
  show "mm_splits repr (MMBool p)"
  proof (rule mm_splitsI)
    fix v a b r r'
    assume "mm_tag (MMBool p) = mm_tag v" "hash_multi_modal_obj repr (MMBool p) = Inr (ascii (mm_tag (MMBool p)) @ a)"
      "hash_multi_modal_obj repr v = Inr (ascii (mm_tag (MMBool p)) @ b)" "a @ r = b @ r'"
    moreover from this obtain q where "v = MMBool q" by (cases v) auto
    ultimately show "mm_normal repr (MMBool p) = mm_normal repr v \<and> r = r'"
      by (auto simp: ascii_Cons split: if_splits)
  qed
  show "mm_splits repr (MMInt i)"
  proof (rule mm_splitsI)
    fix v a b r r'
    assume "mm_tag (MMInt i) = mm_tag v" "hash_multi_modal_obj repr (MMInt i) = Inr (ascii (mm_tag (MMInt i)) @ a)"
      "hash_multi_modal_obj repr v = Inr (ascii (mm_tag (MMInt i)) @ b)" "number_ends r" "number_ends r'" "a @ r = b @ r'"
    moreover from this obtain j where "v = MMInt j" by (cases v) auto
    ultimately show "mm_normal repr (MMInt i) = mm_normal repr v \<and> r = r'"
      using str_int_split [of r r' i j] by auto
  qed
  show "mm_splits repr (MMFloat w)"
  proof (rule mm_splitsI)
    fix v a b r r'
    assume h: "mm_tag (MMFloat w) = mm_tag v" "hash_multi_modal_obj repr (MMFloat w) = Inr (ascii (mm_tag (MMFloat w)) @ a)"
      "hash_multi_modal_obj repr v = Inr (ascii (mm_tag (MMFloat w)) @ b)" "a @ r = b @ r'"
    then obtain w' where v: "v = MMFloat w'" by (cases v) auto
    then have "big_endian 8 (unat w) @ r = big_endian 8 (unat w') @ r'" using h by simp
    then have "big_endian 8 (unat w) = big_endian 8 (unat w')" "r = r'" by (simp_all add: same_length_append)
    moreover have "unat u < 256 ^ 8" for u :: "64 word" using unsigned_less [of u] by simp
    ultimately show "mm_normal repr (MMFloat w) = mm_normal repr v \<and> r = r'"
      using big_endian_inj [of "unat w" 8 "unat w'"] v by (simp add: word_unat_eq_iff)
  qed
  show "mm_splits repr MMOther" by (rule mm_splitsI) simp
qed

lemma mm_splits: "mm_splits repr u"
proof (induction u)
  case (MMMap xs)
  have i: "mm_splits repr k \<and> mm_splits repr v" if "(k, v) \<in> set xs" for k v
    using MMMap.IH [OF that] by auto
  show ?case
  proof (rule mm_splitsI)
    fix v a b r r'
    assume h: "mm_ok (MMMap xs)" "mm_ok v" "mm_tag (MMMap xs) = mm_tag v"
      "hash_multi_modal_obj repr (MMMap xs) = Inr (ascii (mm_tag (MMMap xs)) @ a)"
      "hash_multi_modal_obj repr v = Inr (ascii (mm_tag (MMMap xs)) @ b)" "number_ends r" "number_ends r'" "a @ r = b @ r'"
    then obtain ys where v: "v = MMMap ys" by (cases v) auto
    show "mm_normal repr (MMMap xs) = mm_normal repr v \<and> r = r'"
      unfolding v by (rule mm_map_splits [OF i]) (use h v in simp_all)
  qed
next
  case (MMList xs)
  show ?case
  proof (rule mm_splitsI)
    fix v a b r r'
    assume h: "mm_ok (MMList xs)" "mm_ok v" "mm_tag (MMList xs) = mm_tag v"
      "hash_multi_modal_obj repr (MMList xs) = Inr (ascii (mm_tag (MMList xs)) @ a)"
      "hash_multi_modal_obj repr v = Inr (ascii (mm_tag (MMList xs)) @ b)" "number_ends r" "number_ends r'" "a @ r = b @ r'"
    then obtain ys where v: "v = MMList ys" by (cases v) auto
    have "map (mm_normal repr) xs = map (mm_normal repr) ys \<and> r = r'"
      by (rule mm_list_splits [OF MMList.IH _ _ _ _ h(6-8)]) (use h v in \<open>auto simp: ebind_Inr_iff\<close>)
    then show "mm_normal repr (MMList xs) = mm_normal repr v \<and> r = r'" using v by simp
  qed
next
  case (MMTuple xs)
  show ?case
  proof (rule mm_splitsI)
    fix v a b r r'
    assume h: "mm_ok (MMTuple xs)" "mm_ok v" "mm_tag (MMTuple xs) = mm_tag v"
      "hash_multi_modal_obj repr (MMTuple xs) = Inr (ascii (mm_tag (MMTuple xs)) @ a)"
      "hash_multi_modal_obj repr v = Inr (ascii (mm_tag (MMTuple xs)) @ b)" "number_ends r" "number_ends r'" "a @ r = b @ r'"
    then obtain ys where v: "v = MMTuple ys" by (cases v) auto
    have "map (mm_normal repr) xs = map (mm_normal repr) ys \<and> r = r'"
      by (rule mm_list_splits [OF MMTuple.IH _ _ _ _ h(6-8)]) (use h v in \<open>auto simp: ebind_Inr_iff\<close>)
    then show "mm_normal repr (MMTuple xs) = mm_normal repr v \<and> r = r'" using v by simp
  qed
qed (simp_all add: mm_leaf_splits mm_tensor_splits mm_image_splits)

section \<open>The adapters and the request\<close>

lemma labelled_split:
  assumes "labelled label x = Inr a" "labelled label y = Inr b" "a @ r = b @ r'"
  shows "x = y \<and> r = r'"
proof -
  obtain c d where c: "pack_len (utf8 x) = Inr c" "a = ascii label @ c" and d: "pack_len (utf8 y) = Inr d" "b = ascii label @ d"
    using assms(1,2) by (auto simp: labelled_def ebind_Inr_iff)
  with pack_len_split [OF c(1) d(1), of r r'] assms(3) show ?thesis by auto
qed

lemma labelled_list_split:
  assumes "collect_bytes (map (\<lambda>field. labelled field (x field)) names) = Inr a"
    "collect_bytes (map (\<lambda>field. labelled field (y field)) names) = Inr b" "a @ r = b @ r'"
  shows "map x names = map y names \<and> r = r'"
  using assms
proof (induction names arbitrary: a b)
  case (Cons l names)
  obtain c a' where a: "labelled l (x l) = Inr c" "collect_bytes (map (\<lambda>field. labelled field (x field)) names) = Inr a'" "a = c @ a'"
    using Cons.prems(1) by (auto simp: ebind_Inr_iff)
  obtain d b' where b: "labelled l (y l) = Inr d" "collect_bytes (map (\<lambda>field. labelled field (y field)) names) = Inr b'" "b = d @ b'"
    using Cons.prems(2) by (auto simp: ebind_Inr_iff)
  have l: "x l = y l" "a' @ r = b' @ r'"
    using labelled_split [OF a(1) b(1), of "a' @ r" "b' @ r'"] Cons.prems(3) a(3) b(3) by simp_all
  show ?case using Cons.IH [OF a(2) b(2) l(2)] l(1) by simp
qed simp

lemma labelled_starts:
  "collect_bytes (map (\<lambda>field. labelled field (x field)) (l # names)) = Inr a \<Longrightarrow> \<exists>b. a = ascii l @ b"
  by (auto simp: ebind_Inr_iff labelled_def)

lemma adapter_bytes_split:
  assumes "adapter_bytes kind u names = Inr a" "adapter_bytes kind v names = Inr b" "a @ r = b @ r'"
    and "names = (c # l) # rest" "c \<noteq> CHR ''n''"
  shows "map_option (\<lambda>f. map f names) u = map_option (\<lambda>f. map f names) v \<and> r = r'"
proof -
  have differ: "ascii ''none|'' @ y \<noteq> ascii (c # l) @ x" for x y
  proof
    assume "ascii ''none|'' @ y = ascii (c # l) @ x"
    then have "ascii [CHR ''n''] = ascii [c]" by (simp add: ascii_Cons)
    then show False using assms(5) by (simp del: ascii_Nil add: ascii_eq)
  qed
  show ?thesis
  proof (cases u; cases v)
    fix f g assume u: "u = Some f" "v = Some g"
    obtain a' where a: "collect_bytes (map (\<lambda>field. labelled field (f field)) names) = Inr a'" "a = ascii kind @ a'"
      using assms(1) u by (auto simp: adapter_bytes_def ebind_Inr_iff)
    obtain b' where b: "collect_bytes (map (\<lambda>field. labelled field (g field)) names) = Inr b'" "b = ascii kind @ b'"
      using assms(2) u by (auto simp: adapter_bytes_def ebind_Inr_iff)
    show ?thesis using labelled_list_split [OF a(1) b(1), of r r'] assms(3) a(2) b(2) u by simp
  next
    fix f assume u: "u = Some f" "v = None"
    obtain a' where a: "collect_bytes (map (\<lambda>field. labelled field (f field)) names) = Inr a'" "a = ascii kind @ a'"
      using assms(1) u by (auto simp: adapter_bytes_def ebind_Inr_iff)
    obtain x where "a' = ascii (c # l) @ x" using labelled_starts a(1) assms(4) by blast
    then have "ascii ''none|'' @ r' = ascii (c # l) @ (x @ r)" using assms(2,3) a(2) u by (auto simp: adapter_bytes_def)
    then show ?thesis using differ by blast
  next
    fix g assume u: "u = None" "v = Some g"
    obtain b' where b: "collect_bytes (map (\<lambda>field. labelled field (g field)) names) = Inr b'" "b = ascii kind @ b'"
      using assms(2) u by (auto simp: adapter_bytes_def ebind_Inr_iff)
    obtain x where "b' = ascii (c # l) @ x" using labelled_starts b(1) assms(4) by blast
    then have "ascii ''none|'' @ r = ascii (c # l) @ (x @ r')" using assms(1,3) b(2) u by (auto simp: adapter_bytes_def)
    then show ?thesis using differ by blast
  next
    assume "u = None" "v = None"
    then show ?thesis using assms(1-3) by (auto simp: adapter_bytes_def)
  qed
qed

definition adapter_identity :: "adapter option \<Rightarrow> adapter option \<Rightarrow> string list option \<times> string list option" where
  "adapter_identity lora prompt_adapter =
     (map_option (\<lambda>a. map a lora_fields) lora, map_option (\<lambda>a. map a prompt_fields) prompt_adapter)"

lemma adapter_message_inj:
  assumes "adapter_message lora pa = Inr m" "adapter_message lora' pa' = Inr m"
  shows "adapter_identity lora pa = adapter_identity lora' pa'"
proof -
  obtain l p where 1: "adapter_bytes ''lora'' lora lora_fields = Inr l" "adapter_bytes ''prompt'' pa prompt_fields = Inr p"
      "m = ascii ''bi100-adapter-prefix-identity-v1|'' @ l @ p"
    using assms(1) unfolding adapter_message_def ebind_Inr_iff by blast
  obtain l' p' where 2: "adapter_bytes ''lora'' lora' lora_fields = Inr l'" "adapter_bytes ''prompt'' pa' prompt_fields = Inr p'"
      "m = ascii ''bi100-adapter-prefix-identity-v1|'' @ l' @ p'"
    using assms(2) unfolding adapter_message_def ebind_Inr_iff by blast
  have "l @ p = l' @ p'" using 1(3) 2(3) by simp
  from adapter_bytes_split [OF 1(1) 2(1) this lora_fields_def] 
  have l: "map_option (\<lambda>f. map f lora_fields) lora = map_option (\<lambda>f. map f lora_fields) lora'" "p @ [] = p' @ []" by simp_all
  from adapter_bytes_split [OF 1(2) 2(2) l(2) prompt_fields_def]
  show ?thesis using l(1) by (simp add: adapter_identity_def)
qed

text \<open>
  What a request is to share its cache with: nothing, the payload that can be encoded, or else the random bytes
  drawn for the request and its id. \<open>seeds\<close> are the bytes drawn for the requests that have a namespace of their own.
\<close>

datatype payload_source = NoPayload | Encoded mm_value | RequestLocal bytes string

definition seed_of :: "(string \<rightharpoonup> bytes) \<Rightarrow> bytes \<Rightarrow> string \<Rightarrow> bytes" where
  "seed_of seeds fresh request_id = (case seeds request_id of None \<Rightarrow> fresh | Some f \<Rightarrow> f)"

definition payload_source :: "(mm_value \<Rightarrow> string) \<Rightarrow> (string \<rightharpoonup> bytes) \<Rightarrow> bytes \<Rightarrow> mm_value option \<Rightarrow> string
    \<Rightarrow> payload_source" where
  "payload_source repr seeds fresh mm request_id =
     (if has_multi_modal_payload mm
      then (case hash_multi_modal_obj repr (the mm) of Inr _ \<Rightarrow> Encoded (mm_normal repr (the mm))
            | Inl _ \<Rightarrow> RequestLocal (seed_of seeds fresh request_id) request_id)
      else NoPayload)"

definition fallback_message :: "bytes \<Rightarrow> bytes \<Rightarrow> string \<Rightarrow> bytes" where
  "fallback_message runtime seed request_id =
     ascii ''multimodal-unsupported-request-local-v1|'' @ runtime @ seed @ utf8 request_id"

definition payload_message :: "(mm_value \<Rightarrow> string) \<Rightarrow> bytes \<Rightarrow> (string \<rightharpoonup> bytes) \<Rightarrow> bytes \<Rightarrow> mm_value option \<Rightarrow> string
    \<Rightarrow> bytes option" where
  "payload_message repr runtime seeds fresh mm request_id =
     (if has_multi_modal_payload mm
      then (case hash_multi_modal_obj repr (the mm) of Inr m \<Rightarrow> Some m
            | Inl _ \<Rightarrow> Some (fallback_message runtime (seed_of seeds fresh request_id) request_id))
      else None)"

definition payload_ok :: "(mm_value \<Rightarrow> string) \<Rightarrow> mm_value option \<Rightarrow> bool" where
  "payload_ok repr mm \<longleftrightarrow> has_multi_modal_payload mm \<and> hash_multi_modal_obj repr (the mm) \<in> range Inr \<longrightarrow> mm_ok (the mm)"

definition namespace_messages :: "(bytes \<Rightarrow> bytes) \<Rightarrow> (mm_value \<Rightarrow> string) \<Rightarrow> bytes \<Rightarrow> (string \<rightharpoonup> bytes) \<Rightarrow> bytes
    \<Rightarrow> mm_value option \<Rightarrow> string \<Rightarrow> adapter option \<Rightarrow> adapter option \<Rightarrow> bytes set" where
  "namespace_messages sha repr runtime seeds fresh mm request_id lora pa =
     (let p = payload_message repr runtime seeds fresh mm request_id in set_option p \<union>
     (case adapter_message lora pa of Inl _ \<Rightarrow> {} | Inr m \<Rightarrow>
        {m, request_message runtime (sha m) (map_option sha p)}))"

text \<open>The namespaces that the block manager keeps for single requests, and the bytes they were made from.\<close>

definition local_seeds :: "(bytes \<Rightarrow> bytes) \<Rightarrow> (string \<rightharpoonup> bytes) \<Rightarrow> namespaces \<Rightarrow> bool" where
  "local_seeds sha seeds n \<longleftrightarrow> (\<forall>f \<in> ran seeds. length f = 32) \<and>
     map_of (ns_request_local n) =
       (\<lambda>request_id. map_option (\<lambda>f. sha (fallback_message (ns_runtime n) f request_id)) (seeds request_id))"

definition seeds_after :: "(mm_value \<Rightarrow> string) \<Rightarrow> (string \<rightharpoonup> bytes) \<Rightarrow> bytes \<Rightarrow> mm_value option \<Rightarrow> string
    \<Rightarrow> string \<rightharpoonup> bytes" where
  "seeds_after repr seeds fresh mm request_id = (case payload_source repr seeds fresh mm request_id of
     RequestLocal f _ \<Rightarrow> seeds(request_id \<mapsto> f) | _ \<Rightarrow> seeds)"

lemma local_seeds_init: "local_seeds sha Map.empty \<lparr>ns_runtime = runtime, ns_request_local = [], ns_warned = w\<rparr>"
  by (simp add: local_seeds_def)

lemma local_seeds_release:
  assumes "local_seeds sha seeds n" and "release_request_cache_namespace request_id n = (r, n')"
  shows "local_seeds sha (seeds(request_id := None)) n'"
  using assms by (auto simp: local_seeds_def release_request_cache_namespace_def modify_def ran_def
      dict_simps fun_eq_iff)

lemma request_local_fallback_run:
  assumes "local_seeds sha seeds n" and "length fresh = 32"
  shows "\<exists>n'. request_local_fallback sha fresh request_id n =
      (Inr (sha (fallback_message (ns_runtime n) (seed_of seeds fresh request_id) request_id)), n') \<and>
    local_seeds sha (seeds(request_id \<mapsto> seed_of seeds fresh request_id)) n' \<and> ns_runtime n' = ns_runtime n"
proof (cases "seeds request_id")
  case None
  then have "map_of (ns_request_local n) request_id = None" using assms(1) by (simp add: local_seeds_def)
  with None show ?thesis
    using assms by (auto simp: request_local_fallback_def py_defs local_seeds_def seed_of_def
        fallback_message_def dict_simps ran_def fun_eq_iff)
next
  case (Some f)
  then have "map_of (ns_request_local n) request_id = Some (sha (fallback_message (ns_runtime n) f request_id))"
    using assms(1) by (simp add: local_seeds_def)
  moreover have "seeds(request_id \<mapsto> f) = seeds" using Some by (simp add: fun_upd_idem)
  ultimately show ?thesis using assms Some by (simp add: request_local_fallback_def py_defs seed_of_def)
qed

lemma get_cache_namespace_run:
  assumes "get_cache_namespace sha repr fresh mm request_id lora pa n = (Inr h, n')"
    and "local_seeds sha seeds n" and "length fresh = 32"
  shows "\<exists>m. adapter_message lora pa = Inr m \<and>
    h = sha (request_message (ns_runtime n) (sha m)
      (map_option sha (payload_message repr (ns_runtime n) seeds fresh mm request_id))) \<and>
    local_seeds sha (seeds_after repr seeds fresh mm request_id) n'"
proof (cases "adapter_message lora pa")
  case (Inl e)
  then show ?thesis using assms(1) by (simp add: get_cache_namespace_def adapter_cache_namespace_def raise_def)
next
  case (Inr m)
  have warned: "local_seeds sha seeds (n\<lparr>ns_warned := w\<rparr>)" for w using assms(2) by (simp add: local_seeds_def)
  obtain t where t: "request_local_fallback sha fresh request_id (n\<lparr>ns_warned := insert request_id (ns_warned n)\<rparr>) =
      (Inr (sha (fallback_message (ns_runtime n) (seed_of seeds fresh request_id) request_id)), t)"
    "local_seeds sha (seeds(request_id \<mapsto> seed_of seeds fresh request_id)) t" "ns_runtime t = ns_runtime n"
    using request_local_fallback_run [OF warned assms(3)] by auto
  show ?thesis
  proof (cases "has_multi_modal_payload mm")
    case True
    then show ?thesis
      using assms Inr t
      by (cases "hash_multi_modal_obj repr (the mm)")
        (auto simp: get_cache_namespace_def adapter_cache_namespace_def hash_multi_modal_namespace_def
          payload_message_def seeds_after_def payload_source_def py_defs)
  next
    case False
    then show ?thesis
      using assms Inr
      by (auto simp: get_cache_namespace_def adapter_cache_namespace_def payload_message_def seeds_after_def
          payload_source_def py_defs)
  qed
qed

lemma encoded_is_no_fallback: "hash_multi_modal_obj repr v = Inr a \<Longrightarrow> a \<noteq> fallback_message runtime seed request_id"
  using mm_tag_prefix [of repr v a] by (cases v) (auto simp: fallback_message_def ascii_Cons)

lemma seed_of_length: "local_seeds sha seeds n \<Longrightarrow> length fresh = 32 \<Longrightarrow> length (seed_of seeds fresh request_id) = 32"
  by (auto simp: seed_of_def local_seeds_def intro: ranI split: option.split)

text \<open>The message of a payload tells where it comes from.\<close>

lemma payload_message_inj:
  assumes "payload_message repr runtime seeds fresh mm request_id = payload_message repr runtime seeds' fresh' mm' request_id'"
    and "payload_ok repr mm" "payload_ok repr mm'"
    and "length (seed_of seeds fresh request_id) = 32" "length (seed_of seeds' fresh' request_id') = 32"
  shows "payload_source repr seeds fresh mm request_id = payload_source repr seeds' fresh' mm' request_id'"
proof (cases "has_multi_modal_payload mm \<and> has_multi_modal_payload mm'")
  case True
  consider (both) a b where "hash_multi_modal_obj repr (the mm) = Inr a" "hash_multi_modal_obj repr (the mm') = Inr b"
    | (left) a e where "hash_multi_modal_obj repr (the mm) = Inr a" "hash_multi_modal_obj repr (the mm') = Inl e"
    | (right) e b where "hash_multi_modal_obj repr (the mm) = Inl e" "hash_multi_modal_obj repr (the mm') = Inr b"
    | (none) e e' where "hash_multi_modal_obj repr (the mm) = Inl e" "hash_multi_modal_obj repr (the mm') = Inl e'"
    by (metis sum.exhaust)
  then show ?thesis
  proof cases
    case both
    then have "a = b" "mm_ok (the mm)" "mm_ok (the mm')"
      using True assms(1-3) by (simp_all add: payload_message_def payload_ok_def)
    then have "mm_normal repr (the mm) = mm_normal repr (the mm')"
      using mm_splitsD(1) [OF mm_splits, of "the mm" "the mm'" repr a b "[]" "[]"] both by (simp add: number_ends_def)
    with both True show ?thesis by (simp add: payload_source_def)
  next
    case left
    then show ?thesis using encoded_is_no_fallback [OF left(1)] assms(1) True by (simp add: payload_message_def)
  next
    case right
    then show ?thesis using encoded_is_no_fallback [OF right(2)] assms(1) True by (auto simp: payload_message_def)
  next
    case none
    then show ?thesis
      using assms(1,4,5) True by (auto simp: payload_message_def payload_source_def fallback_message_def)
  qed
next
  case False
  then show ?thesis
    using assms(1) by (auto simp: payload_message_def payload_source_def split: if_splits sum.splits)
qed

lemma request_message_inj:
  assumes "request_message r a mm = request_message r' a' mm'" "length r = 32" "length r' = 32" "length a = length a'"
  shows "r = r' \<and> a = a' \<and> mm = mm'"
proof -
  have "r @ a @ (case mm of None \<Rightarrow> ascii ''text|'' | Some ns \<Rightarrow> ascii ''mm|'' @ ns) =
      r' @ a' @ (case mm' of None \<Rightarrow> ascii ''text|'' | Some ns \<Rightarrow> ascii ''mm|'' @ ns)"
    using assms(1) by (simp add: request_message_def)
  then have e: "r = r'" "a = a'" and m: "(case mm of None \<Rightarrow> ascii ''text|'' | Some ns \<Rightarrow> ascii ''mm|'' @ ns) =
      (case mm' of None \<Rightarrow> ascii ''text|'' | Some ns \<Rightarrow> ascii ''mm|'' @ ns)"
    using assms(2-4) by simp_all
  from m have "mm = mm'" by (cases mm; cases mm') (simp_all add: ascii_Cons)
  with e show ?thesis by simp
qed

section \<open>Properties\<close>

text \<open>
  C30: two multimodal inputs have the same encoding only if they are the same input, up to the order of
  the items of a dict and the difference between bytes and bytearray: no tag, length or number can be
  read in two ways, however the values are nested.
\<close>

theorem multi_modal_encoding_injective:
  assumes "hash_multi_modal_obj repr u = Inr m" "hash_multi_modal_obj repr v = Inr m" "mm_ok u" "mm_ok v"
  shows "mm_normal repr u = mm_normal repr v"
  using mm_splitsD(1) [OF mm_splits assms(3,4,1,2), of "[]" "[]"] by (simp add: number_ends_def)

lemma multi_modal_encoding_injective_witness:
  "mm_normal (\<lambda>_. []) (MMList [MMBytearray [1, 2], MMInt (-12)]) = mm_normal (\<lambda>_. []) (MMList [MMBytes [1, 2], MMInt (-12)])"
proof -
  let ?u = "MMList [MMBytearray [1, 2], MMInt (-12)]" and ?v = "MMList [MMBytes [1, 2], MMInt (-12)]"
  have "\<exists>m. hash_multi_modal_obj (\<lambda>_. []) ?u = Inr m" by (simp add: pack_len_def pack_uint_def)
  moreover have "hash_multi_modal_obj (\<lambda>_. []) ?v = hash_multi_modal_obj (\<lambda>_. []) ?u" by simp
  ultimately obtain m where "hash_multi_modal_obj (\<lambda>_. []) ?u = Inr m" "hash_multi_modal_obj (\<lambda>_. []) ?v = Inr m" by metis
  from multi_modal_encoding_injective [OF this] show ?thesis by simp
qed

text \<open>
  C31: requests share cached blocks only if they may. Let two requests get the same namespace, where the digest gives
  32 bytes and has no collision among the messages that the two calls hash, an encodable payload has the sizes of
  \<open>mm_ok\<close>, and \<open>os.urandom\<close> gives 32 bytes. Then they run on the same runtime with the same adapters, and both
  have no multimodal input, or the same one as far as the encoding goes, or both have one that cannot be encoded
  and it is the same request, with the namespace drawn from the same random bytes: those of this call, or those
  that an earlier call of the request drew and that are kept until it is released. After the call the kept namespaces
  are again those of the bytes drawn.
\<close>

theorem request_namespace_identifies:
  assumes "get_cache_namespace sha repr fresh mm request_id lora pa n = (Inr h, n1)"
    and "get_cache_namespace sha repr fresh' mm' request_id' lora' pa' n' = (Inr h, n1')"
    and "local_seeds sha seeds n" "local_seeds sha seeds' n'" "length fresh = 32" "length fresh' = 32"
    and "payload_ok repr mm" "payload_ok repr mm'" "length (ns_runtime n) = 32" "length (ns_runtime n') = 32"
    and "\<forall>m. is_digest (sha m)"
    and "inj_on sha (namespace_messages sha repr (ns_runtime n) seeds fresh mm request_id lora pa \<union>
      namespace_messages sha repr (ns_runtime n') seeds' fresh' mm' request_id' lora' pa')"
  shows "ns_runtime n = ns_runtime n' \<and> adapter_identity lora pa = adapter_identity lora' pa' \<and>
    payload_source repr seeds fresh mm request_id = payload_source repr seeds' fresh' mm' request_id' \<and>
    local_seeds sha (seeds_after repr seeds fresh mm request_id) n1"
proof -
  let ?p = "payload_message repr (ns_runtime n) seeds fresh mm request_id"
    and ?p' = "payload_message repr (ns_runtime n') seeds' fresh' mm' request_id'"
  let ?M = "namespace_messages sha repr (ns_runtime n) seeds fresh mm request_id lora pa \<union>
    namespace_messages sha repr (ns_runtime n') seeds' fresh' mm' request_id' lora' pa'"
  have inj: "x = y" if "sha x = sha y" "x \<in> ?M" "y \<in> ?M" for x y using assms(12) that by (auto dest: inj_onD)
  have dig: "length (sha m) = 32" for m using assms(11) by (simp add: is_digest_def)
  obtain m where m: "adapter_message lora pa = Inr m" "h = sha (request_message (ns_runtime n) (sha m) (map_option sha ?p))"
    "local_seeds sha (seeds_after repr seeds fresh mm request_id) n1"
    using get_cache_namespace_run [OF assms(1,3,5)] by blast
  obtain m' where m': "adapter_message lora' pa' = Inr m'" "h = sha (request_message (ns_runtime n') (sha m') (map_option sha ?p'))"
    using get_cache_namespace_run [OF assms(2,4,6)] by blast
  have "request_message (ns_runtime n) (sha m) (map_option sha ?p) = request_message (ns_runtime n') (sha m') (map_option sha ?p')"
    by (rule inj) (use m m' in \<open>simp_all add: namespace_messages_def Let_def\<close>)
  moreover have "length (sha m) = length (sha m')" by (simp add: dig)
  ultimately have r: "ns_runtime n = ns_runtime n'" "sha m = sha m'" "map_option sha ?p = map_option sha ?p'"
    using request_message_inj assms(9,10) by blast+
  have "m = m'" by (rule inj [OF r(2)]) (use m m' in \<open>simp_all add: namespace_messages_def Let_def\<close>)
  then have a: "adapter_identity lora pa = adapter_identity lora' pa'" using adapter_message_inj m(1) m'(1) by blast
  have "?p = ?p'"
  proof (cases ?p)
    case None
    then show ?thesis using r(3) by simp
  next
    case (Some x)
    then obtain y where y: "?p' = Some y" "sha x = sha y" using r(3) by (cases ?p') simp_all
    have "x = y" by (rule inj [OF y(2)]) (use Some y(1) in \<open>simp_all add: namespace_messages_def\<close>)
    then show ?thesis using Some y by simp
  qed
  then have "payload_source repr seeds fresh mm request_id = payload_source repr seeds' fresh' mm' request_id'"
    using payload_message_inj [OF _ assms(7,8) seed_of_length [OF assms(3,5)] seed_of_length [OF assms(4,6)]] r(1) by simp
  then show ?thesis using r(1) a m(3) by blast
qed

definition example_digest :: "bytes \<Rightarrow> bytes" where
  "example_digest m = word_of_nat (length m) # replicate 31 0"

definition example_namespaces :: namespaces where
  "example_namespaces = \<lparr>ns_runtime = replicate 32 1, ns_request_local = [], ns_warned = {}\<rparr>"

text \<open>A request whose payload cannot be encoded asks twice: the second time it is given what is kept for it.\<close>

lemma request_namespace_identifies_witness:
  "\<exists>h n1 n2. get_cache_namespace example_digest (\<lambda>_. []) (replicate 32 5) (Some MMOther) ''r1'' None None example_namespaces = (Inr h, n1) \<and>
     get_cache_namespace example_digest (\<lambda>_. []) (replicate 32 6) (Some MMOther) ''r1'' None None n1 = (Inr h, n2) \<and>
     payload_source (\<lambda>_. []) Map.empty (replicate 32 5) (Some MMOther) ''r1'' = RequestLocal (replicate 32 5) ''r1'' \<and>
     payload_source (\<lambda>_. []) [''r1'' \<mapsto> replicate 32 5] (replicate 32 6) (Some MMOther) ''r1'' = RequestLocal (replicate 32 5) ''r1'' \<and>
     local_seeds example_digest [''r1'' \<mapsto> replicate 32 5] n1"
proof -
  let ?n = example_namespaces and ?mm = "Some MMOther"
  let ?n1 = "snd (get_cache_namespace example_digest (\<lambda>_. []) (replicate 32 5) ?mm ''r1'' None None ?n)"
  let ?h = "case fst (get_cache_namespace example_digest (\<lambda>_. []) (replicate 32 5) ?mm ''r1'' None None ?n) of Inr h \<Rightarrow> h"
  let ?n2 = "snd (get_cache_namespace example_digest (\<lambda>_. []) (replicate 32 6) ?mm ''r1'' None None ?n1)"
  have run: "get_cache_namespace example_digest (\<lambda>_. []) (replicate 32 5) ?mm ''r1'' None None ?n = (Inr ?h, ?n1)"
    "get_cache_namespace example_digest (\<lambda>_. []) (replicate 32 6) ?mm ''r1'' None None ?n1 = (Inr ?h, ?n2)"
    by (rule run_pair, code_simp)+
  have has: "has_multi_modal_payload ?mm" by (simp add: has_multi_modal_payload_def)
  have src: "payload_source (\<lambda>_. []) Map.empty (replicate 32 5) ?mm ''r1'' = RequestLocal (replicate 32 5) ''r1''"
    "payload_source (\<lambda>_. []) [''r1'' \<mapsto> replicate 32 5] (replicate 32 6) ?mm ''r1'' = RequestLocal (replicate 32 5) ''r1''"
    using has by (simp_all add: payload_source_def seed_of_def)
  have seeds0: "local_seeds example_digest Map.empty ?n" by (simp add: example_namespaces_def local_seeds_init)
  then have "local_seeds example_digest (seeds_after (\<lambda>_. []) Map.empty (replicate 32 5) ?mm ''r1'') ?n1"
    using get_cache_namespace_run [OF run(1) seeds0] by (simp only: length_replicate) blast
  then have seeds1: "local_seeds example_digest [''r1'' \<mapsto> replicate 32 5] ?n1"
    by (simp only: seeds_after_def src payload_source.case)
  have rt: "ns_runtime ?n = replicate 32 1" "ns_runtime ?n1 = replicate 32 1" by code_simp+
  let ?F = "fallback_message (replicate 32 1) (replicate 32 5) ''r1''"
  let ?m = "ascii ''bi100-adapter-prefix-identity-v1|loranone|promptnone|''"
  let ?q = "request_message (replicate 32 1) (example_digest ?m) (Some (example_digest ?F))"
  have m: "adapter_message None None = Inr ?m" by (simp add: adapter_message_def adapter_bytes_def ascii_Cons)
  have msgs: "namespace_messages example_digest (\<lambda>_. []) (replicate 32 1) Map.empty (replicate 32 5) ?mm ''r1'' None None = {?F, ?m, ?q}"
    "namespace_messages example_digest (\<lambda>_. []) (replicate 32 1) [''r1'' \<mapsto> replicate 32 5] (replicate 32 6) ?mm ''r1'' None None = {?F, ?m, ?q}"
    using has m by (auto simp: namespace_messages_def payload_message_def seed_of_def)
  have "hd (example_digest ?F) \<noteq> hd (example_digest ?m)" "hd (example_digest ?F) \<noteq> hd (example_digest ?q)"
    "hd (example_digest ?m) \<noteq> hd (example_digest ?q)" by code_simp+
  then have inj: "inj_on example_digest ({?F, ?m, ?q} \<union> {?F, ?m, ?q})" by (auto simp: inj_on_def)
  have dig: "\<forall>x. is_digest (example_digest x)" by (simp add: is_digest_def example_digest_def)
  have ok: "payload_ok (\<lambda>_. []) ?mm" by (simp add: payload_ok_def)
  have "local_seeds example_digest (seeds_after (\<lambda>_. []) Map.empty (replicate 32 5) ?mm ''r1'') ?n1 \<and>
      payload_source (\<lambda>_. []) Map.empty (replicate 32 5) ?mm ''r1'' =
        payload_source (\<lambda>_. []) [''r1'' \<mapsto> replicate 32 5] (replicate 32 6) ?mm ''r1''"
    using request_namespace_identifies [OF run seeds0 seeds1 _ _ ok ok _ _ dig] inj rt msgs by simp
  then show ?thesis using run src seeds1 by blast
qed

end
