(* ===== verification/BlockManager.thy ===== *)
theory BlockManager
  imports BlockTable SequenceGroup CacheNamespace
begin

text \<open>
  \<^verbatim>\<open>vllm/core/block_manager_v2.py\<close>: the owner of the block tables of all sequences, with
  \<open>AllocStatus\<close> of \<^verbatim>\<open>vllm/core/interfaces.py\<close>, the check of \<^verbatim>\<open>vllm/core/block/utils.py\<close> and the two
  trackers at the end of \<^verbatim>\<open>vllm/core/block/prefix_caching_block.py\<close>. A block table lives in one dict and
  nowhere else, so it is kept there by value. The watermark is an exact fraction here. \<open>sha\<close> is the
  digest, \<open>repr\<close> the order of the keys of a mapping, \<open>fresh\<close> the random bytes of a request, \<open>lora\<close> and
  \<open>prompt_adapter\<close> the adapters of the group.
\<close>

section \<open>State\<close>

datatype alloc_status = OK | LATER | NEVER

type_synonym mm_sequence = "mm_value sequence"
type_synonym mm_group = "mm_value sequence_group"

record block_manager =
  bm_block_size :: int
  bm_num_total_gpu_blocks :: int
  bm_num_total_cpu_blocks :: int
  bm_sliding_window :: "int option"
  bm_max_block_sliding_window :: "int option"
  bm_watermark :: rat
  bm_enable_caching :: bool
  bm_watermark_blocks :: int
  bm_allocator :: cg_state
  bm_block_tables :: "(int, block_table) dict"
  bm_cross_block_tables :: "(string, block_table) dict"
  bm_namespaces :: namespaces
  bm_computed :: "(int, block_id list \<times> bool) dict"
  bm_last_access :: "(int, rat option) dict"

type_synonym 'a bm_py = "block_manager \<Rightarrow> (exn + 'a) \<times> block_manager"

text \<open>\<open>int(x)\<close> of a number that is not negative.\<close>

definition block_sliding_window :: "int option \<Rightarrow> int \<Rightarrow> exn + int option" where
  "block_sliding_window sliding_window block_size = (case sliding_window of
     None \<Rightarrow> Inr None
   | Some w \<Rightarrow> echeck ZeroDivisionError (block_size \<noteq> 0) (Inr (Some (w div block_size + 1 + 1))))"

definition bm_init :: "(bytes \<Rightarrow> bytes) \<Rightarrow> (string, string) dict \<Rightarrow> int \<Rightarrow> int \<Rightarrow> int \<Rightarrow> rat \<Rightarrow> int option \<Rightarrow> bool
    \<Rightarrow> exn + block_manager" where
  "bm_init sha os_environ block_size num_gpu_blocks num_cpu_blocks watermark sliding_window enable_caching =
     ebind (block_sliding_window sliding_window block_size) (\<lambda>max_block_sliding_window.
     echeck AssertionError (0 \<le> watermark)
    (ebind (cg_create os_environ (if enable_caching then ''prefix_caching'' else ''naive'')
        num_gpu_blocks num_cpu_blocks block_size) (\<lambda>allocator.
     ebind (build_runtime_cache_namespace sha os_environ block_size) (\<lambda>runtime.
     Inr \<lparr>bm_block_size = block_size, bm_num_total_gpu_blocks = num_gpu_blocks,
       bm_num_total_cpu_blocks = num_cpu_blocks, bm_sliding_window = sliding_window,
       bm_max_block_sliding_window = max_block_sliding_window, bm_watermark = watermark,
       bm_enable_caching = enable_caching, bm_watermark_blocks = \<lfloor>watermark * of_int num_gpu_blocks\<rfloor>,
       bm_allocator = allocator, bm_block_tables = [], bm_cross_block_tables = [],
       bm_namespaces = \<lparr>ns_runtime = runtime, ns_request_local = [], ns_warned = {}\<rparr>,
       bm_computed = [], bm_last_access = []\<rparr>))))"

text \<open>A call on the allocator, on a table that is not in a dict yet, and on a table of a dict.\<close>

definition on_allocator :: "(cg_state, 'a) py \<Rightarrow> 'a bm_py" where
  "on_allocator = zoom bm_allocator (\<lambda>c s. s\<lparr>bm_allocator := c\<rparr>)"

definition with_table :: "block_table \<Rightarrow> 'a bt_py \<Rightarrow> ('a \<times> block_table) bm_py" where
  "with_table t m = on_allocator (\<lambda>c. case m (t, c) of
     (Inl e, _, c') \<Rightarrow> (Inl e, c') | (Inr x, t', c') \<Rightarrow> (Inr (x, t'), c'))"

definition on_table :: "int \<Rightarrow> 'a bt_py \<Rightarrow> 'a bm_py" where
  "on_table seq_id m = (\<lambda>s. case map_of (bm_block_tables s) seq_id of
     None \<Rightarrow> (Inl KeyError, s)
   | Some t \<Rightarrow> (case m (t, bm_allocator s) of (r, t', c) \<Rightarrow>
       (r, s\<lparr>bm_allocator := c, bm_block_tables := AList.update seq_id t' (bm_block_tables s)\<rparr>)))"

definition on_cross_table :: "string \<Rightarrow> 'a bt_py \<Rightarrow> 'a bm_py" where
  "on_cross_table request_id m = (\<lambda>s. case map_of (bm_cross_block_tables s) request_id of
     None \<Rightarrow> (Inl KeyError, s)
   | Some t \<Rightarrow> (case m (t, bm_allocator s) of (r, t', c) \<Rightarrow>
       (r, s\<lparr>bm_allocator := c, bm_cross_block_tables := AList.update request_id t' (bm_cross_block_tables s)\<rparr>)))"

definition seq_get_token_ids :: "mm_sequence \<Rightarrow> int list" where
  "seq_get_token_ids seq = sd_cached_all_token_ids (sq_data seq)"

section \<open>The trackers\<close>

definition cb_add_seq :: "int \<Rightarrow> unit bm_py" where
  "cb_add_seq seq_id =
     andthen (bind (gets (\<lambda>s. map_of (bm_computed s) seq_id)) (\<lambda>x. guard AssertionError (x = None)))
       (modify (\<lambda>s. s\<lparr>bm_computed := AList.update seq_id ([], False) (bm_computed s)\<rparr>))"

definition cb_remove_seq :: "int \<Rightarrow> unit bm_py" where
  "cb_remove_seq seq_id =
     andthen (bind (gets (\<lambda>s. map_of (bm_computed s) seq_id)) (\<lambda>x. guard AssertionError (x \<noteq> None)))
       (modify (\<lambda>s. s\<lparr>bm_computed := AList.delete seq_id (bm_computed s)\<rparr>))"

definition get_cached_computed_blocks_and_update :: "int \<Rightarrow> block_id list \<Rightarrow> block_id list bm_py" where
  "get_cached_computed_blocks_and_update seq_id block_ids =
     bind (gets (\<lambda>s. map_of (bm_computed s) seq_id)) (\<lambda>entry.
     bind (from_option AssertionError entry) (\<lambda>(prev_computed_block_ids, has_gap).
     if has_gap then return prev_computed_block_ids
     else
       let num_cur_blocks = int (length block_ids) - 1
       in andthen (guard AssertionError (0 \<le> num_cur_blocks))
         (if num_cur_blocks \<le> int (length prev_computed_block_ids) then
            andthen (guard AssertionError (int (length prev_computed_block_ids) = num_cur_blocks))
              (return prev_computed_block_ids)
          else
            bind (on_allocator (cg_get_computed_block_ids prev_computed_block_ids block_ids True))
              (\<lambda>computed_block_ids.
            andthen (modify (\<lambda>s. s\<lparr>bm_computed := AList.update seq_id
                (computed_block_ids, int (length computed_block_ids) < num_cur_blocks) (bm_computed s)\<rparr>))
              (return computed_block_ids)))))"

definition la_add_seq :: "int \<Rightarrow> unit bm_py" where
  "la_add_seq seq_id =
     andthen (bind (gets (\<lambda>s. map_of (bm_last_access s) seq_id)) (\<lambda>x. guard AssertionError (x = None)))
       (modify (\<lambda>s. s\<lparr>bm_last_access := AList.update seq_id None (bm_last_access s)\<rparr>))"

definition la_remove_seq :: "int \<Rightarrow> unit bm_py" where
  "la_remove_seq seq_id =
     andthen (bind (gets (\<lambda>s. map_of (bm_last_access s) seq_id)) (\<lambda>x. guard AssertionError (x \<noteq> None)))
       (modify (\<lambda>s. s\<lparr>bm_last_access := AList.delete seq_id (bm_last_access s)\<rparr>))"

definition update_last_access :: "int \<Rightarrow> rat \<Rightarrow> unit bm_py" where
  "update_last_access seq_id time =
     andthen (bind (gets (\<lambda>s. map_of (bm_last_access s) seq_id)) (\<lambda>x. guard AssertionError (x \<noteq> None)))
       (modify (\<lambda>s. s\<lparr>bm_last_access := AList.update seq_id (Some time) (bm_last_access s)\<rparr>))"

definition update_seq_blocks_last_access :: "int \<Rightarrow> block_id list \<Rightarrow> unit bm_py" where
  "update_seq_blocks_last_access seq_id block_ids =
     bind (gets (\<lambda>s. map_of (bm_last_access s) seq_id)) (\<lambda>entry.
     bind (from_option AssertionError entry) (\<lambda>ts. case ts of
       None \<Rightarrow> return ()
     | Some t \<Rightarrow> on_allocator (cg_mark_blocks_as_accessed block_ids t)))"

definition track_seq :: "int \<Rightarrow> unit bm_py" where
  "track_seq seq_id = andthen (cb_add_seq seq_id) (la_add_seq seq_id)"

section \<open>Allocation\<close>

text \<open>The block manager has \<open>max_block_sliding_window\<close>, which is the attribute that the check finds.\<close>

definition check_encdec :: "mm_group \<Rightarrow> block_manager \<Rightarrow> exn + unit" where
  "check_encdec seq_group s =
     (if sg_is_encoder_decoder seq_group then
        echeck NotImplementedError (bm_max_block_sliding_window s = None)
          (echeck NotImplementedError (\<not> bm_enable_caching s) (Inr ()))
      else Inr ())"

definition can_allocate :: "mm_group \<Rightarrow> int \<Rightarrow> block_manager \<Rightarrow> exn + alloc_status" where
  "can_allocate seq_group num_lookahead_slots s =
     ebind (check_encdec seq_group s) (\<lambda>_.
     ebind (sg_get_seqs (Some WAITING) seq_group) (\<lambda>waiting.
     ebind (nth_or_raise waiting 0) (\<lambda>seq.
     ebind (get_num_required_blocks (seq_get_token_ids seq) (bm_block_size s) num_lookahead_slots) (\<lambda>n.
     ebind (case sg_encoder_seq seq_group of None \<Rightarrow> Inr n
            | Some encoder_seq \<Rightarrow>
                ebind (get_num_required_blocks (seq_get_token_ids encoder_seq) (bm_block_size s) 0)
                  (\<lambda>k. Inr (n + k))) (\<lambda>n.
     let num_required_blocks = (case bm_max_block_sliding_window s of None \<Rightarrow> n | Some w \<Rightarrow> min n w);
         num_free_gpu_blocks = int (cg_get_num_free_blocks GPU (bm_allocator s))
     in Inr (if bm_num_total_gpu_blocks s - num_required_blocks < bm_watermark_blocks s then NEVER
             else if bm_watermark_blocks s \<le> num_free_gpu_blocks - num_required_blocks then OK
             else LATER))))))"

definition allocate_sequence :: "(bytes \<Rightarrow> bytes) \<Rightarrow> mm_sequence \<Rightarrow> bytes option \<Rightarrow> block_table bm_py" where
  "allocate_sequence sha seq cache_namespace =
     bind (gets id) (\<lambda>s.
     bind (on_allocator (bt_new (bm_block_size s) [] (bm_max_block_sliding_window s) cache_namespace)) (\<lambda>t.
     if seq_get_token_ids seq \<noteq> []
     then bind (with_table t (bt_allocate sha (seq_get_token_ids seq) GPU)) (\<lambda>(_, t'). return t')
     else return t))"

text \<open>\<open>_get_cache_namespace\<close>; the adapters are hashed before the payload of the sequence is read.\<close>

definition bm_get_cache_namespace :: "(bytes \<Rightarrow> bytes) \<Rightarrow> (mm_value \<Rightarrow> string) \<Rightarrow> bytes \<Rightarrow> adapter option
    \<Rightarrow> adapter option \<Rightarrow> string \<Rightarrow> mm_sequence \<Rightarrow> bytes bm_py" where
  "bm_get_cache_namespace sha repr fresh lora prompt_adapter request_id seq =
     bind (lift_sum (adapter_cache_namespace sha lora prompt_adapter)) (\<lambda>_.
     bind (lift_sum (seq_multi_modal_data seq)) (\<lambda>multi_modal_data.
     zoom bm_namespaces (\<lambda>n s. s\<lparr>bm_namespaces := n\<rparr>)
       (get_cache_namespace sha repr fresh multi_modal_data request_id lora prompt_adapter)))"

definition put_table :: "int \<Rightarrow> block_table \<Rightarrow> unit bm_py" where
  "put_table seq_id t = modify (\<lambda>s. s\<lparr>bm_block_tables := AList.update seq_id t (bm_block_tables s)\<rparr>)"

text \<open>\<open>self.block_tables[child] = block_table.fork()\<close>, and the child is tracked.\<close>

definition fork_into :: "block_table \<Rightarrow> int \<Rightarrow> unit bm_py" where
  "fork_into t child_id =
     bind (with_table t bt_fork) (\<lambda>(child, _).
     andthen (put_table child_id child) (track_seq child_id))"

definition bm_allocate :: "(bytes \<Rightarrow> bytes) \<Rightarrow> (mm_value \<Rightarrow> string) \<Rightarrow> bytes \<Rightarrow> adapter option \<Rightarrow> adapter option
    \<Rightarrow> mm_group \<Rightarrow> unit bm_py" where
  "bm_allocate sha repr fresh lora prompt_adapter seq_group =
     bind (lift_sum (sg_get_seqs (Some WAITING) seq_group)) (\<lambda>waiting_seqs.
     bind (gets (\<lambda>s. keys_of (bm_block_tables s))) (\<lambda>ks.
     andthen (guard AssertionError (sq_seq_id ` set waiting_seqs \<inter> ks = {}))
    (bind (lift_sum (nth_or_raise waiting_seqs 0)) (\<lambda>seq.
     bind (bm_get_cache_namespace sha repr fresh lora prompt_adapter (sg_request_id seq_group) seq) (\<lambda>ns.
     bind (allocate_sequence sha seq (Some ns)) (\<lambda>t.
     andthen (put_table (sq_seq_id seq) t)
    (andthen (track_seq (sq_seq_id seq))
    (andthen (for_each (tl waiting_seqs) (\<lambda>seq. fork_into t (sq_seq_id seq)))
    (andthen (bind (gets (\<lambda>s. map_of (bm_cross_block_tables s) (sg_request_id seq_group)))
        (\<lambda>x. guard AssertionError (x = None)))
    (andthen (bind (gets (check_encdec seq_group)) lift_sum)
    (case sg_encoder_seq seq_group of None \<Rightarrow> return ()
     | Some encoder_seq \<Rightarrow>
         bind (bm_get_cache_namespace sha repr fresh lora prompt_adapter (sg_request_id seq_group)
             encoder_seq) (\<lambda>ns.
         bind (allocate_sequence sha encoder_seq (Some ns)) (\<lambda>t.
         modify (\<lambda>s. s\<lparr>bm_cross_block_tables :=
           AList.update (sg_request_id seq_group) t (bm_cross_block_tables s)\<rparr>))))))))))))))"

section \<open>Appending\<close>

text \<open>\<open>num_touched_blocks += ...\<close> over the sequences; also the blocks, which swapping needs.\<close>

fun touched_blocks :: "int \<Rightarrow> mm_sequence list \<Rightarrow> block_manager \<Rightarrow> exn + int \<times> addr list" where
  "touched_blocks num_lookahead_slots [] s = Inr (0, [])"
| "touched_blocks num_lookahead_slots (seq # seqs) s = (case map_of (bm_block_tables s) (sq_seq_id seq) of
     None \<Rightarrow> Inl KeyError
   | Some t \<Rightarrow>
       ebind (get_num_blocks_touched_by_append_slots (get_unseen_token_ids (seq_get_token_ids seq) t)
           num_lookahead_slots t) (\<lambda>n.
       ebind (touched_blocks num_lookahead_slots seqs s) (\<lambda>(k, blocks).
       Inr (n + k, bt_blocks t @ blocks))))"

definition can_append_slots :: "mm_group \<Rightarrow> int \<Rightarrow> block_manager \<Rightarrow> exn + bool" where
  "can_append_slots seq_group num_lookahead_slots s =
     ebind (sg_get_seqs (Some RUNNING) seq_group) (\<lambda>seqs.
     ebind (touched_blocks num_lookahead_slots seqs s) (\<lambda>(num_touched_blocks, _).
     Inr (num_touched_blocks \<le> int (cg_get_num_free_blocks GPU (bm_allocator s)))))"

definition append_slots :: "(bytes \<Rightarrow> bytes) \<Rightarrow> mm_sequence \<Rightarrow> int \<Rightarrow> (block_id \<times> block_id) list bm_py" where
  "append_slots sha seq num_lookahead_slots =
     andthen (on_table (sq_seq_id seq)
       (bind (tab (get_unseen_token_ids (seq_get_token_ids seq))) (\<lambda>token_ids.
        bt_append_token_ids sha token_ids num_lookahead_slots
          (Some (sd_num_computed_tokens (sq_data seq))))))
       (on_allocator cg_clear_copy_on_writes)"

section \<open>Freeing and forking\<close>

definition bm_free :: "(bytes \<Rightarrow> bytes) \<Rightarrow> int \<Rightarrow> unit bm_py" where
  "bm_free sha seq_id =
     bind (gets (\<lambda>s. map_of (bm_block_tables s) seq_id)) (\<lambda>table. case table of
       None \<Rightarrow> return ()
     | Some t \<Rightarrow>
         andthen (update_seq_blocks_last_access seq_id (bt_block_ids t))
        (andthen (la_remove_seq seq_id)
        (andthen (cb_remove_seq seq_id)
        (andthen (on_table seq_id (bt_free sha))
          (modify (\<lambda>s. s\<lparr>bm_block_tables := AList.delete seq_id (bm_block_tables s)\<rparr>))))))"

definition free_cross :: "(bytes \<Rightarrow> bytes) \<Rightarrow> string \<Rightarrow> unit bm_py" where
  "free_cross sha request_id =
     bind (gets (\<lambda>s. map_of (bm_cross_block_tables s) request_id)) (\<lambda>table. case table of
       None \<Rightarrow> return ()
     | Some t \<Rightarrow>
         andthen (on_cross_table request_id (bt_free sha))
           (modify (\<lambda>s. s\<lparr>bm_cross_block_tables := AList.delete request_id (bm_cross_block_tables s)\<rparr>)))"

definition bm_fork :: "int \<Rightarrow> int \<Rightarrow> unit bm_py" where
  "bm_fork parent_id child_id =
     bind (gets (\<lambda>s. map_of (bm_block_tables s) parent_id)) (\<lambda>table. case table of
       None \<Rightarrow> return ()
     | Some t \<Rightarrow> fork_into t child_id)"

definition bm_get_block_table :: "int \<Rightarrow> block_manager \<Rightarrow> exn + block_id list" where
  "bm_get_block_table seq_id s = (case map_of (bm_block_tables s) seq_id of
     None \<Rightarrow> Inl KeyError | Some t \<Rightarrow> Inr (bt_block_ids t))"

definition get_cross_block_table :: "string \<Rightarrow> block_manager \<Rightarrow> exn + block_id list" where
  "get_cross_block_table request_id s = (case map_of (bm_cross_block_tables s) request_id of
     None \<Rightarrow> Inl AssertionError | Some t \<Rightarrow> Inr (bt_block_ids t))"

section \<open>Computed blocks\<close>

definition access_all_blocks_in_seq :: "int \<Rightarrow> rat \<Rightarrow> unit bm_py" where
  "access_all_blocks_in_seq seq_id now =
     bind (gets bm_enable_caching) (\<lambda>enable_caching.
     if enable_caching then update_last_access seq_id now else return ())"

definition bm_mark_blocks_as_computed :: "unit bm_py" where
  "bm_mark_blocks_as_computed = on_allocator (cg_mark_blocks_as_computed [])"

fun computed_of_seqs :: "int list \<Rightarrow> block_id list list bm_py" where
  "computed_of_seqs [] = return []"
| "computed_of_seqs (seq_id # seq_ids) =
     bind (gets (bm_get_block_table seq_id)) (\<lambda>r.
     bind (lift_sum r) (\<lambda>physical_block_ids.
     bind (get_cached_computed_blocks_and_update seq_id physical_block_ids) (\<lambda>computed.
     bind (computed_of_seqs seq_ids) (\<lambda>rest.
     return (computed # rest)))))"

definition get_common_computed_block_ids :: "int list \<Rightarrow> block_id list bm_py" where
  "get_common_computed_block_ids seq_ids =
     bind (computed_of_seqs seq_ids) (\<lambda>computed_seq_block_ids.
     gets (\<lambda>s. cg_get_common_computed_block_ids computed_seq_block_ids (bm_allocator s)))"

definition bm_get_content_hashes :: "(bytes \<Rightarrow> bytes) \<Rightarrow> int \<Rightarrow> content_hash list bm_py" where
  "bm_get_content_hashes sha seq_id = on_table seq_id (bt_get_content_hashes sha)"

definition bm_get_and_reset_prefix_swaps :: "((int \<times> int) list \<times> (int \<times> int) list) bm_py" where
  "bm_get_and_reset_prefix_swaps = on_allocator get_and_reset_prefix_swaps"

definition bm_begin_prefix_cache_step :: "unit bm_py" where
  "bm_begin_prefix_cache_step = on_allocator begin_prefix_cache_step"

section \<open>Swapping\<close>

definition can_swap :: "(bytes \<Rightarrow> bytes) \<Rightarrow> mm_group \<Rightarrow> device \<Rightarrow> sequence_status \<Rightarrow> int \<Rightarrow> alloc_status bm_py" where
  "can_swap sha seq_group d status num_lookahead_slots =
     bind (lift_sum (sg_get_seqs (Some status) seq_group)) (\<lambda>seqs.
     bind (gets (touched_blocks num_lookahead_slots seqs)) (\<lambda>r.
     bind (lift_sum r) (\<lambda>(touched, blocks).
     bind (on_allocator (cg_get_num_full_blocks_touched sha blocks d)) (\<lambda>full.
     let num_blocks_touched = touched + int full
     in gets (\<lambda>s.
       let watermark_blocks = (if d = GPU then bm_watermark_blocks s else 0)
       in if int (cg_get_num_total_blocks d (bm_allocator s)) < num_blocks_touched then NEVER
          else if watermark_blocks \<le> int (cg_get_num_free_blocks d (bm_allocator s)) - num_blocks_touched
          then OK else LATER)))))"

definition can_swap_in :: "(bytes \<Rightarrow> bytes) \<Rightarrow> mm_group \<Rightarrow> int \<Rightarrow> alloc_status bm_py" where
  "can_swap_in sha seq_group num_lookahead_slots =
     bind (gets (\<lambda>s. content_offload_enabled (bm_allocator s))) (\<lambda>offload.
     if offload then return NEVER else can_swap sha seq_group GPU SWAPPED num_lookahead_slots)"

definition can_swap_out :: "(bytes \<Rightarrow> bytes) \<Rightarrow> mm_group \<Rightarrow> bool bm_py" where
  "can_swap_out sha seq_group =
     bind (gets (\<lambda>s. content_offload_enabled (bm_allocator s))) (\<lambda>offload.
     if offload then return False
     else bind (can_swap sha seq_group CPU RUNNING 0) (\<lambda>alloc_status. return (alloc_status = OK)))"

fun physical_moves :: "device \<Rightarrow> device \<Rightarrow> (block_id \<times> block_id) list \<Rightarrow> (cg_state, (int \<times> int) list) py" where
  "physical_moves src dst [] = return []"
| "physical_moves src dst ((a, b) # moves) =
     bind (cg_get_physical_block_id src a) (\<lambda>x.
     bind (cg_get_physical_block_id dst b) (\<lambda>y.
     bind (physical_moves src dst moves) (\<lambda>rest. return ((x, y) # rest))))"

text \<open>The dict comprehension keeps the position of a first key and the value of the last one.\<close>

definition dict_of :: "('k \<times> 'v) list \<Rightarrow> ('k, 'v) dict" where
  "dict_of xs = fold (\<lambda>(k, v). AList.update k v) xs []"

fun swap_seqs :: "(bytes \<Rightarrow> bytes) \<Rightarrow> device \<Rightarrow> device \<Rightarrow> mm_sequence list \<Rightarrow> (int \<times> int) list bm_py" where
  "swap_seqs sha src dst [] = return []"
| "swap_seqs sha src dst (seq # seqs) =
     bind (gets (\<lambda>s. map_of (bm_block_tables s) (sq_seq_id seq))) (\<lambda>table.
     bind (from_option KeyError table) (\<lambda>t.
     if bt_blocks t = [] then swap_seqs sha src dst seqs
     else
       bind (on_allocator (cg_swap sha (bt_blocks t) src dst)) (\<lambda>seq_swap_mapping.
       andthen (on_table (sq_seq_id seq) (blist_update (bt_blocks t)))
      (bind (on_allocator (physical_moves src dst seq_swap_mapping)) (\<lambda>moves.
       bind (swap_seqs sha src dst seqs) (\<lambda>rest. return (dict_of moves @ rest))))))) "

definition swap_in :: "(bytes \<Rightarrow> bytes) \<Rightarrow> mm_group \<Rightarrow> (int \<times> int) list bm_py" where
  "swap_in sha seq_group =
     bind (lift_sum (sg_get_seqs (Some SWAPPED) seq_group)) (swap_seqs sha CPU GPU)"

definition swap_out :: "(bytes \<Rightarrow> bytes) \<Rightarrow> mm_group \<Rightarrow> (int \<times> int) list bm_py" where
  "swap_out sha seq_group =
     bind (lift_sum (sg_get_seqs (Some RUNNING) seq_group)) (swap_seqs sha GPU CPU)"

definition get_num_free_gpu_blocks :: "block_manager \<Rightarrow> nat" where
  "get_num_free_gpu_blocks s = cg_get_num_free_blocks GPU (bm_allocator s)"

definition get_num_free_cpu_blocks :: "block_manager \<Rightarrow> nat" where
  "get_num_free_cpu_blocks s = cg_get_num_free_blocks CPU (bm_allocator s)"

definition bm_get_prefix_cache_hit_rate :: "device \<Rightarrow> block_manager \<Rightarrow> exn + rat" where
  "bm_get_prefix_cache_hit_rate d s = cg_get_prefix_cache_hit_rate d (bm_allocator s)"

section \<open>The trackers follow the tables\<close>

definition tracked :: "bool \<Rightarrow> (int \<rightharpoonup> 'a) \<Rightarrow> (int \<rightharpoonup> 'b) \<Rightarrow> (int \<rightharpoonup> 'c) \<Rightarrow> bool" where
  "tracked every tables computed accessed \<longleftrightarrow>
     dom computed = dom accessed \<and> dom computed \<subseteq> dom tables \<and> (every \<longrightarrow> dom tables \<subseteq> dom computed)"

lemma tracked_known:
  "T i = Some x \<Longrightarrow> tracked u (T(i \<mapsto> t)) C L = tracked u T C L"
  "C i = Some y \<Longrightarrow> tracked u T (C(i \<mapsto> c)) L = tracked u T C L"
  "L i = Some z \<Longrightarrow> tracked u T C (L(i \<mapsto> l)) = tracked u T C L"
  by (simp_all add: tracked_def insert_absorb domI)

lemma tracked_together: "tracked u T C L \<Longrightarrow> C i = None \<longleftrightarrow> L i = None"
  by (metis tracked_def domIff)

lemma tracked_table: "tracked u T C L \<Longrightarrow> C i = Some c \<Longrightarrow> tracked u (T(i \<mapsto> t)) C L"
proof -
  assume k: "tracked u T C L" "C i = Some c"
  then obtain x where "T i = Some x" unfolding tracked_def by blast
  then show ?thesis using tracked_known(1) k(1) by metis
qed

lemma tracked_new: "tracked u T C L \<Longrightarrow> tracked u (T(i \<mapsto> t)) (C(i \<mapsto> c)) (L(i \<mapsto> l))"
  unfolding tracked_def by (simp; blast)

lemma tracked_drop:
  assumes "tracked u T C L"
  shows "tracked u (T(i := None)) (C(i := None)) (L(i := None))" "tracked False T (C(i := None)) (L(i := None))"
    "tracked False T C L"
  using assms unfolding tracked_def by (simp_all; blast)+

definition tracked_seqs :: "bool \<Rightarrow> block_manager \<Rightarrow> bool" where
  "tracked_seqs every s \<longleftrightarrow>
     tracked every (map_of (bm_block_tables s)) (map_of (bm_computed s)) (map_of (bm_last_access s))"

abbreviation keeps_tracked :: "bool \<Rightarrow> 'a bm_py \<Rightarrow> block_manager \<Rightarrow> bool" where
  "keeps_tracked u m s \<equiv> wp m (\<lambda>_. tracked_seqs u) (\<lambda>_. tracked_seqs u) s"

lemma wp_on_allocator:
  "(\<And>x c. Q x (s\<lparr>bm_allocator := c\<rparr>)) \<Longrightarrow> (\<And>e c. E e (s\<lparr>bm_allocator := c\<rparr>)) \<Longrightarrow> wp (on_allocator m) Q E s"
  by (simp add: on_allocator_def wp_zoom) (simp add: wp_def split: prod.splits sum.splits)

lemma wp_with_table:
  "(\<And>x c. Q x (s\<lparr>bm_allocator := c\<rparr>)) \<Longrightarrow> (\<And>e c. E e (s\<lparr>bm_allocator := c\<rparr>)) \<Longrightarrow> wp (with_table t m) Q E s"
  unfolding with_table_def by (rule wp_on_allocator)

lemma wp_on_table:
  assumes "\<And>x c t. map_of (bm_block_tables s) i \<noteq> None \<Longrightarrow>
      Q x (s\<lparr>bm_allocator := c, bm_block_tables := AList.update i t (bm_block_tables s)\<rparr>)"
    and "\<And>e c t. map_of (bm_block_tables s) i \<noteq> None \<Longrightarrow>
      E e (s\<lparr>bm_allocator := c, bm_block_tables := AList.update i t (bm_block_tables s)\<rparr>)"
    and "E KeyError s"
  shows "wp (on_table i m) Q E s"
  using assms by (auto simp: wp_def on_table_def split: option.split prod.split sum.split)

lemma wp_on_cross_table:
  assumes "\<And>x c d. Q x (s\<lparr>bm_allocator := c, bm_cross_block_tables := d\<rparr>)"
    and "\<And>e c d. E e (s\<lparr>bm_allocator := c, bm_cross_block_tables := d\<rparr>)" and "E KeyError s"
  shows "wp (on_cross_table i m) Q E s"
  using assms by (auto simp: wp_def on_cross_table_def split: option.split prod.split sum.split)

lemma tracked_frame [simp]:
  "tracked_seqs u (s\<lparr>bm_allocator := c\<rparr>) = tracked_seqs u s"
  "tracked_seqs u (s\<lparr>bm_namespaces := n\<rparr>) = tracked_seqs u s"
  "tracked_seqs u (s\<lparr>bm_cross_block_tables := d\<rparr>) = tracked_seqs u s"
  by (simp_all add: tracked_seqs_def)

lemma tracked_put_known [simp]:
  "map_of (bm_block_tables s) i = Some x \<Longrightarrow>
   tracked_seqs u (s\<lparr>bm_block_tables := AList.update i t (bm_block_tables s)\<rparr>) = tracked_seqs u s"
  "map_of (bm_block_tables s) i = Some x \<Longrightarrow>
   tracked_seqs u (s\<lparr>bm_allocator := c, bm_block_tables := AList.update i t (bm_block_tables s)\<rparr>) = tracked_seqs u s"
  by (simp_all add: tracked_seqs_def dict_simps tracked_known)

lemma on_allocator_keeps: "tracked_seqs u s \<Longrightarrow> keeps_tracked u (on_allocator m) s"
  by (rule wp_on_allocator) simp_all

lemma zoom_namespaces_keeps:
  "tracked_seqs u s \<Longrightarrow> keeps_tracked u (zoom bm_namespaces (\<lambda>n s. s\<lparr>bm_namespaces := n\<rparr>) m) s"
  by (simp add: wp_zoom) (simp add: wp_def split: prod.splits sum.splits)

lemma put_and_track_keeps:
  assumes "tracked_seqs u s"
  shows "keeps_tracked u (andthen (put_table i t) (track_seq i)) s"
proof -
  note k = assms [unfolded tracked_seqs_def]
  show ?thesis
  proof (cases "map_of (bm_computed s) i")
    case None
    moreover from this have "map_of (bm_last_access s) i = None" using tracked_together [OF k] by blast
    ultimately show ?thesis
      by (simp add: put_table_def track_seq_def cb_add_seq_def la_add_seq_def wp_simps tracked_seqs_def dict_simps
        tracked_new [OF k])
  next
    case (Some c)
    then show ?thesis
      by (simp add: put_table_def track_seq_def cb_add_seq_def la_add_seq_def wp_simps tracked_seqs_def dict_simps
        tracked_table [OF k])
  qed
qed

lemma fork_into_keeps: "tracked_seqs u s \<Longrightarrow> keeps_tracked u (fork_into t i) s"
  unfolding fork_into_def wp_bind
  by (rule wp_with_table) (auto intro: put_and_track_keeps split: prod.split)

lemma get_namespace_keeps:
  "tracked_seqs u s \<Longrightarrow> keeps_tracked u (bm_get_cache_namespace sha repr fresh lora pa r q) s"
  unfolding bm_get_cache_namespace_def wp_simps
  by (auto simp: zoom_namespaces_keeps [unfolded wp_zoom] split: sum.split) (simp add: wp_def split: prod.splits sum.splits)

lemma allocate_sequence_keeps: "tracked_seqs u s \<Longrightarrow> keeps_tracked u (allocate_sequence sha q ns) s"
  unfolding allocate_sequence_def wp_bind wp_gets
  by (rule wp_on_allocator) (auto simp: wp_simps intro!: wp_with_table)

lemma keeps_bind:
  "keeps_tracked u m s \<Longrightarrow> (\<And>x t. tracked_seqs u t \<Longrightarrow> keeps_tracked u (k x) t) \<Longrightarrow> keeps_tracked u (bind m k) s"
  unfolding wp_bind by (erule wp_mono) auto

lemma keeps_andthen:
  "keeps_tracked u m s \<Longrightarrow> (\<And>t. tracked_seqs u t \<Longrightarrow> keeps_tracked u k t) \<Longrightarrow> keeps_tracked u (andthen m k) s"
  unfolding andthen_def by (rule keeps_bind)

lemma keeps_pure: "tracked_seqs u s \<Longrightarrow> keeps_tracked u (gets f) s" "tracked_seqs u s \<Longrightarrow> keeps_tracked u (guard e b) s"
  "tracked_seqs u s \<Longrightarrow> keeps_tracked u (lift_sum r) s" "tracked_seqs u s \<Longrightarrow> keeps_tracked u (return x) s"
  by (simp_all add: wp_simps split: sum.split)

lemma andthen_assoc: "andthen (andthen m k) l = andthen m (andthen k l)"
  by (simp add: andthen_def bind_def fun_eq_iff split: prod.split sum.split)

lemma allocate_cross_keeps:
  "tracked_seqs u s \<Longrightarrow> keeps_tracked u (bind (bm_get_cache_namespace sha repr fresh lora pa r q) (\<lambda>ns.
     bind (allocate_sequence sha q (Some ns)) (\<lambda>t. modify (\<lambda>s. s\<lparr>bm_cross_block_tables :=
       AList.update r t (bm_cross_block_tables s)\<rparr>)))) s"
  by (intro keeps_bind get_namespace_keeps allocate_sequence_keeps) (simp_all add: wp_simps)

lemma bm_allocate_keeps:
  assumes "tracked_seqs u s"
  shows "keeps_tracked u (bm_allocate sha repr fresh lora pa g) s"
  unfolding bm_allocate_def andthen_assoc [symmetric, of "put_table i t" "track_seq i" for i t]
  by (intro put_and_track_keeps keeps_bind keeps_andthen keeps_pure get_namespace_keeps allocate_sequence_keeps
      wp_for_each fork_into_keeps assms) (auto split: option.split intro: allocate_cross_keeps keeps_pure)

lemma get_cached_keeps:
  assumes "tracked_seqs u s"
  shows "keeps_tracked u (get_cached_computed_blocks_and_update i ids) s"
  using assms unfolding get_cached_computed_blocks_and_update_def
  by (auto simp: wp_simps Let_def tracked_seqs_def dict_simps tracked_known
      intro!: wp_on_allocator split: option.split prod.split)

lemma computed_of_seqs_keeps: "tracked_seqs u s \<Longrightarrow> keeps_tracked u (computed_of_seqs ids) s"
proof (induction ids arbitrary: s)
  case (Cons i ids)
  show ?case
    unfolding computed_of_seqs.simps wp_simps
    by (auto simp: Cons.prems split: sum.split intro!: wp_mono [OF get_cached_keeps [OF Cons.prems]] wp_mono [OF Cons.IH])
qed (simp add: wp_simps)

lemma swap_seqs_keeps: "tracked_seqs u s \<Longrightarrow> keeps_tracked u (swap_seqs sha src dst seqs) s"
proof (induction seqs arbitrary: s)
  case (Cons q seqs)
  show ?case
    using Cons.prems unfolding swap_seqs.simps wp_simps
    by (auto simp: Cons split: option.split intro!: wp_on_allocator wp_on_table wp_mono [OF Cons.IH])
qed (simp add: wp_simps)

lemma bm_free_keeps:
  assumes "tracked_seqs u s"
  shows "wp (bm_free sha i) (\<lambda>_. tracked_seqs u) (\<lambda>_. tracked_seqs False) s"
proof (cases "map_of (bm_block_tables s) i")
  case None
  then show ?thesis using assms by (simp add: bm_free_def wp_simps)
next
  case (Some t)
  note k = assms [unfolded tracked_seqs_def]
  have mark: "wp (update_seq_blocks_last_access i ids) (\<lambda>_ v. \<exists>c. v = s\<lparr>bm_allocator := c\<rparr>)
      (\<lambda>_. tracked_seqs False) s" for ids
  proof -
    have "\<exists>c. s = s\<lparr>bm_allocator := c\<rparr>" by (rule exI [of _ "bm_allocator s"]) simp
    then show ?thesis
      using tracked_drop(3) [OF k]
      by (auto simp: update_seq_blocks_last_access_def wp_simps tracked_seqs_def intro!: wp_on_allocator split: option.split)
  qed
  show ?thesis
    unfolding bm_free_def wp_simps Some option.case
  proof (rule wp_mono [OF mark], elim exE)
    fix v c
    assume v: "v = s\<lparr>bm_allocator := c\<rparr>"
    show "wp (la_remove_seq i) (\<lambda>_. wp (cb_remove_seq i) (\<lambda>_. wp (on_table i (bt_free sha)) (\<lambda>_ s.
        tracked_seqs u (s\<lparr>bm_block_tables := AList.delete i (bm_block_tables s)\<rparr>)) (\<lambda>_. tracked_seqs False))
        (\<lambda>_. tracked_seqs False)) (\<lambda>_. tracked_seqs False) v"
      using tracked_drop [OF k] tracked_together [OF k, of i] unfolding v
      by (auto simp: la_remove_seq_def cb_remove_seq_def wp_simps tracked_seqs_def dict_simps tracked_known
        intro!: wp_on_table)
  qed
qed


section \<open>Histories of the block manager\<close>

datatype bm_event =
    AllocateGroup bytes "adapter option" "adapter option" mm_group
  | AppendSlots mm_sequence int
  | FreeSeq int
  | FreeCross string
  | ForkSeq int int
  | AccessSeq int rat
  | MarkComputed
  | CommonComputed "int list"
  | ContentHashes int
  | PrefixSwaps
  | BeginStep
  | CanSwapIn mm_group int
  | SwapIn mm_group
  | CanSwapOut mm_group
  | SwapOut mm_group

text \<open>The state after a call, and whether the call was a \<open>free\<close> that raised.\<close>

definition discard :: "'a bm_py \<Rightarrow> block_manager \<Rightarrow> bool \<times> block_manager" where
  "discard m s = (False, snd (m s))"

fun bm_step :: "(bytes \<Rightarrow> bytes) \<Rightarrow> (mm_value \<Rightarrow> string) \<Rightarrow> bm_event \<Rightarrow> block_manager \<Rightarrow> bool \<times> block_manager" where
  "bm_step sha repr (AllocateGroup fresh lora pa g) s = discard (bm_allocate sha repr fresh lora pa g) s"
| "bm_step sha repr (AppendSlots q n) s = discard (append_slots sha q n) s"
| "bm_step sha repr (FreeSeq i) s = (case bm_free sha i s of (r, t) \<Rightarrow> (r \<noteq> Inr (), t))"
| "bm_step sha repr (FreeCross r) s = discard (free_cross sha r) s"
| "bm_step sha repr (ForkSeq i j) s = discard (bm_fork i j) s"
| "bm_step sha repr (AccessSeq i now) s = discard (access_all_blocks_in_seq i now) s"
| "bm_step sha repr MarkComputed s = discard bm_mark_blocks_as_computed s"
| "bm_step sha repr (CommonComputed ids) s = discard (get_common_computed_block_ids ids) s"
| "bm_step sha repr (ContentHashes i) s = discard (bm_get_content_hashes sha i) s"
| "bm_step sha repr PrefixSwaps s = discard bm_get_and_reset_prefix_swaps s"
| "bm_step sha repr BeginStep s = discard bm_begin_prefix_cache_step s"
| "bm_step sha repr (CanSwapIn g n) s = discard (can_swap_in sha g n) s"
| "bm_step sha repr (SwapIn g) s = discard (swap_in sha g) s"
| "bm_step sha repr (CanSwapOut g) s = discard (can_swap_out sha g) s"
| "bm_step sha repr (SwapOut g) s = discard (swap_out sha g) s"

fun bm_run :: "(bytes \<Rightarrow> bytes) \<Rightarrow> (mm_value \<Rightarrow> string) \<Rightarrow> bm_event list \<Rightarrow> block_manager \<Rightarrow> bool \<times> block_manager" where
  "bm_run sha repr [] s = (False, s)"
| "bm_run sha repr (e # es) s = (case bm_step sha repr e s of (f, t) \<Rightarrow>
     (case bm_run sha repr es t of (g, u) \<Rightarrow> (f \<or> g, u)))"

lemma discard_keeps: "keeps_tracked u m s \<Longrightarrow> discard m s = (f, t) \<Longrightarrow> \<not> f \<and> tracked_seqs u t"
  using wp_state [of m "tracked_seqs u" s] by (simp add: discard_def)

lemma can_swap_keeps: "tracked_seqs u s \<Longrightarrow> keeps_tracked u (can_swap sha g d st n) s"
  unfolding can_swap_def
  by (intro keeps_bind keeps_pure on_allocator_keeps) (auto simp: Let_def split: prod.split
    intro!: keeps_bind keeps_pure on_allocator_keeps)

lemma bm_step_keeps:
  assumes "tracked_seqs u s" "bm_step sha repr e s = (f, t)"
  shows "tracked_seqs (u \<and> \<not> f) t"
proof (cases e)
  case (FreeSeq i)
  then show ?thesis
    using bm_free_keeps [OF assms(1), of sha i] assms(2) tracked_drop(3)
    by (auto simp: wp_def tracked_seqs_def split: prod.splits sum.splits)
next
  case (AppendSlots q n)
  have "keeps_tracked u (append_slots sha q n) s"
    unfolding append_slots_def
    by (intro keeps_andthen on_allocator_keeps wp_on_table) (use assms(1) in auto)
  then show ?thesis using discard_keeps AppendSlots assms(2) by fastforce
next
  case (FreeCross r)
  have "keeps_tracked u (free_cross sha r) s"
    using assms(1) unfolding free_cross_def
    by (auto simp: wp_simps intro!: wp_on_cross_table split: option.split)
  then show ?thesis using discard_keeps FreeCross assms(2) by fastforce
next
  case (ForkSeq i j)
  have "keeps_tracked u (bm_fork i j) s"
    using assms(1) unfolding bm_fork_def by (auto simp: wp_simps intro: fork_into_keeps split: option.split)
  then show ?thesis using discard_keeps ForkSeq assms(2) by fastforce
next
  case (AccessSeq i now)
  have "keeps_tracked u (access_all_blocks_in_seq i now) s"
    using assms(1) unfolding access_all_blocks_in_seq_def update_last_access_def
    by (auto simp: wp_simps tracked_seqs_def dict_simps tracked_known)
  then show ?thesis using discard_keeps AccessSeq assms(2) by fastforce
next
  case (CommonComputed ids)
  have "keeps_tracked u (get_common_computed_block_ids ids) s"
    unfolding get_common_computed_block_ids_def by (intro keeps_bind computed_of_seqs_keeps keeps_pure assms(1))
  then show ?thesis using discard_keeps CommonComputed assms(2) by fastforce
next
  case (ContentHashes i)
  have "keeps_tracked u (bm_get_content_hashes sha i) s"
    unfolding bm_get_content_hashes_def by (rule wp_on_table) (use assms(1) in auto)
  then show ?thesis using discard_keeps ContentHashes assms(2) by fastforce
next
  case (CanSwapIn g n)
  have "keeps_tracked u (can_swap_in sha g n) s"
    unfolding can_swap_in_def by (intro keeps_bind keeps_pure assms(1)) (simp add: can_swap_keeps keeps_pure)
  then show ?thesis using discard_keeps CanSwapIn assms(2) by fastforce
next
  case (CanSwapOut g)
  have "keeps_tracked u (can_swap_out sha g) s"
    unfolding can_swap_out_def
    by (intro keeps_bind keeps_pure assms(1)) (auto intro!: keeps_bind can_swap_keeps keeps_pure)
  then show ?thesis using discard_keeps CanSwapOut assms(2) by fastforce
qed (use assms in \<open>auto dest!: discard_keeps [rotated] intro: bm_allocate_keeps on_allocator_keeps keeps_bind keeps_pure
    swap_seqs_keeps simp: bm_mark_blocks_as_computed_def bm_get_and_reset_prefix_swaps_def bm_begin_prefix_cache_step_def
    swap_in_def swap_out_def\<close>)

lemma bm_run_keeps:
  "tracked_seqs u s \<Longrightarrow> bm_run sha repr es s = (f, t) \<Longrightarrow> tracked_seqs (u \<and> \<not> f) t"
proof (induction es arbitrary: u s f)
  case (Cons e es)
  obtain f1 v where v: "bm_step sha repr e s = (f1, v)" by (cases "bm_step sha repr e s")
  obtain f2 where f2: "bm_run sha repr es v = (f2, t)" "f = (f1 \<or> f2)" using Cons.prems(2) v by (auto split: prod.splits)
  show ?case using Cons.IH [OF bm_step_keeps [OF Cons.prems(1) v] f2(1)] f2(2) by (simp add: conj_assoc)
qed simp

lemma bm_init_tracked: "bm_init sha env bs g c w sw caching = Inr s \<Longrightarrow> tracked_seqs u s"
  by (auto simp: bm_init_def ebind_Inr_iff tracked_seqs_def tracked_def)

text \<open>
  C33: the trackers follow the block tables. Whatever the calls on a block manager, in whatever order and
  whether they return or raise, the two trackers know the same sequences and only sequences that have a
  block table; and as long as no \<open>free\<close> has raised, they know exactly these. So a sequence that is freed
  leaves nothing behind, and \<open>allocate\<close> and \<open>fork\<close> find its number unused.
\<close>

theorem trackers_follow_tables:
  assumes "bm_init sha os_environ block_size num_gpu_blocks num_cpu_blocks watermark sliding_window caching = Inr s"
    and "bm_run sha repr events s = (free_raised, t)"
  shows "dom (map_of (bm_computed t)) = dom (map_of (bm_last_access t)) \<and>
    dom (map_of (bm_computed t)) \<subseteq> dom (map_of (bm_block_tables t)) \<and>
    (\<not> free_raised \<longrightarrow> dom (map_of (bm_computed t)) = dom (map_of (bm_block_tables t)))"
  using bm_run_keeps [OF bm_init_tracked [OF assms(1), of True] assms(2)]
  unfolding tracked_seqs_def tracked_def by (simp; blast)

definition example_seq :: "int \<Rightarrow> mm_sequence" where
  "example_seq i = (case seq_init i \<lparr>in_prompt_token_ids = [5, 6, 7], in_encoder_prompt_token_ids = None,
     in_multi_modal_data = None, in_encoder_multi_modal_data = None\<rparr> 2 None None True of Inr q \<Rightarrow> q)"

definition example_group :: mm_group where
  "example_group = sg_init ''r'' [example_seq 0, example_seq 1] 0 None None None 0"

definition example_manager :: "bytes \<Rightarrow> block_manager" where
  "example_manager runtime = \<lparr>bm_block_size = 2, bm_num_total_gpu_blocks = 4, bm_num_total_cpu_blocks = 2,
     bm_sliding_window = None, bm_max_block_sliding_window = None, bm_watermark = 0, bm_enable_caching = False,
     bm_watermark_blocks = 0, bm_allocator = (case cg_create [] ''naive'' 4 2 2 of Inr c \<Rightarrow> c),
     bm_block_tables = [], bm_cross_block_tables = [],
     bm_namespaces = \<lparr>ns_runtime = runtime, ns_request_local = [], ns_warned = {}\<rparr>,
     bm_computed = [], bm_last_access = []\<rparr>"

lemma length_utf8: "length (utf8 s) \<le> 2 * length s"
  by (induction s) (auto simp: utf8_def utf8_char_def Let_def)

lemma labelled_short: "length v < 100 \<Longrightarrow> \<exists>b. labelled l v = Inr b"
  using length_utf8 [of v] by (simp add: labelled_def pack_len_def pack_uint_def)

lemma runtime_namespace_default: "\<exists>r. build_runtime_cache_namespace sha [] 2 = Inr r"
proof -
  have n: "py_int ''4'' = Inr 4" "length (str_int 4) = 1" "length (str_int 2) = 1" by code_simp+
  obtain a b c d where l: "labelled ''model'' ''Qwen3.6-35B-A3B'' = Inr a" "labelled ''dtype'' ''float16'' = Inr b"
      "labelled ''tp'' (str_int 4) = Inr c" "labelled ''block_size'' (str_int 2) = Inr d"
    using labelled_short [of "''Qwen3.6-35B-A3B''" "''model''"] labelled_short [of "''float16''" "''dtype''"]
      labelled_short [of "str_int 4" "''tp''"] labelled_short [of "str_int 2" "''block_size''"] n by auto
  show ?thesis unfolding build_runtime_cache_namespace_def getenv_def by (simp add: n l)
qed

lemma example_manager_init: "\<exists>r. bm_init sha [] 2 4 2 0 None False = Inr (example_manager r)"
proof -
  obtain r where r: "build_runtime_cache_namespace sha [] 2 = Inr r" using runtime_namespace_default by blast
  have "\<not> isl (cg_create [] ''naive'' 4 2 2)" by code_simp
  then obtain c where "cg_create [] ''naive'' 4 2 2 = Inr c" by (cases "cg_create [] ''naive'' 4 2 2") auto
  then show ?thesis by (simp add: bm_init_def block_sliding_window_def r example_manager_def)
qed

definition example_events :: "bm_event list" where
  "example_events = [AllocateGroup [] None None example_group, FreeSeq 0, ForkSeq 1 2]"

lemma trackers_follow_tables_witness:
  "\<exists>s t. bm_init (\<lambda>_. []) [] 2 4 2 0 None False = Inr s \<and> bm_run (\<lambda>_. []) (\<lambda>_. []) example_events s = (False, t) \<and>
     dom (map_of (bm_computed t)) = {1, 2}"
proof -
  obtain r where r: "bm_init (\<lambda>_. []) [] 2 4 2 0 None False = Inr (example_manager r)" using example_manager_init by blast
  obtain f t where t: "bm_run (\<lambda>_. []) (\<lambda>_. []) example_events (example_manager r) = (f, t)" by force
  have "\<not> fst (bm_run (\<lambda>_. []) (\<lambda>_. []) example_events (example_manager r)) \<and>
      map fst (bm_block_tables (snd (bm_run (\<lambda>_. []) (\<lambda>_. []) example_events (example_manager r)))) = [1, 2]"
    by code_simp
  then have f: "\<not> f" "map fst (bm_block_tables t) = [1, 2]" by (simp_all add: t)
  have "dom (map_of (bm_block_tables t)) = {1, 2}" using f(2) by (simp add: dom_map_of_conv_image_fst flip: set_map)
  then have "dom (map_of (bm_computed t)) = {1, 2}" using trackers_follow_tables [OF r t] f(1) by blast
  moreover have "bm_run (\<lambda>_. []) (\<lambda>_. []) example_events (example_manager r) = (False, t)" using t f(1) by simp
  ultimately show ?thesis using r by blast
qed

end
