(* ===== verification/BlockManagerCorrect.thy ===== *)
theory BlockManagerCorrect
  imports BlockManager PrefixCorrect
begin

text \<open>
  What the block manager promises its caller, the scheduler. A request that it admits gets its blocks;
  the proof goes through the levels: one block of the prefix-caching allocator, the blocks of a list of
  chunks, the block table, the block manager. And the blocks that a prefill may skip are computed ones.
  The GPU allocator is the only one that has blocks here, so the store of block objects is its own.
\<close>

section \<open>One block\<close>

definition granted :: "(bytes \<Rightarrow> bytes) \<Rightarrow> addr list \<Rightarrow> pc_state \<Rightarrow> pc_state \<Rightarrow> bool" where
  "granted sha as s t \<longleftrightarrow> pc_inv sha t \<and> chains_closed t \<and> nv_block_size t = nv_block_size s \<and>
     distinct as \<and> (\<forall>a \<in> set as. \<not> live s a) \<and> (\<forall>x. live t x \<longleftrightarrow> live s x \<or> x \<in> set as) \<and>
     (\<forall>x. live s x \<longrightarrow> refmap t x = refmap s x \<and> bl_token_ids (obj x t) = bl_token_ids (obj x s)) \<and>
     (\<forall>a \<in> set as. refmap t a \<noteq> None) \<and>
     pc_get_num_free_blocks s \<le> pc_get_num_free_blocks t + length as"

lemma granted_Nil: "pc_inv sha s \<Longrightarrow> chains_closed s \<Longrightarrow> granted sha [] s s"
  by (simp add: granted_def)

lemma granted_append:
  assumes "granted sha as s t" "granted sha bs t u"
  shows "granted sha (as @ bs) s u"
proof -
  note a = assms(1) [unfolded granted_def] and b = assms(2) [unfolded granted_def]
  have "refmap u x \<noteq> None" if "x \<in> set as" for x
  proof -
    have "live t x" using a that by blast
    then show ?thesis using a b that by simp
  qed
  then show ?thesis using a b unfolding granted_def by (auto simp del: not_None_eq)
qed

text \<open>At most one block leaves the free blocks, because at most one block becomes held.\<close>

lemma free_after_one:
  assumes "pc_inv sha s" "pc_inv sha t" "refmap t = (refmap s)(a \<mapsto> b)" "refmap s a = None"
    "nv_all_block_indices t = nv_all_block_indices s"
  shows "pc_get_num_free_blocks s \<le> Suc (pc_get_num_free_blocks t)"
proof -
  have "ran (refmap t) = insert b (ran (refmap s))" using assms(3,4) by simp
  moreover have "ran (refmap s) \<subseteq> set (nv_all_block_indices s)"
    using idx_held(1) [OF pc_coreD(5) [OF pc_invD(2) [OF assms(1)]]] by (auto simp: ran_def)
  then have "finite (ran (refmap s))" by (rule finite_subset) simp
  ultimately have "card (ran (refmap t)) \<le> Suc (card (ran (refmap s)))" by (simp add: card_insert_if)
  then show ?thesis
    using pc_conservation [OF pc_invD(2) [OF assms(1)]] pc_conservation [OF pc_invD(2) [OF assms(2)]] assms(5)
    by (simp add: pc_get_num_total_blocks_def nv_get_num_total_blocks_def)
qed


lemma grant_full:
  assumes i: "pc_inv sha s" "chains_closed s" and p: "prev_ok s prev" "\<And>q. prev = Some q \<Longrightarrow> is_full (obj q s)"
    and ts: "int (length ts) = nv_block_size s" "list_all packable ts" and dig: "\<And>m. is_digest (sha m)"
    and f: "0 < pc_get_num_free_blocks s"
  shows "\<exists>a t. pc_allocate_immutable_block sha prev ts ns s = (Inr a, t) \<and> granted sha [a] s t \<and>
    bl_token_ids (obj a t) = ts \<and> is_full (obj a t)"
proof -
  note j = pc_invD(1) [OF i(1)]
  obtain h where h: "prefix_hash sha s prev ts (namespace_of prev (Some ns) s) = Inr h"
    using prefix_hash_exists [OF j p ts(2)] by blast
  obtain a b t where t: "pc_allocate_immutable_block sha prev ts ns s = (Inr a, t)" "pc_inv sha t" "chains_closed t"
      "\<not> live s a" "\<forall>x. live t x \<longleftrightarrow> live s x \<or> x = a" "refmap t = (refmap s)(a \<mapsto> b)" "bl_token_ids (obj a t) = ts"
      "hashes sha t a = Some h" "\<forall>x. live s x \<longrightarrow> bl_token_ids (obj x t) = bl_token_ids (obj x s)"
      "nv_all_block_indices t = nv_all_block_indices s"
  proof (cases "map_of (pc_cached_blocks s) h")
    case (Some b)
    obtain a t where t: "pc_allocate_immutable_block sha prev ts ns s = (Inr a, t)" "pc_inv sha t" "chains_closed t"
        "made sha a prev ts (namespace_of prev (Some ns) s) s t" "refmap t = (refmap s)(a \<mapsto> b)"
        "hashes sha t a = Some h" "nv_all_block_indices t = nv_all_block_indices s"
      using pc_allocate_immutable_hit [OF i p ts dig h Some] by blast
    note m = t(4) [unfolded made_def]
    show ?thesis by (rule that [OF t(1-3) _ _ t(5) _ t(6) _ t(7)]) (use m bareD(1) in blast)+
  next
    case None
    obtain a b t where t: "pc_allocate_immutable_block sha prev ts ns s = (Inr a, t)" "pc_inv sha t" "chains_closed t"
        "\<not> live s a" "\<forall>x. live t x \<longleftrightarrow> live s x \<or> x = a" "refmap t = (refmap s)(a \<mapsto> b)" "bl_token_ids (obj a t) = ts"
        "hashes sha t a = Some h" "\<forall>x. live s x \<longrightarrow> same_content (obj x t) (obj x s) \<and> hashes sha t x = hashes sha s x"
        "nv_all_block_indices t = nv_all_block_indices s"
      using pc_allocate_immutable_miss [OF i p ts dig h None f] by blast
    show ?thesis by (rule that [OF t(1-8) _ t(10)]) (use t(9) in \<open>simp add: same_content_def\<close>)
  qed
  have la: "live t a" using t(5) by simp
  have fa: "is_full (obj a t)" using live_hash(1) [OF pc_invD(1) [OF t(2)] la] t(8) by simp
  have n: "refmap s a = None" using t(4) by (simp add: refmap_def)
  have bs: "nv_block_size t = nv_block_size s"
    using full_tokens [OF pc_objsD(4) [OF pc_invD(1) [OF t(2)]] la] fa t(7) ts(1) by simp
  have "refmap t x = refmap s x" if "live s x" for x using t(4,6) that by auto
  then have "granted sha [a] s t"
    unfolding granted_def using t bs free_after_one [OF i(1) t(2,6) n t(10)] by auto
  then show ?thesis using t(1,7) fa by blast
qed

lemma grant_fulls:
  assumes "pc_inv sha s" "chains_closed s" "prev_ok s prev" "\<And>q. prev = Some q \<Longrightarrow> is_full (obj q s)"
    and "\<forall>ts \<in> set cs. int (length ts) = nv_block_size s \<and> list_all packable ts" and "\<And>m. is_digest (sha m)"
    and "length cs \<le> pc_get_num_free_blocks s"
  shows "\<exists>as t. pc_allocate_immutable_blocks sha prev cs ns s = (Inr as, t) \<and> granted sha as s t \<and>
    map (\<lambda>a. bl_token_ids (obj a t)) as = cs"
  using assms(1-5,7)
proof (induction cs arbitrary: s prev)
  case Nil
  then show ?case by (simp add: return_def granted_Nil)
next
  case (Cons ts cs)
  have ts: "int (length ts) = nv_block_size s" "list_all packable ts" and f: "0 < pc_get_num_free_blocks s"
    using Cons.prems by simp_all
  obtain a t where t: "pc_allocate_immutable_block sha prev ts ns s = (Inr a, t)" "granted sha [a] s t"
      "bl_token_ids (obj a t) = ts" "is_full (obj a t)"
    using grant_full [OF Cons.prems(1-4) ts assms(6) f] by blast
  note g = t(2) [unfolded granted_def]
  have pa: "prev_ok t (Some a)" "\<And>q. Some a = Some q \<Longrightarrow> is_full (obj q t)" using g t(4) by (simp_all add: prev_ok_def)
  have "pc_inv sha t" "chains_closed t" "\<forall>ts \<in> set cs. int (length ts) = nv_block_size t \<and> list_all packable ts"
      "length cs \<le> pc_get_num_free_blocks t"
    using g Cons.prems(5,6) by auto
  then obtain as u where u: "pc_allocate_immutable_blocks sha (Some a) cs ns t = (Inr as, u)" "granted sha as t u"
      "map (\<lambda>a. bl_token_ids (obj a u)) as = cs"
    using Cons.IH [OF _ _ pa, of ] by blast
  have "bl_token_ids (obj a u) = ts" using u(2) g t(3) by (simp add: granted_def)
  then show ?case using t(1) u granted_append [OF t(2) u(2)] by (simp add: bind_def return_def)
qed


lemma grant_tail:
  assumes i: "pc_inv sha s" "chains_closed s" and p: "prev_ok s prev" "\<And>q. prev = Some q \<Longrightarrow> is_full (obj q s)"
    and ts: "ts \<noteq> []" "int (length ts) \<le> nv_block_size s" "list_all packable ts" and dig: "\<And>m. is_digest (sha m)"
    and f: "0 < pc_get_num_free_blocks s"
  shows "\<exists>a t u. pc_allocate_mutable_block sha prev ns s = (Inr a, t) \<and> pc_objs sha t \<and> live t a \<and>
    pb_append_token_ids sha a ts t = (Inr (), u) \<and> granted sha [a] s u \<and> bl_token_ids (obj a u) = ts"
proof -
  obtain a b t where t: "pc_allocate_mutable_block sha prev ns s = (Inr a, t)" "pc_inv sha t" "chains_closed t"
      "made sha a prev [] (namespace_of prev ns s) s t" "refmap t = (refmap s)(a \<mapsto> b)" "b \<notin> ran (refmap s)"
      "takes_id b s t"
    using pc_allocate_mutable_run [OF i p(1) f dig, of ns] by blast
  note m = t(4) [unfolded made_def]
  note j = pc_invD(1) [OF t(2)]
  have la: "live t a" using m by simp
  have n: "refmap s a = None" using m by (simp add: refmap_def)
  have bs: "nv_block_size t = nv_block_size s" "nv_all_block_indices t = nv_all_block_indices s"
    using t(7) by (simp_all add: takes_id_def pc_frame_def)
  have e: "num_empty_slots (obj a t) = nv_block_size s"
    using pc_objsD(4) [OF j] la m bs by (simp add: contents_ok_def num_empty_slots_def)
  have nf: "\<not> is_full (obj a t)" using e pc_objsD(3) [OF j] bs by (simp add: is_full_def)
  have pf: "is_full (obj q t)" if "bl_prev_block (obj a t) = Some q" for q
  proof -
    have q: "prev = Some q" using that m by simp
    then have "live s q" using p(1) by (simp add: prev_ok_def)
    then have "bare (obj q t) = bare (obj q s)" using m by blast
    then show ?thesis using bareD(3) p(2) [OF q] by metis
  qed
  have rb: "refmap t a = Some b" using t(5) by simp
  have rc: "rcount (refmap t) b = 1 \<or> 0 < pc_get_num_free_blocks t"
    using rcount_one [of "refmap t" a b] t(5,6) rb by (auto simp: ran_def)
  have room: "int (length ts) \<le> num_empty_slots (obj a t)" using e ts(2) by simp
  obtain d u where u: "pb_append_token_ids sha a ts t = (Inr (), u)" "pc_inv sha u" "chains_closed u"
      "appended sha a ts b d t u"
    using pc_append_run [OF t(2,3) rb nf room ts(3,1) pf dig rc] by blast
  note v = u(4) [unfolded appended_def]
  have r: "refmap u = (refmap s)(a \<mapsto> d)" using v t(5) by simp
  have fu: "nv_block_size u = nv_block_size s" "nv_all_block_indices u = nv_all_block_indices s"
    using v bs by (simp_all add: pc_frame_def)
  have "bl_token_ids (obj x u) = bl_token_ids (obj x s)" if "live s x" for x
  proof -
    have "x \<noteq> a" "live t x" using that m by auto
    then have "bl_token_ids (obj x u) = bl_token_ids (obj x t)" using v by (simp add: same_content_def)
    then show ?thesis using m that bareD(1) by metis
  qed
  moreover have "live u = live t" using v by simp
  moreover have "\<forall>x. live s x \<longrightarrow> refmap u x = refmap s x" using r m by auto
  ultimately have "granted sha [a] s u"
    unfolding granted_def using u(2,3) fu(1) m r free_after_one [OF i(1) u(2) r n fu(2)] by simp
  moreover have "bl_token_ids (obj a u) = ts" using v m by simp
  ultimately show ?thesis using t(1) la u(1) j by blast
qed


section \<open>The GPU allocator inside the CPU-GPU allocator\<close>

definition gpu_is :: "cg_state \<Rightarrow> pc_state \<Rightarrow> bool" where
  "gpu_is c s \<longleftrightarrow> cg_gpu c = PrefixCachingAllocator (s\<lparr>nv_heap := []\<rparr>) \<and> cg_heap c = nv_heap s"

definition put_gpu :: "cg_state \<Rightarrow> pc_state \<Rightarrow> cg_state" where
  "put_gpu c t = c\<lparr>cg_heap := nv_heap t, cg_gpu := PrefixCachingAllocator (t\<lparr>nv_heap := []\<rparr>)\<rparr>"

lemma gpu_is_put [simp]: "gpu_is (put_gpu c t) t" "put_gpu (put_gpu c t) u = put_gpu c u"
  by (simp_all add: gpu_is_def put_gpu_def)

lemma put_gpu_same: "gpu_is c s \<Longrightarrow> put_gpu c s = c"
  by (cases c) (simp add: gpu_is_def put_gpu_def)

lemma on_gpu: "gpu_is c s \<Longrightarrow> f s = (r, t) \<Longrightarrow> on_device GPU g f c = (r, put_gpu c t)"
  by (cases s) (simp add: gpu_is_def on_device_def cg_allocator_def cg_put_allocator_def put_gpu_def)

lemma gpu_obj: "gpu_is c s \<Longrightarrow> cg_obj a c = obj a s"
  by (simp add: gpu_is_def cg_obj_def obj_def)

lemma gpu_live:
  assumes "gpu_is c s" "pc_objs sha s" "live s a"
  shows "cg_deref a c = obj a s" "cg_block_id_of a c = refmap s a" "block_allocator_of a c = GPU"
    "\<not> is_null_block (cg_obj a c)"
proof -
  have k: "bl_class (obj a s) = PrefixCachingBlock" by (rule pc_objsD(8) [OF assms(2,3)])
  show d: "cg_deref a c = obj a s" "\<not> is_null_block (cg_obj a c)"
    using k by (simp_all add: cg_deref_def is_null_block_def gpu_obj [OF assms(1)])
  show "cg_block_id_of a c = refmap s a" using d(1) assms(3) by (simp add: cg_block_id_of_def refmap_def)
  have "a \<in> set (nv_pool s)" using pc_objsD(1) [OF assms(2)] assms(3) by (simp add: pool_ok_def live_def)
  then show "block_allocator_of a c = GPU" using assms(1) by (simp add: block_allocator_of_def gpu_is_def)
qed

lemma gpu_num_free: "gpu_is c s \<Longrightarrow> cg_get_num_free_blocks GPU c = pc_get_num_free_blocks s"
  by (simp add: gpu_is_def cg_get_num_free_blocks_def cg_allocator_def pc_get_num_free_blocks_def
    nv_get_num_free_blocks_def)

section \<open>The blocks of a table\<close>

lemma chunks_split:
  assumes "0 < n"
  obtains fulls tails where "chunks n xs = fulls @ tails" "filter (\<lambda>c. length c = n) (chunks n xs) = fulls"
    "filter (\<lambda>c. length c \<noteq> n) (chunks n xs) = tails" "tails = [] \<or> (\<exists>t. tails = [t] \<and> t \<noteq> [] \<and> length t \<le> n)"
proof (cases "chunks n xs = [] \<or> length (last (chunks n xs)) = n")
  case True
  have "\<forall>c \<in> set (chunks n xs). length c = n"
    using True chunks_full [OF assms, of _ xs] by (cases "chunks n xs" rule: rev_cases) auto
  then show ?thesis using that [of "chunks n xs" "[]"] by simp
next
  case False
  then obtain ys t where y: "chunks n xs = ys @ [t]" "length t \<noteq> n" by (cases "chunks n xs" rule: rev_cases) auto
  have "\<forall>c \<in> set ys. length c = n" using chunks_full [OF assms, of _ xs] y(1) by simp
  moreover have "t \<noteq> [] \<and> length t \<le> n" using chunks_sizes [OF assms, of t xs] y(1) by simp
  ultimately show ?thesis using that [of ys "[t]"] y by simp
qed

lemma chunks_packable: "0 < n \<Longrightarrow> list_all packable xs \<Longrightarrow> c \<in> set (chunks n xs) \<Longrightarrow> list_all packable c"
  using concat_chunks [of n xs] by (metis (no_types, lifting) UN_I list_all_iff set_concat)

lemma blist_add_run:
  assumes "\<forall>a \<in> set as. cg_block_id_of a c = Some (f a)"
  shows "for_each as blist_add_block_id (t, c) = (Inr (), (t\<lparr>bt_block_ids := bt_block_ids t @ map f as\<rparr>, c))"
  using assms
proof (induction as arbitrary: t)
  case (Cons a as)
  have "blist_add_block_id a (t, c) = (Inr (), (t\<lparr>bt_block_ids := bt_block_ids t @ [f a]\<rparr>, c))"
    using Cons.prems by (simp add: blist_add_block_id_def put_tab_def py_defs)
  then show ?case using Cons by (simp add: andthen_def bind_def)
qed (simp add: return_def)

lemma blist_update_run:
  assumes "\<forall>a \<in> set as. cg_block_id_of a c = Some (f a)"
  shows "blist_update as (t, c) = (Inr (), (t\<lparr>bt_blocks := as, bt_block_ids := map f as\<rparr>, c))"
  using blist_add_run [OF assms] by (simp add: blist_update_def put_tab_def andthen_def bind_def modify_def)

lemma bind_steps:
  "bind (gets f) k s = k (f s) s" "bind (return x) k s = k x s" "m s = (Inr y, t) \<Longrightarrow> bind m k s = k y t"
  by (simp_all add: bind_def gets_def return_def)

lemma table_blocks:
  assumes c: "gpu_is c s" and i: "pc_inv sha s" "chains_closed s" and ts: "list_all packable tokens"
    and dig: "\<And>m. is_digest (sha m)" and bs: "bt_block_size t = nv_block_size s"
    and f: "length (chunks (nat (nv_block_size s)) tokens) \<le> pc_get_num_free_blocks s"
  shows "\<exists>as u. bt_allocate_blocks_for_token_ids sha None tokens GPU (t, c) = (Inr as, (t, put_gpu c u)) \<and>
    granted sha as s u \<and> map (\<lambda>a. bl_token_ids (obj a u)) as = chunks (nat (nv_block_size s)) tokens"
proof -
  define n where "n = nat (nv_block_size s)"
  have n: "0 < n" "int n = nv_block_size s" using pc_objsD(3) [OF pc_invD(1) [OF i(1)]] by (simp_all add: n_def)
  define ns where "ns = (case bt_cache_namespace t of None \<Rightarrow> [] | Some m \<Rightarrow> m)"
  obtain fulls tails where ft: "chunks n tokens = fulls @ tails" "filter (\<lambda>c. length c = n) (chunks n tokens) = fulls"
      "filter (\<lambda>c. length c \<noteq> n) (chunks n tokens) = tails"
      "tails = [] \<or> (\<exists>t. tails = [t] \<and> t \<noteq> [] \<and> length t \<le> n)"
    using chunks_split [OF n(1)] by blast
  have fi: "filter (\<lambda>c. int (length c) = nv_block_size s) (chunks n tokens) = fulls"
      "filter (\<lambda>c. int (length c) \<noteq> nv_block_size s) (chunks n tokens) = tails"
    using ft(2,3) n(2) by (metis (mono_tags, lifting) filter_cong of_nat_eq_iff)+
  have pk: "list_all packable x" if "x \<in> set fulls \<union> set tails" for x
    using chunks_packable [OF n(1) ts, of x] ft(1) that by auto
  have fs: "\<forall>x \<in> set fulls. int (length x) = nv_block_size s \<and> list_all packable x" using fi(1) pk by auto
  have room: "length fulls + length tails \<le> pc_get_num_free_blocks s" using f ft(1) by (simp add: n_def)
  then have "length fulls \<le> pc_get_num_free_blocks s" by simp
  then obtain as v where v: "pc_allocate_immutable_blocks sha None fulls ns s = (Inr as, v)" "granted sha as s v"
      "map (\<lambda>a. bl_token_ids (obj a v)) as = fulls"
    using grant_fulls [OF i _ _ fs dig, of None ns] by (auto simp: prev_ok_def)
  have first: "(if fulls = [] then return [] else on_cg (cg_allocate_immutable_blocks sha None fulls (bt_cache_namespace t) GPU))
      (t, c) = (Inr as, (t, put_gpu c v))"
  proof (cases "fulls = []")
    case True
    then have "as = []" "v = s" using v(1) by (simp_all add: return_def)
    then show ?thesis using True put_gpu_same [OF c] by (simp add: return_def)
  next
    case False
    then show ?thesis using on_gpu [where f = "pc_allocate_immutable_blocks sha None fulls ns", OF c v(1)]
      by (simp add: on_cg_def zoom_def cg_allocate_immutable_blocks_def ns_def)
  qed
  note g = v(2) [unfolded granted_def]
  define prev where "prev = (if fulls = [] then None else Some (last as))"
  have len: "length as = length fulls" using v(3) by (metis length_map)
  have lp: "last as \<in> set as" if "fulls \<noteq> []" using that len by (metis last_in_set length_0_conv)
  have pp: "prev_ok v prev" using g lp by (simp add: prev_def prev_ok_def)
  have pf: "is_full (obj q v)" if "prev = Some q" for q
  proof -
    have q: "q \<in> set as" using that lp by (auto simp: prev_def split: if_splits)
    then have "bl_token_ids (obj q v) \<in> set fulls" using v(3) by (metis image_eqI list.set_map)
    moreover have "live v q" using g q by blast
    ultimately show ?thesis
      using fs full_tokens [OF pc_objsD(4) [OF pc_invD(1)]] g by metis
  qed
  have start: "bt_allocate_blocks_for_token_ids sha None tokens GPU (t, c) =
      (case tails of [] \<Rightarrow> return as | cur_token_ids # rest \<Rightarrow>
        andthen (guard AssertionError (rest = []))
          (bind (on_cg (cg_allocate_mutable_block sha prev (bt_cache_namespace t) GPU)) (\<lambda>a.
           andthen (on_cg (cg_append_token_ids sha a cur_token_ids)) (return (as @ [a]))))) (t, put_gpu c v)"
  proof -
    let ?M = "if fulls = [] then return []
      else on_cg (cg_allocate_immutable_blocks sha None fulls (bt_cache_namespace t) GPU)"
    have e: "(if fulls = [] then None else Some (last as)) = prev" by (simp add: prev_def)
    have nz: "nv_block_size s \<noteq> 0" using n by simp
    have "bt_allocate_blocks_for_token_ids sha None tokens GPU (t, c) =
        bind ?M (\<lambda>blocks. case tails of [] \<Rightarrow> return blocks | cur_token_ids # rest \<Rightarrow>
          andthen (guard AssertionError (rest = []))
            (bind (on_cg (cg_allocate_mutable_block sha (if fulls = [] then None else Some (last blocks))
               (bt_cache_namespace t) GPU)) (\<lambda>a.
             andthen (on_cg (cg_append_token_ids sha a cur_token_ids)) (return (blocks @ [a]))))) (t, c)"
      using nz by (simp add: bt_allocate_blocks_for_token_ids_def tab_def lift_sum_def chunk_list_def bind_steps(1,2) bs
        n_def [symmetric] Let_def fi cong: list.case_cong if_cong)
    then show ?thesis unfolding bind_steps(3) [where m = ?M, OF first] e .
  qed
  show ?thesis
  proof (cases tails)
    case Nil
    then show ?thesis using start v(2,3) ft(1) by (auto simp: return_def n_def)
  next
    case (Cons x rest)
    then have x: "tails = [x]" "x \<noteq> []" "int (length x) \<le> nv_block_size v" "list_all packable x"
      using ft(4) n(2) g pk by auto
    have gv: "pc_inv sha v" "chains_closed v" "0 < pc_get_num_free_blocks v" using room g len x(1) by simp_all
    obtain a w u where u: "pc_allocate_mutable_block sha prev (bt_cache_namespace t) v = (Inr a, w)" "pc_objs sha w" "live w a"
        "pb_append_token_ids sha a x w = (Inr (), u)" "granted sha [a] v u" "bl_token_ids (obj a u) = x"
      using grant_tail [OF gv(1,2) pp pf x(2-4) dig gv(3), of "bt_cache_namespace t"] by blast
    note l = gpu_live [OF gpu_is_put(1) u(2,3)]
    have keep: "bl_token_ids (obj y u) = bl_token_ids (obj y v)" if "y \<in> set as" for y
      using u(5) g that by (simp add: granted_def)
    have "map (\<lambda>a. bl_token_ids (obj a u)) (as @ [a]) = chunks n tokens"
      using v(3) u(6) keep ft(1) x(1) by (simp cong: map_cong)
    moreover have "bt_allocate_blocks_for_token_ids sha None tokens GPU (t, c) = (Inr (as @ [a]), (t, put_gpu c u))"
      using start x(1) on_gpu [where f = "pc_allocate_mutable_block sha prev (bt_cache_namespace t)", OF gpu_is_put(1) u(1)] 
        on_gpu [where f = "pb_append_token_ids sha a x", OF gpu_is_put(1) u(4)] l(3,4)
      by (simp add: andthen_def bind_def guard_def return_def on_cg_def zoom_def cg_allocate_mutable_block_def
        cg_append_token_ids_def gets_def)
    ultimately show ?thesis using granted_append [OF v(2) u(5)] by (auto simp: n_def)
  qed
qed


section \<open>A sequence\<close>

text \<open>The table that a sequence gets, and the objects behind it.\<close>

definition holds_tokens :: "pc_state \<Rightarrow> block_table \<Rightarrow> int list \<Rightarrow> bool" where
  "holds_tokens u t tokens \<longleftrightarrow> bt_block_ids t = map (\<lambda>a. the (refmap u a)) (bt_blocks t) \<and>
     (\<forall>a \<in> set (bt_blocks t). live u a \<and> refmap u a \<noteq> None) \<and>
     concat (map (\<lambda>a. bl_token_ids (obj a u)) (bt_blocks t)) = tokens \<and>
     bt_num_full_slots t = int (length tokens)"

lemma allocate_sequence_run:
  assumes c: "gpu_is (bm_allocator s) p" and i: "pc_inv sha p" "chains_closed p"
    and ts: "list_all packable (seq_get_token_ids seq)" and dig: "\<And>m. is_digest (sha m)"
    and bs: "bm_block_size s = nv_block_size p"
    and f: "length (chunks (nat (nv_block_size p)) (seq_get_token_ids seq)) \<le> pc_get_num_free_blocks p"
  shows "\<exists>t u. allocate_sequence sha seq (Some ns) s = (Inr t, s\<lparr>bm_allocator := put_gpu (bm_allocator s) u\<rparr>) \<and>
    granted sha (bt_blocks t) p u \<and> holds_tokens u t (seq_get_token_ids seq) \<and>
    length (bt_blocks t) = length (chunks (nat (nv_block_size p)) (seq_get_token_ids seq))"
proof -
  let ?ts = "seq_get_token_ids seq" and ?c = "bm_allocator s"
  define t0 where "t0 = \<lparr>bt_block_size = bm_block_size s, bt_cache_namespace = Some ns, bt_blocks = [], bt_block_ids = [],
      bt_max_block_sliding_window = bm_max_block_sliding_window s, bt_num_full_slots = 0\<rparr>"
  have fresh: "bt_new (bm_block_size s) [] (bm_max_block_sliding_window s) (Some ns) x = (Inr t0, x)" for x
    by (simp add: bt_new_def blist_update_def put_tab_def andthen_def bind_def modify_def return_def t0_def
      bt_get_num_token_ids_def)
  have same: "s\<lparr>bm_allocator := bm_allocator s\<rparr> = s" by simp
  show ?thesis
  proof (cases "?ts = []")
    case True
    then show ?thesis
      using fresh granted_Nil [OF i] put_gpu_same [OF c] same
      by (intro exI2 [of _ t0 p])
        (simp add: allocate_sequence_def on_allocator_def bind_def gets_def zoom_def return_def holds_tokens_def t0_def)
  next
    case False
    have "bt_block_size t0 = nv_block_size p" using bs by (simp add: t0_def)
    then obtain as u where u: "bt_allocate_blocks_for_token_ids sha None ?ts GPU (t0, ?c) = (Inr as, (t0, put_gpu ?c u))"
        "granted sha as p u" "map (\<lambda>a. bl_token_ids (obj a u)) as = chunks (nat (nv_block_size p)) ?ts"
      using table_blocks [OF c i ts dig _ f] by blast
    note g = u(2) [unfolded granted_def]
    have "cg_block_id_of a (put_gpu ?c u) = Some (the (refmap u a))" if "a \<in> set as" for a
      using gpu_live(2) [OF gpu_is_put(1) pc_invD(1)] g that by fastforce
    then have upd: "blist_update as (t0, put_gpu ?c u) = (Inr (), (t0\<lparr>bt_blocks := as,
        bt_block_ids := map (\<lambda>a. the (refmap u a)) as\<rparr>, put_gpu ?c u))"
      by (intro blist_update_run) blast
    let ?t = "t0\<lparr>bt_blocks := as, bt_block_ids := map (\<lambda>a. the (refmap u a)) as, bt_num_full_slots := int (length ?ts)\<rparr>"
    have "bt_allocate sha ?ts GPU (t0, ?c) = (Inr (), (?t, put_gpu ?c u))"
      using u(1) upd False
      by (simp add: bt_allocate_def tab_def put_tab_def andthen_def bind_def gets_def guard_def return_def modify_def
        bt_is_allocated_def t0_def)
    then have "allocate_sequence sha seq (Some ns) s = (Inr ?t, s\<lparr>bm_allocator := put_gpu ?c u\<rparr>)"
      using fresh False
      by (simp add: allocate_sequence_def on_allocator_def with_table_def bind_def gets_def zoom_def return_def same)
    moreover have "concat (map (\<lambda>a. bl_token_ids (obj a u)) as) = ?ts"
      using u(3) concat_chunks [of "nat (nv_block_size p)" ?ts] pc_objsD(3) [OF pc_invD(1) [OF i(1)]] by simp
    then have "holds_tokens u ?t ?ts" using g by (simp add: holds_tokens_def)
    moreover have "length as = length (chunks (nat (nv_block_size p)) ?ts)" using u(3) by (metis length_map)
    ultimately show ?thesis using u(2) by (intro exI2 [of _ ?t u]) simp
  qed
qed


section \<open>A request\<close>

lemma get_cache_namespace_returns:
  "adapter_cache_namespace sha lora pa = Inr ad \<Longrightarrow>
   \<exists>h m. get_cache_namespace sha repr fresh mm r lora pa n = (Inr h, m)"
  by (auto simp: get_cache_namespace_def request_local_fallback_def bind_def andthen_def gets_def modify_def return_def
    split: option.split sum.split)

text \<open>
  C32: what \<open>can_allocate\<close> admits, \<open>allocate\<close> serves. Let the GPU allocator be a prefix-caching one in any
  state that it reaches, with closed chains, and let a text request have one waiting sequence that the
  manager does not know yet. When \<open>can_allocate\<close> answers \<open>OK\<close>, for any number of lookahead slots,
  \<open>allocate\<close> does not raise: the sequence has a block table whose objects hold exactly its tokens, in
  blocks whose numbers the table lists, there are \<open>cdiv(len, block_size)\<close> of them, both trackers know the
  sequence, and at most that many blocks are no longer free, so the watermark is still kept. The GPU
  allocator is the only one with block objects, and there is no sliding window.
\<close>

theorem admitted_request_is_served:
  assumes gpu: "gpu_is (bm_allocator s) p" "pc_reachable sha policy num_blocks block_size p" "chains_closed p"
      "0 < num_blocks" "0 < block_size" "\<forall>m. is_digest (sha m)"
    and man: "bm_block_size s = nv_block_size p" "bm_max_block_sliding_window s = None" "0 \<le> num_lookahead_slots"
      "0 \<le> bm_watermark_blocks s"
    and req: "sg_get_seqs (Some WAITING) g = Inr [seq]" "sg_encoder_seq g = None"
      "list_all packable (seq_get_token_ids seq)" "seq_multi_modal_data seq = Inr mm"
      "adapter_cache_namespace sha lora prompt_adapter = Inr adapters"
    and new: "map_of (bm_block_tables s) (sq_seq_id seq) = None" "map_of (bm_computed s) (sq_seq_id seq) = None"
      "map_of (bm_last_access s) (sq_seq_id seq) = None"
      "map_of (bm_cross_block_tables s) (sg_request_id g) = None"
    and ok: "can_allocate g num_lookahead_slots s = Inr OK"
  shows "\<exists>s' t u. bm_allocate sha repr fresh lora prompt_adapter g s = (Inr (), s') \<and>
    map_of (bm_block_tables s') (sq_seq_id seq) = Some t \<and> gpu_is (bm_allocator s') u \<and>
    holds_tokens u t (seq_get_token_ids seq) \<and>
    get_num_required_blocks (seq_get_token_ids seq) (bm_block_size s) 0 = Inr (int (length (bt_blocks t))) \<and>
    map_of (bm_computed s') (sq_seq_id seq) = Some ([], False) \<and> map_of (bm_last_access s') (sq_seq_id seq) = Some None \<and>
    get_num_free_gpu_blocks s \<le> get_num_free_gpu_blocks s' + length (bt_blocks t) \<and>
    bm_watermark_blocks s \<le> int (get_num_free_gpu_blocks s')"
proof -
  let ?ts = "seq_get_token_ids seq" and ?q = "sq_seq_id seq"
  let ?n = "length (chunks (nat (nv_block_size p)) ?ts)"
  have inv: "pc_inv sha p" by (rule pc_reachable_inv [OF gpu(2,4,5)]) (use gpu(6) in blast)
  have bs: "0 < nv_block_size p" by (rule pc_objsD(3) [OF pc_invD(1) [OF inv]])
  have need: "get_num_required_blocks ?ts (bm_block_size s) k = Inr (- ((int (length ?ts) + k) div - nv_block_size p))" for k
    using bs man(1) by (simp add: get_num_required_blocks_def cdiv_def)
  have n: "- (int (length ?ts) div - nv_block_size p) = int ?n" using length_chunks [of "nat (nv_block_size p)" ?ts] bs by simp
  have "- (int (length ?ts) div - nv_block_size p) \<le> - ((int (length ?ts) + num_lookahead_slots) div - nv_block_size p)"
    using man(3) bs by (simp add: div_minus_right zdiv_mono1)
  moreover have "bm_watermark_blocks s \<le> int (get_num_free_gpu_blocks s) -
      - ((int (length ?ts) + num_lookahead_slots) div - nv_block_size p)"
    using ok req(1,2) man(2) need
    by (simp add: can_allocate_def check_encdec_def sg_is_encoder_decoder_def nth_or_raise_def get_num_free_gpu_blocks_def
      Let_def split: if_splits)
  ultimately have room: "bm_watermark_blocks s + int ?n \<le> int (get_num_free_gpu_blocks s)" using n by linarith
  have free: "get_num_free_gpu_blocks s = pc_get_num_free_blocks p"
    using gpu_num_free [OF gpu(1)] by (simp add: get_num_free_gpu_blocks_def)
  obtain ns names where ns: "bm_get_cache_namespace sha repr fresh lora prompt_adapter (sg_request_id g) seq s =
      (Inr ns, s\<lparr>bm_namespaces := names\<rparr>)"
    using get_cache_namespace_returns [OF req(5), of repr fresh mm "sg_request_id g" "bm_namespaces s"] req(4,5)
    by (auto simp: bm_get_cache_namespace_def lift_sum_def bind_def return_def zoom_def)
  let ?s = "s\<lparr>bm_namespaces := names\<rparr>"
  have "?n \<le> pc_get_num_free_blocks p" using room free man(4) by linarith
  then obtain t u where t: "allocate_sequence sha seq (Some ns) ?s = (Inr t, ?s\<lparr>bm_allocator := put_gpu (bm_allocator s) u\<rparr>)"
      "granted sha (bt_blocks t) p u" "holds_tokens u t ?ts" "length (bt_blocks t) = ?n"
    using allocate_sequence_run [of ?s p sha seq ns] gpu(1,3,6) inv req(3) man(1) by auto
  let ?u = "?s\<lparr>bm_allocator := put_gpu (bm_allocator s) u, bm_block_tables := AList.update ?q t (bm_block_tables s),
    bm_computed := AList.update ?q ([], False) (bm_computed s), bm_last_access := AList.update ?q None (bm_last_access s)\<rparr>"
  have "bm_allocate sha repr fresh lora prompt_adapter g s = (Inr (), ?u)"
    using req(1,2) new ns t(1)
    by (simp add: bm_allocate_def lift_sum_def bind_def andthen_def return_def gets_def guard_def nth_or_raise_def
      put_table_def track_seq_def cb_add_seq_def la_add_seq_def modify_def check_encdec_def sg_is_encoder_decoder_def
      map_of_eq_None_iff)
  moreover have "get_num_free_gpu_blocks ?u = pc_get_num_free_blocks u"
    using gpu_num_free [OF gpu_is_put(1)] by (simp add: get_num_free_gpu_blocks_def)
  moreover have "pc_get_num_free_blocks p \<le> pc_get_num_free_blocks u + length (bt_blocks t)"
    using t(2) by (simp add: granted_def)
  ultimately show ?thesis
    using t(3,4) need [of 0] n room free
    by (intro exI [of _ ?u] exI [of _ t] exI [of _ u]) (simp add: dict_simps)
qed


definition example_caching_manager :: block_manager where
  "example_caching_manager = \<lparr>bm_block_size = 2, bm_num_total_gpu_blocks = 2, bm_num_total_cpu_blocks = 0,
     bm_sliding_window = None, bm_max_block_sliding_window = None, bm_watermark = 0, bm_enable_caching = True,
     bm_watermark_blocks = 0,
     bm_allocator = \<lparr>cg_heap = nv_heap example_pc, cg_cpu = PrefixCachingAllocator (example_pc\<lparr>nv_heap := []\<rparr>),
       cg_gpu = PrefixCachingAllocator (example_pc\<lparr>nv_heap := []\<rparr>), cg_swap_mapping = [], cg_null_block = None,
       cg_block_ids_to_allocator = [(0, GPU), (1, GPU)]\<rparr>,
     bm_block_tables = [], bm_cross_block_tables = [],
     bm_namespaces = \<lparr>ns_runtime = [], ns_request_local = [], ns_warned = {}\<rparr>,
     bm_computed = [], bm_last_access = []\<rparr>"

definition example_single :: mm_group where
  "example_single = sg_init ''r'' [example_seq 7] 0 None None None 0"

lemma admitted_request_is_served_witness:
  "\<exists>s' t. bm_allocate pad_sha (\<lambda>_. []) [] None None example_single example_caching_manager = (Inr (), s') \<and>
     map_of (bm_block_tables s') 7 = Some t \<and> length (bt_blocks t) = 2"
proof -
  have gpu: "gpu_is (bm_allocator example_caching_manager) example_pc"
    by (simp add: gpu_is_def example_caching_manager_def)
  have r: "pc_reachable pad_sha (Some LRU) 2 2 example_pc" by (rule pc_reachable.init [OF example_pc_init])
  have seqs: "sg_get_seqs (Some WAITING) example_single = Inr [example_seq 7]" "seq_get_token_ids (example_seq 7) = [5, 6, 7]"
      "sg_encoder_seq example_single = None" "seq_multi_modal_data (example_seq 7) = Inr None" "sq_seq_id (example_seq 7) = 7"
    by code_simp+
  obtain ad where ad: "adapter_cache_namespace pad_sha None None = Inr ad"
    by (simp add: adapter_cache_namespace_def adapter_message_def adapter_bytes_def)
  have ok: "can_allocate example_single 0 example_caching_manager = Inr OK" by code_simp
  have "nv_block_size example_pc = 2" by code_simp
  then have bs: "bm_block_size example_caching_manager = nv_block_size example_pc" by (simp add: example_caching_manager_def)
  have "list_all packable (seq_get_token_ids (example_seq 7))" by (simp add: seqs(2) packable_def)
  from admitted_request_is_served [OF gpu r example_pc_no_chain _ _ _ bs _ _ _ seqs(1,3) this seqs(4) ad _ _ _ _ ok,
    of "\<lambda>_. []" "[]"]
  show ?thesis
    by (auto simp: seqs(2,5) pad_sha_digest example_caching_manager_def get_num_required_blocks_def cdiv_def)
qed


section \<open>Blocks that need no prefill\<close>

text \<open>Whether a block holds computed content: an active block by its flag, another if it can be evicted.\<close>

definition computed_now :: "pc_state \<Rightarrow> block_id \<Rightarrow> bool" where
  "computed_now p b = (case map_of (pc_block_tracker p) b of None \<Rightarrow> False
     | Some t \<Rightarrow> if tr_active t then tr_computed t else ev_contains b (pc_evictor p))"

lemma extend_computed_run:
  "set bs \<subseteq> dom (map_of (pc_block_tracker p)) \<Longrightarrow> extend_computed bs p = (Inr (takeWhile (computed_now p) bs), p)"
proof (induction bs)
  case (Cons b bs)
  then obtain t where t: "map_of (pc_block_tracker p) b = Some t" by auto
  have "block_is_computed b p = (Inr (computed_now p b), p)"
    by (simp add: block_is_computed_def on_tracker_def computed_now_def t bind_def gets_def return_def
      from_option_def modify_def andthen_def update_triv)
  then show ?case using Cons by (simp add: bind_def return_def)
qed (simp add: return_def)

text \<open>
  C34: what a prefill skips is computed, and never the whole prompt. The tracker of computed blocks keeps
  for a sequence a prefix of its blocks without the last one. A query extends the prefix by the blocks
  behind it that are computed now, up to the first that is not, and answers with it; once it has met a
  block that is not computed, it answers the same from then on. The allocator is not changed.
\<close>

theorem skipped_prefix_is_computed:
  assumes "gpu_is (bm_allocator s) p" "pc_reachable sha policy num_blocks block_size p"
      "0 < num_blocks" "0 < block_size" "\<forall>m. is_digest (sha m)"
    and "block_ids \<noteq> []" "set block_ids \<subseteq> set (nv_all_block_indices p)"
    and "map_of (bm_computed s) seq_id = Some (prev, has_gap)" "take (length prev) (butlast block_ids) = prev"
  shows "\<exists>r. get_cached_computed_blocks_and_update seq_id block_ids s =
      (Inr r, s\<lparr>bm_computed := AList.update seq_id (r, has_gap \<or> length r < length (butlast block_ids)) (bm_computed s)\<rparr>) \<and>
    r = prev @ (if has_gap then [] else takeWhile (computed_now p) (drop (length prev) (butlast block_ids))) \<and>
    take (length r) (butlast block_ids) = r"
proof -
  let ?ids = "butlast block_ids" and ?n = "int (length block_ids) - 1"
  let ?r = "prev @ takeWhile (computed_now p) (drop (length prev) ?ids)"
  have inv: "pc_inv sha p" by (rule pc_reachable_inv [OF assms(2-4)]) (use assms(5) in blast)
  have len: "length prev \<le> length ?ids" using assms(9) by (metis length_take min.cobounded1)
  have n: "?n = int (length ?ids)" using assms(6) by (cases block_ids) simp_all
  have keep: "AList.update seq_id (prev, g) (bm_computed s) = bm_computed s"
    if "g = has_gap" for g using assms(8) that by (simp add: update_triv)
  show ?thesis
  proof (cases "has_gap \<or> length ?ids \<le> length prev")
    case True
    then have e: "(has_gap \<or> length prev < length ?ids) = has_gap" by auto
    have "get_cached_computed_blocks_and_update seq_id block_ids s = (Inr prev, s)"
    proof (cases has_gap)
      case True
      then show ?thesis
        using assms(8) by (simp add: get_cached_computed_blocks_and_update_def bind_def gets_def from_option_def return_def)
    next
      case False
      then have "length ?ids \<le> length prev" using True by blast
      then have "?n \<le> int (length prev)" "int (length prev) = ?n" "0 \<le> ?n" using len n by linarith+
      then have c: "(?n \<le> int (length prev)) = True" "(int (length prev) = ?n) = True" "(0 \<le> ?n) = True" by blast+
      show ?thesis
        using False assms(6,8)
        by (simp add: c get_cached_computed_blocks_and_update_def bind_def gets_def from_option_def return_def andthen_def
          guard_def)
    qed
    moreover have "s = s\<lparr>bm_computed := AList.update seq_id (prev, has_gap \<or> length prev < length ?ids) (bm_computed s)\<rparr>"
      unfolding keep [OF e] by simp
    moreover have "prev = prev @ (if has_gap then [] else takeWhile (computed_now p) (drop (length prev) ?ids))"
      using True by (cases has_gap) (simp_all only: drop_all if_True if_False simp_thms takeWhile.simps append_Nil2)
    ultimately show ?thesis using assms(9) by metis
  next
    case False
    have dom: "dom (acts p) = set (nv_all_block_indices p)"
      using idx_okD(3) [OF pc_coreD(5) [OF pc_invD(2) [OF inv]]] by simp
    have ids: "take (nat ?n) block_ids = ?ids" unfolding n by (simp add: butlast_conv_take)
    have "\<not> ?n \<le> int (length prev)" "int (length prev) \<le> ?n" "0 \<le> ?n"
      using False len unfolding n by simp_all
    then have c: "(?n \<le> int (length prev)) = False" "(int (length prev) \<le> ?n) = True" "(0 \<le> ?n) = True" by blast+
    have lb: "length prev < length block_ids" using False by simp linarith
    have tr: "dom (map_of (pc_block_tracker p)) = set (nv_all_block_indices p)"
      using dom by (auto simp: acts_def dom_def)
    have "set (drop (length prev) ?ids) \<subseteq> dom (map_of (pc_block_tracker p))"
    proof
      fix b
      assume "b \<in> set (drop (length prev) ?ids)"
      then have "b \<in> set block_ids" by (blast dest: in_set_dropD in_set_butlastD)
      then show "b \<in> dom (map_of (pc_block_tracker p))" unfolding tr using assms(7) by blast
    qed
    from extend_computed_run [OF this]
    have "pc_get_computed_block_ids prev block_ids True p = (Inr ?r, p)"
      using assms(6) lb by (simp add: pc_get_computed_block_ids_def andthen_def bind_def guard_def return_def c ids)
    then have run: "cg_get_computed_block_ids prev block_ids True (bm_allocator s) = (Inr ?r, bm_allocator s)"
      using on_gpu [where f = "pc_get_computed_block_ids prev block_ids True", OF assms(1)] put_gpu_same [OF assms(1)]
      by (simp add: cg_get_computed_block_ids_def)
    have "get_cached_computed_blocks_and_update seq_id block_ids s =
        (Inr ?r, s\<lparr>bm_computed := AList.update seq_id (?r, int (length ?r) < ?n) (bm_computed s)\<rparr>)"
      using False assms(6,8) run
      by (simp add: c get_cached_computed_blocks_and_update_def bind_def gets_def from_option_def return_def andthen_def
        guard_def on_allocator_def zoom_def modify_def)
    moreover have "take (length ?r) ?ids = ?r"
    proof -
      let ?w = "takeWhile (computed_now p) (drop (length prev) ?ids)"
      have "take (length prev + length ?w) ?ids = prev @ take (length ?w) (drop (length prev) ?ids)"
        by (simp add: take_add assms(9))
      also have "take (length ?w) (drop (length prev) ?ids) = ?w" by (rule takeWhile_eq_take [symmetric])
      finally show ?thesis by simp
    qed
    moreover have "(int (length ?r) < ?n) = (has_gap \<or> length ?r < length ?ids)" using False unfolding n of_nat_less_iff by blast
    ultimately show ?thesis using False by (intro exI [of _ ?r]) simp
  qed
qed


definition example_tracking_manager :: block_manager where
  "example_tracking_manager = example_caching_manager\<lparr>bm_computed := [(7, ([], False))]\<rparr>"

lemma skipped_prefix_is_computed_witness:
  "get_cached_computed_blocks_and_update 7 [1, 0] example_tracking_manager =
     (Inr [], example_tracking_manager\<lparr>bm_computed := [(7, ([], True))]\<rparr>)"
proof -
  have gpu: "gpu_is (bm_allocator example_tracking_manager) example_pc"
    by (simp add: gpu_is_def example_tracking_manager_def example_caching_manager_def)
  have r: "pc_reachable pad_sha (Some LRU) 2 2 example_pc" by (rule pc_reachable.init [OF example_pc_init])
  have f: "nv_all_block_indices example_pc = [0, 1]" by code_simp
  have "\<not> computed_now example_pc 1" by code_simp
  moreover have "map_of (bm_computed example_tracking_manager) 7 = Some ([], False)"
    by (simp add: example_tracking_manager_def)
  ultimately show ?thesis
    using skipped_prefix_is_computed [OF gpu r, of "[1, 0]" 7 "[]" False] f pad_sha_digest
    by (simp add: example_tracking_manager_def)
qed

end
