(* ===== verification/Scheduler.thy ===== *)
theory Scheduler
  imports BlockManager SchedulerCore
begin

text \<open>
  \<^verbatim>\<open>qwen3_6_scripts/scheduler.py\<close>: the queues of the scheduler and the loops that move the groups between
  them. Sequence groups are shared objects; a queue holds their addresses (\<open>gref\<close>), and \<open>sch_groups\<close> is
  the store. The budget, the LoRA ids and the outputs that one call of \<open>schedule\<close> fills, and that the code
  passes by reference, are kept in \<open>sch_pass\<close>; the caches that recycle Python objects are left out. Each
  reading of a clock, each random number and each draw of random bytes takes the next value of a stream,
  numbered by \<open>sch_ticks\<close>.
\<close>

section \<open>State\<close>

datatype preemption_mode = SWAP | RECOMPUTE

type_synonym gref = nat

record scheduled_seq_group =
  ssg_seq_group :: gref
  ssg_token_chunk_size :: int

record scheduler_outputs =
  out_scheduled_seq_groups :: "scheduled_seq_group list"
  out_num_prefill_groups :: int
  out_num_batched_tokens :: int
  out_blocks_to_swap_in :: "(int \<times> int) list"
  out_blocks_to_swap_out :: "(int \<times> int) list"
  out_blocks_to_copy :: "(block_id \<times> block_id) list"
  out_ignored_seq_groups :: "gref list"
  out_num_lookahead_slots :: int
  out_running_queue_size :: int
  out_preempted :: int

record running_outputs =
  ro_decode_seq_groups :: "scheduled_seq_group list"
  ro_prefill_seq_groups :: "scheduled_seq_group list"
  ro_preempted :: "gref list"
  ro_swapped_out :: "gref list"
  ro_blocks_to_swap_out :: "(int \<times> int) list"
  ro_blocks_to_copy :: "(block_id \<times> block_id) list"
  ro_num_lookahead_slots :: int
  ro_decode_seq_groups_list :: "gref list"
  ro_prefill_seq_groups_list :: "gref list"

definition ro_empty :: running_outputs where
  "ro_empty = \<lparr>ro_decode_seq_groups = [], ro_prefill_seq_groups = [], ro_preempted = [], ro_swapped_out = [],
     ro_blocks_to_swap_out = [], ro_blocks_to_copy = [], ro_num_lookahead_slots = 0,
     ro_decode_seq_groups_list = [], ro_prefill_seq_groups_list = []\<rparr>"

record swapped_in_outputs =
  si_decode_seq_groups :: "scheduled_seq_group list"
  si_prefill_seq_groups :: "scheduled_seq_group list"
  si_blocks_to_swap_in :: "(int \<times> int) list"
  si_blocks_to_copy :: "(block_id \<times> block_id) list"
  si_num_lookahead_slots :: int
  si_infeasible_seq_groups :: "gref list"

definition si_empty :: swapped_in_outputs where
  "si_empty = \<lparr>si_decode_seq_groups = [], si_prefill_seq_groups = [], si_blocks_to_swap_in = [],
     si_blocks_to_copy = [], si_num_lookahead_slots = 0, si_infeasible_seq_groups = []\<rparr>"

record prefill_outputs =
  po_seq_groups :: "scheduled_seq_group list"
  po_ignored_seq_groups :: "gref list"
  po_num_lookahead_slots :: int

definition po_empty :: prefill_outputs where
  "po_empty = \<lparr>po_seq_groups = [], po_ignored_seq_groups = [], po_num_lookahead_slots = 0\<rparr>"

record pass =
  ps_budget :: budget
  ps_curr_loras :: "int set option"
  ps_running :: running_outputs
  ps_swapped_in :: swapped_in_outputs
  ps_prefills :: prefill_outputs
  ps_leftover_swapped :: "gref list"
  ps_leftover_waiting :: "gref list"

record scheduler =
  sch_block_manager :: block_manager
  sch_groups :: "gref \<Rightarrow> mm_group"
  sch_waiting :: "gref list"
  sch_running :: "gref list"
  sch_swapped :: "gref list"
  sch_finished_requests_ids :: "string list"
  sch_gdn_prefix_policy :: gdn_policy
  sch_gdn_restore_mode :: string
  sch_gdn_replay_alignment :: int
  sch_gdn_request_restore_keys :: "(string, gdn_prefix_key option) dict"
  sch_gdn_request_capture_targets :: "(string, gdn_prefix_key list) dict"
  sch_delay :: delay_state
  sch_artificial_preempt_cnt :: int
  sch_num_cumulative_preemption :: int
  sch_async_stopped :: "gref list"
  sch_ticks :: nat
  sch_pass :: pass

type_synonym 'a sch_py = "scheduler \<Rightarrow> (exn + 'a) \<times> scheduler"

text \<open>
  The configuration and what is outside of the scheduler. \<open>en_max_loras\<close> is the limit of \<open>lora_config\<close> when
  there is one; \<open>en_lora\<close>, \<open>en_prompt_adapter\<close> and \<open>en_long_lora\<close> are attributes of the group that the
  callees read; \<open>en_callback\<close> is \<open>output_proc_callback\<close>, which may change the groups.
\<close>

record env =
  en_config :: scheduler_config
  en_num_scheduler_steps :: int
  en_send_delta_data :: bool
  en_policy :: string
  en_preemption_mode :: "string option"
  en_max_loras :: "int option"
  en_artificial_preemption :: bool
  en_callback :: "(string \<Rightarrow> unit sch_py) option"
  en_sha :: "bytes \<Rightarrow> bytes"
  en_repr :: "mm_value \<Rightarrow> string"
  en_lora :: "mm_group \<Rightarrow> adapter option"
  en_prompt_adapter :: "mm_group \<Rightarrow> adapter option"
  en_long_lora :: "mm_group \<Rightarrow> int option"
  en_time :: "nat \<Rightarrow> rat"
  en_coin :: "nat \<Rightarrow> bool"
  en_fresh :: "nat \<Rightarrow> bytes"

section \<open>Access to the parts\<close>

definition on_bm :: "'a bm_py \<Rightarrow> 'a sch_py" where
  "on_bm = zoom sch_block_manager (\<lambda>b s. s\<lparr>sch_block_manager := b\<rparr>)"

definition on_policy :: "(gdn_policy, 'a) py \<Rightarrow> 'a sch_py" where
  "on_policy = zoom sch_gdn_prefix_policy (\<lambda>p s. s\<lparr>sch_gdn_prefix_policy := p\<rparr>)"

definition on_delay :: "(delay_state, 'a) py \<Rightarrow> 'a sch_py" where
  "on_delay = zoom sch_delay (\<lambda>d s. s\<lparr>sch_delay := d\<rparr>)"

definition on_pass :: "(pass, 'a) py \<Rightarrow> 'a sch_py" where
  "on_pass = zoom sch_pass (\<lambda>p s. s\<lparr>sch_pass := p\<rparr>)"

definition on_budget :: "(budget, 'a) py \<Rightarrow> 'a sch_py" where
  "on_budget m = on_pass (zoom ps_budget (\<lambda>b p. p\<lparr>ps_budget := b\<rparr>) m)"

definition upd_running :: "(running_outputs \<Rightarrow> running_outputs) \<Rightarrow> unit sch_py" where
  "upd_running f = on_pass (modify (\<lambda>p. p\<lparr>ps_running := f (ps_running p)\<rparr>))"

definition upd_swapped_in :: "(swapped_in_outputs \<Rightarrow> swapped_in_outputs) \<Rightarrow> unit sch_py" where
  "upd_swapped_in f = on_pass (modify (\<lambda>p. p\<lparr>ps_swapped_in := f (ps_swapped_in p)\<rparr>))"

definition upd_prefills :: "(prefill_outputs \<Rightarrow> prefill_outputs) \<Rightarrow> unit sch_py" where
  "upd_prefills f = on_pass (modify (\<lambda>p. p\<lparr>ps_prefills := f (ps_prefills p)\<rparr>))"

definition the_group :: "gref \<Rightarrow> mm_group sch_py" where
  "the_group r = gets (\<lambda>s. sch_groups s r)"

definition put_group :: "gref \<Rightarrow> mm_group \<Rightarrow> unit sch_py" where
  "put_group r g = modify (\<lambda>s. s\<lparr>sch_groups := (sch_groups s)(r := g)\<rparr>)"

text \<open>\<open>for seq in seqs: f(seq)\<close> where \<open>f\<close> changes the object, for sequences of the group.\<close>

definition upd_seqs :: "gref \<Rightarrow> mm_sequence list \<Rightarrow> (mm_sequence \<Rightarrow> mm_sequence) \<Rightarrow> unit sch_py" where
  "upd_seqs r seqs f =
     bind (the_group r) (\<lambda>g. put_group r (g\<lparr>sg_seqs :=
       map (\<lambda>q. if sq_seq_id q \<in> sq_seq_id ` set seqs then f q else q) (sg_seqs g)\<rparr>))"

definition set_seqs_status :: "gref \<Rightarrow> mm_sequence list \<Rightarrow> sequence_status \<Rightarrow> unit sch_py" where
  "set_seqs_status r seqs status = upd_seqs r seqs (\<lambda>q. q\<lparr>sq_status := status\<rparr>)"

definition get_seqs :: "gref \<Rightarrow> sequence_status option \<Rightarrow> mm_sequence list sch_py" where
  "get_seqs r status = bind (the_group r) (\<lambda>g. lift_sum (sg_get_seqs status g))"

text \<open>\<open>for seq in seq_group.get_seqs(status=old): seq.status = new\<close>\<close>

definition move_status :: "gref \<Rightarrow> sequence_status \<Rightarrow> sequence_status \<Rightarrow> unit sch_py" where
  "move_status r old new = bind (get_seqs r (Some old)) (\<lambda>seqs. set_seqs_status r seqs new)"

definition tick :: "nat sch_py" where
  "tick = bind (gets sch_ticks) (\<lambda>n. andthen (modify (\<lambda>s. s\<lparr>sch_ticks := Suc n\<rparr>)) (return n))"

definition clock :: "env \<Rightarrow> rat sch_py" where
  "clock env = bind tick (\<lambda>n. return (en_time env n))"

text \<open>The property \<open>lora_int_id\<close> of a group.\<close>

definition group_lora :: "mm_group \<Rightarrow> int" where
  "group_lora g = (case sg_lora_int_id g of None \<Rightarrow> 0 | Some i \<Rightarrow> i)"

section \<open>Construction and simple operations\<close>

text \<open>\<open>if n: n //= pipeline_parallel_size\<close>; the watermark is the default of the block manager.\<close>

definition per_stage :: "int \<Rightarrow> int \<Rightarrow> exn + int" where
  "per_stage n pipeline_parallel_size =
     (if n = 0 then Inr n else echeck ZeroDivisionError (pipeline_parallel_size \<noteq> 0) (Inr (n div pipeline_parallel_size)))"

definition empty_pass :: "budget \<Rightarrow> int set option \<Rightarrow> pass" where
  "empty_pass b loras = \<lparr>ps_budget = b, ps_curr_loras = loras, ps_running = ro_empty,
     ps_swapped_in = si_empty, ps_prefills = po_empty, ps_leftover_swapped = [], ps_leftover_waiting = []\<rparr>"

definition sch_init :: "env \<Rightarrow> (string, string) dict \<Rightarrow> int \<Rightarrow> int \<Rightarrow> int option \<Rightarrow> int \<Rightarrow> bool
    \<Rightarrow> (gref \<Rightarrow> mm_group) \<Rightarrow> exn + scheduler" where
  "sch_init env os_environ num_gpu_blocks num_cpu_blocks sliding_window pipeline_parallel_size
     enable_artificial_preempt groups =
     (let c = en_config env in
      ebind (per_stage num_gpu_blocks pipeline_parallel_size) (\<lambda>num_gpu_blocks.
      ebind (per_stage num_cpu_blocks pipeline_parallel_size) (\<lambda>num_cpu_blocks.
      ebind (bm_init (en_sha env) os_environ (sc_block_size c) num_gpu_blocks num_cpu_blocks (1 / 100)
        sliding_window (sc_enable_prefix_caching c)) (\<lambda>block_manager.
      ebind (gdn_cache_policy_from_env os_environ) (\<lambda>policy_name.
      ebind (gdn_policy_init policy_name) (\<lambda>policy.
      ebind (gdn_restore_mode_from_env os_environ) (\<lambda>mode.
      ebind (case gdn_restore_alignment mode (sc_block_size c) (sc_max_num_batched_tokens c) of
          Inl e \<Rightarrow> Inl (if e = ValueError then RuntimeError else e) | Inr a \<Rightarrow> Inr a) (\<lambda>alignment.
      Inr \<lparr>sch_block_manager = block_manager, sch_groups = groups, sch_waiting = [], sch_running = [],
        sch_swapped = [], sch_finished_requests_ids = [], sch_gdn_prefix_policy = policy,
        sch_gdn_restore_mode = mode, sch_gdn_replay_alignment = alignment,
        sch_gdn_request_restore_keys = [], sch_gdn_request_capture_targets = [],
        sch_delay = \<lparr>ds_prev_time = 0, ds_prev_prompt = False, ds_last_prompt_latency = 0\<rparr>,
        sch_artificial_preempt_cnt = (if enable_artificial_preempt then 500 else 0),
        sch_num_cumulative_preemption = 0, sch_async_stopped = [], sch_ticks = 0,
        sch_pass = empty_pass (new_budget 0 0) None\<rparr>))))))))"

definition add_seq_group :: "gref \<Rightarrow> unit sch_py" where
  "add_seq_group r = modify (\<lambda>s. s\<lparr>sch_waiting := sch_waiting s @ [r]\<rparr>)"

definition add_seq_group_to_running :: "gref \<Rightarrow> unit sch_py" where
  "add_seq_group_to_running r = modify (\<lambda>s. s\<lparr>sch_running := sch_running s @ [r]\<rparr>)"

definition add_seq_group_to_swapped :: "gref \<Rightarrow> unit sch_py" where
  "add_seq_group_to_swapped r = modify (\<lambda>s. s\<lparr>sch_swapped := sch_swapped s @ [r]\<rparr>)"

definition has_unfinished_seqs :: "scheduler \<Rightarrow> bool" where
  "has_unfinished_seqs s \<longleftrightarrow> length (sch_waiting s) \<noteq> 0 \<or> length (sch_running s) \<noteq> 0 \<or> length (sch_swapped s) \<noteq> 0"

definition sch_get_prefix_cache_hit_rate :: "device \<Rightarrow> scheduler \<Rightarrow> exn + rat" where
  "sch_get_prefix_cache_hit_rate d s = bm_get_prefix_cache_hit_rate d (sch_block_manager s)"

definition get_num_unfinished_seq_groups :: "scheduler \<Rightarrow> nat" where
  "get_num_unfinished_seq_groups s = length (sch_waiting s) + length (sch_running s) + length (sch_swapped s)"

definition get_and_reset_finished_requests_ids :: "string list sch_py" where
  "get_and_reset_finished_requests_ids =
     bind (gets sch_finished_requests_ids) (\<lambda>ids.
     andthen (modify (\<lambda>s. s\<lparr>sch_finished_requests_ids := []\<rparr>)) (return ids))"

definition add_finished_id :: "string \<Rightarrow> unit sch_py" where
  "add_finished_id i = modify (\<lambda>s. s\<lparr>sch_finished_requests_ids := sch_finished_requests_ids s @ [i]\<rparr>)"

definition sch_fork_seq :: "int \<Rightarrow> int \<Rightarrow> unit sch_py" where
  "sch_fork_seq parent_id child_id = on_bm (bm_fork parent_id child_id)"

definition free_seq :: "env \<Rightarrow> mm_sequence \<Rightarrow> unit sch_py" where
  "free_seq env seq = on_bm (bm_free (en_sha env) (sq_seq_id seq))"

section \<open>Freeing groups\<close>

text \<open>\<open>try: m finally: k\<close>\<close>

definition try_finally :: "('s, 'a) py \<Rightarrow> ('s, unit) py \<Rightarrow> ('s, 'a) py" where
  "try_finally m k =
     bind (catch (bind m (\<lambda>x. return (Inr x))) (\<lambda>e. return (Inl e))) (\<lambda>r. andthen k (lift_sum r))"

definition free_seq_group_cross_attn_blocks :: "env \<Rightarrow> gref \<Rightarrow> unit sch_py" where
  "free_seq_group_cross_attn_blocks env r =
     bind (the_group r) (\<lambda>g.
     try_finally
       (if sg_is_encoder_decoder g then on_bm (free_cross (en_sha env) (sg_request_id g)) else return ())
       (on_bm (zoom bm_namespaces (\<lambda>n b. b\<lparr>bm_namespaces := n\<rparr>)
         (release_request_cache_namespace (sg_request_id g)))))"

definition free_finished_seqs :: "env \<Rightarrow> gref \<Rightarrow> unit sch_py" where
  "free_finished_seqs env r =
     bind (get_seqs r None) (\<lambda>seqs.
     for_each seqs (\<lambda>seq. if seq_is_finished seq then free_seq env seq else return ()))"

definition free_finished_seq_group :: "env \<Rightarrow> gref \<Rightarrow> unit sch_py" where
  "free_finished_seq_group env r =
     bind (the_group r) (\<lambda>g.
     bind (lift_sum (sg_is_finished g)) (\<lambda>finished.
     andthen
      (if finished then
         andthen (free_seq_group_cross_attn_blocks env r)
        (andthen (modify (\<lambda>s. s\<lparr>
            sch_gdn_request_restore_keys := AList.delete (sg_request_id g) (sch_gdn_request_restore_keys s),
            sch_gdn_request_capture_targets := AList.delete (sg_request_id g) (sch_gdn_request_capture_targets s)\<rparr>))
          (add_finished_id (sg_request_id g)))
       else return ())
      (free_finished_seqs env r)))"

fun remaining_running :: "env \<Rightarrow> gref list \<Rightarrow> gref list sch_py" where
  "remaining_running env [] = return []"
| "remaining_running env (r # rs) =
     andthen (free_finished_seq_group env r)
    (bind (the_group r) (\<lambda>g.
     bind (lift_sum (sg_is_finished g)) (\<lambda>finished.
     bind (remaining_running env rs) (\<lambda>remaining.
     return (if finished then remaining else r # remaining)))))"

definition free_async_stopped :: "env \<Rightarrow> gref \<Rightarrow> unit sch_py" where
  "free_async_stopped env r =
     andthen (free_seq_group_cross_attn_blocks env r)
    (bind (the_group r) (\<lambda>g.
     andthen (add_finished_id (sg_request_id g)) (free_finished_seqs env r)))"

definition free_finished_seq_groups :: "env \<Rightarrow> unit sch_py" where
  "free_finished_seq_groups env =
     bind (gets sch_running) (\<lambda>running.
     bind (remaining_running env running) (\<lambda>remaining.
     andthen (modify (\<lambda>s. s\<lparr>sch_running := remaining\<rparr>))
    (bind (gets sch_async_stopped) (\<lambda>stopped.
     andthen (for_each stopped (free_async_stopped env))
       (modify (\<lambda>s. s\<lparr>sch_async_stopped := []\<rparr>))))))"

section \<open>Aborting\<close>

datatype queue_name = Waiting | Running | Swapped

fun queue :: "queue_name \<Rightarrow> scheduler \<Rightarrow> gref list" where
  "queue Waiting s = sch_waiting s"
| "queue Running s = sch_running s"
| "queue Swapped s = sch_swapped s"

fun set_queue :: "queue_name \<Rightarrow> gref list \<Rightarrow> scheduler \<Rightarrow> scheduler" where
  "set_queue Waiting q s = s\<lparr>sch_waiting := q\<rparr>"
| "set_queue Running q s = s\<lparr>sch_running := q\<rparr>"
| "set_queue Swapped q s = s\<lparr>sch_swapped := q\<rparr>"

text \<open>The first loop over a queue: each requested id is taken once.\<close>

fun pick_aborted :: "(gref \<Rightarrow> mm_group) \<Rightarrow> gref list \<Rightarrow> string set \<Rightarrow> gref list \<times> string set" where
  "pick_aborted groups [] ids = ([], ids)"
| "pick_aborted groups (r # rs) ids =
     (if ids = {} then ([], ids)
      else if sg_request_id (groups r) \<in> ids
      then (case pick_aborted groups rs (ids - {sg_request_id (groups r)}) of (aborted, ids') \<Rightarrow> (r # aborted, ids'))
      else pick_aborted groups rs ids)"

definition abort_seq :: "env \<Rightarrow> gref \<Rightarrow> mm_sequence \<Rightarrow> unit sch_py" where
  "abort_seq env r seq =
     (if seq_is_finished seq then return ()
      else andthen (set_seqs_status r [seq] FINISHED_ABORTED) (free_seq env seq))"

definition abort_group :: "env \<Rightarrow> queue_name \<Rightarrow> gref \<Rightarrow> unit sch_py" where
  "abort_group env name r =
     andthen (modify (\<lambda>s. set_queue name (remove1 r (queue name s)) s))
    (bind (the_group r) (\<lambda>g.
     andthen (add_finished_id (sg_request_id g))
    (bind (get_seqs r None) (\<lambda>seqs.
     andthen (for_each seqs (abort_seq env r)) (free_seq_group_cross_attn_blocks env r)))))"

fun abort_in_queues :: "env \<Rightarrow> queue_name list \<Rightarrow> string set \<Rightarrow> unit sch_py" where
  "abort_in_queues env [] ids = return ()"
| "abort_in_queues env (name # names) ids =
     bind (gets (\<lambda>s. pick_aborted (sch_groups s) (queue name s) ids)) (\<lambda>(aborted, ids').
     andthen (for_each aborted (abort_group env name)) (abort_in_queues env names ids'))"

definition abort_seq_group :: "env \<Rightarrow> string list \<Rightarrow> unit sch_py" where
  "abort_seq_group env request_ids = abort_in_queues env [Waiting, Running, Swapped] (set request_ids)"

section \<open>Counting tokens and slots\<close>

definition sch_get_num_new_tokens :: "env \<Rightarrow> gref \<Rightarrow> sequence_status \<Rightarrow> bool \<Rightarrow> int sch_py" where
  "sch_get_num_new_tokens env r status enable_chunking =
     bind (the_group r) (\<lambda>g.
     bind (get_seqs r (Some status)) (\<lambda>seqs.
     bind (gets (\<lambda>s. ps_budget (sch_pass s))) (\<lambda>budget.
     lift_sum (get_num_new_tokens (en_config env) (en_long_lora env g) (map seq_get_num_new_tokens seqs)
       enable_chunking budget))))"

definition max_num_running_seqs :: "gref \<Rightarrow> int sch_py" where
  "max_num_running_seqs r = bind (the_group r) (\<lambda>g. lift_sum (sg_get_max_num_running_seqs g))"

definition group_is_prefill :: "gref \<Rightarrow> bool sch_py" where
  "group_is_prefill r = bind (the_group r) (\<lambda>g. lift_sum (sg_is_prefill g))"

definition group_is_finished :: "gref \<Rightarrow> bool sch_py" where
  "group_is_finished r = bind (the_group r) (\<lambda>g. lift_sum (sg_is_finished g))"

text \<open>
  \<open>_cap_gdn_capture_boundary\<close> on the group. Of a group without sequences neither the stage nor the
  computed tokens are read.
\<close>

definition cap_gdn_boundary :: "env \<Rightarrow> gref \<Rightarrow> int \<Rightarrow> int \<Rightarrow> (int \<times> int) sch_py" where
  "cap_gdn_boundary env r token_chunk_size physical_query_tokens =
     bind (the_group r) (\<lambda>g.
     bind (gets (\<lambda>s. cap_gdn_capture_boundary (gp_policy (sch_gdn_prefix_policy s))
       (case map_of (sch_gdn_request_capture_targets s) (sg_request_id g) of None \<Rightarrow> [] | Some t \<Rightarrow> t)
       (length (sg_seqs g)) (sg_is_prefill g = Inr True)
       (case sg_seqs g of [] \<Rightarrow> 0 | q # _ \<Rightarrow> sd_num_computed_tokens (sq_data q))
       (sc_block_size (en_config env)) token_chunk_size physical_query_tokens)) lift_sum)"

text \<open>\<open>_can_append_slots\<close>; the random number is only drawn when artificial preemption is enabled.\<close>

definition preempt_artificially :: "env \<Rightarrow> bool sch_py" where
  "preempt_artificially env =
     (if \<not> en_artificial_preemption env then return False
      else bind tick (\<lambda>n.
        bind (gets sch_artificial_preempt_cnt) (\<lambda>cnt.
        if en_coin env n \<and> cnt > 0 then
          andthen (modify (\<lambda>s. s\<lparr>sch_artificial_preempt_cnt := cnt - 1\<rparr>)) (return True)
        else return False)))"

definition sch_can_append_slots :: "env \<Rightarrow> gref \<Rightarrow> bool \<Rightarrow> bool sch_py" where
  "sch_can_append_slots env r enable_chunking =
     bind (preempt_artificially env) (\<lambda>artificial.
     if artificial then return False
     else
       bind (group_is_prefill r) (\<lambda>is_prefill.
       let num_lookahead_slots = get_num_lookahead_slots (en_config env) is_prefill enable_chunking
       in andthen (guard AssertionError (is_prefill \<and> num_lookahead_slots > 0 \<longrightarrow>
              sc_is_multi_step (en_config env) \<and> enable_chunking))
           (bind (the_group r) (\<lambda>g.
            bind (gets (\<lambda>s. can_append_slots g num_lookahead_slots (sch_block_manager s))) lift_sum))))"

definition init_group_steps :: "env \<Rightarrow> gref \<Rightarrow> int \<Rightarrow> bool \<Rightarrow> unit sch_py" where
  "init_group_steps env r num_lookahead_slots enable_chunking =
     bind (the_group r) (\<lambda>g.
     bind (lift_sum (init_multi_step_from_lookahead_slots num_lookahead_slots (en_num_scheduler_steps env)
       (sc_is_multi_step (en_config env)) enable_chunking g)) (put_group r))"

text \<open>\<open>_append_slots\<close> returns the copies, by which the caller extends its list.\<close>

fun append_slots_of_seqs :: "env \<Rightarrow> int \<Rightarrow> mm_sequence list \<Rightarrow> (block_id \<times> block_id) list sch_py" where
  "append_slots_of_seqs env num_lookahead_slots [] = return []"
| "append_slots_of_seqs env num_lookahead_slots (seq # seqs) =
     bind (on_bm (append_slots (en_sha env) seq num_lookahead_slots)) (\<lambda>cows.
     bind (append_slots_of_seqs env num_lookahead_slots seqs) (\<lambda>rest. return (cows @ rest)))"

definition sch_append_slots :: "env \<Rightarrow> gref \<Rightarrow> bool \<Rightarrow> (block_id \<times> block_id) list sch_py" where
  "sch_append_slots env r enable_chunking =
     bind (group_is_prefill r) (\<lambda>is_prefill.
     let num_lookahead_slots = get_num_lookahead_slots (en_config env) is_prefill enable_chunking
     in andthen (init_group_steps env r num_lookahead_slots enable_chunking)
       (bind (get_seqs r (if sc_is_multi_step (en_config env) \<and> enable_chunking then None else Some RUNNING))
         (append_slots_of_seqs env num_lookahead_slots)))"

section \<open>Preemption and swapping\<close>

definition preempt_by_recompute :: "env \<Rightarrow> gref \<Rightarrow> unit sch_py" where
  "preempt_by_recompute env r =
     bind (get_seqs r (Some RUNNING)) (\<lambda>seqs.
     andthen (guard AssertionError (length seqs = 1))
       (for_each seqs (\<lambda>seq.
          andthen (set_seqs_status r [seq] WAITING)
         (andthen (free_seq env seq)
           (upd_seqs r [seq] seq_reset_state_for_recompute)))))"

text \<open>\<open>_swap_out\<close> and \<open>_swap_in\<close> return the mapping, by which the caller extends its list.\<close>

definition sch_swap_out :: "env \<Rightarrow> gref \<Rightarrow> (int \<times> int) list sch_py" where
  "sch_swap_out env r =
     bind (the_group r) (\<lambda>g.
     bind (on_bm (can_swap_out (en_sha env) g)) (\<lambda>can.
     andthen (guard RuntimeError can)
    (bind (on_bm (swap_out (en_sha env) g)) (\<lambda>mapping.
     andthen (move_status r RUNNING SWAPPED) (return mapping)))))"

definition sch_swap_in :: "env \<Rightarrow> gref \<Rightarrow> (int \<times> int) list sch_py" where
  "sch_swap_in env r =
     bind (the_group r) (\<lambda>g.
     bind (on_bm (swap_in (en_sha env) g)) (\<lambda>mapping.
     andthen (move_status r SWAPPED RUNNING) (return mapping)))"

text \<open>The argument \<open>preemption_mode\<close> is overwritten on every path, as in the code.\<close>

definition choose_preemption_mode :: "env \<Rightarrow> gref \<Rightarrow> preemption_mode sch_py" where
  "choose_preemption_mode env r = (case en_preemption_mode env of
     None \<Rightarrow> bind (max_num_running_seqs r) (\<lambda>n. return (if n = 1 then RECOMPUTE else SWAP))
   | Some m \<Rightarrow> return (if m = ''swap'' then SWAP else RECOMPUTE))"

definition preempt :: "env \<Rightarrow> gref \<Rightarrow> preemption_mode option \<Rightarrow> (preemption_mode \<times> (int \<times> int) list) sch_py" where
  "preempt env r preemption_mode =
     bind (choose_preemption_mode env r) (\<lambda>preemption_mode.
     andthen (modify (\<lambda>s. s\<lparr>sch_num_cumulative_preemption := sch_num_cumulative_preemption s + 1\<rparr>))
     (case preemption_mode of
        RECOMPUTE \<Rightarrow> andthen (preempt_by_recompute env r) (return (RECOMPUTE, []))
      | SWAP \<Rightarrow> bind (sch_swap_out env r) (\<lambda>mapping. return (SWAP, mapping))))"

section \<open>The running queue\<close>

definition discard_lora :: "mm_group \<Rightarrow> unit sch_py" where
  "discard_lora g = on_pass (modify (\<lambda>p. p\<lparr>ps_curr_loras := (case ps_curr_loras p of None \<Rightarrow> None
     | Some ids \<Rightarrow> Some (if group_lora g > 0 then ids - {group_lora g} else ids))\<rparr>))"

definition add_lora :: "int \<Rightarrow> unit sch_py" where
  "add_lora i = on_pass (modify (\<lambda>p. p\<lparr>ps_curr_loras := (case ps_curr_loras p of None \<Rightarrow> None
     | Some ids \<Rightarrow> Some (if i > 0 then insert i ids else ids))\<rparr>))"

text \<open>The victim, and whether the inner loop goes on after it.\<close>

definition pop_victim :: "gref \<Rightarrow> (gref \<times> bool) sch_py" where
  "pop_victim r =
     bind (gets sch_running) (\<lambda>q.
     if q \<noteq> [] then andthen (modify (\<lambda>s. s\<lparr>sch_running := butlast q\<rparr>)) (return (last q, True))
     else return (r, False))"

text \<open>The pending output of the victim is processed; a victim that is finished by it is freed.\<close>

definition finish_pending :: "env \<Rightarrow> gref \<Rightarrow> bool sch_py" where
  "finish_pending env victim = (case en_callback env of
     None \<Rightarrow> return True
   | Some callback \<Rightarrow>
       bind (the_group victim) (\<lambda>g.
       andthen (callback (sg_request_id g))
      (bind (group_is_finished victim) (\<lambda>finished.
       if finished then andthen (free_finished_seq_group env victim) (return False)
       else return True))))"

definition preempt_victim :: "env \<Rightarrow> gref \<Rightarrow> unit sch_py" where
  "preempt_victim env victim =
     bind (preempt env victim None) (\<lambda>(preempted_mode, mapping).
     upd_running (\<lambda>o'. if preempted_mode = RECOMPUTE
       then o'\<lparr>ro_preempted := ro_preempted o' @ [victim],
               ro_blocks_to_swap_out := ro_blocks_to_swap_out o' @ mapping\<rparr>
       else o'\<lparr>ro_swapped_out := ro_swapped_out o' @ [victim],
               ro_blocks_to_swap_out := ro_blocks_to_swap_out o' @ mapping\<rparr>))"

definition remove_from_budget :: "gref \<Rightarrow> int \<Rightarrow> unit sch_py" where
  "remove_from_budget r num_tokens =
     bind (the_group r) (\<lambda>g.
     andthen (on_budget (bg_subtract_num_batched_tokens (sg_request_id g) num_tokens))
    (bind (max_num_running_seqs r) (\<lambda>num_running_seqs.
     on_budget (modify (bg_subtract_num_seqs (sg_request_id g) num_running_seqs)))))"

text \<open>A round of \<open>while not self._can_append_slots(...): ... else: ...\<close>; \<open>Some True\<close> is the \<open>else\<close>.\<close>

definition victim_round :: "env \<Rightarrow> gref \<Rightarrow> int \<Rightarrow> bool \<Rightarrow> bool option sch_py" where
  "victim_round env r num_running_tokens enable_chunking =
     bind (sch_can_append_slots env r enable_chunking) (\<lambda>can.
     if can then return (Some True)
     else
       andthen (remove_from_budget r num_running_tokens)
      (andthen (bind (the_group r) discard_lora)
      (bind (pop_victim r) (\<lambda>(victim, cont_loop).
       bind (finish_pending env victim) (\<lambda>do_preempt.
       andthen (if do_preempt then preempt_victim env victim else return ())
         (return (if cont_loop then None else Some False)))))))"

definition make_room :: "env \<Rightarrow> gref \<Rightarrow> int \<Rightarrow> bool \<Rightarrow> bool sch_py" where
  "make_room env r num_running_tokens enable_chunking =
     bind (gets (\<lambda>s. Suc (length (sch_running s)))) (\<lambda>n.
     loop n (victim_round env r num_running_tokens enable_chunking))"

definition schedule_running_group :: "env \<Rightarrow> gref \<Rightarrow> int \<Rightarrow> bool \<Rightarrow> unit sch_py" where
  "schedule_running_group env r num_running_tokens enable_chunking =
     bind (sch_append_slots env r enable_chunking) (\<lambda>cows.
     andthen (upd_running (\<lambda>o'. o'\<lparr>ro_blocks_to_copy := ro_blocks_to_copy o' @ cows\<rparr>))
    (bind (group_is_prefill r) (\<lambda>is_prefill.
     andthen (upd_running (\<lambda>o'. if is_prefill
       then o'\<lparr>ro_prefill_seq_groups := ro_prefill_seq_groups o' @
                 [\<lparr>ssg_seq_group = r, ssg_token_chunk_size = num_running_tokens\<rparr>],
               ro_prefill_seq_groups_list := ro_prefill_seq_groups_list o' @ [r]\<rparr>
       else o'\<lparr>ro_decode_seq_groups := ro_decode_seq_groups o' @
                 [\<lparr>ssg_seq_group = r, ssg_token_chunk_size = 1\<rparr>],
               ro_decode_seq_groups_list := ro_decode_seq_groups_list o' @ [r]\<rparr>))
    (bind (the_group r) (\<lambda>g.
     andthen (on_budget (modify (bg_add_num_batched_tokens (sg_request_id g) num_running_tokens None)))
    (andthen (if enable_chunking then
         bind (max_num_running_seqs r) (\<lambda>num_running_seqs.
         on_budget (modify (bg_add_num_seqs (sg_request_id g) num_running_seqs)))
       else return ())
       (add_lora (group_lora g))))))))"

definition reached_max_len :: "env \<Rightarrow> gref \<Rightarrow> bool sch_py" where
  "reached_max_len env r =
     (if en_callback env = None then return False
      else bind (the_group r) (\<lambda>g. bind (lift_sum (first_seq g)) (\<lambda>q.
        return (seq_get_len q > sc_max_model_len (en_config env)))))"

definition serve_running :: "env \<Rightarrow> gref \<Rightarrow> int \<Rightarrow> bool \<Rightarrow> unit sch_py" where
  "serve_running env r num_running_tokens enable_chunking =
     bind (reached_max_len env r) (\<lambda>too_long.
     if too_long then modify (\<lambda>s. s\<lparr>sch_async_stopped := sch_async_stopped s @ [r]\<rparr>)
     else
       bind (make_room env r num_running_tokens enable_chunking) (\<lambda>room.
       if room then schedule_running_group env r num_running_tokens enable_chunking else return ()))"

text \<open>A round of \<open>while running_queue\<close>; the loop has no value.\<close>

definition running_round :: "env \<Rightarrow> bool \<Rightarrow> unit option sch_py" where
  "running_round env enable_chunking =
     bind (gets sch_running) (\<lambda>q. case q of
       [] \<Rightarrow> return (Some ())
     | r # rest \<Rightarrow>
         bind (sch_get_num_new_tokens env r RUNNING enable_chunking) (\<lambda>n.
         if n = 0 then return (Some ())
         else
           bind (if enable_chunking then group_is_prefill r else return False) (\<lambda>chunked_prefill.
           bind (if chunked_prefill then bind (cap_gdn_boundary env r n n) (\<lambda>(n, _). return n)
                 else return n) (\<lambda>n.
           andthen (modify (\<lambda>s. s\<lparr>sch_running := rest\<rparr>))
          (andthen (serve_running env r n enable_chunking) (return None))))))"

definition schedule_running :: "env \<Rightarrow> bool \<Rightarrow> unit sch_py" where
  "schedule_running env enable_chunking =
     andthen (upd_running (\<lambda>_. ro_empty\<lparr>ro_num_lookahead_slots :=
       get_num_lookahead_slots (en_config env) False enable_chunking\<rparr>))
    (andthen (bind (gets sch_async_stopped) (\<lambda>stopped. guard AssertionError (length stopped = 0)))
    (bind (gets (\<lambda>s. Suc (length (sch_running s)))) (\<lambda>n. loop n (running_round env enable_chunking))))"

section \<open>The swapped queue\<close>

text \<open>Whether a LoRA id has to wait because the batch has no room for another one.\<close>

definition lora_must_wait :: "env \<Rightarrow> int \<Rightarrow> bool sch_py" where
  "lora_must_wait env lora_int_id = (case en_max_loras env of
     None \<Rightarrow> return False
   | Some max_loras \<Rightarrow>
       bind (gets (\<lambda>s. ps_curr_loras (sch_pass s))) (\<lambda>loras.
       bind (from_option AssertionError loras) (\<lambda>curr_loras.
       return (lora_int_id > 0 \<and> lora_int_id \<notin> curr_loras \<and> int (card curr_loras) \<ge> max_loras))))"

definition lora_id_of :: "env \<Rightarrow> mm_group \<Rightarrow> int" where
  "lora_id_of env g = (if en_max_loras env = None then 0 else group_lora g)"

definition can_schedule :: "int \<Rightarrow> int \<Rightarrow> bool sch_py" where
  "can_schedule num_new_tokens num_new_seqs =
     (if num_new_tokens = 0 then return False else on_budget (bg_can_schedule num_new_tokens num_new_seqs))"

definition pop_swapped :: "unit sch_py" where
  "pop_swapped = modify (\<lambda>s. s\<lparr>sch_swapped := tl (sch_swapped s)\<rparr>)"

definition add_leftover_swapped :: "gref \<Rightarrow> unit sch_py" where
  "add_leftover_swapped r = on_pass (modify (\<lambda>p. p\<lparr>ps_leftover_swapped := r # ps_leftover_swapped p\<rparr>))"

definition charge_budget :: "gref \<Rightarrow> int \<Rightarrow> int option \<Rightarrow> int \<Rightarrow> unit sch_py" where
  "charge_budget r num_tokens num_scheduled_tokens num_seqs =
     bind (the_group r) (\<lambda>g.
     andthen (on_budget (modify (bg_add_num_batched_tokens (sg_request_id g) num_tokens num_scheduled_tokens)))
       (on_budget (modify (bg_add_num_seqs (sg_request_id g) num_seqs))))"

definition schedule_swapped_group :: "env \<Rightarrow> gref \<Rightarrow> int \<Rightarrow> int \<Rightarrow> bool \<Rightarrow> unit sch_py" where
  "schedule_swapped_group env r num_new_tokens num_new_seqs enable_chunking =
     andthen pop_swapped
    (bind (sch_swap_in env r) (\<lambda>mapping.
     andthen (upd_swapped_in (\<lambda>o'. o'\<lparr>si_blocks_to_swap_in := si_blocks_to_swap_in o' @ mapping\<rparr>))
    (bind (sch_append_slots env r enable_chunking) (\<lambda>cows.
     andthen (upd_swapped_in (\<lambda>o'. o'\<lparr>si_blocks_to_copy := si_blocks_to_copy o' @ cows\<rparr>))
    (bind (group_is_prefill r) (\<lambda>is_prefill.
     andthen (upd_swapped_in (\<lambda>o'. if is_prefill
       then o'\<lparr>si_prefill_seq_groups := si_prefill_seq_groups o' @
                 [\<lparr>ssg_seq_group = r, ssg_token_chunk_size = num_new_tokens\<rparr>]\<rparr>
       else o'\<lparr>si_decode_seq_groups := si_decode_seq_groups o' @
                 [\<lparr>ssg_seq_group = r, ssg_token_chunk_size = 1\<rparr>]\<rparr>))
       (charge_budget r num_new_tokens None num_new_seqs)))))))"

definition ignore_swapped :: "gref \<Rightarrow> unit sch_py" where
  "ignore_swapped r =
     bind (get_seqs r None) (\<lambda>seqs.
     andthen (set_seqs_status r seqs FINISHED_IGNORED)
    (andthen (upd_swapped_in (\<lambda>o'. o'\<lparr>si_infeasible_seq_groups := si_infeasible_seq_groups o' @ [r]\<rparr>)) pop_swapped))"

definition swapped_round :: "env \<Rightarrow> bool \<Rightarrow> unit option sch_py" where
  "swapped_round env enable_chunking =
     bind (gets sch_swapped) (\<lambda>q. case q of
       [] \<Rightarrow> return (Some ())
     | r # _ \<Rightarrow>
         bind (group_is_prefill r) (\<lambda>is_prefill.
         bind (the_group r) (\<lambda>g.
         bind (on_bm (can_swap_in (en_sha env) g
           (get_num_lookahead_slots (en_config env) is_prefill enable_chunking))) (\<lambda>alloc_status.
         if alloc_status = LATER then return (Some ())
         else if alloc_status = NEVER then
           andthen (ignore_swapped r) (return None)
         else
           bind (lora_must_wait env (lora_id_of env g)) (\<lambda>wait.
           if wait then andthen (add_leftover_swapped r) (andthen pop_swapped (return None))
           else
             bind (max_num_running_seqs r) (\<lambda>num_new_seqs.
             bind (sch_get_num_new_tokens env r SWAPPED enable_chunking) (\<lambda>n.
             bind (can_schedule n num_new_seqs) (\<lambda>ok.
             if \<not> ok then return (Some ())
             else
               andthen (add_lora (lora_id_of env g))
              (andthen (schedule_swapped_group env r n num_new_seqs enable_chunking)
                 (return None)))))))))) "

text \<open>\<open>extendleft\<close> puts the elements in front one by one.\<close>

definition requeue_swapped :: "scheduler \<Rightarrow> scheduler" where
  "requeue_swapped s = s\<lparr>sch_swapped := rev (ps_leftover_swapped (sch_pass s)) @ sch_swapped s,
     sch_pass := (sch_pass s)\<lparr>ps_leftover_swapped := []\<rparr>\<rparr>"

definition schedule_swapped :: "env \<Rightarrow> bool \<Rightarrow> unit sch_py" where
  "schedule_swapped env enable_chunking =
     andthen (upd_swapped_in (\<lambda>_. si_empty\<lparr>si_num_lookahead_slots :=
       get_num_lookahead_slots (en_config env) False enable_chunking\<rparr>))
    (andthen (bind (gets (\<lambda>s. Suc (length (sch_swapped s)))) (\<lambda>n. loop n (swapped_round env enable_chunking)))
       (modify requeue_swapped))"

section \<open>Prefills\<close>

fun eligible_keys :: "gdn_prefix_key list \<Rightarrow> int \<Rightarrow> int \<Rightarrow> string \<Rightarrow> int \<Rightarrow> gdn_prefix_key option
    \<Rightarrow> exn + gdn_prefix_key list" where
  "eligible_keys [] prompt_tokens block_size mode alignment direct_final_key = Inr []"
| "eligible_keys (key # ks) prompt_tokens block_size mode alignment direct_final_key =
     ebind (restore_key_is_eligible key prompt_tokens block_size mode alignment direct_final_key) (\<lambda>eligible.
     ebind (eligible_keys ks prompt_tokens block_size mode alignment direct_final_key) (\<lambda>rest.
     Inr (if eligible then key # rest else rest)))"

text \<open>The keys of the live blocks from which the prompt may be restored.\<close>

definition live_restore_keys :: "env \<Rightarrow> mm_sequence \<Rightarrow> block_id list \<Rightarrow> bytes list \<Rightarrow> gdn_prefix_key list sch_py" where
  "live_restore_keys env prompt_seq computed_block_nums block_hashes =
     (let prompt_len = sd_get_len (sq_data prompt_seq); block_size = sc_block_size (en_config env) in
      bind (gets id) (\<lambda>s.
      lift_sum
       (ebind (strict_prefix_block_count prompt_len block_size) (\<lambda>n.
        let max_live_blocks = min (int (length computed_block_nums)) (min (int (length block_hashes)) n) in
        ebind (keys_from_block_hashes (slice_to block_hashes max_live_blocks)) (\<lambda>live_keys.
        ebind (final_capture_key block_hashes prompt_len block_size ''direct'' block_size) (\<lambda>direct_final_key.
        eligible_keys live_keys prompt_len block_size (sch_gdn_restore_mode s) (sch_gdn_replay_alignment s)
          (if sch_gdn_restore_mode s = ''hybrid64'' then direct_final_key else None)))))))"

text \<open>The states to capture for the prompt: a repeated branch, then the final one.\<close>

definition prompt_capture_targets :: "env \<Rightarrow> mm_sequence \<Rightarrow> bytes list \<Rightarrow> gdn_prefix_key list
    \<Rightarrow> gdn_prefix_key list sch_py" where
  "prompt_capture_targets env prompt_seq block_hashes live_keys =
     bind (gets id) (\<lambda>s.
     let branch = (case gp_repeated_branch_candidate live_keys (int (length live_keys)) (sch_gdn_prefix_policy s) of
           None \<Rightarrow> [] | Some key \<Rightarrow> [key])
     in lift_sum
        (ebind (final_capture_key block_hashes (sd_get_len (sq_data prompt_seq)) (sc_block_size (en_config env))
           (sch_gdn_restore_mode s) (sch_gdn_replay_alignment s)) (\<lambda>final. case final of
             None \<Rightarrow> Inr branch
           | Some key \<Rightarrow>
               if key \<in> set branch then Inr branch
               else ebind (gp_should_capture_final key (sch_gdn_prefix_policy s)) (\<lambda>capture.
                 Inr (if capture then branch @ [key] else branch)))))"

text \<open>The part under prefix caching: the logical and the physical tokens of the first step of a prompt.\<close>

definition plan_prefix_restore :: "env \<Rightarrow> gref \<Rightarrow> mm_sequence \<Rightarrow> int \<Rightarrow> (int \<times> int) sch_py" where
  "plan_prefix_restore env r prompt_seq num_new_tokens =
     bind (on_bm (get_common_computed_block_ids [sq_seq_id prompt_seq])) (\<lambda>computed_block_nums.
     bind (on_bm (bm_get_content_hashes (en_sha env) (sq_seq_id prompt_seq))) (\<lambda>block_hashes.
     bind (live_restore_keys env prompt_seq computed_block_nums block_hashes) (\<lambda>live_keys.
     bind (on_policy (gp_select_restore live_keys (int (length live_keys)))) (\<lambda>restore_key.
     bind (the_group r) (\<lambda>g.
     andthen (modify (\<lambda>s. s\<lparr>sch_gdn_request_restore_keys :=
         AList.update (sg_request_id g) restore_key (sch_gdn_request_restore_keys s)\<rparr>))
    (bind (prompt_capture_targets env prompt_seq block_hashes live_keys) (\<lambda>capture_targets.
     andthen (modify (\<lambda>s. s\<lparr>sch_gdn_request_capture_targets :=
         AList.update (sg_request_id g) capture_targets (sch_gdn_request_capture_targets s)\<rparr>))
    (bind (gets id) (\<lambda>s.
     bind (lift_sum (plan_gdn_prefix_fast_forward restore_key (sd_num_computed_tokens (sq_data prompt_seq))
        (sd_get_len (sq_data prompt_seq)) num_new_tokens (bg_remaining_token_budget (ps_budget (sch_pass s)))
        (sc_block_size (en_config env))
        (if sch_gdn_restore_mode s = ''hybrid64'' then Some (sc_max_num_batched_tokens (en_config env)) else None)))
      (\<lambda>(num_new_tokens, budget_token_count).
     cap_gdn_boundary env r num_new_tokens budget_token_count))))))))))"

text \<open>\<open>os.urandom\<close> is called at most once per allocation.\<close>

definition allocate_and_set_running :: "env \<Rightarrow> gref \<Rightarrow> unit sch_py" where
  "allocate_and_set_running env r =
     bind (the_group r) (\<lambda>g.
     bind tick (\<lambda>n.
     andthen (on_bm (bm_allocate (en_sha env) (en_repr env) (en_fresh env n) (en_lora env g)
         (en_prompt_adapter env g) g))
       (move_status r WAITING RUNNING)))"

definition pop_waiting :: "unit sch_py" where
  "pop_waiting = modify (\<lambda>s. s\<lparr>sch_waiting := tl (sch_waiting s)\<rparr>)"

definition add_leftover_waiting :: "gref \<Rightarrow> unit sch_py" where
  "add_leftover_waiting r = on_pass (modify (\<lambda>p. p\<lparr>ps_leftover_waiting := r # ps_leftover_waiting p\<rparr>))"

definition ignore_waiting :: "gref \<Rightarrow> mm_sequence list \<Rightarrow> unit sch_py" where
  "ignore_waiting r waiting_seqs =
     andthen (set_seqs_status r waiting_seqs FINISHED_IGNORED)
    (andthen (upd_prefills (\<lambda>o'. o'\<lparr>po_ignored_seq_groups := po_ignored_seq_groups o' @ [r]\<rparr>)) pop_waiting)"

definition plan_first_step :: "env \<Rightarrow> gref \<Rightarrow> mm_sequence \<Rightarrow> int \<Rightarrow> bool \<Rightarrow> (int \<times> int) sch_py" where
  "plan_first_step env r prompt_seq num_new_tokens enable_chunking =
     (if enable_chunking \<and> sc_enable_prefix_caching (en_config env)
      then plan_prefix_restore env r prompt_seq num_new_tokens
      else return (num_new_tokens, num_new_tokens))"

definition start_steps :: "env \<Rightarrow> gref \<Rightarrow> int \<Rightarrow> bool \<Rightarrow> unit sch_py" where
  "start_steps env r num_lookahead_slots enable_chunking =
     (if enable_chunking \<and> sc_is_multi_step (en_config env) then
        bind (sch_append_slots env r enable_chunking) (\<lambda>blocks_to_copy.
        guard AssertionError (blocks_to_copy = []))
      else init_group_steps env r num_lookahead_slots enable_chunking)"

definition schedule_waiting_group :: "env \<Rightarrow> gref \<Rightarrow> mm_sequence \<Rightarrow> int \<Rightarrow> int \<Rightarrow> int \<Rightarrow> bool \<Rightarrow> unit sch_py" where
  "schedule_waiting_group env r prompt_seq num_new_tokens num_new_seqs num_lookahead_slots enable_chunking =
     andthen pop_waiting
    (andthen (allocate_and_set_running env r)
    (bind (plan_first_step env r prompt_seq num_new_tokens enable_chunking) (\<lambda>(num_new_tokens, budget_token_count).
     andthen (start_steps env r num_lookahead_slots enable_chunking)
    (andthen (upd_prefills (\<lambda>o'. o'\<lparr>po_seq_groups := po_seq_groups o' @
         [\<lparr>ssg_seq_group = r, ssg_token_chunk_size = num_new_tokens\<rparr>]\<rparr>))
       (charge_budget r budget_token_count (Some num_new_tokens) num_new_seqs)))))"

definition waiting_may_start :: "env \<Rightarrow> bool sch_py" where
  "waiting_may_start env =
     bind (clock env) (\<lambda>now.
     bind (gets (\<lambda>s. map (\<lambda>r. rm_arrival_time (sg_metrics (sch_groups s r))) (sch_waiting s))) (\<lambda>arrivals.
     bind (gets (\<lambda>s. sch_running s \<noteq> [])) (\<lambda>running.
     bind (on_delay (passed_delay (en_config env) now arrivals running)) (\<lambda>passed.
     gets (\<lambda>s. passed \<and> sch_waiting s \<noteq> [])))))"

text \<open>The tokens of the group at the head of the queue, checked against its prompt.\<close>

definition waiting_tokens :: "env \<Rightarrow> gref \<Rightarrow> mm_sequence list \<Rightarrow> bool \<Rightarrow> int sch_py" where
  "waiting_tokens env r waiting_seqs enable_chunking =
     andthen (guard AssertionError (length waiting_seqs = 1))
    (bind (sch_get_num_new_tokens env r WAITING enable_chunking) (\<lambda>n.
     andthen (guard AssertionError (\<not> enable_chunking \<longrightarrow> n = seq_get_len (hd waiting_seqs))) (return n)))"

text \<open>What a round of the loop does with the group at the head; \<open>Some ()\<close> is \<open>break\<close>.\<close>

definition admit_waiting :: "env \<Rightarrow> gref \<Rightarrow> mm_sequence list \<Rightarrow> int \<Rightarrow> int \<Rightarrow> alloc_status \<Rightarrow> bool \<Rightarrow> unit option sch_py" where
  "admit_waiting env r waiting_seqs n num_lookahead_slots alloc enable_chunking =
     (if alloc = LATER then return (Some ())
      else if alloc = NEVER then andthen (ignore_waiting r waiting_seqs) (return None)
      else
        bind (the_group r) (\<lambda>g.
        bind (lora_must_wait env (lora_id_of env g)) (\<lambda>wait.
        if wait then andthen (add_leftover_waiting r) (andthen pop_waiting (return None))
        else
          bind (max_num_running_seqs r) (\<lambda>num_new_seqs.
          bind (can_schedule n num_new_seqs) (\<lambda>ok.
          if \<not> ok then return (Some ())
          else
            andthen (add_lora (lora_id_of env g))
           (andthen (schedule_waiting_group env r (hd waiting_seqs) n num_new_seqs num_lookahead_slots
               enable_chunking)
              (return None)))))))"

definition consider_waiting :: "env \<Rightarrow> gref \<Rightarrow> bool \<Rightarrow> unit option sch_py" where
  "consider_waiting env r enable_chunking =
     (let c = en_config env;
          num_lookahead_slots = (if sc_is_multi_step c \<and> enable_chunking
            then get_num_lookahead_slots c True enable_chunking else 0)
      in
      bind (the_group r) (\<lambda>g.
      bind (get_seqs r (Some WAITING)) (\<lambda>waiting_seqs.
      bind (waiting_tokens env r waiting_seqs enable_chunking) (\<lambda>n.
      bind (lift_sum (get_prompt_limit c (en_long_lora env g))) (\<lambda>prompt_limit.
      if n > prompt_limit then andthen (ignore_waiting r waiting_seqs) (return None)
      else
        bind (gets (\<lambda>s. BlockManager.can_allocate g num_lookahead_slots (sch_block_manager s))) (\<lambda>result.
        bind (lift_sum result) (\<lambda>can_allocate.
        admit_waiting env r waiting_seqs n num_lookahead_slots can_allocate enable_chunking)))))))"

definition prefill_round :: "env \<Rightarrow> bool \<Rightarrow> unit option sch_py" where
  "prefill_round env enable_chunking =
     bind (waiting_may_start env) (\<lambda>go.
     if \<not> go then return (Some ())
     else bind (gets (\<lambda>s. hd (sch_waiting s))) (\<lambda>r. consider_waiting env r enable_chunking))"

definition requeue_waiting :: "scheduler \<Rightarrow> scheduler" where
  "requeue_waiting s = s\<lparr>sch_waiting := rev (ps_leftover_waiting (sch_pass s)) @ sch_waiting s,
     sch_pass := (sch_pass s)\<lparr>ps_leftover_waiting := []\<rparr>\<rparr>"

definition schedule_prefills :: "env \<Rightarrow> bool \<Rightarrow> unit sch_py" where
  "schedule_prefills env enable_chunking =
     andthen (upd_prefills (\<lambda>_. po_empty\<lparr>po_num_lookahead_slots :=
       get_num_lookahead_slots (en_config env) True enable_chunking\<rparr>))
    (andthen (bind (gets (\<lambda>s. Suc (length (sch_waiting s)))) (\<lambda>n. loop n (prefill_round env enable_chunking)))
    (andthen (modify requeue_waiting)
    (bind (gets (\<lambda>s. po_seq_groups (ps_prefills (sch_pass s)))) (\<lambda>seq_groups.
     if seq_groups \<noteq> [] then modify (\<lambda>s. s\<lparr>sch_delay := (sch_delay s)\<lparr>ds_prev_prompt := True\<rparr>\<rparr>)
     else return ()))))"

section \<open>Priority preemption\<close>

definition get_priority :: "mm_group \<Rightarrow> int \<times> rat" where
  "get_priority g = (sg_priority g, sg_arrival_time g)"

text \<open>
  The loop has two local variables, the sorted running queue and the number of preemptions. The blocks to
  swap out go into a list that is local to the method and is not used.
\<close>

type_synonym priority_state = "gref list \<times> int"
type_synonym 'a pri_py = "scheduler \<times> priority_state \<Rightarrow> (exn + 'a) \<times> scheduler \<times> priority_state"

definition in_scheduler :: "'a sch_py \<Rightarrow> 'a pri_py" where
  "in_scheduler = zoom fst (\<lambda>s x. (s, snd x))"

definition fits_now :: "gref \<Rightarrow> int \<Rightarrow> int \<Rightarrow> bool sch_py" where
  "fits_now r num_new_tokens num_new_seqs =
     bind (the_group r) (\<lambda>g.
     bind (gets (\<lambda>s. BlockManager.can_allocate g 0 (sch_block_manager s))) (\<lambda>result.
     bind (lift_sum result) (\<lambda>can_allocate.
     if can_allocate = OK then can_schedule num_new_tokens num_new_seqs else return False)))"

definition force_preempt :: "env \<Rightarrow> gref \<Rightarrow> unit sch_py" where
  "force_preempt env victim =
     bind (sch_get_num_new_tokens env victim RUNNING False) (\<lambda>num_running_tokens.
     andthen (remove_from_budget victim num_running_tokens)
    (andthen (bind (preempt env victim (Some RECOMPUTE)) (\<lambda>_. return ()))
       (modify (\<lambda>s. s\<lparr>sch_waiting := victim # sch_waiting s\<rparr>))))"

definition priority_round :: "env \<Rightarrow> gref \<Rightarrow> int \<Rightarrow> int \<Rightarrow> unit option pri_py" where
  "priority_round env r num_new_tokens num_new_seqs =
     bind (gets id) (\<lambda>(s, running, preemptions).
     if running = [] \<or> \<not> get_priority (sch_groups s (last running)) > get_priority (sch_groups s r)
     then return (Some ())
     else
       bind (in_scheduler (fits_now r num_new_tokens num_new_seqs)) (\<lambda>fits.
       if fits then return (Some ())
       else
         andthen (modify (\<lambda>(s, _). (s, butlast running, preemptions)))
        (andthen (in_scheduler (force_preempt env (last running)))
        (andthen (modify (\<lambda>(s, running, preemptions). (s, running, preemptions + 1)))
           (return None)))))"

definition priority_loop :: "env \<Rightarrow> gref \<Rightarrow> int \<Rightarrow> int \<Rightarrow> gref list \<Rightarrow> priority_state sch_py" where
  "priority_loop env r num_new_tokens num_new_seqs running_queue = (\<lambda>s.
     case andthen (loop (Suc (length running_queue)) (priority_round env r num_new_tokens num_new_seqs)) (gets snd)
         (s, running_queue, 0) of (result, t, _) \<Rightarrow> (result, t))"

definition schedule_priority_preemption :: "env \<Rightarrow> int sch_py" where
  "schedule_priority_preemption env =
     bind (gets (\<lambda>s. sort_key (\<lambda>r. get_priority (sch_groups s r)) (sch_running s))) (\<lambda>running_queue.
     bind (gets sch_waiting) (\<lambda>waiting.
     bind (case waiting of
         [] \<Rightarrow> return (running_queue, 0)
       | r # rest \<Rightarrow>
           andthen (modify (\<lambda>s. s\<lparr>sch_waiting := rest\<rparr>))
          (bind (max_num_running_seqs r) (\<lambda>num_new_seqs.
           bind (sch_get_num_new_tokens env r WAITING False) (\<lambda>n.
           bind (priority_loop env r n num_new_seqs running_queue) (\<lambda>st.
           andthen (modify (\<lambda>s. s\<lparr>sch_waiting := r # sch_waiting s\<rparr>)) (return st))))))
       (\<lambda>(running_queue, force_preemption_count).
     andthen (modify (\<lambda>s. s\<lparr>sch_waiting := sort_key (\<lambda>r. get_priority (sch_groups s r)) (sch_waiting s),
         sch_running := running_queue\<rparr>))
       (return force_preemption_count))))"

section \<open>The step of the queues\<close>

text \<open>\<open>SchedulerOutputs.__post_init__\<close> and its properties\<close>

definition sort_by_lora_ids :: "(gref \<Rightarrow> mm_group) \<Rightarrow> scheduled_seq_group list \<Rightarrow> scheduled_seq_group list" where
  "sort_by_lora_ids groups = sort_key (\<lambda>x. (group_lora (groups (ssg_seq_group x)), sg_request_id (groups (ssg_seq_group x))))"

definition out_post_init :: "(gref \<Rightarrow> mm_group) \<Rightarrow> scheduler_outputs \<Rightarrow> exn + scheduler_outputs" where
  "out_post_init groups out =
     echeck AssertionError (\<not> (out_blocks_to_swap_in out \<noteq> [] \<and> out_blocks_to_swap_out out \<noteq> []))
     (Inr (if \<exists>x \<in> set (out_scheduled_seq_groups out). sg_lora_int_id (groups (ssg_seq_group x)) \<noteq> None
           then out\<lparr>out_scheduled_seq_groups := sort_by_lora_ids groups (out_scheduled_seq_groups out)\<rparr>
           else out))"

definition out_is_empty :: "scheduler_outputs \<Rightarrow> bool" where
  "out_is_empty out \<longleftrightarrow> out_scheduled_seq_groups out = [] \<and> out_blocks_to_swap_in out = [] \<and>
     out_blocks_to_swap_out out = [] \<and> out_blocks_to_copy out = []"

definition begin_pass :: "env \<Rightarrow> int set option \<Rightarrow> unit sch_py" where
  "begin_pass env loras = modify (\<lambda>s. s\<lparr>sch_pass :=
     empty_pass (new_budget (sc_max_num_batched_tokens (en_config env)) (sc_max_num_seqs (en_config env))) loras\<rparr>)"

definition within_limits :: "env \<Rightarrow> budget \<Rightarrow> bool" where
  "within_limits env b \<longleftrightarrow> bg_num_batched_tokens b \<le> sc_max_num_batched_tokens (en_config env) \<and>
     bg_num_curr_seqs b \<le> sc_max_num_seqs (en_config env)"

definition assert_limits :: "env \<Rightarrow> unit sch_py" where
  "assert_limits env = bind (gets (\<lambda>s. ps_budget (sch_pass s))) (\<lambda>b. guard AssertionError (within_limits env b))"

definition add_running_seqs :: "gref \<Rightarrow> unit sch_py" where
  "add_running_seqs r =
     bind (the_group r) (\<lambda>g.
     bind (max_num_running_seqs r) (\<lambda>n. on_budget (modify (bg_add_num_seqs (sg_request_id g) n))))"

abbreviation group_refs :: "scheduled_seq_group list \<Rightarrow> gref list" where
  "group_refs xs \<equiv> map ssg_seq_group xs"

definition num_preempted :: "pass \<Rightarrow> nat" where
  "num_preempted p = length (ro_preempted (ps_running p)) + length (ro_swapped_out (ps_running p))"

definition default_queues :: "pass \<Rightarrow> scheduler \<Rightarrow> scheduler" where
  "default_queues p s = s\<lparr>
     sch_waiting := rev (ro_preempted (ps_running p)) @ sch_waiting s,
     sch_running := sch_running s @ group_refs (po_seq_groups (ps_prefills p)) @
       ro_decode_seq_groups_list (ps_running p) @ group_refs (si_decode_seq_groups (ps_swapped_in p)),
     sch_swapped := sch_swapped s @ ro_swapped_out (ps_running p)\<rparr>"

definition default_outputs :: "pass \<Rightarrow> scheduler \<Rightarrow> scheduler_outputs" where
  "default_outputs p s =
     \<lparr>out_scheduled_seq_groups = po_seq_groups (ps_prefills p) @ ro_decode_seq_groups (ps_running p) @
        si_decode_seq_groups (ps_swapped_in p),
      out_num_prefill_groups = int (length (po_seq_groups (ps_prefills p))),
      out_num_batched_tokens = bg_num_scheduled_tokens (ps_budget p),
      out_blocks_to_swap_in = si_blocks_to_swap_in (ps_swapped_in p),
      out_blocks_to_swap_out = ro_blocks_to_swap_out (ps_running p),
      out_blocks_to_copy = ro_blocks_to_copy (ps_running p) @ si_blocks_to_copy (ps_swapped_in p),
      out_ignored_seq_groups = po_ignored_seq_groups (ps_prefills p) @ si_infeasible_seq_groups (ps_swapped_in p),
      out_num_lookahead_slots = ro_num_lookahead_slots (ps_running p),
      out_running_queue_size = int (length (sch_running s)),
      out_preempted = int (num_preempted p)\<rparr>"

text \<open>The running groups count for the budget before the prefills.\<close>

definition include_running :: "env \<Rightarrow> unit sch_py" where
  "include_running env =
     bind (gets sch_running) (\<lambda>running.
     andthen (for_each running add_running_seqs)
       (modify (\<lambda>s. s\<lparr>sch_pass := (sch_pass s)\<lparr>ps_curr_loras :=
          (if en_max_loras env = None then None
           else Some (set (filter (\<lambda>i. i > 0) (map (\<lambda>r. group_lora (sch_groups s r)) (sch_running s)))))\<rparr>\<rparr>)))"

text \<open>Decodes, and swapped groups when nothing was preempted.\<close>

definition serve_queues :: "env \<Rightarrow> bool \<Rightarrow> unit sch_py" where
  "serve_queues env enable_chunking =
     andthen (schedule_running env enable_chunking)
    (bind (gets (\<lambda>s. num_preempted (sch_pass s))) (\<lambda>n.
     if n = 0 then schedule_swapped env False else return ()))"

definition prefills_unless_swapped :: "env \<Rightarrow> unit sch_py" where
  "prefills_unless_swapped env =
     bind (gets sch_swapped) (\<lambda>swapped. if swapped = [] then schedule_prefills env False else return ())"

definition schedule_default :: "env \<Rightarrow> scheduler_outputs sch_py" where
  "schedule_default env =
     andthen (begin_pass env None)
    (andthen (include_running env)
    (andthen (prefills_unless_swapped env)
    (bind (gets (\<lambda>s. po_seq_groups (ps_prefills (sch_pass s)) = [])) (\<lambda>no_prefill.
     andthen (if no_prefill \<and> en_policy env = ''priority''
       then bind (schedule_priority_preemption env) (\<lambda>_. return ()) else return ())
    (andthen (if no_prefill then serve_queues env False else return ())
    (andthen (assert_limits env)
    (bind (gets sch_pass) (\<lambda>p.
     andthen (modify (default_queues p))
    (andthen (guard AssertionError (ro_prefill_seq_groups (ps_running p) = []))
    (andthen (guard AssertionError (si_prefill_seq_groups (ps_swapped_in p) = []))
    (bind (gets (\<lambda>s. out_post_init (sch_groups s) (default_outputs p s))) lift_sum)))))))))))"

definition chunked_queues :: "pass \<Rightarrow> scheduler \<Rightarrow> scheduler" where
  "chunked_queues p s = s\<lparr>
     sch_waiting := rev (ro_preempted (ps_running p)) @ sch_waiting s,
     sch_running := sch_running s @ group_refs (si_decode_seq_groups (ps_swapped_in p)) @
       group_refs (si_prefill_seq_groups (ps_swapped_in p)) @ group_refs (ro_decode_seq_groups (ps_running p)) @
       group_refs (ro_prefill_seq_groups (ps_running p)) @ group_refs (po_seq_groups (ps_prefills p)),
     sch_swapped := sch_swapped s @ ro_swapped_out (ps_running p)\<rparr>"

definition chunked_outputs :: "pass \<Rightarrow> scheduler \<Rightarrow> scheduler_outputs" where
  "chunked_outputs p s =
     \<lparr>out_scheduled_seq_groups = po_seq_groups (ps_prefills p) @ ro_prefill_seq_groups (ps_running p) @
        si_prefill_seq_groups (ps_swapped_in p) @ ro_decode_seq_groups (ps_running p) @
        si_decode_seq_groups (ps_swapped_in p),
      out_num_prefill_groups = int (length (po_seq_groups (ps_prefills p)) +
        length (si_prefill_seq_groups (ps_swapped_in p)) + length (ro_prefill_seq_groups (ps_running p))),
      out_num_batched_tokens = bg_num_scheduled_tokens (ps_budget p),
      out_blocks_to_swap_in = si_blocks_to_swap_in (ps_swapped_in p),
      out_blocks_to_swap_out = ro_blocks_to_swap_out (ps_running p),
      out_blocks_to_copy = ro_blocks_to_copy (ps_running p) @ si_blocks_to_copy (ps_swapped_in p),
      out_ignored_seq_groups = po_ignored_seq_groups (ps_prefills p) @ si_infeasible_seq_groups (ps_swapped_in p),
      out_num_lookahead_slots = ro_num_lookahead_slots (ps_running p),
      out_running_queue_size = int (length (sch_running s)),
      out_preempted = int (num_preempted p)\<rparr>"

definition schedule_chunked_prefill :: "env \<Rightarrow> scheduler_outputs sch_py" where
  "schedule_chunked_prefill env =
     andthen (begin_pass env (Some {}))
    (andthen (serve_queues env True)
    (andthen (schedule_prefills env True)
    (andthen (assert_limits env)
    (bind (gets sch_pass) (\<lambda>p.
     andthen (modify (chunked_queues p))
    (bind (gets (\<lambda>s. out_post_init (sch_groups s) (chunked_outputs p s))) lift_sum))))))"

definition schedule_queues :: "env \<Rightarrow> scheduler_outputs sch_py" where
  "schedule_queues env =
     (if sc_chunked_prefill_enabled (en_config env) then schedule_chunked_prefill env else schedule_default env)"

end
