(* ===== verification/ScheduleStep.thy ===== *)
theory ScheduleStep
  imports Scheduler
begin

text \<open>
  \<open>Scheduler.schedule\<close> of \<^verbatim>\<open>qwen3_6_scripts/scheduler.py\<close>: one step of the queues, the transfers of the CPU
  tier, and the metadata that the workers receive for each scheduled group, with the GDN states to
  restore, to capture and to drop. What the metadata only pass on (sampling parameters, adapters,
  multimodal and encoder data) is left out. The optional trace hook of the block manager is not defined
  by the class and therefore not called.
\<close>

section \<open>The metadata of a group\<close>

datatype group_metadata = FullMetadata sequence_group_metadata | DeltaMetadata sequence_group_metadata_delta

text \<open>The GDN part and the computed blocks of one group; outside of a prefill the lists are \<open>None\<close>.\<close>

record prompt_step =
  st_is_first_prefill :: bool
  st_do_sample :: bool
  st_computed_block_nums :: "block_id list"
  st_gdn_restore_key :: "gdn_prefix_key option"
  st_gdn_capture_points :: "gdn_capture_point list option"
  st_gdn_evict_keys :: "gdn_prefix_key list option"
  st_gdn_segment_offsets :: "int list option"

definition decode_step :: "block_id list \<Rightarrow> prompt_step" where
  "decode_step raw = \<lparr>st_is_first_prefill = False, st_do_sample = True, st_computed_block_nums = raw,
     st_gdn_restore_key = None, st_gdn_capture_points = None, st_gdn_evict_keys = None,
     st_gdn_segment_offsets = None\<rparr>"

text \<open>The computed blocks that a prefill step may skip, and the checkpoint that it restores.\<close>

definition restorable_blocks :: "env \<Rightarrow> string \<Rightarrow> int \<Rightarrow> block_id list
    \<Rightarrow> (block_id list \<times> gdn_prefix_key option) sch_py" where
  "restorable_blocks env request_id num_computed_tokens raw =
     bind (gets (\<lambda>s. case map_of (sch_gdn_request_restore_keys s) request_id of Some (Some k) \<Rightarrow> Some k | _ \<Rightarrow> None))
       (\<lambda>restore_key. case (if num_computed_tokens = 0 then restore_key else None) of
         Some key \<Rightarrow>
           let common = slice_to raw (fst key)
           in andthen (guard RuntimeError (int (length common) = fst key)) (return (common, Some key))
       | None \<Rightarrow>
           let block_size = sc_block_size (en_config env)
           in andthen (guard ZeroDivisionError (block_size \<noteq> 0))
             (return (slice_to raw (num_computed_tokens div block_size), None)))"

definition record_cached_tokens :: "gref \<Rightarrow> int \<Rightarrow> unit sch_py" where
  "record_cached_tokens r restore_tokens =
     (if restore_tokens = 0 then return ()
      else bind (the_group r) (\<lambda>g. put_group r (g\<lparr>sg_metrics := (sg_metrics g)\<lparr>rm_num_cached_tokens :=
        Some (max (case rm_num_cached_tokens (sg_metrics g) of None \<Rightarrow> 0 | Some n \<Rightarrow> n) restore_tokens)\<rparr>\<rparr>)))"

text \<open>The states to capture in this step, the states that make room for them, and the segments.\<close>

definition plan_captures :: "env \<Rightarrow> string \<Rightarrow> mm_sequence \<Rightarrow> int \<Rightarrow> int
    \<Rightarrow> (gdn_capture_point list \<times> gdn_prefix_key list \<times> int list) sch_py" where
  "plan_captures env request_id seq physical_context_tokens logical_end_tokens =
     (let block_size = sc_block_size (en_config env) in
      bind (gets id) (\<lambda>s.
      let policy = gp_policy (sch_gdn_prefix_policy s); mode = sch_gdn_restore_mode s in
      bind (if policy = ''fine32'' then
          bind (on_bm (bm_get_content_hashes (en_sha env) (sq_seq_id seq))) (\<lambda>block_hashes.
          bind (lift_sum (final_capture_key block_hashes logical_end_tokens block_size mode
            (sch_gdn_replay_alignment s))) (\<lambda>step_key.
          return (case step_key of None \<Rightarrow> [] | Some k \<Rightarrow> [k])))
        else return (case map_of (sch_gdn_request_capture_targets s) request_id of None \<Rightarrow> [] | Some t \<Rightarrow> t))
      (\<lambda>capture_targets.
      if policy = ''off'' then return ([], [], [])
      else
        bind (if mode = ''hybrid64'' \<and> policy = ''admission64'' then
            bind (on_bm (bm_get_content_hashes (en_sha env) (sq_seq_id seq))) (\<lambda>block_hashes.
            lift_sum (canonical_direct_segment_offsets block_hashes physical_context_tokens logical_end_tokens
              block_size (sc_max_num_batched_tokens (en_config env))))
          else return []) (\<lambda>offsets.
        bind (lift_sum (capture_points_for_step capture_targets physical_context_tokens logical_end_tokens
          block_size)) (\<lambda>points.
        bind (on_policy (gp_admit (map snd points))) (\<lambda>evict_keys. return (points, evict_keys, offsets)))))))"

definition prefill_step :: "env \<Rightarrow> gref \<Rightarrow> int \<Rightarrow> block_id list \<Rightarrow> prompt_step sch_py" where
  "prefill_step env r token_chunk_size raw =
     bind (the_group r) (\<lambda>g.
     bind (get_seqs r None) (\<lambda>seqs.
     andthen (guard AssertionError (length seqs = 1))
    (let seq = hd seqs; i = sg_request_id g;
         num_computed_tokens = sd_num_computed_tokens (sq_data seq);
         is_first_prefill = (num_computed_tokens = 0);
         len = sd_get_len (sq_data seq);
         logical_end_tokens = min len (num_computed_tokens + token_chunk_size)
     in
     bind (if sc_enable_prefix_caching (en_config env) then
        bind (restorable_blocks env i num_computed_tokens raw) (\<lambda>(common, restore_key).
        let restore_tokens = (case restore_key of None \<Rightarrow> 0 | Some k \<Rightarrow> fst k * sc_block_size (en_config env))
        in andthen (record_cached_tokens r restore_tokens)
          (bind (plan_captures env i seq (if is_first_prefill then restore_tokens else num_computed_tokens)
             logical_end_tokens) (\<lambda>(points, evict_keys, offsets).
           return (common, restore_key, points, evict_keys, offsets))))
      else return ([], None, [], [], []))
     (\<lambda>(common, restore_key, points, evict_keys, offsets).
     andthen (if logical_end_tokens \<ge> len then modify (\<lambda>s. s\<lparr>
         sch_gdn_request_restore_keys := AList.delete i (sch_gdn_request_restore_keys s),
         sch_gdn_request_capture_targets := AList.delete i (sch_gdn_request_capture_targets s)\<rparr>) else return ())
       (return \<lparr>st_is_first_prefill = is_first_prefill,
          st_do_sample = (\<not> token_chunk_size + num_computed_tokens < len),
          st_computed_block_nums = common, st_gdn_restore_key = restore_key,
          st_gdn_capture_points = Some points, st_gdn_evict_keys = Some evict_keys,
          st_gdn_segment_offsets = Some offsets\<rparr>)))))"

text \<open>\<open>for seq in seq_group.get_seqs(status=RUNNING)\<close>: the tables, and the blocks are accessed.\<close>

fun tables_of_seqs :: "rat \<Rightarrow> mm_sequence list \<Rightarrow> (int \<times> block_id list) list sch_py" where
  "tables_of_seqs now [] = return []"
| "tables_of_seqs now (seq # seqs) =
     bind (gets (\<lambda>s. bm_get_block_table (sq_seq_id seq) (sch_block_manager s))) (\<lambda>result.
     bind (lift_sum result) (\<lambda>table.
     andthen (on_bm (access_all_blocks_in_seq (sq_seq_id seq) now))
    (bind (tables_of_seqs now seqs) (\<lambda>rest. return ((sq_seq_id seq, table) # rest)))))"

text \<open>\<open>data.get_delta_and_reset()\<close> for each sequence, which changes the sequences of the group.\<close>

fun deltas_of_seqs :: "gref \<Rightarrow> mm_sequence list \<Rightarrow> (int \<times> sequence_data_delta) list sch_py" where
  "deltas_of_seqs r [] = return []"
| "deltas_of_seqs r (seq # seqs) = (case sd_get_delta_and_reset (sq_data seq) of
     (Inl e, d) \<Rightarrow> raise e
   | (Inr delta, d) \<Rightarrow>
       andthen (upd_seqs r [seq] (\<lambda>q. q\<lparr>sq_data := d\<rparr>))
      (bind (deltas_of_seqs r seqs) (\<lambda>rest. return ((sq_seq_id seq, delta) # rest))))"

definition build_metadata :: "env \<Rightarrow> gref \<Rightarrow> int \<Rightarrow> mm_sequence list \<Rightarrow> (int \<times> block_id list) list \<Rightarrow> block_id list option
    \<Rightarrow> bool \<Rightarrow> prompt_step \<Rightarrow> group_metadata sch_py" where
  "build_metadata env r token_chunk_size running_seqs block_tables cross_block_table is_prompt st =
     bind (the_group r) (\<lambda>g.
     if st_is_first_prefill st \<or> \<not> en_send_delta_data env then
       bind (lift_sum (gm_post_init
         \<lparr>gm_request_id = sg_request_id g, gm_is_prompt = is_prompt,
          gm_seq_data = dict_of (map (\<lambda>q. (sq_seq_id q, sq_data q)) running_seqs),
          gm_block_tables = dict_of block_tables, gm_do_sample = st_do_sample st,
          gm_lora_int_id = sg_lora_int_id g, gm_computed_block_nums = Some (st_computed_block_nums st),
          gm_state = Some (sg_state g), gm_cross_block_table = cross_block_table,
          gm_token_chunk_size = Some token_chunk_size, gm_gdn_restore_key = st_gdn_restore_key st,
          gm_gdn_capture_points = st_gdn_capture_points st, gm_gdn_evict_keys = st_gdn_evict_keys st,
          gm_gdn_segment_offsets = st_gdn_segment_offsets st\<rparr>)) (\<lambda>m. return (FullMetadata m))
     else
       bind (deltas_of_seqs r running_seqs) (\<lambda>deltas.
       return (DeltaMetadata \<lparr>gd_seq_data_delta = dict_of deltas, gd_request_id = sg_request_id g,
         gd_block_tables = dict_of block_tables, gd_is_prompt = is_prompt, gd_do_sample = st_do_sample st,
         gd_token_chunk_size = Some token_chunk_size, gd_computed_block_nums = Some (st_computed_block_nums st),
         gd_gdn_restore_key = st_gdn_restore_key st, gd_gdn_capture_points = st_gdn_capture_points st,
         gd_gdn_evict_keys = st_gdn_evict_keys st, gd_gdn_segment_offsets = st_gdn_segment_offsets st\<rparr>)))"

definition metadata_of_group :: "env \<Rightarrow> rat \<Rightarrow> scheduled_seq_group \<Rightarrow> group_metadata sch_py" where
  "metadata_of_group env now x =
     (let r = ssg_seq_group x; token_chunk_size = ssg_token_chunk_size x in
      andthen (bind (the_group r) (\<lambda>g. put_group r (maybe_set_first_scheduled_time now g)))
     (bind (the_group r) (\<lambda>g.
      bind (if sg_is_encoder_decoder g then
          bind (gets (\<lambda>s. get_cross_block_table (sg_request_id g) (sch_block_manager s))) (\<lambda>result.
          bind (lift_sum result) (\<lambda>t. return (Some t)))
        else return None) (\<lambda>cross_block_table.
      bind (get_seqs r (Some RUNNING)) (\<lambda>running_seqs.
      bind (tables_of_seqs now running_seqs) (\<lambda>block_tables.
      bind (if sc_enable_prefix_caching (en_config env)
            then on_bm (get_common_computed_block_ids (map sq_seq_id running_seqs)) else return []) (\<lambda>raw.
      bind (group_is_prefill r) (\<lambda>is_prompt.
      bind (if is_prompt then prefill_step env r token_chunk_size raw else return (decode_step raw)) (\<lambda>st.
      build_metadata env r token_chunk_size running_seqs block_tables cross_block_table is_prompt st)))))))))"

fun metadata_of_groups :: "env \<Rightarrow> rat \<Rightarrow> scheduled_seq_group list \<Rightarrow> group_metadata list sch_py" where
  "metadata_of_groups env now [] = return []"
| "metadata_of_groups env now (x # xs) =
     bind (metadata_of_group env now x) (\<lambda>m.
     bind (metadata_of_groups env now xs) (\<lambda>rest. return (m # rest)))"

section \<open>One step\<close>

definition allow_async_output_proc :: "mm_group \<Rightarrow> bool" where
  "allow_async_output_proc g \<longleftrightarrow> sg_sampling_n g = None \<or> sg_sampling_n g = Some 1"

text \<open>The transfers of the CPU tier join the step, unless a preemption swaps in the same step.\<close>

definition add_prefix_swaps :: "scheduler_outputs \<Rightarrow> scheduler_outputs sch_py" where
  "add_prefix_swaps out =
     bind (on_bm bm_get_and_reset_prefix_swaps) (\<lambda>(prefix_swap_in, prefix_swap_out).
     andthen (guard RuntimeError ((prefix_swap_in \<noteq> [] \<or> prefix_swap_out \<noteq> []) \<longrightarrow>
         out_blocks_to_swap_in out = [] \<and> out_blocks_to_swap_out out = []))
       (return (out\<lparr>out_blocks_to_swap_in := out_blocks_to_swap_in out @ prefix_swap_in,
          out_blocks_to_swap_out := out_blocks_to_swap_out out @ prefix_swap_out\<rparr>)))"

definition add_scheduler_time :: "rat \<Rightarrow> gref \<Rightarrow> unit sch_py" where
  "add_scheduler_time scheduler_time r =
     bind (the_group r) (\<lambda>g. put_group r (g\<lparr>sg_metrics := (sg_metrics g)\<lparr>rm_scheduler_time :=
       Some (case rm_scheduler_time (sg_metrics g) of None \<Rightarrow> scheduler_time | Some t \<Rightarrow> t + scheduler_time)\<rparr>\<rparr>))"

definition schedule :: "env \<Rightarrow> (group_metadata list \<times> scheduler_outputs \<times> bool) sch_py" where
  "schedule env =
     bind (clock env) (\<lambda>scheduler_start_time.
     andthen (on_bm bm_begin_prefix_cache_step)
    (bind (schedule_queues env) (\<lambda>out.
     bind (add_prefix_swaps out) (\<lambda>out.
     bind (clock env) (\<lambda>now.
     bind (metadata_of_groups env now (out_scheduled_seq_groups out)) (\<lambda>metadata.
     bind (gets (\<lambda>s. en_callback env \<noteq> None \<and>
       list_all (\<lambda>x. allow_async_output_proc (sch_groups s (ssg_seq_group x))) (out_scheduled_seq_groups out)))
       (\<lambda>allow_async.
     andthen (for_each (out_scheduled_seq_groups out) (\<lambda>_. on_bm bm_mark_blocks_as_computed))
    (bind (clock env) (\<lambda>end_time.
     bind (gets sch_running) (\<lambda>running.
     andthen (for_each running (add_scheduler_time (end_time - scheduler_start_time)))
       (return (metadata, out, allow_async))))))))))))"

end
