(* ===== verification/SchedulerFrame.thy ===== *)
theory SchedulerFrame
  imports ScheduleStep
begin

text \<open>
  What the operations of the scheduler leave alone. \<open>keeps R m\<close> says that \<open>m\<close> relates the state before to
  the state after by \<open>R\<close>, also when it raises; the combinators keep every preorder (the locale
  \<open>step_relation\<close>). \<open>gentle\<close> is the relation of the operations that move no group between queues and no
  sequence to another queue's status.
  \<open>hoare P m Q\<close> is a triple for the runs that return.
\<close>

section \<open>Preorders on states\<close>

definition keeps :: "('s \<Rightarrow> 's \<Rightarrow> bool) \<Rightarrow> ('s, 'a) py \<Rightarrow> bool" where
  "keeps R m \<longleftrightarrow> (\<forall>s. R s (snd (m s)))"

locale step_relation =
  fixes R :: "'s \<Rightarrow> 's \<Rightarrow> bool"
  assumes refl: "R s s"
    and trans: "R s t \<Longrightarrow> R t u \<Longrightarrow> R s u"
begin

lemma pure: "keeps R (return x)" "keeps R (raise e)" "keeps R (gets f)" "keeps R (guard e b)"
  "keeps R (from_option e y)" "keeps R (lift_sum r)"
  using refl by (simp_all add: keeps_def py_defs lift_sum_def split: option.split sum.split)

lemma bind: "keeps R m \<Longrightarrow> (\<And>x. keeps R (k x)) \<Longrightarrow> keeps R (bind m k)"
  unfolding keeps_def bind_def
proof
  fix s
  assume m: "\<forall>s. R s (snd (m s))" and k: "\<And>x. \<forall>s. R s (snd (k x s))"
  obtain r t where r: "m s = (r, t)" by fastforce
  have "R s t" using m r by (metis snd_conv)
  then show "R s (snd (case m s of (Inl e, t) \<Rightarrow> (Inl e, t) | (Inr x, t) \<Rightarrow> k x t))"
    using k trans by (cases r) (auto simp: r)
qed

lemma andthen: "keeps R m \<Longrightarrow> keeps R k \<Longrightarrow> keeps R (andthen m k)"
  unfolding andthen_def by (rule bind)

lemma catch: "keeps R m \<Longrightarrow> (\<And>e. keeps R (h e)) \<Longrightarrow> keeps R (catch m h)"
  unfolding keeps_def catch_def
proof
  fix s
  assume m: "\<forall>s. R s (snd (m s))" and h: "\<And>e. \<forall>s. R s (snd (h e s))"
  obtain r t where r: "m s = (r, t)" by fastforce
  have "R s t" using m r by (metis snd_conv)
  then show "R s (snd (case m s of (Inl e, t) \<Rightarrow> h e t | (Inr x, t) \<Rightarrow> (Inr x, t)))"
    using h trans by (cases r) (auto simp: r)
qed

lemma branch: "keeps R m \<Longrightarrow> keeps R k \<Longrightarrow> keeps R (if b then m else k)"
  by simp

lemma option: "keeps R m \<Longrightarrow> (\<And>x. keeps R (k x)) \<Longrightarrow> keeps R (case y of None \<Rightarrow> m | Some x \<Rightarrow> k x)"
  by (cases y) simp_all

lemma pair: "(\<And>x y. keeps R (k x y)) \<Longrightarrow> keeps R (case z of (x, y) \<Rightarrow> k x y)"
  by (cases z) simp

lemma for_each: "(\<And>x. keeps R (f x)) \<Longrightarrow> keeps R (for_each xs f)"
  by (induction xs) (simp_all add: pure andthen)

lemmas combinators = pure bind andthen catch branch option pair for_each

end

lemma keeps_returns: "keeps R m \<Longrightarrow> m s = (r, t) \<Longrightarrow> R s t"
  unfolding keeps_def by (metis snd_conv)

lemma keeps_modify: "(\<And>s. R s (f s)) \<Longrightarrow> keeps R (modify f)"
  by (simp add: keeps_def modify_def)

lemma keeps_zoom: "(\<And>s x. R s (p x s)) \<Longrightarrow> keeps R (zoom g p m)"
  by (simp add: keeps_def zoom_def split: prod.split)

section \<open>Triples\<close>

definition hoare :: "('s \<Rightarrow> bool) \<Rightarrow> ('s, 'a) py \<Rightarrow> ('a \<Rightarrow> 's \<Rightarrow> bool) \<Rightarrow> bool" where
  "hoare P m Q \<longleftrightarrow> (\<forall>s. P s \<longrightarrow> wp m Q (\<lambda>_ _. True) s)"

lemma hoare_bind: "hoare P m R \<Longrightarrow> (\<And>x. hoare (R x) (k x) Q) \<Longrightarrow> hoare P (bind m k) Q"
  unfolding hoare_def wp_bind by (blast intro: wp_mono)

lemma hoare_andthen: "hoare P m (\<lambda>_. R) \<Longrightarrow> hoare R k Q \<Longrightarrow> hoare P (andthen m k) Q"
  unfolding andthen_def by (rule hoare_bind)

lemma hoare_gets: "(\<And>x. hoare (\<lambda>s. P s \<and> f s = x) (k x) Q) \<Longrightarrow> hoare P (bind (gets f) k) Q"
  unfolding hoare_def wp_bind wp_gets by simp

lemma hoare_modify: "hoare (\<lambda>s. Q (f s)) (modify f) (\<lambda>_. Q)"
  by (simp add: hoare_def wp_modify)

lemma hoare_return: "(\<And>s. P s \<Longrightarrow> Q x s) \<Longrightarrow> hoare P (return x) Q"
  by (simp add: hoare_def wp_return)

lemma hoare_if: "(b \<Longrightarrow> hoare P m Q) \<Longrightarrow> (\<not> b \<Longrightarrow> hoare P k Q) \<Longrightarrow> hoare P (if b then m else k) Q"
  by simp

lemma hoare_pair: "(\<And>x y. hoare P (k x y) Q) \<Longrightarrow> hoare P (case z of (x, y) \<Rightarrow> k x y) Q"
  by (cases z) simp

lemma hoare_pre: "hoare R m Q \<Longrightarrow> (\<And>s. P s \<Longrightarrow> R s) \<Longrightarrow> hoare P m Q"
  by (simp add: hoare_def)

lemma hoare_post: "hoare P m R \<Longrightarrow> (\<And>x s. R x s \<Longrightarrow> Q x s) \<Longrightarrow> hoare P m Q"
  unfolding hoare_def by (blast intro: wp_mono)

lemma hoare_assume: "(A \<Longrightarrow> hoare P m Q) \<Longrightarrow> hoare (\<lambda>s. P s \<and> A) m Q"
  by (auto simp: hoare_def)

lemma hoare_loop:
  assumes "\<And>k. hoare (\<lambda>s. I s \<and> f s = k) body (\<lambda>r t. case r of None \<Rightarrow> I t \<and> f t < k | Some x \<Rightarrow> Q x t)"
  shows "hoare (\<lambda>s. I s \<and> f s < n) (loop n body) Q"
  unfolding hoare_def using assms by (auto simp: hoare_def intro: wp_loop [where I = I and f = f])

definition preserved :: "('s \<Rightarrow> 's \<Rightarrow> bool) \<Rightarrow> ('s \<Rightarrow> bool) \<Rightarrow> bool" where
  "preserved R P \<longleftrightarrow> (\<forall>s t. R s t \<longrightarrow> P s \<longrightarrow> P t)"

lemma hoare_keeps: "keeps R m \<Longrightarrow> preserved R P \<Longrightarrow> hoare P m (\<lambda>_. P)"
  unfolding hoare_def preserved_def wp_def by (auto split: prod.split sum.split dest: keeps_returns)

lemma hoare_step: "keeps R m \<Longrightarrow> preserved R P \<Longrightarrow> (\<And>x. hoare P (k x) Q) \<Longrightarrow> hoare P (bind m k) Q"
  by (rule hoare_bind [OF hoare_keeps])

lemma hoare_run: "keeps R m \<Longrightarrow> preserved R P \<Longrightarrow> hoare P k Q \<Longrightarrow> hoare P (andthen m k) Q"
  by (rule hoare_andthen [OF hoare_keeps])

section \<open>Where the groups are\<close>

text \<open>The status that the sequences of a group have; \<open>None\<close> for a group that is given up.\<close>

definition group_ok :: "sequence_status option \<Rightarrow> mm_group \<Rightarrow> bool" where
  "group_ok home g \<longleftrightarrow> sg_inv g \<and>
     (\<forall>q \<in> set (sg_seqs g). case home of None \<Rightarrow> True | Some st \<Rightarrow> sq_status q = st \<or> seq_is_finished q)"

definition queue_lists :: "scheduler \<Rightarrow> (gref list \<times> gref list \<times> gref list \<times> gref list) \<times>
    running_outputs \<times> swapped_in_outputs \<times> prefill_outputs \<times> gref list \<times> gref list" where
  "queue_lists s = ((sch_waiting s, sch_running s, sch_swapped s, sch_async_stopped s),
     ps_running (sch_pass s), ps_swapped_in (sch_pass s), ps_prefills (sch_pass s),
     ps_leftover_swapped (sch_pass s), ps_leftover_waiting (sch_pass s))"

definition gentle :: "scheduler \<Rightarrow> scheduler \<Rightarrow> bool" where
  "gentle s t \<longleftrightarrow> queue_lists t = queue_lists s \<and>
     (\<forall>r home. group_ok home (sch_groups s r) \<longrightarrow> group_ok home (sch_groups t r))"

interpretation gentle: step_relation gentle
  by unfold_locales (auto simp: gentle_def)

text \<open>The callback of the asynchronous output processing only finishes or extends sequences.\<close>

definition callback_ok :: "env \<Rightarrow> bool" where
  "callback_ok env \<longleftrightarrow> (\<forall>callback i. en_callback env = Some callback \<longrightarrow> keeps gentle (callback i))"

named_theorems gentle_intros

lemmas gentle.combinators [gentle_intros]

lemma gentle_on_bm [gentle_intros]: "keeps gentle (on_bm m)"
  unfolding on_bm_def by (rule keeps_zoom) (simp add: gentle_def queue_lists_def)

lemma gentle_on_policy [gentle_intros]: "keeps gentle (on_policy m)"
  unfolding on_policy_def by (rule keeps_zoom) (simp add: gentle_def queue_lists_def)

lemma gentle_on_delay [gentle_intros]: "keeps gentle (on_delay m)"
  unfolding on_delay_def by (rule keeps_zoom) (simp add: gentle_def queue_lists_def)

lemma gentle_on_budget [gentle_intros]: "keeps gentle (on_budget m)"
  by (simp add: keeps_def on_budget_def on_pass_def zoom_def gentle_def queue_lists_def split: prod.split)

lemma gentle_frame:
  "gentle s (s\<lparr>sch_ticks := n\<rparr>)" "gentle s (s\<lparr>sch_finished_requests_ids := ids\<rparr>)"
  "gentle s (s\<lparr>sch_gdn_request_restore_keys := rk\<rparr>)" "gentle s (s\<lparr>sch_gdn_request_capture_targets := ct\<rparr>)"
  "gentle s (s\<lparr>sch_gdn_request_restore_keys := rk, sch_gdn_request_capture_targets := ct\<rparr>)"
  "gentle s (s\<lparr>sch_artificial_preempt_cnt := c\<rparr>)" "gentle s (s\<lparr>sch_num_cumulative_preemption := c\<rparr>)"
  "gentle s (s\<lparr>sch_delay := d\<rparr>)"
  "gentle s (s\<lparr>sch_pass := (sch_pass s)\<lparr>ps_curr_loras := l\<rparr>\<rparr>)"
  by (simp_all add: gentle_def queue_lists_def)

lemma gentle_modify [gentle_intros]: "(\<And>s. gentle s (f s)) \<Longrightarrow> keeps gentle (modify f)"
  by (rule keeps_modify)

lemma gentle_the_group [gentle_intros]: "keeps gentle (the_group r)"
  unfolding the_group_def by (intro gentle_intros)

lemma gentle_tick [gentle_intros]: "keeps gentle tick" "keeps gentle (clock env)"
  unfolding clock_def tick_def by (intro gentle_intros gentle_frame)+

lemma gentle_put_group: "(\<And>home. group_ok home (sch_groups s r) \<Longrightarrow> group_ok home g) \<Longrightarrow>
    gentle s (s\<lparr>sch_groups := (sch_groups s)(r := g)\<rparr>)"
  by (simp add: gentle_def queue_lists_def)

lemma group_ok_fields [simp]:
  "group_ok home (g\<lparr>sg_state := st\<rparr>) = group_ok home g" "group_ok home (g\<lparr>sg_metrics := m\<rparr>) = group_ok home g"
  by (simp_all add: group_ok_def sg_inv_def)

lemma gentle_update_group:
  "(\<And>g home. group_ok home g \<Longrightarrow> group_ok home (f g)) \<Longrightarrow> keeps gentle (bind (the_group r) (\<lambda>g. put_group r (f g)))"
  by (simp add: keeps_def the_group_def put_group_def bind_def gets_def modify_def gentle_put_group)

lemma gentle_get_seqs [gentle_intros]: "keeps gentle (get_seqs r st)"
  unfolding get_seqs_def by (intro gentle_intros)

lemma group_ok_map:
  assumes "group_ok home g" "\<And>q. sq_seq_id (f q) = sq_seq_id q"
    "\<And>q. q \<in> set (sg_seqs g) \<Longrightarrow> (case home' of None \<Rightarrow> True | Some st \<Rightarrow> sq_status (f q) = st \<or> seq_is_finished (f q))"
  shows "group_ok home' (g\<lparr>sg_seqs := map f (sg_seqs g)\<rparr>)"
  using assms by (auto simp: group_ok_def sg_inv_def comp_def)

lemma gentle_upd_seqs:
  assumes "\<And>q. sq_seq_id (f q) = sq_seq_id q" "\<And>q. sq_status (f q) = sq_status q"
  shows "keeps gentle (upd_seqs r seqs f)"
  unfolding upd_seqs_def
proof (rule gentle_update_group)
  fix g home
  assume ok: "group_ok home g"
  show "group_ok home (g\<lparr>sg_seqs := map (\<lambda>q. if sq_seq_id q \<in> sq_seq_id ` set seqs then f q else q) (sg_seqs g)\<rparr>)"
    by (rule group_ok_map [OF ok])
      (use ok assms in \<open>auto simp: group_ok_def seq_is_finished_def split: option.split\<close>)
qed

lemma gentle_catch_all [gentle_intros]: "keeps gentle m \<Longrightarrow> keeps gentle k \<Longrightarrow> keeps gentle (try_finally m k)"
  unfolding try_finally_def by (intro gentle_intros)

lemma gentle_free_seq [gentle_intros]: "keeps gentle (free_seq env q)"
  unfolding free_seq_def by (intro gentle_intros)

lemma gentle_free_cross [gentle_intros]: "keeps gentle (free_seq_group_cross_attn_blocks env r)"
  unfolding free_seq_group_cross_attn_blocks_def by (intro gentle_intros)

lemma gentle_free_finished_seqs [gentle_intros]: "keeps gentle (free_finished_seqs env r)"
  unfolding free_finished_seqs_def by (intro gentle_intros)

lemma gentle_free_finished_seq_group [gentle_intros]: "keeps gentle (free_finished_seq_group env r)"
  unfolding free_finished_seq_group_def add_finished_id_def by (intro gentle_intros gentle_frame)

lemma gentle_queries [gentle_intros]:
  "keeps gentle (sch_get_num_new_tokens env r st chunk)" "keeps gentle (max_num_running_seqs r)"
  "keeps gentle (group_is_prefill r)" "keeps gentle (group_is_finished r)"
  "keeps gentle (cap_gdn_boundary env r n m)" "keeps gentle (lora_must_wait env i)"
  "keeps gentle (can_schedule n k)" "keeps gentle (reached_max_len env r)"
  unfolding sch_get_num_new_tokens_def max_num_running_seqs_def group_is_prefill_def group_is_finished_def
    cap_gdn_boundary_def lora_must_wait_def can_schedule_def reached_max_len_def
  by (intro gentle_intros)+

lemma gentle_can_append [gentle_intros]: "keeps gentle (sch_can_append_slots env r chunk)"
  unfolding sch_can_append_slots_def preempt_artificially_def Let_def
  by (intro gentle_intros gentle_frame)

lemma gentle_init_group_steps [gentle_intros]: "keeps gentle (init_group_steps env r n chunk)"
proof -
  have ok: "group_ok home g'" if "init_multi_step_from_lookahead_slots a b c d g = Inr g'" "group_ok home g"
    for a b c d g g' home
    using that by (auto simp: init_multi_step_from_lookahead_slots_def init_multi_step_def ebind_Inr_iff split: if_splits)
  show ?thesis
    unfolding keeps_def
  proof
    fix s :: scheduler
    let ?m = "init_multi_step_from_lookahead_slots n (en_num_scheduler_steps env) (sc_is_multi_step (en_config env))
      chunk (sch_groups s r)"
    show "gentle s (snd (init_group_steps env r n chunk s))"
      by (cases ?m)
        (auto simp: init_group_steps_def the_group_def put_group_def py_defs lift_sum_def gentle.refl
          intro!: gentle_put_group dest: ok)
  qed
qed

lemma gentle_append_slots_of_seqs [gentle_intros]: "keeps gentle (append_slots_of_seqs env n qs)"
  by (induction qs) (auto intro!: gentle_intros)

lemma gentle_append_slots [gentle_intros]: "keeps gentle (sch_append_slots env r chunk)"
  unfolding sch_append_slots_def Let_def by (intro gentle_intros)

lemma gentle_choose_mode [gentle_intros]: "keeps gentle (choose_preemption_mode env r)"
  unfolding choose_preemption_mode_def by (intro gentle_intros)

lemma gentle_loras [gentle_intros]: "keeps gentle (add_lora i)" "keeps gentle (discard_lora g)"
  by (simp_all add: keeps_def add_lora_def discard_lora_def on_pass_def zoom_def modify_def gentle_def queue_lists_def)

lemma gentle_charge [gentle_intros]: "keeps gentle (charge_budget r n m k)" "keeps gentle (remove_from_budget r n)"
  "keeps gentle (add_running_seqs r)"
  unfolding charge_budget_def remove_from_budget_def add_running_seqs_def by (intro gentle_intros)+

lemma gentle_finish_pending [gentle_intros]: "callback_ok env \<Longrightarrow> keeps gentle (finish_pending env r)"
  unfolding finish_pending_def callback_ok_def by (cases "en_callback env") (auto intro!: gentle_intros)

lemma gentle_plan_prefix_restore [gentle_intros]: "keeps gentle (plan_prefix_restore env r q n)"
  unfolding plan_prefix_restore_def live_restore_keys_def prompt_capture_targets_def Let_def
  by (intro gentle_intros gentle_frame)

lemma gentle_waiting [gentle_intros]: "keeps gentle (waiting_may_start env)" "keeps gentle (waiting_tokens env r qs chunk)"
  "keeps gentle (fits_now r n k)"
  unfolding waiting_may_start_def waiting_tokens_def fits_now_def by (intro gentle_intros)+

lemma gentle_first_step [gentle_intros]: "keeps gentle (plan_first_step env r q n chunk)"
  "keeps gentle (start_steps env r m chunk)"
  unfolding plan_first_step_def start_steps_def by (intro gentle_intros)+

lemma gentle_tables [gentle_intros]: "keeps gentle (tables_of_seqs now qs)"
  by (induction qs) (auto intro!: gentle_intros)

lemma gentle_deltas [gentle_intros]: "keeps gentle (deltas_of_seqs r qs)"
proof (induction qs)
  case (Cons q qs)
  obtain d d' where d: "sd_get_delta_and_reset (sq_data q) = (Inr d, d')"
    by (simp add: sd_get_delta_and_reset_def py_defs)
  show ?case unfolding deltas_of_seqs.simps d prod.case sum.case
    by (intro gentle_intros gentle_upd_seqs Cons.IH) simp_all
qed (simp add: gentle_intros)

lemma gentle_prefill_step [gentle_intros]: "keeps gentle (prefill_step env r n raw)"
  unfolding prefill_step_def restorable_blocks_def record_cached_tokens_def plan_captures_def Let_def
  by (intro gentle_intros gentle_update_group gentle_frame; simp)

lemma gentle_build_metadata [gentle_intros]: "keeps gentle (build_metadata env r n qs ts c p st)"
  unfolding build_metadata_def by (intro gentle_intros)

lemma gentle_first_scheduled [gentle_intros]:
  "keeps gentle (bind (the_group r) (\<lambda>g. put_group r (maybe_set_first_scheduled_time now g)))"
  by (rule gentle_update_group) (simp add: maybe_set_first_scheduled_time_def)

lemma gentle_metadata_of_group [gentle_intros]: "keeps gentle (metadata_of_group env now x)"
  unfolding metadata_of_group_def Let_def by (intro gentle_intros)

lemma gentle_metadata_of_groups [gentle_intros]: "keeps gentle (metadata_of_groups env now xs)"
  by (induction xs) (auto intro!: gentle_intros)

lemma gentle_add_scheduler_time [gentle_intros]: "keeps gentle (add_scheduler_time t r)"
  unfolding add_scheduler_time_def by (rule gentle_update_group) simp

lemma gentle_add_prefix_swaps [gentle_intros]: "keeps gentle (add_prefix_swaps out)"
  unfolding add_prefix_swaps_def by (intro gentle_intros)

lemmas gentle_step = hoare_step [where R = gentle]
lemmas gentle_run = hoare_run [where R = gentle]
lemmas gentle_last = hoare_keeps [where R = gentle]

lemmas gentle_ops = gentle_on_bm gentle_on_policy gentle_on_delay gentle_on_budget gentle_the_group gentle_tick
  gentle_free_seq gentle_free_cross gentle_free_finished_seqs gentle_free_finished_seq_group gentle_queries
  gentle_can_append gentle_init_group_steps gentle_append_slots gentle_choose_mode gentle_loras gentle_charge
  gentle_finish_pending gentle_plan_prefix_restore gentle_waiting gentle_first_step gentle.pure

lemmas gentle_steps = gentle_ops [THEN gentle_step] gentle_ops [THEN gentle_run]

lemma bind_then: "bind m (\<lambda>x. andthen (f x) k) = andthen (bind m f) k"
  by (simp add: bind_def andthen_def fun_eq_iff split: prod.split sum.split)

end
