(* ===== verification/SchedulerCorrect.thy ===== *)
theory SchedulerCorrect
  imports SchedulerFrame
begin

text \<open>
  The groups stay in the hands of the scheduler: whatever a step does, every group is in exactly one queue,
  and its sequences have the status of that queue. \<open>homes\<close> collects where the groups are, the queues and
  the outputs under construction; a group that a loop has taken out and not yet put back is \<open>in_hand\<close>.
\<close>

section \<open>Homes\<close>

type_synonym home = "sequence_status option \<times> gref"

definition at_home :: "sequence_status option \<Rightarrow> gref list \<Rightarrow> home multiset" where
  "at_home home rs = image_mset (Pair home) (mset rs)"

lemma at_home_simps [simp]:
  "at_home h [] = {#}" "at_home h (r # rs) = add_mset (h, r) (at_home h rs)" "at_home h (rs @ qs) = at_home h rs + at_home h qs"
  "at_home h (rev rs) = at_home h rs"
  by (simp_all add: at_home_def)

definition homes :: "scheduler \<Rightarrow> home multiset" where
  "homes s = (let p = sch_pass s; ro = ps_running p; si = ps_swapped_in p; po = ps_prefills p in
     at_home (Some WAITING) (sch_waiting s) + at_home (Some WAITING) (ro_preempted ro) +
     at_home (Some WAITING) (ps_leftover_waiting p) +
     at_home (Some RUNNING) (sch_running s) + at_home (Some RUNNING) (sch_async_stopped s) +
     at_home (Some RUNNING) (group_refs (ro_decode_seq_groups ro)) +
     at_home (Some RUNNING) (group_refs (ro_prefill_seq_groups ro)) +
     at_home (Some RUNNING) (group_refs (si_decode_seq_groups si)) +
     at_home (Some RUNNING) (group_refs (si_prefill_seq_groups si)) +
     at_home (Some RUNNING) (group_refs (po_seq_groups po)) +
     at_home (Some SWAPPED) (sch_swapped s) + at_home (Some SWAPPED) (ro_swapped_out ro) +
     at_home (Some SWAPPED) (ps_leftover_swapped p) +
     at_home None (po_ignored_seq_groups po) + at_home None (si_infeasible_seq_groups si))"

text \<open>\<open>K\<close> are the groups that the scheduler has to keep.\<close>

definition good :: "env \<Rightarrow> gref set \<Rightarrow> home multiset \<Rightarrow> (gref \<Rightarrow> mm_group) \<Rightarrow> bool" where
  "good env K M groups \<longleftrightarrow>
     (\<forall>r. count (image_mset snd M) r \<le> 1) \<and>
     (if en_callback env = None then set_mset (image_mset snd M) = K else set_mset (image_mset snd M) \<subseteq> K) \<and>
     (\<forall>(home, r) \<in> set_mset M. group_ok home (groups r))"

lemma good_update:
  assumes "good env K (add_mset (home, r) M) groups" "group_ok home' g"
  shows "good env K (add_mset (home', r) M) (groups(r := g))"
proof -
  have "count (image_mset snd (add_mset (home, r) M)) r \<le> 1" using assms(1) unfolding good_def by blast
  then have "count (image_mset snd M) r = 0" by simp
  then have "r \<notin># image_mset snd M" by (rule count_eq_zero_iff [THEN iffD1])
  then have "x \<in># M \<Longrightarrow> snd x \<noteq> r" for x by auto
  then show ?thesis
    using assms unfolding good_def by (auto split: if_splits prod.splits)
qed

lemma good_drop: "good env K (add_mset x M) groups \<Longrightarrow> en_callback env \<noteq> None \<Longrightarrow> good env K M groups"
proof -
  assume g: "good env K (add_mset x M) groups" and c: "en_callback env \<noteq> None"
  have "count (image_mset snd M) r \<le> count (image_mset snd (add_mset x M)) r" for r by simp
  with g have "\<forall>r. count (image_mset snd M) r \<le> 1" unfolding good_def by (meson order_trans)
  with g c show ?thesis by (auto simp: good_def)
qed

lemma good_gentle:
  "good env K M (sch_groups s) \<Longrightarrow> gentle s t \<Longrightarrow> good env K M (sch_groups t)"
proof -
  assume g: "good env K M (sch_groups s)" and st: "gentle s t"
  then have "\<forall>(home, r) \<in> set_mset M. group_ok home (sch_groups t r)"
    unfolding good_def gentle_def by blast
  with g show ?thesis unfolding good_def by blast
qed

text \<open>
  The invariant of the loops. With \<open>b\<close> false only what \<open>L\<close> says of the lists is left, which is enough for
  the bounds on the rounds.
\<close>

definition lists_inv :: "scheduler \<Rightarrow> bool" where
  "lists_inv s \<longleftrightarrow> ro_decode_seq_groups_list (ps_running (sch_pass s)) =
     group_refs (ro_decode_seq_groups (ps_running (sch_pass s)))"

definition kept :: "bool \<Rightarrow> env \<Rightarrow> gref set \<Rightarrow> home multiset \<Rightarrow> scheduler \<Rightarrow> bool" where
  "kept b env K in_hand s \<longleftrightarrow>
     (b \<longrightarrow> good env K (in_hand + homes s) (sch_groups s) \<and> lists_inv s)"

definition same_lists :: "scheduler \<Rightarrow> scheduler \<Rightarrow> bool" where
  "same_lists s t \<longleftrightarrow> queue_lists t = queue_lists s"

abbreviation listed :: "(scheduler \<Rightarrow> bool) \<Rightarrow> bool" where
  "listed \<equiv> preserved same_lists"

lemma homes_lists: "queue_lists t = queue_lists s \<Longrightarrow> homes t = homes s" "queue_lists t = queue_lists s \<Longrightarrow> lists_inv t = lists_inv s"
  by (simp_all add: homes_def lists_inv_def queue_lists_def Let_def)

lemma kept_gentle: "kept b env K H s \<Longrightarrow> gentle s t \<Longrightarrow> kept b env K H t"
  using homes_lists [of t s] good_gentle [of env K "H + homes s" s t] unfolding kept_def gentle_def by auto

lemma preserved_kept: "listed L \<Longrightarrow> preserved gentle (\<lambda>s. kept b env K H s \<and> L s)"
  unfolding preserved_def using kept_gentle by (auto simp: gentle_def same_lists_def)

lemma kept_move:
  assumes "kept b env K H s" "H + homes s = H' + homes t" "sch_groups t = sch_groups s" "lists_inv s \<Longrightarrow> lists_inv t"
  shows "kept b env K H' t"
  using assms unfolding kept_def by auto

lemma kept_update:
  assumes "kept b env K (add_mset (home, r) H) s" "b \<Longrightarrow> group_ok home (sch_groups s r) \<Longrightarrow> group_ok home' g"
  shows "kept b env K (add_mset (home', r) H) (s\<lparr>sch_groups := (sch_groups s)(r := g)\<rparr>)"
proof (cases b)
  case True
  let ?t = "s\<lparr>sch_groups := (sch_groups s)(r := g)\<rparr>"
  have h: "homes ?t = homes s" "lists_inv ?t = lists_inv s" by (rule homes_lists; simp add: queue_lists_def)+
  have g: "good env K (add_mset (home, r) (H + homes s)) (sch_groups s)" using assms(1) True by (simp add: kept_def)
  then have "group_ok home (sch_groups s r)" unfolding good_def by auto
  from good_update [OF g assms(2) [OF True this]] show ?thesis
    using assms(1) h by (simp add: kept_def)
qed (simp add: kept_def)

lemma kept_drop: "kept b env K (add_mset x H) s \<Longrightarrow> en_callback env \<noteq> None \<Longrightarrow> kept b env K H s"
  unfolding kept_def using good_drop by fastforce

lemma kept_count: "kept b env K H s \<Longrightarrow> b \<Longrightarrow> good env K (H + homes s) (sch_groups s)"
  by (simp add: kept_def)

section \<open>The status of the sequences in hand\<close>

lemma listed_groups: "listed L \<Longrightarrow> L s \<Longrightarrow> L (s\<lparr>sch_groups := G\<rparr>)"
proof -
  have "same_lists s (s\<lparr>sch_groups := G\<rparr>)" by (simp add: same_lists_def queue_lists_def)
  then show "listed L \<Longrightarrow> L s \<Longrightarrow> L (s\<lparr>sch_groups := G\<rparr>)" unfolding preserved_def by blast
qed

text \<open>The sequences with the status \<open>st\<close> are changed, and they are all that are not finished.\<close>

lemma group_ok_moved:
  assumes ok: "group_ok (Some st) g" and seqs: "sg_get_seqs (Some st) g = Inr seqs"
    and f: "\<And>q. sq_seq_id (f q) = sq_seq_id q" "\<And>q. sq_status (f q) = st'"
  shows "group_ok (Some st') (g\<lparr>sg_seqs := map (\<lambda>q. if sq_seq_id q \<in> sq_seq_id ` set seqs then f q else q) (sg_seqs g)\<rparr>)"
proof (rule group_ok_map [OF ok])
  have seqs': "seqs = filter (\<lambda>q. sq_status q = st) (sg_seqs g)"
    using ok seqs sg_get_seqs_eq [of g st] by (simp add: group_ok_def)
  show "case Some st' of None \<Rightarrow> True | Some st \<Rightarrow>
      sq_status (if sq_seq_id q \<in> sq_seq_id ` set seqs then f q else q) = st \<or>
      seq_is_finished (if sq_seq_id q \<in> sq_seq_id ` set seqs then f q else q)" if "q \<in> set (sg_seqs g)" for q
    using that ok f by (auto simp: group_ok_def seqs')
qed (use f in auto)

lemma group_ok_given_up:
  "group_ok home g \<Longrightarrow> (\<And>q. sq_seq_id (f q) = sq_seq_id q) \<Longrightarrow>
   group_ok None (g\<lparr>sg_seqs := map (\<lambda>q. if sq_seq_id q \<in> sq_seq_id ` set seqs then f q else q) (sg_seqs g)\<rparr>)"
  by (rule group_ok_map) auto

lemma hoare_upd_seqs:
  assumes "listed L"
    and "\<And>g. A g \<Longrightarrow> group_ok home g \<Longrightarrow> group_ok home'
      (g\<lparr>sg_seqs := map (\<lambda>q. if sq_seq_id q \<in> sq_seq_id ` set seqs then f q else q) (sg_seqs g)\<rparr>)"
  shows "hoare (\<lambda>s. (kept b env K (add_mset (home, r) H) s \<and> L s) \<and> A (sch_groups s r))
    (upd_seqs r seqs f) (\<lambda>_ s. kept b env K (add_mset (home', r) H) s \<and> L s)"
  unfolding hoare_def upd_seqs_def the_group_def put_group_def
  by (auto simp: wp_simps assms listed_groups intro: kept_update)

lemma hoare_get_seqs:
  "hoare P (get_seqs r st) (\<lambda>seqs s. P s \<and> sg_get_seqs st (sch_groups s r) = Inr seqs)"
  unfolding hoare_def get_seqs_def the_group_def by (auto simp: wp_simps split: sum.split)

text \<open>The three changes of status of a group in hand.\<close>

lemma hoare_move:
  assumes "listed L"
  shows "hoare (\<lambda>s. kept b env K (add_mset (Some st, r) H) s \<and> L s)
    (move_status r st st')
    (\<lambda>_ s. kept b env K (add_mset (Some st', r) H) s \<and> L s)"
  unfolding move_status_def set_seqs_status_def
  by (rule hoare_bind [OF hoare_get_seqs], rule hoare_upd_seqs [OF assms, where A = "\<lambda>g. sg_get_seqs (Some st) g = Inr _"])
    (rule group_ok_moved; simp)

lemma hoare_give_up:
  assumes "listed L"
  shows "hoare (\<lambda>s. kept b env K (add_mset (home, r) H) s \<and> L s) (set_seqs_status r seqs st')
    (\<lambda>_ s. kept b env K (add_mset (None, r) H) s \<and> L s)"
  unfolding set_seqs_status_def
  by (rule hoare_pre [OF hoare_upd_seqs [OF assms, where A = "\<lambda>_. True"]])
    (auto intro: group_ok_given_up)

lemma hoare_recompute:
  assumes "listed L"
  shows "hoare (\<lambda>s. kept b env K (add_mset (Some RUNNING, r) H) s \<and> L s) (preempt_by_recompute env r)
    (\<lambda>_ s. kept b env K (add_mset (Some WAITING, r) H) s \<and> L s)"
  unfolding preempt_by_recompute_def
proof (rule hoare_bind [OF hoare_get_seqs])
  fix seqs
  let ?P = "\<lambda>s. (kept b env K (add_mset (Some RUNNING, r) H) s \<and> L s) \<and> sg_get_seqs (Some RUNNING) (sch_groups s r) = Inr seqs"
  let ?W = "\<lambda>s. kept b env K (add_mset (Some WAITING, r) H) s \<and> L s"
  show "hoare ?P (andthen (guard AssertionError (length seqs = 1)) (for_each seqs (\<lambda>seq.
      andthen (set_seqs_status r [seq] WAITING) (andthen (free_seq env seq) (upd_seqs r [seq] seq_reset_state_for_recompute)))))
    (\<lambda>_. ?W)"
  proof (cases "length seqs = 1")
    case True
    then obtain seq where seqs: "seqs = [seq]" by (auto simp: length_Suc_conv)
    have "hoare ?P (andthen (set_seqs_status r [seq] WAITING)
        (andthen (free_seq env seq) (upd_seqs r [seq] seq_reset_state_for_recompute))) (\<lambda>_. ?W)"
      unfolding set_seqs_status_def seqs
    proof (rule hoare_andthen)
      show "hoare (\<lambda>s. (kept b env K (add_mset (Some RUNNING, r) H) s \<and> L s) \<and>
          sg_get_seqs (Some RUNNING) (sch_groups s r) = Inr [seq])
        (upd_seqs r [seq] (\<lambda>q. q\<lparr>sq_status := WAITING\<rparr>)) (\<lambda>_. ?W)"
        by (rule hoare_upd_seqs [OF assms, where A = "\<lambda>g. sg_get_seqs (Some RUNNING) g = Inr [seq]"])
          (rule group_ok_moved; simp)
      show "hoare ?W (andthen (free_seq env seq) (upd_seqs r [seq] seq_reset_state_for_recompute)) (\<lambda>_. ?W)"
        by (intro gentle_run gentle_last gentle_intros gentle_upd_seqs preserved_kept assms)
          (simp_all add: seq_reset_state_for_recompute_def)
    qed
    then show ?thesis unfolding seqs by (simp add: hoare_def wp_simps)
  qed (simp add: hoare_def wp_simps)
qed

lemma hoare_swap_out:
  assumes "listed L"
  shows "hoare (\<lambda>s. kept b env K (add_mset (Some RUNNING, r) H) s \<and> L s) (sch_swap_out env r)
    (\<lambda>_ s. kept b env K (add_mset (Some SWAPPED, r) H) s \<and> L s)"
  unfolding sch_swap_out_def
  by (intro gentle_steps preserved_kept assms hoare_andthen [OF hoare_move [OF assms]] hoare_return)

lemma hoare_swap_in:
  assumes "listed L"
  shows "hoare (\<lambda>s. kept b env K (add_mset (Some SWAPPED, r) H) s \<and> L s) (sch_swap_in env r)
    (\<lambda>_ s. kept b env K (add_mset (Some RUNNING, r) H) s \<and> L s)"
  unfolding sch_swap_in_def
  by (intro gentle_steps preserved_kept assms hoare_andthen [OF hoare_move [OF assms]] hoare_return)


section \<open>Moving groups between the lists\<close>

lemma hoare_modify_kept:
  assumes "\<And>s. kept b env K H s \<Longrightarrow> L s \<Longrightarrow> H + homes s = H' + homes (f s)"
    and "\<And>s. sch_groups (f s) = sch_groups s" and "\<And>s. L s \<Longrightarrow> lists_inv s \<Longrightarrow> lists_inv (f s)"
    and "\<And>s. L s \<Longrightarrow> L' (f s)"
  shows "hoare (\<lambda>s. kept b env K H s \<and> L s) (modify f) (\<lambda>_ s. kept b env K H' s \<and> L' s)"
  unfolding hoare_def wp_modify using assms kept_move by blast

lemma on_pass_modify: "on_pass (modify f) = modify (\<lambda>s. s\<lparr>sch_pass := f (sch_pass s)\<rparr>)"
  by (simp add: on_pass_def zoom_def modify_def fun_eq_iff)

lemmas upd_defs = upd_running_def upd_swapped_in_def upd_prefills_def on_pass_modify
  add_leftover_swapped_def add_leftover_waiting_def

lemmas home_simps = homes_def Let_def lists_inv_def

definition running_is :: "gref list \<Rightarrow> scheduler \<Rightarrow> bool" where
  "running_is q s \<longleftrightarrow> sch_running s = q"

definition running_upto :: "nat \<Rightarrow> scheduler \<Rightarrow> bool" where
  "running_upto n s \<longleftrightarrow> length (sch_running s) \<le> n"

lemma listed_running [simp]: "listed (running_is q)" "listed (running_upto n)" "listed (\<lambda>s. True)"
  by (auto simp: preserved_def same_lists_def queue_lists_def running_is_def running_upto_def)

lemma hoare_preempt_victim:
  assumes "listed L" "\<And>s f. L s \<Longrightarrow> L (s\<lparr>sch_pass := (sch_pass s)\<lparr>ps_running := f\<rparr>\<rparr>)"
  shows "hoare (\<lambda>s. kept b env K (add_mset (Some RUNNING, v) H) s \<and> L s) (preempt_victim env v)
    (\<lambda>_ s. kept b env K H s \<and> L s)"
proof -
  have mode: "hoare (\<lambda>s. kept b env K (add_mset (Some RUNNING, v) H) s \<and> L s)
      (preempt env v None) (\<lambda>(m, _) s. kept b env K (add_mset (Some (if m = RECOMPUTE then WAITING else SWAPPED), v) H) s \<and> L s)"
    unfolding preempt_def
  proof (intro gentle_steps gentle_run gentle_modify gentle_frame preserved_kept assms(1))
    fix m
    show "hoare (\<lambda>s. kept b env K (add_mset (Some RUNNING, v) H) s \<and> L s)
      (case m of RECOMPUTE \<Rightarrow> andthen (preempt_by_recompute env v) (return (RECOMPUTE, []))
        | SWAP \<Rightarrow> bind (sch_swap_out env v) (\<lambda>mapping. return (SWAP, mapping)))
      (\<lambda>(m, _) s. kept b env K (add_mset (Some (if m = RECOMPUTE then WAITING else SWAPPED), v) H) s \<and> L s)"
      by (cases m)
        (auto intro!: hoare_andthen [OF hoare_recompute [OF assms(1)]] hoare_bind [OF hoare_swap_out [OF assms(1)]] hoare_return)
  qed
  show ?thesis
    unfolding preempt_victim_def
  proof (rule hoare_bind [OF mode], unfold split_paired_all prod.case)
    fix m mapping
    show "hoare (\<lambda>s. kept b env K (add_mset (Some (if m = RECOMPUTE then WAITING else SWAPPED), v) H) s \<and> L s)
      (upd_running (\<lambda>o'. if m = RECOMPUTE
         then o'\<lparr>ro_preempted := ro_preempted o' @ [v], ro_blocks_to_swap_out := ro_blocks_to_swap_out o' @ mapping\<rparr>
         else o'\<lparr>ro_swapped_out := ro_swapped_out o' @ [v], ro_blocks_to_swap_out := ro_blocks_to_swap_out o' @ mapping\<rparr>))
      (\<lambda>_ s. kept b env K H s \<and> L s)"
      unfolding upd_defs by (rule hoare_modify_kept) (auto simp: home_simps assms(2))
  qed
qed


lemma running_pass [simp]:
  "running_is q (s\<lparr>sch_pass := p\<rparr>) = running_is q s" "running_upto n (s\<lparr>sch_pass := p\<rparr>) = running_upto n s"
  by (simp_all add: running_is_def running_upto_def)

text \<open>
  A round of the inner loop. It either finds room, or takes the last running group, or, when there is none,
  gives up the group in hand.
\<close>

definition after_round :: "bool \<Rightarrow> env \<Rightarrow> gref set \<Rightarrow> home multiset \<Rightarrow> gref \<Rightarrow> nat \<Rightarrow> bool option \<Rightarrow> scheduler \<Rightarrow> bool" where
  "after_round b env K H r n result s \<longleftrightarrow> (case result of
     None \<Rightarrow> kept b env K (add_mset (Some RUNNING, r) H) s \<and> length (sch_running s) < n
   | Some room \<Rightarrow> kept b env K (if room then add_mset (Some RUNNING, r) H else H) s \<and> length (sch_running s) \<le> n)"

lemma hoare_drop_victim:
  assumes "callback_ok env" "listed L" "\<And>s f. L s \<Longrightarrow> L (s\<lparr>sch_pass := (sch_pass s)\<lparr>ps_running := f\<rparr>\<rparr>)"
  shows "hoare (\<lambda>s. kept b env K (add_mset (Some RUNNING, v) H) s \<and> L s)
    (bind (finish_pending env v) (\<lambda>do_preempt. andthen (if do_preempt then preempt_victim env v else return ()) (return x)))
    (\<lambda>y s. kept b env K H s \<and> L s \<and> y = x)"
proof (rule hoare_bind)
  show "hoare (\<lambda>s. kept b env K (add_mset (Some RUNNING, v) H) s \<and> L s) (finish_pending env v)
    (\<lambda>do_preempt s. (kept b env K (add_mset (Some RUNNING, v) H) s \<and> L s) \<and> (do_preempt \<or> en_callback env \<noteq> None))"
  proof (cases "en_callback env")
    case None
    then show ?thesis unfolding finish_pending_def by (simp add: hoare_def wp_return)
  next
    case (Some c)
    then show ?thesis
      by (intro hoare_post [OF gentle_last [OF gentle_finish_pending preserved_kept]] assms) auto
  qed
  fix do_preempt
  show "hoare (\<lambda>s. (kept b env K (add_mset (Some RUNNING, v) H) s \<and> L s) \<and> (do_preempt \<or> en_callback env \<noteq> None))
    (andthen (if do_preempt then preempt_victim env v else return ()) (return x)) (\<lambda>y s. kept b env K H s \<and> L s \<and> y = x)"
  proof (rule hoare_andthen)
    show "hoare (\<lambda>s. (kept b env K (add_mset (Some RUNNING, v) H) s \<and> L s) \<and> (do_preempt \<or> en_callback env \<noteq> None))
      (if do_preempt then preempt_victim env v else return ()) (\<lambda>_ s. kept b env K H s \<and> L s)"
      by (rule hoare_assume, rule hoare_if)
        (auto intro: hoare_preempt_victim assms hoare_return kept_drop)
  qed (rule hoare_return, simp)
qed

lemma hoare_victim_round:
  assumes cb: "callback_ok env"
  shows "hoare (\<lambda>s. kept b env K (add_mset (Some RUNNING, r) H) s \<and> length (sch_running s) = n)
    (victim_round env r m chunk) (after_round b env K H r n)"
  unfolding victim_round_def
proof (intro gentle_steps preserved_kept hoare_if)
  let ?L = "\<lambda>s. length (sch_running s) = n"
  show L: "listed ?L" "listed ?L" by (simp_all add: preserved_def same_lists_def queue_lists_def)
  fix can
  show "hoare (\<lambda>s. kept b env K (add_mset (Some RUNNING, r) H) s \<and> ?L s) (return (Some True)) (after_round b env K H r n)"
    by (rule hoare_return) (simp add: after_round_def)
  have pop: "hoare (\<lambda>s. kept b env K (add_mset (Some RUNNING, r) H) s \<and> ?L s) (pop_victim r)
    (\<lambda>(v, cont) s. kept b env K (add_mset (Some RUNNING, v) (if cont then add_mset (Some RUNNING, r) H else H)) s \<and>
       running_upto (if cont then n - 1 else n) s \<and> (cont \<longrightarrow> 0 < n))"
    unfolding pop_victim_def
  proof (rule hoare_gets, rule hoare_if)
    fix q :: "gref list"
    assume "q \<noteq> []"
    then have q: "q = butlast q @ [last q]" by simp
    have "homes s = add_mset (Some RUNNING, last q) (homes (s\<lparr>sch_running := butlast q\<rparr>))" if "sch_running s = q" for s
    proof -
      have "at_home (Some RUNNING) q = add_mset (Some RUNNING, last q) (at_home (Some RUNNING) (butlast q))"
        by (subst q) simp
      then show ?thesis using that by (simp add: homes_def Let_def)
    qed
    then have moved: "kept b env K (add_mset (Some RUNNING, last q) (add_mset (Some RUNNING, r) H)) (s\<lparr>sch_running := butlast q\<rparr>)"
      if "kept b env K (add_mset (Some RUNNING, r) H) s" "sch_running s = q" for s
      by (intro kept_move [OF that(1)]) (simp_all add: that(2) lists_inv_def)
    show "hoare (\<lambda>s. (kept b env K (add_mset (Some RUNNING, r) H) s \<and> ?L s) \<and> sch_running s = q)
      (andthen (modify (\<lambda>s. s\<lparr>sch_running := butlast q\<rparr>)) (return (last q, True)))
      (\<lambda>(v, cont) s. kept b env K (add_mset (Some RUNNING, v) (if cont then add_mset (Some RUNNING, r) H else H)) s \<and>
         running_upto (if cont then n - 1 else n) s \<and> (cont \<longrightarrow> 0 < n))"
      using \<open>q \<noteq> []\<close> unfolding hoare_def wp_andthen wp_modify wp_return
      by (auto simp: running_upto_def moved)
  next
    fix q :: "gref list"
    show "hoare (\<lambda>s. (kept b env K (add_mset (Some RUNNING, r) H) s \<and> ?L s) \<and> sch_running s = q) (return (r, False))
      (\<lambda>(v, cont) s. kept b env K (add_mset (Some RUNNING, v) (if cont then add_mset (Some RUNNING, r) H else H)) s \<and>
         running_upto (if cont then n - 1 else n) s \<and> (cont \<longrightarrow> 0 < n))"
      by (rule hoare_return) (auto simp: running_upto_def)
  qed
  show "hoare (\<lambda>s. kept b env K (add_mset (Some RUNNING, r) H) s \<and> ?L s)
    (andthen (bind (the_group r) discard_lora) (bind (pop_victim r) (\<lambda>(v, cont). bind (finish_pending env v) (\<lambda>do_preempt.
      andthen (if do_preempt then preempt_victim env v else return ()) (return (if cont then None else Some False))))))
    (after_round b env K H r n)"
  proof (rule gentle_run [OF gentle.bind [OF gentle_the_group gentle_loras(2)] preserved_kept [OF L(1)]],
      rule hoare_bind [OF pop], unfold split_paired_all prod.case)
    fix v cont
    show "hoare (\<lambda>s. kept b env K (add_mset (Some RUNNING, v) (if cont then add_mset (Some RUNNING, r) H else H)) s \<and>
        running_upto (if cont then n - 1 else n) s \<and> (cont \<longrightarrow> 0 < n))
      (bind (finish_pending env v) (\<lambda>do_preempt. andthen (if do_preempt then preempt_victim env v else return ())
        (return (if cont then None else Some False)))) (after_round b env K H r n)"
      using hoare_drop_victim [OF cb, where L = "\<lambda>s. running_upto (if cont then n - 1 else n) s \<and> (cont \<longrightarrow> 0 < n)"
          and H = "if cont then add_mset (Some RUNNING, r) H else H" and x = "if cont then None else Some False"]
      by (rule hoare_post) (auto simp: after_round_def running_upto_def preserved_def same_lists_def queue_lists_def)
  qed
qed


lemma hoare_make_room:
  assumes "callback_ok env"
  shows "hoare (\<lambda>s. kept b env K (add_mset (Some RUNNING, r) H) s \<and> running_upto n s) (make_room env r m chunk)
    (\<lambda>room s. kept b env K (if room then add_mset (Some RUNNING, r) H else H) s \<and> running_upto n s)"
  unfolding make_room_def
proof (rule hoare_gets)
  fix k
  let ?I = "\<lambda>s. kept b env K (add_mset (Some RUNNING, r) H) s \<and> running_upto n s"
  have "hoare (\<lambda>s. ?I s \<and> length (sch_running s) = j) (victim_round env r m chunk) (\<lambda>result t. case result of
      None \<Rightarrow> ?I t \<and> length (sch_running t) < j
    | Some room \<Rightarrow> kept b env K (if room then add_mset (Some RUNNING, r) H else H) t \<and> running_upto n t)" for j
    unfolding hoare_def
  proof (intro allI impI)
    fix s
    assume s: "?I s \<and> length (sch_running s) = j"
    then have "wp (victim_round env r m chunk) (after_round b env K H r j) (\<lambda>_ _. True) s"
      using hoare_victim_round [OF assms, of b K r H j m chunk] unfolding hoare_def by blast
    then show "wp (victim_round env r m chunk) (\<lambda>result t. case result of
        None \<Rightarrow> ?I t \<and> length (sch_running t) < j
      | Some room \<Rightarrow> kept b env K (if room then add_mset (Some RUNNING, r) H else H) t \<and> running_upto n t) (\<lambda>_ _. True) s"
      by (rule wp_mono) (use s in \<open>auto simp: after_round_def running_upto_def split: option.split\<close>)
  qed
  from hoare_loop [of ?I "\<lambda>s. length (sch_running s)", OF this]
  show "hoare (\<lambda>s. ?I s \<and> Suc (length (sch_running s)) = k) (loop k (victim_round env r m chunk))
    (\<lambda>room s. kept b env K (if room then add_mset (Some RUNNING, r) H else H) s \<and> running_upto n s)"
    by (rule hoare_pre) auto
qed

lemma hoare_schedule_running_group:
  "hoare (\<lambda>s. kept b env K (add_mset (Some RUNNING, r) H) s \<and> running_upto n s)
    (schedule_running_group env r m chunk) (\<lambda>_ s. kept b env K H s \<and> running_upto n s)"
  unfolding schedule_running_group_def
proof (intro gentle_steps preserved_kept listed_running)
  fix cows
  show "hoare (\<lambda>s. kept b env K (add_mset (Some RUNNING, r) H) s \<and> running_upto n s)
    (andthen (upd_running (\<lambda>o'. o'\<lparr>ro_blocks_to_copy := ro_blocks_to_copy o' @ cows\<rparr>))
    (bind (group_is_prefill r) (\<lambda>is_prefill.
     andthen (upd_running (\<lambda>o'. if is_prefill
       then o'\<lparr>ro_prefill_seq_groups := ro_prefill_seq_groups o' @ [\<lparr>ssg_seq_group = r, ssg_token_chunk_size = m\<rparr>],
               ro_prefill_seq_groups_list := ro_prefill_seq_groups_list o' @ [r]\<rparr>
       else o'\<lparr>ro_decode_seq_groups := ro_decode_seq_groups o' @ [\<lparr>ssg_seq_group = r, ssg_token_chunk_size = 1\<rparr>],
               ro_decode_seq_groups_list := ro_decode_seq_groups_list o' @ [r]\<rparr>))
    (bind (the_group r) (\<lambda>g.
     andthen (on_budget (modify (bg_add_num_batched_tokens (sg_request_id g) m None)))
    (andthen (if chunk then bind (max_num_running_seqs r) (\<lambda>k. on_budget (modify (bg_add_num_seqs (sg_request_id g) k)))
       else return ()) (add_lora (group_lora g))))))))
    (\<lambda>_ s. kept b env K H s \<and> running_upto n s)"
    unfolding upd_defs
    by (rule hoare_andthen [OF hoare_modify_kept [where L' = "running_upto n" and H' = "add_mset (Some RUNNING, r) H"]],
        (auto simp: home_simps)[4],
        intro gentle_steps preserved_kept listed_running,
        rule hoare_andthen [OF hoare_modify_kept [where L' = "running_upto n" and H' = H]],
        (auto simp: home_simps)[4],
        intro gentle_steps gentle_run gentle_last gentle_intros preserved_kept listed_running)
qed

lemma hoare_serve_running:
  assumes cb: "callback_ok env"
  shows "hoare (\<lambda>s. kept b env K (add_mset (Some RUNNING, r) H) s \<and> running_upto n s)
    (serve_running env r m chunk) (\<lambda>_ s. kept b env K H s \<and> running_upto n s)"
  unfolding serve_running_def
proof (intro gentle_steps preserved_kept listed_running hoare_if)
  show "hoare (\<lambda>s. kept b env K (add_mset (Some RUNNING, r) H) s \<and> running_upto n s)
    (modify (\<lambda>s. s\<lparr>sch_async_stopped := sch_async_stopped s @ [r]\<rparr>)) (\<lambda>_ s. kept b env K H s \<and> running_upto n s)"
    by (rule hoare_modify_kept) (auto simp: home_simps running_upto_def)
  show "hoare (\<lambda>s. kept b env K (add_mset (Some RUNNING, r) H) s \<and> running_upto n s)
    (bind (make_room env r m chunk) (\<lambda>room. if room then schedule_running_group env r m chunk else return ()))
    (\<lambda>_ s. kept b env K H s \<and> running_upto n s)"
  proof (rule hoare_bind [OF hoare_make_room [OF cb]])
    fix room
    show "hoare (\<lambda>s. kept b env K (if room then add_mset (Some RUNNING, r) H else H) s \<and> running_upto n s)
      (if room then schedule_running_group env r m chunk else return ()) (\<lambda>_ s. kept b env K H s \<and> running_upto n s)"
      by (cases room) (auto intro: hoare_schedule_running_group hoare_return)
  qed
qed

lemma hoare_running_round:
  assumes cb: "callback_ok env"
  shows "hoare (\<lambda>s. kept b env K H s \<and> length (sch_running s) = n) (running_round env chunk)
    (\<lambda>r t. case r of None \<Rightarrow> kept b env K H t \<and> length (sch_running t) < n | Some _ \<Rightarrow> kept b env K H t)"
    (is "hoare ?P _ ?Q")
  unfolding running_round_def
proof (rule hoare_gets)
  fix q
  show "hoare (\<lambda>s. ?P s \<and> sch_running s = q) (case q of [] \<Rightarrow> return (Some ())
     | r # rest \<Rightarrow>
         bind (sch_get_num_new_tokens env r RUNNING chunk) (\<lambda>n.
         if n = 0 then return (Some ())
         else
           bind (if chunk then group_is_prefill r else return False) (\<lambda>chunked_prefill.
           bind (if chunked_prefill then bind (cap_gdn_boundary env r n n) (\<lambda>(n, _). return n) else return n) (\<lambda>n.
           andthen (modify (\<lambda>s. s\<lparr>sch_running := rest\<rparr>)) (andthen (serve_running env r n chunk) (return None))))))
    ?Q"
  proof (cases q)
    case Nil
    then show ?thesis by (auto intro: hoare_return)
  next
    case (Cons r rest)
    let ?L = "\<lambda>s. length (sch_running s) = n \<and> sch_running s = r # rest"
    have L: "listed ?L" by (auto simp: preserved_def same_lists_def queue_lists_def)
    show ?thesis
      unfolding Cons list.case conj_assoc
    proof (intro gentle_steps gentle_step gentle_intros preserved_kept L hoare_if)
      show "hoare (\<lambda>s. kept b env K H s \<and> ?L s) (return (Some ())) ?Q" by (auto intro: hoare_return)
      fix m
      have ends: "hoare (\<lambda>s. kept b env K H s \<and> running_upto (length rest) s) (return None) ?Q" if "n = Suc (length rest)"
        by (rule hoare_return) (use that in \<open>simp add: running_upto_def\<close>)
      have serve: "hoare (\<lambda>s. kept b env K (add_mset (Some RUNNING, r) H) s \<and> running_upto (length rest) s \<and> n = Suc (length rest))
        (andthen (serve_running env r m chunk) (return None)) ?Q"
        unfolding conj_assoc [symmetric]
        by (rule hoare_assume, rule hoare_andthen [OF hoare_serve_running [OF cb] ends])
      show "hoare (\<lambda>s. kept b env K H s \<and> ?L s)
        (andthen (modify (\<lambda>s. s\<lparr>sch_running := rest\<rparr>)) (andthen (serve_running env r m chunk) (return None))) ?Q"
        by (rule hoare_andthen [OF hoare_modify_kept serve]) (auto simp: home_simps running_upto_def)
    qed
  qed
qed

lemma hoare_modify_only:
  assumes "\<And>s. H + homes s = H' + homes (f s)" "\<And>s. sch_groups (f s) = sch_groups s" "\<And>s. lists_inv s \<Longrightarrow> lists_inv (f s)"
    "\<And>s. L (f s)"
  shows "hoare (kept b env K H) (modify f) (\<lambda>_ s. kept b env K H' s \<and> L s)"
  unfolding hoare_def wp_modify using assms kept_move by blast

lemma preserved_kept_only: "preserved gentle (kept b env K H)"
  using preserved_kept [of "\<lambda>_. True" b env K H] by simp

lemma hoare_fuelled_loop:
  assumes "\<And>n. hoare (\<lambda>s. kept b env K H s \<and> f s = n) body
    (\<lambda>r t. case r of None \<Rightarrow> kept b env K H t \<and> f t < n | Some _ \<Rightarrow> kept b env K H t)"
  shows "hoare (kept b env K H) (bind (gets (\<lambda>s. Suc (f s))) (\<lambda>n. loop n body)) (\<lambda>_. kept b env K H)"
  by (rule hoare_gets, rule hoare_pre [OF hoare_loop [where I = "kept b env K H" and f = f, OF assms]]) auto

text \<open>The loop starts with empty outputs.\<close>

definition no_running_outputs :: "scheduler \<Rightarrow> bool" where
  "no_running_outputs s \<longleftrightarrow> (let ro = ps_running (sch_pass s) in ro_preempted ro = [] \<and> ro_swapped_out ro = [] \<and>
     ro_decode_seq_groups ro = [] \<and> ro_prefill_seq_groups ro = [])"

lemma hoare_schedule_running:
  assumes "callback_ok env"
  shows "hoare (\<lambda>s. kept b env K H s \<and> no_running_outputs s) (schedule_running env chunk) (\<lambda>_. kept b env K H)"
  unfolding schedule_running_def upd_defs
proof (rule hoare_andthen)
  show "hoare (\<lambda>s. kept b env K H s \<and> no_running_outputs s)
    (modify (\<lambda>s. s\<lparr>sch_pass := (sch_pass s)\<lparr>ps_running := ro_empty\<lparr>ro_num_lookahead_slots :=
      get_num_lookahead_slots (en_config env) False chunk\<rparr>\<rparr>\<rparr>)) (\<lambda>_ s. kept b env K H s \<and> True)"
    by (rule hoare_modify_kept) (auto simp: home_simps no_running_outputs_def ro_empty_def)
  show "hoare (\<lambda>s. kept b env K H s \<and> True)
    (andthen (bind (gets sch_async_stopped) (\<lambda>stopped. guard AssertionError (length stopped = 0)))
      (bind (gets (\<lambda>s. Suc (length (sch_running s)))) (\<lambda>n. loop n (running_round env chunk)))) (\<lambda>_. kept b env K H)"
    unfolding simp_thms
    by (rule gentle_run [OF _ preserved_kept_only], intro gentle_intros)
      (rule hoare_fuelled_loop [OF hoare_running_round [OF assms]])
qed


section \<open>The swapped and the waiting queue\<close>

definition swapped_upto :: "nat \<Rightarrow> scheduler \<Rightarrow> bool" where
  "swapped_upto n s \<longleftrightarrow> length (sch_swapped s) < n"

definition waiting_upto :: "nat \<Rightarrow> scheduler \<Rightarrow> bool" where
  "waiting_upto n s \<longleftrightarrow> length (sch_waiting s) < n"

lemma listed_upto [simp]: "listed (swapped_upto n)" "listed (waiting_upto n)"
  by (auto simp: preserved_def same_lists_def queue_lists_def swapped_upto_def waiting_upto_def)

lemma upto_pass [simp]:
  "swapped_upto n (s\<lparr>sch_pass := p\<rparr>) = swapped_upto n s" "waiting_upto n (s\<lparr>sch_pass := p\<rparr>) = waiting_upto n s"
  by (simp_all add: swapped_upto_def waiting_upto_def)

lemma kept_give_up:
  assumes "kept b env K (add_mset (home, r) H) s" "\<And>q. sq_seq_id (f q) = sq_seq_id q"
  shows "kept b env K (add_mset (None, r) H) (s\<lparr>sch_groups := (sch_groups s)(r := sch_groups s r\<lparr>sg_seqs :=
    map (\<lambda>q. if sq_seq_id q \<in> sq_seq_id ` set seqs then f q else q) (sg_seqs (sch_groups s r))\<rparr>)\<rparr>)"
  by (rule kept_update [OF assms(1)]) (rule group_ok_given_up [OF _ assms(2)])

lemma hoare_ignore_swapped:
  "hoare (\<lambda>s. kept b env K H s \<and> sch_swapped s = r # rest) (ignore_swapped r) (\<lambda>_ s. kept b env K H s \<and> sch_swapped s = rest)"
  unfolding hoare_def
proof (intro allI impI, elim conjE)
  fix s
  assume k: "kept b env K H s" and q: "sch_swapped s = r # rest"
  have "kept b env K (add_mset (Some SWAPPED, r) H) (s\<lparr>sch_swapped := rest\<rparr>)"
    by (rule kept_move [OF k]) (simp_all add: homes_def Let_def q lists_inv_def)
  from kept_give_up [OF this, of "\<lambda>q. q\<lparr>sq_status := FINISHED_IGNORED\<rparr>" "sg_seqs (sch_groups s r)"]
  have "kept b env K (add_mset (None, r) H) (s\<lparr>sch_swapped := rest, sch_groups := (sch_groups s)(r := sch_groups s r\<lparr>sg_seqs :=
    map (\<lambda>q. if sq_seq_id q \<in> sq_seq_id ` set (sg_seqs (sch_groups s r)) then q\<lparr>sq_status := FINISHED_IGNORED\<rparr> else q)
      (sg_seqs (sch_groups s r))\<rparr>)\<rparr>)" by simp
  then show "wp (ignore_swapped r) (\<lambda>_ s. kept b env K H s \<and> sch_swapped s = rest) (\<lambda>_ _. True) s"
    unfolding ignore_swapped_def get_seqs_def the_group_def sg_get_seqs_def set_seqs_status_def upd_seqs_def put_group_def
      upd_defs pop_swapped_def wp_simps option.case sum.case
    by (auto simp: q elim!: kept_move) (auto simp: home_simps q)
qed

lemma hoare_ignore_waiting:
  "hoare (\<lambda>s. kept b env K H s \<and> sch_waiting s = r # rest) (ignore_waiting r seqs) (\<lambda>_ s. kept b env K H s \<and> sch_waiting s = rest)"
  unfolding hoare_def
proof (intro allI impI, elim conjE)
  fix s
  assume k: "kept b env K H s" and q: "sch_waiting s = r # rest"
  have "kept b env K (add_mset (Some WAITING, r) H) (s\<lparr>sch_waiting := rest\<rparr>)"
    by (rule kept_move [OF k]) (simp_all add: homes_def Let_def q lists_inv_def)
  from kept_give_up [OF this, of "\<lambda>q. q\<lparr>sq_status := FINISHED_IGNORED\<rparr>" seqs]
  have "kept b env K (add_mset (None, r) H) (s\<lparr>sch_waiting := rest, sch_groups := (sch_groups s)(r := sch_groups s r\<lparr>sg_seqs :=
    map (\<lambda>q. if sq_seq_id q \<in> sq_seq_id ` set seqs then q\<lparr>sq_status := FINISHED_IGNORED\<rparr> else q)
      (sg_seqs (sch_groups s r))\<rparr>)\<rparr>)" by simp
  then show "wp (ignore_waiting r seqs) (\<lambda>_ s. kept b env K H s \<and> sch_waiting s = rest) (\<lambda>_ _. True) s"
    unfolding ignore_waiting_def the_group_def set_seqs_status_def upd_seqs_def put_group_def
      upd_defs pop_waiting_def wp_simps
    by (auto simp: q elim!: kept_move) (auto simp: home_simps q)
qed


lemma listed_queues [simp]: "listed (\<lambda>s. sch_swapped s = q)" "listed (\<lambda>s. sch_waiting s = q)"
  by (auto simp: preserved_def same_lists_def queue_lists_def)

lemma hoare_schedule_swapped_group:
  "hoare (\<lambda>s. kept b env K H s \<and> sch_swapped s = r # rest) (schedule_swapped_group env r n k chunk)
    (\<lambda>_ s. kept b env K H s \<and> sch_swapped s = rest)"
  unfolding schedule_swapped_group_def upd_defs pop_swapped_def
  by (rule hoare_andthen [OF hoare_modify_kept [where L' = "\<lambda>s. sch_swapped s = rest" and H' = "add_mset (Some SWAPPED, r) H"]],
      (auto simp: home_simps)[4],
      rule hoare_bind [OF hoare_swap_in [OF listed_queues(1)]],
      rule hoare_andthen [OF hoare_modify_kept [where L' = "\<lambda>s. sch_swapped s = rest" and H' = "add_mset (Some RUNNING, r) H"]],
      (auto simp: home_simps)[4],
      intro gentle_steps preserved_kept listed_queues,
      rule hoare_andthen [OF hoare_modify_kept [where L' = "\<lambda>s. sch_swapped s = rest" and H' = "add_mset (Some RUNNING, r) H"]],
      (auto simp: home_simps)[4],
      intro gentle_steps preserved_kept listed_queues,
      rule hoare_andthen [OF hoare_modify_kept [where L' = "\<lambda>s. sch_swapped s = rest" and H' = H]],
      (auto simp: home_simps)[4],
      intro gentle_last gentle_intros preserved_kept listed_queues)

lemma hoare_leftover_swapped:
  "hoare (\<lambda>s. kept b env K H s \<and> sch_swapped s = r # rest) (andthen (add_leftover_swapped r) (andthen pop_swapped (return x)))
    (\<lambda>y s. kept b env K H s \<and> sch_swapped s = rest \<and> y = x)"
  unfolding hoare_def upd_defs pop_swapped_def wp_simps
  by (auto elim!: kept_move) (auto simp: home_simps)

lemma hoare_leftover_waiting:
  "hoare (\<lambda>s. kept b env K H s \<and> sch_waiting s = r # rest) (andthen (add_leftover_waiting r) (andthen pop_waiting (return x)))
    (\<lambda>y s. kept b env K H s \<and> sch_waiting s = rest \<and> y = x)"
  unfolding hoare_def upd_defs pop_waiting_def wp_simps
  by (auto elim!: kept_move) (auto simp: home_simps)

lemma hoare_swapped_round:
  "hoare (\<lambda>s. kept b env K H s \<and> length (sch_swapped s) = n) (swapped_round env chunk)
    (\<lambda>r t. case r of None \<Rightarrow> kept b env K H t \<and> length (sch_swapped t) < n | Some _ \<Rightarrow> kept b env K H t)"
    (is "hoare ?P _ ?Q")
  unfolding swapped_round_def
proof (rule hoare_gets)
  fix q
  show "hoare (\<lambda>s. ?P s \<and> sch_swapped s = q) (case q of
       [] \<Rightarrow> return (Some ())
     | r # _ \<Rightarrow>
         bind (group_is_prefill r) (\<lambda>is_prefill.
         bind (the_group r) (\<lambda>g.
         bind (on_bm (can_swap_in (en_sha env) g (get_num_lookahead_slots (en_config env) is_prefill chunk))) (\<lambda>alloc_status.
         if alloc_status = LATER then return (Some ())
         else if alloc_status = NEVER then andthen (ignore_swapped r) (return None)
         else
           bind (lora_must_wait env (lora_id_of env g)) (\<lambda>wait.
           if wait then andthen (add_leftover_swapped r) (andthen pop_swapped (return None))
           else
             bind (max_num_running_seqs r) (\<lambda>num_new_seqs.
             bind (sch_get_num_new_tokens env r SWAPPED chunk) (\<lambda>n.
             bind (can_schedule n num_new_seqs) (\<lambda>ok.
             if \<not> ok then return (Some ())
             else andthen (add_lora (lora_id_of env g))
              (andthen (schedule_swapped_group env r n num_new_seqs chunk) (return None)))))))))) ?Q"
  proof (cases q)
    case Nil
    then show ?thesis by (auto intro: hoare_return)
  next
    case (Cons r rest)
    let ?R = "\<lambda>s. kept b env K H s \<and> sch_swapped s = r # rest"
    have ends: "hoare (\<lambda>s. kept b env K H s \<and> sch_swapped s = rest) (return None) ?Q" if "n = Suc (length rest)"
      by (rule hoare_return) (use that in simp)
    have stop: "hoare ?R (return (Some ())) ?Q" by (auto intro: hoare_return)
    show ?thesis
      unfolding Cons list.case
    proof (rule hoare_pre [where R = "\<lambda>s. ?R s \<and> n = Suc (length rest)"], rule hoare_assume)
      assume n: "n = Suc (length rest)"
      show "hoare ?R (bind (group_is_prefill r) (\<lambda>is_prefill.
         bind (the_group r) (\<lambda>g.
         bind (on_bm (can_swap_in (en_sha env) g (get_num_lookahead_slots (en_config env) is_prefill chunk))) (\<lambda>alloc_status.
         if alloc_status = LATER then return (Some ())
         else if alloc_status = NEVER then andthen (ignore_swapped r) (return None)
         else
           bind (lora_must_wait env (lora_id_of env g)) (\<lambda>wait.
           if wait then andthen (add_leftover_swapped r) (andthen pop_swapped (return None))
           else
             bind (max_num_running_seqs r) (\<lambda>num_new_seqs.
             bind (sch_get_num_new_tokens env r SWAPPED chunk) (\<lambda>n.
             bind (can_schedule n num_new_seqs) (\<lambda>ok.
             if \<not> ok then return (Some ())
             else andthen (add_lora (lora_id_of env g))
              (andthen (schedule_swapped_group env r n num_new_seqs chunk) (return None)))))))))) ?Q"
        by (intro gentle_steps preserved_kept listed_queues hoare_if stop hoare_andthen [OF hoare_ignore_swapped ends [OF n]]
            hoare_andthen [OF hoare_schedule_swapped_group ends [OF n]] hoare_post [OF hoare_leftover_swapped])
          (use n in auto)
    qed auto
  qed
qed

lemma hoare_schedule_swapped:
  assumes "\<And>s. L s \<Longrightarrow> si_decode_seq_groups (ps_swapped_in (sch_pass s)) = [] \<and> si_prefill_seq_groups (ps_swapped_in (sch_pass s)) = [] \<and>
     si_infeasible_seq_groups (ps_swapped_in (sch_pass s)) = []"
  shows "hoare (\<lambda>s. kept b env K H s \<and> L s) (schedule_swapped env chunk)
    (\<lambda>_ s. kept b env K H s \<and> ps_leftover_swapped (sch_pass s) = [])"
  unfolding schedule_swapped_def upd_defs
proof (rule hoare_andthen)
  show "hoare (\<lambda>s. kept b env K H s \<and> L s)
    (modify (\<lambda>s. s\<lparr>sch_pass := (sch_pass s)\<lparr>ps_swapped_in := si_empty\<lparr>si_num_lookahead_slots :=
      get_num_lookahead_slots (en_config env) False chunk\<rparr>\<rparr>\<rparr>)) (\<lambda>_ s. kept b env K H s \<and> True)"
    by (rule hoare_modify_kept) (auto simp: home_simps si_empty_def dest!: assms)
  show "hoare (\<lambda>s. kept b env K H s \<and> True)
    (andthen (bind (gets (\<lambda>s. Suc (length (sch_swapped s)))) (\<lambda>n. loop n (swapped_round env chunk))) (modify requeue_swapped))
    (\<lambda>_ s. kept b env K H s \<and> ps_leftover_swapped (sch_pass s) = [])"
    unfolding simp_thms
    by (rule hoare_andthen [OF hoare_fuelled_loop [OF hoare_swapped_round]], rule hoare_modify_only)
      (auto simp: home_simps requeue_swapped_def)
qed


lemma hoare_allocate:
  assumes "listed L"
  shows "hoare (\<lambda>s. kept b env K (add_mset (Some WAITING, r) H) s \<and> L s) (allocate_and_set_running env r)
    (\<lambda>_ s. kept b env K (add_mset (Some RUNNING, r) H) s \<and> L s)"
  unfolding allocate_and_set_running_def
  by (intro gentle_steps preserved_kept assms hoare_move)

lemma hoare_schedule_waiting_group:
  "hoare (\<lambda>s. kept b env K H s \<and> sch_waiting s = r # rest) (schedule_waiting_group env r q n k slots chunk)
    (\<lambda>_ s. kept b env K H s \<and> sch_waiting s = rest)"
  unfolding schedule_waiting_group_def upd_defs pop_waiting_def
  by (rule hoare_andthen [OF hoare_modify_kept [where L' = "\<lambda>s. sch_waiting s = rest" and H' = "add_mset (Some WAITING, r) H"]],
      (auto simp: home_simps)[4],
      rule hoare_andthen [OF hoare_allocate [OF listed_queues(2)]],
      intro gentle_steps preserved_kept listed_queues hoare_pair,
      rule hoare_andthen [OF hoare_modify_kept [where L' = "\<lambda>s. sch_waiting s = rest" and H' = H]],
      (auto simp: home_simps)[4],
      intro gentle_last gentle_intros preserved_kept listed_queues)

lemma hoare_may_start:
  assumes "listed L"
  shows "hoare (\<lambda>s. kept b env K H s \<and> L s) (waiting_may_start env)
    (\<lambda>go s. (kept b env K H s \<and> L s) \<and> (go \<longrightarrow> sch_waiting s \<noteq> []))"
  unfolding waiting_may_start_def
proof (intro gentle_steps preserved_kept assms)
  fix passed
  show "hoare (\<lambda>s. kept b env K H s \<and> L s) (gets (\<lambda>s. passed \<and> sch_waiting s \<noteq> []))
      (\<lambda>go s. (kept b env K H s \<and> L s) \<and> (go \<longrightarrow> sch_waiting s \<noteq> []))"
    by (simp add: hoare_def wp_gets)
qed

lemma hoare_consider_waiting:
  assumes n: "n = Suc (length rest)"
  shows "hoare (\<lambda>s. kept b env K H s \<and> sch_waiting s = r # rest) (consider_waiting env r chunk)
    (\<lambda>r t. case r of None \<Rightarrow> kept b env K H t \<and> length (sch_waiting t) < n | Some _ \<Rightarrow> kept b env K H t)"
    (is "hoare ?P _ ?Q")
proof -
  have ends: "hoare (\<lambda>s. kept b env K H s \<and> sch_waiting s = rest) (return None) ?Q"
    by (rule hoare_return) (use n in simp)
  have stop: "hoare ?P (return (Some ())) ?Q" by (auto intro: hoare_return)
  have admit: "hoare ?P (admit_waiting env r qs m slots status chunk) ?Q" for qs m slots status
    unfolding admit_waiting_def
    by (intro gentle_steps preserved_kept listed_queues hoare_if stop hoare_andthen [OF hoare_ignore_waiting ends]
        hoare_andthen [OF hoare_schedule_waiting_group ends] hoare_post [OF hoare_leftover_waiting])
      (use n in auto)
  show ?thesis
    unfolding consider_waiting_def Let_def
    by (intro gentle_steps gentle_step [OF gentle_get_seqs] preserved_kept listed_queues hoare_if admit
        hoare_andthen [OF hoare_ignore_waiting ends])
qed

lemma hoare_prefill_round:
  "hoare (\<lambda>s. kept b env K H s \<and> length (sch_waiting s) = n) (prefill_round env chunk)
    (\<lambda>r t. case r of None \<Rightarrow> kept b env K H t \<and> length (sch_waiting t) < n | Some _ \<Rightarrow> kept b env K H t)"
    (is "hoare ?P _ ?Q")
  unfolding prefill_round_def
proof (rule hoare_bind [OF hoare_may_start], (auto simp: preserved_def same_lists_def queue_lists_def)[1], rule hoare_if)
  fix go
  show "hoare (\<lambda>s. ?P s \<and> (go \<longrightarrow> sch_waiting s \<noteq> [])) (return (Some ())) ?Q" by (auto intro: hoare_return)
  assume go: "\<not> \<not> go"
  show "hoare (\<lambda>s. ?P s \<and> (go \<longrightarrow> sch_waiting s \<noteq> [])) (bind (gets (\<lambda>s. hd (sch_waiting s))) (\<lambda>r. consider_waiting env r chunk)) ?Q"
  proof (rule hoare_gets)
    fix r
    show "hoare (\<lambda>s. (?P s \<and> (go \<longrightarrow> sch_waiting s \<noteq> [])) \<and> hd (sch_waiting s) = r) (consider_waiting env r chunk) ?Q"
      unfolding hoare_def
    proof (intro allI impI)
      fix s
      assume s: "(?P s \<and> (go \<longrightarrow> sch_waiting s \<noteq> [])) \<and> hd (sch_waiting s) = r"
      then obtain rest where "sch_waiting s = r # rest" using go by (cases "sch_waiting s") auto
      with s hoare_consider_waiting [of n rest b env K H r chunk]
      show "wp (consider_waiting env r chunk) ?Q (\<lambda>_ _. True) s" by (auto simp: hoare_def)
    qed
  qed
qed

lemma hoare_schedule_prefills:
  assumes "\<And>s. L s \<Longrightarrow> po_seq_groups (ps_prefills (sch_pass s)) = [] \<and> po_ignored_seq_groups (ps_prefills (sch_pass s)) = []"
  shows "hoare (\<lambda>s. kept b env K H s \<and> L s) (schedule_prefills env chunk)
    (\<lambda>_ s. kept b env K H s \<and> ps_leftover_waiting (sch_pass s) = [])"
  unfolding schedule_prefills_def upd_defs
proof (rule hoare_andthen)
  show "hoare (\<lambda>s. kept b env K H s \<and> L s)
    (modify (\<lambda>s. s\<lparr>sch_pass := (sch_pass s)\<lparr>ps_prefills := po_empty\<lparr>po_num_lookahead_slots :=
      get_num_lookahead_slots (en_config env) True chunk\<rparr>\<rparr>\<rparr>)) (\<lambda>_ s. kept b env K H s \<and> True)"
    by (rule hoare_modify_kept) (auto simp: home_simps po_empty_def dest!: assms)
  let ?L = "\<lambda>s. ps_leftover_waiting (sch_pass s) = []"
  have requeue: "hoare (kept b env K H) (modify requeue_waiting) (\<lambda>_ s. kept b env K H s \<and> ?L s)"
    by (rule hoare_modify_only) (auto simp: home_simps requeue_waiting_def)
  have L: "listed ?L" by (simp add: preserved_def same_lists_def queue_lists_def)
  show "hoare (\<lambda>s. kept b env K H s \<and> True)
    (andthen (bind (gets (\<lambda>s. Suc (length (sch_waiting s)))) (\<lambda>n. loop n (prefill_round env chunk)))
      (andthen (modify requeue_waiting) (bind (gets (\<lambda>s. po_seq_groups (ps_prefills (sch_pass s)))) (\<lambda>seq_groups.
        if seq_groups \<noteq> [] then modify (\<lambda>s. s\<lparr>sch_delay := (sch_delay s)\<lparr>ds_prev_prompt := True\<rparr>\<rparr>) else return ()))))
    (\<lambda>_ s. kept b env K H s \<and> ?L s)"
    unfolding simp_thms
    by (rule hoare_andthen [OF hoare_fuelled_loop [OF hoare_prefill_round]], rule hoare_andthen [OF requeue],
        intro gentle_last gentle_intros gentle_frame preserved_kept L)
qed

end
