(* ===== verification/SchedulerQueues.thy ===== *)
theory SchedulerQueues
  imports SchedulerCorrect
begin

text \<open>
  The step of the queues as a whole: the three loops one after another, each of which leaves the outputs of
  the others alone (\<open>untouched\<close>), and the queues that the step leaves behind (\<open>after_step\<close>).
\<close>

section \<open>Outputs of the other loops\<close>

definition untouched :: "(pass \<Rightarrow> 'a) \<Rightarrow> scheduler \<Rightarrow> scheduler \<Rightarrow> bool" where
  "untouched f s t \<longleftrightarrow> f (sch_pass t) = f (sch_pass s)"

interpretation untouched: step_relation "untouched f" for f
  by unfold_locales (simp_all add: untouched_def)

definition outputs :: "pass \<Rightarrow> running_outputs \<times> swapped_in_outputs \<times> prefill_outputs \<times> gref list \<times> gref list" where
  "outputs p = (ps_running p, ps_swapped_in p, ps_prefills p, ps_leftover_swapped p, ps_leftover_waiting p)"

definition reads_outputs :: "(pass \<Rightarrow> 'a) \<Rightarrow> bool" where
  "reads_outputs f \<longleftrightarrow> (\<forall>p q. outputs p = outputs q \<longrightarrow> f p = f q)"

lemma gentle_untouched: "reads_outputs f \<Longrightarrow> keeps gentle m \<Longrightarrow> keeps (untouched f) m"
proof -
  assume f: "reads_outputs f" and m: "keeps gentle m"
  have "untouched f s (snd (m s))" for s
  proof -
    have "gentle s (snd (m s))" using m by (simp add: keeps_def)
    then have "outputs (sch_pass (snd (m s))) = outputs (sch_pass s)"
      by (simp add: gentle_def queue_lists_def outputs_def)
    then show ?thesis using f unfolding reads_outputs_def untouched_def by blast
  qed
  then show ?thesis by (simp add: keeps_def)
qed

lemma keeps_rounds:
  assumes "\<And>s. R s s" "\<And>s t u. R s t \<Longrightarrow> R t u \<Longrightarrow> R s u" "keeps R body"
  shows "rounds n body s = Some (r, t) \<Longrightarrow> R s t"
proof (induction n arbitrary: s)
  case (Suc n)
  obtain q u where q: "body s = (q, u)" by fastforce
  then have "R s u" using assms(3) by (simp add: keeps_returns)
  then show ?case using Suc assms(2) by (auto simp: q split: sum.splits option.splits)
qed simp

lemma keeps_loop: "keeps (untouched f) body \<Longrightarrow> keeps (untouched f) (loop n body)"
proof -
  assume body: "keeps (untouched f) body"
  have r: "untouched f s b" if "rounds n body s = Some (a, b)" for s a b
    by (rule keeps_rounds [where R = "untouched f", OF _ _ body that]) (auto simp: untouched_def)
  have "untouched f s (snd (loop n body s))" for s
    by (auto simp: loop_def untouched.refl split: option.split dest: r)
  then show ?thesis by (simp add: keeps_def)
qed

named_theorems untouched_intros

lemmas untouched.combinators [untouched_intros] keeps_loop [untouched_intros]

lemma untouched_modify [untouched_intros]: "(\<And>s. f (sch_pass (g s)) = f (sch_pass s)) \<Longrightarrow> keeps (untouched f) (modify g)"
  by (rule keeps_modify) (simp add: untouched_def)

lemma untouched_bm [untouched_intros]: "keeps (untouched f) (the_group r)" "keeps (untouched f) (on_bm m)"
  by (simp_all add: keeps_def untouched_def the_group_def on_bm_def zoom_def gets_def split: prod.split)

lemma untouched_put_group [untouched_intros]: "keeps (untouched f) (put_group r g)"
  unfolding put_group_def by (intro untouched_intros) simp

lemma untouched_seqs [untouched_intros]: "keeps (untouched f) (get_seqs r st)" "keeps (untouched f) (upd_seqs r qs h)"
  "keeps (untouched f) (free_seq env q)" "keeps (untouched f) (pop_victim r)" "keeps (untouched f) pop_swapped"
  "keeps (untouched f) pop_waiting" "keeps (untouched f) tick"
  unfolding get_seqs_def upd_seqs_def free_seq_def pop_victim_def pop_swapped_def pop_waiting_def tick_def
  by (intro untouched_intros; simp)+

lemma untouched_status [untouched_intros]:
  "keeps (untouched f) (set_seqs_status r qs st)" "keeps (untouched f) (move_status r old new)"
  unfolding set_seqs_status_def move_status_def by (intro untouched_intros)+

text \<open>The loop over the running queue writes only its own outputs; likewise for the other two.\<close>

lemma running_untouched:
  assumes cb: "callback_ok env" and f: "reads_outputs f" "\<And>p x. f (p\<lparr>ps_running := x\<rparr>) = f p"
  shows "keeps (untouched f) (schedule_running env chunk)"
proof -
  note gentle = gentle_untouched [OF f(1)]
  note ops = untouched_intros gentle_ops [THEN gentle] gentle_tick [THEN gentle]
  have upd: "keeps (untouched f) (upd_running g)" for g unfolding upd_defs by (intro untouched_intros) (simp add: f(2))
  have recompute: "keeps (untouched f) (preempt_by_recompute env r)" for r
    unfolding preempt_by_recompute_def by (intro untouched_intros)
  have swap: "keeps (untouched f) (sch_swap_out env r)" for r unfolding sch_swap_out_def by (intro untouched_intros)
  have preempt: "keeps (untouched f) (preempt env r m)" for r m
    unfolding preempt_def
    by (intro ops) (simp, auto split: preemption_mode.split intro!: untouched_intros recompute swap)
  have victim: "keeps (untouched f) (preempt_victim env r)" for r
    unfolding preempt_victim_def by (intro untouched_intros upd preempt)
  have round: "keeps (untouched f) (victim_round env r n chunk)" for r n
    unfolding victim_round_def by (intro ops cb victim)
  have room: "keeps (untouched f) (make_room env r n chunk)" for r n
    unfolding make_room_def by (intro untouched_intros round)
  have group: "keeps (untouched f) (schedule_running_group env r n chunk)" for r n
    unfolding schedule_running_group_def by (intro ops upd)
  have serve: "keeps (untouched f) (serve_running env r n chunk)" for r n
    unfolding serve_running_def by (intro ops room group) simp
  have "keeps (untouched f) (running_round env chunk)"
    unfolding running_round_def by (auto split: list.split intro!: ops serve)
  then show ?thesis unfolding schedule_running_def by (intro untouched_intros upd)
qed

lemma swapped_untouched:
  assumes f: "reads_outputs f" "\<And>p x. f (p\<lparr>ps_swapped_in := x\<rparr>) = f p"
    "\<And>p x. f (p\<lparr>ps_leftover_swapped := x\<rparr>) = f p"
  shows "keeps (untouched f) (schedule_swapped env chunk)"
proof -
  note ops = untouched_intros gentle_ops [THEN gentle_untouched [OF f(1)]]
  have upd: "keeps (untouched f) (upd_swapped_in g)" for g unfolding upd_defs by (intro untouched_intros) (simp add: f(2))
  have left: "keeps (untouched f) (add_leftover_swapped r)" for r unfolding upd_defs by (intro untouched_intros) (simp add: f(3))
  have ignore: "keeps (untouched f) (ignore_swapped r)" for r unfolding ignore_swapped_def by (intro untouched_intros upd)
  have swap: "keeps (untouched f) (sch_swap_in env r)" for r unfolding sch_swap_in_def by (intro untouched_intros)
  have group: "keeps (untouched f) (schedule_swapped_group env r n k chunk)" for r n k
    unfolding schedule_swapped_group_def by (intro ops upd swap)
  have "keeps (untouched f) (swapped_round env chunk)"
    unfolding swapped_round_def by (auto split: list.split intro!: ops ignore left group)
  then show ?thesis
    unfolding schedule_swapped_def by (intro untouched_intros upd) (auto simp: requeue_swapped_def f(3))
qed

lemma prefills_untouched:
  assumes f: "reads_outputs f" "\<And>p x. f (p\<lparr>ps_prefills := x\<rparr>) = f p"
    "\<And>p x. f (p\<lparr>ps_leftover_waiting := x\<rparr>) = f p"
  shows "keeps (untouched f) (schedule_prefills env chunk)"
proof -
  note ops = untouched_intros gentle_ops [THEN gentle_untouched [OF f(1)]]
  have upd: "keeps (untouched f) (upd_prefills g)" for g unfolding upd_defs by (intro untouched_intros) (simp add: f(2))
  have left: "keeps (untouched f) (add_leftover_waiting r)" for r unfolding upd_defs by (intro untouched_intros) (simp add: f(3))
  have ignore: "keeps (untouched f) (ignore_waiting r qs)" for r qs unfolding ignore_waiting_def by (intro untouched_intros upd)
  have alloc: "keeps (untouched f) (allocate_and_set_running env r)" for r
    unfolding allocate_and_set_running_def by (intro untouched_intros)
  have group: "keeps (untouched f) (schedule_waiting_group env r q n k m chunk)" for r q n k m
    unfolding schedule_waiting_group_def by (intro ops upd alloc)
  have admit: "keeps (untouched f) (admit_waiting env r qs n m st chunk)" for r qs n m st
    unfolding admit_waiting_def by (intro ops ignore left group)
  have chosen: "keeps (untouched f) (consider_waiting env r chunk)" for r
    unfolding consider_waiting_def Let_def by (intro ops ignore admit)
  have "keeps (untouched f) (prefill_round env chunk)"
    unfolding prefill_round_def by (intro ops chosen)
  then show ?thesis
    unfolding schedule_prefills_def by (intro untouched_intros upd) (auto simp: requeue_waiting_def f(3))
qed


section \<open>Before and after a step\<close>

definition queue_homes :: "scheduler \<Rightarrow> home multiset" where
  "queue_homes s = at_home (Some WAITING) (sch_waiting s) + at_home (Some RUNNING) (sch_running s) +
     at_home (Some RUNNING) (sch_async_stopped s) + at_home (Some SWAPPED) (sch_swapped s)"

definition queued :: "env \<Rightarrow> gref set \<Rightarrow> scheduler \<Rightarrow> bool" where
  "queued env K s \<longleftrightarrow> good env K (queue_homes s) (sch_groups s)"

definition no_outputs :: "scheduler \<Rightarrow> bool" where
  "no_outputs s \<longleftrightarrow> outputs (sch_pass s) = (ro_empty, si_empty, po_empty, [], [])"

text \<open>What is still empty before the running and before the swapped queue are served.\<close>

definition only_prefills :: "scheduler \<Rightarrow> bool" where
  "only_prefills s \<longleftrightarrow> ps_running (sch_pass s) = ro_empty \<and> ps_swapped_in (sch_pass s) = si_empty \<and>
     ps_leftover_swapped (sch_pass s) = [] \<and> ps_leftover_waiting (sch_pass s) = []"

definition nothing_swapped_in :: "scheduler \<Rightarrow> bool" where
  "nothing_swapped_in s \<longleftrightarrow> ps_swapped_in (sch_pass s) = si_empty \<and>
     ps_leftover_swapped (sch_pass s) = [] \<and> ps_leftover_waiting (sch_pass s) = []"

definition nothing_left :: "scheduler \<Rightarrow> bool" where
  "nothing_left s \<longleftrightarrow> ps_leftover_swapped (sch_pass s) = [] \<and> ps_leftover_waiting (sch_pass s) = []"

lemma listed_outputs [simp]: "listed no_outputs" "listed only_prefills" "listed nothing_swapped_in" "listed nothing_left"
  by (auto simp: preserved_def same_lists_def queue_lists_def no_outputs_def only_prefills_def nothing_swapped_in_def
      nothing_left_def outputs_def)

lemma hoare_untouched:
  assumes "hoare P m Q" "keeps (untouched f) m" "\<And>s. P s \<Longrightarrow> f (sch_pass s) = x"
  shows "hoare P m (\<lambda>y s. Q y s \<and> f (sch_pass s) = x)"
  unfolding hoare_def
proof (intro allI impI)
  fix s
  assume s: "P s"
  have "untouched f s (snd (m s))" using assms(2) by (simp add: keeps_def)
  then have "f (sch_pass (snd (m s))) = x" using assms(3) [OF s] by (simp add: untouched_def)
  moreover have "wp m Q (\<lambda>_ _. True) s" using assms(1) s by (simp add: hoare_def)
  ultimately show "wp m (\<lambda>y s. Q y s \<and> f (sch_pass s) = x) (\<lambda>_ _. True) s"
    by (auto simp: wp_def split: prod.splits sum.splits)
qed

lemma begin_pass_kept:
  "hoare (queued env K) (begin_pass env loras) (\<lambda>_ s. kept True env K {#} s \<and> no_outputs s)"
  by (auto simp: hoare_def begin_pass_def wp_modify queued_def queue_homes_def kept_def homes_def Let_def empty_pass_def
      no_outputs_def outputs_def ro_empty_def si_empty_def po_empty_def lists_inv_def add_ac)

lemma prefills_kept:
  "hoare (\<lambda>s. kept b env K H s \<and> only_prefills s \<and> po_seq_groups (ps_prefills (sch_pass s)) = [] \<and>
      po_ignored_seq_groups (ps_prefills (sch_pass s)) = []) (schedule_prefills env chunk)
    (\<lambda>_ s. kept b env K H s \<and> only_prefills s)"
proof -
  let ?f = "\<lambda>p. (ps_running p, ps_swapped_in p, ps_leftover_swapped p)"
  let ?P = "\<lambda>s. only_prefills s \<and> po_seq_groups (ps_prefills (sch_pass s)) = [] \<and>
      po_ignored_seq_groups (ps_prefills (sch_pass s)) = []"
  have u: "keeps (untouched ?f) (schedule_prefills env chunk)"
    by (rule prefills_untouched) (auto simp: reads_outputs_def outputs_def)
  have "hoare (\<lambda>s. kept b env K H s \<and> ?P s) (schedule_prefills env chunk)
    (\<lambda>_ s. kept b env K H s \<and> ps_leftover_waiting (sch_pass s) = [])"
    by (rule hoare_schedule_prefills) auto
  from hoare_untouched [OF this u, of "(ro_empty, si_empty, [])"]
  show ?thesis by (rule hoare_post) (auto simp: only_prefills_def)
qed

lemma running_kept:
  assumes "callback_ok env"
  shows "hoare (\<lambda>s. kept b env K H s \<and> only_prefills s) (schedule_running env chunk)
    (\<lambda>_ s. kept b env K H s \<and> nothing_swapped_in s)"
proof -
  let ?f = "\<lambda>p. (ps_swapped_in p, ps_leftover_swapped p, ps_leftover_waiting p)"
  have u: "keeps (untouched ?f) (schedule_running env chunk)"
    by (rule running_untouched [OF assms]) (auto simp: reads_outputs_def outputs_def)
  have "hoare (\<lambda>s. kept b env K H s \<and> only_prefills s) (schedule_running env chunk) (\<lambda>_. kept b env K H)"
    by (rule hoare_pre [OF hoare_schedule_running [OF assms]])
      (auto simp: only_prefills_def no_running_outputs_def ro_empty_def)
  from hoare_untouched [OF this u, of "(si_empty, [], [])"]
  show ?thesis by (rule hoare_post) (auto simp: only_prefills_def nothing_swapped_in_def)
qed

lemma swapped_kept:
  "hoare (\<lambda>s. kept b env K H s \<and> nothing_swapped_in s) (schedule_swapped env chunk)
    (\<lambda>_ s. kept b env K H s \<and> nothing_left s)"
proof -
  have u: "keeps (untouched ps_leftover_waiting) (schedule_swapped env chunk)"
    by (rule swapped_untouched) (auto simp: reads_outputs_def outputs_def)
  have "hoare (\<lambda>s. kept b env K H s \<and> nothing_swapped_in s) (schedule_swapped env chunk)
    (\<lambda>_ s. kept b env K H s \<and> ps_leftover_swapped (sch_pass s) = [])"
    by (rule hoare_schedule_swapped) (auto simp: nothing_swapped_in_def si_empty_def)
  from hoare_untouched [OF this u, of "[]"]
  show ?thesis by (rule hoare_post) (auto simp: nothing_swapped_in_def nothing_left_def)
qed

definition after_step :: "env \<Rightarrow> gref set \<Rightarrow> scheduler_outputs \<Rightarrow> scheduler \<Rightarrow> bool" where
  "after_step env K out s \<longleftrightarrow>
     good env K (queue_homes s + at_home None (out_ignored_seq_groups out)) (sch_groups s)"

lemma after_step_post_init:
  "out_post_init groups out = Inr out' \<Longrightarrow> out_ignored_seq_groups out' = out_ignored_seq_groups out"
  by (auto simp: out_post_init_def)

lemma default_queues_kept:
  assumes "kept True env K {#} s" "nothing_left s" "ro_prefill_seq_groups (ps_running (sch_pass s)) = []"
    "si_prefill_seq_groups (ps_swapped_in (sch_pass s)) = []"
  shows "after_step env K (default_outputs (sch_pass s) t) (default_queues (sch_pass s) s)"
  using assms
  by (simp add: after_step_def kept_def homes_def Let_def queue_homes_def default_queues_def default_outputs_def
      nothing_left_def lists_inv_def ac_simps)

lemma chunked_queues_kept:
  assumes "kept True env K {#} s" "nothing_left s"
  shows "after_step env K (chunked_outputs (sch_pass s) t) (chunked_queues (sch_pass s) s)"
  using assms
  by (simp add: after_step_def kept_def homes_def Let_def queue_homes_def chunked_queues_def chunked_outputs_def
      nothing_left_def ac_simps)


lemma gentle_assert_limits: "keeps gentle (assert_limits env)"
  unfolding assert_limits_def by (intro gentle_intros)

lemma hoare_finish_step:
  assumes "\<And>s. P s \<Longrightarrow> A (sch_pass s) \<Longrightarrow> after_step env K (outs (sch_pass s) (queues (sch_pass s) s)) (queues (sch_pass s) s)"
  shows "hoare P (bind (gets sch_pass) (\<lambda>p. andthen (modify (queues p)) (andthen (guard AssertionError (A p))
      (bind (gets (\<lambda>s. out_post_init (sch_groups s) (outs p s))) lift_sum)))) (after_step env K)"
  using assms by (auto simp: hoare_def wp_simps after_step_def dest: after_step_post_init split: sum.split)

lemma serve_queues_kept:
  assumes cb: "callback_ok env"
  shows "hoare (\<lambda>s. kept b env K H s \<and> only_prefills s \<and> ps_prefills (sch_pass s) = po) (serve_queues env chunk)
    (\<lambda>_ s. kept b env K H s \<and> nothing_left s \<and> ps_prefills (sch_pass s) = po)"
proof -
  let ?L = "\<lambda>s. nothing_swapped_in s \<and> ps_prefills (sch_pass s) = po"
  have L: "listed ?L" using listed_outputs(3) by (auto simp: preserved_def same_lists_def queue_lists_def)
  have running: "hoare (\<lambda>s. kept b env K H s \<and> only_prefills s \<and> ps_prefills (sch_pass s) = po)
    (schedule_running env chunk) (\<lambda>_ s. kept b env K H s \<and> ?L s)"
  proof -
    have u: "keeps (untouched ps_prefills) (schedule_running env chunk)"
      by (rule running_untouched [OF cb]) (auto simp: reads_outputs_def outputs_def)
    from hoare_untouched [OF hoare_pre [OF running_kept [OF cb]] this, where x = po]
    show ?thesis by (rule hoare_post) auto
  qed
  have swapped: "hoare (\<lambda>s. kept b env K H s \<and> ?L s) (schedule_swapped env False)
      (\<lambda>_ s. kept b env K H s \<and> nothing_left s \<and> ps_prefills (sch_pass s) = po)"
  proof -
    have u: "keeps (untouched ps_prefills) (schedule_swapped env False)"
      by (rule swapped_untouched) (auto simp: reads_outputs_def outputs_def)
    from hoare_untouched [OF hoare_pre [OF swapped_kept] this, where x = po]
    show ?thesis by (rule hoare_post) auto
  qed
  show ?thesis
    unfolding serve_queues_def
    by (rule hoare_andthen [OF running], rule gentle_step [OF gentle.pure(3) preserved_kept [OF L]], rule hoare_if,
        rule swapped, rule hoare_return)
      (auto simp: nothing_swapped_in_def nothing_left_def)
qed

lemma assert_limits_kept:
  "hoare (\<lambda>s. kept b env K H s \<and> nothing_left s) (assert_limits env) (\<lambda>_ s. kept b env K H s \<and> nothing_left s)"
  by (intro gentle_last gentle_assert_limits preserved_kept listed_outputs)

lemma gentle_include_running: "keeps gentle (include_running env)"
  unfolding include_running_def by (intro gentle_intros gentle_frame)

lemma hoare_schedule_default:
  assumes cb: "callback_ok env" and policy: "en_policy env \<noteq> ''priority''"
  shows "hoare (queued env K) (schedule_default env) (after_step env K)"
proof -
  let ?K = "kept True env K {#}"
  have prefills: "hoare (\<lambda>s. ?K s \<and> no_outputs s) (prefills_unless_swapped env) (\<lambda>_ s. ?K s \<and> only_prefills s)"
    unfolding prefills_unless_swapped_def
    by (rule gentle_step [OF gentle.pure(3) preserved_kept [OF listed_outputs(1)]], rule hoare_if,
        rule hoare_pre [OF prefills_kept])
      (auto simp: no_outputs_def only_prefills_def outputs_def po_empty_def intro: hoare_return)
  have serve: "hoare (\<lambda>s. ?K s \<and> only_prefills s) (serve_queues env False) (\<lambda>_ s. ?K s \<and> nothing_left s)"
    using serve_queues_kept [OF cb, of True K "{#}" _ False] by (fastforce simp: hoare_def intro: wp_mono)
  have finish: "hoare (\<lambda>s. ?K s \<and> nothing_left s) (bind (gets sch_pass) (\<lambda>p. andthen (modify (default_queues p))
      (andthen (guard AssertionError (ro_prefill_seq_groups (ps_running p) = []))
      (andthen (guard AssertionError (si_prefill_seq_groups (ps_swapped_in p) = []))
      (bind (gets (\<lambda>s. out_post_init (sch_groups s) (default_outputs p s))) lift_sum))))) (after_step env K)"
    using hoare_finish_step [of "\<lambda>s. ?K s \<and> nothing_left s"
        "\<lambda>p. ro_prefill_seq_groups (ps_running p) = [] \<and> si_prefill_seq_groups (ps_swapped_in p) = []"
        env K default_outputs default_queues] default_queues_kept
    by (fastforce simp: hoare_def wp_simps)
  have rest: "hoare (\<lambda>s. ?K s \<and> only_prefills s)
    (andthen (if no_prefill \<and> en_policy env = ''priority'' then bind (schedule_priority_preemption env) (\<lambda>_. return ()) else return ())
      (andthen (if no_prefill then serve_queues env False else return ()) k)) Q"
    if "hoare (\<lambda>s. ?K s \<and> nothing_left s) k Q" for no_prefill k and Q :: "scheduler_outputs \<Rightarrow> scheduler \<Rightarrow> bool"
  proof (rule hoare_andthen)
    show "hoare (\<lambda>s. ?K s \<and> only_prefills s)
      (if no_prefill \<and> en_policy env = ''priority'' then bind (schedule_priority_preemption env) (\<lambda>_. return ()) else return ())
      (\<lambda>_ s. ?K s \<and> only_prefills s)" using policy by (auto intro: hoare_return)
    show "hoare (\<lambda>s. ?K s \<and> only_prefills s) (andthen (if no_prefill then serve_queues env False else return ()) k) Q"
      by (rule hoare_andthen [OF _ that], rule hoare_if, rule serve, rule hoare_return)
        (simp add: only_prefills_def nothing_left_def)
  qed
  show ?thesis
    unfolding schedule_default_def
    by (rule hoare_andthen [OF begin_pass_kept],
        rule gentle_run [OF gentle_include_running preserved_kept [OF listed_outputs(1)]],
        rule hoare_andthen [OF prefills],
        rule gentle_step [OF gentle.pure(3) preserved_kept [OF listed_outputs(2)]],
        rule rest, rule hoare_andthen [OF assert_limits_kept finish])
qed

lemma hoare_schedule_chunked:
  assumes cb: "callback_ok env"
  shows "hoare (queued env K) (schedule_chunked_prefill env) (after_step env K)"
proof -
  let ?K = "kept True env K {#}"
  have serve: "hoare (\<lambda>s. ?K s \<and> no_outputs s) (serve_queues env True)
    (\<lambda>_ s. ?K s \<and> nothing_left s \<and> ps_prefills (sch_pass s) = po_empty)"
    by (rule hoare_pre [OF serve_queues_kept [OF cb]]) (auto simp: no_outputs_def only_prefills_def outputs_def)
  have prefills: "hoare (\<lambda>s. ?K s \<and> nothing_left s \<and> ps_prefills (sch_pass s) = po_empty) (schedule_prefills env True)
    (\<lambda>_ s. ?K s \<and> nothing_left s)"
  proof -
    have u: "keeps (untouched ps_leftover_swapped) (schedule_prefills env True)"
      by (rule prefills_untouched) (auto simp: reads_outputs_def outputs_def)
    have "hoare (\<lambda>s. ?K s \<and> nothing_left s \<and> ps_prefills (sch_pass s) = po_empty) (schedule_prefills env True)
      (\<lambda>_ s. ?K s \<and> ps_leftover_waiting (sch_pass s) = [])"
      by (rule hoare_schedule_prefills) (auto simp: po_empty_def)
    from hoare_untouched [OF this u, of "[]"] show ?thesis by (rule hoare_post) (auto simp: nothing_left_def)
  qed
  have finish: "hoare (\<lambda>s. ?K s \<and> nothing_left s) (bind (gets sch_pass) (\<lambda>p. andthen (modify (chunked_queues p))
      (bind (gets (\<lambda>s. out_post_init (sch_groups s) (chunked_outputs p s))) lift_sum))) (after_step env K)"
    using hoare_finish_step [of "\<lambda>s. ?K s \<and> nothing_left s" "\<lambda>p. True" env K chunked_outputs chunked_queues] chunked_queues_kept
    by (fastforce simp: hoare_def wp_simps)
  show ?thesis
    unfolding schedule_chunked_prefill_def
    by (rule hoare_andthen [OF begin_pass_kept hoare_andthen [OF serve hoare_andthen [OF prefills
        hoare_andthen [OF assert_limits_kept finish]]]])
qed

end
