(* ===== verification/SchedulerReach.thy ===== *)
theory SchedulerReach
  imports SchedulerQueues "HOL-Library.Sublist"
begin

text \<open>
  What the scheduler promises the engine. The loops of a step end; a step keeps every group in one queue
  with the status of that queue, and so do the other calls between the steps (\<open>engine_step\<close>); an aborted
  request leaves the queues and is finished.
\<close>

lemma hoare_returns: "hoare P m Q \<Longrightarrow> P s \<Longrightarrow> m s = (Inr x, t) \<Longrightarrow> Q x t"
  unfolding hoare_def wp_def by fastforce

section \<open>The loops end\<close>

lemma rounds_stop:
  assumes "\<And>n. hoare (\<lambda>s. I s \<and> f s = n) body (\<lambda>r t. case r of None \<Rightarrow> I t \<and> f t < n | Some x \<Rightarrow> Q x t)" and "I s"
  shows "rounds (Suc (f s)) body s \<noteq> None"
proof -
  have "\<exists>r t. rounds (Suc (f s)) body s = Some (r, t) \<and> (case r of Inl e \<Rightarrow> True | Inr x \<Rightarrow> Q x t)"
    by (rule rounds_end [where I = I and f = f]) (use assms in \<open>auto simp: hoare_def\<close>)
  then show ?thesis by auto
qed


lemma hoare_priority_round:
  "hoare (\<lambda>x. True \<and> length (fst (snd x)) = n) (priority_round env r m k)
    (\<lambda>result x. case result of None \<Rightarrow> True \<and> length (fst (snd x)) < n | Some _ \<Rightarrow> True)"
  unfolding priority_round_def
  by (auto simp: hoare_def in_scheduler_def zoom_def wp_def py_defs split: prod.splits sum.splits)

lemma priority_rounds_stop: "rounds (Suc (length (fst (snd x)))) (priority_round env r n k) x \<noteq> None"
  by (rule rounds_stop [OF hoare_priority_round]) simp

section \<open>A step keeps every group\<close>

definition queued_refs :: "scheduler \<Rightarrow> gref list" where
  "queued_refs s = sch_waiting s @ sch_running s @ sch_async_stopped s @ sch_swapped s"

text \<open>No group is queued twice, and each has the status of its queue or is finished.\<close>

definition well_queued :: "scheduler \<Rightarrow> bool" where
  "well_queued s \<longleftrightarrow> distinct (queued_refs s) \<and>
     (\<forall>r \<in> set (sch_waiting s). group_ok (Some WAITING) (sch_groups s r)) \<and>
     (\<forall>r \<in> set (sch_running s @ sch_async_stopped s). group_ok (Some RUNNING) (sch_groups s r)) \<and>
     (\<forall>r \<in> set (sch_swapped s). group_ok (Some SWAPPED) (sch_groups s r))"

lemma at_home_mset [simp]: "image_mset snd (at_home h rs) = mset rs" "(h', r) \<in># at_home h rs \<longleftrightarrow> h' = h \<and> r \<in> set rs"
  by (auto simp: at_home_def multiset.map_comp comp_def)

lemma queue_homes_refs: "image_mset snd (queue_homes s) = mset (queued_refs s)"
  by (simp add: queue_homes_def queued_refs_def)

lemma count_le_distinct: "(\<forall>r. count (mset rs) r \<le> 1) \<longleftrightarrow> distinct rs"
proof
  assume le: "\<forall>r. count (mset rs) r \<le> 1"
  have "count (mset rs) r = (if r \<in> set rs then 1 else 0)" for r
    using le [rule_format, of r] by (cases "r \<in> set rs") (auto simp: le_Suc_eq simp del: count_mset)
  then show "distinct rs" by (simp add: distinct_count_atmost_1)
qed (simp add: distinct_count_atmost_1)

lemma good_queues:
  "good env K (queue_homes s + at_home None rs) (sch_groups s) \<longleftrightarrow>
     distinct (queued_refs s @ rs) \<and> well_queued s \<and> (\<forall>r \<in> set rs. group_ok None (sch_groups s r)) \<and>
     (if en_callback env = None then set (queued_refs s @ rs) = K else set (queued_refs s @ rs) \<subseteq> K)"
proof -
  let ?M = "queue_homes s + at_home None rs"
  have m: "image_mset snd ?M = mset (queued_refs s @ rs)" by (simp add: queue_homes_refs)
  have homes: "(\<forall>(home, r) \<in> set_mset ?M. group_ok home (sch_groups s r)) \<longleftrightarrow>
     (\<forall>r \<in> set (sch_waiting s). group_ok (Some WAITING) (sch_groups s r)) \<and>
     (\<forall>r \<in> set (sch_running s @ sch_async_stopped s). group_ok (Some RUNNING) (sch_groups s r)) \<and>
     (\<forall>r \<in> set (sch_swapped s). group_ok (Some SWAPPED) (sch_groups s r)) \<and> (\<forall>r \<in> set rs. group_ok None (sch_groups s r))"
    unfolding queue_homes_def by auto
  have "distinct (queued_refs s @ rs) \<Longrightarrow> distinct (queued_refs s)" by simp
  then show ?thesis
    unfolding good_def m count_le_distinct set_mset_mset homes well_queued_def by blast
qed

lemma queued_iff: "queued env K s \<longleftrightarrow> well_queued s \<and>
    (if en_callback env = None then set (queued_refs s) = K else set (queued_refs s) \<subseteq> K)"
  using good_queues [of env K s "[]"] by (auto simp: queued_def well_queued_def)

lemma preserved_queues: "preserved gentle (queued env K)" "preserved gentle (after_step env K out)"
proof -
  have "queue_homes t = queue_homes s" if "gentle s t" for s t
    using that by (simp add: gentle_def queue_lists_def queue_homes_def)
  then show "preserved gentle (queued env K)" "preserved gentle (after_step env K out)"
    unfolding preserved_def queued_def after_step_def using good_gentle by metis+
qed

lemma hoare_schedule_queues:
  assumes "callback_ok env" "sc_chunked_prefill_enabled (en_config env) \<or> en_policy env \<noteq> ''priority''"
  shows "hoare (queued env K) (schedule_queues env) (after_step env K)"
  unfolding schedule_queues_def using assms by (auto intro: hoare_schedule_default hoare_schedule_chunked)

lemma hoare_add_prefix_swaps: "hoare (after_step env K out) (add_prefix_swaps out) (after_step env K)"
  unfolding add_prefix_swaps_def
  by (rule gentle_step [OF gentle_on_bm preserved_queues(2)], rule hoare_pair, rule gentle_run [OF gentle.pure(4) preserved_queues(2)],
      rule hoare_return) (simp add: after_step_def)

lemma hoare_schedule:
  assumes "callback_ok env" "sc_chunked_prefill_enabled (en_config env) \<or> en_policy env \<noteq> ''priority''"
  shows "hoare (queued env K) (schedule env) (\<lambda>(metadata, out, allow_async). after_step env K out)"
  unfolding schedule_def
  by (rule gentle_step [OF gentle_tick(2) preserved_queues(1)], rule gentle_run [OF gentle_on_bm preserved_queues(1)],
      rule hoare_bind [OF hoare_schedule_queues [OF assms]], rule hoare_bind [OF hoare_add_prefix_swaps],
      (rule gentle_step gentle_run, (intro gentle_intros)[1], rule preserved_queues)+, rule hoare_return) simp

section \<open>Aborting\<close>

text \<open>\<open>t\<close> is \<open>s\<close> but for the blocks, which the calls of the block manager change.\<close>

definition upto_blocks :: "scheduler \<Rightarrow> scheduler \<Rightarrow> bool" where
  "upto_blocks s t \<longleftrightarrow> s\<lparr>sch_block_manager := sch_block_manager t\<rparr> = t"

interpretation upto_blocks: step_relation upto_blocks
proof
  fix s t u :: scheduler
  show "upto_blocks s s" by (simp add: upto_blocks_def)
  assume "upto_blocks s t" "upto_blocks t u"
  then show "upto_blocks s u" unfolding upto_blocks_def by (metis scheduler.surjective scheduler.update_convs(1))
qed

lemma preserved_upto_blocks: "preserved upto_blocks (upto_blocks s)"
  unfolding preserved_def using upto_blocks.trans by blast

lemma upto_blocks_on_bm: "keeps upto_blocks (on_bm m)"
  unfolding on_bm_def by (rule keeps_zoom) (simp add: upto_blocks_def)

lemma upto_blocks_free: "keeps upto_blocks (free_seq env q)" "keeps upto_blocks (free_seq_group_cross_attn_blocks env r)"
  unfolding free_seq_def free_seq_group_cross_attn_blocks_def the_group_def try_finally_def
  by (intro upto_blocks.combinators upto_blocks_on_bm)+

lemma hoare_upto_blocks: "keeps upto_blocks m \<Longrightarrow> hoare (upto_blocks s) m (\<lambda>_. upto_blocks s)"
  by (rule hoare_keeps [OF _ preserved_upto_blocks])

lemma upto_blocksE: "upto_blocks s t \<Longrightarrow> (\<And>b. t = s\<lparr>sch_block_manager := b\<rparr> \<Longrightarrow> thesis) \<Longrightarrow> thesis"
  unfolding upto_blocks_def by metis

lemma upto_blocks_update [simp]: "upto_blocks s (s\<lparr>sch_block_manager := b\<rparr>)"
  by (simp add: upto_blocks_def)

lemma hoare_modify_upto:
  "(\<And>b. f (s\<lparr>sch_block_manager := b\<rparr>) = s'\<lparr>sch_block_manager := b\<rparr>) \<Longrightarrow>
   hoare (upto_blocks s) (modify f) (\<lambda>_. upto_blocks s')"
  unfolding hoare_def wp_modify by (auto elim!: upto_blocksE)

lemma upto_blocks_fields:
  assumes "upto_blocks s t"
  shows "sch_groups t = sch_groups s" "queue name t = queue name s"
  by (rule upto_blocksE [OF assms], cases name, simp_all)+

lemma hoare_get_upto:
  "(\<And>b. f (s\<lparr>sch_block_manager := b\<rparr>) = f s) \<Longrightarrow> hoare (upto_blocks s) (k (f s)) Q \<Longrightarrow> hoare (upto_blocks s) (bind (gets f) k) Q"
  unfolding hoare_def wp_bind wp_gets by (auto elim!: upto_blocksE)

text \<open>What remains of a group: its unfinished sequences are aborted.\<close>

definition abort_all :: "mm_group \<Rightarrow> mm_group" where
  "abort_all g = g\<lparr>sg_seqs := map (\<lambda>q. if seq_is_finished q then q else q\<lparr>sq_status := FINISHED_ABORTED\<rparr>) (sg_seqs g)\<rparr>"

definition marked :: "mm_sequence list \<Rightarrow> mm_sequence list \<Rightarrow> mm_sequence list" where
  "marked qs = map (\<lambda>q. if sq_seq_id q \<in> sq_seq_id ` set (filter (\<lambda>q. \<not> seq_is_finished q) qs)
     then q\<lparr>sq_status := FINISHED_ABORTED\<rparr> else q)"

definition mark_group :: "gref \<Rightarrow> mm_sequence list \<Rightarrow> scheduler \<Rightarrow> scheduler" where
  "mark_group r qs s = s\<lparr>sch_groups := (sch_groups s)(r := (sch_groups s r)\<lparr>sg_seqs := marked qs (sg_seqs (sch_groups s r))\<rparr>)\<rparr>"

lemma marked_simps:
  "marked [] rs = rs" "seq_is_finished q \<Longrightarrow> marked (q # qs) rs = marked qs rs"
  "\<not> seq_is_finished q \<Longrightarrow> marked qs (marked [q] rs) = marked (q # qs) rs"
  by (auto simp: marked_def)

lemma mark_group_simps:
  "mark_group r [] s = s" "seq_is_finished q \<Longrightarrow> mark_group r (q # qs) s = mark_group r qs s"
  "\<not> seq_is_finished q \<Longrightarrow> mark_group r qs (mark_group r [q] s) = mark_group r (q # qs) s"
  by (simp_all add: mark_group_def marked_simps)

lemma hoare_abort_seqs:
  "hoare (upto_blocks s) (for_each qs (abort_seq env r)) (\<lambda>_. upto_blocks (mark_group r qs s))"
proof (induction qs arbitrary: s)
  case (Cons q qs)
  show ?case
  proof (cases "seq_is_finished q")
    case False
    have mark: "set_seqs_status r [q] FINISHED_ABORTED = modify (mark_group r [q])"
      using False by (auto simp: set_seqs_status_def upd_seqs_def the_group_def put_group_def mark_group_def marked_def
          bind_def gets_def modify_def fun_eq_iff intro!: arg_cong2 [where f = "\<lambda>g s. s\<lparr>sch_groups := g\<rparr>"] ext)
    have "hoare (upto_blocks s) (abort_seq env r q) (\<lambda>_. upto_blocks (mark_group r [q] s))"
      using False unfolding abort_seq_def mark
      by (simp, intro hoare_andthen [OF hoare_modify_upto hoare_upto_blocks] upto_blocks_free) (simp add: mark_group_def)
    from hoare_andthen [OF this Cons.IH] show ?thesis by (simp add: False mark_group_simps)
  next
    case True
    then show ?thesis using hoare_andthen [OF hoare_return Cons.IH, of "upto_blocks s" s "()"]
      by (simp add: abort_seq_def mark_group_simps)
  qed
qed (simp add: mark_group_simps hoare_return)

lemma marked_all:
  assumes "distinct (map sq_seq_id qs)"
  shows "marked qs qs = map (\<lambda>q. if seq_is_finished q then q else q\<lparr>sq_status := FINISHED_ABORTED\<rparr>) qs"
proof -
  have "sq_seq_id q \<in> sq_seq_id ` set (filter (\<lambda>q. \<not> seq_is_finished q) qs) \<longleftrightarrow> \<not> seq_is_finished q" if "q \<in> set qs" for q
    using that assms by (auto simp: distinct_map inj_on_def)
  then show ?thesis by (auto simp: marked_def)
qed

definition aborted :: "queue_name \<Rightarrow> gref \<Rightarrow> scheduler \<Rightarrow> scheduler" where
  "aborted name r s = (let g = sch_groups s r; t = set_queue name (remove1 r (queue name s)) s in
     t\<lparr>sch_finished_requests_ids := sch_finished_requests_ids s @ [sg_request_id g],
       sch_groups := (sch_groups s)(r := abort_all g)\<rparr>)"

lemma set_queue_other [simp]:
  "sch_groups (set_queue name q s) = sch_groups s" "sch_finished_requests_ids (set_queue name q s) = sch_finished_requests_ids s"
  "queue name (set_queue name q s) = q" "sch_async_stopped (set_queue name q s) = sch_async_stopped s"
  "sch_gdn_request_restore_keys (set_queue name q s) = sch_gdn_request_restore_keys s"
  "sch_gdn_request_capture_targets (set_queue name q s) = sch_gdn_request_capture_targets s"
  by (cases name; simp)+

lemma queue_set_queue [simp]: "queue name' (set_queue name q s) = (if name' = name then q else queue name' s)"
  by (cases name; cases name'; simp)

lemma hoare_abort_group:
  assumes inv: "sg_inv (sch_groups s r)"
  shows "hoare (upto_blocks s) (abort_group env name r) (\<lambda>_. upto_blocks (aborted name r s))"
proof -
  let ?s1 = "set_queue name (remove1 r (queue name s)) s" and ?g = "sch_groups s r"
  let ?s2 = "?s1\<lparr>sch_finished_requests_ids := sch_finished_requests_ids s @ [sg_request_id ?g]\<rparr>"
  have seqs: "hoare (upto_blocks ?s2) (for_each (sg_seqs ?g) (abort_seq env r)) (\<lambda>_. upto_blocks (aborted name r s))"
    using hoare_abort_seqs [of ?s2 "sg_seqs ?g" env r] inv
    by (simp add: mark_group_def marked_all sg_inv_def aborted_def abort_all_def Let_def)
  have free: "hoare (upto_blocks ?s2) (andthen (for_each (sg_seqs ?g) (abort_seq env r)) (free_seq_group_cross_attn_blocks env r))
    (\<lambda>_. upto_blocks (aborted name r s))"
    by (rule hoare_andthen [OF seqs hoare_upto_blocks [OF upto_blocks_free(2)]])
  have get: "bind (get_seqs r None) k = bind (gets (\<lambda>s. sg_seqs (sch_groups s r))) k" for k :: "mm_sequence list \<Rightarrow> unit sch_py"
    by (simp add: get_seqs_def the_group_def sg_get_seqs_def lift_sum_def py_defs fun_eq_iff)
  have ids: "hoare (upto_blocks ?s1) (add_finished_id (sg_request_id ?g)) (\<lambda>_. upto_blocks ?s2)"
    unfolding add_finished_id_def by (rule hoare_modify_upto) (cases name; simp)
  have "hoare (upto_blocks ?s1) (bind (the_group r) (\<lambda>g.
     andthen (add_finished_id (sg_request_id g)) (bind (get_seqs r None) (\<lambda>seqs.
     andthen (for_each seqs (abort_seq env r)) (free_seq_group_cross_attn_blocks env r)))))
    (\<lambda>_. upto_blocks (aborted name r s))"
    unfolding the_group_def get
  proof (rule hoare_get_upto)
    show "hoare (upto_blocks ?s1) (andthen (add_finished_id (sg_request_id (sch_groups ?s1 r)))
       (bind (gets (\<lambda>s. sg_seqs (sch_groups s r))) (\<lambda>seqs.
        andthen (for_each seqs (abort_seq env r)) (free_seq_group_cross_attn_blocks env r))))
      (\<lambda>_. upto_blocks (aborted name r s))"
      by (simp, rule hoare_andthen [OF ids], rule hoare_get_upto) (simp_all add: free)
  qed simp
  moreover have "set_queue name (remove1 r (queue name (s\<lparr>sch_block_manager := b\<rparr>))) (s\<lparr>sch_block_manager := b\<rparr>) =
      ?s1\<lparr>sch_block_manager := b\<rparr>" for b by (cases name; simp)
  ultimately show ?thesis
    unfolding abort_group_def by (intro hoare_andthen [OF hoare_modify_upto])
qed

definition abort_from :: "queue_name \<Rightarrow> gref list \<Rightarrow> scheduler \<Rightarrow> scheduler" where
  "abort_from name = fold (aborted name)"

text \<open>The picked groups are distinct members of the queue.\<close>

lemma hoare_abort_groups:
  assumes "\<forall>r \<in> set rs. sg_inv (sch_groups s r)" "distinct rs"
  shows "hoare (upto_blocks s) (for_each rs (abort_group env name)) (\<lambda>_. upto_blocks (abort_from name rs s))"
  using assms
proof (induction rs arbitrary: s)
  case (Cons r rs)
  have "\<forall>r' \<in> set rs. sg_inv (sch_groups (aborted name r s) r')"
    using Cons.prems by (auto simp: aborted_def Let_def)
  from hoare_andthen [OF hoare_abort_group Cons.IH [OF this]] Cons.prems
  show ?case by (simp add: abort_from_def)
qed (simp add: abort_from_def hoare_return)

fun abort_picked :: "queue_name list \<Rightarrow> string set \<Rightarrow> scheduler \<Rightarrow> scheduler" where
  "abort_picked [] ids s = s"
| "abort_picked (name # names) ids s =
     (case pick_aborted (sch_groups s) (queue name s) ids of (rs, ids') \<Rightarrow> abort_picked names ids' (abort_from name rs s))"

lemma pick_aborted_set: "set (fst (pick_aborted G rs ids)) \<subseteq> set rs" "distinct rs \<Longrightarrow> distinct (fst (pick_aborted G rs ids))"
proof -
  show sub: "set (fst (pick_aborted G rs ids)) \<subseteq> set rs" for rs ids
    by (induction rs arbitrary: ids) (auto simp: case_prod_unfold dest: subsetD)
  show "distinct rs \<Longrightarrow> distinct (fst (pick_aborted G rs ids))"
    by (induction rs arbitrary: ids) (use sub in \<open>auto simp: case_prod_unfold dest: subsetD\<close>)
qed

lemma pick_aborted_eq:
  assumes "inj_on (\<lambda>r. sg_request_id (G r)) (set rs)" "distinct rs"
  shows "pick_aborted G rs ids = (filter (\<lambda>r. sg_request_id (G r) \<in> ids) rs, ids - (\<lambda>r. sg_request_id (G r)) ` set rs)"
  using assms
proof (induction rs arbitrary: ids)
  case (Cons r rs)
  have "sg_request_id (G x) \<noteq> sg_request_id (G r)" if "x \<in> set rs" for x
    using Cons.prems that by (auto simp: inj_on_def)
  then have "filter (\<lambda>x. sg_request_id (G x) \<in> ids - {sg_request_id (G r)}) rs = filter (\<lambda>x. sg_request_id (G x) \<in> ids) rs"
    by (auto intro: filter_cong)
  with Cons show ?case by (auto simp: case_prod_unfold)
qed auto

lemma aborted_view [simp]:
  "queue name' (aborted name r s) = (if name' = name then remove1 r (queue name s) else queue name' s)"
  "sch_groups (aborted name r s) = (sch_groups s)(r := abort_all (sch_groups s r))"
  "sch_finished_requests_ids (aborted name r s) = sch_finished_requests_ids s @ [sg_request_id (sch_groups s r)]"
  "sch_async_stopped (aborted name r s) = sch_async_stopped s"
  "sch_gdn_request_restore_keys (aborted name r s) = sch_gdn_request_restore_keys s"
  "sch_gdn_request_capture_targets (aborted name r s) = sch_gdn_request_capture_targets s"
  by (simp_all add: aborted_def Let_def) (cases name; cases name'; simp)

lemma finished_aborted: "status_is_finished FINISHED_ABORTED"
  by code_simp

lemma abort_all_id [simp]: "sg_request_id (abort_all g) = sg_request_id g"
  by (simp add: abort_all_def)

lemma filter_remove1:
  "distinct q \<Longrightarrow> filter (\<lambda>r. r \<notin> set xs) (remove1 x q) = filter (\<lambda>r. r \<notin> set (x # xs)) q"
  by (simp add: distinct_remove1_removeAll removeAll_filter_not_eq) (metis (lifting) conj_commute)

lemma abort_from_view:
  assumes "distinct rs" "distinct (queue name s)"
  shows "queue name' (abort_from name rs s) =
      (if name' = name then filter (\<lambda>r. r \<notin> set rs) (queue name s) else queue name' s)" (is ?queues)
    "sch_groups (abort_from name rs s) r = (if r \<in> set rs then abort_all (sch_groups s r) else sch_groups s r)" (is ?groups)
    "sch_finished_requests_ids (abort_from name rs s) = sch_finished_requests_ids s @ map (\<lambda>r. sg_request_id (sch_groups s r)) rs" (is ?ids)
    "sch_async_stopped (abort_from name rs s) = sch_async_stopped s"
    "sch_gdn_request_restore_keys (abort_from name rs s) = sch_gdn_request_restore_keys s"
    "sch_gdn_request_capture_targets (abort_from name rs s) = sch_gdn_request_capture_targets s"
proof -
  show "sch_async_stopped (abort_from name rs s) = sch_async_stopped s"
    "sch_gdn_request_restore_keys (abort_from name rs s) = sch_gdn_request_restore_keys s"
    "sch_gdn_request_capture_targets (abort_from name rs s) = sch_gdn_request_capture_targets s"
    by (induction rs arbitrary: s) (simp_all add: abort_from_def)
  show ?queues using assms
  proof (induction rs arbitrary: s)
    case (Cons x xs)
    from Cons.IH [of "aborted name x s"] Cons.prems show ?case
      by (cases "name' = name") (simp_all only: abort_from_def aborted_view filter_remove1 fold.simps comp_def distinct_remove1
          if_True if_False simp_thms distinct.simps)
  qed (simp add: abort_from_def)
  show ?groups using assms(1)
    by (induction rs arbitrary: s) (auto simp: abort_from_def)
  show ?ids using assms(1)
  proof (induction rs arbitrary: s)
    case (Cons x xs)
    then show ?case by (auto simp: abort_from_def)
  qed (simp add: abort_from_def)
qed

text \<open>Queued groups and their status, queue by queue.\<close>

fun status_of :: "queue_name \<Rightarrow> sequence_status" where
  "status_of Waiting = WAITING"
| "status_of Running = RUNNING"
| "status_of Swapped = SWAPPED"

lemma all_queues: "(\<forall>name. P name) \<longleftrightarrow> P Waiting \<and> P Running \<and> P Swapped"
  by (metis queue_name.exhaust)

lemma well_queued_iff:
  "well_queued s \<longleftrightarrow> distinct (queued_refs s) \<and>
     (\<forall>name. \<forall>r \<in> set (queue name s). group_ok (Some (status_of name)) (sch_groups s r)) \<and>
     (\<forall>r \<in> set (sch_async_stopped s). group_ok (Some RUNNING) (sch_groups s r))"
  unfolding all_queues well_queued_def by auto

lemma queue_in_refs: "set (queue name s) \<subseteq> set (queued_refs s)" "distinct (queued_refs s) \<Longrightarrow> distinct (queue name s)"
  by (cases name; auto simp: queued_refs_def)+

lemma well_queued_abort_from:
  assumes "well_queued s" "set rs \<subseteq> set (queue name s)" "distinct rs"
  shows "well_queued (abort_from name rs s)"
proof -
  have d: "distinct (queued_refs s)" using assms(1) by (simp add: well_queued_def)
  note view = abort_from_view [OF assms(3) queue_in_refs(2) [OF d, where name = name]]
  have refs: "queued_refs (abort_from name rs s) =
      (if name = Waiting then filter (\<lambda>r. r \<notin> set rs) (sch_waiting s) else sch_waiting s) @
      (if name = Running then filter (\<lambda>r. r \<notin> set rs) (sch_running s) else sch_running s) @ sch_async_stopped s @
      (if name = Swapped then filter (\<lambda>r. r \<notin> set rs) (sch_swapped s) else sch_swapped s)"
    using view(1) [of Waiting] view(1) [of Running] view(1) [of Swapped] view(4) by (simp add: queued_refs_def)
  have left: "r \<notin> set rs" if "r \<in> set (queued_refs (abort_from name rs s))" for r
    using that assms(2) d unfolding refs by (cases name) (auto simp: queued_refs_def)
  have "group_ok (Some (status_of name')) (sch_groups (abort_from name rs s) r)"
    if "r \<in> set (queue name' (abort_from name rs s))" for name' r
  proof -
    have "r \<notin> set rs" using that left queue_in_refs(1) by blast
    moreover have "r \<in> set (queue name' s)" using that by (auto simp: view(1) split: if_splits)
    ultimately show ?thesis using assms(1) by (simp add: view(2) well_queued_iff)
  qed
  moreover have "group_ok (Some RUNNING) (sch_groups (abort_from name rs s) r)"
    if "r \<in> set (sch_async_stopped (abort_from name rs s))" for r
  proof -
    have "r \<notin> set rs" using that left by (simp add: queued_refs_def)
    then show ?thesis using that assms(1) by (simp add: view(2,4) well_queued_iff)
  qed
  moreover have "distinct (queued_refs (abort_from name rs s))"
    using d unfolding refs by (auto simp: queued_refs_def)
  ultimately show ?thesis unfolding well_queued_iff by blast
qed

lemma well_queued_inv: "well_queued s \<Longrightarrow> r \<in> set (queue name s) \<Longrightarrow> sg_inv (sch_groups s r)"
  by (auto simp: well_queued_iff group_ok_def)

lemma hoare_abort_in_queues:
  "well_queued s \<Longrightarrow> hoare (upto_blocks s) (abort_in_queues env names ids) (\<lambda>_. upto_blocks (abort_picked names ids s))"
proof (induction names arbitrary: ids s)
  case (Cons name names)
  obtain rs ids' where p: "pick_aborted (sch_groups s) (queue name s) ids = (rs, ids')" by fastforce
  have d: "distinct (queue name s)" using Cons.prems queue_in_refs(2) by (simp add: well_queued_def)
  have rs: "set rs \<subseteq> set (queue name s)" "distinct rs"
    using pick_aborted_set(1) [of "sch_groups s" "queue name s" ids] pick_aborted_set(2) [OF d, of "sch_groups s" ids]
    by (simp_all add: p)
  have inv: "\<forall>r \<in> set rs. sg_inv (sch_groups s r)" using rs(1) well_queued_inv [OF Cons.prems] by blast
  have "hoare (upto_blocks s) (andthen (for_each rs (abort_group env name)) (abort_in_queues env names ids'))
      (\<lambda>_. upto_blocks (abort_picked names ids' (abort_from name rs s)))"
    by (rule hoare_andthen [OF hoare_abort_groups [OF inv rs(2)] Cons.IH]) (rule well_queued_abort_from [OF Cons.prems rs])
  then show ?case
    unfolding abort_in_queues.simps abort_picked.simps p prod.case
    by (intro hoare_get_upto) (cases name, simp_all add: p)
qed (simp add: hoare_return)

lemma well_queued_abort_picked: "well_queued s \<Longrightarrow> well_queued (abort_picked names ids s)"
proof (induction names arbitrary: ids s)
  case (Cons name names)
  have d: "distinct (queue name s)" using Cons.prems queue_in_refs(2) by (simp add: well_queued_def)
  show ?case
    using Cons.IH well_queued_abort_from [OF Cons.prems] pick_aborted_set(1) [of "sch_groups s" "queue name s" ids]
      pick_aborted_set(2) [OF d] by (simp add: case_prod_unfold)
qed simp

lemma well_queued_upto: "upto_blocks s t \<Longrightarrow> well_queued t = well_queued s"
  by (auto elim!: upto_blocksE simp: well_queued_def queued_refs_def)

lemma abort_result:
  assumes "well_queued s" "abort_seq_group env ids s = (Inr (), t)"
  shows "upto_blocks (abort_picked [Waiting, Running, Swapped] (set ids) s) t"
  by (rule hoare_returns [OF hoare_abort_in_queues [OF assms(1)] upto_blocks.refl assms(2) [unfolded abort_seq_group_def]])

lemma abort_keeps_queues: "well_queued s \<Longrightarrow> abort_seq_group env ids s = (Inr (), t) \<Longrightarrow> well_queued t"
  using well_queued_upto [OF abort_result] well_queued_abort_picked by blast

section \<open>Freeing finished groups\<close>

lemma preserved_well_queued: "preserved gentle well_queued"
  unfolding preserved_def
proof (intro allI impI)
  fix s t
  assume st: "gentle s t" and s: "well_queued s"
  have refs: "queued_refs t = queued_refs s" "queue name t = queue name s" "sch_async_stopped t = sch_async_stopped s" for name
    using st by (simp_all add: gentle_def queue_lists_def queued_refs_def) (cases name; simp)
  have "group_ok home (sch_groups s r) \<Longrightarrow> group_ok home (sch_groups t r)" for home r
    using st by (simp add: gentle_def)
  then show "well_queued t" using s unfolding well_queued_iff refs by blast
qed

lemma hoare_remaining_running:
  "hoare (\<lambda>s. well_queued s \<and> sch_running s = q) (remaining_running env rs)
    (\<lambda>rest s. (well_queued s \<and> sch_running s = q) \<and> subseq rest rs)"
proof (induction rs)
  case (Cons r rs)
  have p: "preserved gentle (\<lambda>s. well_queued s \<and> sch_running s = q)"
    using preserved_well_queued by (auto simp: preserved_def gentle_def queue_lists_def)
  show ?case
    unfolding remaining_running.simps
    by (intro gentle_run [OF gentle_free_finished_seq_group] gentle_step [OF gentle_the_group]
        gentle_step [OF gentle.pure(6)] p hoare_bind [OF Cons.IH] hoare_return) auto
qed (auto intro: hoare_return)

lemma subseq_set_subset: "subseq xs ys \<Longrightarrow> set xs \<subseteq> set ys"
  by (induction rule: list_emb.induct) auto

lemma subseq_keeps_distinct: "subseq xs ys \<Longrightarrow> distinct ys \<Longrightarrow> distinct xs"
  by (induction rule: list_emb.induct) (auto dest: subseq_set_subset)

lemma well_queued_subseq:
  assumes "well_queued s" "subseq rest (sch_running s)"
  shows "well_queued (s\<lparr>sch_running := rest\<rparr>)"
proof -
  have "subseq (queued_refs (s\<lparr>sch_running := rest\<rparr>)) (queued_refs s)"
    using assms(2) by (simp add: queued_refs_def list_emb_append_mono)
  then have "distinct (queued_refs (s\<lparr>sch_running := rest\<rparr>))"
    using assms(1) subseq_keeps_distinct unfolding well_queued_def by blast
  moreover have "set rest \<subseteq> set (sch_running s)" using assms(2) by (rule subseq_set_subset)
  ultimately show ?thesis using assms(1) unfolding well_queued_def by auto
qed

lemma hoare_free_finished: "hoare well_queued (free_finished_seq_groups env) (\<lambda>_. well_queued)"
proof -
  have gentle_stopped: "keeps gentle (free_async_stopped env r)" for r
    unfolding free_async_stopped_def add_finished_id_def by (intro gentle_intros gentle_frame)
  have stopped: "hoare well_queued (bind (gets sch_async_stopped) (\<lambda>stopped.
      andthen (for_each stopped (free_async_stopped env)) (modify (\<lambda>s. s\<lparr>sch_async_stopped := []\<rparr>)))) (\<lambda>_. well_queued)"
    by (rule gentle_step [OF gentle.pure(3) preserved_well_queued],
        rule gentle_run [OF gentle.for_each [OF gentle_stopped] preserved_well_queued])
      (auto simp: hoare_def wp_modify well_queued_def queued_refs_def)
  show ?thesis
    unfolding free_finished_seq_groups_def
    by (rule hoare_gets, rule hoare_bind [OF hoare_remaining_running], rule hoare_andthen [OF _ stopped])
      (auto simp: hoare_def wp_modify intro: well_queued_subseq)
qed

section \<open>An engine for the examples\<close>

text \<open>The second request needs more blocks than there are; the first asks for more sequences than a step may run.\<close>

definition example_prompt :: "int \<Rightarrow> int list \<Rightarrow> mm_sequence" where
  "example_prompt i tokens = (case seq_init i \<lparr>in_prompt_token_ids = tokens, in_encoder_prompt_token_ids = None,
     in_multi_modal_data = None, in_encoder_multi_modal_data = None\<rparr> 2 None None True of Inr q \<Rightarrow> q)"

definition example_env :: env where
  "example_env = \<lparr>en_config = \<lparr>sc_max_num_batched_tokens = 64, sc_max_num_seqs = 1, sc_max_model_len = 4096,
      sc_chunked_prefill_enabled = True, sc_is_multi_step = False, sc_num_lookahead_slots = 0,
      sc_delay_factor = 0, sc_enable_prefix_caching = False, sc_block_size = 2\<rparr>,
    en_num_scheduler_steps = 1, en_send_delta_data = False, en_policy = ''fcfs'', en_preemption_mode = None,
    en_max_loras = None, en_artificial_preemption = False, en_callback = None, en_sha = (\<lambda>_. []),
    en_repr = (\<lambda>_. []), en_lora = (\<lambda>_. None), en_prompt_adapter = (\<lambda>_. None), en_long_lora = (\<lambda>_. None),
    en_time = rat_of_nat, en_coin = (\<lambda>_. False), en_fresh = (\<lambda>_. [])\<rparr>"

definition example_groups :: "gref \<Rightarrow> mm_group" where
  "example_groups r = (if r = 0 then sg_init ''a'' [example_prompt 0 [5, 6, 7]] 0 (Some 2) None None 0
     else sg_init ''b'' [example_prompt 1 [1, 2, 3, 4, 5, 6, 7, 8, 9]] 0 None None None 0)"

definition example_scheduler :: "bytes \<Rightarrow> scheduler" where
  "example_scheduler runtime = \<lparr>sch_block_manager = example_manager runtime, sch_groups = example_groups,
     sch_waiting = [1, 0], sch_running = [], sch_swapped = [], sch_finished_requests_ids = [],
     sch_gdn_prefix_policy = (case gdn_policy_init ''off'' of Inr p \<Rightarrow> p), sch_gdn_restore_mode = ''direct'',
     sch_gdn_replay_alignment = 2, sch_gdn_request_restore_keys = [], sch_gdn_request_capture_targets = [],
     sch_delay = \<lparr>ds_prev_time = 0, ds_prev_prompt = False, ds_last_prompt_latency = 0\<rparr>,
     sch_artificial_preempt_cnt = 0, sch_num_cumulative_preemption = 0, sch_async_stopped = [], sch_ticks = 0,
     sch_pass = empty_pass (new_budget 0 0) None\<rparr>"

lemma example_callback: "callback_ok example_env"
  by (simp add: callback_ok_def example_env_def)

lemma example_well_queued: "well_queued (example_scheduler runtime)"
  by (simp add: well_queued_def queued_refs_def example_scheduler_def group_ok_def) code_simp

text \<open>
  C3: no loop of the scheduler runs for ever. The loops over the running, the swapped and the waiting queue
  take a group from their queue in every round that does not leave the loop, also when preemptions
  put groups elsewhere; the inner loop that makes room for a group takes a victim from the running queue in
  every round; and so does the loop that preempts by priority. So each of them is left, or has raised
  an exception, after one round more than its queue is long, whatever the block manager and the budget answer.
\<close>

theorem scheduling_loops_end:
  assumes "callback_ok env"
  shows "rounds (Suc (length (sch_running s))) (running_round env chunk) s \<noteq> None \<and>
    rounds (Suc (length (sch_swapped s))) (swapped_round env chunk) s \<noteq> None \<and>
    rounds (Suc (length (sch_waiting s))) (prefill_round env chunk) s \<noteq> None \<and>
    rounds (Suc (length (sch_running s))) (victim_round env r n chunk) s \<noteq> None \<and>
    rounds (Suc (length q)) (priority_round env r n k) (s, q, c) \<noteq> None"
proof (intro conjI)
  have no: "kept False env K H s" for K H s by (simp add: kept_def)
  show "rounds (Suc (length (sch_running s))) (running_round env chunk) s \<noteq> None"
    by (rule rounds_stop [OF hoare_running_round [OF assms] no])
  show "rounds (Suc (length (sch_swapped s))) (swapped_round env chunk) s \<noteq> None"
    by (rule rounds_stop [OF hoare_swapped_round no])
  show "rounds (Suc (length (sch_waiting s))) (prefill_round env chunk) s \<noteq> None"
    by (rule rounds_stop [OF hoare_prefill_round no])
  show "rounds (Suc (length (sch_running s))) (victim_round env r n chunk) s \<noteq> None"
    by (rule rounds_stop [where I = "kept False env {} (add_mset (Some RUNNING, r) {#})" and Q = "\<lambda>_ _. True"])
      (rule hoare_post [OF hoare_victim_round [OF assms]], auto simp: after_round_def kept_def split: option.splits)
qed (use priority_rounds_stop [of "(s, q, c)"] in simp)

lemma scheduling_loops_end_witness:
  "rounds 1 (running_round example_env True) (example_scheduler []) \<noteq> None \<and>
   rounds 1 (swapped_round example_env True) (example_scheduler []) \<noteq> None \<and>
   rounds 3 (prefill_round example_env True) (example_scheduler []) \<noteq> None"
  using scheduling_loops_end [OF example_callback, of "example_scheduler []" True]
  by (simp add: example_scheduler_def eval_nat_numeral del: rounds.simps)

section \<open>The engine's calls\<close>

lemma queued_all: "well_queued s \<Longrightarrow> queued env (set (queued_refs s)) s"
  by (simp add: queued_iff)

lemma schedule_result:
  assumes "callback_ok env" "sc_chunked_prefill_enabled (en_config env) \<or> en_policy env \<noteq> ''priority''"
    and "well_queued s" "schedule env s = (Inr (metadata, out, allow_async), t)"
  shows "after_step env (set (queued_refs s)) out t"
  using hoare_returns [OF hoare_schedule [OF assms(1,2)] queued_all [OF assms(3)] assms(4)] by simp

lemma schedule_keeps_queues:
  assumes "callback_ok env" "sc_chunked_prefill_enabled (en_config env) \<or> en_policy env \<noteq> ''priority''"
    and "well_queued s" "schedule env s = (Inr (metadata, out, allow_async), t)"
  shows "well_queued t"
  using schedule_result [OF assms] unfolding after_step_def good_queues by blast

text \<open>
  C1: a step loses and duplicates no request. When \<open>schedule\<close> returns, every group is in exactly one of the
  queues, or in the list of the groups that the step ignores because they can never be served, and no group
  comes from elsewhere; without asynchronous output processing nothing is missing: the groups before are
  those that are queued after the step and those that it ignored. In each queue the unfinished sequences have
  the status of that queue, so a preempted group waits with its sequences \<open>WAITING\<close>, and what was swapped out
  is \<open>SWAPPED\<close>. With priority scheduling this is not shown, see \<open>preempt_ignores_its_mode\<close>.
\<close>

theorem schedule_keeps_groups:
  assumes "callback_ok env" "sc_chunked_prefill_enabled (en_config env) \<or> en_policy env \<noteq> ''priority''"
    and "well_queued s" "schedule env s = (Inr (metadata, out, allow_async), t)"
  shows "well_queued t \<and> distinct (queued_refs t @ out_ignored_seq_groups out) \<and>
    set (queued_refs t @ out_ignored_seq_groups out) \<subseteq> set (queued_refs s) \<and>
    (en_callback env = None \<longrightarrow> set (queued_refs t @ out_ignored_seq_groups out) = set (queued_refs s))"
  using schedule_result [OF assms] unfolding after_step_def good_queues by (cases "en_callback env = None") auto

lemma example_step:
  "case schedule example_env (example_scheduler runtime) of
     (Inl e, t) \<Rightarrow> False
   | (Inr (metadata, out, allow_async), t) \<Rightarrow> out_ignored_seq_groups out = [1] \<and> sch_waiting t = [0]"
  by code_simp

lemma schedule_keeps_groups_witness:
  "\<exists>metadata out allow_async t. schedule example_env (example_scheduler []) = (Inr (metadata, out, allow_async), t) \<and>
     sch_waiting t = [0] \<and> well_queued t \<and> set (queued_refs t @ out_ignored_seq_groups out) = {0, 1}"
proof -
  obtain metadata out allow_async t where
    t: "schedule example_env (example_scheduler []) = (Inr (metadata, out, allow_async), t)" "sch_waiting t = [0]"
    using example_step [of "[]"] by (auto split: prod.splits sum.splits)
  from schedule_keeps_groups [OF example_callback _ example_well_queued t(1)] t show ?thesis
    by (auto simp: example_env_def example_scheduler_def queued_refs_def)
qed

text \<open>
  What happens to the scheduler of an engine: requests arrive, are aborted and are scheduled, the outputs of
  a step are processed, which changes the groups but moves none (\<open>gentle\<close>), and finished groups are freed.
\<close>

inductive engine_reaches :: "env \<Rightarrow> scheduler \<Rightarrow> bool" for env where
  Init: "sch_init env os_environ num_gpu_blocks num_cpu_blocks sliding_window pipeline_parallel_size artificial groups = Inr s \<Longrightarrow>
    engine_reaches env s"
| Add: "engine_reaches env s \<Longrightarrow> r \<notin> set (queued_refs s) \<Longrightarrow> group_ok (Some WAITING) g \<Longrightarrow>
    add_seq_group r (s\<lparr>sch_groups := (sch_groups s)(r := g)\<rparr>) = (Inr (), t) \<Longrightarrow> engine_reaches env t"
| Abort: "engine_reaches env s \<Longrightarrow> abort_seq_group env ids s = (Inr (), t) \<Longrightarrow> engine_reaches env t"
| Schedule: "engine_reaches env s \<Longrightarrow> schedule env s = (Inr step, t) \<Longrightarrow> engine_reaches env t"
| Outputs: "engine_reaches env s \<Longrightarrow> gentle s t \<Longrightarrow> engine_reaches env t"
| Free: "engine_reaches env s \<Longrightarrow> free_finished_seq_groups env s = (Inr (), t) \<Longrightarrow> engine_reaches env t"

lemma init_well_queued:
  assumes "sch_init env os_environ n m w k a groups = Inr s"
  shows "well_queued s"
  using assms by (auto simp: sch_init_def Let_def ebind_Inr_iff well_queued_def queued_refs_def)

lemma add_well_queued:
  assumes "well_queued s" "r \<notin> set (queued_refs s)" "group_ok (Some WAITING) g"
    and "add_seq_group r (s\<lparr>sch_groups := (sch_groups s)(r := g)\<rparr>) = (Inr (), t)"
  shows "well_queued t"
  using assms by (auto simp: add_seq_group_def modify_def well_queued_def queued_refs_def)

text \<open>
  C2: the queues are typed by the status of the sequences. Assumed: chunked prefill is on or the policy is not
  "priority" (preemption by priority mixes the queues, as \<open>preempt_ignores_its_mode\<close> shows), and the callback of
  asynchronous output processing moves no group between queues (\<open>callback_ok\<close>, proved for the output processor).
  Then after every sequence of calls that return (construction, arrivals of new waiting groups, aborts, steps of
  \<open>schedule\<close>, outputs that only extend or finish sequences, frees) no group is in two queues or twice in one,
  and the sequences of a group that are not finished have exactly the status of the queue that holds it. A
  group also keeps its own invariant (distinct sequence ids, which its dictionary lists), on which the
  shortcuts of its methods depend. Nothing is claimed after a call that raises.
\<close>

theorem engine_keeps_queues_typed:
  assumes "callback_ok env" "sc_chunked_prefill_enabled (en_config env) \<or> en_policy env \<noteq> ''priority''"
    and "engine_reaches env s"
  shows "well_queued s"
  using assms(3)
proof induction
  case (Init os_environ n m w k a groups s)
  then show ?case by (rule init_well_queued)
next
  case (Add s r g t)
  then show ?case using add_well_queued by blast
next
  case (Abort s ids t)
  then show ?case using abort_keeps_queues by blast
next
  case (Schedule s step t)
  obtain metadata out allow_async where "step = (metadata, out, allow_async)" by (cases step)
  then show ?case using schedule_keeps_queues [OF assms(1,2) Schedule.IH] Schedule.hyps by blast
next
  case (Outputs s t)
  then show ?case using preserved_well_queued unfolding preserved_def by blast
next
  case (Free s t)
  then show ?case using hoare_returns [OF hoare_free_finished] by blast
qed

lemma example_init: "\<not> isl (sch_init example_env [] 4 2 None 1 False example_groups)"
proof -
  obtain r where r: "build_runtime_cache_namespace (\<lambda>_. []) [] 2 = Inr r" using runtime_namespace_default by blast
  have "\<not> isl (cg_create [] ''naive'' 4 2 2)" by code_simp
  then obtain c where c: "cg_create [] ''naive'' 4 2 2 = Inr c" by (cases "cg_create [] ''naive'' 4 2 2") auto
  have p: "gdn_cache_policy_from_env [] = Inr ''fine32''" "gdn_restore_mode_from_env [] = Inr ''direct''"
    by code_simp+
  have m: "gdn_policy_init ''fine32'' = Inr \<lparr>gp_policy = ''fine32'', gp_capacity = 32, gp_resident = []\<rparr>"
    "gdn_restore_alignment ''direct'' 2 64 = Inr 2"
    by (simp_all add: gdn_policy_init_def VALID_POLICIES_def gdn_restore_alignment_def echeck_def)
  show ?thesis
    by (simp add: sch_init_def Let_def per_stage_def example_env_def bm_init_def block_sliding_window_def r c p m)
qed

lemma engine_keeps_queues_typed_witness:
  "\<exists>s. engine_reaches example_env s \<and> sch_waiting s = [0] \<and> well_queued s"
proof -
  obtain s where s: "sch_init example_env [] 4 2 None 1 False example_groups = Inr s"
    using example_init by (cases "sch_init example_env [] 4 2 None 1 False example_groups") auto
  have empty: "queued_refs s = []" using s by (auto simp: sch_init_def Let_def ebind_Inr_iff queued_refs_def)
  have ok: "group_ok (Some WAITING) (example_groups 0)" using example_well_queued [of "[]"]
    by (simp add: well_queued_def example_scheduler_def)
  let ?t = "s\<lparr>sch_groups := (sch_groups s)(0 := example_groups 0), sch_waiting := [0]\<rparr>"
  have "engine_reaches example_env ?t"
    by (rule engine_reaches.Add [OF engine_reaches.Init [OF s] _ ok])
      (use empty in \<open>simp_all add: add_seq_group_def modify_def queued_refs_def\<close>)
  moreover from engine_keeps_queues_typed [OF example_callback _ this] have "well_queued ?t"
    by (simp add: example_env_def)
  ultimately show ?thesis by (intro exI [of _ ?t]) simp
qed

lemma one_queue: "well_queued s \<Longrightarrow> r \<in> set (queue name s) \<Longrightarrow> r \<in> set (queue name' s) \<Longrightarrow> name = name'"
  by (cases name; cases name'; auto simp: well_queued_def queued_refs_def)

abbreviation request_of :: "scheduler \<Rightarrow> gref \<Rightarrow> string" where
  "request_of s r \<equiv> sg_request_id (sch_groups s r)"

text \<open>What aborting the requests \<open>ids\<close> in the queues \<open>names\<close> does.\<close>

definition aborts :: "queue_name list \<Rightarrow> string set \<Rightarrow> scheduler \<Rightarrow> scheduler \<Rightarrow> bool" where
  "aborts names ids s t \<longleftrightarrow>
     (\<forall>name. queue name t = (if name \<in> set names then filter (\<lambda>r. request_of s r \<notin> ids) (queue name s) else queue name s)) \<and>
     (\<forall>r. sch_groups t r = (if request_of s r \<in> ids \<and> (\<exists>name \<in> set names. r \<in> set (queue name s))
       then abort_all (sch_groups s r) else sch_groups s r)) \<and>
     sch_finished_requests_ids t = sch_finished_requests_ids s @
       map (request_of s) (filter (\<lambda>r. request_of s r \<in> ids) (concat (map (\<lambda>name. queue name s) names))) \<and>
     sch_gdn_request_restore_keys t = sch_gdn_request_restore_keys s \<and>
     sch_gdn_request_capture_targets t = sch_gdn_request_capture_targets s"

lemma abort_picked_aborts:
  assumes "distinct names" "well_queued s" "inj_on (request_of s) (set (queued_refs s))"
  shows "aborts names ids s (abort_picked names ids s)"
  using assms
proof (induction names arbitrary: s ids)
  case (Cons name names)
  let ?rid = "request_of s" and ?q = "queue name s"
  let ?rs = "filter (\<lambda>r. ?rid r \<in> ids) ?q" and ?ids = "ids - ?rid ` set ?q"
  let ?s = "abort_from name ?rs s"
  have d: "distinct ?q" "distinct ?rs" using Cons.prems(2) queue_in_refs(2) by (simp_all add: well_queued_def)
  have inj: "inj_on ?rid (set ?q)" by (rule inj_on_subset [OF Cons.prems(3) queue_in_refs(1)])
  note view = abort_from_view [OF d(2,1)]
  have rid: "request_of ?s r = ?rid r" for r by (simp add: view(2))
  have wq: "well_queued ?s" by (rule well_queued_abort_from [OF Cons.prems(2) _ d(2)]) auto
  have "set (queued_refs ?s) \<subseteq> set (queued_refs s)"
    using view(1) [of Waiting] view(1) [of Running] view(1) [of Swapped] view(4)
    by (auto simp: queued_refs_def split: if_splits)
  then have inj': "inj_on (request_of ?s) (set (queued_refs ?s))"
    unfolding rid using Cons.prems(3) inj_on_subset by blast
  have others: "queue n ?s = queue n s" "r \<in> set (queue n s) \<Longrightarrow> ?rid r \<in> ?ids \<longleftrightarrow> ?rid r \<in> ids"
    "r \<in> set (queue n s) \<Longrightarrow> r \<notin> set ?rs" if "n \<in> set names" for n r
  proof -
    have n: "n \<noteq> name" using that Cons.prems(1) by auto
    show "queue n ?s = queue n s" using n by (simp add: view(1))
    assume r: "r \<in> set (queue n s)"
    then have "x \<noteq> r" if "x \<in> set ?q" for x using that one_queue [OF Cons.prems(2)] n by blast
    then show "r \<notin> set ?rs" by auto
    have "?rid x \<noteq> ?rid r" if "x \<in> set ?q" for x
      using \<open>\<And>x. x \<in> set ?q \<Longrightarrow> x \<noteq> r\<close> [OF that] that r Cons.prems(3) queue_in_refs(1) unfolding inj_on_def by blast
    then show "?rid r \<in> ?ids \<longleftrightarrow> ?rid r \<in> ids" by force
  qed
  have t: "abort_picked (name # names) ids s = abort_picked names ?ids ?s"
    by (simp add: pick_aborted_eq [OF inj d(1)])
  have concat: "map ?rid (filter (\<lambda>r. ?rid r \<in> ?ids) (concat (map (\<lambda>n. queue n ?s) names))) =
      map ?rid (filter (\<lambda>r. ?rid r \<in> ids) (concat (map (\<lambda>n. queue n s) names)))"
  proof -
    have same: "map (\<lambda>n. queue n ?s) names = map (\<lambda>n. queue n s) names" using others(1) by (rule map_cong [OF refl])
    have "filter (\<lambda>r. ?rid r \<in> ?ids) (concat (map (\<lambda>n. queue n s) names)) =
        filter (\<lambda>r. ?rid r \<in> ids) (concat (map (\<lambda>n. queue n s) names))"
    proof (rule filter_cong [OF refl])
      fix r
      assume "r \<in> set (concat (map (\<lambda>n. queue n s) names))"
      then obtain n where "n \<in> set names" "r \<in> set (queue n s)" by auto
      then show "?rid r \<in> ?ids \<longleftrightarrow> ?rid r \<in> ids" by (rule others(2))
    qed
    then show ?thesis unfolding same by (rule arg_cong)
  qed
  have IH: "aborts names ?ids ?s (abort_picked names ?ids ?s)" using Cons.IH [OF _ wq inj'] Cons.prems(1) by simp
  show ?case
    unfolding aborts_def t
  proof (intro conjI allI)
    let ?t = "abort_picked names ?ids ?s"
    note IH' = IH [unfolded aborts_def rid]
    have "sch_finished_requests_ids ?t = sch_finished_requests_ids ?s @
        map ?rid (filter (\<lambda>r. ?rid r \<in> ?ids) (concat (map (\<lambda>n. queue n ?s) names)))" using IH' by blast
    then show "sch_finished_requests_ids ?t = sch_finished_requests_ids s @
        map ?rid (filter (\<lambda>r. ?rid r \<in> ids) (concat (map (\<lambda>n. queue n s) (name # names))))"
      unfolding concat view(3) by simp
    show "sch_gdn_request_restore_keys ?t = sch_gdn_request_restore_keys s" using IH' view(5) by simp
    show "sch_gdn_request_capture_targets ?t = sch_gdn_request_capture_targets s" using IH' view(6) by simp
    fix n r
    have n: "queue n ?t = (if n \<in> set names then filter (\<lambda>r. ?rid r \<notin> ?ids) (queue n ?s) else queue n ?s)"
      using IH' by blast
    show "queue n ?t = (if n \<in> set (name # names) then filter (\<lambda>r. ?rid r \<notin> ids) (queue n s) else queue n s)"
    proof (cases "n \<in> set names")
      case True
      then show ?thesis using n others(1,2) [OF True] by (auto intro: filter_cong)
    next
      case False
      then show ?thesis using n by (auto simp: view(1) intro: filter_cong)
    qed
    have r: "sch_groups ?t r = (if ?rid r \<in> ?ids \<and> (\<exists>n \<in> set names. r \<in> set (queue n ?s))
        then abort_all (sch_groups ?s r) else sch_groups ?s r)" using IH' by blast
    show "sch_groups ?t r = (if ?rid r \<in> ids \<and> (\<exists>n \<in> set (name # names). r \<in> set (queue n s))
        then abort_all (sch_groups s r) else sch_groups s r)"
    proof (cases "\<exists>n \<in> set names. r \<in> set (queue n s)")
      case True
      then obtain n where n: "n \<in> set names" "r \<in> set (queue n s)" by blast
      then have "\<exists>n \<in> set names. r \<in> set (queue n ?s)" using others(1) by (intro bexI [of _ n]) simp_all
      moreover have "sch_groups ?s r = sch_groups s r" using others(3) [OF n] by (simp only: view(2) if_False)
      moreover have "\<exists>n \<in> set (name # names). r \<in> set (queue n s)" using n by auto
      ultimately show ?thesis unfolding r others(2) [OF n] by simp
    next
      case False
      then have "\<not> (\<exists>n \<in> set names. r \<in> set (queue n ?s))" using others(1) by simp
      then have "sch_groups ?t r = sch_groups ?s r" unfolding r by (simp only: simp_thms if_False)
      moreover have "(\<exists>n \<in> set (name # names). r \<in> set (queue n s)) \<longleftrightarrow> r \<in> set ?q" using False by auto
      ultimately show ?thesis by (simp only: view(2) set_filter mem_Collect_eq conj_commute)
    qed
  qed
qed (simp add: aborts_def)

text \<open>
  C4: aborting takes exactly the requested groups out of the queues. When the ids of the queued requests are
  distinct and \<open>abort_seq_group\<close> returns, each queue has kept the groups that were not named, in their order;
  the ids of the named ones are reported as finished, queue by queue; all their sequences are finished; and
  the other groups are as before. The entries of the aborted requests in the two tables of GDN checkpoints are
  left behind.
\<close>

theorem abort_removes_requests:
  assumes "well_queued s" "inj_on (request_of s) (set (queued_refs s))" "abort_seq_group env ids s = (Inr (), t)"
  shows "queue name t = filter (\<lambda>r. request_of s r \<notin> set ids) (queue name s) \<and>
    sch_finished_requests_ids t = sch_finished_requests_ids s @ map (request_of s)
      (filter (\<lambda>r. request_of s r \<in> set ids) (sch_waiting s @ sch_running s @ sch_swapped s)) \<and>
    (r \<in> set (queue name s) \<and> request_of s r \<in> set ids \<longrightarrow> list_all seq_is_finished (sg_seqs (sch_groups t r))) \<and>
    (request_of s r \<notin> set ids \<longrightarrow> sch_groups t r = sch_groups s r) \<and>
    sch_gdn_request_restore_keys t = sch_gdn_request_restore_keys s \<and>
    sch_gdn_request_capture_targets t = sch_gdn_request_capture_targets s"
proof -
  have "upto_blocks (abort_picked [Waiting, Running, Swapped] (set ids) s) t" (is "upto_blocks ?a t")
    by (rule abort_result [OF assms(1,3)])
  then obtain b where t: "t = ?a\<lparr>sch_block_manager := b\<rparr>" by (rule upto_blocksE)
  have a: "aborts [Waiting, Running, Swapped] (set ids) s ?a"
    by (rule abort_picked_aborts [OF _ assms(1,2)]) simp
  have q: "queue name t = queue name ?a" unfolding t by (cases name) simp_all
  have n: "name \<in> set [Waiting, Running, Swapped]" by (cases name) simp_all
  show ?thesis
    using a n unfolding aborts_def q
    by (auto simp: t abort_all_def list_all_iff seq_is_finished_def finished_aborted simp del: abort_picked.simps)
qed

lemma abort_removes_requests_witness:
  "\<exists>t. abort_seq_group example_env [''b'', ''c''] (example_scheduler []) = (Inr (), t) \<and> sch_waiting t = [0] \<and>
     sch_finished_requests_ids t = [''b'']"
proof -
  have "fst (abort_seq_group example_env [''b'', ''c''] (example_scheduler [])) = Inr ()" by code_simp
  then obtain t where t: "abort_seq_group example_env [''b'', ''c''] (example_scheduler []) = (Inr (), t)"
    by (metis prod.collapse)
  have ids: "request_of (example_scheduler []) 0 = ''a''" "request_of (example_scheduler []) 1 = ''b''"
    by (simp_all add: example_scheduler_def example_groups_def sg_init_def)
  then have "inj_on (request_of (example_scheduler [])) (set (queued_refs (example_scheduler [])))"
    by (simp add: queued_refs_def example_scheduler_def)
  from abort_removes_requests [OF example_well_queued this t, of Waiting] t ids show ?thesis
    by (auto simp: example_scheduler_def)
qed

text \<open>
  \<open>_preempt\<close> does not look at the mode that it is given: priority preemption asks for \<open>RECOMPUTE\<close>, puts the
  victim in the waiting queue and drops the blocks to swap out, also when \<open>_preempt\<close> has swapped the victim.
\<close>

lemma preempt_ignores_its_mode: "preempt env r preemption_mode = preempt env r None"
  by (simp add: preempt_def)

end
