(* ===== verification/SamplingParams.thy ===== *)
theory SamplingParams
  imports Prelude
begin

text \<open>
  \<^verbatim>\<open>vllm/sampling_params.py\<close>: the parameters of a request, what \<open>__post_init__\<close> makes of them and which it
  refuses, and the stop tokens that the generation config of the model adds. Floats are rationals. The fields
  that only the sampler reads (logits processors, guided decoding, logit bias, allowed tokens) are left out.
  The order of \<open>list(set)\<close> is a parameter.
\<close>

section \<open>State\<close>

datatype output_kind = CUMULATIVE | DELTA | FINAL_ONLY

datatype sampling_type = GREEDY | RANDOM | RANDOM_SEED

text \<open>\<open>stop\<close> is missing, a string or a list; a number of log probabilities may be given as \<open>True\<close>.\<close>

datatype stop_arg = NoStop | StopText string | StopList "string list"

datatype count_arg = CountTrue | Count int

record sampling_params =
  sp_n :: int
  sp_best_of :: "int option"
  sp_real_n :: "int option"
  sp_presence_penalty :: rat
  sp_frequency_penalty :: rat
  sp_repetition_penalty :: rat
  sp_temperature :: rat
  sp_top_p :: rat
  sp_top_k :: int
  sp_min_p :: rat
  sp_seed :: "int option"
  sp_stop :: stop_arg
  sp_stop_token_ids :: "int list option"
  sp_ignore_eos :: bool
  sp_max_tokens :: "int option"
  sp_min_tokens :: int
  sp_logprobs :: "count_arg option"
  sp_prompt_logprobs :: "count_arg option"
  sp_detokenize :: bool
  sp_skip_special_tokens :: bool
  sp_spaces_between_special_tokens :: bool
  sp_include_stop_str_in_output :: bool
  sp_truncate_prompt_tokens :: "int option"
  sp_output_kind :: output_kind
  sp_output_text_buffer_length :: int
  sp_all_stop_token_ids :: "int set"
  sp_prompt_logprob_positions :: "int list option"

definition SAMPLING_EPS :: rat where
  "SAMPLING_EPS = 1 / 100000"

definition MAX_TEMP :: rat where
  "MAX_TEMP = 1 / 100"

definition default_params :: sampling_params where
  "default_params = \<lparr>sp_n = 1, sp_best_of = None, sp_real_n = None, sp_presence_penalty = 0, sp_frequency_penalty = 0,
     sp_repetition_penalty = 1, sp_temperature = 1, sp_top_p = 1, sp_top_k = -1, sp_min_p = 0, sp_seed = None,
     sp_stop = NoStop, sp_stop_token_ids = None, sp_ignore_eos = False, sp_max_tokens = Some 16, sp_min_tokens = 0,
     sp_logprobs = None, sp_prompt_logprobs = None, sp_detokenize = True, sp_skip_special_tokens = True,
     sp_spaces_between_special_tokens = True, sp_include_stop_str_in_output = False, sp_truncate_prompt_tokens = None,
     sp_output_kind = CUMULATIVE, sp_output_text_buffer_length = 0, sp_all_stop_token_ids = {},
     sp_prompt_logprob_positions = None\<rparr>"

text \<open>The fields after \<open>__post_init__\<close>, which makes both of them lists.\<close>

definition stop_strings :: "sampling_params \<Rightarrow> string list" where
  "stop_strings p = (case sp_stop p of NoStop \<Rightarrow> [] | StopText s \<Rightarrow> [s] | StopList xs \<Rightarrow> xs)"

definition stop_tokens :: "sampling_params \<Rightarrow> int list" where
  "stop_tokens p = (case sp_stop_token_ids p of None \<Rightarrow> [] | Some xs \<Rightarrow> xs)"

fun count_of :: "count_arg \<Rightarrow> int" where
  "count_of CountTrue = 1"
| "count_of (Count n) = n"

section \<open>Validation\<close>

definition positions_ok :: "int list \<Rightarrow> bool" where
  "positions_ok xs \<longleftrightarrow> xs \<noteq> [] \<and> list_all (\<lambda>x. 0 < x) xs \<and> xs = sorted_list_of_set (set xs)"

definition verify_args :: "sampling_params \<Rightarrow> exn + unit" where
  "verify_args p =
     echeck ValueError (1 \<le> sp_n p)
    (echeck ValueError (-2 \<le> sp_presence_penalty p \<and> sp_presence_penalty p \<le> 2)
    (echeck ValueError (-2 \<le> sp_frequency_penalty p \<and> sp_frequency_penalty p \<le> 2)
    (echeck ValueError (0 < sp_repetition_penalty p \<and> sp_repetition_penalty p \<le> 2)
    (echeck ValueError (0 \<le> sp_temperature p)
    (echeck ValueError (0 < sp_top_p p \<and> sp_top_p p \<le> 1)
    (echeck ValueError (\<not> (sp_top_k p < -1 \<or> sp_top_k p = 0))
    (echeck ValueError (0 \<le> sp_min_p p \<and> sp_min_p p \<le> 1)
    (echeck ValueError (\<forall>m \<in> set_option (sp_max_tokens p). 1 \<le> m)
    (echeck ValueError (0 \<le> sp_min_tokens p)
    (echeck ValueError (\<forall>m \<in> set_option (sp_max_tokens p). sp_min_tokens p \<le> m)
    (echeck ValueError (\<forall>n \<in> set_option (sp_logprobs p). 0 \<le> count_of n)
    (echeck ValueError (\<forall>n \<in> set_option (sp_prompt_logprobs p). 0 \<le> count_of n)
    (echeck ValueError (\<forall>xs \<in> set_option (sp_prompt_logprob_positions p). sp_prompt_logprobs p \<noteq> None \<and> positions_ok xs)
    (echeck ValueError (\<forall>n \<in> set_option (sp_truncate_prompt_tokens p). 1 \<le> n)
    (echeck ValueError (list_all (\<lambda>s. s \<noteq> []) (stop_strings p))
    (echeck ValueError (\<not> (stop_strings p \<noteq> [] \<and> \<not> sp_detokenize p))
    (echeck ValueError (\<not> (sp_best_of p \<noteq> sp_real_n p \<and> sp_output_kind p = DELTA))
       (Inr ()))))))))))))))))))"

definition verify_greedy_sampling :: "sampling_params \<Rightarrow> exn + unit" where
  "verify_greedy_sampling p = echeck ValueError (\<not> 1 < sp_n p) (Inr ())"

section \<open>Construction\<close>

definition take_best_of :: "sampling_params \<Rightarrow> exn + sampling_params" where
  "take_best_of p = (case sp_best_of p of
     None \<Rightarrow> Inr p
   | Some best_of \<Rightarrow>
       if best_of = 0 then Inr p
       else echeck ValueError (\<not> best_of < sp_n p) (Inr (p\<lparr>sp_real_n := Some (sp_n p), sp_n := best_of\<rparr>)))"

definition normalize_args :: "sampling_params \<Rightarrow> sampling_params" where
  "normalize_args p =
     (let p = (if 0 < sp_temperature p \<and> sp_temperature p < MAX_TEMP
               then p\<lparr>sp_temperature := max (sp_temperature p) MAX_TEMP\<rparr> else p);
          p = p\<lparr>sp_seed := if sp_seed p = Some (-1) then None else sp_seed p\<rparr>;
          p = p\<lparr>sp_stop := StopList (stop_strings p)\<rparr>;
          p = p\<lparr>sp_stop_token_ids := Some (stop_tokens p)\<rparr>;
          p = p\<lparr>sp_logprobs := map_option (Count \<circ> count_of) (sp_logprobs p)\<rparr>;
          p = p\<lparr>sp_prompt_logprobs := map_option (Count \<circ> count_of) (sp_prompt_logprobs p)\<rparr>
      in if stop_strings p \<noteq> [] \<and> \<not> sp_include_stop_str_in_output p
         then p\<lparr>sp_output_text_buffer_length := Max (set (map (int \<circ> length) (stop_strings p))) - 1\<rparr> else p)"

definition sp_post_init :: "sampling_params \<Rightarrow> exn + sampling_params" where
  "sp_post_init p =
     ebind (take_best_of p) (\<lambda>p.
     let p = normalize_args p in
     ebind (verify_args p) (\<lambda>_.
     ebind (if sp_temperature p < SAMPLING_EPS then
         let p = p\<lparr>sp_top_p := 1, sp_top_k := -1, sp_min_p := 0\<rparr>
         in ebind (verify_greedy_sampling p) (\<lambda>_. Inr p)
       else Inr p) (\<lambda>p.
     Inr (p\<lparr>sp_all_stop_token_ids := set (stop_tokens p)\<rparr>))))"

text \<open>
  The arguments of \<open>from_optional\<close> that may be \<open>None\<close> although the field is a number; the others are taken over,
  and the fields that are not arguments have their defaults.
\<close>

definition from_optional :: "int option \<Rightarrow> rat option \<Rightarrow> rat option \<Rightarrow> rat option \<Rightarrow> rat option \<Rightarrow> rat option
    \<Rightarrow> sampling_params \<Rightarrow> exn + sampling_params" where
  "from_optional n presence_penalty frequency_penalty repetition_penalty temperature top_p others =
     (let default = (\<lambda>d x. case x of None \<Rightarrow> d | Some y \<Rightarrow> y)
      in sp_post_init (others\<lparr>sp_n := (case n of None \<Rightarrow> 1 | Some n \<Rightarrow> n),
           sp_presence_penalty := default 0 presence_penalty, sp_frequency_penalty := default 0 frequency_penalty,
           sp_repetition_penalty := default 1 repetition_penalty, sp_temperature := default 1 temperature,
           sp_top_p := default 1 top_p, sp_real_n := None, sp_output_text_buffer_length := 0,
           sp_all_stop_token_ids := {}\<rparr>))"

section \<open>The generation config\<close>

datatype eos_arg = OneEos int | ManyEos "int list"

definition update_from_generation_config :: "(int set \<Rightarrow> int list) \<Rightarrow> eos_arg option \<Rightarrow> int option
    \<Rightarrow> sampling_params \<Rightarrow> sampling_params" where
  "update_from_generation_config list_of eos_token_id model_eos_token_id p =
     (let p = (case model_eos_token_id of None \<Rightarrow> p
               | Some e \<Rightarrow> p\<lparr>sp_all_stop_token_ids := insert e (sp_all_stop_token_ids p)\<rparr>)
      in case eos_token_id of
        None \<Rightarrow> p
      | Some arg \<Rightarrow>
          let eos_ids = (case arg of OneEos e \<Rightarrow> {e} | ManyEos es \<Rightarrow> set es);
              eos_ids = (case model_eos_token_id of None \<Rightarrow> eos_ids | Some e \<Rightarrow> eos_ids - {e})
          in if eos_ids = {} then p
             else
               let p = p\<lparr>sp_all_stop_token_ids := sp_all_stop_token_ids p \<union> eos_ids\<rparr>
               in if sp_ignore_eos p then p
                  else p\<lparr>sp_stop_token_ids := Some (list_of (eos_ids \<union> set (stop_tokens p)))\<rparr>)"

definition get_sampling_type :: "sampling_params \<Rightarrow> sampling_type" where
  "get_sampling_type p =
     (if sp_temperature p < SAMPLING_EPS then GREEDY
      else if sp_seed p \<noteq> None then RANDOM_SEED
      else RANDOM)"

section \<open>What is accepted\<close>

definition sp_valid :: "sampling_params \<Rightarrow> bool" where
  "sp_valid p \<longleftrightarrow> 1 \<le> sp_n p \<and> 0 \<le> sp_temperature p \<and> (sp_temperature p = 0 \<or> MAX_TEMP \<le> sp_temperature p) \<and>
     0 < sp_top_p p \<and> sp_top_p p \<le> 1 \<and> (sp_top_k p = -1 \<or> 1 \<le> sp_top_k p) \<and> 0 \<le> sp_min_p p \<and> sp_min_p p \<le> 1 \<and>
     0 \<le> sp_min_tokens p \<and> (\<forall>m. sp_max_tokens p = Some m \<longrightarrow> 1 \<le> m \<and> sp_min_tokens p \<le> m) \<and>
     sp_stop p = StopList (stop_strings p) \<and> [] \<notin> set (stop_strings p) \<and>
     (stop_strings p \<noteq> [] \<longrightarrow> sp_detokenize p) \<and>
     sp_all_stop_token_ids p = set (stop_tokens p) \<and>
     (get_sampling_type p = GREEDY \<longleftrightarrow> sp_temperature p = 0) \<and>
     (get_sampling_type p = GREEDY \<longrightarrow> sp_n p = 1 \<and> sp_top_p p = 1 \<and> sp_top_k p = -1 \<and> sp_min_p p = 0)"

text \<open>The ranges of the fields that the sampler and the log probabilities use.\<close>

definition sp_in_range :: "sampling_params \<Rightarrow> bool" where
  "sp_in_range p \<longleftrightarrow> sp_presence_penalty p \<in> {-2..2} \<and> sp_frequency_penalty p \<in> {-2..2} \<and>
     sp_repetition_penalty p \<in> {0<..2} \<and> (\<forall>k. sp_logprobs p = Some k \<longrightarrow> 0 \<le> count_of k \<and> k \<noteq> CountTrue) \<and>
     (\<forall>k. sp_prompt_logprobs p = Some k \<longrightarrow> 0 \<le> count_of k \<and> k \<noteq> CountTrue) \<and>
     (\<forall>xs. sp_prompt_logprob_positions p = Some xs \<longrightarrow> sp_prompt_logprobs p \<noteq> None \<and> xs \<noteq> [] \<and>
        (\<forall>x \<in> set xs. 0 < x) \<and> sorted_wrt (<) xs) \<and>
     (\<forall>k. sp_truncate_prompt_tokens p = Some k \<longrightarrow> 1 \<le> k) \<and> sp_seed p \<noteq> Some (-1)"

text \<open>The numbers of sequences: \<open>n\<close> were asked for, \<open>sp_n\<close> are generated.\<close>

definition sp_counts :: "int \<Rightarrow> sampling_params \<Rightarrow> bool" where
  "sp_counts n p \<longleftrightarrow>
     (if sp_best_of p = None \<or> sp_best_of p = Some 0 then sp_n p = n \<and> sp_real_n p = None
      else sp_best_of p = Some (sp_n p) \<and> sp_real_n p = Some n \<and> n \<le> sp_n p) \<and>
     (sp_output_kind p = DELTA \<longrightarrow> sp_best_of p = sp_real_n p)"

definition held_back :: "sampling_params \<Rightarrow> int" where
  "held_back p = (if stop_strings p = [] \<or> sp_include_stop_str_in_output p then 0
     else Max (set (map (int \<circ> length) (stop_strings p))) - 1)"

definition buffer_fits :: "sampling_params \<Rightarrow> bool" where
  "buffer_fits p \<longleftrightarrow> 0 \<le> sp_output_text_buffer_length p \<and>
     (if sp_include_stop_str_in_output p then sp_output_text_buffer_length p = 0
      else \<forall>s \<in> set (stop_strings p). int (length s) \<le> sp_output_text_buffer_length p + 1)"

lemma echeck_Inr [simp]: "echeck e b r = Inr x \<longleftrightarrow> b \<and> r = Inr x"
  by (simp add: echeck_def)

lemma stop_fields [simp]:
  "stop_strings (p\<lparr>sp_top_p := a\<rparr>) = stop_strings p" "stop_strings (p\<lparr>sp_top_k := k\<rparr>) = stop_strings p"
  "stop_strings (p\<lparr>sp_min_p := a\<rparr>) = stop_strings p" "stop_strings (p\<lparr>sp_all_stop_token_ids := ids\<rparr>) = stop_strings p"
  "stop_tokens (p\<lparr>sp_top_p := a\<rparr>) = stop_tokens p" "stop_tokens (p\<lparr>sp_top_k := k\<rparr>) = stop_tokens p"
  "stop_tokens (p\<lparr>sp_min_p := a\<rparr>) = stop_tokens p" "stop_tokens (p\<lparr>sp_all_stop_token_ids := ids\<rparr>) = stop_tokens p"
  by (simp_all add: stop_strings_def stop_tokens_def)

lemma buffer_fits_fields [simp]:
  "buffer_fits (p\<lparr>sp_top_p := a\<rparr>) = buffer_fits p" "buffer_fits (p\<lparr>sp_top_k := k\<rparr>) = buffer_fits p"
  "buffer_fits (p\<lparr>sp_min_p := a\<rparr>) = buffer_fits p" "buffer_fits (p\<lparr>sp_all_stop_token_ids := ids\<rparr>) = buffer_fits p"
  by (simp_all add: buffer_fits_def)

lemma accepted_fields [simp]:
  "sp_in_range (p\<lparr>sp_top_p := a\<rparr>) = sp_in_range p"
  "sp_in_range (p\<lparr>sp_top_k := k\<rparr>) = sp_in_range p"
  "sp_in_range (p\<lparr>sp_min_p := a\<rparr>) = sp_in_range p"
  "sp_in_range (p\<lparr>sp_all_stop_token_ids := ids\<rparr>) = sp_in_range p"
  "held_back (p\<lparr>sp_top_p := a\<rparr>) = held_back p"
  "held_back (p\<lparr>sp_top_k := k\<rparr>) = held_back p"
  "held_back (p\<lparr>sp_min_p := a\<rparr>) = held_back p"
  "held_back (p\<lparr>sp_all_stop_token_ids := ids\<rparr>) = held_back p"
  "sp_counts n (p\<lparr>sp_top_p := a\<rparr>) = sp_counts n p"
  "sp_counts n (p\<lparr>sp_top_k := k\<rparr>) = sp_counts n p"
  "sp_counts n (p\<lparr>sp_min_p := a\<rparr>) = sp_counts n p"
  "sp_counts n (p\<lparr>sp_all_stop_token_ids := ids\<rparr>) = sp_counts n p"
  by (simp_all add: sp_in_range_def held_back_def sp_counts_def)

lemma normalized_fields [simp]:
  "sp_n (normalize_args p) = sp_n p" "sp_detokenize (normalize_args p) = sp_detokenize p"
  "stop_strings (normalize_args p) = stop_strings p" "stop_tokens (normalize_args p) = stop_tokens p" "sp_stop (normalize_args p) = StopList (stop_strings p)"
  "sp_include_stop_str_in_output (normalize_args p) = sp_include_stop_str_in_output p"
  "sp_output_text_buffer_length (normalize_args p) = (if stop_strings p \<noteq> [] \<and> \<not> sp_include_stop_str_in_output p
     then Max (set (map (int \<circ> length) (stop_strings p))) - 1 else sp_output_text_buffer_length p)"
  by (simp_all add: normalize_args_def Let_def stop_strings_def stop_tokens_def)

lemma normalized_ranges [simp]:
  "sp_presence_penalty (normalize_args p) = sp_presence_penalty p"
  "sp_frequency_penalty (normalize_args p) = sp_frequency_penalty p"
  "sp_repetition_penalty (normalize_args p) = sp_repetition_penalty p"
  "sp_logprobs (normalize_args p) = map_option (Count \<circ> count_of) (sp_logprobs p)"
  "sp_prompt_logprobs (normalize_args p) = map_option (Count \<circ> count_of) (sp_prompt_logprobs p)"
  "sp_prompt_logprob_positions (normalize_args p) = sp_prompt_logprob_positions p"
  "sp_truncate_prompt_tokens (normalize_args p) = sp_truncate_prompt_tokens p"
  "sp_seed (normalize_args p) = (if sp_seed p = Some (-1) then None else sp_seed p)"
  "sp_best_of (normalize_args p) = sp_best_of p" "sp_real_n (normalize_args p) = sp_real_n p"
  "sp_output_kind (normalize_args p) = sp_output_kind p"
  by (simp_all add: normalize_args_def Let_def)

lemma taken_fields:
  assumes "take_best_of p = Inr q" and "sp_real_n p = None"
  shows "sp_output_text_buffer_length q = sp_output_text_buffer_length p"
    and "sp_output_kind q = DELTA \<longrightarrow> sp_best_of q = sp_real_n q \<Longrightarrow> sp_counts (sp_n p) q"
  using assms by (auto simp: take_best_of_def sp_counts_def split: option.splits if_splits)

lemma normalized_temperature:
  "0 \<le> sp_temperature (normalize_args p) \<Longrightarrow>
    sp_temperature (normalize_args p) = 0 \<or> MAX_TEMP \<le> sp_temperature (normalize_args p)"
  by (auto simp: normalize_args_def Let_def)

lemma positions_sorted: "positions_ok xs \<Longrightarrow> xs \<noteq> [] \<and> (\<forall>x \<in> set xs. 0 < x) \<and> sorted_wrt (<) xs"
  unfolding positions_ok_def
  by (metis list_all_iff strict_sorted_list_of_set)

lemma normalized_in_range: "verify_args (normalize_args q) = Inr () \<Longrightarrow> sp_in_range (normalize_args q)"
  using positions_sorted
  by (auto simp: verify_args_def sp_in_range_def)

lemma normalized_counts:
  "sp_counts n (normalize_args q) \<longleftrightarrow> sp_counts n q"
  by (simp add: sp_counts_def)

text \<open>What is held back is never less than a stop string that is not complete needs.\<close>

lemma held_back_fits:
  assumes "sp_output_text_buffer_length p = held_back p" and "[] \<notin> set (stop_strings p)"
  shows "buffer_fits p"
proof -
  have longest: "1 \<le> int (length s) \<and> int (length s) \<le> Max (set (map (int \<circ> length) (stop_strings p)))"
    if "s \<in> set (stop_strings p)" for s
    using that assms(2) by (auto simp: Suc_le_eq)
  then have "1 \<le> Max (set (map (int \<circ> length) (stop_strings p)))" if "stop_strings p \<noteq> []"
    using that by (metis hd_in_set order_trans)
  then show ?thesis using assms(1) longest by (auto simp: buffer_fits_def held_back_def)
qed

text \<open>The steps of the construction that accepts.\<close>

lemma post_init_accepts:
  assumes "sp_post_init p0 = Inr p"
  obtains q where "take_best_of p0 = Inr q" "verify_args (normalize_args q) = Inr ()"
    "p = (if sp_temperature (normalize_args q) < SAMPLING_EPS
       then (normalize_args q)\<lparr>sp_top_p := 1, sp_top_k := -1, sp_min_p := 0, sp_all_stop_token_ids := set (stop_tokens q)\<rparr>
       else (normalize_args q)\<lparr>sp_all_stop_token_ids := set (stop_tokens q)\<rparr>)"
    "sp_temperature (normalize_args q) < SAMPLING_EPS \<longrightarrow> \<not> 1 < sp_n q"
  using assms that
  by (auto simp: sp_post_init_def ebind_Inr_iff Let_def verify_greedy_sampling_def split: if_splits)

text \<open>
  C40: the parameters of a request are validated. Whatever arguments \<open>from_optional\<close> is given, when it accepts
  them then all that \<open>_verify_args\<close> checks is in its range: the penalties, the temperature (0 or at least 0.01),
  top-p, top-k, min-p, the lengths, the numbers and positions of log probabilities and the truncation. Sampling is
  greedy exactly when the temperature is 0, and then one sequence is generated and nothing is cut off. No stop
  string is empty, and stop strings only come with detokenization; the stop tokens are those that the minimal
  length suppresses. The number of characters held back is exactly one less than the longest stop string, and 0
  without stop strings or when they are part of the output. With a \<open>best_of\<close> other than 0 that many sequences are
  generated and \<open>_real_n\<close> is the number asked for, otherwise the number asked for is generated; deltas are only
  accepted when \<open>best_of\<close> and \<open>_real_n\<close> are equal.
\<close>

theorem accepted_params_valid:
  assumes "from_optional n presence_penalty frequency_penalty repetition_penalty temperature top_p others = Inr p"
  shows "sp_valid p \<and> sp_in_range p \<and> sp_output_text_buffer_length p = held_back p \<and>
    sp_counts (case n of None \<Rightarrow> 1 | Some n \<Rightarrow> n) p"
proof -
  let ?others = "others\<lparr>sp_n := (case n of None \<Rightarrow> 1 | Some n \<Rightarrow> n),
    sp_presence_penalty := (case presence_penalty of None \<Rightarrow> 0 | Some y \<Rightarrow> y),
    sp_frequency_penalty := (case frequency_penalty of None \<Rightarrow> 0 | Some y \<Rightarrow> y),
    sp_repetition_penalty := (case repetition_penalty of None \<Rightarrow> 1 | Some y \<Rightarrow> y),
    sp_temperature := (case temperature of None \<Rightarrow> 1 | Some y \<Rightarrow> y), sp_top_p := (case top_p of None \<Rightarrow> 1 | Some y \<Rightarrow> y),
    sp_real_n := None, sp_output_text_buffer_length := 0, sp_all_stop_token_ids := {}\<rparr>"
  have "sp_post_init ?others = Inr p" using assms by (simp add: from_optional_def Let_def)
  then obtain q where q: "take_best_of ?others = Inr q" "verify_args (normalize_args q) = Inr ()"
    "p = (if sp_temperature (normalize_args q) < SAMPLING_EPS
       then (normalize_args q)\<lparr>sp_top_p := 1, sp_top_k := -1, sp_min_p := 0, sp_all_stop_token_ids := set (stop_tokens q)\<rparr>
       else (normalize_args q)\<lparr>sp_all_stop_token_ids := set (stop_tokens q)\<rparr>)"
    "sp_temperature (normalize_args q) < SAMPLING_EPS \<longrightarrow> \<not> 1 < sp_n q" by (rule post_init_accepts)
  have buffer: "sp_output_text_buffer_length (normalize_args q) = held_back (normalize_args q)"
    using taken_fields(1) [OF q(1)] by (simp add: held_back_def)
  have "sp_counts (case n of None \<Rightarrow> 1 | Some n \<Rightarrow> n) q"
    using taken_fields(2) [OF q(1)] q(2) by (auto simp: verify_args_def)
  then have counts: "sp_counts (case n of None \<Rightarrow> 1 | Some n \<Rightarrow> n) (normalize_args q)" by (simp add: normalized_counts)
  note range = normalized_in_range [OF q(2)]
  let ?r = "normalize_args q"
  have ranges: "1 \<le> sp_n ?r" "0 < sp_top_p ?r" "sp_top_p ?r \<le> 1" "\<not> (sp_top_k ?r < -1 \<or> sp_top_k ?r = 0)" "0 \<le> sp_min_p ?r"
    "sp_min_p ?r \<le> 1" "0 \<le> sp_min_tokens ?r" "\<forall>m \<in> set_option (sp_max_tokens ?r). 1 \<le> m"
    "\<forall>m \<in> set_option (sp_max_tokens ?r). sp_min_tokens ?r \<le> m" "list_all (\<lambda>s. s \<noteq> []) (stop_strings ?r)"
    "\<not> (stop_strings ?r \<noteq> [] \<and> \<not> sp_detokenize ?r)" "0 \<le> sp_temperature ?r"
    using q(2) by (simp_all add: verify_args_def)
  have nonempty: "[] \<notin> set (stop_strings q)" using ranges(10) by (auto simp: list_all_iff)
  have top_k: "sp_top_k ?r = -1 \<or> 1 \<le> sp_top_k ?r" using ranges(4) by linarith
  have t: "sp_temperature ?r = 0 \<or> MAX_TEMP \<le> sp_temperature ?r"
    using normalized_temperature ranges(12) by blast
  have greedy: "sp_temperature ?r < SAMPLING_EPS \<longleftrightarrow> sp_temperature ?r = 0"
    using t by (auto simp: SAMPLING_EPS_def MAX_TEMP_def)
  have "sp_valid p"
  proof (cases "sp_temperature ?r < SAMPLING_EPS")
    case True
    then have p: "p = ?r\<lparr>sp_top_p := 1, sp_top_k := -1, sp_min_p := 0, sp_all_stop_token_ids := set (stop_tokens q)\<rparr>"
      and zero: "sp_temperature ?r = 0" and one: "sp_n ?r = 1"
      using q(3,4) greedy ranges(1) by simp_all
    show ?thesis unfolding p sp_valid_def
      by (intro conjI allI impI) (use ranges nonempty zero one in \<open>simp_all add: get_sampling_type_def list_all_iff SAMPLING_EPS_def\<close>)
  next
    case False
    then have p: "p = ?r\<lparr>sp_all_stop_token_ids := set (stop_tokens q)\<rparr>" using q(3) by simp
    have "get_sampling_type p \<noteq> GREEDY" using False by (simp add: p get_sampling_type_def)
    then show ?thesis unfolding sp_valid_def
      by (intro conjI allI impI) (use ranges nonempty top_k t greedy False in \<open>simp_all add: p list_all_iff\<close>)
  qed
  moreover have "sp_in_range p" "sp_output_text_buffer_length p = held_back p" "sp_counts (case n of None \<Rightarrow> 1 | Some n \<Rightarrow> n) p"
    using range buffer counts unfolding q(3) by simp_all
  ultimately show ?thesis by blast
qed

definition example_params :: sampling_params where
  "example_params = default_params\<lparr>sp_stop := StopList [''b'', ''abc''], sp_stop_token_ids := Some [7],
     sp_best_of := Some 1\<rparr>"

lemma accepted_params_valid_witness:
  "\<exists>p. from_optional None None None (Some (3 / 2)) (Some 0) None example_params = Inr p \<and> sp_valid p \<and>
    sp_in_range p \<and> held_back p = 2 \<and> sp_counts 1 p \<and> sp_seed p = None \<and> get_sampling_type p = GREEDY"
proof -
  obtain p where p: "from_optional None None None (Some (3 / 2)) (Some 0) None example_params = Inr p"
    "sp_output_text_buffer_length p = 2" "sp_seed p = None" "get_sampling_type p = GREEDY"
    by (simp add: from_optional_def sp_post_init_def take_best_of_def normalize_args_def verify_args_def verify_greedy_sampling_def
        example_params_def default_params_def Let_def echeck_def stop_strings_def stop_tokens_def get_sampling_type_def
        SAMPLING_EPS_def MAX_TEMP_def)
  then show ?thesis using accepted_params_valid [OF p(1)] by (intro exI [of _ p]) simp
qed

text \<open>
  The range of \<open>n\<close> is checked after \<open>best_of\<close> has replaced it: a request for a negative number of sequences is
  accepted when it comes with a \<open>best_of\<close>, and the number that it asked for stays in \<open>_real_n\<close>.
\<close>

lemma best_of_hides_n:
  "\<exists>p. from_optional (Some (-3)) None None None None None (default_params\<lparr>sp_best_of := Some 2\<rparr>) = Inr p \<and>
    sp_n p = 2 \<and> sp_real_n p = Some (-3)"
  by (simp add: from_optional_def sp_post_init_def take_best_of_def normalize_args_def verify_args_def
      default_params_def Let_def echeck_def stop_strings_def stop_tokens_def SAMPLING_EPS_def MAX_TEMP_def)

end
