(* ===== verification/Detokenizer.thy ===== *)
theory Detokenizer
  imports SequenceGroup PyStrings SamplingParams
begin

text \<open>
  \<^verbatim>\<open>vllm/transformers_utils/detokenizer.py\<close>: from token ids to text, token by token. The tokenizer is a
  parameter; its tokens may be missing (\<open>None\<close>) for ids without a string. One of the characters stands for
  U+FFFD, with which an incomplete UTF-8 sequence is decoded.
\<close>

record tokenizer =
  tk_len :: int
  tk_convert_ids_to_tokens :: "int list \<Rightarrow> bool \<Rightarrow> string option list"
  tk_convert_tokens_to_string :: "string option list \<Rightarrow> string"
  tk_is_fast :: bool
  tk_added_vocab :: "string list"
  tk_all_special_tokens :: "string list"
  tk_replacement :: char

definition VLLM_INVALID_TOKEN_ID :: int where
  "VLLM_INVALID_TOKEN_ID = -1"

definition INITIAL_INCREMENTAL_DETOKENIZATION_OFFSET :: int where
  "INITIAL_INCREMENTAL_DETOKENIZATION_OFFSET = 5"

section \<open>Tokens and text\<close>

definition replace_none_with_empty :: "string option list \<Rightarrow> string option list" where
  "replace_none_with_empty = map (\<lambda>t. case t of None \<Rightarrow> Some [] | Some s \<Rightarrow> Some s)"

definition join :: "string \<Rightarrow> string list \<Rightarrow> string" where
  "join sep xs = (case xs of [] \<Rightarrow> [] | x # rest \<Rightarrow> x @ concat (map (\<lambda>y. sep @ y) rest))"

fun sub_texts :: "tokenizer \<Rightarrow> bool \<Rightarrow> string option list \<Rightarrow> string option list \<Rightarrow> string list" where
  "sub_texts tk skip_special_tokens [] current =
     (if current \<noteq> [] then [tk_convert_tokens_to_string tk current] else [])"
| "sub_texts tk skip_special_tokens (token # tokens) current =
     (if skip_special_tokens \<and> token \<in> Some ` set (tk_all_special_tokens tk)
      then sub_texts tk skip_special_tokens tokens current
      else case token of
        Some t \<Rightarrow>
          if t \<in> set (tk_added_vocab tk)
          then (if current \<noteq> [] then [tk_convert_tokens_to_string tk current] else []) @
            t # sub_texts tk skip_special_tokens tokens []
          else sub_texts tk skip_special_tokens tokens (current @ [token])
      | None \<Rightarrow> sub_texts tk skip_special_tokens tokens (current @ [token]))"

definition convert_tokens_to_string_with_added_encoders :: "tokenizer \<Rightarrow> sampling_params \<Rightarrow> string option list \<Rightarrow> string" where
  "convert_tokens_to_string_with_added_encoders tk prms output_tokens =
     join (if sp_spaces_between_special_tokens prms then '' '' else '''')
       (sub_texts tk (sp_skip_special_tokens prms) output_tokens [])"

definition convert_prompt_ids_to_tokens :: "tokenizer \<Rightarrow> int list \<Rightarrow> bool \<Rightarrow> string option list \<times> int \<times> int" where
  "convert_prompt_ids_to_tokens tk prompt_ids skip_special_tokens =
     (let new_tokens = tk_convert_ids_to_tokens tk
            (py_slice prompt_ids (Some (- INITIAL_INCREMENTAL_DETOKENIZATION_OFFSET - 2)) None) skip_special_tokens;
          read_offset = int (length new_tokens)
      in (replace_none_with_empty new_tokens, max (read_offset - INITIAL_INCREMENTAL_DETOKENIZATION_OFFSET) 0, read_offset))"

definition tokens_to_text :: "tokenizer \<Rightarrow> sampling_params \<Rightarrow> string option list \<Rightarrow> string" where
  "tokens_to_text tk prms tokens =
     (if tk_is_fast tk \<or> tk_added_vocab tk = [] then tk_convert_tokens_to_string tk tokens
      else convert_tokens_to_string_with_added_encoders tk prms tokens)"

definition detokenize_incrementally :: "tokenizer \<Rightarrow> sampling_params \<Rightarrow> int list \<Rightarrow> string option list option \<Rightarrow> int \<Rightarrow> int
    \<Rightarrow> exn + (string option list \<times> string \<times> int \<times> int)" where
  "detokenize_incrementally tk prms all_input_ids prev_tokens prefix_offset read_offset =
     echeck IndexError (all_input_ids \<noteq> [])
     (let new_token_id = last all_input_ids;
          (prev, prefix_offset, read_offset) = (case prev_tokens of
             None \<Rightarrow> convert_prompt_ids_to_tokens tk (butlast all_input_ids) (sp_skip_special_tokens prms)
           | Some prev \<Rightarrow> (prev, prefix_offset, read_offset));
          new_tokens = (if 0 \<le> new_token_id \<and> new_token_id < tk_len tk
             then tk_convert_ids_to_tokens tk [new_token_id] (sp_skip_special_tokens prms) else [Some []]);
          output_tokens = prev @ new_tokens;
          new_tokens = (if prev_tokens = None then output_tokens else new_tokens);
          prefix_text = tokens_to_text tk prms (py_slice output_tokens (Some prefix_offset) (Some read_offset));
          new_text = tokens_to_text tk prms (py_slice output_tokens (Some prefix_offset) None)
      in if length new_text \<le> length prefix_text \<or> last new_text = tk_replacement tk
         then Inr (new_tokens, [], prefix_offset, read_offset)
         else Inr (new_tokens, drop (length prefix_text) new_text, read_offset, int (length output_tokens)))"

section \<open>Detokenizer\<close>

text \<open>The texts of the candidates in the log probabilities of the new token.\<close>

fun decode_logprobs :: "(int \<Rightarrow> exn + string) \<Rightarrow> int \<Rightarrow> string \<Rightarrow> (int, logprob) dict \<Rightarrow> exn + (int, logprob) dict" where
  "decode_logprobs text_with generated new_text [] = Inr []"
| "decode_logprobs text_with generated new_text ((token_id, lp) # rest) =
     ebind (if token_id = generated then Inr (lp\<lparr>lp_decoded_token := Some new_text\<rparr>)
            else if lp_decoded_token lp = None \<and> token_id \<noteq> VLLM_INVALID_TOKEN_ID
            then ebind (text_with token_id) (\<lambda>text. Inr (lp\<lparr>lp_decoded_token := Some text\<rparr>))
            else Inr lp) (\<lambda>lp.
     ebind (decode_logprobs text_with generated new_text rest) (\<lambda>rest. Inr ((token_id, lp) # rest)))"

definition set_last :: "'a list \<Rightarrow> 'a \<Rightarrow> 'a list" where
  "set_last xs x = butlast xs @ [x]"

definition start_tokens :: "tokenizer \<Rightarrow> sampling_params \<Rightarrow> int list \<Rightarrow> 'mm sequence \<Rightarrow> 'mm sequence" where
  "start_tokens tk prms all_input_ids seq = (case sq_tokens seq of
     Some _ \<Rightarrow> seq
   | None \<Rightarrow> (case convert_prompt_ids_to_tokens tk (butlast all_input_ids) (sp_skip_special_tokens prms) of
       (tokens, prefix_offset, read_offset) \<Rightarrow>
         seq\<lparr>sq_tokens := Some tokens, sq_prefix_offset := prefix_offset, sq_read_offset := read_offset\<rparr>))"

definition decode_sequence_inplace :: "(int option \<Rightarrow> tokenizer) \<Rightarrow> sampling_params \<Rightarrow> ('mm sequence, int) py" where
  "decode_sequence_inplace tokenizer_of prms =
     bind (gets (\<lambda>seq. sd_cached_all_token_ids (sq_data seq))) (\<lambda>all_input_ids.
     andthen (guard IndexError (all_input_ids \<noteq> []))
    (bind (gets (\<lambda>seq. tokenizer_of (sq_lora_int_id seq))) (\<lambda>tk.
     andthen (modify (start_tokens tk prms all_input_ids))
    (bind (gets id) (\<lambda>seq.
     let decode = (\<lambda>ids. detokenize_incrementally tk prms ids (sq_tokens seq) (sq_prefix_offset seq) (sq_read_offset seq))
     in bind (lift_sum (decode all_input_ids)) (\<lambda>(new_tokens, new_text, prefix_offset, read_offset).
     andthen (guard IndexError (sq_output_logprobs seq \<noteq> []))
    (bind (lift_sum (decode_logprobs
        (\<lambda>token_id. ebind (decode (butlast all_input_ids @ [token_id])) (\<lambda>(_, text, _, _). Inr text))
        (last all_input_ids) new_text (last (sq_output_logprobs seq)))) (\<lambda>logprobs.
     andthen (modify (\<lambda>seq. seq\<lparr>sq_output_logprobs := set_last (sq_output_logprobs seq) logprobs,
         sq_tokens := map_option (\<lambda>tokens. tokens @ new_tokens) (sq_tokens seq),
         sq_prefix_offset := prefix_offset, sq_read_offset := read_offset,
         sq_output_text := sq_output_text seq @ new_text\<rparr>))
       (return (int (length new_text)))))))))))"

text \<open>
  The prompt. \<open>prev_tokens = next_iter_tokens\<close> makes the two names share one list until \<open>next_iter_tokens\<close> is
  assigned again; while they do (\<open>pr_shared\<close>), \<open>prev_tokens.extend(next_iter_tokens)\<close> changes both.
\<close>

record prompt_decoding =
  pr_prefix_offset :: int
  pr_read_offset :: int
  pr_next_prefix_offset :: int
  pr_next_read_offset :: int
  pr_next_tokens :: "string option list"
  pr_prev_tokens :: "string option list option"
  pr_shared :: bool

fun decode_candidates :: "tokenizer \<Rightarrow> sampling_params \<Rightarrow> int list \<Rightarrow> nat \<Rightarrow> (int, logprob) dict
    \<Rightarrow> (prompt_decoding, (int, logprob) dict) py" where
  "decode_candidates tk prms all_token_ids position [] = return []"
| "decode_candidates tk prms all_token_ids position ((token_id, lp) # rest) =
     bind (if lp_decoded_token lp = None \<and> token_id \<noteq> VLLM_INVALID_TOKEN_ID then
         bind (gets (\<lambda>d. detokenize_incrementally tk prms (take position (butlast all_token_ids) @ [token_id])
           (pr_prev_tokens d) (pr_prefix_offset d) (pr_read_offset d))) (\<lambda>result.
         bind (lift_sum result) (\<lambda>(new_tokens, new_text, new_prefix_offset, new_read_offset).
         andthen (guard IndexError (position < length all_token_ids))
        (andthen (if token_id = all_token_ids ! position
            then modify (\<lambda>d. d\<lparr>pr_next_prefix_offset := new_prefix_offset, pr_next_read_offset := new_read_offset,
              pr_next_tokens := new_tokens, pr_shared := False\<rparr>)
            else return ())
           (return (lp\<lparr>lp_decoded_token := Some new_text\<rparr>)))))
       else return lp) (\<lambda>lp.
     bind (decode_candidates tk prms all_token_ids position rest) (\<lambda>rest. return ((token_id, lp) # rest)))"

definition next_position :: "prompt_decoding \<Rightarrow> prompt_decoding" where
  "next_position d =
     (let d = d\<lparr>pr_prefix_offset := pr_next_prefix_offset d, pr_read_offset := pr_next_read_offset d\<rparr>
      in case pr_prev_tokens d of
        None \<Rightarrow> d\<lparr>pr_prev_tokens := Some (pr_next_tokens d), pr_shared := True\<rparr>
      | Some prev \<Rightarrow>
          let tokens = prev @ pr_next_tokens d
          in if pr_shared d then d\<lparr>pr_prev_tokens := Some tokens, pr_next_tokens := tokens\<rparr>
             else d\<lparr>pr_prev_tokens := Some tokens\<rparr>)"

fun decode_positions :: "tokenizer \<Rightarrow> sampling_params \<Rightarrow> int list \<Rightarrow> nat \<Rightarrow> (int, logprob) dict option list
    \<Rightarrow> (prompt_decoding, (int, logprob) dict option list) py" where
  "decode_positions tk prms all_token_ids position [] = return []"
| "decode_positions tk prms all_token_ids position (candidates # rest) =
     bind (if candidates = None \<or> candidates = Some [] then return candidates
       else bind (decode_candidates tk prms all_token_ids position (the candidates)) (\<lambda>decoded.
         andthen (modify next_position) (return (Some decoded)))) (\<lambda>candidates.
     bind (decode_positions tk prms all_token_ids (Suc position) rest) (\<lambda>rest. return (candidates # rest)))"

definition decode_prompt_logprobs_inplace :: "(int option \<Rightarrow> tokenizer) \<Rightarrow> sampling_params \<Rightarrow> 'mm sequence_group
    \<Rightarrow> (int, logprob) dict option list \<Rightarrow> nat \<Rightarrow> exn + (int, logprob) dict option list" where
  "decode_prompt_logprobs_inplace tokenizer_of prms seq_group prompt_logprobs position_offset =
     ebind (first_seq seq_group) (\<lambda>seq.
     fst (decode_positions (tokenizer_of (sq_lora_int_id seq)) prms (sd_cached_all_token_ids (sq_data seq))
       position_offset prompt_logprobs
       \<lparr>pr_prefix_offset = 0, pr_read_offset = 0, pr_next_prefix_offset = 0, pr_next_read_offset = 0,
        pr_next_tokens = [], pr_prev_tokens = None, pr_shared = False\<rparr>))"

section \<open>Nothing of the text is lost\<close>

text \<open>
  A decoder from bytes is a homomorphism wherever a text does not end in an incomplete character. The tokens
  that a run appends, and what was emitted for them.
\<close>

definition complete :: "tokenizer \<Rightarrow> string option list \<Rightarrow> bool" where
  "complete tk tokens \<longleftrightarrow> tk_convert_tokens_to_string tk tokens = [] \<or>
     last (tk_convert_tokens_to_string tk tokens) \<noteq> tk_replacement tk"

definition decodes_bytes :: "tokenizer \<Rightarrow> bool" where
  "decodes_bytes tk \<longleftrightarrow> (tk_is_fast tk \<or> tk_added_vocab tk = []) \<and> tk_convert_tokens_to_string tk [] = [] \<and>
     (\<forall>xs ys. complete tk xs \<longrightarrow> tk_convert_tokens_to_string tk (xs @ ys) =
        tk_convert_tokens_to_string tk xs @ tk_convert_tokens_to_string tk ys)"

definition new_tokens_of :: "tokenizer \<Rightarrow> sampling_params \<Rightarrow> int \<Rightarrow> string option list" where
  "new_tokens_of tk prms token_id = (if 0 \<le> token_id \<and> token_id < tk_len tk
     then tk_convert_ids_to_tokens tk [token_id] (sp_skip_special_tokens prms) else [Some []])"

definition append_and_decode :: "(int option \<Rightarrow> tokenizer) \<Rightarrow> sampling_params \<Rightarrow> int \<times> (int, logprob) dict \<Rightarrow> ('mm sequence, unit) py" where
  "append_and_decode tokenizer_of prms = (\<lambda>(token_id, logprobs).
     andthen (seq_append_token_id token_id logprobs)
       (bind (decode_sequence_inplace tokenizer_of prms) (\<lambda>_. return ())))"

text \<open>
  What holds between the steps. \<open>emitted\<close> are the tokens whose text is out, \<open>pending\<close> those whose text waits;
  the window from the prefix offset to the read offset is complete, so the text of its continuation is known.
\<close>

definition detok_inv :: "tokenizer \<Rightarrow> string option list \<Rightarrow> string option list \<Rightarrow> 'mm sequence \<Rightarrow> bool" where
  "detok_inv tk prompt tokens seq \<longleftrightarrow> (\<exists>before window emitted pending.
     sq_tokens seq = Some (prompt @ tokens) \<and> tokens = emitted @ pending \<and> prompt @ emitted = before @ window \<and>
     sq_prefix_offset seq = int (length before) \<and> sq_read_offset seq = int (length (prompt @ emitted)) \<and>
     complete tk window \<and> complete tk emitted \<and>
     sq_output_text seq = tk_convert_tokens_to_string tk emitted \<and>
     (tk_convert_tokens_to_string tk pending = [] \<or> last (tk_convert_tokens_to_string tk pending) = tk_replacement tk))"

text \<open>What decoding a token does to the sequence, besides the window.\<close>

definition decoded_from :: "'mm sequence \<Rightarrow> string \<Rightarrow> 'mm sequence \<Rightarrow> bool" where
  "decoded_from seq new seq' \<longleftrightarrow> sq_output_text seq' = sq_output_text seq @ new \<and> sq_lora_int_id seq' = sq_lora_int_id seq \<and>
     sq_status seq' = sq_status seq \<and> sq_last_output_text_offset seq' = sq_last_output_text_offset seq"

lemma detok_step:
  assumes tk: "decodes_bytes tk" and inv: "detok_inv tk prompt tokens seq" and ids: "ids \<noteq> []"
  obtains new_text prefix_offset read_offset where
    "detokenize_incrementally tk prms ids (sq_tokens seq) (sq_prefix_offset seq) (sq_read_offset seq) =
      Inr (new_tokens_of tk prms (last ids), new_text, prefix_offset, read_offset)"
    "\<And>lps. detok_inv tk prompt (tokens @ new_tokens_of tk prms (last ids)) (seq\<lparr>sq_output_logprobs := lps,
      sq_tokens := Some (prompt @ tokens @ new_tokens_of tk prms (last ids)), sq_prefix_offset := prefix_offset,
      sq_read_offset := read_offset, sq_output_text := sq_output_text seq @ new_text\<rparr>)"
proof -
  let ?conv = "tk_convert_tokens_to_string tk" and ?new = "new_tokens_of tk prms (last ids)"
  obtain before window emitted pending where st: "sq_tokens seq = Some (prompt @ tokens)" "tokens = emitted @ pending"
    "prompt @ emitted = before @ window" "sq_prefix_offset seq = int (length before)"
    "sq_read_offset seq = int (length (prompt @ emitted))" "complete tk window" "complete tk emitted"
    "sq_output_text seq = ?conv emitted" "?conv pending = [] \<or> last (?conv pending) = tk_replacement tk"
    using inv unfolding detok_inv_def by blast
  have hom: "?conv (xs @ ys) = ?conv xs @ ?conv ys" if "complete tk xs" for xs ys
    using tk that by (simp add: decodes_bytes_def)
  let ?rest = "pending @ ?new"
  have out: "prompt @ tokens @ ?new = before @ window @ ?rest" using st(2,3) by simp
  have windows: "py_slice (prompt @ tokens @ ?new) (Some (sq_prefix_offset seq)) (Some (sq_read_offset seq)) = window"
    "py_slice (prompt @ tokens @ ?new) (Some (sq_prefix_offset seq)) None = window @ ?rest"
    unfolding out st(3-5) by (simp_all add: py_slice_def slice_bound_def)
  have conv: "tokens_to_text tk prms = ?conv" using tk by (simp add: decodes_bytes_def tokens_to_text_def fun_eq_iff)
  have run: "detokenize_incrementally tk prms ids (sq_tokens seq) (sq_prefix_offset seq) (sq_read_offset seq) =
      (if ?conv ?rest = [] \<or> last (?conv ?rest) = tk_replacement tk
       then Inr (?new, [], sq_prefix_offset seq, sq_read_offset seq)
       else Inr (?new, ?conv ?rest, sq_read_offset seq, int (length (prompt @ tokens @ ?new))))"
    using ids windows st(1)
    by (simp add: detokenize_incrementally_def new_tokens_of_def [symmetric] Let_def conv hom [OF st(6)] echeck_def)
      (simp add: last_append)
  show thesis
  proof (cases "?conv ?rest = [] \<or> last (?conv ?rest) = tk_replacement tk")
    case True
    show thesis
    proof (rule that)
      show "detokenize_incrementally tk prms ids (sq_tokens seq) (sq_prefix_offset seq) (sq_read_offset seq) =
        Inr (?new, [], sq_prefix_offset seq, sq_read_offset seq)" using run True by simp
      show "detok_inv tk prompt (tokens @ ?new) (seq\<lparr>sq_output_logprobs := lps, sq_tokens := Some (prompt @ tokens @ ?new),
          sq_prefix_offset := sq_prefix_offset seq, sq_read_offset := sq_read_offset seq, sq_output_text := sq_output_text seq @ []\<rparr>)" for lps
        unfolding detok_inv_def
        by (rule exI [of _ before], rule exI [of _ window], rule exI [of _ emitted], rule exI [of _ ?rest])
          (use st True in simp)
    qed
  next
    case False
    show thesis
    proof (rule that)
      show "detokenize_incrementally tk prms ids (sq_tokens seq) (sq_prefix_offset seq) (sq_read_offset seq) =
        Inr (?new, ?conv ?rest, sq_read_offset seq, int (length (prompt @ tokens @ ?new)))" using run False by simp
      have "complete tk ?rest" "complete tk (emitted @ ?rest)"
        using False by (auto simp: complete_def hom [OF st(7)] last_append)
      moreover have "?conv [] = []" using tk by (simp add: decodes_bytes_def)
      ultimately show "detok_inv tk prompt (tokens @ ?new) (seq\<lparr>sq_output_logprobs := lps, sq_tokens := Some (prompt @ tokens @ ?new),
          sq_prefix_offset := sq_read_offset seq, sq_read_offset := int (length (prompt @ tokens @ ?new)),
          sq_output_text := sq_output_text seq @ ?conv ?rest\<rparr>)" for lps
        unfolding detok_inv_def
        by (intro exI [of _ "prompt @ emitted"] exI [of _ ?rest] exI [of _ "emitted @ ?rest"] exI [of _ "[]"])
          (use st hom [OF st(7), of ?rest] in simp)
    qed
  qed
qed

lemma decode_logprobs_returns:
  "(\<And>t. \<exists>text. text_with t = Inr text) \<Longrightarrow> \<exists>lps'. decode_logprobs text_with g new_text lps = Inr lps'"
proof (induction lps)
  case (Cons x lps)
  obtain t lp where x: "x = (t, lp)" by fastforce
  obtain new where "text_with t = Inr new" using Cons.prems by blast
  then show ?case using Cons by (auto simp: x)
qed simp

lemma decode_step:
  assumes tk: "tokenizer_of (sq_lora_int_id seq) = tk" "decodes_bytes tk" and inv: "detok_inv tk prompt tokens seq"
    and ids: "sd_cached_all_token_ids (sq_data seq) = ids" "ids \<noteq> []" and lps: "sq_output_logprobs seq \<noteq> []"
  shows "\<exists>new seq'. decode_sequence_inplace tokenizer_of prms seq = (Inr (int (length new)), seq') \<and>
    detok_inv tk prompt (tokens @ new_tokens_of tk prms (last ids)) seq' \<and> decoded_from seq new seq' \<and>
    sq_data seq' = sq_data seq"
proof -
  let ?decode = "\<lambda>ids. detokenize_incrementally tk prms ids (sq_tokens seq) (sq_prefix_offset seq) (sq_read_offset seq)"
  have toks: "sq_tokens seq = Some (prompt @ tokens)" using inv by (auto simp: detok_inv_def)
  obtain new_text p r where d: "?decode ids = Inr (new_tokens_of tk prms (last ids), new_text, p, r)"
    "\<And>lps. detok_inv tk prompt (tokens @ new_tokens_of tk prms (last ids)) (seq\<lparr>sq_output_logprobs := lps,
      sq_tokens := Some (prompt @ tokens @ new_tokens_of tk prms (last ids)), sq_prefix_offset := p,
      sq_read_offset := r, sq_output_text := sq_output_text seq @ new_text\<rparr>)"
    by (rule detok_step [OF tk(2) inv ids(2), of prms]) blast
  have "\<exists>x. ?decode (butlast ids @ [t]) = Inr x" for t
    by (rule detok_step [OF tk(2) inv, of "butlast ids @ [t]" prms]) auto
  then have "\<exists>x. ebind (?decode (butlast ids @ [t])) (\<lambda>(_, x, _, _). Inr x) = Inr x" for t
    by (metis (mono_tags, lifting) ebind_simps(2) case_prod_unfold)
  from decode_logprobs_returns [of "\<lambda>t. ebind (?decode (butlast ids @ [t])) (\<lambda>(_, x, _, _). Inr x)", OF this]
  obtain lps' where l: "decode_logprobs (\<lambda>t. ebind (?decode (butlast ids @ [t])) (\<lambda>(_, x, _, _). Inr x))
      (last ids) new_text (last (sq_output_logprobs seq)) = Inr lps'" by blast
  have start: "start_tokens tk prms ids seq = seq" using toks by (simp add: start_tokens_def)
  have "decode_sequence_inplace tokenizer_of prms seq = (Inr (int (length new_text)),
      seq\<lparr>sq_output_logprobs := set_last (sq_output_logprobs seq) lps',
        sq_tokens := Some (prompt @ tokens @ new_tokens_of tk prms (last ids)), sq_prefix_offset := p,
        sq_read_offset := r, sq_output_text := sq_output_text seq @ new_text\<rparr>)"
    by (simp add: decode_sequence_inplace_def py_defs lift_sum_def ids lps start d(1) l tk(1) Let_def) (simp add: toks)
  with d(2) show ?thesis by (fastforce simp: decoded_from_def)
qed

text \<open>Starting the tokens first makes no difference.\<close>

lemma decode_sequence_started:
  assumes "sd_cached_all_token_ids (sq_data seq) \<noteq> []"
  shows "decode_sequence_inplace tokenizer_of prms seq = decode_sequence_inplace tokenizer_of prms
    (start_tokens (tokenizer_of (sq_lora_int_id seq)) prms (sd_cached_all_token_ids (sq_data seq)) seq)"
proof -
  have steps: "bind (gets f) k s = k (f s) s" "andthen (modify g) m s = m (g s)"
    "andthen (guard e P) m s = (if P then m s else (Inl e, s))"
    for f :: "'a sequence \<Rightarrow> 'b" and k :: "'b \<Rightarrow> ('a sequence, 'c) py" and s g e P and m :: "('a sequence, 'c) py"
    by (simp_all add: py_defs)
  have fields: "sq_data (start_tokens tk prms ids s) = sq_data s" "sq_lora_int_id (start_tokens tk prms ids s) = sq_lora_int_id s"
    "start_tokens tk prms ids (start_tokens tk prms ids s) = start_tokens tk prms ids s" for tk ids and s :: "'a sequence"
    by (simp_all add: start_tokens_def split: option.split prod.split)
  show ?thesis
    using assms unfolding decode_sequence_inplace_def by (simp only: steps fields id_apply simp_thms if_True)
qed

text \<open>A step, also the first one, which starts the tokens.\<close>

lemma append_step:
  fixes seq :: "'mm sequence"
  assumes tk: "tokenizer_of (sq_lora_int_id seq) = tk" "decodes_bytes tk"
    and inv: "detok_inv tk prompt tokens (start_tokens tk prms (sd_cached_all_token_ids (sq_data seq) @ [token_id]) seq)"
    and t: "map_of lps token_id \<noteq> None" "fits_l token_id"
  shows "\<exists>seq1 new seq'. seq_append_token_id token_id lps seq = (Inr (), seq1) \<and>
    decode_sequence_inplace tokenizer_of prms seq1 = (Inr (int (length new)), seq') \<and>
    detok_inv tk prompt (tokens @ new_tokens_of tk prms token_id) seq' \<and> decoded_from seq new seq' \<and>
    sd_output_token_ids (sq_data seq') \<noteq> []"
proof -
  let ?ids = "sd_cached_all_token_ids (sq_data seq) @ [token_id]"
  obtain lp where lp: "map_of lps token_id = Some lp" using t(1) by auto
  obtain d where d: "sd_append_token_id token_id (lp_logprob lp) (sq_data seq) = (Inr (), d)" "sd_cached_all_token_ids d = ?ids"
    "sd_output_token_ids d \<noteq> []"
    using t(2) by (simp add: sd_append_token_id_def py_defs)
  let ?seq1 = "seq\<lparr>sq_output_logprobs := sq_output_logprobs seq @ [lps], sq_data := d\<rparr>"
  have append: "seq_append_token_id token_id lps seq = (Inr (), ?seq1)"
    using d(1) by (simp add: seq_append_token_id_def lp on_data_def zoom_def py_defs)
  define seq2 where "seq2 = start_tokens tk prms ?ids ?seq1"
  have fields: "sq_lora_int_id seq2 = sq_lora_int_id seq" "sq_data seq2 = d" "sq_output_logprobs seq2 \<noteq> []"
    "sq_output_text seq2 = sq_output_text seq" "sq_status seq2 = sq_status seq"
    "sq_last_output_text_offset seq2 = sq_last_output_text_offset seq"
    by (simp_all add: seq2_def start_tokens_def split: option.split prod.split)
  have "detok_inv tk prompt tokens seq2"
    using inv by (auto simp: seq2_def detok_inv_def start_tokens_def split: option.splits prod.splits)
  then obtain new seq' where run: "decode_sequence_inplace tokenizer_of prms seq2 = (Inr (int (length new)), seq')"
    "detok_inv tk prompt (tokens @ new_tokens_of tk prms token_id) seq'" "decoded_from seq2 new seq'" "sq_data seq' = d"
    using decode_step [of tokenizer_of seq2 tk prompt tokens ?ids prms] tk fields d(2) by auto
  have twice: "start_tokens tk prms ?ids seq2 = seq2"
    by (simp add: seq2_def start_tokens_def split: option.split prod.split)
  have "decode_sequence_inplace tokenizer_of prms ?seq1 = decode_sequence_inplace tokenizer_of prms seq2"
    using decode_sequence_started [of ?seq1 tokenizer_of prms] twice tk(1) d(2) by (simp add: seq2_def)
  moreover have "decoded_from seq new seq'" using run(3) fields by (simp add: decoded_from_def)
  ultimately show ?thesis using append run d(3) by metis
qed

lemma detok_inv_started: "detok_inv tk prompt tokens seq \<Longrightarrow> start_tokens tk prms ids seq = seq"
  by (auto simp: detok_inv_def start_tokens_def)

text \<open>A new sequence whose prompt does not end within a character.\<close>

definition fresh_for :: "tokenizer \<Rightarrow> sampling_params \<Rightarrow> string option list \<Rightarrow> 'mm sequence \<Rightarrow> bool" where
  "fresh_for tk prms prompt seq \<longleftrightarrow> sq_tokens seq = None \<and> sq_output_text seq = [] \<and>
     (\<exists>prefix_offset read_offset.
       convert_prompt_ids_to_tokens tk (sd_cached_all_token_ids (sq_data seq)) (sp_skip_special_tokens prms) =
         (prompt, prefix_offset, read_offset) \<and> complete tk (drop (nat prefix_offset) prompt))"

lemma fresh_inv:
  assumes "fresh_for tk prms prompt seq" "decodes_bytes tk"
  shows "detok_inv tk prompt [] (start_tokens tk prms (sd_cached_all_token_ids (sq_data seq) @ [token_id]) seq)"
proof -
  obtain p r where c: "convert_prompt_ids_to_tokens tk (sd_cached_all_token_ids (sq_data seq)) (sp_skip_special_tokens prms) =
      (prompt, p, r)" "complete tk (drop (nat p) prompt)"
    and f: "sq_tokens seq = None" "sq_output_text seq = []"
    using assms(1) by (auto simp: fresh_for_def)
  have conv: "tk_convert_tokens_to_string tk [] = []" using assms(2) by (simp add: decodes_bytes_def)
  have offsets: "r = int (length prompt)" "p = int (length (take (nat p) prompt))"
    using c(1)
    by (auto simp: convert_prompt_ids_to_tokens_def Let_def replace_none_with_empty_def INITIAL_INCREMENTAL_DETOKENIZATION_OFFSET_def)
  show ?thesis
    unfolding detok_inv_def
    by (rule exI [of _ "take (nat p) prompt"], rule exI [of _ "drop (nat p) prompt"], rule exI [of _ "[]"], rule exI [of _ "[]"])
      (use c f offsets conv in \<open>simp add: start_tokens_def complete_def\<close>)
qed

lemma append_steps:
  assumes "tokenizer_of (sq_lora_int_id seq) = tk" "decodes_bytes tk" "detok_inv tk prompt tokens seq"
    and "list_all (\<lambda>(token_id, lps). map_of lps token_id \<noteq> None \<and> fits_l token_id) steps"
  shows "\<exists>seq'. for_each steps (append_and_decode tokenizer_of prms) seq = (Inr (), seq') \<and>
    detok_inv tk prompt (tokens @ concat (map (\<lambda>(token_id, _). new_tokens_of tk prms token_id) steps)) seq'"
  using assms
proof (induction steps arbitrary: seq tokens)
  case (Cons step steps)
  obtain token_id lps where step: "step = (token_id, lps)" by fastforce
  have t: "map_of lps token_id \<noteq> None" "fits_l token_id" using Cons.prems(4) by (simp_all add: step)
  obtain s0 new s1 where s1: "seq_append_token_id token_id lps seq = (Inr (), s0)"
    "decode_sequence_inplace tokenizer_of prms s0 = (Inr (int (length new)), s1)"
    "detok_inv tk prompt (tokens @ new_tokens_of tk prms token_id) s1" "decoded_from seq new s1"
    using append_step [of tokenizer_of seq tk prompt tokens prms token_id lps] Cons.prems t
      detok_inv_started [OF Cons.prems(3)] by metis
  from Cons.IH [of s1 "tokens @ new_tokens_of tk prms token_id"] Cons.prems s1 show ?case
    by (auto simp: step py_defs append_and_decode_def decoded_from_def)
qed (simp add: py_defs)

text \<open>
  C39: the text of a request is the text of its tokens. Let the tokenizer decode a homomorphism of bytes,
  wherever a text does not end in an incomplete character, as byte-level tokenizers do, and let the last tokens of
  the prompt be complete. Whatever tokens a new sequence is given, appending and decoding them never fails; and
  afterwards the output text followed by the text that is held back is exactly the text of all generated tokens,
  decoded at once. What is held back is empty or ends in an incomplete character.
\<close>

theorem detokenized_text_is_whole:
  assumes "tokenizer_of (sq_lora_int_id seq) = tk" "decodes_bytes tk" "fresh_for tk prms prompt seq" "steps \<noteq> []"
    and "list_all (\<lambda>(token_id, lps). map_of lps token_id \<noteq> None \<and> fits_l token_id) steps"
  shows "\<exists>seq' held_back. for_each steps (append_and_decode tokenizer_of prms) seq = (Inr (), seq') \<and>
    tk_convert_tokens_to_string tk (concat (map (\<lambda>(token_id, _). new_tokens_of tk prms token_id) steps)) =
      sq_output_text seq' @ held_back \<and> (held_back = [] \<or> last held_back = tk_replacement tk)"
proof -
  obtain token_id lps rest where steps: "steps = (token_id, lps) # rest" using assms(4) by (cases steps) auto
  have t: "map_of lps token_id \<noteq> None" "fits_l token_id" using assms(5) by (simp_all add: steps)
  obtain s0 new s1 where s1: "seq_append_token_id token_id lps seq = (Inr (), s0)"
    "decode_sequence_inplace tokenizer_of prms s0 = (Inr (int (length new)), s1)"
    "detok_inv tk prompt (new_tokens_of tk prms token_id) s1" "decoded_from seq new s1"
    using append_step [of tokenizer_of seq tk prompt "[]" prms token_id lps] fresh_inv [OF assms(3,2), of token_id] assms(1,2) t
    unfolding append_Nil by metis
  obtain seq' where s': "for_each rest (append_and_decode tokenizer_of prms) s1 = (Inr (), seq')"
    "detok_inv tk prompt (new_tokens_of tk prms token_id @ concat (map (\<lambda>(t, _). new_tokens_of tk prms t) rest)) seq'"
    using append_steps [of tokenizer_of s1 tk prompt "new_tokens_of tk prms token_id" rest prms] s1 assms by (auto simp: steps decoded_from_def)
  then obtain emitted pending where e: "new_tokens_of tk prms token_id @ concat (map (\<lambda>(t, _). new_tokens_of tk prms t) rest) =
      emitted @ pending" "complete tk emitted" "sq_output_text seq' = tk_convert_tokens_to_string tk emitted"
    "tk_convert_tokens_to_string tk pending = [] \<or> last (tk_convert_tokens_to_string tk pending) = tk_replacement tk"
    unfolding detok_inv_def by blast
  have one: "append_and_decode tokenizer_of prms (token_id, lps) seq = (Inr (), s1)"
    by (simp add: append_and_decode_def py_defs s1(1,2))
  have "for_each steps (append_and_decode tokenizer_of prms) seq = (Inr (), seq')"
    by (simp add: steps py_defs one s'(1))
  moreover have "tk_convert_tokens_to_string tk (emitted @ pending) =
      sq_output_text seq' @ tk_convert_tokens_to_string tk pending"
    using assms(2) e(2,3) by (simp add: decodes_bytes_def)
  ultimately show ?thesis using e(1,4) by (auto simp: steps)
qed

text \<open>A decoder in which \<open><>\<close> is a character of two bytes, and \<open>~\<close> stands for an incomplete one.\<close>

fun decode_pairs :: "string \<Rightarrow> string" where
  "decode_pairs [] = []"
| "decode_pairs [c] = [if c = CHR ''<'' then CHR ''~'' else c]"
| "decode_pairs (c # d # cs) =
     (if c = CHR ''<'' then if d = CHR ''>'' then CHR ''&'' # decode_pairs cs else CHR ''~'' # decode_pairs (d # cs)
      else c # decode_pairs (d # cs))"

definition example_tokenizer :: tokenizer where
  "example_tokenizer = \<lparr>tk_len = 4,
     tk_convert_ids_to_tokens = (\<lambda>ids skip. map (\<lambda>i. if i = 1 then Some ''<'' else if i = 2 then Some ''>b''
       else if i = 3 then None else Some ''a'') ids),
     tk_convert_tokens_to_string = (\<lambda>tokens. decode_pairs (concat (map (\<lambda>t. case t of None \<Rightarrow> [] | Some s \<Rightarrow> s) tokens))),
     tk_is_fast = True, tk_added_vocab = [], tk_all_special_tokens = [], tk_replacement = CHR ''~''\<rparr>"

definition example_generated :: "(int \<times> (int, logprob) dict) list" where
  "example_generated = map (\<lambda>t. (t, [(t, example_logprob), (0, example_logprob)])) [0, 1, 2, 9, 1]"

lemma decode_pairs_append:
  "decode_pairs xs = [] \<or> last (decode_pairs xs) \<noteq> CHR ''~'' \<Longrightarrow>
    decode_pairs (xs @ ys) = decode_pairs xs @ decode_pairs ys"
proof (induction xs rule: decode_pairs.induct)
  case (2 c)
  then show ?case by (cases ys) (auto split: if_splits)
next
  case (3 c d cs)
  then show ?case by (auto split: if_splits)
qed simp

lemma example_tokenizer_decodes: "decodes_bytes example_tokenizer"
  by (simp add: decodes_bytes_def complete_def example_tokenizer_def decode_pairs_append)

lemma detokenized_text_is_whole_witness:
  "\<exists>seq' held_back. for_each example_generated (append_and_decode (\<lambda>_. example_tokenizer) default_params)
      (example_seq 0) = (Inr (), seq') \<and>
    ''a&b~'' = sq_output_text seq' @ held_back \<and> (held_back = [] \<or> last held_back = CHR ''~'')"
proof -
  have start: "fresh_for example_tokenizer default_params [Some ''<'', Some ''>b''] (example_seq 0)"
    unfolding fresh_for_def by (intro conjI exI [of _ 0] exI [of _ 2]) code_simp+
  have steps: "example_generated \<noteq> []"
    "list_all (\<lambda>(token_id, lps). map_of lps token_id \<noteq> None \<and> fits_l token_id) example_generated"
    by (simp_all add: example_generated_def fits_l_def)
  have "tk_convert_tokens_to_string example_tokenizer
      (concat (map (\<lambda>(token_id, _). new_tokens_of example_tokenizer default_params token_id) example_generated)) = ''a&b~''"
    "tk_replacement example_tokenizer = CHR ''~''" by code_simp+
  then show ?thesis
    using detokenized_text_is_whole [where tokenizer_of = "\<lambda>_. example_tokenizer" and tk = example_tokenizer,
        OF refl example_tokenizer_decodes start steps] by simp
qed

end
