(* ===== verification/StopChecker.thy ===== *)
theory StopChecker
  imports Detokenizer
begin

text \<open>
  \<^verbatim>\<open>vllm/engine/output_processor/stop_checker.py\<close>: when a sequence is finished, and what is cut off from its
  text. The second part follows a streamed request from its tokens to the text that the client receives.
\<close>

section \<open>StopChecker\<close>

definition get_max_model_len :: "int \<Rightarrow> int option \<Rightarrow> int" where
  "get_max_model_len max_model_len long_lora_max_len = (case long_lora_max_len of
     None \<Rightarrow> max_model_len
   | Some n \<Rightarrow> if n = 0 then max_model_len else n)"

fun try_stop_strings :: "bool \<Rightarrow> int \<Rightarrow> string list \<Rightarrow> ('mm sequence, string option) py" where
  "try_stop_strings include_stop_str new_char_count [] = return None"
| "try_stop_strings include_stop_str new_char_count (stop_str # rest) =
     bind (gets (\<lambda>s. py_find_start (sq_output_text s) stop_str (- new_char_count - int (length stop_str)))) (\<lambda>stop_index.
     if stop_index = -1 then try_stop_strings include_stop_str new_char_count rest
     else
       let stop_index = (if include_stop_str then stop_index + int (length stop_str) else stop_index)
       in bind (gets (\<lambda>s. int (length (sq_output_text s)))) (\<lambda>text_len.
          if include_stop_str \<and> text_len \<le> stop_index then return (Some stop_str)
          else andthen (modify (\<lambda>s. s\<lparr>sq_output_text := slice_to (sq_output_text s) stop_index\<rparr>))
            (return (Some stop_str))))"

definition check_stop_strings :: "sampling_params \<Rightarrow> int \<Rightarrow> ('mm sequence, string option) py" where
  "check_stop_strings prms new_char_count =
     (if new_char_count = 0 then return None
      else try_stop_strings (sp_include_stop_str_in_output prms) new_char_count (stop_strings prms))"

text \<open>The text of the token that ends the sequence is removed unless the request wants it.\<close>

definition drop_last_text :: "sampling_params \<Rightarrow> int \<Rightarrow> ('mm sequence, unit) py" where
  "drop_last_text prms new_char_count =
     (if new_char_count \<noteq> 0 \<and> \<not> sp_include_stop_str_in_output prms
      then modify (\<lambda>s. s\<lparr>sq_output_text := slice_to (sq_output_text s) (- new_char_count)\<rparr>) else return ())"

definition finish :: "sequence_status \<Rightarrow> ('mm sequence, unit) py" where
  "finish status = modify (\<lambda>s. s\<lparr>sq_status := status\<rparr>)"

definition finish_with :: "stop_reason \<Rightarrow> ('mm sequence, unit) py" where
  "finish_with reason = andthen (finish FINISHED_STOPPED) (modify (\<lambda>s. s\<lparr>sq_stop_reason := Some reason\<rparr>))"

definition maybe_stop_sequence :: "int \<Rightarrow> sampling_params \<Rightarrow> int option \<Rightarrow> int \<Rightarrow> ('mm sequence, unit) py" where
  "maybe_stop_sequence max_model_len prms long_lora_max_len new_char_count =
     bind (gets (\<lambda>s. sd_get_output_len (sq_data s))) (\<lambda>output_len.
     if output_len < sp_min_tokens prms then return ()
     else
       bind (gets (\<lambda>s. sd_get_last_token_id (sq_data s))) (\<lambda>r.
       bind (lift_sum r) (\<lambda>last_token_id.
       bind (gets sq_eos_token_id) (\<lambda>eos_token_id.
       if \<not> sp_ignore_eos prms \<and> Some last_token_id = eos_token_id
       then andthen (drop_last_text prms new_char_count) (finish FINISHED_STOPPED)
       else if last_token_id \<in> set (stop_tokens prms)
       then andthen (drop_last_text prms new_char_count) (finish_with (StopToken last_token_id))
       else
         bind (check_stop_strings prms new_char_count) (\<lambda>stop_str. case stop_str of
           Some s \<Rightarrow> finish_with (StopString s)
         | None \<Rightarrow>
             bind (gets seq_get_len) (\<lambda>len.
             if get_max_model_len max_model_len long_lora_max_len < len then finish FINISHED_LENGTH_CAPPED
             else if Some output_len = sp_max_tokens prms then finish FINISHED_LENGTH_CAPPED
             else return ()))))))"

section \<open>The search for stop strings\<close>

lemma try_stop_strings_search:
  assumes "\<forall>s \<in> set stops. s \<noteq> [] \<and> \<not> py_in s old" "sq_output_text seq = old @ new"
  shows "try_stop_strings incl (int (length new)) stops seq = (case List.find (\<lambda>s. py_in s (old @ new)) stops of
     None \<Rightarrow> (Inr None, seq)
   | Some s \<Rightarrow> (Inr (Some s), seq\<lparr>sq_output_text :=
       take (the (sub_index s (old @ new)) + (if incl then length s else 0)) (old @ new)\<rparr>))"
  using assms(1)
proof (induction stops)
  case (Cons s stops)
  have w: "py_find_start (old @ new) s (- int (length new) - int (length s)) = py_find (old @ new) s"
    using Cons.prems by (intro find_in_window) auto
  show ?case
  proof (cases "sub_index s (old @ new)")
    case None
    then show ?thesis using Cons w by (simp add: bind_def gets_def assms(2) py_find_def py_in_def)
  next
    case (Some i)
    have same: "seq\<lparr>sq_output_text := old @ new\<rparr> = seq" using assms(2) by (cases seq) simp
    show ?thesis
      using Some w same by (simp add: py_defs assms(2) py_find_def py_in_def slice_to_def Let_def nat_add_distrib)
  qed
qed (simp add: py_defs)

lemma check_stop_strings_search:
  assumes "\<forall>s \<in> set (stop_strings prms). s \<noteq> [] \<and> \<not> py_in s old" "sq_output_text seq = old @ new"
  shows "check_stop_strings prms (int (length new)) seq = (case List.find (\<lambda>s. py_in s (old @ new)) (stop_strings prms) of
     None \<Rightarrow> (Inr None, seq)
   | Some s \<Rightarrow> (Inr (Some s), seq\<lparr>sq_output_text := take (the (sub_index s (old @ new)) +
       (if sp_include_stop_str_in_output prms then length s else 0)) (old @ new)\<rparr>))"
proof (cases "new = []")
  case True
  then have "List.find (\<lambda>s. py_in s (old @ new)) (stop_strings prms) = None" using assms(1) by (simp add: find_None_iff)
  then show ?thesis using True by (simp add: check_stop_strings_def return_def)
next
  case False
  then show ?thesis using try_stop_strings_search [OF assms] by (simp add: check_stop_strings_def)
qed

section \<open>Serving a request token by token\<close>

text \<open>
  \<^verbatim>\<open>single_step.py\<close>: the new token is decoded and the stop conditions are checked. Then the text for the
  client is taken, as \<open>RequestOutput\<close> does for a request that streams.
\<close>

definition detokenize_and_check :: "(int option \<Rightarrow> tokenizer) option \<Rightarrow> int \<Rightarrow> sampling_params \<Rightarrow> int option
    \<Rightarrow> ('mm sequence, unit) py" where
  "detokenize_and_check detokenizer max_model_len prms long_lora_max_len =
     bind (case detokenizer of
         Some tokenizer_of \<Rightarrow> if sp_detokenize prms then decode_sequence_inplace tokenizer_of prms else return 0
       | None \<Rightarrow> return 0) (maybe_stop_sequence max_model_len prms long_lora_max_len)"

definition serve_token :: "(int option \<Rightarrow> tokenizer) \<Rightarrow> int \<Rightarrow> sampling_params \<Rightarrow> int option
    \<Rightarrow> int \<times> (int, logprob) dict \<Rightarrow> ('mm sequence, string) py" where
  "serve_token tokenizer_of max_model_len prms long_lora_max_len = (\<lambda>(token_id, logprobs).
     andthen (seq_append_token_id token_id logprobs)
    (andthen (detokenize_and_check (Some tokenizer_of) max_model_len prms long_lora_max_len)
       (get_output_text_to_return (sp_output_text_buffer_length prms) True)))"

text \<open>What the client has received, when no further token is generated for a finished sequence.\<close>

fun serve :: "(int option \<Rightarrow> tokenizer) \<Rightarrow> int \<Rightarrow> sampling_params \<Rightarrow> int option
    \<Rightarrow> (int \<times> (int, logprob) dict) list \<Rightarrow> string \<Rightarrow> ('mm sequence, string) py" where
  "serve tokenizer_of max_model_len prms long_lora_max_len [] seen = return seen"
| "serve tokenizer_of max_model_len prms long_lora_max_len (step # steps) seen =
     bind (serve_token tokenizer_of max_model_len prms long_lora_max_len step) (\<lambda>new.
     bind (gets seq_is_finished) (\<lambda>finished.
     if finished then return (seen @ new)
     else serve tokenizer_of max_model_len prms long_lora_max_len steps (seen @ new)))"

lemma drop_last_run:
  assumes "sq_output_text seq = old @ new"
  shows "drop_last_text prms (int (length new)) seq =
    (Inr (), seq\<lparr>sq_output_text := if sp_include_stop_str_in_output prms then old @ new else old\<rparr>)"
proof -
  have same: "seq\<lparr>sq_output_text := old @ new\<rparr> = seq" using assms by (cases seq) simp
  show ?thesis
  proof (cases "new = []")
    case True
    then show ?thesis using same by (simp add: drop_last_text_def return_def)
  next
    case False
    then show ?thesis using assms same by (simp add: drop_last_text_def py_defs slice_to_def)
  qed
qed

text \<open>
  C38: when a sequence stops, and what is left of its text. Once the minimal length is reached, for a sequence
  whose text before the last token had no stop string: an end-of-sequence token or a stop token stops it and its text is
  taken off; otherwise the first of the stop strings, in the order of the request, that occurs anywhere in the text stops it, and the text
  is cut at its first occurrence, although only a window at the end of the text is searched; otherwise only a
  length limit finishes it; otherwise nothing changes.
\<close>

theorem stop_decision:
  assumes new: "sq_output_text seq = old @ new" and fresh: "\<forall>s \<in> set (stop_strings prms). s \<noteq> [] \<and> \<not> py_in s old"
    and len: "sp_min_tokens prms \<le> sd_get_output_len (sq_data seq)" "sd_output_token_ids (sq_data seq) \<noteq> []"
  shows "maybe_stop_sequence max_model_len prms long_lora_max_len (int (length new)) seq = (Inr (),
    let token = last (sd_output_token_ids (sq_data seq)); include = sp_include_stop_str_in_output prms;
        shortened = seq\<lparr>sq_output_text := if include then old @ new else old\<rparr>
    in if \<not> sp_ignore_eos prms \<and> sq_eos_token_id seq = Some token then shortened\<lparr>sq_status := FINISHED_STOPPED\<rparr>
       else if token \<in> set (stop_tokens prms)
       then shortened\<lparr>sq_status := FINISHED_STOPPED, sq_stop_reason := Some (StopToken token)\<rparr>
       else case List.find (\<lambda>s. sublist s (old @ new)) (stop_strings prms) of
         Some s \<Rightarrow> seq\<lparr>sq_output_text := take (the (sub_index s (old @ new)) + (if include then length s else 0)) (old @ new),
             sq_status := FINISHED_STOPPED, sq_stop_reason := Some (StopString s)\<rparr>
       | None \<Rightarrow>
           if get_max_model_len max_model_len long_lora_max_len < seq_get_len seq \<or>
              sp_max_tokens prms = Some (sd_get_output_len (sq_data seq))
           then seq\<lparr>sq_status := FINISHED_LENGTH_CAPPED\<rparr> else seq)"
proof -
  let ?t = "last (sd_output_token_ids (sq_data seq))"
  have t: "sd_get_last_token_id (sq_data seq) = Inr ?t" using len(2) by (simp add: sd_get_last_token_id_def)
  have min: "\<not> sd_get_output_len (sq_data seq) < sp_min_tokens prms" using len(1) by simp
  have eos: "Some ?t = sq_eos_token_id seq \<longleftrightarrow> sq_eos_token_id seq = Some ?t" by auto
  note defs = maybe_stop_sequence_def bind_def gets_def andthen_def lift_sum_def return_def finish_def finish_with_def modify_def
  consider "\<not> sp_ignore_eos prms" "sq_eos_token_id seq = Some ?t" | "\<not> sp_ignore_eos prms" "sq_eos_token_id seq \<noteq> Some ?t"
    | "sp_ignore_eos prms" by blast
  then show ?thesis
    by cases (simp_all add: defs t min eos drop_last_run [OF new] check_stop_strings_search [OF fresh new] py_in_sublist
        split: option.split del: take_append)
qed

lemma stop_decision_witness:
  "case maybe_stop_sequence 100 (default_params\<lparr>sp_stop := StopList [''cd'', ''ab''], sp_stop_token_ids := Some []\<rparr>) None 2
      ((example_seq 0)\<lparr>sq_output_text := ''xabc'', sq_data := sd_make [1, 2] [0]\<rparr>) of
     (r, seq') \<Rightarrow> r = Inr () \<and> sq_output_text seq' = ''x'' \<and> sq_stop_reason seq' = Some (StopString ''ab'')"
proof -
  let ?prms = "default_params\<lparr>sp_stop := StopList [''cd'', ''ab''], sp_stop_token_ids := Some []\<rparr>"
  let ?seq = "(example_seq 0)\<lparr>sq_output_text := ''xabc'', sq_data := sd_make [1, 2] [0]\<rparr>"
  have h: "sq_output_text ?seq = ''xa'' @ ''bc''" "\<forall>s \<in> set (stop_strings ?prms). s \<noteq> [] \<and> \<not> py_in s ''xa''"
    "sp_min_tokens ?prms \<le> sd_get_output_len (sq_data ?seq)" "sd_output_token_ids (sq_data ?seq) \<noteq> []"
    by (simp_all add: stop_strings_def py_in_def default_params_def sd_make_def sd_get_output_len_def)
  have e: "sq_eos_token_id (example_seq 0) = None" by code_simp
  show ?thesis using stop_decision [OF h, of 100 None] e
    by (simp add: stop_strings_def stop_tokens_def default_params_def sd_make_def sublist_Cons_right)
qed

text \<open>The checker leaves the sequence as it is, or finishes it and keeps what may have been sent already.\<close>

lemma maybe_stop_keeps_sent:
  assumes new: "sq_output_text seq = old @ new" and fresh: "\<forall>s \<in> set (stop_strings prms). s \<noteq> [] \<and> \<not> py_in s old"
    and prms: "buffer_fits prms" "sp_min_tokens prms \<le> 0" and out: "sd_output_token_ids (sq_data seq) \<noteq> []"
    and open_seq: "\<not> seq_is_finished seq"
  shows "\<exists>seq'. maybe_stop_sequence max_model_len prms long (int (length new)) seq = (Inr (), seq') \<and>
    sq_last_output_text_offset seq' = sq_last_output_text_offset seq \<and>
    (if seq_is_finished seq'
     then prefix (take (length old - nat (sp_output_text_buffer_length prms)) old) (sq_output_text seq')
     else seq' = seq \<and> (\<forall>s \<in> set (stop_strings prms). \<not> py_in s (old @ new)))"
proof -
  let ?n = "int (length new)" and ?buffer = "nat (sp_output_text_buffer_length prms)"
  let ?sent = "take (length old - ?buffer) old"
  let ?t = "last (sd_output_token_ids (sq_data seq))"
  have t: "sd_get_last_token_id (sq_data seq) = Inr ?t" using out by (simp add: sd_get_last_token_id_def)
  have min: "\<not> sd_get_output_len (sq_data seq) < sp_min_tokens prms" using prms(2) by (simp add: sd_get_output_len_def)
  have sent: "prefix ?sent (old @ zs)" for zs
    by (metis append_take_drop_id prefix_def append.assoc)
  have fin: "seq_is_finished (s\<lparr>sq_status := FINISHED_STOPPED\<rparr>)" "seq_is_finished (s\<lparr>sq_status := FINISHED_LENGTH_CAPPED\<rparr>)"
    "seq_is_finished (s\<lparr>sq_stop_reason := r\<rparr>) = seq_is_finished s" for s :: "'a sequence" and r
    by (simp_all add: seq_is_finished_def status_is_finished_def)
  consider (eos) "\<not> sp_ignore_eos prms" "Some ?t = sq_eos_token_id seq"
    | (token) "\<not> (\<not> sp_ignore_eos prms \<and> Some ?t = sq_eos_token_id seq)" "?t \<in> set (stop_tokens prms)"
    | (none) "\<not> (\<not> sp_ignore_eos prms \<and> Some ?t = sq_eos_token_id seq)" "?t \<notin> set (stop_tokens prms)"
      "List.find (\<lambda>s. py_in s (old @ new)) (stop_strings prms) = None"
    | (str) s where "\<not> (\<not> sp_ignore_eos prms \<and> Some ?t = sq_eos_token_id seq)" "?t \<notin> set (stop_tokens prms)"
      "List.find (\<lambda>s. py_in s (old @ new)) (stop_strings prms) = Some s"
    by fastforce
  then show ?thesis
  proof cases
    case eos
    then show ?thesis using sent [of "[]"] sent [of new]
      by (simp add: maybe_stop_sequence_def bind_def gets_def andthen_def lift_sum_def return_def min t drop_last_run [OF new]
          finish_def modify_def fin)
  next
    case token
    then show ?thesis using sent [of "[]"] sent [of new]
      by (simp add: maybe_stop_sequence_def bind_def gets_def andthen_def lift_sum_def return_def min t drop_last_run [OF new]
          finish_def finish_with_def modify_def fin)
  next
    case none
    then have "check_stop_strings prms ?n seq = (Inr None, seq)"
      using check_stop_strings_search [OF fresh new] by simp
    then have run: "maybe_stop_sequence max_model_len prms long ?n seq =
        (if get_max_model_len max_model_len long < seq_get_len seq \<or>
            Some (sd_get_output_len (sq_data seq)) = sp_max_tokens prms
         then (Inr (), seq\<lparr>sq_status := FINISHED_LENGTH_CAPPED\<rparr>) else (Inr (), seq))"
      using none(1,2) unfolding maybe_stop_sequence_def bind_def gets_def lift_sum_def return_def finish_def modify_def
      by (cases "sp_ignore_eos prms") (simp_all add: min t)
    have "\<forall>s \<in> set (stop_strings prms). \<not> py_in s (old @ new)" using none(3) by (simp add: find_None_iff)
    then show ?thesis using sent [of new] new open_seq unfolding run by (simp add: fin)
  next
    case (str s)
    have s: "s \<in> set (stop_strings prms)" "py_in s (old @ new)" using str(3) by (auto simp: find_Some_iff)
    then obtain i where i: "sub_index s (old @ new) = Some i" by (auto simp: py_in_def)
    have far: "length old < i + length s" using occurrence_ends_new [OF i] s(1) fresh by blast
    let ?cut = "i + (if sp_include_stop_str_in_output prms then length s else 0)"
    have le: "length old - ?buffer \<le> ?cut"
      using far prms(1) s(1) by (force simp: buffer_fits_def split: if_splits)
    have "?sent = take (length old - ?buffer) (take ?cut (old @ new))"
      unfolding take_take min_absorb1 [OF le] by simp
    then have "prefix ?sent (take ?cut (old @ new))" by (metis take_is_prefix)
    moreover have "maybe_stop_sequence max_model_len prms long ?n seq = (Inr (), seq\<lparr>sq_output_text := take ?cut (old @ new),
        sq_status := FINISHED_STOPPED, sq_stop_reason := Some (StopString s)\<rparr>)"
      using str(1,2) check_stop_strings_search [OF fresh new] str(3) i
      unfolding maybe_stop_sequence_def bind_def gets_def andthen_def lift_sum_def return_def finish_def finish_with_def modify_def
      by (cases "sp_ignore_eos prms") (simp_all add: min t del: take_append)
    ultimately show ?thesis by (simp add: fin del: take_append)
  qed
qed

text \<open>Between two tokens of an open request. The client has a prefix that no stop string can take back.\<close>

definition serving :: "sampling_params \<Rightarrow> 'mm sequence \<Rightarrow> string \<Rightarrow> bool" where
  "serving prms seq seen \<longleftrightarrow> \<not> seq_is_finished seq \<and> (\<forall>s \<in> set (stop_strings prms). \<not> py_in s (sq_output_text seq)) \<and>
     0 \<le> sq_last_output_text_offset seq \<and>
     sq_last_output_text_offset seq \<le> max 0 (int (length (sq_output_text seq)) - sp_output_text_buffer_length prms) \<and>
     seen = take (nat (sq_last_output_text_offset seq)) (sq_output_text seq)"

lemma poll_offset:
  assumes "get_output_text_to_return n True seq = (r, seq')" "\<not> seq_is_finished seq"
  shows "sq_last_output_text_offset seq' = max (sq_last_output_text_offset seq) (int (length (sq_output_text seq)) - n)"
  using assms by (auto simp: get_output_text_to_return_def py_defs Let_def split: if_splits)

lemma poll_frame [simp]:
  "seq_is_finished (seq\<lparr>sq_last_output_text_offset := k\<rparr>) = seq_is_finished seq"
  "detok_inv tk prompt tokens (seq\<lparr>sq_last_output_text_offset := k\<rparr>) = detok_inv tk prompt tokens seq"
  by (simp_all add: seq_is_finished_def detok_inv_def)

lemma serve_token_run:
  assumes tk: "tokenizer_of (sq_lora_int_id seq) = tk" "decodes_bytes tk"
    and inv: "detok_inv tk prompt tokens (start_tokens tk prms (sd_cached_all_token_ids (sq_data seq) @ [token_id]) seq)"
    and t: "map_of lps token_id \<noteq> None" "fits_l token_id"
    and prms: "buffer_fits prms" "sp_min_tokens prms \<le> 0" "sp_detokenize prms" "[] \<notin> set (stop_strings prms)"
    and open_seq: "serving prms seq seen"
  shows "\<exists>new seq'. serve_token tokenizer_of max_model_len prms long (token_id, lps) seq = (Inr new, seq') \<and>
    (if seq_is_finished seq' then seen @ new = sq_output_text seq'
     else serving prms seq' (seen @ new) \<and> detok_inv tk prompt (tokens @ new_tokens_of tk prms token_id) seq' \<and>
       sq_lora_int_id seq' = sq_lora_int_id seq)"
proof -
  let ?buffer = "sp_output_text_buffer_length prms" and ?off = "sq_last_output_text_offset seq"
  obtain seq1 piece seq2 where run: "seq_append_token_id token_id lps seq = (Inr (), seq1)"
    "decode_sequence_inplace tokenizer_of prms seq1 = (Inr (int (length piece)), seq2)"
    "detok_inv tk prompt (tokens @ new_tokens_of tk prms token_id) seq2" "decoded_from seq piece seq2"
    "sd_output_token_ids (sq_data seq2) \<noteq> []"
    using append_step [of tokenizer_of seq tk prompt tokens prms token_id lps] tk inv t by metis
  have s2: "sq_output_text seq2 = sq_output_text seq @ piece" "sq_lora_int_id seq2 = sq_lora_int_id seq"
    "sq_last_output_text_offset seq2 = ?off" "\<not> seq_is_finished seq2"
    using run(4) open_seq by (simp_all add: decoded_from_def serving_def seq_is_finished_def)
  have fresh: "\<forall>s \<in> set (stop_strings prms). s \<noteq> [] \<and> \<not> py_in s (sq_output_text seq)"
    using open_seq prms(4) by (auto simp: serving_def)
  obtain seq3 where s3: "maybe_stop_sequence max_model_len prms long (int (length piece)) seq2 = (Inr (), seq3)"
    "sq_last_output_text_offset seq3 = ?off"
    "seq_is_finished seq3 \<Longrightarrow> prefix (take (length (sq_output_text seq) - nat ?buffer) (sq_output_text seq)) (sq_output_text seq3)"
    "\<not> seq_is_finished seq3 \<Longrightarrow> seq3 = seq2 \<and> (\<forall>s \<in> set (stop_strings prms). \<not> py_in s (sq_output_text seq @ piece))"
    using maybe_stop_keeps_sent [OF s2(1) fresh prms(1,2) run(5) s2(4), of max_model_len long] s2(3) by (metis (full_types))
  have off: "0 \<le> ?off" "?off \<le> max 0 (int (length (sq_output_text seq)) - ?buffer)"
    and seen: "seen = take (nat ?off) (sq_output_text seq)" and buffer: "0 \<le> ?buffer"
    using open_seq prms(1) by (simp_all add: serving_def buffer_fits_def)
  have kept: "?off \<le> int (length (sq_output_text seq3)) \<and> seen = take (nat ?off) (sq_output_text seq3)"
  proof (cases "seq_is_finished seq3")
    case True
    obtain zs where z: "sq_output_text seq3 = take (length (sq_output_text seq) - nat ?buffer) (sq_output_text seq) @ zs"
      using s3(3) [OF True] by (auto simp: prefix_def)
    have "nat ?off \<le> length (sq_output_text seq) - nat ?buffer" using off buffer by linarith
    then show ?thesis using seen off(1) unfolding z by (simp add: min_absorb1)
  next
    case False
    then show ?thesis using s3(4) s2(1) seen off buffer by auto
  qed
  obtain new k where poll: "get_output_text_to_return ?buffer True seq3 = (Inr new, seq3\<lparr>sq_last_output_text_offset := k\<rparr>)"
    "0 \<le> k" "k \<le> int (length (sq_output_text seq3))" "seen @ new = take (nat k) (sq_output_text seq3)"
    "seq_is_finished seq3 \<longrightarrow> k = int (length (sq_output_text seq3))"
    using poll_text_run [of ?buffer seq3 seen] kept off(1) buffer s3(2) by auto
  have token: "serve_token tokenizer_of max_model_len prms long (token_id, lps) seq =
      (Inr new, seq3\<lparr>sq_last_output_text_offset := k\<rparr>)"
    using run(1,2) s3(1) poll(1) prms(3) by (simp add: serve_token_def detokenize_and_check_def andthen_def bind_def)
  show ?thesis
  proof (cases "seq_is_finished seq3")
    case True
    then show ?thesis using token poll by simp
  next
    case False
    have "k = max ?off (int (length (sq_output_text seq3)) - ?buffer)"
      using poll_offset [OF poll(1) False] s3(2) by simp
    moreover have "int (length (sq_output_text seq)) \<le> int (length (sq_output_text seq3))" using s3(4) [OF False] s2(1) by simp
    ultimately have "k \<le> max 0 (int (length (sq_output_text seq3)) - ?buffer)" using off by linarith
    then have "serving prms (seq3\<lparr>sq_last_output_text_offset := k\<rparr>) (seen @ new)"
      using False poll s3(4) [OF False] s2(1) by (simp add: serving_def)
    then show ?thesis using token False run(3) s3(4) [OF False] s2(2) by simp
  qed
qed

lemma serve_run:
  assumes "tokenizer_of (sq_lora_int_id seq) = tk" "decodes_bytes tk" "detok_inv tk prompt tokens seq"
    and prms: "buffer_fits prms" "sp_min_tokens prms \<le> 0" "sp_detokenize prms" "[] \<notin> set (stop_strings prms)"
    and "serving prms seq seen" "list_all (\<lambda>(token_id, lps). map_of lps token_id \<noteq> None \<and> fits_l token_id) steps"
  shows "\<exists>seen' seq'. serve tokenizer_of max_model_len prms long steps seen seq = (Inr seen', seq') \<and>
    (if seq_is_finished seq' then seen' = sq_output_text seq' else serving prms seq' seen')"
  using assms
proof (induction steps arbitrary: seq tokens seen)
  case (Cons step steps)
  obtain token_id lps where step: "step = (token_id, lps)" by fastforce
  have t: "map_of lps token_id \<noteq> None" "fits_l token_id" using Cons.prems(9) by (simp_all add: step)
  obtain new s1 where s1: "serve_token tokenizer_of max_model_len prms long step seq = (Inr new, s1)"
    "if seq_is_finished s1 then seen @ new = sq_output_text s1
     else serving prms s1 (seen @ new) \<and> detok_inv tk prompt (tokens @ new_tokens_of tk prms token_id) s1 \<and>
       sq_lora_int_id s1 = sq_lora_int_id seq"
    using serve_token_run [of tokenizer_of seq tk prompt tokens prms token_id lps seen max_model_len long]
      Cons.prems t prms detok_inv_started [OF Cons.prems(3)] unfolding step by metis
  show ?case
  proof (cases "seq_is_finished s1")
    case True
    then show ?thesis using s1 by (simp add: bind_def gets_def return_def)
  next
    case False
    then show ?thesis using s1 Cons.IH [of s1 "tokens @ new_tokens_of tk prms token_id" "seen @ new"] Cons.prems
      by (simp add: bind_def gets_def)
  qed
qed (simp add: return_def serving_def)

text \<open>
  C35: what a client receives is the output. A request with accepted parameters and without a minimal length is
  decoded token by token, checked for its stop conditions, and streamed. Whatever tokens are generated,
  nothing fails; what was sent is always a prefix of the output text, although stop strings cut it off
  later; when the request is finished, everything was sent and nothing more; and as long as it is not, no stop string
  occurs in its text.
\<close>

theorem streamed_text_is_output:
  assumes "tokenizer_of (sq_lora_int_id seq) = tk" "decodes_bytes tk" "fresh_for tk prms prompt seq"
    and "sp_valid prms" "buffer_fits prms" "sp_min_tokens prms = 0" "sp_detokenize prms"
    and "\<not> seq_is_finished seq" "sq_last_output_text_offset seq = 0"
    and "list_all (\<lambda>(token_id, lps). map_of lps token_id \<noteq> None \<and> fits_l token_id) steps"
  shows "\<exists>sent seq'. serve tokenizer_of max_model_len prms long_lora_max_len steps [] seq = (Inr sent, seq') \<and>
    prefix sent (sq_output_text seq') \<and> (seq_is_finished seq' \<longrightarrow> sent = sq_output_text seq') \<and>
    (\<not> seq_is_finished seq' \<longrightarrow> (\<forall>s \<in> set (stop_strings prms). \<not> py_in s (sq_output_text seq')))"
proof -
  have prms: "buffer_fits prms" "sp_min_tokens prms \<le> 0" "sp_detokenize prms" "[] \<notin> set (stop_strings prms)"
    using assms(4-7) by (simp_all add: sp_valid_def)
  have "sq_output_text seq = []" using assms(3) by (simp add: fresh_for_def)
  then have open_seq: "serving prms seq []"
    using assms(8,9) prms(4) by (auto simp: serving_def py_in_def)
  have "\<exists>seen' seq'. serve tokenizer_of max_model_len prms long_lora_max_len steps [] seq = (Inr seen', seq') \<and>
    (if seq_is_finished seq' then seen' = sq_output_text seq' else serving prms seq' seen')"
  proof (cases steps)
    case Nil
    then show ?thesis using open_seq by (simp add: return_def serving_def)
  next
    case (Cons step rest)
    obtain token_id lps where step: "step = (token_id, lps)" by fastforce
    have t: "map_of lps token_id \<noteq> None" "fits_l token_id" using assms(10) by (simp_all add: Cons step)
    obtain new s1 where s1: "serve_token tokenizer_of max_model_len prms long_lora_max_len step seq = (Inr new, s1)"
      "if seq_is_finished s1 then [] @ new = sq_output_text s1
       else serving prms s1 ([] @ new) \<and> detok_inv tk prompt ([] @ new_tokens_of tk prms token_id) s1 \<and>
         sq_lora_int_id s1 = sq_lora_int_id seq"
      using serve_token_run [of tokenizer_of seq tk prompt "[]" prms token_id lps "[]" max_model_len long_lora_max_len]
        fresh_inv [OF assms(3,2), of token_id] assms(1,2) t prms open_seq unfolding step by metis
    show ?thesis
    proof (cases "seq_is_finished s1")
      case True
      then show ?thesis using s1 by (simp add: Cons bind_def gets_def return_def)
    next
      case False
      then show ?thesis
        using s1 serve_run [of tokenizer_of s1 tk prompt "new_tokens_of tk prms token_id" prms new rest] prms assms(1,2,10)
        by (simp add: Cons bind_def gets_def)
    qed
  qed
  then show ?thesis by (fastforce simp: serving_def take_is_prefix split: if_splits)
qed

definition example_stream_params :: sampling_params where
  "example_stream_params = default_params\<lparr>sp_stop := StopList [''&b'', ''aaa''], sp_stop_token_ids := Some [],
     sp_output_text_buffer_length := 2\<rparr>"

lemma streamed_text_is_output_witness:
  "\<exists>sent seq'. serve (\<lambda>_. example_tokenizer) 100 example_stream_params None
      (map (\<lambda>t. (t, [(t, example_logprob)])) [0, 0, 1, 2, 0]) [] (example_seq 0) = (Inr sent, seq') \<and>
    sent = ''aa'' \<and> sq_output_text seq' = ''aa'' \<and> sq_stop_reason seq' = Some (StopString ''&b'')"
proof -
  let ?steps = "map (\<lambda>t. (t, [(t, example_logprob)])) [0, 0, 1, 2, 0]"
  let ?run = "serve (\<lambda>_. example_tokenizer) 100 example_stream_params None ?steps [] (example_seq 0)"
  have fresh: "fresh_for example_tokenizer example_stream_params [Some ''<'', Some ''>b''] (example_seq 0)"
    unfolding fresh_for_def by (intro conjI exI [of _ 0] exI [of _ 2]) code_simp+
  have prms: "sp_valid example_stream_params" "buffer_fits example_stream_params" "sp_min_tokens example_stream_params = 0"
    "sp_detokenize example_stream_params"
    by (simp_all add: sp_valid_def buffer_fits_def example_stream_params_def default_params_def stop_strings_def stop_tokens_def
        get_sampling_type_def SAMPLING_EPS_def MAX_TEMP_def)
  have start: "\<not> seq_is_finished (example_seq 0)" "sq_last_output_text_offset (example_seq 0) = 0" by code_simp+
  have steps: "list_all (\<lambda>(token_id, lps). map_of lps token_id \<noteq> None \<and> fits_l token_id) ?steps"
    by (simp add: fits_l_def)
  have run: "fst ?run = Inr ''aa'' \<and> seq_is_finished (snd ?run) \<and> sq_stop_reason (snd ?run) = Some (StopString ''&b'')"
    by code_simp
  from streamed_text_is_output [where tokenizer_of = "\<lambda>_. example_tokenizer" and tk = example_tokenizer,
      OF refl example_tokenizer_decodes fresh prms start steps, of 100 None]
  show ?thesis using run by auto
qed

section \<open>Two surprises\<close>

text \<open>
  The stop strings are tried in the order of the request, not in the order of their occurrences: when one step
  completes two of them, the text that is returned may contain the other one.
\<close>

lemma first_listed_stop_string_wins:
  "case check_stop_strings (example_stream_params\<lparr>sp_stop := StopList [''c'', ''b'']\<rparr>) 3
     ((example_seq 0)\<lparr>sq_output_text := ''abc''\<rparr>) of
     (r, seq') \<Rightarrow> r = Inr (Some ''c'') \<and> sq_output_text seq' = ''ab''"
  by code_simp

text \<open>
  The window of the search reaches back one character more than an occurrence that ends in the new text
  can. While the minimal length is not reached there is no search, so the text before may end in a stop string,
  and it is found one token later: of \<open>aa\<close> the first character was sent, and the final output is empty.
\<close>

lemma minimal_length_takes_text_back:
  "case serve (\<lambda>_. example_tokenizer) 100 (example_stream_params\<lparr>sp_stop := StopList [''aa''],
       sp_output_text_buffer_length := 1, sp_min_tokens := 3\<rparr>) None
     (map (\<lambda>t. (t, [(t, example_logprob)])) [0, 0, 0]) [] (example_seq 0) of
     (r, seq') \<Rightarrow> r = Inr ''a'' \<and> seq_is_finished seq' \<and> sq_output_text seq' = []"
  by code_simp

end
