(* ===== verification/OutputProcessor.thy ===== *)
theory OutputProcessor
  imports SchedulerReach StopChecker
begin

text \<open>
  \<^verbatim>\<open>vllm/engine/output_processor/single_step.py\<close>: what the sampled tokens of a step do to the group that they
  belong to: tokens are appended and decoded, sequences are forked, finished and freed. There is one
  scheduler (no pipeline parallelism). The sampling parameters of the request are an argument. A child sequence is
  a value until it joins the group; a parent is named by its id.
\<close>

section \<open>State\<close>

record sequence_output =
  so_parent_seq_id :: int
  so_output_token :: int
  so_logprobs :: "(int, logprob) dict"

record output_processor =
  op_scheduler :: scheduler
  op_seq_counter :: int

record output_env =
  oe_env :: env
  oe_detokenizer :: "(int option \<Rightarrow> tokenizer) option"
  oe_max_model_len :: int

datatype child_seq = Forked mm_sequence int | Continued int

definition on_sch :: "'a sch_py \<Rightarrow> (output_processor, 'a) py" where
  "on_sch = zoom op_scheduler (\<lambda>s p. p\<lparr>op_scheduler := s\<rparr>)"

text \<open>An operation of the sequence with this id, which is an object of the group.\<close>

definition with_seq :: "gref \<Rightarrow> int \<Rightarrow> (mm_sequence, 'a) py \<Rightarrow> 'a sch_py" where
  "with_seq r seq_id m =
     bind (the_group r) (\<lambda>g.
     case List.find (\<lambda>q. sq_seq_id q = seq_id) (sg_seqs g) of
       None \<Rightarrow> raise KeyError
     | Some q \<Rightarrow> (case m q of (result, q') \<Rightarrow> andthen (upd_seqs r [q] (\<lambda>_. q')) (lift_sum result)))"

definition on_group :: "gref \<Rightarrow> (mm_group, 'a) py \<Rightarrow> 'a sch_py" where
  "on_group r m = bind (the_group r) (\<lambda>g. case m g of (result, g') \<Rightarrow> andthen (put_group r g') (lift_sum result))"

definition free_if_finished :: "output_env \<Rightarrow> gref \<Rightarrow> int \<Rightarrow> unit sch_py" where
  "free_if_finished oe r seq_id =
     bind (with_seq r seq_id (gets id)) (\<lambda>seq.
     if seq_is_finished seq then free_seq (oe_env oe) seq else return ())"

section \<open>One sequence\<close>

definition process_one_sample :: "output_env \<Rightarrow> sampling_params \<Rightarrow> gref \<Rightarrow> sequence_output list \<Rightarrow> bool \<Rightarrow> unit sch_py" where
  "process_one_sample oe prms r samples is_async =
     andthen (guard IndexError (samples \<noteq> []))
    (bind (the_group r) (\<lambda>g.
     bind (lift_sum (first_seq g)) (\<lambda>seq.
     let sample = hd samples; i = sq_seq_id seq in
     andthen (if is_async then return ()
       else with_seq r i (seq_append_token_id (so_output_token sample) (so_logprobs sample)))
    (andthen (with_seq r i (detokenize_and_check (oe_detokenizer oe) (oe_max_model_len oe) prms (en_long_lora (oe_env oe) g)))
       (free_if_finished oe r i)))))"

section \<open>Several sequences\<close>

definition next_seq_id :: "(output_processor, int) py" where
  "next_seq_id = bind (gets op_seq_counter) (\<lambda>n. andthen (modify (\<lambda>p. p\<lparr>op_seq_counter := n + 1\<rparr>)) (return n))"

fun fork_children :: "mm_sequence \<Rightarrow> sequence_output list \<Rightarrow> (output_processor, child_seq list) py" where
  "fork_children parent [] = return []"
| "fork_children parent (child_sample # rest) =
     bind next_seq_id (\<lambda>new_child_seq_id.
     case seq_append_token_id (so_output_token child_sample) (so_logprobs child_sample) (seq_fork new_child_seq_id parent) of
       (Inl e, child) \<Rightarrow> raise e
     | (Inr _, child) \<Rightarrow>
         bind (fork_children parent rest) (\<lambda>children. return (Forked child (sq_seq_id parent) # children)))"

definition process_parent :: "output_env \<Rightarrow> gref \<Rightarrow> sequence_output list \<Rightarrow> mm_sequence \<Rightarrow> (output_processor, child_seq list) py" where
  "process_parent oe r samples parent =
     (let i = sq_seq_id parent; child_samples = filter (\<lambda>s. so_parent_seq_id s = i) samples
      in if child_samples = [] then
           andthen (on_sch (andthen (set_seqs_status r [parent] FINISHED_ABORTED)
             (andthen (on_group r (sg_remove i)) (free_seq (oe_env oe) parent)))) (return [])
         else
           bind (fork_children parent (butlast child_samples)) (\<lambda>children.
           let sample = last child_samples in
           andthen (on_sch (with_seq r i (seq_append_token_id (so_output_token sample) (so_logprobs sample))))
             (return (children @ [Continued i]))))"

fun process_parents :: "output_env \<Rightarrow> gref \<Rightarrow> sequence_output list \<Rightarrow> mm_sequence list \<Rightarrow> (output_processor, child_seq list) py" where
  "process_parents oe r samples [] = return []"
| "process_parents oe r samples (parent # parents) =
     bind (process_parent oe r samples parent) (\<lambda>children.
     bind (process_parents oe r samples parents) (\<lambda>rest. return (children @ rest)))"

definition check_child :: "output_env \<Rightarrow> sampling_params \<Rightarrow> int option \<Rightarrow> gref \<Rightarrow> child_seq \<Rightarrow> child_seq sch_py" where
  "check_child oe prms long_lora_max_len r child =
     (let check = detokenize_and_check (oe_detokenizer oe) (oe_max_model_len oe) prms long_lora_max_len
      in case child of
        Continued i \<Rightarrow> andthen (with_seq r i check) (return child)
      | Forked seq parent \<Rightarrow> (case check seq of (result, seq') \<Rightarrow>
          andthen (lift_sum result) (return (Forked seq' parent))))"

fun check_children :: "output_env \<Rightarrow> sampling_params \<Rightarrow> int option \<Rightarrow> gref \<Rightarrow> child_seq list \<Rightarrow> child_seq list sch_py" where
  "check_children oe prms long_lora_max_len r [] = return []"
| "check_children oe prms long_lora_max_len r (child # rest) =
     bind (check_child oe prms long_lora_max_len r child) (\<lambda>child.
     bind (check_children oe prms long_lora_max_len r rest) (\<lambda>rest. return (child # rest)))"

definition add_child :: "gref \<Rightarrow> child_seq \<Rightarrow> unit sch_py" where
  "add_child r child = (case child of
     Continued i \<Rightarrow> return ()
   | Forked seq parent \<Rightarrow>
       andthen (on_group r (sg_add seq))
         (if seq_is_finished seq then return () else sch_fork_seq parent (sq_seq_id seq)))"

definition free_child :: "output_env \<Rightarrow> gref \<Rightarrow> child_seq \<Rightarrow> unit sch_py" where
  "free_child oe r child = (case child of
     Continued i \<Rightarrow> free_if_finished oe r i
   | Forked seq parent \<Rightarrow> return ())"

definition process_samples :: "output_env \<Rightarrow> sampling_params \<Rightarrow> gref \<Rightarrow> sequence_output list \<Rightarrow> (output_processor, unit) py" where
  "process_samples oe prms r samples =
     bind (on_sch (the_group r)) (\<lambda>g.
     bind (on_sch (get_seqs r (Some RUNNING))) (\<lambda>parent_seqs.
     bind (process_parents oe r samples parent_seqs) (\<lambda>child_seqs.
     bind (on_sch (check_children oe prms (en_long_lora (oe_env oe) g) r child_seqs)) (\<lambda>child_seqs.
     andthen (on_sch (for_each child_seqs (add_child r)))
       (on_sch (for_each child_seqs (free_child oe r)))))))"

definition process_outputs :: "output_env \<Rightarrow> sampling_params \<Rightarrow> gref \<Rightarrow> sequence_output list list \<Rightarrow> bool
    \<Rightarrow> (output_processor, unit) py" where
  "process_outputs oe prms r group_outputs is_async =
     andthen (guard AssertionError (length group_outputs = 1))
       (let samples = hd group_outputs
        in if sp_n prms = 1 then on_sch (process_one_sample oe prms r samples is_async)
           else andthen (guard AssertionError (\<not> is_async)) (process_samples oe prms r samples))"

section \<open>Log probabilities of the prompt\<close>

text \<open>\<open>stored\<close> is the attribute \<open>prompt_logprobs\<close> of the group, before and after.\<close>

definition single_step_process_prompt_logprob :: "output_env \<Rightarrow> sampling_params \<Rightarrow> mm_group
    \<Rightarrow> (int, logprob) dict option list option \<Rightarrow> (int, logprob) dict option list option
    \<Rightarrow> exn + (int, logprob) dict option list option" where
  "single_step_process_prompt_logprob oe prms g stored prompt_logprobs = (case prompt_logprobs of
     None \<Rightarrow> Inr stored
   | Some new \<Rightarrow>
       let (stored, new) = (if stored = None \<or> stored = Some [] then ([], None # new) else (the stored, new))
       in ebind (case oe_detokenizer oe of
            Some tokenizer_of \<Rightarrow>
              if sp_detokenize prms then decode_prompt_logprobs_inplace tokenizer_of prms g new (length stored) else Inr new
          | None \<Rightarrow> Inr new) (\<lambda>new. Inr (Some (stored @ new))))"

text \<open>\<^verbatim>\<open>util.py\<close>: from \<open>[step][group]\<close> to \<open>[group][step]\<close>.\<close>

fun create_output_by_sequence_group :: "'a list list \<Rightarrow> 'a list list \<Rightarrow> exn + 'a list list" where
  "create_output_by_sequence_group acc [] = Inr acc"
| "create_output_by_sequence_group acc (step # steps) =
     echeck IndexError (length step \<le> length acc)
       (create_output_by_sequence_group
         (map (\<lambda>i. acc ! i @ (if i < length step then [step ! i] else [])) [0..<length acc]) steps)"

section \<open>No group is moved\<close>

text \<open>What happens to a sequence: it keeps its id, and its status unless it is finished.\<close>

definition calm :: "'mm sequence \<Rightarrow> 'mm sequence \<Rightarrow> bool" where
  "calm q q' \<longleftrightarrow> sq_seq_id q' = sq_seq_id q \<and> (sq_status q' = sq_status q \<or> seq_is_finished q')"

interpretation calm: step_relation calm
  by unfold_locales (auto simp: calm_def seq_is_finished_def)

lemma calm_modify: "(\<And>q. sq_seq_id (f q) = sq_seq_id q) \<Longrightarrow> (\<And>q. sq_status (f q) = sq_status q \<or> seq_is_finished (f q)) \<Longrightarrow>
    keeps calm (modify f)"
  by (rule keeps_modify) (simp add: calm_def)

lemma calm_append: "keeps calm (seq_append_token_id t lps)"
proof -
  have "keeps calm (on_data m)" for m :: "(sequence_data, 'b) py"
    unfolding on_data_def by (rule keeps_zoom) (simp add: calm_def)
  note data = this
  show ?thesis unfolding seq_append_token_id_def by (intro calm.combinators calm_modify data) simp_all
qed

lemma start_tokens_frame [simp]:
  "sq_seq_id (start_tokens tk prms ids q) = sq_seq_id q" "sq_status (start_tokens tk prms ids q) = sq_status q"
  by (simp_all add: start_tokens_def split: option.split prod.split)

lemma calm_decode: "keeps calm (decode_sequence_inplace tokenizer_of prms)"
  unfolding decode_sequence_inplace_def Let_def by (intro calm.combinators calm_modify; simp)

lemma finished_status [simp]:
  "seq_is_finished (q\<lparr>sq_status := FINISHED_STOPPED\<rparr>)" "seq_is_finished (q\<lparr>sq_status := FINISHED_LENGTH_CAPPED\<rparr>)"
  "seq_is_finished (q\<lparr>sq_status := FINISHED_ABORTED\<rparr>)"
  by (simp_all add: seq_is_finished_def status_is_finished_def)

lemma calm_finish: "keeps calm (finish FINISHED_STOPPED)" "keeps calm (finish FINISHED_LENGTH_CAPPED)"
  "keeps calm (finish_with x)" "keeps calm (drop_last_text prms n)"
  unfolding finish_with_def finish_def drop_last_text_def by (intro calm.combinators calm_modify; simp)+

lemma calm_stop: "keeps calm (maybe_stop_sequence max_model_len prms long n)"
proof -
  have t: "keeps calm (try_stop_strings incl n stops)" for incl stops
    by (induction stops) (auto simp: Let_def intro!: calm.combinators calm_modify)
  show ?thesis
    unfolding maybe_stop_sequence_def check_stop_strings_def by (intro calm.combinators calm_finish t)
qed

lemma calm_check: "keeps calm (detokenize_and_check dt max_model_len prms long)"
  unfolding detokenize_and_check_def by (intro calm.combinators calm_decode calm_stop)

text \<open>
  The group \<open>r\<close> may only be in the places \<open>H\<close>; the other groups are left alone. A group in which a sequence runs
  can be nowhere but among the running ones.
\<close>

definition gentle_in :: "gref \<Rightarrow> sequence_status option set \<Rightarrow> scheduler \<Rightarrow> scheduler \<Rightarrow> bool" where
  "gentle_in r H s t \<longleftrightarrow> queue_lists t = queue_lists s \<and>
     (\<forall>r' home. r' \<noteq> r \<or> home \<in> H \<longrightarrow> group_ok home (sch_groups s r') \<longrightarrow> group_ok home (sch_groups t r'))"

interpretation gentle_in: step_relation "gentle_in r H"
  by unfold_locales (auto simp: gentle_in_def)

lemma gentle_in_gentle: "keeps gentle m \<Longrightarrow> keeps (gentle_in r H) m"
  by (auto simp: keeps_def gentle_def gentle_in_def)

definition on_op :: "(scheduler \<Rightarrow> scheduler \<Rightarrow> bool) \<Rightarrow> output_processor \<Rightarrow> output_processor \<Rightarrow> bool" where
  "on_op R p q = R (op_scheduler p) (op_scheduler q)"

interpretation op_in: step_relation "on_op (gentle_in r H)"
  by unfold_locales (auto simp: on_op_def intro: gentle_in.refl gentle_in.trans)

lemma keeps_on_sch: "keeps R m \<Longrightarrow> keeps (on_op R) (on_sch m)"
  unfolding keeps_def on_op_def on_sch_def zoom_def by (metis (mono_tags, lifting) case_prod_beta output_processor.select_convs(1)
    output_processor.surjective output_processor.update_convs(1) snd_conv)

lemma group_ok_seqs:
  assumes "group_ok home g" "sg_seqs g' = map f (sg_seqs g)" "sg_is_single_seq g' = sg_is_single_seq g"
    "sg_seqs_dict g' = sg_seqs_dict g" "\<And>q. q \<in> set (sg_seqs g) \<Longrightarrow> calm q (f q)"
  shows "group_ok home g'"
proof -
  have ids: "map sq_seq_id (sg_seqs g') = map sq_seq_id (sg_seqs g)" "length (sg_seqs g') = length (sg_seqs g)"
    using assms(2,5) by (simp_all add: calm_def)
  have inv: "sg_inv g'" using assms(1,3,4) by (simp add: group_ok_def sg_inv_def ids)
  have "case home of None \<Rightarrow> True | Some st \<Rightarrow> sq_status (f q) = st \<or> seq_is_finished (f q)" if q: "q \<in> set (sg_seqs g)" for q
    using assms(1,5) q by (fastforce simp: group_ok_def calm_def seq_is_finished_def split: option.split)
  then show ?thesis using inv assms(2) by (auto simp: group_ok_def)
qed

lemma gentle_with_seq:
  assumes "keeps calm m"
  shows "keeps gentle (with_seq r i m)"
  unfolding keeps_def
proof
  fix s
  show "gentle s (snd (with_seq r i m s))"
  proof (cases "List.find (\<lambda>q. sq_seq_id q = i) (sg_seqs (sch_groups s r))")
    case None
    then show ?thesis by (simp add: with_seq_def the_group_def py_defs gentle.refl)
  next
    case (Some q)
    obtain x q' where m: "m q = (x, q')" by fastforce
    have calm: "calm q q'" using keeps_returns [OF assms m] .
    let ?f = "\<lambda>p. if sq_seq_id p \<in> sq_seq_id ` set [q] then q' else p"
    let ?g = "(sch_groups s r)\<lparr>sg_seqs := map ?f (sg_seqs (sch_groups s r))\<rparr>"
    have "group_ok home ?g" if ok: "group_ok home (sch_groups s r)" for home
    proof (rule group_ok_seqs [OF ok])
      fix p
      assume p: "p \<in> set (sg_seqs (sch_groups s r))"
      have "q \<in> set (sg_seqs (sch_groups s r))" using Some by (auto simp: find_Some_iff)
      moreover have "distinct (map sq_seq_id (sg_seqs (sch_groups s r)))" using ok by (simp add: group_ok_def sg_inv_def)
      ultimately have "sq_seq_id p = sq_seq_id q \<Longrightarrow> p = q" using p by (metis distinct_map inj_on_def)
      then show "calm p (?f p)" using calm calm.refl by auto
    qed simp_all
    then have "gentle s (s\<lparr>sch_groups := (sch_groups s)(r := ?g)\<rparr>)" by (rule gentle_put_group)
    moreover have "snd (with_seq r i m s) = s\<lparr>sch_groups := (sch_groups s)(r := ?g)\<rparr>"
      by (cases x) (simp_all add: with_seq_def the_group_def upd_seqs_def put_group_def py_defs Some m lift_sum_def)
    ultimately show ?thesis by simp
  qed
qed

lemma calm_read: "keeps calm (gets f)"
  by (rule calm.pure)

lemma gentle_free_if_finished: "keeps gentle (free_if_finished oe r i)"
  unfolding free_if_finished_def by (intro gentle_intros gentle_with_seq calm_read)

lemma gentle_one_sample: "keeps gentle (process_one_sample oe prms r samples is_async)"
  unfolding process_one_sample_def Let_def
  by (intro gentle_intros gentle_with_seq calm_append calm_check gentle_free_if_finished)

section \<open>Children\<close>

text \<open>What is known of the value that an operation returns.\<close>

definition yields :: "('a \<Rightarrow> bool) \<Rightarrow> ('s, 'a) py \<Rightarrow> bool" where
  "yields P m \<longleftrightarrow> (\<forall>s x t. m s = (Inr x, t) \<longrightarrow> P x)"

lemma yields_pure: "P x \<Longrightarrow> yields P (return x)" "yields P (raise e)"
  by (simp_all add: yields_def return_def raise_def)

lemma yieldsD: "yields P m \<Longrightarrow> m s = (Inr x, t) \<Longrightarrow> P x"
  by (auto simp: yields_def)

lemma yields_bind: "yields Q m \<Longrightarrow> (\<And>x. Q x \<Longrightarrow> yields P (k x)) \<Longrightarrow> yields P (bind m k)"
  unfolding yields_def [of P] bind_def by (auto split: prod.splits sum.splits) (metis yieldsD)

lemma yields_last: "(\<And>x. yields P (k x)) \<Longrightarrow> yields P (bind m k)" "yields P n \<Longrightarrow> yields P (andthen m n)"
  unfolding yields_def bind_def andthen_def by (auto split: prod.splits sum.splits)

lemma yields_on_sch: "yields P m \<Longrightarrow> yields P (on_sch m)"
  unfolding yields_def on_sch_def zoom_def by (auto split: prod.splits)

context step_relation
begin

lemma bind_known: "keeps R m \<Longrightarrow> yields P m \<Longrightarrow> (\<And>x. P x \<Longrightarrow> keeps R (k x)) \<Longrightarrow> keeps R (bind m k)"
  unfolding keeps_def
proof
  fix s
  assume m: "\<forall>s. R s (snd (m s))" and y: "yields P m" and k: "\<And>x. P x \<Longrightarrow> \<forall>s. R s (snd (k x s))"
  obtain r t where r: "m s = (r, t)" by fastforce
  have "R s t" using m r by (metis snd_conv)
  then show "R s (snd (bind m k s))"
    using yieldsD [OF y, of s] k trans by (cases r) (auto simp: r bind_def)
qed

end

definition child_ok :: "sequence_status option set \<Rightarrow> child_seq \<Rightarrow> bool" where
  "child_ok H child \<longleftrightarrow> (case child of
     Forked seq parent \<Rightarrow> H = {} \<or> sq_status seq = RUNNING \<or> seq_is_finished seq
   | Continued i \<Rightarrow> True)"

lemma child_ok_calm: "calm q q' \<Longrightarrow> child_ok H (Forked q p) \<Longrightarrow> child_ok H (Forked q' p)"
  by (auto simp: child_ok_def calm_def seq_is_finished_def)

lemma gentle_upd_calm: "(\<And>q. calm q (f q)) \<Longrightarrow> keeps gentle (upd_seqs r seqs f)"
  unfolding upd_seqs_def by (rule gentle_update_group)
    (erule group_ok_seqs [where f = "\<lambda>q. if sq_seq_id q \<in> sq_seq_id ` set seqs then f q else q"]; auto intro: calm.refl)

lemma gentle_in_on_group:
  assumes "\<And>g home. home \<in> H \<Longrightarrow> group_ok home g \<Longrightarrow> group_ok home (snd (m g))"
  shows "keeps (gentle_in r H) (on_group r m)"
  unfolding keeps_def
proof
  fix s :: scheduler
  obtain x g' where m: "m (sch_groups s r) = (x, g')" by fastforce
  have "\<And>home. home \<in> H \<Longrightarrow> group_ok home (sch_groups s r) \<Longrightarrow> group_ok home g'" using assms m by (metis snd_conv)
  then have "gentle_in r H s (s\<lparr>sch_groups := (sch_groups s)(r := g')\<rparr>)"
    by (auto simp: gentle_in_def queue_lists_def)
  moreover have "snd (on_group r m s) = s\<lparr>sch_groups := (sch_groups s)(r := g')\<rparr>"
    by (cases x) (simp_all add: on_group_def the_group_def put_group_def py_defs m lift_sum_def)
  ultimately show "gentle_in r H s (snd (on_group r m s))" by simp
qed

lemma group_ok_remove: "group_ok home g \<Longrightarrow> group_ok home (snd (sg_remove i g))"
proof -
  assume ok: "group_ok home g"
  have sub: "set (remove_seq_by_id i qs) \<subseteq> set qs" for qs :: "mm_sequence list" by (induction qs) auto
  have "sg_inv (snd (sg_remove i g))" using sg_apply_op_inv [of g "RemoveSeq i"] ok by (simp add: group_ok_def)
  moreover have "set (sg_seqs (snd (sg_remove i g))) \<subseteq> set (sg_seqs g)"
    using sub by (auto simp: sg_remove_def py_defs)
  ultimately show ?thesis using ok by (auto simp: group_ok_def)
qed

lemma group_ok_add:
  assumes "group_ok home g" "home \<in> H" "H \<subseteq> {None, Some RUNNING}" "child_ok H (Forked q p)"
  shows "group_ok home (snd (sg_add q g))"
proof -
  have "sg_inv (snd (sg_add q g))" using sg_apply_op_inv [of g "AddSeq q"] assms(1) by (simp add: group_ok_def)
  moreover have "set (sg_seqs (snd (sg_add q g))) \<subseteq> insert q (set (sg_seqs g))"
    by (auto simp: sg_add_def py_defs)
  moreover have "home = None \<or> home = Some RUNNING" "sq_status q = RUNNING \<or> seq_is_finished q"
    using assms(2-4) by (auto simp: child_ok_def)
  ultimately show ?thesis using assms(1) by (auto simp: group_ok_def)
qed

lemma fork_children_ok:
  assumes "child_ok H (Forked parent p)"
  shows "yields (list_all (child_ok H)) (fork_children parent samples) \<and> keeps (on_op (gentle_in r H')) (fork_children parent samples)"
proof (induction samples)
  case (Cons x rest)
  have next_ok: "keeps (on_op (gentle_in r H')) next_seq_id"
    unfolding next_seq_id_def by (intro op_in.combinators keeps_modify) (simp add: on_op_def gentle_in.refl)
  have step: "yields (list_all (child_ok H)) (case seq_append_token_id t lps (seq_fork i parent) of (Inl e, child) \<Rightarrow> raise e
      | (Inr u, child) \<Rightarrow> bind (fork_children parent rest) (\<lambda>children. return (Forked child (sq_seq_id parent) # children)))"
    "keeps (on_op (gentle_in r H')) (case seq_append_token_id t lps (seq_fork i parent) of (Inl e, child) \<Rightarrow> raise e
      | (Inr u, child) \<Rightarrow> bind (fork_children parent rest) (\<lambda>children. return (Forked child (sq_seq_id parent) # children)))"
    for t lps i
  proof -
    obtain b child where b: "seq_append_token_id t lps (seq_fork i parent) = (b, child)" by fastforce
    have "calm (seq_fork i parent) child" by (rule keeps_returns [OF calm_append b])
    moreover have "child_ok H (Forked (seq_fork i parent) p)" using assms by (simp add: child_ok_def seq_fork_def seq_is_finished_def)
    ultimately have c: "child_ok H (Forked child (sq_seq_id parent))" by (auto simp: child_ok_def calm_def seq_is_finished_def)
    show "yields (list_all (child_ok H)) (case seq_append_token_id t lps (seq_fork i parent) of (Inl e, child) \<Rightarrow> raise e
        | (Inr u, child) \<Rightarrow> bind (fork_children parent rest) (\<lambda>children. return (Forked child (sq_seq_id parent) # children)))"
      unfolding b using Cons c
      by (cases b) (auto intro!: yields_bind [where Q = "list_all (child_ok H)"] yields_pure)
    show "keeps (on_op (gentle_in r H')) (case seq_append_token_id t lps (seq_fork i parent) of (Inl e, child) \<Rightarrow> raise e
        | (Inr u, child) \<Rightarrow> bind (fork_children parent rest) (\<lambda>children. return (Forked child (sq_seq_id parent) # children)))"
      unfolding b using Cons by (cases b) (auto intro!: op_in.combinators)
  qed
  show ?case unfolding fork_children.simps by (intro conjI yields_last op_in.bind next_ok step)
qed (simp add: yields_pure op_in.pure)

lemma process_parent_ok:
  assumes "child_ok H (Forked parent p)"
  shows "yields (list_all (child_ok H)) (process_parent oe r samples parent) \<and>
    keeps (on_op (gentle_in r H')) (process_parent oe r samples parent)"
proof -
  let ?cs = "filter (\<lambda>s. so_parent_seq_id s = sq_seq_id parent) samples"
  have continued: "child_ok H (Continued i)" for i by (simp add: child_ok_def)
  have drop: "keeps (gentle_in r H') (andthen (set_seqs_status r [parent] FINISHED_ABORTED)
      (andthen (on_group r (sg_remove i)) (free_seq (oe_env oe) parent)))" for i
  proof -
    have "keeps gentle (set_seqs_status r [parent] FINISHED_ABORTED)"
      unfolding set_seqs_status_def by (rule gentle_upd_calm) (simp add: calm_def)
    then show ?thesis
      by (intro gentle_in.combinators gentle_in_gentle gentle_free_seq gentle_in_on_group group_ok_remove)
  qed
  have append: "keeps (on_op (gentle_in r H')) (on_sch (with_seq r i (seq_append_token_id t lps)))" for i t lps
    by (intro keeps_on_sch gentle_in_gentle gentle_with_seq calm_append)
  show ?thesis
  proof (cases "?cs = []")
    case True
    then show ?thesis unfolding process_parent_def Let_def
      by (auto intro!: yields_last yields_pure op_in.combinators keeps_on_sch drop)
  next
    case False
    have "yields (list_all (child_ok H)) (bind (fork_children parent cs) (\<lambda>children. andthen m (return (children @ [Continued i]))))"
      for cs i and m :: "(output_processor, unit) py"
      by (rule yields_bind [where Q = "list_all (child_ok H)"])
        (use fork_children_ok [OF assms] continued in \<open>auto intro!: yields_last yields_pure\<close>)
    then show ?thesis using False fork_children_ok [OF assms] unfolding process_parent_def Let_def
      by (auto intro!: op_in.combinators append)
  qed
qed

lemma process_parents_ok:
  assumes "\<And>q. q \<in> set parents \<Longrightarrow> child_ok H (Forked q p)"
  shows "yields (list_all (child_ok H)) (process_parents oe r samples parents) \<and>
    keeps (on_op (gentle_in r H')) (process_parents oe r samples parents)"
  using assms
proof (induction parents)
  case (Cons q parents)
  have q: "child_ok H (Forked q p)" using Cons.prems by simp
  have "yields (list_all (child_ok H)) (process_parents oe r samples (q # parents))"
    unfolding process_parents.simps
    by (rule yields_bind [where Q = "list_all (child_ok H)"], use process_parent_ok [OF q] in blast,
        rule yields_bind [where Q = "list_all (child_ok H)"]) (use Cons in \<open>auto intro!: yields_pure\<close>)
  then show ?case using process_parent_ok [OF q] Cons by (auto intro!: op_in.combinators)
qed (simp add: yields_pure op_in.pure)

lemma check_child_ok:
  assumes "child_ok H child"
  shows "yields (child_ok H) (check_child oe prms long r child) \<and> keeps (gentle_in r H') (check_child oe prms long r child)"
proof (cases child)
  case (Forked q p)
  let ?check = "detokenize_and_check (oe_detokenizer oe) (oe_max_model_len oe) prms long"
  obtain a q' where c: "?check q = (a, q')" by fastforce
  have "child_ok H (Forked q' p)" using child_ok_calm [OF keeps_returns [OF calm_check c]] assms Forked by simp
  then show ?thesis unfolding check_child_def Let_def Forked child_seq.case c prod.case
    by (auto intro!: yields_last yields_pure gentle_in.combinators)
next
  case (Continued i)
  then show ?thesis using assms unfolding check_child_def Let_def Continued child_seq.case
    by (intro conjI yields_last yields_pure gentle_in.andthen gentle_in.pure gentle_in_gentle [OF gentle_with_seq] calm_check)
qed

lemma check_children_ok:
  assumes "list_all (child_ok H) children"
  shows "yields (list_all (child_ok H)) (check_children oe prms long r children) \<and>
    keeps (gentle_in r H') (check_children oe prms long r children)"
  using assms
proof (induction children)
  case (Cons c children)
  have c: "child_ok H c" using Cons.prems by simp
  have "yields (list_all (child_ok H)) (check_children oe prms long r (c # children))"
    unfolding check_children.simps
    by (rule yields_bind [where Q = "child_ok H"], use check_child_ok [OF c] in blast,
        rule yields_bind [where Q = "list_all (child_ok H)"]) (use Cons in \<open>auto intro!: yields_pure\<close>)
  then show ?case using check_child_ok [OF c] Cons by (auto intro!: gentle_in.combinators)
qed (simp add: yields_pure gentle_in.pure)

lemma add_children_ok:
  assumes "list_all (child_ok H) children" "H \<subseteq> {None, Some RUNNING}"
  shows "keeps (gentle_in r H) (for_each children (add_child r))"
  using assms(1)
proof (induction children)
  case (Cons c children)
  have "keeps (gentle_in r H) (add_child r c)"
  proof (cases c)
    case (Forked q p)
    have fork: "keeps gentle (sch_fork_seq p (sq_seq_id q))" unfolding sch_fork_seq_def by (rule gentle_on_bm)
    show ?thesis using Cons.prems unfolding add_child_def Forked child_seq.case
      by (intro gentle_in.combinators gentle_in_on_group gentle_in_gentle [OF fork])
        (auto intro: group_ok_add [OF _ _ assms(2)] simp: Forked)
  qed (simp add: add_child_def gentle_in.pure)
  then show ?case using Cons by (auto intro!: gentle_in.combinators)
qed (simp add: gentle_in.pure)

lemma free_children_ok: "keeps gentle (for_each children (free_child oe r))"
  unfolding free_child_def
  by (induction children) (auto intro!: gentle_intros gentle_free_if_finished split: child_seq.split)

lemma process_samples_gentle: "gentle (op_scheduler p) (op_scheduler (snd (process_samples oe prms r samples p)))"
proof -
  let ?s = "op_scheduler p" and ?g = "sch_groups (op_scheduler p) r"
  define rest where "rest = (\<lambda>parents. bind (process_parents oe r samples parents) (\<lambda>child_seqs.
    bind (on_sch (check_children oe prms (en_long_lora (oe_env oe) ?g) r child_seqs)) (\<lambda>child_seqs.
    andthen (on_sch (for_each child_seqs (add_child r))) (on_sch (for_each child_seqs (free_child oe r))))))"
  have rest: "gentle_in r H ?s (op_scheduler (snd (rest parents p)))"
    if H: "H \<subseteq> {None, Some RUNNING}" and c: "\<And>q. q \<in> set parents \<Longrightarrow> child_ok H (Forked q 0)" for H parents
  proof -
    have "keeps (on_op (gentle_in r H)) (rest parents)" unfolding rest_def
    proof (rule op_in.bind_known [where P = "list_all (child_ok H)"])
      fix children
      assume ok: "list_all (child_ok H) children"
      show "keeps (on_op (gentle_in r H)) (bind (on_sch (check_children oe prms (en_long_lora (oe_env oe) ?g) r children))
          (\<lambda>child_seqs. andthen (on_sch (for_each child_seqs (add_child r))) (on_sch (for_each child_seqs (free_child oe r)))))"
        by (rule op_in.bind_known [where P = "list_all (child_ok H)"])
          (use check_children_ok [OF ok] add_children_ok [OF _ H] gentle_in_gentle [OF free_children_ok] in
            \<open>auto intro!: op_in.andthen keeps_on_sch yields_on_sch\<close>)
    qed (use process_parents_ok [OF c] in blast)+
    then show ?thesis by (simp add: keeps_def on_op_def)
  qed
  have run: "process_samples oe prms r samples p = (case sg_get_seqs (Some RUNNING) ?g of
      Inl e \<Rightarrow> (Inl e, p) | Inr parents \<Rightarrow> rest parents p)"
    by (simp add: process_samples_def rest_def on_sch_def zoom_def the_group_def get_seqs_def lift_sum_def py_defs
        split: sum.split)
  show ?thesis
  proof (cases "sg_get_seqs (Some RUNNING) ?g")
    case (Inl e)
    then show ?thesis by (simp add: run gentle.refl)
  next
    case (Inr parents)
    show ?thesis
    proof (cases "parents = []")
      case True
      then have "snd (rest parents p) = p" by (simp add: rest_def on_sch_def zoom_def py_defs)
      then show ?thesis by (simp add: run Inr gentle.refl)
    next
      case False
      show ?thesis
      proof (cases "sg_inv ?g")
        case True
        then have parents: "parents = filter (\<lambda>q. sq_status q = RUNNING) (sg_seqs ?g)" using sg_get_seqs_eq [OF True, of RUNNING] Inr by simp
        then obtain q where "q \<in> set (sg_seqs ?g)" "sq_status q = RUNNING" using False by (auto simp: filter_empty_conv)
        then have home: "home \<in> {None, Some RUNNING}" if "group_ok home ?g" for home
          using that by (cases home) (auto simp: group_ok_def seq_is_finished_def status_is_finished_def)
        have "gentle_in r {None, Some RUNNING} ?s (op_scheduler (snd (rest parents p)))"
          by (rule rest) (auto simp: parents child_ok_def)
        then show ?thesis using home unfolding run Inr sum.case gentle_in_def gentle_def by metis
      next
        case False
        then have none: "\<not> group_ok home ?g" for home by (simp add: group_ok_def)
        have "gentle_in r {} ?s (op_scheduler (snd (rest parents p)))" by (rule rest) (auto simp: child_ok_def)
        then show ?thesis using none unfolding run Inr sum.case gentle_in_def gentle_def by metis
      qed
    qed
  qed
qed

lemma process_outputs_gentle: "gentle (op_scheduler p) (op_scheduler (snd (process_outputs oe prms r group_outputs is_async p)))"
proof -
  have one: "gentle (op_scheduler p) (op_scheduler (snd (on_sch (process_one_sample oe prms r samples is_async) p)))" for samples
    using keeps_on_sch [OF gentle_one_sample] by (simp add: keeps_def on_op_def)
  show ?thesis
    using one [of "hd group_outputs"] process_samples_gentle [of p oe prms r "hd group_outputs"]
    by (simp add: process_outputs_def andthen_def guard_def bind_def return_def raise_def Let_def gentle.refl)
qed

text \<open>
  C36: processing the outputs of a step moves no group. Whatever tokens were sampled, however many sequences a
  group has, and whether it succeeds or raises, appending, decoding, stopping, forking and freeing
  sequences changes no queue of the scheduler and nothing of the pass that runs; every group fits into each place
  into which it fitted before, so the queues stay typed. This is what the scheduler assumes of
  the callback that it calls within a step.
\<close>

theorem processed_outputs_move_no_group:
  assumes "process_outputs oe prms r group_outputs is_async p = (result, q)"
  shows "queue_lists (op_scheduler q) = queue_lists (op_scheduler p) \<and>
    (\<forall>r' home. group_ok home (sch_groups (op_scheduler p) r') \<longrightarrow> group_ok home (sch_groups (op_scheduler q) r')) \<and>
    (well_queued (op_scheduler p) \<longrightarrow> well_queued (op_scheduler q))"
proof -
  have "gentle (op_scheduler p) (op_scheduler q)"
    using process_outputs_gentle [of p oe prms r group_outputs is_async] assms by simp
  then show ?thesis using preserved_well_queued by (auto simp: gentle_def preserved_def)
qed

definition example_output_env :: output_env where
  "example_output_env = \<lparr>oe_env = example_env, oe_detokenizer = None, oe_max_model_len = 3\<rparr>"

text \<open>A group that runs gets two samples; both sequences reach the maximal length.\<close>

definition example_running :: scheduler where
  "example_running = (example_scheduler [])\<lparr>sch_waiting := [1], sch_running := [0],
     sch_groups := (\<lambda>r. if r = 0 then sg_apply_op (ChangeStatus 0 RUNNING) (example_groups 0) else example_groups r)\<rparr>"

definition example_samples :: "sequence_output list" where
  "example_samples = map (\<lambda>t. \<lparr>so_parent_seq_id = 0, so_output_token = t, so_logprobs = [(t, example_logprob)]\<rparr>) [8, 9]"

lemma example_running_well_queued: "well_queued example_running"
  by (simp add: well_queued_def queued_refs_def example_running_def example_scheduler_def group_ok_def) code_simp

lemma processed_outputs_move_no_group_witness:
  "\<exists>q. process_outputs example_output_env (default_params\<lparr>sp_n := 2\<rparr>) 0 [example_samples] False
     \<lparr>op_scheduler = example_running, op_seq_counter = 5\<rparr> = (Inr (), q) \<and>
   map sq_seq_id (sg_seqs (sch_groups (op_scheduler q) 0)) = [0, 5] \<and> sch_running (op_scheduler q) = [0] \<and>
   well_queued (op_scheduler q)"
proof -
  let ?p = "\<lparr>op_scheduler = example_running, op_seq_counter = 5\<rparr>"
  let ?run = "process_outputs example_output_env (default_params\<lparr>sp_n := 2\<rparr>) 0 [example_samples] False ?p"
  have v: "fst ?run = Inr () \<and> map sq_seq_id (sg_seqs (sch_groups (op_scheduler (snd ?run)) 0)) = [0, 5]" by code_simp
  obtain x q where q: "?run = (x, q)" by fastforce
  from processed_outputs_move_no_group [OF q] example_running_well_queued
  have "well_queued (op_scheduler q)" "sch_running (op_scheduler q) = [0]"
    by (simp_all add: queue_lists_def example_running_def)
  then show ?thesis using v q by auto
qed

section \<open>The callback of a step\<close>

text \<open>
  \<^verbatim>\<open>LLMEngine._process_model_outputs\<close> for one request, which the scheduler calls before it preempts or extends a group whose
  last token was sampled asynchronously. \<open>pending\<close> is the step at the head of the output queue; that no request
  is processed twice, the metrics and the messages to the client are left out.
\<close>

record pending_output =
  pn_request_id :: string
  pn_group :: gref
  pn_do_sample :: bool
  pn_params :: sampling_params
  pn_samples :: "sequence_output list"

definition process_pending_request :: "output_env \<Rightarrow> pending_output list \<Rightarrow> string \<Rightarrow> unit sch_py" where
  "process_pending_request oe pending request_id =
     (case List.find (\<lambda>x. pn_request_id x = request_id) pending of
       None \<Rightarrow> return ()
     | Some x \<Rightarrow>
         bind (the_group (pn_group x)) (\<lambda>g.
         bind (lift_sum (sg_is_finished g)) (\<lambda>finished.
         if finished \<or> \<not> pn_do_sample x then return ()
         else if sp_n (pn_params x) = 1 then process_one_sample oe (pn_params x) (pn_group x) (pn_samples x) True
         else raise AssertionError)))"

lemma pending_callback_ok: "callback_ok (env\<lparr>en_callback := Some (process_pending_request oe pending)\<rparr>)"
  unfolding callback_ok_def process_pending_request_def
  by (auto intro!: gentle_intros gentle_one_sample)

end
