(* ===== verification/RequestOutput.thy ===== *)
theory RequestOutput
  imports StopChecker
begin

text \<open>
  \<^verbatim>\<open>vllm/outputs.py\<close>: what a request returns to the client after a step, from the sequences of its group. The
  prompt as a string is not part of the model; the log probabilities of the prompt, an attribute of the group,
  are an argument. With \<open>use_cache\<close> the objects of the last call are used again; of this only
  the index of an output, which is then its rank, can be seen in the values.
\<close>

section \<open>State\<close>

record completion_output =
  co_index :: nat
  co_text :: string
  co_token_ids :: "int list"
  co_cumulative_logprob :: "rat option"
  co_logprobs :: "(int, logprob) dict list option"
  co_finish_reason :: "string option"
  co_stop_reason :: "stop_reason option"

record request_output =
  rq_request_id :: string
  rq_prompt_token_ids :: "int list option"
  rq_encoder_prompt_token_ids :: "int list option"
  rq_prompt_logprobs :: "(int, logprob) dict option list option"
  rq_outputs :: "completion_output list"
  rq_finished :: bool
  rq_metrics :: request_metrics
  rq_lora_int_id :: "int option"

definition completion_finished :: "completion_output \<Rightarrow> bool" where
  "completion_finished c \<longleftrightarrow> co_finish_reason c \<noteq> None"

definition seq_prompt_token_ids :: "'mm sequence \<Rightarrow> int list option" where
  "seq_prompt_token_ids s =
     (if sq_from_decoder_prompt s then Some (in_prompt_token_ids (sq_inputs s))
      else in_encoder_prompt_token_ids (sq_inputs s))"

definition seq_get_cumulative_logprob :: "'mm sequence \<Rightarrow> rat" where
  "seq_get_cumulative_logprob s = sd_cumulative_logprob (sq_data s)"

section \<open>One sequence\<close>

text \<open>The output, and whether it comes after the first one with generated tokens.\<close>

definition complete_seq :: "sampling_params \<Rightarrow> nat \<Rightarrow> ('mm sequence, completion_output \<times> bool) py" where
  "complete_seq prms index =
     (let delta = (sp_output_kind prms = DELTA); include_logprobs = (sp_logprobs prms \<noteq> None) in
      bind (get_output_text_to_return (sp_output_text_buffer_length prms) delta) (\<lambda>output_text.
      bind (get_output_token_ids_to_return delta) (\<lambda>output_token_ids.
      bind (gets id) (\<lambda>seq.
      let tokens = tokens_of output_token_ids; num_output_tokens = int (length tokens);
          output_logprobs = (if include_logprobs then Some (sq_output_logprobs seq) else None);
          output_logprobs = (if delta \<and> output_logprobs \<noteq> None \<and> output_logprobs \<noteq> Some []
            then map_option (\<lambda>lps. slice_from lps (- num_output_tokens)) output_logprobs else output_logprobs)
      in return (\<lparr>co_index = index, co_text = output_text, co_token_ids = tokens,
           co_cumulative_logprob = (if include_logprobs then Some (seq_get_cumulative_logprob seq) else None),
           co_logprobs = output_logprobs, co_finish_reason = get_finished_reason (sq_status seq),
           co_stop_reason = sq_stop_reason seq\<rparr>,
         delta \<and> num_output_tokens < sd_get_output_len (sq_data seq))))))"

text \<open>\<open>seqs.index(seq)\<close>, by the ids of the sequences.\<close>

definition index_in :: "int list \<Rightarrow> int \<Rightarrow> nat" where
  "index_in ids i = length (takeWhile (\<lambda>j. j \<noteq> i) ids)"

definition on_member :: "int \<Rightarrow> ('mm sequence, 'a) py \<Rightarrow> ('mm sequence_group, 'a) py" where
  "on_member i m =
     bind (gets (\<lambda>g. List.find (\<lambda>q. sq_seq_id q = i) (sg_seqs g))) (\<lambda>found. case found of
       None \<Rightarrow> raise KeyError
     | Some q \<Rightarrow> (case m q of (result, q') \<Rightarrow>
         andthen (modify (\<lambda>g. g\<lparr>sg_seqs := map (\<lambda>p. if sq_seq_id p = i then q' else p) (sg_seqs g)\<rparr>)) (lift_sum result)))"

fun complete_seqs :: "sampling_params \<Rightarrow> bool \<Rightarrow> int list \<Rightarrow> nat \<Rightarrow> int list
    \<Rightarrow> ('mm sequence_group, (completion_output \<times> bool) list) py" where
  "complete_seqs prms use_cache ids rank [] = return []"
| "complete_seqs prms use_cache ids rank (i # rest) =
     bind (on_member i (complete_seq prms (if use_cache then rank else index_in ids i))) (\<lambda>c.
     bind (complete_seqs prms use_cache ids (Suc rank) rest) (\<lambda>cs. return (c # cs)))"

section \<open>The request\<close>

definition num_returned :: "sampling_params \<Rightarrow> int" where
  "num_returned prms = (case sp_real_n prms of None \<Rightarrow> sp_n prms | Some n \<Rightarrow> if n = 0 then sp_n prms else n)"

text \<open>\<open>sorted\<close> is stable, also in reverse.\<close>

definition top_n_seqs :: "sampling_params \<Rightarrow> 'mm sequence list \<Rightarrow> 'mm sequence list" where
  "top_n_seqs prms seqs =
     (if length seqs = 1 then seqs
      else slice_to (sort_key (\<lambda>s. - seq_get_cumulative_logprob s) seqs) (num_returned prms))"

definition from_seq_group :: "sampling_params option \<Rightarrow> bool \<Rightarrow> rat \<Rightarrow> (int, logprob) dict option list option
    \<Rightarrow> ('mm sequence_group, request_output option) py" where
  "from_seq_group sampling_params use_cache now prompt_logprobs = (case sampling_params of
     None \<Rightarrow> raise ValueError
   | Some prms \<Rightarrow>
       bind (gets sg_is_finished) (\<lambda>r.
       bind (lift_sum r) (\<lambda>finished.
       if sp_output_kind prms = FINAL_ONLY \<and> \<not> finished then return None
       else
         bind (gets sg_seqs) (\<lambda>seqs.
         bind (complete_seqs prms use_cache (map sq_seq_id seqs) 0 (map sq_seq_id (top_n_seqs prms seqs))) (\<lambda>cs.
         let include_prompt = (\<not> list_ex snd cs) in
         andthen (bind (gets first_seq) (\<lambda>r. if include_prompt then bind (lift_sum r) (\<lambda>_. return ()) else return ()))
        (andthen (modify (set_finished_time (if finished then Some now else None)))
        (bind (gets id) (\<lambda>g.
         return (Some \<lparr>rq_request_id = sg_request_id g,
           rq_prompt_token_ids = (if include_prompt then seq_prompt_token_ids (hd (sg_seqs g)) else None),
           rq_encoder_prompt_token_ids = (case sg_encoder_seq g of
               None \<Rightarrow> None | Some s \<Rightarrow> if include_prompt then seq_prompt_token_ids s else None),
           rq_prompt_logprobs = (if include_prompt then prompt_logprobs else None),
           rq_outputs = map fst cs, rq_finished = finished, rq_metrics = sg_metrics g,
           rq_lora_int_id = sg_lora_int_id g\<rparr>)))))))))"

section \<open>The best sequences\<close>

lemma index_in_nth: "i \<in> set ids \<Longrightarrow> index_in ids i < length ids \<and> ids ! index_in ids i = i"
  by (induction ids) (auto simp: index_in_def)

text \<open>What is returned of a sequence when not only the news are wanted.\<close>

definition described :: "sampling_params \<Rightarrow> nat \<Rightarrow> 'mm sequence \<Rightarrow> completion_output" where
  "described prms index seq = \<lparr>co_index = index,
     co_text = (if sp_output_text_buffer_length prms \<noteq> 0 \<and> \<not> seq_is_finished seq
       then slice_to (sq_output_text seq) (- sp_output_text_buffer_length prms) else sq_output_text seq),
     co_token_ids = sd_output_token_ids (sq_data seq),
     co_cumulative_logprob = (if sp_logprobs prms = None then None else Some (seq_get_cumulative_logprob seq)),
     co_logprobs = (if sp_logprobs prms = None then None else Some (sq_output_logprobs seq)),
     co_finish_reason = get_finished_reason (sq_status seq), co_stop_reason = sq_stop_reason seq\<rparr>"

lemma complete_seq_whole:
  "sp_output_kind prms \<noteq> DELTA \<Longrightarrow> complete_seq prms index seq = (Inr (described prms index seq, False), seq)"
  by (simp add: complete_seq_def described_def get_output_text_to_return_def get_output_token_ids_to_return_def py_defs Let_def)

lemma on_member_read:
  assumes "sg_inv g" "q \<in> set (sg_seqs g)" "m q = (Inr x, q)"
  shows "on_member (sq_seq_id q) m g = (Inr x, g)"
proof -
  have d: "p = q" if "p \<in> set (sg_seqs g)" "sq_seq_id p = sq_seq_id q" for p
    using assms(1,2) that by (auto simp: sg_inv_def distinct_map inj_on_def)
  have "List.find (\<lambda>p. sq_seq_id p = sq_seq_id q) (sg_seqs g) = Some q"
  proof (cases "List.find (\<lambda>p. sq_seq_id p = sq_seq_id q) (sg_seqs g)")
    case None
    then show ?thesis using assms(2) by (auto simp: find_None_iff)
  next
    case (Some p)
    have "p = q" by (rule d) (use Some in \<open>auto simp: find_Some_iff\<close>)
    then show ?thesis using Some by simp
  qed
  moreover have "map (\<lambda>p. if sq_seq_id p = sq_seq_id q then q else p) (sg_seqs g) = sg_seqs g"
    by (rule map_idI) (use d in auto)
  ultimately show ?thesis using assms(3) by (simp add: on_member_def py_defs lift_sum_def)
qed

lemma complete_seqs_whole:
  assumes "sg_inv g" "sp_output_kind prms \<noteq> DELTA" "set qs \<subseteq> set (sg_seqs g)"
  shows "complete_seqs prms use_cache ids rank (map sq_seq_id qs) g =
    (Inr (map2 (\<lambda>k q. (described prms (if use_cache then k else index_in ids (sq_seq_id q)) q, False))
       [rank..<rank + length qs] qs), g)"
  using assms(3)
proof (induction qs arbitrary: rank)
  case (Cons q qs)
  have "on_member (sq_seq_id q) (complete_seq prms index) g = (Inr (described prms index q, False), g)" for index
    using Cons.prems by (intro on_member_read [OF assms(1)]) (simp_all add: complete_seq_whole [OF assms(2)])
  moreover have "[rank..<rank + length (q # qs)] = rank # [Suc rank..<Suc rank + length qs]"
    by (simp add: upt_conv_Cons del: upt_Suc)
  ultimately show ?case using Cons by (simp add: bind_def return_def del: upt_Suc)
qed (simp add: return_def)

lemma top_n_best:
  assumes "1 \<le> num_returned prms"
  shows "set (top_n_seqs prms seqs) \<subseteq> set seqs"
    "length (top_n_seqs prms seqs) = (if length seqs = 1 then 1 else min (nat (num_returned prms)) (length seqs))"
    "distinct (map sq_seq_id seqs) \<Longrightarrow> distinct (map sq_seq_id (top_n_seqs prms seqs))"
    "p \<in> set seqs \<Longrightarrow> p \<notin> set (top_n_seqs prms seqs) \<Longrightarrow> q \<in> set (top_n_seqs prms seqs) \<Longrightarrow>
      seq_get_cumulative_logprob p \<le> seq_get_cumulative_logprob q"
    "sorted_wrt (\<lambda>p q. seq_get_cumulative_logprob q \<le> seq_get_cumulative_logprob p) (top_n_seqs prms seqs)"
proof -
  let ?f = "\<lambda>s. - seq_get_cumulative_logprob s"
  let ?sorted = "sort_key ?f seqs" and ?n = "nat (num_returned prms)"
  have top: "top_n_seqs prms seqs = (if length seqs = 1 then seqs else take ?n ?sorted)"
    using assms by (simp add: top_n_seqs_def slice_to_def)
  show "set (top_n_seqs prms seqs) \<subseteq> set seqs" using set_take_subset [of ?n ?sorted] by (auto simp: top)
  show "length (top_n_seqs prms seqs) = (if length seqs = 1 then 1 else min (nat (num_returned prms)) (length seqs))"
    by (simp add: top min.commute)
  have "mset (map sq_seq_id ?sorted) = mset (map sq_seq_id seqs)" by simp
  then have "distinct (map sq_seq_id ?sorted) = distinct (map sq_seq_id seqs)" by (rule mset_eq_imp_distinct_iff)
  then show "distinct (map sq_seq_id seqs) \<Longrightarrow> distinct (map sq_seq_id (top_n_seqs prms seqs))"
    by (simp add: top flip: take_map)
  have "sorted (map ?f (take ?n ?sorted @ drop ?n ?sorted))" by (simp del: map_append)
  then have "sorted (map ?f (take ?n ?sorted))" unfolding map_append sorted_append by blast
  then show "sorted_wrt (\<lambda>p q. seq_get_cumulative_logprob q \<le> seq_get_cumulative_logprob p) (top_n_seqs prms seqs)"
    by (cases "length seqs = 1") (auto simp: top sorted_map length_Suc_conv)
  assume p: "p \<in> set seqs" "p \<notin> set (top_n_seqs prms seqs)" and q: "q \<in> set (top_n_seqs prms seqs)"
  have many: "length seqs \<noteq> 1" using p by (auto simp: top split: if_splits)
  then have "p \<in> set (drop ?n ?sorted)" using p by (simp add: top) (metis Un_iff append_take_drop_id set_append set_sort)
  moreover have "sorted (map ?f (take ?n ?sorted @ drop ?n ?sorted))" by (simp del: map_append)
  ultimately have "?f q \<le> ?f p" using q many unfolding map_append sorted_append by (auto simp: top)
  then show "seq_get_cumulative_logprob p \<le> seq_get_cumulative_logprob q" by simp
qed

text \<open>
  C37: a request returns its best sequences. For a group with at least one sequence and distinct ids (\<open>sg_inv\<close>),
  when \<open>n\<close> is at least 1 and the request wants the whole output (cumulative, or final with all its sequences
  finished), the call returns, with cached output objects as without. The outputs describe different sequences of
  the group (the \<open>picks\<close>), as many as were asked for, or all when there are fewer, in the order of their
  cumulative log probability (one of those left out never has a higher one). The index of an output is the position
  of its sequence in the group, and with cached objects its rank. The sequences are left as they are, and the
  request is finished exactly when they all are.
\<close>

theorem best_sequences_returned:
  assumes "sg_inv g" "sg_seqs g \<noteq> []" "1 \<le> num_returned prms"
    and "sp_output_kind prms = CUMULATIVE \<or> sp_output_kind prms = FINAL_ONLY \<and> list_all seq_is_finished (sg_seqs g)"
  shows "\<exists>out g' picks. from_seq_group (Some prms) use_cache now lps g = (Inr (Some out), g') \<and>
    sg_seqs g' = sg_seqs g \<and> (rq_finished out \<longleftrightarrow> list_all seq_is_finished (sg_seqs g)) \<and>
    length picks = (if length (sg_seqs g) = 1 then 1 else min (nat (num_returned prms)) (length (sg_seqs g))) \<and>
    distinct picks \<and> set picks \<subseteq> {..<length (sg_seqs g)} \<and>
    rq_outputs out = map2 (\<lambda>rank i. described prms (if use_cache then rank else i) (sg_seqs g ! i))
      [0..<length picks] picks \<and>
    sorted_wrt (\<lambda>i j. seq_get_cumulative_logprob (sg_seqs g ! j) \<le> seq_get_cumulative_logprob (sg_seqs g ! i)) picks \<and>
    (\<forall>i \<in> set picks. \<forall>j < length (sg_seqs g). j \<notin> set picks \<longrightarrow>
      seq_get_cumulative_logprob (sg_seqs g ! j) \<le> seq_get_cumulative_logprob (sg_seqs g ! i))"
proof -
  let ?ids = "map sq_seq_id (sg_seqs g)" and ?top = "top_n_seqs prms (sg_seqs g)"
  let ?pos = "\<lambda>q. index_in ?ids (sq_seq_id q)"
  let ?picks = "map ?pos ?top"
  let ?outs = "map2 (\<lambda>k q. (described prms (if use_cache then k else ?pos q) q, False)) [0..<length ?top] ?top"
  have d: "distinct ?ids" using assms(1) by (simp add: sg_inv_def)
  have kind: "sp_output_kind prms \<noteq> DELTA" "sp_output_kind prms = FINAL_ONLY \<longrightarrow> list_all seq_is_finished (sg_seqs g)"
    using assms(4) by auto
  have first: "\<exists>s. first_seq g = Inr s" using assms(2) by (auto simp: first_seq_def split: list.split)
  have none: "\<not> list_ex snd ?outs" by (auto simp: list_ex_iff)
  have "\<exists>out g'. from_seq_group (Some prms) use_cache now lps g = (Inr (Some out), g') \<and> sg_seqs g' = sg_seqs g \<and>
      rq_outputs out = map fst ?outs \<and> rq_finished out = list_all seq_is_finished (sg_seqs g)"
    using kind(2) first complete_seqs_whole [OF assms(1) kind(1) top_n_best(1) [OF assms(3)], of use_cache ?ids 0] none
    by (cases "list_all seq_is_finished (sg_seqs g)")
      (auto simp: from_seq_group_def bind_def gets_def andthen_def return_def modify_def lift_sum_def sg_num_eq(4) [OF assms(1)]
        set_finished_time_def Let_def)
  then obtain out g' where run: "from_seq_group (Some prms) use_cache now lps g = (Inr (Some out), g')" "sg_seqs g' = sg_seqs g"
    "rq_outputs out = map fst ?outs" "rq_finished out = list_all seq_is_finished (sg_seqs g)" by blast
  have pos: "?pos q < length (sg_seqs g) \<and> sg_seqs g ! ?pos q = q" if q: "q \<in> set (sg_seqs g)" for q
  proof -
    have i: "?pos q < length ?ids" "?ids ! ?pos q = sq_seq_id q"
      using index_in_nth [of "sq_seq_id q" ?ids] q by auto
    have "sg_seqs g ! ?pos q \<in> set (sg_seqs g)" using i(1) by simp
    then show ?thesis using i d q by (auto simp: distinct_map inj_on_def)
  qed
  have sub: "q \<in> set (sg_seqs g)" if "q \<in> set ?top" for q using top_n_best(1) [OF assms(3)] that by blast
  have "inj_on ?pos (set ?top)" using pos sub by (metis (no_types, lifting) inj_onI)
  moreover have "distinct ?top" using top_n_best(3) [OF assms(3) d] by (simp add: distinct_map)
  ultimately have dist: "distinct ?picks" by (simp add: distinct_map)
  have best: "seq_get_cumulative_logprob (sg_seqs g ! j) \<le> seq_get_cumulative_logprob q"
    if q: "q \<in> set ?top" and j: "j < length (sg_seqs g)" "j \<notin> set ?picks" for q j
  proof -
    have "distinct (sg_seqs g)" using d by (simp add: distinct_map)
    moreover have "?pos (sg_seqs g ! j) < length (sg_seqs g)" "sg_seqs g ! ?pos (sg_seqs g ! j) = sg_seqs g ! j"
      using pos j(1) by auto
    ultimately have "?pos (sg_seqs g ! j) = j" using j(1) by (simp add: nth_eq_iff_index_eq)
    moreover have "?pos (sg_seqs g ! j) \<in> set ?picks" if "sg_seqs g ! j \<in> set ?top" using that by auto
    ultimately have "sg_seqs g ! j \<notin> set ?top" using j(2) by auto
    then show ?thesis by (intro top_n_best(4) [OF assms(3) _ _ q]) (simp_all add: j(1))
  qed
  have ordered: "sorted_wrt (\<lambda>i j. seq_get_cumulative_logprob (sg_seqs g ! j) \<le> seq_get_cumulative_logprob (sg_seqs g ! i)) ?picks"
    unfolding sorted_wrt_map
    by (rule sorted_wrt_mono_rel [OF _ top_n_best(5) [OF assms(3)]]) (use pos sub in auto)
  have outputs: "rq_outputs out = map2 (\<lambda>rank i. described prms (if use_cache then rank else i) (sg_seqs g ! i))
      [0..<length ?picks] ?picks"
    unfolding run(3)
  proof (rule nth_equalityI)
    fix k assume "k < length (map fst ?outs)"
    then have k: "k < length ?top" by simp
    then have "sg_seqs g ! ?pos (?top ! k) = ?top ! k" using pos sub nth_mem by blast
    with k show "map fst ?outs ! k =
        map2 (\<lambda>rank i. described prms (if use_cache then rank else i) (sg_seqs g ! i)) [0..<length ?picks] ?picks ! k"
      by simp
  qed simp
  have inside: "set ?picks \<subseteq> {..<length (sg_seqs g)}" using pos sub by auto
  have best': "\<forall>i \<in> set ?picks. \<forall>j < length (sg_seqs g). j \<notin> set ?picks \<longrightarrow>
      seq_get_cumulative_logprob (sg_seqs g ! j) \<le> seq_get_cumulative_logprob (sg_seqs g ! i)"
  proof (intro ballI allI impI)
    fix i j assume i: "i \<in> set ?picks" and j: "j < length (sg_seqs g)" "j \<notin> set ?picks"
    then obtain q where q: "q \<in> set ?top" "i = ?pos q" by auto
    with best [OF q(1) j] pos sub show
      "seq_get_cumulative_logprob (sg_seqs g ! j) \<le> seq_get_cumulative_logprob (sg_seqs g ! i)" by simp
  qed
  have "length ?picks = (if length (sg_seqs g) = 1 then 1 else min (nat (num_returned prms)) (length (sg_seqs g)))"
    using top_n_best(2) [OF assms(3), of "sg_seqs g"] by simp
  with run(1,2,4) dist outputs ordered best' inside show ?thesis by blast
qed

definition example_candidates :: "unit sequence_group" where
  "example_candidates = sg_init ''r'' (map (\<lambda>(i, lp). (example_seq i)\<lparr>sq_data := (sd_make [1, 2] [4])\<lparr>sd_cumulative_logprob := lp\<rparr>,
     sq_output_logprobs := [[(4, example_logprob)]]\<rparr>) [(7, -3), (8, -1), (9, -2)]) 0 None None None 0"

text \<open>The best two of three sequences, once with the index of the sequence and once with the rank.\<close>

lemma best_sequences_returned_witness:
  "\<forall>use_cache. \<exists>out g' picks. from_seq_group (Some (default_params\<lparr>sp_n := 2\<rparr>)) use_cache 0 None example_candidates = (Inr (Some out), g') \<and>
    map co_index (rq_outputs out) = (if use_cache then [0, 1] else [1, 2]) \<and> distinct picks \<and> length picks = 2 \<and>
    rq_outputs out = map2 (\<lambda>rank i. described (default_params\<lparr>sp_n := 2\<rparr>) (if use_cache then rank else i)
      (sg_seqs example_candidates ! i)) [0..<length picks] picks"
proof
  fix use_cache
  let ?prms = "default_params\<lparr>sp_n := 2\<rparr>"
  have h: "sg_inv example_candidates" "sg_seqs example_candidates \<noteq> []" "1 \<le> num_returned ?prms"
    by (code_simp, code_simp, simp add: num_returned_def default_params_def)
  have k: "sp_output_kind ?prms = CUMULATIVE \<or> sp_output_kind ?prms = FINAL_ONLY \<and> list_all seq_is_finished (sg_seqs example_candidates)"
    by (simp add: default_params_def)
  have n: "num_returned ?prms = 2" "length (sg_seqs example_candidates) = 3"
    by (simp_all add: num_returned_def default_params_def example_candidates_def sg_init_def)
  have v: "case from_seq_group (Some ?prms) True 0 None example_candidates of (Inr (Some out), g') \<Rightarrow> map co_index (rq_outputs out) = [0, 1]
      | _ \<Rightarrow> False" "case from_seq_group (Some ?prms) False 0 None example_candidates of (Inr (Some out), g') \<Rightarrow> map co_index (rq_outputs out) = [1, 2]
      | _ \<Rightarrow> False" by code_simp+
  from best_sequences_returned [OF h k, of use_cache 0 None] v n
  show "\<exists>out g' picks. from_seq_group (Some ?prms) use_cache 0 None example_candidates = (Inr (Some out), g') \<and>
    map co_index (rq_outputs out) = (if use_cache then [0, 1] else [1, 2]) \<and> distinct picks \<and> length picks = 2 \<and>
    rq_outputs out = map2 (\<lambda>rank i. described ?prms (if use_cache then rank else i)
      (sg_seqs example_candidates ! i)) [0..<length picks] picks"
    by (cases use_cache) fastforce+
qed

section \<open>Two surprises\<close>

text \<open>
  With the objects of the last call (\<open>use_cache\<close>) an output has its rank as its index, otherwise the index of its
  sequence. The ranks change from step to step, so the deltas of different sequences can arrive under one index.
\<close>

lemma cached_index_is_rank:
  "let prms = default_params\<lparr>sp_n := 3, sp_output_kind := DELTA\<rparr>;
       indices = (\<lambda>use_cache. case from_seq_group (Some prms) use_cache 0 None example_candidates of
         (Inr (Some out), g') \<Rightarrow> map co_index (rq_outputs out) | _ \<Rightarrow> [])
   in indices False = [1, 2, 0] \<and> indices True = [0, 1, 2]"
  by code_simp

text \<open>
  A streamed output without new tokens carries all log probabilities again, because the slice from \<open>-0\<close> is the
  whole list. Here the second call has nothing new for any sequence.
\<close>

lemma empty_delta_repeats_logprobs:
  "let prms = default_params\<lparr>sp_n := 3, sp_output_kind := DELTA, sp_logprobs := Some (Count 1)\<rparr>;
       call = (\<lambda>g. from_seq_group (Some prms) False 0 None g)
   in case call (snd (call example_candidates)) of
        (Inr (Some out), g') \<Rightarrow> map co_token_ids (rq_outputs out) = [[], [], []] \<and>
          map (\<lambda>c. map_option length (co_logprobs c)) (rq_outputs out) = [Some 1, Some 1, Some 1]
      | _ \<Rightarrow> False"
  by code_simp

end
