(* ===== verification/Spec2Isabelle.thy ===== *)
theory Spec2Isabelle
  imports Evictor CpuKvContentCache GdnPrefix SchedulerCore NaiveBlock PrefixHash PrefixCaching
    PrefixIndex PrefixCorrect CpuGpuAllocator BlockTable Sequence SequenceGroup
    MambaCache ReasoningParser CacheNamespace BlockManager BlockManagerCorrect
    Scheduler ScheduleStep SchedulerFrame SchedulerCorrect SchedulerQueues SchedulerReach
    SamplingParams Detokenizer StopChecker OutputProcessor RequestOutput
begin

text \<open>
  \<^bold>\<open>The program.\<close> A fork of vLLM 0.6.3 that serves a hybrid model (attention and Gated-DeltaNet layers).
  Its own logic is the scheduler's view of the KV cache: which physical blocks hold which tokens, which
  freed content can be used again, which recurrent states are kept, and what one scheduling step may do.
  A request is a \<open>SequenceGroup\<close> of sequences. The \<open>Scheduler\<close> keeps it in the queue of those that wait, run or are swapped out, moves
  it between them step by step, and tells the workers what to compute. It asks the \<open>BlockSpaceManagerV2\<close> whether it can
  be allocated; the manager keeps a \<open>BlockTable\<close> per sequence, the tables take their blocks from the
  \<open>CpuGpuBlockAllocator\<close>, which passes each call to the allocator of a device, naive or prefix-caching;
  the latter asks its evictor which cached block to give up and may load content from, and spill it to,
  the \<open>CpuKvContentCache\<close>. Beside the blocks, \<open>GdnPrefixStatePolicy\<close> decides for which prefixes of a prompt
  a recurrent state is captured, kept and restored, and the workers follow it; \<open>MambaCacheManager\<close> gives
  each running sequence its slot of recurrent state. The tokens that come out are turned into text by the
  \<open>Detokenizer\<close>; the \<open>StopChecker\<close> decides from the \<open>SamplingParams\<close> whether the sequence is finished and what is cut off;
  the text is streamed to the client and split into reasoning and content by the reasoning parsers.

  \<^bold>\<open>Theories.\<close> Names of definitions are those of the source, with a prefix for the class where two
  classes share a method name (\<open>nv_\<close> naive allocator, \<open>pc_\<close> prefix-caching allocator, \<open>cg_\<close> both devices,
  \<open>bt_\<close> and \<open>blist_\<close> block table, \<open>bm_\<close> block manager, \<open>ck_\<close> CPU tier, \<open>gp_\<close> and \<open>wg_\<close> the GDN policy and
  its worker, \<open>sd_\<close>, \<open>sq_\<close>, \<open>sg_\<close>, \<open>gm_\<close> sequences, groups and their metadata).
  \<^item> \<open>Prelude\<close>: Python state and exceptions (\<open>py\<close>), their weakest preconditions, dicts and deques.
    \<open>PyStrings\<close>: \<open>in\<close>, \<open>find\<close>, \<open>partition\<close> and slices of strings.
  \<^item> \<open>Evictor\<close> (\<^verbatim>\<open>vllm/core/evictor_v2.py\<close>): both evictors and the choice between them. The base class is
    the locale \<open>evictor_interface\<close>, interpreted by both and by the object that is dispatched on.
  \<^item> \<open>CpuKvContentCache\<close> (\<^verbatim>\<open>vllm/core/block/cpu_kv_content_cache.py\<close> and the transfer order of the worker):
    the index of the CPU tier, its step protocol and what the copies of a step do to the contents.
  \<^item> \<open>GdnPrefix\<close> (\<^verbatim>\<open>qwen3_6_scripts/gdn_prefix.py\<close>, the state cache of \<^verbatim>\<open>qwen3_5.py\<close>): keys, capture points,
    segment boundaries, the residency policy and the worker's cache that mirrors it.
  \<^item> \<open>SchedulerCore\<close> (\<^verbatim>\<open>qwen3_6_scripts/scheduler.py\<close>): the token budget, fast-forward, chunk sizes.
  \<^item> \<open>BlockCommon\<close>, \<open>NaiveBlock\<close> (\<^verbatim>\<open>block/common.py\<close>, \<^verbatim>\<open>block/naive_block.py\<close>): block objects in a store
    of addresses, the pool, reference counts, copy on write; the locale \<open>block_allocator\<close> is what a client
    may assume of an allocator, and both allocators interpret it.
  \<^item> \<open>PrefixHash\<close>, \<open>PrefixCaching\<close> (\<^verbatim>\<open>block/prefix_caching_block.py\<close>): content hashes byte by byte and every
    operation of the prefix-caching allocator. \<open>PrefixIndex\<close>, \<open>PrefixObjects\<close>, \<open>PrefixAlloc\<close>, \<open>PrefixOps\<close>
    and \<open>PrefixCorrect\<close> prove its invariant: first on maps, then on the objects whose stored hashes must
    keep their meaning, then per internal operation, per public operation, and for reachable states.
  \<^item> \<open>CpuGpuAllocator\<close> (\<^verbatim>\<open>block/cpu_gpu_block_allocator.py\<close>): two allocators on one store.
    \<open>BlockTable\<close> (\<^verbatim>\<open>block/block_table.py\<close>): chunks of tokens and the blocks that hold them.
  \<^item> \<open>CacheNamespace\<close>, \<open>BlockManager\<close>, \<open>BlockManagerCorrect\<close> (\<^verbatim>\<open>vllm/core/block_manager_v2.py\<close>): the digest
    that separates the prefixes of different requests, every operation of the manager with its trackers,
    and what it promises the scheduler, composed from the levels below.
  \<^item> \<open>Scheduler\<close>, \<open>ScheduleStep\<close> (\<^verbatim>\<open>qwen3_6_scripts/scheduler.py\<close>): every operation of the scheduler on its
    queues, and \<open>schedule\<close> with the metadata for the workers. \<open>SchedulerFrame\<close> (relations that every operation
    keeps, triples), \<open>SchedulerCorrect\<close> (the loops), \<open>SchedulerQueues\<close> (the step) and \<open>SchedulerReach\<close> (all calls
    of the engine) prove what happens to the groups.
  \<^item> \<open>Sequence\<close>, \<open>SequenceGroup\<close> (\<^verbatim>\<open>qwen3_6_scripts/sequence.py\<close>): token data and the delta protocol
    between scheduler and workers, text returned to the client, groups with their shortcuts, metadata.
  \<^item> \<open>SamplingParams\<close> (\<^verbatim>\<open>vllm/sampling_params.py\<close>): the parameters of a request and which are accepted.
    \<open>Detokenizer\<close> (\<^verbatim>\<open>transformers_utils/detokenizer.py\<close>): text token by token. \<open>StopChecker\<close>
    (\<^verbatim>\<open>engine/output_processor/stop_checker.py\<close>): the end of a sequence, and a request followed from its
    tokens to the text that the client has received. \<open>OutputProcessor\<close> (\<^verbatim>\<open>output_processor/single_step.py\<close>): what
    the samples of a step do to a group and to the scheduler. \<open>RequestOutput\<close> (\<^verbatim>\<open>vllm/outputs.py\<close>): what a
    request returns after a step.
  \<^item> \<open>MambaCache\<close> (\<^verbatim>\<open>qwen3_6_scripts/mamba_cache.py\<close>): state slots. \<open>ReasoningParser\<close>
    (\<^verbatim>\<open>qwen3_6_scripts/reasoning\<close>): the streaming and the whole-text parser and their registry.

  \<^bold>\<open>How state and effects are modelled.\<close> An object is a record, a method a function to the exception or
  the value and the state that is left, also after an exception. Mutable objects that are shared (blocks,
  sequence groups) live in a store; objects with one owner are kept by value in it. Dicts are association lists in
  insertion order, \<open>heapq\<close> lists are sorted lists, floats that are times, rates or watermarks are
  rationals, bytes are 8-bit words, integers that are packed or stored in arrays are checked for their
  range. Strings have code points below 256. Log messages and the texts of exceptions are left out.

  \<^bold>\<open>Parameters.\<close> \<open>sha\<close> is the digest function of hashlib; where results depend on it they assume that it
  gives 32 bytes (\<open>is_digest\<close>), and conclusions about different inputs name the collision they would need.
  \<open>env\<close> gathers what is outside of the scheduler: its configuration, clock, random draws and the callback that
  processes outputs, of which the results assume that it moves no group (\<open>callback_ok\<close>; \<open>pending_callback_ok\<close> proves it of the engine's). \<open>repr\<close> is Python's \<open>repr\<close> of the keys of a mapping, \<open>zero\<close> a zeroed state tensor, \<open>load\<close> an import, \<open>fresh\<close>
  random bytes. The tokenizer is a record of the operations that the code calls; the results on text assume that it
  decodes bytes, so that the text of a sequence of tokens that does not end within a character is a prefix of the text of every
  continuation (\<open>decodes_bytes\<close>); \<open>example_tokenizer_decodes\<close> shows one with characters of two bytes.

  \<^bold>\<open>Recursion and fuel.\<close> Loops over lists are structural. Walks along \<open>prev_block\<close> have as fuel the number
  of objects in the store, which no chain without a cycle exceeds; the invariant \<open>prevs_ok\<close> and the lemmas on
  chains show that the fuel is not used up. A \<open>while\<close> loop of the scheduler is \<open>loop\<close> with one round more than its
  queue is long; \<open>scheduling_loops_end\<close> shows that it ends within that bound, so the exception \<open>OutOfFuel\<close>
  of the model is never raised by it. Chunking, digits and the heap loops of the evictor end by a
  measure.

  \<^bold>\<open>What the lemmas show.\<close> For each component an invariant of its state and that every operation keeps it
  (index of the evictors, of the CPU tier, of the prefix cache, reference counts, budget, trackers, the queues
  of the scheduler); the loops of the scheduler end and lose no request;
  the result of each operation on every branch; refinements (the policy is an LRU cache, the worker's cache
  follows the policy, state slots follow sequences); equivalences (streaming and whole-text parsing, incremental
  and whole detokenization, warm and cold segments, shortcuts of a group); injectivity of hashes and namespaces; and results that need
  several components, above all that a request which \<open>can_allocate\<close> admits is served by \<open>allocate\<close>, that what a
  streaming client receives is exactly the output text, and that processing the outputs of a step leaves the queues
  of the scheduler typed.

  \<^bold>\<open>Bounds of the results.\<close> The reachable states of the prefix-caching allocator are those without CPU tier,
  forks and swaps. Those of the naive allocator are without bulk allocations that run out of blocks
  (\<open>naive_failed_allocation_leaks\<close>). The results on the block manager that speak of blocks take the GPU allocator as the
  only one with block objects, and no sliding window. The results on the queues leave out priority scheduling,
  for which \<open>preempt_ignores_its_mode\<close> shows why. The result on streaming leaves out a minimal length, for which
  \<open>minimal_length_takes_text_back\<close> shows why. The two parsers of reasoning agree on outputs whose start tag is absent
  or comes first (\<open>late_start_tag_differs\<close>, \<open>disabled_thinking_differs\<close>, \<open>second_end_tag_splits_again\<close>), and the
  state slots follow batches without sequences of finished requests (\<open>mamba_clean_up_fails\<close>).

  \<^bold>\<open>Not modelled.\<close> The tool-call parser rests on Python's \<open>re\<close>, \<open>json\<close>, \<open>float\<close> and \<open>ast.literal_eval\<close>, on
  whose results its conversions depend. The rest of the engine, the HTTP
  entry points, workers and executors are wiring and I/O; models, layers and kernels are tensor programs
  on torch and CUDA; LoRA, speculative decoding and the legacy block manager are not reached in the
  served configuration; patch scripts, benchmarks and vendored evaluation code are not part of the server.
\<close>

end
